(* ===== verification/Nr_Prelude.thy ===== *)
theory Nr_Prelude
  imports Main "HOL-Library.Word"
begin

text \<open>
  Shared vocabulary of the NightRun development: the machine types of the Rust sources, the
  outcome type that makes every panic and every early return a value, slices and in-place
  writes with their bounds checks, the iterators \<open>chunks_exact\<close> and \<open>chunks\<close>, checked
  \<open>usize\<close> arithmetic, and byte-order conversions with their round trips.

  Conventions. A \<open>&[u8]\<close> is a list of bytes; a \<open>&mut [u8]\<close> is a list handed in and
  handed back. \<open>usize\<close> is a natural number: the code runs on 64-bit targets, and where an
  operation could leave the range the model says what happens (checked arithmetic below).
  An index or a slice out of range is the outcome \<open>Panic\<close>, never an unspecified value.
\<close>

unbundle bit_operations_syntax

named_theorems outcome_simps \<open>rewriting outcomes, slices and writes\<close>
named_theorems byte_simps \<open>rewriting byte-order conversions\<close>

subsection \<open>Machine types\<close>

type_synonym byte = "8 word"
type_synonym bytes = "8 word list"
type_synonym u16 = "16 word"
type_synonym u32 = "32 word"
type_synonym u64 = "64 word"

definition usize_limit :: nat where
  "usize_limit = 2 ^ 64"

definition checked_add :: "nat \<Rightarrow> nat \<Rightarrow> nat option" where
  "checked_add a b = (if a + b < usize_limit then Some (a + b) else None)"

definition checked_mul :: "nat \<Rightarrow> nat \<Rightarrow> nat option" where
  "checked_mul a b = (if a * b < usize_limit then Some (a * b) else None)"

lemma checked_add_Some [simp]:
  "checked_add a b = Some c \<longleftrightarrow> c = a + b \<and> a + b < usize_limit"
  by (auto simp: checked_add_def)

lemma checked_mul_Some [simp]:
  "checked_mul a b = Some c \<longleftrightarrow> c = a * b \<and> a * b < usize_limit"
  by (auto simp: checked_mul_def)

lemma checked_add_None [simp]: "checked_add a b = None \<longleftrightarrow> usize_limit \<le> a + b"
  by (auto simp: checked_add_def)

lemma checked_mul_None [simp]: "checked_mul a b = None \<longleftrightarrow> usize_limit \<le> a * b"
  by (auto simp: checked_mul_def)

definition div_ceil :: "nat \<Rightarrow> nat \<Rightarrow> nat" where
  "div_ceil a b = (if a mod b = 0 then a div b else a div b + 1)"

subsection \<open>Outcomes: a value, an error return, or a panic\<close>

datatype ('e, 'a) outcome = Ok 'a | Err 'e | Panic

primrec obind :: "('e, 'a) outcome \<Rightarrow> ('a \<Rightarrow> ('e, 'b) outcome) \<Rightarrow> ('e, 'b) outcome" where
  "obind (Ok x) f = f x"
| "obind (Err e) f = Err e"
| "obind Panic f = Panic"

definition ok_or :: "'a option \<Rightarrow> 'e \<Rightarrow> ('e, 'a) outcome" where
  "ok_or x e = (case x of Some v \<Rightarrow> Ok v | None \<Rightarrow> Err e)"

text \<open>\<open>unwrap\<close> and \<open>expect\<close>.\<close>

definition expect :: "'a option \<Rightarrow> ('e, 'a) outcome" where
  "expect x = (case x of Some v \<Rightarrow> Ok v | None \<Rightarrow> Panic)"

lemma expect_simps [simp]: "expect (Some v) = Ok v" "expect None = Panic"
  by (simp_all add: expect_def)

lemma expect_Ok_iff [outcome_simps]: "expect x = Ok v \<longleftrightarrow> x = Some v"
  by (cases x) auto

definition panics :: "('e, 'a) outcome \<Rightarrow> bool" where
  "panics m \<longleftrightarrow> m = Panic"

lemma obind_Ok_iff [outcome_simps]:
  "obind m f = Ok y \<longleftrightarrow> (\<exists>x. m = Ok x \<and> f x = Ok y)"
  by (cases m) auto

lemma obind_Panic_iff [outcome_simps]:
  "obind m f = Panic \<longleftrightarrow> m = Panic \<or> (\<exists>x. m = Ok x \<and> f x = Panic)"
  by (cases m) auto

lemma obind_Err_iff [outcome_simps]:
  "obind m f = Err e \<longleftrightarrow> m = Err e \<or> (\<exists>x. m = Ok x \<and> f x = Err e)"
  by (cases m) auto

lemma ok_or_simps [simp]: "ok_or (Some v) e = Ok v" "ok_or None e = Err e"
  by (simp_all add: ok_or_def)

lemma ok_or_Ok_iff [outcome_simps]: "ok_or x e = Ok v \<longleftrightarrow> x = Some v"
  by (cases x) auto

lemma ok_or_not_Panic [simp]: "ok_or x e \<noteq> Panic" "Panic \<noteq> ok_or x e"
  by (cases x; simp)+

subsection \<open>Slices and writes, with the bounds checks of the code\<close>

definition sub :: "'a list \<Rightarrow> nat \<Rightarrow> nat \<Rightarrow> 'a list" where
  "sub xs a b = take (b - a) (drop a xs)"

definition slice :: "'a list \<Rightarrow> nat \<Rightarrow> nat \<Rightarrow> ('e, 'a list) outcome" where
  "slice xs a b = (if a \<le> b \<and> b \<le> length xs then Ok (sub xs a b) else Panic)"

definition index :: "'a list \<Rightarrow> nat \<Rightarrow> ('e, 'a) outcome" where
  "index xs i = (if i < length xs then Ok (xs ! i) else Panic)"

definition put_at :: "'a list \<Rightarrow> nat \<Rightarrow> 'a list \<Rightarrow> 'a list" where
  "put_at xs off ys = take off xs @ ys @ drop (off + length ys) xs"

definition write_at :: "'a list \<Rightarrow> nat \<Rightarrow> 'a list \<Rightarrow> ('e, 'a list) outcome" where
  "write_at xs off ys =
     (if off + length ys \<le> length xs then Ok (put_at xs off ys) else Panic)"

lemma length_sub [simp]: "length (sub xs a b) = min (b - a) (length xs - a)"
  by (simp add: sub_def min.commute)

lemma nth_sub [simp]: "i < b - a \<Longrightarrow> a + i < length xs \<Longrightarrow> sub xs a b ! i = xs ! (a + i)"
  by (simp add: sub_def add.commute)

lemma sub_zero_length [simp]: "sub xs 0 (length xs) = xs"
  by (simp add: sub_def)

lemma sub_append_sub:
  "a \<le> b \<Longrightarrow> b \<le> c \<Longrightarrow> sub xs a b @ sub xs b c = sub xs a c"
  using take_add [of "b - a" "c - b" "drop a xs"] by (simp add: sub_def)

lemma sub_append_drop: "a \<le> b \<Longrightarrow> sub xs a b @ drop b xs = drop a xs"
proof -
  assume "a \<le> b"
  then have "drop b xs = drop (b - a) (drop a xs)" by simp
  then show ?thesis by (simp add: sub_def del: drop_drop)
qed

lemma sub_sub: "b \<le> d - c \<Longrightarrow> sub (sub xs c d) a b = sub xs (c + a) (c + b)"
  by (simp add: sub_def drop_take take_take min.absorb1 diff_le_mono ac_simps)

lemma sub_same [simp]: "sub xs a a = []"
  by (simp add: sub_def)

lemma slice_Ok_iff [outcome_simps]:
  "slice xs a b = Ok ys \<longleftrightarrow> a \<le> b \<and> b \<le> length xs \<and> ys = sub xs a b"
  by (auto simp: slice_def)

lemma slice_ok [simp]: "a \<le> b \<Longrightarrow> b \<le> length xs \<Longrightarrow> slice xs a b = Ok (sub xs a b)"
  by (simp add: slice_def)

lemma slice_not_Err [simp]: "slice xs a b \<noteq> Err e"
  by (simp add: slice_def)

lemma slice_Panic_iff [outcome_simps]:
  "slice xs a b = Panic \<longleftrightarrow> \<not> (a \<le> b \<and> b \<le> length xs)"
  by (simp add: slice_def)

lemma index_Ok_iff [outcome_simps]: "index xs i = Ok y \<longleftrightarrow> i < length xs \<and> y = xs ! i"
  by (auto simp: index_def)

lemma index_ok [simp]: "i < length xs \<Longrightarrow> index xs i = Ok (xs ! i)"
  by (simp add: index_def)

lemma index_not_Err [simp]: "index xs i \<noteq> Err e"
  by (simp add: index_def)

lemma index_Panic_iff [outcome_simps]: "index xs i = Panic \<longleftrightarrow> length xs \<le> i"
  by (auto simp: index_def)

lemma length_put_at [simp]: "off + length ys \<le> length xs \<Longrightarrow> length (put_at xs off ys) = length xs"
  by (simp add: put_at_def)

lemma write_at_ok [simp]: "off + length ys \<le> length xs \<Longrightarrow> write_at xs off ys = Ok (put_at xs off ys)"
  by (simp add: write_at_def)

lemma write_at_not_Err [simp]: "write_at xs off ys \<noteq> Err e"
  by (simp add: write_at_def)

lemma write_at_Ok_iff [outcome_simps]:
  "write_at xs off ys = Ok zs \<longleftrightarrow> off + length ys \<le> length xs \<and> zs = put_at xs off ys"
  by (auto simp: write_at_def)

lemma write_at_Panic_iff [outcome_simps]:
  "write_at xs off ys = Panic \<longleftrightarrow> length xs < off + length ys"
  by (auto simp: write_at_def)

lemma nth_put_at:
  "off + length ys \<le> length xs \<Longrightarrow> i < length xs \<Longrightarrow>
     put_at xs off ys ! i = (if off \<le> i \<and> i < off + length ys then ys ! (i - off) else xs ! i)"
  by (auto simp: put_at_def nth_append min_def)

text \<open>Reading back what a write stored, and reading beside it.\<close>

lemma sub_put_at_same:
  "off + length ys \<le> length xs \<Longrightarrow> b = off + length ys \<Longrightarrow> sub (put_at xs off ys) off b = ys"
  by (rule nth_equalityI) (auto simp: nth_put_at)

lemma sub_put_at_other:
  "off + length ys \<le> length xs \<Longrightarrow> b \<le> off \<or> off + length ys \<le> a \<Longrightarrow>
     sub (put_at xs off ys) a b = sub xs a b"
  by (rule nth_equalityI) (auto simp: nth_put_at)

subsection \<open>The slice iterators\<close>

text \<open>\<open>chunks_exact(n)\<close> with its remainder, and \<open>chunks(n)\<close> whose last piece may be short.\<close>

function chunks_exact :: "nat \<Rightarrow> 'a list \<Rightarrow> 'a list list" where
  "chunks_exact n xs =
     (if n = 0 \<or> length xs < n then [] else take n xs # chunks_exact n (drop n xs))"
  by pat_completeness auto
termination
  by (relation "measure (\<lambda>(n, xs). length xs)") auto

declare chunks_exact.simps [simp del]

function chunks_rem :: "nat \<Rightarrow> 'a list \<Rightarrow> 'a list" where
  "chunks_rem n xs = (if n = 0 \<or> length xs < n then xs else chunks_rem n (drop n xs))"
  by pat_completeness auto
termination
  by (relation "measure (\<lambda>(n, xs). length xs)") auto

declare chunks_rem.simps [simp del]

function chunks :: "nat \<Rightarrow> 'a list \<Rightarrow> 'a list list" where
  "chunks n xs = (if n = 0 \<or> xs = [] then [] else take n xs # chunks n (drop n xs))"
  by pat_completeness auto
termination
  by (relation "measure (\<lambda>(n, xs). length xs)") auto

declare chunks.simps [simp del]

lemma chunks_exact_short [simp]: "length xs < n \<Longrightarrow> chunks_exact n xs = []"
  by (simp add: chunks_exact.simps)

lemma chunks_rem_short [simp]: "length xs < n \<Longrightarrow> chunks_rem n xs = xs"
  by (simp add: chunks_rem.simps)

lemma chunks_exact_append:
  "length ys = n \<Longrightarrow> 0 < n \<Longrightarrow> chunks_exact n (ys @ xs) = ys # chunks_exact n xs"
  by (simp add: chunks_exact.simps [of n "ys @ xs"])

lemma chunks_rem_append:
  "length ys = n \<Longrightarrow> 0 < n \<Longrightarrow> chunks_rem n (ys @ xs) = chunks_rem n xs"
  by (simp add: chunks_rem.simps [of n "ys @ xs"])

lemma chunks_exact_concat: "0 < n \<Longrightarrow> concat (chunks_exact n xs) @ chunks_rem n xs = xs"
proof (induction n xs rule: chunks_exact.induct)
  case (1 n xs)
  then show ?case
    by (subst chunks_exact.simps, subst chunks_rem.simps) auto
qed

lemma chunks_exact_length: "ys \<in> set (chunks_exact n xs) \<Longrightarrow> length ys = n"
proof (induction n xs rule: chunks_exact.induct)
  case (1 n xs)
  then show ?case
    by (subst (asm) (2) chunks_exact.simps) (auto split: if_splits)
qed

lemma chunks_rem_length: "0 < n \<Longrightarrow> length (chunks_rem n xs) < n"
proof (induction n xs rule: chunks_rem.induct)
  case (1 n xs)
  then show ?case by (subst chunks_rem.simps) auto
qed

lemma concat_chunks: "0 < n \<Longrightarrow> concat (chunks n xs) = xs"
proof (induction n xs rule: chunks.induct)
  case (1 n xs)
  then show ?case by (subst chunks.simps) auto
qed

lemma chunks_bounds: "ys \<in> set (chunks n xs) \<Longrightarrow> 0 < length ys \<and> length ys \<le> n"
proof (induction n xs rule: chunks.induct)
  case (1 n xs)
  then show ?case
    by (subst (asm) (2) chunks.simps) (auto split: if_splits)
qed

subsection \<open>Byte order\<close>

definition be16 :: "byte \<Rightarrow> byte \<Rightarrow> u16" where
  "be16 a b = push_bit 8 (ucast a) OR ucast b"

definition to_be16 :: "u16 \<Rightarrow> bytes" where
  "to_be16 v = [ucast (drop_bit 8 v), ucast v]"

definition be32 :: "byte \<Rightarrow> byte \<Rightarrow> byte \<Rightarrow> byte \<Rightarrow> u32" where
  "be32 a b c d = push_bit 24 (ucast a) OR push_bit 16 (ucast b) OR push_bit 8 (ucast c) OR ucast d"

definition to_be32 :: "u32 \<Rightarrow> bytes" where
  "to_be32 v = [ucast (drop_bit 24 v), ucast (drop_bit 16 v), ucast (drop_bit 8 v), ucast v]"

primrec le_word :: "bytes \<Rightarrow> 'a::len word" where
  "le_word [] = 0"
| "le_word (b # bs) = ucast b OR push_bit 8 (le_word bs)"

primrec to_le :: "nat \<Rightarrow> 'a::len word \<Rightarrow> bytes" where
  "to_le 0 v = []"
| "to_le (Suc n) v = ucast v # to_le n (drop_bit 8 v)"

lemma length_to_be [simp]: "length (to_be16 v) = 2" "length (to_be32 w) = 4"
  by (simp_all add: to_be16_def to_be32_def)

lemma length_to_le [simp]: "length (to_le n v) = n"
  by (induction n arbitrary: v) auto

lemma byte_bit_high [simp]: "8 \<le> n \<Longrightarrow> \<not> bit (b :: byte) n"
  using bit_imp_le_length [of b n] by auto

lemma be16_to_be16 [byte_simps]: "be16 (ucast (drop_bit 8 v)) (ucast v) = v"
  unfolding be16_def
  by (rule bit_word_eqI) (auto simp: bit_simps)

lemma to_be16_be16 [byte_simps]: "to_be16 (be16 a b) = [a, b]"
  unfolding be16_def to_be16_def
  by (auto intro!: bit_word_eqI simp: bit_simps)

lemma be32_to_be32 [byte_simps]:
  "be32 (ucast (drop_bit 24 v)) (ucast (drop_bit 16 v)) (ucast (drop_bit 8 v)) (ucast v) = v"
proof (rule bit_word_eqI)
  fix n
  assume "n < LENGTH(32)"
  then consider "n < 8" | "8 \<le> n" "n < 16" | "16 \<le> n" "n < 24" | "24 \<le> n" "n < 32"
    by fastforce
  then show "bit (be32 (ucast (drop_bit 24 v)) (ucast (drop_bit 16 v)) (ucast (drop_bit 8 v))
      (ucast v)) n \<longleftrightarrow> bit v n"
    by cases (auto simp: be32_def bit_simps)
qed

lemma le_word_to_le:
  "LENGTH('a) \<le> 8 * n \<Longrightarrow> le_word (to_le n v) = (v :: 'a::len word)"
proof -
  have gen: "le_word (to_le n v) = take_bit (8 * n) v" for v :: "'a word"
  proof (induction n arbitrary: v)
    case 0
    then show ?case by simp
  next
    case (Suc n)
    show ?case
      by (rule bit_word_eqI) (auto simp: Suc bit_simps)
  qed
  assume "LENGTH('a) \<le> 8 * n"
  then show ?thesis by (simp add: gen take_bit_word_eq_self)
qed

lemma be16_of_to_be16: "to_be16 v = [a, b] \<Longrightarrow> be16 a b = v"
  by (auto simp: to_be16_def be16_to_be16)

lemma be32_of_to_be32: "to_be32 v = [a, b, c, d] \<Longrightarrow> be32 a b c d = v"
  by (auto simp: to_be32_def be32_to_be32)

lemma bit_le_word: "bit (le_word bs :: 'a::len word) k \<Longrightarrow> k < 8 * length bs"
proof (induction bs arbitrary: k)
  case Nil
  then show ?case by simp
next
  case (Cons b bs)
  show ?case
  proof (cases "k < 8")
    case False
    with Cons.prems have "bit (le_word bs :: 'a word) (k - 8)"
      by (auto simp: bit_simps)
    with Cons.IH show ?thesis by fastforce
  qed simp
qed

lemma to_le_le_word:
  "8 * length bs \<le> LENGTH('a) \<Longrightarrow> to_le (length bs) (le_word bs :: 'a::len word) = bs"
proof (induction bs)
  case Nil
  then show ?case by simp
next
  case (Cons b bs)
  have "ucast (le_word (b # bs) :: 'a word) = b"
    by (rule bit_word_eqI) (use Cons.prems in \<open>auto simp: bit_simps\<close>)
  moreover have "drop_bit 8 (le_word (b # bs) :: 'a word) = le_word bs"
    by (rule bit_word_eqI)
      (use Cons.prems in \<open>auto simp: bit_simps dest: bit_le_word\<close>)
  ultimately show ?case using Cons by simp
qed

text \<open>Fixed-width reads at an offset, each through the slice the code takes.\<close>

definition read_be16 :: "bytes \<Rightarrow> nat \<Rightarrow> ('e, u16) outcome" where
  "read_be16 bs a = obind (slice bs a (a + 2)) (\<lambda>s. Ok (be16 (s ! 0) (s ! 1)))"

definition read_be32 :: "bytes \<Rightarrow> nat \<Rightarrow> ('e, u32) outcome" where
  "read_be32 bs a = obind (slice bs a (a + 4)) (\<lambda>s. Ok (be32 (s ! 0) (s ! 1) (s ! 2) (s ! 3)))"

definition read_le :: "nat \<Rightarrow> bytes \<Rightarrow> nat \<Rightarrow> ('e, 'a::len word) outcome" where
  "read_le n bs a = obind (slice bs a (a + n)) (\<lambda>s. Ok (le_word s))"

lemma read_be16_ok [simp]:
  "a + 2 \<le> length bs \<Longrightarrow> read_be16 bs a = Ok (be16 (bs ! a) (bs ! (a + 1)))"
  by (simp add: read_be16_def)

lemma read_be32_ok [simp]:
  "a + 4 \<le> length bs \<Longrightarrow>
     read_be32 bs a = Ok (be32 (bs ! a) (bs ! (a + 1)) (bs ! (a + 2)) (bs ! (a + 3)))"
  by (simp add: read_be32_def)

lemma read_le_ok [simp]: "a + n \<le> length bs \<Longrightarrow> read_le n bs a = Ok (le_word (sub bs a (a + n)))"
  by (simp add: read_le_def)

lemma read_Panic_iff [outcome_simps]:
  "read_be16 bs a = Panic \<longleftrightarrow> length bs < a + 2"
  "read_be32 bs a = Panic \<longleftrightarrow> length bs < a + 4"
  "read_le n bs a = Panic \<longleftrightarrow> length bs < a + n"
  by (auto simp: read_be16_def read_be32_def read_le_def outcome_simps)

subsection \<open>Reading from concatenations\<close>

lemma unat_of_nat_less: "n < 2 ^ LENGTH('a) \<Longrightarrow> unat (of_nat n :: 'a::len word) = n"
  by (simp add: unat_of_nat)

lemma sub_append_left: "b \<le> length xs \<Longrightarrow> sub (xs @ ys) a b = sub xs a b"
  by (simp add: sub_def drop_append take_append)

lemma sub_append_right: "length xs \<le> a \<Longrightarrow> sub (xs @ ys) a b = sub ys (a - length xs) (b - length xs)"
  by (cases "a \<le> b") (simp_all add: sub_def)

lemma sub_whole: "n = length xs \<Longrightarrow> sub xs 0 n = xs"
  by simp

lemmas sub_appends = sub_append_left sub_append_right sub_whole

text \<open>Records laid end to end: of fixed width, and of any width.\<close>

lemma sub_concat_fixed:
  "\<forall>x \<in> set xs. length (f x) = k \<Longrightarrow> i < length xs \<Longrightarrow> sub (concat (map f xs)) (i * k) (i * k + k) = f (xs ! i)"
proof (induction xs arbitrary: i)
  case (Cons x xs)
  show ?case
  proof (cases i)
    case 0
    then show ?thesis using Cons.prems by (simp add: sub_append_left sub_whole)
  next
    case (Suc j)
    then show ?thesis using Cons by (simp add: sub_append_right add.commute)
  qed
qed simp

lemma length_concat_fixed: "\<forall>x \<in> set xs. length (f x) = k \<Longrightarrow> length (concat (map f xs)) = length xs * k"
  by (induction xs) auto

lemma sub_concat:
  "i < length xss \<Longrightarrow> sub (concat xss) (length (concat (take i xss))) (length (concat (take i xss)) + length (xss ! i)) = xss ! i"
proof (induction xss arbitrary: i)
  case (Cons xs xss)
  then show ?case by (cases i) (simp_all add: sub_append_left sub_append_right)
qed simp

lemma sub_concat_bound:
  "i < length xss \<Longrightarrow> length (concat (take i xss)) + length (xss ! i) \<le> length (concat xss)"
proof (induction xss arbitrary: i)
  case (Cons xs xss)
  then show ?case by (cases i) simp_all
qed simp

subsection \<open>Sequences of writes into one buffer\<close>

primrec write_all :: "'a list \<Rightarrow> (nat \<times> 'a list) list \<Rightarrow> ('e, 'a list) outcome" where
  "write_all xs [] = Ok xs"
| "write_all xs (w # ws) = obind (write_at xs (fst w) (snd w)) (\<lambda>ys. write_all ys ws)"

primrec put_all :: "'a list \<Rightarrow> (nat \<times> 'a list) list \<Rightarrow> 'a list" where
  "put_all xs [] = xs"
| "put_all xs (w # ws) = put_all (put_at xs (fst w) (snd w)) ws"

lemma write_all_ok:
  "\<forall>w \<in> set ws. fst w + length (snd w) \<le> length xs \<Longrightarrow> write_all xs ws = Ok (put_all xs ws)"
  by (induction ws arbitrary: xs) auto

lemma length_put_all [simp]:
  "\<forall>w \<in> set ws. fst w + length (snd w) \<le> length xs \<Longrightarrow> length (put_all xs ws) = length xs"
  by (induction ws arbitrary: xs) auto

lemma write_all_not_Err [simp]: "write_all xs ws \<noteq> Err e"
  by (induction ws arbitrary: xs) (auto simp: outcome_simps)

subsection \<open>Loops that may panic\<close>

text \<open>\<open>for x in xs { body }\<close> over an explicit state, and the assignment \<open>xs[i] = v\<close>.\<close>

primrec ofold :: "('s \<Rightarrow> 'a \<Rightarrow> ('e, 's) outcome) \<Rightarrow> 's \<Rightarrow> 'a list \<Rightarrow> ('e, 's) outcome" where
  "ofold f s [] = Ok s"
| "ofold f s (x # xs) = obind (f s x) (\<lambda>s. ofold f s xs)"

definition set_at :: "'a list \<Rightarrow> nat \<Rightarrow> 'a \<Rightarrow> ('e, 'a list) outcome" where
  "set_at xs i v = (if i < length xs then Ok (xs[i := v]) else Panic)"

definition assert :: "bool \<Rightarrow> ('e, unit) outcome" where
  "assert b = (if b then Ok () else Panic)"

lemma set_at_ok [simp]: "i < length xs \<Longrightarrow> set_at xs i v = Ok (xs[i := v])"
  by (simp add: set_at_def)

lemma assert_simps [simp]: "assert True = Ok ()" "assert False = Panic"
  by (simp_all add: assert_def)

lemma ofold_append: "ofold f s (xs @ ys) = obind (ofold f s xs) (\<lambda>s. ofold f s ys)"
proof (induction xs arbitrary: s)
  case (Cons x xs)
  then show ?case by (cases "f s x") simp_all
qed simp

text \<open>A mapping whose body may panic.\<close>

primrec omap :: "('a \<Rightarrow> ('e, 'b) outcome) \<Rightarrow> 'a list \<Rightarrow> ('e, 'b list) outcome" where
  "omap f [] = Ok []"
| "omap f (x # xs) = obind (f x) (\<lambda>y. obind (omap f xs) (\<lambda>ys. Ok (y # ys)))"

lemma omap_Ok: "(\<And>x. x \<in> set xs \<Longrightarrow> f x = Ok (g x)) \<Longrightarrow> omap f xs = Ok (map g xs)"
  by (induction xs) simp_all


text \<open>A loop whose body always succeeds is a fold; an invariant carries through.\<close>

lemma ofold_Ok:
  assumes "\<And>s x. P s \<Longrightarrow> x \<in> set xs \<Longrightarrow> f s x = Ok (g s x) \<and> P (g s x)" and "P s"
  shows "ofold f s xs = Ok (foldl g s xs) \<and> P (foldl g s xs)"
  using assms by (induction xs arbitrary: s) auto

text \<open>A loop that stores \<open>v i\<close> at index \<open>i\<close> fills the front of the buffer.\<close>

lemma foldl_set_fill: "n \<le> length xs \<Longrightarrow> foldl (\<lambda>xs i. xs[i := v i]) xs [0..<n] = map v [0..<n] @ drop n xs"
proof (induction n)
  case (Suc n)
  then have "drop n xs = xs ! n # drop (Suc n) xs" by (simp add: Cons_nth_drop_Suc)
  with Suc show ?case by (simp add: list_update_append)
qed simp

lemma ofold_fill:
  assumes "\<And>xs' i. length xs' = length xs \<Longrightarrow> i < n \<Longrightarrow> f xs' i = set_at xs' i (v i)" and "n \<le> length xs"
  shows "ofold f xs [0..<n] = Ok (map v [0..<n] @ drop n xs)"
proof -
  have "ofold f xs [0..<n] = Ok (foldl (\<lambda>xs i. xs[i := v i]) xs [0..<n])"
    by (rule conjunct1 [OF ofold_Ok [where P = "\<lambda>ys. length ys = length xs"]]) (use assms in auto)
  then show ?thesis by (simp add: foldl_set_fill assms(2))
qed

lemma length_8_cons:
  assumes "8 \<le> length xs"
  obtains a0 a1 a2 a3 a4 a5 a6 a7 ys where "xs = a0 # a1 # a2 # a3 # a4 # a5 # a6 # a7 # ys"
  using assms by (auto simp: numeral_eq_Suc Suc_le_length_iff)

end
