(* ===== verification/Nr_Crc32.thy ===== *)
theory Nr_Crc32
  imports Nr_Prelude
begin

text \<open>
  CRC-32 as the repository computes it: the slicing-by-8 hasher of
  \<^verbatim>\<open>crates/nr-model/src/crc32.rs\<close> (tables, streaming update, finish) and the bit-at-a-time
  \<open>crc32\<close> of \<^verbatim>\<open>crates/nr-mcp/src/lib.rs\<close>.

  The register step is linear over exclusive or, which carries everything here: the eight
  tables hold the images of a byte under one to eight register bytes, so one slicing step is
  eight classic steps; both implementations compute the same function; splitting the input
  at any point does not change the result (the locale \<open>stream_hash\<close>, interpreted on the
  hasher); and a difference of up to four consecutive bytes always changes the checksum.
\<close>

named_theorems crc_linear \<open>the register steps distribute over exclusive or\<close>

subsection \<open>The register step and the tables\<close>

definition crc_poly :: u32 where
  "crc_poly = 0xEDB88320"

definition crc_bit :: "u32 \<Rightarrow> u32" where
  "crc_bit c = (if c AND 1 \<noteq> 0 then crc_poly XOR drop_bit 1 c else drop_bit 1 c)"

text \<open>\<open>make_tables\<close>: the first table runs the register over each byte value, each further
  table pushes the previous one through the first.\<close>

definition table_first :: "u32 list" where
  "table_first = map (\<lambda>i. (crc_bit ^^ 8) (of_nat i)) [0..<256]"

definition table_next :: "u32 list \<Rightarrow> u32 list" where
  "table_next prev =
     map (\<lambda>i. table_first ! unat ((prev ! i) AND 0xff) XOR drop_bit 8 (prev ! i)) [0..<256]"

primrec make_table :: "nat \<Rightarrow> u32 list" where
  "make_table 0 = table_first"
| "make_table (Suc s) = table_next (make_table s)"

definition make_tables :: "u32 list list" where
  "make_tables = map make_table [0..<8]"

subsection \<open>The streaming hasher\<close>

definition crc_new :: u32 where
  "crc_new = 0xffffffff"

definition crc_step8 :: "u32 \<Rightarrow> bytes \<Rightarrow> u32" where
  "crc_step8 c w =
     (let lo = le_word (take 4 w) XOR c
      in (make_tables ! 7) ! unat (lo AND 0xff)
         XOR (make_tables ! 6) ! unat (drop_bit 8 lo AND 0xff)
         XOR (make_tables ! 5) ! unat (drop_bit 16 lo AND 0xff)
         XOR (make_tables ! 4) ! unat (drop_bit 24 lo)
         XOR (make_tables ! 3) ! unat (w ! 4)
         XOR (make_tables ! 2) ! unat (w ! 5)
         XOR (make_tables ! 1) ! unat (w ! 6)
         XOR (make_tables ! 0) ! unat (w ! 7))"

definition crc_step1 :: "u32 \<Rightarrow> byte \<Rightarrow> u32" where
  "crc_step1 c b = (make_tables ! 0) ! unat ((c XOR ucast b) AND 0xff) XOR drop_bit 8 c"

definition crc_update :: "u32 \<Rightarrow> bytes \<Rightarrow> u32" where
  "crc_update c data = foldl crc_step1 (foldl crc_step8 c (chunks_exact 8 data)) (chunks_rem 8 data)"

definition crc_finish :: "u32 \<Rightarrow> u32" where
  "crc_finish c = c XOR 0xffffffff"

definition crc_checksum :: "bytes \<Rightarrow> u32" where
  "crc_checksum data = crc_finish (crc_update crc_new data)"

subsection \<open>The bit-at-a-time checksum of the datagram framing\<close>

definition mcp_crc_round :: "u32 \<Rightarrow> u32" where
  "mcp_crc_round crc = (let mask = 0 - (crc AND 1) in drop_bit 1 crc XOR (crc_poly AND mask))"

definition mcp_crc_byte :: "u32 \<Rightarrow> byte \<Rightarrow> u32" where
  "mcp_crc_byte crc byte = (mcp_crc_round ^^ 8) (crc XOR ucast byte)"

definition mcp_crc32 :: "bytes \<Rightarrow> u32" where
  "mcp_crc32 data = NOT (foldl mcp_crc_byte 0xffffffff data)"

subsection \<open>Linearity\<close>

lemma and_one_iff: "(c :: u32) AND 1 \<noteq> 0 \<longleftrightarrow> bit c 0"
  by (simp add: and_one_eq bit_0 odd_iff_mod_2_eq_one)

lemma crc_bit_alt: "crc_bit c = (if bit c 0 then crc_poly else 0) XOR drop_bit 1 c"
  by (simp add: crc_bit_def and_one_iff)

lemma crc_bit_xor [crc_linear]: "crc_bit (x XOR y) = crc_bit x XOR crc_bit y"
  by (rule bit_word_eqI) (auto simp: crc_bit_alt bit_simps)

definition crc_byte :: "u32 \<Rightarrow> u32" where
  "crc_byte c = (crc_bit ^^ 8) c"

lemma crc_bit_pow_xor [crc_linear]: "(crc_bit ^^ n) (x XOR y) = (crc_bit ^^ n) x XOR (crc_bit ^^ n) y"
  by (induction n) (simp_all add: crc_bit_xor)

lemma crc_byte_xor [crc_linear]: "crc_byte (x XOR y) = crc_byte x XOR crc_byte y"
  by (simp add: crc_byte_def crc_linear)

lemma crc_byte_pow_xor [crc_linear]:
  "(crc_byte ^^ n) (x XOR y) = (crc_byte ^^ n) x XOR (crc_byte ^^ n) y"
  by (induction n) (simp_all add: crc_byte_xor)

lemma crc_bit_pow_clear: "n \<le> 32 \<Longrightarrow> take_bit n x = 0 \<Longrightarrow> (crc_bit ^^ n) x = drop_bit n x"
proof (induction n)
  case 0
  then show ?case by simp
next
  case (Suc n)
  have low: "\<not> bit x k" if "k < Suc n" for k
    using Suc.prems(2) that by (metis bit_0_eq bit_take_bit_iff bot_apply bot_bool_def)
  then have "take_bit n x = 0"
    by (intro bit_word_eqI) (simp add: bit_simps)
  with Suc have "(crc_bit ^^ n) x = drop_bit n x" by simp
  then have "(crc_bit ^^ Suc n) x = crc_bit (drop_bit n x)" by simp
  also have "\<dots> = drop_bit 1 (drop_bit n x)"
    using low [of n] by (simp add: crc_bit_alt bit_simps)
  finally show ?case by (simp add: drop_bit_drop_bit)
qed

lemma crc_byte_clear: "take_bit 8 x = 0 \<Longrightarrow> crc_byte x = drop_bit 8 x"
  by (simp add: crc_byte_def crc_bit_pow_clear)

text \<open>A byte one place higher in the register comes down one place per step.\<close>

lemma crc_byte_push:
  fixes x :: u32
  assumes "take_bit 8 x = x" and "m \<le> 16"
  shows "crc_byte (push_bit (8 + m) x) = push_bit m x"
proof -
  have hi: "k < 8" if "bit x k" for k
    using that by (subst (asm) assms(1) [symmetric]) (simp add: bit_take_bit_iff)
  have "take_bit 8 (push_bit (8 + m) x) = 0"
    by (rule bit_word_eqI) (simp add: bit_simps)
  moreover have "drop_bit 8 (push_bit (8 + m) x) = push_bit m x"
    by (rule bit_word_eqI) (use assms(2) in \<open>auto simp: bit_simps dest: hi\<close>)
  ultimately show ?thesis by (simp add: crc_byte_clear)
qed

lemma crc_byte_pow_push:
  fixes x :: u32
  assumes "take_bit 8 x = x" and "m \<le> 16"
  shows "(crc_byte ^^ Suc n) (push_bit (8 + m) x) = (crc_byte ^^ n) (push_bit m x)"
  using crc_byte_push [OF assms] by (simp only: funpow_Suc_right comp_apply)

subsection \<open>The tables are powers of the byte step\<close>

lemma and_0xff: "(x :: u32) AND 255 = take_bit 8 x"
  by (simp add: take_bit_eq_mask mask_eq_exp_minus_1)

lemma unat_and_0xff: "unat ((x :: u32) AND 255) < 256"
  by (simp only: and_0xff unsigned_take_bit_eq) (simp add: take_bit_eq_mod)

lemma unat_drop_24: "unat (drop_bit 24 (x :: u32)) < 256"
proof -
  have "drop_bit 24 x = drop_bit 24 x AND 255"
    by (rule bit_word_eqI) (auto simp: and_0xff bit_simps dest: bit_imp_le_length)
  then show ?thesis using unat_and_0xff [of "drop_bit 24 x"] by simp
qed

lemma take_bit_8_byte [simp]: "take_bit 8 (ucast (b :: byte) :: u32) = ucast b"
  by (rule bit_word_eqI) (auto simp: bit_simps dest: bit_imp_le_length)

lemma table_first_nth: "i < 256 \<Longrightarrow> table_first ! i = crc_byte (of_nat i)"
  by (simp add: table_first_def crc_byte_def)

lemma crc_byte_split: "crc_byte x = table_first ! unat (x AND 255) XOR drop_bit 8 x"
proof -
  have "crc_byte x = crc_byte (take_bit 8 x XOR (x XOR take_bit 8 x))"
    by (simp add: xor.left_commute)
  also have "\<dots> = crc_byte (take_bit 8 x) XOR crc_byte (x XOR take_bit 8 x)"
    by (rule crc_byte_xor)
  also have "crc_byte (x XOR take_bit 8 x) = drop_bit 8 (x XOR take_bit 8 x)"
    by (rule crc_byte_clear) (simp add: take_bit_xor)
  also have "\<dots> = drop_bit 8 x"
    by (rule bit_word_eqI) (simp add: bit_simps)
  finally show ?thesis
    using unat_and_0xff [of x] by (simp add: table_first_nth and_0xff)
qed

lemma make_table_nth: "i < 256 \<Longrightarrow> make_table s ! i = (crc_byte ^^ Suc s) (of_nat i)"
proof (induction s)
  case 0
  then show ?case by (simp add: table_first_nth)
next
  case (Suc s)
  then show ?case
    by (simp add: table_next_def flip: crc_byte_split)
qed

lemma make_tables_nth:
  "s < 8 \<Longrightarrow> unat x < 256 \<Longrightarrow> (make_tables ! s) ! unat (x :: u32) = (crc_byte ^^ Suc s) x"
  by (simp only: make_tables_def nth_map nth_upt length_upt) (simp add: make_table_nth)

lemma unat_byte_ucast: "unat (ucast (b :: byte) :: u32) = unat b"
  using unsigned_less [of b, where ?'a = nat]
  by (simp add: unsigned_ucast_eq take_bit_nat_eq_self)

lemma make_tables_nth_byte:
  "s < 8 \<Longrightarrow> (make_tables ! s) ! unat (b :: byte) = (crc_byte ^^ Suc s) (ucast b)"
  using make_tables_nth [of s "ucast b"] unsigned_less [of b, where ?'a = nat] by (simp add: unat_byte_ucast)

subsection \<open>The two update loops compute the byte step\<close>

lemma crc_step1_eq: "crc_step1 c b = crc_byte (c XOR ucast b)"
proof -
  have "drop_bit 8 (ucast b :: u32) = 0"
    by (rule bit_word_eqI) (simp add: bit_simps)
  then show ?thesis
    by (simp add: crc_step1_def crc_byte_split make_tables_def)
qed

lemma crc_byte_pow_split4:
  fixes x :: u32
  shows "(crc_byte ^^ (n + 4)) x =
      (crc_byte ^^ (n + 4)) (x AND 255)
      XOR (crc_byte ^^ (n + 3)) (drop_bit 8 x AND 255)
      XOR (crc_byte ^^ (n + 2)) (drop_bit 16 x AND 255)
      XOR (crc_byte ^^ (n + 1)) (drop_bit 24 x)"
proof -
  let ?b0 = "x AND 255" and ?b1 = "drop_bit 8 x AND 255"
    and ?b2 = "drop_bit 16 x AND 255" and ?b3 = "drop_bit 24 x"
  have x: "x = ?b0 XOR push_bit 8 ?b1 XOR push_bit 16 ?b2 XOR push_bit 24 ?b3"
  proof (rule bit_word_eqI)
    fix k
    assume "k < LENGTH(32)"
    then consider "k < 8" | "8 \<le> k" "k < 16" | "16 \<le> k" "k < 24" | "24 \<le> k" "k < 32"
      by fastforce
    then show "bit x k \<longleftrightarrow> bit (?b0 XOR push_bit 8 ?b1 XOR push_bit 16 ?b2 XOR push_bit 24 ?b3) k"
      by cases (auto simp: and_0xff bit_simps)
  qed
  have b3: "take_bit 8 ?b3 = ?b3"
    by (rule bit_word_eqI) (auto simp: bit_simps dest: bit_imp_le_length)
  have mv: "(crc_byte ^^ Suc m) (push_bit (8 + k) y) = (crc_byte ^^ m) (push_bit k y)"
    if "take_bit 8 y = y" "k \<le> 16" for m k and y :: u32
    using crc_byte_pow_push [OF that] .
  have m1: "(crc_byte ^^ (n + 4)) (push_bit 8 ?b1) = (crc_byte ^^ (n + 3)) ?b1"
    using mv [of ?b1 0 "n + 3"] by (simp add: and_0xff numeral_eq_Suc)
  have m2: "(crc_byte ^^ (n + 4)) (push_bit 16 ?b2) = (crc_byte ^^ (n + 2)) ?b2"
    using mv [of ?b2 8 "n + 3"] mv [of ?b2 0 "n + 2"] by (simp add: and_0xff numeral_eq_Suc)
  have m3: "(crc_byte ^^ (n + 4)) (push_bit 24 ?b3) = (crc_byte ^^ (n + 1)) ?b3"
    using mv [of ?b3 16 "n + 3"] mv [of ?b3 8 "n + 2"] mv [of ?b3 0 "n + 1"] b3
    by (simp add: numeral_eq_Suc)
  have "(crc_byte ^^ (n + 4)) x = (crc_byte ^^ (n + 4))
      (?b0 XOR push_bit 8 ?b1 XOR push_bit 16 ?b2 XOR push_bit 24 ?b3)"
    by (subst x) (rule refl)
  then show ?thesis
    by (simp only: crc_byte_pow_xor m1 m2 m3)
qed

definition crc_bytes :: "u32 \<Rightarrow> bytes \<Rightarrow> u32" where
  "crc_bytes c bs = foldl (\<lambda>c b. crc_byte (c XOR ucast b)) c bs"

lemma crc_bytes_simps [simp]:
  "crc_bytes c [] = c"
  "crc_bytes c (b # bs) = crc_bytes (crc_byte (c XOR ucast b)) bs"
  "crc_bytes c (xs @ ys) = crc_bytes (crc_bytes c xs) ys"
  by (simp_all add: crc_bytes_def)

lemma length_8_cases:
  assumes "length w = 8"
  obtains a0 a1 a2 a3 a4 a5 a6 a7 where "w = [a0, a1, a2, a3, a4, a5, a6, a7]"
  using assms by (auto simp: numeral_eq_Suc length_Suc_conv)

lemma le_word_4:
  "(le_word [a, b, c, d] :: u32) =
     ucast a XOR push_bit 8 (ucast b) XOR push_bit 16 (ucast c) XOR push_bit 24 (ucast d)"
proof (rule bit_word_eqI)
  fix k
  assume "k < LENGTH(32)"
  then consider "k < 8" | "8 \<le> k" "k < 16" | "16 \<le> k" "k < 24" | "24 \<le> k" "k < 32"
    by fastforce
  then show "bit (le_word [a, b, c, d] :: u32) k \<longleftrightarrow>
      bit (ucast a XOR push_bit 8 (ucast b) XOR push_bit 16 (ucast c) XOR push_bit 24 (ucast d) :: u32) k"
    by cases (auto simp: bit_simps)
qed

lemma crc_byte_pow_le_word:
  "(crc_byte ^^ (n + 4)) (le_word [a, b, c, d] XOR x) =
     (crc_byte ^^ n) (crc_bytes x [a, b, c, d])"
proof -
  have mv: "(crc_byte ^^ Suc m) (push_bit (8 + k) (ucast (y :: byte))) =
      (crc_byte ^^ m) (push_bit k (ucast y))" if "k \<le> 16" for m k y
    using that by (rule crc_byte_pow_push [OF take_bit_8_byte])
  have b: "(crc_byte ^^ (n + 4)) (push_bit 8 (ucast b)) = (crc_byte ^^ (n + 3)) (ucast b)"
    using mv [of 0 "n + 3" b] by (simp add: numeral_eq_Suc)
  have c: "(crc_byte ^^ (n + 4)) (push_bit 16 (ucast c)) = (crc_byte ^^ (n + 2)) (ucast c)"
    using mv [of 8 "n + 3" c] mv [of 0 "n + 2" c] by (simp add: numeral_eq_Suc)
  have d: "(crc_byte ^^ (n + 4)) (push_bit 24 (ucast d)) = (crc_byte ^^ (n + 1)) (ucast d)"
    using mv [of 16 "n + 3" d] mv [of 8 "n + 2" d] mv [of 0 "n + 1" d]
    by (simp add: numeral_eq_Suc)
  have "(crc_byte ^^ (n + 4)) (le_word [a, b, c, d] XOR x) =
      (crc_byte ^^ (n + 4)) (ucast a) XOR (crc_byte ^^ (n + 3)) (ucast b)
      XOR (crc_byte ^^ (n + 2)) (ucast c) XOR (crc_byte ^^ (n + 1)) (ucast d)
      XOR (crc_byte ^^ (n + 4)) x"
    by (simp only: le_word_4 crc_byte_pow_xor b c d xor.assoc)
  also have "\<dots> = (crc_byte ^^ n) (crc_bytes x [a, b, c, d])"
    by (simp add: crc_linear numeral_eq_Suc funpow_swap1 ac_simps)
  finally show ?thesis .
qed

lemma crc_step8_eq:
  assumes "length w = 8"
  shows "crc_step8 c w = crc_bytes c w"
proof -
  obtain a0 a1 a2 a3 a4 a5 a6 a7 where w: "w = [a0, a1, a2, a3, a4, a5, a6, a7]"
    using assms by (rule length_8_cases)
  define lo where "lo = le_word (take 4 w) XOR c"
  have lo: "lo = le_word [a0, a1, a2, a3] XOR c"
    by (simp add: lo_def w)
  have hi: "(make_tables ! 7) ! unat (lo AND 0xff) = (crc_byte ^^ (4 + 4)) (lo AND 255)"
      "(make_tables ! 6) ! unat (drop_bit 8 lo AND 0xff) = (crc_byte ^^ (4 + 3)) (drop_bit 8 lo AND 255)"
      "(make_tables ! 5) ! unat (drop_bit 16 lo AND 0xff) = (crc_byte ^^ (4 + 2)) (drop_bit 16 lo AND 255)"
      "(make_tables ! 4) ! unat (drop_bit 24 lo) = (crc_byte ^^ (4 + 1)) (drop_bit 24 lo)"
    using make_tables_nth [of 7 "lo AND 255"] make_tables_nth [of 6 "drop_bit 8 lo AND 255"]
      make_tables_nth [of 5 "drop_bit 16 lo AND 255"] make_tables_nth [of 4 "drop_bit 24 lo"]
    by (simp_all add: unat_and_0xff unat_drop_24)
  have w4: "w ! 4 = a4" "w ! 5 = a5" "w ! 6 = a6" "w ! 7 = a7"
    by (simp_all add: w)
  have tl: "(make_tables ! 3) ! unat a4 = (crc_byte ^^ 4) (ucast a4)"
      "(make_tables ! 2) ! unat a5 = (crc_byte ^^ 3) (ucast a5)"
      "(make_tables ! 1) ! unat a6 = (crc_byte ^^ 2) (ucast a6)"
      "(make_tables ! 0) ! unat a7 = (crc_byte ^^ 1) (ucast a7)"
    using make_tables_nth_byte [of 3 a4] make_tables_nth_byte [of 2 a5]
      make_tables_nth_byte [of 1 a6] make_tables_nth_byte [of 0 a7]
    by (simp_all add: eval_nat_numeral)
  have "crc_step8 c w = (crc_byte ^^ (4 + 4)) lo
      XOR (crc_byte ^^ 4) (ucast a4) XOR (crc_byte ^^ 3) (ucast a5)
      XOR (crc_byte ^^ 2) (ucast a6) XOR (crc_byte ^^ 1) (ucast a7)"
    unfolding crc_byte_pow_split4 [of 4 lo]
    by (simp only: crc_step8_def Let_def lo_def [symmetric] hi w4 tl xor.assoc)
  also have "(crc_byte ^^ (4 + 4)) lo = (crc_byte ^^ 4) (crc_bytes c [a0, a1, a2, a3])"
    unfolding lo by (rule crc_byte_pow_le_word)
  also have "(crc_byte ^^ 4) (crc_bytes c [a0, a1, a2, a3]) XOR (crc_byte ^^ 4) (ucast a4)
      XOR (crc_byte ^^ 3) (ucast a5) XOR (crc_byte ^^ 2) (ucast a6) XOR (crc_byte ^^ 1) (ucast a7)
      = crc_bytes (crc_bytes c [a0, a1, a2, a3]) [a4, a5, a6, a7]"
    by (simp add: crc_linear numeral_eq_Suc ac_simps del: crc_bytes_simps(3))
  finally show ?thesis by (simp add: w)
qed

lemma crc_update_eq: "crc_update c data = crc_bytes c data"
proof -
  have one: "foldl crc_step1 c bs = crc_bytes c bs" for c bs
    by (induction bs arbitrary: c) (simp_all add: crc_step1_eq)
  have "foldl crc_step8 c ws = crc_bytes c (concat ws)"
    if "\<And>w. w \<in> set ws \<Longrightarrow> length w = 8" for ws c
    using that by (induction ws arbitrary: c) (simp_all add: crc_step8_eq)
  then have "crc_update c data =
      crc_bytes (crc_bytes c (concat (chunks_exact 8 data))) (chunks_rem 8 data)"
    by (simp add: crc_update_def one chunks_exact_length)
  then show ?thesis
    by (metis chunks_exact_concat crc_bytes_simps(3) zero_less_numeral)
qed

subsection \<open>The interface of a streaming hasher\<close>

text \<open>
  What \<open>verify_data\<close>, \<open>Model::parse\<close> and \<open>StreamingVerifier\<close> rely on: feeding two
  pieces one after the other is feeding their concatenation, so the result depends on the
  bytes and not on how the reads cut them.
\<close>

locale stream_hash =
  fixes init :: 's
    and upd :: "'s \<Rightarrow> 'b list \<Rightarrow> 's"
    and fin :: "'s \<Rightarrow> 'h"
  assumes upd_nil: "upd s [] = s"
    and upd_append: "upd s (xs @ ys) = upd (upd s xs) ys"
begin

lemma upd_concat: "foldl upd s xss = upd s (concat xss)"
  by (induction xss arbitrary: s) (simp_all add: upd_nil upd_append)

lemma split_independent:
  "concat xss = concat yss \<Longrightarrow> fin (foldl upd init xss) = fin (foldl upd init yss)"
  by (simp add: upd_concat)

lemma upd_three: "upd (upd (upd s xs) ys) zs = upd s (xs @ ys @ zs)"
  by (simp add: upd_append)

end

interpretation crc: stream_hash crc_new crc_update crc_finish
  by unfold_locales (simp_all add: crc_update_eq)

interpretation mcp_crc: stream_hash "0xffffffff :: u32" "foldl mcp_crc_byte" "\<lambda>c. NOT c"
  by unfold_locales simp_all

subsection \<open>Both implementations agree\<close>

lemma mcp_crc_round_eq: "mcp_crc_round c = crc_bit c"
proof -
  have "c AND 1 = (if bit c 0 then 1 else 0)"
    by (simp add: and_one_eq bit_0 odd_iff_mod_2_eq_one)
  then show ?thesis
    by (simp add: mcp_crc_round_def crc_bit_alt Let_def xor.commute)
qed

lemma mcp_crc_byte_eq: "mcp_crc_byte c b = crc_byte (c XOR ucast b)"
proof -
  have "mcp_crc_round = crc_bit" by (rule ext) (rule mcp_crc_round_eq)
  then show ?thesis by (simp add: mcp_crc_byte_def crc_byte_def)
qed

lemma mcp_crc32_eq: "mcp_crc32 data = crc_bytes 0xffffffff data XOR 0xffffffff"
proof -
  have "mcp_crc_byte = (\<lambda>c b. crc_byte (c XOR ucast b))"
    by (intro ext) (rule mcp_crc_byte_eq)
  moreover have "NOT c = c XOR 0xffffffff" for c :: u32
  proof -
    have "(0xffffffff :: u32) = - 1" by simp
    then show ?thesis by (simp only:) (rule bit_word_eqI, simp add: bit_simps)
  qed
  ultimately show ?thesis by (simp add: mcp_crc32_def crc_bytes_def)
qed

lemma crc_checksum_eq: "crc_checksum data = crc_bytes 0xffffffff data XOR 0xffffffff"
  by (simp add: crc_checksum_def crc_finish_def crc_new_def crc_update_eq)

text \<open>C3: the slicing-by-8 checksum of the model format, with its eight tables and its
  eight-byte steps, and the bit-at-a-time checksum of the datagram framing are one function.\<close>

theorem crc_implementations_agree: "crc_checksum data = mcp_crc32 data"
  by (simp add: crc_checksum_eq mcp_crc32_eq)

subsection \<open>Corruption is detected\<close>

lemma crc_bit_zero: "crc_bit c = 0 \<Longrightarrow> c = 0"
proof -
  assume z: "crc_bit c = 0"
  have "bit (crc_bit c) 31 \<longleftrightarrow> bit c 0"
    using bit_imp_le_length [of c 32] by (auto simp: crc_bit_alt crc_poly_def bit_simps)
  with z have low: "\<not> bit c 0" by simp
  with z have "drop_bit 1 c = 0" by (simp add: crc_bit_alt)
  then have "\<not> bit c (Suc m)" for m
    using bit_drop_bit_eq [of 1 c] by (simp add: fun_eq_iff)
  with low have "\<not> bit c n" for n
    by (cases n) simp_all
  then show "c = 0"
    by (intro bit_word_eqI) simp
qed

lemma crc_bit_inj: "crc_bit x = crc_bit y \<Longrightarrow> x = y"
proof -
  assume "crc_bit x = crc_bit y"
  then have "crc_bit (x XOR y) = 0" by (simp add: crc_bit_xor)
  then have "x XOR y = 0" by (rule crc_bit_zero)
  then show "x = y" by (metis xor.assoc xor.left_neutral xor_self_eq)
qed

lemma crc_bit_pow_inj: "(crc_bit ^^ n) x = (crc_bit ^^ n) y \<Longrightarrow> x = y"
  by (induction n) (auto dest: crc_bit_inj)

lemma crc_byte_inj: "crc_byte x = crc_byte y \<Longrightarrow> x = y"
  unfolding crc_byte_def by (rule crc_bit_pow_inj)

lemma crc_byte_pow_inj: "(crc_byte ^^ n) x = (crc_byte ^^ n) y \<Longrightarrow> x = y"
  by (induction n) (auto dest: crc_byte_inj)

lemma xor_right_cancel: "(x XOR z = y XOR z) \<longleftrightarrow> x = (y :: 'a::len word)"
  by (metis xor.assoc xor.right_neutral xor_self_eq)

lemma crc_bytes_inj_state: "crc_bytes c bs = crc_bytes d bs \<Longrightarrow> c = d"
proof (induction bs arbitrary: c d)
  case Nil
  then show ?case by simp
next
  case (Cons b bs)
  have "crc_bytes (crc_byte (c XOR ucast b)) bs = crc_bytes (crc_byte (d XOR ucast b)) bs"
    using Cons.prems by simp
  then have "crc_byte (c XOR ucast b) = crc_byte (d XOR ucast b)" by (rule Cons.IH)
  from crc_byte_inj [OF this] show ?case by (simp add: xor_right_cancel)
qed

lemma le_word_4_inj:
  "(le_word w :: u32) = le_word w' \<Longrightarrow> length w = 4 \<Longrightarrow> length w' = 4 \<Longrightarrow> w = w'"
  using to_le_le_word [of w, where 'a = 32] to_le_le_word [of w', where 'a = 32] by simp

lemma crc_bytes_inj_word:
  assumes "crc_bytes c w = crc_bytes c w'" "length w = 4" "length w' = 4"
  shows "w = w'"
proof -
  have pow: "crc_bytes c v = (crc_byte ^^ 4) (le_word v XOR c)" if "length v = 4" for v
    using that crc_byte_pow_le_word [where n = 0 and x = c]
    by (auto simp: numeral_eq_Suc length_Suc_conv simp del: le_word.simps)
  have "(le_word w :: u32) = le_word w'"
    using assms by (auto simp: pow xor_right_cancel dest: crc_byte_pow_inj)
  then show ?thesis using assms(2,3) by (rule le_word_4_inj)
qed

text \<open>C4: two inputs of one length that differ only inside a window of at most four
  consecutive bytes (a burst of up to 32 bits) have the same checksum only if they are equal.\<close>

theorem crc_detects_bursts:
  assumes "length w = length w'" and "length w \<le> 4"
  shows "crc_checksum (pre @ w @ post) = crc_checksum (pre @ w' @ post) \<longleftrightarrow> w = w'"
proof
  assume "crc_checksum (pre @ w @ post) = crc_checksum (pre @ w' @ post)"
  then have "crc_bytes (crc_bytes 0xffffffff pre) w = crc_bytes (crc_bytes 0xffffffff pre) w'"
    by (auto simp: crc_checksum_eq xor_right_cancel dest: crc_bytes_inj_state)
  then have "crc_bytes (crc_bytes 0xffffffff pre) (w @ replicate (4 - length w) 0)
      = crc_bytes (crc_bytes 0xffffffff pre) (w' @ replicate (4 - length w) 0)"
    by simp
  then have "w @ replicate (4 - length w) 0 = w' @ replicate (4 - length w) 0"
    by (rule crc_bytes_inj_word) (use assms in auto)
  then show "w = w'" by simp
qed simp

theorem crc_detects_bursts_witness:
  "crc_checksum ([1, 2] @ [3, 4, 5] @ [6]) \<noteq> crc_checksum ([1, 2] @ [3, 9, 5] @ [6])"
  using crc_detects_bursts [of "[3, 4, 5]" "[3, 9, 5]" "[1, 2]" "[6]"] by simp

end
