(* ===== verification/Nr_Mcp.thy ===== *)
theory Nr_Mcp
  imports Nr_Crc32
begin

text \<open>
  The bounded datagram framing of \<^verbatim>\<open>crates/nr-mcp/src/lib.rs\<close>: how a JSON-RPC message is
  cut into at most 64 datagrams of at most 1200 bytes, how a received datagram is parsed, and
  how the fixed-buffer reassembler puts one message back together.

  The reassembler's laws are stated over any encoder whose datagrams parse back to their
  fragments (locale \<open>framing\<close>) and interpreted on \<open>encode_fragment\<close>.
\<close>

subsection \<open>Constants, kinds and errors\<close>

definition HEADER_LEN :: nat where "HEADER_LEN = 24"
definition MAX_DATAGRAM :: nat where "MAX_DATAGRAM = 1200"
definition MAX_FRAGMENT_PAYLOAD :: nat where "MAX_FRAGMENT_PAYLOAD = MAX_DATAGRAM - HEADER_LEN"
definition MCP_VERSION :: byte where "MCP_VERSION = 1"
definition MCP_MAGIC :: bytes where "MCP_MAGIC = [0x4e, 0x52, 0x4d, 0x50]"

datatype kind = HostRequest | DeviceResponse | DeviceRequest | HostResponse | Hello

datatype mcp_error = BufferTooSmall | Truncated | BadMagic | UnsupportedVersion | UnknownKind
  | InvalidFragment | MessageTooLarge | ChecksumMismatch

primrec kind_byte :: "kind \<Rightarrow> byte" where
  "kind_byte HostRequest = 1"
| "kind_byte DeviceResponse = 2"
| "kind_byte DeviceRequest = 3"
| "kind_byte HostResponse = 4"
| "kind_byte Hello = 5"

definition kind_try_from :: "byte \<Rightarrow> (mcp_error, kind) outcome" where
  "kind_try_from v =
     (if v = 1 then Ok HostRequest else if v = 2 then Ok DeviceResponse
      else if v = 3 then Ok DeviceRequest else if v = 4 then Ok HostResponse
      else if v = 5 then Ok Hello else Err UnknownKind)"

record fragment =
  fr_kind :: kind
  fr_message_id :: u32
  fr_index :: u16
  fr_count :: u16
  fr_total_len :: u32
  fr_checksum :: u32
  fr_payload :: bytes

record complete_message =
  cm_kind :: kind
  cm_message_id :: u32
  cm_payload :: bytes

subsection \<open>Sending\<close>

definition fragment_count :: "nat \<Rightarrow> (mcp_error, u16) outcome" where
  "fragment_count message_len =
     (if message_len = 0 then Err InvalidFragment
      else let count = div_ceil (max message_len 1) MAX_FRAGMENT_PAYLOAD
           in if count > 65535 \<or> count > 64 then Err MessageTooLarge else Ok (of_nat count))"

definition encode_fragment ::
    "kind \<Rightarrow> u32 \<Rightarrow> bytes \<Rightarrow> u16 \<Rightarrow> bytes \<Rightarrow> (mcp_error, nat \<times> bytes) outcome" where
  "encode_fragment kind message_id message idx output =
     obind (fragment_count (length message)) (\<lambda>count.
     if idx \<ge> count then Err InvalidFragment
     else let start = unat idx * MAX_FRAGMENT_PAYLOAD;
              fin = min (start + MAX_FRAGMENT_PAYLOAD) (length message)
          in obind (slice message start fin) (\<lambda>payload.
             let len = HEADER_LEN + length payload
             in if length output < len then Err BufferTooSmall
                else obind (write_all output
                  [(0, replicate len 0), (0, MCP_MAGIC), (4, [MCP_VERSION]), (5, [kind_byte kind]),
                   (6, to_be16 idx), (8, to_be32 message_id), (12, to_be16 count),
                   (14, to_be16 (of_nat (length payload))),
                   (16, to_be32 (of_nat (length message))), (20, to_be32 (mcp_crc32 message)),
                   (HEADER_LEN, payload)])
                  (\<lambda>out. Ok (len, out))))"

subsection \<open>Receiving one datagram\<close>

definition parse_fragment :: "bytes \<Rightarrow> (mcp_error, fragment) outcome" where
  "parse_fragment datagram =
     (if length datagram < HEADER_LEN then Err Truncated
      else obind (slice datagram 0 4) (\<lambda>magic. if magic \<noteq> MCP_MAGIC then Err BadMagic
      else obind (index datagram 4) (\<lambda>version. if version \<noteq> MCP_VERSION then Err UnsupportedVersion
      else obind (index datagram 5) (\<lambda>kb. obind (kind_try_from kb) (\<lambda>kind.
      obind (read_be16 datagram 6) (\<lambda>idx.
      obind (read_be32 datagram 8) (\<lambda>message_id.
      obind (read_be16 datagram 12) (\<lambda>count.
      obind (read_be16 datagram 14) (\<lambda>payload_len.
      obind (read_be32 datagram 16) (\<lambda>total_len.
      obind (read_be32 datagram 20) (\<lambda>checksum.
      if count = 0 \<or> count > 64 \<or> idx \<ge> count \<or> unat payload_len > MAX_FRAGMENT_PAYLOAD
         \<or> length datagram \<noteq> HEADER_LEN + unat payload_len \<or> total_len = 0
         \<or> unat count \<noteq> div_ceil (unat total_len) MAX_FRAGMENT_PAYLOAD
      then Err InvalidFragment
      else obind (if idx + 1 = count
              then (if unat idx * MAX_FRAGMENT_PAYLOAD \<le> unat total_len
                    then Ok (unat total_len - unat idx * MAX_FRAGMENT_PAYLOAD) else Panic)
              else Ok MAX_FRAGMENT_PAYLOAD) (\<lambda>expected_len.
      if unat payload_len \<noteq> expected_len then Err InvalidFragment
      else obind (slice datagram HEADER_LEN (length datagram)) (\<lambda>payload.
        Ok \<lparr>fr_kind = kind, fr_message_id = message_id, fr_index = idx, fr_count = count,
            fr_total_len = total_len, fr_checksum = checksum, fr_payload = payload\<rparr>)))))))))))))"

subsection \<open>Reassembly in a fixed buffer\<close>

text \<open>The const-generic \<open>MAX\<close> is the length of the buffer, which no operation changes.\<close>

record reassembler =
  rs_buffer :: bytes
  rs_active :: bool
  rs_kind :: kind
  rs_message_id :: u32
  rs_count :: u16
  rs_total_len :: nat
  rs_checksum :: u32
  rs_received :: u64

definition reassembler_default :: "nat \<Rightarrow> reassembler" where
  "reassembler_default max_len =
     \<lparr>rs_buffer = replicate max_len 0, rs_active = False, rs_kind = HostRequest, rs_message_id = 0,
      rs_count = 0, rs_total_len = 0, rs_checksum = 0, rs_received = 0\<rparr>"

definition same_message :: "reassembler \<Rightarrow> fragment \<Rightarrow> bool" where
  "same_message r f \<longleftrightarrow> rs_active r \<and> rs_kind r = fr_kind f \<and> rs_message_id r = fr_message_id f
     \<and> rs_count r = fr_count f \<and> rs_total_len r = unat (fr_total_len f)
     \<and> rs_checksum r = fr_checksum f"

definition start_message :: "reassembler \<Rightarrow> fragment \<Rightarrow> reassembler" where
  "start_message r f = r\<lparr>rs_active := True, rs_kind := fr_kind f, rs_message_id := fr_message_id f,
     rs_count := fr_count f, rs_total_len := unat (fr_total_len f), rs_checksum := fr_checksum f,
     rs_received := 0\<rparr>"

definition shl_one :: "nat \<Rightarrow> ('e, u64) outcome" where
  "shl_one k = (if k < 64 then Ok (push_bit k 1) else Panic)"

definition complete_mask :: "u16 \<Rightarrow> ('e, u64) outcome" where
  "complete_mask count =
     (if count = 64 then Ok (- 1) else obind (shl_one (unat count)) (\<lambda>b. Ok (b - 1)))"

definition reassembler_push ::
    "reassembler \<Rightarrow> bytes \<Rightarrow> reassembler \<times> (mcp_error, complete_message option) outcome" where
  "reassembler_push r datagram =
     (case parse_fragment datagram of Err e \<Rightarrow> (r, Err e) | Panic \<Rightarrow> (r, Panic)
      | Ok f \<Rightarrow>
        if unat (fr_total_len f) > length (rs_buffer r) then (r, Err MessageTooLarge)
        else let r1 = (if same_message r f then r else start_message r f);
                 start = unat (fr_index f) * MAX_FRAGMENT_PAYLOAD
        in (case write_at (rs_buffer r1) start (fr_payload f) of Err e \<Rightarrow> (r1, Err e) | Panic \<Rightarrow> (r1, Panic)
        | Ok buf \<Rightarrow> let r2 = r1\<lparr>rs_buffer := buf\<rparr> in
        (case shl_one (unat (fr_index f)) of Err e \<Rightarrow> (r2, Err e) | Panic \<Rightarrow> (r2, Panic)
        | Ok one \<Rightarrow> let r3 = r2\<lparr>rs_received := rs_received r2 OR one\<rparr> in
        (case complete_mask (rs_count r3) of Err e \<Rightarrow> (r3, Err e) | Panic \<Rightarrow> (r3, Panic)
        | Ok full \<Rightarrow>
          if rs_received r3 \<noteq> full then (r3, Ok None)
          else let r4 = r3\<lparr>rs_active := False\<rparr> in
          (case slice (rs_buffer r4) 0 (rs_total_len r4) of Err e \<Rightarrow> (r4, Err e) | Panic \<Rightarrow> (r4, Panic)
          | Ok body \<Rightarrow>
            if mcp_crc32 body \<noteq> rs_checksum r4 then (r4, Err ChecksumMismatch)
            else (r4, Ok (Some \<lparr>cm_kind = rs_kind r4, cm_message_id = rs_message_id r4,
                               cm_payload = body\<rparr>)))))))"

subsection \<open>Sizes\<close>

lemmas mcp_const_defs = HEADER_LEN_def MAX_DATAGRAM_def MAX_FRAGMENT_PAYLOAD_def

lemma fragment_payload_1176 [simp]: "MAX_FRAGMENT_PAYLOAD = 1176"
  by (simp add: mcp_const_defs)

lemma header_len_24 [simp]: "HEADER_LEN = 24"
  by (simp add: HEADER_LEN_def)

lemma div_ceil_bounds:
  assumes "0 < b"
  shows "a \<le> div_ceil a b * b" and "div_ceil a b * b < a + b"
proof -
  define q r where "q = a div b * b" and "r = a mod b"
  have "q + r = a" and "r < b"
    using assms by (simp_all add: q_def r_def)
  moreover have "div_ceil a b * b = (if r = 0 then q else q + b)"
    by (simp add: div_ceil_def q_def r_def)
  ultimately show "a \<le> div_ceil a b * b" and "div_ceil a b * b < a + b"
    by (auto split: if_splits)
qed

lemma div_ceil_less_iff: "0 < b \<Longrightarrow> i < div_ceil a b \<longleftrightarrow> i * b < a"
proof -
  assume b: "0 < b"
  note bd = div_ceil_bounds [OF b, of a]
  show "i < div_ceil a b \<longleftrightarrow> i * b < a"
  proof
    assume "i < div_ceil a b"
    then have "(i + 1) * b \<le> div_ceil a b * b" by (intro mult_le_mono1) simp
    with bd(2) show "i * b < a" by simp
  next
    assume "i * b < a"
    with bd(1) have "i * b < div_ceil a b * b" by linarith
    then show "i < div_ceil a b" by simp
  qed
qed

lemma div_ceil_pos: "0 < b \<Longrightarrow> 0 < a \<Longrightarrow> 0 < div_ceil a b"
  by (simp add: div_ceil_less_iff)

definition fragments :: "nat \<Rightarrow> nat" where
  "fragments n = div_ceil n 1176"

lemma less_fragments_iff: "i < fragments n \<longleftrightarrow> i * 1176 < n"
  by (simp add: fragments_def div_ceil_less_iff)

lemma fragments_bound: "n \<le> 75264 \<longleftrightarrow> fragments n \<le> 64"
  using less_fragments_iff [of 64 n] by auto

lemma fragments_pos: "0 < n \<Longrightarrow> 0 < fragments n"
  by (simp add: less_fragments_iff)

lemma fragment_count_eq:
  "fragment_count n = (if n = 0 then Err InvalidFragment
     else if n \<le> 75264 then Ok (of_nat (fragments n)) else Err MessageTooLarge)"
proof (cases "n = 0")
  case False
  then have "max n 1 = n" by simp
  with False show ?thesis
    using fragments_bound [of n] by (auto simp: fragment_count_def fragments_def Let_def)
qed (simp add: fragment_count_def)

subsection \<open>What a datagram carries\<close>

definition sendable :: "bytes \<Rightarrow> bool" where
  "sendable m \<longleftrightarrow> m \<noteq> [] \<and> length m \<le> 75264"

definition fragment_payload :: "bytes \<Rightarrow> nat \<Rightarrow> bytes" where
  "fragment_payload m i = sub m (i * 1176) (min (i * 1176 + 1176) (length m))"

definition fragment_of :: "kind \<Rightarrow> u32 \<Rightarrow> bytes \<Rightarrow> nat \<Rightarrow> fragment" where
  "fragment_of k mid m i =
     \<lparr>fr_kind = k, fr_message_id = mid, fr_index = of_nat i, fr_count = of_nat (fragments (length m)),
      fr_total_len = of_nat (length m), fr_checksum = mcp_crc32 m, fr_payload = fragment_payload m i\<rparr>"

definition wire_header :: "kind \<Rightarrow> u32 \<Rightarrow> bytes \<Rightarrow> nat \<Rightarrow> bytes" where
  "wire_header k mid m i = MCP_MAGIC @ [MCP_VERSION, kind_byte k] @ to_be16 (of_nat i) @ to_be32 mid
     @ to_be16 (of_nat (fragments (length m))) @ to_be16 (of_nat (length (fragment_payload m i)))
     @ to_be32 (of_nat (length m)) @ to_be32 (mcp_crc32 m)"

lemma length_fragment_payload:
  "length (fragment_payload m i) = min 1176 (length m - i * 1176)"
  by (auto simp: fragment_payload_def min_def)

lemma length_wire_header [simp]: "length (wire_header k mid m i) = 24"
  by (simp add: wire_header_def MCP_MAGIC_def)

lemma put_all_frame:
  assumes "length p = n" and "24 + n \<le> length out"
  shows "put_all out [(0, replicate (24 + n) 0), (0, [m0, m1, m2, m3]), (4, [v]), (5, [k]),
      (6, [i0, i1]), (8, [d0, d1, d2, d3]), (12, [c0, c1]), (14, [l0, l1]), (16, [t0, t1, t2, t3]),
      (20, [x0, x1, x2, x3]), (24, p)]
    = [m0, m1, m2, m3, v, k, i0, i1, d0, d1, d2, d3, c0, c1, l0, l1, t0, t1, t2, t3, x0, x1, x2, x3]
      @ p @ drop (24 + n) out"
proof -
  let ?zs = "[0, 0, 0, 0, 0, 0, 0, 0, 0, 0, 0, 0, 0, 0, 0, 0, 0, 0, 0, 0, 0, 0, 0, 0]"
  let ?hd = "[m0, m1, m2, m3, v, k, i0, i1, d0, d1, d2, d3, c0, c1, l0, l1, t0, t1, t2, t3,
    x0, x1, x2, x3]"
  define r where "r = replicate n 0 @ drop (24 + n) out"
  have "put_at out 0 (replicate (24 + n) 0) = replicate 24 0 @ r"
    by (simp add: put_at_def replicate_add r_def)
  also have "replicate 24 (0 :: 'a) = ?zs" by (simp add: numeral_eq_Suc)
  finally have first: "put_at out 0 (replicate (24 + n) 0) = ?zs @ r" .
  have fields: "put_all (?zs @ r) [(0, [m0, m1, m2, m3]), (4, [v]), (5, [k]),
      (6, [i0, i1]), (8, [d0, d1, d2, d3]), (12, [c0, c1]), (14, [l0, l1]), (16, [t0, t1, t2, t3]),
      (20, [x0, x1, x2, x3])] = ?hd @ r"
    by (simp add: put_at_def)
  have last: "put_at (hd @ r) 24 p = hd @ p @ drop (24 + n) out" if "length hd = 24" for hd
    using that assms(1) by (simp add: put_at_def r_def)
  show ?thesis
    using fields last [of ?hd] by (simp add: first)
qed

lemma wire_header_lists:
  "\<exists>i0 i1 d0 d1 d2 d3 c0 c1 l0 l1 t0 t1 t2 t3 x0 x1 x2 x3.
     wire_header k mid m i = [0x4e, 0x52, 0x4d, 0x50, 1, kind_byte k, i0, i1, d0, d1, d2, d3, c0, c1,
       l0, l1, t0, t1, t2, t3, x0, x1, x2, x3]
     \<and> to_be16 (of_nat i) = [i0, i1] \<and> to_be32 mid = [d0, d1, d2, d3]
     \<and> to_be16 (of_nat (fragments (length m))) = [c0, c1]
     \<and> to_be16 (of_nat (length (fragment_payload m i))) = [l0, l1]
     \<and> to_be32 (of_nat (length m)) = [t0, t1, t2, t3]
     \<and> to_be32 (mcp_crc32 m) = [x0, x1, x2, x3]"
  by (simp add: wire_header_def MCP_MAGIC_def MCP_VERSION_def to_be16_def to_be32_def)

lemma encode_fragment_eq:
  assumes m: "sendable m" and i: "i < fragments (length m)"
    and out: "24 + length (fragment_payload m i) \<le> length out"
  shows "encode_fragment k mid m (of_nat i) out =
    Ok (24 + length (fragment_payload m i),
        wire_header k mid m i @ fragment_payload m i @ drop (24 + length (fragment_payload m i)) out)"
proof -
  have n: "fragments (length m) \<le> 64" and ne: "length m \<noteq> 0"
    using m fragments_bound by (auto simp: sendable_def)
  have ui: "unat (of_nat i :: u16) = i"
    using i n by (simp add: unat_of_nat)
  have ge: "\<not> (of_nat (fragments (length m)) :: u16) \<le> of_nat i"
    using i n by (simp add: word_le_nat_alt unat_of_nat)
  have lt: "i * 1176 < length m" using i by (simp add: less_fragments_iff)
  obtain i0 i1 d0 d1 d2 d3 c0 c1 l0 l1 t0 t1 t2 t3 x0 x1 x2 x3 where
    w: "wire_header k mid m i = [0x4e, 0x52, 0x4d, 0x50, 1, kind_byte k, i0, i1, d0, d1, d2, d3, c0, c1,
       l0, l1, t0, t1, t2, t3, x0, x1, x2, x3]"
     "to_be16 (of_nat i) = [i0, i1]" "to_be32 mid = [d0, d1, d2, d3]"
     "to_be16 (of_nat (fragments (length m))) = [c0, c1]"
     "to_be16 (of_nat (length (fragment_payload m i))) = [l0, l1]"
     "to_be32 (of_nat (length m)) = [t0, t1, t2, t3]"
     "to_be32 (mcp_crc32 m) = [x0, x1, x2, x3]"
    using wire_header_lists [of k mid m i] by blast
  have sl: "slice m (i * 1176) (min (i * 1176 + 1176) (length m)) = Ok (fragment_payload m i)"
    using lt by (simp add: fragment_payload_def)
  show ?thesis
    using m ne ge out put_all_frame [OF refl out]
    by (simp add: encode_fragment_def fragment_count_eq sendable_def ui sl Let_def w
        MCP_MAGIC_def MCP_VERSION_def write_all_ok del: slice_ok)
qed

subsection \<open>Parsing what was encoded\<close>

lemma parse_wire:
  assumes m: "sendable m" and i: "i < fragments (length m)"
  shows "parse_fragment (wire_header k mid m i @ fragment_payload m i) = Ok (fragment_of k mid m i)"
proof -
  have n: "fragments (length m) \<le> 64" and ne: "length m \<noteq> 0" and big: "length m \<le> 75264"
    using m fragments_bound by (auto simp: sendable_def)
  have lt: "i * 1176 < length m" using i by (simp add: less_fragments_iff)
  obtain i0 i1 d0 d1 d2 d3 c0 c1 l0 l1 t0 t1 t2 t3 x0 x1 x2 x3 where
    w: "wire_header k mid m i = [0x4e, 0x52, 0x4d, 0x50, 1, kind_byte k, i0, i1, d0, d1, d2, d3, c0, c1,
       l0, l1, t0, t1, t2, t3, x0, x1, x2, x3]"
     and be: "to_be16 (of_nat i) = [i0, i1]" "to_be32 mid = [d0, d1, d2, d3]"
     "to_be16 (of_nat (fragments (length m))) = [c0, c1]"
     "to_be16 (of_nat (length (fragment_payload m i))) = [l0, l1]"
     "to_be32 (of_nat (length m)) = [t0, t1, t2, t3]"
     "to_be32 (mcp_crc32 m) = [x0, x1, x2, x3]"
    using wire_header_lists [of k mid m i] by blast
  note rd = be(1) [THEN be16_of_to_be16] be(2) [THEN be32_of_to_be32] be(3) [THEN be16_of_to_be16]
    be(4) [THEN be16_of_to_be16] be(5) [THEN be32_of_to_be32] be(6) [THEN be32_of_to_be32]
  have k: "kind_try_from (kind_byte k) = Ok k"
    by (cases k) (simp_all add: kind_try_from_def)
  have pl: "length (fragment_payload m i) = min 1176 (length m - i * 1176)"
    by (rule length_fragment_payload)
  have u: "unat (of_nat i :: u16) = i" "unat (of_nat (fragments (length m)) :: u16) = fragments (length m)"
      "unat (of_nat (length (fragment_payload m i)) :: u16) = length (fragment_payload m i)"
      "unat (of_nat (length m) :: u32) = length m"
    using i n big by (simp_all add: unat_of_nat pl)
  have z: "(of_nat (fragments (length m)) :: u16) \<noteq> 0" "\<not> (of_nat (fragments (length m)) :: u16) > 64"
      "\<not> (of_nat (fragments (length m)) :: u16) \<le> of_nat i" "(of_nat (length m) :: u32) \<noteq> 0"
    using i n ne big by (simp_all add: word_less_nat_alt word_le_nat_alt unat_eq_0 [symmetric] u)
  have last: "(of_nat i :: u16) + 1 = of_nat (fragments (length m)) \<longleftrightarrow> Suc i = fragments (length m)"
  proof -
    have "(of_nat i :: u16) + 1 = of_nat (Suc i)" by (simp add: add.commute)
    then show ?thesis
      using i n by (simp only:) (simp add: word_of_nat_eq_iff take_bit_nat_eq_self del: of_nat_Suc)
  qed
  define pn where "pn = length (fragment_payload m i)"
  have exp: "Suc i = fragments (length m) \<Longrightarrow> length m - i * 1176 = pn"
      "Suc i \<noteq> fragments (length m) \<Longrightarrow> pn = 1176" and "pn \<le> 1176"
    using less_fragments_iff [of "Suc i" "length m"] i by (auto simp: pn_def pl)
  have upn: "unat (of_nat pn :: u16) = pn"
    using \<open>pn \<le> 1176\<close> by (simp add: unat_of_nat)
  have dc: "fragments (length m) = div_ceil (length m) 1176"
    by (simp add: fragments_def)
  show ?thesis
    using lt exp \<open>pn \<le> 1176\<close>
    by (simp add: parse_fragment_def w rd k z u last dc [symmetric] MCP_MAGIC_def
        MCP_VERSION_def fragment_of_def sub_def upn flip: pn_def)
qed

subsection \<open>What parsing guarantees\<close>

lemma kind_try_from_not_Panic [simp]: "kind_try_from v \<noteq> Panic"
  by (simp add: kind_try_from_def)

definition fragment_ok :: "fragment \<Rightarrow> bool" where
  "fragment_ok f \<longleftrightarrow> 0 < unat (fr_total_len f) \<and> fr_index f < fr_count f \<and> unat (fr_count f) \<le> 64
     \<and> unat (fr_count f) = fragments (unat (fr_total_len f))
     \<and> length (fr_payload f) =
         (if Suc (unat (fr_index f)) = unat (fr_count f)
          then unat (fr_total_len f) - unat (fr_index f) * 1176 else 1176)"

lemma unat_succ_u16:
  "unat (c :: u16) \<le> 64 \<Longrightarrow> i < c \<Longrightarrow> i + 1 = c \<longleftrightarrow> Suc (unat i) = unat c"
proof -
  assume c: "unat c \<le> 64" and i: "i < c"
  then have "unat (i + 1) = Suc (unat i)"
    by (simp add: unat_word_ariths word_less_nat_alt)
  then show ?thesis by (metis unsigned_word_eqI)
qed

lemma parse_fragment_ok:
  assumes "parse_fragment dg = Ok f"
  shows "fragment_ok f" and "length dg = 24 + length (fr_payload f)"
proof -
  obtain c i t where g: "c \<noteq> 0" "\<not> c > 64" "\<not> c \<le> i" "t \<noteq> 0"
      "unat c = div_ceil (unat t) 1176"
      "fr_count f = c" "fr_index f = i" "fr_total_len f = t"
      "fr_payload f = sub dg 24 (length dg)" "24 \<le> length dg"
    and l: "length dg - 24 = (if i + 1 = c then unat t - unat i * 1176 else 1176)"
    using assms
    by (auto simp: parse_fragment_def outcome_simps not_less split: if_splits)
  then show "fragment_ok f"
    by (auto simp: fragment_ok_def fragments_def unat_succ_u16 not_less word_le_nat_alt
        word_less_nat_alt unat_gt_0)
  show "length dg = 24 + length (fr_payload f)"
    using g by simp
qed

lemma fragment_ok_end:
  "fragment_ok f \<Longrightarrow> unat (fr_index f) * 1176 + length (fr_payload f) \<le> unat (fr_total_len f)"
  using less_fragments_iff [of "unat (fr_index f)" "unat (fr_total_len f)"]
    less_fragments_iff [of "Suc (unat (fr_index f))" "unat (fr_total_len f)"]
  by (auto simp: fragment_ok_def word_less_nat_alt split: if_splits)

lemma parse_fragment_not_Panic: "parse_fragment dg \<noteq> Panic"
proof
  assume "parse_fragment dg = Panic"
  then obtain c i t where "unat c = div_ceil (unat (t :: u32)) 1176" "i < (c :: u16)"
      "unat t < unat i * 1176"
    by (auto simp: parse_fragment_def outcome_simps not_less not_le split: if_splits)
  then show False
    using less_fragments_iff [of "unat i" "unat t"] by (simp add: fragments_def word_less_nat_alt)
qed

subsection \<open>One push\<close>

lemma complete_mask_eq: "unat c \<le> 64 \<Longrightarrow> complete_mask c = Ok (mask (unat c))"
proof -
  assume c: "unat c \<le> 64"
  have "c = 64 \<longleftrightarrow> unat c = 64"
    by (simp add: word_unat_eq_iff)
  with c show ?thesis
    by (auto simp: complete_mask_def shl_one_def mask_eq_exp_minus_1 push_bit_eq_mult)
qed

text \<open>The state a fragment is stored into: the current message, or a fresh one.\<close>

definition begin_push :: "reassembler \<Rightarrow> fragment \<Rightarrow> reassembler" where
  "begin_push r f = (if same_message r f then r else start_message r f)"

definition store_fragment :: "reassembler \<Rightarrow> fragment \<Rightarrow> reassembler" where
  "store_fragment r f = (begin_push r f)
     \<lparr>rs_buffer := put_at (rs_buffer r) (unat (fr_index f) * 1176) (fr_payload f),
      rs_received := rs_received (begin_push r f) OR push_bit (unat (fr_index f)) 1\<rparr>"

lemma begin_push_simps [simp]:
  "rs_buffer (begin_push r f) = rs_buffer r" "rs_active (begin_push r f)"
  "rs_kind (begin_push r f) = fr_kind f" "rs_message_id (begin_push r f) = fr_message_id f"
  "rs_count (begin_push r f) = fr_count f" "rs_total_len (begin_push r f) = unat (fr_total_len f)"
  "rs_checksum (begin_push r f) = fr_checksum f"
  by (auto simp: begin_push_def same_message_def start_message_def)

lemma store_fragment_simps [simp]:
  "rs_active (store_fragment r f)"
  "rs_kind (store_fragment r f) = fr_kind f" "rs_message_id (store_fragment r f) = fr_message_id f"
  "rs_count (store_fragment r f) = fr_count f"
  "rs_total_len (store_fragment r f) = unat (fr_total_len f)"
  "rs_checksum (store_fragment r f) = fr_checksum f"
  "rs_buffer (store_fragment r f) = put_at (rs_buffer r) (unat (fr_index f) * 1176) (fr_payload f)"
  "rs_received (store_fragment r f) = rs_received (begin_push r f) OR push_bit (unat (fr_index f)) 1"
  by (simp_all add: store_fragment_def)

lemma reassembler_push_eq:
  "reassembler_push r dg =
     (case parse_fragment dg of Err e \<Rightarrow> (r, Err e) | Panic \<Rightarrow> (r, Panic)
      | Ok f \<Rightarrow>
        if unat (fr_total_len f) > length (rs_buffer r) then (r, Err MessageTooLarge)
        else if rs_received (store_fragment r f) \<noteq> mask (unat (fr_count f))
        then (store_fragment r f, Ok None)
        else let body = sub (rs_buffer (store_fragment r f)) 0 (unat (fr_total_len f))
             in ((store_fragment r f)\<lparr>rs_active := False\<rparr>,
                 if mcp_crc32 body \<noteq> fr_checksum f then Err ChecksumMismatch
                 else Ok (Some \<lparr>cm_kind = fr_kind f, cm_message_id = fr_message_id f,
                                cm_payload = body\<rparr>)))"
proof (cases "parse_fragment dg")
  case (Ok f)
  show ?thesis
  proof (cases "unat (fr_total_len f) > length (rs_buffer r)")
    case fits: False
    have f: "fragment_ok f" using Ok by (rule parse_fragment_ok)
    have w: "write_at (rs_buffer r) (unat (fr_index f) * 1176) (fr_payload f)
        = Ok (put_at (rs_buffer r) (unat (fr_index f) * 1176) (fr_payload f))"
      using fragment_ok_end [OF f] fits by simp
    have len: "length (put_at (rs_buffer r) (unat (fr_index f) * 1176) (fr_payload f)) = length (rs_buffer r)"
      using fragment_ok_end [OF f] fits by (intro length_put_at) simp
    have i: "shl_one (unat (fr_index f)) = Ok (push_bit (unat (fr_index f)) 1)"
      using f by (simp add: shl_one_def fragment_ok_def word_less_nat_alt)
    have c: "complete_mask (fr_count f) = Ok (mask (unat (fr_count f)))"
      using f by (intro complete_mask_eq) (simp add: fragment_ok_def)
    have bp: "(if same_message r f then r else start_message r f) = begin_push r f"
      by (simp add: begin_push_def)
    have st: "begin_push r f\<lparr>rs_buffer := put_at (rs_buffer r) (unat (fr_index f) * 1176) (fr_payload f),
        rs_received := rs_received (begin_push r f) OR push_bit (unat (fr_index f)) 1\<rparr> = store_fragment r f"
      by (simp add: store_fragment_def)
    show ?thesis
      using Ok fits by (simp add: reassembler_push_def bp Let_def w i c st len)
  qed (simp add: Ok reassembler_push_def)
qed (simp_all add: reassembler_push_def)

lemma reassembler_push_not_Panic: "snd (reassembler_push r dg) \<noteq> Panic"
  using parse_fragment_not_Panic [of dg]
  by (auto simp: reassembler_push_eq Let_def split: outcome.splits)

subsection \<open>Collecting the fragments of one message\<close>

primrec push_all :: "reassembler \<Rightarrow> bytes list
    \<Rightarrow> reassembler \<times> (mcp_error, complete_message option) outcome list" where
  "push_all r [] = (r, [])"
| "push_all r (d # ds) = (let step = reassembler_push r d; rest = push_all (fst step) ds
                          in (fst rest, snd step # snd rest))"

text \<open>
  \<open>collecting k mid m S r\<close>: the reassembler \<open>r\<close> holds exactly the fragments \<open>S\<close> of the
  message. With \<open>S\<close> empty it holds some other message, or none.
\<close>

definition collecting :: "kind \<Rightarrow> u32 \<Rightarrow> bytes \<Rightarrow> nat set \<Rightarrow> reassembler \<Rightarrow> bool" where
  "collecting k mid m S r \<longleftrightarrow>
     length m \<le> length (rs_buffer r) \<and> S \<subseteq> {..<fragments (length m)}
     \<and> (\<forall>j < length m. j div 1176 \<in> S \<longrightarrow> rs_buffer r ! j = m ! j)
     \<and> (if same_message r (fragment_of k mid m 0)
         then \<forall>i < 64. bit (rs_received r) i \<longleftrightarrow> i \<in> S else S = {})"

lemma same_message_index [simp]:
  "same_message r (fragment_of k mid m (Suc i)) = same_message r (fragment_of k mid m 0)"
  by (simp add: same_message_def fragment_of_def)

lemma same_message_fragment_of:
  "same_message r (fragment_of k mid m i) = same_message r (fragment_of k mid m 0)"
  by (cases i) simp_all

lemma received_begin_push:
  assumes "collecting k mid m S r" and "j < 64"
  shows "bit (rs_received (begin_push r (fragment_of k mid m i))) j \<longleftrightarrow> j \<in> S"
  using assms same_message_fragment_of [of r k mid m i]
  by (auto simp: collecting_def begin_push_def start_message_def split: if_splits)

lemma fragment_of_unat:
  assumes "sendable m" and "i < fragments (length m)"
  shows "unat (fr_index (fragment_of k mid m i)) = i"
    and "unat (fr_count (fragment_of k mid m i)) = fragments (length m)"
    and "unat (fr_total_len (fragment_of k mid m i)) = length m"
    and "fragments (length m) \<le> 64"
  using assms fragments_bound [of "length m"]
  by (simp_all add: fragment_of_def sendable_def unat_of_nat)

lemma fragment_of_simps [simp]:
  "fr_kind (fragment_of k mid m i) = k" "fr_message_id (fragment_of k mid m i) = mid"
  "fr_checksum (fragment_of k mid m i) = mcp_crc32 m"
  "fr_payload (fragment_of k mid m i) = fragment_payload m i"
  by (simp_all add: fragment_of_def)

lemma nth_fragment_payload:
  "j < length (fragment_payload m i) \<Longrightarrow> fragment_payload m i ! j = m ! (i * 1176 + j)"
  by (auto simp: fragment_payload_def)

lemma put_fragment_nth:
  assumes i: "i < fragments (length m)" and len: "length m \<le> length buf" and j: "j < length m"
  shows "put_at buf (i * 1176) (fragment_payload m i) ! j = (if j div 1176 = i then m ! j else buf ! j)"
proof -
  have lt: "i * 1176 < length m" using i by (simp add: less_fragments_iff)
  have pl: "length (fragment_payload m i) = min 1176 (length m - i * 1176)"
    by (rule length_fragment_payload)
  show ?thesis
  proof (cases "j div 1176 = i")
    case True
    then have b: "i * 1176 \<le> j" "j < i * 1176 + 1176" by auto
    then have "j - i * 1176 < length (fragment_payload m i)" using j pl by auto
    then show ?thesis
      using b lt len True by (simp add: put_at_def nth_append nth_fragment_payload)
  next
    case False
    then consider "j < i * 1176" | "i * 1176 + 1176 \<le> j" by fastforce
    then show ?thesis
      using False lt len j pl by cases (auto simp: put_at_def nth_append min_def)
  qed
qed

lemma received_full_iff:
  assumes "n \<le> 64" and "S \<subseteq> {..<n}" and "\<And>j. j < 64 \<Longrightarrow> bit (w :: u64) j \<longleftrightarrow> j \<in> S"
  shows "w = mask n \<longleftrightarrow> S = {..<n}"
proof
  assume w: "w = mask n"
  have "x \<in> S" if "x < n" for x
    using that assms(1) assms(3) [of x] by (simp add: w bit_mask_iff)
  with assms(2) show "S = {..<n}" by auto
next
  assume "S = {..<n}"
  with assms show "w = mask n"
    by (intro bit_word_eqI) (simp add: bit_mask_iff)
qed

locale framing =
  fixes dg :: "kind \<Rightarrow> u32 \<Rightarrow> bytes \<Rightarrow> nat \<Rightarrow> bytes"
  assumes dg_parse: "sendable m \<Longrightarrow> i < fragments (length m) \<Longrightarrow>
    parse_fragment (dg k mid m i) = Ok (fragment_of k mid m i)"
begin

lemma push_dg:
  assumes m: "sendable m" and i: "i < fragments (length m)" and S: "collecting k mid m S r"
  shows "if insert i S = {..<fragments (length m)}
         then snd (reassembler_push r (dg k mid m i))
                = Ok (Some \<lparr>cm_kind = k, cm_message_id = mid, cm_payload = m\<rparr>)
              \<and> \<not> rs_active (fst (reassembler_push r (dg k mid m i)))
         else snd (reassembler_push r (dg k mid m i)) = Ok None
              \<and> collecting k mid m (insert i S) (fst (reassembler_push r (dg k mid m i)))"
proof -
  let ?f = "fragment_of k mid m i" and ?n = "fragments (length m)"
  note u = fragment_of_unat(1-3) [OF m i, of k mid] fragment_of_unat(4) [OF m i]
  have sub: "insert i S \<subseteq> {..<?n}" and len: "length m \<le> length (rs_buffer r)"
    using S i by (auto simp: collecting_def)
  have bits: "bit (rs_received (store_fragment r ?f)) j \<longleftrightarrow> j \<in> insert i S" if "j < 64" for j
    using that received_begin_push [OF S that]
    by (auto simp: u bit_or_iff bit_exp_iff)
  have full: "rs_received (store_fragment r ?f) = mask ?n \<longleftrightarrow> insert i S = {..<?n}"
    using u(4) sub bits by (rule received_full_iff)
  have buf: "rs_buffer (store_fragment r ?f) ! j = m ! j" if "j < length m" "j div 1176 \<in> insert i S" for j
    using that S put_fragment_nth [OF i len that(1)] by (auto simp: u collecting_def)
  have blen: "length (rs_buffer (store_fragment r ?f)) = length (rs_buffer r)"
    using len i by (auto simp: u length_fragment_payload less_fragments_iff intro!: length_put_at)
  have same: "same_message (store_fragment r ?f) (fragment_of k mid m 0)"
    using u by (simp add: same_message_def) (simp add: fragment_of_def)
  show ?thesis
  proof (cases "insert i S = {..<?n}")
    case True
    have all: "j div 1176 \<in> insert i S" if "j < length m" for j
    proof -
      have "j div 1176 * 1176 \<le> j" by simp
      then show ?thesis using that by (simp add: True less_fragments_iff)
    qed
    have body: "sub (rs_buffer (store_fragment r ?f)) 0 (length m) = m"
      by (rule nth_equalityI) (use len blen buf all in \<open>simp_all del: store_fragment_simps\<close>)
    show ?thesis
      using True len full body
      by (simp add: reassembler_push_eq dg_parse [OF m i] u del: store_fragment_simps(7,8))
  next
    case False
    have "collecting k mid m (insert i S) (store_fragment r ?f)"
      using False sub len blen buf bits same
      by (simp add: collecting_def del: store_fragment_simps insert_subset insert_iff)
    with False len full show ?thesis
      by (simp add: reassembler_push_eq dg_parse [OF m i] u del: store_fragment_simps(7,8))
  qed
qed

lemma dg_inj:
  assumes m: "sendable m" and i: "i < fragments (length m)" and j: "j < fragments (length m)"
    and eq: "dg k mid m i = dg k mid m j"
  shows "i = j"
  using dg_parse [OF m i, of k mid] dg_parse [OF m j, of k mid] eq
    fragment_of_unat(1) [OF m i, of k mid] fragment_of_unat(1) [OF m j, of k mid] by simp

lemma push_all_collecting:
  assumes m: "sendable m"
    and j: "j < fragments (length m)" "j \<notin> S"
    and "collecting k mid m S r"
    and "\<And>d. d \<in> set ds \<Longrightarrow> (\<exists>e. parse_fragment d = Err e)
          \<or> (\<exists>i < fragments (length m). i \<noteq> j \<and> d = dg k mid m i)"
  shows "collecting k mid m (S \<union> {i. i < fragments (length m) \<and> dg k mid m i \<in> set ds})
           (fst (push_all r ds))
         \<and> Ok (Some c) \<notin> set (snd (push_all r ds))"
  using assms(3-)
proof (induction ds arbitrary: S r)
  case Nil
  then show ?case by simp
next
  case (Cons d ds)
  let ?n = "fragments (length m)"
  let ?r = "fst (reassembler_push r d)"
  consider e where "parse_fragment d = Err e" | i where "i < ?n" "i \<noteq> j" "d = dg k mid m i"
    using Cons.prems(3) [of d] by auto
  then obtain T where T: "j \<notin> T" "collecting k mid m T ?r"
      "T = S \<union> {i. i < ?n \<and> dg k mid m i = d}" "snd (reassembler_push r d) \<noteq> Ok (Some c)"
  proof cases
    case 1
    then have "{i. i < ?n \<and> dg k mid m i = d} = {}"
      using dg_parse [OF m] by auto
    with 1 Cons.prems show ?thesis
      by (intro that [of S]) (auto simp: reassembler_push_eq)
  next
    case 2
    have "j \<notin> insert i S" and "j \<in> {..<?n}"
      using 2(2) j(1) Cons.prems(1) by simp_all
    then have "insert i S \<noteq> {..<?n}" by blast
    then have "collecting k mid m (insert i S) ?r" "snd (reassembler_push r d) \<noteq> Ok (Some c)"
      using push_dg [OF m 2(1) Cons.prems(2)] by (simp_all add: 2(3))
    moreover have "insert i S = S \<union> {i. i < ?n \<and> dg k mid m i = d}"
      using 2 dg_inj [OF m] by blast
    ultimately show ?thesis
      using \<open>j \<notin> insert i S\<close> by (intro that [of "insert i S"])
  qed
  have "S \<union> {i. i < ?n \<and> dg k mid m i \<in> set (d # ds)}
      = T \<union> {i. i < ?n \<and> dg k mid m i \<in> set ds}"
    using T(3) by auto
  with Cons.IH [OF T(1,2) Cons.prems(3)] T(4) show ?case
    by (simp add: push_all.simps Let_def split_beta)
qed

lemma reassembles:
  assumes m: "sendable m" "length m \<le> length (rs_buffer r)" and idle: "\<not> rs_active r"
    and j: "j < fragments (length m)"
    and ds: "\<And>d. d \<in> set ds \<Longrightarrow> (\<exists>e. parse_fragment d = Err e)
          \<or> (\<exists>i < fragments (length m). i \<noteq> j \<and> d = dg k mid m i)"
    and all: "\<And>i. i < fragments (length m) \<Longrightarrow> i \<noteq> j \<Longrightarrow> dg k mid m i \<in> set ds"
  shows "Ok (Some c) \<notin> set (snd (push_all r ds))"
    and "snd (reassembler_push (fst (push_all r ds)) (dg k mid m j))
          = Ok (Some \<lparr>cm_kind = k, cm_message_id = mid, cm_payload = m\<rparr>)"
proof -
  have start: "collecting k mid m {} r"
    using m(2) idle by (simp add: collecting_def same_message_def)
  let ?S = "{} \<union> {i. i < fragments (length m) \<and> dg k mid m i \<in> set ds}"
  have run: "collecting k mid m ?S (fst (push_all r ds))"
      "Ok (Some c) \<notin> set (snd (push_all r ds))" for c
    using push_all_collecting [OF m(1) j _ start ds] by blast+
  show "Ok (Some c) \<notin> set (snd (push_all r ds))" by (rule run(2))
  have "insert j ?S = {..<fragments (length m)}"
    using j all by auto
  then show "snd (reassembler_push (fst (push_all r ds)) (dg k mid m j))
      = Ok (Some \<lparr>cm_kind = k, cm_message_id = mid, cm_payload = m\<rparr>)"
    using push_dg [OF m(1) j run(1)] by simp
qed

end

subsection \<open>The encoder is a framing\<close>

text \<open>What a sender puts on the wire: the first \<open>len\<close> bytes of a 1200-byte scratch buffer.\<close>

definition datagram :: "kind \<Rightarrow> u32 \<Rightarrow> bytes \<Rightarrow> nat \<Rightarrow> bytes" where
  "datagram k mid m i = (case encode_fragment k mid m (of_nat i) (replicate MAX_DATAGRAM 0) of
     Ok (len, out) \<Rightarrow> take len out | Err e \<Rightarrow> [] | Panic \<Rightarrow> [])"

lemma datagram_eq:
  assumes "sendable m" and "i < fragments (length m)"
  shows "datagram k mid m i = wire_header k mid m i @ fragment_payload m i"
proof -
  have "24 + length (fragment_payload m i) \<le> length (replicate MAX_DATAGRAM (0 :: byte))"
    by (simp add: length_fragment_payload MAX_DATAGRAM_def)
  from encode_fragment_eq [OF assms this] show ?thesis
    by (simp add: datagram_def)
qed

interpretation wire: framing datagram
  by unfold_locales (simp add: datagram_eq parse_wire)

subsection \<open>Where the bytes of a completed message come from\<close>

definition sourced :: "bytes set \<Rightarrow> reassembler \<Rightarrow> bool" where
  "sourced D r \<longleftrightarrow> (rs_active r \<longrightarrow> rs_total_len r \<le> length (rs_buffer r) \<and>
     (\<forall>i < 64. bit (rs_received r) i \<longrightarrow>
        (\<exists>d \<in> D. \<exists>f. parse_fragment d = Ok f \<and> same_message r f \<and> unat (fr_index f) = i
           \<and> sub (rs_buffer r) (i * 1176) (i * 1176 + length (fr_payload f)) = fr_payload f)))"

lemma fragment_ok_payload_le: "fragment_ok f \<Longrightarrow> length (fr_payload f) \<le> 1176"
  using less_fragments_iff [of "Suc (unat (fr_index f))" "unat (fr_total_len f)"]
  by (auto simp: fragment_ok_def split: if_splits)

lemma sourced_store:
  assumes r: "sourced D r" and d: "parse_fragment d = Ok f"
    and fits: "unat (fr_total_len f) \<le> length (rs_buffer r)"
  shows "sourced (insert d D) (store_fragment r f)"
proof -
  have f: "fragment_ok f" using d by (rule parse_fragment_ok)
  note fe = fragment_ok_end [OF f]
  have same: "same_message (store_fragment r f) g \<longleftrightarrow> same_message (begin_push r f) g" for g
    by (simp add: same_message_def)
  have sf: "same_message (begin_push r f) f" by (simp add: same_message_def)
  have "\<exists>d' \<in> insert d D. \<exists>g. parse_fragment d' = Ok g \<and> same_message (store_fragment r f) g
        \<and> unat (fr_index g) = i \<and> sub (rs_buffer (store_fragment r f)) (i * 1176)
              (i * 1176 + length (fr_payload g)) = fr_payload g"
    if i: "i < 64" "bit (rs_received (store_fragment r f)) i" for i
  proof (cases "i = unat (fr_index f)")
    case True
    with d fe fits sf show ?thesis
      by (intro bexI [of _ d] exI [of _ f]) (auto simp: same sub_put_at_same)
  next
    case False
    with i have b: "bit (rs_received (begin_push r f)) i"
      by (auto simp: bit_or_iff bit_exp_iff)
    then have sm: "same_message r f"
      by (auto simp: begin_push_def start_message_def split: if_splits)
    then have bp: "begin_push r f = r" by (simp add: begin_push_def)
    obtain d' g where g: "d' \<in> D" "parse_fragment d' = Ok g" "same_message r g"
        "unat (fr_index g) = i"
        "sub (rs_buffer r) (i * 1176) (i * 1176 + length (fr_payload g)) = fr_payload g"
      using r b i sm by (auto simp: sourced_def bp same_message_def)
    have "length (fr_payload g) \<le> 1176" "length (fr_payload f) \<le> 1176"
      using g(2) f by (auto intro: fragment_ok_payload_le parse_fragment_ok)
    moreover have "i * 1176 + 1176 \<le> unat (fr_index f) * 1176
        \<or> unat (fr_index f) * 1176 + 1176 \<le> i * 1176"
      using False by linarith
    ultimately have "sub (rs_buffer (store_fragment r f)) (i * 1176)
        (i * 1176 + length (fr_payload g)) = fr_payload g"
      using g(5) fe fits by (subst store_fragment_simps) (subst sub_put_at_other, auto)
    with g show ?thesis
      by (auto simp: same bp intro!: exI [of _ g] bexI [of _ d'])
  qed
  with fe fits show ?thesis
    by (auto simp: sourced_def)
qed

lemma sourced_mono: "sourced D r \<Longrightarrow> D \<subseteq> E \<Longrightarrow> sourced E r"
  unfolding sourced_def by blast

lemma length_store_fragment:
  "parse_fragment d = Ok f \<Longrightarrow> unat (fr_total_len f) \<le> length (rs_buffer r) \<Longrightarrow>
     length (rs_buffer (store_fragment r f)) = length (rs_buffer r)"
  using fragment_ok_end [OF parse_fragment_ok(1)] by fastforce

lemma sourced_push: "sourced D r \<Longrightarrow> sourced (insert d D) (fst (reassembler_push r d))"
  using sourced_store [of D r d] sourced_mono [of D r "insert d D"]
  by (auto simp: reassembler_push_eq Let_def sourced_def split: outcome.splits)

lemma sourced_push_all: "sourced D r \<Longrightarrow> sourced (D \<union> set ds) (fst (push_all r ds))"
proof (induction ds arbitrary: D r)
  case (Cons d ds)
  from Cons.IH [OF sourced_push [OF Cons.prems]] show ?case
    by (simp add: Let_def)
qed simp

lemma length_push: "length (rs_buffer (fst (reassembler_push r d))) = length (rs_buffer r)"
  by (auto simp: reassembler_push_eq Let_def length_store_fragment
      simp del: store_fragment_simps split: outcome.splits)

lemma length_push_all: "length (rs_buffer (fst (push_all r ds))) = length (rs_buffer r)"
  by (induction ds arbitrary: r) (simp_all add: Let_def length_push)

lemma sourcedE:
  assumes "sourced D r" "rs_active r" "i < 64" "bit (rs_received r) i"
  obtains d g where "d \<in> D" "parse_fragment d = Ok g" "same_message r g" "unat (fr_index g) = i"
    "sub (rs_buffer r) (i * 1176) (i * 1176 + length (fr_payload g)) = fr_payload g"
  using assms unfolding sourced_def by blast

lemma sourced_complete:
  assumes r: "sourced D r" and out: "snd (reassembler_push r d) = Ok (Some c)"
    and i: "i < fragments (length (cm_payload c))"
  shows "\<exists>d' \<in> insert d D. parse_fragment d' = Ok (fragment_of (cm_kind c) (cm_message_id c) (cm_payload c) i)"
    and "length (cm_payload c) \<le> length (rs_buffer r)"
proof -
  obtain f where f: "parse_fragment d = Ok f" "unat (fr_total_len f) \<le> length (rs_buffer r)"
      "rs_received (store_fragment r f) = mask (unat (fr_count f))"
      "cm_kind c = fr_kind f" "cm_message_id c = fr_message_id f"
      "cm_payload c = sub (rs_buffer (store_fragment r f)) 0 (unat (fr_total_len f))"
      "fr_checksum f = mcp_crc32 (cm_payload c)"
    using out
    by (auto simp: reassembler_push_eq Let_def simp del: store_fragment_simps
        split: outcome.splits if_splits)
  note ok = parse_fragment_ok(1) [OF f(1)]
  have len: "length (cm_payload c) = unat (fr_total_len f)"
    using f(2) by (simp add: f(6) length_store_fragment [OF f(1,2)] del: store_fragment_simps)
  then show "length (cm_payload c) \<le> length (rs_buffer r)" using f(2) by simp
  have i64: "i < 64" "i < unat (fr_count f)"
    using i ok len by (auto simp: fragment_ok_def)
  then have "bit (rs_received (store_fragment r f)) i"
    by (simp add: f(3) bit_mask_iff del: store_fragment_simps)
  from sourcedE [OF sourced_store [OF r f(1,2)] store_fragment_simps(1) i64(1) this]
  obtain d' g where g: "d' \<in> insert d D" "parse_fragment d' = Ok g"
      "same_message (store_fragment r f) g" "unat (fr_index g) = i"
      "sub (rs_buffer (store_fragment r f)) (i * 1176) (i * 1176 + length (fr_payload g)) = fr_payload g" .
  note gok = parse_fragment_ok(1) [OF g(2)]
  have un: "unat (fr_total_len g) = length (cm_payload c)"
      "unat (fr_count g) = fragments (length (cm_payload c))"
    using g(3) len ok by (auto simp: same_message_def fragment_ok_def)
  have tot: "fr_total_len g = of_nat (length (cm_payload c))"
    unfolding un(1) [symmetric] by simp
  have cnt: "fr_count g = of_nat (fragments (length (cm_payload c)))"
    unfolding un(2) [symmetric] by simp
  have bnd: "i * 1176 + length (fr_payload g) \<le> length (cm_payload c)"
      "length (fr_payload g) = min 1176 (length (cm_payload c) - i * 1176)"
  proof -
    have "Suc i = fragments (length (cm_payload c)) \<or> Suc i < fragments (length (cm_payload c))"
      using i by linarith
    then show "i * 1176 + length (fr_payload g) \<le> length (cm_payload c)"
        "length (fr_payload g) = min 1176 (length (cm_payload c) - i * 1176)"
      using un gok g(4) fragment_ok_end [OF gok] less_fragments_iff [of "Suc i" "length (cm_payload c)"]
      by (auto simp: fragment_ok_def)
  qed
  have "min (i * 1176 + 1176) (length (cm_payload c)) = i * 1176 + length (fr_payload g)"
    using bnd i by (simp add: less_fragments_iff)
  moreover have "sub (cm_payload c) (i * 1176) (i * 1176 + length (fr_payload g)) = fr_payload g"
    using g(5) bnd(1) unfolding len by (simp add: f(6) sub_sub del: store_fragment_simps)
  ultimately have "fr_payload g = fragment_payload (cm_payload c) i"
    by (simp add: fragment_payload_def)
  moreover have "fr_index g = of_nat i"
    using g(4) by auto
  ultimately have "g = fragment_of (cm_kind c) (cm_message_id c) (cm_payload c) i"
    using g(3) f(4,5,7) tot cnt by (simp add: fragment_of_def same_message_def)
  with g(1,2) show "\<exists>d' \<in> insert d D. parse_fragment d' =
      Ok (fragment_of (cm_kind c) (cm_message_id c) (cm_payload c) i)" by auto
qed

subsection \<open>Properties\<close>

lemma concat_sub:
  "concat (map (\<lambda>i. sub xs (i * n) (min (i * n + n) (length xs))) [0..<k]) = sub xs 0 (min (k * n) (length xs))"
proof (induction k)
  case (Suc k)
  have "sub xs (k * n) (min (k * n + n) (length xs))
      = sub xs (min (k * n) (length xs)) (min (k * n + n) (length xs))"
    by (simp add: sub_def min_def)
  with Suc show ?case
    by (simp add: sub_append_sub add.commute)
qed simp

lemma concat_fragment_payload:
  "concat (map (fragment_payload m) [0..<fragments (length m)]) = m"
proof -
  have "length m \<le> fragments (length m) * 1176"
    by (simp add: fragments_def div_ceil_bounds)
  then show ?thesis
    using concat_sub [of m 1176 "fragments (length m)"]
    by (simp add: fragment_payload_def [abs_def])
qed

lemma encode_fragment_not_Panic: "encode_fragment k mid m idx out \<noteq> Panic"
proof (cases "sendable m \<and> idx < (of_nat (fragments (length m)) :: u16)")
  case True
  then have n: "fragments (length m) \<le> 64" using fragments_bound by (auto simp: sendable_def)
  with True have i: "unat idx < fragments (length m)"
    by (simp add: word_less_nat_alt unat_of_nat)
  have m: "sendable m" using True ..
  have idx: "of_nat (unat idx) = idx" by simp
  show ?thesis
  proof (cases "24 + length (fragment_payload m (unat idx)) \<le> length out")
    case True
    from encode_fragment_eq [OF m i this, of k mid] show ?thesis by (simp add: idx)
  next
    case short: False
    have "unat idx * 1176 \<le> length m" using i by (simp add: less_fragments_iff)
    then have "slice m (unat idx * 1176) (min (unat idx * 1176 + 1176) (length m))
        = (Ok (fragment_payload m (unat idx)) :: (mcp_error, bytes) outcome)"
      by (simp add: fragment_payload_def)
    with True short m show ?thesis
      by (auto simp: encode_fragment_def fragment_count_eq sendable_def Let_def not_le [symmetric]
          simp del: slice_ok)
  qed
next
  case False
  then show ?thesis
    by (auto simp: encode_fragment_def fragment_count_eq sendable_def not_less)
qed

text \<open>For every message of 1 to 75,264 bytes and every fragment of it, the encoder writes one
  datagram of at most 1200 bytes at the front of the caller's buffer, leaves the rest of the
  buffer alone, and the parser reads exactly that fragment back; the payloads of the fragments,
  in order, are the message.\<close>

theorem encode_parse_roundtrip:
  assumes "sendable m" and "i < fragments (length m)" and "1200 \<le> length out"
  shows "(\<exists>len out'. encode_fragment k mid m (of_nat i) out = Ok (len, out') \<and> len \<le> MAX_DATAGRAM
            \<and> length out' = length out \<and> drop len out' = drop len out
            \<and> parse_fragment (take len out') = Ok (fragment_of k mid m i))
         \<and> concat (map (fragment_payload m) [0..<fragments (length m)]) = m"
proof -
  have p: "length (fragment_payload m i) \<le> 1176" by (simp add: length_fragment_payload)
  with assms(3) have "24 + length (fragment_payload m i) \<le> length out" by simp
  from encode_fragment_eq [OF assms(1,2) this, of k mid] parse_wire [OF assms(1,2), of k mid] p assms(3)
  show ?thesis by (simp add: concat_fragment_payload MAX_DATAGRAM_def)
qed

lemma encode_parse_roundtrip_witness:
  "\<exists>len out'. encode_fragment Hello 7 [1, 2, 3] (of_nat 0) (replicate 1200 9) = Ok (len, out')
     \<and> parse_fragment (take len out') = Ok (fragment_of Hello 7 [1, 2, 3] 0)"
  using encode_parse_roundtrip [of "[1, 2, 3]" 0 "replicate 1200 9" Hello 7]
  by (auto simp: sendable_def less_fragments_iff)

text \<open>No datagram, however malformed, and no reassembler state makes the parser or the
  reassembler panic (no slice out of range, no oversized shift, no underflow), the encoder never
  panics on any message, index or buffer, and the reassembly buffer keeps its size.\<close>

theorem mcp_never_panics:
  "parse_fragment d \<noteq> Panic \<and> snd (reassembler_push r d) \<noteq> Panic
   \<and> encode_fragment k mid m idx out \<noteq> Panic
   \<and> length (rs_buffer (fst (reassembler_push r d))) = length (rs_buffer r)"
  by (simp add: parse_fragment_not_Panic reassembler_push_not_Panic encode_fragment_not_Panic length_push)

text \<open>C1: The fragments of a message that fits the buffer may arrive in any order, any number of
  times each, with malformed datagrams in between: no push before the last missing fragment
  completes anything, and the push of that fragment yields exactly the message that was sent.\<close>

theorem reassembly_any_order:
  assumes "sendable m" and "length m \<le> length (rs_buffer r)" and "\<not> rs_active r"
    and "j < fragments (length m)"
    and "\<forall>d \<in> set ds. (\<exists>e. parse_fragment d = Err e)
           \<or> (\<exists>i < fragments (length m). i \<noteq> j \<and> d = datagram k mid m i)"
    and "\<forall>i < fragments (length m). i \<noteq> j \<longrightarrow> datagram k mid m i \<in> set ds"
  shows "Ok (Some c) \<notin> set (snd (push_all r ds))
    \<and> snd (reassembler_push (fst (push_all r ds)) (datagram k mid m j))
        = Ok (Some \<lparr>cm_kind = k, cm_message_id = mid, cm_payload = m\<rparr>)"
  using wire.reassembles [OF assms(1-4)] assms(5,6) by blast

lemma reassembly_any_order_witness:
  "snd (reassembler_push (fst (push_all (reassembler_default 2048)
      [[1, 2], datagram Hello 5 (replicate 1200 7) 1, datagram Hello 5 (replicate 1200 7) 1]))
      (datagram Hello 5 (replicate 1200 7) 0))
    = Ok (Some \<lparr>cm_kind = Hello, cm_message_id = 5, cm_payload = replicate 1200 7\<rparr>)"
proof -
  have "fragments (length (replicate 1200 (7 :: byte))) = 2"
    by (simp add: fragments_def div_ceil_def)
  moreover have "parse_fragment [1, 2] = Err Truncated"
    by (simp add: parse_fragment_def)
  ultimately show ?thesis
    by (intro reassembly_any_order [THEN conjunct2])
       (auto simp: sendable_def reassembler_default_def less_Suc_eq numeral_2_eq_2)
qed

text \<open>C2: A completed message was received: whatever datagrams arrive, when a push returns a
  message then, for every fragment position of it, some datagram pushed so far parses to exactly
  that fragment of that message, with its kind, id, length and CRC.\<close>

theorem completed_message_was_received:
  assumes "snd (reassembler_push (fst (push_all (reassembler_default max_len) ds)) d) = Ok (Some c)"
  shows "length (cm_payload c) \<le> max_len
    \<and> (\<forall>i \<in> {..<fragments (length (cm_payload c))}. \<exists>d' \<in> set (ds @ [d]).
         parse_fragment d' = Ok (fragment_of (cm_kind c) (cm_message_id c) (cm_payload c) i))"
proof -
  let ?r = "fst (push_all (reassembler_default max_len) ds)"
  have "sourced {} (reassembler_default max_len)"
    by (simp add: sourced_def reassembler_default_def)
  then have src: "sourced (set ds) ?r"
    using sourced_push_all [of "{}" "reassembler_default max_len" ds] by simp
  have "length (rs_buffer ?r) = max_len"
    by (simp add: length_push_all) (simp add: reassembler_default_def)
  moreover have "0 < fragments (length (cm_payload c)) \<or> cm_payload c = []"
    using fragments_pos by auto
  ultimately show ?thesis
    using sourced_complete [OF src assms] by fastforce
qed

lemma completed_message_was_received_witness:
  "\<exists>d' \<in> set ([] @ [datagram Hello 5 [1, 2, 3] 0]).
     parse_fragment d' = Ok (fragment_of Hello 5 [1, 2, 3] 0)"
proof -
  have "snd (reassembler_push (fst (push_all (reassembler_default 16) [])) (datagram Hello 5 [1, 2, 3] 0))
      = Ok (Some \<lparr>cm_kind = Hello, cm_message_id = 5, cm_payload = [1, 2, 3]\<rparr>)"
    using wire.reassembles(2) [of "[1, 2, 3]" "reassembler_default 16" 0 "[]" Hello 5]
    by (auto simp: sendable_def reassembler_default_def less_fragments_iff)
  from completed_message_was_received [OF this] show ?thesis
    by (auto simp: less_fragments_iff)
qed

end
