(* ===== verification/Nr_Blocks.thy ===== *)
theory Nr_Blocks
  imports Nr_Prelude
begin

text \<open>
  The in-place tensor blocks of \<^verbatim>\<open>crates/nr-tensor/src/q8.rs\<close> and
  \<^verbatim>\<open>crates/nr-tensor/src/kquant.rs\<close>: the packed \<open>repr(C)\<close> layouts read out of raw bytes
  (\<open>cast_blocks\<close>, \<open>cast_q4k\<close>, \<open>cast_q6k\<close>) and the six-bit scale unpacking of Q4_K.
\<close>

subsection \<open>Layouts\<close>

record block_q8_0 =
  q8_d :: u16
  q8_qs :: bytes

record block_q4k =
  q4_d :: u16
  q4_dmin :: u16
  q4_scales :: bytes
  q4_qs :: bytes

record block_q6k =
  q6_ql :: bytes
  q6_qh :: bytes
  q6_scales :: bytes
  q6_d :: u16

definition QK8_0 :: nat where "QK8_0 = 32"
definition QK_K :: nat where "QK_K = 256"

definition read_q8_0 :: "bytes \<Rightarrow> block_q8_0" where
  "read_q8_0 b = \<lparr>q8_d = le_word (sub b 0 2), q8_qs = sub b 2 34\<rparr>"

definition read_q4k :: "bytes \<Rightarrow> block_q4k" where
  "read_q4k b = \<lparr>q4_d = le_word (sub b 0 2), q4_dmin = le_word (sub b 2 4),
     q4_scales = sub b 4 16, q4_qs = sub b 16 144\<rparr>"

definition read_q6k :: "bytes \<Rightarrow> block_q6k" where
  "read_q6k b = \<lparr>q6_ql = sub b 0 128, q6_qh = sub b 128 192, q6_scales = sub b 192 208,
     q6_d = le_word (sub b 208 210)\<rparr>"

subsection \<open>The reinterpreting casts\<close>

text \<open>Each cast asserts that the length is a multiple of the block size.\<close>

definition cast_blocks :: "bytes \<Rightarrow> ('e, block_q8_0 list) outcome" where
  "cast_blocks bs = (if length bs mod 34 = 0 then Ok (map read_q8_0 (chunks_exact 34 bs)) else Panic)"

definition cast_q4k :: "bytes \<Rightarrow> ('e, block_q4k list) outcome" where
  "cast_q4k bs = (if length bs mod 144 = 0 then Ok (map read_q4k (chunks_exact 144 bs)) else Panic)"

definition cast_q6k :: "bytes \<Rightarrow> ('e, block_q6k list) outcome" where
  "cast_q6k bs = (if length bs mod 210 = 0 then Ok (map read_q6k (chunks_exact 210 bs)) else Panic)"

lemma length_chunks_exact: "0 < n \<Longrightarrow> length (chunks_exact n xs) = length xs div n"
proof (induction n xs rule: chunks_exact.induct)
  case (1 n xs)
  then show ?case
    by (subst chunks_exact.simps) (auto simp: le_div_geq not_less)
qed

text \<open>The bytes of a block, and that reading inverts writing.\<close>

definition q8_0_bytes :: "block_q8_0 \<Rightarrow> bytes" where
  "q8_0_bytes b = to_le 2 (q8_d b) @ q8_qs b"

definition q4k_bytes :: "block_q4k \<Rightarrow> bytes" where
  "q4k_bytes b = to_le 2 (q4_d b) @ to_le 2 (q4_dmin b) @ q4_scales b @ q4_qs b"

definition q6k_bytes :: "block_q6k \<Rightarrow> bytes" where
  "q6k_bytes b = q6_ql b @ q6_qh b @ q6_scales b @ to_le 2 (q6_d b)"

lemma le_word_sub_two [simp]:
  "c = a + 2 \<Longrightarrow> c \<le> length b \<Longrightarrow> to_le 2 (le_word (sub b a c) :: u16) = sub b a c"
  using to_le_le_word [where ?'a = 16, of "sub b a c"] by simp

lemma block_layouts:
  "length b = 34 \<Longrightarrow> q8_0_bytes (read_q8_0 b) = b"
  "length b = 144 \<Longrightarrow> q4k_bytes (read_q4k b) = b"
  "length b = 210 \<Longrightarrow> q6k_bytes (read_q6k b) = b"
  using sub_zero_length [of b]
  by (simp_all add: q8_0_bytes_def q4k_bytes_def q6k_bytes_def read_q8_0_def read_q4k_def
      read_q6k_def sub_append_sub)

lemma concat_chunks_exact: "length bs mod n = 0 \<Longrightarrow> 0 < n \<Longrightarrow> concat (chunks_exact n bs) = bs"
proof (induction n bs rule: chunks_exact.induct)
  case (1 n bs)
  show ?case
  proof (cases "length bs < n")
    case True
    with 1 show ?thesis by simp
  next
    case False
    with 1 have "concat (chunks_exact n (drop n bs)) = drop n bs"
      by (simp add: le_mod_geq not_less)
    with False 1 show ?thesis by (subst chunks_exact.simps) simp
  qed
qed

lemma map_chunks_id:
  "length bs mod n = 0 \<Longrightarrow> 0 < n \<Longrightarrow> (\<And>b. length b = n \<Longrightarrow> g (f b) = b) \<Longrightarrow>
     concat (map (g \<circ> f) (chunks_exact n bs)) = bs"
  using chunks_exact_length [of _ n bs] concat_chunks_exact [of bs n]
  by (simp add: map_idI)

text \<open>A cast loses nothing: the bytes of the blocks are the bytes that were cast.\<close>

lemma cast_views:
  "cast_blocks bs = Ok qs \<Longrightarrow> concat (map q8_0_bytes qs) = bs \<and> length qs = length bs div 34"
  "cast_q4k bs = Ok ks \<Longrightarrow> concat (map q4k_bytes ks) = bs \<and> length ks = length bs div 144"
  "cast_q6k bs = Ok ms \<Longrightarrow> concat (map q6k_bytes ms) = bs \<and> length ms = length bs div 210"
  by (auto simp: cast_blocks_def cast_q4k_def cast_q6k_def length_chunks_exact map_chunks_id
      block_layouts split: if_splits)

end
