(* ===== verification/Nr_Format.thy ===== *)
theory Nr_Format
  imports Nr_Crc32 Nr_Blocks
begin

text \<open>
  The model container of \<^verbatim>\<open>crates/nr-model/src/format.rs\<close>: header, tensor table and data
  section of a \<open>.nrm\<close> blob, their validation by \<open>Model::parse\<close>, the data checksum and the
  in-place tensor views.

  An \<open>f32\<close> field is kept as its bit pattern, and \<open>is_finite\<close> and the comparisons with 0 are
  written out on it. A blob has an address: the typed views assert the alignment of theirs.
\<close>

subsection \<open>Constants, kinds and data types\<close>

definition NRM_MAGIC :: bytes where "NRM_MAGIC = [0x4e, 0x52, 0x55, 0x4e]"
definition NRM_VERSION :: u32 where "NRM_VERSION = 3"
definition HEADER_SIZE :: nat where "HEADER_SIZE = 192"
definition NAME_LEN :: nat where "NAME_LEN = 48"
definition ENTRY_SIZE :: nat where "ENTRY_SIZE = 32"
definition DATA_ALIGN :: nat where "DATA_ALIGN = 64"
definition FLAG_TIED_EMBEDDINGS :: u32 where "FLAG_TIED_EMBEDDINGS = 1"

lemma format_consts [simp]: "HEADER_SIZE = 192" "NAME_LEN = 48" "ENTRY_SIZE = 32" "DATA_ALIGN = 64"
  by (simp_all add: HEADER_SIZE_def NAME_LEN_def ENTRY_SIZE_def DATA_ALIGN_def)

datatype arch = Llama3 | Qwen3 | Granite

primrec arch_u32 :: "arch \<Rightarrow> u32" where
  "arch_u32 Llama3 = 1"
| "arch_u32 Qwen3 = 2"
| "arch_u32 Granite = 3"

definition arch_from_u32 :: "u32 \<Rightarrow> arch option" where
  "arch_from_u32 v = (if v = 1 then Some Llama3 else if v = 2 then Some Qwen3
     else if v = 3 then Some Granite else None)"

primrec assistant_label :: "arch \<Rightarrow> string" where
  "assistant_label Llama3 = ''llama''"
| "assistant_label Qwen3 = ''qwen''"
| "assistant_label Granite = ''granite''"

datatype tensor_kind = TokEmbed | OutputNorm | Output | RopeFreqs | AttnNorm | AttnQ | AttnK | AttnV
  | AttnO | FfnNorm | FfnGate | FfnUp | FfnDown | AttnQNorm | AttnKNorm

primrec kind_u16 :: "tensor_kind \<Rightarrow> u16" where
  "kind_u16 TokEmbed = 1"
| "kind_u16 OutputNorm = 2"
| "kind_u16 Output = 3"
| "kind_u16 RopeFreqs = 4"
| "kind_u16 AttnNorm = 10"
| "kind_u16 AttnQ = 11"
| "kind_u16 AttnK = 12"
| "kind_u16 AttnV = 13"
| "kind_u16 AttnO = 14"
| "kind_u16 FfnNorm = 15"
| "kind_u16 FfnGate = 16"
| "kind_u16 FfnUp = 17"
| "kind_u16 FfnDown = 18"
| "kind_u16 AttnQNorm = 19"
| "kind_u16 AttnKNorm = 20"

definition kind_from_u16 :: "u16 \<Rightarrow> tensor_kind option" where
  "kind_from_u16 v =
     (if v = 1 then Some TokEmbed else if v = 2 then Some OutputNorm else if v = 3 then Some Output
      else if v = 4 then Some RopeFreqs else if v = 10 then Some AttnNorm else if v = 11 then Some AttnQ
      else if v = 12 then Some AttnK else if v = 13 then Some AttnV else if v = 14 then Some AttnO
      else if v = 15 then Some FfnNorm else if v = 16 then Some FfnGate else if v = 17 then Some FfnUp
      else if v = 18 then Some FfnDown else if v = 19 then Some AttnQNorm
      else if v = 20 then Some AttnKNorm else None)"

primrec kind_name :: "tensor_kind \<Rightarrow> string" where
  "kind_name TokEmbed = ''token_embd''"
| "kind_name OutputNorm = ''output_norm''"
| "kind_name Output = ''output''"
| "kind_name RopeFreqs = ''rope_freqs''"
| "kind_name AttnNorm = ''attn_norm''"
| "kind_name AttnQ = ''attn_q''"
| "kind_name AttnK = ''attn_k''"
| "kind_name AttnV = ''attn_v''"
| "kind_name AttnO = ''attn_output''"
| "kind_name FfnNorm = ''ffn_norm''"
| "kind_name FfnGate = ''ffn_gate''"
| "kind_name FfnUp = ''ffn_up''"
| "kind_name FfnDown = ''ffn_down''"
| "kind_name AttnQNorm = ''attn_q_norm''"
| "kind_name AttnKNorm = ''attn_k_norm''"

lemma kind_from_u16_kind_u16: "kind_from_u16 (kind_u16 k) = Some k"
  by (cases k) (simp_all add: kind_from_u16_def)

datatype dtype = F32 | Q8_0 | Q4K | Q6K

definition dtype_of_u16 :: "u16 \<Rightarrow> dtype option" where
  "dtype_of_u16 v = (if v = 0 then Some F32 else if v = 1 then Some Q8_0 else if v = 2 then Some Q4K
     else if v = 3 then Some Q6K else None)"

definition block_size :: "nat \<Rightarrow> nat \<Rightarrow> nat \<Rightarrow> nat option" where
  "block_size per bytes n = (if n mod per = 0 then checked_mul (n div per) bytes else None)"

primrec byte_size :: "dtype \<Rightarrow> nat \<Rightarrow> nat option" where
  "byte_size F32 n = checked_mul n 4"
| "byte_size Q8_0 n = block_size 32 34 n"
| "byte_size Q4K n = block_size 256 144 n"
| "byte_size Q6K n = block_size 256 210 n"

subsection \<open>Data\<close>

record model_meta =
  mt_arch :: arch
  mt_dim :: u32
  mt_n_layers :: u32
  mt_n_heads :: u32
  mt_n_kv_heads :: u32
  mt_head_dim :: u32
  mt_ffn_dim :: u32
  mt_vocab :: u32
  mt_ctx_train :: u32
  mt_rope_theta :: u32
  mt_norm_eps :: u32
  mt_rope_factor :: u32
  mt_rope_low :: u32
  mt_rope_high :: u32
  mt_rope_orig_ctx :: u32
  mt_flags :: u32
  mt_embed_scale :: u32
  mt_attn_scale :: u32
  mt_residual_scale :: u32
  mt_logit_scale :: u32
  mt_name :: bytes

record tensor_entry =
  te_kind :: u16
  te_layer :: u16
  te_dtype :: dtype
  te_offset :: u64
  te_size :: u64
  te_rows :: u32
  te_cols :: u32

record tensor_view =
  tv_dtype :: dtype
  tv_rows :: nat
  tv_cols :: nat
  tv_bytes :: bytes
  tv_addr :: nat

datatype parse_error = TooShort | BadMagic | BadVersion u32 | MetaCrc u32 u32 | BadTable
  | MissingTensor string

record model =
  md_meta :: model_meta
  md_entries :: "tensor_entry list"
  md_tokenizer_blob :: bytes
  md_data :: bytes
  md_data_addr :: nat
  md_data_crc :: u32
  md_blob :: bytes

text \<open>\<open>name_str\<close>: up to the first NUL; \<open>utf8\<close> is the standard library's validator.\<close>

definition name_str :: "(bytes \<Rightarrow> string option) \<Rightarrow> model_meta \<Rightarrow> string" where
  "name_str utf8 m = (case utf8 (takeWhile (\<lambda>b. b \<noteq> 0) (mt_name m)) of
     Some s \<Rightarrow> s | None \<Rightarrow> ''model'')"

subsection \<open>The cursor\<close>

type_synonym cursor = "bytes \<times> nat"

definition cur_u16 :: "cursor \<Rightarrow> ('e, u16 \<times> cursor) outcome" where
  "cur_u16 c = obind (read_le 2 (fst c) (snd c)) (\<lambda>v. Ok (v, (fst c, snd c + 2)))"

definition cur_u32 :: "cursor \<Rightarrow> ('e, u32 \<times> cursor) outcome" where
  "cur_u32 c = obind (read_le 4 (fst c) (snd c)) (\<lambda>v. Ok (v, (fst c, snd c + 4)))"

definition cur_u64 :: "cursor \<Rightarrow> ('e, u64 \<times> cursor) outcome" where
  "cur_u64 c = obind (read_le 8 (fst c) (snd c)) (\<lambda>v. Ok (v, (fst c, snd c + 8)))"

definition cur_f32 :: "cursor \<Rightarrow> ('e, u32 \<times> cursor) outcome" where
  "cur_f32 c = cur_u32 c"

definition cur_name :: "cursor \<Rightarrow> ('e, bytes \<times> cursor) outcome" where
  "cur_name c = obind (slice (fst c) (snd c) (snd c + NAME_LEN)) (\<lambda>n. Ok (n, (fst c, snd c + NAME_LEN)))"

lemma cursor_reads [simp]:
  "p + 2 \<le> length b \<Longrightarrow> cur_u16 (b, p) = Ok (le_word (sub b p (p + 2)), (b, p + 2))"
  "p + 4 \<le> length b \<Longrightarrow> cur_u32 (b, p) = Ok (le_word (sub b p (p + 4)), (b, p + 4))"
  "p + 4 \<le> length b \<Longrightarrow> cur_f32 (b, p) = Ok (le_word (sub b p (p + 4)), (b, p + 4))"
  "p + 8 \<le> length b \<Longrightarrow> cur_u64 (b, p) = Ok (le_word (sub b p (p + 8)), (b, p + 8))"
  "p + 48 \<le> length b \<Longrightarrow> cur_name (b, p) = Ok (sub b p (p + 48), (b, p + 48))"
  by (simp_all add: cur_u16_def cur_u32_def cur_f32_def cur_u64_def cur_name_def)

subsection \<open>Parsing\<close>

text \<open>The meta data, field by field in file order, with the cursor after it.\<close>

definition parse_meta :: "arch \<Rightarrow> cursor \<Rightarrow> (parse_error, model_meta \<times> cursor) outcome" where
  "parse_meta a c =
     obind (cur_u32 c) (\<lambda>(dim, c).
     obind (cur_u32 c) (\<lambda>(n_layers, c).
     obind (cur_u32 c) (\<lambda>(n_heads, c).
     obind (cur_u32 c) (\<lambda>(n_kv_heads, c).
     obind (cur_u32 c) (\<lambda>(head_dim, c).
     obind (cur_u32 c) (\<lambda>(ffn_dim, c).
     obind (cur_u32 c) (\<lambda>(vocab, c).
     obind (cur_u32 c) (\<lambda>(ctx_train, c).
     obind (cur_f32 c) (\<lambda>(rope_theta, c).
     obind (cur_f32 c) (\<lambda>(norm_eps, c).
     obind (cur_f32 c) (\<lambda>(rope_factor, c).
     obind (cur_f32 c) (\<lambda>(rope_low, c).
     obind (cur_f32 c) (\<lambda>(rope_high, c).
     obind (cur_f32 c) (\<lambda>(rope_orig_ctx, c).
     obind (cur_u32 c) (\<lambda>(flags, c).
     obind (cur_f32 c) (\<lambda>(embed_scale, c).
     obind (cur_f32 c) (\<lambda>(attn_scale, c).
     obind (cur_f32 c) (\<lambda>(residual_scale, c).
     obind (cur_f32 c) (\<lambda>(logit_scale, c).
     obind (cur_name c) (\<lambda>(name, c).
     Ok (\<lparr>mt_arch = a, mt_dim = dim, mt_n_layers = n_layers, mt_n_heads = n_heads,
          mt_n_kv_heads = n_kv_heads, mt_head_dim = head_dim, mt_ffn_dim = ffn_dim, mt_vocab = vocab,
          mt_ctx_train = ctx_train, mt_rope_theta = rope_theta, mt_norm_eps = norm_eps,
          mt_rope_factor = rope_factor, mt_rope_low = rope_low, mt_rope_high = rope_high,
          mt_rope_orig_ctx = rope_orig_ctx, mt_flags = flags, mt_embed_scale = embed_scale,
          mt_attn_scale = attn_scale, mt_residual_scale = residual_scale,
          mt_logit_scale = logit_scale, mt_name = name\<rparr>, c)))))))))))))))))))))"

text \<open>The section offsets and checksums that follow the meta data.\<close>

record sections =
  sc_tok_off :: nat
  sc_tok_size :: nat
  sc_table_off :: nat
  sc_tensor_count :: nat
  sc_data_off :: nat
  sc_data_size :: nat
  sc_data_crc :: u32
  sc_meta_crc :: u32

definition parse_sections :: "cursor \<Rightarrow> (parse_error, sections) outcome" where
  "parse_sections c =
     obind (cur_u64 c) (\<lambda>(tok_off, c).
     obind (cur_u64 c) (\<lambda>(tok_size, c).
     obind (cur_u64 c) (\<lambda>(table_off, c).
     obind (cur_u32 c) (\<lambda>(tensor_count, c).
     obind (cur_u32 c) (\<lambda>(pad, c).
     obind (cur_u64 c) (\<lambda>(data_off, c).
     obind (cur_u64 c) (\<lambda>(data_size, c).
     obind (cur_u32 c) (\<lambda>(data_crc, c).
     obind (cur_u32 c) (\<lambda>(meta_crc, c).
     Ok \<lparr>sc_tok_off = unat tok_off, sc_tok_size = unat tok_size, sc_table_off = unat table_off,
         sc_tensor_count = unat tensor_count, sc_data_off = unat data_off,
         sc_data_size = unat data_size, sc_data_crc = data_crc, sc_meta_crc = meta_crc\<rparr>)))))))))"

text \<open>\<open>f32::is_finite\<close>, \<open>< 0.0\<close> and \<open><= 0.0\<close> on bit patterns (both false on a NaN).\<close>

definition f32_is_finite :: "u32 \<Rightarrow> bool" where
  "f32_is_finite x \<longleftrightarrow> x AND 0x7f800000 \<noteq> 0x7f800000"

definition f32_is_nan :: "u32 \<Rightarrow> bool" where
  "f32_is_nan x \<longleftrightarrow> x AND 0x7fffffff > 0x7f800000"

definition f32_lt_zero :: "u32 \<Rightarrow> bool" where
  "f32_lt_zero x \<longleftrightarrow> \<not> f32_is_nan x \<and> x > 0x80000000"

definition f32_le_zero :: "u32 \<Rightarrow> bool" where
  "f32_le_zero x \<longleftrightarrow> \<not> f32_is_nan x \<and> (x \<ge> 0x80000000 \<or> x = 0)"

definition scalars_bad :: "model_meta \<Rightarrow> bool" where
  "scalars_bad m \<longleftrightarrow> \<not> f32_is_finite (mt_embed_scale m) \<or> \<not> f32_is_finite (mt_attn_scale m)
     \<or> f32_lt_zero (mt_attn_scale m) \<or> \<not> f32_is_finite (mt_residual_scale m)
     \<or> f32_le_zero (mt_residual_scale m) \<or> \<not> f32_is_finite (mt_logit_scale m)
     \<or> f32_le_zero (mt_logit_scale m)"

text \<open>One row of the tensor table, checked against the data section.\<close>

definition parse_entry :: "nat \<Rightarrow> cursor \<Rightarrow> (parse_error, tensor_entry \<times> cursor) outcome" where
  "parse_entry data_size c =
     obind (cur_u16 c) (\<lambda>(kind, c).
     obind (cur_u16 c) (\<lambda>(layer, c).
     obind (cur_u16 c) (\<lambda>(dt, c).
     obind (ok_or (dtype_of_u16 dt) BadTable) (\<lambda>dtype.
     obind (cur_u16 c) (\<lambda>(pad, c).
     obind (cur_u64 c) (\<lambda>(offset, c).
     obind (cur_u64 c) (\<lambda>(size, c).
     obind (cur_u32 c) (\<lambda>(rows, c).
     obind (cur_u32 c) (\<lambda>(cols, c).
     obind (ok_or (checked_add (unat offset) (unat size)) BadTable) (\<lambda>fin.
     if fin > data_size then Err BadTable
     else if unat offset mod DATA_ALIGN \<noteq> 0 then Err BadTable
     else obind (ok_or (checked_mul (unat rows) (unat cols)) BadTable) (\<lambda>n.
       if byte_size dtype n \<noteq> Some (unat size) then Err BadTable
       else Ok (\<lparr>te_kind = kind, te_layer = layer, te_dtype = dtype, te_offset = offset,
                 te_size = size, te_rows = rows, te_cols = cols\<rparr>, c))))))))))))"

primrec parse_entries :: "nat \<Rightarrow> nat \<Rightarrow> cursor \<Rightarrow> (parse_error, tensor_entry list) outcome" where
  "parse_entries data_size 0 c = Ok []"
| "parse_entries data_size (Suc n) c =
     obind (parse_entry data_size c) (\<lambda>(e, c').
     obind (parse_entries data_size n c') (\<lambda>es. Ok (e # es)))"

text \<open>The metadata checksum: four updates, the checksum fields hashed as zeros.\<close>

definition meta_crc :: "bytes \<Rightarrow> sections \<Rightarrow> (parse_error, u32) outcome" where
  "meta_crc blob sc =
     obind (slice blob 0 (HEADER_SIZE - 8)) (\<lambda>head.
     obind (slice blob (sc_tok_off sc) (sc_tok_off sc + sc_tok_size sc)) (\<lambda>tok.
     obind (slice blob (sc_table_off sc) (sc_table_off sc + sc_tensor_count sc * ENTRY_SIZE)) (\<lambda>tab.
     Ok (crc_finish (crc_update (crc_update (crc_update (crc_update crc_new head)
           (replicate 8 0)) tok) tab)))))"

definition model_parse :: "nat \<Rightarrow> bytes \<Rightarrow> (parse_error, model) outcome" where
  "model_parse addr blob =
     (if length blob < HEADER_SIZE then Err TooShort
      else obind (slice blob 0 4) (\<lambda>magic. if magic \<noteq> NRM_MAGIC then Err BadMagic
      else obind (cur_u32 (blob, 4)) (\<lambda>(version, c).
      if version \<noteq> NRM_VERSION then Err (BadVersion version)
      else obind (cur_u32 c) (\<lambda>(av, c). obind (ok_or (arch_from_u32 av) BadTable) (\<lambda>a.
      obind (parse_meta a c) (\<lambda>(meta, c).
      obind (parse_sections c) (\<lambda>sc.
      if scalars_bad meta then Err BadTable
      else
      obind (ok_or (checked_mul (sc_tensor_count sc) ENTRY_SIZE) BadTable) (\<lambda>table_len.
      obind (ok_or (checked_add (sc_table_off sc) table_len) TooShort) (\<lambda>table_end.
      obind (ok_or (checked_add (sc_data_off sc) (sc_data_size sc)) TooShort) (\<lambda>data_end.
      obind (ok_or (checked_add (sc_tok_off sc) (sc_tok_size sc)) TooShort) (\<lambda>tok_end.
      if length blob < table_end \<or> length blob < data_end \<or> length blob < tok_end then Err TooShort
      else obind (meta_crc blob sc) (\<lambda>got.
      if got \<noteq> sc_meta_crc sc then Err (MetaCrc (sc_meta_crc sc) got)
      else obind (parse_entries (sc_data_size sc) (sc_tensor_count sc) (blob, sc_table_off sc)) (\<lambda>entries.
      obind (slice blob (sc_tok_off sc) tok_end) (\<lambda>tok.
      obind (slice blob (sc_data_off sc) data_end) (\<lambda>data.
      Ok \<lparr>md_meta = meta, md_entries = entries, md_tokenizer_blob = tok, md_data = data,
          md_data_addr = addr + sc_data_off sc, md_data_crc = sc_data_crc sc,
          md_blob = blob\<rparr>)))))))))))))))"

subsection \<open>Using a parsed model\<close>

text \<open>\<open>verify_data\<close> hashes 32 MiB at a time and reports progress; the model returns the verdict and
  the calls of the callback.\<close>

definition verify_chunk :: nat where "verify_chunk = 32 * 1024 * 1024"

function verify_loop :: "bytes \<Rightarrow> nat \<Rightarrow> u32 \<Rightarrow> u32 \<times> (nat \<times> nat) list" where
  "verify_loop data pos c =
     (if pos < length data
      then let fin = min (pos + verify_chunk) (length data);
               rest = verify_loop data fin (crc_update c (sub data pos fin))
           in (fst rest, (fin, length data) # snd rest)
      else (c, []))"
  by pat_completeness auto
termination
  by (relation "measure (\<lambda>(data, pos, c). length data - pos)") (auto simp: verify_chunk_def)

declare verify_loop.simps [simp del]

definition verify_data :: "model \<Rightarrow> bool \<times> (nat \<times> nat) list" where
  "verify_data m = (let r = verify_loop (md_data m) 0 crc_new
                    in (crc_finish (fst r) = md_data_crc m, snd r))"

definition model_tensor :: "model \<Rightarrow> tensor_kind \<Rightarrow> nat \<Rightarrow> (parse_error, tensor_view) outcome" where
  "model_tensor m kind layer =
     (case find (\<lambda>e. te_kind e = kind_u16 kind \<and> unat (te_layer e) = layer) (md_entries m) of
        None \<Rightarrow> Err (MissingTensor (kind_name kind))
      | Some e \<Rightarrow> obind (slice (md_data m) (unat (te_offset e)) (unat (te_offset e + te_size e))) (\<lambda>bs.
          Ok \<lparr>tv_dtype = te_dtype e, tv_rows = unat (te_rows e), tv_cols = unat (te_cols e),
              tv_bytes = bs, tv_addr = md_data_addr m + unat (te_offset e)\<rparr>))"

definition has_tensor :: "model \<Rightarrow> tensor_kind \<Rightarrow> bool" where
  "has_tensor m kind \<longleftrightarrow> list_ex (\<lambda>e. te_kind e = kind_u16 kind) (md_entries m)"

definition total_size :: "model \<Rightarrow> nat" where
  "total_size m = length (md_blob m)"

definition view_f32 :: "tensor_view \<Rightarrow> ('e, u32 list) outcome" where
  "view_f32 v = (if tv_dtype v \<noteq> F32 \<or> tv_addr v mod 4 \<noteq> 0 then Panic
                 else Ok (map le_word (chunks_exact 4 (tv_bytes v))))"

definition view_q8 :: "tensor_view \<Rightarrow> ('e, block_q8_0 list) outcome" where
  "view_q8 v = (if tv_dtype v \<noteq> Q8_0 then Panic else cast_blocks (tv_bytes v))"

definition view_q4k :: "tensor_view \<Rightarrow> ('e, block_q4k list) outcome" where
  "view_q4k v = (if tv_dtype v \<noteq> Q4K then Panic else cast_q4k (tv_bytes v))"

definition view_q6k :: "tensor_view \<Rightarrow> ('e, block_q6k list) outcome" where
  "view_q6k v = (if tv_dtype v \<noteq> Q6K then Panic else cast_q6k (tv_bytes v))"

subsection \<open>What the header says\<close>

definition u32at :: "bytes \<Rightarrow> nat \<Rightarrow> u32" where
  "u32at b a = le_word (sub b a (a + 4))"

definition u64at :: "bytes \<Rightarrow> nat \<Rightarrow> u64" where
  "u64at b a = le_word (sub b a (a + 8))"

definition header_sections :: "bytes \<Rightarrow> sections" where
  "header_sections b =
     \<lparr>sc_tok_off = unat (u64at b 136), sc_tok_size = unat (u64at b 144),
      sc_table_off = unat (u64at b 152), sc_tensor_count = unat (u32at b 160),
      sc_data_off = unat (u64at b 168), sc_data_size = unat (u64at b 176),
      sc_data_crc = u32at b 184, sc_meta_crc = u32at b 188\<rparr>"

definition header_meta :: "arch \<Rightarrow> bytes \<Rightarrow> model_meta" where
  "header_meta a b =
     \<lparr>mt_arch = a, mt_dim = u32at b 12, mt_n_layers = u32at b 16, mt_n_heads = u32at b 20,
      mt_n_kv_heads = u32at b 24, mt_head_dim = u32at b 28, mt_ffn_dim = u32at b 32,
      mt_vocab = u32at b 36, mt_ctx_train = u32at b 40, mt_rope_theta = u32at b 44,
      mt_norm_eps = u32at b 48, mt_rope_factor = u32at b 52, mt_rope_low = u32at b 56,
      mt_rope_high = u32at b 60, mt_rope_orig_ctx = u32at b 64, mt_flags = u32at b 68,
      mt_embed_scale = u32at b 72, mt_attn_scale = u32at b 76, mt_residual_scale = u32at b 80,
      mt_logit_scale = u32at b 84, mt_name = sub b 88 136\<rparr>"

lemma parse_meta_ok: "192 \<le> length b \<Longrightarrow> parse_meta a (b, 12) = Ok (header_meta a b, (b, 136))"
  by (simp add: parse_meta_def header_meta_def u32at_def)

lemma parse_sections_ok: "192 \<le> length b \<Longrightarrow> parse_sections (b, 136) = Ok (header_sections b)"
  by (simp add: parse_sections_def header_sections_def u64at_def u32at_def)

text \<open>The stages after the header, as one expression over the header's sections.\<close>

definition sections_fit :: "nat \<Rightarrow> sections \<Rightarrow> bool" where
  "sections_fit n sc \<longleftrightarrow> sc_table_off sc + sc_tensor_count sc * 32 \<le> n
     \<and> sc_data_off sc + sc_data_size sc \<le> n \<and> sc_tok_off sc + sc_tok_size sc \<le> n"

definition meta_region_crc :: "bytes \<Rightarrow> sections \<Rightarrow> u32" where
  "meta_region_crc b sc = crc_checksum (sub b 0 184 @ replicate 8 0
     @ sub b (sc_tok_off sc) (sc_tok_off sc + sc_tok_size sc)
     @ sub b (sc_table_off sc) (sc_table_off sc + sc_tensor_count sc * 32))"

lemma meta_crc_ok:
  "sections_fit (length b) sc \<Longrightarrow> 192 \<le> length b \<Longrightarrow> meta_crc b sc = Ok (meta_region_crc b sc)"
  by (simp add: meta_crc_def sections_fit_def meta_region_crc_def crc_checksum_def
      flip: crc.upd_append)

lemma parse_entry_not_Panic: "p + 32 \<le> length b \<Longrightarrow> parse_entry ds (b, p) \<noteq> Panic"
  by (auto simp: parse_entry_def outcome_simps split: if_splits)

text \<open>What an accepted table row promises.\<close>

definition entry_ok :: "nat \<Rightarrow> tensor_entry \<Rightarrow> bool" where
  "entry_ok data_size e \<longleftrightarrow> unat (te_offset e) + unat (te_size e) \<le> data_size
     \<and> unat (te_offset e) mod 64 = 0
     \<and> byte_size (te_dtype e) (unat (te_rows e) * unat (te_cols e)) = Some (unat (te_size e))"

lemma parse_entry_ok:
  "p + 32 \<le> length b \<Longrightarrow> parse_entry ds (b, p) = Ok (e, c) \<Longrightarrow> c = (b, p + 32) \<and> entry_ok ds e"
  by (auto simp: parse_entry_def outcome_simps entry_ok_def split: if_splits)

lemma parse_entries_not_Panic: "p + n * 32 \<le> length b \<Longrightarrow> parse_entries ds n (b, p) \<noteq> Panic"
proof (induction n arbitrary: p)
  case (Suc n)
  then show ?case
    using parse_entry_not_Panic [of p b ds] parse_entry_ok [of p b ds]
    by (fastforce simp: outcome_simps split: prod.splits)
qed simp

lemma parse_entries_ok:
  "p + n * 32 \<le> length b \<Longrightarrow> parse_entries ds n (b, p) = Ok es \<Longrightarrow>
     length es = n \<and> (\<forall>e \<in> set es. entry_ok ds e)"
proof (induction n arbitrary: p es)
  case (Suc n)
  then obtain e c es' where "parse_entry ds (b, p) = Ok (e, c)" "parse_entries ds n c = Ok es'"
      "es = e # es'"
    by (auto simp: outcome_simps)
  moreover from this have "c = (b, p + 32)" "entry_ok ds e"
    using parse_entry_ok [of p b ds e c] Suc.prems by auto
  ultimately show ?case
    using Suc.IH [of "p + 32" es'] Suc.prems by simp
qed simp

lemma model_parse_eq:
  assumes "192 \<le> length b" and "length b < usize_limit"
  shows "\<exists>m. m = header_meta (the (arch_from_u32 (u32at b 8))) b \<and> model_parse addr b =
    (let sc = header_sections b in
     if sub b 0 4 \<noteq> NRM_MAGIC then Err BadMagic
     else if u32at b 4 \<noteq> NRM_VERSION then Err (BadVersion (u32at b 4))
     else if arch_from_u32 (u32at b 8) = None \<or> scalars_bad m then Err BadTable
     else if \<not> sections_fit (length b) sc then Err TooShort
     else if meta_region_crc b sc \<noteq> sc_meta_crc sc then Err (MetaCrc (sc_meta_crc sc) (meta_region_crc b sc))
     else obind (parse_entries (sc_data_size sc) (sc_tensor_count sc) (b, sc_table_off sc)) (\<lambda>es.
       Ok \<lparr>md_meta = m, md_entries = es,
          md_tokenizer_blob = sub b (sc_tok_off sc) (sc_tok_off sc + sc_tok_size sc),
          md_data = sub b (sc_data_off sc) (sc_data_off sc + sc_data_size sc),
          md_data_addr = addr + sc_data_off sc, md_data_crc = sc_data_crc sc, md_blob = b\<rparr>))"
    (is "\<exists>m. _ \<and> _ = ?rhs m")
proof -
  let ?a = "the (arch_from_u32 (u32at b 8))"
  define m where "m = header_meta ?a b"
  have m: "parse_meta ?a (b, 12) = Ok (m, (b, 136))"
    using parse_meta_ok [OF assms(1)] by (simp add: m_def)
  let ?sc = "header_sections b"
  have "unat (u32at b 160) < 2 ^ LENGTH(32)" by (rule unsigned_less)
  then have count: "sc_tensor_count ?sc * 32 < usize_limit"
    by (simp add: header_sections_def usize_limit_def)
  have head: "le_word (sub b 4 8) = u32at b 4" "le_word (sub b 8 12) = u32at b 8"
    by (simp_all add: u32at_def)
  show ?thesis
  proof (intro exI [of _ m] conjI m_def, cases "sub b 0 4 = NRM_MAGIC \<and> u32at b 4 = NRM_VERSION
      \<and> arch_from_u32 (u32at b 8) \<noteq> None \<and> \<not> scalars_bad m")
    case False
    then show "model_parse addr b = ?rhs m"
      using assms(1) m head
      by (cases "arch_from_u32 (u32at b 8)") (auto simp: model_parse_def parse_sections_ok Let_def)
  next
    case True
    then obtain a where pre: "arch_from_u32 (u32at b 8) = Some a" by auto
    show "model_parse addr b = ?rhs m"
    proof (cases "sections_fit (length b) ?sc")
      case fit: False
      then show ?thesis
        using True pre assms m head count
        by (simp add: model_parse_def parse_sections_ok Let_def sections_fit_def checked_add_def
            checked_mul_def) linarith
    next
      case fit: True
      then have "sc_table_off ?sc + sc_tensor_count ?sc * 32 < usize_limit"
          "sc_data_off ?sc + sc_data_size ?sc < usize_limit"
          "sc_tok_off ?sc + sc_tok_size ?sc < usize_limit"
        using assms(2) by (simp_all add: sections_fit_def)
      then show ?thesis
        using True pre assms m head count fit meta_crc_ok [OF fit assms(1)]
        by (simp add: model_parse_def parse_sections_ok Let_def sections_fit_def checked_add_def
            checked_mul_def)
    qed
  qed
qed

subsection \<open>Properties of parsing\<close>

lemma model_parse_short: "length b < 192 \<Longrightarrow> model_parse addr b = Err TooShort"
  by (simp add: model_parse_def)

lemma model_parse_accepts:
  assumes "model_parse addr b = Ok m" and len: "length b < usize_limit"
  shows "sections_fit (length b) (header_sections b)" and "192 \<le> length b"
    and "meta_region_crc b (header_sections b) = sc_meta_crc (header_sections b)"
    and "sub b 0 4 = NRM_MAGIC" and "u32at b 4 = NRM_VERSION"
    and "length (md_entries m) = sc_tensor_count (header_sections b)"
    and "\<forall>e \<in> set (md_entries m). entry_ok (sc_data_size (header_sections b)) e"
    and "md_data m = sub b (sc_data_off (header_sections b))
           (sc_data_off (header_sections b) + sc_data_size (header_sections b))"
    and "md_tokenizer_blob m = sub b (sc_tok_off (header_sections b))
           (sc_tok_off (header_sections b) + sc_tok_size (header_sections b))"
    and "md_data_addr m = addr + sc_data_off (header_sections b)" and "md_blob m = b"
    and "md_data_crc m = sc_data_crc (header_sections b)"
    and "\<not> scalars_bad (md_meta m)"
proof -
  let ?sc = "header_sections b"
  show big: "192 \<le> length b"
    using assms(1) by (rule_tac ccontr) (simp add: model_parse_short)
  obtain mt where eq: "(if sub b 0 4 \<noteq> NRM_MAGIC then Err BadMagic
     else if u32at b 4 \<noteq> NRM_VERSION then Err (BadVersion (u32at b 4))
     else if arch_from_u32 (u32at b 8) = None \<or> scalars_bad mt then Err BadTable
     else if \<not> sections_fit (length b) ?sc then Err TooShort
     else if meta_region_crc b ?sc \<noteq> sc_meta_crc ?sc
       then Err (MetaCrc (sc_meta_crc ?sc) (meta_region_crc b ?sc))
     else obind (parse_entries (sc_data_size ?sc) (sc_tensor_count ?sc) (b, sc_table_off ?sc)) (\<lambda>es.
       Ok \<lparr>md_meta = mt, md_entries = es,
          md_tokenizer_blob = sub b (sc_tok_off ?sc) (sc_tok_off ?sc + sc_tok_size ?sc),
          md_data = sub b (sc_data_off ?sc) (sc_data_off ?sc + sc_data_size ?sc),
          md_data_addr = addr + sc_data_off ?sc, md_data_crc = sc_data_crc ?sc, md_blob = b\<rparr>)) = Ok m"
    using model_parse_eq [OF big len, of addr] assms(1) by (auto simp: Let_def)
  then have pre: "sub b 0 4 = NRM_MAGIC" "u32at b 4 = NRM_VERSION" "\<not> scalars_bad mt"
      "sections_fit (length b) ?sc" "meta_region_crc b ?sc = sc_meta_crc ?sc"
    by (auto split: if_splits)
  with eq obtain es where es: "parse_entries (sc_data_size ?sc) (sc_tensor_count ?sc)
        (b, sc_table_off ?sc) = Ok es"
    and m: "m = \<lparr>md_meta = mt, md_entries = es,
          md_tokenizer_blob = sub b (sc_tok_off ?sc) (sc_tok_off ?sc + sc_tok_size ?sc),
          md_data = sub b (sc_data_off ?sc) (sc_data_off ?sc + sc_data_size ?sc),
          md_data_addr = addr + sc_data_off ?sc, md_data_crc = sc_data_crc ?sc, md_blob = b\<rparr>"
    by (auto simp: obind_Ok_iff split: if_splits)
  show "sections_fit (length b) ?sc" "meta_region_crc b ?sc = sc_meta_crc ?sc"
      "sub b 0 4 = NRM_MAGIC" "u32at b 4 = NRM_VERSION"
    using pre by simp_all
  show "length (md_entries m) = sc_tensor_count ?sc"
      "\<forall>e \<in> set (md_entries m). entry_ok (sc_data_size ?sc) e"
    using parse_entries_ok [OF _ es] pre(4) by (simp_all add: m sections_fit_def)
  show "md_data m = sub b (sc_data_off ?sc) (sc_data_off ?sc + sc_data_size ?sc)"
      "md_tokenizer_blob m = sub b (sc_tok_off ?sc) (sc_tok_off ?sc + sc_tok_size ?sc)"
      "md_data_addr m = addr + sc_data_off ?sc" "md_blob m = b"
      "md_data_crc m = sc_data_crc ?sc" "\<not> scalars_bad (md_meta m)"
    using pre(3) by (simp_all add: m)
qed

lemma model_parse_not_Panic:
  assumes len: "length b < usize_limit"
  shows "model_parse addr b \<noteq> Panic"
proof
  assume panic: "model_parse addr b = Panic"
  then have big: "192 \<le> length b"
    by (rule_tac ccontr) (simp add: model_parse_short)
  let ?sc = "header_sections b"
  have "sections_fit (length b) ?sc"
      "parse_entries (sc_data_size ?sc) (sc_tensor_count ?sc) (b, sc_table_off ?sc) = Panic"
    using model_parse_eq [OF big len, of addr] panic
    by (auto simp: Let_def obind_Panic_iff eq_commute [of Panic "obind u g" for u g] split: if_splits)
  then show False
    using parse_entries_not_Panic by (auto simp: sections_fit_def)
qed

lemma find_SomeD: "find P xs = Some x \<Longrightarrow> x \<in> set xs \<and> P x"
  by (auto simp: find_Some_iff)

text \<open>The bounds an accepted row gives a view: its slice exists and has the length its shape needs.\<close>

lemma entry_ok_slice:
  assumes "entry_ok (length data) e"
  shows "unat (te_offset e + te_size e) = unat (te_offset e) + unat (te_size e) \<or> usize_limit \<le> length data"
proof (cases "usize_limit \<le> length data")
  case False
  with assms have "unat (te_offset e) + unat (te_size e) < 2 ^ 64"
    by (simp add: entry_ok_def usize_limit_def)
  then show ?thesis by (simp add: unat_word_ariths)
qed simp

lemma block_size_Some [simp]:
  "block_size p q n = Some k \<longleftrightarrow> n mod p = 0 \<and> k = n div p * q \<and> n div p * q < usize_limit"
  by (auto simp: block_size_def)

definition view_elements :: "tensor_view \<Rightarrow> nat option" where
  "view_elements v = (case tv_dtype v of
     F32 \<Rightarrow> (case view_f32 v of Ok xs \<Rightarrow> Some (length xs) | Err () \<Rightarrow> None | Panic \<Rightarrow> None)
   | Q8_0 \<Rightarrow> (case view_q8 v of Ok xs \<Rightarrow> Some (length xs * QK8_0) | Err () \<Rightarrow> None | Panic \<Rightarrow> None)
   | Q4K \<Rightarrow> (case view_q4k v of Ok xs \<Rightarrow> Some (length xs * QK_K) | Err () \<Rightarrow> None | Panic \<Rightarrow> None)
   | Q6K \<Rightarrow> (case view_q6k v of Ok xs \<Rightarrow> Some (length xs * QK_K) | Err () \<Rightarrow> None | Panic \<Rightarrow> None))"

lemma view_elements_ok:
  assumes "byte_size (tv_dtype v) n = Some (length (tv_bytes v))" and "tv_addr v mod 4 = 0"
  shows "view_elements v = Some n"
  using assms
  by (cases "tv_dtype v")
    (auto simp: view_elements_def view_f32_def view_q8_def view_q4k_def view_q6k_def cast_blocks_def
      cast_q4k_def cast_q6k_def QK8_0_def QK_K_def length_chunks_exact mult.commute)

lemma model_tensor_ok:
  assumes parsed: "model_parse addr b = Ok m" and len: "length b < usize_limit"
  shows "case find (\<lambda>e. te_kind e = kind_u16 kind \<and> unat (te_layer e) = layer) (md_entries m) of
      None \<Rightarrow> model_tensor m kind layer = Err (MissingTensor (kind_name kind))
    | Some e \<Rightarrow> (\<exists>v. model_tensor m kind layer = Ok v \<and> tv_dtype v = te_dtype e
        \<and> tv_rows v = unat (te_rows e) \<and> tv_cols v = unat (te_cols e)
        \<and> byte_size (tv_dtype v) (tv_rows v * tv_cols v) = Some (length (tv_bytes v))
        \<and> tv_addr v mod 64 = md_data_addr m mod 64
        \<and> (\<exists>off. tv_addr v = addr + off \<and> off + length (tv_bytes v) \<le> length b
              \<and> tv_bytes v = sub b off (off + length (tv_bytes v))))"
proof (cases "find (\<lambda>e. te_kind e = kind_u16 kind \<and> unat (te_layer e) = layer) (md_entries m)")
  case None
  then show ?thesis by (simp add: model_tensor_def)
next
  case (Some e)
  let ?sc = "header_sections b"
  note acc = model_parse_accepts [OF parsed len]
  have e: "entry_ok (sc_data_size ?sc) e"
    using find_SomeD [OF Some] acc(7) by auto
  have dl: "length (md_data m) = sc_data_size ?sc"
    using acc(1) by (auto simp: acc(8) sections_fit_def)
  have fit: "sc_data_off ?sc + sc_data_size ?sc \<le> length b"
    using acc(1) by (simp add: sections_fit_def)
  have ends: "unat (te_offset e + te_size e) = unat (te_offset e) + unat (te_size e)"
    using entry_ok_slice [of "md_data m" e] e dl fit len by simp
  have "unat (te_offset e) + unat (te_size e) \<le> sc_data_size ?sc" "unat (te_offset e) mod 64 = 0"
      "byte_size (te_dtype e) (unat (te_rows e) * unat (te_cols e)) = Some (unat (te_size e))"
    using e by (simp_all add: entry_ok_def)
  moreover define d where "d = sc_data_off ?sc"
  moreover define o' where "o' = unat (te_offset e)"
  ultimately have f: "o' + unat (te_size e) \<le> sc_data_size ?sc" "o' mod 64 = 0"
      "byte_size (te_dtype e) (unat (te_rows e) * unat (te_cols e)) = Some (unat (te_size e))"
    by simp_all
  have view: "sub (md_data m) o' (o' + unat (te_size e)) = sub b (d + o') (d + o' + unat (te_size e))"
    using f(1) by (simp add: acc(8) sub_sub d_def add.assoc)
  have "(addr + d + o') mod 64 = (addr + d) mod 64"
    using f(2) by (metis add.right_neutral mod_add_right_eq)
  then show ?thesis
    using dl fit f view
    by (auto simp: Some model_tensor_def ends acc(10) d_def [symmetric] o'_def [symmetric] add.assoc
        min.absorb1 intro!: exI [of _ "d + o'"])
qed

lemma verify_chunk_pos [simp]: "0 < verify_chunk"
  by (simp add: verify_chunk_def)

lemma verify_loop_crc: "fst (verify_loop data pos c) = crc_update c (drop pos data)"
proof (induction data pos c rule: verify_loop.induct)
  case (1 data pos c)
  show ?case
  proof (cases "pos < length data")
    case True
    let ?fin = "min (pos + verify_chunk) (length data)"
    have "fst (verify_loop data pos c) = crc_update (crc_update c (sub data pos ?fin)) (drop ?fin data)"
      using 1 [OF True refl] True by (subst verify_loop.simps) (simp add: Let_def)
    also have "\<dots> = crc_update c (sub data pos ?fin @ drop ?fin data)"
      by (simp add: crc.upd_append)
    also have "sub data pos ?fin @ drop ?fin data = drop pos data"
      using True by (intro sub_append_drop) simp
    finally show ?thesis .
  next
    case False
    then show ?thesis by (subst verify_loop.simps) (simp add: crc.upd_nil)
  qed
qed

lemma verify_loop_progress:
  "sorted_wrt (<) (pos # map fst (snd (verify_loop data pos c)))
   \<and> (\<forall>p \<in> set (snd (verify_loop data pos c)). snd p = length data)
   \<and> (pos < length data \<longrightarrow> last (snd (verify_loop data pos c)) = (length data, length data)
        \<and> snd (verify_loop data pos c) \<noteq> [])"
proof (induction data pos c rule: verify_loop.induct)
  case (1 data pos c)
  show ?case
  proof (cases "pos < length data")
    case True
    let ?fin = "min (pos + verify_chunk) (length data)"
    let ?r = "verify_loop data ?fin (crc_update c (sub data pos ?fin))"
    have unfold: "verify_loop data pos c = (fst ?r, (?fin, length data) # snd ?r)"
      using True by (subst verify_loop.simps) (simp add: Let_def)
    have "snd ?r = []" if "\<not> ?fin < length data"
      using that by (subst verify_loop.simps) simp
    then show ?thesis
      using 1 [OF True refl] True
      by (cases "?fin < length data") (auto simp: unfold)
  next
    case False
    then show ?thesis by (subst verify_loop.simps, subst verify_loop.simps, subst verify_loop.simps) simp
  qed
qed

subsection \<open>Properties\<close>

text \<open>Parsing a model blob never panics, whatever its bytes: crafted offsets, counts and sizes
  end in a parse error, never in a wrapped sum, a slice out of range or a short read.\<close>

theorem model_parse_never_panics:
  assumes "length b < usize_limit"
  shows "model_parse addr b \<noteq> Panic"
  using assms by (rule model_parse_not_Panic)

lemma model_parse_never_panics_witness:
  "model_parse 0 (NRM_MAGIC @ replicate 300 255) \<noteq> Panic"
  by (rule model_parse_never_panics) (simp add: usize_limit_def NRM_MAGIC_def)


text \<open>\<open>verify_data\<close>, which hashes the data section 32 MiB at a time, accepts exactly when the
  CRC-32 of the whole section is the stored one; its progress callback is called with strictly
  increasing positions and, for a non-empty section, last with the total.\<close>

theorem verify_data_checks_whole_section:
  "fst (verify_data m) = (crc_checksum (md_data m) = md_data_crc m)
   \<and> sorted_wrt (<) (0 # map fst (snd (verify_data m)))
   \<and> {p \<in> set (snd (verify_data m)). snd p \<noteq> length (md_data m)} = {}
   \<and> (if md_data m = [] then snd (verify_data m) = []
      else last (snd (verify_data m)) = (length (md_data m), length (md_data m)))"
proof -
  have crc: "fst (verify_data m) = (crc_checksum (md_data m) = md_data_crc m)"
    by (simp add: verify_data_def Let_def verify_loop_crc crc_checksum_def)
  have snd: "snd (verify_data m) = snd (verify_loop (md_data m) 0 crc_new)"
    by (simp add: verify_data_def Let_def)
  note pr = verify_loop_progress [of 0 "md_data m" crc_new]
  have "\<forall>p \<in> set (snd (verify_data m)). snd p = length (md_data m)"
    using pr unfolding snd by (elim conjE)
  then have "{p \<in> set (snd (verify_data m)). snd p \<noteq> length (md_data m)} = {}"
    by (simp only: Collect_empty_eq) blast
  moreover have "if md_data m = [] then snd (verify_data m) = []
      else last (snd (verify_data m)) = (length (md_data m), length (md_data m))"
  proof (cases "md_data m = []")
    case True
    then show ?thesis unfolding snd by (simp add: verify_loop.simps)
  next
    case False
    with pr show ?thesis unfolding snd by simp
  qed
  moreover have "sorted_wrt (<) (0 # map fst (snd (verify_data m)))"
    using pr unfolding snd by (elim conjE)
  ultimately show ?thesis
    using crc by (intro conjI)
qed

end
