(* ===== verification/Nr_Verify.thy ===== *)
theory Nr_Verify
  imports Nr_Format
begin

text \<open>
  Streaming verification of a model file (\<^verbatim>\<open>crates/nr-model/src/verify.rs\<close>) and the boot loader's
  read loop that feeds it (\<^verbatim>\<open>crates/nr-boot/src/modelload.rs\<close>).

  The verifier sees the file once, in chunks; what it computes is related to the two whole-section
  checksums of the container format. The firmware's file object is a parameter of the loader.
\<close>

subsection \<open>The streaming verifier\<close>

datatype verify_error = BadHeader | VerifyMetaCrc | VerifyDataCrc

record verifier =
  sv_meta :: u32
  sv_data :: u32
  sv_meta_end :: nat
  sv_data_off :: nat
  sv_data_end :: nat
  sv_expect_meta :: u32
  sv_expect_data :: u32

definition CRC_FIELDS_OFF :: nat where "CRC_FIELDS_OFF = HEADER_SIZE - 8"

lemma crc_fields_off [simp]: "CRC_FIELDS_OFF = 184"
  by (simp add: CRC_FIELDS_OFF_def)

text \<open>\<open>data_off + data_size\<close> is the one unchecked sum: in a release build it wraps.\<close>

definition verifier_new :: "bytes \<Rightarrow> (verify_error, verifier) outcome" where
  "verifier_new header =
     (if length header < HEADER_SIZE \<or> sub header 0 4 \<noteq> NRM_MAGIC then Err BadHeader
      else if u32at header 4 \<noteq> NRM_VERSION then Err BadHeader
      else let tok_off = unat (u64at header 136);
               tok_size = unat (u64at header 144);
               table_off = unat (u64at header 152);
               tensor_count = unat (u32at header 160);
               data_off = unat (u64at header 168);
               data_size = unat (u64at header 176);
               data_crc = u32at header 184;
               meta_crc = u32at header 188
      in obind (ok_or (case checked_mul tensor_count ENTRY_SIZE of None \<Rightarrow> None
                       | Some len \<Rightarrow> checked_add table_off len) BadHeader) (\<lambda>table_end.
         obind (ok_or (checked_add tok_off tok_size) BadHeader) (\<lambda>tok_end.
         if tok_off \<noteq> HEADER_SIZE \<or> table_off \<noteq> tok_end \<or> table_end > data_off then Err BadHeader
         else Ok \<lparr>sv_meta = crc_new, sv_data = crc_new, sv_meta_end = table_end,
                  sv_data_off = data_off, sv_data_end = (data_off + data_size) mod usize_limit,
                  sv_expect_meta = meta_crc, sv_expect_data = data_crc\<rparr>)))"

definition feed_meta :: "verifier \<Rightarrow> nat \<Rightarrow> bytes \<Rightarrow> ('e, verifier) outcome" where
  "feed_meta v offset chunk =
     (let fin = offset + length chunk;
          m0 = min offset (sv_meta_end v);
          m1 = min fin (sv_meta_end v)
      in if m0 < m1
         then obind (slice chunk (m0 - offset) (m1 - offset)) (\<lambda>seg.
           let zeros_start = max CRC_FIELDS_OFF m0;
               zeros_end = min (CRC_FIELDS_OFF + 8) m1
           in if zeros_start < zeros_end
              then obind (slice seg 0 (zeros_start - m0)) (\<lambda>s1.
                obind (slice (replicate 8 0) 0 (zeros_end - zeros_start)) (\<lambda>zs.
                obind (slice seg (zeros_end - m0) (length seg)) (\<lambda>s2.
                Ok (v\<lparr>sv_meta := crc_update (crc_update (crc_update (sv_meta v) s1) zs) s2\<rparr>))))
              else Ok (v\<lparr>sv_meta := crc_update (sv_meta v) seg\<rparr>))
         else Ok v)"

definition feed_data :: "verifier \<Rightarrow> nat \<Rightarrow> bytes \<Rightarrow> ('e, verifier) outcome" where
  "feed_data v offset chunk =
     (let fin = offset + length chunk;
          d0 = min (max offset (sv_data_off v)) (sv_data_end v);
          d1 = min (max fin (sv_data_off v)) (sv_data_end v)
      in if d0 < d1
         then obind (slice chunk (d0 - offset) (d1 - offset)) (\<lambda>seg.
           Ok (v\<lparr>sv_data := crc_update (sv_data v) seg\<rparr>))
         else Ok v)"

definition verifier_feed :: "verifier \<Rightarrow> nat \<Rightarrow> bytes \<Rightarrow> ('e, verifier) outcome" where
  "verifier_feed v offset chunk = obind (feed_meta v offset chunk) (\<lambda>v'. feed_data v' offset chunk)"

definition verifier_finish :: "verifier \<Rightarrow> (verify_error, unit) outcome" where
  "verifier_finish v =
     (if crc_finish (sv_meta v) \<noteq> sv_expect_meta v then Err VerifyMetaCrc
      else if crc_finish (sv_data v) \<noteq> sv_expect_data v then Err VerifyDataCrc
      else Ok ())"

text \<open>Feeding a file chunk by chunk, each at the offset where the last one ended.\<close>

primrec feed_all :: "verifier \<Rightarrow> nat \<Rightarrow> bytes list \<Rightarrow> ('e, verifier) outcome" where
  "feed_all v offset [] = Ok v"
| "feed_all v offset (c # cs) =
     obind (verifier_feed v offset c) (\<lambda>v'. feed_all v' (offset + length c) cs)"

subsection \<open>What a chunk contributes\<close>

text \<open>The file with its two checksum fields blanked, as the metadata checksum sees it.\<close>

definition blanked :: "bytes \<Rightarrow> bytes" where
  "blanked F = put_at F 184 (replicate 8 0)"

lemma length_blanked [simp]: "192 \<le> length F \<Longrightarrow> length (blanked F) = length F"
  by (simp add: blanked_def)

lemma blanked_outside:
  "192 \<le> length F \<Longrightarrow> b \<le> 184 \<or> 192 \<le> a \<Longrightarrow> sub (blanked F) a b = sub F a b"
  by (simp add: blanked_def sub_put_at_other)

lemma blanked_inside:
  "192 \<le> length F \<Longrightarrow> 184 \<le> a \<Longrightarrow> b \<le> 192 \<Longrightarrow> sub (blanked F) a b = replicate (b - a) 0"
  by (rule nth_equalityI) (auto simp: blanked_def nth_put_at)

lemma feed_meta_ok:
  assumes img: "192 \<le> length F" and chunk: "chunk = sub F offset (offset + length chunk)"
    and fin: "offset + length chunk \<le> length F"
  shows "feed_meta v offset chunk = (Ok (v\<lparr>sv_meta := crc_update (sv_meta v)
      (sub (blanked F) (min offset (sv_meta_end v)) (min (offset + length chunk) (sv_meta_end v)))\<rparr>)
      :: ('e, verifier) outcome)"
proof (cases "min offset (sv_meta_end v) < min (offset + length chunk) (sv_meta_end v)")
  case False
  then have "min offset (sv_meta_end v) = min (offset + length chunk) (sv_meta_end v)" by linarith
  with False show ?thesis by (simp only: feed_meta_def Let_def) (simp add: crc.upd_nil)
next
  case True
  define n where "n = length chunk"
  define m1 where "m1 = min (offset + n) (sv_meta_end v)"
  have m0: "min offset (sv_meta_end v) = offset" and lt: "offset < m1" and m1: "m1 \<le> offset + n"
    using True by (auto simp: m1_def n_def)
  have sc: "sub chunk a b = sub F (offset + a) (offset + b)" if "b \<le> n" for a b
    using that by (subst chunk) (simp add: sub_sub n_def)
  have seg: "slice chunk (offset - offset) (m1 - offset) = (Ok (sub F offset m1) :: ('e, bytes) outcome)"
    using lt m1 sc [of "m1 - offset" 0] by (simp add: n_def)
  have slen: "length (sub F offset m1) = m1 - offset"
    using fin m1 by (simp add: n_def)
  let ?zs = "max 184 offset" and ?ze = "min 192 m1"
  have "feed_meta v offset chunk = obind (slice chunk (offset - offset) (m1 - offset)) (\<lambda>seg.
      if ?zs < min (184 + 8) m1
      then obind (slice seg 0 (?zs - offset)) (\<lambda>s1.
        obind (slice (replicate 8 0) 0 (min (184 + 8) m1 - ?zs)) (\<lambda>zs.
        obind (slice seg (min (184 + 8) m1 - offset) (length seg)) (\<lambda>s2.
        Ok (v\<lparr>sv_meta := crc_update (crc_update (crc_update (sv_meta v) s1) zs) s2\<rparr>))))
      else (Ok (v\<lparr>sv_meta := crc_update (sv_meta v) seg\<rparr>) :: ('e, verifier) outcome))"
    using True unfolding feed_meta_def Let_def m0 n_def [symmetric] m1_def [symmetric] crc_fields_off
    by (simp only: if_True)
  then have un: "feed_meta v offset chunk =
      (if ?zs < ?ze
      then obind (slice (sub F offset m1) 0 (?zs - offset)) (\<lambda>s1.
        obind (slice (replicate 8 0) 0 (?ze - ?zs)) (\<lambda>zs.
        obind (slice (sub F offset m1) (?ze - offset) (m1 - offset)) (\<lambda>s2.
        Ok (v\<lparr>sv_meta := crc_update (crc_update (crc_update (sv_meta v) s1) zs) s2\<rparr>))))
      else (Ok (v\<lparr>sv_meta := crc_update (sv_meta v) (sub F offset m1)\<rparr>) :: ('e, verifier) outcome))"
    unfolding seg obind.simps slen by simp
  show ?thesis
  proof (cases "?zs < ?ze")
    case False
    then have "m1 \<le> 184 \<or> 192 \<le> offset" using lt by auto
    then have "sub (blanked F) offset m1 = sub F offset m1" using img by (rule_tac blanked_outside)
    then show ?thesis
      unfolding un if_not_P [OF False] m0 n_def [symmetric] m1_def [symmetric] by simp
  next
    case zeros: True
    have s1: "sub (sub F offset m1) 0 (?zs - offset) = sub (blanked F) offset ?zs"
    proof (cases "offset \<le> 184")
      case True
      then show ?thesis using zeros lt img by (simp add: sub_sub blanked_outside)
    qed simp
    have s2: "sub (sub F offset m1) (?ze - offset) (m1 - offset) = sub (blanked F) ?ze m1"
    proof (cases "192 \<le> m1")
      case True
      then show ?thesis using zeros lt img by (simp add: sub_sub blanked_outside)
    qed (use lt in simp)
    have zs: "sub (replicate 8 0) 0 (?ze - ?zs) = sub (blanked F) ?zs ?ze"
      by (subst blanked_inside [OF img]) (simp_all add: sub_def)
    have "?ze - ?zs \<le> 8" by linarith
    then have sl: "slice (sub F offset m1) 0 (?zs - offset) = (Ok (sub (blanked F) offset ?zs) :: ('e, bytes) outcome)"
        "slice (sub F offset m1) (?ze - offset) (m1 - offset) = (Ok (sub (blanked F) ?ze m1) :: ('e, bytes) outcome)"
        "slice (replicate 8 0) 0 (?ze - ?zs) = (Ok (sub (blanked F) ?zs ?ze) :: ('e, bytes) outcome)"
      using s1 s2 zs diff_le_mono [of ?zs m1 offset] diff_le_mono [of ?ze m1 offset] zeros lt slen
      by (simp_all add: slice_def)
    have "sub (blanked F) offset ?zs @ sub (blanked F) ?zs ?ze @ sub (blanked F) ?ze m1
        = sub (blanked F) offset m1"
      using zeros by (simp add: sub_append_sub)
    with zeros show ?thesis
      unfolding un m0 n_def [symmetric] m1_def [symmetric] sl obind.simps by (simp add: crc.upd_three)
  qed
qed

lemma feed_data_ok:
  assumes chunk: "chunk = sub F offset (offset + length chunk)"
  shows "feed_data v offset chunk = (Ok (v\<lparr>sv_data := crc_update (sv_data v)
      (sub F (min (max offset (sv_data_off v)) (sv_data_end v))
             (min (max (offset + length chunk) (sv_data_off v)) (sv_data_end v)))\<rparr>) :: ('e, verifier) outcome)"
proof -
  define n where "n = length chunk"
  define d0 d1 where "d0 = min (max offset (sv_data_off v)) (sv_data_end v)"
    and "d1 = min (max (offset + n) (sv_data_off v)) (sv_data_end v)"
  have "d0 \<le> d1" by (auto simp: d0_def d1_def)
  have "feed_data v offset chunk = (if d0 < d1 then obind (slice chunk (d0 - offset) (d1 - offset)) (\<lambda>seg.
      Ok (v\<lparr>sv_data := crc_update (sv_data v) seg\<rparr>)) else (Ok v :: ('e, verifier) outcome))"
    unfolding feed_data_def Let_def n_def [symmetric] d0_def [symmetric] d1_def [symmetric] by simp
  moreover have "sub F d0 d1 = []" if "\<not> d0 < d1"
    using that by (simp add: sub_def)
  moreover have "slice chunk (d0 - offset) (d1 - offset) = (Ok (sub F d0 d1) :: ('e, bytes) outcome)"
    if lt: "d0 < d1"
  proof -
    have le: "offset \<le> d0" "d1 \<le> offset + n"
      using lt by (auto simp: d0_def d1_def)
    then have "sub chunk (d0 - offset) (d1 - offset) = sub F d0 d1"
      using lt by (subst chunk) (simp add: sub_sub flip: n_def)
    moreover have "d0 - offset \<le> d1 - offset" "d1 - offset \<le> n"
      using le lt by linarith+
    ultimately show ?thesis by (simp add: slice_def flip: n_def)
  qed
  ultimately show ?thesis
    unfolding n_def [symmetric] d0_def [symmetric] d1_def [symmetric]
    by (cases "d0 < d1") (simp_all add: crc.upd_nil)
qed

subsection \<open>Feeding a whole file\<close>

text \<open>The state of a verifier that has seen the first \<open>n\<close> bytes of the file.\<close>

definition data_seen :: "verifier \<Rightarrow> nat \<Rightarrow> nat" where
  "data_seen v n = min (max n (sv_data_off v)) (sv_data_end v)"

definition seen :: "bytes \<Rightarrow> verifier \<Rightarrow> nat \<Rightarrow> verifier" where
  "seen F v n = v\<lparr>sv_meta := crc_update crc_new (sub (blanked F) 0 (min n (sv_meta_end v))),
     sv_data := crc_update crc_new (sub F (data_seen v 0) (data_seen v n))\<rparr>"

lemma seen_simps [simp]:
  "sv_meta_end (seen F v n) = sv_meta_end v" "sv_data_off (seen F v n) = sv_data_off v"
  "sv_data_end (seen F v n) = sv_data_end v" "sv_expect_meta (seen F v n) = sv_expect_meta v"
  "sv_expect_data (seen F v n) = sv_expect_data v"
  "sv_meta (seen F v n) = crc_update crc_new (sub (blanked F) 0 (min n (sv_meta_end v)))"
  "sv_data (seen F v n) = crc_update crc_new (sub F (data_seen v 0) (data_seen v n))"
  by (simp_all add: seen_def)

lemma data_seen_more [simp]:
  "data_seen (v\<lparr>sv_meta := x\<rparr>) k = data_seen v k" "data_seen (seen F v n) k = data_seen v k"
  by (simp_all add: data_seen_def)

lemma feed_seen:
  assumes img: "192 \<le> length F" and chunk: "chunk = sub F n (n + length chunk)"
    and fin: "n + length chunk \<le> length F"
  shows "verifier_feed (seen F v n) n chunk = (Ok (seen F v (n + length chunk)) :: ('e, verifier) outcome)"
proof -
  let ?m = "n + length chunk"
  have meta: "sub (blanked F) 0 (min n (sv_meta_end v)) @ sub (blanked F) (min n (sv_meta_end v)) (min ?m (sv_meta_end v))
      = sub (blanked F) 0 (min ?m (sv_meta_end v))"
    by (rule sub_append_sub) auto
  have data: "sub F (data_seen v 0) (data_seen v n) @ sub F (data_seen v n) (data_seen v ?m)
      = sub F (data_seen v 0) (data_seen v ?m)"
    by (rule sub_append_sub) (auto simp: data_seen_def)
  have "verifier_feed (seen F v n) n chunk = (Ok ((seen F v n)
      \<lparr>sv_meta := crc_update (crc_update crc_new (sub (blanked F) 0 (min n (sv_meta_end v))))
          (sub (blanked F) (min n (sv_meta_end v)) (min ?m (sv_meta_end v))),
       sv_data := crc_update (crc_update crc_new (sub F (data_seen v 0) (data_seen v n)))
          (sub F (data_seen v n) (data_seen v ?m))\<rparr>) :: ('e, verifier) outcome)"
    using feed_meta_ok [OF assms, of "seen F v n", where ?'e = 'e]
      feed_data_ok [OF chunk, where ?'e = 'e]
    by (simp add: verifier_feed_def flip: data_seen_def)
  also have "\<dots> = Ok (seen F v ?m)"
    unfolding crc.upd_append [symmetric] meta data by (simp add: seen_def)
  finally show ?thesis .
qed

lemma feed_all_seen:
  "192 \<le> length F \<Longrightarrow> n \<le> length F \<Longrightarrow> concat cs = drop n F \<Longrightarrow>
     feed_all (seen F v n) n cs = (Ok (seen F v (length F)) :: ('e, verifier) outcome)"
proof (induction cs arbitrary: n)
  case Nil
  then show ?case by simp
next
  case (Cons c cs)
  have c: "c = sub F n (n + length c)" and le: "n + length c \<le> length F"
    and rest: "concat cs = drop (n + length c) F"
  proof -
    have eq: "c @ concat cs = drop n F" using Cons.prems(3) by simp
    then have "length c + length (concat cs) = length F - n" by (metis length_append length_drop)
    then show "n + length c \<le> length F" using Cons.prems(2) by linarith
    show "c = sub F n (n + length c)" using eq by (metis add_diff_cancel_left' append_eq_conv_conj sub_def)
    show "concat cs = drop (n + length c) F"
      using eq by (metis add.commute append_eq_conv_conj drop_drop)
  qed
  show ?case
    using feed_seen [OF Cons.prems(1) c le, where ?'e = 'e] Cons.IH [OF Cons.prems(1) le rest]
    by simp
qed

text \<open>A fresh verifier has seen nothing.\<close>

lemma verifier_new_ok:
  assumes "verifier_new h = Ok v"
  shows "192 \<le> length h" and "sub h 0 4 = NRM_MAGIC" and "u32at h 4 = NRM_VERSION"
    and "v = \<lparr>sv_meta = crc_new, sv_data = crc_new,
               sv_meta_end = sc_table_off (header_sections h) + sc_tensor_count (header_sections h) * 32,
               sv_data_off = sc_data_off (header_sections h),
               sv_data_end = (sc_data_off (header_sections h) + sc_data_size (header_sections h)) mod usize_limit,
               sv_expect_meta = sc_meta_crc (header_sections h),
               sv_expect_data = sc_data_crc (header_sections h)\<rparr>"
    and "sc_tok_off (header_sections h) = 192"
    and "sc_table_off (header_sections h) = 192 + sc_tok_size (header_sections h)"
    and "sc_table_off (header_sections h) + sc_tensor_count (header_sections h) * 32
           \<le> sc_data_off (header_sections h)"
  using assms
  by (auto simp: verifier_new_def Let_def header_sections_def outcome_simps not_less
      split: if_splits option.splits)

lemma verifier_new_not_Panic: "verifier_new h \<noteq> Panic"
  by (auto simp: verifier_new_def Let_def outcome_simps split: if_splits option.splits)

lemma seen_nothing: "verifier_new h = Ok v \<Longrightarrow> seen F v 0 = v"
  by (drule verifier_new_ok(4)) (simp add: seen_def data_seen_def crc.upd_nil)

text \<open>The header is all that \<open>new\<close> looks at, so any prefix that holds it gives the same verifier.\<close>

lemma sub_take: "b \<le> n \<Longrightarrow> sub (take n xs) a b = sub xs a b"
  by (simp add: sub_def drop_take min.absorb1 diff_le_mono)

lemma verifier_new_prefix: "192 \<le> n \<Longrightarrow> n \<le> length F \<Longrightarrow> verifier_new (take n F) = verifier_new F"
  by (simp add: verifier_new_def u32at_def u64at_def sub_take)

lemma blanked_meta_region:
  assumes img: "192 \<le> length F" and fit: "sections_fit (length F) sc"
    and shape: "sc_tok_off sc = 192" "sc_table_off sc = 192 + sc_tok_size sc"
  shows "crc_finish (crc_update crc_new (sub (blanked F) 0 (sc_table_off sc + sc_tensor_count sc * 32)))
    = meta_region_crc F sc"
proof -
  let ?e = "sc_table_off sc + sc_tensor_count sc * 32"
  have "sub (blanked F) 0 ?e = sub (blanked F) 0 184 @ sub (blanked F) 184 192 @ sub (blanked F) 192 ?e"
    using shape by (simp add: sub_append_sub)
  also have "\<dots> = sub F 0 184 @ replicate 8 0 @ sub F 192 ?e"
    using img by (simp add: blanked_outside blanked_inside)
  also have "sub F 192 ?e = sub F 192 (192 + sc_tok_size sc) @ sub F (192 + sc_tok_size sc) ?e"
    using shape by (simp add: sub_append_sub)
  finally show ?thesis
    using shape by (simp add: meta_region_crc_def crc_checksum_def)
qed

definition stream_verdict :: "verifier \<Rightarrow> bytes list \<Rightarrow> (verify_error, unit) outcome" where
  "stream_verdict v cs = obind (feed_all v 0 cs) verifier_finish"

lemma stream_verdict_eq:
  assumes new: "verifier_new F = Ok v" and fit: "sections_fit (length F) (header_sections F)"
    and len: "length F < usize_limit" and cs: "concat cs = F"
  shows "stream_verdict v cs =
    (let sc = header_sections F in
     if meta_region_crc F sc \<noteq> sc_meta_crc sc then Err VerifyMetaCrc
     else if crc_checksum (sub F (sc_data_off sc) (sc_data_off sc + sc_data_size sc)) \<noteq> sc_data_crc sc
     then Err VerifyDataCrc else Ok ())"
proof -
  let ?sc = "header_sections F"
  note n = verifier_new_ok [OF new]
  have "feed_all v 0 cs = (Ok (seen F v (length F)) :: (verify_error, verifier) outcome)"
    using feed_all_seen [OF n(1) _ , of 0 cs v, where ?'e = verify_error] cs seen_nothing [OF new, of F]
    by simp
  moreover have "data_seen v 0 = sc_data_off ?sc"
      "data_seen v (length F) = sc_data_off ?sc + sc_data_size ?sc"
      "min (length F) (sv_meta_end v) = sc_table_off ?sc + sc_tensor_count ?sc * 32"
      "sv_expect_meta v = sc_meta_crc ?sc" "sv_expect_data v = sc_data_crc ?sc"
    using fit len by (auto simp: n(4) data_seen_def sections_fit_def)
  ultimately show ?thesis
    using blanked_meta_region [OF n(1) fit n(5,6)]
    by (simp add: stream_verdict_def verifier_finish_def crc_checksum_def Let_def)
qed

subsection \<open>The boot loader\<close>

text \<open>
  \<open>load\<close> of \<^verbatim>\<open>modelload.rs\<close>. The firmware is a parameter: \<open>opened\<close> is the outcome of finding
  and sizing the file, \<open>alloc\<close> whether the pages were allocated, \<open>rd pos want\<close> what one read
  returns, \<open>eof\<close> its end-of-file status. \<open>buf\<close> holds the bytes read so far.
\<close>

datatype 's load_error = Fs 's | NotFound | Corrupt verify_error | OutOfMemory | ReadFailed 's

definition LOAD_CHUNK :: nat where "LOAD_CHUNK = 16 * 1024 * 1024"

definition map_err :: "('e \<Rightarrow> 'f) \<Rightarrow> ('e, 'a) outcome \<Rightarrow> ('f, 'a) outcome" where
  "map_err g r = (case r of Ok x \<Rightarrow> Ok x | Err e \<Rightarrow> Err (g e) | Panic \<Rightarrow> Panic)"

text \<open>One turn of the read loop after a successful read: the verifier is created with the first
  feed once the header is in, and fed the new bytes afterwards.\<close>

definition load_verify ::
    "verifier option \<Rightarrow> bytes \<Rightarrow> bytes \<Rightarrow> ('s load_error, verifier option) outcome" where
  "load_verify ver buf new =
     (if ver = None \<and> length (buf @ new) \<ge> HEADER_SIZE
      then obind (map_err Corrupt (verifier_new (buf @ new))) (\<lambda>v.
           obind (verifier_feed v 0 (buf @ new)) (\<lambda>v. Ok (Some v)))
      else case ver of Some v \<Rightarrow> obind (verifier_feed v (length buf) new) (\<lambda>v. Ok (Some v))
           | None \<Rightarrow> Ok None)"

function load_loop :: "'s \<Rightarrow> (nat \<Rightarrow> nat \<Rightarrow> ('s, bytes) outcome) \<Rightarrow> nat \<Rightarrow> bytes \<Rightarrow> verifier option
    \<Rightarrow> ('s load_error, bytes \<times> verifier option) outcome" where
  "load_loop eof rd fsize buf ver =
     (if length buf < fsize
      then obind (map_err ReadFailed (rd (length buf) (min (length buf + LOAD_CHUNK) fsize - length buf))) (\<lambda>new.
        if new = [] then Err (ReadFailed eof)
        else obind (load_verify ver buf new) (\<lambda>ver'. load_loop eof rd fsize (buf @ new) ver'))
      else Ok (buf, ver))"
  by pat_completeness auto
termination
  by (relation "measure (\<lambda>(eof, rd, fsize, buf, ver). fsize - length buf)")
    (auto intro!: diff_less_mono2)

declare load_loop.simps [simp del]

definition load :: "bool \<Rightarrow> ('s load_error, nat) outcome \<Rightarrow> bool \<Rightarrow> 's
    \<Rightarrow> (nat \<Rightarrow> nat \<Rightarrow> ('s, bytes) outcome) \<Rightarrow> ('s load_error, bytes) outcome" where
  "load sealed opened alloc eof rd =
     (if sealed then Panic
      else obind opened (\<lambda>fsize.
        if \<not> alloc then Err OutOfMemory
        else obind (load_loop eof rd fsize [] None) (\<lambda>(buf, ver).
          case ver of Some v \<Rightarrow> obind (map_err Corrupt (verifier_finish v)) (\<lambda>_. Ok buf)
          | None \<Rightarrow> Err (ReadFailed eof))))"

text \<open>Firmware that returns the file's bytes, in pieces of any positive length up to what was asked.\<close>

definition reads_file :: "bytes \<Rightarrow> (nat \<Rightarrow> nat \<Rightarrow> ('s, bytes) outcome) \<Rightarrow> bool" where
  "reads_file F rd \<longleftrightarrow> (\<forall>p w. 0 < w \<longrightarrow> p + w \<le> length F \<longrightarrow>
     (\<exists>k. 0 < k \<and> k \<le> w \<and> rd p w = Ok (sub F p (p + k))))"

definition loading :: "bytes \<Rightarrow> verifier \<Rightarrow> nat \<Rightarrow> verifier option" where
  "loading F v n = (if n < 192 then None else Some (seen F v n))"

lemma load_verify_step:
  assumes img: "192 \<le> length F" and new: "verifier_new F = Ok v" and k: "0 < k" "n + k \<le> length F"
  shows "load_verify (loading F v n) (take n F) (sub F n (n + k))
    = (Ok (loading F v (n + k)) :: ('s load_error, verifier option) outcome)"
proof -
  have app: "take n F @ sub F n (n + k) = take (n + k) F"
    using sub_append_sub [of 0 n "n + k" F] by (simp add: sub_def)
  have len: "length (take n F) = n" "length (sub F n (n + k)) = k" using k by simp_all
  show ?thesis
  proof (cases "n < 192")
    case False
    then show ?thesis
      using feed_seen [OF img _ , of "sub F n (n + k)" n v, where ?'e = "'s load_error"] k
      by (simp add: load_verify_def loading_def)
  next
    case True
    show ?thesis
    proof (cases "n + k < 192")
      case short: True
      then show ?thesis using True k by (simp add: load_verify_def loading_def app)
    next
      case False
      have "verifier_new (take (n + k) F) = Ok v"
        using verifier_new_prefix [of "n + k" F] False k new by simp
      moreover have "verifier_feed v 0 (take (n + k) F) = (Ok (seen F v (n + k)) :: ('s load_error, verifier) outcome)"
        using feed_seen [OF img _ , of "take (n + k) F" 0 v, where ?'e = "'s load_error"] k seen_nothing [OF new, of F]
        by (simp add: sub_def)
      ultimately show ?thesis
        using True False k by (simp add: load_verify_def loading_def app map_err_def)
    qed
  qed
qed

lemma load_loop_read:
  assumes rd: "reads_file F rd" and n: "n < length F"
  obtains k where "0 < k" "n + k \<le> length F"
    "load_loop eof rd (length F) (take n F) ver =
       obind (load_verify ver (take n F) (sub F n (n + k)))
         (\<lambda>ver'. load_loop eof rd (length F) (take (n + k) F) ver')"
proof -
  let ?w = "min (n + LOAD_CHUNK) (length F) - n"
  have w: "0 < ?w" "n + ?w \<le> length F" using n by (auto simp: LOAD_CHUNK_def)
  then obtain k where k: "0 < k" "k \<le> ?w" "rd n ?w = Ok (sub F n (n + k))"
    using rd unfolding reads_file_def by blast
  have le: "n + k \<le> length F" using k w by linarith
  have app: "take n F @ sub F n (n + k) = take (n + k) F"
    using sub_append_sub [of 0 n "n + k" F] by (simp add: sub_def)
  have ne: "sub F n (n + k) \<noteq> []"
    using k(1) le by (simp add: sub_def)
  show thesis
  proof (rule that [OF k(1) le])
    show "load_loop eof rd (length F) (take n F) ver =
       obind (load_verify ver (take n F) (sub F n (n + k)))
         (\<lambda>ver'. load_loop eof rd (length F) (take (n + k) F) ver')"
      using n k(3) ne by (subst load_loop.simps) (simp add: map_err_def min.absorb2 app)
  qed
qed

lemma load_loop_accepts:
  fixes eof :: 's
  assumes img: "192 \<le> length F" and new: "verifier_new F = Ok v" and rd: "reads_file F rd"
  shows "n \<le> length F \<Longrightarrow>
    load_loop eof rd (length F) (take n F) (loading F v n) = Ok (F, Some (seen F v (length F)))"
proof (induction "length F - n" arbitrary: n rule: less_induct)
  case less
  show ?case
  proof (cases "n < length F")
    case False
    with less.prems img show ?thesis by (subst load_loop.simps) (simp add: loading_def)
  next
    case True
    from load_loop_read [OF rd True] obtain k where k: "0 < k" "n + k \<le> length F"
      "load_loop eof rd (length F) (take n F) (loading F v n) =
         obind (load_verify (loading F v n) (take n F) (sub F n (n + k)))
           (\<lambda>ver'. load_loop eof rd (length F) (take (n + k) F) ver')" .
    have "length F - (n + k) < length F - n" using k by linarith
    from less.hyps [OF this k(2)] k(3) load_verify_step [OF img new k(1,2), where ?'s = 's] show ?thesis by simp
  qed
qed

lemma load_loop_rejects:
  assumes img: "192 \<le> length F" and new: "verifier_new F = Err e" and rd: "reads_file F rd"
  shows "n < 192 \<Longrightarrow> load_loop eof rd (length F) (take n F) None = Err (Corrupt e)"
proof (induction "192 - n" arbitrary: n rule: less_induct)
  case less
  have "n < length F" using less.prems img by linarith
  from load_loop_read [OF rd this] obtain k where k: "0 < k" "n + k \<le> length F"
    "load_loop eof rd (length F) (take n F) None =
       obind (load_verify None (take n F) (sub F n (n + k)))
         (\<lambda>ver'. load_loop eof rd (length F) (take (n + k) F) ver')" .
  have app: "take n F @ sub F n (n + k) = take (n + k) F"
    using sub_append_sub [of 0 n "n + k" F] by (simp add: sub_def)
  show ?case
  proof (cases "n + k < 192")
    case True
    have "192 - (n + k) < 192 - n" using k True by linarith
    from less.hyps [OF this True] k app True show ?thesis
      by (simp add: load_verify_def)
  next
    case False
    then have "verifier_new (take (n + k) F) = Err e"
      using verifier_new_prefix [of "n + k" F] k new by simp
    with False k app show ?thesis by (simp add: load_verify_def map_err_def)
  qed
qed

lemma load_eq:
  assumes img: "192 \<le> length F" and rd: "reads_file F rd"
  shows "load False (Ok (length F)) True eof rd =
    obind (map_err Corrupt (obind (verifier_new F) (\<lambda>v. stream_verdict v [F]))) (\<lambda>_. Ok F)"
proof (cases "verifier_new F")
  case (Ok v)
  have "feed_all v 0 [F] = (Ok (seen F v (length F)) :: (verify_error, verifier) outcome)"
    using feed_all_seen [OF img, of 0 "[F]" v, where ?'e = verify_error] seen_nothing [OF Ok, of F] by simp
  then show ?thesis
    using load_loop_accepts [OF img Ok rd, of 0 eof]
    by (simp add: load_def Ok loading_def stream_verdict_def)
next
  case (Err e)
  then show ?thesis
    using load_loop_rejects [OF img Err rd, of 0 eof] by (simp add: load_def map_err_def)
next
  case Panic
  then show ?thesis by (simp add: verifier_new_not_Panic)
qed

subsection \<open>Properties\<close>

text \<open>C7: Streaming verification decides what two passes over the whole file would: however the
  file is cut into consecutive chunks, the verifier accepts exactly when the metadata checksum of
  \<open>Model::parse\<close> and the data checksum of \<open>verify_data\<close> both match, and it names the metadata
  section first when both differ.\<close>

theorem streaming_verdict:
  assumes "verifier_new F = Ok v" and "sections_fit (length F) (header_sections F)"
    and "length F < usize_limit" and "concat cs = F"
  shows "stream_verdict v cs =
      (if meta_region_crc F (header_sections F) \<noteq> sc_meta_crc (header_sections F) then Err VerifyMetaCrc
       else if crc_checksum (sub F (sc_data_off (header_sections F))
           (sc_data_off (header_sections F) + sc_data_size (header_sections F)))
         \<noteq> sc_data_crc (header_sections F) then Err VerifyDataCrc
       else Ok ())
    \<and> (\<forall>addr m. model_parse addr F = Ok m \<longrightarrow> (stream_verdict v cs = Ok () \<longleftrightarrow> fst (verify_data m)))"
proof -
  have "stream_verdict v cs = Ok () \<longleftrightarrow> fst (verify_data m)" if "model_parse addr F = Ok m" for addr m
    using stream_verdict_eq [OF assms] model_parse_accepts [OF that assms(3)]
    by (simp add: Let_def verify_data_def verify_loop_crc crc_checksum_def)
  then show ?thesis
    using stream_verdict_eq [OF assms] by (simp add: Let_def)
qed

text \<open>The boot loader's read loop returns for every file of at least a header and every
  firmware that delivers the file's bytes in pieces of any size, and its answer is the one-shot
  one: the whole file when the verifier accepts it, \<open>Corrupt\<close> with the verifier's error
  otherwise; a sealed storage is never read.\<close>

theorem load_is_one_shot_verification:
  fixes eof :: 's
  assumes "192 \<le> length F" and "reads_file F rd"
  shows "load False (Ok (length F)) True eof rd =
      (case verifier_new F of Err e \<Rightarrow> Err (Corrupt e) | Panic \<Rightarrow> Panic
       | Ok v \<Rightarrow> (case stream_verdict v [F] of Ok u \<Rightarrow> Ok F | Err e \<Rightarrow> Err (Corrupt e) | Panic \<Rightarrow> Panic))
    \<and> verifier_new F \<noteq> Panic \<and> load True opened alloc eof rd = Panic"
proof -
  have "load True opened alloc eof rd = (Panic :: ('s load_error, bytes) outcome)"
    by (simp add: load_def)
  then show ?thesis
    using load_eq [OF assms] verifier_new_not_Panic [of F]
    by (auto simp: map_err_def split: outcome.splits)
qed

end
