(* ===== verification/Nr_Convert.thy ===== *)
theory Nr_Convert
  imports Nr_Verify
begin

text \<open>
  The writer of \<^verbatim>\<open>tools/nrconvert/src/main.rs\<close>: data offsets, tensor table, checksums, header and
  file image of a \<open>.nrm\<close> model, and the proof that the file it writes is the model the runtime's
  parser reads back, with both checksums accepted by parser, verifier and loader.
\<close>

subsection \<open>The writer\<close>

record out_tensor =
  ot_kind :: tensor_kind
  ot_layer :: u16
  ot_dtype :: dtype
  ot_rows :: u32
  ot_cols :: u32
  ot_bytes :: bytes
  ot_offset :: nat

primrec dtype_u16 :: "dtype \<Rightarrow> u16" where
  "dtype_u16 F32 = 0"
| "dtype_u16 Q8_0 = 1"
| "dtype_u16 Q4K = 2"
| "dtype_u16 Q6K = 3"

definition align_data :: "nat \<Rightarrow> nat" where
  "align_data n = div_ceil n DATA_ALIGN * DATA_ALIGN"

text \<open>\<open>assign_offsets\<close> returns the tensors with their offsets and the data size.\<close>

primrec assign_offsets :: "nat \<Rightarrow> out_tensor list \<Rightarrow> out_tensor list \<times> nat" where
  "assign_offsets cursor [] = ([], cursor)"
| "assign_offsets cursor (t # ts) =
     (let c = align_data cursor; r = assign_offsets (c + length (ot_bytes t)) ts
      in (t\<lparr>ot_offset := c\<rparr> # fst r, snd r))"

definition entry_bytes :: "out_tensor \<Rightarrow> bytes" where
  "entry_bytes t = to_le 2 (kind_u16 (ot_kind t)) @ to_le 2 (ot_layer t) @ to_le 2 (dtype_u16 (ot_dtype t))
     @ to_le 2 (0 :: u16) @ to_le 8 (of_nat (ot_offset t) :: u64)
     @ to_le 8 (of_nat (length (ot_bytes t)) :: u64) @ to_le 4 (ot_rows t) @ to_le 4 (ot_cols t)"

definition table_bytes :: "out_tensor list \<Rightarrow> bytes" where
  "table_bytes ts = concat (map entry_bytes ts)"

text \<open>The data checksum, with the padding between tensors hashed as zeros.\<close>

primrec data_crc_loop :: "nat \<Rightarrow> out_tensor list \<Rightarrow> u32 \<Rightarrow> u32 \<times> nat" where
  "data_crc_loop pos [] c = (c, pos)"
| "data_crc_loop pos (t # ts) c =
     data_crc_loop (ot_offset t + length (ot_bytes t)) ts
       (crc_update (if ot_offset t > pos then crc_update c (replicate (ot_offset t - pos) 0) else c)
          (ot_bytes t))"

definition data_crc_of :: "out_tensor list \<Rightarrow> nat \<Rightarrow> u32" where
  "data_crc_of ts data_size =
     (let r = data_crc_loop 0 ts crc_new
      in crc_finish (if data_size > snd r then crc_update (fst r) (replicate (data_size - snd r) 0) else fst r))"

text \<open>The first 184 bytes of the header. The three rope fields after the factor are written as 0.0.\<close>

definition header_fields :: "model_meta \<Rightarrow> nat \<Rightarrow> nat \<Rightarrow> nat \<Rightarrow> nat \<Rightarrow> nat \<Rightarrow> nat \<Rightarrow> bytes" where
  "header_fields m tok_off tok_len table_off count data_off data_size =
     NRM_MAGIC @ to_le 4 NRM_VERSION @ to_le 4 (arch_u32 (mt_arch m))
     @ to_le 4 (mt_dim m) @ to_le 4 (mt_n_layers m) @ to_le 4 (mt_n_heads m) @ to_le 4 (mt_n_kv_heads m)
     @ to_le 4 (mt_head_dim m) @ to_le 4 (mt_ffn_dim m) @ to_le 4 (mt_vocab m) @ to_le 4 (mt_ctx_train m)
     @ to_le 4 (mt_rope_theta m) @ to_le 4 (mt_norm_eps m) @ to_le 4 (mt_rope_factor m)
     @ to_le 4 (0 :: u32) @ to_le 4 (0 :: u32) @ to_le 4 (0 :: u32) @ to_le 4 (mt_flags m)
     @ to_le 4 (mt_embed_scale m) @ to_le 4 (mt_attn_scale m) @ to_le 4 (mt_residual_scale m)
     @ to_le 4 (mt_logit_scale m) @ mt_name m
     @ to_le 8 (of_nat tok_off :: u64) @ to_le 8 (of_nat tok_len :: u64) @ to_le 8 (of_nat table_off :: u64)
     @ to_le 4 (of_nat count :: u32) @ to_le 4 (0 :: u32)
     @ to_le 8 (of_nat data_off :: u64) @ to_le 8 (of_nat data_size :: u64)"

definition resize :: "nat \<Rightarrow> bytes \<Rightarrow> bytes" where
  "resize n buf = take n buf @ replicate (n - length buf) 0"

primrec write_tensors :: "nat \<Rightarrow> out_tensor list \<Rightarrow> bytes \<Rightarrow> bytes" where
  "write_tensors data_off [] buf = buf"
| "write_tensors data_off (t # ts) buf =
     write_tensors data_off ts (resize (data_off + ot_offset t) buf @ ot_bytes t)"

definition write_nrm :: "model_meta \<Rightarrow> bytes \<Rightarrow> out_tensor list \<Rightarrow> bytes" where
  "write_nrm m tok outs =
     (let (ts, data_size) = assign_offsets 0 outs;
          tok_off = HEADER_SIZE;
          table_off = tok_off + length tok;
          table_size = length ts * ENTRY_SIZE;
          data_off = align_data (table_off + table_size);
          table = table_bytes ts;
          data_crc = data_crc_of ts data_size;
          fields = header_fields m tok_off (length tok) table_off (length ts) data_off data_size;
          header = fields @ to_le 4 data_crc;
          meta_crc = crc_finish (crc_update (crc_update (crc_update (crc_update crc_new
            (take (HEADER_SIZE - 8) header)) (replicate 8 0)) tok) table);
          image = resize data_off (header @ to_le 4 meta_crc @ tok @ table)
      in resize (data_off + data_size) (write_tensors data_off ts image))"

text \<open>The display name: at most 48 bytes of it, NUL padded.\<close>

definition name_bytes :: "bytes \<Rightarrow> bytes" where
  "name_bytes name = (let n = min (length name) NAME_LEN in take n name @ replicate (NAME_LEN - n) 0)"

lemma length_name_bytes [simp]: "length (name_bytes n) = 48"
  by (simp add: name_bytes_def Let_def)

subsection \<open>The data section\<close>

text \<open>What the data section holds: each tensor at its offset, zeros between.\<close>

primrec image :: "nat \<Rightarrow> out_tensor list \<Rightarrow> bytes" where
  "image pos [] = []"
| "image pos (t # ts) = replicate (ot_offset t - pos) 0 @ ot_bytes t
     @ image (ot_offset t + length (ot_bytes t)) ts"

primrec placed :: "nat \<Rightarrow> out_tensor list \<Rightarrow> bool" where
  "placed pos [] = True"
| "placed pos (t # ts) = (pos \<le> ot_offset t \<and> ot_offset t mod 64 = 0
     \<and> placed (ot_offset t + length (ot_bytes t)) ts)"

lemma align_data_ge: "n \<le> align_data n" and align_data_mod: "align_data n mod 64 = 0"
  by (simp_all add: align_data_def div_ceil_def) presburger

lemma assign_offsets_props:
  "placed c (fst (assign_offsets c ts)) \<and> length (fst (assign_offsets c ts)) = length ts
   \<and> snd (assign_offsets c ts) = c + length (image c (fst (assign_offsets c ts)))"
proof (induction ts arbitrary: c)
  case (Cons t ts)
  show ?case
    using Cons [of "align_data c + length (ot_bytes t)"] align_data_ge [of c] align_data_mod [of c]
    by (simp add: Let_def)
qed simp

lemma assign_offsets_map:
  "map (\<lambda>t. t\<lparr>ot_offset := 0\<rparr>) (fst (assign_offsets c ts)) = map (\<lambda>t. t\<lparr>ot_offset := 0\<rparr>) ts"
  by (induction ts arbitrary: c) (simp_all add: Let_def)

lemma data_crc_loop_eq:
  "placed pos ts \<Longrightarrow> data_crc_loop pos ts c = (crc_update c (image pos ts), pos + length (image pos ts))"
  by (induction ts arbitrary: pos c) (auto simp: crc.upd_nil crc.upd_append)

lemma write_tensors_eq:
  "placed pos ts \<Longrightarrow> length buf = d + pos \<Longrightarrow> write_tensors d ts buf = buf @ image pos ts"
  by (induction ts arbitrary: pos buf) (auto simp: resize_def)

lemma image_holds:
  "placed pos ts \<Longrightarrow> t \<in> set ts \<Longrightarrow>
     pos \<le> ot_offset t \<and> ot_offset t mod 64 = 0
     \<and> ot_offset t + length (ot_bytes t) \<le> pos + length (image pos ts)
     \<and> sub (image pos ts) (ot_offset t - pos) (ot_offset t - pos + length (ot_bytes t)) = ot_bytes t"
proof (induction ts arbitrary: pos)
  case (Cons u us)
  let ?p = "ot_offset u + length (ot_bytes u)"
  show ?case
  proof (cases "t = u")
    case True
    with Cons.prems(1) show ?thesis by (simp add: sub_def)
  next
    case False
    with Cons.prems Cons.IH [of ?p] have ih: "?p \<le> ot_offset t" "ot_offset t mod 64 = 0"
        "ot_offset t + length (ot_bytes t) \<le> ?p + length (image ?p us)"
        "sub (image ?p us) (ot_offset t - ?p) (ot_offset t - ?p + length (ot_bytes t)) = ot_bytes t"
      by auto
    have "drop (ot_offset t - pos) (image pos (u # us)) = drop (ot_offset t - ?p) (image ?p us)"
      using ih(1) Cons.prems(1) by simp
    then have "sub (image pos (u # us)) (ot_offset t - pos) (ot_offset t - pos + length (ot_bytes t))
        = ot_bytes t"
      using ih(4) by (simp add: sub_def)
    with ih Cons.prems(1) show ?thesis by simp
  qed
qed simp

subsection \<open>Reading the header and the table back\<close>

definition header_view :: "model_meta \<Rightarrow> sections \<Rightarrow> bytes" where
  "header_view m sc = header_fields m (sc_tok_off sc) (sc_tok_size sc) (sc_table_off sc)
      (sc_tensor_count sc) (sc_data_off sc) (sc_data_size sc)
    @ to_le 4 (sc_data_crc sc) @ to_le 4 (sc_meta_crc sc)"

definition sections_small :: "sections \<Rightarrow> bool" where
  "sections_small sc \<longleftrightarrow> sc_tok_off sc < usize_limit \<and> sc_tok_size sc < usize_limit
     \<and> sc_table_off sc < usize_limit \<and> sc_tensor_count sc < 2 ^ 32
     \<and> sc_data_off sc < usize_limit \<and> sc_data_size sc < usize_limit"

lemma length_header_view [simp]: "length (mt_name m) = 48 \<Longrightarrow> length (header_view m sc) = 192"
  by (simp add: header_view_def header_fields_def NRM_MAGIC_def)

lemma length_header_fields [simp]:
  "length (mt_name m) = 48 \<Longrightarrow> length (header_fields m a b c d e f) = 184"
  by (simp add: header_fields_def NRM_MAGIC_def)

lemma length_magic [simp]: "length NRM_MAGIC = 4"
  by (simp add: NRM_MAGIC_def)

lemma header_view_magic: "sub (header_view m sc @ r) 0 4 = NRM_MAGIC"
  by (simp add: header_view_def header_fields_def sub_appends)

lemma header_view_version: "u32at (header_view m sc @ r) 4 = NRM_VERSION"
  by (simp add: u32at_def header_view_def header_fields_def sub_appends le_word_to_le)

lemma header_view_arch: "u32at (header_view m sc @ r) 8 = arch_u32 (mt_arch m)"
  by (simp add: u32at_def header_view_def header_fields_def sub_appends le_word_to_le)

lemma header_view_sections:
  assumes "length (mt_name m) = 48" and "sections_small sc"
  shows "header_sections (header_view m sc @ r) = sc"
  using assms
  by (simp add: header_sections_def u32at_def u64at_def header_view_def header_fields_def sub_appends
      le_word_to_le sections_small_def usize_limit_def unat_of_nat_less)

lemma header_view_meta:
  assumes "length (mt_name m) = 48"
  shows "header_meta (mt_arch m) (header_view m sc @ r)
    = m\<lparr>mt_rope_low := 0, mt_rope_high := 0, mt_rope_orig_ctx := 0\<rparr>"
  using assms
  by (simp add: header_meta_def u32at_def header_view_def header_fields_def sub_appends le_word_to_le)

definition entry_of :: "out_tensor \<Rightarrow> tensor_entry" where
  "entry_of t = \<lparr>te_kind = kind_u16 (ot_kind t), te_layer = ot_layer t, te_dtype = ot_dtype t,
     te_offset = of_nat (ot_offset t), te_size = of_nat (length (ot_bytes t)), te_rows = ot_rows t,
     te_cols = ot_cols t\<rparr>"

definition tensor_fits :: "nat \<Rightarrow> out_tensor \<Rightarrow> bool" where
  "tensor_fits data_size t \<longleftrightarrow> ot_offset t mod 64 = 0
     \<and> ot_offset t + length (ot_bytes t) \<le> data_size
     \<and> byte_size (ot_dtype t) (unat (ot_rows t) * unat (ot_cols t)) = Some (length (ot_bytes t))"

lemma length_entry_bytes [simp]: "length (entry_bytes t) = 32"
  by (simp add: entry_bytes_def)

lemma dtype_of_u16_dtype [simp]: "dtype_of_u16 (dtype_u16 d) = Some d"
  by (cases d) (simp_all add: dtype_of_u16_def)

lemma rows_cols_small: "unat (r :: u32) * unat (c :: u32) < usize_limit"
proof -
  have "unat r < 2 ^ LENGTH(32)" "unat c < 2 ^ LENGTH(32)" by (rule unsigned_less)+
  then have "unat r * unat c < 2 ^ 32 * 2 ^ 32" by (intro mult_strict_mono) simp_all
  then show ?thesis by (simp add: usize_limit_def)
qed

lemma parse_written_entry:
  assumes fits: "tensor_fits ds t" and ds: "ds < usize_limit"
  shows "parse_entry ds (pre @ entry_bytes t @ post, length pre)
    = Ok (entry_of t, (pre @ entry_bytes t @ post, length pre + 32))"
proof -
  let ?b = "pre @ entry_bytes t @ post"
  have small: "ot_offset t < 2 ^ 64" "length (ot_bytes t) < 2 ^ 64"
    using fits ds by (simp_all add: tensor_fits_def usize_limit_def)
  have field: "sub ?b (length pre + a) (length pre + c) = sub (entry_bytes t) a c" if "c \<le> 32" for a c
    using that by (simp add: sub_append_right sub_append_left)
  have "sub ?b (length pre) (length pre + 2) = to_le 2 (kind_u16 (ot_kind t))"
      "sub ?b (length pre + 2) (length pre + 4) = to_le 2 (ot_layer t)"
      "sub ?b (length pre + 4) (length pre + 6) = to_le 2 (dtype_u16 (ot_dtype t))"
      "sub ?b (length pre + 8) (length pre + 16) = to_le 8 (of_nat (ot_offset t) :: u64)"
      "sub ?b (length pre + 16) (length pre + 24) = to_le 8 (of_nat (length (ot_bytes t)) :: u64)"
      "sub ?b (length pre + 24) (length pre + 28) = to_le 4 (ot_rows t)"
      "sub ?b (length pre + 28) (length pre + 32) = to_le 4 (ot_cols t)"
    using field [of 2 0]
    by (simp_all add: field del: add_2_eq_Suc add_2_eq_Suc') (simp_all add: entry_bytes_def sub_appends)
  with fits ds small rows_cols_small [of "ot_rows t" "ot_cols t"] show ?thesis
    by (simp add: parse_entry_def le_word_to_le tensor_fits_def entry_of_def unat_of_nat_less
        checked_add_def checked_mul_def add.assoc del: add_2_eq_Suc add_2_eq_Suc')
qed

lemma parse_written_table:
  "\<forall>t \<in> set ts. tensor_fits ds t \<Longrightarrow> ds < usize_limit \<Longrightarrow>
     parse_entries ds (length ts) (pre @ table_bytes ts @ post, length pre) = Ok (map entry_of ts)"
proof (induction ts arbitrary: pre)
  case (Cons t ts)
  have "parse_entry ds (pre @ table_bytes (t # ts) @ post, length pre)
      = Ok (entry_of t, (pre @ table_bytes (t # ts) @ post, length pre + 32))"
    using parse_written_entry [of ds t pre "table_bytes ts @ post"] Cons.prems
    by (simp add: table_bytes_def)
  with Cons.IH [of "pre @ entry_bytes t"] Cons.prems show ?case
    by (simp add: table_bytes_def)
qed simp

subsection \<open>The file as a whole\<close>

definition written_tensors :: "out_tensor list \<Rightarrow> out_tensor list" where
  "written_tensors outs = fst (assign_offsets 0 outs)"

definition written_sections :: "model_meta \<Rightarrow> bytes \<Rightarrow> out_tensor list \<Rightarrow> sections" where
  "written_sections m tok outs =
     (let ts = written_tensors outs; table_off = 192 + length tok; ds = length (image 0 ts);
          data_off = align_data (table_off + length outs * 32)
      in \<lparr>sc_tok_off = 192, sc_tok_size = length tok, sc_table_off = table_off,
          sc_tensor_count = length outs, sc_data_off = data_off, sc_data_size = ds,
          sc_data_crc = crc_checksum (image 0 ts),
          sc_meta_crc = crc_checksum (header_fields m 192 (length tok) table_off (length outs) data_off ds
            @ replicate 8 0 @ tok @ table_bytes ts)\<rparr>)"

definition written_gap :: "bytes \<Rightarrow> out_tensor list \<Rightarrow> bytes" where
  "written_gap tok outs = replicate (align_data (192 + length tok + length outs * 32)
     - (192 + length tok + length outs * 32)) 0"

lemma written_tensors_props [simp]:
  "placed 0 (written_tensors outs)" "length (written_tensors outs) = length outs"
  "snd (assign_offsets 0 outs) = length (image 0 (written_tensors outs))"
  using assign_offsets_props [of 0 outs] by (simp_all add: written_tensors_def)

lemma length_table_bytes [simp]: "length (table_bytes ts) = length ts * 32"
  by (induction ts) (simp_all add: table_bytes_def)

lemma data_crc_written: "data_crc_of (written_tensors outs) (length (image 0 (written_tensors outs)))
    = crc_checksum (image 0 (written_tensors outs))"
  by (simp add: data_crc_of_def data_crc_loop_eq crc_checksum_def)

lemma write_nrm_eq:
  assumes "length (mt_name m) = 48"
  shows "write_nrm m tok outs = header_view m (written_sections m tok outs) @ tok
    @ table_bytes (written_tensors outs) @ written_gap tok outs @ image 0 (written_tensors outs)"
proof -
  let ?ts = "written_tensors outs" and ?ds = "length (image 0 (written_tensors outs))"
  let ?to = "192 + length tok"
  let ?do = "align_data (?to + length outs * 32)"
  let ?fields = "header_fields m 192 (length tok) ?to (length outs) ?do ?ds"
  have crc: "crc_finish (crc_update (crc_update (crc_update (crc_update crc_new
      (take (192 - 8) (?fields @ to_le 4 (crc_checksum (image 0 ?ts))))) (replicate 8 0)) tok) (table_bytes ?ts))
    = sc_meta_crc (written_sections m tok outs)"
    using assms by (simp add: written_sections_def Let_def crc_checksum_def crc.upd_append)
  let ?h = "header_view m (written_sections m tok outs)"
  have h: "?fields @ to_le 4 (crc_checksum (image 0 ?ts)) @ to_le 4 (sc_meta_crc (written_sections m tok outs)) = ?h"
    by (simp add: header_view_def) (simp add: written_sections_def Let_def)
  have img: "resize ?do (?h @ tok @ table_bytes ?ts) = ?h @ tok @ table_bytes ?ts @ written_gap tok outs"
    using assms align_data_ge [of "?to + length outs * 32"] by (simp add: resize_def written_gap_def)
  have len: "length (?h @ tok @ table_bytes ?ts @ written_gap tok outs) = ?do + 0"
    using assms align_data_ge [of "?to + length outs * 32"] by (simp add: written_gap_def)
  note wt = write_tensors_eq [OF written_tensors_props(1) len]
  have ao: "assign_offsets 0 outs = (?ts, ?ds)"
    using written_tensors_props(3) [of outs] by (simp add: written_tensors_def prod_eq_iff)
  have hs: "(?fields @ to_le 4 (crc_checksum (image 0 ?ts)))
      @ to_le 4 (sc_meta_crc (written_sections m tok outs)) @ tok @ table_bytes ?ts = ?h @ tok @ table_bytes ?ts"
    by (simp flip: h)
  have "write_nrm m tok outs = resize (?do + ?ds) (write_tensors ?do ?ts (resize ?do (?h @ tok @ table_bytes ?ts)))"
    unfolding write_nrm_def Let_def ao prod.case data_crc_written format_consts written_tensors_props(2)
    by (simp only: crc hs)
  also have "\<dots> = resize (?do + ?ds) (?h @ tok @ table_bytes ?ts @ written_gap tok outs @ image 0 ?ts)"
    unfolding img wt by simp
  also have "\<dots> = ?h @ tok @ table_bytes ?ts @ written_gap tok outs @ image 0 ?ts"
    using len by (simp add: resize_def)
  finally show ?thesis .
qed

definition convertible :: "model_meta \<Rightarrow> bytes \<Rightarrow> out_tensor list \<Rightarrow> bool" where
  "convertible m tok outs \<longleftrightarrow> length (mt_name m) = 48 \<and> \<not> scalars_bad m
     \<and> mt_rope_low m = 0 \<and> mt_rope_high m = 0 \<and> mt_rope_orig_ctx m = 0
     \<and> (\<forall>t \<in> set outs. byte_size (ot_dtype t) (unat (ot_rows t) * unat (ot_cols t)) = Some (length (ot_bytes t)))
     \<and> length outs < 2 ^ 32 \<and> length (write_nrm m tok outs) < usize_limit"

definition written_model :: "nat \<Rightarrow> model_meta \<Rightarrow> bytes \<Rightarrow> out_tensor list \<Rightarrow> model" where
  "written_model addr m tok outs = \<lparr>md_meta = m, md_entries = map entry_of (written_tensors outs),
     md_tokenizer_blob = tok, md_data = image 0 (written_tensors outs),
     md_data_addr = addr + align_data (192 + length tok + length outs * 32),
     md_data_crc = crc_checksum (image 0 (written_tensors outs)), md_blob = write_nrm m tok outs\<rparr>"

lemma length_write_nrm:
  "length (mt_name m) = 48 \<Longrightarrow> length (write_nrm m tok outs)
     = align_data (192 + length tok + length outs * 32) + length (image 0 (written_tensors outs))"
  using align_data_ge [of "192 + length tok + length outs * 32"]
  by (simp add: write_nrm_eq written_gap_def)

lemma written_sections_fields [simp]:
  "sc_tok_off (written_sections m tok outs) = 192" "sc_tok_size (written_sections m tok outs) = length tok"
  "sc_table_off (written_sections m tok outs) = 192 + length tok"
  "sc_tensor_count (written_sections m tok outs) = length outs"
  "sc_data_off (written_sections m tok outs) = align_data (192 + length tok + length outs * 32)"
  "sc_data_size (written_sections m tok outs) = length (image 0 (written_tensors outs))"
  "sc_data_crc (written_sections m tok outs) = crc_checksum (image 0 (written_tensors outs))"
  by (simp_all add: written_sections_def Let_def)

lemma convertible_name: "convertible m tok outs \<Longrightarrow> length (mt_name m) = 48"
  and convertible_limit: "convertible m tok outs \<Longrightarrow> length (write_nrm m tok outs) < usize_limit"
  by (simp_all add: convertible_def)

lemma written_sections_read:
  assumes conv: "convertible m tok outs"
  shows "header_sections (write_nrm m tok outs) = written_sections m tok outs"
proof -
  note name = convertible_name [OF conv]
  have "sections_small (written_sections m tok outs)"
    using conv convertible_limit [OF conv] align_data_ge [of "192 + length tok + length outs * 32"]
    unfolding length_write_nrm [OF name] sections_small_def by (simp add: convertible_def)
  then show ?thesis
    using header_view_sections name by (simp add: write_nrm_eq)
qed

lemma written_regions:
  assumes name: "length (mt_name m) = 48"
  shows "sub (write_nrm m tok outs) 0 184 = header_fields m 192 (length tok) (192 + length tok) (length outs)
      (align_data (192 + length tok + length outs * 32)) (length (image 0 (written_tensors outs)))"
    and "sub (write_nrm m tok outs) 192 (192 + length tok) = tok"
    and "sub (write_nrm m tok outs) (192 + length tok) (192 + length tok + length outs * 32)
           = table_bytes (written_tensors outs)"
    and "sub (write_nrm m tok outs) (align_data (192 + length tok + length outs * 32))
           (align_data (192 + length tok + length outs * 32) + length (image 0 (written_tensors outs)))
           = image 0 (written_tensors outs)"
  using name align_data_ge [of "192 + length tok + length outs * 32"]
  by (simp_all add: write_nrm_eq sub_appends written_gap_def) (simp_all add: header_view_def sub_appends)

lemma written_fit:
  assumes conv: "convertible m tok outs"
  shows "sections_fit (length (write_nrm m tok outs)) (written_sections m tok outs)"
  using align_data_ge [of "192 + length tok + length outs * 32"]
  by (simp add: sections_fit_def length_write_nrm [OF convertible_name [OF conv]])

lemma written_meta_crc:
  assumes conv: "convertible m tok outs"
  shows "meta_region_crc (write_nrm m tok outs) (written_sections m tok outs)
    = sc_meta_crc (written_sections m tok outs)"
  using written_regions [OF convertible_name [OF conv]]
  by (simp add: meta_region_crc_def) (simp add: written_sections_def Let_def)

lemma assign_offsets_sizes:
  "\<forall>t \<in> set ts. byte_size (ot_dtype t) (unat (ot_rows t) * unat (ot_cols t)) = Some (length (ot_bytes t)) \<Longrightarrow>
   \<forall>t \<in> set (fst (assign_offsets c ts)).
     byte_size (ot_dtype t) (unat (ot_rows t) * unat (ot_cols t)) = Some (length (ot_bytes t))"
  by (induction ts arbitrary: c) (simp_all add: Let_def)

lemma written_entries:
  assumes conv: "convertible m tok outs"
  shows "parse_entries (length (image 0 (written_tensors outs))) (length outs)
    (write_nrm m tok outs, 192 + length tok) = Ok (map entry_of (written_tensors outs))"
proof -
  let ?ds = "length (image 0 (written_tensors outs))"
  note name = convertible_name [OF conv]
  have ds: "?ds < usize_limit"
    using convertible_limit [OF conv] unfolding length_write_nrm [OF name] by linarith
  have "tensor_fits ?ds t" if "t \<in> set (written_tensors outs)" for t
    using image_holds [OF written_tensors_props(1) that] that conv assign_offsets_sizes [of outs 0]
    by (simp add: tensor_fits_def convertible_def written_tensors_def)
  then show ?thesis
    using parse_written_table [of "written_tensors outs" ?ds "header_view m (written_sections m tok outs) @ tok"
        "written_gap tok outs @ image 0 (written_tensors outs)"] ds name
    by (simp add: write_nrm_eq)
qed

lemma arch_from_u32_arch [simp]: "arch_from_u32 (arch_u32 a) = Some a"
  by (cases a) (simp_all add: arch_from_u32_def)

lemma parse_written:
  assumes conv: "convertible m tok outs"
  shows "model_parse addr (write_nrm m tok outs) = Ok (written_model addr m tok outs)"
proof -
  let ?b = "write_nrm m tok outs"
  note name = convertible_name [OF conv]
  have big: "192 \<le> length ?b"
    using align_data_ge [of "192 + length tok + length outs * 32"] by (simp add: length_write_nrm name)
  have head: "sub ?b 0 4 = NRM_MAGIC" "u32at ?b 4 = NRM_VERSION" "u32at ?b 8 = arch_u32 (mt_arch m)"
      "header_meta (mt_arch m) ?b = m"
    using header_view_magic header_view_version header_view_arch header_view_meta [OF name] name conv
    by (simp_all add: write_nrm_eq convertible_def)
  show ?thesis
    using model_parse_eq [OF big convertible_limit [OF conv], of addr] head conv
      written_fit [OF conv] written_meta_crc [OF conv] written_entries [OF conv]
      written_regions(2,4) [OF name, of tok outs]
    by (simp add: written_sections_read [OF conv] written_model_def convertible_def)
qed

lemma find_unique: "x \<in> set xs \<Longrightarrow> P x \<Longrightarrow> (\<And>y. y \<in> set xs \<Longrightarrow> P y \<Longrightarrow> y = x) \<Longrightarrow> find P xs = Some x"
proof (induction xs)
  case (Cons a xs)
  show ?case
  proof (cases "P a")
    case True
    with Cons.prems(3) [of a] show ?thesis by simp
  next
    case False
    with Cons show ?thesis by (metis find.simps(2) list.set_intros(2) set_ConsD)
  qed
qed simp

lemma kind_u16_eq [simp]: "kind_u16 k = kind_u16 l \<longleftrightarrow> k = l"
  by (rule iffI, drule arg_cong [of _ _ kind_from_u16]) (simp_all add: kind_from_u16_kind_u16)

lemma written_names: "map (\<lambda>t. (ot_kind t, ot_layer t)) (written_tensors outs)
    = map (\<lambda>t. (ot_kind t, ot_layer t)) outs"
proof -
  let ?n = "\<lambda>t. (ot_kind t, ot_layer t)" and ?z = "\<lambda>t. t\<lparr>ot_offset := 0\<rparr>"
  have strip: "map ?n (map ?z ts) = map ?n ts" for ts :: "out_tensor list" by simp
  show ?thesis
    using arg_cong [OF assign_offsets_map [of 0 outs], of "map ?n"]
    unfolding strip written_tensors_def .
qed

lemma written_member:
  assumes "t \<in> set outs"
  obtains t' where "t' \<in> set (written_tensors outs)" "ot_kind t' = ot_kind t" "ot_layer t' = ot_layer t"
    "ot_dtype t' = ot_dtype t" "ot_rows t' = ot_rows t" "ot_cols t' = ot_cols t" "ot_bytes t' = ot_bytes t"
proof -
  have "t\<lparr>ot_offset := 0\<rparr> \<in> set (map (\<lambda>t. t\<lparr>ot_offset := 0\<rparr>) (written_tensors outs))"
    using assms by (simp add: written_tensors_def assign_offsets_map)
  then obtain t' where t': "t' \<in> set (written_tensors outs)" "t'\<lparr>ot_offset := 0\<rparr> = t\<lparr>ot_offset := 0\<rparr>" by auto
  from t'(2) have "ot_kind t' = ot_kind t" "ot_layer t' = ot_layer t" "ot_dtype t' = ot_dtype t"
      "ot_rows t' = ot_rows t" "ot_cols t' = ot_cols t" "ot_bytes t' = ot_bytes t"
    by (cases t; cases t'; simp)+
  with t'(1) show thesis by (rule that)
qed

lemma written_tensor:
  assumes conv: "convertible m tok outs" and uniq: "distinct (map (\<lambda>t. (ot_kind t, ot_layer t)) outs)"
    and t: "t \<in> set outs"
  shows "\<exists>v. model_tensor (written_model addr m tok outs) (ot_kind t) (unat (ot_layer t)) = Ok v
    \<and> tv_bytes v = ot_bytes t \<and> tv_dtype v = ot_dtype t \<and> tv_rows v = unat (ot_rows t)
    \<and> tv_cols v = unat (ot_cols t)"
proof -
  obtain t' where t': "t' \<in> set (written_tensors outs)" "ot_kind t' = ot_kind t" "ot_layer t' = ot_layer t"
    "ot_dtype t' = ot_dtype t" "ot_rows t' = ot_rows t" "ot_cols t' = ot_cols t" "ot_bytes t' = ot_bytes t"
    using t by (rule written_member)
  have inj: "inj_on (\<lambda>t. (ot_kind t, ot_layer t)) (set (written_tensors outs))"
    using uniq unfolding written_names [symmetric, of outs] distinct_map ..
  let ?P = "\<lambda>e. te_kind e = kind_u16 (ot_kind t) \<and> unat (te_layer e) = unat (ot_layer t)"
  have find: "find ?P (md_entries (written_model addr m tok outs)) = Some (entry_of t')"
  proof (rule find_unique)
    show "entry_of t' \<in> set (md_entries (written_model addr m tok outs))"
      using t'(1) by (simp add: written_model_def)
    show "?P (entry_of t')" using t' by (simp add: entry_of_def)
    fix e
    assume "e \<in> set (md_entries (written_model addr m tok outs))" and P: "?P e"
    then obtain u where u: "u \<in> set (written_tensors outs)" "e = entry_of u"
      by (auto simp: written_model_def)
    with P t' have "(ot_kind u, ot_layer u) = (ot_kind t', ot_layer t')"
      by (auto simp: entry_of_def dest: unsigned_word_eqI)
    with inj u t'(1) show "e = entry_of t'" by (auto dest: inj_onD)
  qed
  let ?ds = "length (image 0 (written_tensors outs))"
  have ds: "?ds < usize_limit"
    using convertible_limit [OF conv] unfolding length_write_nrm [OF convertible_name [OF conv]] by linarith
  note h = image_holds [OF written_tensors_props(1) t'(1)]
  have "unat (of_nat (ot_offset t') :: u64) = ot_offset t'"
      "unat (of_nat (ot_offset t') + of_nat (length (ot_bytes t')) :: u64) = ot_offset t' + length (ot_bytes t')"
    using h ds unat_of_nat_less [where ?'a = 64, of "ot_offset t'"]
      unat_of_nat_less [where ?'a = 64, of "ot_offset t' + length (ot_bytes t')"]
    by (simp_all add: usize_limit_def)
  with find h show ?thesis
    by (simp add: model_tensor_def) (simp add: written_model_def entry_of_def t')
qed

lemma verifier_new_written:
  assumes conv: "convertible m tok outs"
  shows "\<exists>v. verifier_new (write_nrm m tok outs) = Ok v"
proof -
  let ?b = "write_nrm m tok outs" and ?sc = "written_sections m tok outs"
  note name = convertible_name [OF conv]
  note al = align_data_ge [of "192 + length tok + length outs * 32"]
  have big: "192 \<le> length ?b"
    using al by (simp add: length_write_nrm name)
  have "sub ?b 0 4 = NRM_MAGIC" "u32at ?b 4 = NRM_VERSION"
    using header_view_magic header_view_version by (simp_all add: write_nrm_eq name)
  moreover have "192 + length tok + length outs * 32 < usize_limit"
    using al convertible_limit [OF conv] unfolding length_write_nrm [OF name] by linarith
  moreover from arg_cong [OF written_sections_read [OF conv], of sc_tok_off]
      arg_cong [OF written_sections_read [OF conv], of sc_tok_size]
      arg_cong [OF written_sections_read [OF conv], of sc_table_off]
      arg_cong [OF written_sections_read [OF conv], of sc_tensor_count]
      arg_cong [OF written_sections_read [OF conv], of sc_data_off]
  have "unat (u64at ?b 136) = 192" "unat (u64at ?b 144) = length tok" "unat (u64at ?b 152) = 192 + length tok"
      "unat (u32at ?b 160) = length outs"
      "unat (u64at ?b 168) = align_data (192 + length tok + length outs * 32)"
    by (simp_all add: header_sections_def)
  ultimately show ?thesis
    using big al by (simp add: verifier_new_def Let_def checked_add_def checked_mul_def)
qed

lemma stream_written:
  assumes conv: "convertible m tok outs" and new: "verifier_new (write_nrm m tok outs) = Ok v"
    and cs: "concat cs = write_nrm m tok outs"
  shows "stream_verdict v cs = Ok ()"
proof -
  have "sections_fit (length (write_nrm m tok outs)) (header_sections (write_nrm m tok outs))"
    using written_fit [OF conv] by (simp add: written_sections_read [OF conv])
  from stream_verdict_eq [OF new this convertible_limit [OF conv] cs] show ?thesis
    using written_meta_crc [OF conv] written_regions(4) [OF convertible_name [OF conv], of tok outs]
    by (simp add: written_sections_read [OF conv])
qed

subsection \<open>Properties\<close>

text \<open>What the converter writes, the runtime's parser reads back: for coherent scalars and tensors
  whose byte length matches their shape, parsing the file succeeds with the same metadata and the
  same tokenizer blob, the data checksum verifies, the data section keeps the blob's 64-byte
  alignment, and looking up each tensor by kind and layer (no two share both) returns its dtype,
  its shape and exactly its bytes.\<close>

theorem written_model_reads_back:
  assumes "convertible m tok outs" and "distinct (map (\<lambda>t. (ot_kind t, ot_layer t)) outs)"
  shows "\<exists>M. model_parse addr (write_nrm m tok outs) = Ok M
    \<and> md_meta M = m \<and> md_tokenizer_blob M = tok \<and> fst (verify_data M)
    \<and> md_data_addr M mod 64 = addr mod 64
    \<and> (\<forall>t \<in> set outs. \<exists>v. model_tensor M (ot_kind t) (unat (ot_layer t)) = Ok v
          \<and> tv_bytes v = ot_bytes t \<and> tv_dtype v = ot_dtype t \<and> tv_rows v = unat (ot_rows t)
          \<and> tv_cols v = unat (ot_cols t))"
proof (intro exI conjI)
  let ?M = "written_model addr m tok outs"
  show "model_parse addr (write_nrm m tok outs) = Ok ?M" by (rule parse_written [OF assms(1)])
  show "md_meta ?M = m" "md_tokenizer_blob ?M = tok" by (simp_all add: written_model_def)
  show "fst (verify_data ?M)"
    by (simp add: verify_data_def Let_def verify_loop_crc written_model_def crc_checksum_def)
  show "md_data_addr ?M mod 64 = addr mod 64"
    using align_data_mod [of "192 + length tok + length outs * 32"]
    by (simp add: written_model_def flip: mod_add_right_eq [of addr _ 64])
  show "\<forall>t \<in> set outs. \<exists>v. model_tensor ?M (ot_kind t) (unat (ot_layer t)) = Ok v
      \<and> tv_bytes v = ot_bytes t \<and> tv_dtype v = ot_dtype t \<and> tv_rows v = unat (ot_rows t)
      \<and> tv_cols v = unat (ot_cols t)"
    using written_tensor [OF assms] by blast
qed

text \<open>C5: What the converter writes, the boot loader accepts: the streaming verifier starts on it and
  accepts it however it is chunked, and the loader returns the whole file for every firmware read
  size.\<close>

theorem written_model_loads:
  assumes "convertible m tok outs" and "concat cs = write_nrm m tok outs"
    and "reads_file (write_nrm m tok outs) rd"
  shows "(\<exists>v. verifier_new (write_nrm m tok outs) = Ok v \<and> stream_verdict v cs = Ok ())
    \<and> load False (Ok (length (write_nrm m tok outs))) True eof rd = Ok (write_nrm m tok outs)"
proof -
  obtain v where v: "verifier_new (write_nrm m tok outs) = Ok v"
    using verifier_new_written [OF assms(1)] by blast
  have "stream_verdict v cs = Ok ()" "stream_verdict v [write_nrm m tok outs] = Ok ()"
    using stream_written [OF assms(1) v] assms(2) by simp_all
  with v load_eq [OF verifier_new_ok(1) [OF v] assms(3), of eof] show ?thesis
    by (simp add: map_err_def)
qed

subsection \<open>A concrete model\<close>

text \<open>A one-tensor model on which the properties of the parser, the verifier and the loader apply.\<close>

definition tiny_meta :: model_meta where
  "tiny_meta = \<lparr>mt_arch = Qwen3, mt_dim = 1, mt_n_layers = 1, mt_n_heads = 1, mt_n_kv_heads = 1,
     mt_head_dim = 1, mt_ffn_dim = 1, mt_vocab = 1, mt_ctx_train = 16, mt_rope_theta = 0x47c35000,
     mt_norm_eps = 0x3727c5ac, mt_rope_factor = 0, mt_rope_low = 0, mt_rope_high = 0,
     mt_rope_orig_ctx = 0, mt_flags = FLAG_TIED_EMBEDDINGS, mt_embed_scale = 0x3f800000,
     mt_attn_scale = 0, mt_residual_scale = 0x3f800000, mt_logit_scale = 0x3f800000,
     mt_name = name_bytes [0x74, 0x69, 0x6e, 0x79]\<rparr>"

definition tiny_tensors :: "out_tensor list" where
  "tiny_tensors = [\<lparr>ot_kind = TokEmbed, ot_layer = 0, ot_dtype = F32, ot_rows = 1, ot_cols = 2,
     ot_bytes = [0, 0, 128, 63, 0, 0, 0, 64], ot_offset = 0\<rparr>]"

lemma tiny_convertible: "convertible tiny_meta [1, 2, 3] tiny_tensors"
proof -
  have "length (mt_name tiny_meta) = 48" by (simp add: tiny_meta_def)
  from length_write_nrm [OF this, of "[1, 2, 3]" tiny_tensors]
  have "length (write_nrm tiny_meta [1, 2, 3] tiny_tensors) < usize_limit"
    by (simp add: written_tensors_def tiny_tensors_def align_data_def div_ceil_def usize_limit_def Let_def)
  then show ?thesis
    by (simp add: convertible_def) (simp add: tiny_meta_def tiny_tensors_def scalars_bad_def f32_is_finite_def
        f32_lt_zero_def f32_le_zero_def f32_is_nan_def usize_limit_def)
qed

lemma tiny_reads: "reads_file F (\<lambda>p w. Ok (sub F p (p + w)))"
  by (auto simp: reads_file_def)

lemma written_model_reads_back_witness:
  "\<exists>M. model_parse 4096 (write_nrm tiny_meta [1, 2, 3] tiny_tensors) = Ok M \<and> fst (verify_data M)"
  using written_model_reads_back [OF tiny_convertible, of 4096] by (auto simp: tiny_tensors_def)

lemma written_model_loads_witness:
  "load False (Ok (length (write_nrm tiny_meta [1, 2, 3] tiny_tensors))) True ()
     (\<lambda>p w. Ok (sub (write_nrm tiny_meta [1, 2, 3] tiny_tensors) p (p + w)))
   = Ok (write_nrm tiny_meta [1, 2, 3] tiny_tensors)"
  using written_model_loads [OF tiny_convertible _ tiny_reads, of "[write_nrm tiny_meta [1, 2, 3] tiny_tensors]" "()"]
  by simp


lemma streaming_verdict_witness:
  "\<exists>v. verifier_new (write_nrm tiny_meta [1, 2, 3] tiny_tensors) = Ok v
     \<and> stream_verdict v [write_nrm tiny_meta [1, 2, 3] tiny_tensors] = Ok ()"
proof -
  let ?F = "write_nrm tiny_meta [1, 2, 3] tiny_tensors"
  obtain v where v: "verifier_new ?F = Ok v"
    using verifier_new_written [OF tiny_convertible] by blast
  have fit: "sections_fit (length ?F) (header_sections ?F)"
    using written_fit [OF tiny_convertible] by (simp add: written_sections_read [OF tiny_convertible])
  have "concat [?F] = ?F" by simp
  then have "stream_verdict v [?F] = Ok () \<longleftrightarrow>
      fst (verify_data (written_model 0 tiny_meta [1, 2, 3] tiny_tensors))"
    using streaming_verdict [OF v fit convertible_limit [OF tiny_convertible], THEN conjunct2]
      parse_written [OF tiny_convertible, of 0] by blast
  also have "\<dots>"
    by (simp add: verify_data_def Let_def verify_loop_crc written_model_def crc_checksum_def)
  finally show ?thesis using v by blast
qed

lemma load_is_one_shot_verification_witness:
  "load False (Ok (length (write_nrm tiny_meta [1, 2, 3] tiny_tensors))) True ()
     (\<lambda>p w. Ok (sub (write_nrm tiny_meta [1, 2, 3] tiny_tensors) p (p + min w 7)))
   = Ok (write_nrm tiny_meta [1, 2, 3] tiny_tensors)"
proof -
  let ?F = "write_nrm tiny_meta [1, 2, 3] tiny_tensors"
  obtain v where v: "verifier_new ?F = Ok v"
    using verifier_new_written [OF tiny_convertible] by blast
  have "reads_file ?F (\<lambda>p w. Ok (sub ?F p (p + min w 7)))"
    by (auto simp: reads_file_def intro!: exI [of _ "min w 7" for w])
  from load_is_one_shot_verification [OF verifier_new_ok(1) [OF v] this, of "()"] v
    stream_written [OF tiny_convertible v, of "[?F]"]
  show ?thesis by simp
qed

end
