(* ===== verification/Nr_Inet.thy ===== *)
theory Nr_Inet
  imports Nr_Prelude
begin

text \<open>
  The Internet checksum of \<^verbatim>\<open>crates/nr-net/src/lib.rs\<close>: the 32-bit partial sum over big-endian
  words, the end-around-carry loop, and the arithmetic of both modulo 65535. The lemmas say what
  storing a checksum in a zeroed field does to a later check, which is all the packet code needs.
\<close>

subsection \<open>The code\<close>

definition partial_sum :: "u32 \<Rightarrow> bytes \<Rightarrow> u32" where
  "partial_sum acc bs =
     (let s = foldl (\<lambda>s c. s + ucast (be16 (c ! 0) (c ! 1))) acc (chunks_exact 2 bs)
      in case chunks_rem 2 bs of [] \<Rightarrow> s | b # _ \<Rightarrow> s + push_bit 8 (ucast b))"

lemma fold_carry_less:
  fixes s :: u32
  assumes "drop_bit 16 s \<noteq> 0"
  shows "unat ((s AND 0xffff) + drop_bit 16 s) = unat s mod 65536 + unat s div 65536"
    and "unat s mod 65536 + unat s div 65536 < unat s"
proof -
  have s: "unat s < 2 ^ LENGTH(32)" by (rule unsigned_less)
  have lo: "unat (s AND 0xffff) = unat s mod 65536"
  proof -
    have "s AND 0xffff = take_bit 16 s"
      unfolding take_bit_eq_mask mask_eq_exp_minus_1 by simp
    then show ?thesis by (simp only: unsigned_take_bit_eq) (simp add: take_bit_eq_mod)
  qed
  have hi: "unat (drop_bit 16 s) = unat s div 65536"
    unfolding unat_drop_bit_eq by (simp add: drop_bit_eq_div)
  show "unat ((s AND 0xffff) + drop_bit 16 s) = unat s mod 65536 + unat s div 65536"
    using s by (simp add: unat_word_ariths lo hi)
  have "unat s div 65536 \<noteq> 0" using assms hi by (metis unat_eq_0)
  then have "unat s div 65536 < unat s div 65536 * 65536" by simp
  then show "unat s mod 65536 + unat s div 65536 < unat s"
    using div_mult_mod_eq [of "unat s" 65536] by linarith
qed

function fold_carry :: "u32 \<Rightarrow> u32" where
  "fold_carry s = (if drop_bit 16 s \<noteq> 0 then fold_carry ((s AND 0xffff) + drop_bit 16 s) else s)"
  by pat_completeness auto
termination
  by (relation "measure unat") (simp_all only: in_measure wf_measure fold_carry_less not_False_eq_True)

declare fold_carry.simps [simp del]

definition finalize_sum :: "u32 \<Rightarrow> u16" where
  "finalize_sum s = NOT (ucast (fold_carry s))"

definition inet_checksum :: "bytes \<Rightarrow> u16" where
  "inet_checksum bs = finalize_sum (partial_sum 0 bs)"

definition transport_checksum :: "bytes \<Rightarrow> bytes \<Rightarrow> byte \<Rightarrow> bytes \<Rightarrow> u16" where
  "transport_checksum source destination protocol packet =
     (let s1 = partial_sum 0 source;
          s2 = partial_sum s1 destination;
          s3 = s2 + ucast protocol + of_nat (length packet)
      in finalize_sum (partial_sum s3 packet))"

subsection \<open>The sum as a number\<close>

fun be_sum :: "bytes \<Rightarrow> nat" where
  "be_sum [] = 0"
| "be_sum [a] = 256 * unat a"
| "be_sum (a # b # bs) = 256 * unat a + unat b + be_sum bs"

lemma unat_byte_less: "unat (b :: byte) < 256"
  using unsigned_less [of b, where ?'a = nat] by simp

lemma be_sum_bound: "be_sum bs \<le> 65535 * ((length bs + 1) div 2)"
proof (induction bs rule: be_sum.induct)
  case (2 a)
  then show ?case using unat_byte_less [of a] by simp
next
  case (3 a b bs)
  then show ?case using unat_byte_less [of a] unat_byte_less [of b] by simp
qed simp

lemma be_sum_append: "even (length xs) \<Longrightarrow> be_sum (xs @ ys) = be_sum xs + be_sum ys"
  by (induction xs rule: be_sum.induct) simp_all

lemma unat_be16: "unat (be16 a b) = 256 * unat a + unat b"
proof -
  have "be16 a b = push_bit 8 (ucast a) + ucast b"
    unfolding be16_def by (rule disjunctive_add [symmetric]) (auto simp: bit_simps)
  moreover have "unat (push_bit 8 (ucast a :: u16)) = 256 * unat a"
    using unat_byte_less [of a] by (simp add: push_bit_eq_mult unat_word_ariths unsigned_ucast_eq take_bit_nat_eq_self)
  moreover have "unat (ucast b :: u16) = unat b"
    using unat_byte_less [of b] by (simp add: unsigned_ucast_eq take_bit_nat_eq_self)
  ultimately show ?thesis
    using unat_byte_less [of a] unat_byte_less [of b] by (simp add: unat_word_ariths)
qed

lemma be_sum_to_be16: "be_sum (to_be16 v) = unat v"
proof -
  have "to_be16 v = [ucast (drop_bit 8 v), ucast v]" by (rule to_be16_def)
  then show ?thesis
    using unat_be16 [of "ucast (drop_bit 8 v)" "ucast v"] by (simp add: be16_to_be16)
qed

lemma partial_sum_cons:
  "partial_sum acc (a # b # bs) = partial_sum (acc + ucast (be16 a b)) bs"
  using chunks_exact_append [of "[a, b]" 2 bs] chunks_rem_append [of "[a, b]" 2 bs]
  by (simp add: partial_sum_def)

lemma partial_sum_base [simp]:
  "partial_sum acc [] = acc" "partial_sum acc [a] = acc + push_bit 8 (ucast a)"
  by (simp_all add: partial_sum_def)

lemma unat_partial_sum:
  "unat acc + be_sum bs < 2 ^ 32 \<Longrightarrow> unat (partial_sum acc bs) = unat acc + be_sum bs"
proof (induction bs arbitrary: acc rule: be_sum.induct)
  case (2 a)
  have "unat (push_bit 8 (ucast a :: u32)) = 256 * unat a"
    using unat_byte_less [of a] by (simp add: push_bit_eq_mult unat_word_ariths unsigned_ucast_eq take_bit_nat_eq_self)
  with 2 show ?case by (simp add: unat_word_ariths)
next
  case (3 a b bs)
  have "unat (ucast (be16 a b) :: u32) = 256 * unat a + unat b"
    using unat_byte_less [of a] unat_byte_less [of b]
    by (simp add: unsigned_ucast_eq take_bit_nat_eq_self unat_be16)
  with 3 show ?case by (simp add: partial_sum_cons unat_word_ariths)
qed simp

subsection \<open>Modulo 65535\<close>

lemma fold_carry_spec:
  "unat (fold_carry s) < 65536 \<and> unat (fold_carry s) mod 65535 = unat s mod 65535
   \<and> (unat (fold_carry s) = 0 \<longleftrightarrow> unat s = 0)"
proof (induction s rule: fold_carry.induct)
  case (1 s)
  show ?case
  proof (cases "drop_bit 16 s = 0")
    case True
    then have "drop_bit 16 (unat s) = 0" by (metis unat_0 unat_drop_bit_eq)
    then have "unat s < 65536" by (simp add: drop_bit_eq_div div_eq_0_iff)
    with True show ?thesis by (subst (1 2 3) fold_carry.simps) simp
  next
    case False
    let ?s = "(s AND 0xffff) + drop_bit 16 s"
    define q r where "q = unat s div 65536" and "r = unat s mod 65536"
    have u: "unat ?s = r + q"
      using fold_carry_less(1) [OF False] by (simp add: q_def r_def)
    have sq: "unat s = r + q + q * 65535"
      using div_mult_mod_eq [of "unat s" 65536] by (simp add: q_def r_def)
    have "unat s mod 65535 = unat ?s mod 65535"
      unfolding sq u by (rule mod_mult_self1)
    moreover have "unat ?s = 0 \<longleftrightarrow> unat s = 0" using sq u by auto
    ultimately show ?thesis
      using 1 [OF False] False by (subst (1 2 3) fold_carry.simps) simp
  qed
qed

lemma unat_finalize: "unat (finalize_sum s) = 65535 - unat (fold_carry s)"
proof -
  have "unat (ucast (fold_carry s) :: u16) = unat (fold_carry s)"
    using fold_carry_spec [of s] by (simp add: unsigned_ucast_eq take_bit_nat_eq_self)
  moreover have "NOT (c :: u16) = 65535 - c" for c
    by (simp add: not_eq_complement)
  moreover have "unat (65535 - c :: u16) = 65535 - unat c" for c
  proof -
    have "c \<le> 65535" using unsigned_less [of c, where ?'a = nat] by (simp add: word_le_nat_alt)
    then show ?thesis by (simp add: unat_sub)
  qed
  ultimately show ?thesis by (simp add: finalize_sum_def)
qed

lemma finalize_zero_iff: "finalize_sum s = 0 \<longleftrightarrow> unat s mod 65535 = 0 \<and> unat s \<noteq> 0"
proof -
  let ?f = "unat (fold_carry s)"
  have f: "?f < 65536" "?f mod 65535 = unat s mod 65535" "?f = 0 \<longleftrightarrow> unat s = 0"
    using fold_carry_spec [of s] by simp_all
  have "finalize_sum s = 0 \<longleftrightarrow> ?f = 65535"
    using unat_finalize [of s] f(1) by (simp add: unat_eq_0 [symmetric]) linarith
  also have "\<dots> \<longleftrightarrow> ?f mod 65535 = 0 \<and> ?f \<noteq> 0"
  proof (cases "?f = 65535")
    case False
    with f(1) have "?f < 65535" by simp
    then show ?thesis by auto
  qed simp
  finally show ?thesis using f by simp
qed

lemma finalize_complement: "(unat s + unat (finalize_sum s)) mod 65535 = 0"
proof -
  have f: "unat (fold_carry s) < 65536" "unat (fold_carry s) mod 65535 = unat s mod 65535"
    using fold_carry_spec [of s] by simp_all
  have "(unat s + unat (finalize_sum s)) mod 65535
      = (unat (fold_carry s) mod 65535 + (65535 - unat (fold_carry s))) mod 65535"
    unfolding unat_finalize f(2) by (simp add: mod_add_left_eq)
  also have "\<dots> = 0"
    using f(1) by (cases "unat (fold_carry s) = 65535") simp_all
  finally show ?thesis .
qed

subsection \<open>Storing a checksum\<close>

text \<open>A 16-bit field at an even offset contributes its value to the sum, so a block whose checksum
  field was zero checks to zero once the computed checksum is stored in it.\<close>

lemma be_sum_field:
  assumes "even (length xs)"
  shows "be_sum (xs @ to_be16 v @ ys) = be_sum (xs @ [0, 0] @ ys) + unat v"
  using assms by (simp add: be_sum_append be_sum_to_be16)

lemma stored_checksum_valid:
  assumes even: "even (length xs)" and acc: "unat acc + be_sum (xs @ [0, 0] @ ys) < 2 ^ 31"
  shows "finalize_sum (partial_sum acc
    (xs @ to_be16 (finalize_sum (partial_sum acc (xs @ [0, 0] @ ys))) @ ys)) = 0"
proof -
  let ?z = "xs @ [0, 0] @ ys"
  let ?c = "finalize_sum (partial_sum acc ?z)"
  have z: "unat (partial_sum acc ?z) = unat acc + be_sum ?z"
    by (rule unat_partial_sum) (use acc in simp)
  have "unat ?c < 65536" using unsigned_less [of ?c, where ?'a = nat] by simp
  with acc have "unat acc + be_sum (xs @ to_be16 ?c @ ys) < 2 ^ 32"
    unfolding be_sum_field [OF even] by simp
  then have s: "unat (partial_sum acc (xs @ to_be16 ?c @ ys)) = unat (partial_sum acc ?z) + unat ?c"
    by (simp only: unat_partial_sum be_sum_field [OF even] z)
  have "unat (partial_sum acc ?z) + unat ?c \<noteq> 0"
  proof
    assume "unat (partial_sum acc ?z) + unat ?c = 0"
    then have "unat (partial_sum acc ?z) = 0" and "unat ?c = 0"
      unfolding add_is_0 by blast+
    moreover from this(2) have "?c = 0" by (rule unsigned_word_eqI [OF trans]) simp
    ultimately show False using finalize_zero_iff [of "partial_sum acc ?z"] by blast
  qed
  then show ?thesis
    unfolding finalize_zero_iff s using finalize_complement by blast
qed

text \<open>The same with a stored zero replaced by its complement, as UDP does: the sum is unchanged modulo
  65535 and still not zero.\<close>

lemma stored_nonzero_checksum_valid:
  assumes even: "even (length xs)" and acc: "unat acc + be_sum (xs @ [0, 0] @ ys) < 2 ^ 31"
    and c: "c = (let s = finalize_sum (partial_sum acc (xs @ [0, 0] @ ys)) in if s = 0 then 0xffff else s)"
  shows "finalize_sum (partial_sum acc (xs @ to_be16 c @ ys)) = 0" and "c \<noteq> 0"
proof -
  let ?z = "xs @ [0, 0] @ ys"
  let ?s = "finalize_sum (partial_sum acc ?z)"
  show "c \<noteq> 0" by (simp add: c Let_def)
  show "finalize_sum (partial_sum acc (xs @ to_be16 c @ ys)) = 0"
  proof (cases "?s = 0")
    case False
    then have "c = ?s" by (simp add: c Let_def)
    then show ?thesis using stored_checksum_valid [OF even acc] by simp
  next
    case True
    then have c: "c = 0xffff" by (simp add: c Let_def)
    have z: "unat (partial_sum acc ?z) = unat acc + be_sum ?z"
      by (rule unat_partial_sum) (use acc in simp)
    have cu: "unat c = 65535" by (simp add: c)
    have "unat acc + be_sum (xs @ to_be16 c @ ys) < 2 ^ 32"
      using acc unfolding be_sum_field [OF even] cu by simp
    then have "unat (partial_sum acc (xs @ to_be16 c @ ys)) = unat (partial_sum acc ?z) + 65535"
      by (simp only: unat_partial_sum be_sum_field [OF even] z cu)
    moreover have "unat (partial_sum acc ?z) mod 65535 = 0"
      using True finalize_zero_iff by blast
    ultimately show ?thesis unfolding finalize_zero_iff by simp
  qed
qed

end
