(* ===== verification/Nr_Net.thy ===== *)
theory Nr_Net
  imports Nr_Inet
begin

text \<open>
  The Ethernet, ARP, IPv4, ICMP and UDP stack of \<^verbatim>\<open>crates/nr-net/src/lib.rs\<close>: its state (the
  configuration, a fixed cache of neighbours replaced round robin, the IP identification), frame
  reception with the reply it writes, and UDP transmission with address resolution.

  The const-generic cache size is the length of the neighbour list. An operation with an output
  buffer returns the buffer; an operation that can fail after changing the state returns the state.
\<close>

subsection \<open>Addresses, configuration, state\<close>

definition ETH_HEADER :: nat where "ETH_HEADER = 14"
definition IPV4_HEADER :: nat where "IPV4_HEADER = 20"
definition UDP_HEADER :: nat where "UDP_HEADER = 8"
definition ARP_PACKET :: nat where "ARP_PACKET = 28"
definition ETHERTYPE_IPV4 :: u16 where "ETHERTYPE_IPV4 = 0x0800"
definition ETHERTYPE_ARP :: u16 where "ETHERTYPE_ARP = 0x0806"
definition IP_PROTOCOL_ICMP :: byte where "IP_PROTOCOL_ICMP = 1"
definition IP_PROTOCOL_UDP :: byte where "IP_PROTOCOL_UDP = 17"

lemma net_consts [simp]:
  "ETH_HEADER = 14" "IPV4_HEADER = 20" "UDP_HEADER = 8" "ARP_PACKET = 28"
  "ETHERTYPE_IPV4 = 0x0800" "ETHERTYPE_ARP = 0x0806" "IP_PROTOCOL_ICMP = 1" "IP_PROTOCOL_UDP = 17"
  by (simp_all add: ETH_HEADER_def IPV4_HEADER_def UDP_HEADER_def ARP_PACKET_def ETHERTYPE_IPV4_def
      ETHERTYPE_ARP_def IP_PROTOCOL_ICMP_def IP_PROTOCOL_UDP_def)

type_synonym mac_address = bytes
type_synonym ipv4_address = bytes

definition MAC_BROADCAST :: mac_address where "MAC_BROADCAST = replicate 6 0xff"
definition MAC_ZERO :: mac_address where "MAC_ZERO = replicate 6 0"
definition IP_BROADCAST :: ipv4_address where "IP_BROADCAST = replicate 4 255"
definition IP_UNSPECIFIED :: ipv4_address where "IP_UNSPECIFIED = replicate 4 0"

definition as_u32 :: "ipv4_address \<Rightarrow> u32" where
  "as_u32 a = be32 (a ! 0) (a ! 1) (a ! 2) (a ! 3)"

record net_config =
  cf_mac :: mac_address
  cf_address :: ipv4_address
  cf_subnet_mask :: ipv4_address
  cf_gateway :: ipv4_address

datatype net_error = BufferTooSmall | Truncated | Unsupported | InvalidHeader | InvalidChecksum

datatype send_outcome = Datagram nat | NeighborDiscovery nat

record udp_datagram =
  ud_source :: ipv4_address
  ud_destination :: ipv4_address
  ud_source_port :: u16
  ud_destination_port :: u16
  ud_payload :: bytes

datatype receive_event = NoEvent | Reply nat | NeighborLearned ipv4_address mac_address | Udp udp_datagram

record neighbor =
  nb_ip :: ipv4_address
  nb_mac :: mac_address
  nb_valid :: bool

record net_stack =
  st_config :: net_config
  st_neighbors :: "neighbor list"
  st_next :: nat
  st_identification :: u16

definition neighbor_default :: neighbor where
  "neighbor_default = \<lparr>nb_ip = IP_UNSPECIFIED, nb_mac = MAC_ZERO, nb_valid = False\<rparr>"

definition stack_new :: "nat \<Rightarrow> net_config \<Rightarrow> net_stack" where
  "stack_new n cfg = \<lparr>st_config = cfg, st_neighbors = replicate n neighbor_default, st_next = 0,
     st_identification = 1\<rparr>"

definition set_config :: "net_stack \<Rightarrow> net_config \<Rightarrow> net_stack" where
  "set_config s cfg = s\<lparr>st_config := cfg,
     st_neighbors := replicate (length (st_neighbors s)) neighbor_default, st_next := 0\<rparr>"

subsection \<open>The neighbour cache\<close>

definition neighbor_lookup :: "net_stack \<Rightarrow> ipv4_address \<Rightarrow> mac_address option" where
  "neighbor_lookup s ip =
     map_option nb_mac (find (\<lambda>e. nb_valid e \<and> nb_ip e = ip) (st_neighbors s))"

text \<open>The first valid entry of that address gets the new MAC.\<close>

primrec update_first :: "ipv4_address \<Rightarrow> mac_address \<Rightarrow> neighbor list \<Rightarrow> neighbor list option" where
  "update_first ip mac [] = None"
| "update_first ip mac (e # es) =
     (if nb_valid e \<and> nb_ip e = ip then Some (e\<lparr>nb_mac := mac\<rparr> # es)
      else map_option (\<lambda>es'. e # es') (update_first ip mac es))"

definition learn :: "net_stack \<Rightarrow> ipv4_address \<Rightarrow> mac_address \<Rightarrow> ('e, net_stack) outcome" where
  "learn s ip mac =
     (if ip = IP_UNSPECIFIED \<or> mac = MAC_ZERO \<or> mac = MAC_BROADCAST then Ok s
      else case update_first ip mac (st_neighbors s) of
        Some es \<Rightarrow> Ok (s\<lparr>st_neighbors := es\<rparr>)
      | None \<Rightarrow>
          if length (st_neighbors s) \<noteq> 0
          then if st_next s < length (st_neighbors s)
               then Ok (s\<lparr>st_neighbors := (st_neighbors s)[st_next s :=
                            \<lparr>nb_ip = ip, nb_mac = mac, nb_valid = True\<rparr>],
                          st_next := (st_next s + 1) mod length (st_neighbors s)\<rparr>)
               else Panic
          else Ok s)"

subsection \<open>Writing frames\<close>

definition same_subnet :: "ipv4_address \<Rightarrow> ipv4_address \<Rightarrow> ipv4_address \<Rightarrow> bool" where
  "same_subnet a b m \<longleftrightarrow> as_u32 a AND as_u32 m = as_u32 b AND as_u32 m"

definition write_ethernet ::
    "bytes \<Rightarrow> mac_address \<Rightarrow> mac_address \<Rightarrow> u16 \<Rightarrow> ('e, bytes) outcome" where
  "write_ethernet out destination source ethertype =
     write_all out [(0, destination), (6, source), (12, to_be16 ethertype)]"

definition write_arp :: "net_config \<Rightarrow> mac_address \<Rightarrow> ipv4_address \<Rightarrow> mac_address \<Rightarrow> u16
    \<Rightarrow> bytes \<Rightarrow> bytes \<times> (net_error, nat) outcome" where
  "write_arp cfg ethernet_dst target_ip target_mac operation out =
     (let len = ETH_HEADER + ARP_PACKET in
      if length out < len then (out, Err BufferTooSmall)
      else case obind (write_ethernet out ethernet_dst (cf_mac cfg) ETHERTYPE_ARP) (\<lambda>out1.
             obind (slice out1 ETH_HEADER len) (\<lambda>arp.
             obind (write_all arp [(0, to_be16 1), (2, to_be16 ETHERTYPE_IPV4), (4, [6]), (5, [4]),
                (6, to_be16 operation), (8, cf_mac cfg), (14, cf_address cfg), (18, target_mac),
                (24, target_ip)]) (\<lambda>arp'. write_at out1 ETH_HEADER arp'))) of
           Ok out' \<Rightarrow> (out', Ok len) | Err e \<Rightarrow> (out, Err e) | Panic \<Rightarrow> (out, Panic))"

definition write_arp_request :: "net_config \<Rightarrow> ipv4_address \<Rightarrow> bytes \<Rightarrow> bytes \<times> (net_error, nat) outcome" where
  "write_arp_request cfg target out = write_arp cfg MAC_BROADCAST target MAC_ZERO 1 out"

definition write_arp_reply ::
    "net_config \<Rightarrow> ipv4_address \<Rightarrow> mac_address \<Rightarrow> bytes \<Rightarrow> bytes \<times> (net_error, nat) outcome" where
  "write_arp_reply cfg target_ip target_mac out = write_arp cfg target_mac target_ip target_mac 2 out"

definition write_ipv4_header ::
    "bytes \<Rightarrow> nat \<Rightarrow> u16 \<Rightarrow> byte \<Rightarrow> ipv4_address \<Rightarrow> ipv4_address \<Rightarrow> ('e, bytes) outcome" where
  "write_ipv4_header header payload_len identification protocol source destination =
     obind (write_all header [(0, replicate (length header) 0), (0, [0x45]),
        (2, to_be16 (of_nat (IPV4_HEADER + payload_len))), (4, to_be16 identification),
        (6, to_be16 0x4000), (8, [64]), (9, [protocol]), (12, source), (16, destination)]) (\<lambda>h.
     write_at h 10 (to_be16 (inet_checksum h)))"

text \<open>The datagram part of \<open>send_udp\<close>: Ethernet and IPv4 headers, then the UDP section with the
  checksum computed over its zeroed field.\<close>

definition write_udp :: "net_stack \<Rightarrow> mac_address \<Rightarrow> ipv4_address \<Rightarrow> u16 \<Rightarrow> u16 \<Rightarrow> bytes \<Rightarrow> bytes
    \<Rightarrow> (net_error, bytes) outcome" where
  "write_udp s destination_mac destination source_port destination_port payload out =
     (let total = ETH_HEADER + IPV4_HEADER + UDP_HEADER + length payload;
          src = cf_address (st_config s) in
      obind (write_ethernet out destination_mac (cf_mac (st_config s)) ETHERTYPE_IPV4) (\<lambda>out1.
      obind (slice out1 ETH_HEADER (ETH_HEADER + IPV4_HEADER)) (\<lambda>h.
      obind (write_ipv4_header h (UDP_HEADER + length payload) (st_identification s) IP_PROTOCOL_UDP
               src destination) (\<lambda>h'.
      obind (write_at out1 ETH_HEADER h') (\<lambda>out2.
      obind (slice out2 (ETH_HEADER + IPV4_HEADER) total) (\<lambda>udp.
      obind (write_all udp [(0, to_be16 source_port), (2, to_be16 destination_port),
               (4, to_be16 (of_nat (UDP_HEADER + length payload))), (6, [0, 0]), (UDP_HEADER, payload)]) (\<lambda>udp1.
      let sum = transport_checksum src destination IP_PROTOCOL_UDP udp1 in
      obind (write_at udp1 6 (to_be16 (if sum = 0 then 0xffff else sum))) (\<lambda>udp2.
      write_at out2 (ETH_HEADER + IPV4_HEADER) udp2))))))))"

definition next_hop :: "net_stack \<Rightarrow> ipv4_address \<Rightarrow> ipv4_address" where
  "next_hop s destination =
     (if same_subnet (cf_address (st_config s)) destination (cf_subnet_mask (st_config s))
      then destination else cf_gateway (st_config s))"

definition send_udp :: "net_stack \<Rightarrow> ipv4_address \<Rightarrow> u16 \<Rightarrow> u16 \<Rightarrow> bytes \<Rightarrow> bytes
    \<Rightarrow> net_stack \<times> bytes \<times> (net_error, send_outcome) outcome" where
  "send_udp s destination source_port destination_port payload out =
     (let total = ETH_HEADER + IPV4_HEADER + UDP_HEADER + length payload in
      if length payload > 65535 - IPV4_HEADER - UDP_HEADER then (s, out, Err Unsupported)
      else
        let hop = next_hop s destination;
            target = (if destination = IP_BROADCAST then Some MAC_BROADCAST else neighbor_lookup s hop)
        in case target of
            None \<Rightarrow> (case write_arp_request (st_config s) hop out of
               (out', r) \<Rightarrow> (s, out', obind r (\<lambda>len. Ok (NeighborDiscovery len))))
          | Some destination_mac \<Rightarrow>
              if length out < total then (s, out, Err BufferTooSmall)
              else let s' = s\<lparr>st_identification := st_identification s + 1\<rparr>
                   in case write_udp s' destination_mac destination source_port destination_port payload out of
                        Ok out' \<Rightarrow> (s', out', Ok (Datagram total))
                      | Err e \<Rightarrow> (s', out, Err e) | Panic \<Rightarrow> (s', out, Panic))"

subsection \<open>Receiving frames\<close>

definition read_mac :: "bytes \<Rightarrow> nat \<Rightarrow> ('e, mac_address) outcome" where
  "read_mac bs a = slice bs a (a + 6)"

definition read_ip :: "bytes \<Rightarrow> nat \<Rightarrow> ('e, ipv4_address) outcome" where
  "read_ip bs a = slice bs a (a + 4)"

definition parse_udp :: "ipv4_address \<Rightarrow> ipv4_address \<Rightarrow> bytes \<Rightarrow> (net_error, udp_datagram) outcome" where
  "parse_udp source destination packet =
     (if length packet < UDP_HEADER then Err Truncated
      else obind (read_be16 packet 4) (\<lambda>len.
      if unat len < UDP_HEADER \<or> unat len > length packet then Err Truncated
      else obind (slice packet 0 (unat len)) (\<lambda>p.
      obind (read_be16 p 6) (\<lambda>wire_checksum.
      if wire_checksum \<noteq> 0 \<and> transport_checksum source destination IP_PROTOCOL_UDP p \<noteq> 0
      then Err InvalidChecksum
      else obind (read_be16 p 0) (\<lambda>sp. obind (read_be16 p 2) (\<lambda>dp.
        obind (slice p UDP_HEADER (length p)) (\<lambda>payload.
        Ok \<lparr>ud_source = source, ud_destination = destination, ud_source_port = sp,
            ud_destination_port = dp, ud_payload = payload\<rparr>)))))))"

text \<open>The echo reply: the request copied, addresses swapped, both checksums recomputed over zeroed
  fields.\<close>

definition write_echo_reply :: "net_config \<Rightarrow> bytes \<Rightarrow> nat \<Rightarrow> nat \<Rightarrow> bytes \<Rightarrow> (net_error, bytes) outcome" where
  "write_echo_reply cfg frame icmp_start fin response =
     obind (slice frame 0 fin) (\<lambda>req.
     obind (write_at response 0 req) (\<lambda>r1.
     obind (read_mac frame 6) (\<lambda>source_mac.
     obind (write_ethernet r1 source_mac (cf_mac cfg) ETHERTYPE_IPV4) (\<lambda>r2.
     obind (slice r2 ETH_HEADER icmp_start) (\<lambda>h.
     obind (read_ip frame (ETH_HEADER + 12)) (\<lambda>source.
     obind (write_all h [(12, cf_address cfg), (16, source), (10, [0, 0])]) (\<lambda>h1.
     obind (write_at h1 10 (to_be16 (inet_checksum h1))) (\<lambda>h2.
     obind (write_at r2 ETH_HEADER h2) (\<lambda>r3.
     obind (slice r3 icmp_start fin) (\<lambda>reply.
     obind (write_all reply [(0, [0]), (2, [0, 0])]) (\<lambda>reply1.
     obind (write_at reply1 2 (to_be16 (inet_checksum reply1))) (\<lambda>reply2.
     write_at r3 icmp_start reply2))))))))))))"

definition receive_icmp :: "net_stack \<Rightarrow> bytes \<Rightarrow> nat \<Rightarrow> nat \<Rightarrow> bytes
    \<Rightarrow> bytes \<times> (net_error, receive_event) outcome" where
  "receive_icmp s frame header_len total_len response =
     (let fin = ETH_HEADER + total_len; icmp_start = ETH_HEADER + header_len in
      if length frame < fin \<or> total_len < header_len + 8 then (response, Err Truncated)
      else case obind (slice frame icmp_start fin) (\<lambda>icmp.
             if inet_checksum icmp \<noteq> 0 then Err InvalidChecksum
             else obind (index icmp 0) (\<lambda>t. obind (index icmp 1) (\<lambda>c.
             if t \<noteq> 8 \<or> c \<noteq> 0 then Ok None
             else if length response < fin then Err BufferTooSmall
             else obind (write_echo_reply (st_config s) frame icmp_start fin response) (\<lambda>r. Ok (Some r))))) of
           Ok None \<Rightarrow> (response, Ok NoEvent) | Ok (Some r) \<Rightarrow> (r, Ok (Reply fin))
         | Err e \<Rightarrow> (response, Err e) | Panic \<Rightarrow> (response, Panic))"

definition receive_arp :: "net_stack \<Rightarrow> mac_address \<Rightarrow> bytes \<Rightarrow> bytes
    \<Rightarrow> net_stack \<times> bytes \<times> (net_error, receive_event) outcome" where
  "receive_arp s ethernet_source packet response =
     (if length packet < ARP_PACKET then (s, response, Err Truncated)
      else case obind (read_be16 packet 0) (\<lambda>hw. obind (read_be16 packet 2) (\<lambda>proto.
          obind (index packet 4) (\<lambda>hl. obind (index packet 5) (\<lambda>pl.
          if hw \<noteq> 1 \<or> proto \<noteq> ETHERTYPE_IPV4 \<or> hl \<noteq> 6 \<or> pl \<noteq> 4 then Err Unsupported
          else obind (read_be16 packet 6) (\<lambda>operation.
          obind (read_mac packet 8) (\<lambda>sender_mac.
          obind (read_ip packet 14) (\<lambda>sender_ip.
          obind (read_ip packet 24) (\<lambda>target_ip.
          if sender_mac \<noteq> ethernet_source then Err InvalidHeader
          else obind (learn s sender_ip sender_mac) (\<lambda>s'.
            Ok (s', operation, sender_mac, sender_ip, target_ip)))))))))) of
        Err e \<Rightarrow> (s, response, Err e) | Panic \<Rightarrow> (s, response, Panic)
      | Ok (s', operation, sender_mac, sender_ip, target_ip) \<Rightarrow>
          if operation = 1 \<and> target_ip = cf_address (st_config s')
          then (case write_arp_reply (st_config s') sender_ip sender_mac response of
                  (response', r) \<Rightarrow> (s', response', obind r (\<lambda>len. Ok (Reply len))))
          else if operation = 2 then (s', response, Ok (NeighborLearned sender_ip sender_mac))
          else (s', response, Ok NoEvent))"

definition receive_ipv4 :: "net_stack \<Rightarrow> mac_address \<Rightarrow> bytes \<Rightarrow> bytes
    \<Rightarrow> net_stack \<times> bytes \<times> (net_error, receive_event) outcome" where
  "receive_ipv4 s source_mac frame response =
     (case obind (slice frame ETH_HEADER (length frame)) (\<lambda>packet.
          if length packet < IPV4_HEADER then Err InvalidHeader
          else obind (index packet 0) (\<lambda>b0.
          if drop_bit 4 b0 \<noteq> 4 then Err InvalidHeader
          else let header_len = unat (b0 AND 0x0f) * 4 in
          if header_len < IPV4_HEADER \<or> length packet < header_len then Err InvalidHeader
          else obind (read_be16 packet 2) (\<lambda>tl. let total_len = unat tl in
          if total_len < header_len \<or> length packet < total_len then Err Truncated
          else obind (slice packet 0 header_len) (\<lambda>header.
          if inet_checksum header \<noteq> 0 then Err InvalidChecksum
          else obind (read_be16 packet 6) (\<lambda>frag.
          if frag AND 0x3fff \<noteq> 0 then Err Unsupported
          else obind (read_ip packet 12) (\<lambda>source. obind (read_ip packet 16) (\<lambda>destination.
          if destination \<noteq> cf_address (st_config s) \<and> destination \<noteq> IP_BROADCAST then Ok None
          else obind (learn s source source_mac) (\<lambda>s'.
            obind (slice packet header_len total_len) (\<lambda>payload.
            obind (index packet 9) (\<lambda>protocol.
            Ok (Some (s', protocol, source, destination, header_len, total_len, payload)))))))))))) of
        Err e \<Rightarrow> (s, response, Err e) | Panic \<Rightarrow> (s, response, Panic)
      | Ok None \<Rightarrow> (s, response, Ok NoEvent)
      | Ok (Some (s', protocol, source, destination, header_len, total_len, payload)) \<Rightarrow>
          if protocol = IP_PROTOCOL_ICMP then (s', receive_icmp s' frame header_len total_len response)
          else if protocol = IP_PROTOCOL_UDP
          then (s', response, obind (parse_udp source destination payload) (\<lambda>d. Ok (Udp d)))
          else (s', response, Ok NoEvent))"

definition stack_receive :: "net_stack \<Rightarrow> bytes \<Rightarrow> bytes
    \<Rightarrow> net_stack \<times> bytes \<times> (net_error, receive_event) outcome" where
  "stack_receive s frame response =
     (if length frame < ETH_HEADER then (s, response, Err Truncated)
      else case obind (read_mac frame 0) (\<lambda>dst. obind (read_mac frame 6) (\<lambda>src.
             obind (read_be16 frame 12) (\<lambda>ethertype.
             obind (slice frame ETH_HEADER (length frame)) (\<lambda>packet. Ok (dst, src, ethertype, packet))))) of
           Err e \<Rightarrow> (s, response, Err e) | Panic \<Rightarrow> (s, response, Panic)
         | Ok (destination_mac, source_mac, ethertype, packet) \<Rightarrow>
             if destination_mac \<noteq> cf_mac (st_config s) \<and> destination_mac \<noteq> MAC_BROADCAST
             then (s, response, Ok NoEvent)
             else if ethertype = ETHERTYPE_ARP then receive_arp s source_mac packet response
             else if ethertype = ETHERTYPE_IPV4 then receive_ipv4 s source_mac frame response
             else (s, response, Ok NoEvent))"

subsection \<open>Consecutive writes\<close>

primrec pieces :: "nat \<Rightarrow> 'a list list \<Rightarrow> (nat \<times> 'a list) list" where
  "pieces a [] = []"
| "pieces a (p # ps) = (a, p) # pieces (a + length p) ps"

lemma put_all_pieces:
  "a + length (concat ps) \<le> length xs \<Longrightarrow>
     put_all xs (pieces a ps) = take a xs @ concat ps @ drop (a + length (concat ps)) xs"
proof (induction ps arbitrary: a xs)
  case (Cons p ps)
  have len: "length (put_at xs a p) = length xs"
    using Cons.prems by (intro length_put_at) simp
  have tk: "take (a + length p) (put_at xs a p) = take a xs @ p"
    using Cons.prems by (simp add: put_at_def)
  have dr: "drop (a + length p + k) (put_at xs a p) = drop (a + length p + k) xs" for k
    using Cons.prems by (simp add: put_at_def ac_simps)
  show ?case
    using Cons.IH [of "a + length p" "put_at xs a p"] Cons.prems len tk dr [of "length (concat ps)"]
    by (simp add: add.assoc)
qed simp

lemma pieces_fit: "w \<in> set (pieces a ps) \<Longrightarrow> a + length (concat ps) \<le> n \<Longrightarrow> fst w + length (snd w) \<le> n"
  by (induction ps arbitrary: a) (auto simp: add.assoc)

lemma write_pieces:
  assumes "ws = pieces 0 ps" and "length (concat ps) \<le> length xs"
  shows "write_all xs ws = Ok (concat ps @ drop (length (concat ps)) xs)"
proof -
  have "write_all xs (pieces 0 ps) = Ok (put_all xs (pieces 0 ps))"
    using pieces_fit [of _ 0 ps "length xs"] assms(2) by (intro write_all_ok) simp
  with put_all_pieces [of 0 ps xs] assms show ?thesis by simp
qed

lemma write_at_append:
  "length ys = length zs \<Longrightarrow> a = length xs \<Longrightarrow> write_at (xs @ ys @ r) a zs = Ok (xs @ zs @ r)"
  by (simp add: write_at_def put_at_def)

lemma slice_append:
  "a = length xs \<Longrightarrow> b = length xs + length ys \<Longrightarrow> slice (xs @ ys @ r) a b = Ok ys"
  by (simp add: slice_def sub_def)

subsection \<open>Frames as byte lists\<close>

definition eth_frame :: "mac_address \<Rightarrow> mac_address \<Rightarrow> u16 \<Rightarrow> bytes" where
  "eth_frame dst src ethertype = dst @ src @ to_be16 ethertype"

lemma length_eth_frame [simp]: "length dst = 6 \<Longrightarrow> length src = 6 \<Longrightarrow> length (eth_frame dst src e) = 14"
  by (simp add: eth_frame_def)

lemma write_ethernet_eq:
  "length dst = 6 \<Longrightarrow> length src = 6 \<Longrightarrow> 14 \<le> length out \<Longrightarrow>
     write_ethernet out dst src e = Ok (eth_frame dst src e @ drop 14 out)"
  unfolding write_ethernet_def eth_frame_def
  by (subst write_pieces [of _ "[dst, src, to_be16 e]"]) simp_all

definition arp_packet :: "net_config \<Rightarrow> u16 \<Rightarrow> mac_address \<Rightarrow> ipv4_address \<Rightarrow> bytes" where
  "arp_packet cfg operation target_mac target_ip =
     to_be16 1 @ to_be16 0x0800 @ [6, 4] @ to_be16 operation @ cf_mac cfg @ cf_address cfg
     @ target_mac @ target_ip"

definition config_ok :: "net_config \<Rightarrow> bool" where
  "config_ok cfg \<longleftrightarrow> length (cf_mac cfg) = 6 \<and> length (cf_address cfg) = 4
     \<and> length (cf_subnet_mask cfg) = 4 \<and> length (cf_gateway cfg) = 4"

lemma length_arp_packet [simp]:
  "config_ok cfg \<Longrightarrow> length tm = 6 \<Longrightarrow> length ti = 4 \<Longrightarrow> length (arp_packet cfg opn tm ti) = 28"
  by (simp add: arp_packet_def config_ok_def)

lemma write_arp_eq:
  assumes cfg: "config_ok cfg" and len: "length dst = 6" "length tm = 6" "length ti = 4"
  shows "write_arp cfg dst ti tm opn out =
    (if length out < 42 then (out, Err BufferTooSmall)
     else (eth_frame dst (cf_mac cfg) 0x0806 @ arp_packet cfg opn tm ti @ drop 42 out, Ok 42))"
proof (cases "length out < 42")
  case False
  let ?e = "eth_frame dst (cf_mac cfg) 0x0806"
  have mac: "length (cf_mac cfg) = 6" "length (cf_address cfg) = 4" using cfg by (simp_all add: config_ok_def)
  have e: "write_ethernet out dst (cf_mac cfg) 0x0806 = (Ok (?e @ drop 14 out) :: (net_error, bytes) outcome)"
    using False len mac by (intro write_ethernet_eq) simp_all
  have split: "drop 14 out = take 28 (drop 14 out) @ drop 42 out"
    using append_take_drop_id [of 28 "drop 14 out"] by simp
  have sl: "slice (?e @ drop 14 out) 14 42 = (Ok (take 28 (drop 14 out)) :: (net_error, bytes) outcome)"
    using False len mac by (subst split) (rule slice_append; simp)
  have w: "write_all (take 28 (drop 14 out)) [(0, to_be16 1), (2, to_be16 0x0800), (4, [6]), (5, [4]),
      (6, to_be16 opn), (8, cf_mac cfg), (14, cf_address cfg), (18, tm), (24, ti)]
      = (Ok (arp_packet cfg opn tm ti) :: (net_error, bytes) outcome)"
    using False len mac unfolding arp_packet_def
    by (subst write_pieces [of _ "[to_be16 1, to_be16 0x0800, [6], [4], to_be16 opn, cf_mac cfg,
          cf_address cfg, tm, ti]"]) simp_all
  have at: "write_at (?e @ drop 14 out) 14 (arp_packet cfg opn tm ti)
      = (Ok (?e @ arp_packet cfg opn tm ti @ drop 42 out) :: (net_error, bytes) outcome)"
    using False len mac cfg by (subst split) (rule write_at_append; simp)
  show ?thesis
    using False e sl w at by (simp add: write_arp_def)
qed (simp add: write_arp_def)

definition ipv4_header :: "nat \<Rightarrow> u16 \<Rightarrow> byte \<Rightarrow> ipv4_address \<Rightarrow> ipv4_address \<Rightarrow> bytes \<Rightarrow> bytes" where
  "ipv4_header payload_len ident protocol src dst ck =
     [0x45, 0] @ to_be16 (of_nat (20 + payload_len)) @ to_be16 ident @ to_be16 0x4000 @ [64, protocol]
     @ ck @ src @ dst"

definition ipv4_sealed :: "nat \<Rightarrow> u16 \<Rightarrow> byte \<Rightarrow> ipv4_address \<Rightarrow> ipv4_address \<Rightarrow> bytes" where
  "ipv4_sealed n ident protocol src dst =
     ipv4_header n ident protocol src dst (to_be16 (inet_checksum (ipv4_header n ident protocol src dst [0, 0])))"

definition udp_segment :: "u16 \<Rightarrow> u16 \<Rightarrow> bytes \<Rightarrow> bytes \<Rightarrow> bytes" where
  "udp_segment sp dp payload ck =
     to_be16 sp @ to_be16 dp @ to_be16 (of_nat (8 + length payload)) @ ck @ payload"

definition udp_checksum :: "ipv4_address \<Rightarrow> ipv4_address \<Rightarrow> u16 \<Rightarrow> u16 \<Rightarrow> bytes \<Rightarrow> u16" where
  "udp_checksum src dst sp dp payload =
     (let s = transport_checksum src dst 17 (udp_segment sp dp payload [0, 0]) in if s = 0 then 0xffff else s)"

definition udp_sealed :: "ipv4_address \<Rightarrow> ipv4_address \<Rightarrow> u16 \<Rightarrow> u16 \<Rightarrow> bytes \<Rightarrow> bytes" where
  "udp_sealed src dst sp dp payload = udp_segment sp dp payload (to_be16 (udp_checksum src dst sp dp payload))"

lemma length_ipv4_header [simp]:
  "length src = 4 \<Longrightarrow> length dst = 4 \<Longrightarrow> length ck = 2 \<Longrightarrow> length (ipv4_header n i p src dst ck) = 20"
  "length src = 4 \<Longrightarrow> length dst = 4 \<Longrightarrow> length (ipv4_sealed n i p src dst) = 20"
  by (simp_all add: ipv4_header_def ipv4_sealed_def)

lemma length_udp_segment [simp]:
  "length ck = 2 \<Longrightarrow> length (udp_segment sp dp payload ck) = 8 + length payload"
  "length (udp_sealed src dst sp dp payload) = 8 + length payload"
  by (simp_all add: udp_segment_def udp_sealed_def)

lemma length_4_lists: "length xs = 4 \<Longrightarrow> \<exists>a b c d. xs = [a, b, c, d]"
  by (auto simp: numeral_eq_Suc length_Suc_conv)

lemma write_ipv4_header_eq:
  assumes "length header = 20" and "length src = 4" and "length dst = 4"
  shows "write_ipv4_header header n i p src dst = (Ok (ipv4_sealed n i p src dst) :: ('e, bytes) outcome)"
proof -
  obtain a b c d where src: "src = [a, b, c, d]" using length_4_lists [OF assms(2)] by blast
  obtain a' b' c' d' where dst: "dst = [a', b', c', d']" using length_4_lists [OF assms(3)] by blast
  let ?z = "[0, 0, 0, 0, 0, 0, 0, 0, 0, 0, 0, 0, 0, 0, 0, 0, 0, 0, 0, 0] :: bytes"
  let ?ws = "[(0, [0x45]), (2, to_be16 (of_nat (20 + n))), (4, to_be16 i), (6, to_be16 0x4000),
      (8, [64]), (9, [p]), (12, src), (16, dst)]"
  have zeros: "put_at header 0 (replicate 20 0) = ?z"
    using assms(1) by (simp add: put_at_def numeral_eq_Suc)
  have "put_all ?z ?ws = ipv4_header n i p src dst [0, 0]"
    by (simp add: ipv4_header_def src dst to_be16_def put_at_def)
  then have "put_all header ((0, replicate (length header) 0) # ?ws) = ipv4_header n i p src dst [0, 0]"
    using zeros assms(1) by simp
  moreover have "write_all header ((0, replicate (length header) 0) # ?ws)
      = (Ok (put_all header ((0, replicate (length header) 0) # ?ws)) :: ('e, bytes) outcome)"
    using assms by (intro write_all_ok) simp
  ultimately have "write_ipv4_header header n i p src dst = (write_at (ipv4_header n i p src dst [0, 0]) 10
      (to_be16 (inet_checksum (ipv4_header n i p src dst [0, 0]))) :: ('e, bytes) outcome)"
    by (simp only: write_ipv4_header_def net_consts obind.simps)
  also have "\<dots> = Ok (ipv4_sealed n i p src dst)"
    unfolding ipv4_sealed_def
    by (simp add: ipv4_header_def src dst to_be16_def write_at_def put_at_def)
  finally show ?thesis .
qed

definition udp_frame :: "net_stack \<Rightarrow> mac_address \<Rightarrow> ipv4_address \<Rightarrow> u16 \<Rightarrow> u16 \<Rightarrow> bytes \<Rightarrow> bytes" where
  "udp_frame s mac dst sp dp payload =
     eth_frame mac (cf_mac (st_config s)) 0x0800
     @ ipv4_sealed (8 + length payload) (st_identification s) 17 (cf_address (st_config s)) dst
     @ udp_sealed (cf_address (st_config s)) dst sp dp payload"

lemma write_udp_eq:
  assumes cfg: "config_ok (st_config s)" and mac: "length mac = 6" and dst: "length dst = 4"
    and out: "42 + length payload \<le> length out"
  shows "write_udp s mac dst sp dp payload out
    = Ok (udp_frame s mac dst sp dp payload @ drop (42 + length payload) out)"
proof -
  let ?src = "cf_address (st_config s)" and ?n = "length payload"
  let ?e = "eth_frame mac (cf_mac (st_config s)) 0x0800"
  let ?h = "ipv4_sealed (8 + ?n) (st_identification s) 17 ?src dst"
  have len: "length ?src = 4" "length (cf_mac (st_config s)) = 6" using cfg by (simp_all add: config_ok_def)
  have e: "write_ethernet out mac (cf_mac (st_config s)) 0x0800 = (Ok (?e @ drop 14 out) :: (net_error, bytes) outcome)"
    using out len mac by (intro write_ethernet_eq) simp_all
  have d1: "drop 14 out = take 20 (drop 14 out) @ drop 34 out"
    using append_take_drop_id [of 20 "drop 14 out"] by simp
  have d2: "drop 34 out = take (8 + ?n) (drop 34 out) @ drop (42 + ?n) out"
    using append_take_drop_id [of "8 + ?n" "drop 34 out"] by simp
  have s1: "slice (?e @ drop 14 out) 14 34 = (Ok (take 20 (drop 14 out)) :: (net_error, bytes) outcome)"
    using out len mac by (subst d1) (rule slice_append; simp)
  have h: "write_ipv4_header (take 20 (drop 14 out)) (8 + ?n) (st_identification s) 17 ?src dst
      = (Ok ?h :: (net_error, bytes) outcome)"
    using out len dst by (intro write_ipv4_header_eq) simp_all
  have w1: "write_at (?e @ drop 14 out) 14 ?h = (Ok (?e @ ?h @ drop 34 out) :: (net_error, bytes) outcome)"
    using out len mac dst by (subst d1) (rule write_at_append; simp)
  define pre where "pre = ?e @ ?h"
  have eh: "length pre = 34" using len mac dst by (simp add: pre_def)
  have s2: "slice (pre @ drop 34 out) 34 (42 + ?n)
      = (Ok (take (8 + ?n) (drop 34 out)) :: (net_error, bytes) outcome)"
    using out eh by (subst d2) (rule slice_append; simp)
  have u: "write_all (take (8 + ?n) (drop 34 out)) [(0, to_be16 sp), (2, to_be16 dp),
      (4, to_be16 (of_nat (8 + ?n))), (6, [0, 0]), (8, payload)]
      = (Ok (udp_segment sp dp payload [0, 0]) :: (net_error, bytes) outcome)"
    using out unfolding udp_segment_def
    by (subst write_pieces [of _ "[to_be16 sp, to_be16 dp, to_be16 (of_nat (8 + ?n)), [0, 0], payload]"]) simp_all
  have c: "write_at (udp_segment sp dp payload [0, 0]) 6 (to_be16 (udp_checksum ?src dst sp dp payload))
      = (Ok (udp_sealed ?src dst sp dp payload) :: (net_error, bytes) outcome)"
    using write_at_append [of "[0, 0]" "to_be16 (udp_checksum ?src dst sp dp payload)" 6
        "to_be16 sp @ to_be16 dp @ to_be16 (of_nat (8 + ?n))" payload]
    by (simp add: udp_segment_def udp_sealed_def)
  have w2: "write_at (pre @ drop 34 out) 34 (udp_sealed ?src dst sp dp payload)
      = (Ok (pre @ udp_sealed ?src dst sp dp payload @ drop (42 + ?n) out) :: (net_error, bytes) outcome)"
    using out eh by (subst d2) (rule write_at_append; simp)
  have pre: "?e @ ?h @ r = pre @ r" for r by (simp add: pre_def)
  have "write_udp s mac dst sp dp payload out
      = Ok (pre @ udp_sealed ?src dst sp dp payload @ drop (42 + ?n) out)"
    unfolding write_udp_def Let_def net_consts using e s1 h w1 s2 u c w2
    by (simp add: udp_checksum_def Let_def pre)
  then show ?thesis by (simp add: udp_frame_def pre_def)
qed

subsection \<open>The neighbour cache as an interface\<close>

text \<open>What the protocol code relies on: a stored binding is found, nothing else is invented.\<close>

locale neighbor_cache =
  fixes inv :: "'s \<Rightarrow> bool"
    and look :: "'s \<Rightarrow> 'k \<Rightarrow> 'v option"
    and put :: "'s \<Rightarrow> 'k \<Rightarrow> 'v \<Rightarrow> 's"
    and storable :: "'s \<Rightarrow> 'k \<Rightarrow> 'v \<Rightarrow> bool"
  assumes inv_put: "inv s \<Longrightarrow> inv (put s k v)"
    and storable_put: "storable (put s k v) k' v' = storable s k' v'"
    and look_put: "inv s \<Longrightarrow> storable s k v \<Longrightarrow> look (put s k v) k = Some v"
    and look_put_other: "inv s \<Longrightarrow> k' \<noteq> k \<Longrightarrow> look (put s k v) k' = None \<or> look (put s k v) k' = look s k'"
    and look_put_refused: "inv s \<Longrightarrow> \<not> storable s k v \<Longrightarrow> put s k v = s"
begin

definition put_all :: "'s \<Rightarrow> ('k \<times> 'v) list \<Rightarrow> 's" where
  "put_all s bs = foldl (\<lambda>s b. put s (fst b) (snd b)) s bs"

lemma put_all_simps [simp]:
  "put_all s [] = s" "put_all s (b # bs) = put_all (put s (fst b) (snd b)) bs"
  by (simp_all add: put_all_def)

lemma inv_put_all: "inv s \<Longrightarrow> inv (put_all s bs)"
  by (induction bs arbitrary: s) (simp_all add: inv_put)

text \<open>A cached value is the last one stored for its key, or was there before.\<close>

lemma no_stale:
  "inv s \<Longrightarrow> look (put_all s bs) k = Some v \<Longrightarrow>
     (case map_of (rev (filter (\<lambda>b. storable s (fst b) (snd b)) bs)) k of
        Some w \<Rightarrow> v = w | None \<Rightarrow> look s k = Some v)"
proof (induction bs arbitrary: s)
  case (Cons b bs)
  obtain k' w where b: "b = (k', w)" by (cases b)
  have f: "filter (\<lambda>b. storable (put s k' w) (fst b) (snd b)) bs = filter (\<lambda>b. storable s (fst b) (snd b)) bs"
    by (simp add: storable_put)
  from Cons.IH [OF inv_put [OF Cons.prems(1)], of k' w] Cons.prems(2) b
  have ih: "case map_of (rev (filter (\<lambda>b. storable s (fst b) (snd b)) bs)) k of
        Some w' \<Rightarrow> v = w' | None \<Rightarrow> look (put s k' w) k = Some v"
    by (simp add: f)
  show ?case
  proof (cases "map_of (rev (filter (\<lambda>b. storable s (fst b) (snd b)) bs)) k")
    case (Some u)
    with ih show ?thesis by (simp add: b map_add_def)
  next
    case None
    with ih have l: "look (put s k' w) k = Some v" by simp
    show ?thesis
    proof (cases "storable s k' w")
      case False
      with l None look_put_refused [OF Cons.prems(1) False] show ?thesis by (simp add: b)
    next
      case True
      with l None look_put [OF Cons.prems(1) True] look_put_other [OF Cons.prems(1), of k k' w]
      show ?thesis by (cases "k = k'") (auto simp: b map_add_def)
    qed
  qed
qed simp

end

subsection \<open>The stack's cache\<close>

definition valid_ips :: "neighbor list \<Rightarrow> ipv4_address list" where
  "valid_ips es = map nb_ip (filter nb_valid es)"

definition stack_ok :: "net_stack \<Rightarrow> bool" where
  "stack_ok s \<longleftrightarrow> config_ok (st_config s)
     \<and> (st_neighbors s = [] \<or> st_next s < length (st_neighbors s))
     \<and> distinct (valid_ips (st_neighbors s))"

definition acceptable :: "net_stack \<Rightarrow> ipv4_address \<Rightarrow> mac_address \<Rightarrow> bool" where
  "acceptable s ip mac \<longleftrightarrow> ip \<noteq> IP_UNSPECIFIED \<and> mac \<noteq> MAC_ZERO \<and> mac \<noteq> MAC_BROADCAST \<and> st_neighbors s \<noteq> []"

definition learned :: "net_stack \<Rightarrow> ipv4_address \<Rightarrow> mac_address \<Rightarrow> net_stack" where
  "learned s ip mac = (case (learn s ip mac :: (net_error, net_stack) outcome) of Ok s' \<Rightarrow> s' | Err e \<Rightarrow> s | Panic \<Rightarrow> s)"

lemma update_first_None: "update_first ip mac es = None \<longleftrightarrow> ip \<notin> set (valid_ips es)"
  by (induction es) (auto simp: valid_ips_def)

lemma update_first_Some:
  "update_first ip mac es = Some es' \<Longrightarrow>
     length es' = length es \<and> valid_ips es' = valid_ips es
     \<and> (\<forall>k. map_option nb_mac (find (\<lambda>e. nb_valid e \<and> nb_ip e = k) es')
           = (if k = ip then Some mac else map_option nb_mac (find (\<lambda>e. nb_valid e \<and> nb_ip e = k) es)))"
proof (induction es arbitrary: es')
  case (Cons e es)
  then show ?case
    by (auto simp: valid_ips_def split: if_splits)
qed simp

lemma valid_ips_update:
  assumes "distinct (valid_ips es)" and "ip \<notin> set (valid_ips es)" and "n < length es"
  shows "distinct (valid_ips (es[n := \<lparr>nb_ip = ip, nb_mac = mac, nb_valid = True\<rparr>]))"
proof -
  have es: "es = take n es @ es ! n # drop (Suc n) es"
    using assms(3) by (rule id_take_nth_drop)
  let ?x = "\<lparr>nb_ip = ip, nb_mac = mac, nb_valid = True\<rparr>"
  have upd: "es[n := ?x] = take n es @ ?x # drop (Suc n) es"
    using assms(3) by (rule upd_conv_take_nth_drop)
  have split: "valid_ips (as @ b # cs) = valid_ips as @ (if nb_valid b then [nb_ip b] else []) @ valid_ips cs"
    for as b cs by (simp add: valid_ips_def)
  have "distinct (valid_ips (take n es) @ (if nb_valid (es ! n) then [nb_ip (es ! n)] else []) @ valid_ips (drop (Suc n) es))"
      "ip \<notin> set (valid_ips (take n es) @ (if nb_valid (es ! n) then [nb_ip (es ! n)] else []) @ valid_ips (drop (Suc n) es))"
    using assms(1,2) unfolding split [symmetric] es [symmetric] by simp_all
  then show ?thesis
    unfolding upd split by auto
qed

lemma find_distinct:
  assumes "distinct (valid_ips es)"
  shows "map_option nb_mac (find (\<lambda>e. nb_valid e \<and> nb_ip e = k) es) = Some v
    \<longleftrightarrow> (\<exists>e \<in> set es. nb_valid e \<and> nb_ip e = k \<and> nb_mac e = v)"
  using assms
proof (induction es)
  case (Cons e es)
  show ?case
  proof (cases "nb_valid e \<and> nb_ip e = k")
    case True
    have fresh: "nb_ip e \<notin> nb_ip ` {x \<in> set es. nb_valid x}"
      using Cons.prems True by (simp add: valid_ips_def)
    have "\<not> (nb_valid x \<and> nb_ip x = k)" if "x \<in> set es" for x
    proof
      assume x: "nb_valid x \<and> nb_ip x = k"
      then have "nb_ip x \<in> nb_ip ` {x \<in> set es. nb_valid x}" using that by blast
      with fresh x True show False by simp
    qed
    with True show ?thesis by auto
  next
    case False
    with Cons show ?thesis by (auto simp: valid_ips_def split: if_splits)
  qed
qed simp

lemma learn_ok: "stack_ok s \<Longrightarrow> learn s ip mac = Ok (learned s ip mac)"
  by (auto simp: learn_def learned_def stack_ok_def split: option.splits)

lemma learned_cases:
  assumes ok: "stack_ok s"
  obtains "\<not> acceptable s ip mac" "learned s ip mac = s"
  | es where "acceptable s ip mac" "update_first ip mac (st_neighbors s) = Some es"
      "learned s ip mac = s\<lparr>st_neighbors := es\<rparr>"
  | "acceptable s ip mac" "ip \<notin> set (valid_ips (st_neighbors s))" "st_next s < length (st_neighbors s)"
      "learned s ip mac = s\<lparr>st_neighbors := (st_neighbors s)[st_next s :=
          \<lparr>nb_ip = ip, nb_mac = mac, nb_valid = True\<rparr>], st_next := (st_next s + 1) mod length (st_neighbors s)\<rparr>"
proof (cases "acceptable s ip mac")
  case False
  then have "learned s ip mac = s"
    by (auto simp: learned_def learn_def acceptable_def split: option.splits)
  with False show ?thesis by (rule that(1))
next
  case True
  then have acc: "ip \<noteq> IP_UNSPECIFIED" "mac \<noteq> MAC_ZERO" "mac \<noteq> MAC_BROADCAST" "st_neighbors s \<noteq> []"
    by (simp_all add: acceptable_def)
  show ?thesis
  proof (cases "update_first ip mac (st_neighbors s)")
    case (Some es)
    with acc show ?thesis by (intro that(2) [OF True]) (simp_all add: learned_def learn_def)
  next
    case None
    then have "ip \<notin> set (valid_ips (st_neighbors s))" by (simp add: update_first_None)
    with acc ok None show ?thesis
      by (intro that(3) [OF True]) (simp_all add: learned_def learn_def stack_ok_def)
  qed
qed

lemma learned_config [simp]: "st_config (learned s ip mac) = st_config s"
  "length (st_neighbors (learned s ip mac)) = length (st_neighbors s)"
  "st_identification (learned s ip mac) = st_identification s"
  by (auto simp: learned_def learn_def split: option.splits outcome.splits if_splits dest: update_first_Some)

lemma stack_ok_learned: "stack_ok s \<Longrightarrow> stack_ok (learned s ip mac)"
proof -
  assume ok: "stack_ok s"
  show ?thesis
  proof (cases rule: learned_cases [OF ok, of ip mac])
    case (2 es)
    with ok update_first_Some [OF 2(2)] show ?thesis by (auto simp: stack_ok_def)
  next
    case 3
    then have "st_neighbors s \<noteq> []" by auto
    with 3 ok valid_ips_update [of "st_neighbors s" ip "st_next s" mac] show ?thesis
      by (auto simp: stack_ok_def)
  qed (use ok in simp)
qed

lemma lookup_learned: "stack_ok s \<Longrightarrow> acceptable s ip mac \<Longrightarrow> neighbor_lookup (learned s ip mac) ip = Some mac"
proof -
  assume ok: "stack_ok s" and acc: "acceptable s ip mac"
  show ?thesis
  proof (cases rule: learned_cases [OF ok, of ip mac])
    case (2 es)
    with update_first_Some [OF 2(2)] show ?thesis by (simp add: neighbor_lookup_def)
  next
    case 3
    have "stack_ok (learned s ip mac)" using ok by (rule stack_ok_learned)
    then have d: "distinct (valid_ips (st_neighbors (learned s ip mac)))" by (simp add: stack_ok_def)
    have "\<lparr>nb_ip = ip, nb_mac = mac, nb_valid = True\<rparr> \<in> set (st_neighbors (learned s ip mac))"
      using 3 by (simp add: set_update_memI)
    then show ?thesis
      unfolding neighbor_lookup_def find_distinct [OF d] by (intro bexI) simp_all
  qed (use acc in simp)
qed

lemma lookup_learned_other:
  assumes ok: "stack_ok s" and k: "k \<noteq> ip"
  shows "neighbor_lookup (learned s ip mac) k = None
    \<or> neighbor_lookup (learned s ip mac) k = neighbor_lookup s k"
proof (cases rule: learned_cases [OF ok, of ip mac])
  case (2 es)
  with update_first_Some [OF 2(2)] k show ?thesis by (simp add: neighbor_lookup_def)
next
  case 3
  have d: "distinct (valid_ips (st_neighbors (learned s ip mac)))" "distinct (valid_ips (st_neighbors s))"
    using ok stack_ok_learned [OF ok] by (simp_all add: stack_ok_def)
  have "neighbor_lookup s k = Some v" if "neighbor_lookup (learned s ip mac) k = Some v" for v
  proof -
    from that obtain e where e: "e \<in> set (st_neighbors (learned s ip mac))" "nb_valid e" "nb_ip e = k" "nb_mac e = v"
      unfolding neighbor_lookup_def find_distinct [OF d(1)] by blast
    then have "e \<in> set (st_neighbors s)"
      using 3 k set_update_subset_insert [of "st_neighbors s" "st_next s"] by fastforce
    with e show ?thesis unfolding neighbor_lookup_def find_distinct [OF d(2)] by blast
  qed
  then show ?thesis by (cases "neighbor_lookup (learned s ip mac) k") auto
qed simp

interpretation arp: neighbor_cache stack_ok neighbor_lookup learned acceptable
proof
  fix s k v k' v'
  show "stack_ok s \<Longrightarrow> stack_ok (learned s k v)" by (rule stack_ok_learned)
  have "st_neighbors (learned s k v) = [] \<longleftrightarrow> st_neighbors s = []"
    using learned_config(2) [of s k v] by (metis length_0_conv)
  then show "acceptable (learned s k v) k' v' = acceptable s k' v'" by (simp add: acceptable_def)
  show "stack_ok s \<Longrightarrow> acceptable s k v \<Longrightarrow> neighbor_lookup (learned s k v) k = Some v"
    by (rule lookup_learned)
  show "stack_ok s \<Longrightarrow> k' \<noteq> k \<Longrightarrow> neighbor_lookup (learned s k v) k' = None
      \<or> neighbor_lookup (learned s k v) k' = neighbor_lookup s k'"
    by (rule lookup_learned_other)
  show "stack_ok s \<Longrightarrow> \<not> acceptable s k v \<Longrightarrow> learned s k v = s"
    by (auto simp: learned_def learn_def acceptable_def split: option.splits)
qed

subsection \<open>Receiving what was written\<close>

lemma ipv4_header_split:
  "ipv4_header n i p src dst ck = ([0x45, 0] @ to_be16 (of_nat (20 + n)) @ to_be16 i @ to_be16 0x4000 @ [64, p])
     @ ck @ src @ dst"
  by (simp add: ipv4_header_def)

lemma ipv4_sealed_checksum:
  assumes "length src = 4" and "length dst = 4"
  shows "inet_checksum (ipv4_sealed n i p src dst) = 0"
proof -
  let ?xs = "[0x45, 0] @ to_be16 (of_nat (20 + n)) @ to_be16 i @ to_be16 0x4000 @ [64, p]"
  have "length (?xs @ [0, 0] @ src @ dst) = 20" using assms by simp
  then have "be_sum (?xs @ [0, 0] @ src @ dst) \<le> 655350"
    using be_sum_bound [of "?xs @ [0, 0] @ src @ dst"] by simp
  then show ?thesis
    using stored_checksum_valid [of ?xs 0 "src @ dst"]
    unfolding ipv4_sealed_def inet_checksum_def ipv4_header_split by simp
qed

lemma ipv4_sealed_fields:
  assumes "length src = 4" and "length dst = 4"
  shows "index (ipv4_sealed n i p src dst @ r) 0 = Ok 0x45"
    and "read_be16 (ipv4_sealed n i p src dst @ r) 2 = Ok (of_nat (20 + n))"
    and "read_be16 (ipv4_sealed n i p src dst @ r) 6 = Ok 0x4000"
    and "index (ipv4_sealed n i p src dst @ r) 9 = Ok p"
    and "slice (ipv4_sealed n i p src dst @ r) 0 20 = Ok (ipv4_sealed n i p src dst)"
    and "read_ip (ipv4_sealed n i p src dst @ r) 12 = Ok src"
    and "read_ip (ipv4_sealed n i p src dst @ r) 16 = Ok dst"
proof -
  obtain a b c d where src: "src = [a, b, c, d]" using length_4_lists [OF assms(1)] by blast
  obtain a' b' c' d' where dst: "dst = [a', b', c', d']" using length_4_lists [OF assms(2)] by blast
  show "index (ipv4_sealed n i p src dst @ r) 0 = Ok 0x45"
    "index (ipv4_sealed n i p src dst @ r) 9 = Ok p"
    by (simp_all add: ipv4_sealed_def ipv4_header_def to_be16_def index_def)
  show "read_be16 (ipv4_sealed n i p src dst @ r) 2 = Ok (of_nat (20 + n))"
    "read_be16 (ipv4_sealed n i p src dst @ r) 6 = Ok 0x4000"
    by (simp_all add: ipv4_sealed_def ipv4_header_def to_be16_def src dst be16_to_be16 del: of_nat_add)
      (simp_all add: be16_def)
  show "slice (ipv4_sealed n i p src dst @ r) 0 20 = Ok (ipv4_sealed n i p src dst)"
    using assms by (simp add: slice_def sub_def)
  show "read_ip (ipv4_sealed n i p src dst @ r) 12 = Ok src"
    "read_ip (ipv4_sealed n i p src dst @ r) 16 = Ok dst"
    by (simp_all add: read_ip_def slice_def sub_def ipv4_sealed_def ipv4_header_def to_be16_def src dst)
qed

lemma udp_sealed_checksum:
  assumes "length src = 4" and "length dst = 4" and "length payload \<le> 65507"
  shows "transport_checksum src dst 17 (udp_sealed src dst sp dp payload) = 0"
    and "udp_checksum src dst sp dp payload \<noteq> 0"
proof -
  let ?xs = "to_be16 sp @ to_be16 dp @ to_be16 (of_nat (8 + length payload) :: u16)"
  define acc where "acc = partial_sum (partial_sum 0 src) dst + ucast (17 :: byte) + of_nat (8 + length payload)"
  have b: "be_sum src \<le> 131070" "be_sum dst \<le> 131070"
    using be_sum_bound [of src] be_sum_bound [of dst] assms(1,2) by simp_all
  have u: "unat (partial_sum (partial_sum 0 src) dst) = be_sum src + be_sum dst"
    using b by (simp add: unat_partial_sum)
  have n: "unat (of_nat (8 + length payload) :: u32) = 8 + length payload"
    by (subst unat_of_nat) (use assms(3) in simp)
  have "unat acc = be_sum src + be_sum dst + 17 + (8 + length payload)"
    using b assms(3) unfolding acc_def unat_word_ariths u n by simp
  then have a: "unat acc \<le> 327672" using b assms(3) by linarith
  have len: "length (?xs @ [0, 0] @ payload) = 8 + length payload" by simp
  have "be_sum (?xs @ [0, 0] @ payload) \<le> 65535 * ((8 + length payload + 1) div 2)"
    using be_sum_bound [of "?xs @ [0, 0] @ payload"] unfolding len .
  also have "\<dots> \<le> 65535 * 32758"
    using assms(3) by (intro mult_le_mono2) linarith
  finally have bound: "unat acc + be_sum (?xs @ [0, 0] @ payload) < 2 ^ 31"
    using a by simp
  have t: "transport_checksum src dst 17 pkt = finalize_sum (partial_sum acc pkt)"
    if "length pkt = 8 + length payload" for pkt
    using that by (simp add: transport_checksum_def acc_def)
  have seg: "udp_segment sp dp payload ck = ?xs @ ck @ payload" for ck
    by (simp add: udp_segment_def)
  have c: "udp_checksum src dst sp dp payload
      = (let s = finalize_sum (partial_sum acc (?xs @ [0, 0] @ payload)) in if s = 0 then 0xffff else s)"
    using t [of "udp_segment sp dp payload [0, 0]"] by (simp add: udp_checksum_def seg)
  note v = stored_nonzero_checksum_valid [OF _ bound c]
  show "udp_checksum src dst sp dp payload \<noteq> 0" using v(2) by simp
  show "transport_checksum src dst 17 (udp_sealed src dst sp dp payload) = 0"
    using v(1) t [of "udp_sealed src dst sp dp payload"] by (simp add: udp_sealed_def seg)
qed

lemma parse_udp_sealed:
  assumes "length src = 4" and "length dst = 4" and "length payload \<le> 65507"
  shows "parse_udp src dst (udp_sealed src dst sp dp payload) =
    Ok \<lparr>ud_source = src, ud_destination = dst, ud_source_port = sp, ud_destination_port = dp, ud_payload = payload\<rparr>"
proof -
  let ?p = "udp_sealed src dst sp dp payload" and ?c = "udp_checksum src dst sp dp payload"
  have f: "read_be16 ?p 4 = (Ok (of_nat (8 + length payload)) :: (net_error, u16) outcome)"
      "read_be16 ?p 6 = (Ok ?c :: (net_error, u16) outcome)" "read_be16 ?p 0 = (Ok sp :: (net_error, u16) outcome)"
      "read_be16 ?p 2 = (Ok dp :: (net_error, u16) outcome)"
    by (simp_all add: udp_sealed_def udp_segment_def to_be16_def be16_to_be16 del: of_nat_add of_nat_Suc)
  have n: "unat (of_nat (8 + length payload) :: u16) = 8 + length payload"
    by (subst unat_of_nat) (use assms(3) in simp)
  have s: "slice ?p 0 (8 + length payload) = (Ok ?p :: (net_error, bytes) outcome)"
      "slice ?p 8 (8 + length payload) = (Ok payload :: (net_error, bytes) outcome)"
    by (simp_all add: slice_def sub_def) (simp add: udp_sealed_def udp_segment_def)
  show ?thesis
    using f n s udp_sealed_checksum [OF assms, of sp dp] by (simp add: parse_udp_def del: slice_ok read_be16_ok)
qed

lemma stack_receive_eth:
  assumes "length d = 6" and "length m = 6"
  shows "stack_receive s (eth_frame d m e @ packet) resp =
    (if d \<noteq> cf_mac (st_config s) \<and> d \<noteq> MAC_BROADCAST then (s, resp, Ok NoEvent)
     else if e = 0x0806 then receive_arp s m packet resp
     else if e = 0x0800 then receive_ipv4 s m (eth_frame d m e @ packet) resp
     else (s, resp, Ok NoEvent))"
proof -
  let ?f = "eth_frame d m e @ packet"
  have "read_mac ?f 0 = (Ok d :: (net_error, bytes) outcome)" "read_mac ?f 6 = (Ok m :: (net_error, bytes) outcome)"
    using assms by (simp_all add: read_mac_def slice_def sub_def eth_frame_def)
  moreover have "read_be16 ?f 12 = (Ok e :: (net_error, u16) outcome)"
    using assms by (simp add: eth_frame_def nth_append to_be16_def be16_to_be16)
  moreover have "slice ?f 14 (length ?f) = (Ok packet :: (net_error, bytes) outcome)"
    using assms by (simp add: slice_def sub_def)
  ultimately show ?thesis
    using assms by (simp add: stack_receive_def del: read_be16_ok slice_ok)
qed

lemma receive_ipv4_sealed:
  assumes ok: "stack_ok s" and len: "length d = 6" "length m = 6" "length src = 4" "length dst = 4"
    and n: "n = length body" "length body \<le> 65515"
    and F: "F = eth_frame d m e @ ipv4_sealed n i p src dst @ body @ pad"
  shows "receive_ipv4 s mac F resp =
    (if dst \<noteq> cf_address (st_config s) \<and> dst \<noteq> IP_BROADCAST then (s, resp, Ok NoEvent)
     else let s' = learned s src mac in
       if p = IP_PROTOCOL_ICMP then (s', receive_icmp s' F 20 (20 + n) resp)
       else if p = IP_PROTOCOL_UDP then (s', resp, obind (parse_udp src dst body) (\<lambda>u. Ok (Udp u)))
       else (s', resp, Ok NoEvent))"
proof -
  let ?P = "ipv4_sealed n i p src dst @ body @ pad"
  have sl: "slice F 14 (length F) = (Ok ?P :: (net_error, bytes) outcome)"
    using len by (simp add: F slice_def sub_def)
  have plen: "length ?P = 20 + n + length pad" using len n by simp
  have tl: "unat (of_nat (20 + n) :: u16) = 20 + n"
    by (subst unat_of_nat) (use n in simp)
  have body: "slice ?P 20 (20 + n) = (Ok body :: (net_error, bytes) outcome)"
    using len n by (simp add: slice_def sub_def)
  have hl: "unat ((0x45 :: byte) AND 15) * 4 = 20" "drop_bit 4 (0x45 :: byte) = 4" "(0x4000 :: u16) AND 0x3fff = 0"
    by simp_all
  note f = ipv4_sealed_fields [OF len(3,4), of n i p "body @ pad"]
  show ?thesis
    unfolding receive_ipv4_def net_consts sl obind.simps Let_def f tl hl ipv4_sealed_checksum [OF len(3,4)]
      learn_ok [OF ok] body
    using plen by simp
qed

lemma receive_udp_frame:
  assumes A: "config_ok (st_config sA)" and B: "stack_ok sB" and m: "length m = 6" "length dst = 4"
    and mac: "m = cf_mac (st_config sB) \<or> m = MAC_BROADCAST"
    and addr: "dst = cf_address (st_config sB) \<or> dst = IP_BROADCAST"
    and n: "length payload \<le> 65507"
  shows "stack_receive sB (udp_frame sA m dst sp dp payload @ pad) resp =
    (learned sB (cf_address (st_config sA)) (cf_mac (st_config sA)), resp,
     Ok (Udp \<lparr>ud_source = cf_address (st_config sA), ud_destination = dst, ud_source_port = sp,
               ud_destination_port = dp, ud_payload = payload\<rparr>))"
proof -
  have len: "length (cf_address (st_config sA)) = 4" "length (cf_mac (st_config sA)) = 6"
    using A by (simp_all add: config_ok_def)
  let ?u = "udp_sealed (cf_address (st_config sA)) dst sp dp payload"
  have ul: "8 + length payload = length ?u" "length ?u \<le> 65515" using n by simp_all
  show ?thesis
    using stack_receive_eth [OF m(1) len(2), of sB "0x0800"] mac addr
      receive_ipv4_sealed [OF B m(1) len(2,1) m(2) ul refl]
      parse_udp_sealed [OF len(1) m(2) n, of sp dp]
    by (auto simp: udp_frame_def Let_def)
qed

lemma receive_arp_packet:
  assumes ok: "stack_ok s" and cfg: "config_ok cfg" and len: "length tm = 6" "length ti = 4"
  shows "receive_arp s m (arp_packet cfg opn tm ti @ pad) resp =
    (if cf_mac cfg \<noteq> m then (s, resp, Err InvalidHeader)
     else let s' = learned s (cf_address cfg) (cf_mac cfg) in
       if opn = 1 \<and> ti = cf_address (st_config s)
       then (case write_arp_reply (st_config s) (cf_address cfg) (cf_mac cfg) resp of
               (r, x) \<Rightarrow> (s', r, obind x (\<lambda>len. Ok (Reply len))))
       else if opn = 2 then (s', resp, Ok (NeighborLearned (cf_address cfg) (cf_mac cfg)))
       else (s', resp, Ok NoEvent))"
proof -
  let ?P = "arp_packet cfg opn tm ti @ pad"
  have c: "length (cf_mac cfg) = 6" "length (cf_address cfg) = 4" using cfg by (simp_all add: config_ok_def)
  have f: "read_be16 ?P 0 = (Ok 1 :: (net_error, u16) outcome)"
      "read_be16 ?P 2 = (Ok 0x0800 :: (net_error, u16) outcome)"
      "index ?P 4 = (Ok 6 :: (net_error, byte) outcome)" "index ?P 5 = (Ok 4 :: (net_error, byte) outcome)"
      "read_be16 ?P 6 = (Ok opn :: (net_error, u16) outcome)"
    using c len by (simp_all add: arp_packet_def to_be16_def be16_to_be16) (simp_all add: be16_def)
  have g: "read_mac ?P 8 = (Ok (cf_mac cfg) :: (net_error, bytes) outcome)"
      "read_ip ?P 14 = (Ok (cf_address cfg) :: (net_error, bytes) outcome)"
      "read_ip ?P 24 = (Ok ti :: (net_error, bytes) outcome)"
    using c len by (simp_all add: read_mac_def read_ip_def slice_def sub_def arp_packet_def to_be16_def)
  have plen: "\<not> length ?P < 28" using cfg len by simp
  show ?thesis
    unfolding receive_arp_def net_consts f g obind.simps learn_ok [OF ok]
    using plen by (simp add: Let_def)
qed

subsection \<open>Echo replies\<close>

definition echo_header :: "ipv4_address \<Rightarrow> bytes \<Rightarrow> bytes" where
  "echo_header address h =
     (let h1 = put_all h [(12, address), (16, sub h 12 16), (10, [0, 0])]
      in put_at h1 10 (to_be16 (inet_checksum h1)))"

definition echo_body :: "bytes \<Rightarrow> bytes" where
  "echo_body b = (let b1 = put_all b [(0, [0]), (2, [0, 0])] in put_at b1 2 (to_be16 (inet_checksum b1)))"

lemma checksum_field_valid:
  assumes z: "sub h a (a + 2) = [0, 0]" and a: "even a" "a + 2 \<le> length h" "length h \<le> 65515"
  shows "inet_checksum (put_at h a (to_be16 (inet_checksum h))) = 0"
proof -
  have h: "h = take a h @ [0, 0] @ drop (a + 2) h"
    using z sub_append_drop by (metis append_take_drop_id le_add1)
  have "be_sum h \<le> 65535 * 32758"
    using be_sum_bound [of h] mult_le_mono2 [of "(length h + 1) div 2" 32758 65535] a(3) by linarith
  then have "unat (0 :: u32) + be_sum (take a h @ [0, 0] @ drop (a + 2) h) < 2 ^ 31"
    using h by simp
  moreover have "even (length (take a h))" using a by simp
  ultimately have "finalize_sum (partial_sum 0 (take a h @ to_be16 (finalize_sum
      (partial_sum 0 (take a h @ [0, 0] @ drop (a + 2) h))) @ drop (a + 2) h)) = 0"
    by (intro stored_checksum_valid)
  then have "finalize_sum (partial_sum 0 (take a h @ to_be16 (finalize_sum (partial_sum 0 h)) @ drop (a + 2) h)) = 0"
    unfolding h [symmetric] .
  then show ?thesis by (simp add: inet_checksum_def put_at_def)
qed

lemma length_echo [simp]:
  "20 \<le> length h \<Longrightarrow> length address = 4 \<Longrightarrow> length (echo_header address h) = length h"
  "8 \<le> length b \<Longrightarrow> length (echo_body b) = length b"
  by (simp_all add: echo_header_def echo_body_def Let_def)

lemma echo_valid:
  assumes "20 \<le> length h" and "length h \<le> 65515" and "length address = 4"
  shows "inet_checksum (echo_header address h) = 0"
    and "sub (echo_header address h) 12 16 = address"
    and "sub (echo_header address h) 16 20 = sub h 12 16"
    and "sub (echo_header address h) 0 10 = sub h 0 10"
proof -
  let ?h1 = "put_all h [(12, address), (16, sub h 12 16), (10, [0, 0])]"
  have l: "length ?h1 = length h" using assms by simp
  have z: "sub ?h1 10 12 = [0, 0]" using assms by (simp add: sub_put_at_same)
  show "inet_checksum (echo_header address h) = 0"
    using checksum_field_valid [of ?h1 10] z l assms(1,2) unfolding echo_header_def Let_def by simp
  show "sub (echo_header address h) 12 16 = address" "sub (echo_header address h) 16 20 = sub h 12 16"
      "sub (echo_header address h) 0 10 = sub h 0 10"
    using assms by (simp_all add: echo_header_def Let_def sub_put_at_other sub_put_at_same)
qed

lemma nth_put_at_low: "i < off \<Longrightarrow> off \<le> length xs \<Longrightarrow> put_at xs off ys ! i = xs ! i"
  by (simp add: put_at_def nth_append)

lemma nth_put_at_first: "i < length ys \<Longrightarrow> put_at xs 0 ys ! i = ys ! i"
  by (simp add: put_at_def nth_append)

lemma nth_put_at_past: "length ys \<le> i \<Longrightarrow> i < length xs \<Longrightarrow> put_at xs 0 ys ! i = xs ! i"
  by (simp add: put_at_def nth_append)

lemma echo_body_valid:
  assumes "8 \<le> length b" and "length b \<le> 65515"
  shows "inet_checksum (echo_body b) = 0" and "echo_body b ! 0 = 0" and "echo_body b ! 1 = b ! 1"
    and "sub (echo_body b) 4 (length b) = sub b 4 (length b)"
proof -
  let ?b1 = "put_all b [(0, [0]), (2, [0, 0])]"
  have z: "sub ?b1 2 4 = [0, 0]" using assms by (simp add: sub_put_at_same)
  show "inet_checksum (echo_body b) = 0"
    using checksum_field_valid [of ?b1 2] z assms unfolding echo_body_def Let_def by simp
  show "echo_body b ! 0 = 0" "echo_body b ! 1 = b ! 1"
    using assms
    by (simp_all add: echo_body_def Let_def nth_put_at_low nth_put_at_first nth_put_at_past)
  show "sub (echo_body b) 4 (length b) = sub b 4 (length b)"
    using assms by (simp add: echo_body_def Let_def sub_put_at_other)
qed

lemma write_echo_reply_eq:
  assumes cfg: "config_ok cfg" and fin: "14 + h + 8 \<le> fin" "20 \<le> h" "fin \<le> length frame"
    and resp: "fin \<le> length response"
  shows "write_echo_reply cfg frame (14 + h) fin response =
    Ok (eth_frame (sub frame 6 12) (cf_mac cfg) 0x0800 @ echo_header (cf_address cfg) (sub frame 14 (14 + h))
        @ echo_body (sub frame (14 + h) fin) @ drop fin response)"
proof -
  let ?e = "eth_frame (sub frame 6 12) (cf_mac cfg) 0x0800"
  let ?h = "sub frame 14 (14 + h)" and ?b = "sub frame (14 + h) fin" and ?r = "drop fin response"
  let ?H = "echo_header (cf_address cfg) ?h" and ?B = "echo_body ?b"
  have c: "length (cf_mac cfg) = 6" "length (cf_address cfg) = 4" using cfg by (simp_all add: config_ok_def)
  have hl: "length ?h = h" and bl: "length ?b = fin - (14 + h)" "8 \<le> length ?b"
    using fin by simp_all
  have copy: "sub frame 0 fin = sub frame 0 14 @ ?h @ ?b"
    using fin by (simp add: sub_append_sub)
  have r1: "write_at response 0 (sub frame 0 fin) = (Ok (sub frame 0 14 @ ?h @ ?b @ ?r) :: (net_error, bytes) outcome)"
    using fin resp by (simp add: write_at_def put_at_def copy del: length_sub) (simp add: copy [symmetric])
  have e14: "length (sub frame 0 14) = 14" using fin by simp
  have r2: "write_ethernet (sub frame 0 14 @ ?h @ ?b @ ?r) (sub frame 6 12) (cf_mac cfg) 0x0800
      = (Ok (?e @ ?h @ ?b @ ?r) :: (net_error, bytes) outcome)"
    using write_ethernet_eq [of "sub frame 6 12" "cf_mac cfg" "sub frame 0 14 @ ?h @ ?b @ ?r" "0x0800"] fin c e14
    by simp
  have el: "length ?e = 14" using fin c by simp
  have s1: "slice (?e @ ?h @ ?b @ ?r) 14 (14 + h) = (Ok ?h :: (net_error, bytes) outcome)"
    using el hl by (intro slice_append) simp_all
  have w1: "write_all ?h [(12, cf_address cfg), (16, sub frame 26 30), (10, [0, 0])]
      = (Ok (put_all ?h [(12, cf_address cfg), (16, sub ?h 12 16), (10, [0, 0])]) :: (net_error, bytes) outcome)"
    using fin c hl by (subst write_all_ok) (simp_all add: sub_sub)
  have w2: "write_at (put_all ?h [(12, cf_address cfg), (16, sub ?h 12 16), (10, [0, 0])]) 10
      (to_be16 (inet_checksum (put_all ?h [(12, cf_address cfg), (16, sub ?h 12 16), (10, [0, 0])])))
      = (Ok ?H :: (net_error, bytes) outcome)"
    using fin c hl by (simp add: echo_header_def Let_def)
  have r3: "write_at (?e @ ?h @ ?b @ ?r) 14 ?H = (Ok (?e @ ?H @ ?b @ ?r) :: (net_error, bytes) outcome)"
    using el hl c fin by (intro write_at_append) simp_all
  have pre: "length (?e @ ?H) = 14 + h" using el hl c fin by simp
  have s2: "slice (?e @ ?H @ ?b @ ?r) (14 + h) fin = (Ok ?b :: (net_error, bytes) outcome)"
    using slice_append [of "14 + h" "?e @ ?H" fin ?b ?r] pre bl fin by simp
  have w3: "write_all ?b [(0, [0]), (2, [0, 0])]
      = (Ok (put_all ?b [(0, [0]), (2, [0, 0])]) :: (net_error, bytes) outcome)"
    using bl by (subst write_all_ok) simp_all
  have w4: "write_at (put_all ?b [(0, [0]), (2, [0, 0])]) 2 (to_be16 (inet_checksum (put_all ?b [(0, [0]), (2, [0, 0])])))
      = (Ok ?B :: (net_error, bytes) outcome)"
    using bl by (simp add: echo_body_def Let_def)
  have r4: "write_at (?e @ ?H @ ?b @ ?r) (14 + h) ?B = (Ok (?e @ ?H @ ?B @ ?r) :: (net_error, bytes) outcome)"
    using write_at_append [of ?b ?B "14 + h" "?e @ ?H" ?r] pre bl by simp
  have rd: "read_mac frame 6 = (Ok (sub frame 6 12) :: (net_error, bytes) outcome)"
      "read_ip frame (14 + 12) = (Ok (sub frame 26 30) :: (net_error, bytes) outcome)"
      "slice frame 0 fin = (Ok (sub frame 0 fin) :: (net_error, bytes) outcome)"
    using fin by (simp_all add: read_mac_def read_ip_def)
  show ?thesis
    unfolding write_echo_reply_def net_consts rd obind.simps r1 r2 s1 w1 w2 r3 s2 w3 w4 r4 ..
qed

subsection \<open>No frame makes the stack panic\<close>

definition sane :: "net_stack \<Rightarrow> bytes \<Rightarrow> net_stack \<times> bytes \<times> ('e, 'a) outcome \<Rightarrow> bool" where
  "sane s out r \<longleftrightarrow> (fst r = s \<or> (\<exists>ip m. length m = 6 \<and> fst r = learned s ip m))
     \<and> length (fst (snd r)) = length out \<and> snd (snd r) \<noteq> Panic"

lemma sane_same [simp]:
  "sane s out (s, out, Err e)" "sane s out (s, out, Ok x)"
  "length b = 6 \<Longrightarrow> sane s out (learned s a b, out, Ok x)"
  by (auto simp: sane_def)

lemma sane_learned:
  "length m = 6 \<Longrightarrow> length r = length out \<Longrightarrow> x \<noteq> Panic \<Longrightarrow> sane s out (learned s ip m, r, x)"
  by (auto simp: sane_def)

lemma write_arp_sane:
  assumes "config_ok cfg" and "length dst = 6" and "length tm = 6" and "length ti = 4"
  shows "length (fst (write_arp cfg dst ti tm opn out)) = length out"
    and "snd (write_arp cfg dst ti tm opn out) \<noteq> Panic"
  using assms by (simp_all add: write_arp_eq config_ok_def)

lemma read_mac_ok: "read_mac bs a = Ok m \<Longrightarrow> length m = 6"
  and read_ip_ok: "read_ip bs a = Ok i \<Longrightarrow> length i = 4"
  by (auto simp: read_mac_def read_ip_def slice_Ok_iff)

lemma read_mac_Panic [simp]: "a + 6 \<le> length bs \<Longrightarrow> read_mac bs a \<noteq> Panic"
  and read_ip_Panic [simp]: "a + 4 \<le> length bs \<Longrightarrow> read_ip bs a \<noteq> Panic"
  by (auto simp: read_mac_def read_ip_def)

lemma receive_icmp_eq:
  assumes cfg: "config_ok (st_config s)" and h: "20 \<le> h"
  shows "receive_icmp s frame h n response =
    (if length frame < 14 + n \<or> n < h + 8 then (response, Err Truncated)
     else if inet_checksum (sub frame (14 + h) (14 + n)) \<noteq> 0 then (response, Err InvalidChecksum)
     else if frame ! (14 + h) \<noteq> 8 \<or> frame ! (15 + h) \<noteq> 0 then (response, Ok NoEvent)
     else if length response < 14 + n then (response, Err BufferTooSmall)
     else (eth_frame (sub frame 6 12) (cf_mac (st_config s)) 0x0800
            @ echo_header (cf_address (st_config s)) (sub frame 14 (14 + h))
            @ echo_body (sub frame (14 + h) (14 + n)) @ drop (14 + n) response, Ok (Reply (14 + n))))"
proof (cases "length frame < 14 + n \<or> n < h + 8")
  case False
  then have i: "index (sub frame (14 + h) (14 + n)) 0 = (Ok (frame ! (14 + h)) :: (net_error, byte) outcome)"
      "index (sub frame (14 + h) (14 + n)) 1 = (Ok (frame ! (15 + h)) :: (net_error, byte) outcome)"
      "slice frame (14 + h) (14 + n) = (Ok (sub frame (14 + h) (14 + n)) :: (net_error, bytes) outcome)"
    by (simp_all add: index_def, linarith)
  show ?thesis
    unfolding receive_icmp_def net_consts Let_def i obind.simps
    using False h write_echo_reply_eq [OF cfg, of h "14 + n" frame response] by simp
qed (simp add: receive_icmp_def Let_def)

lemma receive_icmp_sane:
  assumes cfg: "config_ok (st_config s)" and h: "20 \<le> h"
  shows "snd (receive_icmp s frame h n response) \<noteq> Panic"
    and "length (fst (receive_icmp s frame h n response)) = length response"
  using assms by (auto simp: receive_icmp_eq config_ok_def)

lemma receive_arp_sane:
  assumes ok: "stack_ok s"
  shows "sane s response (receive_arp s m packet response)"
proof (cases "length packet < 28")
  case False
  have cfg: "config_ok (st_config s)" using ok by (simp add: stack_ok_def)
  have mac: "read_mac packet 8 = Ok (sub packet 8 14)" "read_ip packet 14 = Ok (sub packet 14 18)"
      "read_ip packet 24 = Ok (sub packet 24 28)"
    using False by (simp_all add: read_mac_def read_ip_def)
  let ?s = "learned s (sub packet 14 18) (sub packet 8 14)"
  have len: "length (sub packet 8 14) = 6" "length (sub packet 14 18) = 4" using False by simp_all
  note w = write_arp_sane [OF cfg len(1,1,2), of 2 response]
  show ?thesis
    using False ok w len(1)
    unfolding receive_arp_def net_consts mac learn_ok [OF ok]
    by (auto simp: write_arp_reply_def obind_Panic_iff intro!: sane_learned split: prod.splits)
qed (simp add: receive_arp_def sane_def ok)

lemma parse_udp_not_Panic: "parse_udp src dst packet \<noteq> Panic"
  by (auto simp: parse_udp_def obind_Panic_iff slice_Panic_iff slice_Ok_iff read_Panic_iff split: if_splits)

lemma receive_ipv4_sane:
  assumes ok: "stack_ok s" and len: "14 \<le> length frame" and mac: "length m = 6"
  shows "sane s response (receive_ipv4 s m frame response)"
proof -
  let ?p = "drop 14 frame"
  have sl: "slice frame 14 (length frame) = (Ok ?p :: (net_error, bytes) outcome)"
    using len by (simp add: slice_def sub_def)
  show ?thesis
  proof (cases "length ?p < 20")
    case True
    then show ?thesis
      unfolding receive_ipv4_def net_consts sl obind.simps using ok by simp
  next
    case False
    define h where "h = unat (?p ! 0 AND 0x0f) * 4"
    define n where "n = unat (be16 (?p ! 2) (?p ! 3))"
    have f: "index ?p 0 = (Ok (?p ! 0) :: (net_error, byte) outcome)"
        "read_be16 ?p 2 = (Ok (be16 (?p ! 2) (?p ! 3)) :: (net_error, u16) outcome)"
        "read_be16 ?p 6 = (Ok (be16 (?p ! 6) (?p ! 7)) :: (net_error, u16) outcome)"
        "read_ip ?p 12 = (Ok (sub ?p 12 16) :: (net_error, bytes) outcome)"
        "read_ip ?p 16 = (Ok (sub ?p 16 20) :: (net_error, bytes) outcome)"
        "index ?p 9 = (Ok (?p ! 9) :: (net_error, byte) outcome)"
      using False by (simp_all add: read_ip_def index_def)
    let ?s = "learned s (sub ?p 12 16) m"
    have ok': "stack_ok ?s" using ok by (rule stack_ok_learned)
    then have cfg: "config_ok (st_config ?s)" by (simp add: stack_ok_def)
    show ?thesis
    proof (cases "drop_bit 4 (?p ! 0) = 4 \<and> 20 \<le> h \<and> h \<le> length ?p \<and> h \<le> n \<and> n \<le> length ?p")
      case bad: False
      then consider "drop_bit 4 (?p ! 0) \<noteq> 4" | "drop_bit 4 (?p ! 0) = 4" "h < 20 \<or> length ?p < h"
        | "drop_bit 4 (?p ! 0) = 4" "\<not> (h < 20 \<or> length ?p < h)" "n < h \<or> length ?p < n"
        by linarith
      then show ?thesis
        unfolding receive_ipv4_def net_consts sl obind.simps f Let_def h_def [symmetric] n_def [symmetric]
        using False ok by cases simp_all
    next
      case True
      then have sl2: "slice ?p 0 h = (Ok (sub ?p 0 h) :: (net_error, bytes) outcome)"
          "slice ?p h n = (Ok (sub ?p h n) :: (net_error, bytes) outcome)" by simp_all
      have tail: "sane s response (?s, receive_icmp ?s frame h n response)"
          "sane s response (?s, response, obind (parse_udp a b c) (\<lambda>d. Ok (Udp d)))"
        for a b c
        using receive_icmp_sane [OF cfg, of h] True mac
        by (auto simp: sane_def obind_Panic_iff parse_udp_not_Panic)
      show ?thesis
        unfolding receive_ipv4_def net_consts sl obind.simps f Let_def h_def [symmetric] n_def [symmetric]
          sl2 learn_ok [OF ok]
        using False True ok mac tail by simp
    qed
  qed
qed

lemma stack_receive_sane:
  assumes ok: "stack_ok s"
  shows "sane s response (stack_receive s frame response)"
proof (cases "length frame < 14")
  case False
  then have f: "read_mac frame 0 = (Ok (sub frame 0 6) :: (net_error, bytes) outcome)"
      "read_mac frame 6 = (Ok (sub frame 6 12) :: (net_error, bytes) outcome)"
      "read_be16 frame 12 = (Ok (be16 (frame ! 12) (frame ! 13)) :: (net_error, u16) outcome)"
      "slice frame 14 (length frame) = (Ok (sub frame 14 (length frame)) :: (net_error, bytes) outcome)"
    by (simp_all add: read_mac_def)
  show ?thesis
    unfolding stack_receive_def net_consts f obind.simps
    using False ok receive_arp_sane [OF ok] receive_ipv4_sane [OF ok] by simp
qed (simp add: stack_receive_def sane_def ok)

lemma lookup_length:
  assumes "neighbor_lookup s ip = Some m"
  shows "\<exists>e \<in> set (st_neighbors s). nb_valid e \<and> nb_ip e = ip \<and> nb_mac e = m"
  using assms by (auto simp: neighbor_lookup_def find_Some_iff)

definition ips_ok :: "net_stack \<Rightarrow> bool" where
  "ips_ok s \<longleftrightarrow> (\<forall>e \<in> set (st_neighbors s). nb_valid e \<longrightarrow> length (nb_mac e) = 6)"

lemma ips_ok_lookup: "ips_ok s \<Longrightarrow> neighbor_lookup s ip = Some m \<Longrightarrow> length m = 6"
  using lookup_length [of s ip m] by (auto simp: ips_ok_def)

lemma ips_ok_learned:
  assumes ok: "stack_ok s" and s: "ips_ok s" and m: "length m = 6"
  shows "ips_ok (learned s ip m)"
proof (cases rule: learned_cases [OF ok, of ip m])
  case 1
  with s show ?thesis by simp
next
  case (2 es)
  have "update_first ip m es0 = Some es1 \<Longrightarrow> (\<forall>e \<in> set es0. nb_valid e \<longrightarrow> length (nb_mac e) = 6) \<Longrightarrow>
      (\<forall>e \<in> set es1. nb_valid e \<longrightarrow> length (nb_mac e) = 6)" for es0 es1
    using m by (induction es0 arbitrary: es1) (auto split: if_splits)
  with 2 s show ?thesis by (auto simp: ips_ok_def)
next
  case 3
  let ?x = "\<lparr>nb_ip = ip, nb_mac = m, nb_valid = True\<rparr>"
  have all: "\<forall>e \<in> insert ?x (set (st_neighbors s)). nb_valid e \<longrightarrow> length (nb_mac e) = 6"
    using s m by (simp add: ips_ok_def)
  have "set (st_neighbors (learned s ip m)) \<subseteq> insert ?x (set (st_neighbors s))"
    using 3 by (simp add: set_update_subset_insert)
  with all show ?thesis unfolding ips_ok_def by blast
qed

lemma send_udp_eq:
  assumes ok: "stack_ok s" and macs: "ips_ok s" and dst: "length dst = 4"
  shows "send_udp s dst sp dp payload out =
    (let target = (if dst = IP_BROADCAST then Some MAC_BROADCAST else neighbor_lookup s (next_hop s dst))
     in if 65507 < length payload then (s, out, Err Unsupported)
        else case target of
          None \<Rightarrow> if length out < 42 then (s, out, Err BufferTooSmall)
                  else (s, eth_frame MAC_BROADCAST (cf_mac (st_config s)) 0x0806
                           @ arp_packet (st_config s) 1 MAC_ZERO (next_hop s dst) @ drop 42 out,
                        Ok (NeighborDiscovery 42))
        | Some m \<Rightarrow> if length out < 42 + length payload then (s, out, Err BufferTooSmall)
                  else let s' = s\<lparr>st_identification := st_identification s + 1\<rparr>
                       in (s', udp_frame s' m dst sp dp payload @ drop (42 + length payload) out,
                           Ok (Datagram (42 + length payload))))"
proof -
  let ?hop = "next_hop s dst"
  let ?s = "s\<lparr>st_identification := st_identification s + 1\<rparr>"
  have cfg: "config_ok (st_config s)" "config_ok (st_config ?s)" using ok by (simp_all add: stack_ok_def)
  have hop: "length ?hop = 4" using dst cfg by (simp add: config_ok_def next_hop_def)
  have bc: "length MAC_BROADCAST = 6" "length MAC_ZERO = 6" by (simp_all add: MAC_BROADCAST_def MAC_ZERO_def)
  have arp: "write_arp_request (st_config s) ?hop out = (if length out < 42 then (out, Err BufferTooSmall)
      else (eth_frame MAC_BROADCAST (cf_mac (st_config s)) 0x0806
            @ arp_packet (st_config s) 1 MAC_ZERO ?hop @ drop 42 out, Ok 42))"
    using write_arp_eq [OF cfg(1) bc hop] by (simp add: write_arp_request_def)
  have w: "write_udp ?s m dst sp dp payload out = Ok (udp_frame ?s m dst sp dp payload @ drop (42 + length payload) out)"
    if "length m = 6" "42 + length payload \<le> length out" for m
    using write_udp_eq [OF cfg(2) that(1) dst that(2)] .
  show ?thesis
    unfolding send_udp_def net_consts Let_def arp
    using w bc ips_ok_lookup [OF macs] by (auto split: option.splits)
qed

lemma sane_keeps:
  assumes "sane s out r" and "stack_ok s" and "ips_ok s"
  shows "stack_ok (fst r)" and "ips_ok (fst r)" and "st_config (fst r) = st_config s"
  using assms by (auto simp: sane_def stack_ok_learned ips_ok_learned)

subsection \<open>Properties\<close>

lemma length_next_hop: "stack_ok s \<Longrightarrow> length dst = 4 \<Longrightarrow> length (next_hop s dst) = 4"
  by (simp add: next_hop_def stack_ok_def config_ok_def)

text \<open>No received frame, however malformed, and no UDP payload or output buffer makes the stack
  panic; every operation keeps the configuration, the size of the caller's buffer and the cache
  invariant (replacement index in range, no address cached twice, six-byte MACs).\<close>

theorem net_stack_never_panics:
  assumes "stack_ok s" and "ips_ok s" and "length dst = 4"
  shows "(case stack_receive s frame response of (s', r, x) \<Rightarrow>
            x \<noteq> Panic \<and> stack_ok s' \<and> ips_ok s' \<and> st_config s' = st_config s \<and> length r = length response)
    \<and> (case send_udp s dst sp dp payload out of (s', r, x) \<Rightarrow>
            x \<noteq> Panic \<and> stack_ok s' \<and> ips_ok s' \<and> st_config s' = st_config s \<and> length r = length out)"
proof (rule conjI)
  note r = stack_receive_sane [OF assms(1), of response frame]
  from sane_keeps [OF r assms(1,2)] r
  show "case stack_receive s frame response of (s', r, x) \<Rightarrow>
      x \<noteq> Panic \<and> stack_ok s' \<and> ips_ok s' \<and> st_config s' = st_config s \<and> length r = length response"
    by (auto simp: sane_def split: prod.splits)
  have cfg: "config_ok (st_config s)" using assms(1) by (simp add: stack_ok_def)
  have "length MAC_BROADCAST = 6" "length MAC_ZERO = 6" by (simp_all add: MAC_BROADCAST_def MAC_ZERO_def)
  moreover have length_eth: "length (eth_frame MAC_BROADCAST (cf_mac (st_config s)) e) = 14" for e
    using cfg by (simp add: config_ok_def MAC_BROADCAST_def)
  moreover have "length (udp_frame (s\<lparr>st_identification := i\<rparr>) m dst sp dp payload) = 42 + length payload"
    if "length m = 6" for i m
    using that cfg assms(3) by (simp add: udp_frame_def config_ok_def)
  moreover have "stack_ok (s\<lparr>st_identification := i\<rparr>)" "ips_ok (s\<lparr>st_identification := i\<rparr>)" for i
    using assms by (simp_all add: stack_ok_def ips_ok_def)
  ultimately show "case send_udp s dst sp dp payload out of (s', r, x) \<Rightarrow>
      x \<noteq> Panic \<and> stack_ok s' \<and> ips_ok s' \<and> st_config s' = st_config s \<and> length r = length out"
    using assms cfg ips_ok_lookup [OF assms(2)] send_udp_eq [OF assms, of sp dp payload out]
      length_next_hop [OF assms(1,3)] length_arp_packet [OF cfg]
    by (auto simp: Let_def length_eth split: option.splits)
qed

lemma next_hop_not_bcast_config [simp]: "next_hop (learned s ip m) dst = next_hop s dst"
  by (simp add: next_hop_def)

text \<open>C8: A datagram that one stack sends, another receives intact: when \<open>send_udp\<close> produced a frame
  for the receiver's MAC (or a broadcast) and the destination is the receiver's address (or the
  broadcast), feeding that frame to the receiver, with any padding after it, yields exactly the
  sender's address, both ports and the payload, passes every header and checksum test, leaves the
  reply buffer alone and learns the sender's MAC.\<close>

theorem udp_delivered:
  assumes "stack_ok sA" and "ips_ok sA" and "stack_ok sB" and "length dst = 4"
    and "send_udp sA dst sp dp payload out = (sA', out', Ok (Datagram n))"
    and "dst = cf_address (st_config sB) \<or> dst = IP_BROADCAST"
    and "dst = IP_BROADCAST \<or> neighbor_lookup sA (next_hop sA dst) = Some (cf_mac (st_config sB))"
  shows "n = 42 + length payload
    \<and> stack_receive sB (take n out' @ pad) resp =
        (learned sB (cf_address (st_config sA)) (cf_mac (st_config sA)), resp,
         Ok (Udp \<lparr>ud_source = cf_address (st_config sA), ud_destination = dst, ud_source_port = sp,
                   ud_destination_port = dp, ud_payload = payload\<rparr>))"
proof -
  let ?m = "if dst = IP_BROADCAST then MAC_BROADCAST else cf_mac (st_config sB)"
  let ?s = "sA\<lparr>st_identification := st_identification sA + 1\<rparr>"
  have cfg: "config_ok (st_config ?s)" "config_ok (st_config sB)"
    using assms(1,3) by (simp_all add: stack_ok_def)
  have m: "length ?m = 6" using cfg(2) by (simp add: config_ok_def MAC_BROADCAST_def)
  have t: "(if dst = IP_BROADCAST then Some MAC_BROADCAST else neighbor_lookup sA (next_hop sA dst)) = Some ?m"
    using assms(7) by auto
  from send_udp_eq [OF assms(1,2,4), of sp dp payload out, unfolded Let_def t option.case] assms(5)
  have n: "length payload \<le> 65507" "n = 42 + length payload"
      "out' = udp_frame ?s ?m dst sp dp payload @ drop (42 + length payload) out"
    by (auto split: if_splits)
  have "length (udp_frame ?s ?m dst sp dp payload) = 42 + length payload"
    using m cfg assms(4) by (simp add: udp_frame_def config_ok_def)
  then have "take n out' = udp_frame ?s ?m dst sp dp payload" by (simp add: n)
  with receive_udp_frame [OF cfg(1) assms(3) m assms(4) _ assms(6) n(1), of sp dp pad resp] n(2)
  show ?thesis by simp
qed

text \<open>Address resolution works end to end: a stack that does not know its next hop emits an ARP
  request; the stack that owns that address answers it and learns the asker; the answer makes the
  asker learn the owner, after which the same send yields a datagram frame. (The two are
  configured with distinct, unicast addresses and the asker's cache has room for an entry.)\<close>

theorem arp_resolution:
  assumes "stack_ok sA" and "ips_ok sA" and "stack_ok sB" and "length dst = 4"
    and "length payload \<le> 65507" and "42 + length payload \<le> length out" and "42 \<le> length resp"
    and "dst \<noteq> IP_BROADCAST" and "neighbor_lookup sA (next_hop sA dst) = None"
    and "cf_address (st_config sB) = next_hop sA dst"
    and "acceptable sA (next_hop sA dst) (cf_mac (st_config sB))"
  shows "\<exists>sA1 request sB1 reply sA2 sA3 frame.
    send_udp sA dst sp dp payload out = (sA1, request, Ok (NeighborDiscovery 42))
    \<and> stack_receive sB (take 42 request) resp = (sB1, reply, Ok (Reply 42))
    \<and> stack_receive sA1 (take 42 reply) buf
        = (sA2, buf, Ok (NeighborLearned (next_hop sA dst) (cf_mac (st_config sB))))
    \<and> send_udp sA2 dst sp dp payload out = (sA3, frame, Ok (Datagram (42 + length payload)))
    \<and> take 6 frame = cf_mac (st_config sB)"
proof -
  let ?cA = "st_config sA" and ?cB = "st_config sB" and ?hop = "next_hop sA dst"
  have cA: "config_ok ?cA" and cB: "config_ok ?cB" using assms(1,3) by (simp_all add: stack_ok_def)
  have macA: "length (cf_mac ?cA) = 6" "length (cf_address ?cA) = 4" and macB: "length (cf_mac ?cB) = 6" "length (cf_address ?cB) = 4"
    using cA cB by (simp_all add: config_ok_def)
  have bc: "length MAC_BROADCAST = 6" "length MAC_ZERO = 6" by (simp_all add: MAC_BROADCAST_def MAC_ZERO_def)
  have hop: "length ?hop = 4" using assms(1,4) by (rule length_next_hop)
  let ?req = "eth_frame MAC_BROADCAST (cf_mac ?cA) 0x0806 @ arp_packet ?cA 1 MAC_ZERO ?hop"
  let ?rep = "eth_frame (cf_mac ?cA) (cf_mac ?cB) 0x0806 @ arp_packet ?cB 2 (cf_mac ?cA) (cf_address ?cA)"
  have req: "send_udp sA dst sp dp payload out = (sA, ?req @ drop 42 out, Ok (NeighborDiscovery 42))"
    using send_udp_eq [OF assms(1,2,4), of sp dp payload out] assms(5,6,8,9) by (simp add: Let_def)
  have lreq: "length ?req = 42" and lrep: "length ?rep = 42"
    using macA macB bc hop cA cB by simp_all
  have "stack_receive sB ?req resp = receive_arp sB (cf_mac ?cA) (arp_packet ?cA 1 MAC_ZERO ?hop) resp"
    using stack_receive_eth [OF bc(1) macA(1), of sB "0x0806"] by simp
  also have "\<dots> = (learned sB (cf_address ?cA) (cf_mac ?cA), ?rep @ drop 42 resp, Ok (Reply 42))"
    using receive_arp_packet [OF assms(3) cA bc(2) hop, of "cf_mac ?cA" 1 "[]" resp] assms(7,10)
      write_arp_eq [OF cB macA(1) macA(1,2), of 2 resp]
    by (simp add: write_arp_reply_def Let_def)
  finally have rep: "stack_receive sB ?req resp
      = (learned sB (cf_address ?cA) (cf_mac ?cA), ?rep @ drop 42 resp, Ok (Reply 42))" .
  let ?A = "learned sA (cf_address ?cB) (cf_mac ?cB)"
  have "stack_receive sA ?rep buf = receive_arp sA (cf_mac ?cB) (arp_packet ?cB 2 (cf_mac ?cA) (cf_address ?cA)) buf"
    using stack_receive_eth [OF macA(1) macB(1), of sA "0x0806"] by simp
  also have "\<dots> = (?A, buf, Ok (NeighborLearned ?hop (cf_mac ?cB)))"
    using receive_arp_packet [OF assms(1) cB macA, of "cf_mac ?cB" 2 "[]" buf] assms(10)
    by (simp add: Let_def)
  finally have learn: "stack_receive sA ?rep buf = (?A, buf, Ok (NeighborLearned ?hop (cf_mac ?cB)))" .
  have okA: "stack_ok ?A" "ips_ok ?A"
    using assms(1,2) macB by (simp_all add: stack_ok_learned ips_ok_learned)
  have look: "neighbor_lookup ?A ?hop = Some (cf_mac ?cB)"
    using lookup_learned [OF assms(1,11)] assms(10) by simp
  let ?s = "?A\<lparr>st_identification := st_identification ?A + 1\<rparr>"
  have send: "send_udp ?A dst sp dp payload out = (?s, udp_frame ?s (cf_mac ?cB) dst sp dp payload
      @ drop (42 + length payload) out, Ok (Datagram (42 + length payload)))"
    using send_udp_eq [OF okA assms(4), of sp dp payload out] assms(5,6,8) look by (simp add: Let_def)
  have "take 6 (udp_frame ?s (cf_mac ?cB) dst sp dp payload @ drop (42 + length payload) out) = cf_mac ?cB"
    using macB by (simp add: udp_frame_def eth_frame_def)
  moreover have cut: "length a = 42 \<Longrightarrow> take 42 (a @ r) = a" for a r :: bytes by simp
  have "stack_receive sB (take 42 (?req @ drop 42 out)) resp
      = (learned sB (cf_address ?cA) (cf_mac ?cA), ?rep @ drop 42 resp, Ok (Reply 42))"
    unfolding cut [OF lreq] by (rule rep)
  moreover have "stack_receive sA (take 42 (?rep @ drop 42 resp)) buf
      = (?A, buf, Ok (NeighborLearned ?hop (cf_mac ?cB)))"
    unfolding cut [OF lrep] by (rule learn)
  ultimately show ?thesis
    using req send by blast
qed


text \<open>A ping is answered: a well-formed ICMP echo request for the stack's address (any identification,
  any padding) is answered in the caller's buffer with a frame to the asker whose IPv4 header checks
  out and carries the two addresses swapped, whose ICMP message checks out and is an echo reply with
  the request's identifier, sequence number and data; bytes of the buffer past the reply stay.\<close>

theorem ping_is_answered:
  assumes ok: "stack_ok s" and m: "length m = 6" and src: "length src = 4"
    and body: "8 \<le> length body" "length body \<le> 65515" "inet_checksum body = 0"
    and echo: "body ! 0 = 8" "body ! 1 = 0"
    and room: "34 + length body \<le> length response"
  shows "\<exists>h b. stack_receive s (eth_frame (cf_mac (st_config s)) m 0x0800
        @ ipv4_sealed (length body) i IP_PROTOCOL_ICMP src (cf_address (st_config s)) @ body @ pad) response
      = (learned s src m,
         eth_frame m (cf_mac (st_config s)) 0x0800 @ h @ b @ drop (34 + length body) response,
         Ok (Reply (34 + length body)))
    \<and> length h = 20 \<and> inet_checksum h = 0 \<and> sub h 12 16 = cf_address (st_config s) \<and> sub h 16 20 = src
    \<and> length b = length body \<and> inet_checksum b = 0 \<and> b ! 0 = 0 \<and> b ! 1 = 0
    \<and> drop 4 b = drop 4 body"
proof -
  let ?c = "st_config s"
  let ?E = "eth_frame (cf_mac ?c) m 0x0800" and ?H = "ipv4_sealed (length body) i 1 src (cf_address ?c)"
  let ?F = "?E @ ?H @ body @ pad" and ?s = "learned s src m"
  let ?h = "echo_header (cf_address ?c) ?H" and ?b = "echo_body body"
  have c: "length (cf_mac ?c) = 6" "length (cf_address ?c) = 4" and cfg: "config_ok (st_config ?s)"
    using ok by (simp_all add: stack_ok_def config_ok_def)
  have El: "length ?E = 14" and Hl: "length ?H = 20" using c m src by simp_all
  have cut: "sub ?F 6 12 = m" "sub ?F 14 34 = ?H" "sub ?F 34 (34 + length body) = body"
    using El Hl c m by (simp_all add: sub_def) (simp add: eth_frame_def)
  have at: "?F ! 34 = 8" "?F ! 35 = 0"
    using El Hl body(1) echo by (auto simp: nth_append)
  have flen: "34 + length body \<le> length ?F" using El Hl by simp
  have "receive_icmp ?s ?F 20 (20 + length body) response
      = (eth_frame m (cf_mac ?c) 0x0800 @ ?h @ ?b @ drop (34 + length body) response,
         Ok (Reply (34 + length body)))"
    using receive_icmp_eq [OF cfg, of 20 ?F "20 + length body" response] cut at body room flen
    by (simp add: add.commute)
  then have "stack_receive s ?F response
      = (?s, eth_frame m (cf_mac ?c) 0x0800 @ ?h @ ?b @ drop (34 + length body) response,
         Ok (Reply (34 + length body)))"
    using stack_receive_eth [OF c(1) m, of s "0x0800"]
      receive_ipv4_sealed [OF ok c(1) m src c(2) refl body(2) refl,
        where e = "0x0800" and i = i and p = 1 and pad = pad and mac = m and resp = response]
    by (simp add: Let_def)
  moreover have "inet_checksum ?h = 0" "sub ?h 12 16 = cf_address ?c" "sub ?h 16 20 = src"
    using echo_valid [of ?H "cf_address ?c"] Hl c src
    by (simp_all add: ipv4_sealed_def ipv4_header_def sub_def to_be16_def)
  moreover have "length ?h = 20" "length ?b = length body" using Hl c body by simp_all
  moreover have "drop 4 ?b = drop 4 body"
    using echo_body_valid(4) [OF body(1,2)] body(1) by (simp add: sub_def)
  ultimately show ?thesis
    using echo_body_valid(1-3) [OF body(1,2)] echo by auto
qed

subsection \<open>The cache over time\<close>

primrec learn_all :: "net_stack \<Rightarrow> (ipv4_address \<times> mac_address) list \<Rightarrow> ('e, net_stack) outcome" where
  "learn_all s [] = Ok s"
| "learn_all s (b # bs) = obind (learn s (fst b) (snd b)) (\<lambda>s'. learn_all s' bs)"

lemma learn_all_eq: "stack_ok s \<Longrightarrow> learn_all s bs = Ok (arp.put_all s bs)"
  by (induction bs arbitrary: s) (simp_all add: learn_ok stack_ok_learned)

lemma stack_ok_new: "config_ok cfg \<Longrightarrow> stack_ok (stack_new n cfg)"
  and ips_ok_new: "ips_ok (stack_new n cfg)"
  and lookup_new: "neighbor_lookup (stack_new n cfg) ip = None"
  by (auto simp: stack_ok_def stack_new_def valid_ips_def neighbor_default_def ips_ok_def
      neighbor_lookup_def find_None_iff filter_replicate)

text \<open>C9: The neighbour cache never serves a stale or invented address: after any sequence of bindings
  offered to a fresh stack, a lookup that answers gives the last acceptable MAC offered for that
  address (zero and broadcast MACs and the unspecified address are refused).\<close>

theorem arp_cache_never_stale:
  assumes "config_ok cfg" and "neighbor_lookup s ip = Some mac"
    and "(learn_all (stack_new n cfg) bs :: (net_error, net_stack) outcome) = Ok s"
  shows "map_of (rev (filter (\<lambda>b. acceptable (stack_new n cfg) (fst b) (snd b)) bs)) ip = Some mac"
proof -
  have "s = arp.put_all (stack_new n cfg) bs"
    using assms(3) by (simp add: learn_all_eq [OF stack_ok_new [OF assms(1)]])
  then show ?thesis
    using arp.no_stale [OF stack_ok_new [OF assms(1)], of n bs ip mac] assms(2)
    by (auto simp: lookup_new split: option.splits)
qed

subsection \<open>The properties at the addresses of the shipped configuration\<close>

definition device_config :: net_config where
  "device_config = \<lparr>cf_mac = [0x52, 0x54, 0, 0x12, 0x34, 0x56], cf_address = [10, 0, 2, 15],
     cf_subnet_mask = [255, 255, 255, 0], cf_gateway = [10, 0, 2, 2]\<rparr>"

definition host_config :: net_config where
  "host_config = \<lparr>cf_mac = [0x52, 0x55, 10, 0, 2, 2], cf_address = [10, 0, 2, 2],
     cf_subnet_mask = [255, 255, 255, 0], cf_gateway = [10, 0, 2, 2]\<rparr>"

abbreviation device :: net_stack where "device \<equiv> stack_new 8 device_config"
abbreviation host :: net_stack where "host \<equiv> stack_new 8 host_config"

lemma demo_ok: "config_ok device_config" "config_ok host_config"
    "stack_ok device" "stack_ok host" "ips_ok device" "ips_ok host"
  by (simp_all add: config_ok_def device_config_def host_config_def stack_ok_new ips_ok_new)

lemma demo_config [simp]: "st_config device = device_config" "st_config host = host_config"
    "cf_address device_config = [10, 0, 2, 15]" "cf_address host_config = [10, 0, 2, 2]"
    "cf_mac device_config = [0x52, 0x54, 0, 0x12, 0x34, 0x56]" "cf_mac host_config = [0x52, 0x55, 10, 0, 2, 2]"
  by (simp_all add: stack_new_def device_config_def host_config_def)

lemma demo_hop: "next_hop device [10, 0, 2, 2] = [10, 0, 2, 2]"
  by (simp add: next_hop_def same_subnet_def as_u32_def be32_def device_config_def stack_new_def push_bit_eq_mult)

lemma replicate_4_6: "replicate 4 x = [x, x, x, x]" "replicate 6 x = [x, x, x, x, x, x]"
  by (simp_all add: numeral_eq_Suc)

lemma addresses_eq:
  "IP_UNSPECIFIED = [0, 0, 0, 0]" "IP_BROADCAST = [255, 255, 255, 255]"
  "MAC_ZERO = [0, 0, 0, 0, 0, 0]" "MAC_BROADCAST = [255, 255, 255, 255, 255, 255]"
  by (simp_all add: IP_UNSPECIFIED_def IP_BROADCAST_def MAC_ZERO_def MAC_BROADCAST_def
      replicate_4_6)

lemma demo_acceptable: "acceptable device [10, 0, 2, 2] [0x52, 0x55, 10, 0, 2, 2]"
  by (simp add: acceptable_def addresses_eq stack_new_def)

theorem net_stack_never_panics_witness:
  "snd (snd (stack_receive device [1, 2, 3] [])) \<noteq> Panic
    \<and> snd (snd (send_udp device [10, 0, 2, 2] 9000 9000 [7] [])) \<noteq> Panic"
  using net_stack_never_panics [OF demo_ok(3,5), where dst = "[10, 0, 2, 2]" and frame = "[1, 2, 3]" and response = "[]"
      and payload = "[7]" and out = "[]" and sp = 9000 and dp = 9000]
  by (auto split: prod.splits)

theorem udp_delivered_witness:
  "(case send_udp (learned device [10, 0, 2, 2] (cf_mac host_config)) [10, 0, 2, 2] 9000 9001 [1, 2, 3] (replicate 60 0) of
      (_, out, _) \<Rightarrow> stack_receive host (take 45 out @ [0, 0]) [] =
        (learned host [10, 0, 2, 15] (cf_mac device_config), [],
         Ok (Udp \<lparr>ud_source = [10, 0, 2, 15], ud_destination = [10, 0, 2, 2], ud_source_port = 9000,
                  ud_destination_port = 9001, ud_payload = [1, 2, 3]\<rparr>)))"
proof -
  let ?s = "learned device [10, 0, 2, 2] (cf_mac host_config)"
  have s: "stack_ok ?s" "ips_ok ?s" using demo_ok by (simp_all add: stack_ok_learned ips_ok_learned)
  have look: "neighbor_lookup ?s [10, 0, 2, 2] = Some (cf_mac host_config)"
    using lookup_learned [OF demo_ok(3) demo_acceptable] by simp
  have nb: "[10, 0, 2, 2] \<noteq> IP_BROADCAST" by (simp add: addresses_eq)
  obtain s' out where send: "send_udp ?s [10, 0, 2, 2] 9000 9001 [1, 2, 3] (replicate 60 0) = (s', out, Ok (Datagram 45))"
    using send_udp_eq [OF s, of "[10, 0, 2, 2]" 9000 9001 "[1, 2, 3]" "replicate 60 0"] look nb demo_hop
    by (simp add: Let_def)
  from udp_delivered [OF s demo_ok(4) _ send, of "[0, 0]" "[]"] show ?thesis
    using look demo_hop send by simp
qed

theorem arp_resolution_witness:
  "case send_udp device [10, 0, 2, 2] 9000 9000 [7] (replicate 60 0) of (_, request, r) \<Rightarrow>
     r = Ok (NeighborDiscovery 42) \<and>
     (case stack_receive host (take 42 request) (replicate 60 0) of (_, _, r') \<Rightarrow> r' = Ok (Reply 42))"
proof -
  have nb: "[10, 0, 2, 2] \<noteq> IP_BROADCAST" by (simp add: addresses_eq)
  from arp_resolution [OF demo_ok(3,5,4), of "[10, 0, 2, 2]" "[7]" "replicate 60 0" "replicate 60 0" 9000 9000 "[]"]
  obtain sA1 request sB1 reply where
    "send_udp device [10, 0, 2, 2] 9000 9000 [7] (replicate 60 0) = (sA1, request, Ok (NeighborDiscovery 42))"
    "stack_receive host (take 42 request) (replicate 60 0) = (sB1, reply, Ok (Reply 42))"
    using nb demo_hop demo_acceptable by (auto simp: lookup_new)
  then show ?thesis by simp
qed

theorem ping_is_answered_witness:
  "snd (snd (stack_receive device (eth_frame (cf_mac device_config) (cf_mac host_config) 0x0800
        @ ipv4_sealed (length [8 :: byte, 0, 0xf7, 0xfd, 0, 1, 0, 1]) 7 IP_PROTOCOL_ICMP [10, 0, 2, 2] (cf_address device_config)
        @ [8, 0, 0xf7, 0xfd, 0, 1, 0, 1] @ [0, 0]) (replicate 50 0))) = Ok (Reply 42)"
proof -
  have "inet_checksum [8, 0, 0xf7, 0xfd, 0, 1, 0, 1] = 0" by code_simp
  then show ?thesis
    using ping_is_answered [OF demo_ok(3), where m = "cf_mac host_config" and src = "[10, 0, 2, 2]"
        and body = "[8, 0, 0xf7, 0xfd, 0, 1, 0, 1]" and response = "replicate 50 0" and i = 7 and pad = "[0, 0]"]
    by auto
qed

theorem arp_cache_never_stale_witness:
  "\<exists>s. (learn_all device [([10, 0, 2, 2], [1, 2, 3, 4, 5, 6]), ([10, 0, 2, 2], cf_mac host_config)]
        :: (net_error, net_stack) outcome) = Ok s
     \<and> neighbor_lookup s [10, 0, 2, 2] = Some (cf_mac host_config)
     \<and> map_of (rev (filter (\<lambda>b. acceptable device (fst b) (snd b))
          [([10, 0, 2, 2], [1, 2, 3, 4, 5, 6]), ([10, 0, 2, 2], cf_mac host_config)])) [10, 0, 2, 2]
        = Some (cf_mac host_config)"
proof -
  let ?bs = "[([10, 0, 2, 2], [1, 2, 3, 4, 5, 6]), ([10, 0, 2, 2], cf_mac host_config)]"
  let ?s1 = "learned device [10, 0, 2, 2] [1, 2, 3, 4, 5, 6]"
  let ?s = "learned ?s1 [10, 0, 2, 2] (cf_mac host_config)"
  have run: "(learn_all device ?bs :: (net_error, net_stack) outcome) = Ok ?s"
    using learn_all_eq [OF demo_ok(3), of ?bs] by simp
  have "stack_ok ?s1" using demo_ok(3) by (rule stack_ok_learned)
  moreover have "acceptable ?s1 [10, 0, 2, 2] (cf_mac host_config)"
    using arp.storable_put demo_acceptable by simp
  ultimately have look: "neighbor_lookup ?s [10, 0, 2, 2] = Some (cf_mac host_config)"
    by (rule lookup_learned)
  show ?thesis
    using run look arp_cache_never_stale [OF demo_ok(1) look run] by blast
qed

end
