(* ===== verification/Nr_Network.thy ===== *)
theory Nr_Network
  imports Nr_Mcp Nr_Net
begin

text \<open>
  The device's network service, \<^verbatim>\<open>crates/nr-boot/src/network.rs\<close>: the firmware NIC, the \<open>nr-net\<close>
  stack and the \<open>nr-mcp\<close> framing driven by one non-blocking poll.

  The firmware's Simple Network Protocol is a parameter: three operations on an abstract NIC state
  (receive into a buffer, transmit a frame, ask for a recycled transmit buffer). The receive loop of a
  poll ends when the NIC has no frame; the model runs it with fuel, so a NIC that always has one more
  frame is visible as \<open>None\<close>. Log lines are not modelled.
\<close>

subsection \<open>Data\<close>

definition FRAME_BYTES :: nat where "FRAME_BYTES = 1536"
definition MAX_MCP_MESSAGE :: nat where "MAX_MCP_MESSAGE = 32 * 1024"
definition MCP_PORT :: u16 where "MCP_PORT = 9000"
definition ADDRESS :: ipv4_address where "ADDRESS = [10, 0, 2, 15]"
definition SUBNET :: ipv4_address where "SUBNET = [255, 255, 255, 0]"
definition GATEWAY :: ipv4_address where "GATEWAY = [10, 0, 2, 2]"

lemma network_consts [simp]: "FRAME_BYTES = 1536" "MAX_MCP_MESSAGE = 32768"
  by (simp_all add: FRAME_BYTES_def MAX_MCP_MESSAGE_def)

record mcp_message =
  mm_kind :: kind
  mm_message_id :: u32
  mm_json :: bytes

record pending_message =
  pm_kind :: kind
  pm_message_id :: u32
  pm_json :: bytes
  pm_fragment :: u16

datatype rx_status = RxFrame nat | RxNotReady | RxFailed

record 'n nic_ops =
  nic_receive :: "'n \<Rightarrow> bytes \<Rightarrow> 'n \<times> bytes \<times> rx_status"
  nic_transmit :: "'n \<Rightarrow> bytes \<Rightarrow> 'n \<times> bool"
  nic_recycled :: "'n \<Rightarrow> 'n \<times> bool"

record 'n network =
  nw_nic :: 'n
  nw_stack :: net_stack
  nw_reassembler :: reassembler
  nw_pending :: "pending_message list"
  nw_inbox :: "mcp_message option"
  nw_rx :: bytes
  nw_tx :: bytes
  nw_mcp_datagram :: bytes
  nw_tx_busy :: bool
  nw_next_message_id :: u32

subsection \<open>Queueing\<close>

definition queue :: "kind \<Rightarrow> u32 \<Rightarrow> bytes \<Rightarrow> 'n network \<Rightarrow> 'n network" where
  "queue k message_id json w =
     (if length json \<le> MAX_MCP_MESSAGE \<and> json \<noteq> []
      then w\<lparr>nw_pending := nw_pending w @
             [\<lparr>pm_kind = k, pm_message_id = message_id, pm_json = json, pm_fragment = 0\<rparr>]\<rparr>
      else w)"

definition queue_response :: "u32 \<Rightarrow> bytes \<Rightarrow> 'n network \<Rightarrow> 'n network" where
  "queue_response message_id json w = queue DeviceResponse message_id json w"

definition queue_upstream_request :: "bytes \<Rightarrow> 'n network \<Rightarrow> 'n network \<times> u32" where
  "queue_upstream_request json w =
     (let i = nw_next_message_id w in
      (queue DeviceRequest i json (w\<lparr>nw_next_message_id := max (i + 1) 1\<rparr>), i))"

subsection \<open>Start-up\<close>

text \<open>The answers the firmware gives while the NIC is brought up; a call not reached is not used.\<close>

datatype network_state = NicStopped | NicStarted | NicInitialized | NicOther

record nic_boot =
  nb_found :: bool
  nb_opened :: bool
  nb_state :: network_state
  nb_start :: bool
  nb_initialize :: bool
  nb_hw_address_size :: nat
  nb_media_header_size :: nat
  nb_filters :: bool
  nb_current_address :: bytes

definition network_init :: "nic_boot \<Rightarrow> 'n \<Rightarrow> 'n network option" where
  "network_init b nic =
     (if \<not> nb_found b \<or> \<not> nb_opened b then None
      else if \<not> (case nb_state b of NicStopped \<Rightarrow> nb_start b \<and> nb_initialize b
               | NicStarted \<Rightarrow> nb_initialize b | NicInitialized \<Rightarrow> True | NicOther \<Rightarrow> False) then None
      else if nb_hw_address_size b \<noteq> 6 \<or> nb_media_header_size b \<noteq> 14 then None
      else if \<not> nb_filters b then None
      else Some (queue Hello 0 [0x7b, 0x7d]
        \<lparr>nw_nic = nic,
         nw_stack = stack_new 8 \<lparr>cf_mac = take 6 (nb_current_address b), cf_address = ADDRESS,
            cf_subnet_mask = SUBNET, cf_gateway = GATEWAY\<rparr>,
         nw_reassembler = reassembler_default MAX_MCP_MESSAGE, nw_pending = [], nw_inbox = None,
         nw_rx = replicate FRAME_BYTES 0, nw_tx = replicate FRAME_BYTES 0,
         nw_mcp_datagram = replicate MAX_DATAGRAM 0, nw_tx_busy = False, nw_next_message_id = 1\<rparr>))"

subsection \<open>Transmitting\<close>

definition transmit :: "'n nic_ops \<Rightarrow> nat \<Rightarrow> 'n network \<Rightarrow> ('e, 'n network) outcome" where
  "transmit ops len w =
     obind (slice (nw_tx w) 0 len) (\<lambda>frame.
     case nic_transmit ops (nw_nic w) frame of (nic, ok) \<Rightarrow>
       Ok (w\<lparr>nw_nic := nic, nw_tx_busy := (if ok then True else nw_tx_busy w)\<rparr>))"

definition reclaim_transmit :: "'n nic_ops \<Rightarrow> 'n network \<Rightarrow> 'n network" where
  "reclaim_transmit ops w =
     (if nw_tx_busy w
      then case nic_recycled ops (nw_nic w) of (nic, recycled) \<Rightarrow>
             w\<lparr>nw_nic := nic, nw_tx_busy := \<not> recycled\<rparr>
      else w)"

text \<open>The fragment just sent is accounted for; the last one takes the message off the queue.\<close>

definition advance :: "u16 \<Rightarrow> 'n network \<Rightarrow> ('e, 'n network) outcome" where
  "advance count w =
     (case nw_pending w of
        [] \<Rightarrow> Panic
      | m # ms \<Rightarrow>
          let m' = m\<lparr>pm_fragment := pm_fragment m + 1\<rparr>
          in Ok (w\<lparr>nw_pending := (if pm_fragment m' = count then ms else m' # ms)\<rparr>))"

definition send_pending :: "'n nic_ops \<Rightarrow> 'n network \<Rightarrow> ('e, 'n network) outcome" where
  "send_pending ops w =
     (if nw_tx_busy w then Ok w
      else case nw_pending w of
        [] \<Rightarrow> Ok w
      | message # rest \<Rightarrow>
          let count = (case fragment_count (length (pm_json message)) of Ok c \<Rightarrow> c | Err e \<Rightarrow> 1 | Panic \<Rightarrow> 1)
          in case encode_fragment (pm_kind message) (pm_message_id message) (pm_json message)
                    (pm_fragment message) (nw_mcp_datagram w) of
            Panic \<Rightarrow> Panic
          | Err e \<Rightarrow> Ok (w\<lparr>nw_pending := rest\<rparr>)
          | Ok (datagram_len, dg) \<Rightarrow>
              let w1 = w\<lparr>nw_mcp_datagram := dg\<rparr> in
              obind (slice dg 0 datagram_len) (\<lambda>payload.
              case send_udp (nw_stack w1) GATEWAY MCP_PORT MCP_PORT payload (nw_tx w1) of
                (stack', tx', r) \<Rightarrow>
                  let w2 = w1\<lparr>nw_stack := stack', nw_tx := tx'\<rparr> in
                  case r of
                    Ok (NeighborDiscovery len) \<Rightarrow> transmit ops len w2
                  | Ok (Datagram len) \<Rightarrow> obind (transmit ops len w2) (advance count)
                  | Err e \<Rightarrow> Ok (w2\<lparr>nw_pending := tl (nw_pending w2)\<rparr>)
                  | Panic \<Rightarrow> Panic))"

subsection \<open>Receiving\<close>

text \<open>What a received frame does; the flag is set when the receive loop stops on a complete message.\<close>

definition handle_event :: "'n nic_ops \<Rightarrow> (net_error, receive_event) outcome \<Rightarrow> 'n network
    \<Rightarrow> ('e, bool \<times> 'n network) outcome" where
  "handle_event ops r w =
     (case r of
        Panic \<Rightarrow> Panic
      | Err e \<Rightarrow> Ok (False, w)
      | Ok event \<Rightarrow>
          (case event of
             Reply len \<Rightarrow> if \<not> nw_tx_busy w then obind (transmit ops len w) (\<lambda>w'. Ok (False, w'))
                          else Ok (False, w)
           | Udp packet \<Rightarrow>
               if ud_destination_port packet = MCP_PORT
               then (case reassembler_push (nw_reassembler w) (ud_payload packet) of
                  (ra, pushed) \<Rightarrow> let w1 = w\<lparr>nw_reassembler := ra\<rparr> in
                    (case pushed of
                       Ok (Some message) \<Rightarrow>
                         Ok (True, w1\<lparr>nw_inbox := Some \<lparr>mm_kind = cm_kind message,
                             mm_message_id = cm_message_id message, mm_json = cm_payload message\<rparr>\<rparr>)
                     | Ok None \<Rightarrow> Ok (False, w1)
                     | Err e \<Rightarrow> Ok (False, w1)
                     | Panic \<Rightarrow> Panic))
               else Ok (False, w)
           | NoEvent \<Rightarrow> Ok (False, w)
           | NeighborLearned ip mac \<Rightarrow> Ok (False, w)))"

definition poll_step :: "'n nic_ops \<Rightarrow> 'n network \<Rightarrow> ('e, bool \<times> 'n network) outcome" where
  "poll_step ops w =
     (case nic_receive ops (nw_nic w) (nw_rx w) of (nic, rx, status) \<Rightarrow>
        let w1 = w\<lparr>nw_nic := nic, nw_rx := rx\<rparr> in
        case status of
          RxNotReady \<Rightarrow> Ok (True, w1)
        | RxFailed \<Rightarrow> Ok (True, w1)
        | RxFrame len \<Rightarrow>
            obind (slice (nw_rx w1) 0 len) (\<lambda>frame.
            case stack_receive (nw_stack w1) frame (nw_tx w1) of (stack', tx', r) \<Rightarrow>
              handle_event ops r (w1\<lparr>nw_stack := stack', nw_tx := tx'\<rparr>)))"

primrec poll_loop :: "nat \<Rightarrow> 'n nic_ops \<Rightarrow> 'n network \<Rightarrow> ('e, 'n network) outcome option" where
  "poll_loop 0 ops w = None"
| "poll_loop (Suc fuel) ops w =
     (case poll_step ops w of
        Ok (stop, w') \<Rightarrow> if stop then Some (Ok w') else poll_loop fuel ops w'
      | Err e \<Rightarrow> Some (Err e) | Panic \<Rightarrow> Some Panic)"

definition poll_stack :: "nat \<Rightarrow> 'n nic_ops \<Rightarrow> 'n network \<Rightarrow> ('e, 'n network) outcome option" where
  "poll_stack fuel ops w =
     (case send_pending ops (reclaim_transmit ops w) of
        Ok w' \<Rightarrow> poll_loop fuel ops w' | Err e \<Rightarrow> Some (Err e) | Panic \<Rightarrow> Some Panic)"

definition poll_mcp :: "nat \<Rightarrow> 'n nic_ops \<Rightarrow> 'n network
    \<Rightarrow> ('e, 'n network \<times> mcp_message option) outcome option" where
  "poll_mcp fuel ops w =
     map_option (\<lambda>r. obind r (\<lambda>w'. Ok (w'\<lparr>nw_inbox := None\<rparr>, nw_inbox w'))) (poll_stack fuel ops w)"

subsection \<open>The invariant\<close>

text \<open>What the code relies on of the firmware: a received frame fits the buffer it was given.\<close>

definition nic_sane :: "'n nic_ops \<Rightarrow> bool" where
  "nic_sane ops \<longleftrightarrow> (\<forall>n rx n' rx' st. nic_receive ops n rx = (n', rx', st) \<longrightarrow>
     length rx' = length rx \<and> (\<forall>len. st = RxFrame len \<longrightarrow> len \<le> length rx))"

definition pending_ok :: "pending_message \<Rightarrow> bool" where
  "pending_ok m \<longleftrightarrow> pm_json m \<noteq> [] \<and> length (pm_json m) \<le> 32768
     \<and> unat (pm_fragment m) < fragments (length (pm_json m))"

definition network_ok :: "'n network \<Rightarrow> bool" where
  "network_ok w \<longleftrightarrow> stack_ok (nw_stack w) \<and> ips_ok (nw_stack w)
     \<and> length (nw_rx w) = 1536 \<and> length (nw_tx w) = 1536 \<and> length (nw_mcp_datagram w) = 1200
     \<and> length (rs_buffer (nw_reassembler w)) = 32768
     \<and> (\<forall>m \<in> set (nw_pending w). pending_ok m) \<and> nw_next_message_id w \<noteq> 0"

lemma pending_sendable: "pending_ok m \<Longrightarrow> sendable (pm_json m)"
  by (simp add: pending_ok_def sendable_def)

lemma pending_fragments: "pending_ok m \<Longrightarrow> fragments (length (pm_json m)) \<le> 64"
  using fragments_bound [of "length (pm_json m)"] by (simp add: pending_ok_def)

lemma length_GATEWAY [simp]: "length GATEWAY = 4"
  by (simp add: GATEWAY_def)

lemma network_ok_queue: "network_ok w \<Longrightarrow> network_ok (queue k i json w)"
  using fragments_pos [of "length json"] by (auto simp: queue_def network_ok_def pending_ok_def)

lemma succ_max_neq_0: "max (i + 1) (1 :: u32) \<noteq> 0"
  by (auto simp: max_def)

lemma network_ok_upstream:
  "network_ok w \<Longrightarrow> network_ok (fst (queue_upstream_request json w))
     \<and> snd (queue_upstream_request json w) \<noteq> 0"
  unfolding queue_upstream_request_def Let_def
  by (auto simp: succ_max_neq_0 network_ok_def intro!: network_ok_queue [unfolded network_ok_def])

lemma network_ok_init:
  assumes "network_init b nic = Some w" and "6 \<le> length (nb_current_address b)"
  shows "network_ok w"
proof -
  let ?cfg = "\<lparr>cf_mac = take 6 (nb_current_address b), cf_address = ADDRESS, cf_subnet_mask = SUBNET,
     cf_gateway = GATEWAY\<rparr>"
  have "config_ok ?cfg" using assms(2) by (simp add: config_ok_def ADDRESS_def SUBNET_def GATEWAY_def)
  then have "stack_ok (stack_new 8 ?cfg)" "ips_ok (stack_new 8 ?cfg)" by (simp_all add: stack_ok_new ips_ok_new)
  then show ?thesis
    using assms(1)
    by (auto simp: network_init_def network_ok_def MAX_DATAGRAM_def reassembler_default_def
        simp del: network_consts(2) intro!: network_ok_queue [unfolded network_ok_def] split: if_splits)
      (simp_all add: network_ok_def)
qed

subsection \<open>One poll\<close>

lemma transmit_eq: "len \<le> length (nw_tx w) \<Longrightarrow> transmit ops len w =
    Ok (w\<lparr>nw_nic := fst (nic_transmit ops (nw_nic w) (take len (nw_tx w))),
          nw_tx_busy := (snd (nic_transmit ops (nw_nic w) (take len (nw_tx w))) \<or> nw_tx_busy w)\<rparr>)"
  by (auto simp: transmit_def sub_def split: prod.splits)

lemma gateway_unicast: "GATEWAY \<noteq> IP_BROADCAST"
  by (simp add: GATEWAY_def addresses_eq)

lemma length_datagram:
  assumes "sendable m" and "i < fragments (length m)"
  shows "length (datagram k mid m i) = 24 + min 1176 (length m - i * 1176)"
  using assms by (simp add: datagram_eq length_fragment_payload)

text \<open>What the head of the queue makes \<open>send_pending\<close> do.\<close>

lemma send_pending_eq:
  assumes ok: "network_ok w" and idle: "\<not> nw_tx_busy w" and head: "nw_pending w = m # ms"
  defines "d \<equiv> datagram (pm_kind m) (pm_message_id m) (pm_json m) (unat (pm_fragment m))"
  shows "\<exists>dg. length dg = 1200 \<and> send_pending ops w =
    (case neighbor_lookup (nw_stack w) (next_hop (nw_stack w) GATEWAY) of
       None \<Rightarrow> transmit ops 42 (w\<lparr>nw_mcp_datagram := dg,
           nw_tx := eth_frame MAC_BROADCAST (cf_mac (st_config (nw_stack w))) 0x0806
              @ arp_packet (st_config (nw_stack w)) 1 MAC_ZERO (next_hop (nw_stack w) GATEWAY)
              @ drop 42 (nw_tx w)\<rparr>)
     | Some mac \<Rightarrow>
         let s' = (nw_stack w)\<lparr>st_identification := st_identification (nw_stack w) + 1\<rparr>
         in obind (transmit ops (42 + length d) (w\<lparr>nw_mcp_datagram := dg, nw_stack := s',
              nw_tx := udp_frame s' mac GATEWAY MCP_PORT MCP_PORT d @ drop (42 + length d) (nw_tx w)\<rparr>))
            (advance (of_nat (fragments (length (pm_json m))))))"
proof -
  let ?i = "unat (pm_fragment m)" and ?p = "fragment_payload (pm_json m) (unat (pm_fragment m))"
  let ?s = "nw_stack w"
  have m: "pending_ok m" and st: "stack_ok ?s" "ips_ok ?s" and tx: "length (nw_tx w) = 1536"
    and dgl: "length (nw_mcp_datagram w) = 1200"
    using ok head by (auto simp: network_ok_def)
  have snd_: "sendable (pm_json m)" and i: "?i < fragments (length (pm_json m))"
    using m pending_sendable by (auto simp: pending_ok_def)
  have pl: "length ?p \<le> 1176" by (simp add: length_fragment_payload)
  have d: "d = wire_header (pm_kind m) (pm_message_id m) (pm_json m) ?i @ ?p"
    using datagram_eq [OF snd_ i] by (simp add: d_def)
  have dl: "length d = 24 + length ?p" by (simp add: d)
  have fc: "fragment_count (length (pm_json m)) = (Ok (of_nat (fragments (length (pm_json m)))) :: (mcp_error, u16) outcome)"
    using m by (auto simp: fragment_count_eq pending_ok_def)
  let ?dg = "d @ drop (24 + length ?p) (nw_mcp_datagram w)"
  have en: "encode_fragment (pm_kind m) (pm_message_id m) (pm_json m) (pm_fragment m) (nw_mcp_datagram w)
      = Ok (24 + length ?p, ?dg)"
    using encode_fragment_eq [OF snd_ i, of "nw_mcp_datagram w" "pm_kind m" "pm_message_id m"] pl dgl by (simp add: d)
  have sl: "slice ?dg 0 (24 + length ?p) = (Ok d :: ('e, bytes) outcome)"
    using dl by (simp add: slice_def sub_def)
  have "length ?dg = 1200" using pl dgl dl by simp
  then show ?thesis
    using idle head fc en gateway_unicast send_udp_eq [OF st length_GATEWAY, of MCP_PORT MCP_PORT d "nw_tx w"] pl tx dl
    by (intro exI [of _ ?dg]) (simp add: send_pending_def sl Let_def del: slice_ok split: option.splits)
qed

lemma pm_fragment_last:
  assumes "pending_ok m"
  shows "pm_fragment m + 1 = of_nat (fragments (length (pm_json m)))
      \<longleftrightarrow> unat (pm_fragment m) + 1 = fragments (length (pm_json m))"
    and "unat (pm_fragment m + 1) = unat (pm_fragment m) + 1"
proof -
  have n: "fragments (length (pm_json m)) \<le> 64" "unat (pm_fragment m) < fragments (length (pm_json m))"
    using assms pending_fragments by (auto simp: pending_ok_def)
  then show u: "unat (pm_fragment m + 1) = unat (pm_fragment m) + 1"
    by (simp add: unat_word_ariths)
  have "unat (of_nat (fragments (length (pm_json m))) :: u16) = fragments (length (pm_json m))"
    by (subst unat_of_nat) (use n in simp)
  with u show "pm_fragment m + 1 = of_nat (fragments (length (pm_json m)))
      \<longleftrightarrow> unat (pm_fragment m) + 1 = fragments (length (pm_json m))"
    by (metis unsigned_word_eqI)
qed

lemma advance_ok:
  assumes "network_ok w" and "nw_pending w = m # ms"
  shows "\<exists>w'. (advance (of_nat (fragments (length (pm_json m)))) w :: ('e, 'n network) outcome) = Ok w'
    \<and> network_ok w' \<and> nw_nic w' = nw_nic w"
proof -
  have m: "pending_ok m" using assms by (auto simp: network_ok_def)
  then have "pending_ok (m\<lparr>pm_fragment := pm_fragment m + 1\<rparr>)"
    if "unat (pm_fragment m) + 1 \<noteq> fragments (length (pm_json m))"
    using that pm_fragment_last [OF m] by (simp add: pending_ok_def)
  then show ?thesis
    using assms pm_fragment_last [OF m] by (auto simp: advance_def network_ok_def Let_def)
qed

lemma icmp_reply_fits: "receive_icmp s frame h n resp = (r, Ok (Reply k)) \<Longrightarrow> k \<le> length resp"
  by (auto simp: receive_icmp_def Let_def obind_Ok_iff split: if_splits outcome.splits option.splits)

lemma arp_reply_fits: "receive_arp s m packet resp = (s', r, Ok (Reply k)) \<Longrightarrow> k \<le> length resp"
  by (auto simp: receive_arp_def write_arp_reply_def write_arp_def Let_def obind_Ok_iff
      split: if_splits outcome.splits option.splits prod.splits)

lemma ipv4_reply_fits: "receive_ipv4 s m frame resp = (s', r, Ok (Reply k)) \<Longrightarrow> k \<le> length resp"
  unfolding receive_ipv4_def
  by (auto simp: obind_Ok_iff dest: icmp_reply_fits split: if_splits outcome.splits option.splits prod.splits)

lemma reply_fits: "stack_receive s frame resp = (s', r, Ok (Reply k)) \<Longrightarrow> k \<le> length resp"
  unfolding stack_receive_def
  by (auto dest: arp_reply_fits ipv4_reply_fits split: if_splits outcome.splits)

subsection \<open>The NIC during a poll\<close>

text \<open>A NIC whose queue of received frames is finite: \<open>\<mu>\<close> bounds how many frames it still has.\<close>

definition nic_drains :: "'n nic_ops \<Rightarrow> ('n \<Rightarrow> nat) \<Rightarrow> bool" where
  "nic_drains ops \<mu> \<longleftrightarrow>
     (\<forall>n rx n' rx' len. nic_receive ops n rx = (n', rx', RxFrame len) \<longrightarrow> \<mu> n' < \<mu> n)
     \<and> (\<forall>n f. \<mu> (fst (nic_transmit ops n f)) \<le> \<mu> n) \<and> (\<forall>n. \<mu> (fst (nic_recycled ops n)) \<le> \<mu> n)"

definition nic_step :: "'n nic_ops \<Rightarrow> 'n \<Rightarrow> 'n \<Rightarrow> bool" where
  "nic_step ops n n' \<longleftrightarrow> n' = n \<or> (\<exists>f. n' = fst (nic_transmit ops n f))"

lemma nic_step_refl [simp]: "nic_step ops n n" by (simp add: nic_step_def)

lemma nic_step_drains: "nic_drains ops \<mu> \<Longrightarrow> nic_step ops n n' \<Longrightarrow> \<mu> n' \<le> \<mu> n"
  by (auto simp: nic_step_def nic_drains_def)

lemma network_ok_transmit:
  "network_ok w \<Longrightarrow> len \<le> 1536 \<Longrightarrow> \<exists>w'. (transmit ops len w :: ('e, 'n network) outcome) = Ok w'
     \<and> network_ok w' \<and> nw_pending w' = nw_pending w \<and> nic_step ops (nw_nic w) (nw_nic w')"
  by (auto simp: transmit_eq network_ok_def nic_step_def)

lemma send_pending_ok:
  fixes w :: "'n network"
  assumes ok: "network_ok w"
  shows "\<exists>w'. (send_pending ops w :: ('e, 'n network) outcome) = Ok w' \<and> network_ok w'
    \<and> nic_step ops (nw_nic w) (nw_nic w')"
proof (cases "nw_tx_busy w \<or> nw_pending w = []")
  case True
  then show ?thesis using ok by (auto simp: send_pending_def)
next
  case False
  then obtain m ms where head: "nw_pending w = m # ms" and idle: "\<not> nw_tx_busy w" by (cases "nw_pending w") auto
  let ?d = "datagram (pm_kind m) (pm_message_id m) (pm_json m) (unat (pm_fragment m))"
  let ?s = "(nw_stack w)\<lparr>st_identification := st_identification (nw_stack w) + 1\<rparr>"
  obtain dg where dg: "length dg = 1200" and eq: "(send_pending ops w :: ('e, 'n network) outcome) =
    (case neighbor_lookup (nw_stack w) (next_hop (nw_stack w) GATEWAY) of
       None \<Rightarrow> transmit ops 42 (w\<lparr>nw_mcp_datagram := dg,
           nw_tx := eth_frame MAC_BROADCAST (cf_mac (st_config (nw_stack w))) 0x0806
              @ arp_packet (st_config (nw_stack w)) 1 MAC_ZERO (next_hop (nw_stack w) GATEWAY)
              @ drop 42 (nw_tx w)\<rparr>)
     | Some mac \<Rightarrow> obind (transmit ops (42 + length ?d) (w\<lparr>nw_mcp_datagram := dg, nw_stack := ?s,
              nw_tx := udp_frame ?s mac GATEWAY MCP_PORT MCP_PORT ?d @ drop (42 + length ?d) (nw_tx w)\<rparr>))
            (advance (of_nat (fragments (length (pm_json m))))))"
    using send_pending_eq [OF ok idle head, of ops] unfolding Let_def by blast
  have st: "stack_ok (nw_stack w)" "ips_ok (nw_stack w)" and tx: "length (nw_tx w) = 1536"
    and m: "pending_ok m" using ok head by (auto simp: network_ok_def)
  then have cfg: "config_ok (st_config (nw_stack w))" and hop: "length (next_hop (nw_stack w) GATEWAY) = 4"
    using length_next_hop [OF st(1) length_GATEWAY] by (simp_all add: stack_ok_def)
  have bc: "length MAC_BROADCAST = 6" "length MAC_ZERO = 6" by (simp_all add: addresses_eq)
  have dl: "length ?d \<le> 1200"
    using length_datagram [OF pending_sendable [OF m], of "unat (pm_fragment m)"] m by (simp add: pending_ok_def)
  show ?thesis
  proof (cases "neighbor_lookup (nw_stack w) (next_hop (nw_stack w) GATEWAY)")
    case None
    let ?tx = "eth_frame MAC_BROADCAST (cf_mac (st_config (nw_stack w))) 0x0806
              @ arp_packet (st_config (nw_stack w)) 1 MAC_ZERO (next_hop (nw_stack w) GATEWAY) @ drop 42 (nw_tx w)"
    have "length (eth_frame MAC_BROADCAST (cf_mac (st_config (nw_stack w))) 0x0806) = 14"
      using bc cfg by (simp add: config_ok_def)
    then have "length ?tx = 1536" using length_arp_packet [OF cfg bc(2) hop] tx by simp
    then have "network_ok (w\<lparr>nw_mcp_datagram := dg, nw_tx := ?tx\<rparr>)"
      using ok dg by (simp add: network_ok_def)
    from network_ok_transmit [OF this, of 42 ops] show ?thesis by (auto simp: eq None)
  next
    case (Some mac)
    let ?tx = "udp_frame ?s mac GATEWAY MCP_PORT MCP_PORT ?d @ drop (42 + length ?d) (nw_tx w)"
    have "length mac = 6" using ips_ok_lookup [OF st(2) Some] .
    then have "length (udp_frame ?s mac GATEWAY MCP_PORT MCP_PORT ?d) = 42 + length ?d"
      using cfg by (simp add: udp_frame_def config_ok_def)
    then have "length ?tx = 1536" using tx dl by simp
    moreover have "stack_ok ?s" "ips_ok ?s" using st by (simp_all add: stack_ok_def ips_ok_def)
    ultimately have "network_ok (w\<lparr>nw_mcp_datagram := dg, nw_stack := ?s, nw_tx := ?tx\<rparr>)"
      using ok dg by (simp add: network_ok_def)
    from network_ok_transmit [OF this, of "42 + length ?d" ops] dl
    obtain w1 where "transmit ops (42 + length ?d) (w\<lparr>nw_mcp_datagram := dg, nw_stack := ?s, nw_tx := ?tx\<rparr>) = (Ok w1 :: ('e, 'n network) outcome)"
        "network_ok w1" "nw_pending w1 = m # ms" "nic_step ops (nw_nic w) (nw_nic w1)"
      using head by auto
    with advance_ok [of w1 m ms] show ?thesis by (auto simp: eq Some)
  qed
qed

lemma handle_event_ok:
  fixes w :: "'n network"
  assumes "network_ok w" and "r \<noteq> Panic" and "\<And>k. r = Ok (Reply k) \<Longrightarrow> k \<le> 1536"
  shows "\<exists>b w'. (handle_event ops r w :: ('e, bool \<times> 'n network) outcome) = Ok (b, w') \<and> network_ok w'
    \<and> nic_step ops (nw_nic w) (nw_nic w')"
proof (cases r)
  case (Ok ev)
  show ?thesis
  proof (cases ev)
    case (Reply k)
    with Ok assms(3) have "k \<le> 1536" by blast
    with assms(1) Ok Reply show ?thesis
      by (auto simp: handle_event_def transmit_eq network_ok_def nic_step_def)
  next
    case (Udp packet)
    show ?thesis
      using assms(1) Ok Udp reassembler_push_not_Panic [of "nw_reassembler w" "ud_payload packet"]
        length_push [of "nw_reassembler w" "ud_payload packet"]
      by (auto simp: handle_event_def network_ok_def Let_def split: prod.splits outcome.splits option.splits)
  qed (use assms(1) Ok in \<open>auto simp: handle_event_def\<close>)
qed (use assms in \<open>auto simp: handle_event_def\<close>)

lemma poll_step_ok:
  fixes w :: "'n network"
  assumes nic: "nic_sane ops" "nic_drains ops \<mu>" and ok: "network_ok w"
  shows "\<exists>b w'. (poll_step ops w :: ('e, bool \<times> 'n network) outcome) = Ok (b, w') \<and> network_ok w'
    \<and> (\<not> b \<longrightarrow> \<mu> (nw_nic w') < \<mu> (nw_nic w))"
proof -
  obtain n rx st where rec: "nic_receive ops (nw_nic w) (nw_rx w) = (n, rx, st)" by (metis surj_pair)
  have sane: "length rx = 1536" and fits: "\<And>len. st = RxFrame len \<Longrightarrow> len \<le> 1536"
    using nic(1) rec ok unfolding nic_sane_def network_ok_def by metis+
  have drain: "\<mu> n < \<mu> (nw_nic w)" if "st = RxFrame len" for len
    using nic(2) rec that unfolding nic_drains_def by blast
  let ?w1 = "w\<lparr>nw_nic := n, nw_rx := rx\<rparr>"
  have ok1: "network_ok ?w1" using ok sane by (simp add: network_ok_def)
  show ?thesis
  proof (cases st)
    case (RxFrame len)
    obtain s' tx' r where recv: "stack_receive (nw_stack w) (take len rx) (nw_tx w) = (s', tx', r)"
      by (metis surj_pair)
    have st: "stack_ok (nw_stack w)" "ips_ok (nw_stack w)" "length (nw_tx w) = 1536"
      using ok by (simp_all add: network_ok_def)
    note sane' = stack_receive_sane [OF st(1), of "nw_tx w" "take len rx", unfolded recv]
    have "network_ok (?w1\<lparr>nw_stack := s', nw_tx := tx'\<rparr>)"
      using sane_keeps [OF sane' st(1,2)] sane' ok1 st(3) by (auto simp: network_ok_def sane_def)
    moreover have "r \<noteq> Panic" using sane' by (simp add: sane_def)
    moreover have "\<And>k. r = Ok (Reply k) \<Longrightarrow> k \<le> 1536" using reply_fits recv st(3) by metis
    ultimately obtain b w' where h: "(handle_event ops r (?w1\<lparr>nw_stack := s', nw_tx := tx'\<rparr>)
        :: ('e, bool \<times> 'n network) outcome) = Ok (b, w')" "network_ok w'"
        "nic_step ops n (nw_nic w')"
      using handle_event_ok [of "?w1\<lparr>nw_stack := s', nw_tx := tx'\<rparr>" r ops] by auto
    have "poll_step ops w = (Ok (b, w') :: ('e, bool \<times> 'n network) outcome)"
      using h(1) RxFrame rec recv fits [OF RxFrame] sane by (simp add: poll_step_def sub_def)
    moreover have "\<mu> (nw_nic w') < \<mu> (nw_nic w)"
      using nic_step_drains [OF nic(2) h(3)] drain [OF RxFrame] by simp
    ultimately show ?thesis using h(2) by blast
  qed (use rec ok1 in \<open>auto simp: poll_step_def\<close>)
qed

lemma poll_loop_ok:
  fixes w :: "'n network"
  assumes "nic_sane ops" "nic_drains ops \<mu>" "network_ok w" "\<mu> (nw_nic w) < fuel"
  shows "\<exists>w'. (poll_loop fuel ops w :: ('e, 'n network) outcome option) = Some (Ok w') \<and> network_ok w'"
  using assms(3,4)
proof (induction fuel arbitrary: w)
  case (Suc fuel)
  from poll_step_ok [OF assms(1,2) Suc.prems(1)] obtain b w' where
    st: "(poll_step ops w :: ('e, bool \<times> 'n network) outcome) = Ok (b, w')" "network_ok w'"
      "\<not> b \<longrightarrow> \<mu> (nw_nic w') < \<mu> (nw_nic w)"
    by blast
  show ?case
  proof (cases b)
    case False
    with Suc.IH [OF st(2)] st Suc.prems(2) show ?thesis by simp
  qed (use st in simp)
qed simp

lemma poll_mcp_Ok:
  fixes w :: "'n network"
  assumes "nic_sane ops" and "nic_drains ops \<mu>" and "network_ok w" and "\<mu> (nw_nic w) < fuel"
  shows "\<exists>w' m. (poll_mcp fuel ops w :: ('e, 'n network \<times> mcp_message option) outcome option) = Some (Ok (w', m))
    \<and> network_ok w' \<and> nw_inbox w' = None"
proof -
  let ?w0 = "reclaim_transmit ops w"
  have ok0: "network_ok ?w0" and mu0: "\<mu> (nw_nic ?w0) \<le> \<mu> (nw_nic w)"
    using assms(2,3) by (simp_all add: reclaim_transmit_def network_ok_def nic_drains_def split_beta)
  obtain w1 where w1: "(send_pending ops ?w0 :: ('e, 'n network) outcome) = Ok w1" "network_ok w1"
      "nic_step ops (nw_nic ?w0) (nw_nic w1)"
    using send_pending_ok [OF ok0] by blast
  have "\<mu> (nw_nic w1) < fuel"
    using nic_step_drains [OF assms(2) w1(3)] mu0 assms(4) by simp
  from poll_loop_ok [OF assms(1,2) w1(2) this] obtain w2 where
    "(poll_loop fuel ops w1 :: ('e, 'n network) outcome option) = Some (Ok w2)" "network_ok w2" by blast
  then have "(poll_mcp fuel ops w :: ('e, 'n network \<times> mcp_message option) outcome option)
      = Some (Ok (w2\<lparr>nw_inbox := None\<rparr>, nw_inbox w2))" "network_ok (w2\<lparr>nw_inbox := None\<rparr>)"
    using w1(1) by (simp_all add: poll_mcp_def poll_stack_def network_ok_def)
  then show ?thesis by auto
qed

text \<open>C11: A poll always comes back: with any firmware whose received frames fit the buffer and whose
  receive queue is finite, from any state the code can be in, one poll ends within that many
  iterations, without a panic, whatever the frames contain, and keeps the service invariant
  (buffers, cache, reassembler, and every queued message mid-transmission).\<close>

theorem poll_returns:
  fixes w :: "'n network"
  assumes "nic_sane ops" and "nic_drains ops \<mu>" and "network_ok w" and "\<mu> (nw_nic w) < fuel"
  shows "\<exists>w' m. (poll_mcp fuel ops w :: ('e, 'n network \<times> mcp_message option) outcome option) = Some (Ok (w', m))
    \<and> network_ok w' \<and> nw_inbox w' = None"
  by (rule poll_mcp_Ok [OF assms])

subsection \<open>From the queue to the other end\<close>

text \<open>A link that takes every frame, recycles buffers at once and has nothing to receive; \<open>sent\<close> is
  what it has put on the wire so far.\<close>

definition open_link :: "'n nic_ops \<Rightarrow> ('n \<Rightarrow> bytes list) \<Rightarrow> bool" where
  "open_link ops sent \<longleftrightarrow>
     (\<forall>n rx. \<exists>n'. nic_receive ops n rx = (n', rx, RxNotReady) \<and> sent n' = sent n)
     \<and> (\<forall>n f. \<exists>n'. nic_transmit ops n f = (n', True) \<and> sent n' = sent n @ [f])
     \<and> (\<forall>n. \<exists>n'. nic_recycled ops n = (n', True) \<and> sent n' = sent n)"

primrec poll_times :: "nat \<Rightarrow> 'n nic_ops \<Rightarrow> 'n network \<Rightarrow> (unit, 'n network) outcome" where
  "poll_times 0 ops w = Ok w"
| "poll_times (Suc k) ops w =
     (case (poll_mcp 1 ops w :: (unit, 'n network \<times> mcp_message option) outcome option) of
        Some (Ok (w', m)) \<Rightarrow> poll_times k ops w' | Some (Err e) \<Rightarrow> Err e | Some Panic \<Rightarrow> Panic | None \<Rightarrow> Panic)"

definition sent_frame :: "net_stack \<Rightarrow> mac_address \<Rightarrow> pending_message \<Rightarrow> bytes" where
  "sent_frame s mac m = udp_frame (s\<lparr>st_identification := st_identification s + 1\<rparr>) mac GATEWAY MCP_PORT MCP_PORT
     (datagram (pm_kind m) (pm_message_id m) (pm_json m) (unat (pm_fragment m)))"

lemma poll_sends_one:
  fixes w :: "'n network"
  assumes ok: "network_ok w" and link: "open_link ops sent" and head: "nw_pending w = m # ms"
    and look: "neighbor_lookup (nw_stack w) (next_hop (nw_stack w) GATEWAY) = Some mac"
  shows "\<exists>w' x. (poll_mcp 1 ops w :: ('e, 'n network \<times> mcp_message option) outcome option) = Some (Ok (w', x))
    \<and> network_ok w' \<and> sent (nw_nic w') = sent (nw_nic w) @ [sent_frame (nw_stack w) mac m]
    \<and> nw_stack w' = (nw_stack w)\<lparr>st_identification := st_identification (nw_stack w) + 1\<rparr>
    \<and> nw_pending w' = (if unat (pm_fragment m) + 1 = fragments (length (pm_json m)) then ms
                       else m\<lparr>pm_fragment := pm_fragment m + 1\<rparr> # ms)"
proof -
  define w0 where "w0 = reclaim_transmit ops w"
  obtain n0 where n0: "nic_recycled ops (nw_nic w) = (n0, True)" "sent n0 = sent (nw_nic w)"
    using link unfolding open_link_def by blast
  then have w0: "\<not> nw_tx_busy w0" "nw_pending w0 = m # ms" "nw_stack w0 = nw_stack w" "sent (nw_nic w0) = sent (nw_nic w)"
      "network_ok w0"
    using ok head by (auto simp: w0_def reclaim_transmit_def network_ok_def)
  let ?d = "datagram (pm_kind m) (pm_message_id m) (pm_json m) (unat (pm_fragment m))"
  let ?s = "(nw_stack w)\<lparr>st_identification := st_identification (nw_stack w) + 1\<rparr>"
  let ?f = "sent_frame (nw_stack w) mac m"
  let ?tx = "udp_frame ?s mac GATEWAY MCP_PORT MCP_PORT ?d @ drop (42 + length ?d) (nw_tx w0)"
  have st: "stack_ok (nw_stack w)" "ips_ok (nw_stack w)" and m: "pending_ok m" and tx: "length (nw_tx w0) = 1536"
    using ok head w0(5) by (auto simp: network_ok_def)
  obtain dg where dg: "length dg = 1200" and eq: "(send_pending ops w0 :: ('e, 'n network) outcome) =
      obind (transmit ops (42 + length ?d) (w0\<lparr>nw_mcp_datagram := dg, nw_stack := ?s, nw_tx := ?tx\<rparr>))
        (advance (of_nat (fragments (length (pm_json m)))))"
    using send_pending_eq [OF w0(5,1,2), of ops] look unfolding w0(3) Let_def by auto
  have "length ?d \<le> 1200"
    using length_datagram [OF pending_sendable [OF m], of "unat (pm_fragment m)"] m by (simp add: pending_ok_def)
  moreover have fl: "length ?f = 42 + length ?d"
    using st ips_ok_lookup [OF st(2) look] by (simp add: sent_frame_def udp_frame_def stack_ok_def config_ok_def)
  ultimately have room: "42 + length ?d \<le> length ?tx" and cut: "take (42 + length ?d) ?tx = ?f"
    using tx by (simp_all add: sent_frame_def)
  obtain n1 where n1: "nic_transmit ops (nw_nic w0) ?f = (n1, True)" "sent n1 = sent (nw_nic w) @ [?f]"
    using link w0(4) unfolding open_link_def by metis
  let ?w1 = "w0\<lparr>nw_mcp_datagram := dg, nw_stack := ?s, nw_tx := ?tx, nw_nic := n1, nw_tx_busy := True\<rparr>"
  let ?q = "if unat (pm_fragment m) + 1 = fragments (length (pm_json m)) then ms
            else m\<lparr>pm_fragment := pm_fragment m + 1\<rparr> # ms"
  have tr: "transmit ops (42 + length ?d) (w0\<lparr>nw_mcp_datagram := dg, nw_stack := ?s, nw_tx := ?tx\<rparr>)
      = (Ok ?w1 :: ('e, 'n network) outcome)"
    using room n1(1) cut by (subst transmit_eq) simp_all
  have adv: "advance (of_nat (fragments (length (pm_json m)))) ?w1 = (Ok (?w1\<lparr>nw_pending := ?q\<rparr>) :: ('e, 'n network) outcome)"
    using w0(2) pm_fragment_last [OF m] by (simp add: advance_def Let_def)
  have snd_: "send_pending ops w0 = (Ok (?w1\<lparr>nw_pending := ?q\<rparr>) :: ('e, 'n network) outcome)"
    unfolding eq tr obind.simps by (rule adv)
  obtain n2 where n2: "nic_receive ops n1 (nw_rx w0) = (n2, nw_rx w0, RxNotReady)" "sent n2 = sent n1"
    using link unfolding open_link_def by blast
  have run: "poll_mcp 1 ops w = Some (Ok (?w1\<lparr>nw_pending := ?q, nw_nic := n2, nw_inbox := None\<rparr>, nw_inbox w0)
      :: ('e, 'n network \<times> mcp_message option) outcome)"
    using snd_ n2(1) by (simp add: poll_mcp_def poll_stack_def poll_step_def flip: w0_def)
  have "network_ok (?w1\<lparr>nw_pending := ?q\<rparr>)"
    using send_pending_ok [OF w0(5), of ops] snd_ by (metis outcome.inject(1))
  then have "network_ok (?w1\<lparr>nw_pending := ?q, nw_nic := n2, nw_inbox := None\<rparr>)"
    by (simp add: network_ok_def)
  with run n1(2) n2(2) show ?thesis by (intro exI conjI) (assumption, simp_all)
qed

definition wire_frame :: "net_config \<Rightarrow> mac_address \<Rightarrow> pending_message \<Rightarrow> nat \<Rightarrow> bytes \<Rightarrow> bool" where
  "wire_frame cfg mac m i f \<longleftrightarrow> (\<exists>s. st_config s = cfg \<and> f = udp_frame s mac GATEWAY MCP_PORT MCP_PORT
     (datagram (pm_kind m) (pm_message_id m) (pm_json m) i))"

lemma ident_lookup:
  "neighbor_lookup (s\<lparr>st_identification := i\<rparr>) ip = neighbor_lookup s ip"
  "next_hop (s\<lparr>st_identification := i\<rparr>) ip = next_hop s ip"
  by (simp_all add: neighbor_lookup_def next_hop_def)

lemma length_push_results [simp]: "length (snd (push_all r ds)) = length ds"
  by (induction ds arbitrary: r) (simp_all add: Let_def)

lemma last_push_all: "last (snd (push_all r (xs @ [d]))) = snd (reassembler_push (fst (push_all r xs)) d)"
proof (induction xs arbitrary: r)
  case (Cons x xs)
  have "snd (push_all (fst (reassembler_push r x)) (xs @ [d])) \<noteq> []"
    by (simp flip: length_greater_0_conv)
  with Cons show ?case by (simp add: Let_def)
qed (simp add: Let_def)

lemma poll_sends_all:
  fixes w :: "'n network"
  assumes "network_ok w" and link: "open_link ops sent" and "nw_pending w = m # ms"
    and "neighbor_lookup (nw_stack w) (next_hop (nw_stack w) GATEWAY) = Some mac"
    and "unat (pm_fragment m) + k = fragments (length (pm_json m))"
  shows "\<exists>w' fs. poll_times k ops w = Ok w' \<and> network_ok w' \<and> nw_pending w' = ms
    \<and> sent (nw_nic w') = sent (nw_nic w) @ fs \<and> length fs = k
    \<and> (\<forall>j < k. wire_frame (st_config (nw_stack w)) mac m (unat (pm_fragment m) + j) (fs ! j))"
  using assms(1,3-)
proof (induction k arbitrary: w m)
  case 0
  then have "pending_ok m" by (simp add: network_ok_def)
  with 0 show ?case by (simp add: pending_ok_def)
next
  case (Suc k)
  have m: "pending_ok m" using Suc.prems(1,2) by (simp add: network_ok_def)
  from poll_sends_one [OF Suc.prems(1) link Suc.prems(2,3)]
  obtain w1 x where w1: "(poll_mcp 1 ops w :: (unit, 'n network \<times> mcp_message option) outcome option) = Some (Ok (w1, x))"
      "network_ok w1" "sent (nw_nic w1) = sent (nw_nic w) @ [sent_frame (nw_stack w) mac m]"
      "nw_stack w1 = (nw_stack w)\<lparr>st_identification := st_identification (nw_stack w) + 1\<rparr>"
      "nw_pending w1 = (if unat (pm_fragment m) + 1 = fragments (length (pm_json m)) then ms
                       else m\<lparr>pm_fragment := pm_fragment m + 1\<rparr> # ms)"
    by blast
  have first: "wire_frame (st_config (nw_stack w)) mac m (unat (pm_fragment m)) (sent_frame (nw_stack w) mac m)"
    unfolding wire_frame_def sent_frame_def by (intro exI conjI) (auto simp: refl)
  show ?case
  proof (cases k)
    case 0
    with w1 Suc.prems(4) first show ?thesis
      by (intro exI [of _ w1] exI [of _ "[sent_frame (nw_stack w) mac m]"]) simp
  next
    case (Suc k')
    let ?m = "m\<lparr>pm_fragment := pm_fragment m + 1\<rparr>"
    have head: "nw_pending w1 = ?m # ms" using w1(5) Suc.prems(4) Suc by simp
    have look: "neighbor_lookup (nw_stack w1) (next_hop (nw_stack w1) GATEWAY) = Some mac"
      using Suc.prems(3) by (simp add: w1(4) ident_lookup)
    have "unat (pm_fragment ?m) + k = fragments (length (pm_json ?m))"
      using Suc.prems(4) pm_fragment_last(2) [OF m] by simp
    from Suc.IH [OF w1(2) head look this]
    obtain w' fs where w': "poll_times k ops w1 = Ok w'" "network_ok w'" "nw_pending w' = ms"
        "sent (nw_nic w') = sent (nw_nic w1) @ fs" "length fs = k"
        "\<forall>j < k. wire_frame (st_config (nw_stack w1)) mac ?m (unat (pm_fragment ?m) + j) (fs ! j)"
      by blast
    have step: "wire_frame (st_config (nw_stack w)) mac m (unat (pm_fragment m) + j)
        ((sent_frame (nw_stack w) mac m # fs) ! j)" if "j < Suc k" for j
    proof (cases j)
      case (Suc j')
      with that w'(6) have "wire_frame (st_config (nw_stack w1)) mac ?m (unat (pm_fragment ?m) + j') (fs ! j')"
        by simp
      then show ?thesis using Suc pm_fragment_last(2) [OF m] by (simp add: wire_frame_def w1(4))
    qed (use first in simp)
    show ?thesis
      using w1(1,3) w' step
      by (intro exI [of _ w'] exI [of _ "sent_frame (nw_stack w) mac m # fs"]) simp
  qed
qed

lemma host_receives:
  assumes "wire_frame cfg (cf_mac (st_config g)) m i f" and "config_ok cfg" and "stack_ok g"
    and "cf_address (st_config g) = GATEWAY" and "pending_ok m" and "i < fragments (length (pm_json m))"
  shows "stack_receive g (f @ pad) resp = (learned g (cf_address cfg) (cf_mac cfg), resp,
    Ok (Udp \<lparr>ud_source = cf_address cfg, ud_destination = GATEWAY, ud_source_port = MCP_PORT,
      ud_destination_port = MCP_PORT, ud_payload = datagram (pm_kind m) (pm_message_id m) (pm_json m) i\<rparr>))"
proof -
  obtain s where s: "st_config s = cfg" "f = udp_frame s (cf_mac (st_config g)) GATEWAY MCP_PORT MCP_PORT
     (datagram (pm_kind m) (pm_message_id m) (pm_json m) i)"
    using assms(1) by (auto simp: wire_frame_def)
  have "length (cf_mac (st_config g)) = 6" using assms(3) by (simp add: stack_ok_def config_ok_def)
  moreover have "length (datagram (pm_kind m) (pm_message_id m) (pm_json m) i) \<le> 65507"
    using length_datagram [OF pending_sendable [OF assms(5)] assms(6)] by simp
  ultimately show ?thesis
    using receive_udp_frame [of s g "cf_mac (st_config g)" GATEWAY] assms(2-4) s by simp
qed


subsection \<open>The properties on a concrete NIC\<close>

text \<open>A cable: the frames still to be received, and the frames sent.\<close>

definition cable :: "(bytes list \<times> bytes list) nic_ops" where
  "cable = \<lparr>nic_receive = (\<lambda>n rx. case fst n of
       [] \<Rightarrow> (n, rx, RxNotReady)
     | f # fs \<Rightarrow> if length f \<le> length rx then ((fs, snd n), put_at rx 0 f, RxFrame (length f))
                 else ((fs, snd n), rx, RxFailed)),
     nic_transmit = (\<lambda>n f. ((fst n, snd n @ [f]), True)),
     nic_recycled = (\<lambda>n. (n, True))\<rparr>"

definition demo_boot :: nic_boot where
  "demo_boot = \<lparr>nb_found = True, nb_opened = True, nb_state = NicStopped, nb_start = True, nb_initialize = True,
     nb_hw_address_size = 6, nb_media_header_size = 14, nb_filters = True,
     nb_current_address = [0x52, 0x54, 0, 0x12, 0x34, 0x56]\<rparr>"

definition demo_network :: "bytes list \<Rightarrow> (bytes list \<times> bytes list) network" where
  "demo_network fs = the (network_init demo_boot (fs, []))"

lemma demo_network_init: "network_init demo_boot (fs, []) = Some (demo_network fs)"
  by (simp add: demo_network_def network_init_def demo_boot_def)

lemma demo_network_ok: "network_ok (demo_network fs)"
  by (rule network_ok_init [OF demo_network_init]) (simp add: demo_boot_def)

lemma demo_network_simps [simp]:
  "nw_nic (demo_network fs) = (fs, [])"
  "nw_stack (demo_network fs) = device"
  "nw_pending (demo_network fs) = [\<lparr>pm_kind = Hello, pm_message_id = 0, pm_json = [0x7b, 0x7d], pm_fragment = 0\<rparr>]"
  by (simp_all add: demo_network_def network_init_def demo_boot_def queue_def device_config_def ADDRESS_def
      SUBNET_def GATEWAY_def)

lemma cable_sane: "nic_sane cable" "nic_drains cable (\<lambda>n. length (fst n))"
  by (auto simp: nic_sane_def nic_drains_def cable_def split: list.splits if_splits)

theorem poll_returns_witness:
  "\<exists>w' m. (poll_mcp 2 cable (demo_network [[1, 2, 3]])
     :: (unit, (bytes list \<times> bytes list) network \<times> mcp_message option) outcome option) = Some (Ok (w', m))"
  using poll_returns [OF cable_sane demo_network_ok, of "[[1, 2, 3]]" 2] by auto

text \<open>The same cable with its receive queue cut off.\<close>

definition sending_cable :: "bytes list nic_ops" where
  "sending_cable = \<lparr>nic_receive = (\<lambda>n rx. (n, rx, RxNotReady)), nic_transmit = (\<lambda>n f. (n @ [f], True)),
     nic_recycled = (\<lambda>n. (n, True))\<rparr>"

definition demo_sender :: "bytes list network" where
  "demo_sender = (the (network_init demo_boot []))\<lparr>nw_stack := learned device [10, 0, 2, 2] (cf_mac host_config)\<rparr>"

lemma demo_sender_ok: "network_ok demo_sender"
proof -
  have "network_init demo_boot ([] :: bytes list) = Some (the (network_init demo_boot []))"
    by (simp add: network_init_def demo_boot_def)
  then have "network_ok (the (network_init demo_boot ([] :: bytes list)))"
    by (rule network_ok_init) (simp add: demo_boot_def)
  then show ?thesis
    using demo_ok by (simp add: demo_sender_def network_ok_def stack_ok_learned ips_ok_learned)
qed


end
