(* ===== verification/Nr_Utf8.thy ===== *)
theory Nr_Utf8
  imports Nr_Prelude
begin

text \<open>
  Text as the Rust sources use it: a \<open>char\<close> is its code point, a \<open>&str\<close> the list of its characters,
  with \<open>len_utf8\<close>, \<open>as_bytes\<close> and the validation of \<open>core::str::from_utf8\<close> (the result says how many
  bytes are valid, and whether the rest is malformed or only cut short); then \<open>flush_utf8\<close> of
  \<^verbatim>\<open>crates/nr-token/src/lib.rs\<close>, which moves complete characters of a byte stream into a string.
\<close>

type_synonym rchar = nat
type_synonym rstr = "nat list"

definition scalar :: "rchar \<Rightarrow> bool" where
  "scalar c \<longleftrightarrow> c < 0x110000 \<and> \<not> (0xD800 \<le> c \<and> c \<le> 0xDFFF)"

definition len_utf8 :: "rchar \<Rightarrow> nat" where
  "len_utf8 c = (if c < 0x80 then 1 else if c < 0x800 then 2 else if c < 0x10000 then 3 else 4)"

definition cont_byte :: "nat \<Rightarrow> byte" where
  "cont_byte x = of_nat (0x80 + x mod 64)"

definition utf8_char :: "rchar \<Rightarrow> bytes" where
  "utf8_char c =
     (if c < 0x80 then [of_nat c]
      else if c < 0x800 then [of_nat (0xC0 + c div 64), cont_byte c]
      else if c < 0x10000 then [of_nat (0xE0 + c div 4096), cont_byte (c div 64), cont_byte c]
      else [of_nat (0xF0 + c div 262144), cont_byte (c div 4096), cont_byte (c div 64), cont_byte c])"

definition utf8 :: "rstr \<Rightarrow> bytes" where
  "utf8 s = concat (map utf8_char s)"

definition str_len :: "rstr \<Rightarrow> nat" where
  "str_len s = sum_list (map len_utf8 s)"

lemma length_utf8_char [simp]: "length (utf8_char c) = len_utf8 c"
  by (simp add: utf8_char_def len_utf8_def)

lemma len_utf8_bounds [simp]: "0 < len_utf8 c" "Suc 0 \<le> len_utf8 c" "len_utf8 c \<le> 4" "len_utf8 c \<noteq> 0"
  by (simp_all add: len_utf8_def)

lemma utf8_char_nonempty [simp]: "utf8_char c \<noteq> []"
  using length_utf8_char [of c] len_utf8_bounds(1) [of c] by (metis length_0_conv less_irrefl)

lemma utf8_simps [simp]: "utf8 [] = []" "utf8 (c # s) = utf8_char c @ utf8 s" "utf8 (s @ t) = utf8 s @ utf8 t"
  by (simp_all add: utf8_def)

lemma str_len_simps [simp]: "str_len [] = 0" "str_len (c # s) = len_utf8 c + str_len s" "str_len (s @ t) = str_len s + str_len t"
  by (simp_all add: str_len_def)

lemma length_utf8 [simp]: "length (utf8 s) = str_len s"
  by (induction s) simp_all

subsection \<open>Validation\<close>

text \<open>One step of \<open>from_utf8\<close> at the start of a character: a character of so many bytes, a malformed
  sequence of so many bytes, or one the input cuts short.\<close>

datatype utf8_step = StepChar nat | StepInvalid nat | StepIncomplete

definition is_cont :: "byte \<Rightarrow> bool" where
  "is_cont b \<longleftrightarrow> 0x80 \<le> unat b \<and> unat b \<le> 0xBF"

definition second_ok :: "byte \<Rightarrow> byte \<Rightarrow> bool" where
  "second_ok a b \<longleftrightarrow> is_cont b \<and> (unat a = 0xE0 \<longrightarrow> 0xA0 \<le> unat b) \<and> (unat a = 0xED \<longrightarrow> unat b \<le> 0x9F)
     \<and> (unat a = 0xF0 \<longrightarrow> 0x90 \<le> unat b) \<and> (unat a = 0xF4 \<longrightarrow> unat b \<le> 0x8F)"

definition utf8_width :: "byte \<Rightarrow> nat" where
  "utf8_width b = (if unat b < 0x80 then 1 else if 0xC2 \<le> unat b \<and> unat b \<le> 0xDF then 2
     else if 0xE0 \<le> unat b \<and> unat b \<le> 0xEF then 3 else if 0xF0 \<le> unat b \<and> unat b \<le> 0xF4 then 4 else 0)"

fun utf8_next :: "byte \<Rightarrow> bytes \<Rightarrow> utf8_step" where
  "utf8_next a bs =
     (if utf8_width a = 1 then StepChar 1
      else if utf8_width a = 0 then StepInvalid 1
      else case bs of [] \<Rightarrow> StepIncomplete
      | b # bs \<Rightarrow> if \<not> second_ok a b then StepInvalid 1
      else if utf8_width a = 2 then StepChar 2
      else case bs of [] \<Rightarrow> StepIncomplete
      | c # bs \<Rightarrow> if \<not> is_cont c then StepInvalid 2
      else if utf8_width a = 3 then StepChar 3
      else case bs of [] \<Rightarrow> StepIncomplete
      | d # bs \<Rightarrow> if \<not> is_cont d then StepInvalid 3 else StepChar 4)"

declare utf8_next.simps [simp del]

datatype utf8_result = Utf8Ok | Utf8Err nat "nat option"

text \<open>\<open>Utf8Err valid_up_to error_len\<close>.\<close>

function from_utf8 :: "bytes \<Rightarrow> utf8_result" where
  "from_utf8 [] = Utf8Ok"
| "from_utf8 (a # bs) =
     (case utf8_next a bs of
        StepInvalid k \<Rightarrow> Utf8Err 0 (Some k)
      | StepIncomplete \<Rightarrow> Utf8Err 0 None
      | StepChar k \<Rightarrow>
          (case from_utf8 (drop (k - 1) bs) of Utf8Ok \<Rightarrow> Utf8Ok | Utf8Err ok el \<Rightarrow> Utf8Err (k + ok) el))"
  by pat_completeness auto
termination by (relation "measure length") auto

subsection \<open>The decoder\<close>

function flush_utf8 :: "bytes \<Rightarrow> bytes \<Rightarrow> ('e, bytes \<times> bytes) outcome" where
  "flush_utf8 pending out =
     (case from_utf8 pending of
        Utf8Ok \<Rightarrow> Ok ([], out @ pending)
      | Utf8Err ok error_len \<Rightarrow>
          if ok > 0 then
            (if ok \<le> length pending \<and> from_utf8 (take ok pending) = Utf8Ok
             then flush_utf8 (drop ok pending) (out @ take ok pending) else Panic)
          else if error_len \<noteq> None then flush_utf8 (drop 1 pending) out
          else Ok (pending, out))"
  by pat_completeness auto
termination
proof (relation "measure (length \<circ> fst)", goal_cases)
  case (3 pending out x21 x22)
  then show ?case by (cases pending) auto
next
  case (2 pending out x21 x22)
  then show ?case by (cases pending) auto
qed simp

declare flush_utf8.simps [simp del]

subsection \<open>Every character is recognised\<close>

lemma unat_byte_of_nat: "x < 256 \<Longrightarrow> unat (of_nat x :: byte) = x"
  by (subst unat_of_nat) simp

lemma cont_byte_is_cont [simp]: "is_cont (cont_byte x)"
  and unat_cont_byte [simp]: "unat (cont_byte x) = 0x80 + x mod 64"
proof -
  have "x mod 64 < 64" by simp
  then show "unat (cont_byte x) = 0x80 + x mod 64" unfolding cont_byte_def by (intro unat_byte_of_nat) linarith
  with \<open>x mod 64 < 64\<close> show "is_cont (cont_byte x)" unfolding is_cont_def by linarith
qed

lemma utf8_next_char:
  assumes "scalar c"
  shows "utf8_next (hd (utf8_char c)) (tl (utf8_char c) @ r) = StepChar (len_utf8 c)"
    and "0 < k \<Longrightarrow> k < len_utf8 c \<Longrightarrow> utf8_next (hd (utf8_char c)) (take (k - 1) (tl (utf8_char c))) = StepIncomplete"
proof -
  consider "c < 0x80" | "0x80 \<le> c" "c < 0x800" | "0x800 \<le> c" "c < 0x10000" | "0x10000 \<le> c" "c < 0x110000"
    using assms unfolding scalar_def by linarith
  then have "utf8_next (hd (utf8_char c)) (tl (utf8_char c) @ r) = StepChar (len_utf8 c)
    \<and> (0 < k \<and> k < len_utf8 c \<longrightarrow> utf8_next (hd (utf8_char c)) (take (k - 1) (tl (utf8_char c))) = StepIncomplete)"
  proof cases
    case 1
    then have "utf8_width (of_nat c) = 1" by (simp add: utf8_width_def unat_byte_of_nat)
    with 1 show ?thesis by (auto simp: utf8_char_def len_utf8_def utf8_next.simps)
  next
    case 2
    have d: "2 \<le> c div 64" "c div 64 \<le> 31" using 2 by linarith+
    then have u: "unat (of_nat (0xC0 + c div 64) :: byte) = 0xC0 + c div 64" by (intro unat_byte_of_nat) linarith
    then have w: "utf8_width (of_nat (0xC0 + c div 64)) = 2" unfolding utf8_width_def u using d by simp
    have s: "second_ok (of_nat (0xC0 + c div 64)) (cont_byte c)" unfolding second_ok_def u using d by simp
    show ?thesis using 2 w s by (auto simp: utf8_char_def len_utf8_def utf8_next.simps simp del: of_nat_add)
  next
    case 3
    have d: "c div 4096 \<le> 15" using 3 by linarith
    then have u: "unat (of_nat (0xE0 + c div 4096) :: byte) = 0xE0 + c div 4096" by (intro unat_byte_of_nat) linarith
    then have w: "utf8_width (of_nat (0xE0 + c div 4096)) = 3" unfolding utf8_width_def u using d by simp
    have dm: "c div 64 = 64 * (c div 4096) + c div 64 mod 64"
      using mult_div_mod_eq [of 64 "c div 64"] by (simp add: div_mult2_eq [symmetric])
    have lo: "32 \<le> c div 64" using 3 by linarith
    have sur: "c div 64 < 864 \<or> 896 \<le> c div 64" using assms unfolding scalar_def by linarith
    have "c div 4096 = 0 \<Longrightarrow> 32 \<le> c div 64 mod 64" "c div 4096 = 13 \<Longrightarrow> c div 64 mod 64 \<le> 31"
      using dm lo sur mod_less_divisor [of 64 "c div 64"] by linarith+
    then have s: "second_ok (of_nat (0xE0 + c div 4096)) (cont_byte (c div 64))" unfolding second_ok_def u using d by simp
    have "k = 1 \<or> k = 2" if "0 < k" "k < 3" using that by auto
    then show ?thesis using 3 w s
      by (auto simp: utf8_char_def len_utf8_def utf8_next.simps simp del: of_nat_add)
  next
    case 4
    have d: "c div 262144 \<le> 4" using 4 by linarith
    then have u: "unat (of_nat (0xF0 + c div 262144) :: byte) = 0xF0 + c div 262144" by (intro unat_byte_of_nat) linarith
    then have w: "utf8_width (of_nat (0xF0 + c div 262144)) = 4" unfolding utf8_width_def u using d by simp
    have dm: "c div 4096 = 64 * (c div 262144) + c div 4096 mod 64"
      using mult_div_mod_eq [of 64 "c div 4096"] by (simp add: div_mult2_eq [symmetric])
    have lo: "16 \<le> c div 4096" "c div 4096 < 272" using 4 by linarith+
    have "c div 262144 = 0 \<Longrightarrow> 16 \<le> c div 4096 mod 64" "c div 262144 = 4 \<Longrightarrow> c div 4096 mod 64 \<le> 15"
      using dm lo by linarith+
    then have s: "second_ok (of_nat (0xF0 + c div 262144)) (cont_byte (c div 4096))" unfolding second_ok_def u using d by simp
    have "k = 1 \<or> k = 2 \<or> k = 3" if "0 < k" "k < 4" using that by auto
    then show ?thesis using 4 w s
      by (auto simp: utf8_char_def len_utf8_def utf8_next.simps simp del: of_nat_add)
  qed
  then show "utf8_next (hd (utf8_char c)) (tl (utf8_char c) @ r) = StepChar (len_utf8 c)"
    "0 < k \<Longrightarrow> k < len_utf8 c \<Longrightarrow> utf8_next (hd (utf8_char c)) (take (k - 1) (tl (utf8_char c))) = StepIncomplete"
    by blast+
qed

subsection \<open>Validation of text\<close>

lemma utf8_char_cons: obtains x xs where "utf8_char c = x # xs" "length xs = len_utf8 c - 1"
  using length_utf8_char [of c] by (cases "utf8_char c") auto

lemma from_utf8_char:
  assumes "scalar c"
  shows "from_utf8 (utf8_char c @ r) = (case from_utf8 r of Utf8Ok \<Rightarrow> Utf8Ok | Utf8Err ok el \<Rightarrow> Utf8Err (len_utf8 c + ok) el)"
proof -
  obtain x xs where c: "utf8_char c = x # xs" "length xs = len_utf8 c - 1" by (rule utf8_char_cons)
  then show ?thesis using utf8_next_char(1) [OF assms, of r] by simp
qed

lemma from_utf8_text:
  "\<forall>c \<in> set s. scalar c \<Longrightarrow>
     from_utf8 (utf8 s @ r) = (case from_utf8 r of Utf8Ok \<Rightarrow> Utf8Ok | Utf8Err ok el \<Rightarrow> Utf8Err (str_len s + ok) el)"
  by (induction s) (auto simp: from_utf8_char split: utf8_result.splits)

lemma from_utf8_cut:
  assumes "scalar c" and "0 < k" and "k < len_utf8 c"
  shows "from_utf8 (take k (utf8_char c)) = Utf8Err 0 None"
proof -
  obtain x xs where c: "utf8_char c = x # xs" by (rule utf8_char_cons)
  then have "take k (utf8_char c) = x # take (k - 1) xs" using assms(2) by (cases k) simp_all
  then show ?thesis using utf8_next_char(2) [OF assms] c by simp
qed

lemma utf8_next_take:
  "utf8_next a bs = StepChar k \<Longrightarrow>
     0 < k \<and> k \<le> 4 \<and> k - 1 \<le> length bs \<and> utf8_next a (take (k - 1) bs @ r) = StepChar k"
  by (auto simp: utf8_next.simps split: if_splits list.splits)

lemma utf8_next_incomplete: "utf8_next a bs = StepIncomplete \<Longrightarrow> length bs < 3"
  by (auto simp: utf8_next.simps split: if_splits list.splits)

lemma from_utf8_append: "from_utf8 xs = Utf8Ok \<Longrightarrow> from_utf8 (xs @ ys) =
    (case from_utf8 ys of Utf8Ok \<Rightarrow> Utf8Ok | Utf8Err ok el \<Rightarrow> Utf8Err (length xs + ok) el)"
proof (induction xs rule: from_utf8.induct)
  case (2 a bs)
  then obtain k where k: "utf8_next a bs = StepChar k" "from_utf8 (drop (k - 1) bs) = Utf8Ok"
    by (auto split: utf8_step.splits utf8_result.splits)
  note t = utf8_next_take [OF k(1), of "drop (k - 1) bs @ ys"]
  then have n: "utf8_next a (bs @ ys) = StepChar k" by (metis append.assoc append_take_drop_id)
  have kl: "k - 1 \<le> length bs" using t by blast
  then have d: "drop (k - 1) (bs @ ys) = drop (k - 1) bs @ ys" by simp
  have "length (drop (k - 1) bs) + k = Suc (length bs)" using t by auto
  with 2(1) [OF k] n d show ?case by (auto split: utf8_result.splits)
qed (auto split: utf8_result.splits)

lemma from_utf8_valid_prefix:
  "from_utf8 p = Utf8Err ok el \<Longrightarrow> ok \<le> length p \<and> from_utf8 (take ok p) = Utf8Ok"
proof (induction p arbitrary: ok rule: from_utf8.induct)
  case (2 a bs)
  show ?case
  proof (cases "utf8_next a bs")
    case (StepChar k)
    with 2(2) obtain ok' where ok: "from_utf8 (drop (k - 1) bs) = Utf8Err ok' el" "ok = k + ok'"
      by (auto split: utf8_result.splits)
    note t = utf8_next_take [OF StepChar]
    have ih: "ok' \<le> length (drop (k - 1) bs)" "from_utf8 (take ok' (drop (k - 1) bs)) = Utf8Ok"
      using 2(1) [OF StepChar ok(1)] by simp_all
    have split: "take ok (a # bs) = a # (take (k - 1) bs @ take ok' (drop (k - 1) bs))"
      using t ok(2) by (cases k) (simp_all add: take_add)
    have "drop (k - 1) (take (k - 1) bs @ take ok' (drop (k - 1) bs)) = take ok' (drop (k - 1) bs)"
      using t by simp
    then have "from_utf8 (take ok (a # bs)) = Utf8Ok"
      unfolding split using t ih by simp
    moreover have "ok \<le> length (a # bs)" using t [of "[]"] ih(1) ok(2) by (simp, arith)
    ultimately show ?thesis by blast
  qed (use 2(2) in auto)
qed simp

lemma from_utf8_incomplete: "from_utf8 p = Utf8Err 0 None \<Longrightarrow> length p < 4"
  by (cases p) (auto split: utf8_step.splits utf8_result.splits dest: utf8_next_incomplete utf8_next_take)

subsection \<open>Streaming\<close>

lemma flush_sound:
  fixes out :: bytes
  assumes "from_utf8 out = Utf8Ok"
  shows "\<exists>p' o'. (flush_utf8 p out :: ('e, bytes \<times> bytes) outcome) = Ok (p', out @ o')
    \<and> from_utf8 (out @ o') = Utf8Ok \<and> length p' < 4 \<and> length p' + length o' \<le> length p"
  using assms
proof (induction p out rule: flush_utf8.induct)
  case (1 p out)
  show ?case
  proof (cases "from_utf8 p")
    case Utf8Ok
    with 1(3) show ?thesis by (simp add: flush_utf8.simps from_utf8_append)
  next
    case (Utf8Err ok el)
    note v = from_utf8_valid_prefix [OF Utf8Err]
    consider "ok > 0" | "ok = 0" "el \<noteq> None" | "ok = 0" "el = None" by blast
    then show ?thesis
    proof cases
      case 1
      have "from_utf8 (out @ take ok p) = Utf8Ok" using v \<open>from_utf8 out = Utf8Ok\<close> by (simp add: from_utf8_append)
      from "1.IH"(1) [OF Utf8Err 1 conjI [OF v [THEN conjunct1] v [THEN conjunct2]] this] obtain p' o' where
        "(flush_utf8 (drop ok p) (out @ take ok p) :: ('e, bytes \<times> bytes) outcome) = Ok (p', (out @ take ok p) @ o')"
        "from_utf8 ((out @ take ok p) @ o') = Utf8Ok" "length p' < 4" "length p' + length o' \<le> length (drop ok p)"
        by blast
      then show ?thesis
        using Utf8Err 1 v by (intro exI [of _ p'] exI [of _ "take ok p @ o'"]) (auto simp: flush_utf8.simps [of p])
    next
      case 2
      then have "\<not> ok > 0" by simp
      from "1.IH"(2) [OF Utf8Err this 2(2) \<open>from_utf8 out = Utf8Ok\<close>] 2 Utf8Err show ?thesis
        by (fastforce simp: flush_utf8.simps [of p])
    next
      case 3
      with Utf8Err \<open>from_utf8 out = Utf8Ok\<close> show ?thesis
        by (auto simp: flush_utf8.simps [of p] dest: from_utf8_incomplete)
    qed
  qed
qed

lemma flush_text:
  assumes "\<forall>c \<in> set s. scalar c" and "t = [] \<or> (\<exists>c k. scalar c \<and> 0 < k \<and> k < len_utf8 c \<and> t = take k (utf8_char c))"
  shows "flush_utf8 (utf8 s @ t) out = Ok (t, out @ utf8 s)"
proof (cases "t = []")
  case True
  then show ?thesis using from_utf8_text [OF assms(1), of "[]"] by (simp add: flush_utf8.simps)
next
  case False
  with assms(2) have t: "from_utf8 t = Utf8Err 0 None" using from_utf8_cut by blast
  then have stay: "flush_utf8 t o' = (Ok (t, o') :: ('a, bytes \<times> bytes) outcome)" for o' by (simp add: flush_utf8.simps [of t])
  have all: "from_utf8 (utf8 s @ t) = Utf8Err (str_len s) None" using from_utf8_text [OF assms(1), of t] t by simp
  have "take (str_len s) (utf8 s @ t) = utf8 s" "drop (str_len s) (utf8 s @ t) = t" by (simp_all flip: length_utf8)
  moreover have "from_utf8 (utf8 s) = Utf8Ok" using from_utf8_text [OF assms(1), of "[]"] by simp
  ultimately show ?thesis
    using all stay by (cases "str_len s > 0") (simp_all add: flush_utf8.simps [of "utf8 s @ t"] flip: length_utf8)
qed

text \<open>The decoder run over the pieces of a stream: each piece is appended to what is pending.\<close>

primrec flush_all :: "bytes list \<Rightarrow> bytes \<times> bytes \<Rightarrow> ('e, bytes \<times> bytes) outcome" where
  "flush_all [] st = Ok st"
| "flush_all (p # ps) st = obind (flush_utf8 (fst st @ p) (snd st)) (flush_all ps)"

definition cut_char :: "rstr \<Rightarrow> bytes \<Rightarrow> bool" where
  "cut_char s t \<longleftrightarrow> t = [] \<or> (\<exists>c s' k. s = c # s' \<and> 0 < k \<and> k < len_utf8 c \<and> t = take k (utf8_char c))"

lemma cut_text:
  "xs @ ys = utf8 s \<Longrightarrow> \<exists>s1 s2 t. s = s1 @ s2 \<and> xs = utf8 s1 @ t \<and> cut_char s2 t"
proof (induction s arbitrary: xs)
  case Nil
  then show ?case by (simp add: cut_char_def)
next
  case (Cons c s)
  show ?case
  proof (cases "length xs < len_utf8 c")
    case True
    have "xs = take (length xs) (utf8_char c)"
      using True arg_cong [OF Cons.prems, of "take (length xs)"] by simp
    with True have "cut_char (c # s) xs" unfolding cut_char_def by (cases "xs = []") fastforce+
    then show ?thesis by (intro exI [of _ "[]"] exI [of _ "c # s"] exI [of _ xs]) simp
  next
    case False
    have "take (len_utf8 c) xs = utf8_char c" "drop (len_utf8 c) xs @ ys = utf8 s"
      using False arg_cong [OF Cons.prems, of "take (len_utf8 c)"] arg_cong [OF Cons.prems, of "drop (len_utf8 c)"]
      by simp_all
    then have split: "xs = utf8_char c @ drop (len_utf8 c) xs" "drop (len_utf8 c) xs @ ys = utf8 s"
      by (metis append_take_drop_id)+
    from Cons.IH [OF split(2)] obtain s1 s2 t where
      "s = s1 @ s2" "drop (len_utf8 c) xs = utf8 s1 @ t" "cut_char s2 t" by blast
    then show ?thesis using split(1) by (intro exI [of _ "c # s1"] exI [of _ s2] exI [of _ t]) simp
  qed
qed

lemma flush_piece:
  assumes "\<forall>c \<in> set s. scalar c" and "t @ p @ ys = utf8 s"
  obtains s1 s2 t' where "s = s1 @ s2" "t @ p = utf8 s1 @ t'" "cut_char s2 t'"
    "\<And>out. flush_utf8 (t @ p) out = Ok (t', out @ utf8 s1)"
proof -
  from cut_text [of "t @ p" ys s] assms(2) obtain s1 s2 t' where
    s: "s = s1 @ s2" "t @ p = utf8 s1 @ t'" "cut_char s2 t'" by auto
  have "t' = [] \<or> (\<exists>c k. scalar c \<and> 0 < k \<and> k < len_utf8 c \<and> t' = take k (utf8_char c))"
    using s(1,3) assms(1) by (auto simp: cut_char_def)
  moreover have "\<forall>c \<in> set s1. scalar c" using s(1) assms(1) by simp
  ultimately show ?thesis using flush_text s by (intro that [of s1 s2 t']) simp_all
qed

lemma flush_all_text:
  assumes "\<forall>c \<in> set s. scalar c" and "t @ concat ps @ ys = utf8 s" and "cut_char s t"
  shows "\<exists>s1 s2 t'. s = s1 @ s2 \<and> (flush_all ps (t, out) :: ('e, bytes \<times> bytes) outcome) = Ok (t', out @ utf8 s1)
    \<and> t @ concat ps = utf8 s1 @ t' \<and> cut_char s2 t'"
  using assms
proof (induction ps arbitrary: s t out)
  case Nil
  then show ?case by (intro exI [of _ "[]"] exI [of _ s] exI [of _ t]) simp
next
  case (Cons p ps)
  obtain s1 s2 t' where st: "s = s1 @ s2" "t @ p = utf8 s1 @ t'" "cut_char s2 t'"
      "\<And>out. (flush_utf8 (t @ p) out :: ('e, bytes \<times> bytes) outcome) = Ok (t', out @ utf8 s1)"
    using flush_piece [OF Cons.prems(1), of t p "concat ps @ ys"] Cons.prems(2) by auto
  have "utf8 s1 @ t' @ concat ps @ ys = (t @ p) @ concat ps @ ys" unfolding st(2) by simp
  also have "\<dots> = utf8 s" using Cons.prems(2) by (simp only: concat.simps append_assoc)
  also have "\<dots> = utf8 s1 @ utf8 s2" unfolding st(1) by simp
  finally have "utf8 s1 @ t' @ concat ps @ ys = utf8 s1 @ utf8 s2" .
  then have rest: "t' @ concat ps @ ys = utf8 s2" by simp
  have "\<forall>c \<in> set s2. scalar c" using Cons.prems(1) st(1) by simp
  from Cons.IH [OF this rest st(3), of "out @ utf8 s1"] obtain r1 r2 u where
    r: "s2 = r1 @ r2" "(flush_all ps (t', out @ utf8 s1) :: ('e, bytes \<times> bytes) outcome) = Ok (u, (out @ utf8 s1) @ utf8 r1)"
    "t' @ concat ps = utf8 r1 @ u" "cut_char r2 u"
    by blast
  have "t @ concat (p # ps) = (t @ p) @ concat ps" by simp
  also have "\<dots> = utf8 s1 @ (t' @ concat ps)" unfolding st(2) by simp
  also have "\<dots> = utf8 (s1 @ r1) @ u" unfolding r(3) by simp
  finally have c: "t @ concat (p # ps) = utf8 (s1 @ r1) @ u" .
  have "(flush_all (p # ps) (t, out) :: ('e, bytes \<times> bytes) outcome) = Ok (u, out @ utf8 (s1 @ r1))"
    using r(2) st(4) by simp
  moreover have "s = (s1 @ r1) @ r2" using st(1) r(1) by simp
  ultimately show ?case using c r(4) by blast
qed

lemma cut_char_short: "cut_char s t \<Longrightarrow> length t < 4" and cut_char_whole: "cut_char s t \<Longrightarrow> t = utf8 s \<Longrightarrow> s = []"
proof -
  assume c: "cut_char s t"
  then show "length t < 4"
    by (auto simp: cut_char_def intro: order.strict_trans2 [OF _ len_utf8_bounds(3)])
  assume "t = utf8 s"
  then have "length t = str_len s" by simp
  with c show "s = []" by (cases s) (auto simp: cut_char_def)
qed

text \<open>C16: Streamed text comes out whole: however the UTF-8 bytes of a text are cut into pieces (also in
  the middle of characters), after each piece the decoder has output exactly the whole characters
  received so far: what it holds back is nothing, or the proper beginning of the next character of
  the text, so fewer than four bytes. Nothing is lost or altered, and when the text is complete the
  output is the text and nothing is pending.\<close>

theorem streamed_text_comes_out:
  assumes "\<forall>c \<in> set s. scalar c" and "concat ps @ rest = utf8 s"
  shows "\<exists>s1 s2 t. s = s1 @ s2 \<and> (flush_all ps ([], []) :: ('e, bytes \<times> bytes) outcome) = Ok (t, utf8 s1)
    \<and> concat ps = utf8 s1 @ t \<and> cut_char s2 t \<and> length t < 4 \<and> (rest = [] \<longrightarrow> t = [] \<and> s1 = s)"
proof -
  have "cut_char s []" by (simp add: cut_char_def)
  from flush_all_text [OF assms(1) _ this, of ps rest "[]"] assms(2) obtain s1 s2 t where
    st: "s = s1 @ s2" "(flush_all ps ([], []) :: ('e, bytes \<times> bytes) outcome) = Ok (t, utf8 s1)"
      "concat ps = utf8 s1 @ t" "cut_char s2 t" by auto
  have "t @ rest = utf8 s2" using assms(2) st(1,3) by simp
  then have "rest = [] \<Longrightarrow> s2 = []" using cut_char_whole [OF st(4)] by simp
  with st cut_char_short [OF st(4)] show ?thesis
    by (intro exI [of _ s1] exI [of _ s2] exI [of _ t]) (auto simp: cut_char_def)
qed

theorem streamed_text_comes_out_witness:
  "(flush_all [[0xe2], [0x82], [0xac, 0x41]] ([], []) :: (unit, bytes \<times> bytes) outcome) = Ok ([], [0xe2, 0x82, 0xac, 0x41])"
proof -
  have "utf8 [0x20ac, 0x41] = [0xe2, 0x82, 0xac, 0x41]" by (simp add: utf8_char_def cont_byte_def)
  then show ?thesis
    using streamed_text_comes_out [of "[0x20ac, 0x41]" "[[0xe2], [0x82], [0xac, 0x41]]" "[]"]
    by (auto simp: scalar_def)
qed

text \<open>No bytes wedge or corrupt the stream: for any pending bytes the decoder returns without a
  panic, what it has output stays valid UTF-8 and is only appended to, it keeps fewer than four
  bytes pending, and it never outputs more bytes than it was given.\<close>

theorem flush_never_wedges:
  assumes "from_utf8 out = Utf8Ok"
  shows "\<exists>p' o'. (flush_utf8 p out :: ('e, bytes \<times> bytes) outcome) = Ok (p', out @ o')
    \<and> from_utf8 (out @ o') = Utf8Ok \<and> length p' < 4 \<and> length p' + length o' \<le> length p"
  using flush_sound [OF assms] .

theorem flush_never_wedges_witness:
  "\<exists>p' o'. (flush_utf8 [0xff, 0x41, 0xc3] [0x42] :: (unit, bytes \<times> bytes) outcome) = Ok (p', [0x42] @ o')"
proof -
  have "from_utf8 [0x42] = Utf8Ok" by (simp add: utf8_next.simps utf8_width_def)
  from flush_never_wedges [OF this, of "[0xff, 0x41, 0xc3]"] show ?thesis by blast
qed

end
