(* ===== verification/Nr_Pretok.thy ===== *)
theory Nr_Pretok
  imports Nr_Utf8
begin

text \<open>
  The pretokenizer of \<^verbatim>\<open>crates/nr-token/src/pretok.rs\<close>: a hand-written scanner that cuts a text into
  the chunks the BPE encoder works on, beside the regular expression its comment gives, and the proof
  that the scanner takes exactly what a backtracking matcher of that expression takes.

  Unicode's character classes are a parameter; what is used of them is the ASCII part.
\<close>

subsection \<open>The scanner\<close>

datatype style = Llama3 | Qwen2

record char_classes =
  is_alphabetic :: "rchar \<Rightarrow> bool"
  is_numeric :: "rchar \<Rightarrow> bool"
  is_whitespace :: "rchar \<Rightarrow> bool"

definition to_ascii_lowercase :: "byte \<Rightarrow> byte" where
  "to_ascii_lowercase b = (if 0x41 \<le> b \<and> b \<le> 0x5a then b + 0x20 else b)"

text \<open>The byte length of the longest prefix in a class, and of at most \<open>max\<close> such characters.\<close>

fun run_len :: "(rchar \<Rightarrow> bool) \<Rightarrow> rstr \<Rightarrow> nat" where
  "run_len p [] = 0"
| "run_len p (c # s) = (if p c then len_utf8 c + run_len p s else 0)"

fun run_len_max :: "(rchar \<Rightarrow> bool) \<Rightarrow> nat \<Rightarrow> rstr \<Rightarrow> nat" where
  "run_len_max p n [] = 0"
| "run_len_max p n (c # s) = (if 0 < n \<and> p c then len_utf8 c + run_len_max p (n - 1) s else 0)"

text \<open>\<open>&s[n..]\<close>: the text from byte \<open>n\<close>, which must be the start of a character (or the end).\<close>

fun str_from :: "nat \<Rightarrow> rstr \<Rightarrow> ('e, rstr) outcome" where
  "str_from n s = (if n = 0 then Ok s else case s of [] \<Rightarrow> Panic
     | c # s \<Rightarrow> if len_utf8 c \<le> n then str_from (n - len_utf8 c) s else Panic)"

declare str_from.simps [simp del]

fun split_at :: "nat \<Rightarrow> rstr \<Rightarrow> ('e, rstr \<times> rstr) outcome" where
  "split_at n s = (if n = 0 then Ok ([], s) else case s of [] \<Rightarrow> Panic
     | c # s \<Rightarrow> if len_utf8 c \<le> n then obind (split_at (n - len_utf8 c) s) (\<lambda>(a, b). Ok (c # a, b)) else Panic)"

declare split_at.simps [simp del]

text \<open>\<open>run.rfind(['\r', '\n'])\<close>, the byte position of the last newline.\<close>

fun rfind_newline :: "rstr \<Rightarrow> nat option" where
  "rfind_newline [] = None"
| "rfind_newline (c # s) = (case rfind_newline s of Some n \<Rightarrow> Some (len_utf8 c + n)
     | None \<Rightarrow> if c = 13 \<or> c = 10 then Some 0 else None)"

definition contraction :: "rchar \<Rightarrow> rstr \<Rightarrow> ('e, nat option) outcome" where
  "contraction c0 s =
     (let b = utf8 s in
      if c0 = 0x27 \<and> str_len s \<ge> 2
      then obind (index b 1) (\<lambda>b1. let c1 = to_ascii_lowercase b1 in
        if c1 \<in> {0x73, 0x74, 0x6d, 0x64} then Ok (Some 2)
        else if c1 \<in> {0x72, 0x76, 0x6c} \<and> str_len s \<ge> 3
        then obind (index b 2) (\<lambda>b2. let c2 = to_ascii_lowercase b2 in
          if (c1, c2) \<in> {(0x72, 0x65), (0x76, 0x65), (0x6c, 0x6c)} then Ok (Some 3) else Ok None)
        else Ok None)
      else Ok None)"

definition letters :: "char_classes \<Rightarrow> rchar \<Rightarrow> rstr \<Rightarrow> ('e, nat option) outcome" where
  "letters cls c0 s =
     obind (if is_alphabetic cls c0 then Ok (Some 0)
            else if c0 \<noteq> 13 \<and> c0 \<noteq> 10 \<and> \<not> is_numeric cls c0
            then obind (str_from (len_utf8 c0) s) (\<lambda>t. case t of
                   [] \<Rightarrow> Ok None
                 | c # _ \<Rightarrow> if is_alphabetic cls c then Ok (Some (len_utf8 c0)) else Ok None)
            else Ok None) (\<lambda>letters_from.
     case letters_from of None \<Rightarrow> Ok None
     | Some start \<Rightarrow> obind (str_from start s) (\<lambda>t. Ok (Some (start + run_len (is_alphabetic cls) t))))"

definition punctuation :: "char_classes \<Rightarrow> rchar \<Rightarrow> rstr \<Rightarrow> ('e, nat option) outcome" where
  "punctuation cls c0 s =
     (let start = (if c0 = 0x20 then 1 else 0) in
      obind (str_from start s) (\<lambda>t.
      let fin = start + run_len (\<lambda>c. \<not> is_whitespace cls c \<and> \<not> is_alphabetic cls c \<and> \<not> is_numeric cls c) t in
      if fin > start
      then obind (str_from fin s) (\<lambda>u. Ok (Some (fin + run_len (\<lambda>c. c = 13 \<or> c = 10) u)))
      else Ok None))"

definition whitespace_run :: "char_classes \<Rightarrow> rstr \<Rightarrow> ('e, nat) outcome" where
  "whitespace_run cls s =
     (let run_end = run_len (is_whitespace cls) s in
      obind (split_at run_end s) (\<lambda>(run, _).
      case rfind_newline run of
        Some last_nl \<Rightarrow> Ok (last_nl + 1)
      | None \<Rightarrow>
          if run_end < str_len s
          then (if run = [] then Panic
                else let last_len = len_utf8 (last run)
                     in if run_end > last_len then Ok (run_end - last_len) else Ok run_end)
          else Ok run_end))"

definition match_one :: "char_classes \<Rightarrow> style \<Rightarrow> rstr \<Rightarrow> ('e, nat) outcome" where
  "match_one cls style s =
     (case s of [] \<Rightarrow> Panic
      | c0 # _ \<Rightarrow>
        obind (contraction c0 s) (\<lambda>r. case r of Some n \<Rightarrow> Ok n
        | None \<Rightarrow> obind (letters cls c0 s) (\<lambda>r. case r of Some n \<Rightarrow> Ok n
        | None \<Rightarrow>
          if is_numeric cls c0
          then Ok (run_len_max (is_numeric cls) (case style of Llama3 \<Rightarrow> 3 | Qwen2 \<Rightarrow> 1) s)
          else obind (punctuation cls c0 s) (\<lambda>r. case r of Some n \<Rightarrow> Ok n
        | None \<Rightarrow> if is_whitespace cls c0 then whitespace_run cls s else Ok (len_utf8 c0)))))"

text \<open>The iterator; a step that consumed nothing would not end.\<close>

definition chunks_next :: "char_classes \<Rightarrow> style \<Rightarrow> rstr \<Rightarrow> ('e, (rstr \<times> rstr) option) outcome" where
  "chunks_next cls style rest =
     (if rest = [] then Ok None
      else obind (match_one cls style rest) (\<lambda>len.
           obind (split_at len rest) (\<lambda>(chunk, rest'). Ok (Some (chunk, rest')))))"

fun pretok_chunks :: "nat \<Rightarrow> char_classes \<Rightarrow> style \<Rightarrow> rstr \<Rightarrow> ('e, rstr list) outcome option" where
  "pretok_chunks 0 cls style text = None"
| "pretok_chunks (Suc fuel) cls style text =
     (case chunks_next cls style text of
        Ok None \<Rightarrow> Some (Ok [])
      | Ok (Some (chunk, rest)) \<Rightarrow>
          map_option (\<lambda>r. obind r (\<lambda>cs. Ok (chunk # cs))) (pretok_chunks fuel cls style rest)
      | Err e \<Rightarrow> Some (Err e) | Panic \<Rightarrow> Some Panic)"

subsection \<open>The regular expression\<close>

text \<open>A backtracking matcher for expressions over character classes: all lengths (in characters) an
  expression can match at the start of a text, the preferred one first. Repetition is of single
  characters and greedy; \<open>NotBefore\<close> is a negative lookahead.\<close>

datatype regex =
    Cls "rchar \<Rightarrow> bool"
  | Many "rchar \<Rightarrow> bool" nat "nat option"
  | Seq regex regex
  | Alt regex regex
  | NotBefore "rchar \<Rightarrow> bool"

fun many_lens :: "(rchar \<Rightarrow> bool) \<Rightarrow> nat option \<Rightarrow> rstr \<Rightarrow> nat list" where
  "many_lens p m [] = [0]"
| "many_lens p m (c # s) =
     (if m \<noteq> Some 0 \<and> p c then map Suc (many_lens p (map_option (\<lambda>k. k - 1) m) s) @ [0] else [0])"

primrec rx_lens :: "regex \<Rightarrow> rstr \<Rightarrow> nat list" where
  "rx_lens (Cls p) s = (case s of [] \<Rightarrow> [] | c # _ \<Rightarrow> if p c then [1] else [])"
| "rx_lens (Many p lo hi) s = filter (\<lambda>n. lo \<le> n) (many_lens p hi s)"
| "rx_lens (Seq r q) s = concat (map (\<lambda>n. map (\<lambda>k. n + k) (rx_lens q (drop n s))) (rx_lens r s))"
| "rx_lens (Alt r q) s = rx_lens r s @ rx_lens q s"
| "rx_lens (NotBefore p) s = (case s of [] \<Rightarrow> [0] | c # _ \<Rightarrow> if p c then [] else [0])"

definition one_of :: "rchar list \<Rightarrow> regex" where
  "one_of cs = Cls (\<lambda>c. c \<in> set cs)"

definition newline :: "rchar \<Rightarrow> bool" where
  "newline c \<longleftrightarrow> c = 13 \<or> c = 10"

text \<open>The seven alternatives of the comment in the source, in their order.\<close>

definition pretok_regex :: "char_classes \<Rightarrow> style \<Rightarrow> regex" where
  "pretok_regex cls style =
     (let L = is_alphabetic cls; N = is_numeric cls; S = is_whitespace cls in
      Alt (Seq (one_of [0x27]) (Alt (one_of [0x73, 0x53]) (Alt (one_of [0x74, 0x54])
            (Alt (Seq (one_of [0x72, 0x52]) (one_of [0x65, 0x45])) (Alt (Seq (one_of [0x76, 0x56]) (one_of [0x65, 0x45]))
            (Alt (one_of [0x6d, 0x4d]) (Alt (Seq (one_of [0x6c, 0x4c]) (one_of [0x6c, 0x4c])) (one_of [0x64, 0x44]))))))))
     (Alt (Seq (Many (\<lambda>c. \<not> newline c \<and> \<not> L c \<and> \<not> N c) 0 (Some 1)) (Many L 1 None))
     (Alt (Many N 1 (Some (case style of Llama3 \<Rightarrow> 3 | Qwen2 \<Rightarrow> 1)))
     (Alt (Seq (Many (\<lambda>c. c = 0x20) 0 (Some 1))
            (Seq (Many (\<lambda>c. \<not> S c \<and> \<not> L c \<and> \<not> N c) 1 None) (Many newline 0 None)))
     (Alt (Seq (Many S 0 None) (Many newline 1 None))
     (Alt (Seq (Many S 1 None) (NotBefore (\<lambda>c. \<not> S c)))
          (Many S 1 None)))))))"

subsection \<open>Positions\<close>

lemma str_len_take_add: "str_len (take (a + b) s) = str_len (take a s) + str_len (take b (drop a s))"
  by (simp add: take_add)

lemma str_from_take: "k \<le> length s \<Longrightarrow> str_from (str_len (take k s)) s = Ok (drop k s)"
proof (induction k arbitrary: s)
  case 0
  then show ?case by (simp add: str_from.simps)
next
  case (Suc k)
  then obtain c t where "s = c # t" by (cases s) auto
  with Suc show ?case by (subst str_from.simps) auto
qed

lemma split_at_take: "k \<le> length s \<Longrightarrow> split_at (str_len (take k s)) s = Ok (take k s, drop k s)"
proof (induction k arbitrary: s)
  case 0
  then show ?case by (simp add: split_at.simps)
next
  case (Suc k)
  then obtain c t where "s = c # t" by (cases s) auto
  with Suc show ?case by (subst split_at.simps) auto
qed

definition run :: "(rchar \<Rightarrow> bool) \<Rightarrow> rstr \<Rightarrow> nat" where
  "run p s = length (takeWhile p s)"

lemma run_simps [simp]: "run p [] = 0" "run p (c # s) = (if p c then Suc (run p s) else 0)"
  by (simp_all add: run_def)

lemma run_le [simp]: "run p s \<le> length s"
  by (simp add: run_def length_takeWhile_le)

lemma run_len_eq: "run_len p s = str_len (take (run p s) s)"
  by (induction s) auto

lemma run_len_max_eq: "run_len_max p n s = str_len (take (min n (run p s)) s)"
  by (induction s arbitrary: n) (auto simp: min_def take_Cons' split: nat.splits)

lemma str_len_pos [simp]: "str_len s = 0 \<longleftrightarrow> s = []"
  by (cases s) auto

subsection \<open>What the matcher takes first\<close>

definition firstl :: "'a list \<Rightarrow> 'a option" where
  "firstl xs = (case xs of [] \<Rightarrow> None | x # _ \<Rightarrow> Some x)"

lemma firstl_simps [simp]: "firstl [] = None" "firstl (x # xs) = Some x"
  "firstl (xs @ ys) = (case firstl xs of None \<Rightarrow> firstl ys | Some x \<Rightarrow> Some x)"
  "firstl (map f xs) = map_option f (firstl xs)"
  by (simp_all add: firstl_def split: list.splits)

definition takes :: "regex \<Rightarrow> rstr \<Rightarrow> nat option" where
  "takes r s = firstl (rx_lens r s)"

lemma takes_Alt: "takes (Alt r q) s = (case takes r s of None \<Rightarrow> takes q s | Some n \<Rightarrow> Some n)"
  unfolding takes_def by simp

lemma takes_Cls: "takes (Cls p) s = (case s of [] \<Rightarrow> None | c # _ \<Rightarrow> if p c then Some 1 else None)"
  by (simp add: takes_def split: list.splits)

lemma many_lens_eq:
  "many_lens p m s = rev [0..<Suc (case m of None \<Rightarrow> run p s | Some k \<Rightarrow> min k (run p s))]"
proof (induction p m s rule: many_lens.induct)
  case (2 p m c s)
  have shift: "map Suc (rev [0..<Suc n]) @ [0] = rev [0..<Suc (Suc n)]" for n
    by (simp add: rev_map [symmetric] map_Suc_upt upt_conv_Cons [of 0 "Suc (Suc n)"] del: upt_Suc)
  show ?case
  proof (cases "m \<noteq> Some 0 \<and> p c")
    case True
    with 2 have "many_lens p m (c # s) = rev [0..<Suc (Suc (case map_option (\<lambda>k. k - 1) m of
        None \<Rightarrow> run p s | Some k \<Rightarrow> min k (run p s)))]"
      using shift by simp
    with True show ?thesis by (cases m) (auto simp: min_def simp del: upt_Suc)
  next
    case False
    then show ?thesis by (cases m) auto
  qed
qed (auto split: option.splits)

text \<open>Sequencing after a repetition tries the lengths from the longest down.\<close>

definition back_to :: "nat \<Rightarrow> (nat \<Rightarrow> nat option) \<Rightarrow> nat \<Rightarrow> nat option" where
  "back_to lo f hi = firstl (concat (map (\<lambda>n. case f n of None \<Rightarrow> [] | Some k \<Rightarrow> [n + k]) (rev [lo..<Suc hi])))"

lemma filter_rev_upt: "filter (\<lambda>n. lo \<le> n) (rev [0..<m]) = rev [lo..<m]"
  by (induction m) (auto simp: not_less)

lemma takes_Many: "takes (Many p lo m) s =
    (let n = (case m of None \<Rightarrow> run p s | Some k \<Rightarrow> min k (run p s)) in if lo \<le> n then Some n else None)"
  by (simp add: takes_def many_lens_eq filter_rev_upt Let_def del: upt_Suc) (simp add: not_le)

lemma takes_Seq_Many: "takes (Seq (Many p lo m) q) s =
    back_to lo (\<lambda>n. takes q (drop n s)) (case m of None \<Rightarrow> run p s | Some k \<Rightarrow> min k (run p s))"
proof -
  have "firstl (concat (map (\<lambda>n. map ((+) n) (rx_lens q (drop n s))) ns))
      = firstl (concat (map (\<lambda>n. case takes q (drop n s) of None \<Rightarrow> [] | Some k \<Rightarrow> [n + k]) ns))" for ns
    by (induction ns) (auto simp: takes_def split: option.splits)
  then show ?thesis
    by (simp add: takes_def [of "Seq _ _"] many_lens_eq filter_rev_upt back_to_def del: upt_Suc)
qed

lemma takes_Seq_Cls: "takes (Seq (Cls p) q) s =
    (case s of [] \<Rightarrow> None | c # t \<Rightarrow> if p c then map_option Suc (takes q t) else None)"
  by (auto simp: takes_def split: list.splits intro: map_option_cong)

lemma back_to_step:
  "back_to lo f hi = (if hi < lo then None else case f hi of Some k \<Rightarrow> Some (hi + k)
     | None \<Rightarrow> if hi = 0 then None else back_to lo f (hi - 1))"
  by (cases hi) (auto simp: back_to_def split: option.splits)

subsection \<open>Alternative by alternative\<close>

definition scans :: "(unit, nat option) outcome \<Rightarrow> regex \<Rightarrow> rstr \<Rightarrow> bool" where
  "scans res r s \<longleftrightarrow> res = Ok (map_option (\<lambda>n. str_len (take n s)) (takes r s))"

definition contraction_rx :: regex where
  "contraction_rx = Seq (one_of [0x27]) (Alt (one_of [0x73, 0x53]) (Alt (one_of [0x74, 0x54])
            (Alt (Seq (one_of [0x72, 0x52]) (one_of [0x65, 0x45])) (Alt (Seq (one_of [0x76, 0x56]) (one_of [0x65, 0x45]))
            (Alt (one_of [0x6d, 0x4d]) (Alt (Seq (one_of [0x6c, 0x4c]) (one_of [0x6c, 0x4c])) (one_of [0x64, 0x44])))))))"

lemma hd_utf8_ascii:
  assumes "scalar c" and "unat w < 0x80"
  shows "hd (utf8_char c) = w \<longleftrightarrow> c = unat w"
proof -
  consider "c < 0x80" | "0x80 \<le> c" "c < 0x800" | "0x800 \<le> c" "c < 0x10000" | "0x10000 \<le> c" "c < 0x110000"
    using assms unfolding scalar_def by linarith
  then show ?thesis
  proof cases
    case 1
    then have "unat (of_nat c :: byte) = c" by (intro unat_byte_of_nat) simp
    with 1 show ?thesis by (auto simp: utf8_char_def)
  next
    case 2
    then have "unat (of_nat (0xC0 + c div 64) :: byte) = 0xC0 + c div 64" by (intro unat_byte_of_nat) linarith
    with 2 assms(2) show ?thesis by (auto simp: utf8_char_def simp del: of_nat_add)
  next
    case 3
    then have "unat (of_nat (0xE0 + c div 4096) :: byte) = 0xE0 + c div 4096" by (intro unat_byte_of_nat) linarith
    with 3 assms(2) show ?thesis by (auto simp: utf8_char_def simp del: of_nat_add)
  next
    case 4
    then have "unat (of_nat (0xF0 + c div 262144) :: byte) = 0xF0 + c div 262144" by (intro unat_byte_of_nat) linarith
    with 4 assms(2) show ?thesis by (auto simp: utf8_char_def simp del: of_nat_add)
  qed
qed

lemma lower_eq:
  "0x61 \<le> l \<Longrightarrow> l \<le> 0x7a \<Longrightarrow> to_ascii_lowercase b = l \<longleftrightarrow> b = l \<or> b = l - 0x20"
proof -
  assume l: "0x61 \<le> l" "l \<le> 0x7a"
  have "b = l \<Longrightarrow> \<not> (b \<le> 0x5a)" using l(1) by (auto simp: word_le_nat_alt)
  moreover have "b = l - 0x20 \<Longrightarrow> 0x41 \<le> b \<and> b \<le> 0x5a"
    using l by (simp add: word_le_nat_alt unat_sub) arith
  moreover have "b + 0x20 = l \<longleftrightarrow> b = l - 0x20" by (simp add: eq_diff_eq)
  ultimately show ?thesis by (auto simp: to_ascii_lowercase_def)
qed

lemma lower_char:
  assumes "scalar c"
  shows "to_ascii_lowercase (hd (utf8_char c)) = 0x73 \<longleftrightarrow> c = 0x73 \<or> c = 0x53"
    and "to_ascii_lowercase (hd (utf8_char c)) = 0x74 \<longleftrightarrow> c = 0x74 \<or> c = 0x54"
    and "to_ascii_lowercase (hd (utf8_char c)) = 0x72 \<longleftrightarrow> c = 0x72 \<or> c = 0x52"
    and "to_ascii_lowercase (hd (utf8_char c)) = 0x76 \<longleftrightarrow> c = 0x76 \<or> c = 0x56"
    and "to_ascii_lowercase (hd (utf8_char c)) = 0x6d \<longleftrightarrow> c = 0x6d \<or> c = 0x4d"
    and "to_ascii_lowercase (hd (utf8_char c)) = 0x6c \<longleftrightarrow> c = 0x6c \<or> c = 0x4c"
    and "to_ascii_lowercase (hd (utf8_char c)) = 0x64 \<longleftrightarrow> c = 0x64 \<or> c = 0x44"
    and "to_ascii_lowercase (hd (utf8_char c)) = 0x65 \<longleftrightarrow> c = 0x65 \<or> c = 0x45"
  by (simp_all add: lower_eq hd_utf8_ascii [OF assms])

lemma nth_utf8:
  "c0 < 0x80 \<Longrightarrow> utf8 (c0 # c1 # s) ! 1 = hd (utf8_char c1)"
  "c0 < 0x80 \<Longrightarrow> c1 < 0x80 \<Longrightarrow> utf8 (c0 # c1 # c2 # s) ! 2 = hd (utf8_char c2)"
proof -
  obtain x xs where c1: "utf8_char c1 = x # xs" by (rule utf8_char_cons)
  obtain y ys where c2: "utf8_char c2 = y # ys" by (rule utf8_char_cons)
  show "c0 < 0x80 \<Longrightarrow> utf8 (c0 # c1 # s) ! 1 = hd (utf8_char c1)"
    by (simp add: c1) (simp add: utf8_char_def)
  show "c0 < 0x80 \<Longrightarrow> c1 < 0x80 \<Longrightarrow> utf8 (c0 # c1 # c2 # s) ! 2 = hd (utf8_char c2)"
    by (simp add: c2 numeral_2_eq_2) (simp add: utf8_char_def)
qed

lemma len_utf8_ascii [simp]: "c < 0x80 \<Longrightarrow> len_utf8 c = 1"
  by (simp add: len_utf8_def)

lemma scans_contraction:
  assumes "\<forall>c \<in> set (c0 # t). scalar c"
  shows "scans (contraction c0 (c0 # t)) contraction_rx (c0 # t)"
proof (cases "c0 = 0x27 \<and> t \<noteq> []")
  case False
  then show ?thesis
    by (auto simp: scans_def contraction_def contraction_rx_def one_of_def takes_Seq_Cls takes_Alt takes_Cls)
next
  case True
  then obtain c1 u where t: "t = c1 # u" and c0: "c0 = 0x27" by (cases t) auto
  have sc: "scalar c1" using assms t by simp
  have len: "2 \<le> str_len (c0 # t)" by (simp add: c0 t trans_le_add1)
  have b1: "index (utf8 (c0 # t)) 1 = (Ok (hd (utf8_char c1)) :: (unit, byte) outcome)"
    using len nth_utf8(1) [of c0 c1 u] by (simp add: index_def c0 t)
  let ?l = "to_ascii_lowercase (hd (utf8_char c1))"
  have two: "?l \<in> {0x73, 0x74, 0x6d, 0x64} \<longleftrightarrow> c1 \<in> {0x73, 0x53, 0x74, 0x54, 0x6d, 0x4d, 0x64, 0x44}"
    by (auto simp: lower_char [OF sc])
  show ?thesis
  proof (cases "c1 \<in> {0x73, 0x53, 0x74, 0x54, 0x6d, 0x4d, 0x64, 0x44}")
    case True
    then have "contraction c0 (c0 # t) = (Ok (Some 2) :: (unit, nat option) outcome)"
      using two len b1 c0 by (simp add: contraction_def Let_def)
    moreover have "takes contraction_rx (c0 # t) = Some 2"
      using True by (auto simp: contraction_rx_def one_of_def takes_Seq_Cls takes_Alt takes_Cls c0 t)
    moreover have "str_len (take 2 (c0 # t)) = 2" using True by (auto simp: c0 t)
    ultimately show ?thesis by (simp add: scans_def)
  next
    case one: False
    show ?thesis
    proof (cases "u \<noteq> [] \<and> c1 \<in> {0x72, 0x52, 0x76, 0x56, 0x6c, 0x4c}")
      case True
      then obtain c2 v where u: "u = c2 # v" by (cases u) auto
      have sc2: "scalar c2" using assms t u by simp
      have asc: "c1 < 0x80" using True by auto
      have len3: "3 \<le> str_len (c0 # t)" using asc by (simp add: c0 t u trans_le_add1)
      have b2: "index (utf8 (c0 # t)) 2 = (Ok (hd (utf8_char c2)) :: (unit, byte) outcome)"
        using len3 nth_utf8(2) [of c0 c1 c2 v] asc by (simp add: index_def c0 t u)
      have l1: "?l \<in> {0x72, 0x76, 0x6c}" using True by (auto simp: lower_char [OF sc])
      have "contraction c0 (c0 # t) = (Ok (if (?l, to_ascii_lowercase (hd (utf8_char c2)))
          \<in> {(0x72, 0x65), (0x76, 0x65), (0x6c, 0x6c)} then Some 3 else None) :: (unit, nat option) outcome)"
        using two one len len3 b1 b2 l1 c0 by (simp add: contraction_def Let_def)
      moreover have "takes contraction_rx (c0 # t) = (if (?l, to_ascii_lowercase (hd (utf8_char c2)))
          \<in> {(0x72, 0x65), (0x76, 0x65), (0x6c, 0x6c)} then Some 3 else None)"
        using one True by (auto simp: contraction_rx_def one_of_def takes_Seq_Cls takes_Alt takes_Cls c0 t u
            lower_char [OF sc] lower_char [OF sc2])
      moreover have "str_len (take 3 (c0 # t)) = 3"
        if "(?l, to_ascii_lowercase (hd (utf8_char c2))) \<in> {(0x72, 0x65), (0x76, 0x65), (0x6c, 0x6c)}"
        using that asc by (auto simp: c0 t u lower_char [OF sc2])
      ultimately show ?thesis by (simp add: scans_def)
    next
      case False
      have "\<not> (?l \<in> {0x72, 0x76, 0x6c} \<and> 3 \<le> str_len (c0 # t))"
        using False by (cases u) (auto simp: lower_char [OF sc] c0 t)
      then have "contraction c0 (c0 # t) = (Ok None :: (unit, nat option) outcome)"
        using two one len b1 c0 by (auto simp: contraction_def Let_def)
      moreover have "takes contraction_rx (c0 # t) = None"
        using one False
        by (cases u) (auto simp: contraction_rx_def one_of_def takes_Seq_Cls takes_Alt takes_Cls c0 t)
      ultimately show ?thesis by (simp add: scans_def)
    qed
  qed
qed

lemma takes_plus_star: "takes (Seq (Many p 1 None) (Many q 0 None)) s =
    (if run p s = 0 then None else Some (run p s + run q (drop (run p s) s)))"
  by (simp add: takes_Seq_Many back_to_step takes_Many Let_def)

lemma takes_optional: "takes (Seq (Many p 0 (Some 1)) q) (c # t) =
    (if p c then case takes q t of Some k \<Rightarrow> Some (Suc k) | None \<Rightarrow> takes q (c # t) else takes q (c # t))"
  by (auto simp: takes_Seq_Many back_to_step min_def split: option.splits)

lemmas takes_shapes = takes_plus_star takes_plus_star [unfolded One_nat_def]
  takes_optional takes_optional [unfolded One_nat_def]

definition letters_rx :: "char_classes \<Rightarrow> regex" where
  "letters_rx cls = Seq (Many (\<lambda>c. \<not> newline c \<and> \<not> is_alphabetic cls c \<and> \<not> is_numeric cls c) 0 (Some 1))
     (Many (is_alphabetic cls) 1 None)"

lemma str_from_simps: "str_from 0 s = Ok s" "str_from (len_utf8 c) (c # t) = Ok t"
  using str_from_take [of 0 s] str_from_take [of 1 "c # t"] by simp_all

lemma scans_letters: "scans (letters cls c0 (c0 # t)) (letters_rx cls) (c0 # t)"
proof -
  let ?L = "is_alphabetic cls"
  consider "?L c0" | "\<not> ?L c0" "newline c0 \<or> is_numeric cls c0" | "\<not> ?L c0" "\<not> newline c0" "\<not> is_numeric cls c0"
    by blast
  then show ?thesis
  proof cases
    case 3
    then show ?thesis
      by (cases t) (auto simp: scans_def letters_def letters_rx_def takes_shapes takes_Many str_from_simps
          run_len_eq newline_def Let_def)
  qed (auto simp: scans_def letters_def letters_rx_def takes_shapes takes_Many str_from_simps run_len_eq newline_def Let_def)
qed

definition punctuation_rx :: "char_classes \<Rightarrow> regex" where
  "punctuation_rx cls = Seq (Many (\<lambda>c. c = 0x20) 0 (Some 1))
     (Seq (Many (\<lambda>c. \<not> is_whitespace cls c \<and> \<not> is_alphabetic cls c \<and> \<not> is_numeric cls c) 1 None) (Many newline 0 None))"

lemma scans_punctuation:
  assumes "is_whitespace cls 0x20"
  shows "scans (punctuation cls c0 (c0 # t)) (punctuation_rx cls) (c0 # t)"
proof -
  define P where "P = (\<lambda>c. \<not> is_whitespace cls c \<and> \<not> is_alphabetic cls c \<and> \<not> is_numeric cls c)"
  have nl: "(\<lambda>c. c = 13 \<or> c = 10) = newline" by (simp add: newline_def fun_eq_iff)
  let ?u = "if c0 = 0x20 then t else c0 # t" and ?b = "if c0 = 0x20 then 1 else 0 :: nat"
  have tk: "takes (punctuation_rx cls) (c0 # t) = (if run P ?u = 0 then None
      else Some (?b + (run P ?u + run newline (drop (run P ?u) ?u))))"
    using assms unfolding punctuation_rx_def P_def [symmetric]
    by (simp add: takes_shapes) (simp add: P_def)
  have start: "str_from ?b (c0 # t) = (Ok ?u :: (unit, rstr) outcome)"
    by (simp add: str_from_simps(1) str_from_take [of 1 "0x20 # t", simplified])
  have bytes: "?b + str_len (take n ?u) = str_len (take (?b + n) (c0 # t))" for n
    by (simp add: len_utf8_def)
  have skip: "str_from (?b + str_len (take (run P ?u) ?u)) (c0 # t) = (Ok (drop (run P ?u) ?u) :: (unit, rstr) outcome)"
    unfolding bytes by (subst str_from_take) auto
  have fin: "str_len (take (run P ?u) ?u) = 0 \<longleftrightarrow> run P ?u = 0" by (cases ?u) auto
  show ?thesis
  proof (cases "run P ?u = 0")
    case True
    then show ?thesis unfolding scans_def punctuation_def Let_def start obind.simps run_len_eq P_def [symmetric] tk
      by simp
  next
    case False
    then have "punctuation cls c0 (c0 # t) = (Ok (Some (?b + str_len (take (run P ?u) ?u)
        + str_len (take (run newline (drop (run P ?u) ?u)) (drop (run P ?u) ?u)))) :: (unit, nat option) outcome)"
      using fin unfolding punctuation_def Let_def start obind.simps run_len_eq P_def [symmetric] nl skip by simp
    also have "?b + str_len (take (run P ?u) ?u) + str_len (take (run newline (drop (run P ?u) ?u)) (drop (run P ?u) ?u))
        = str_len (take (?b + (run P ?u + run newline (drop (run P ?u) ?u))) (c0 # t))"
      unfolding bytes [of "run P ?u + run newline (drop (run P ?u) ?u)", symmetric] str_len_take_add [of "run P ?u" _ ?u]
      by (rule add.assoc)
    finally show ?thesis using False unfolding scans_def tk by simp
  qed
qed

definition whitespace_rx :: "char_classes \<Rightarrow> regex" where
  "whitespace_rx cls = Alt (Seq (Many (is_whitespace cls) 0 None) (Many newline 1 None))
     (Alt (Seq (Many (is_whitespace cls) 1 None) (NotBefore (\<lambda>c. \<not> is_whitespace cls c)))
          (Many (is_whitespace cls) 1 None))"

lemma rfind_newline_run:
  "rfind_newline s = map_option (\<lambda>n. str_len (take n s)) (back_to 0 (\<lambda>n. if n < length s \<and> newline (s ! n) then Some 0 else None) (length s))"
proof (induction s rule: rev_induct)
  case Nil
  then show ?case by (simp add: back_to_step)
next
  case (snoc c s)
  have rf: "rfind_newline (s @ [c]) = (if newline c then Some (str_len s) else rfind_newline s)"
    by (induction s) (auto simp: newline_def split: option.splits)
  have bt: "back_to 0 f (length s) = back_to 0 g (length s)" if "\<And>n. n \<le> length s \<Longrightarrow> f n = g n" for f g :: "nat \<Rightarrow> nat option"
    unfolding back_to_def by (intro arg_cong [of _ _ firstl] arg_cong [of _ _ concat] map_cong) (auto simp: that)
  let ?f = "\<lambda>n. if n < length (s @ [c]) \<and> newline ((s @ [c]) ! n) then Some (0 :: nat) else None"
  have step: "back_to 0 ?f (length (s @ [c])) = back_to 0 ?f (length s)"
    by (subst back_to_step) simp
  show ?case
  proof (cases "newline c")
    case True
    then show ?thesis unfolding rf step by (subst back_to_step) simp
  next
    case False
    have same: "back_to 0 ?f (length s) = back_to 0 (\<lambda>n. if n < length s \<and> newline (s ! n) then Some 0 else None) (length s)"
      by (rule bt) (use False in \<open>auto simp: nth_append\<close>)
    have keep: "map_option (\<lambda>n. str_len (take n (s @ [c]))) (back_to 0 g (length s))
        = map_option (\<lambda>n. str_len (take n s)) (back_to 0 g (length s))"
      if g: "\<And>n k. g n = Some k \<Longrightarrow> n + k \<le> length s" for g
    proof (cases "back_to 0 g (length s)")
      case (Some m)
      have "m \<le> length s"
      proof -
        have "back_to 0 g h = Some m \<Longrightarrow> m \<le> length s" for h
          by (induction h) (subst (asm) back_to_step; auto split: option.splits dest: g)+
        then show ?thesis using Some .
      qed
      with Some show ?thesis by simp
    qed simp
    let ?g = "\<lambda>n. if n < length s \<and> newline (s ! n) then Some (0 :: nat) else None"
    have "map_option (\<lambda>n. str_len (take n (s @ [c]))) (back_to 0 ?g (length s))
        = map_option (\<lambda>n. str_len (take n s)) (back_to 0 ?g (length s))"
      by (rule keep) (auto split: if_splits)
    then show ?thesis using False snoc unfolding rf step same by simp
  qed
qed

lemma back_to_cases:
  obtains (none) "back_to lo f h = None" "\<And>j. lo \<le> j \<Longrightarrow> j \<le> h \<Longrightarrow> f j = None"
  | (some) n k where "lo \<le> n" "n \<le> h" "f n = Some k" "back_to lo f h = Some (n + k)"
      "\<And>j. n < j \<Longrightarrow> j \<le> h \<Longrightarrow> f j = None"
proof -
  have "(back_to lo f h = None \<and> (\<forall>j. lo \<le> j \<and> j \<le> h \<longrightarrow> f j = None))
    \<or> (\<exists>n k. lo \<le> n \<and> n \<le> h \<and> f n = Some k \<and> back_to lo f h = Some (n + k) \<and> (\<forall>j. n < j \<and> j \<le> h \<longrightarrow> f j = None))"
  proof (induction h)
    case 0
    show ?case by (subst (1 2) back_to_step) (cases "f 0"; auto)
  next
    case (Suc h)
    show ?case
    proof (cases "lo \<le> Suc h \<and> f (Suc h) = None")
      case True
      then have "back_to lo f (Suc h) = back_to lo f h" by (subst back_to_step) simp
      note same = this
      from Suc show ?thesis
      proof (elim disjE exE conjE, goal_cases)
        case 1
        then have "\<forall>j. lo \<le> j \<and> j \<le> Suc h \<longrightarrow> f j = None" using True by (metis le_SucE)
        with 1 same show ?thesis by simp
      next
        case (2 n k)
        then have "\<forall>j. n < j \<and> j \<le> Suc h \<longrightarrow> f j = None" using True by (metis le_SucE)
        then show ?thesis using 2 same by (intro disjI2, rule_tac x = n in exI, rule_tac x = k in exI) auto
      qed
    next
      case False
      then consider "Suc h < lo" | k where "lo \<le> Suc h" "f (Suc h) = Some k" by fastforce
      then show ?thesis
      proof cases
        case 1
        then have "back_to lo f (Suc h) = None" by (subst back_to_step) simp
        with 1 show ?thesis by auto
      next
        case (2 k)
        then have "back_to lo f (Suc h) = Some (Suc h + k)" by (subst back_to_step) simp
        with 2 show ?thesis by (intro disjI2, rule_tac x = "Suc h" in exI, rule_tac x = k in exI) auto
      qed
    qed
  qed
  then show ?thesis
  proof (elim disjE exE conjE, goal_cases)
    case 1
    then show ?thesis by (intro that(1)) auto
  next
    case (2 n k)
    then show ?thesis by (intro that(2) [of n k]) auto
  qed
qed

lemma run_nth: "n < run p s \<Longrightarrow> p (s ! n)" and run_stop: "run p s < length s \<Longrightarrow> \<not> p (s ! run p s)"
  unfolding run_def by (auto dest: nth_length_takeWhile) (metis nth_mem set_takeWhileD takeWhile_nth)

lemma run_pos_iff: "0 < run p s \<longleftrightarrow> s \<noteq> [] \<and> p (hd s)"
  by (cases s) auto

lemma run_drop_pos: "0 < run p (drop n s) \<longleftrightarrow> n < length s \<and> p (s ! n)"
  by (auto simp: run_pos_iff hd_drop_conv_nth)

definition class_ok :: "char_classes \<Rightarrow> bool" where
  "class_ok cls \<longleftrightarrow> is_whitespace cls 0x20 \<and> is_whitespace cls 13 \<and> is_whitespace cls 10"

lemma newline_ws: "class_ok cls \<Longrightarrow> newline c \<Longrightarrow> is_whitespace cls c"
  by (auto simp: class_ok_def newline_def)

lemma takes_lines:
  assumes cls: "class_ok cls"
  shows "takes (Seq (Many (is_whitespace cls) 0 None) (Many newline 1 None)) s =
    map_option Suc (back_to 0 (\<lambda>n. if n < run (is_whitespace cls) s \<and> newline (s ! n) then Some 0 else None) (run (is_whitespace cls) s))"
    (is "?l = map_option Suc (back_to 0 ?g ?R)")
proof -
  define f where "f = (\<lambda>n. if 0 < run newline (drop n s) then Some (run newline (drop n s)) else None)"
  have "f = (\<lambda>n. takes (Many newline 1 None) (drop n s))"
    by (rule ext) (simp add: f_def takes_Many Let_def Suc_le_eq)
  then have l: "?l = back_to 0 f ?R" by (simp add: takes_Seq_Many)
  have g: "(0 < run newline (drop n s)) = (n < ?R \<and> newline (s ! n))" if "n \<le> ?R" for n
  proof
    assume "0 < run newline (drop n s)"
    then have n: "n < length s" "newline (s ! n)" by (simp_all only: run_drop_pos)
    then have "n \<noteq> ?R" using run_stop [of "is_whitespace cls" s] newline_ws [OF cls] by auto
    with n that show "n < ?R \<and> newline (s ! n)" by simp
  next
    assume "n < ?R \<and> newline (s ! n)"
    moreover have "?R \<le> length s" by (rule run_le)
    ultimately show "0 < run newline (drop n s)" unfolding run_drop_pos by linarith
  qed
  show ?thesis
  proof (cases rule: back_to_cases [of 0 ?g ?R])
    case none
    have "f j = None" if "j \<le> ?R" for j
      using none(2) [of j] that g [OF that] by (auto simp: f_def split: if_splits)
    then have "back_to 0 f ?R = None" by (cases rule: back_to_cases [of 0 f ?R]) auto
    with none l show ?thesis by simp
  next
    case (some n k)
    then have n: "n < ?R" "newline (s ! n)" "k = 0" by (auto split: if_splits)
    have later: "f j = None" if "n < j" "j \<le> ?R" for j
      using some(5) [OF that] g [OF that(2)] by (auto simp: f_def split: if_splits)
    have "run newline (drop (Suc n) s) = 0" using later [of "Suc n"] n(1) by (auto simp: f_def split: if_splits)
    moreover have "drop n s = s ! n # drop (Suc n) s" using n(1)
      by (intro Cons_nth_drop_Suc [symmetric]) (rule less_le_trans [OF _ run_le])
    ultimately have fn: "f n = Some 1" using n(2) by (simp add: f_def)
    have "back_to 0 f ?R = Some (n + 1)"
    proof (cases rule: back_to_cases [of 0 f ?R])
      case none
      with fn n(1) show ?thesis by force
    next
      case (some m j)
      with fn later n(1) have "m = n" by (metis less_imp_le linorder_neqE_nat option.distinct(1))
      with some fn show ?thesis by simp
    qed
    with some n l show ?thesis by simp
  qed
qed

lemma takes_gap:
  "takes (Alt (Seq (Many p 1 None) (NotBefore (\<lambda>c. \<not> p c))) (Many p 1 None)) s =
     (let R = run p s in if R = 0 then None else if R = length s \<or> R = 1 then Some R else Some (R - 1))"
proof -
  let ?R = "run p s"
  define f where "f = (\<lambda>n. takes (NotBefore (\<lambda>c. \<not> p c)) (drop n s))"
  have f: "f n = (if n < length s \<and> \<not> p (s ! n) then None else Some 0)" for n
    by (cases "n < length s") (auto simp: f_def takes_def Cons_nth_drop_Suc [symmetric])
  have t: "takes (Alt (Seq (Many p 1 None) (NotBefore (\<lambda>c. \<not> p c))) (Many p 1 None)) s =
      (case back_to 1 f ?R of None \<Rightarrow> (if 1 \<le> ?R then Some ?R else None) | Some n \<Rightarrow> Some n)"
    by (simp only: takes_Alt takes_Seq_Many takes_Many f_def Let_def option.case)
  consider "?R = 0" | "0 < ?R" "?R = length s" | "?R = 1" "?R < length s" | "1 < ?R" "?R < length s"
    using run_le [of p s] by linarith
  then show ?thesis
  proof cases
    case 1
    then show ?thesis unfolding t by (simp add: back_to_step)
  next
    case 2
    then have "f ?R = Some 0" by (simp add: f)
    then have "back_to 1 f ?R = Some ?R" using 2 by (subst back_to_step) simp
    with 2 show ?thesis unfolding t by (simp add: Let_def)
  next
    case 3
    then have "f ?R = None" using run_stop [of p s] by (simp add: f)
    then have "back_to 1 f ?R = None" using 3 by (subst back_to_step, simp, subst back_to_step, simp)
    with 3 show ?thesis unfolding t by (simp add: Let_def)
  next
    case 4
    then have "f ?R = None" "f (?R - 1) = Some 0"
      using run_stop [of p s] run_nth [of "?R - 1" p s] by (simp_all add: f)
    then have "back_to 1 f ?R = Some (?R - 1)" using 4 by (subst back_to_step, simp, subst back_to_step, simp)
    with 4 show ?thesis unfolding t by (simp add: Let_def)
  qed
qed

lemma whitespace_run_scans:
  assumes cls: "class_ok cls" and ws: "is_whitespace cls c0" and s: "s = c0 # t"
  shows "\<exists>n. takes (whitespace_rx cls) s = Some n \<and> whitespace_run cls s = (Ok (str_len (take n s)) :: (unit, nat) outcome)"
proof -
  let ?R = "run (is_whitespace cls) s"
  have R: "0 < ?R" "?R \<le> length s" using ws by (simp_all add: s)
  let ?r = "take ?R s"
  have sp: "split_at (run_len (is_whitespace cls) s) s = (Ok (?r, drop ?R s) :: (unit, rstr \<times> rstr) outcome)"
    unfolding run_len_eq using R by (intro split_at_take)
  let ?g = "\<lambda>n. if n < ?R \<and> newline (s ! n) then Some 0 else None"
  have lr: "length ?r = ?R" using R(2) by simp
  have geq: "(\<lambda>n. if n < ?R \<and> newline (?r ! n) then Some 0 else None) = ?g"
    by (auto simp: fun_eq_iff)
  have rf: "rfind_newline ?r = map_option (\<lambda>n. str_len (take n ?r)) (back_to 0 ?g ?R)"
    using rfind_newline_run [of ?r] unfolding lr geq .
  have lt: "?R < length s \<longleftrightarrow> run_len (is_whitespace cls) s < str_len s"
  proof -
    have "str_len s = str_len (take ?R s) + str_len (drop ?R s)" by (metis append_take_drop_id str_len_simps(3))
    moreover have "str_len (drop ?R s) = 0 \<longleftrightarrow> length s \<le> ?R" by simp
    ultimately show ?thesis unfolding run_len_eq by linarith
  qed
  show ?thesis
  proof (cases rule: back_to_cases [of 0 ?g ?R])
    case (some n k)
    then have n: "n < ?R" "newline (s ! n)" "k = 0" by (auto split: if_splits)
    have nl: "n < length s" by (rule less_le_trans [OF n(1) R(2)])
    have "str_len (take (Suc n) s) = str_len (take n s) + 1"
      using n(2) nl by (auto simp: take_Suc_conv_app_nth newline_def)
    moreover have "str_len (take n ?r) = str_len (take n s)" using n(1) by (simp add: min_def)
    ultimately have "whitespace_run cls s = (Ok (str_len (take (Suc n) s)) :: (unit, nat) outcome)"
      using some(4) n(3) by (simp add: whitespace_run_def Let_def sp rf)
    moreover have "takes (whitespace_rx cls) s = Some (Suc n)"
      using some(4) n(3) unfolding whitespace_rx_def takes_Alt [of "Seq (Many _ 0 None) _"] takes_lines [OF cls] by simp
    ultimately show ?thesis by blast
  next
    case none
    have tk: "takes (whitespace_rx cls) s = (if ?R = length s \<or> ?R = 1 then Some ?R else Some (?R - 1))"
      using none(1) R(1) unfolding whitespace_rx_def takes_Alt [of "Seq (Many _ 0 None) _"] takes_lines [OF cls] takes_gap
      by (simp add: Let_def)
    have run: "whitespace_run cls s = (if run_len (is_whitespace cls) s < str_len s
          then (if run_len (is_whitespace cls) s > len_utf8 (last ?r) then Ok (run_len (is_whitespace cls) s - len_utf8 (last ?r))
                else Ok (run_len (is_whitespace cls) s))
          else (Ok (run_len (is_whitespace cls) s) :: (unit, nat) outcome))"
      unfolding whitespace_run_def Let_def sp obind.simps split_conv rf none(1) using lr R(1) by auto
    have snoc: "?r = take (?R - 1) s @ [last ?r]"
      using R append_butlast_last_id [of ?r] by (simp add: butlast_take s del: append_butlast_last_id)
    have rl: "run_len (is_whitespace cls) s = str_len (take (?R - 1) s) + len_utf8 (last ?r)"
      unfolding run_len_eq by (subst snoc) simp
    have "str_len (take (?R - 1) s) = 0 \<longleftrightarrow> ?R = 1" using ws by (simp only: str_len_pos) (auto simp: s)
    then show ?thesis
      using R lt rl run_len_eq [of "is_whitespace cls" s] unfolding tk run by auto
  qed
qed

lemma takes_whitespace_None:
  assumes "class_ok cls" and "\<not> is_whitespace cls c0"
  shows "takes (whitespace_rx cls) (c0 # t) = None"
  using assms(2) takes_gap [of "is_whitespace cls" "c0 # t"]
  unfolding whitespace_rx_def takes_Alt [of "Seq (Many _ 0 None) _"] takes_lines [OF assms(1)]
  by (simp add: back_to_step)

subsection \<open>The scanner is the expression\<close>

lemma takes_Alts: "takes (Alt r q) s = (case takes r s of None \<Rightarrow> takes q s | Some n \<Rightarrow> Some n)"
  by (rule takes_Alt)

lemma pretok_regex_eq:
  "pretok_regex cls style = Alt contraction_rx (Alt (letters_rx cls)
     (Alt (Many (is_numeric cls) 1 (Some (case style of Llama3 \<Rightarrow> 3 | Qwen2 \<Rightarrow> 1)))
       (Alt (punctuation_rx cls) (whitespace_rx cls))))"
  by (simp add: pretok_regex_def contraction_rx_def letters_rx_def punctuation_rx_def whitespace_rx_def Let_def)

lemma punctuation_None:
  assumes "class_ok cls" and "takes (punctuation_rx cls) (c0 # t) = None" and "takes (letters_rx cls) (c0 # t) = None"
    and "\<not> is_numeric cls c0"
  shows "is_whitespace cls c0"
proof (rule ccontr)
  assume nws: "\<not> is_whitespace cls c0"
  have "\<not> is_alphabetic cls c0"
    using assms(3) by (auto simp: letters_rx_def takes_shapes takes_Many Let_def split: option.splits if_splits)
  moreover have "c0 \<noteq> 0x20" using nws assms(1) by (auto simp: class_ok_def)
  ultimately show False
    using assms(2,4) nws by (simp add: punctuation_rx_def takes_shapes)
qed

lemma match_one_scans:
  assumes cls: "class_ok cls" and s: "\<forall>c \<in> set (c0 # t). scalar c"
  shows "\<exists>n. takes (pretok_regex cls style) (c0 # t) = Some n
    \<and> match_one cls style (c0 # t) = (Ok (str_len (take n (c0 # t))) :: (unit, nat) outcome)"
proof -
  let ?s = "c0 # t"
  have sp: "is_whitespace cls 0x20" using cls by (simp add: class_ok_def)
  note sc = scans_contraction [OF s, unfolded scans_def] scans_letters [of cls c0 t, unfolded scans_def]
    scans_punctuation [OF sp, of c0 t, unfolded scans_def]
  show ?thesis
  proof (cases "takes contraction_rx ?s")
    case (Some n)
    then show ?thesis by (simp add: match_one_def sc pretok_regex_eq takes_Alts)
  next
    case c: None
    show ?thesis
    proof (cases "takes (letters_rx cls) ?s")
      case (Some n)
      with c show ?thesis by (simp add: match_one_def sc pretok_regex_eq takes_Alts)
    next
      case l: None
      let ?m = "case style of Llama3 \<Rightarrow> 3 | Qwen2 \<Rightarrow> (1 :: nat)"
      have nums: "takes (Many (is_numeric cls) 1 (Some ?m)) ?s
          = (if is_numeric cls c0 then Some (min ?m (run (is_numeric cls) ?s)) else None)"
        by (cases style) (auto simp: takes_Many Let_def)
      show ?thesis
      proof (cases "is_numeric cls c0")
        case True
        with c l nums show ?thesis unfolding match_one_def pretok_regex_eq takes_Alts
          by (simp add: sc run_len_max_eq)
      next
        case n: False
        show ?thesis
        proof (cases "takes (punctuation_rx cls) ?s")
          case (Some k)
          with c l n nums show ?thesis unfolding match_one_def pretok_regex_eq takes_Alts by (simp add: sc)
        next
          case p: None
          have ws: "is_whitespace cls c0" by (rule punctuation_None [OF cls p l n])
          obtain k where "takes (whitespace_rx cls) ?s = Some k"
              "whitespace_run cls ?s = (Ok (str_len (take k ?s)) :: (unit, nat) outcome)"
            using whitespace_run_scans [OF cls ws refl, of t] by blast
          with c l n nums p ws show ?thesis unfolding match_one_def pretok_regex_eq takes_Alts by (simp add: sc)
        qed
      qed
    qed
  qed
qed

primrec rx_min :: "regex \<Rightarrow> nat" where
  "rx_min (Cls p) = 1"
| "rx_min (Many p lo hi) = lo"
| "rx_min (Seq r q) = rx_min r + rx_min q"
| "rx_min (Alt r q) = min (rx_min r) (rx_min q)"
| "rx_min (NotBefore p) = 0"

lemma rx_lens_bounds: "n \<in> set (rx_lens r s) \<Longrightarrow> rx_min r \<le> n \<and> n \<le> length s"
proof (induction r arbitrary: s n)
  case (Many p lo hi)
  then have "n \<le> run p s \<and> lo \<le> n"
    by (auto simp: many_lens_eq less_Suc_eq_le min_def split: option.splits if_splits simp del: upt_Suc)
  then show ?case using order_trans [OF _ run_le] by auto
next
  case (Seq r q)
  then obtain a b where ab: "n = a + b" "a \<in> set (rx_lens r s)" "b \<in> set (rx_lens q (drop a s))" by auto
  from Seq.IH(1) [OF ab(2)] Seq.IH(2) [OF ab(3)] show ?case by (auto simp: ab(1))
next
  case (Alt r q)
  then show ?case by (fastforce simp: min_def)
qed (auto split: list.splits if_splits)

lemma takes_bounds: "takes r s = Some n \<Longrightarrow> rx_min r \<le> n \<and> n \<le> length s"
  by (rule rx_lens_bounds) (auto simp: takes_def firstl_def split: list.splits)

lemma rx_min_pretok: "rx_min (pretok_regex cls style) = 1"
  by (simp add: pretok_regex_def Let_def one_of_def)

lemma chunks_next_regex:
  assumes "class_ok cls" and "\<forall>c \<in> set s. scalar c" and "s \<noteq> []"
  shows "\<exists>n. takes (pretok_regex cls style) s = Some n \<and> 0 < n \<and> n \<le> length s
    \<and> chunks_next cls style s = (Ok (Some (take n s, drop n s)) :: (unit, (rstr \<times> rstr) option) outcome)"
proof -
  obtain c0 t where s: "s = c0 # t" using assms(3) by (cases s) auto
  from match_one_scans [OF assms(1), of c0 t style] assms(2) s obtain n where
    n: "takes (pretok_regex cls style) s = Some n" "match_one cls style s = (Ok (str_len (take n s)) :: (unit, nat) outcome)"
    by auto
  with takes_bounds [OF n(1)] assms(3) show ?thesis
    by (auto simp: chunks_next_def rx_min_pretok split_at_take)
qed

text \<open>C15: The hand-written pretokenizer takes exactly what the regular expression of its specification
  takes: on every non-empty text, for both families, the next chunk is the first match a backtracking
  matcher finds for the seven alternatives in their order (greedy repetitions, the negative
  lookahead, ASCII case-insensitive contractions), it is never empty, the rest of the text follows it,
  and no slice of the scanner falls inside a character.\<close>

theorem pretokenizer_is_its_regex:
  assumes "class_ok cls" and "\<forall>c \<in> set s. scalar c" and "s \<noteq> []"
  shows "\<exists>n. takes (pretok_regex cls style) s = Some n \<and> 0 < n \<and> n \<le> length s
    \<and> chunks_next cls style s = (Ok (Some (take n s, drop n s)) :: (unit, (rstr \<times> rstr) option) outcome)"
  using chunks_next_regex [OF assms] .

definition ascii_classes :: char_classes where
  "ascii_classes = \<lparr>is_alphabetic = (\<lambda>c. (65 \<le> c \<and> c \<le> 90) \<or> (97 \<le> c \<and> c \<le> 122)),
     is_numeric = (\<lambda>c. 48 \<le> c \<and> c \<le> 57), is_whitespace = (\<lambda>c. c = 32 \<or> (9 \<le> c \<and> c \<le> 13))\<rparr>"

lemma ascii_class_ok: "class_ok ascii_classes"
  by (simp add: class_ok_def ascii_classes_def)

theorem pretokenizer_is_its_regex_witness:
  "\<exists>n. takes (pretok_regex ascii_classes Llama3) [72, 105, 32, 49, 50] = Some n \<and> 0 < n
    \<and> chunks_next ascii_classes Llama3 [72, 105, 32, 49, 50]
      = (Ok (Some (take n [72, 105, 32, 49, 50], drop n [72, 105, 32, 49, 50])) :: (unit, (rstr \<times> rstr) option) outcome)"
proof -
  have "\<forall>c \<in> set [72, 105, 32, 49, 50]. scalar c" by (simp add: scalar_def)
  from pretokenizer_is_its_regex [OF ascii_class_ok this, of Llama3] show ?thesis by auto
qed

lemma pretok_chunks_total:
  assumes cls: "class_ok cls"
  shows "\<forall>c \<in> set s. scalar c \<Longrightarrow> length s < fuel \<Longrightarrow>
    \<exists>cs. (pretok_chunks fuel cls style s :: (unit, rstr list) outcome option) = Some (Ok cs) \<and> concat cs = s \<and> [] \<notin> set cs"
proof (induction fuel arbitrary: s)
  case (Suc fuel)
  show ?case
  proof (cases "s = []")
    case True
    then show ?thesis by (simp add: chunks_next_def)
  next
    case False
    obtain n where n: "0 < n" "n \<le> length s"
      "chunks_next cls style s = (Ok (Some (take n s, drop n s)) :: (unit, (rstr \<times> rstr) option) outcome)"
      using chunks_next_regex [OF cls Suc.prems(1) False] by blast
    have "\<forall>c \<in> set (drop n s). scalar c" using Suc.prems(1) by (meson in_set_dropD)
    moreover have "length (drop n s) < fuel" using Suc.prems(2) n(1) False by (cases s) auto
    ultimately obtain cs where
      "(pretok_chunks fuel cls style (drop n s) :: (unit, rstr list) outcome option) = Some (Ok cs)"
      "concat cs = drop n s" "[] \<notin> set cs" using Suc.IH by blast
    with n False show ?thesis by auto
  qed
qed simp

text \<open>\<open>chunks(text, style).collect()\<close>: a text has at most as many chunks as characters.\<close>

definition pretok :: "char_classes \<Rightarrow> style \<Rightarrow> rstr \<Rightarrow> ('e, rstr list) outcome" where
  "pretok cls style text = (case pretok_chunks (Suc (length text)) cls style text of Some r \<Rightarrow> r | None \<Rightarrow> Panic)"

lemma pretok_ok:
  assumes "class_ok cls" and "\<forall>c \<in> set s. scalar c"
  shows "\<exists>cs. (pretok cls style s :: (unit, rstr list) outcome) = Ok cs \<and> concat cs = s \<and> [] \<notin> set cs"
  using pretok_chunks_total [OF assms, of "Suc (length s)" style] by (auto simp: pretok_def)

text \<open>The pretokenizer partitions every text: the iteration ends, its chunks are non-empty, and
  concatenated they are the text, character for character.\<close>

theorem pretokenizer_partitions_text:
  assumes "class_ok cls" and "\<forall>c \<in> set s. scalar c" and "length s < fuel"
  shows "\<exists>cs. (pretok_chunks fuel cls style s :: (unit, rstr list) outcome option) = Some (Ok cs)
    \<and> concat cs = s \<and> [] \<notin> set cs"
  using pretok_chunks_total [OF assms(1)] assms(2,3) .

theorem pretokenizer_partitions_text_witness:
  "\<exists>cs. (pretok_chunks 6 ascii_classes Qwen2 [72, 105, 32, 49, 50] :: (unit, rstr list) outcome option) = Some (Ok cs)
    \<and> concat cs = [72, 105, 32, 49, 50]"
proof -
  have "\<forall>c \<in> set [72, 105, 32, 49, 50]. scalar c" by (simp add: scalar_def)
  from pretokenizer_partitions_text [OF ascii_class_ok this, of 6 Qwen2] show ?thesis by auto
qed

end
