(* ===== verification/Nr_Token.thy ===== *)
theory Nr_Token
  imports Nr_Pretok
begin

text \<open>
  The tokenizer: \<^verbatim>\<open>crates/nr-token/src/blob.rs\<close> (the NRTK blob, its parser with the up-front checks,
  token lookups, merge search and the BPE loop) and \<^verbatim>\<open>crates/nr-token/src/template.rs\<close> (the chat
  templates). The borrowed slices of the Rust struct are the byte lists they point to.
\<close>

subsection \<open>The blob\<close>

definition NRTK_MAGIC :: bytes where "NRTK_MAGIC = [0x4e, 0x52, 0x54, 0x4b]"
definition NRTK_VERSION :: u32 where "NRTK_VERSION = 2"
definition FLAG_CONTROL :: u16 where "FLAG_CONTROL = 1"

datatype template = TplLlama3 | ChatMl | Granite

record specials =
  sp_bos :: u32
  sp_eos :: u32
  sp_eot :: u32
  sp_start_header :: u32
  sp_end_header :: u32
  sp_end_of_text :: u32

record tokenizer =
  tk_specials :: specials
  tk_template :: template
  tk_vocab_count :: u32
  tk_byte_ids :: bytes
  tk_table :: bytes
  tk_merges :: bytes
  tk_merge_count :: nat
  tk_pool :: bytes

datatype tok_error = TokTooShort | TokBadMagic | TokBadVersion

definition u32le :: "bytes \<Rightarrow> nat \<Rightarrow> ('e, u32) outcome" where
  "u32le b off = read_le 4 b off"

definition u16le :: "bytes \<Rightarrow> nat \<Rightarrow> ('e, u16) outcome" where
  "u16le b off = read_le 2 b off"

text \<open>The vocabulary check: every token's bytes lie in the pool.\<close>

fun check_table :: "bytes \<Rightarrow> nat \<Rightarrow> nat list \<Rightarrow> (tok_error, unit) outcome" where
  "check_table table pool_size [] = Ok ()"
| "check_table table pool_size (i # ids) =
     (let off = i * 8 in
      obind (u32le table off) (\<lambda>p. obind (u16le table (off + 4)) (\<lambda>len.
      if unat p + unat len > pool_size then Err TokTooShort else check_table table pool_size ids)))"

definition parse_template :: "u32 \<Rightarrow> (tok_error, template) outcome" where
  "parse_template v = (if v = 1 then Ok TplLlama3 else if v = 2 then Ok ChatMl
     else if v = 3 then Ok Granite else Err TokBadVersion)"

definition parse_specials :: "bytes \<Rightarrow> ('e, specials) outcome" where
  "parse_specials blob =
     obind (u32le blob 24) (\<lambda>bos. obind (u32le blob 28) (\<lambda>eos. obind (u32le blob 32) (\<lambda>eot.
     obind (u32le blob 36) (\<lambda>sh. obind (u32le blob 40) (\<lambda>eh. obind (u32le blob 44) (\<lambda>et.
     Ok \<lparr>sp_bos = bos, sp_eos = eos, sp_eot = eot, sp_start_header = sh, sp_end_header = eh,
         sp_end_of_text = et\<rparr>))))))"

definition special_ids :: "specials \<Rightarrow> u32 list" where
  "special_ids s = [sp_bos s, sp_eos s, sp_eot s, sp_start_header s, sp_end_header s, sp_end_of_text s]"

definition tokenizer_parse :: "bytes \<Rightarrow> (tok_error, tokenizer) outcome" where
  "tokenizer_parse blob =
     (if length blob < 8 + 12 + 24 + 1024 then Err TokTooShort
      else obind (slice blob 0 4) (\<lambda>magic. if magic \<noteq> NRTK_MAGIC then Err TokBadMagic
      else obind (u32le blob 4) (\<lambda>version. if version \<noteq> NRTK_VERSION then Err TokBadVersion
      else obind (obind (u32le blob 8) parse_template) (\<lambda>tpl.
      obind (u32le blob 12) (\<lambda>vocab_count. obind (u32le blob 16) (\<lambda>mc. obind (u32le blob 20) (\<lambda>ps.
      obind (parse_specials blob) (\<lambda>specials.
      let merge_count = unat mc; pool_size = unat ps; byte_ids_off = 48; table_off = byte_ids_off + 256 * 4 in
      obind (ok_or (checked_mul (unat vocab_count) 8) TokTooShort) (\<lambda>tb.
      obind (ok_or (checked_add table_off tb) TokTooShort) (\<lambda>merges_off.
      obind (ok_or (checked_mul merge_count 16) TokTooShort) (\<lambda>mb.
      obind (ok_or (checked_add merges_off mb) TokTooShort) (\<lambda>pool_off.
      obind (ok_or (checked_add pool_off pool_size) TokTooShort) (\<lambda>pool_end.
      if length blob < pool_end then Err TokTooShort
      else obind (slice blob table_off merges_off) (\<lambda>table.
      obind (check_table table pool_size [0..<unat vocab_count]) (\<lambda>_.
      if \<not> (\<forall>t \<in> set (special_ids specials). t < vocab_count) then Err TokTooShort
      else obind (slice blob byte_ids_off table_off) (\<lambda>byte_ids.
      obind (slice blob merges_off pool_off) (\<lambda>merges.
      obind (slice blob pool_off (pool_off + pool_size)) (\<lambda>pool.
      Ok \<lparr>tk_specials = specials, tk_template = tpl, tk_vocab_count = vocab_count, tk_byte_ids = byte_ids,
          tk_table = table, tk_merges = merges, tk_merge_count = merge_count, tk_pool = pool\<rparr>))))))))))))))))))"

subsection \<open>Lookups\<close>

definition byte_token :: "tokenizer \<Rightarrow> byte \<Rightarrow> ('e, u32) outcome" where
  "byte_token tk b = u32le (tk_byte_ids tk) (unat b * 4)"

definition token_bytes :: "tokenizer \<Rightarrow> u32 \<Rightarrow> ('e, bytes) outcome" where
  "token_bytes tk i =
     (if i \<ge> tk_vocab_count tk then Ok []
      else let off = unat i * 8 in
        obind (u32le (tk_table tk) off) (\<lambda>p. obind (u16le (tk_table tk) (off + 4)) (\<lambda>len.
        slice (tk_pool tk) (unat p) (unat p + unat len))))"

definition is_control :: "tokenizer \<Rightarrow> u32 \<Rightarrow> ('e, bool) outcome" where
  "is_control tk i =
     (if i \<ge> tk_vocab_count tk then Ok True
      else obind (u16le (tk_table tk) (unat i * 8 + 6)) (\<lambda>flags. Ok (flags AND FLAG_CONTROL \<noteq> 0)))"

definition is_stop :: "tokenizer \<Rightarrow> u32 \<Rightarrow> bool" where
  "is_stop tk i \<longleftrightarrow> i = sp_eos (tk_specials tk) \<or> i = sp_eot (tk_specials tk) \<or> i = sp_end_of_text (tk_specials tk)"

definition merge_key :: "u32 \<Rightarrow> u32 \<Rightarrow> u64" where
  "merge_key l r = push_bit 32 (ucast l) OR ucast r"

text \<open>Binary search of the merge table.\<close>

function merge_search :: "bytes \<Rightarrow> u64 \<Rightarrow> nat \<Rightarrow> nat \<Rightarrow> ('e, (u32 \<times> u32) option) outcome" where
  "merge_search merges key lo hi =
     (if lo < hi then
        let mid = (lo + hi) div 2; off = mid * 16 in
        obind (u32le merges off) (\<lambda>l. obind (u32le merges (off + 4)) (\<lambda>r.
        let k = merge_key l r in
        if k < key then merge_search merges key (mid + 1) hi
        else if k > key then merge_search merges key lo mid
        else obind (u32le merges (off + 8)) (\<lambda>res. obind (u32le merges (off + 12)) (\<lambda>rank. Ok (Some (res, rank))))))
      else Ok None)"
  by pat_completeness auto
termination by (relation "measure (\<lambda>(m, k, lo, hi). hi - lo)") auto

declare merge_search.simps [simp del]

definition merge :: "tokenizer \<Rightarrow> u32 \<Rightarrow> u32 \<Rightarrow> ('e, (u32 \<times> u32) option) outcome" where
  "merge tk left right = merge_search (tk_merges tk) (merge_key left right) 0 (tk_merge_count tk)"

subsection \<open>Encoding\<close>

text \<open>One pass over the adjacent pairs: the best is (index, result, rank).\<close>

fun best_pair :: "tokenizer \<Rightarrow> u32 list \<Rightarrow> nat list \<Rightarrow> (nat \<times> u32 \<times> u32) option \<Rightarrow>
    ('e, (nat \<times> u32 \<times> u32) option) outcome" where
  "best_pair tk ids [] best = Ok best"
| "best_pair tk ids (i # is) best =
     obind (index ids i) (\<lambda>a. obind (index ids (i + 1)) (\<lambda>b. obind (merge tk a b) (\<lambda>m.
     best_pair tk ids is
       (case m of None \<Rightarrow> best
        | Some (result, rank) \<Rightarrow>
            if (case best of None \<Rightarrow> True | Some (_, _, br) \<Rightarrow> rank < br) then Some (i, result, rank) else best))))"

function encode_loop :: "tokenizer \<Rightarrow> u32 list \<Rightarrow> ('e, u32 list) outcome" where
  "encode_loop tk ids =
     (case best_pair tk ids [0..<length ids - 1] None of
        Ok (Some (i, result, rank)) \<Rightarrow>
          if i + 1 < length ids then encode_loop tk (take i ids @ result # drop (i + 2) ids) else Panic
      | Ok None \<Rightarrow> Ok ids | Err e \<Rightarrow> Err e | Panic \<Rightarrow> Panic)"
  by pat_completeness auto
termination by (relation "measure (\<lambda>(tk, ids). length ids)") auto

declare encode_loop.simps [simp del]

fun map_outcome :: "('a \<Rightarrow> ('e, 'b) outcome) \<Rightarrow> 'a list \<Rightarrow> ('e, 'b list) outcome" where
  "map_outcome f [] = Ok []"
| "map_outcome f (x # xs) = obind (f x) (\<lambda>y. obind (map_outcome f xs) (\<lambda>ys. Ok (y # ys)))"

definition encode_chunk :: "tokenizer \<Rightarrow> bytes \<Rightarrow> u32 list \<Rightarrow> ('e, u32 list) outcome" where
  "encode_chunk tk chunk out =
     obind (map_outcome (byte_token tk) chunk) (\<lambda>ids. obind (encode_loop tk ids) (\<lambda>ids'. Ok (out @ ids')))"

fun encode_chunks :: "tokenizer \<Rightarrow> rstr list \<Rightarrow> u32 list \<Rightarrow> ('e, u32 list) outcome" where
  "encode_chunks tk [] out = Ok out"
| "encode_chunks tk (c # cs) out = obind (encode_chunk tk (utf8 c) out) (encode_chunks tk cs)"

definition template_style :: "template \<Rightarrow> style" where
  "template_style t = (case t of TplLlama3 \<Rightarrow> Llama3 | Granite \<Rightarrow> Llama3 | ChatMl \<Rightarrow> Qwen2)"

definition encode_text :: "char_classes \<Rightarrow> tokenizer \<Rightarrow> rstr \<Rightarrow> u32 list \<Rightarrow> (unit, u32 list) outcome" where
  "encode_text cls tk text out =
     obind (pretok cls (template_style (tk_template tk)) text) (\<lambda>cs. encode_chunks tk cs out)"

subsection \<open>Chat templates\<close>

definition ROLE_SYSTEM :: rstr where "ROLE_SYSTEM = [115, 121, 115, 116, 101, 109]"
definition ROLE_USER :: rstr where "ROLE_USER = [117, 115, 101, 114]"
definition ROLE_ASSISTANT :: rstr where "ROLE_ASSISTANT = [97, 115, 115, 105, 115, 116, 97, 110, 116]"

definition encode_header :: "char_classes \<Rightarrow> tokenizer \<Rightarrow> rstr \<Rightarrow> u32 list \<Rightarrow> (unit, u32 list) outcome" where
  "encode_header cls tk role out =
     (let s = tk_specials tk in
      case tk_template tk of
        TplLlama3 \<Rightarrow> obind (encode_text cls tk role (out @ [sp_start_header s])) (\<lambda>out.
                     encode_text cls tk [10, 10] (out @ [sp_end_header s]))
      | ChatMl \<Rightarrow> obind (encode_text cls tk role (out @ [sp_start_header s])) (\<lambda>out.
                  encode_text cls tk [10] out)
      | Granite \<Rightarrow> obind (encode_text cls tk role (out @ [sp_start_header s])) (\<lambda>out.
                   Ok (out @ [sp_end_header s])))"

definition encode_message :: "char_classes \<Rightarrow> tokenizer \<Rightarrow> rstr \<Rightarrow> rstr \<Rightarrow> u32 list \<Rightarrow> (unit, u32 list) outcome" where
  "encode_message cls tk role content out =
     obind (encode_header cls tk role out) (\<lambda>out. obind (encode_text cls tk content out) (\<lambda>out.
     let out = out @ [sp_eot (tk_specials tk)] in
     if tk_template tk = ChatMl \<or> tk_template tk = Granite then encode_text cls tk [10] out else Ok out))"

definition encode_conversation_start :: "char_classes \<Rightarrow> tokenizer \<Rightarrow> rstr option \<Rightarrow> u32 list \<Rightarrow> (unit, u32 list) outcome" where
  "encode_conversation_start cls tk system out =
     (let out = (if tk_template tk = TplLlama3 then out @ [sp_bos (tk_specials tk)] else out) in
      case system of None \<Rightarrow> Ok out | Some sys \<Rightarrow> encode_message cls tk ROLE_SYSTEM sys out)"

subsection \<open>What parsing establishes\<close>

definition entry_ok :: "bytes \<Rightarrow> nat \<Rightarrow> nat \<Rightarrow> bool" where
  "entry_ok table pool_size i \<longleftrightarrow>
     unat (le_word (sub table (i * 8) (i * 8 + 4)) :: u32) + unat (le_word (sub table (i * 8 + 4) (i * 8 + 4 + 2)) :: u16) \<le> pool_size"

definition tok_ok :: "tokenizer \<Rightarrow> bool" where
  "tok_ok tk \<longleftrightarrow> length (tk_byte_ids tk) = 1024 \<and> length (tk_table tk) = unat (tk_vocab_count tk) * 8
     \<and> length (tk_merges tk) = tk_merge_count tk * 16
     \<and> (\<forall>i < unat (tk_vocab_count tk). entry_ok (tk_table tk) (length (tk_pool tk)) i)
     \<and> (\<forall>t \<in> set (special_ids (tk_specials tk)). t < tk_vocab_count tk)"

lemma u32le_ok [simp]: "off + 4 \<le> length b \<Longrightarrow> u32le b off = Ok (le_word (sub b off (off + 4)))"
  and u16le_ok [simp]: "off + 2 \<le> length b \<Longrightarrow> u16le b off = Ok (le_word (sub b off (off + 2)))"
  by (simp_all add: u32le_def u16le_def)

lemma u32le_Panic [outcome_simps]: "u32le b off = Panic \<longleftrightarrow> length b < off + 4"
  and u16le_Panic [outcome_simps]: "u16le b off = Panic \<longleftrightarrow> length b < off + 2"
  by (simp_all add: u32le_def u16le_def read_Panic_iff)

lemma check_table_eq:
  "\<forall>i \<in> set ids. i * 8 + 8 \<le> length table \<Longrightarrow>
     check_table table n ids = (if \<forall>i \<in> set ids. entry_ok table n i then Ok () else Err TokTooShort)"
  by (induction ids) (auto simp: entry_ok_def Let_def)

lemma parse_specials_ok: "48 \<le> length blob \<Longrightarrow> \<exists>s. parse_specials blob = Ok s"
  by (simp add: parse_specials_def)

lemma parse_template_not_Panic [simp]: "parse_template v \<noteq> Panic"
  by (simp add: parse_template_def)

lemma tokenizer_parse_not_Panic: "tokenizer_parse blob \<noteq> Panic"
proof (cases "length blob < 1068")
  case False
  obtain s where s: "parse_specials blob = (Ok s :: (tok_error, specials) outcome)"
    using parse_specials_ok [of blob] False by auto
  show ?thesis
    using False
    by (auto simp: tokenizer_parse_def s Let_def obind_Panic_iff obind_Ok_iff ok_or_Ok_iff slice_Panic_iff slice_Ok_iff
        check_table_eq split: if_splits)
qed (simp add: tokenizer_parse_def)

lemma tokenizer_parse_ok:
  assumes "tokenizer_parse blob = Ok tk"
  shows "tok_ok tk"
proof -
  from assms have len: "1068 \<le> length blob" by (auto simp: tokenizer_parse_def split: if_splits)
  obtain s where s: "parse_specials blob = (Ok s :: (tok_error, specials) outcome)"
    using parse_specials_ok [of blob] len by auto
  show ?thesis
    using assms len
    by (auto simp: tokenizer_parse_def s Let_def obind_Ok_iff ok_or_Ok_iff slice_Ok_iff check_table_eq tok_ok_def
        split: if_splits)
qed

subsection \<open>Lookups never leave their slices\<close>

definition tbytes :: "tokenizer \<Rightarrow> u32 \<Rightarrow> bytes" where
  "tbytes tk i = (case (token_bytes tk i :: (unit, bytes) outcome) of Ok bs \<Rightarrow> bs | Err e \<Rightarrow> [] | Panic \<Rightarrow> [])"

definition control :: "tokenizer \<Rightarrow> u32 \<Rightarrow> bool" where
  "control tk i \<longleftrightarrow> (is_control tk i :: (unit, bool) outcome) = Ok True"

definition byte_id :: "tokenizer \<Rightarrow> byte \<Rightarrow> u32" where
  "byte_id tk b = le_word (sub (tk_byte_ids tk) (unat b * 4) (unat b * 4 + 4))"

lemma id_in_table: "tok_ok tk \<Longrightarrow> i < tk_vocab_count tk \<Longrightarrow> unat i * 8 + 8 \<le> length (tk_table tk)"
  by (simp add: tok_ok_def word_less_nat_alt)

lemma token_bytes_ok: "tok_ok tk \<Longrightarrow> token_bytes tk i = Ok (tbytes tk i)"
proof (cases "i < tk_vocab_count tk")
  case True
  assume ok: "tok_ok tk"
  then have "entry_ok (tk_table tk) (length (tk_pool tk)) (unat i)"
    using True by (simp add: tok_ok_def word_less_nat_alt)
  with id_in_table [OF ok True] True show ?thesis
    by (simp add: tbytes_def token_bytes_def entry_ok_def Let_def not_le [symmetric])
qed (simp add: tbytes_def token_bytes_def not_less)

lemma is_control_ok: "tok_ok tk \<Longrightarrow> is_control tk i = Ok (control tk i)"
  using id_in_table [of tk i] by (auto simp: control_def is_control_def not_le)

lemma byte_token_ok: "tok_ok tk \<Longrightarrow> byte_token tk b = Ok (byte_id tk b)"
proof -
  assume "tok_ok tk"
  moreover have "unat b < 256" using unsigned_less [of b] by simp
  ultimately show ?thesis by (simp add: byte_token_def byte_id_def tok_ok_def)
qed

subsection \<open>Merge search\<close>

definition mfield :: "bytes \<Rightarrow> nat \<Rightarrow> nat \<Rightarrow> u32" where
  "mfield merges i j = le_word (sub merges (i * 16 + j) (i * 16 + j + 4))"

definition mkey :: "bytes \<Rightarrow> nat \<Rightarrow> u64" where
  "mkey merges i = merge_key (mfield merges i 0) (mfield merges i 4)"

lemma merge_key_inj: "merge_key l r = merge_key l' r' \<longleftrightarrow> l = l' \<and> r = r'"
proof -
  have "ucast (merge_key l r) = r" "ucast (drop_bit 32 (merge_key l r)) = l" for l r
    unfolding merge_key_def by (rule bit_word_eqI; auto simp: bit_simps dest: bit_imp_le_length)+
  then show ?thesis by metis
qed

lemma mfield_read:
  "i * 16 + 16 \<le> length merges \<Longrightarrow> u32le merges (i * 16) = Ok (mfield merges i 0)"
  "i * 16 + 16 \<le> length merges \<Longrightarrow> u32le merges (i * 16 + 4) = Ok (mfield merges i 4)"
  "i * 16 + 16 \<le> length merges \<Longrightarrow> u32le merges (i * 16 + 8) = Ok (mfield merges i 8)"
  "i * 16 + 16 \<le> length merges \<Longrightarrow> u32le merges (i * 16 + 12) = Ok (mfield merges i 12)"
  by (simp_all add: mfield_def)

lemma merge_search_eq:
  assumes "lo < hi" and "hi * 16 \<le> length merges"
  shows "merge_search merges key lo hi = (let mid = (lo + hi) div 2 in
    if mkey merges mid < key then merge_search merges key (mid + 1) hi
    else if key < mkey merges mid then merge_search merges key lo mid
    else Ok (Some (mfield merges mid 8, mfield merges mid 12)))"
proof -
  have "(lo + hi) div 2 + 1 \<le> hi" using assms(1) by linarith
  then have "(lo + hi) div 2 * 16 + 16 \<le> length merges" using assms(2) by linarith
  then show ?thesis
    using assms(1) by (subst merge_search.simps) (simp add: Let_def mfield_read mkey_def del: u32le_ok)
qed

lemma merge_search_total:
  "hi * 16 \<le> length merges \<Longrightarrow> \<exists>r. merge_search merges key lo hi = Ok r"
proof (induction "hi - lo" arbitrary: lo hi rule: less_induct)
  case less
  show ?case
  proof (cases "lo < hi")
    case True
    then have "hi - ((lo + hi) div 2 + 1) < hi - lo" "(lo + hi) div 2 - lo < hi - lo" "(lo + hi) div 2 * 16 \<le> length merges"
      using less.prems by linarith+
    with less.hyps [of hi "(lo + hi) div 2 + 1"] less.hyps [of "(lo + hi) div 2" lo] less.prems show ?thesis
      by (simp add: merge_search_eq [OF True less.prems] Let_def)
  qed (simp add: merge_search.simps)
qed

lemma merge_search_found:
  "hi * 16 \<le> length merges \<Longrightarrow> (merge_search merges key lo hi :: ('e, (u32 \<times> u32) option) outcome) = Ok (Some (res, rank)) \<Longrightarrow>
     \<exists>i. lo \<le> i \<and> i < hi \<and> mkey merges i = key \<and> res = mfield merges i 8 \<and> rank = mfield merges i 12"
proof (induction "hi - lo" arbitrary: lo hi rule: less_induct)
  case less
  show ?case
  proof (cases "lo < hi")
    case True
    let ?m = "(lo + hi) div 2"
    have m: "lo \<le> ?m" "?m < hi" "hi - (?m + 1) < hi - lo" "?m - lo < hi - lo" "?m * 16 \<le> length merges"
      using True less.prems by linarith+
    from less.prems(2) consider "mkey merges ?m < key" "(merge_search merges key (?m + 1) hi :: ('e, (u32 \<times> u32) option) outcome) = Ok (Some (res, rank))"
      | "key < mkey merges ?m" "(merge_search merges key lo ?m :: ('e, (u32 \<times> u32) option) outcome) = Ok (Some (res, rank))"
      | "mkey merges ?m = key" "res = mfield merges ?m 8" "rank = mfield merges ?m 12"
      by (auto simp: merge_search_eq [OF True less.prems(1)] Let_def split: if_splits)
    then show ?thesis
    proof cases
      case 1
      with less.hyps [OF m(3) less.prems(1)] m(1) show ?thesis by (meson le_trans le_add1)
    next
      case 2
      with less.hyps [OF m(4,5)] m(2) show ?thesis by (meson less_trans)
    next
      case 3
      with m show ?thesis by blast
    qed
  qed (use less.prems in \<open>simp add: merge_search.simps\<close>)
qed

lemma merge_search_missing:
  "hi * 16 \<le> length merges \<Longrightarrow> (merge_search merges key lo hi :: ('e, (u32 \<times> u32) option) outcome) = Ok None \<Longrightarrow>
     (\<And>i j. lo \<le> i \<Longrightarrow> i < j \<Longrightarrow> j < hi \<Longrightarrow> mkey merges i < mkey merges j) \<Longrightarrow>
     lo \<le> n \<Longrightarrow> n < hi \<Longrightarrow> mkey merges n \<noteq> key"
proof (induction "hi - lo" arbitrary: lo hi rule: less_induct)
  case less
  let ?m = "(lo + hi) div 2"
  have True: "lo < hi" using less.prems by linarith
  have m: "lo \<le> ?m" "?m < hi" "hi - (?m + 1) < hi - lo" "?m - lo < hi - lo" "?m * 16 \<le> length merges"
    using True less.prems by linarith+
  note sorted = less.prems(3)
  from less.prems(2) consider "mkey merges ?m < key" "(merge_search merges key (?m + 1) hi :: ('e, (u32 \<times> u32) option) outcome) = Ok None"
    | "key < mkey merges ?m" "(merge_search merges key lo ?m :: ('e, (u32 \<times> u32) option) outcome) = Ok None"
    by (auto simp: merge_search_eq [OF True less.prems(1)] Let_def split: if_splits)
  then show ?case
  proof cases
    case 1
    show ?thesis
    proof (cases "n \<le> ?m")
      case True
      then have "mkey merges n \<le> mkey merges ?m"
        using sorted [OF less.prems(4), of ?m] m by (cases "n = ?m") auto
      with 1 show ?thesis by auto
    next
      case False
      with less.hyps [OF m(3) less.prems(1) 1(2)] sorted m(1) less.prems(5) show ?thesis by simp
    qed
  next
    case 2
    show ?thesis
    proof (cases "?m \<le> n")
      case True
      then have "mkey merges ?m \<le> mkey merges n"
        using sorted [OF m(1), of n] less.prems(5) by (cases "n = ?m") auto
      with 2 show ?thesis by auto
    next
      case False
      with less.hyps [OF m(4,5) 2(2)] sorted m(2) less.prems(4) show ?thesis by simp
    qed
  qed
qed

definition merge_of :: "tokenizer \<Rightarrow> u32 \<Rightarrow> u32 \<Rightarrow> (u32 \<times> u32) option" where
  "merge_of tk a b = (case (merge tk a b :: (unit, (u32 \<times> u32) option) outcome) of Ok m \<Rightarrow> m | Err e \<Rightarrow> None | Panic \<Rightarrow> None)"

lemma merge_search_type:
  "(merge_search merges key lo hi :: ('e, (u32 \<times> u32) option) outcome) = Ok r \<Longrightarrow> hi * 16 \<le> length merges \<Longrightarrow>
     (merge_search merges key lo hi :: ('f, (u32 \<times> u32) option) outcome) = Ok r"
proof (induction "hi - lo" arbitrary: lo hi rule: less_induct)
  case less
  show ?case
  proof (cases "lo < hi")
    case True
    define m where "m = (lo + hi) div 2"
    have m: "hi - (m + 1) < hi - lo" "m - lo < hi - lo" "m * 16 \<le> length merges"
      using True less.prems(2) unfolding m_def by linarith+
    note eq = merge_search_eq [OF True less.prems(2), of key, unfolded Let_def, folded m_def]
    note eqe = eq [where 'a = 'e]
    show ?thesis
    proof (cases "mkey merges m < key")
      case True
      with less.prems(1) have "(merge_search merges key (m + 1) hi :: ('e, (u32 \<times> u32) option) outcome) = Ok r"
        unfolding eqe by simp
      from less.hyps [OF m(1) this less.prems(2)] True show ?thesis by (simp add: eq)
    next
      case False
      show ?thesis
      proof (cases "key < mkey merges m")
        case True
        with False less.prems(1) have "(merge_search merges key lo m :: ('e, (u32 \<times> u32) option) outcome) = Ok r"
          unfolding eqe by simp
        from less.hyps [OF m(2) this m(3)] True False show ?thesis by (simp add: eq)
      next
        case ge: False
        with False less.prems(1) show ?thesis unfolding eq by simp
      qed
    qed
  qed (use less.prems in \<open>simp add: merge_search.simps\<close>)
qed

lemma merge_ok: "tok_ok tk \<Longrightarrow> merge tk a b = Ok (merge_of tk a b)"
proof -
  assume ok: "tok_ok tk"
  then have l: "tk_merge_count tk * 16 \<le> length (tk_merges tk)" by (simp add: tok_ok_def)
  obtain r where r: "merge_search (tk_merges tk) (merge_key a b) 0 (tk_merge_count tk) = (Ok r :: (unit, (u32 \<times> u32) option) outcome)"
    using merge_search_total [OF l] by blast
  then have "merge_of tk a b = r" by (simp add: merge_of_def merge_def)
  with merge_search_type [OF r l] show ?thesis by (simp add: merge_def)
qed

definition pair_at :: "tokenizer \<Rightarrow> u32 list \<Rightarrow> nat \<Rightarrow> (u32 \<times> u32) option" where
  "pair_at tk ids i = merge_of tk (ids ! i) (ids ! (i + 1))"

text \<open>The reference: one BPE step merges the leftmost of the adjacent pairs of lowest rank.\<close>

inductive bpe_step :: "tokenizer \<Rightarrow> u32 list \<Rightarrow> u32 list \<Rightarrow> bool" where
  "i + 1 < length ids \<Longrightarrow> pair_at tk ids i = Some (res, rank) \<Longrightarrow>
   (\<And>j res' rank'. j + 1 < length ids \<Longrightarrow> pair_at tk ids j = Some (res', rank') \<Longrightarrow>
      rank \<le> rank' \<and> (j < i \<longrightarrow> rank < rank')) \<Longrightarrow>
   bpe_step tk ids (take i ids @ res # drop (i + 2) ids)"

inductive_cases bpe_stepE: "bpe_step tk ids ids'"

definition bpe_normal :: "tokenizer \<Rightarrow> u32 list \<Rightarrow> bool" where
  "bpe_normal tk ids \<longleftrightarrow> (\<forall>i. i + 1 < length ids \<longrightarrow> pair_at tk ids i = None)"

definition pick :: "tokenizer \<Rightarrow> u32 list \<Rightarrow> (nat \<times> u32 \<times> u32) option \<Rightarrow> nat \<Rightarrow> (nat \<times> u32 \<times> u32) option" where
  "pick tk ids best i =
     (case pair_at tk ids i of None \<Rightarrow> best
      | Some (result, rank) \<Rightarrow>
          if (case best of None \<Rightarrow> True | Some (_, _, br) \<Rightarrow> rank < br) then Some (i, result, rank) else best)"

lemma best_pair_eq:
  "tok_ok tk \<Longrightarrow> \<forall>i \<in> set is. i + 1 < length ids \<Longrightarrow>
     best_pair tk ids is best = Ok (foldl (pick tk ids) best is)"
  by (induction "is" arbitrary: best) (auto simp: merge_ok pick_def pair_at_def)

lemma foldl_pick:
  "case foldl (pick tk ids) None [0..<m] of
     None \<Rightarrow> \<forall>i < m. pair_at tk ids i = None
   | Some (i, res, rank) \<Rightarrow> i < m \<and> pair_at tk ids i = Some (res, rank)
       \<and> (\<forall>j res' rank'. j < m \<longrightarrow> pair_at tk ids j = Some (res', rank') \<longrightarrow> rank \<le> rank' \<and> (j < i \<longrightarrow> rank < rank'))"
proof (induction m)
  case (Suc m)
  define b where "b = foldl (pick tk ids) None [0..<m]"
  have step: "foldl (pick tk ids) None [0..<Suc m] = pick tk ids b m" by (simp add: b_def)
  note IH = Suc [folded b_def]
  show ?case
  proof (cases "pair_at tk ids m")
    case None
    with IH show ?thesis
      unfolding step by (auto simp: pick_def less_Suc_eq split: option.splits)
  next
    case (Some rr)
    obtain res rank where rr: "rr = (res, rank)" by (cases rr)
    show ?thesis
    proof (cases b)
      case None
      with IH Some show ?thesis unfolding step by (auto simp: pick_def rr less_Suc_eq)
    next
      case (Some bb)
      obtain i res0 rank0 where bb: "bb = (i, res0, rank0)" by (cases bb) auto
      have bo: "i < m" "pair_at tk ids i = Some (res0, rank0)"
          "\<And>j res' rank'. j < m \<Longrightarrow> pair_at tk ids j = Some (res', rank') \<Longrightarrow> rank0 \<le> rank' \<and> (j < i \<longrightarrow> rank0 < rank')"
        using IH Some by (auto simp: bb)
      show ?thesis
      proof (cases "rank < rank0")
        case True
        have "rank \<le> rank' \<and> (j < m \<longrightarrow> rank < rank')"
          if "j < Suc m" "pair_at tk ids j = Some (res', rank')" for j res' rank'
          using that bo(3) [of j res' rank'] True \<open>pair_at tk ids m = Some rr\<close> rr by (cases "j = m") auto
        with True show ?thesis
          unfolding step using \<open>pair_at tk ids m = Some rr\<close> by (simp add: pick_def Some rr bb)
      next
        case False
        have "rank0 \<le> rank' \<and> (j < i \<longrightarrow> rank0 < rank')"
          if "j < Suc m" "pair_at tk ids j = Some (res', rank')" for j res' rank'
          using that bo(1) bo(3) [of j res' rank'] False \<open>pair_at tk ids m = Some rr\<close> rr by (cases "j = m") auto
        with False bo(1,2) show ?thesis
          unfolding step using \<open>pair_at tk ids m = Some rr\<close> by (simp add: pick_def Some rr bb)
      qed
    qed
  qed
qed simp

lemma encode_loop_bpe:
  assumes ok: "tok_ok tk"
  shows "\<exists>ids'. (encode_loop tk ids :: ('e, u32 list) outcome) = Ok ids' \<and> (bpe_step tk)\<^sup>*\<^sup>* ids ids' \<and> bpe_normal tk ids'"
proof (induction "length ids" arbitrary: ids rule: less_induct)
  case less
  let ?b = "foldl (pick tk ids) None [0..<length ids - 1]"
  have best: "best_pair tk ids [0..<length ids - 1] None = (Ok ?b :: ('e, (nat \<times> u32 \<times> u32) option) outcome)"
    by (rule best_pair_eq [OF ok]) auto
  show ?case
  proof (cases ?b)
    case None
    with foldl_pick [where tk = tk and ids = ids and m = "length ids - 1"] have "bpe_normal tk ids" by (auto simp: bpe_normal_def)
    moreover have "(encode_loop tk ids :: ('e, u32 list) outcome) = Ok ids" using best None by (simp add: encode_loop.simps)
    ultimately show ?thesis by blast
  next
    case (Some bb)
    obtain i res rank where bb: "bb = (i, res, rank)" by (cases bb) auto
    let ?ids = "take i ids @ res # drop (i + 2) ids"
    from foldl_pick [where tk = tk and ids = ids and m = "length ids - 1"] have i: "i + 1 < length ids" "pair_at tk ids i = Some (res, rank)"
        "\<And>j res' rank'. j + 1 < length ids \<Longrightarrow> pair_at tk ids j = Some (res', rank') \<Longrightarrow> rank \<le> rank' \<and> (j < i \<longrightarrow> rank < rank')"
      unfolding Some bb by (auto simp: less_diff_conv)
    have step: "bpe_step tk ids ?ids" using i by (rule bpe_step.intros)
    have "length ?ids < length ids" using i(1) by simp
    from less [OF this] obtain ids' where "(encode_loop tk ?ids :: ('e, u32 list) outcome) = Ok ids'" "(bpe_step tk)\<^sup>*\<^sup>* ?ids ids'" "bpe_normal tk ids'"
      by blast
    moreover have "(encode_loop tk ids :: ('e, u32 list) outcome) = encode_loop tk ?ids"
      using best Some i(1) by (subst encode_loop.simps) (simp add: bb)
    ultimately show ?thesis using step by (metis converse_rtranclp_into_rtranclp)
  qed
qed

subsection \<open>Encoding, given a well-formed blob\<close>

lemma map_byte_token: "tok_ok tk \<Longrightarrow> map_outcome (byte_token tk) bs = Ok (map (byte_id tk) bs)"
  by (induction bs) (simp_all add: byte_token_ok)

lemma encode_chunk_bpe:
  assumes "tok_ok tk"
  shows "\<exists>ids. (\<forall>out. (encode_chunk tk chunk out :: ('e, u32 list) outcome) = Ok (out @ ids))
    \<and> (bpe_step tk)\<^sup>*\<^sup>* (map (byte_id tk) chunk) ids \<and> bpe_normal tk ids"
proof -
  obtain ids where "(encode_loop tk (map (byte_id tk) chunk) :: ('e, u32 list) outcome) = Ok ids"
      "(bpe_step tk)\<^sup>*\<^sup>* (map (byte_id tk) chunk) ids" "bpe_normal tk ids"
    using encode_loop_bpe [OF assms] by blast
  then show ?thesis by (auto simp: encode_chunk_def map_byte_token [OF assms])
qed

text \<open>The converter's promise about the two tables: bytes and merges spell what they stand for, and no
  table entry is a control token.\<close>

definition lossless :: "tokenizer \<Rightarrow> bool" where
  "lossless tk \<longleftrightarrow> (\<forall>b. tbytes tk (byte_id tk b) = [b])
     \<and> (\<forall>a b res rank. merge_of tk a b = Some (res, rank) \<longrightarrow> tbytes tk res = tbytes tk a @ tbytes tk b)"

definition plain :: "tokenizer \<Rightarrow> bool" where
  "plain tk \<longleftrightarrow> (\<forall>b. \<not> control tk (byte_id tk b))
     \<and> (\<forall>a b res rank. merge_of tk a b = Some (res, rank) \<longrightarrow> \<not> control tk res)"

definition detok :: "tokenizer \<Rightarrow> u32 list \<Rightarrow> bytes" where
  "detok tk ids = concat (map (tbytes tk) ids)"

lemma detok_append [simp]: "detok tk (xs @ ys) = detok tk xs @ detok tk ys" "detok tk [] = []"
  by (simp_all add: detok_def)

lemma detok_step:
  assumes l: "lossless tk" and st: "bpe_step tk ids ids'"
  shows "detok tk ids' = detok tk ids"
proof -
  obtain i res rank where ids': "ids' = take i ids @ res # drop (i + 2) ids" and i: "i + 1 < length ids"
    and p: "pair_at tk ids i = Some (res, rank)"
    using st by cases
  have "drop i ids = ids ! i # ids ! Suc i # drop (Suc (Suc i)) ids"
    using i by (simp add: Cons_nth_drop_Suc)
  then have dec: "ids = take i ids @ [ids ! i, ids ! (i + 1)] @ drop (i + 2) ids"
    using append_take_drop_id [of i ids] by simp
  have "tbytes tk res = tbytes tk (ids ! i) @ tbytes tk (ids ! (i + 1))"
    using l p by (auto simp: lossless_def pair_at_def)
  then have "detok tk ids' = detok tk (take i ids @ [ids ! i, ids ! (i + 1)] @ drop (i + 2) ids)"
    by (simp add: ids' detok_def)
  with dec show ?thesis by simp
qed

lemma detok_steps: "(bpe_step tk)\<^sup>*\<^sup>* ids ids' \<Longrightarrow> lossless tk \<Longrightarrow> detok tk ids' = detok tk ids"
  by (induction rule: rtranclp_induct) (simp_all add: detok_step)

lemma plain_steps:
  "(bpe_step tk)\<^sup>*\<^sup>* ids ids' \<Longrightarrow> plain tk \<Longrightarrow> \<forall>i \<in> set ids. \<not> control tk i \<Longrightarrow> \<forall>i \<in> set ids'. \<not> control tk i"
proof (induction rule: rtranclp_induct)
  case (step ids1 ids2)
  from step.hyps(2) obtain i res rank where eq: "ids2 = take i ids1 @ res # drop (i + 2) ids1"
    and p: "pair_at tk ids1 i = Some (res, rank)"
    by cases
  have "\<not> control tk res" using step.prems(1) p unfolding plain_def pair_at_def by blast
  moreover have "set ids2 \<subseteq> insert res (set ids1)"
    using set_take_subset [of i ids1] set_drop_subset [of "i + 2" ids1] by (auto simp: eq)
  ultimately show ?case using step.IH step.prems by blast
qed simp

lemma detok_bytes: "lossless tk \<Longrightarrow> detok tk (map (byte_id tk) bs) = bs"
  by (induction bs) (simp_all add: detok_def lossless_def)

lemma encode_chunks_ok:
  assumes ok: "tok_ok tk"
  shows "\<exists>ids. (\<forall>out. (encode_chunks tk cs out :: ('e, u32 list) outcome) = Ok (out @ ids))
    \<and> (lossless tk \<longrightarrow> detok tk ids = utf8 (concat cs)) \<and> (plain tk \<longrightarrow> (\<forall>i \<in> set ids. \<not> control tk i))"
proof (induction cs)
  case (Cons c cs)
  obtain ids where ids: "\<forall>out. (encode_chunk tk (utf8 c) out :: ('e, u32 list) outcome) = Ok (out @ ids)"
      "(bpe_step tk)\<^sup>*\<^sup>* (map (byte_id tk) (utf8 c)) ids"
    using encode_chunk_bpe [OF ok] by blast
  from Cons obtain ids' where ids': "\<forall>out. (encode_chunks tk cs out :: ('e, u32 list) outcome) = Ok (out @ ids')"
      "lossless tk \<longrightarrow> detok tk ids' = utf8 (concat cs)" "plain tk \<longrightarrow> (\<forall>i \<in> set ids'. \<not> control tk i)"
    by blast
  have "plain tk \<Longrightarrow> \<forall>i \<in> set ids. \<not> control tk i"
    by (rule plain_steps [OF ids(2)]) (auto simp: plain_def)
  then show ?case
    using ids(1) ids' detok_steps [OF ids(2)] detok_bytes [of tk "utf8 c"]
    by (intro exI [of _ "ids @ ids'"]) auto
qed simp

lemma encode_text_ok:
  assumes "tok_ok tk" and "class_ok cls" and "\<forall>c \<in> set text. scalar c"
  shows "\<exists>ids. (\<forall>out. encode_text cls tk text out = Ok (out @ ids))
    \<and> (lossless tk \<longrightarrow> detok tk ids = utf8 text) \<and> (plain tk \<longrightarrow> (\<forall>i \<in> set ids. \<not> control tk i))"
proof -
  obtain cs where cs: "(pretok cls (template_style (tk_template tk)) text :: (unit, rstr list) outcome) = Ok cs" "concat cs = text"
    using pretok_ok [OF assms(2,3)] by blast
  with encode_chunks_ok [OF assms(1), of cs] show ?thesis by (auto simp: encode_text_def)
qed

subsection \<open>The loop computes the unique normal form\<close>

lemma bpe_step_det: "bpe_step tk ids x \<Longrightarrow> bpe_step tk ids y \<Longrightarrow> x = y"
proof -
  assume "bpe_step tk ids x" "bpe_step tk ids y"
  then obtain i r k j r' k' where
    x: "x = take i ids @ r # drop (i + 2) ids" "i + 1 < length ids" "pair_at tk ids i = Some (r, k)"
      "\<And>j res' rank'. j + 1 < length ids \<Longrightarrow> pair_at tk ids j = Some (res', rank') \<Longrightarrow> k \<le> rank' \<and> (j < i \<longrightarrow> k < rank')" and
    y: "y = take j ids @ r' # drop (j + 2) ids" "j + 1 < length ids" "pair_at tk ids j = Some (r', k')"
      "\<And>i res' rank'. i + 1 < length ids \<Longrightarrow> pair_at tk ids i = Some (res', rank') \<Longrightarrow> k' \<le> rank' \<and> (i < j \<longrightarrow> k' < rank')"
    by (auto elim!: bpe_step.cases)
  have "k \<le> k'" "k' \<le> k" using x(4) [OF y(2,3)] y(4) [OF x(2,3)] by auto
  then have "i = j" using x(4) [OF y(2,3)] y(4) [OF x(2,3)] by (cases i j rule: linorder_cases) auto
  with x(1,3) y(1,3) show ?thesis by simp
qed

lemma bpe_normal_stuck: "bpe_normal tk ids \<Longrightarrow> \<not> bpe_step tk ids x"
  by (auto simp: bpe_normal_def elim!: bpe_step.cases)

lemma bpe_normal_form_unique:
  "(bpe_step tk)\<^sup>*\<^sup>* ids x \<Longrightarrow> bpe_normal tk x \<Longrightarrow> (bpe_step tk)\<^sup>*\<^sup>* ids y \<Longrightarrow> bpe_normal tk y \<Longrightarrow> x = y"
proof (induction rule: converse_rtranclp_induct)
  case base
  then show ?case by (metis bpe_normal_stuck converse_rtranclpE)
next
  case (step ids ids')
  from step.prems(2) show ?case
  proof (cases rule: converse_rtranclpE)
    case base
    with step show ?thesis using bpe_normal_stuck by blast
  next
    case (step z)
    then have "z = ids'" using bpe_step_det step.hyps(1) \<open>bpe_step tk ids ids'\<close> by blast
    with step step.IH \<open>bpe_normal tk x\<close> \<open>bpe_normal tk y\<close> show ?thesis using \<open>\<lbrakk>bpe_normal tk x; (bpe_step tk)\<^sup>*\<^sup>* ids' y; bpe_normal tk y\<rbrakk> \<Longrightarrow> x = y\<close> by blast
  qed
qed

text \<open>C12: The encoder computes byte-pair encoding: on a blob the parser accepts, encoding a chunk never
  panics and appends exactly the one normal form that is reached from the chunk's byte tokens by
  always merging the leftmost adjacent pair of lowest rank.\<close>

theorem encode_chunk_is_bpe:
  assumes "tokenizer_parse blob = Ok tk"
  shows "(encode_chunk tk chunk out :: ('e, u32 list) outcome) = Ok (out @ ids)
    \<longleftrightarrow> (bpe_step tk)\<^sup>*\<^sup>* (map (byte_id tk) chunk) ids \<and> bpe_normal tk ids"
proof -
  obtain ids' where "\<forall>out. (encode_chunk tk chunk out :: ('e, u32 list) outcome) = Ok (out @ ids')"
      "(bpe_step tk)\<^sup>*\<^sup>* (map (byte_id tk) chunk) ids'" "bpe_normal tk ids'"
    using encode_chunk_bpe [OF tokenizer_parse_ok [OF assms]] by blast
  then show ?thesis using bpe_normal_form_unique by auto
qed

text \<open>The tokenizer never reads outside its blob: parsing any byte string ends without a panic, and
  once a blob is accepted no lookup by byte, by token id (in range or not) or by merge pair panics,
  and neither does encoding any text.\<close>

theorem tokenizer_never_panics:
  assumes "class_ok cls" and "\<forall>c \<in> set text. scalar c"
  shows "tokenizer_parse blob \<noteq> Panic
    \<and> (tokenizer_parse blob = Ok tk \<longrightarrow>
        (byte_token tk b :: ('e, u32) outcome) \<noteq> Panic \<and> (token_bytes tk i :: ('e, bytes) outcome) \<noteq> Panic
        \<and> (is_control tk i :: ('e, bool) outcome) \<noteq> Panic \<and> (merge tk i j :: ('e, (u32 \<times> u32) option) outcome) \<noteq> Panic
        \<and> encode_text cls tk text out \<noteq> Panic)"
proof (intro conjI impI tokenizer_parse_not_Panic)
  assume "tokenizer_parse blob = Ok tk"
  then have ok: "tok_ok tk" by (rule tokenizer_parse_ok)
  show "(byte_token tk b :: ('e, u32) outcome) \<noteq> Panic" "(token_bytes tk i :: ('e, bytes) outcome) \<noteq> Panic"
    "(is_control tk i :: ('e, bool) outcome) \<noteq> Panic" "(merge tk i j :: ('e, (u32 \<times> u32) option) outcome) \<noteq> Panic"
    using ok by (simp_all add: byte_token_ok token_bytes_ok is_control_ok merge_ok)
  show "encode_text cls tk text out \<noteq> Panic" using encode_text_ok [OF ok assms] by auto
qed

subsection \<open>Merge lookup on a sorted table\<close>

definition merges_sorted :: "tokenizer \<Rightarrow> bool" where
  "merges_sorted tk \<longleftrightarrow> (\<forall>i j. i < j \<longrightarrow> j < tk_merge_count tk \<longrightarrow> mkey (tk_merges tk) i < mkey (tk_merges tk) j)"

lemma merge_of_iff:
  assumes "tok_ok tk" and "merges_sorted tk"
  shows "merge_of tk a b = Some (res, rank) \<longleftrightarrow> (\<exists>i < tk_merge_count tk. mfield (tk_merges tk) i 0 = a
    \<and> mfield (tk_merges tk) i 4 = b \<and> mfield (tk_merges tk) i 8 = res \<and> mfield (tk_merges tk) i 12 = rank)"
proof -
  have len: "tk_merge_count tk * 16 \<le> length (tk_merges tk)" using assms(1) by (simp add: tok_ok_def)
  have srt: "\<And>i j. 0 \<le> i \<Longrightarrow> i < j \<Longrightarrow> j < tk_merge_count tk \<Longrightarrow> mkey (tk_merges tk) i < mkey (tk_merges tk) j"
    using assms(2) by (simp add: merges_sorted_def)
  have key: "mkey (tk_merges tk) i = merge_key a b \<longleftrightarrow> mfield (tk_merges tk) i 0 = a \<and> mfield (tk_merges tk) i 4 = b" for i
    by (simp add: mkey_def merge_key_inj)
  have m: "merge_search (tk_merges tk) (merge_key a b) 0 (tk_merge_count tk) = (Ok (merge_of tk a b) :: (unit, (u32 \<times> u32) option) outcome)"
    using merge_ok [OF assms(1), where 'a = unit] by (simp add: merge_def)
  show ?thesis
  proof (cases "merge_of tk a b")
    case None
    with merge_search_missing [OF len m [unfolded None] srt] show ?thesis by (auto simp: key)
  next
    case (Some rr)
    obtain r k where rr: "rr = (r, k)" by (cases rr) auto
    obtain i where i: "i < tk_merge_count tk" "mkey (tk_merges tk) i = merge_key a b"
        "r = mfield (tk_merges tk) i 8" "k = mfield (tk_merges tk) i 12"
      using merge_search_found [OF len m [unfolded Some rr]] by blast
    have only: "j = i" if "j < tk_merge_count tk" "mkey (tk_merges tk) j = merge_key a b" for j
      using srt [of i j] srt [of j i] that i(1,2) by (cases i j rule: linorder_cases) auto
    show ?thesis
    proof
      assume "merge_of tk a b = Some (res, rank)"
      then have "r = res" "k = rank" by (simp_all add: Some rr)
      with i show "\<exists>i < tk_merge_count tk. mfield (tk_merges tk) i 0 = a \<and> mfield (tk_merges tk) i 4 = b
          \<and> mfield (tk_merges tk) i 8 = res \<and> mfield (tk_merges tk) i 12 = rank"
        unfolding key by blast
    next
      assume "\<exists>i < tk_merge_count tk. mfield (tk_merges tk) i 0 = a \<and> mfield (tk_merges tk) i 4 = b
          \<and> mfield (tk_merges tk) i 8 = res \<and> mfield (tk_merges tk) i 12 = rank"
      then obtain j where j: "j < tk_merge_count tk" "mkey (tk_merges tk) j = merge_key a b"
          "mfield (tk_merges tk) j 8 = res" "mfield (tk_merges tk) j 12 = rank"
        unfolding key by blast
      with only [OF j(1,2)] i(3,4) show "merge_of tk a b = Some (res, rank)" unfolding Some rr by blast
    qed
  qed
qed

subsection \<open>Chat framing\<close>

text \<open>The control tokens a message is framed with, in order.\<close>

definition frame :: "tokenizer \<Rightarrow> u32 list" where
  "frame tk = sp_start_header (tk_specials tk) #
     (if tk_template tk = ChatMl then [] else [sp_end_header (tk_specials tk)]) @ [sp_eot (tk_specials tk)]"

lemma encode_text_plain:
  assumes "tok_ok tk" "class_ok cls" "\<forall>c \<in> set text. scalar c" "plain tk"
  obtains ids where "\<And>out. encode_text cls tk text out = Ok (out @ ids)" "filter (control tk) ids = []"
  using encode_text_ok [OF assms(1-3)] assms(4) by (auto simp: filter_empty_conv)

lemma encode_message_frame:
  assumes ok: "tok_ok tk" and cls: "class_ok cls" and pl: "plain tk"
    and r: "\<forall>c \<in> set role. scalar c" and c: "\<forall>c \<in> set content. scalar c"
  shows "\<exists>ids. (\<forall>out. encode_message cls tk role content out = Ok (out @ ids))
    \<and> filter (control tk) ids = filter (control tk) (frame tk)"
proof -
  have nl: "\<forall>c \<in> set [10 :: nat]. scalar c" "\<forall>c \<in> set [10, 10 :: nat]. scalar c" by (simp_all add: scalar_def)
  note plain_text = encode_text_plain [OF ok cls _ pl]
  obtain i1 where i1: "\<And>out. encode_text cls tk role out = Ok (out @ i1)" "filter (control tk) i1 = []" using plain_text [OF r] by metis
  obtain i2 where i2: "\<And>out. encode_text cls tk content out = Ok (out @ i2)" "filter (control tk) i2 = []" using plain_text [OF c] by metis
  obtain i3 where i3: "\<And>out. encode_text cls tk [10] out = Ok (out @ i3)" "filter (control tk) i3 = []" using plain_text [OF nl(1)] by metis
  obtain i4 where i4: "\<And>out. encode_text cls tk [10, 10] out = Ok (out @ i4)" "filter (control tk) i4 = []" using plain_text [OF nl(2)] by metis
  let ?s = "tk_specials tk"
  show ?thesis
  proof (intro exI conjI allI)
    let ?ids = "sp_start_header ?s # i1 @ (case tk_template tk of
        TplLlama3 \<Rightarrow> sp_end_header ?s # i4 | ChatMl \<Rightarrow> i3 | Granite \<Rightarrow> [sp_end_header ?s])
      @ i2 @ sp_eot ?s # (if tk_template tk = TplLlama3 then [] else i3)"
    show "encode_message cls tk role content out = Ok (out @ ?ids)" for out
      by (cases "tk_template tk") (simp_all add: encode_message_def encode_header_def Let_def i1 i2 i3 i4)
    show "filter (control tk) ?ids = filter (control tk) (frame tk)"
      by (cases "tk_template tk") (simp_all add: frame_def i1 i2 i3 i4)
  qed
qed

end
