(* ===== verification/Nr_Gguf.thy ===== *)
theory Nr_Gguf
  imports Nr_Utf8
begin

text \<open>
  The GGUF reader of \<^verbatim>\<open>tools/nrconvert/src/gguf.rs\<close>: typed metadata values, the cursor, the tensor
  table and the start of the data section. The reader is built in release mode, so its \<open>u64\<close>
  arithmetic wraps; a missing file, an unknown type or a read past the end is a panic. \<open>f32\<close> and
  \<open>f64\<close> are their bit patterns, and the narrowing of an \<open>f64\<close> is a parameter.
\<close>

subsection \<open>Lossy text\<close>

text \<open>\<open>String::from_utf8_lossy\<close>: each malformed sequence becomes one U+FFFD.\<close>

fun decode_char :: "bytes \<Rightarrow> rchar" where
  "decode_char [a] = unat a"
| "decode_char [a, b] = (unat a mod 32) * 64 + unat b mod 64"
| "decode_char [a, b, c] = (unat a mod 16) * 4096 + (unat b mod 64) * 64 + unat c mod 64"
| "decode_char [a, b, c, d] = (unat a mod 8) * 262144 + (unat b mod 64) * 4096 + (unat c mod 64) * 64 + unat d mod 64"
| "decode_char _ = 0xFFFD"

function from_utf8_lossy :: "bytes \<Rightarrow> rstr" where
  "from_utf8_lossy [] = []"
| "from_utf8_lossy (a # bs) =
     (case utf8_next a bs of
        StepChar k \<Rightarrow> decode_char (take k (a # bs)) # from_utf8_lossy (drop (k - 1) bs)
      | StepInvalid k \<Rightarrow> 0xFFFD # from_utf8_lossy (drop (k - 1) bs)
      | StepIncomplete \<Rightarrow> [0xFFFD])"
  by pat_completeness auto
termination by (relation "measure length") auto

lemma sextets:
  "c div 4096 * 4096 + c div 64 mod 64 * 64 + c mod 64 = (c :: nat)"
  "c div 262144 * 262144 + c div 4096 mod 64 * 4096 + c div 64 mod 64 * 64 + c mod 64 = c"
proof -
  have a: "c = 64 * (c div 64) + c mod 64" by simp
  have b: "c div 64 = 64 * (c div 4096) + c div 64 mod 64"
    using mult_div_mod_eq [of 64 "c div 64"] by (simp add: div_mult2_eq [symmetric])
  have d: "c div 4096 = 64 * (c div 262144) + c div 4096 mod 64"
    using mult_div_mod_eq [of 64 "c div 4096"] by (simp add: div_mult2_eq [symmetric])
  show "c div 4096 * 4096 + c div 64 mod 64 * 64 + c mod 64 = c" using a b by linarith
  then show "c div 262144 * 262144 + c div 4096 mod 64 * 4096 + c div 64 mod 64 * 64 + c mod 64 = c"
    using d by linarith
qed

lemma cont_low: "(128 + x mod 64) mod 64 = x mod (64 :: nat)"
  using mod_mult_self3 [of 2 64 "x mod 64"] by simp

lemma decode_char_utf8:
  assumes "scalar c"
  shows "decode_char (utf8_char c) = c"
proof -
  consider "c < 0x80" | "0x80 \<le> c" "c < 0x800" | "0x800 \<le> c" "c < 0x10000" | "0x10000 \<le> c" "c < 0x110000"
    using assms unfolding scalar_def by linarith
  then show ?thesis
  proof cases
    case 1
    then show ?thesis by (simp add: utf8_char_def unat_byte_of_nat)
  next
    case 2
    have d: "c div 64 < 32" using 2 by linarith
    then have "unat (of_nat (0xC0 + c div 64) :: byte) = 0xC0 + c div 64" by (intro unat_byte_of_nat) linarith
    moreover have "(192 + c div 64) mod 32 = c div 64" using d mod_mult_self3 [of 6 32 "c div 64"] by simp
    ultimately show ?thesis using 2 by (simp add: utf8_char_def cont_low del: of_nat_add)
  next
    case 3
    have d: "c div 4096 < 16" using 3 by linarith
    then have "unat (of_nat (0xE0 + c div 4096) :: byte) = 0xE0 + c div 4096" by (intro unat_byte_of_nat) linarith
    moreover have "(224 + c div 4096) mod 16 = c div 4096" using d mod_mult_self3 [of 14 16 "c div 4096"] by simp
    ultimately show ?thesis using 3 sextets(1) [of c] by (simp add: utf8_char_def cont_low del: of_nat_add)
  next
    case 4
    have d: "c div 262144 < 8" using 4 by linarith
    then have "unat (of_nat (0xF0 + c div 262144) :: byte) = 0xF0 + c div 262144" by (intro unat_byte_of_nat) linarith
    moreover have "(240 + c div 262144) mod 8 = c div 262144" using d mod_mult_self3 [of 30 8 "c div 262144"] by simp
    ultimately show ?thesis using 4 sextets(2) [of c] by (simp add: utf8_char_def cont_low del: of_nat_add)
  qed
qed

lemma from_utf8_lossy_text: "\<forall>c \<in> set s. scalar c \<Longrightarrow> from_utf8_lossy (utf8 s) = s"
proof (induction s)
  case (Cons c s)
  obtain x xs where c: "utf8_char c = x # xs" "length xs = len_utf8 c - 1" by (rule utf8_char_cons)
  obtain k where k: "len_utf8 c = Suc k" using len_utf8_bounds(1) [of c] gr0_conv_Suc by blast
  with c Cons utf8_next_char(1) [of c "utf8 s"] decode_char_utf8 [of c] show ?case by simp
qed simp

subsection \<open>Values\<close>

datatype gvalue = VU8 byte | VI8 byte | VU16 u16 | VI16 u16 | VU32 u32 | VI32 u32 | VF32 u32 | VBool bool
  | VStr rstr | VArr "gvalue list" | VU64 u64 | VI64 u64 | VF64 u64

definition as_u32 :: "gvalue \<Rightarrow> u32 option" where
  "as_u32 v = (case v of VU8 x \<Rightarrow> Some (ucast x) | VU16 x \<Rightarrow> Some (ucast x) | VU32 x \<Rightarrow> Some x
     | VI32 x \<Rightarrow> if 0 \<le> sint x then Some x else None
     | VU64 x \<Rightarrow> if unat x < 2 ^ 32 then Some (ucast x) else None
     | _ \<Rightarrow> None)"

definition as_f32 :: "(u64 \<Rightarrow> u32) \<Rightarrow> gvalue \<Rightarrow> u32 option" where
  "as_f32 narrow v = (case v of VF32 x \<Rightarrow> Some x | VF64 x \<Rightarrow> Some (narrow x) | _ \<Rightarrow> None)"

definition as_str :: "gvalue \<Rightarrow> rstr option" where
  "as_str v = (case v of VStr s \<Rightarrow> Some s | _ \<Rightarrow> None)"

definition as_arr :: "gvalue \<Rightarrow> gvalue list option" where
  "as_arr v = (case v of VArr vs \<Rightarrow> Some vs | _ \<Rightarrow> None)"

definition GGML_F32 :: u32 where "GGML_F32 = 0"
definition GGML_F16 :: u32 where "GGML_F16 = 1"
definition GGML_Q8_0 :: u32 where "GGML_Q8_0 = 8"
definition GGML_Q4_K :: u32 where "GGML_Q4_K = 12"
definition GGML_Q5_K :: u32 where "GGML_Q5_K = 13"
definition GGML_Q6_K :: u32 where "GGML_Q6_K = 14"

record tensor_info =
  ti_name :: rstr
  ti_dims :: "u64 list"
  ti_dtype :: u32
  ti_file_offset :: u64
  ti_byte_size :: u64

record gguf =
  gg_kv :: "rstr \<Rightarrow> gvalue option"
  gg_tensors :: "tensor_info list"
  gg_data :: bytes

definition tensor_byte_size :: "u32 \<Rightarrow> u64 \<Rightarrow> ('e, u64) outcome" where
  "tensor_byte_size dtype nelem =
     (if dtype = GGML_F32 then Ok (nelem * 4)
      else if dtype = GGML_F16 then Ok (nelem * 2)
      else if dtype = GGML_Q8_0 then Ok (nelem div 32 * 34)
      else if dtype = GGML_Q4_K then Ok (nelem div 256 * 144)
      else if dtype = GGML_Q5_K then Ok (nelem div 256 * 176)
      else if dtype = GGML_Q6_K then Ok (nelem div 256 * 210)
      else Panic)"

subsection \<open>The cursor\<close>

text \<open>A cursor is the buffer and the position; every read returns the new position.\<close>

definition cur_take :: "bytes \<Rightarrow> nat \<Rightarrow> nat \<Rightarrow> ('e, bytes \<times> nat) outcome" where
  "cur_take b n pos = obind (slice b pos (pos + n)) (\<lambda>s. Ok (s, pos + n))"

definition cur_u32 :: "bytes \<Rightarrow> nat \<Rightarrow> ('e, u32 \<times> nat) outcome" where
  "cur_u32 b pos = obind (cur_take b 4 pos) (\<lambda>(s, pos). Ok (le_word s, pos))"

definition cur_u64 :: "bytes \<Rightarrow> nat \<Rightarrow> ('e, u64 \<times> nat) outcome" where
  "cur_u64 b pos = obind (cur_take b 8 pos) (\<lambda>(s, pos). Ok (le_word s, pos))"

definition cur_len :: "bytes \<Rightarrow> u32 \<Rightarrow> nat \<Rightarrow> ('e, nat \<times> nat) outcome" where
  "cur_len b version pos =
     (if version \<ge> 2 then obind (cur_u64 b pos) (\<lambda>(v, pos). Ok (unat v, pos))
      else obind (cur_u32 b pos) (\<lambda>(v, pos). Ok (unat v, pos)))"

definition cur_str :: "bytes \<Rightarrow> u32 \<Rightarrow> nat \<Rightarrow> ('e, rstr \<times> nat) outcome" where
  "cur_str b version pos =
     obind (cur_len b version pos) (\<lambda>(len, pos). obind (cur_take b len pos) (\<lambda>(s, pos).
     Ok (from_utf8_lossy s, pos)))"

primrec repeat_m :: "nat \<Rightarrow> (nat \<Rightarrow> ('e, 'a \<times> nat) outcome) \<Rightarrow> nat \<Rightarrow> ('e, 'a list \<times> nat) outcome" where
  "repeat_m 0 f pos = Ok ([], pos)"
| "repeat_m (Suc n) f pos =
     obind (f pos) (\<lambda>(x, pos). obind (repeat_m n f pos) (\<lambda>(xs, pos). Ok (x # xs, pos)))"

text \<open>\<open>value\<close> recurses once per level of array nesting; the fuel bounds the nesting.\<close>

datatype gguf_error = FuelOut

primrec cur_value :: "nat \<Rightarrow> bytes \<Rightarrow> u32 \<Rightarrow> u32 \<Rightarrow> nat \<Rightarrow> (gguf_error, gvalue \<times> nat) outcome" where
  "cur_value 0 b version ty pos = Err FuelOut"
| "cur_value (Suc fuel) b version ty pos =
     (let w = (\<lambda>n f. obind (cur_take b n pos) (\<lambda>(s, pos). Ok (f s, pos))) in
      if ty = 0 then w 1 (\<lambda>s. VU8 (s ! 0))
      else if ty = 1 then w 1 (\<lambda>s. VI8 (s ! 0))
      else if ty = 2 then w 2 (\<lambda>s. VU16 (le_word s))
      else if ty = 3 then w 2 (\<lambda>s. VI16 (le_word s))
      else if ty = 4 then w 4 (\<lambda>s. VU32 (le_word s))
      else if ty = 5 then w 4 (\<lambda>s. VI32 (le_word s))
      else if ty = 6 then w 4 (\<lambda>s. VF32 (le_word s))
      else if ty = 7 then w 1 (\<lambda>s. VBool (s ! 0 \<noteq> 0))
      else if ty = 8 then obind (cur_str b version pos) (\<lambda>(s, pos). Ok (VStr s, pos))
      else if ty = 9 then
        obind (cur_u32 b pos) (\<lambda>(elem_ty, pos). obind (cur_len b version pos) (\<lambda>(count, pos).
        obind (repeat_m count (cur_value fuel b version elem_ty) pos) (\<lambda>(vs, pos). Ok (VArr vs, pos))))
      else if ty = 10 then w 8 (\<lambda>s. VU64 (le_word s))
      else if ty = 11 then w 8 (\<lambda>s. VI64 (le_word s))
      else if ty = 12 then w 8 (\<lambda>s. VF64 (le_word s))
      else Panic)"

subsection \<open>The file\<close>

record raw_info =
  ri_name :: rstr
  ri_dims :: "u64 list"
  ri_dtype :: u32
  ri_rel_offset :: u64

definition read_kv :: "nat \<Rightarrow> bytes \<Rightarrow> u32 \<Rightarrow> nat \<Rightarrow> (gguf_error, (rstr \<times> gvalue) \<times> nat) outcome" where
  "read_kv fuel b version pos =
     obind (cur_str b version pos) (\<lambda>(key, pos). obind (cur_u32 b pos) (\<lambda>(ty, pos).
     obind (cur_value fuel b version ty pos) (\<lambda>(val, pos). Ok ((key, val), pos))))"

definition read_raw_info :: "bytes \<Rightarrow> u32 \<Rightarrow> nat \<Rightarrow> (gguf_error, raw_info \<times> nat) outcome" where
  "read_raw_info b version pos =
     obind (cur_str b version pos) (\<lambda>(name, pos). obind (cur_u32 b pos) (\<lambda>(n_dims, pos).
     obind (repeat_m (unat n_dims) (cur_u64 b) pos) (\<lambda>(dims, pos). obind (cur_u32 b pos) (\<lambda>(dtype, pos).
     obind (cur_u64 b pos) (\<lambda>(rel_offset, pos).
     Ok (\<lparr>ri_name = name, ri_dims = dims, ri_dtype = dtype, ri_rel_offset = rel_offset\<rparr>, pos))))))"

definition u64_div_ceil :: "u64 \<Rightarrow> u64 \<Rightarrow> ('e, u64) outcome" where
  "u64_div_ceil a b = (if b = 0 then Panic else Ok (if a mod b = 0 then a div b else a div b + 1))"

definition tensor_of_raw :: "u64 \<Rightarrow> raw_info \<Rightarrow> ('e, tensor_info) outcome" where
  "tensor_of_raw data_start r =
     (let nelem = foldl (*) 1 (ri_dims r) in
      obind (tensor_byte_size (ri_dtype r) nelem) (\<lambda>size.
      Ok \<lparr>ti_name = ri_name r, ti_dims = ri_dims r, ti_dtype = ri_dtype r,
          ti_file_offset = data_start + ri_rel_offset r, ti_byte_size = size\<rparr>))"

primrec tensors_of_raw :: "u64 \<Rightarrow> raw_info list \<Rightarrow> ('e, tensor_info list) outcome" where
  "tensors_of_raw data_start [] = Ok []"
| "tensors_of_raw data_start (r # rs) =
     obind (tensor_of_raw data_start r) (\<lambda>t. obind (tensors_of_raw data_start rs) (\<lambda>ts. Ok (t # ts)))"

definition GGUF_MAGIC :: bytes where "GGUF_MAGIC = [0x47, 0x47, 0x55, 0x46]"

text \<open>The nesting of the values is bounded by the file size, which is the fuel.\<close>

definition gguf_parse :: "bytes \<Rightarrow> (gguf_error, gguf) outcome" where
  "gguf_parse data =
     obind (cur_take data 4 0) (\<lambda>(m, pos). if m \<noteq> GGUF_MAGIC then Panic
     else obind (cur_u32 data pos) (\<lambda>(version, pos). if \<not> (2 \<le> version \<and> version \<le> 3) then Panic
     else obind (cur_u64 data pos) (\<lambda>(n_tensors, pos). obind (cur_u64 data pos) (\<lambda>(n_kv, pos).
     obind (repeat_m (unat n_kv) (read_kv (Suc (length data)) data version) pos) (\<lambda>(kvs, pos).
     let kv = foldl (\<lambda>m (k, v). m(k \<mapsto> v)) Map.empty kvs;
         alignment = (case Option.bind (kv (map of_char ''general.alignment'')) as_u32 of
                        Some a \<Rightarrow> ucast a | None \<Rightarrow> 32) :: u64 in
     obind (repeat_m (unat n_tensors) (read_raw_info data version) pos) (\<lambda>(raw, pos).
     obind (u64_div_ceil (of_nat pos) alignment) (\<lambda>q.
     let data_start = q * alignment in
     obind (tensors_of_raw data_start raw) (\<lambda>tensors.
     Ok \<lparr>gg_kv = kv, gg_tensors = tensors, gg_data = data\<rparr>))))))))"

subsection \<open>The format, as an encoder\<close>

definition value_type :: "gvalue \<Rightarrow> u32" where
  "value_type v = (case v of VU8 x \<Rightarrow> 0 | VI8 x \<Rightarrow> 1 | VU16 x \<Rightarrow> 2 | VI16 x \<Rightarrow> 3 | VU32 x \<Rightarrow> 4 | VI32 x \<Rightarrow> 5
     | VF32 x \<Rightarrow> 6 | VBool x \<Rightarrow> 7 | VStr s \<Rightarrow> 8 | VArr vs \<Rightarrow> 9 | VU64 x \<Rightarrow> 10 | VI64 x \<Rightarrow> 11 | VF64 x \<Rightarrow> 12)"

definition enc_str :: "rstr \<Rightarrow> bytes" where
  "enc_str s = to_le 8 (of_nat (str_len s) :: u64) @ utf8 s"

primrec enc_value :: "gvalue \<Rightarrow> bytes" where
  "enc_value (VU8 x) = [x]"
| "enc_value (VI8 x) = [x]"
| "enc_value (VU16 x) = to_le 2 x"
| "enc_value (VI16 x) = to_le 2 x"
| "enc_value (VU32 x) = to_le 4 x"
| "enc_value (VI32 x) = to_le 4 x"
| "enc_value (VF32 x) = to_le 4 x"
| "enc_value (VBool x) = [if x then 1 else 0]"
| "enc_value (VStr s) = enc_str s"
| "enc_value (VArr vs) = to_le 4 (case vs of [] \<Rightarrow> 0 | v # _ \<Rightarrow> value_type v)
     @ to_le 8 (of_nat (length vs) :: u64) @ concat (map enc_value vs)"
| "enc_value (VU64 x) = to_le 8 x"
| "enc_value (VI64 x) = to_le 8 x"
| "enc_value (VF64 x) = to_le 8 x"

definition wf_str :: "rstr \<Rightarrow> bool" where
  "wf_str s \<longleftrightarrow> (\<forall>c \<in> set s. scalar c) \<and> str_len s < 2 ^ 64"

primrec wf_value :: "gvalue \<Rightarrow> bool" where
  "wf_value (VU8 x) = True" | "wf_value (VI8 x) = True" | "wf_value (VU16 x) = True" | "wf_value (VI16 x) = True"
| "wf_value (VU32 x) = True" | "wf_value (VI32 x) = True" | "wf_value (VF32 x) = True" | "wf_value (VBool x) = True"
| "wf_value (VStr s) = wf_str s"
| "wf_value (VArr vs) = (list_all wf_value vs \<and> length vs < 2 ^ 64
     \<and> (case vs of [] \<Rightarrow> True | v # _ \<Rightarrow> \<forall>w \<in> set vs. value_type w = value_type v))"
| "wf_value (VU64 x) = True" | "wf_value (VI64 x) = True" | "wf_value (VF64 x) = True"

definition enc_kv :: "rstr \<times> gvalue \<Rightarrow> bytes" where
  "enc_kv kv = enc_str (fst kv) @ to_le 4 (value_type (snd kv)) @ enc_value (snd kv)"

definition enc_raw_info :: "raw_info \<Rightarrow> bytes" where
  "enc_raw_info r = enc_str (ri_name r) @ to_le 4 (of_nat (length (ri_dims r)) :: u32)
     @ concat (map (to_le 8) (ri_dims r)) @ to_le 4 (ri_dtype r) @ to_le 8 (ri_rel_offset r)"

definition wf_raw :: "raw_info \<Rightarrow> bool" where
  "wf_raw r \<longleftrightarrow> wf_str (ri_name r) \<and> length (ri_dims r) < 2 ^ 32"

definition gguf_head :: "u32 \<Rightarrow> (rstr \<times> gvalue) list \<Rightarrow> raw_info list \<Rightarrow> bytes" where
  "gguf_head version kvs raws = GGUF_MAGIC @ to_le 4 version @ to_le 8 (of_nat (length raws) :: u64)
     @ to_le 8 (of_nat (length kvs) :: u64) @ concat (map enc_kv kvs) @ concat (map enc_raw_info raws)"

definition gguf_file :: "u32 \<Rightarrow> (rstr \<times> gvalue) list \<Rightarrow> raw_info list \<Rightarrow> bytes \<Rightarrow> bytes" where
  "gguf_file version kvs raws rest = gguf_head version kvs raws @ rest"

definition gguf_alignment :: "(rstr \<times> gvalue) list \<Rightarrow> u64" where
  "gguf_alignment kvs = (case Option.bind (map_of (rev kvs) (map of_char ''general.alignment'')) as_u32 of
     Some a \<Rightarrow> ucast a | None \<Rightarrow> 32)"

subsection \<open>Reading back\<close>

definition at_pos :: "bytes \<Rightarrow> nat \<Rightarrow> bytes \<Rightarrow> bool" where
  "at_pos b pos e \<longleftrightarrow> pos \<le> length b \<and> (\<exists>r. drop pos b = e @ r)"

lemma drop_add: "drop (a + n) xs = drop n (drop a xs)"
  by (simp add: add.commute)

lemma at_pos_append: "at_pos b pos (e @ f) \<longleftrightarrow> at_pos b pos e \<and> at_pos b (pos + length e) f"
proof
  assume "at_pos b pos (e @ f)"
  then obtain r where r: "pos \<le> length b" "drop pos b = e @ f @ r" by (auto simp: at_pos_def)
  then have "drop (pos + length e) b = f @ r" unfolding drop_add by simp
  moreover have "length b - pos = length e + length f + length r" using r(2) by (metis length_append length_drop add.assoc)
  then have "pos + length e \<le> length b" using r(1) by simp
  ultimately show "at_pos b pos e \<and> at_pos b (pos + length e) f" using r by (auto simp: at_pos_def)
next
  assume "at_pos b pos e \<and> at_pos b (pos + length e) f"
  then obtain r s where "pos \<le> length b" "drop pos b = e @ r" "drop (pos + length e) b = f @ s"
    by (auto simp: at_pos_def)
  moreover from this have "r = f @ s" unfolding drop_add by simp
  ultimately show "at_pos b pos (e @ f)" by (simp add: at_pos_def)
qed

lemma cur_take_at:
  assumes "at_pos b pos e" "length e = n"
  shows "cur_take b n pos = Ok (e, pos + n)"
proof -
  obtain r where r: "pos \<le> length b" "drop pos b = e @ r" using assms by (auto simp: at_pos_def)
  then have "length b - pos = n + length r" using assms(2) by (metis length_append length_drop)
  with r have "pos + n \<le> length b" by simp
  then show ?thesis using r assms(2) by (simp add: cur_take_def sub_def)
qed

lemma cur_u32_at: "at_pos b pos (to_le 4 v) \<Longrightarrow> cur_u32 b pos = Ok (v, pos + 4)"
  by (simp add: cur_u32_def cur_take_at [of b pos "to_le 4 v"] le_word_to_le)

lemma cur_u64_at: "at_pos b pos (to_le 8 v) \<Longrightarrow> cur_u64 b pos = Ok (v, pos + 8)"
  by (simp add: cur_u64_def cur_take_at [of b pos "to_le 8 v"] le_word_to_le)

lemma cur_len_at:
  "2 \<le> version \<Longrightarrow> n < 2 ^ 64 \<Longrightarrow> at_pos b pos (to_le 8 (of_nat n :: u64)) \<Longrightarrow> cur_len b version pos = Ok (n, pos + 8)"
  by (simp add: cur_len_def unat_of_nat cur_u64_at [of b pos "of_nat n"])

lemma cur_str_at:
  assumes "2 \<le> version" "wf_str s" "at_pos b pos (enc_str s)"
  shows "cur_str b version pos = Ok (s, pos + length (enc_str s))"
proof -
  have "at_pos b pos (to_le 8 (of_nat (str_len s) :: u64))" "at_pos b (pos + 8) (utf8 s)"
    using assms(3) by (simp_all add: enc_str_def at_pos_append)
  with assms show ?thesis
    by (simp add: cur_str_def enc_str_def wf_str_def from_utf8_lossy_text cur_len_at [of version "str_len s"]
        cur_take_at [of b "pos + 8" "utf8 s"])
qed

lemma repeat_m_at:
  assumes "\<And>x pos. x \<in> set xs \<Longrightarrow> at_pos b pos (enc x) \<Longrightarrow> f pos = Ok (x, pos + length (enc x))"
    and "at_pos b pos (concat (map enc xs))"
  shows "repeat_m (length xs) f pos = Ok (xs, pos + length (concat (map enc xs)))"
  using assms
proof (induction xs arbitrary: pos)
  case (Cons a xs)
  from Cons.prems(2) have at: "at_pos b pos (enc a)" "at_pos b (pos + length (enc a)) (concat (map enc xs))"
    by (simp_all add: at_pos_append)
  have "f pos = Ok (a, pos + length (enc a))" using Cons.prems(1) at(1) by simp
  moreover have "repeat_m (length xs) f (pos + length (enc a))
      = Ok (xs, pos + length (enc a) + length (concat (map enc xs)))"
    using Cons.IH [OF _ at(2)] Cons.prems(1) by simp
  ultimately show ?case by simp
qed simp

lemma length_enc_member: "v \<in> set vs \<Longrightarrow> length (enc v) \<le> length (concat (map enc vs))"
  by (induction vs) auto

lemma some_fuel: "n < (fuel :: nat) \<Longrightarrow> \<exists>k. fuel = Suc k"
  by (cases fuel) auto

lemma cur_value_at:
  "2 \<le> version \<Longrightarrow> wf_value v \<Longrightarrow> at_pos b pos (enc_value v) \<Longrightarrow> length (enc_value v) < fuel \<Longrightarrow>
     cur_value fuel b version (value_type v) pos = Ok (v, pos + length (enc_value v))"
proof (induction v arbitrary: fuel pos)
  case (VArr vs)
  obtain k where k: "fuel = Suc k" using VArr.prems(4) by (cases fuel) auto
  let ?ty = "case vs of [] \<Rightarrow> 0 | v # _ \<Rightarrow> value_type v"
  have el: "cur_value k b version ty q = Ok (v, q + length (enc_value v))"
    if "v \<in> set vs" "at_pos b q (enc_value v)" "ty = value_type v" for v q ty
  proof -
    have "length (enc_value v) < k" using length_enc_member [OF that(1), of enc_value] VArr.prems(4) k by simp
    with VArr.IH [OF that(1) VArr.prems(1) _ that(2)] VArr.prems(2) that show ?thesis by (simp add: list_all_iff)
  qed
  have at: "at_pos b pos (to_le 4 ?ty)" "at_pos b (pos + 4) (to_le 8 (of_nat (length vs) :: u64))"
      "at_pos b (pos + 12) (concat (map enc_value vs))"
    using VArr.prems(3) by (simp_all add: at_pos_append add.assoc)
  have "repeat_m (length vs) (cur_value k b version ?ty) (pos + 12)
      = Ok (vs, pos + 12 + length (concat (map enc_value vs)))"
  proof (rule repeat_m_at [OF _ at(3)])
    fix x q
    assume "x \<in> set vs" "at_pos b q (enc_value x)"
    with VArr.prems(2) show "cur_value k b version ?ty q = Ok (x, q + length (enc_value x))"
      by (intro el) (auto split: list.splits)
  qed
  moreover have "cur_len b version (pos + 4) = (Ok (length vs, pos + 12) :: (gguf_error, nat \<times> nat) outcome)"
    using cur_len_at [OF VArr.prems(1) _ at(2)] VArr.prems(2) by (simp add: add.commute)
  ultimately show ?case
    using k by (simp add: value_type_def cur_u32_at [OF at(1)])
next
  case (VStr s)
  then obtain k where "fuel = Suc k" by (cases fuel) auto
  with VStr show ?case by (simp add: value_type_def cur_str_at)
qed (auto simp: value_type_def cur_take_at le_word_to_le dest!: some_fuel)

lemma read_kv_at:
  assumes "2 \<le> version" "wf_str (fst kv)" "wf_value (snd kv)" "at_pos b pos (enc_kv kv)" "length (enc_kv kv) < fuel"
  shows "read_kv fuel b version pos = Ok (kv, pos + length (enc_kv kv))"
proof -
  let ?p = "pos + length (enc_str (fst kv))"
  have "at_pos b pos (enc_str (fst kv))" "at_pos b ?p (to_le 4 (value_type (snd kv)))"
      "at_pos b (?p + 4) (enc_value (snd kv))"
    using assms(4) by (simp_all add: enc_kv_def at_pos_append add.assoc)
  moreover have "length (enc_value (snd kv)) < fuel" using assms(5) by (simp add: enc_kv_def)
  ultimately show ?thesis
    using assms(1-3) by (simp add: read_kv_def enc_kv_def cur_str_at cur_u32_at [of b ?p] cur_value_at add.assoc)
qed

lemma read_raw_info_at:
  assumes "2 \<le> version" "wf_raw r" "at_pos b pos (enc_raw_info r)"
  shows "read_raw_info b version pos = Ok (r, pos + length (enc_raw_info r))"
proof -
  define d where "d = concat (map (to_le 8) (ri_dims r))"
  define p where "p = pos + length (enc_str (ri_name r))"
  define p1 where "p1 = p + 4"
  define p2 where "p2 = p1 + length d"
  define p3 where "p3 = p2 + 4"
  have at: "at_pos b pos (enc_str (ri_name r))" "at_pos b p (to_le 4 (of_nat (length (ri_dims r)) :: u32))"
      "at_pos b p1 d" "at_pos b p2 (to_le 4 (ri_dtype r))" "at_pos b p3 (to_le 8 (ri_rel_offset r))"
    using assms(3) by (simp_all add: enc_raw_info_def at_pos_append flip: p_def p1_def p2_def p3_def d_def)
  have "repeat_m (length (ri_dims r)) (cur_u64 b) p1 = (Ok (ri_dims r, p2) :: (gguf_error, u64 list \<times> nat) outcome)"
    using at(3) unfolding d_def p2_def by (intro repeat_m_at) (simp_all add: cur_u64_at)
  moreover have "unat (of_nat (length (ri_dims r)) :: u32) = length (ri_dims r)"
    using assms(2) by (simp add: wf_raw_def unat_of_nat)
  moreover have "pos + length (enc_raw_info r) = p3 + 8"
    by (simp add: enc_raw_info_def p3_def p2_def p1_def p_def d_def)
  moreover have "cur_str b version pos = (Ok (ri_name r, p) :: (gguf_error, rstr \<times> nat) outcome)"
    using cur_str_at [OF assms(1) _ at(1)] assms(2) by (simp add: p_def wf_raw_def)
  ultimately show ?thesis
    by (simp add: read_raw_info_def cur_u32_at [OF at(2)] cur_u32_at [OF at(4)] cur_u64_at [OF at(5)]
        flip: p1_def p3_def)
qed

definition wf_kv :: "rstr \<times> gvalue \<Rightarrow> bool" where
  "wf_kv kv \<longleftrightarrow> wf_str (fst kv) \<and> wf_value (snd kv)"

lemma foldl_map_of: "foldl (\<lambda>m (k, v). m(k \<mapsto> v)) Map.empty kvs = map_of (rev kvs)"
proof (induction kvs rule: rev_induct)
  case (snoc x xs)
  then show ?case by (cases x) simp
qed simp

text \<open>What the data section is found at, and what the tensor table says.\<close>

definition gguf_data_start :: "nat \<Rightarrow> u64 \<Rightarrow> u64" where
  "gguf_data_start n a = (if (of_nat n :: u64) mod a = 0 then of_nat n div a else of_nat n div a + 1) * a"

lemma length_gguf_magic: "length GGUF_MAGIC = 4"
  by (simp add: GGUF_MAGIC_def)

lemma gguf_parse_file:
  assumes "2 \<le> version" "version \<le> 3" "\<forall>kv \<in> set kvs. wf_kv kv" "\<forall>r \<in> set raws. wf_raw r"
    and "length kvs < 2 ^ 64" "length raws < 2 ^ 64" "gguf_alignment kvs \<noteq> 0"
  shows "gguf_parse (gguf_file version kvs raws rest) =
    obind (tensors_of_raw (gguf_data_start (length (gguf_head version kvs raws)) (gguf_alignment kvs)) raws) (\<lambda>ts.
    Ok \<lparr>gg_kv = map_of (rev kvs), gg_tensors = ts, gg_data = gguf_file version kvs raws rest\<rparr>)"
proof -
  define b where "b = gguf_file version kvs raws rest"
  define ek where "ek = concat (map enc_kv kvs)"
  define p where "p = 24 + length ek"
  have b: "at_pos b 0 GGUF_MAGIC" "at_pos b 4 (to_le 4 version)" "at_pos b 8 (to_le 8 (of_nat (length raws) :: u64))"
      "at_pos b 16 (to_le 8 (of_nat (length kvs) :: u64))" "at_pos b 24 ek" "at_pos b p (concat (map enc_raw_info raws))"
  proof -
    have "at_pos b 0 (gguf_head version kvs raws)" by (simp add: b_def gguf_file_def at_pos_def)
    then show "at_pos b 0 GGUF_MAGIC" "at_pos b 4 (to_le 4 version)" "at_pos b 8 (to_le 8 (of_nat (length raws) :: u64))"
      "at_pos b 16 (to_le 8 (of_nat (length kvs) :: u64))" "at_pos b 24 ek" "at_pos b p (concat (map enc_raw_info raws))"
      by (simp_all add: gguf_head_def at_pos_append p_def ek_def length_gguf_magic)
  qed
  have len: "length ek \<le> length b" by (simp add: b_def gguf_file_def gguf_head_def ek_def)
  have m: "cur_take b 4 0 = (Ok (GGUF_MAGIC, 4) :: (gguf_error, bytes \<times> nat) outcome)"
    using cur_take_at [OF b(1), of 4] by (simp add: GGUF_MAGIC_def)
  have k: "repeat_m (length kvs) (read_kv (Suc (length b)) b version) 24 = Ok (kvs, p)"
    unfolding p_def ek_def
  proof (rule repeat_m_at)
    show "at_pos b 24 (concat (map enc_kv kvs))" using b(5) by (simp add: ek_def)
  next
    fix x q
    assume x: "x \<in> set kvs" "at_pos b q (enc_kv x)"
    have "length (enc_kv x) < Suc (length b)" using length_enc_member [OF x(1), of enc_kv] len by (simp add: ek_def)
    with x assms(1,3) show "read_kv (Suc (length b)) b version q = Ok (x, q + length (enc_kv x))"
      by (intro read_kv_at) (auto simp: wf_kv_def)
  qed
  have r: "repeat_m (length raws) (read_raw_info b version) p = Ok (raws, length (gguf_head version kvs raws))"
  proof -
    have "repeat_m (length raws) (read_raw_info b version) p = Ok (raws, p + length (concat (map enc_raw_info raws)))"
      by (rule repeat_m_at [OF _ b(6)]) (use assms(1,4) in \<open>simp add: read_raw_info_at\<close>)
    then show ?thesis by (simp add: gguf_head_def p_def ek_def GGUF_MAGIC_def)
  qed
  have u: "unat (of_nat (length kvs) :: u64) = length kvs" "unat (of_nat (length raws) :: u64) = length raws"
    using assms(5,6) by (simp_all add: unat_of_nat)
  have v: "2 \<le> version \<and> version \<le> 3" using assms(1,2) by simp
  have c: "cur_u32 b 4 = (Ok (version, 8) :: (gguf_error, u32 \<times> nat) outcome)"
      "cur_u64 b 8 = (Ok (of_nat (length raws), 16) :: (gguf_error, u64 \<times> nat) outcome)"
      "cur_u64 b 16 = (Ok (of_nat (length kvs), 24) :: (gguf_error, u64 \<times> nat) outcome)"
    using cur_u32_at [OF b(2)] cur_u64_at [OF b(3)] cur_u64_at [OF b(4)] by simp_all
  have "gguf_parse b = obind (u64_div_ceil (of_nat (length (gguf_head version kvs raws))) (gguf_alignment kvs)) (\<lambda>q.
      obind (tensors_of_raw (q * gguf_alignment kvs) raws) (\<lambda>ts. Ok \<lparr>gg_kv = map_of (rev kvs), gg_tensors = ts, gg_data = b\<rparr>))"
    unfolding gguf_parse_def m c obind.simps prod.case u k r foldl_map_of Let_def gguf_alignment_def
    using v by simp
  then show ?thesis
    using assms(7) by (simp add: b_def u64_div_ceil_def gguf_data_start_def)
qed

text \<open>C17: The GGUF reader reads the format: for every version 2 or 3 file made of well-formed metadata
  (numbers, text, nested arrays) and a tensor table of supported types, parsing succeeds, every key
  maps to the value stored last under it, and each tensor comes back with its name, shape and type,
  placed relative to the end of the headers rounded up to the alignment the metadata asks for. In
  particular the recursion over nested arrays never runs out.\<close>

theorem gguf_reads_the_format:
  assumes "2 \<le> version" "version \<le> 3" "\<forall>kv \<in> set kvs. wf_kv kv" "\<forall>r \<in> set raws. wf_raw r"
    and "length kvs < 2 ^ 64" "length raws < 2 ^ 64" "gguf_alignment kvs \<noteq> 0"
    and "\<forall>r \<in> set raws. ri_dtype r \<in> {GGML_F32, GGML_F16, GGML_Q8_0, GGML_Q4_K, GGML_Q5_K, GGML_Q6_K}"
  shows "\<exists>g. gguf_parse (gguf_file version kvs raws rest) = Ok g \<and> gg_kv g = map_of (rev kvs)
    \<and> gg_data g = gguf_file version kvs raws rest
    \<and> map (\<lambda>t. (ti_name t, ti_dims t, ti_dtype t, ti_file_offset t)) (gg_tensors g)
      = map (\<lambda>r. (ri_name r, ri_dims r, ri_dtype r,
          gguf_data_start (length (gguf_head version kvs raws)) (gguf_alignment kvs) + ri_rel_offset r)) raws"
proof -
  have sz: "\<exists>n. tensor_byte_size (ri_dtype r) k = (Ok n :: (gguf_error, u64) outcome)" if "r \<in> set raws" for r k
    using assms(8) that by (auto simp: tensor_byte_size_def)
  have "\<exists>ts. (tensors_of_raw ds rs :: (gguf_error, tensor_info list) outcome) = Ok ts
      \<and> map (\<lambda>t. (ti_name t, ti_dims t, ti_dtype t, ti_file_offset t)) ts
        = map (\<lambda>r. (ri_name r, ri_dims r, ri_dtype r, ds + ri_rel_offset r)) rs"
    if "set rs \<subseteq> set raws" for ds rs
    using that
  proof (induction rs)
    case (Cons r rs)
    then obtain n ts where "tensor_byte_size (ri_dtype r) (foldl (*) 1 (ri_dims r)) = (Ok n :: (gguf_error, u64) outcome)"
      "(tensors_of_raw ds rs :: (gguf_error, tensor_info list) outcome) = Ok ts"
      "map (\<lambda>t. (ti_name t, ti_dims t, ti_dtype t, ti_file_offset t)) ts
        = map (\<lambda>r. (ri_name r, ri_dims r, ri_dtype r, ds + ri_rel_offset r)) rs"
      using sz by force
    then show ?case by (simp add: tensor_of_raw_def Let_def)
  qed simp
  from this [OF subset_refl, of "gguf_data_start (length (gguf_head version kvs raws)) (gguf_alignment kvs)"]
  show ?thesis by (auto simp: gguf_parse_file [OF assms(1-7)])
qed

definition demo_kvs :: "(rstr \<times> gvalue) list" where
  "demo_kvs = [(map of_char ''general.name'', VStr [0x4E, 0xE9]),
     (map of_char ''a'', VArr [VArr [VU32 7], VArr [VU32 8, VU32 9]])]"

definition demo_raws :: "raw_info list" where
  "demo_raws = [\<lparr>ri_name = map of_char ''t'', ri_dims = [32, 2], ri_dtype = GGML_Q8_0, ri_rel_offset = 0\<rparr>]"

theorem gguf_reads_the_format_witness:
  "\<exists>g. gguf_parse (gguf_file 3 demo_kvs demo_raws [1, 2, 3]) = Ok g
    \<and> gg_kv g [97] = Some (VArr [VArr [VU32 7], VArr [VU32 8, VU32 9]])"
proof -
  have "\<forall>kv \<in> set demo_kvs. wf_kv kv" "\<forall>r \<in> set demo_raws. wf_raw r" "gguf_alignment demo_kvs \<noteq> 0"
    by (simp_all add: demo_kvs_def demo_raws_def wf_kv_def wf_raw_def wf_str_def scalar_def str_len_def len_utf8_def
        value_type_def gguf_alignment_def of_char_def)
  from gguf_reads_the_format [OF _ _ this(1,2) _ _ this(3), of 3 "[1, 2, 3]"] show ?thesis
    by (auto simp: demo_raws_def demo_kvs_def of_char_def)
qed

subsection \<open>The reader always returns or panics\<close>

text \<open>A read that moves forward within the buffer and never reports exhausted fuel.\<close>

definition advances :: "bytes \<Rightarrow> (gguf_error, 'a \<times> nat) outcome \<Rightarrow> nat \<Rightarrow> bool" where
  "advances b r pos \<longleftrightarrow> (case r of Ok (x, q) \<Rightarrow> pos \<le> q \<and> q \<le> length b | Err e \<Rightarrow> False | Panic \<Rightarrow> True)"

lemma advances_Ok [intro]: "pos \<le> q \<Longrightarrow> q \<le> length b \<Longrightarrow> advances b (Ok (x, q)) pos"
  and advances_Panic [simp]: "advances b Panic pos"
  by (simp_all add: advances_def)

lemma advances_bind:
  assumes "advances b m pos" and "\<And>x q. m = Ok (x, q) \<Longrightarrow> pos \<le> q \<Longrightarrow> q \<le> length b \<Longrightarrow> advances b (f (x, q)) q"
  shows "advances b (obind m f) pos"
  using assms by (cases m) (auto simp: advances_def split: outcome.splits)

definition fuelled :: "(gguf_error, 'a) outcome \<Rightarrow> bool" where
  "fuelled r \<longleftrightarrow> r \<noteq> Err FuelOut"

lemma fuelled_if: "(c \<Longrightarrow> fuelled x) \<Longrightarrow> (\<not> c \<Longrightarrow> fuelled y) \<Longrightarrow> fuelled (if c then x else y)"
  and fuelled_Panic: "fuelled Panic"
  by (simp_all add: fuelled_def)

lemma advances_fuelled:
  assumes "advances b m pos" and "\<And>x q. q \<le> length b \<Longrightarrow> fuelled (f (x, q))"
  shows "fuelled (obind m f)"
  using assms by (cases m) (auto simp: advances_def fuelled_def)

lemma cur_take_advances: "advances b (cur_take b n pos) pos"
  by (auto simp: cur_take_def advances_def slice_def)

lemma cur_take_Ok: "cur_take b n pos = Ok (s, q) \<Longrightarrow> q = pos + n \<and> q \<le> length b"
  by (auto simp: cur_take_def outcome_simps)

lemma cur_num_advances: "advances b (cur_u32 b pos) pos" "advances b (cur_u64 b pos) pos"
  "advances b (cur_len b version pos) pos" "advances b (cur_str b version pos) pos"
proof -
  show a: "advances b (cur_u32 b pos) pos" "advances b (cur_u64 b pos) pos" for pos
    unfolding cur_u32_def cur_u64_def by (rule advances_bind [OF cur_take_advances]; auto)+
  show c: "advances b (cur_len b version pos) pos" for pos
    unfolding cur_len_def by (auto intro!: advances_bind [OF a(1)] advances_bind [OF a(2)])
  show "advances b (cur_str b version pos) pos"
    unfolding cur_str_def by (auto intro!: advances_bind [OF c] advances_bind [OF cur_take_advances])
qed

lemma repeat_m_advances:
  assumes "\<And>q. pos \<le> q \<Longrightarrow> q \<le> length b \<Longrightarrow> advances b (f q) q" and "pos \<le> length b"
  shows "advances b (repeat_m n f pos) pos"
  using assms
proof (induction n arbitrary: pos)
  case (Suc n)
  show ?case
    by (auto intro!: advances_bind [OF Suc.prems(1)] advances_bind [OF Suc.IH] simp: Suc.prems)
qed auto

lemma cur_value_advances:
  "pos \<le> length b \<Longrightarrow> length b < fuel + pos \<Longrightarrow> advances b (cur_value fuel b version ty pos) pos"
proof (induction fuel arbitrary: ty pos)
  case (Suc fuel)
  have w: "advances b (obind (cur_take b n pos) (\<lambda>(s, pos). Ok (f s, pos))) pos" for n and f :: "bytes \<Rightarrow> gvalue"
    by (auto intro!: advances_bind [OF cur_take_advances])
  have s: "advances b (obind (cur_str b version pos) (\<lambda>(s, pos). Ok (VStr s, pos))) pos"
    by (auto intro!: advances_bind [OF cur_num_advances(4)])
  have a: "advances b (obind (cur_u32 b pos) (\<lambda>(elem_ty, pos). obind (cur_len b version pos) (\<lambda>(count, pos).
        obind (repeat_m count (cur_value fuel b version elem_ty) pos) (\<lambda>(vs, pos). Ok (VArr vs, pos))))) pos"
  proof (rule advances_bind [OF cur_num_advances(1)], clarsimp)
    fix ety q
    assume "cur_u32 b pos = (Ok (ety, q) :: (gguf_error, u32 \<times> nat) outcome)"
    then have q: "q = pos + 4" by (auto simp: cur_u32_def outcome_simps dest!: cur_take_Ok)
    show "advances b (obind (cur_len b version q) (\<lambda>(count, pos).
        obind (repeat_m count (cur_value fuel b version ety) pos) (\<lambda>(vs, pos). Ok (VArr vs, pos)))) q"
    proof (rule advances_bind [OF cur_num_advances(3)], clarsimp)
      fix count q'
      assume q': "q \<le> q'" "q' \<le> length b"
      have "advances b (repeat_m count (cur_value fuel b version ety) q') q'"
        using q q' Suc.prems by (intro repeat_m_advances Suc.IH) auto
      then show "advances b (obind (repeat_m count (cur_value fuel b version ety) q') (\<lambda>(vs, pos). Ok (VArr vs, pos))) q'"
        by (rule advances_bind) auto
    qed
  qed
  show ?case using w s a unfolding cur_value.simps Let_def by (simp del: obind.simps)
qed simp

lemma read_kv_advances: "pos \<le> length b \<Longrightarrow> advances b (read_kv (Suc (length b)) b version pos) pos"
  unfolding read_kv_def
  by (auto intro!: advances_bind [OF cur_num_advances(4)] advances_bind [OF cur_num_advances(1)]
      advances_bind [OF cur_value_advances] simp del: cur_value.simps)

lemma read_raw_info_advances: "pos \<le> length b \<Longrightarrow> advances b (read_raw_info b version pos) pos"
  unfolding read_raw_info_def
  by (auto intro!: advances_bind [OF cur_num_advances(4)] advances_bind [OF cur_num_advances(1)]
      advances_bind [OF cur_num_advances(2)] advances_bind [OF repeat_m_advances] cur_num_advances(2))

lemma tensors_of_raw_not_Err: "tensors_of_raw ds rs \<noteq> Err e"
proof -
  have "tensor_of_raw ds r \<noteq> Err e" for r
    unfolding tensor_of_raw_def tensor_byte_size_def Let_def by (simp add: obind_Err_iff)
  then show ?thesis by (induction rs) (auto simp: obind_Err_iff)
qed

text \<open>The GGUF reader ends on every file: its one recursion, into nested arrays, is bounded by the
  number of bytes left, so parsing any byte string whatever returns a model or panics, and never
  needs more nesting than the file has bytes.\<close>

theorem gguf_parse_ends: "gguf_parse data \<noteq> Err FuelOut"
proof -
  have kv: "advances data (repeat_m n (read_kv (Suc (length data)) data version) pos) pos" if "pos \<le> length data" for n version pos
    using that by (intro repeat_m_advances read_kv_advances)
  have raw: "advances data (repeat_m n (read_raw_info data version) pos) pos" if "pos \<le> length data" for n version pos
    using that by (intro repeat_m_advances read_raw_info_advances)
  have tail: "fuelled (obind (u64_div_ceil n a) (\<lambda>q. obind (tensors_of_raw (q * a) raw) (\<lambda>ts. Ok (f ts))))"
    for n a raw and f :: "tensor_info list \<Rightarrow> gguf"
    by (simp add: fuelled_def u64_div_ceil_def obind_Err_iff tensors_of_raw_not_Err)
  have "fuelled (gguf_parse data)"
    unfolding gguf_parse_def Let_def
    by (rule advances_fuelled [OF cur_take_advances], unfold prod.case, rule fuelled_if, rule fuelled_Panic,
        rule advances_fuelled [OF cur_num_advances(1)], unfold prod.case, rule fuelled_if, rule fuelled_Panic,
        rule advances_fuelled [OF cur_num_advances(2)], unfold prod.case,
        rule advances_fuelled [OF cur_num_advances(2)], unfold prod.case,
        rule advances_fuelled [OF kv], assumption, unfold prod.case,
        rule advances_fuelled [OF raw], assumption, unfold prod.case, rule tail)
  then show ?thesis by (simp add: fuelled_def)
qed

end
