(* ===== verification/Nr_Tokbuild.thy ===== *)
theory Nr_Tokbuild
  imports Nr_Token Nr_Gguf
begin

text \<open>
  The tokenizer builder of \<^verbatim>\<open>tools/nrconvert/src/tokenizer.rs\<close>: from the vocabulary and merges of a GGUF
  file to the NRTK blob the runtime reads, and the proof that the tokenizer so built spells every
  text exactly and never produces a control token from text. A \<open>HashMap\<close> is a partial function; the
  code iterates over vectors only.
\<close>

subsection \<open>The byte alphabet\<close>

definition printable :: "nat list" where
  "printable = [33..<127] @ [161..<173] @ [174..<256]"

definition u2b_step :: "nat list \<times> nat list \<times> nat \<Rightarrow> nat \<Rightarrow> nat list \<times> nat list \<times> nat" where
  "u2b_step st b = (case st of (bs, cs, n) \<Rightarrow>
     if b \<in> set bs then (bs, cs, n) else (bs @ [b], cs @ [256 + n], n + 1))"

definition u2b_pairs :: "(rchar \<times> byte) list" where
  "u2b_pairs = (case foldl u2b_step (printable, printable, 0) [0..<256] of
     (bs, cs, n) \<Rightarrow> zip cs (map of_nat bs))"

definition unicode_to_byte :: "rchar \<Rightarrow> byte option" where
  "unicode_to_byte c = map_of (rev u2b_pairs) c"

definition decode_token :: "bool \<Rightarrow> rstr \<Rightarrow> bytes" where
  "decode_token ctl s =
     (if ctl then utf8 s
      else concat (map (\<lambda>c. case unicode_to_byte c of Some b \<Rightarrow> [b] | None \<Rightarrow> utf8_char c) s))"

subsection \<open>Reading the metadata\<close>

definition TYPE_CONTROL :: u32 where "TYPE_CONTROL = 3"
definition TYPE_USER_DEFINED :: u32 where "TYPE_USER_DEFINED = 4"

datatype family = FamLlama3 | FamQwen3 | FamGranite

record built_tokenizer =
  bt_blob :: bytes
  bt_vocab :: nat
  bt_merges :: nat

definition str :: "char list \<Rightarrow> rstr" where "str s = map of_char s"

definition token_type :: "gvalue \<Rightarrow> u32" where
  "token_type v = (case v of VI32 t \<Rightarrow> t
     | other \<Rightarrow> (case as_u32 other of Some u \<Rightarrow> u | None \<Rightarrow> 1))"

definition control_type :: "u32 list \<Rightarrow> nat \<Rightarrow> bool" where
  "control_type types i \<longleftrightarrow> i < length types \<and> (types ! i = TYPE_CONTROL \<or> types ! i = TYPE_USER_DEFINED)"

definition family_pre :: "family \<Rightarrow> rstr" where
  "family_pre f = (case f of FamLlama3 \<Rightarrow> str ''llama-bpe'' | FamQwen3 \<Rightarrow> str ''qwen2'' | FamGranite \<Rightarrow> str ''dbrx'')"

subsection \<open>Indexes over the vocabulary\<close>

text \<open>A vocabulary row is the token's literal, its bytes and its flags.\<close>

type_synonym row = "rstr \<times> bytes \<times> u16"

definition vocab_rows :: "u32 list \<Rightarrow> rstr list \<Rightarrow> row list" where
  "vocab_rows types toks = map (\<lambda>(i, s). let ctl = control_type types i in
     (s, decode_token ctl s, if ctl then FLAG_CONTROL else 0)) (enumerate 0 toks)"

definition raw_by_literal :: "row list \<Rightarrow> rstr \<Rightarrow> u32 option" where
  "raw_by_literal rows = foldl (\<lambda>m (i, (s, bs, fl)). m(s \<mapsto> of_nat i)) Map.empty (enumerate 0 rows)"

definition by_bytes_step :: "(bytes \<Rightarrow> u32 option) \<Rightarrow> nat \<times> row \<Rightarrow> bytes \<Rightarrow> u32 option" where
  "by_bytes_step m r = (case r of (i, (s, bs, fl)) \<Rightarrow>
     if fl AND FLAG_CONTROL = 0 then (case m bs of None \<Rightarrow> m(bs \<mapsto> of_nat i) | Some x \<Rightarrow> m) else m)"

definition by_bytes :: "row list \<Rightarrow> bytes \<Rightarrow> u32 option" where
  "by_bytes rows = foldl by_bytes_step Map.empty (enumerate 0 rows)"

definition split_once_space :: "rstr \<Rightarrow> (rstr \<times> rstr) option" where
  "split_once_space s =
     (if 32 \<in> set s then Some (takeWhile (\<lambda>c. c \<noteq> 32) s, drop 1 (dropWhile (\<lambda>c. c \<noteq> 32) s)) else None)"

type_synonym merge_row = "u32 \<times> u32 \<times> u32 \<times> u32"

fun resolve_merges :: "(bytes \<Rightarrow> u32 option) \<Rightarrow> (nat \<times> gvalue) list \<Rightarrow> ('e, merge_row list) outcome" where
  "resolve_merges bb [] = Ok []"
| "resolve_merges bb ((rank, m) # ms) =
     obind (expect (as_str m)) (\<lambda>s. obind (expect (split_once_space s)) (\<lambda>(a, b).
     let ab = decode_token False a @ decode_token False b in
     case (bb (decode_token False a), bb (decode_token False b), bb ab) of
       (Some l, Some r, Some res) \<Rightarrow>
         obind (resolve_merges bb ms) (\<lambda>rest. Ok ((l, r, res, of_nat rank) # rest))
     | _ \<Rightarrow> resolve_merges bb ms))"

definition merge_row_key :: "merge_row \<Rightarrow> u64" where
  "merge_row_key m = (case m of (l, r, _, _) \<Rightarrow> push_bit 32 (ucast l) OR ucast r)"

subsection \<open>Serializing\<close>

fun vocab_table :: "row list \<Rightarrow> bytes \<Rightarrow> bytes \<Rightarrow> ('e, bytes \<times> bytes) outcome" where
  "vocab_table [] table pool = Ok (table, pool)"
| "vocab_table ((s, bs, fl) # rows) table pool =
     (if length bs > 65535 then Panic
      else vocab_table rows (table @ to_le 4 (of_nat (length pool) :: u32) @ to_le 2 (of_nat (length bs) :: u16) @ to_le 2 fl)
             (pool @ bs))"

definition merge_row_bytes :: "merge_row \<Rightarrow> bytes" where
  "merge_row_bytes m = (case m of (l, r, res, rank) \<Rightarrow> to_le 4 l @ to_le 4 r @ to_le 4 res @ to_le 4 rank)"

definition nrtk_blob :: "u32 \<Rightarrow> nat \<Rightarrow> nat \<Rightarrow> u32 list \<Rightarrow> u32 list \<Rightarrow> bytes \<Rightarrow> bytes \<Rightarrow> bytes \<Rightarrow> bytes" where
  "nrtk_blob template_id vocab merges specials byte_ids table merge_bytes pool =
     NRTK_MAGIC @ to_le 4 NRTK_VERSION @ to_le 4 template_id @ to_le 4 (of_nat vocab :: u32)
     @ to_le 4 (of_nat merges :: u32) @ to_le 4 (of_nat (length pool) :: u32)
     @ concat (map (to_le 4) specials) @ concat (map (to_le 4) byte_ids) @ table @ merge_bytes @ pool"

definition family_slots :: "(rstr \<Rightarrow> u32 option) \<Rightarrow> family \<Rightarrow> ('e, u32 \<times> u32 list) outcome" where
  "family_slots lit f =
     (let look = (\<lambda>s. expect (lit (str s))) in
      case f of
        FamLlama3 \<Rightarrow> obind (look ''<|eot_id|>'') (\<lambda>eot. obind (look ''<|start_header_id|>'') (\<lambda>sh.
          obind (look ''<|end_header_id|>'') (\<lambda>eh. obind (look ''<|end_of_text|>'') (\<lambda>et. Ok (1, [eot, sh, eh, et])))))
      | FamQwen3 \<Rightarrow> obind (look ''<|im_end|>'') (\<lambda>eot. obind (look ''<|im_start|>'') (\<lambda>sh.
          obind (look ''<|im_end|>'') (\<lambda>eh. obind (look ''<|endoftext|>'') (\<lambda>et. Ok (2, [eot, sh, eh, et])))))
      | FamGranite \<Rightarrow> obind (look ''<|end_of_text|>'') (\<lambda>eot. obind (look ''<|start_of_role|>'') (\<lambda>sh.
          obind (look ''<|end_of_role|>'') (\<lambda>eh. obind (look ''<|end_of_text|>'') (\<lambda>et. Ok (3, [eot, sh, eh, et]))))))"

definition kv_index :: "gguf \<Rightarrow> char list \<Rightarrow> ('e, gvalue) outcome" where
  "kv_index g k = expect (gg_kv g (str k))"

text \<open>The second half of \<open>build\<close>: byte table, merges, special slots and the blob.\<close>

definition build_blob :: "row list \<Rightarrow> gvalue list \<Rightarrow> u32 \<Rightarrow> u32 \<Rightarrow> family \<Rightarrow> ('e, built_tokenizer) outcome" where
  "build_blob rows merges bos eos f =
     obind (map_outcome (\<lambda>b. expect (by_bytes rows [of_nat b])) [0..<256]) (\<lambda>byte_ids.
     obind (resolve_merges (by_bytes rows) (enumerate 0 merges)) (\<lambda>unsorted.
     let resolved = sort_key merge_row_key unsorted in
     obind (family_slots (raw_by_literal rows) f) (\<lambda>(template_id, slots).
     obind (vocab_table rows [] []) (\<lambda>(table, pool).
     Ok \<lparr>bt_blob = nrtk_blob template_id (length rows) (length resolved) (bos # eos # slots) byte_ids table
            (concat (map merge_row_bytes resolved)) pool,
         bt_vocab = length rows, bt_merges = length resolved\<rparr>))))"

definition build :: "gguf \<Rightarrow> family \<Rightarrow> ('e, built_tokenizer) outcome" where
  "build g f =
     obind (obind (kv_index g ''tokenizer.ggml.model'') (\<lambda>v. expect (as_str v))) (\<lambda>model.
     if model \<noteq> str ''gpt2'' then Panic else
     obind (obind (kv_index g ''tokenizer.ggml.tokens'') (\<lambda>v. expect (as_arr v))) (\<lambda>tokens.
     obind (obind (kv_index g ''tokenizer.ggml.token_type'') (\<lambda>v. expect (as_arr v))) (\<lambda>tys.
     obind (obind (kv_index g ''tokenizer.ggml.merges'') (\<lambda>v. expect (as_arr v))) (\<lambda>merges.
     obind (obind (kv_index g ''tokenizer.ggml.eos_token_id'') (\<lambda>v. expect (as_u32 v))) (\<lambda>eos.
     let bos = (case Option.bind (gg_kv g (str ''tokenizer.ggml.bos_token_id'')) as_u32 of Some t \<Rightarrow> t | None \<Rightarrow> eos) in
     if (case Option.bind (gg_kv g (str ''tokenizer.ggml.pre'')) as_str of Some pre \<Rightarrow> pre \<noteq> family_pre f | None \<Rightarrow> False)
     then Panic else
     obind (map_outcome (\<lambda>v. expect (as_str v)) tokens) (\<lambda>toks.
     build_blob (vocab_rows (map token_type tys) toks) merges bos eos f))))))"

subsection \<open>The blob parses to its parts\<close>

definition specials_of :: "u32 list \<Rightarrow> specials" where
  "specials_of ids = \<lparr>sp_bos = ids ! 0, sp_eos = ids ! 1, sp_eot = ids ! 2, sp_start_header = ids ! 3,
     sp_end_header = ids ! 4, sp_end_of_text = ids ! 5\<rparr>"

definition template_of :: "u32 \<Rightarrow> template" where
  "template_of t = (if t = 1 then TplLlama3 else if t = 2 then ChatMl else Granite)"

lemma length_6: "length xs = 6 \<Longrightarrow> \<exists>a b c d e f. xs = [a, b, c, d, e, f]"
  by (simp add: length_Suc_conv numeral_eq_Suc) blast

lemma tokenizer_parse_nrtk:
  assumes tpl: "t = 1 \<or> t = 2 \<or> t = 3" and sp: "length ids = 6" and bys: "length byte_ids = 256"
    and n: "n < 2 ^ 32" "length table = n * 8" and m: "m < 2 ^ 32" "length merges = m * 16"
    and pool: "length pool < 2 ^ 32" and ent: "\<forall>i < n. entry_ok table (length pool) i"
    and idr: "\<forall>s \<in> set ids. unat s < n"
  shows "tokenizer_parse (nrtk_blob t n m ids byte_ids table merges pool) =
    Ok \<lparr>tk_specials = specials_of ids, tk_template = template_of t, tk_vocab_count = of_nat n,
        tk_byte_ids = concat (map (to_le 4) byte_ids), tk_table = table, tk_merges = merges,
        tk_merge_count = m, tk_pool = pool\<rparr>"
proof -
  define b where "b = nrtk_blob t n m ids byte_ids table merges pool"
  obtain i0 i1 i2 i3 i4 i5 where ids: "ids = [i0, i1, i2, i3, i4, i5]" using length_6 [OF sp] by blast
  define h where "h = NRTK_MAGIC @ to_le 4 NRTK_VERSION @ to_le 4 t @ to_le 4 (of_nat n :: u32)
     @ to_le 4 (of_nat m :: u32) @ to_le 4 (of_nat (length pool) :: u32) @ concat (map (to_le 4) ids)"
  define B :: bytes where "B = concat (map (to_le 4) byte_ids)"
  have lB: "length B = 1024"
    unfolding B_def by (subst length_concat_fixed [where k = 4]) (simp_all add: bys)
  have lh: "length h = 48" by (simp add: h_def ids NRTK_MAGIC_def)
  have b: "b = h @ B @ table @ merges @ pool" by (simp add: b_def nrtk_blob_def h_def B_def)
  have len: "length b = 1072 + n * 8 + m * 16 + length pool" by (simp add: b lh lB n m)
  have hs: "sub b i j = sub h i j" if "j \<le> 48" for i j using that by (simp add: b sub_append_left lh)
  have f: "sub h 0 4 = NRTK_MAGIC" "sub h 4 8 = to_le 4 NRTK_VERSION" "sub h 8 12 = to_le 4 t"
      "sub h 12 16 = to_le 4 (of_nat n :: u32)" "sub h 16 20 = to_le 4 (of_nat m :: u32)"
      "sub h 20 24 = to_le 4 (of_nat (length pool) :: u32)" "sub h 24 28 = to_le 4 i0" "sub h 28 32 = to_le 4 i1"
      "sub h 32 36 = to_le 4 i2" "sub h 36 40 = to_le 4 i3" "sub h 40 44 = to_le 4 i4" "sub h 44 48 = to_le 4 i5"
    by (simp_all add: h_def ids NRTK_MAGIC_def sub_def)
  have rd: "u32le b i = (Ok (le_word (sub h i (i + 4))) :: ('e, u32) outcome)" if "i + 4 \<le> 48" for i
    using that by (simp add: len hs)
  have u: "unat (of_nat n :: u32) = n" "unat (of_nat m :: u32) = m" "unat (of_nat (length pool) :: u32) = length pool"
    using n m pool by (simp_all add: unat_of_nat_less)
  have sl: "slice b 48 1072 = (Ok B :: ('e, bytes) outcome)" "slice b 1072 (1072 + n * 8) = (Ok table :: ('e, bytes) outcome)"
      "slice b (1072 + n * 8) (1072 + n * 8 + m * 16) = (Ok merges :: ('e, bytes) outcome)"
      "slice b (1072 + n * 8 + m * 16) (1072 + n * 8 + m * 16 + length pool) = (Ok pool :: ('e, bytes) outcome)"
    by (simp_all add: len) (simp_all add: b sub_append_right sub_append_left sub_whole lh lB n m)
  have ct: "check_table table (length pool) [0..<n] = Ok ()"
    using ent n(2) by (subst check_table_eq) auto
  have lt: "\<forall>s \<in> set ids. s < of_nat n" using idr u(1) by (simp add: word_less_nat_alt)
  have pt: "parse_template t = Ok (template_of t)" using tpl by (auto simp: parse_template_def template_of_def)
  have sps: "parse_specials b = (Ok (specials_of ids) :: ('e, specials) outcome)"
    by (simp add: parse_specials_def rd f le_word_to_le specials_of_def ids del: u32le_ok)
  have cm: "ok_or (checked_mul n 8) e = Ok (n * 8)" "ok_or (checked_mul m 16) e = Ok (m * 16)"
      "ok_or (checked_add 1072 (n * 8)) e = Ok (1072 + n * 8)"
      "ok_or (checked_add (1072 + n * 8) (m * 16)) e = Ok (1072 + n * 8 + m * 16)"
      "ok_or (checked_add (1072 + n * 8 + m * 16) (length pool)) e = Ok (1072 + n * 8 + m * 16 + length pool)" for e :: 'e
    using n m pool by (simp_all add: ok_or_Ok_iff usize_limit_def)
  have mg: "slice b 0 4 = (Ok NRTK_MAGIC :: ('e, bytes) outcome)" by (simp add: len hs f)
  have nl: "\<not> length b < 8 + 12 + 24 + 1024" "\<not> length b < 1072 + n * 8 + m * 16 + length pool" by (simp_all add: len)
  have si: "\<forall>s \<in> set (special_ids (specials_of ids)). s < of_nat n"
    using lt by (simp add: special_ids_def specials_of_def ids)
  have r: "u32le b 4 = (Ok NRTK_VERSION :: ('e, u32) outcome)" "u32le b 8 = (Ok t :: ('e, u32) outcome)"
      "u32le b 12 = (Ok (of_nat n) :: ('e, u32) outcome)" "u32le b 16 = (Ok (of_nat m) :: ('e, u32) outcome)"
      "u32le b 20 = (Ok (of_nat (length pool)) :: ('e, u32) outcome)"
    by (simp_all add: rd f le_word_to_le del: u32le_ok)
  show ?thesis
    unfolding b_def [symmetric] B_def [symmetric] tokenizer_parse_def
    using nl si
    by (simp add: r mg pt sps u cm sl ct Let_def del: u32le_ok slice_ok)
qed

subsection \<open>What the indexes promise\<close>

definition row_bytes :: "row \<Rightarrow> bytes" where "row_bytes r = fst (snd r)"
definition row_flags :: "row \<Rightarrow> u16" where "row_flags r = snd (snd r)"

lemma by_bytes_fold:
  "foldl by_bytes_step m (enumerate n rows) bs = Some t \<Longrightarrow>
     m bs = Some t \<or> (\<exists>i < length rows. t = of_nat (n + i) \<and> row_bytes (rows ! i) = bs
       \<and> row_flags (rows ! i) AND FLAG_CONTROL = 0)"
proof (induction rows arbitrary: m n)
  case (Cons r rows)
  from Cons.IH [of "by_bytes_step m (n, r)" "Suc n"] Cons.prems consider
      "by_bytes_step m (n, r) bs = Some t"
    | i where "i < length rows" "t = of_nat (Suc n + i)" "row_bytes (rows ! i) = bs" "row_flags (rows ! i) AND FLAG_CONTROL = 0"
    by auto
  then show ?case
  proof cases
    case 1
    then show ?thesis
      by (cases r) (auto simp: by_bytes_step_def row_bytes_def row_flags_def split: if_splits option.splits intro!: exI [of _ 0])
  next
    case 2
    then show ?thesis by (intro disjI2 exI [of _ "Suc i"]) simp
  qed
qed simp

lemma by_bytes_Some:
  "by_bytes rows bs = Some t \<Longrightarrow> \<exists>i < length rows. t = of_nat i \<and> row_bytes (rows ! i) = bs
     \<and> row_flags (rows ! i) AND FLAG_CONTROL = 0"
  using by_bytes_fold [of Map.empty 0 rows bs t] by (simp add: by_bytes_def)

lemma raw_by_literal_fold:
  "foldl (\<lambda>m (i, (s, bs, fl)). m(s \<mapsto> of_nat i)) m (enumerate n rows) x = Some (t :: u32) \<Longrightarrow>
     m x = Some t \<or> (\<exists>i < length rows. t = of_nat (n + i))"
proof (induction rows arbitrary: m n)
  case (Cons r rows)
  obtain s bs fl where r: "r = (s, bs, fl)" by (cases r) auto
  from Cons.IH [of "m(s \<mapsto> of_nat n)" "Suc n"] Cons.prems consider
      "(m(s \<mapsto> of_nat n)) x = Some t" | i where "i < length rows" "t = of_nat (Suc n + i)"
    by (auto simp: r)
  then show ?case
  proof cases
    case 1
    then show ?thesis by (auto split: if_splits intro!: exI [of _ 0])
  next
    case 2
    then show ?thesis by (intro disjI2 exI [of _ "Suc i"]) simp
  qed
qed simp

lemma raw_by_literal_Some: "raw_by_literal rows x = Some t \<Longrightarrow> \<exists>i < length rows. t = of_nat i"
  using raw_by_literal_fold [of Map.empty 0 rows x t] by (simp add: raw_by_literal_def)

definition row_entry :: "nat \<Rightarrow> row \<Rightarrow> bytes" where
  "row_entry off r = to_le 4 (of_nat off :: u32) @ to_le 2 (of_nat (length (row_bytes r)) :: u16) @ to_le 2 (row_flags r)"

definition row_off :: "row list \<Rightarrow> nat \<Rightarrow> nat" where
  "row_off rows i = length (concat (take i (map row_bytes rows)))"

lemma vocab_table_Ok:
  "(vocab_table rows table pool :: ('e, bytes \<times> bytes) outcome) = Ok (t, p) \<Longrightarrow>
     p = pool @ concat (map row_bytes rows) \<and> (\<forall>r \<in> set rows. length (row_bytes r) \<le> 65535)
     \<and> t = table @ concat (map (\<lambda>i. row_entry (length pool + row_off rows i) (rows ! i)) [0..<length rows])"
proof (induction rows arbitrary: table pool)
  case (Cons r rows)
  obtain s bs fl where r: "r = (s, bs, fl)" by (cases r) auto
  from Cons.prems have le: "length bs \<le> 65535"
    and rest: "(vocab_table rows (table @ row_entry (length pool) r) (pool @ bs) :: ('e, bytes \<times> bytes) outcome) = Ok (t, p)"
    by (auto simp: r row_entry_def row_bytes_def row_flags_def split: if_splits)
  have up: "[0..<length (r # rows)] = 0 # map Suc [0..<length rows]" by (simp add: upt_conv_Cons map_Suc_upt del: upt_Suc)
  have off: "row_off (r # rows) 0 = 0" "\<And>i. row_off (r # rows) (Suc i) = length bs + row_off rows i"
    by (simp_all add: row_off_def r row_bytes_def)
  have "map (\<lambda>i. row_entry (length pool + row_off (r # rows) i) ((r # rows) ! i)) [0..<length (r # rows)]
      = row_entry (length pool) r # map (\<lambda>i. row_entry (length (pool @ bs) + row_off rows i) (rows ! i)) [0..<length rows]"
    unfolding up list.map map_map o_def off by (simp add: add.assoc)
  with Cons.IH [OF rest] le show ?case by (simp add: r row_bytes_def)
qed simp

lemma length_row_entry [simp]: "length (row_entry off r) = 8"
  by (simp add: row_entry_def)

definition rows_table :: "row list \<Rightarrow> bytes" where
  "rows_table rows = concat (map (\<lambda>i. row_entry (row_off rows i) (rows ! i)) [0..<length rows])"

lemma length_rows_table [simp]: "length (rows_table rows) = length rows * 8"
  unfolding rows_table_def by (subst length_concat_fixed [where k = 8]) simp_all

lemma rows_table_fields:
  assumes "i < length rows"
  shows "sub (rows_table rows) (i * 8) (i * 8 + 4) = to_le 4 (of_nat (row_off rows i) :: u32)"
    and "sub (rows_table rows) (i * 8 + 4) (i * 8 + 4 + 2) = to_le 2 (of_nat (length (row_bytes (rows ! i))) :: u16)"
    and "sub (rows_table rows) (i * 8 + 6) (i * 8 + 6 + 2) = to_le 2 (row_flags (rows ! i))"
proof -
  let ?e = "row_entry (row_off rows i) (rows ! i)"
  have e: "sub (rows_table rows) (i * 8) (i * 8 + 8) = ?e"
    using sub_concat_fixed [of "[0..<length rows]" "\<lambda>i. row_entry (row_off rows i) (rows ! i)" 8 i] assms
    by (simp add: rows_table_def)
  have s: "sub (rows_table rows) (i * 8 + a) (i * 8 + b) = sub ?e a b" if "b \<le> 8" for a b
    using sub_sub [of b "i * 8 + 8" "i * 8" "rows_table rows" a] that by (simp add: e)
  show "sub (rows_table rows) (i * 8) (i * 8 + 4) = to_le 4 (of_nat (row_off rows i) :: u32)"
    using s [of 4 0] by (simp add: row_entry_def sub_append_left sub_whole)
  show "sub (rows_table rows) (i * 8 + 4) (i * 8 + 4 + 2) = to_le 2 (of_nat (length (row_bytes (rows ! i))) :: u16)"
    using s [of 6 4] by (simp add: row_entry_def sub_append_left sub_append_right sub_whole add.commute)
  show "sub (rows_table rows) (i * 8 + 6) (i * 8 + 6 + 2) = to_le 2 (row_flags (rows ! i))"
    using s [of 8 6] by (simp add: row_entry_def sub_append_right sub_whole add.commute)
qed

lemma row_off_bound:
  "i < length rows \<Longrightarrow> row_off rows i + length (row_bytes (rows ! i)) \<le> length (concat (map row_bytes rows))"
  using sub_concat_bound [of i "map row_bytes rows"] by (simp add: row_off_def)

lemma row_bytes_in_pool:
  "i < length rows \<Longrightarrow> sub (concat (map row_bytes rows)) (row_off rows i) (row_off rows i + length (row_bytes (rows ! i)))
     = row_bytes (rows ! i)"
  using sub_concat [of i "map row_bytes rows"] by (simp add: row_off_def)

definition rows_small :: "row list \<Rightarrow> bool" where
  "rows_small rows \<longleftrightarrow> length rows < 2 ^ 32 \<and> length (concat (map row_bytes rows)) < 2 ^ 32
     \<and> (\<forall>r \<in> set rows. length (row_bytes r) \<le> 65535)"

lemma rows_table_read:
  assumes "rows_small rows" and "i < length rows"
  shows "unat (le_word (sub (rows_table rows) (i * 8) (i * 8 + 4)) :: u32) = row_off rows i"
    and "unat (le_word (sub (rows_table rows) (i * 8 + 4) (i * 8 + 4 + 2)) :: u16) = length (row_bytes (rows ! i))"
    and "(le_word (sub (rows_table rows) (i * 8 + 6) (i * 8 + 6 + 2)) :: u16) = row_flags (rows ! i)"
proof -
  have "length (row_bytes (rows ! i)) \<le> 65535"
    using assms(1) nth_mem [OF assms(2)] unfolding rows_small_def by blast
  then have "row_off rows i < 2 ^ 32" "length (row_bytes (rows ! i)) < 2 ^ 16"
    using row_off_bound [OF assms(2)] assms(1) by (simp_all add: rows_small_def)
  then show "unat (le_word (sub (rows_table rows) (i * 8) (i * 8 + 4)) :: u32) = row_off rows i"
    "unat (le_word (sub (rows_table rows) (i * 8 + 4) (i * 8 + 4 + 2)) :: u16) = length (row_bytes (rows ! i))"
    "(le_word (sub (rows_table rows) (i * 8 + 6) (i * 8 + 6 + 2)) :: u16) = row_flags (rows ! i)"
    unfolding rows_table_fields [OF assms(2)] by (simp_all add: le_word_to_le unat_of_nat_less)
qed

subsection \<open>The built tokenizer\<close>

text \<open>The tokenizer the blob of a build parses to.\<close>

definition built_tk :: "u32 \<Rightarrow> u32 list \<Rightarrow> u32 list \<Rightarrow> row list \<Rightarrow> merge_row list \<Rightarrow> tokenizer" where
  "built_tk t ids byte_ids rows ms = \<lparr>tk_specials = specials_of ids, tk_template = template_of t,
     tk_vocab_count = of_nat (length rows), tk_byte_ids = concat (map (to_le 4) byte_ids),
     tk_table = rows_table rows, tk_merges = concat (map merge_row_bytes ms), tk_merge_count = length ms,
     tk_pool = concat (map row_bytes rows)\<rparr>"

lemma length_merge_row_bytes [simp]: "length (merge_row_bytes m) = 16"
  by (cases m) (simp add: merge_row_bytes_def)

lemma rows_entries_ok: "rows_small rows \<Longrightarrow> i < length rows \<Longrightarrow> entry_ok (rows_table rows) (length (concat (map row_bytes rows))) i"
  using row_off_bound [of i rows] by (simp only: entry_ok_def rows_table_read) 

lemma parse_built:
  assumes "t = 1 \<or> t = 2 \<or> t = 3" and "length ids = 6" and "length byte_ids = 256" and "rows_small rows"
    and "length ms < 2 ^ 32" and "\<forall>s \<in> set ids. unat s < length rows"
  shows "tokenizer_parse (nrtk_blob t (length rows) (length ms) ids byte_ids (rows_table rows)
      (concat (map merge_row_bytes ms)) (concat (map row_bytes rows))) = Ok (built_tk t ids byte_ids rows ms)"
proof -
  have "length (concat (map merge_row_bytes ms)) = length ms * 16"
    by (rule length_concat_fixed) simp
  then show ?thesis
    unfolding built_tk_def using assms rows_entries_ok [OF assms(4)]
    by (intro tokenizer_parse_nrtk) (simp_all add: rows_small_def)
qed

lemma built_lookup:
  assumes "rows_small rows" and "i < length rows"
    and tk_def: "tk = built_tk t ids byte_ids rows ms"
  shows "tbytes tk (of_nat i) = row_bytes (rows ! i)"
    and "control tk (of_nat i) \<longleftrightarrow> row_flags (rows ! i) AND FLAG_CONTROL \<noteq> 0"
proof -
  have u: "unat (of_nat i :: u32) = i" "unat (of_nat (length rows) :: u32) = length rows"
    using assms by (simp_all add: rows_small_def unat_of_nat_less)
  then have lt: "\<not> (of_nat i :: u32) \<ge> of_nat (length rows)" using assms(2) by (simp add: word_le_nat_alt)
  have len: "i * 8 + 8 \<le> length (rows_table rows)" using assms(2) by simp
  have ar: "i * 8 + 4 + 2 = 6 + i * 8" "i * 8 + 6 + 2 = 8 + i * 8" by simp_all
  note rd = rows_table_read [OF assms(1,2)] rows_table_read(2,3) [OF assms(1,2), unfolded ar]
  have "token_bytes tk (of_nat i) = (Ok (row_bytes (rows ! i)) :: (unit, bytes) outcome)"
    using lt len row_off_bound [OF assms(2)] row_bytes_in_pool [OF assms(2)]
    by (simp add: token_bytes_def tk_def built_tk_def u rd Let_def del: add_2_eq_Suc add_2_eq_Suc')
  then show "tbytes tk (of_nat i) = row_bytes (rows ! i)" by (simp add: tbytes_def)
  have "is_control tk (of_nat i) = (Ok (row_flags (rows ! i) AND FLAG_CONTROL \<noteq> 0) :: (unit, bool) outcome)"
    using lt len by (simp add: is_control_def tk_def built_tk_def u rd Let_def del: add_2_eq_Suc add_2_eq_Suc')
  then show "control tk (of_nat i) \<longleftrightarrow> row_flags (rows ! i) AND FLAG_CONTROL \<noteq> 0" by (simp add: control_def)
qed

lemma built_byte_id:
  assumes "length byte_ids = 256"
  shows "byte_id (built_tk t ids byte_ids rows ms) b = byte_ids ! unat b"
proof -
  have "unat b < length byte_ids" using assms unsigned_less [of b] by simp
  from sub_concat_fixed [of byte_ids "to_le 4" 4, OF _ this] show ?thesis
    by (simp add: byte_id_def built_tk_def le_word_to_le)
qed

lemma built_merge_fields:
  assumes "i < length ms" and "ms ! i = (l, r, res, rank)"
  shows "mfield (concat (map merge_row_bytes ms)) i 0 = l" "mfield (concat (map merge_row_bytes ms)) i 4 = r"
    "mfield (concat (map merge_row_bytes ms)) i 8 = res" "mfield (concat (map merge_row_bytes ms)) i 12 = rank"
proof -
  let ?M = "concat (map merge_row_bytes ms)"
  have e: "sub ?M (i * 16) (i * 16 + 16) = to_le 4 l @ to_le 4 r @ to_le 4 res @ to_le 4 rank"
    using sub_concat_fixed [of ms merge_row_bytes 16 i, OF _ assms(1)]
    by (simp add: assms(2)) (simp add: merge_row_bytes_def)
  have s: "sub ?M (i * 16 + a) (i * 16 + a + 4) = sub (to_le 4 l @ to_le 4 r @ to_le 4 res @ to_le 4 rank) a (a + 4)" if "a + 4 \<le> 16" for a
    using sub_sub [of "a + 4" "i * 16 + 16" "i * 16" ?M a] that by (simp add: e add.assoc)
  show "mfield ?M i 0 = l" "mfield ?M i 4 = r" "mfield ?M i 8 = res" "mfield ?M i 12 = rank"
    unfolding mfield_def using s [of 0] s [of 4] s [of 8] s [of 12]
    by (simp_all only: le_numeral_extra) (simp_all add: sub_append_left sub_append_right sub_whole le_word_to_le)
qed

lemma built_merge_sound:
  assumes "tok_ok (built_tk t ids byte_ids rows ms)" and "merge_of (built_tk t ids byte_ids rows ms) a b = Some (res, rank)"
  shows "(a, b, res, rank) \<in> set ms"
proof -
  let ?tk = "built_tk t ids byte_ids rows ms" and ?M = "concat (map merge_row_bytes ms)"
  have "merge ?tk a b = (Ok (Some (res, rank)) :: (unit, (u32 \<times> u32) option) outcome)"
    by (simp add: merge_ok [OF assms(1)] assms(2))
  then have m: "merge_search ?M (merge_key a b) 0 (length ms) = (Ok (Some (res, rank)) :: (unit, (u32 \<times> u32) option) outcome)"
    by (simp add: merge_def built_tk_def)
  have "length ms * 16 \<le> length ?M" by (simp add: length_concat_fixed [where k = 16])
  from merge_search_found [OF this m] obtain i where i: "i < length ms" "mkey ?M i = merge_key a b"
      "res = mfield ?M i 8" "rank = mfield ?M i 12"
    by blast
  obtain l r s k where e: "ms ! i = (l, r, s, k)" by (cases "ms ! i") auto
  with i built_merge_fields [OF i(1) e] have "(a, b, res, rank) = ms ! i" by (simp add: mkey_def merge_key_inj)
  with i(1) show ?thesis by simp
qed

lemma resolve_merges_sound:
  "(resolve_merges bb es :: ('e, merge_row list) outcome) = Ok ms \<Longrightarrow> (l, r, res, rank) \<in> set ms \<Longrightarrow>
     \<exists>x y. bb x = Some l \<and> bb y = Some r \<and> bb (x @ y) = Some res"
proof (induction es arbitrary: ms)
  case (Cons e es)
  obtain k m where e: "e = (k, m)" by (cases e) auto
  obtain s a b where s: "as_str m = Some s" "split_once_space s = Some (a, b)"
    using Cons.prems(1) unfolding e by (simp add: outcome_simps) blast
  let ?a = "decode_token False a" and ?b = "decode_token False b"
  show ?case
  proof (cases "bb ?a = None \<or> bb ?b = None \<or> bb (?a @ ?b) = None")
    case True
    with Cons.prems(1) s have "(resolve_merges bb es :: ('e, merge_row list) outcome) = Ok ms"
      unfolding e by (auto simp: Let_def split: option.splits)
    with Cons show ?thesis by blast
  next
    case False
    then obtain l' r' res' where some: "bb ?a = Some l'" "bb ?b = Some r'" "bb (?a @ ?b) = Some res'" by auto
    with Cons.prems(1) s obtain rest where "(resolve_merges bb es :: ('e, merge_row list) outcome) = Ok rest"
        "ms = (l', r', res', of_nat k) # rest"
      unfolding e by (auto simp: Let_def outcome_simps)
    with Cons some show ?thesis by (cases "(l, r, res, rank) \<in> set rest") auto
  qed
qed simp

subsection \<open>From a build to a lossless, plain tokenizer\<close>

lemma map_outcome_Ok:
  "map_outcome f xs = Ok ys \<Longrightarrow> length ys = length xs \<and> (\<forall>i < length xs. f (xs ! i) = Ok (ys ! i))"
proof (induction xs arbitrary: ys)
  case (Cons x xs)
  then obtain z zs where z: "f x = Ok z" "map_outcome f xs = Ok zs" "ys = z # zs" by (auto simp: outcome_simps)
  with Cons.IH [OF z(2)] show ?case by (auto simp: nth_Cons split: nat.splits)
qed simp

lemma map_outcome_total: "\<forall>x \<in> set xs. \<exists>y. f x = Ok y \<Longrightarrow> \<exists>ys. map_outcome f xs = Ok ys"
  by (induction xs) auto

lemma family_slots_Ok:
  "(family_slots lit f :: ('e, u32 \<times> u32 list) outcome) = Ok (t, slots) \<Longrightarrow>
     (t = 1 \<or> t = 2 \<or> t = 3) \<and> length slots = 4 \<and> (\<forall>s \<in> set slots. \<exists>x. lit x = Some s)"
  by (cases f) (auto simp: family_slots_def Let_def outcome_simps)

definition bos_eos_in_vocab :: "gguf \<Rightarrow> nat \<Rightarrow> bool" where
  "bos_eos_in_vocab g n \<longleftrightarrow> (\<forall>k \<in> {''tokenizer.ggml.eos_token_id'', ''tokenizer.ggml.bos_token_id''}.
     \<forall>t. Option.bind (gg_kv g (str k)) as_u32 = Some t \<longrightarrow> unat t < n)"

lemma build_Ok:
  assumes "(build g f :: ('e, built_tokenizer) outcome) = Ok bt"
  obtains t bos eos slots byte_ids rows ms es where
    "bt_blob bt = nrtk_blob t (length rows) (length ms) (bos # eos # slots) byte_ids (rows_table rows)
      (concat (map merge_row_bytes ms)) (concat (map row_bytes rows))"
    "bt_vocab bt = length rows" "t = 1 \<or> t = 2 \<or> t = 3" "length slots = 4" "\<forall>s \<in> set slots. \<exists>x. raw_by_literal rows x = Some s"
    "length byte_ids = 256" "\<forall>b < 256. by_bytes rows [of_nat b] = Some (byte_ids ! b)"
    "\<forall>r \<in> set rows. length (row_bytes r) \<le> 65535"
    "ms = sort_key merge_row_key es" "\<exists>xs. (resolve_merges (by_bytes rows) xs :: ('e, merge_row list) outcome) = Ok es"
    "Option.bind (gg_kv g (str ''tokenizer.ggml.eos_token_id'')) as_u32 = Some eos"
    "bos = eos \<or> Option.bind (gg_kv g (str ''tokenizer.ggml.bos_token_id'')) as_u32 = Some bos"
proof -
  from assms obtain rows merges bos eos where
      blob: "(build_blob rows merges bos eos f :: ('e, built_tokenizer) outcome) = Ok bt"
    and e: "Option.bind (gg_kv g (str ''tokenizer.ggml.eos_token_id'')) as_u32 = Some eos"
    and bo: "bos = (case Option.bind (gg_kv g (str ''tokenizer.ggml.bos_token_id'')) as_u32 of Some t \<Rightarrow> t | None \<Rightarrow> eos)"
    unfolding build_def Let_def kv_index_def obind_Ok_iff expect_Ok_iff
    by (auto simp only: obind_Ok_iff expect_Ok_iff bind.bind_lunit simp_thms outcome.simps option.inject split: if_splits) blast
  then obtain byte_ids es t slots table pool where
      bi: "(map_outcome (\<lambda>b. expect (by_bytes rows [of_nat b])) [0..<256] :: ('e, u32 list) outcome) = Ok byte_ids"
    and es: "(resolve_merges (by_bytes rows) (enumerate 0 merges) :: ('e, merge_row list) outcome) = Ok es"
    and sl: "(family_slots (raw_by_literal rows) f :: ('e, u32 \<times> u32 list) outcome) = Ok (t, slots)"
    and vt: "(vocab_table rows [] [] :: ('e, bytes \<times> bytes) outcome) = Ok (table, pool)"
    and bt: "bt = \<lparr>bt_blob = nrtk_blob t (length rows) (length (sort_key merge_row_key es)) (bos # eos # slots) byte_ids table
          (concat (map merge_row_bytes (sort_key merge_row_key es))) pool,
        bt_vocab = length rows, bt_merges = length (sort_key merge_row_key es)\<rparr>"
    unfolding build_blob_def Let_def obind_Ok_iff by (auto simp only: obind_Ok_iff prod.case outcome.inject)
  note v = vocab_table_Ok [OF vt]
  have tb: "table = rows_table rows" "pool = concat (map row_bytes rows)"
    using v by (simp_all add: rows_table_def)
  have "by_bytes rows [of_nat b] = Some (byte_ids ! b)" if "b < 256" for b
    using map_outcome_Ok [OF bi] that by (auto simp: expect_Ok_iff)
  then show ?thesis
    using that [of t rows "sort_key merge_row_key es" bos eos slots byte_ids es] tb v family_slots_Ok [OF sl] es e
      map_outcome_Ok [OF bi] bo
    unfolding bt by (simp split: option.splits) blast+
qed

lemma built_tokenizer_ok:
  assumes b: "(build g f :: ('e, built_tokenizer) outcome) = Ok bt" and small: "length (bt_blob bt) < 2 ^ 32"
    and be: "bos_eos_in_vocab g (bt_vocab bt)"
  shows "\<exists>tk. tokenizer_parse (bt_blob bt) = Ok tk \<and> tok_ok tk \<and> lossless tk \<and> plain tk"
proof -
  obtain t bos eos slots byte_ids rows ms es where
    bt: "bt_blob bt = nrtk_blob t (length rows) (length ms) (bos # eos # slots) byte_ids (rows_table rows)
      (concat (map merge_row_bytes ms)) (concat (map row_bytes rows))"
    and vo: "bt_vocab bt = length rows" and t: "t = 1 \<or> t = 2 \<or> t = 3" and sl: "length slots = 4"
    and slv: "\<forall>s \<in> set slots. \<exists>x. raw_by_literal rows x = Some s" and bl: "length byte_ids = 256"
    and bb: "\<forall>b < 256. by_bytes rows [of_nat b] = Some (byte_ids ! b)" and rl: "\<forall>r \<in> set rows. length (row_bytes r) \<le> 65535"
    and ms: "ms = sort_key merge_row_key es" and es: "\<exists>xs. (resolve_merges (by_bytes rows) xs :: ('e, merge_row list) outcome) = Ok es"
    and eos: "Option.bind (gg_kv g (str ''tokenizer.ggml.eos_token_id'')) as_u32 = Some eos"
    and bos: "bos = eos \<or> Option.bind (gg_kv g (str ''tokenizer.ggml.bos_token_id'')) as_u32 = Some bos"
    by (rule build_Ok [OF b])
  define tk where "tk = built_tk t (bos # eos # slots) byte_ids rows ms"
  have ml: "length (concat (map merge_row_bytes ms)) = length ms * 16" by (rule length_concat_fixed) simp
  have rs: "rows_small rows" "length ms < 2 ^ 32"
    using small ml rl by (simp_all add: bt nrtk_blob_def rows_small_def)
  have ids: "\<forall>s \<in> set (bos # eos # slots). unat s < length rows"
  proof -
    have "unat eos < length rows" "unat bos < length rows"
      using be eos bos by (auto simp: bos_eos_in_vocab_def vo)
    moreover have "unat s < length rows" if "s \<in> set slots" for s
    proof -
      obtain x where "raw_by_literal rows x = Some s" using slv \<open>s \<in> set slots\<close> by blast
      from raw_by_literal_Some [OF this] obtain i where "i < length rows" "s = of_nat i" by blast
      then show ?thesis using rs(1) by (simp add: rows_small_def unat_of_nat_less)
    qed
    ultimately show ?thesis by simp
  qed
  have p: "tokenizer_parse (bt_blob bt) = Ok tk"
    unfolding bt tk_def using t sl bl rs ids by (intro parse_built) simp_all
  then have ok: "tok_ok tk" by (rule tokenizer_parse_ok)
  have look: "tbytes tk i = bs \<and> \<not> control tk i" if "by_bytes rows bs = Some i" for bs i
    using by_bytes_Some [OF that] built_lookup [OF rs(1) _ tk_def] by auto
  have byte: "by_bytes rows [b] = Some (byte_id tk b)" for b
    using bb [rule_format, of "unat b"] unsigned_less [of b] by (simp add: tk_def built_byte_id [OF bl])
  have merge: "\<exists>x y. by_bytes rows x = Some a \<and> by_bytes rows y = Some c \<and> by_bytes rows (x @ y) = Some res"
    if "merge_of tk a c = Some (res, rank)" for a c res rank
  proof -
    have "(a, c, res, rank) \<in> set es" using built_merge_sound ok that ms unfolding tk_def by fastforce
    with es resolve_merges_sound show ?thesis by metis
  qed
  have "lossless tk"
    unfolding lossless_def
  proof (intro conjI allI impI)
    show "tbytes tk (byte_id tk b) = [b]" for b using look byte by blast
    fix a c res rank
    assume "merge_of tk a c = Some (res, rank)"
    then obtain x y where "by_bytes rows x = Some a" "by_bytes rows y = Some c" "by_bytes rows (x @ y) = Some res"
      using merge by blast
    then show "tbytes tk res = tbytes tk a @ tbytes tk c" using look by simp
  qed
  moreover have "plain tk"
    unfolding plain_def using look byte merge by blast
  ultimately show ?thesis using p ok by blast
qed

text \<open>C13: The converter's tokenizer is lossless: whatever vocabulary and merges a GGUF file carries, if
  the builder makes a blob of them (under 4 GiB, with its begin and end ids in the vocabulary), the
  runtime accepts that blob, and every text encodes to tokens whose bytes, in order, are exactly the
  UTF-8 of the text.\<close>

theorem built_tokenizer_roundtrips:
  assumes "(build g f :: (unit, built_tokenizer) outcome) = Ok bt" and "length (bt_blob bt) < 2 ^ 32"
    and "bos_eos_in_vocab g (bt_vocab bt)" and "class_ok cls" and "\<forall>c \<in> set text. scalar c"
  shows "\<exists>tk ids. tokenizer_parse (bt_blob bt) = Ok tk \<and> encode_text cls tk text [] = Ok ids
    \<and> detok tk ids = utf8 text"
proof -
  obtain tk where tk: "tokenizer_parse (bt_blob bt) = Ok tk" "tok_ok tk" "lossless tk" "plain tk"
    using built_tokenizer_ok [OF assms(1-3)] by blast
  with encode_text_ok [OF tk(2) assms(4,5)] show ?thesis by auto
qed

text \<open>C14: Text cannot forge a turn: in a prompt built for any role and any message content, the control
  tokens are exactly those the chat template itself puts around the message, in the template's
  order; neither the role name nor the content contributes one, whatever they spell.\<close>

theorem content_cannot_forge_control:
  assumes "(build g f :: (unit, built_tokenizer) outcome) = Ok bt" and "length (bt_blob bt) < 2 ^ 32"
    and "bos_eos_in_vocab g (bt_vocab bt)" and "class_ok cls"
    and "\<forall>c \<in> set role. scalar c" and "\<forall>c \<in> set content. scalar c"
  shows "\<exists>tk ids. tokenizer_parse (bt_blob bt) = Ok tk \<and> encode_message cls tk role content out = Ok (out @ ids)
    \<and> filter (control tk) ids = filter (control tk) (frame tk)"
proof -
  obtain tk where tk: "tokenizer_parse (bt_blob bt) = Ok tk" "tok_ok tk" "lossless tk" "plain tk"
    using built_tokenizer_ok [OF assms(1-3)] by blast
  with encode_message_frame [OF tk(2) assms(4) tk(4) assms(5,6)] show ?thesis by blast
qed

subsection \<open>A concrete vocabulary\<close>

text \<open>The byte alphabet is complete and unambiguous: every byte has a character of its own.\<close>

lemma u2b_fold:
  "foldl u2b_step (bs, cs, n) xs = (bs', cs', n') \<Longrightarrow> distinct bs \<Longrightarrow>
     \<exists>ys. bs' = bs @ ys \<and> cs' = cs @ [256 + n..<256 + n + length ys] \<and> distinct bs' \<and> set bs' = set bs \<union> set xs"
proof (induction xs arbitrary: bs cs n)
  case (Cons x xs)
  show ?case
  proof (cases "x \<in> set bs")
    case True
    with Cons show ?thesis by (auto simp: u2b_step_def insert_absorb)
  next
    case False
    then have "foldl u2b_step (bs @ [x], cs @ [256 + n], n + 1) xs = (bs', cs', n')" "distinct (bs @ [x])"
      using Cons.prems by (simp_all add: u2b_step_def [of "(bs, cs, n)"])
    from Cons.IH [OF this] obtain ys where "bs' = (bs @ [x]) @ ys"
        "cs' = (cs @ [256 + n]) @ [256 + (n + 1)..<256 + (n + 1) + length ys]" "distinct bs'" "set bs' = set (bs @ [x]) \<union> set xs"
      by blast
    then show ?thesis by (intro exI [of _ "x # ys"]) (simp add: upt_conv_Cons add.assoc)
  qed
qed simp

lemma u2b_pairs_props:
  shows "distinct (map fst u2b_pairs)" and "length u2b_pairs = 256" and "\<exists>c. (c, b) \<in> set u2b_pairs"
proof -
  obtain bs cs n where f: "foldl u2b_step (printable, printable, 0) [0..<256] = (bs, cs, n)" by (metis prod_cases3)
  have dp: "distinct printable" "set printable \<subseteq> {0..<256}" by (auto simp: printable_def)
  obtain ys where ys: "bs = printable @ ys" "cs = printable @ [256..<256 + length ys]" "distinct bs"
      "set bs = set printable \<union> {0..<256}"
    using u2b_fold [OF f dp(1)] by auto
  have sb: "set bs = {0..<256}" using ys(4) dp(2) by blast
  have l: "length bs = 256" using distinct_card [OF ys(3)] sb by simp
  have lc: "length cs = 256" using l ys(1,2) by simp
  have p: "u2b_pairs = zip cs (map of_nat bs)" by (simp add: u2b_pairs_def f)
  have "distinct cs" using ys(2) dp by auto
  then show "distinct (map fst u2b_pairs)" by (simp add: p l lc)
  show "length u2b_pairs = 256" by (simp add: p l lc)
  have "unat b \<in> set bs" using sb unsigned_less [of b] by simp
  then obtain i where i: "i < 256" "bs ! i = unat b" using l by (auto simp: in_set_conv_nth)
  then have "(cs ! i, b) \<in> set u2b_pairs" unfolding p using l lc by (auto simp: set_zip intro!: exI [of _ i])
  then show "\<exists>c. (c, b) \<in> set u2b_pairs" ..
qed

lemma unicode_to_byte_pairs: "(c, b) \<in> set u2b_pairs \<Longrightarrow> unicode_to_byte c = Some b"
  using u2b_pairs_props(1) by (simp add: unicode_to_byte_def rev_map [symmetric])

lemma str_inj [simp]: "str a = str b \<longleftrightarrow> a = b"
proof
  assume "str a = str b"
  then have "map (of_char :: char \<Rightarrow> nat) a = map of_char b" by (simp add: str_def)
  from map_injective [OF this] show "a = b" by (simp add: inj_def)
qed simp

subsection \<open>When a build succeeds\<close>

lemma by_bytes_fold_complete:
  "m bs \<noteq> None \<or> (\<exists>i < length rows. row_bytes (rows ! i) = bs \<and> row_flags (rows ! i) AND FLAG_CONTROL = 0) \<Longrightarrow>
     foldl by_bytes_step m (enumerate n rows) bs \<noteq> None"
proof (induction rows arbitrary: m n)
  case (Cons r rows)
  have "by_bytes_step m (n, r) bs \<noteq> None \<or>
      (\<exists>i < length rows. row_bytes (rows ! i) = bs \<and> row_flags (rows ! i) AND FLAG_CONTROL = 0)"
    using Cons.prems
  proof (elim disjE exE conjE)
    assume "m bs \<noteq> None"
    then show ?thesis by (cases r) (auto simp: by_bytes_step_def split: option.splits)
  next
    fix i
    assume i: "i < length (r # rows)" "row_bytes ((r # rows) ! i) = bs" "row_flags ((r # rows) ! i) AND FLAG_CONTROL = 0"
    show ?thesis
    proof (cases i)
      case 0
      with i show ?thesis by (cases r) (auto simp: by_bytes_step_def row_bytes_def row_flags_def split: option.splits)
    next
      case (Suc j)
      with i show ?thesis by auto
    qed
  qed
  from Cons.IH [where m = "by_bytes_step m (n, r)" and n = "Suc n", OF this] show ?case by simp
qed simp

lemma by_bytes_complete:
  "r \<in> set rows \<Longrightarrow> row_flags r AND FLAG_CONTROL = 0 \<Longrightarrow> \<exists>t. by_bytes rows (row_bytes r) = Some t"
  using by_bytes_fold_complete [of Map.empty "row_bytes r" rows 0] by (auto simp: by_bytes_def in_set_conv_nth)

lemma raw_by_literal_fold_complete:
  "m x \<noteq> None \<or> x \<in> fst ` set rows \<Longrightarrow>
     foldl (\<lambda>m (i, (s, bs, fl)). m(s \<mapsto> (of_nat i :: u32))) m (enumerate n rows) x \<noteq> None"
proof (induction rows arbitrary: m n)
  case (Cons r rows)
  obtain s bs fl where r: "r = (s, bs, fl)" by (cases r) auto
  have "(m(s \<mapsto> (of_nat n :: u32))) x \<noteq> None \<or> x \<in> fst ` set rows" using Cons.prems by (auto simp: r)
  from Cons.IH [where m = "m(s \<mapsto> (of_nat n :: u32))" and n = "Suc n", OF this] show ?case by (simp add: r)
qed simp

lemma raw_by_literal_complete: "r \<in> set rows \<Longrightarrow> \<exists>t. raw_by_literal rows (fst r) = Some t"
  using raw_by_literal_fold_complete [of Map.empty "fst r" rows 0] by (auto simp: raw_by_literal_def)

lemma resolve_merges_total:
  "\<forall>e \<in> set es. \<exists>s. as_str (snd e) = Some s \<and> 32 \<in> set s \<Longrightarrow>
     \<exists>ms. (resolve_merges bb es :: ('e, merge_row list) outcome) = Ok ms \<and> length ms \<le> length es"
proof (induction es)
  case (Cons e es)
  obtain k m where e: "e = (k, m)" by (cases e) auto
  from Cons obtain ms where ms: "(resolve_merges bb es :: ('e, merge_row list) outcome) = Ok ms" "length ms \<le> length es" by auto
  from Cons.prems obtain s where s: "as_str m = Some s" "32 \<in> set s" by (auto simp: e)
  then obtain a b where ab: "split_once_space s = Some (a, b)" by (simp add: split_once_space_def)
  show ?case
    using ms by (simp add: e s ab Let_def split: option.splits)
qed simp

lemma vocab_table_total:
  "\<forall>r \<in> set rows. length (row_bytes r) \<le> 65535 \<Longrightarrow> \<exists>t p. (vocab_table rows table pool :: ('e, bytes \<times> bytes) outcome) = Ok (t, p)"
proof (induction rows arbitrary: table pool)
  case (Cons r rows)
  then show ?case by (cases r) (simp add: row_bytes_def)
qed simp

lemma length_concat_le: "\<forall>x \<in> set xs. length (f x) \<le> k \<Longrightarrow> length (concat (map f xs)) \<le> length xs * k"
  by (induction xs) auto

lemma build_blob_total:
  assumes "\<And>b. \<exists>r \<in> set rows. row_bytes r = [b] \<and> row_flags r AND FLAG_CONTROL = 0"
    and "\<forall>m \<in> set merges. \<exists>s. as_str m = Some s \<and> 32 \<in> set s"
    and "\<forall>r \<in> set rows. length (row_bytes r) \<le> k" and "k \<le> 65535"
    and "\<exists>t slots. (family_slots (raw_by_literal rows) f :: ('e, u32 \<times> u32 list) outcome) = Ok (t, slots)"
  shows "\<exists>bt. (build_blob rows merges bos eos f :: ('e, built_tokenizer) outcome) = Ok bt \<and> bt_vocab bt = length rows
    \<and> length (bt_blob bt) \<le> 1072 + length rows * (8 + k) + length merges * 16"
proof -
  have "\<exists>t. by_bytes rows [of_nat b] = Some t" for b
    using assms(1) [of "of_nat b"] by_bytes_complete by fastforce
  then have "\<exists>ys. (map_outcome (\<lambda>b. expect (by_bytes rows [of_nat b])) [0..<256] :: ('e, u32 list) outcome) = Ok ys"
    by (intro map_outcome_total) (simp add: expect_Ok_iff)
  then obtain byte_ids where bi: "(map_outcome (\<lambda>b. expect (by_bytes rows [of_nat b])) [0..<256] :: ('e, u32 list) outcome) = Ok byte_ids" ..
  have "\<forall>e \<in> set (enumerate 0 merges). \<exists>s. as_str (snd e) = Some s \<and> 32 \<in> set s"
    using assms(2) by (auto simp: enumerate_eq_zip dest!: set_zip_rightD)
  from resolve_merges_total [OF this] obtain es where
    es: "(resolve_merges (by_bytes rows) (enumerate 0 merges) :: ('e, merge_row list) outcome) = Ok es" "length es \<le> length merges"
    by fastforce
  obtain t slots where sl: "(family_slots (raw_by_literal rows) f :: ('e, u32 \<times> u32 list) outcome) = Ok (t, slots)"
    using assms(5) by blast
  have "\<forall>r \<in> set rows. length (row_bytes r) \<le> 65535" using assms(3,4) by auto
  from vocab_table_total [OF this] obtain tb pl where vt: "(vocab_table rows [] [] :: ('e, bytes \<times> bytes) outcome) = Ok (tb, pl)"
    by blast
  note v = vocab_table_Ok [OF vt]
  have "length pl \<le> length rows * k" using v length_concat_le [OF assms(3)] by simp
  moreover have "length tb = length rows * 8" using v length_rows_table [of rows] by (simp add: rows_table_def)
  moreover have "length (concat (map (to_le 4) byte_ids)) = 1024"
    using map_outcome_Ok [OF bi] by (simp add: length_concat_fixed [where k = 4])
  moreover have "length (concat (map merge_row_bytes (sort_key merge_row_key es))) \<le> length merges * 16"
    using es(2) by (subst length_concat_fixed [where k = 16]) simp_all
  moreover have "length (concat (map (to_le 4) (bos # eos # slots))) = 24"
    using family_slots_Ok [OF sl] by (subst length_concat_fixed [where k = 4]) simp_all
  ultimately show ?thesis
    by (simp add: build_blob_def bi es sl vt nrtk_blob_def NRTK_MAGIC_def algebra_simps del: length_concat map_append)
qed

subsection \<open>A demonstration vocabulary\<close>

text \<open>All 256 byte tokens, the merge "a b", and the control tokens of the ChatML template.\<close>

definition demo_specials :: "rstr list" where
  "demo_specials = [str ''<|im_end|>'', str ''<|im_start|>'', str ''<|endoftext|>'']"

definition demo_vocab :: "rstr list" where
  "demo_vocab = map (\<lambda>p. [fst p]) u2b_pairs @ [[97, 98]] @ demo_specials"

definition demo_types :: "gvalue list" where
  "demo_types = replicate 257 (VI32 1) @ replicate 3 (VI32 3)"

definition demo_gguf :: gguf where
  "demo_gguf = \<lparr>gg_kv = map_of [(str ''tokenizer.ggml.model'', VStr (str ''gpt2'')),
      (str ''tokenizer.ggml.tokens'', VArr (map VStr demo_vocab)),
      (str ''tokenizer.ggml.token_type'', VArr demo_types),
      (str ''tokenizer.ggml.merges'', VArr [VStr [97, 32, 98]]),
      (str ''tokenizer.ggml.eos_token_id'', VU32 258)],
    gg_tensors = [], gg_data = []\<rparr>"

definition demo_rows :: "row list" where
  "demo_rows = vocab_rows (map token_type demo_types) demo_vocab"

lemma length_demo_vocab: "length demo_vocab = 260"
  by (simp add: demo_vocab_def demo_specials_def u2b_pairs_props(2))

lemma demo_control: "control_type (map token_type demo_types) i \<longleftrightarrow> 257 \<le> i \<and> i < 260"
  by (auto simp: control_type_def demo_types_def token_type_def nth_append TYPE_CONTROL_def TYPE_USER_DEFINED_def)

lemma demo_row:
  "i < 260 \<Longrightarrow> demo_rows ! i = (demo_vocab ! i, decode_token (257 \<le> i) (demo_vocab ! i), if 257 \<le> i then FLAG_CONTROL else 0)"
  by (simp add: demo_rows_def vocab_rows_def nth_enumerate_eq length_demo_vocab demo_control Let_def)

lemma length_demo_rows: "length demo_rows = 260"
  by (simp add: demo_rows_def vocab_rows_def length_demo_vocab)

lemma demo_byte_rows: "\<exists>r \<in> set demo_rows. row_bytes r = [b] \<and> row_flags r AND FLAG_CONTROL = 0"
proof -
  obtain c where "(c, b) \<in> set u2b_pairs" using u2b_pairs_props(3) by blast
  then obtain i where i: "i < 256" "u2b_pairs ! i = (c, b)" by (auto simp: in_set_conv_nth u2b_pairs_props(2))
  then have "demo_vocab ! i = [c]" by (simp add: demo_vocab_def nth_append u2b_pairs_props(2))
  moreover have "unicode_to_byte c = Some b" by (rule unicode_to_byte_pairs) fact
  ultimately have "demo_rows ! i = ([c], [b], 0)" using i(1) by (simp add: demo_row decode_token_def)
  then show ?thesis
    using i(1) nth_mem [of i demo_rows] by (intro bexI [of _ "demo_rows ! i"]) (simp_all add: row_bytes_def row_flags_def length_demo_rows)
qed

lemma length_decode_token: "length (decode_token ctl s) \<le> length s * 4"
proof -
  have "length (concat (map f s)) \<le> length s * 4" if "\<forall>c \<in> set s. length (f c) \<le> 4" for f :: "nat \<Rightarrow> bytes"
    using that by (rule length_concat_le)
  then show ?thesis by (auto simp: decode_token_def utf8_def split: option.splits)
qed

lemma demo_rows_short: "\<forall>r \<in> set demo_rows. length (row_bytes r) \<le> 60"
proof
  fix r
  assume "r \<in> set demo_rows"
  then obtain i where i: "i < 260" "r = demo_rows ! i" by (auto simp: in_set_conv_nth length_demo_rows)
  have "\<forall>s \<in> set demo_vocab. length s \<le> 15" by (auto simp: demo_vocab_def demo_specials_def str_def)
  then have "length (demo_vocab ! i) \<le> 15" using i(1) length_demo_vocab by simp
  with length_decode_token [of "257 \<le> i" "demo_vocab ! i"] show "length (row_bytes r) \<le> 60"
    by (simp add: i demo_row row_bytes_def)
qed

lemma demo_literals: "s \<in> set demo_specials \<Longrightarrow> \<exists>t. raw_by_literal demo_rows s = Some t"
proof -
  assume "s \<in> set demo_specials"
  then have "s \<in> set demo_vocab" by (simp add: demo_vocab_def)
  then obtain i where "i < 260" "s = demo_vocab ! i" by (auto simp: in_set_conv_nth length_demo_vocab)
  then have "fst (demo_rows ! i) = s" by (simp add: demo_row)
  moreover have "demo_rows ! i \<in> set demo_rows" by (rule nth_mem) (simp add: length_demo_rows \<open>i < 260\<close>)
  ultimately show ?thesis using raw_by_literal_complete by blast
qed

lemma demo_build:
  "\<exists>bt. (build demo_gguf FamQwen3 :: ('e, built_tokenizer) outcome) = Ok bt \<and> length (bt_blob bt) < 2 ^ 32
    \<and> bos_eos_in_vocab demo_gguf (bt_vocab bt)"
proof -
  have "\<exists>t slots. (family_slots (raw_by_literal demo_rows) FamQwen3 :: ('e, u32 \<times> u32 list) outcome) = Ok (t, slots)"
    using demo_literals [of "str ''<|im_end|>''"] demo_literals [of "str ''<|im_start|>''"] demo_literals [of "str ''<|endoftext|>''"]
    by (auto simp: family_slots_def demo_specials_def)
  from build_blob_total [OF demo_byte_rows _ demo_rows_short _ this, of "[VStr [97, 32, 98]]" 258 258]
  obtain bt where bt: "(build_blob demo_rows [VStr [97, 32, 98]] 258 258 FamQwen3 :: ('e, built_tokenizer) outcome) = Ok bt"
      "bt_vocab bt = 260" "length (bt_blob bt) \<le> 1072 + 260 * 68 + 16"
    by (auto simp: as_str_def length_demo_rows)
  have "(map_outcome (\<lambda>v. expect (as_str v)) (map VStr xs) :: ('e, rstr list) outcome) = Ok xs" for xs
    by (induction xs) (simp_all add: as_str_def)
  then have "(build demo_gguf FamQwen3 :: ('e, built_tokenizer) outcome) = build_blob demo_rows [VStr [97, 32, 98]] 258 258 FamQwen3"
    by (simp add: build_def kv_index_def demo_gguf_def as_arr_def as_u32_def as_str_def demo_rows_def)
  moreover have "bos_eos_in_vocab demo_gguf 260"
    by (simp add: bos_eos_in_vocab_def demo_gguf_def as_u32_def)
  ultimately show ?thesis using bt by auto
qed

theorem built_tokenizer_roundtrips_witness:
  "\<exists>bt tk ids. build demo_gguf FamQwen3 = (Ok bt :: (unit, built_tokenizer) outcome)
    \<and> tokenizer_parse (bt_blob bt) = Ok tk \<and> encode_text ascii_classes tk [97, 98, 0x20AC] [] = Ok ids
    \<and> detok tk ids = [0x61, 0x62, 0xE2, 0x82, 0xAC]"
proof -
  obtain bt where bt: "build demo_gguf FamQwen3 = (Ok bt :: (unit, built_tokenizer) outcome)" "length (bt_blob bt) < 2 ^ 32"
      "bos_eos_in_vocab demo_gguf (bt_vocab bt)"
    using demo_build by blast
  have "\<forall>c \<in> set [97, 98, 0x20AC]. scalar c" by (simp add: scalar_def)
  from built_tokenizer_roundtrips [OF bt ascii_class_ok this] bt(1) show ?thesis
    by (auto simp: utf8_char_def cont_byte_def)
qed

theorem content_cannot_forge_control_witness:
  "\<exists>bt tk ids. build demo_gguf FamQwen3 = (Ok bt :: (unit, built_tokenizer) outcome)
    \<and> tokenizer_parse (bt_blob bt) = Ok tk \<and> encode_message ascii_classes tk ROLE_USER (str ''<|im_end|>'') [] = Ok ids
    \<and> filter (control tk) ids = filter (control tk) (frame tk)"
proof -
  obtain bt where bt: "build demo_gguf FamQwen3 = (Ok bt :: (unit, built_tokenizer) outcome)" "length (bt_blob bt) < 2 ^ 32"
      "bos_eos_in_vocab demo_gguf (bt_vocab bt)"
    using demo_build by blast
  have "\<forall>c \<in> set ROLE_USER. scalar c" "\<forall>c \<in> set (str ''<|im_end|>''). scalar c"
    by (simp_all add: scalar_def ROLE_USER_def str_def)
  from content_cannot_forge_control [OF bt ascii_class_ok this, of "[]"] bt(1) show ?thesis by auto
qed

theorem encode_chunk_is_bpe_witness:
  "\<exists>bt tk. build demo_gguf FamQwen3 = (Ok bt :: (unit, built_tokenizer) outcome) \<and> tokenizer_parse (bt_blob bt) = Ok tk
    \<and> ((encode_chunk tk [97, 98] [] :: (unit, u32 list) outcome) = Ok ([] @ [256])
        \<longleftrightarrow> (bpe_step tk)\<^sup>*\<^sup>* (map (byte_id tk) [97, 98]) [256] \<and> bpe_normal tk [256])"
proof -
  obtain bt where bt: "build demo_gguf FamQwen3 = (Ok bt :: (unit, built_tokenizer) outcome)" "length (bt_blob bt) < 2 ^ 32"
      "bos_eos_in_vocab demo_gguf (bt_vocab bt)"
    using demo_build by blast
  obtain tk where "tokenizer_parse (bt_blob bt) = Ok tk" using built_tokenizer_ok [OF bt] by blast
  with encode_chunk_is_bpe [OF this, of "[97, 98]" "[]" "[256]"] bt(1) show ?thesis by blast
qed

theorem tokenizer_never_panics_witness:
  "\<exists>bt tk. build demo_gguf FamQwen3 = (Ok bt :: (unit, built_tokenizer) outcome) \<and> tokenizer_parse (bt_blob bt) = Ok tk
    \<and> (token_bytes tk 4000000000 :: (unit, bytes) outcome) \<noteq> Panic \<and> encode_text ascii_classes tk [97, 98] [] \<noteq> Panic"
proof -
  obtain bt where bt: "build demo_gguf FamQwen3 = (Ok bt :: (unit, built_tokenizer) outcome)" "length (bt_blob bt) < 2 ^ 32"
      "bos_eos_in_vocab demo_gguf (bt_vocab bt)"
    using demo_build by blast
  obtain tk where tk: "tokenizer_parse (bt_blob bt) = Ok tk" using built_tokenizer_ok [OF bt] by blast
  have "\<forall>c \<in> set [97, 98]. scalar c" by (simp add: scalar_def)
  from tokenizer_never_panics [OF ascii_class_ok this, of "bt_blob bt" tk 0 4000000000 0 "[]"] bt(1) tk show ?thesis by blast
qed

end
