(* ===== verification/Nr_Float.thy ===== *)
theory Nr_Float
  imports Nr_Blocks
begin

text \<open>
  The numeric layer of \<^verbatim>\<open>crates/nr-tensor/src\<close>: half-precision conversion (\<^verbatim>\<open>f16.rs\<close>), the vector
  operations (\<^verbatim>\<open>vec.rs\<close>), rotary embeddings (\<^verbatim>\<open>rope.rs\<close>) and Q8_0 quantization (\<^verbatim>\<open>q8.rs\<close>). An \<open>f32\<close>
  is its bit pattern; comparison, sign and conversion work on the bits, while the rounded arithmetic of
  the processor and the functions of \<open>libm\<close> are the record \<open>fpu\<close>: every statement below holds whatever
  they compute.
\<close>

subsection \<open>Floating point\<close>

type_synonym f32 = u32
type_synonym f16 = u16

record fpu =
  fadd :: "f32 \<Rightarrow> f32 \<Rightarrow> f32"
  fsub :: "f32 \<Rightarrow> f32 \<Rightarrow> f32"
  fmul :: "f32 \<Rightarrow> f32 \<Rightarrow> f32"
  fdiv :: "f32 \<Rightarrow> f32 \<Rightarrow> f32"
  ffma :: "f32 \<Rightarrow> f32 \<Rightarrow> f32 \<Rightarrow> f32"
  f_of_int :: "int \<Rightarrow> f32"
  f_to_i32 :: "f32 \<Rightarrow> int"
  f_sqrt :: "f32 \<Rightarrow> f32"
  f_exp :: "f32 \<Rightarrow> f32"
  f_pow :: "f32 \<Rightarrow> f32 \<Rightarrow> f32"
  f_sin :: "f32 \<Rightarrow> f32"
  f_cos :: "f32 \<Rightarrow> f32"

definition F_ZERO :: f32 where "F_ZERO = 0"
definition F_HALF :: f32 where "F_HALF = 0x3f000000"
definition F_ONE :: f32 where "F_ONE = 0x3f800000"
definition F_TWO :: f32 where "F_TWO = 0x40000000"
definition F_127 :: f32 where "F_127 = 0x42fe0000"
definition F_NEG_128 :: f32 where "F_NEG_128 = 0xc3000000"
definition F_PI :: f32 where "F_PI = 0x40490fdb"
definition F_NEG_INFINITY :: f32 where "F_NEG_INFINITY = 0xff800000"

definition f_abs :: "f32 \<Rightarrow> f32" where "f_abs x = x AND 0x7fffffff"
definition f_neg :: "f32 \<Rightarrow> f32" where "f_neg x = x XOR 0x80000000"
definition f_nan :: "f32 \<Rightarrow> bool" where "f_nan x \<longleftrightarrow> x AND 0x7fffffff > 0x7f800000"

definition f_key :: "f32 \<Rightarrow> int" where
  "f_key x = (if x < 0x80000000 then uint x else - uint (f_abs x))"

definition f_lt :: "f32 \<Rightarrow> f32 \<Rightarrow> bool" where
  "f_lt a b \<longleftrightarrow> \<not> f_nan a \<and> \<not> f_nan b \<and> f_key a < f_key b"

definition f_le :: "f32 \<Rightarrow> f32 \<Rightarrow> bool" where
  "f_le a b \<longleftrightarrow> \<not> f_nan a \<and> \<not> f_nan b \<and> f_key a \<le> f_key b"

definition f_eq :: "f32 \<Rightarrow> f32 \<Rightarrow> bool" where
  "f_eq a b \<longleftrightarrow> \<not> f_nan a \<and> \<not> f_nan b \<and> f_key a = f_key b"

definition f_max :: "f32 \<Rightarrow> f32 \<Rightarrow> f32" where
  "f_max a b = (if f_nan a then b else if f_nan b then a else if f_lt a b then b else a)"

subsection \<open>Half precision\<close>

text \<open>\<open>31 - leading_zeros\<close> of a non-zero ten-bit fraction: the index of its highest set bit.\<close>

fun msb_index :: "nat \<Rightarrow> u32 \<Rightarrow> nat" where
  "msb_index 0 x = 0"
| "msb_index (Suc n) x = (if bit x (Suc n) then Suc n else msb_index n x)"

definition f16_to_f32 :: "f16 \<Rightarrow> f32" where
  "f16_to_f32 bits =
     (let sign = push_bit 31 (ucast (drop_bit 15 bits)) :: u32;
          exp = ucast (drop_bit 10 bits AND 0x1f) :: u32;
          frac = ucast (bits AND 0x3ff) :: u32 in
      if exp = 0 then
        (if frac = 0 then sign
         else let msb = msb_index 31 frac;
                  e = 127 - 24 + of_nat msb;
                  f = push_bit (23 - msb) frac AND 0x7fffff
              in sign OR push_bit 23 e OR f)
      else if exp = 0x1f then sign OR 0x7f800000 OR push_bit 13 frac
      else sign OR push_bit 23 (exp + 127 - 15) OR push_bit 13 frac)"

definition f32_to_f16 :: "f32 \<Rightarrow> f16" where
  "f32_to_f16 bits =
     (let sign = push_bit 15 (ucast (drop_bit 31 bits)) :: u16;
          exp = uint (drop_bit 23 bits AND 0xff);
          frac = bits AND 0x7fffff;
          e = exp - 127 + 15 in
      if exp = 0xff then sign OR 0x7c00 OR (if frac \<noteq> 0 then 0x200 else 0)
      else if e \<ge> 0x1f then sign OR 0x7c00
      else if e \<le> 0 then
        (if e < - 10 then sign
         else let frac = frac OR 0x800000; shift = nat (14 - e); half = push_bit (shift - 1) 1
              in sign OR ucast (drop_bit shift (frac + half)))
      else let out = ucast sign OR push_bit 10 (of_int e) OR drop_bit 13 frac;
               round = frac AND 0x1fff
           in if round > 0x1000 \<or> round = 0x1000 \<and> out AND 1 \<noteq> 0 then ucast (out + 1) else ucast out)"

subsection \<open>Vector operations\<close>

text \<open>\<open>for (v, &w) in xs.iter_mut().zip(ws) { *v = f(v, w) }\<close>: the rest of \<open>xs\<close> stays.\<close>

definition zip_update :: "('a \<Rightarrow> 'b \<Rightarrow> 'a) \<Rightarrow> 'a list \<Rightarrow> 'b list \<Rightarrow> 'a list" where
  "zip_update f xs ws = map (\<lambda>(v, w). f v w) (zip xs ws) @ drop (length ws) xs"

definition sum_squares :: "'z fpu_scheme \<Rightarrow> f32 list \<Rightarrow> f32" where
  "sum_squares F x = foldl (\<lambda>ss v. fadd F ss (fmul F v v)) F_ZERO x"

definition rms_scale :: "'z fpu_scheme \<Rightarrow> f32 list \<Rightarrow> f32 \<Rightarrow> f32" where
  "rms_scale F x eps =
     fdiv F F_ONE (f_sqrt F (fadd F (fdiv F (sum_squares F x) (f_of_int F (int (length x)))) eps))"

definition rmsnorm :: "'z fpu_scheme \<Rightarrow> f32 list \<Rightarrow> f32 list \<Rightarrow> f32 list \<Rightarrow> f32 \<Rightarrow> ('e, f32 list) outcome" where
  "rmsnorm F out x weight eps =
     (let scale = rms_scale F x eps in
      ofold (\<lambda>out i. obind (index x i) (\<lambda>xi. obind (index weight i) (\<lambda>wi.
        set_at out i (fmul F (fmul F xi scale) wi)))) out [0..<length x])"

definition rmsnorm_inplace :: "'z fpu_scheme \<Rightarrow> f32 list \<Rightarrow> f32 list \<Rightarrow> f32 \<Rightarrow> f32 list" where
  "rmsnorm_inplace F x weight eps =
     (let scale = rms_scale F x eps in zip_update (\<lambda>v w. fmul F v (fmul F scale w)) x weight)"

definition softmax :: "'z fpu_scheme \<Rightarrow> f32 list \<Rightarrow> f32 list" where
  "softmax F x =
     (let mx = foldl f_max F_NEG_INFINITY x;
          es = map (\<lambda>v. f_exp F (fsub F v mx)) x;
          s = foldl (fadd F) F_ZERO es;
          recip = fdiv F F_ONE s
      in map (\<lambda>v. fmul F v recip) es)"

definition swiglu :: "'z fpu_scheme \<Rightarrow> f32 list \<Rightarrow> f32 list \<Rightarrow> f32 list" where
  "swiglu F gate up =
     zip_update (\<lambda>x u. fmul F (fdiv F x (fadd F F_ONE (f_exp F (f_neg x)))) u) gate up"

definition dot :: "'z fpu_scheme \<Rightarrow> f32 list \<Rightarrow> f32 list \<Rightarrow> f32" where
  "dot F a b = foldl (\<lambda>s (x, y). fadd F s (fmul F x y)) F_ZERO (zip a b)"

definition scale_inplace :: "'z fpu_scheme \<Rightarrow> f32 list \<Rightarrow> f32 \<Rightarrow> f32 list" where
  "scale_inplace F x s = map (\<lambda>v. fmul F v s) x"

definition saxpy :: "'z fpu_scheme \<Rightarrow> f32 list \<Rightarrow> f32 \<Rightarrow> f32 list \<Rightarrow> f32 list" where
  "saxpy F y a x = zip_update (\<lambda>yv xv. fadd F yv (fmul F a xv)) y x"

definition add_assign :: "'z fpu_scheme \<Rightarrow> f32 list \<Rightarrow> f32 list \<Rightarrow> f32 list" where
  "add_assign F y x = zip_update (fadd F) y x"

definition argmax :: "f32 list \<Rightarrow> nat" where
  "argmax x = fst (foldl (\<lambda>(best, bv) (i, v). if f_lt bv v then (i, v) else (best, bv))
     (0, F_NEG_INFINITY) (enumerate 0 x))"

subsection \<open>Rotary embeddings\<close>

record llama3_scaling =
  ls_factor :: f32
  ls_low :: f32
  ls_high :: f32
  ls_orig :: f32

definition rope_freq :: "'z fpu_scheme \<Rightarrow> nat \<Rightarrow> f32 \<Rightarrow> llama3_scaling option \<Rightarrow> nat \<Rightarrow> f32" where
  "rope_freq F head_dim theta scaling i =
     (let exponent = fdiv F (fmul F (f_neg F_TWO) (f_of_int F (int i))) (f_of_int F (int head_dim));
          freq = f_pow F theta exponent in
      case scaling of None \<Rightarrow> freq
      | Some s \<Rightarrow>
          let wavelen = fdiv F (fmul F F_TWO F_PI) freq;
              low = fdiv F (ls_orig s) (ls_low s);
              high = fdiv F (ls_orig s) (ls_high s) in
          if f_lt low wavelen then fdiv F freq (ls_factor s)
          else if f_lt high wavelen then
            let smooth = fdiv F (fsub F (fdiv F (ls_orig s) wavelen) (ls_low s)) (fsub F (ls_high s) (ls_low s))
            in fadd F (fdiv F (fmul F (fsub F F_ONE smooth) freq) (ls_factor s)) (fmul F smooth freq)
          else freq)"

definition rope_freqs :: "'z fpu_scheme \<Rightarrow> f32 list \<Rightarrow> nat \<Rightarrow> f32 \<Rightarrow> llama3_scaling option \<Rightarrow> ('e, f32 list) outcome" where
  "rope_freqs F out head_dim theta scaling =
     obind (assert (length out = head_dim div 2)) (\<lambda>_.
     Ok (map (rope_freq F head_dim theta scaling) [0..<length out]))"

datatype rope_style = Adjacent | Neox

definition rotate_pair :: "'z fpu_scheme \<Rightarrow> nat \<Rightarrow> f32 list \<Rightarrow> nat \<Rightarrow> rope_style \<Rightarrow> f32 list \<Rightarrow> nat \<Rightarrow> ('e, f32 list) outcome" where
  "rotate_pair F half freqs pos style head i =
     obind (index freqs i) (\<lambda>fr.
     let angle = fmul F (f_of_int F (int pos)) fr; s = f_sin F angle; c = f_cos F angle;
         (ia, ib) = (case style of Adjacent \<Rightarrow> (2 * i, 2 * i + 1) | Neox \<Rightarrow> (i, i + half)) in
     obind (index head ia) (\<lambda>a. obind (index head ib) (\<lambda>b.
     obind (set_at head ia (fsub F (fmul F a c) (fmul F b s))) (\<lambda>head.
     set_at head ib (fadd F (fmul F a s) (fmul F b c))))))"

definition rotate_head :: "'z fpu_scheme \<Rightarrow> nat \<Rightarrow> f32 list \<Rightarrow> nat \<Rightarrow> rope_style \<Rightarrow> f32 list \<Rightarrow> ('e, f32 list) outcome" where
  "rotate_head F head_dim freqs pos style head =
     ofold (rotate_pair F (head_dim div 2) freqs pos style) head [0..<head_dim div 2]"

text \<open>\<open>chunks_exact_mut(n)\<close> with a body on each chunk; the remainder is left alone.\<close>

fun each_chunk :: "('a list \<Rightarrow> ('e, 'a list) outcome) \<Rightarrow> 'a list list \<Rightarrow> ('e, 'a list) outcome" where
  "each_chunk f [] = Ok []"
| "each_chunk f (c # cs) = obind (f c) (\<lambda>c'. obind (each_chunk f cs) (\<lambda>r. Ok (c' @ r)))"

definition for_chunks_exact :: "nat \<Rightarrow> ('a list \<Rightarrow> ('e, 'a list) outcome) \<Rightarrow> 'a list \<Rightarrow> ('e, 'a list) outcome" where
  "for_chunks_exact n f xs =
     (if n = 0 then Panic else obind (each_chunk f (chunks_exact n xs)) (\<lambda>ys. Ok (ys @ chunks_rem n xs)))"

definition rope_apply :: "'z fpu_scheme \<Rightarrow> f32 list \<Rightarrow> nat \<Rightarrow> f32 list \<Rightarrow> nat \<Rightarrow> rope_style \<Rightarrow> ('e, f32 list) outcome" where
  "rope_apply F x head_dim freqs pos style = for_chunks_exact head_dim (rotate_head F head_dim freqs pos style) x"

subsection \<open>Q8_0\<close>

definition q8_scale :: "block_q8_0 \<Rightarrow> f32" where
  "q8_scale b = f16_to_f32 (q8_d b)"

definition i8 :: "byte \<Rightarrow> int" where "i8 b = sint b"

definition quantize_q8_value :: "'z fpu_scheme \<Rightarrow> f32 \<Rightarrow> f32 \<Rightarrow> byte" where
  "quantize_q8_value F recip v =
     (let x = fmul F v recip;
          r = (if f_le F_ZERO x then fadd F x F_HALF else fsub F x F_HALF)
      in of_int (max (- 127) (min 127 (f_to_i32 F r))))"

definition quantize_q8_block :: "'z fpu_scheme \<Rightarrow> f32 list \<Rightarrow> block_q8_0" where
  "quantize_q8_block F chunk =
     (let amax = foldl (\<lambda>m v. f_max m (f_abs v)) F_ZERO chunk;
          d_bits = f32_to_f16 (fdiv F amax F_127);
          d = f16_to_f32 d_bits;
          recip = (if f_lt F_ZERO d then fdiv F F_ONE d else F_ZERO)
      in \<lparr>q8_d = d_bits, q8_qs = map (quantize_q8_value F recip) chunk\<rparr>)"

definition quantize_q8 :: "'z fpu_scheme \<Rightarrow> f32 list \<Rightarrow> block_q8_0 list \<Rightarrow> ('e, block_q8_0 list) outcome" where
  "quantize_q8 F src out =
     obind (assert (length src = length out * QK8_0)) (\<lambda>_.
     Ok (map (quantize_q8_block F) (chunks_exact QK8_0 src)))"

definition dequantize_q8_block :: "'z fpu_scheme \<Rightarrow> block_q8_0 \<Rightarrow> f32 list" where
  "dequantize_q8_block F b = map (\<lambda>q. fmul F (f_of_int F (i8 q)) (q8_scale b)) (q8_qs b)"

definition dequantize_q8 :: "'z fpu_scheme \<Rightarrow> block_q8_0 list \<Rightarrow> f32 list \<Rightarrow> ('e, f32 list) outcome" where
  "dequantize_q8 F blocks out =
     obind (assert (length out = length blocks * QK8_0)) (\<lambda>_.
     Ok (concat (map (dequantize_q8_block F) blocks)))"

subsection \<open>Half precision round trip\<close>

lemma small_word_bit: "w < 2 ^ n \<Longrightarrow> bit (w :: 'a::len word) k \<Longrightarrow> k < n"
  using less_mask_eq [of w n] by (metis bit_and_iff bit_mask_iff)

lemma f32_fields:
  assumes s: "s < 2" and e: "e < 256" and f: "f < 2 ^ 23" and w: "w = push_bit 31 s OR push_bit 23 e OR (f :: u32)"
  shows "drop_bit 31 w = s" "drop_bit 23 w AND 0xff = e" "w AND 0x7fffff = f"
proof -
  have m: "(0xff :: u32) = mask 8" "(0x7fffff :: u32) = mask 23" by (simp_all add: mask_eq_exp_minus_1)
  have b: "bit s k \<Longrightarrow> k < 1" "bit e k \<Longrightarrow> k < 8" "bit f k \<Longrightarrow> k < 23" for k
    using small_word_bit [of s 1 k] small_word_bit [of e 8 k] small_word_bit [of f 23 k] assms by simp_all
  show "drop_bit 31 w = s" "drop_bit 23 w AND 0xff = e" "w AND 0x7fffff = f"
    unfolding w m by (rule bit_word_eqI; auto simp: bit_simps dest: b)+
qed

lemma f16_split: "(h :: f16) = push_bit 15 (drop_bit 15 h) OR push_bit 10 (drop_bit 10 h AND 0x1f) OR (h AND 0x3ff)"
proof -
  have m: "(0x1f :: u16) = mask 5" "(0x3ff :: u16) = mask 10" by (simp_all add: mask_eq_exp_minus_1)
  show ?thesis
  proof (rule bit_word_eqI)
    fix k
    assume "k < LENGTH(16)"
    then consider "k < 10" | "10 \<le> k" "k < 15" | "k = 15" by fastforce
    then show "bit h k = bit (push_bit 15 (drop_bit 15 h) OR push_bit 10 (drop_bit 10 h AND 0x1f) OR (h AND 0x3ff)) k"
      unfolding m by cases (auto simp: bit_simps)
  qed
qed

lemma msb_index_spec: "bit x k \<Longrightarrow> k \<le> n \<Longrightarrow> bit x (msb_index n x) \<and> (\<forall>j. msb_index n x < j \<longrightarrow> j \<le> n \<longrightarrow> \<not> bit x j)"
  by (induction n) (auto simp: le_Suc_eq)

definition f16_is_nan :: "f16 \<Rightarrow> bool" where
  "f16_is_nan h \<longleftrightarrow> drop_bit 10 h AND 0x1f = 0x1f \<and> h AND 0x3ff \<noteq> 0"

definition h_sign :: "f16 \<Rightarrow> u32" where "h_sign h = ucast (drop_bit 15 h)"
definition h_exp :: "f16 \<Rightarrow> u32" where "h_exp h = ucast (drop_bit 10 h AND 0x1f)"
definition h_frac :: "f16 \<Rightarrow> u32" where "h_frac h = ucast (h AND 0x3ff)"

lemma masks: "(0x1f :: u16) = mask 5" "(0x3ff :: u16) = mask 10" "(0xff :: u32) = mask 8" "(0x7fffff :: u32) = mask 23"
  "(0x1fff :: u32) = mask 13"
  by (simp_all add: mask_eq_exp_minus_1)

lemma word_less_mask: "w AND mask n = w \<Longrightarrow> n < LENGTH('a) \<Longrightarrow> (w :: 'a::len word) < 2 ^ n"
  by (metis and_mask_less' )

lemma h_small: "h_sign h < 2" "h_exp h < 32" "h_frac h < 1024"
proof -
  have "h_sign h AND mask 1 = h_sign h" "h_exp h AND mask 5 = h_exp h" "h_frac h AND mask 10 = h_frac h"
    unfolding h_sign_def h_exp_def h_frac_def masks
    by (rule bit_word_eqI; auto simp: bit_simps dest: bit_imp_le_length)+
  then show "h_sign h < 2" "h_exp h < 32" "h_frac h < 1024"
    using word_less_mask [of "h_sign h" 1] word_less_mask [of "h_exp h" 5] word_less_mask [of "h_frac h" 10] by simp_all
qed

lemma h_join: "push_bit 15 (ucast (h_sign h)) OR push_bit 10 (ucast (h_exp h)) OR ucast (h_frac h) = h"
proof -
  have "(ucast (h_sign h) :: f16) = drop_bit 15 h" "(ucast (h_exp h) :: f16) = drop_bit 10 h AND 0x1f"
      "(ucast (h_frac h) :: f16) = h AND 0x3ff"
    unfolding h_sign_def h_exp_def h_frac_def masks by (rule bit_word_eqI; auto simp: bit_simps)+
  then show ?thesis using f16_split [of h] by simp
qed

lemma f16_roundtrip_normal:
  assumes "h_exp h \<noteq> 0" and "h_exp h \<noteq> 0x1f"
  shows "f32_to_f16 (f16_to_f32 h) = h"
proof -
  define x where "x = h_exp h + 127 - 15"
  define F where "F = push_bit 13 (h_frac h)"
  have xi: "unat x = unat (h_exp h) + 112"
    using h_small(2) [of h] by (simp add: x_def word_less_nat_alt unat_word_ariths)
  have ex: "0 < unat (h_exp h)" "unat (h_exp h) < 31"
    using assms h_small(2) [of h] by (auto simp: word_less_nat_alt unat_eq_zero [symmetric] word_unat_eq_iff)
  have x8: "x < 256" using xi ex by (simp add: word_less_nat_alt)
  have F: "F < 2 ^ 23" "F AND 0x1fff = 0" "drop_bit 13 F = h_frac h"
  proof -
    have b: "bit (h_frac h) k \<Longrightarrow> k < 10" for k using small_word_bit [of "h_frac h" 10 k] h_small(3) [of h] by simp
    have "F AND mask 23 = F" unfolding F_def by (rule bit_word_eqI) (auto simp: bit_simps dest: b)
    then show "F < 2 ^ 23" by (rule word_less_mask) simp
    show "F AND 0x1fff = 0" unfolding F_def masks by (rule bit_word_eqI) (auto simp: bit_simps)
    show "drop_bit 13 F = h_frac h" unfolding F_def by (rule bit_word_eqI) (auto simp: bit_simps dest: b)
  qed
  have w: "f16_to_f32 h = push_bit 31 (h_sign h) OR push_bit 23 x OR F"
    using assms unfolding f16_to_f32_def Let_def h_sign_def h_exp_def h_frac_def x_def F_def by (simp only: if_False)
  note fl = f32_fields [OF h_small(1) x8 F(1) w]
  have xu: "uint x = uint (h_exp h) + 112" using arg_cong [OF xi, of int] by simp
  have eu: "0 < uint (h_exp h)" "uint (h_exp h) < 31"
    using ex of_nat_less_iff [where 'a = int, of 0 "unat (h_exp h)"] of_nat_less_iff [where 'a = int, of "unat (h_exp h)" 31]
    by simp_all
  have e: "uint x - 127 + 15 = uint (h_exp h)" using xu by simp
  have ne: "uint x \<noteq> 255" "\<not> 31 \<le> uint (h_exp h)" "\<not> uint (h_exp h) \<le> 0"
    using xu eu by simp_all
  have "f32_to_f16 (f16_to_f32 h) = ucast (ucast (push_bit 15 (ucast (h_sign h)) :: u16) OR push_bit 10 (h_exp h) OR h_frac h)"
    unfolding f32_to_f16_def Let_def fl F(2,3) e using ne by (simp only: if_False) simp
  also have "\<dots> = push_bit 15 (ucast (h_sign h)) OR push_bit 10 (ucast (h_exp h)) OR ucast (h_frac h)"
    by (rule bit_word_eqI) (auto simp: bit_simps)
  finally show ?thesis by (simp add: h_join)
qed

lemma f16_roundtrip_infinite:
  assumes "h_exp h = 0x1f" and "h_frac h = 0"
  shows "f32_to_f16 (f16_to_f32 h) = h"
proof -
  have w: "f16_to_f32 h = push_bit 31 (h_sign h) OR push_bit 23 0xff OR 0"
    using assms by (simp add: f16_to_f32_def Let_def h_sign_def h_exp_def h_frac_def)
  note fl = f32_fields [OF h_small(1) _ _ w]
  have "f32_to_f16 (f16_to_f32 h) = push_bit 15 (ucast (h_sign h)) OR 0x7c00" by (simp add: f32_to_f16_def Let_def fl)
  also have "\<dots> = push_bit 15 (ucast (h_sign h)) OR push_bit 10 (ucast (h_exp h)) OR ucast (h_frac h)"
    by (simp add: assms)
  finally show ?thesis by (simp add: h_join)
qed

lemma f16_roundtrip_zero:
  assumes "h_exp h = 0" and "h_frac h = 0"
  shows "f32_to_f16 (f16_to_f32 h) = h"
proof -
  have w: "f16_to_f32 h = push_bit 31 (h_sign h) OR push_bit 23 0 OR 0"
    using assms by (simp add: f16_to_f32_def Let_def h_sign_def h_exp_def h_frac_def)
  note fl = f32_fields [OF h_small(1) _ _ w]
  have "f32_to_f16 (f16_to_f32 h) = push_bit 15 (ucast (h_sign h))" by (simp add: f32_to_f16_def Let_def fl)
  also have "\<dots> = push_bit 15 (ucast (h_sign h)) OR push_bit 10 (ucast (h_exp h)) OR ucast (h_frac h)"
    by (simp add: assms)
  finally show ?thesis by (simp add: h_join)
qed

lemma f16_roundtrip_subnormal:
  assumes "h_exp h = 0" and "h_frac h \<noteq> 0"
  shows "f32_to_f16 (f16_to_f32 h) = h"
proof -
  define m where "m = msb_index 31 (h_frac h)"
  define x where "x = 127 - 24 + (of_nat m :: u32)"
  define F where "F = push_bit (23 - m) (h_frac h) AND 0x7fffff"
  have b: "bit (h_frac h) k \<Longrightarrow> k < 10" for k using small_word_bit [of "h_frac h" 10 k] h_small(3) [of h] by simp
  obtain k where "bit (h_frac h) k" using assms(2) by (auto simp: bit_eq_iff)
  with msb_index_spec [of "h_frac h" k 31] b [of k] have m: "bit (h_frac h) m" "\<And>j. m < j \<Longrightarrow> j \<le> 31 \<Longrightarrow> \<not> bit (h_frac h) j"
    unfolding m_def by auto
  then have m9: "m < 10" using b by blast
  have up: "\<not> bit (h_frac h) j" if "m < j" for j using m(2) [OF that] b [of j] by fastforce
  have x: "x = of_nat (103 + m)" by (simp add: x_def)
  have xu: "unat x = 103 + m" unfolding x using m9 by (intro unat_of_nat_less) simp
  have x8: "x < 256" using xu m9 by (simp add: word_less_nat_alt)
  have F23: "F < 2 ^ 23" unfolding F_def masks by (rule and_mask_less') simp
  have w: "f16_to_f32 h = push_bit 31 (h_sign h) OR push_bit 23 x OR F"
    using assms unfolding f16_to_f32_def Let_def h_sign_def h_exp_def h_frac_def x_def F_def m_def
    by (simp only: if_False if_True simp_thms)
  note fl = f32_fields [OF h_small(1) x8 F23 w]
  have e: "uint x - 127 + 15 = int m - 9" using arg_cong [OF xu, of int] by simp
  have ne: "uint x \<noteq> 255" "\<not> 31 \<le> int m - 9" "int m - 9 \<le> 0" "\<not> int m - 9 < - 10"
    using arg_cong [OF xu, of int] m9 by simp_all
  have sh: "nat (14 - (int m - 9)) = 23 - m" using m9 by simp
  have full: "F OR 0x800000 = push_bit (23 - m) (h_frac h)"
  proof (rule bit_word_eqI)
    fix k
    assume "k < LENGTH(32)"
    have top: "bit (0x800000 :: u32) k \<longleftrightarrow> k = 23"
      using bit_exp_iff [where 'a = "32 word", of 23 k] by auto
    consider "k < 23" | "k = 23" | "23 < k" by linarith
    then show "bit (F OR 0x800000) k = bit (push_bit (23 - m) (h_frac h)) k"
      unfolding F_def masks bit_or_iff top using m9 m(1) up [of "k - (23 - m)"] \<open>k < LENGTH(32)\<close>
      by cases (auto simp: bit_simps)
  qed
  have dis: "push_bit (23 - m) (h_frac h) + push_bit (23 - m - 1) 1 = push_bit (23 - m) (h_frac h) OR push_bit (23 - m - 1) 1"
    by (rule disjunctive_add_eq_or, rule bit_word_eqI) (use m9 in \<open>auto simp: bit_simps\<close>)
  have shifted: "drop_bit (23 - m) (push_bit (23 - m) (h_frac h) OR push_bit (23 - m - 1) 1) = h_frac h"
  proof (rule bit_word_eqI)
    fix n
    show "bit (drop_bit (23 - m) (push_bit (23 - m) (h_frac h) OR push_bit (23 - m - 1) 1)) n = bit (h_frac h) n"
      using m9 up [of n] b [of n] m(1) by (cases "n \<le> m") (auto simp: bit_simps)
  qed
  have "f32_to_f16 (f16_to_f32 h) = push_bit 15 (ucast (h_sign h)) OR ucast (h_frac h)"
    unfolding f32_to_f16_def Let_def fl e sh full dis shifted using ne by (simp only: if_False if_True)
  also have "\<dots> = push_bit 15 (ucast (h_sign h)) OR push_bit 10 (ucast (h_exp h)) OR ucast (h_frac h)"
    by (simp add: assms)
  finally show ?thesis by (simp add: h_join)
qed

lemma f16_is_nan_iff: "f16_is_nan h \<longleftrightarrow> h_exp h = 0x1f \<and> h_frac h \<noteq> 0"
proof -
  have e: "(ucast (h_exp h) :: f16) = drop_bit 10 h AND 0x1f" and f: "(ucast (h_frac h) :: f16) = h AND 0x3ff"
    unfolding h_exp_def h_frac_def masks by (rule bit_word_eqI; auto simp: bit_simps)+
  have "drop_bit 10 h AND 0x1f = 0x1f \<longleftrightarrow> h_exp h = 0x1f"
  proof
    assume "drop_bit 10 h AND 0x1f = 0x1f"
    then show "h_exp h = 0x1f" unfolding h_exp_def by simp
  next
    assume "h_exp h = 0x1f"
    then show "drop_bit 10 h AND 0x1f = 0x1f" unfolding e [symmetric] by simp
  qed
  moreover have "h AND 0x3ff = 0 \<longleftrightarrow> h_frac h = 0"
  proof
    assume "h AND 0x3ff = 0"
    then show "h_frac h = 0" unfolding h_frac_def by simp
  next
    assume "h_frac h = 0"
    then show "h AND 0x3ff = 0" unfolding f [symmetric] by simp
  qed
  ultimately show ?thesis unfolding f16_is_nan_def by simp
qed

text \<open>C18: The KV cache loses nothing twice: widening any half-precision value that is not a NaN, normal,
  subnormal, zero or infinite, and narrowing it again gives back the same sixteen bits.\<close>

theorem f16_roundtrip:
  assumes "\<not> f16_is_nan h"
  shows "f32_to_f16 (f16_to_f32 h) = h"
  using assms f16_roundtrip_normal [of h] f16_roundtrip_infinite [of h] f16_roundtrip_zero [of h]
    f16_roundtrip_subnormal [of h] unfolding f16_is_nan_iff by blast

theorem f16_roundtrip_witness: "f32_to_f16 (f16_to_f32 0x3555) = 0x3555"
  by (rule f16_roundtrip) (simp add: f16_is_nan_def)

end
