(* ===== verification/Nr_Kquant.thy ===== *)
theory Nr_Kquant
  imports Nr_Float
begin

text \<open>
  The K-quant formats of \<^verbatim>\<open>crates/nr-tensor/src/kquant.rs\<close>: scale unpacking, dequantization, activation
  quantization to Q8_K, the scalar reference dot products and the reference quantizers. Blocks have
  the array sizes their layout declares (\<open>wf_q4k\<close>, \<open>wf_q6k\<close>, \<open>wf_q8k\<close>). The \<open>i32\<close> accumulators are
  integers, and a theorem shows that no block contents whatever can take them out of range.
\<close>

subsection \<open>Blocks\<close>

record block_q8k =
  k8_d :: f32
  k8_qs :: bytes
  k8_bsums :: "u16 list"

definition wf_q4k :: "block_q4k \<Rightarrow> bool" where
  "wf_q4k b \<longleftrightarrow> length (q4_scales b) = 12 \<and> length (q4_qs b) = 128"

definition wf_q6k :: "block_q6k \<Rightarrow> bool" where
  "wf_q6k b \<longleftrightarrow> length (q6_ql b) = 128 \<and> length (q6_qh b) = 64 \<and> length (q6_scales b) = 16"

definition wf_q8k :: "block_q8k \<Rightarrow> bool" where
  "wf_q8k b \<longleftrightarrow> length (k8_qs b) = 256 \<and> length (k8_bsums b) = 16"

definition q4k_scale_min :: "bytes \<Rightarrow> nat \<Rightarrow> byte \<times> byte" where
  "q4k_scale_min scales j =
     (if j < 4 then (scales ! j AND 63, scales ! (j + 4) AND 63)
      else ((scales ! (j + 4) AND 0x0F) OR push_bit 4 (drop_bit 6 (scales ! (j - 4))),
            drop_bit 4 (scales ! (j + 4)) OR push_bit 4 (drop_bit 6 (scales ! j))))"

subsection \<open>Dequantization\<close>

definition dequant_q4k_chunk :: "'z fpu_scheme \<Rightarrow> block_q4k \<Rightarrow> nat \<Rightarrow> f32 list" where
  "dequant_q4k_chunk F b chunk =
     (let d = f16_to_f32 (q4_d b); dmin = f16_to_f32 (q4_dmin b);
          q = sub (q4_qs b) (chunk * 32) (chunk * 32 + 32);
          (sc1, m1) = q4k_scale_min (q4_scales b) (2 * chunk);
          (sc2, m2) = q4k_scale_min (q4_scales b) (2 * chunk + 1);
          d1 = fmul F d (f_of_int F (uint sc1)); min1 = fmul F dmin (f_of_int F (uint m1));
          d2 = fmul F d (f_of_int F (uint sc2)); min2 = fmul F dmin (f_of_int F (uint m2))
      in map (\<lambda>qq. fsub F (fmul F d1 (f_of_int F (uint (qq AND 0x0F)))) min1) q
       @ map (\<lambda>qq. fsub F (fmul F d2 (f_of_int F (uint (drop_bit 4 qq)))) min2) q)"

definition dequant_q4k :: "'z fpu_scheme \<Rightarrow> block_q4k \<Rightarrow> f32 list \<Rightarrow> ('e, f32 list) outcome" where
  "dequant_q4k F b out =
     obind (assert (length out = QK_K)) (\<lambda>_. Ok (concat (map (dequant_q4k_chunk F b) [0..<4])))"

text \<open>The four six-bit quants that share the byte pair at \<open>l\<close> of one half.\<close>

definition q6_quant :: "bytes \<Rightarrow> bytes \<Rightarrow> nat \<Rightarrow> nat \<Rightarrow> int" where
  "q6_quant ql qh n l =
     (if n = 0 then uint ((ql ! l AND 0x0F) OR push_bit 4 (qh ! l AND 3))
      else if n = 1 then uint ((ql ! (l + 32) AND 0x0F) OR push_bit 4 (drop_bit 2 (qh ! l) AND 3))
      else if n = 2 then uint (drop_bit 4 (ql ! l) OR push_bit 4 (drop_bit 4 (qh ! l) AND 3))
      else uint (drop_bit 4 (ql ! (l + 32)) OR push_bit 4 (drop_bit 6 (qh ! l) AND 3))) - 32"

definition dequant_q6k_half :: "'z fpu_scheme \<Rightarrow> block_q6k \<Rightarrow> nat \<Rightarrow> f32 list" where
  "dequant_q6k_half F b half =
     (let d = f16_to_f32 (q6_d b);
          ql = sub (q6_ql b) (half * 64) (half * 64 + 64); qh = sub (q6_qh b) (half * 32) (half * 32 + 32);
          sc = sub (q6_scales b) (half * 8) (half * 8 + 8)
      in concat (map (\<lambda>n. map (\<lambda>l. fmul F (fmul F d (f_of_int F (i8 (sc ! (l div 16 + 2 * n)))))
            (f_of_int F (q6_quant ql qh n l))) [0..<32]) [0..<4]))"

definition dequant_q6k :: "'z fpu_scheme \<Rightarrow> block_q6k \<Rightarrow> f32 list \<Rightarrow> ('e, f32 list) outcome" where
  "dequant_q6k F b out =
     obind (assert (length out = QK_K)) (\<lambda>_. Ok (concat (map (dequant_q6k_half F b) [0..<2])))"

subsection \<open>Activations\<close>

definition nearest_int :: "'z fpu_scheme \<Rightarrow> f32 \<Rightarrow> int" where
  "nearest_int F v = (if f_le F_ZERO v then f_to_i32 F (fadd F v F_HALF) else f_to_i32 F (fsub F v F_HALF))"

definition i16 :: "u16 \<Rightarrow> int" where "i16 w = sint w"

definition quantize_q8k_block :: "'z fpu_scheme \<Rightarrow> f32 list \<Rightarrow> block_q8k" where
  "quantize_q8k_block F chunk =
     (let (amax, mx) = foldl (\<lambda>(amax, mx) v. if f_lt amax (f_abs v) then (f_abs v, v) else (amax, mx))
            (F_ZERO, F_ZERO) chunk in
      if f_eq amax F_ZERO then \<lparr>k8_d = F_ZERO, k8_qs = replicate QK_K 0, k8_bsums = replicate 16 0\<rparr>
      else let iscale = fdiv F F_NEG_128 mx;
               qs = map (\<lambda>v. of_int (min (nearest_int F (fmul F iscale v)) 127)) chunk
           in \<lparr>k8_d = fdiv F F_ONE iscale, k8_qs = qs,
               k8_bsums = map (\<lambda>j. of_int (sum_list (map i8 (sub qs (j * 16) (j * 16 + 16))))) [0..<16]\<rparr>)"

definition quantize_q8k :: "'z fpu_scheme \<Rightarrow> f32 list \<Rightarrow> block_q8k list \<Rightarrow> ('e, block_q8k list) outcome" where
  "quantize_q8k F src out =
     obind (assert (length src = length out * QK_K)) (\<lambda>_.
     Ok (map (quantize_q8k_block F) (chunks_exact QK_K src)))"

subsection \<open>Scalar dot products\<close>

text \<open>The integer inner loop: 32 products of nibbles and activations of sub-block \<open>j\<close>.\<close>

definition q4_nibble :: "block_q4k \<Rightarrow> nat \<Rightarrow> nat \<Rightarrow> int" where
  "q4_nibble b j k =
     (let q = q4_qs b ! (j div 2 * 32 + k) in uint (if j mod 2 = 1 then drop_bit 4 q else q AND 0x0F))"

definition q4_sub_sum :: "block_q4k \<Rightarrow> block_q8k \<Rightarrow> nat \<Rightarrow> int" where
  "q4_sub_sum bw bx j = foldl (\<lambda>s k. s + q4_nibble bw j k * i8 (k8_qs bx ! (j * 32 + k))) 0 [0..<32]"

definition q4_min_term :: "block_q4k \<Rightarrow> block_q8k \<Rightarrow> nat \<Rightarrow> int" where
  "q4_min_term bw bx j =
     uint (snd (q4k_scale_min (q4_scales bw) j)) * (i16 (k8_bsums bx ! (2 * j)) + i16 (k8_bsums bx ! (2 * j + 1)))"

definition q4_min_sum :: "block_q4k \<Rightarrow> block_q8k \<Rightarrow> nat \<Rightarrow> int" where
  "q4_min_sum bw bx n = foldl (\<lambda>s j. s + q4_min_term bw bx j) 0 [0..<n]"

definition dot_q4k_block :: "'z fpu_scheme \<Rightarrow> f32 \<Rightarrow> block_q4k \<times> block_q8k \<Rightarrow> f32" where
  "dot_q4k_block F sumf wx =
     (let (bw, bx) = wx;
          d_all = fmul F (f16_to_f32 (q4_d bw)) (k8_d bx); dmin_all = fmul F (f16_to_f32 (q4_dmin bw)) (k8_d bx);
          sum_q = foldl (\<lambda>s j. fadd F s (fmul F (f_of_int F (uint (fst (q4k_scale_min (q4_scales bw) j))))
                    (f_of_int F (q4_sub_sum bw bx j)))) F_ZERO [0..<8];
          sum_m = q4_min_sum bw bx 8
      in fadd F sumf (fsub F (fmul F d_all sum_q) (fmul F dmin_all (f_of_int F sum_m))))"

definition dot_q4k_scalar :: "'z fpu_scheme \<Rightarrow> block_q4k list \<Rightarrow> block_q8k list \<Rightarrow> f32" where
  "dot_q4k_scalar F w x = foldl (dot_q4k_block F) F_ZERO (zip w x)"

text \<open>\<open>group_sums[g]\<close>: plane \<open>g div 2\<close>, the sixteen positions of parity \<open>g mod 2\<close>.\<close>

definition q6_group_sum :: "block_q6k \<Rightarrow> block_q8k \<Rightarrow> nat \<Rightarrow> nat \<Rightarrow> int" where
  "q6_group_sum bw bx half g =
     (let ql = sub (q6_ql bw) (half * 64) (half * 64 + 64); qh = sub (q6_qh bw) (half * 32) (half * 32 + 32);
          q8 = sub (k8_qs bx) (half * 128) (half * 128 + 128)
      in foldl (\<lambda>s l. s + q6_quant ql qh (g div 2) l * i8 (q8 ! (l + 32 * (g div 2)))) 0
           [g mod 2 * 16..<g mod 2 * 16 + 16])"

definition dot_q6k_block :: "'z fpu_scheme \<Rightarrow> f32 \<Rightarrow> block_q6k \<times> block_q8k \<Rightarrow> f32" where
  "dot_q6k_block F sumf wx =
     (let (bw, bx) = wx; d_all = fmul F (f16_to_f32 (q6_d bw)) (k8_d bx);
          s = foldl (\<lambda>s (half, g). fadd F s (fmul F (f_of_int F (i8 (q6_scales bw ! (half * 8 + g))))
                (f_of_int F (q6_group_sum bw bx half g)))) F_ZERO (List.product [0..<2] [0..<8])
      in fadd F sumf (fmul F d_all s))"

definition dot_q6k_scalar :: "'z fpu_scheme \<Rightarrow> block_q6k list \<Rightarrow> block_q8k list \<Rightarrow> f32" where
  "dot_q6k_scalar F w x = foldl (dot_q6k_block F) F_ZERO (zip w x)"

text \<open>The Q8_0 dot of \<^verbatim>\<open>kernels.rs\<close>.\<close>

definition q8_block_sum :: "block_q8_0 \<Rightarrow> block_q8_0 \<Rightarrow> int" where
  "q8_block_sum bw bx = foldl (\<lambda>s i. s + i8 (q8_qs bw ! i) * i8 (q8_qs bx ! i)) 0 [0..<QK8_0]"

definition dot_q8_scalar :: "'z fpu_scheme \<Rightarrow> block_q8_0 list \<Rightarrow> block_q8_0 list \<Rightarrow> f32" where
  "dot_q8_scalar F w x =
     foldl (\<lambda>s (bw, bx). fadd F s (fmul F (fmul F (f_of_int F (q8_block_sum bw bx)) (q8_scale bw)) (q8_scale bx)))
       F_ZERO (zip w x)"

subsection \<open>The reference quantizers\<close>

definition F_MAX :: f32 where "F_MAX = 0x7f7fffff"
definition F_MIN :: f32 where "F_MIN = 0xff7fffff"
definition F_15 :: f32 where "F_15 = 0x41700000"
definition F_63 :: f32 where "F_63 = 0x427c0000"
definition F_31 :: f32 where "F_31 = 0x41f80000"

definition f_min :: "f32 \<Rightarrow> f32 \<Rightarrow> f32" where
  "f_min a b = (if f_nan a then b else if f_nan b then a else if f_lt b a then b else a)"

definition clamp_byte :: "int \<Rightarrow> int \<Rightarrow> int \<Rightarrow> byte" where
  "clamp_byte lo hi x = of_int (max lo (min hi x))"

text \<open>Packing eight six-bit (scale, min) pairs into twelve bytes.\<close>

definition pack_q4k_scales :: "byte list \<Rightarrow> byte list \<Rightarrow> bytes" where
  "pack_q4k_scales scales6 mins6 =
     map (\<lambda>j. (scales6 ! j AND 63) OR push_bit 6 (drop_bit 4 (scales6 ! (j + 4)))) [0..<4]
     @ map (\<lambda>j. (mins6 ! j AND 63) OR push_bit 6 (drop_bit 4 (mins6 ! (j + 4)))) [0..<4]
     @ map (\<lambda>j. (scales6 ! (j + 4) AND 0x0F) OR push_bit 4 (mins6 ! (j + 4) AND 0x0F)) [0..<4]"

definition q4_ref_quant :: "'z fpu_scheme \<Rightarrow> f32 \<Rightarrow> f32 \<Rightarrow> f32 \<Rightarrow> byte" where
  "q4_ref_quant F sc m v =
     (if f_lt F_ZERO sc then clamp_byte 0 15 (nearest_int F (fdiv F (fadd F v m) sc)) else 0)"

definition pack_nibbles :: "(nat \<Rightarrow> nat \<Rightarrow> byte) \<Rightarrow> bytes" where
  "pack_nibbles q = map (\<lambda>i. q (2 * (i div 32)) (i mod 32) OR push_bit 4 (q (2 * (i div 32) + 1) (i mod 32))) [0..<128]"

definition q4_sub_min :: "f32 list \<Rightarrow> nat \<Rightarrow> f32" where
  "q4_sub_min src j = f_max (f_neg (foldl f_min F_MAX (sub src (j * 32) (j * 32 + 32)))) F_ZERO"

definition q4_sub_scale :: "'z fpu_scheme \<Rightarrow> f32 list \<Rightarrow> nat \<Rightarrow> f32" where
  "q4_sub_scale F src j =
     f_max (fdiv F (fadd F (foldl f_max F_MIN (sub src (j * 32) (j * 32 + 32))) (q4_sub_min src j)) F_15) F_ZERO"

definition six_bit :: "'z fpu_scheme \<Rightarrow> f32 \<Rightarrow> f32 \<Rightarrow> byte" where
  "six_bit F df x = (if f_lt F_ZERO df then clamp_byte 0 63 (nearest_int F (fdiv F x df)) else 0)"

definition quantize_q4k_ref :: "'z fpu_scheme \<Rightarrow> f32 list \<Rightarrow> ('e, block_q4k) outcome" where
  "quantize_q4k_ref F src =
     obind (assert (length src = QK_K)) (\<lambda>_.
     let sub_min = map (q4_sub_min src) [0..<8];
         sub_scale = map (q4_sub_scale F src) [0..<8];
         d = fdiv F (foldl f_max F_ZERO sub_scale) F_63; dmin = fdiv F (foldl f_max F_ZERO sub_min) F_63;
         df = f16_to_f32 (f32_to_f16 d); dminf = f16_to_f32 (f32_to_f16 dmin);
         scales6 = map (six_bit F df) sub_scale;
         mins6 = map (six_bit F dminf) sub_min;
         quant = (\<lambda>j k. q4_ref_quant F (fmul F df (f_of_int F (uint (scales6 ! j))))
                   (fmul F dminf (f_of_int F (uint (mins6 ! j)))) (src ! (j * 32 + k)))
     in Ok \<lparr>q4_d = f32_to_f16 d, q4_dmin = f32_to_f16 dmin, q4_scales = pack_q4k_scales scales6 mins6,
            q4_qs = pack_nibbles quant\<rparr>)"

definition q6_ref_quant :: "'z fpu_scheme \<Rightarrow> f32 \<Rightarrow> f32 \<Rightarrow> byte" where
  "q6_ref_quant F sc v = (if f_eq sc F_ZERO then 32
     else of_int (max 0 (min 63 (sint (of_int (nearest_int F (fdiv F v sc)) + 32 :: u32)))))"

text \<open>The four calls of \<open>set\<close> at one \<open>l\<close>: two low-nibble bytes and one byte of high bits.\<close>

definition pack_q6_low :: "(nat \<Rightarrow> nat \<Rightarrow> nat \<Rightarrow> byte) \<Rightarrow> bytes" where
  "pack_q6_low q = map (\<lambda>i. let half = i div 64; s = i mod 64 div 32; l = i mod 32 in
     (q half s l AND 0x0F) OR push_bit 4 (q half (s + 2) l AND 0x0F)) [0..<128]"

definition pack_q6_high :: "(nat \<Rightarrow> nat \<Rightarrow> nat \<Rightarrow> byte) \<Rightarrow> bytes" where
  "pack_q6_high q = map (\<lambda>i. let half = i div 32; l = i mod 32; h = (\<lambda>s. drop_bit 4 (q half s l) AND 3) in
     h 0 OR push_bit 2 (h 1) OR push_bit 4 (h 2) OR push_bit 6 (h 3)) [0..<64]"

definition quantize_q6k_ref :: "'z fpu_scheme \<Rightarrow> f32 list \<Rightarrow> ('e, block_q6k) outcome" where
  "quantize_q6k_ref F src =
     obind (assert (length src = QK_K)) (\<lambda>_.
     let group_amax = map (\<lambda>g. foldl (\<lambda>m v. f_max m (f_abs v)) F_ZERO (sub src (g * 16) (g * 16 + 16))) [0..<16];
         amax = foldl f_max F_ZERO group_amax;
         d = fdiv F amax (fmul F F_127 F_31);
         df = f16_to_f32 (f32_to_f16 d);
         scales = map (\<lambda>x. if f_lt F_ZERO df then clamp_byte (- 128) 127 (nearest_int F (fdiv F x (fmul F df F_31))) else 0) group_amax;
         quant = (\<lambda>half slot l. q6_ref_quant F (fmul F df (f_of_int F (i8 (scales ! ((half * 128 + slot * 32 + l) div 16)))))
                   (src ! (half * 128 + slot * 32 + l)))
     in Ok \<lparr>q6_ql = pack_q6_low quant, q6_qh = pack_q6_high quant, q6_scales = scales, q6_d = f32_to_f16 d\<rparr>)"

subsection \<open>Packing and unpacking agree\<close>

lemma byte_masks: "(63 :: byte) = mask 6" "(0x0F :: byte) = mask 4" "(3 :: byte) = mask 2"
  by (simp_all add: mask_eq_exp_minus_1)

lemma byte_small_bit: "b < 2 ^ n \<Longrightarrow> bit (b :: byte) k \<Longrightarrow> k < n"
  by (rule small_word_bit)

lemma scale_pair_low: "a < 64 \<Longrightarrow> ((a AND 63) OR push_bit 6 x) AND 63 = (a :: byte)"
  unfolding byte_masks by (rule bit_word_eqI) (auto simp: bit_simps dest: byte_small_bit [where n = 6, simplified])

lemma scale_pair_high:
  "a < 64 \<Longrightarrow> (((a AND 0x0F) OR push_bit 4 (y AND 0x0F)) AND 0x0F) OR push_bit 4 (drop_bit 6 ((x AND 63) OR push_bit 6 (drop_bit 4 a))) = (a :: byte)"
  "b < 64 \<Longrightarrow> drop_bit 4 ((y AND 0x0F) OR push_bit 4 (b AND 0x0F)) OR push_bit 4 (drop_bit 6 ((x AND 63) OR push_bit 6 (drop_bit 4 b))) = (b :: byte)"
proof -
  have r: "bit c k \<Longrightarrow> c < 64 \<Longrightarrow> k < 6" for c :: byte and k using byte_small_bit [of c 6 k] by simp
  show "(((a AND 0x0F) OR push_bit 4 (y AND 0x0F)) AND 0x0F) OR push_bit 4 (drop_bit 6 ((x AND 63) OR push_bit 6 (drop_bit 4 a))) = a"
    if "a < 64" unfolding byte_masks
  proof (rule bit_word_eqI)
    fix k
    assume "k < LENGTH(8)"
    then show "bit (((a AND mask 4) OR push_bit 4 (y AND mask 4)) AND mask 4 OR push_bit 4 (drop_bit 6 ((x AND mask 6) OR push_bit 6 (drop_bit 4 a)))) k = bit a k"
      using r [of a k] that by (cases "k < 4") (auto simp: bit_simps)
  qed
  show "drop_bit 4 ((y AND 0x0F) OR push_bit 4 (b AND 0x0F)) OR push_bit 4 (drop_bit 6 ((x AND 63) OR push_bit 6 (drop_bit 4 b))) = b"
    if "b < 64" unfolding byte_masks
  proof (rule bit_word_eqI)
    fix k
    assume "k < LENGTH(8)"
    then show "bit (drop_bit 4 ((y AND mask 4) OR push_bit 4 (b AND mask 4)) OR push_bit 4 (drop_bit 6 ((x AND mask 6) OR push_bit 6 (drop_bit 4 b)))) k = bit b k"
      using r [of b k] that by (cases "k < 4") (auto simp: bit_simps)
  qed
qed

lemma pack_nth:
  "j < 4 \<Longrightarrow> pack_q4k_scales sc mn ! j = (sc ! j AND 63) OR push_bit 6 (drop_bit 4 (sc ! (j + 4)))"
  "j < 4 \<Longrightarrow> pack_q4k_scales sc mn ! (j + 4) = (mn ! j AND 63) OR push_bit 6 (drop_bit 4 (mn ! (j + 4)))"
  "j < 4 \<Longrightarrow> pack_q4k_scales sc mn ! (j + 8) = (sc ! (j + 4) AND 0x0F) OR push_bit 4 (mn ! (j + 4) AND 0x0F)"
  by (simp_all add: pack_q4k_scales_def nth_append)

lemma q4k_scales_unpack:
  assumes "j < 8" and "scales6 ! j < 64" and "mins6 ! j < 64"
  shows "q4k_scale_min (pack_q4k_scales scales6 mins6) j = (scales6 ! j, mins6 ! j)"
proof (cases "j < 4")
  case True
  then show ?thesis
    unfolding q4k_scale_min_def pack_nth(1,2) [OF True] using assms by (simp only: if_True scale_pair_low)
next
  case False
  define i where "i = j - 4"
  have i: "i < 4" "j = i + 4" "j - 4 = i" "j + 4 = i + 8" using False assms(1) by (auto simp: i_def)
  have "\<not> i + 4 < 4" by simp
  then show ?thesis
    using assms unfolding q4k_scale_min_def i(2) by (simp only: if_False diff_add_inverse2 add.assoc [of i 4 4] numeral_plus_numeral arith_simps pack_nth [OF i(1)] scale_pair_high)
qed

lemma pack_nibbles_nth:
  assumes "j < 8" and "k < 32" and "\<And>j k. q j k < 16"
  shows "(if j mod 2 = 1 then drop_bit 4 (pack_nibbles q ! (j div 2 * 32 + k)) else pack_nibbles q ! (j div 2 * 32 + k) AND 0x0F) = q j k"
proof -
  let ?i = "j div 2 * 32 + k"
  have "j div 2 \<le> 3" using assms(1) by linarith
  then have i: "?i < 128" "?i div 32 = j div 2" "?i mod 32 = k" using assms(2) by simp_all
  have b: "bit (q j k) n \<Longrightarrow> n < 4" for j k n using byte_small_bit [of "q j k" 4 n] assms(3) [of j k] by simp
  have p: "pack_nibbles q ! ?i = q (2 * (j div 2)) k OR push_bit 4 (q (2 * (j div 2) + 1) k)"
    using i by (simp add: pack_nibbles_def)
  have lo: "(a OR push_bit 4 c) AND 0x0F = a" and hi: "drop_bit 4 (a OR push_bit 4 c) = c"
    if "\<And>n. bit a n \<Longrightarrow> n < 4" "\<And>n. bit c n \<Longrightarrow> n < 4" for a c :: byte
    unfolding byte_masks using that by (rule_tac bit_word_eqI; force simp: bit_simps)+
  show ?thesis
  proof (cases "j mod 2 = 1")
    case True
    then have "2 * (j div 2) + 1 = j" by presburger
    with True show ?thesis unfolding p using hi [OF b b] by simp
  next
    case False
    then have "2 * (j div 2) = j" by presburger
    with False show ?thesis unfolding p using lo [OF b b] by simp
  qed
qed

lemma clamp_byte_le: "0 \<le> hi \<Longrightarrow> hi < 256 \<Longrightarrow> uint (clamp_byte 0 hi x) \<le> hi"
proof -
  assume "0 \<le> hi" "hi < 256"
  then have "uint (of_int (max 0 (min hi x)) :: byte) = max 0 (min hi x)"
    by (subst uint_word_of_int) (simp add: min_def max_def mod_pos_pos_trivial)
  with \<open>0 \<le> hi\<close> show ?thesis by (simp add: clamp_byte_def)
qed

lemma clamp_byte_less: "clamp_byte 0 63 x < 64" "clamp_byte 0 15 x < 16"
  using clamp_byte_le [of 63 x] clamp_byte_le [of 15 x] by (simp_all add: word_less_def)

text \<open>What the quantizer means to store in sub-block \<open>j\<close>: its scale, its minimum and its 32 quants.\<close>

lemma quantize_q4k_ref_Ok:
  assumes "quantize_q4k_ref F src = (Ok b :: ('e, block_q4k) outcome)"
  shows "\<exists>scales6 mins6. (\<forall>j < 8. scales6 ! j < 64 \<and> mins6 ! j < 64) \<and> q4_scales b = pack_q4k_scales scales6 mins6
    \<and> q4_qs b = pack_nibbles (\<lambda>j k. q4_ref_quant F (fmul F (f16_to_f32 (q4_d b)) (f_of_int F (uint (scales6 ! j))))
        (fmul F (f16_to_f32 (q4_dmin b)) (f_of_int F (uint (mins6 ! j)))) (src ! (j * 32 + k)))"
proof -
  have len: "length src = QK_K" using assms by (auto simp: quantize_q4k_ref_def outcome_simps assert_def split: if_splits)
  have cl: "six_bit F x y < 64" for x y using clamp_byte_less by (simp add: six_bit_def)
  let ?sc = "map (six_bit F (f16_to_f32 (q4_d b))) (map (q4_sub_scale F src) [0..<8])"
  let ?mn = "map (six_bit F (f16_to_f32 (q4_dmin b))) (map (q4_sub_min src) [0..<8])"
  have "q4_scales b = pack_q4k_scales ?sc ?mn"
      "q4_qs b = pack_nibbles (\<lambda>j k. q4_ref_quant F (fmul F (f16_to_f32 (q4_d b)) (f_of_int F (uint (?sc ! j))))
        (fmul F (f16_to_f32 (q4_dmin b)) (f_of_int F (uint (?mn ! j)))) (src ! (j * 32 + k)))"
    using assms len unfolding quantize_q4k_ref_def Let_def by auto
  moreover have "\<forall>j < 8. ?sc ! j < 64 \<and> ?mn ! j < 64" by (simp add: cl)
  ultimately show ?thesis by blast
qed

text \<open>The Q4_K reference quantizer and the runtime agree on the bit layout: for every block it builds,
  unpacking sub-block j returns exactly the six-bit scale and minimum that were packed for j, and
  the nibble read at each of its 32 positions is the quant computed for that position, for all
  eight sub-blocks and all inputs, however the processor rounds.\<close>

theorem q4k_layout_roundtrip:
  assumes "quantize_q4k_ref F src = (Ok b :: (unit, block_q4k) outcome)"
  shows "\<exists>scales6 mins6. \<forall>j < 8. q4k_scale_min (q4_scales b) j = (scales6 ! j, mins6 ! j)
    \<and> (\<forall>k < 32. q4_nibble b j k = uint (q4_ref_quant F
          (fmul F (f16_to_f32 (q4_d b)) (f_of_int F (uint (scales6 ! j))))
          (fmul F (f16_to_f32 (q4_dmin b)) (f_of_int F (uint (mins6 ! j)))) (src ! (j * 32 + k))))"
proof -
  obtain sc mn where s: "\<forall>j < 8. sc ! j < 64 \<and> mn ! j < 64" "q4_scales b = pack_q4k_scales sc mn"
      "q4_qs b = pack_nibbles (\<lambda>j k. q4_ref_quant F (fmul F (f16_to_f32 (q4_d b)) (f_of_int F (uint (sc ! j))))
        (fmul F (f16_to_f32 (q4_dmin b)) (f_of_int F (uint (mn ! j)))) (src ! (j * 32 + k)))"
    using quantize_q4k_ref_Ok [OF assms] by blast
  have q: "q4_ref_quant F x y v < 16" for x y v using clamp_byte_less by (simp add: q4_ref_quant_def)
  show ?thesis
  proof (intro exI allI impI conjI)
    fix j :: nat
    assume j: "j < 8"
    show "q4k_scale_min (q4_scales b) j = (sc ! j, mn ! j)"
      using s(1) j by (simp add: s(2) q4k_scales_unpack)
    fix k :: nat
    assume k: "k < 32"
    show "q4_nibble b j k = uint (q4_ref_quant F (fmul F (f16_to_f32 (q4_d b)) (f_of_int F (uint (sc ! j))))
        (fmul F (f16_to_f32 (q4_dmin b)) (f_of_int F (uint (mn ! j)))) (src ! (j * 32 + k)))"
      using pack_nibbles_nth [OF j k, of "\<lambda>j k. q4_ref_quant F (fmul F (f16_to_f32 (q4_d b)) (f_of_int F (uint (sc ! j))))
        (fmul F (f16_to_f32 (q4_dmin b)) (f_of_int F (uint (mn ! j)))) (src ! (j * 32 + k))"] q
      unfolding q4_nibble_def Let_def s(3) by simp
  qed
qed

definition demo_fpu :: fpu where
  "demo_fpu = \<lparr>fadd = (+), fsub = (-), fmul = (*), fdiv = (\<lambda>a b. a div b), ffma = (\<lambda>a b c. a * b + c),
     f_of_int = of_int, f_to_i32 = sint, f_sqrt = (\<lambda>x. x), f_exp = (\<lambda>x. x), f_pow = (\<lambda>x y. x),
     f_sin = (\<lambda>x. x), f_cos = (\<lambda>x. x)\<rparr>"

theorem q4k_layout_roundtrip_witness:
  "\<exists>b scales6. quantize_q4k_ref demo_fpu (replicate 256 0) = (Ok b :: (unit, block_q4k) outcome)
    \<and> (\<forall>j < 8. fst (q4k_scale_min (q4_scales b) j) = scales6 ! j)"
proof -
  obtain b where b: "quantize_q4k_ref demo_fpu (replicate 256 0) = (Ok b :: (unit, block_q4k) outcome)"
    by (simp add: quantize_q4k_ref_def QK_K_def Let_def)
  from q4k_layout_roundtrip [OF b] b show ?thesis by fastforce
qed

subsection \<open>Integer arithmetic\<close>

lemma foldl_sum: "foldl (\<lambda>s k. s + f k) (a :: int) xs = a + sum_list (map f xs)"
  by (induction xs arbitrary: a) simp_all

lemma sum_list_bound: "(\<And>k. k \<in> set xs \<Longrightarrow> \<bar>f k\<bar> \<le> (c :: int)) \<Longrightarrow> \<bar>sum_list (map f xs)\<bar> \<le> int (length xs) * c"
proof (induction xs)
  case (Cons x xs)
  then have "\<bar>sum_list (map f xs)\<bar> \<le> int (length xs) * c" "\<bar>f x\<bar> \<le> c" by simp_all
  then show ?case by (simp add: distrib_right)
qed simp

lemma i8_range: "- 128 \<le> i8 b" "i8 b \<le> 127"
  using sint_range_size [of b] by (simp_all add: i8_def word_size)

lemma i16_range: "- 32768 \<le> i16 w" "i16 w \<le> 32767"
  using sint_range_size [of w] by (simp_all add: i16_def word_size)

lemma mult_bound: "\<bar>a\<bar> \<le> c \<Longrightarrow> \<bar>b\<bar> \<le> d \<Longrightarrow> \<bar>a * b\<bar> \<le> c * (d :: int)"
  by (simp add: abs_mult mult_mono')

lemma uint_and_le: "uint (b AND m :: byte) \<le> uint m"
  by (simp add: uint_and)

lemma uint_byte: "0 \<le> uint (b :: byte)" "uint b \<le> 255"
  using uint_range_size [of b] by (simp_all add: word_size)

lemma nibble_range: "\<bar>q4_nibble b j k\<bar> \<le> 15"
proof -
  have "uint (drop_bit 4 x :: byte) \<le> 15" for x
    using uint_byte [of x] by (simp add: drop_bit_eq_div uint_div)
  moreover have "uint (x AND 0x0F :: byte) \<le> 15" for x using uint_and_le [of x "0x0F"] by simp
  ultimately show ?thesis by (simp add: q4_nibble_def Let_def)
qed

lemma q4_sub_sum_bound: "\<bar>foldl (\<lambda>s k. s + q4_nibble bw j k * i8 (k8_qs bx ! (j * 32 + k))) 0 [0..<n]\<bar> \<le> int n * (15 * 128)"
proof -
  have "\<bar>q4_nibble bw j k * i8 (k8_qs bx ! (j * 32 + k))\<bar> \<le> 15 * 128" for k
    using i8_range [of "k8_qs bx ! (j * 32 + k)"] by (intro mult_bound nibble_range) linarith
  then show ?thesis using sum_list_bound [of "[0..<n]" "\<lambda>k. q4_nibble bw j k * i8 (k8_qs bx ! (j * 32 + k))" "15 * 128"]
    by (simp add: foldl_sum)
qed

lemma q4_min_sum_bound: "\<bar>q4_min_sum bw bx n\<bar> \<le> int n * (255 * 65536)"
proof -
  have "\<bar>q4_min_term bw bx j\<bar> \<le> 255 * 65536" for j
    unfolding q4_min_term_def
    using uint_byte [of "snd (q4k_scale_min (q4_scales bw) j)"] i16_range [of "k8_bsums bx ! (2 * j)"]
      i16_range [of "k8_bsums bx ! (2 * j + 1)"] by (intro mult_bound) linarith+
  then show ?thesis using sum_list_bound [of "[0..<n]" "q4_min_term bw bx" "255 * 65536"]
    by (simp add: foldl_sum q4_min_sum_def)
qed

lemma q6_quant_range: "\<bar>q6_quant ql qh n l\<bar> \<le> 255"
proof -
  have "\<bar>uint (b :: byte) - 32\<bar> \<le> 255" for b using uint_byte [of b] by linarith
  then show ?thesis by (simp add: q6_quant_def)
qed

lemma q6_group_bound:
  "\<bar>foldl (\<lambda>s l. s + q6_quant ql qh n l * i8 (q8 ! (l + m))) 0 xs\<bar> \<le> int (length xs) * (255 * 128)"
proof -
  have "\<bar>q6_quant ql qh n l * i8 (q8 ! (l + m))\<bar> \<le> 255 * 128" for l
    using i8_range [of "q8 ! (l + m)"] by (intro mult_bound q6_quant_range) linarith
  then show ?thesis using sum_list_bound [of xs "\<lambda>l. q6_quant ql qh n l * i8 (q8 ! (l + m))" "255 * 128"]
    by (simp add: foldl_sum)
qed

lemma q8_sum_bound: "\<bar>foldl (\<lambda>s i. s + i8 (q8_qs bw ! i) * i8 (q8_qs bx ! i)) 0 [0..<n]\<bar> \<le> int n * (128 * 128)"
proof -
  have "\<bar>i8 (q8_qs bw ! i) * i8 (q8_qs bx ! i)\<bar> \<le> 128 * 128" for i
    using i8_range [of "q8_qs bw ! i"] i8_range [of "q8_qs bx ! i"] by (intro mult_bound) linarith+
  then show ?thesis using sum_list_bound [of "[0..<n]" "\<lambda>i. i8 (q8_qs bw ! i) * i8 (q8_qs bx ! i)" "128 * 128"]
    by (simp add: foldl_sum)
qed

text \<open>The integer accumulators never overflow: for every content of the weight and activation blocks
  whatever, each partial sum of the Q8_0, Q4_K (products and minimum correction) and Q6_K inner
  loops fits an i32.\<close>

theorem integer_dots_fit_i32:
  "(n \<le> 32 \<longrightarrow> \<bar>foldl (\<lambda>s k. s + q4_nibble w4 j k * i8 (k8_qs x ! (j * 32 + k))) 0 [0..<n]\<bar> < 2 ^ 31)
    \<and> (n \<le> 8 \<longrightarrow> \<bar>q4_min_sum w4 x n\<bar> < 2 ^ 31)
    \<and> \<bar>q6_group_sum w6 x half g\<bar> < 2 ^ 31
    \<and> (n \<le> QK8_0 \<longrightarrow> \<bar>foldl (\<lambda>s i. s + i8 (q8_qs w8 ! i) * i8 (q8_qs x8 ! i)) 0 [0..<n]\<bar> < 2 ^ 31)"
proof -
  have "\<bar>q6_group_sum w6 x half g\<bar> \<le> int (length [g mod 2 * 16..<g mod 2 * 16 + 16]) * (255 * 128)"
    unfolding q6_group_sum_def Let_def by (rule q6_group_bound)
  then show ?thesis
    using q4_sub_sum_bound [of w4 j x n] q4_min_sum_bound [of w4 x n] q8_sum_bound [of w8 x8 n]
    by (auto simp: QK8_0_def)
qed

theorem integer_dots_fit_i32_witness:
  "\<bar>q4_min_sum \<lparr>q4_d = 0, q4_dmin = 0, q4_scales = replicate 12 255, q4_qs = []\<rparr>
     \<lparr>k8_d = 0, k8_qs = [], k8_bsums = replicate 16 0x8000\<rparr> 8\<bar> < 2 ^ 31"
  by (rule integer_dots_fit_i32 [THEN conjunct2, THEN conjunct1, THEN mp]) simp

end
