(* ===== verification/Nr_Simd.thy ===== *)
theory Nr_Simd
  imports Nr_Kquant
begin

text \<open>
  The vector instructions the kernels of \<^verbatim>\<open>crates/nr-tensor/src\<close> use, lane by lane: the AVX2 subset of
  \<^verbatim>\<open>kernels.rs\<close> and \<^verbatim>\<open>kquant.rs\<close>, the NEON subset of \<^verbatim>\<open>neon.rs\<close>, and the feature detection of \<^verbatim>\<open>cpu.rs\<close>.
  A vector is the list of its lanes, lane 0 first; integer lanes are words and wrap, the saturating
  instruction saturates, and float lanes go through the \<open>fpu\<close>. The lemmas say when the integer
  part of a vector routine is the exact integer sum.
\<close>

subsection \<open>Lanes\<close>

fun pairs :: "'a list \<Rightarrow> ('a \<times> 'a) list" where
  "pairs (a # b # r) = (a, b) # pairs r"
| "pairs r = []"

definition sat16 :: "int \<Rightarrow> u16" where
  "sat16 v = of_int (max (- 32768) (min 32767 v))"

subsection \<open>AVX2\<close>

definition sign_epi8 :: "bytes \<Rightarrow> bytes \<Rightarrow> bytes" where
  "sign_epi8 a b = map2 (\<lambda>x y. if i8 y < 0 then - x else if y = 0 then 0 else x) a b"

definition maddubs_epi16 :: "bytes \<Rightarrow> bytes \<Rightarrow> u16 list" where
  "maddubs_epi16 a b =
     map (\<lambda>((a0, b0), (a1, b1)). sat16 (uint a0 * i8 b0 + uint a1 * i8 b1)) (pairs (zip a b))"

definition madd_epi16 :: "u16 list \<Rightarrow> u16 list \<Rightarrow> u32 list" where
  "madd_epi16 a b =
     map (\<lambda>((a0, b0), (a1, b1)). of_int (i16 a0 * i16 b0 + i16 a1 * i16 b1)) (pairs (zip a b))"

definition add_epi32 :: "u32 list \<Rightarrow> u32 list \<Rightarrow> u32 list" where "add_epi32 a b = map2 (+) a b"
definition sub_epi16 :: "u16 list \<Rightarrow> u16 list \<Rightarrow> u16 list" where "sub_epi16 a b = map2 (-) a b"
definition and_si256 :: "bytes \<Rightarrow> bytes \<Rightarrow> bytes" where "and_si256 a b = map2 (AND) a b"
definition or_si256 :: "bytes \<Rightarrow> bytes \<Rightarrow> bytes" where "or_si256 a b = map2 (OR) a b"

definition srli_epi16 :: "bytes \<Rightarrow> nat \<Rightarrow> bytes" where
  "srli_epi16 v n = concat (map (\<lambda>(lo, hi). to_le 2 (drop_bit n (le_word [lo, hi] :: u16))) (pairs v))"

definition slli_epi16 :: "bytes \<Rightarrow> nat \<Rightarrow> bytes" where
  "slli_epi16 v n = concat (map (\<lambda>(lo, hi). to_le 2 (push_bit n (le_word [lo, hi] :: u16))) (pairs v))"

definition cvtepi32_ps :: "'z fpu_scheme \<Rightarrow> u32 list \<Rightarrow> f32 list" where
  "cvtepi32_ps F v = map (\<lambda>x. f_of_int F (sint x)) v"

definition fmadd_ps :: "'z fpu_scheme \<Rightarrow> f32 list \<Rightarrow> f32 list \<Rightarrow> f32 list \<Rightarrow> f32 list" where
  "fmadd_ps F a b c = map (\<lambda>(x, y, z). ffma F x y z) (zip a (zip b c))"

definition hsum256 :: "'z fpu_scheme \<Rightarrow> f32 list \<Rightarrow> f32" where
  "hsum256 F v =
     (let s = map (\<lambda>i. fadd F (v ! (i + 4)) (v ! i)) [0..<4]
      in fadd F (fadd F (s ! 0) (s ! 2)) (fadd F (s ! 1) (s ! 3)))"

subsection \<open>NEON\<close>

definition sdot_acc :: "u32 list \<Rightarrow> bytes \<Rightarrow> bytes \<Rightarrow> u32 list" where
  "sdot_acc acc a b =
     map2 (\<lambda>s c. s + of_int (sum_list (map (\<lambda>(x, y). i8 x * i8 y) c))) acc (chunks_exact 4 (zip a b))"

definition vmull_s8 :: "bytes \<Rightarrow> bytes \<Rightarrow> u16 list" where
  "vmull_s8 a b = map2 (\<lambda>x y. of_int (i8 x * i8 y)) a b"

definition vpadalq_s16 :: "u32 list \<Rightarrow> u16 list \<Rightarrow> u32 list" where
  "vpadalq_s16 acc v = map2 (\<lambda>s (x, y). s + of_int (i16 x + i16 y)) acc (pairs v)"

definition vaddvq_s32 :: "u32 list \<Rightarrow> u32" where
  "vaddvq_s32 v = sum_list v"

definition dot_i8x32 :: "bool \<Rightarrow> bytes \<Rightarrow> bytes \<Rightarrow> bytes \<Rightarrow> bytes \<Rightarrow> int" where
  "dot_i8x32 sdot w0 w1 x0 x1 =
     (let acc = replicate 4 0;
          acc = (if sdot then sdot_acc (sdot_acc acc w0 x0) w1 x1
                 else let acc = vpadalq_s16 acc (vmull_s8 (take 8 w0) (take 8 x0));
                          acc = vpadalq_s16 acc (vmull_s8 (drop 8 w0) (drop 8 x0));
                          acc = vpadalq_s16 acc (vmull_s8 (take 8 w1) (take 8 x1))
                      in vpadalq_s16 acc (vmull_s8 (drop 8 w1) (drop 8 x1)))
      in sint (vaddvq_s32 acc))"

definition dot_i8x16 :: "bool \<Rightarrow> bytes \<Rightarrow> bytes \<Rightarrow> int" where
  "dot_i8x16 sdot w x =
     (let acc = replicate 4 0;
          acc = (if sdot then sdot_acc acc w x
                 else let acc = vpadalq_s16 acc (vmull_s8 (take 8 w) (take 8 x))
                      in vpadalq_s16 acc (vmull_s8 (drop 8 w) (drop 8 x)))
      in sint (vaddvq_s32 acc))"

definition vfmaq_f32 :: "'z fpu_scheme \<Rightarrow> f32 list \<Rightarrow> f32 list \<Rightarrow> f32 list \<Rightarrow> f32 list" where
  "vfmaq_f32 F acc a b = map (\<lambda>(c, x, y). ffma F x y c) (zip acc (zip a b))"

text \<open>\<open>vaddvq_f32\<close> adds pairwise: lanes 0 and 1, lanes 2 and 3, then the two sums.\<close>

definition vaddvq_f32 :: "'z fpu_scheme \<Rightarrow> f32 list \<Rightarrow> f32" where
  "vaddvq_f32 F v = fadd F (fadd F (v ! 0) (v ! 1)) (fadd F (v ! 2) (v ! 3))"

subsection \<open>The machine\<close>

datatype cpu_arch = X86_64 | Aarch64

record machine = fpu +
  m_arch :: cpu_arch
  m_leaf1_ecx :: u32
  m_leaf7_ebx :: u32
  m_xcr0 :: u64
  m_isar0 :: u64
  m_pfr0 :: u64
  m_sched :: "nat \<Rightarrow> (nat \<times> nat) list"

definition PROBED :: byte where "PROBED = 1"
definition F_A :: byte where "F_A = 2"
definition F_B :: byte where "F_B = 4"
definition F_C :: byte where "F_C = 8"

definition probe_x86 :: "'z machine_scheme \<Rightarrow> byte" where
  "probe_x86 M =
     (if \<not> (bit (m_leaf1_ecx M) 27 \<and> bit (m_leaf1_ecx M) 28) then PROBED
      else if m_xcr0 M AND 6 \<noteq> 6 then PROBED
      else PROBED OR (if bit (m_leaf1_ecx M) 12 then F_B else 0)
             OR (if bit (m_leaf1_ecx M) 29 then F_C else 0) OR (if bit (m_leaf7_ebx M) 5 then F_A else 0))"

definition probe_aarch64 :: "'z machine_scheme \<Rightarrow> byte" where
  "probe_aarch64 M =
     PROBED OR (if drop_bit 44 (m_isar0 M) AND 0xf \<ge> 1 then F_A else 0)
       OR (if drop_bit 16 (m_pfr0 M) AND 0xf = 1 then F_B else 0)"

definition probe :: "'z machine_scheme \<Rightarrow> byte" where
  "probe M = (case m_arch M of X86_64 \<Rightarrow> probe_x86 M | Aarch64 \<Rightarrow> probe_aarch64 M)"

text \<open>The cached feature byte: the value read, and the cache afterwards.\<close>

definition cached_bits :: "'z machine_scheme \<Rightarrow> byte \<Rightarrow> byte \<times> byte" where
  "cached_bits M cached = (if cached AND PROBED = 0 then (probe M, probe M) else (cached, cached))"

definition avx2 :: "'z machine_scheme \<Rightarrow> bool" where "avx2 M \<longleftrightarrow> probe M AND F_A \<noteq> 0"
definition fma :: "'z machine_scheme \<Rightarrow> bool" where "fma M \<longleftrightarrow> probe M AND F_B \<noteq> 0"
definition f16c :: "'z machine_scheme \<Rightarrow> bool" where "f16c M \<longleftrightarrow> probe M AND F_C \<noteq> 0"
definition dotprod :: "'z machine_scheme \<Rightarrow> bool" where "dotprod M \<longleftrightarrow> probe M AND F_A \<noteq> 0"

definition fast_path :: "'z machine_scheme \<Rightarrow> bool" where
  "fast_path M = (case m_arch M of X86_64 \<Rightarrow> avx2 M \<and> fma M | Aarch64 \<Rightarrow> True)"

definition fast_f16 :: "'z machine_scheme \<Rightarrow> bool" where
  "fast_f16 M = (case m_arch M of X86_64 \<Rightarrow> f16c M \<and> avx2 M \<and> fma M | Aarch64 \<Rightarrow> True)"

definition simd_label :: "'z machine_scheme \<Rightarrow> string" where
  "simd_label M = (case m_arch M of
       X86_64 \<Rightarrow> if fast_path M then ''AVX2+FMA kernels'' else ''scalar kernels (no AVX2)''
     | Aarch64 \<Rightarrow> if dotprod M then ''NEON+DOTPROD kernels'' else ''NEON kernels'')"

subsection \<open>Four activation vectors against one weight row\<close>

text \<open>The loop of every \<open>_x4\<close> kernel: \<open>for (bi, bw) in w.iter().enumerate()\<close> around lane loops that read
  \<open>xs[lane][bi]\<close>; \<open>step\<close> is the block's body on the states of all lanes.\<close>

definition tile_loop :: "('w \<Rightarrow> 'x list \<Rightarrow> 's list \<Rightarrow> 's list) \<Rightarrow> 's list \<Rightarrow> 'w list \<Rightarrow> 'x list list \<Rightarrow> ('e, 's list) outcome" where
  "tile_loop step st w xs =
     ofold (\<lambda>st (bi, bw). obind (omap (\<lambda>x. index x bi) xs) (\<lambda>bxs. Ok (step bw bxs st))) st (enumerate 0 w)"

text \<open>When the body treats every lane alike, lane \<open>i\<close> computes the one-wide loop on \<open>xs[i]\<close>.\<close>

lemma tile_lanes:
  fixes step :: "'w \<Rightarrow> 'x list \<Rightarrow> 's list \<Rightarrow> 's list"
  assumes step: "\<And>bw bxs st. length bxs = length xs \<Longrightarrow> length st = length xs \<Longrightarrow> step bw bxs st = map2 (f bw) bxs st"
    and "\<forall>x \<in> set xs. length w \<le> length x"
  shows "tile_loop step (replicate (length xs) z) w xs = (Ok (map (\<lambda>x. foldl (\<lambda>s (bw, bx). f bw bx s) z (zip w x)) xs) :: ('e, 's list) outcome)"
  using assms(2)
proof (induction w rule: rev_induct)
  case Nil
  then show ?case by (simp add: tile_loop_def map_replicate_const)
next
  case (snoc b w)
  let ?n = "length w"
  let ?st = "map (\<lambda>x. foldl (\<lambda>s (bw, bx). f bw bx s) z (zip w x)) xs"
  from snoc have IH: "tile_loop step (replicate (length xs) z) w xs = (Ok ?st :: ('e, 's list) outcome)" by fastforce
  have e: "enumerate 0 (w @ [b]) = enumerate 0 w @ [(?n, b)]" by (simp add: enumerate_append_eq)
  have o: "omap (\<lambda>x. index x ?n) xs = (Ok (map (\<lambda>x. x ! ?n) xs) :: ('e, 'x list) outcome)"
    using snoc.prems by (intro omap_Ok) fastforce
  have z: "zip (w @ [b]) x = zip w x @ [(b, x ! ?n)]" if "x \<in> set xs" for x
  proof -
    have "?n < length x" using snoc.prems that by fastforce
    then show ?thesis by (intro nth_equalityI) (auto simp: nth_append min_def less_Suc_eq)
  qed
  have m: "map2 (f b) (map (\<lambda>x. x ! ?n) xs) ?st = map (\<lambda>x. foldl (\<lambda>s (bw, bx). f bw bx s) z (zip (w @ [b]) x)) xs"
    by (rule nth_equalityI) (simp_all add: z)
  have "tile_loop step (replicate (length xs) z) (w @ [b]) xs = (Ok (step b (map (\<lambda>x. x ! ?n) xs) ?st) :: ('e, 's list) outcome)"
    using IH by (simp add: tile_loop_def e ofold_append o)
  then show ?case by (simp add: step m)
qed

lemma foldl_lanes:
  "length ss = length bxs \<Longrightarrow> foldl (\<lambda>ss j. map2 (f j) bxs ss) ss js = map2 (\<lambda>bx s. foldl (\<lambda>s j. f j bx s) s js) bxs ss"
proof (induction js arbitrary: ss)
  case Nil
  then show ?case by (auto intro: nth_equalityI)
next
  case (Cons j js)
  then show ?case by (auto intro!: nth_equalityI)
qed

lemma foldl_lanes_nested:
  "length ss = length bxs \<Longrightarrow> foldl (\<lambda>ss h. foldl (\<lambda>ss p. map2 (f h p) bxs ss) ss (ps h)) ss hs
     = map2 (\<lambda>bx s. foldl (\<lambda>s h. foldl (\<lambda>s p. f h p bx s) s (ps h)) s hs) bxs ss"
proof (induction hs arbitrary: ss)
  case Nil
  then show ?case by (auto intro: nth_equalityI)
next
  case (Cons h hs)
  then show ?case by (simp add: foldl_lanes) (auto intro!: nth_equalityI)
qed

lemma map_replicate_lanes: "length xs = n \<Longrightarrow> map2 f xs (replicate n z) = map (\<lambda>x. f x z) xs"
  by (auto intro: nth_equalityI)

subsection \<open>Exact integer dots\<close>

definition prods :: "bytes \<Rightarrow> bytes \<Rightarrow> int" where "prods a b = sum_list (map2 (\<lambda>x y. i8 x * i8 y) a b)"

lemma sint_of_int_small: "- (2 ^ (LENGTH('a) - 1)) \<le> z \<Longrightarrow> z < 2 ^ (LENGTH('a) - 1) \<Longrightarrow> sint (of_int z :: 'a::len word) = z"
  by (simp add: signed_of_int signed_take_bit_int_eq_self)

lemma i16_of_int: "- 32768 \<le> z \<Longrightarrow> z \<le> 32767 \<Longrightarrow> i16 (of_int z) = z"
  unfolding i16_def by (rule sint_of_int_small) simp_all

lemma i32_of_int: "\<bar>z\<bar> < 2 ^ 31 \<Longrightarrow> sint (of_int z :: u32) = z"
  by (rule sint_of_int_small) auto

lemma i8_prod_bound: "\<bar>i8 x * i8 y\<bar> \<le> 128 * 128"
  using i8_range [of x] i8_range [of y] by (intro mult_bound) linarith+

lemma i8_prod_exact: "i16 (of_int (i8 x * i8 y)) = i8 x * i8 y"
  using i8_prod_bound [of x y] by (intro i16_of_int) linarith+

lemma prods_append: "length a = length b \<Longrightarrow> prods (a @ a') (b @ b') = prods a b + prods a' b'"
  by (simp add: prods_def)

lemma prods_bound: "\<bar>prods a b\<bar> \<le> int (min (length a) (length b)) * (128 * 128)"
  using sum_list_bound [of "zip a b" "\<lambda>(x, y). i8 x * i8 y" "128 * 128"] i8_prod_bound
  by (fastforce simp: prods_def)

lemma sum_vpadalq: "length v = 2 * length acc \<Longrightarrow> sum_list (vpadalq_s16 acc v) = sum_list acc + of_int (sum_list (map i16 v))"
proof (induction v arbitrary: acc rule: pairs.induct)
  case (1 a b r)
  then obtain s acc' where "acc = s # acc'" "length r = 2 * length acc'" by (cases acc) auto
  with 1(1) [of acc'] show ?case by (simp add: vpadalq_s16_def algebra_simps)
qed (auto simp: vpadalq_s16_def)

lemma sum_vmull: "sum_list (map i16 (vmull_s8 a b)) = prods a b"
proof -
  have "map i16 (vmull_s8 a b) = map2 (\<lambda>x y. i8 x * i8 y) a b"
    by (simp add: vmull_s8_def i8_prod_exact comp_def case_prod_unfold del: of_int_mult)
  then show ?thesis by (simp add: prods_def)
qed

lemma sum_sdot: "length a = 4 * length acc \<Longrightarrow> length b = length a \<Longrightarrow> sum_list (sdot_acc acc a b) = sum_list acc + of_int (prods a b)"
proof (induction acc arbitrary: a b)
  case (Cons s acc)
  let ?z = "zip a b"
  have z: "length ?z = 4 + 4 * length acc" using Cons.prems by simp
  then have "chunks_exact 4 ?z = take 4 ?z # chunks_exact 4 (drop 4 ?z)" by (subst chunks_exact.simps) simp
  then have "sum_list (sdot_acc (s # acc) a b) = s + of_int (sum_list (map (\<lambda>(x, y). i8 x * i8 y) (take 4 ?z))) + sum_list (sdot_acc acc (drop 4 a) (drop 4 b))"
    by (simp add: sdot_acc_def drop_zip)
  also have "sum_list (sdot_acc acc (drop 4 a) (drop 4 b)) = sum_list acc + of_int (prods (drop 4 a) (drop 4 b))"
    using Cons.prems by (intro Cons.IH) simp_all
  also have "sum_list (map (\<lambda>(x, y). i8 x * i8 y) (take 4 ?z)) = prods (take 4 a) (take 4 b)"
    by (simp add: prods_def take_zip)
  finally show ?case using prods_append [of "take 4 a" "take 4 b" "drop 4 a" "drop 4 b"] Cons.prems by simp
qed (simp add: sdot_acc_def prods_def)

lemma length_vec: "length (sdot_acc acc a b) = min (length acc) (min (length a) (length b) div 4)"
   "length (vmull_s8 a b) = min (length a) (length b)"
  by (simp_all add: sdot_acc_def vmull_s8_def length_chunks_exact)

lemma length_pairs: "length (pairs v) = length v div 2"
  by (induction v rule: pairs.induct) auto

lemma length_vpadalq: "length (vpadalq_s16 acc v) = min (length acc) (length v div 2)"
  by (simp add: vpadalq_s16_def length_pairs)

lemma dot_i8x16_exact: "length w = 16 \<Longrightarrow> length x = 16 \<Longrightarrow> dot_i8x16 sd w x = prods w x"
proof -
  assume l: "length w = 16" "length x = 16"
  have "vaddvq_s32 (if sd then sdot_acc (replicate 4 0) w x
      else vpadalq_s16 (vpadalq_s16 (replicate 4 0) (vmull_s8 (take 8 w) (take 8 x))) (vmull_s8 (drop 8 w) (drop 8 x))) = of_int (prods w x)"
    using l prods_append [of "take 8 w" "take 8 x" "drop 8 w" "drop 8 x"]
    by (simp add: vaddvq_s32_def sum_sdot sum_vpadalq sum_vmull length_vpadalq length_vec sum_list_replicate)
  moreover have "\<bar>prods w x\<bar> < 2 ^ 31" using prods_bound [of w x] l by simp
  ultimately show ?thesis unfolding dot_i8x16_def Let_def using i32_of_int by (simp only:)
qed

lemma dot_i8x32_exact: "length w0 = 16 \<Longrightarrow> length x0 = 16 \<Longrightarrow> length w1 = 16 \<Longrightarrow> length x1 = 16 \<Longrightarrow> dot_i8x32 sd w0 w1 x0 x1 = prods (w0 @ w1) (x0 @ x1)"
proof -
  assume l: "length w0 = 16" "length x0 = 16" "length w1 = 16" "length x1 = 16"
  have "vaddvq_s32 (if sd then sdot_acc (sdot_acc (replicate 4 0) w0 x0) w1 x1
      else vpadalq_s16 (vpadalq_s16 (vpadalq_s16 (vpadalq_s16 (replicate 4 0) (vmull_s8 (take 8 w0) (take 8 x0))) (vmull_s8 (drop 8 w0) (drop 8 x0)))
         (vmull_s8 (take 8 w1) (take 8 x1))) (vmull_s8 (drop 8 w1) (drop 8 x1))) = of_int (prods (w0 @ w1) (x0 @ x1))"
    using l prods_append [of "take 8 w0" "take 8 x0" "drop 8 w0" "drop 8 x0"] prods_append [of "take 8 w1" "take 8 x1" "drop 8 w1" "drop 8 x1"]
    by (simp add: prods_append vaddvq_s32_def sum_sdot sum_vpadalq sum_vmull length_vpadalq length_vec sum_list_replicate)
  moreover have "\<bar>prods (w0 @ w1) (x0 @ x1)\<bar> < 2 ^ 31" using prods_bound [of "w0 @ w1" "x0 @ x1"] l by simp
  ultimately show ?thesis unfolding dot_i8x32_def Let_def using i32_of_int by (simp only:)
qed

lemma prods_index: "length a = n \<Longrightarrow> length b = n \<Longrightarrow> prods a b = foldl (\<lambda>s i. s + i8 (a ! i) * i8 (b ! i)) 0 [0..<n]"
proof -
  assume "length a = n" "length b = n"
  then have "map2 (\<lambda>x y. i8 x * i8 y) a b = map (\<lambda>i. i8 (a ! i) * i8 (b ! i)) [0..<n]" by (intro nth_equalityI) simp_all
  then show ?thesis by (simp add: prods_def foldl_sum)
qed

subsection \<open>Small bytes\<close>

lemma i8_small: "uint (b :: byte) < 128 \<Longrightarrow> i8 b = uint b"
proof -
  assume a: "uint b < 128"
  have "- 128 \<le> uint b" using uint_byte(1) [of b] by linarith
  with a have "sint (of_int (uint b) :: byte) = uint b"
    by (intro sint_of_int_small) simp_all
  then show ?thesis by (simp add: i8_def)
qed

lemma i8_minus_32: "uint (b :: byte) \<le> 63 \<Longrightarrow> i8 (b - 32) = uint b - 32"
proof -
  assume a: "uint b \<le> 63"
  have "sint (of_int (uint b - 32) :: byte) = uint b - 32"
    by (rule sint_of_int_small) (use a uint_byte(1) [of b] in simp_all)
  then show ?thesis by (simp add: i8_def)
qed

lemma drop_4_le: "uint (drop_bit 4 x :: byte) \<le> 15"
  using uint_byte [of x] by (simp add: drop_bit_eq_div uint_div)

lemma q6_byte_le: "uint ((a :: byte) AND 0x0F OR push_bit 4 (h AND 3)) \<le> 63" "uint (drop_bit 4 a OR push_bit 4 (h AND 3)) \<le> 63"
proof -
  have *: "uint w \<le> 63" if "\<And>k. bit w k \<Longrightarrow> k < 6" for w :: byte
  proof -
    have "w AND mask 6 = w" by (rule bit_word_eqI) (use that in \<open>auto simp: bit_simps\<close>)
    then have "w < 2 ^ 6" by (rule word_less_mask) simp
    then show ?thesis by (simp add: word_less_def)
  qed
  have d: "bit a (4 + k) \<Longrightarrow> k < 6" for k using bit_imp_le_length [of a "4 + k"] by simp
  show "uint (a AND 0x0F OR push_bit 4 (h AND 3)) \<le> 63" "uint (drop_bit 4 a OR push_bit 4 (h AND 3)) \<le> 63"
    unfolding byte_masks by (rule *, auto simp: bit_simps dest: d)+
qed

definition demo_q6k :: block_q6k where
  "demo_q6k = \<lparr>q6_ql = replicate 128 0xa5, q6_qh = replicate 64 0x1b, q6_scales = replicate 16 0x81, q6_d = 0x3c00\<rparr>"

definition demo_q8k :: block_q8k where
  "demo_q8k = \<lparr>k8_d = F_ONE, k8_qs = replicate 256 0x80, k8_bsums = replicate 16 0\<rparr>"

end
