(* ===== verification/Nr_Avx2.thy ===== *)
theory Nr_Avx2
  imports Nr_Simd
begin

text \<open>
  The x86-64 kernels of \<^verbatim>\<open>crates/nr-tensor/src/kernels.rs\<close> and \<^verbatim>\<open>kquant.rs\<close> (AVX2, FMA, F16C): every
  four-wide kernel equals the one-wide kernel in every lane, and the integer part of each kernel is
  the exact integer dot product of the scalar reference; only the order of the float additions differs.
\<close>

subsection \<open>Q8_0\<close>

definition avx2_q8_lanes :: "bytes \<Rightarrow> bytes \<Rightarrow> u32 list" where
  "avx2_q8_lanes qw qx =
     (let abs_w = sign_epi8 qw qw; sgn_x = sign_epi8 qx qw; p16 = maddubs_epi16 abs_w sgn_x
      in madd_epi16 p16 (replicate 16 1))"

definition avx2_q8_block :: "'z fpu_scheme \<Rightarrow> f32 list \<Rightarrow> block_q8_0 \<times> block_q8_0 \<Rightarrow> f32 list" where
  "avx2_q8_block F acc wx =
     (let (bw, bx) = wx; d = replicate 8 (fmul F (q8_scale bw) (q8_scale bx)) in
      fmadd_ps F d (cvtepi32_ps F (avx2_q8_lanes (q8_qs bw) (q8_qs bx))) acc)"

definition dot_q8_avx2 :: "'z fpu_scheme \<Rightarrow> block_q8_0 list \<Rightarrow> block_q8_0 list \<Rightarrow> f32" where
  "dot_q8_avx2 F w x = hsum256 F (foldl (avx2_q8_block F) (replicate 8 F_ZERO) (zip w x))"

definition avx2_q8_x4_block :: "'z fpu_scheme \<Rightarrow> block_q8_0 \<Rightarrow> block_q8_0 list \<Rightarrow> f32 list list \<Rightarrow> f32 list list" where
  "avx2_q8_x4_block F bw bxs accs =
     (let qw = q8_qs bw; abs_w = sign_epi8 qw qw; dw = q8_scale bw in
      map2 (\<lambda>bx acc.
        let d = replicate 8 (fmul F dw (q8_scale bx)); qx = q8_qs bx; sgn_x = sign_epi8 qx qw;
            p16 = maddubs_epi16 abs_w sgn_x; p32 = madd_epi16 p16 (replicate 16 1)
        in fmadd_ps F d (cvtepi32_ps F p32) acc) bxs accs)"

definition dot_q8_avx2_x4 :: "'z fpu_scheme \<Rightarrow> block_q8_0 list \<Rightarrow> block_q8_0 list list \<Rightarrow> ('e, f32 list) outcome" where
  "dot_q8_avx2_x4 F w xs =
     obind (tile_loop (avx2_q8_x4_block F) (replicate 4 (replicate 8 F_ZERO)) w xs) (\<lambda>accs. Ok (map (hsum256 F) accs))"

subsection \<open>Half-precision rows\<close>

definition dot_f16_f16c :: "'z fpu_scheme \<Rightarrow> f16 list \<Rightarrow> f32 list \<Rightarrow> f32" where
  "dot_f16_f16c F k q =
     (let n = min (length k) (length q); chunks = n div 8;
          acc = foldl (\<lambda>acc i. fmadd_ps F (map f16_to_f32 (sub k (i * 8) (i * 8 + 8))) (sub q (i * 8) (i * 8 + 8)) acc)
                  (replicate 8 F_ZERO) [0..<chunks]
      in foldl (\<lambda>s i. fadd F s (fmul F (f16_to_f32 (k ! i)) (q ! i))) (hsum256 F acc) [chunks * 8..<n])"

definition axpy_f16_f16c :: "'z fpu_scheme \<Rightarrow> f32 list \<Rightarrow> f32 \<Rightarrow> f16 list \<Rightarrow> f32 list" where
  "axpy_f16_f16c F out a v =
     (let n = min (length out) (length v); av = replicate 8 a; chunks = n div 8;
          out = foldl (\<lambda>out i. put_at out (i * 8)
                  (fmadd_ps F av (map f16_to_f32 (sub v (i * 8) (i * 8 + 8))) (sub out (i * 8) (i * 8 + 8)))) out [0..<chunks]
      in foldl (\<lambda>out i. out[i := fadd F (out ! i) (fmul F a (f16_to_f32 (v ! i)))]) out [chunks * 8..<n])"

subsection \<open>Q4_K\<close>

text \<open>One group of 32 packed bytes: the two nibble vectors, each multiplied, scaled and added.\<close>

definition M4 :: bytes where "M4 = replicate 32 0x0F"
definition M2 :: bytes where "M2 = replicate 32 3"
definition M32S :: bytes where "M32S = replicate 32 32"

definition avx2_q4k_group :: "block_q4k \<Rightarrow> nat \<Rightarrow> block_q8k \<Rightarrow> u32 list \<Rightarrow> u32 list" where
  "avx2_q4k_group bw j bx sumi =
     (let q4bits = sub (q4_qs bw) (j * 32) (j * 32 + 32);
          q4l = and_si256 q4bits M4; q4h = and_si256 (srli_epi16 q4bits 4) M4;
          q8l = sub (k8_qs bx) (j * 64) (j * 64 + 32); q8h = sub (k8_qs bx) (j * 64 + 32) (j * 64 + 64);
          scale_l = replicate 16 (ucast (fst (q4k_scale_min (q4_scales bw) (2 * j))));
          scale_h = replicate 16 (ucast (fst (q4k_scale_min (q4_scales bw) (2 * j + 1))));
          p16l = madd_epi16 scale_l (maddubs_epi16 q4l q8l);
          p16h = madd_epi16 scale_h (maddubs_epi16 q4h q8h)
      in add_epi32 sumi (add_epi32 p16l p16h))"

definition avx2_q4k_sumi :: "block_q4k \<Rightarrow> block_q8k \<Rightarrow> u32 list" where
  "avx2_q4k_sumi bw bx = foldl (\<lambda>sumi j. avx2_q4k_group bw j bx sumi) (replicate 8 0) [0..<4]"

definition avx2_q4k_block :: "'z fpu_scheme \<Rightarrow> f32 list \<times> f32 \<Rightarrow> block_q4k \<times> block_q8k \<Rightarrow> f32 list \<times> f32" where
  "avx2_q4k_block F acc wx =
     (let (bw, bx) = wx; d = fmul F (f16_to_f32 (q4_d bw)) (k8_d bx); dmin = fmul F (f16_to_f32 (q4_dmin bw)) (k8_d bx);
          acc_min = fadd F (snd acc) (fmul F dmin (f_of_int F (q4_min_sum bw bx 8)))
      in (fmadd_ps F (replicate 8 d) (cvtepi32_ps F (avx2_q4k_sumi bw bx)) (fst acc), acc_min))"

definition dot_q4k_avx2 :: "'z fpu_scheme \<Rightarrow> block_q4k list \<Rightarrow> block_q8k list \<Rightarrow> f32" where
  "dot_q4k_avx2 F w x =
     (let (acc, acc_min) = foldl (avx2_q4k_block F) (replicate 8 F_ZERO, F_ZERO) (zip w x)
      in fsub F (hsum256 F acc) acc_min)"

text \<open>In the tile the lane loops follow each other: the minimum corrections, the four groups, the scaling.\<close>

definition avx2_q4k_x4_block :: "'z fpu_scheme \<Rightarrow> block_q4k \<Rightarrow> block_q8k list \<Rightarrow> (f32 list \<times> f32) list \<Rightarrow> (f32 list \<times> f32) list" where
  "avx2_q4k_x4_block F bw bxs accs =
     (let d_w = f16_to_f32 (q4_d bw); dmin_w = f16_to_f32 (q4_dmin bw);
          mins = map2 (\<lambda>bx (acc, acc_min). fadd F acc_min (fmul F (fmul F dmin_w (k8_d bx)) (f_of_int F (q4_min_sum bw bx 8)))) bxs accs;
          sumi = foldl (\<lambda>sumi j. map2 (avx2_q4k_group bw j) bxs sumi) (replicate 4 (replicate 8 0)) [0..<4]
      in map2 (\<lambda>(bx, s, m) (acc, _). (fmadd_ps F (replicate 8 (fmul F d_w (k8_d bx))) (cvtepi32_ps F s) acc, m))
           (zip bxs (zip sumi mins)) accs)"

definition dot_q4k_avx2_x4 :: "'z fpu_scheme \<Rightarrow> block_q4k list \<Rightarrow> block_q8k list list \<Rightarrow> ('e, f32 list) outcome" where
  "dot_q4k_avx2_x4 F w xs =
     obind (tile_loop (avx2_q4k_x4_block F) (replicate 4 (replicate 8 F_ZERO, F_ZERO)) w xs) (\<lambda>accs.
     Ok (map (\<lambda>(acc, acc_min). fsub F (hsum256 F acc) acc_min) accs))"

subsection \<open>Q6_K\<close>

definition avx2_q6_planes :: "block_q6k \<Rightarrow> nat \<Rightarrow> bytes list" where
  "avx2_q6_planes bw half =
     (let ql = sub (q6_ql bw) (half * 64) (half * 64 + 64); qhbits = sub (q6_qh bw) (half * 32) (half * 32 + 32);
          q4bits1 = sub ql 0 32; q4bits2 = sub ql 32 64;
          q4h_0 = slli_epi16 (and_si256 qhbits M2) 4;
          q4h_1 = slli_epi16 (and_si256 (srli_epi16 qhbits 2) M2) 4;
          q4h_2 = slli_epi16 (and_si256 (srli_epi16 qhbits 4) M2) 4;
          q4h_3 = slli_epi16 (and_si256 (srli_epi16 qhbits 6) M2) 4
      in [or_si256 (and_si256 q4bits1 M4) q4h_0, or_si256 (and_si256 q4bits2 M4) q4h_1,
          or_si256 (and_si256 (srli_epi16 q4bits1 4) M4) q4h_2, or_si256 (and_si256 (srli_epi16 q4bits2 4) M4) q4h_3])"

definition avx2_q6_scale :: "block_q6k \<Rightarrow> nat \<Rightarrow> nat \<Rightarrow> u16 list" where
  "avx2_q6_scale bw half g =
     (let sc = sub (q6_scales bw) (half * 8) (half * 8 + 8) in replicate 8 (scast (sc ! g)) @ replicate 8 (scast (sc ! (g + 1))))"

definition avx2_q6_plane :: "block_q6k \<Rightarrow> nat \<Rightarrow> nat \<times> bytes \<Rightarrow> block_q8k \<Rightarrow> u32 list \<Rightarrow> u32 list" where
  "avx2_q6_plane bw half plane bx sumi =
     (let (n, q6) = plane; q8 = sub (k8_qs bx) (half * 128 + n * 32) (half * 128 + n * 32 + 32);
          corr = maddubs_epi16 M32S q8; p16 = sub_epi16 (maddubs_epi16 q6 q8) corr
      in add_epi32 sumi (madd_epi16 (avx2_q6_scale bw half (2 * n)) p16))"

definition avx2_q6k_sumi :: "block_q6k \<Rightarrow> block_q8k \<Rightarrow> u32 list" where
  "avx2_q6k_sumi bw bx =
     foldl (\<lambda>sumi half. foldl (\<lambda>sumi plane. avx2_q6_plane bw half plane bx sumi) sumi (enumerate 0 (avx2_q6_planes bw half)))
       (replicate 8 0) [0..<2]"

definition avx2_q6k_block :: "'z fpu_scheme \<Rightarrow> f32 list \<Rightarrow> block_q6k \<times> block_q8k \<Rightarrow> f32 list" where
  "avx2_q6k_block F acc wx =
     (let (bw, bx) = wx; d = fmul F (f16_to_f32 (q6_d bw)) (k8_d bx)
      in fmadd_ps F (replicate 8 d) (cvtepi32_ps F (avx2_q6k_sumi bw bx)) acc)"

definition dot_q6k_avx2 :: "'z fpu_scheme \<Rightarrow> block_q6k list \<Rightarrow> block_q8k list \<Rightarrow> f32" where
  "dot_q6k_avx2 F w x = hsum256 F (foldl (avx2_q6k_block F) (replicate 8 F_ZERO) (zip w x))"

definition avx2_q6k_x4_block :: "'z fpu_scheme \<Rightarrow> block_q6k \<Rightarrow> block_q8k list \<Rightarrow> f32 list list \<Rightarrow> f32 list list" where
  "avx2_q6k_x4_block F bw bxs accs =
     (let d_w = f16_to_f32 (q6_d bw);
          sumi = foldl (\<lambda>sumi half. foldl (\<lambda>sumi plane. map2 (avx2_q6_plane bw half plane) bxs sumi) sumi
                   (enumerate 0 (avx2_q6_planes bw half))) (replicate 4 (replicate 8 0)) [0..<2]
      in map2 (\<lambda>(bx, s) acc. fmadd_ps F (replicate 8 (fmul F d_w (k8_d bx))) (cvtepi32_ps F s) acc) (zip bxs sumi) accs)"

definition dot_q6k_avx2_x4 :: "'z fpu_scheme \<Rightarrow> block_q6k list \<Rightarrow> block_q8k list list \<Rightarrow> ('e, f32 list) outcome" where
  "dot_q6k_avx2_x4 F w xs =
     obind (tile_loop (avx2_q6k_x4_block F) (replicate 4 (replicate 8 F_ZERO)) w xs) (\<lambda>accs. Ok (map (hsum256 F) accs))"

subsection \<open>Four lanes are four kernels\<close>

lemma avx2_q8_x4_block_lanes: "avx2_q8_x4_block F bw bxs st = map2 (\<lambda>bx acc. avx2_q8_block F acc (bw, bx)) bxs st"
  by (simp add: avx2_q8_x4_block_def avx2_q8_block_def avx2_q8_lanes_def Let_def)

lemma dot_q8_avx2_x4_lanes:
  assumes "length xs = 4" and "\<forall>x \<in> set xs. length w \<le> length x"
  shows "dot_q8_avx2_x4 F w xs = Ok (map (dot_q8_avx2 F w) xs)"
  unfolding dot_q8_avx2_x4_def
  by (subst tile_lanes [where xs = xs and f = "\<lambda>bw bx acc. avx2_q8_block F acc (bw, bx)", unfolded assms(1)])
    (use assms in \<open>simp_all add: avx2_q8_x4_block_lanes dot_q8_avx2_def [abs_def]\<close>)

lemma avx2_q4k_x4_block_lanes:
  assumes "length bxs = 4" and "length st = 4"
  shows "avx2_q4k_x4_block F bw bxs st = map2 (\<lambda>bx acc. avx2_q4k_block F acc (bw, bx)) bxs st"
  unfolding avx2_q4k_x4_block_def avx2_q4k_block_def avx2_q4k_sumi_def Let_def
  using assms by (simp add: foldl_lanes [where f = "avx2_q4k_group bw"] map_replicate_lanes)
    (auto intro!: nth_equalityI simp: split_def)

lemma dot_q4k_avx2_x4_lanes:
  assumes "length xs = 4" and "\<forall>x \<in> set xs. length w \<le> length x"
  shows "dot_q4k_avx2_x4 F w xs = Ok (map (dot_q4k_avx2 F w) xs)"
  unfolding dot_q4k_avx2_x4_def
  by (subst tile_lanes [where xs = xs and f = "\<lambda>bw bx acc. avx2_q4k_block F acc (bw, bx)", unfolded assms(1)])
    (use assms in \<open>simp_all add: avx2_q4k_x4_block_lanes dot_q4k_avx2_def [abs_def] Let_def\<close>)

lemma avx2_q6k_x4_block_lanes:
  assumes "length bxs = 4" and "length st = 4"
  shows "avx2_q6k_x4_block F bw bxs st = map2 (\<lambda>bx acc. avx2_q6k_block F acc (bw, bx)) bxs st"
  unfolding avx2_q6k_x4_block_def avx2_q6k_block_def avx2_q6k_sumi_def Let_def
  using assms by (simp add: foldl_lanes_nested [where f = "avx2_q6_plane bw" and ps = "\<lambda>half. enumerate 0 (avx2_q6_planes bw half)"] map_replicate_lanes)
    (auto intro!: nth_equalityI simp: split_def)

lemma dot_q6k_avx2_x4_lanes:
  assumes "length xs = 4" and "\<forall>x \<in> set xs. length w \<le> length x"
  shows "dot_q6k_avx2_x4 F w xs = Ok (map (dot_q6k_avx2 F w) xs)"
  unfolding dot_q6k_avx2_x4_def
  by (subst tile_lanes [where xs = xs and f = "\<lambda>bw bx acc. avx2_q6k_block F acc (bw, bx)", unfolded assms(1)])
    (use assms in \<open>simp_all add: avx2_q6k_x4_block_lanes dot_q6k_avx2_def [abs_def]\<close>)

subsection \<open>Lanes and their integer sums\<close>

definition psum :: "int list \<Rightarrow> int list" where "psum xs = map (\<lambda>(a, b). a + b) (pairs xs)"

lemma sum_psum: "even (length xs) \<Longrightarrow> sum_list (psum xs) = sum_list xs"
  by (induction xs rule: pairs.induct) (auto simp: psum_def)

lemma length_psum: "length (psum xs) = length xs div 2"
  by (simp add: psum_def length_pairs)

lemma psum_bound: "\<forall>x \<in> set xs. \<bar>x\<bar> \<le> c \<Longrightarrow> z \<in> set (psum xs) \<Longrightarrow> \<bar>z\<bar> \<le> 2 * c"
  by (induction xs rule: pairs.induct) (auto simp: psum_def)

lemma pairs_map: "pairs (map f xs) = map (\<lambda>(a, b). (f a, f b)) (pairs xs)"
  by (induction xs rule: pairs.induct) auto

lemma set_pairs: "(a, b) \<in> set (pairs xs) \<Longrightarrow> a \<in> set xs \<and> b \<in> set xs"
  by (induction xs rule: pairs.induct) auto

lemma maddubs_exact:
  assumes "\<forall>(x, y) \<in> set (zip a b). \<bar>uint x * i8 y\<bar> \<le> 16383"
  shows "map i16 (maddubs_epi16 a b) = psum (map (\<lambda>(x, y). uint x * i8 y) (zip a b))"
proof -
  have "i16 (sat16 (uint x0 * i8 y0 + uint x1 * i8 y1)) = uint x0 * i8 y0 + uint x1 * i8 y1"
    if "((x0, y0), (x1, y1)) \<in> set (pairs (zip a b))" for x0 y0 x1 y1
  proof -
    have "(x0, y0) \<in> set (zip a b)" "(x1, y1) \<in> set (zip a b)" using set_pairs [OF that] by auto
    then have "\<bar>uint x0 * i8 y0\<bar> \<le> 16383" "\<bar>uint x1 * i8 y1\<bar> \<le> 16383" using assms by auto
    then have r: "- 32768 \<le> uint x0 * i8 y0 + uint x1 * i8 y1" "uint x0 * i8 y0 + uint x1 * i8 y1 \<le> 32767" by linarith+
    then have "max (- 32768) (min 32767 (uint x0 * i8 y0 + uint x1 * i8 y1)) = uint x0 * i8 y0 + uint x1 * i8 y1" by simp
    then show ?thesis using i16_of_int [OF r] by (simp only: sat16_def)
  qed
  then show ?thesis by (simp add: maddubs_epi16_def psum_def pairs_map) (fastforce simp: )
qed

definition lanes_sum :: "u32 list \<Rightarrow> int \<Rightarrow> int \<Rightarrow> bool" where
  "lanes_sum v t c \<longleftrightarrow> (\<exists>zs. length zs = 8 \<and> v = map of_int zs \<and> (\<forall>z \<in> set zs. \<bar>z\<bar> \<le> c) \<and> sum_list zs = t)"

lemma lanes_sum_zero: "lanes_sum (replicate 8 0) 0 0"
  unfolding lanes_sum_def by (rule exI [of _ "replicate 8 0"]) (simp add: sum_list_replicate)

lemma lanes_sum_add:
  assumes "lanes_sum v t c" and "lanes_sum v' t' c'"
  shows "lanes_sum (add_epi32 v v') (t + t') (c + c')"
proof -
  obtain zs zs' where z: "length zs = 8" "v = map of_int zs" "\<forall>z \<in> set zs. \<bar>z\<bar> \<le> c" "sum_list zs = t"
      "length zs' = 8" "v' = map of_int zs'" "\<forall>z \<in> set zs'. \<bar>z\<bar> \<le> c'" "sum_list zs' = t'"
    using assms by (auto simp: lanes_sum_def)
  have "\<bar>x + y\<bar> \<le> c + c'" if "(x, y) \<in> set (zip zs zs')" for x y
  proof -
    have "\<bar>x\<bar> \<le> c" "\<bar>y\<bar> \<le> c'" using z(3,7) that by (auto dest: set_zip_leftD set_zip_rightD)
    then show ?thesis by linarith
  qed
  moreover have "add_epi32 v v' = map of_int (map2 (+) zs zs')"
    unfolding add_epi32_def z(2,6) by (rule nth_equalityI) (simp_all add: z)
  moreover have "sum_list (map2 (+) zs zs') = t + t'"
    using z sum_list_addf [of fst snd "zip zs zs'"] by (simp add: split_def map_fst_zip_take map_snd_zip_take)
  ultimately show ?thesis unfolding lanes_sum_def using z by (intro exI [of _ "map2 (+) zs zs'"]) auto
qed

lemma lanes_sum_madd:
  assumes "length s = 16" and "length p = 16" and "\<forall>(x, y) \<in> set (zip s p). \<bar>i16 x * i16 y\<bar> \<le> c"
  shows "lanes_sum (madd_epi16 s p) (sum_list (map2 (\<lambda>x y. i16 x * i16 y) s p)) (2 * c)"
  unfolding lanes_sum_def
proof (intro exI conjI)
  let ?zs = "psum (map2 (\<lambda>x y. i16 x * i16 y) s p)"
  show "length ?zs = 8" using assms by (simp add: length_psum)
  show "madd_epi16 s p = map of_int ?zs" by (auto simp: madd_epi16_def psum_def pairs_map split_def)
  show "\<forall>z \<in> set ?zs. \<bar>z\<bar> \<le> 2 * c"
  proof
    fix z
    assume "z \<in> set ?zs"
    then show "\<bar>z\<bar> \<le> 2 * c" by (rule psum_bound [rotated]) (use assms(3) in auto)
  qed
  show "sum_list ?zs = sum_list (map2 (\<lambda>x y. i16 x * i16 y) s p)" using assms by (intro sum_psum) simp
qed

lemma lanes_sum_total: "lanes_sum v t c \<Longrightarrow> c < 2 ^ 31 \<Longrightarrow> sum_list (map sint v) = t"
proof -
  assume "lanes_sum v t c" "c < 2 ^ 31"
  then obtain zs where z: "v = map of_int zs" "\<forall>z \<in> set zs. \<bar>z\<bar> < 2 ^ 31" "sum_list zs = t"
    by (fastforce simp: lanes_sum_def)
  have "map sint v = zs" unfolding z(1) using z(2) i32_of_int by (simp add: map_idI)
  then show ?thesis using z(3) by simp
qed

text \<open>Sixteen-bit shifts of byte vectors, once the bits that cross a byte are masked off.\<close>

lemma to_le_2: "to_le 2 v = [ucast v, ucast (drop_bit 8 v)]"
  by (simp add: numeral_2_eq_2)

lemma mask_srli:
  assumes "n + k \<le> 8" "even (length v)"
  shows "and_si256 (srli_epi16 v n) (replicate (length v) (mask k)) = map (\<lambda>b. drop_bit n b AND mask k) v"
  using assms(2)
proof (induction v rule: pairs.induct)
  case (1 lo hi r)
  have "ucast (drop_bit n (le_word [lo, hi] :: u16)) AND mask k = drop_bit n lo AND (mask k :: byte)"
    by (rule bit_word_eqI) (use assms(1) in \<open>auto simp: bit_simps\<close>)
  moreover have "ucast (drop_bit 8 (drop_bit n (le_word [lo, hi] :: u16))) AND mask k = drop_bit n hi AND (mask k :: byte)"
    by (rule bit_word_eqI) (use assms(1) in \<open>auto simp: bit_simps ac_simps\<close>)
  ultimately show ?case using 1 by (simp add: and_si256_def srli_epi16_def to_le_2 del: le_word.simps drop_bit_drop_bit)
qed (simp_all add: and_si256_def srli_epi16_def)

lemma slli_small:
  assumes "n + k \<le> 8" "even (length v)" "\<forall>b \<in> set v. b AND mask k = b"
  shows "slli_epi16 v n = map (push_bit n) v"
  using assms(2,3)
proof (induction v rule: pairs.induct)
  case (1 lo hi r)
  have b: "bit b i \<Longrightarrow> i < k" if "b \<in> {lo, hi}" for b i
  proof -
    assume "bit b i"
    moreover have "b AND mask k = b" using 1(3) that by auto
    ultimately show "i < k" by (metis bit_and_iff bit_mask_iff)
  qed
  have "ucast (push_bit n (le_word [lo, hi] :: u16)) = (push_bit n lo :: byte)"
    by (rule bit_word_eqI) (auto simp: bit_simps)
  moreover have "ucast (drop_bit 8 (push_bit n (le_word [lo, hi] :: u16))) = (push_bit n hi :: byte)"
    by (rule bit_word_eqI) (use assms(1) b in \<open>fastforce simp: bit_simps\<close>)
  ultimately show ?case using 1 by (simp add: slli_epi16_def to_le_2 del: le_word.simps)
qed (simp_all add: slli_epi16_def)

lemma i8_of_uint: "of_int (i8 w) = w" by (simp add: i8_def)

lemma uint_of_small: "0 \<le> z \<Longrightarrow> z < 256 \<Longrightarrow> uint (of_int z :: byte) = z"
  by (simp add: uint_word_of_int)

lemma uint_nonneg_i8: "0 \<le> i8 w \<Longrightarrow> uint w = i8 w"
  using uint_of_small [of "i8 w"] i8_range [of w] by (simp add: i8_of_uint)

lemma uint_minus_i8: "i8 w \<le> 0 \<Longrightarrow> uint (- w) = - i8 w"
  using uint_of_small [of "- i8 w"] i8_range [of w] by (simp add: i8_of_uint)

lemma i8_minus: "i8 x \<noteq> - 128 \<Longrightarrow> i8 (- x) = - i8 x"
proof -
  assume "i8 x \<noteq> - 128"
  then have "- (2 ^ (8 - 1)) \<le> - i8 x" "- i8 x < 2 ^ (8 - 1)" using i8_range [of x] by simp_all
  then have "sint (of_int (- i8 x) :: byte) = - i8 x" by (intro sint_of_int_small) simp_all
  then show ?thesis by (simp add: i8_of_uint) (simp add: i8_def)
qed

lemma sign_products:
  assumes "i8 x \<noteq> - 128"
  shows "uint (if i8 w < 0 then - w else if w = 0 then 0 else w) * i8 (if i8 w < 0 then - x else if w = 0 then 0 else x) = i8 w * i8 x"
proof -
  have "i8 (0 :: byte) = 0" by (simp add: i8_def)
  then show ?thesis using assms uint_minus_i8 [of w] uint_nonneg_i8 [of w] i8_minus [of x] by (cases "i8 w < 0"; cases "w = 0") simp_all
qed

lemma avx2_q8_lanes_sum:
  assumes "length qw = 32" and "length qx = 32" and "\<forall>b \<in> set qx. i8 b \<noteq> - 128"
  shows "lanes_sum (avx2_q8_lanes qw qx) (prods qw qx) 65536"
proof -
  let ?a = "sign_epi8 qw qw" and ?b = "sign_epi8 qx qw"
  have z: "zip ?a ?b = map (\<lambda>(w, x). (if i8 w < 0 then - w else if w = 0 then 0 else w, if i8 w < 0 then - x else if w = 0 then 0 else x)) (zip qw qx)"
    by (rule nth_equalityI) (simp_all add: sign_epi8_def assms)
  have m: "map (\<lambda>(x, y). uint x * i8 y) (zip ?a ?b) = map2 (\<lambda>x y. i8 x * i8 y) qw qx"
    unfolding z using sign_products assms(3) by (auto dest: set_zip_rightD)
  have len: "length (maddubs_epi16 ?a ?b) = 16" using assms by (simp add: maddubs_epi16_def length_pairs sign_epi8_def)
  have b: "\<forall>(x, y) \<in> set (zip ?a ?b). \<bar>uint x * i8 y\<bar> \<le> 16383"
  proof -
    have "\<bar>i8 w * i8 x\<bar> \<le> 128 * 127" if "x \<in> set qx" for w x
      using that assms(3) i8_range [of w] i8_range [of x] by (intro mult_bound) fastforce+
    then have bd: "\<bar>i8 w * i8 x\<bar> \<le> 16383" if "x \<in> set qx" for w x using that by (force intro: order_trans)
    show ?thesis
    proof clarify
      fix x y
      assume "(x, y) \<in> set (zip ?a ?b)"
      then obtain w v where wv: "(w, v) \<in> set (zip qw qx)"
          and x: "x = (if i8 w < 0 then - w else if w = 0 then 0 else w)" and y: "y = (if i8 w < 0 then - v else if w = 0 then 0 else v)"
        unfolding z by auto
      have v: "v \<in> set qx" using wv by (rule set_zip_rightD)
      with assms(3) have "i8 v \<noteq> - 128" by blast
      from sign_products [OF this, of w] bd [OF v, of w] show "\<bar>uint x * i8 y\<bar> \<le> 16383" unfolding x y by (simp only:)
    qed
  qed
  have one: "i16 1 = 1" by (simp add: i16_def)
  have p: "map2 (\<lambda>x y. i16 x * i16 y) (maddubs_epi16 ?a ?b) (replicate 16 1) = map i16 (maddubs_epi16 ?a ?b)"
    using len by (auto intro!: nth_equalityI simp: one)
  have r: "\<bar>i16 x * i16 y\<bar> \<le> 32768" if "(x, y) \<in> set (zip (maddubs_epi16 ?a ?b) (replicate 16 1))" for x y
  proof -
    have "y = 1" using that by (auto dest: set_zip_rightD)
    then show ?thesis using i16_range [of x] by (simp add: one abs_le_iff)
  qed
  have "sum_list (map i16 (maddubs_epi16 ?a ?b)) = prods qw qx"
    using assms by (simp add: maddubs_exact [OF b] m sum_psum prods_def)
  then show ?thesis
    using lanes_sum_madd [of "maddubs_epi16 ?a ?b" "replicate 16 1" 32768] len r by (auto simp: avx2_q8_lanes_def Let_def p)
qed

lemma sum_list_times: "sum_list (map ((*) c) xs) = c * sum_list (xs :: int list)"
  by (induction xs) (simp_all add: distrib_left)

text \<open>A constant multiplier on one vector of products.\<close>

lemma lanes_sum_scaled:
  assumes "length a = 32" and "length b = 32" and "\<forall>x \<in> set a. uint x \<le> 63" and "\<bar>i16 s\<bar> \<le> 255"
  shows "lanes_sum (madd_epi16 (replicate 16 s) (maddubs_epi16 a b)) (i16 s * sum_list (map2 (\<lambda>x y. uint x * i8 y) a b)) 16711680"
proof -
  have "\<bar>uint x * i8 y\<bar> \<le> 63 * 128" if "x \<in> set a" for x y
    using assms(3) that uint_byte [of x] i8_range [of y] by (intro mult_bound) fastforce+
  then have "\<bar>uint x * i8 y\<bar> \<le> 16383" if "x \<in> set a" for x y using that by (force intro: order_trans)
  then have m: "map i16 (maddubs_epi16 a b) = psum (map2 (\<lambda>x y. uint x * i8 y) a b)"
    by (intro maddubs_exact) (auto dest: set_zip_leftD)
  have len: "length (maddubs_epi16 a b) = 16" using assms by (simp add: maddubs_epi16_def length_pairs)
  have "map2 (\<lambda>x y. i16 x * i16 y) (replicate 16 s) (maddubs_epi16 a b) = map ((*) (i16 s)) (map i16 (maddubs_epi16 a b))"
    using len by (auto intro!: nth_equalityI)
  then have t: "sum_list (map2 (\<lambda>x y. i16 x * i16 y) (replicate 16 s) (maddubs_epi16 a b)) = i16 s * sum_list (map2 (\<lambda>x y. uint x * i8 y) a b)"
    using assms by (simp add: m sum_list_times sum_psum)
  have "\<bar>i16 x * i16 y\<bar> \<le> 255 * 32768" if "(x, y) \<in> set (zip (replicate 16 s) (maddubs_epi16 a b))" for x y
  proof (rule mult_bound)
    show "\<bar>i16 x\<bar> \<le> 255" using that assms(4) by (auto dest: set_zip_leftD)
    show "\<bar>i16 y\<bar> \<le> 32768" using i16_range [of y] by linarith
  qed
  then show ?thesis
    using lanes_sum_madd [of "replicate 16 s" "maddubs_epi16 a b" "255 * 32768"] len by (auto simp: t)
qed

lemma i16_ucast: "i16 (ucast (b :: byte)) = uint b"
proof -
  have "i16 (of_int (uint b)) = uint b" by (rule i16_of_int) (use uint_byte [of b] in linarith)+
  then show ?thesis by simp
qed

lemma i16_scast: "i16 (scast (b :: byte)) = i8 b"
proof -
  have "i16 (of_int (i8 b)) = i8 b" by (rule i16_of_int) (use i8_range [of b] in linarith)+
  then show ?thesis by (simp add: i8_def)
qed

lemma q4_sub_sum_uint:
  assumes "length (q4_qs bw) = 128" and "length (k8_qs bx) = 256" and "j < 8"
  shows "q4_sub_sum bw bx j = sum_list (map2 (\<lambda>x y. uint x * i8 y)
     (map (\<lambda>b. if j mod 2 = 1 then drop_bit 4 b else b AND 0x0F) (sub (q4_qs bw) (j div 2 * 32) (j div 2 * 32 + 32)))
     (sub (k8_qs bx) (j * 32) (j * 32 + 32)))"
proof -
  have "j div 2 \<le> 3" using assms(3) by linarith
  then have c: "j div 2 * 32 + 32 \<le> 128" "j * 32 + 32 \<le> 256" using assms(3) by simp_all
  have "map2 (\<lambda>x y. uint x * i8 y)
     (map (\<lambda>b. if j mod 2 = 1 then drop_bit 4 b else b AND 0x0F) (sub (q4_qs bw) (j div 2 * 32) (j div 2 * 32 + 32)))
     (sub (k8_qs bx) (j * 32) (j * 32 + 32)) = map (\<lambda>k. q4_nibble bw j k * i8 (k8_qs bx ! (j * 32 + k))) [0..<32]"
    using assms c by (intro nth_equalityI) (simp_all add: q4_nibble_def Let_def)
  then show ?thesis by (simp add: q4_sub_sum_def foldl_sum)
qed

lemma avx2_q4k_group_sum:
  assumes wf: "length (q4_qs bw) = 128" "length (k8_qs bx) = 256" and j: "j < 4" and v: "lanes_sum v t c"
  shows "lanes_sum (avx2_q4k_group bw j bx v)
    (t + (uint (fst (q4k_scale_min (q4_scales bw) (2 * j))) * q4_sub_sum bw bx (2 * j)
        + uint (fst (q4k_scale_min (q4_scales bw) (2 * j + 1))) * q4_sub_sum bw bx (2 * j + 1))) (c + 33423360)"
proof -
  let ?q = "sub (q4_qs bw) (j * 32) (j * 32 + 32)"
  have q: "length ?q = 32" using wf j by simp
  have lo: "and_si256 ?q M4 = map (\<lambda>b. b AND 0x0F) ?q"
    using q by (auto intro!: nth_equalityI simp: and_si256_def M4_def)
  have "and_si256 (srli_epi16 ?q 4) (replicate (length ?q) (mask 4)) = map (\<lambda>b. drop_bit 4 b AND mask 4) ?q"
    by (rule mask_srli) (simp, simp only: q even_numeral)
  moreover have "drop_bit 4 b AND mask 4 = drop_bit 4 b" for b :: byte
    by (rule bit_word_eqI) (auto simp: bit_simps dest: bit_imp_le_length)
  ultimately have hi: "and_si256 (srli_epi16 ?q 4) M4 = map (drop_bit 4) ?q"
    using q by (simp add: M4_def byte_masks(2))
  have le: "uint x \<le> 63" if "x \<in> set (map (\<lambda>b. b AND 0x0F) ?q) \<union> set (map (drop_bit 4) ?q)" for x
    using that drop_4_le uint_and_le [of _ "0x0F"] by (force intro: order_trans)
  have s: "\<bar>i16 (ucast b)\<bar> \<le> 255" for b :: byte using uint_byte [of b] by (simp add: i16_ucast)
  have x: "length (sub (k8_qs bx) (j * 64) (j * 64 + 32)) = 32" "length (sub (k8_qs bx) (j * 64 + 32) (j * 64 + 64)) = 32"
    using wf j by simp_all
  have e: "(2 * j) * 32 = j * 64" "(2 * j + 1) * 32 = j * 64 + 32" "(2 * j) div 2 = j" "(2 * j + 1) div 2 = j" "(2 * j) mod 2 = 0" "(2 * j + 1) mod 2 = 1" "j * 64 + 32 + 32 = j * 64 + 64"
    by simp_all
  have sums: "q4_sub_sum bw bx (2 * j) = sum_list (map2 (\<lambda>x y. uint x * i8 y) (map (\<lambda>b. b AND 0x0F) ?q) (sub (k8_qs bx) (j * 64) (j * 64 + 32)))"
      "q4_sub_sum bw bx (2 * j + 1) = sum_list (map2 (\<lambda>x y. uint x * i8 y) (map (drop_bit 4) ?q) (sub (k8_qs bx) (j * 64 + 32) (j * 64 + 64)))"
    using q4_sub_sum_uint [OF wf, of "2 * j"] q4_sub_sum_uint [OF wf, of "2 * j + 1"] j unfolding e by simp_all
  note low = lanes_sum_scaled [of "map (\<lambda>b. b AND 0x0F) ?q" "sub (k8_qs bx) (j * 64) (j * 64 + 32)" "ucast (fst (q4k_scale_min (q4_scales bw) (2 * j)))"]
  note high = lanes_sum_scaled [of "map (drop_bit 4) ?q" "sub (k8_qs bx) (j * 64 + 32) (j * 64 + 64)" "ucast (fst (q4k_scale_min (q4_scales bw) (2 * j + 1)))"]
  have "lanes_sum (avx2_q4k_group bw j bx v) (t + (i16 (ucast (fst (q4k_scale_min (q4_scales bw) (2 * j)))) * q4_sub_sum bw bx (2 * j)
        + i16 (ucast (fst (q4k_scale_min (q4_scales bw) (2 * j + 1)))) * q4_sub_sum bw bx (2 * j + 1))) (c + (16711680 + 16711680))"
    unfolding avx2_q4k_group_def Let_def lo hi sums
    by (intro lanes_sum_add v low high) (use q x le s in auto)
  then show ?thesis by (simp add: i16_ucast)
qed

lemma avx2_q4k_sumi_sum:
  assumes wf: "wf_q4k bw" "wf_q8k bx"
  shows "lanes_sum (avx2_q4k_sumi bw bx) (sum_list (map (\<lambda>j. uint (fst (q4k_scale_min (q4_scales bw) j)) * q4_sub_sum bw bx j) [0..<8])) 133693440"
proof -
  have l: "length (q4_qs bw) = 128" "length (k8_qs bx) = 256" using wf by (simp_all add: wf_q4k_def wf_q8k_def)
  have "lanes_sum (foldl (\<lambda>sumi j. avx2_q4k_group bw j bx sumi) (replicate 8 0) [0..<n])
      (sum_list (map (\<lambda>j. uint (fst (q4k_scale_min (q4_scales bw) j)) * q4_sub_sum bw bx j) [0..<2 * n])) (int n * 33423360)" if "n \<le> 4" for n
    using that
  proof (induction n)
    case 0
    then show ?case using lanes_sum_zero by simp
  next
    case (Suc n)
    then have "n < 4" "n \<le> 4" by simp_all
    moreover have "sum_list (map f [0..<2 * Suc n]) = sum_list (map f [0..<2 * n]) + (f (2 * n) + f (2 * n + 1))" for f :: "nat \<Rightarrow> int" by simp
    moreover have "int (Suc n) * 33423360 = int n * 33423360 + 33423360" by simp
    ultimately show ?case using avx2_q4k_group_sum [OF l \<open>n < 4\<close> Suc.IH] by (simp only: upt_Suc_append le0 foldl_append foldl.simps)
  qed
  from this [of 4] show ?thesis by (simp add: avx2_q4k_sumi_def)
qed

lemma psum_diff: "length xs = length ys \<Longrightarrow> map2 (-) (psum xs) (psum ys) = psum (map2 (-) xs ys)"
proof (induction xs arbitrary: ys rule: pairs.induct)
  case (1 a b r)
  then obtain c d ys' where "ys = c # d # ys'" "length r = length ys'" by (cases ys; cases "tl ys") auto
  with 1 show ?case by (simp add: psum_def)
qed (auto simp: psum_def Suc_length_conv)

lemma i16_diff: "- 32768 \<le> i16 a - i16 b \<Longrightarrow> i16 a - i16 b \<le> 32767 \<Longrightarrow> i16 (a - b) = i16 a - i16 b"
  using i16_of_int [of "i16 a - i16 b"] by (simp add: i16_def)

lemma maddubs_small:
  assumes "length a = length b" and "\<forall>x \<in> set a. uint x \<le> m" and "m * 128 \<le> 16383" and "0 \<le> m"
  shows "map i16 (maddubs_epi16 a b) = psum (map2 (\<lambda>x y. uint x * i8 y) a b)" "\<forall>z \<in> set (map i16 (maddubs_epi16 a b)). \<bar>z\<bar> \<le> 2 * (m * 128)"
proof -
  have b: "\<bar>uint x * i8 y\<bar> \<le> m * 128" if "x \<in> set a" for x y
    using assms(2) that uint_byte [of x] i8_range [of y] by (intro mult_bound) fastforce+
  then have "\<bar>uint x * i8 y\<bar> \<le> 16383" if "x \<in> set a" for x y using that assms(3) by (force intro: order_trans)
  then show m: "map i16 (maddubs_epi16 a b) = psum (map2 (\<lambda>x y. uint x * i8 y) a b)"
    by (intro maddubs_exact) (auto dest: set_zip_leftD)
  show "\<forall>z \<in> set (map i16 (maddubs_epi16 a b)). \<bar>z\<bar> \<le> 2 * (m * 128)"
    unfolding m
  proof
    fix z
    assume "z \<in> set (psum (map2 (\<lambda>x y. uint x * i8 y) a b))"
    then show "\<bar>z\<bar> \<le> 2 * (m * 128)" by (rule psum_bound [rotated]) (use b in \<open>auto dest: set_zip_leftD\<close>)
  qed
qed

lemma q6_products:
  assumes "length q6 = 32" and "length q8 = 32" and "\<forall>x \<in> set q6. uint x \<le> 63"
  shows "map i16 (sub_epi16 (maddubs_epi16 q6 q8) (maddubs_epi16 M32S q8)) = psum (map2 (\<lambda>x y. (uint x - 32) * i8 y) q6 q8)"
proof -
  let ?A = "maddubs_epi16 q6 q8" and ?B = "maddubs_epi16 M32S q8"
  have M: "length M32S = 32" "\<forall>x \<in> set M32S. uint x \<le> 32" by (simp_all add: M32S_def)
  note a = maddubs_small [of q6 q8 63, unfolded assms, simplified, OF assms(3)]
  note b = maddubs_small [of M32S q8 32, unfolded M assms, simplified, OF M(2)]
  have len: "length ?A = 16" "length ?B = 16" using assms M by (simp_all add: maddubs_epi16_def length_pairs)
  have "i16 (x - y) = i16 x - i16 y" if "(x, y) \<in> set (zip ?A ?B)" for x y
  proof -
    have "\<bar>i16 x\<bar> \<le> 16128" "\<bar>i16 y\<bar> \<le> 8192"
      using a(2) b(2) set_zip_leftD [OF that] set_zip_rightD [OF that] by simp_all
    then show ?thesis by (intro i16_diff) linarith+
  qed
  then have "map i16 (sub_epi16 ?A ?B) = map2 (-) (map i16 ?A) (map i16 ?B)"
    unfolding sub_epi16_def by (auto simp: zip_map1 zip_map2 intro!: map_cong)
  also have "\<dots> = psum (map2 (-) (map2 (\<lambda>x y. uint x * i8 y) q6 q8) (map2 (\<lambda>x y. uint x * i8 y) M32S q8))"
    unfolding a(1) b(1) by (rule psum_diff) (simp add: assms M)
  also have "map2 (-) (map2 (\<lambda>x y. uint x * i8 y) q6 q8) (map2 (\<lambda>x y. uint x * i8 y) M32S q8) = map2 (\<lambda>x y. (uint x - 32) * i8 y) q6 q8"
    using assms M by (intro nth_equalityI) (simp_all add: M32S_def left_diff_distrib)
  finally show ?thesis .
qed

lemma psum_append: "even (length xs) \<Longrightarrow> psum (xs @ ys) = psum xs @ psum ys"
  by (induction xs rule: pairs.induct) (simp_all add: psum_def)

lemma lanes_sum_q6:
  assumes "length q6 = 32" and "length q8 = 32" and "\<forall>x \<in> set q6. uint x \<le> 63"
  shows "lanes_sum (madd_epi16 (replicate 8 (scast s0) @ replicate 8 (scast s1)) (sub_epi16 (maddubs_epi16 q6 q8) (maddubs_epi16 M32S q8)))
    (i8 s0 * sum_list (map (\<lambda>l. (uint (q6 ! l) - 32) * i8 (q8 ! l)) [0..<16])
     + i8 s1 * sum_list (map (\<lambda>l. (uint (q6 ! l) - 32) * i8 (q8 ! l)) [16..<32])) 8388608"
proof -
  let ?p = "sub_epi16 (maddubs_epi16 q6 q8) (maddubs_epi16 M32S q8)"
  let ?s = "replicate 8 (scast s0) @ replicate 8 (scast s1) :: u16 list"
  let ?f = "\<lambda>l. (uint (q6 ! l) - 32) * i8 (q8 ! l)"
  have "length (map i16 ?p) = length (psum (map2 (\<lambda>x y. (uint x - 32) * i8 y) q6 q8))" using q6_products [OF assms] by (rule arg_cong)
  then have len: "length ?p = 16" using assms by (simp add: length_psum)
  have "map2 (\<lambda>x y. (uint x - 32) * i8 y) q6 q8 = map ?f [0..<32]" using assms by (intro nth_equalityI) simp_all
  also have "[0..<32] = [0..<16] @ [16..<32]" by (simp add: upt_conv_Cons)
  finally have m: "map i16 ?p = psum (map ?f [0..<16]) @ psum (map ?f [16..<32])"
    unfolding q6_products [OF assms] by (simp only: map_append) (rule psum_append, simp)
  have "map2 (\<lambda>x y. i16 x * i16 y) ?s ?p = map2 (*) (map i16 ?s) (map i16 ?p)"
    by (rule nth_equalityI) (simp_all del: map_append)
  also have "\<dots> = map2 (*) (replicate 8 (i8 s0)) (psum (map ?f [0..<16])) @ map2 (*) (replicate 8 (i8 s1)) (psum (map ?f [16..<32]))"
    unfolding m by (simp add: i16_scast length_psum zip_append)
  also have "\<dots> = map ((*) (i8 s0)) (psum (map ?f [0..<16])) @ map ((*) (i8 s1)) (psum (map ?f [16..<32]))"
    by (auto intro!: nth_equalityI simp: length_psum nth_append)
  finally have t: "sum_list (map2 (\<lambda>x y. i16 x * i16 y) ?s ?p) = i8 s0 * sum_list (map ?f [0..<16]) + i8 s1 * sum_list (map ?f [16..<32])"
    by (simp add: sum_list_times sum_psum)
  have "\<bar>i16 x * i16 y\<bar> \<le> 128 * 32768" if "(x, y) \<in> set (zip ?s ?p)" for x y
  proof (rule mult_bound)
    have "x = scast s0 \<or> x = scast s1" using set_zip_leftD [OF that] by auto
    then show "\<bar>i16 x\<bar> \<le> 128" using i8_range [of s0] i8_range [of s1] by (auto simp: i16_scast)
    show "\<bar>i16 y\<bar> \<le> 32768" using i16_range [of y] by linarith
  qed
  then show ?thesis using lanes_sum_madd [of ?s ?p "128 * 32768"] len t by auto
qed

lemma avx2_q6_planes_nth:
  assumes l: "length (q6_ql bw) = 128" "length (q6_qh bw) = 64" and h: "half < 2" and n: "n < 4"
  defines "ql \<equiv> sub (q6_ql bw) (half * 64) (half * 64 + 64)" and "qh \<equiv> sub (q6_qh bw) (half * 32) (half * 32 + 32)"
  shows "length (avx2_q6_planes bw half) = 4" "length (avx2_q6_planes bw half ! n) = 32"
    "i < 32 \<Longrightarrow> uint (avx2_q6_planes bw half ! n ! i) \<le> 63 \<and> uint (avx2_q6_planes bw half ! n ! i) - 32 = q6_quant ql qh n i"
proof -
  have hh: "half * 64 + 64 \<le> 128" "half * 32 + 32 \<le> 64" using h by linarith+
  have len: "length ql = 64" "length qh = 32" using l hh by (simp_all add: ql_def qh_def)
  have hi: "slli_epi16 (and_si256 (srli_epi16 qh s) M2) 4 = map (\<lambda>b. push_bit 4 (drop_bit s b AND 3)) qh" if "s \<le> 6" for s
  proof -
    have "even (length qh)" unfolding len by simp
    then have "and_si256 (srli_epi16 qh s) M2 = map (\<lambda>b. drop_bit s b AND 3) qh"
      using mask_srli [of s 2 qh] that len by (simp add: M2_def byte_masks(3))
    moreover have "(b AND 3) AND mask 2 = b AND (3 :: byte)" for b unfolding byte_masks by (simp add: and.assoc)
    ultimately show ?thesis using slli_small [of 4 2 "map (\<lambda>b. drop_bit s b AND 3) qh"] \<open>even (length qh)\<close> by (simp add: comp_def)
  qed
  have h0: "slli_epi16 (and_si256 qh M2) 4 = map (\<lambda>b. push_bit 4 (drop_bit 0 b AND 3)) qh"
  proof -
    have "even (length qh)" unfolding len by simp
    moreover have "and_si256 qh M2 = map (\<lambda>b. b AND 3) qh" using len by (auto intro!: nth_equalityI simp: and_si256_def M2_def)
    moreover have "(b AND 3) AND mask 2 = b AND (3 :: byte)" for b unfolding byte_masks by (simp add: and.assoc)
    ultimately show ?thesis using slli_small [of 4 2 "map (\<lambda>b. b AND 3) qh"] by (simp add: comp_def)
  qed
  have lo: "and_si256 q M4 = map (\<lambda>b. b AND 0x0F) q" if "length q = 32" for q
    using that by (auto intro!: nth_equalityI simp: and_si256_def M4_def)
  have up: "and_si256 (srli_epi16 q 4) M4 = map (drop_bit 4) q" if "length q = 32" for q
  proof -
    have "even (length q)" unfolding that by simp
    moreover have "drop_bit 4 b AND mask 4 = drop_bit 4 b" for b :: byte
      by (rule bit_word_eqI) (auto simp: bit_simps dest: bit_imp_le_length)
    ultimately show ?thesis using mask_srli [of 4 4 q] that by (simp add: M4_def byte_masks(2))
  qed
  have P: "avx2_q6_planes bw half =
      [map2 (OR) (map (\<lambda>b. b AND 0x0F) (sub ql 0 32)) (map (\<lambda>b. push_bit 4 (drop_bit 0 b AND 3)) qh),
       map2 (OR) (map (\<lambda>b. b AND 0x0F) (sub ql 32 64)) (map (\<lambda>b. push_bit 4 (drop_bit 2 b AND 3)) qh),
       map2 (OR) (map (drop_bit 4) (sub ql 0 32)) (map (\<lambda>b. push_bit 4 (drop_bit 4 b AND 3)) qh),
       map2 (OR) (map (drop_bit 4) (sub ql 32 64)) (map (\<lambda>b. push_bit 4 (drop_bit 6 b AND 3)) qh)]"
    unfolding avx2_q6_planes_def Let_def ql_def [symmetric] qh_def [symmetric]
    by (simp only: hi h0 or_si256_def) (simp add: lo up len)
  show "length (avx2_q6_planes bw half) = 4" by (simp add: P)
  have c: "n = 0 \<or> n = 1 \<or> n = 2 \<or> n = 3" using n by auto
  then show "length (avx2_q6_planes bw half ! n) = 32" using len by (elim disjE) (simp_all add: P)
  assume i: "i < 32"
  show "uint (avx2_q6_planes bw half ! n ! i) \<le> 63 \<and> uint (avx2_q6_planes bw half ! n ! i) - 32 = q6_quant ql qh n i"
    using c i len q6_byte_le(1) [of "ql ! i" "drop_bit 0 (qh ! i)"] q6_byte_le(1) [of "ql ! (i + 32)" "drop_bit 2 (qh ! i)"]
      q6_byte_le(2) [of "ql ! i" "drop_bit 4 (qh ! i)"] q6_byte_le(2) [of "ql ! (i + 32)" "drop_bit 6 (qh ! i)"]
    by (elim disjE) (simp_all add: P q6_quant_def add.commute)
qed

lemma q6_group_plane:
  assumes wf: "wf_q6k bw" "wf_q8k bx" and h: "half < 2" and n: "n < 4"
  defines "q8 \<equiv> sub (k8_qs bx) (half * 128 + n * 32) (half * 128 + n * 32 + 32)"
  shows "q6_group_sum bw bx half (2 * n) = sum_list (map (\<lambda>l. (uint (avx2_q6_planes bw half ! n ! l) - 32) * i8 (q8 ! l)) [0..<16])"
    "q6_group_sum bw bx half (2 * n + 1) = sum_list (map (\<lambda>l. (uint (avx2_q6_planes bw half ! n ! l) - 32) * i8 (q8 ! l)) [16..<32])"
proof -
  have l: "length (q6_ql bw) = 128" "length (q6_qh bw) = 64" "length (k8_qs bx) = 256" using wf by (simp_all add: wf_q6k_def wf_q8k_def)
  have hh: "half * 128 + 128 \<le> 256" using h by linarith
  let ?ql = "sub (q6_ql bw) (half * 64) (half * 64 + 64)" and ?qh = "sub (q6_qh bw) (half * 32) (half * 32 + 32)"
  have e: "q6_quant ?ql ?qh n l * i8 (sub (k8_qs bx) (half * 128) (half * 128 + 128) ! (l + 32 * n))
      = (uint (avx2_q6_planes bw half ! n ! l) - 32) * i8 (q8 ! l)" if "l < 32" for l
    using avx2_q6_planes_nth(3) [OF l(1,2) h n that] that l hh n by (simp add: q8_def ac_simps)
  have "q6_group_sum bw bx half (2 * n) = sum_list (map (\<lambda>l. q6_quant ?ql ?qh n l * i8 (sub (k8_qs bx) (half * 128) (half * 128 + 128) ! (l + 32 * n))) [0..<16])"
    "q6_group_sum bw bx half (2 * n + 1) = sum_list (map (\<lambda>l. q6_quant ?ql ?qh n l * i8 (sub (k8_qs bx) (half * 128) (half * 128 + 128) ! (l + 32 * n))) [16..<32])"
    by (simp_all add: q6_group_sum_def Let_def foldl_sum)
  moreover have "map (\<lambda>l. q6_quant ?ql ?qh n l * i8 (sub (k8_qs bx) (half * 128) (half * 128 + 128) ! (l + 32 * n))) [a..<b]
      = map (\<lambda>l. (uint (avx2_q6_planes bw half ! n ! l) - 32) * i8 (q8 ! l)) [a..<b]" if "b \<le> 32" for a b
    using that e by simp
  ultimately show "q6_group_sum bw bx half (2 * n) = sum_list (map (\<lambda>l. (uint (avx2_q6_planes bw half ! n ! l) - 32) * i8 (q8 ! l)) [0..<16])"
    "q6_group_sum bw bx half (2 * n + 1) = sum_list (map (\<lambda>l. (uint (avx2_q6_planes bw half ! n ! l) - 32) * i8 (q8 ! l)) [16..<32])"
    by (simp_all only:)
qed

lemma avx2_q6_plane_sum:
  assumes wf: "wf_q6k bw" "wf_q8k bx" and h: "half < 2" and n: "n < 4" and v: "lanes_sum v t c"
  shows "lanes_sum (avx2_q6_plane bw half (n, avx2_q6_planes bw half ! n) bx v)
    (t + (i8 (q6_scales bw ! (half * 8 + 2 * n)) * q6_group_sum bw bx half (2 * n)
        + i8 (q6_scales bw ! (half * 8 + (2 * n + 1))) * q6_group_sum bw bx half (2 * n + 1))) (c + 8388608)"
proof -
  have l: "length (q6_ql bw) = 128" "length (q6_qh bw) = 64" "length (k8_qs bx) = 256" "length (q6_scales bw) = 16"
    using wf by (simp_all add: wf_q6k_def wf_q8k_def)
  have hh: "half * 128 + 128 \<le> 256" "half * 8 + 8 \<le> 16" using h by linarith+
  note p = avx2_q6_planes_nth [OF l(1,2) h n]
  have s: "avx2_q6_scale bw half (2 * n) = replicate 8 (scast (q6_scales bw ! (half * 8 + 2 * n))) @ replicate 8 (scast (q6_scales bw ! (half * 8 + (2 * n + 1))))"
    using l hh n by (simp add: avx2_q6_scale_def Let_def)
  have le: "\<forall>x \<in> set (avx2_q6_planes bw half ! n). uint x \<le> 63" using p(2,3) by (auto simp: in_set_conv_nth)
  show ?thesis
    unfolding avx2_q6_plane_def Let_def prod.case s q6_group_plane [OF wf h n]
    by (intro lanes_sum_add v lanes_sum_q6 p(2) le) (use l hh n in simp)
qed

lemma avx2_q6k_sumi_sum:
  assumes wf: "wf_q6k bw" "wf_q8k bx"
  shows "lanes_sum (avx2_q6k_sumi bw bx)
    (sum_list (map (\<lambda>(half, g). i8 (q6_scales bw ! (half * 8 + g)) * q6_group_sum bw bx half g) (List.product [0..<2] [0..<8]))) 67108864"
proof -
  let ?G = "\<lambda>half g. i8 (q6_scales bw ! (half * 8 + g)) * q6_group_sum bw bx half g"
  have half: "lanes_sum (foldl (\<lambda>sumi plane. avx2_q6_plane bw half plane bx sumi) v (enumerate 0 (avx2_q6_planes bw half)))
      (t + sum_list (map (?G half) [0..<8])) (c + 33554432)" if h: "half < 2" and v: "lanes_sum v t c" for half v t c
  proof -
    have l: "length (q6_ql bw) = 128" "length (q6_qh bw) = 64" using wf by (simp_all add: wf_q6k_def)
    have len: "length (avx2_q6_planes bw half) = 4" using avx2_q6_planes_nth(1) [OF l h, of 0] by simp
    have e: "enumerate 0 (avx2_q6_planes bw half) = map (\<lambda>n. (n, avx2_q6_planes bw half ! n)) [0..<4]"
      by (rule nth_equalityI) (simp_all add: len nth_enumerate_eq)
    have "lanes_sum (foldl (\<lambda>sumi plane. avx2_q6_plane bw half plane bx sumi) v (map (\<lambda>n. (n, avx2_q6_planes bw half ! n)) [0..<n]))
        (t + sum_list (map (?G half) [0..<2 * n])) (c + int n * 8388608)" if "n \<le> 4" for n
      using that
    proof (induction n)
      case 0
      then show ?case using v by simp
    next
      case (Suc n)
      then have "n < 4" "n \<le> 4" by simp_all
      moreover have "t + sum_list (map f [0..<2 * Suc n]) = (t + sum_list (map f [0..<2 * n])) + (f (2 * n) + f (2 * n + 1))" for f :: "nat \<Rightarrow> int" by simp
      moreover have "c + int (Suc n) * 8388608 = (c + int n * 8388608) + 8388608" by simp
      ultimately show ?case using avx2_q6_plane_sum [OF wf h \<open>n < 4\<close> Suc.IH]
        by (simp only: upt_Suc_append le0 foldl_append foldl.simps map_append list.map)
    qed
    from this [of 4] show ?thesis by (simp add: e)
  qed
  have "lanes_sum (avx2_q6k_sumi bw bx) (0 + sum_list (map (?G 0) [0..<8]) + sum_list (map (?G 1) [0..<8])) (0 + 33554432 + 33554432)"
  proof -
    have "[0..<2] = [0, 1 :: nat]" by (simp add: upt_conv_Cons)
    then show ?thesis unfolding avx2_q6k_sumi_def by (simp only: foldl.simps) (intro half lanes_sum_zero; simp)
  qed
  moreover have "sum_list (map (\<lambda>(half, g). ?G half g) (List.product [0..<2] [0..<8])) = sum_list (map (?G 0) [0..<8]) + sum_list (map (?G 1) [0..<8])"
    by (simp add: upt_conv_Cons)
  ultimately show ?thesis by simp
qed

lemma quantize_q8_value_range: "i8 (quantize_q8_value F r v) \<noteq> - 128"
proof -
  define z where "z = max (- 127) (min 127 (f_to_i32 F (let x = fmul F v r in if f_le F_ZERO x then fadd F x F_HALF else fsub F x F_HALF)))"
  have "- (2 ^ (8 - 1)) \<le> z" "z < 2 ^ (8 - 1)" "z \<noteq> - 128" by (auto simp: z_def)
  then have "sint (of_int z :: byte) = z" by (intro sint_of_int_small) simp_all
  then show ?thesis using \<open>z \<noteq> - 128\<close> by (simp add: i8_def quantize_q8_value_def z_def Let_def)
qed

text \<open>C20: The integer half of the AVX2 kernels is exact. For a Q8_0 weight block against activations as the
  quantizer produces them, and for Q4_K and Q6_K weight blocks against any Q8_K block, the eight
  32-bit lanes add up to the integer dot product of the scalar kernel: no 16-bit product sum
  saturates, no accumulator wraps, and no nibble, high bit or scale is paired with the wrong quant.\<close>

theorem avx2_integer_exact:
  "(length (q8_qs bw) = 32 \<and> length chunk = 32 \<longrightarrow>
      sum_list (map sint (avx2_q8_lanes (q8_qs bw) (q8_qs (quantize_q8_block F chunk)))) = q8_block_sum bw (quantize_q8_block F chunk))
   \<and> (wf_q4k w4 \<and> wf_q8k bx \<longrightarrow> sum_list (map sint (avx2_q4k_sumi w4 bx))
        = sum_list (map (\<lambda>j. uint (fst (q4k_scale_min (q4_scales w4) j)) * q4_sub_sum w4 bx j) [0..<8]))
   \<and> (wf_q6k w6 \<and> wf_q8k bx \<longrightarrow> sum_list (map sint (avx2_q6k_sumi w6 bx))
        = sum_list (map (\<lambda>(half, g). i8 (q6_scales w6 ! (half * 8 + g)) * q6_group_sum w6 bx half g) (List.product [0..<2] [0..<8])))"
proof (intro conjI impI)
  assume a: "length (q8_qs bw) = 32 \<and> length chunk = 32"
  have "\<forall>b \<in> set (q8_qs (quantize_q8_block F chunk)). i8 b \<noteq> - 128" "length (q8_qs (quantize_q8_block F chunk)) = 32"
    using a quantize_q8_value_range by (auto simp: quantize_q8_block_def Let_def)
  then have "lanes_sum (avx2_q8_lanes (q8_qs bw) (q8_qs (quantize_q8_block F chunk))) (prods (q8_qs bw) (q8_qs (quantize_q8_block F chunk))) 65536"
    using a by (intro avx2_q8_lanes_sum) simp_all
  then have "sum_list (map sint (avx2_q8_lanes (q8_qs bw) (q8_qs (quantize_q8_block F chunk)))) = prods (q8_qs bw) (q8_qs (quantize_q8_block F chunk))"
    by (rule lanes_sum_total) simp
  also have "\<dots> = q8_block_sum bw (quantize_q8_block F chunk)"
    unfolding q8_block_sum_def QK8_0_def by (rule prods_index) (use a in \<open>simp_all add: quantize_q8_block_def Let_def\<close>)
  finally show "sum_list (map sint (avx2_q8_lanes (q8_qs bw) (q8_qs (quantize_q8_block F chunk)))) = q8_block_sum bw (quantize_q8_block F chunk)" .
qed (use lanes_sum_total [OF avx2_q4k_sumi_sum] lanes_sum_total [OF avx2_q6k_sumi_sum] in simp_all)

theorem avx2_integer_exact_witness:
  "sum_list (map sint (avx2_q6k_sumi demo_q6k demo_q8k))
     = sum_list (map (\<lambda>(half, g). i8 (q6_scales demo_q6k ! (half * 8 + g)) * q6_group_sum demo_q6k demo_q8k half g) (List.product [0..<2] [0..<8]))"
  by (rule avx2_integer_exact [THEN conjunct2, THEN conjunct2, THEN mp])
    (simp add: wf_q6k_def wf_q8k_def demo_q6k_def demo_q8k_def)

end
