(* ===== verification/Nr_Neon.thy ===== *)
theory Nr_Neon
  imports Nr_Simd
begin

text \<open>
  The aarch64 kernels of \<^verbatim>\<open>crates/nr-tensor/src/neon.rs\<close>, with both integer paths (\<open>sdot\<close> true for
  FEAT_DotProd). Each one-wide integer kernel equals its scalar reference bit for bit, and each
  four-wide kernel equals the one-wide kernel in every lane.
\<close>

subsection \<open>Q8_0\<close>

definition neon_q8_block_dot :: "bool \<Rightarrow> block_q8_0 \<Rightarrow> block_q8_0 \<Rightarrow> int" where
  "neon_q8_block_dot sdot bw bx =
     dot_i8x32 sdot (sub (q8_qs bw) 0 16) (sub (q8_qs bw) 16 32) (sub (q8_qs bx) 0 16) (sub (q8_qs bx) 16 32)"

definition neon_dot_q8 :: "'z fpu_scheme \<Rightarrow> bool \<Rightarrow> block_q8_0 list \<Rightarrow> block_q8_0 list \<Rightarrow> f32" where
  "neon_dot_q8 F sdot w x =
     foldl (\<lambda>s (bw, bx). fadd F s (fmul F (fmul F (f_of_int F (neon_q8_block_dot sdot bw bx)) (q8_scale bw)) (q8_scale bx)))
       F_ZERO (zip w x)"

definition neon_q8_x4_block :: "'z fpu_scheme \<Rightarrow> bool \<Rightarrow> block_q8_0 \<Rightarrow> block_q8_0 list \<Rightarrow> f32 list \<Rightarrow> f32 list" where
  "neon_q8_x4_block F sdot bw bxs ss =
     (let w0 = sub (q8_qs bw) 0 16; w1 = sub (q8_qs bw) 16 32; dw = q8_scale bw in
      map2 (\<lambda>bx s. fadd F s (fmul F (fmul F
              (f_of_int F (dot_i8x32 sdot w0 w1 (sub (q8_qs bx) 0 16) (sub (q8_qs bx) 16 32))) dw) (q8_scale bx))) bxs ss)"

definition neon_dot_q8_x4 :: "'z fpu_scheme \<Rightarrow> bool \<Rightarrow> block_q8_0 list \<Rightarrow> block_q8_0 list list \<Rightarrow> ('e, f32 list) outcome" where
  "neon_dot_q8_x4 F sdot w xs = tile_loop (neon_q8_x4_block F sdot) (replicate 4 F_ZERO) w xs"

subsection \<open>Half-precision rows\<close>

text \<open>Sixteen bytes of half floats become two vectors of four; the tail is scalar.\<close>

definition neon_dot_f16_chunk :: "'z fpu_scheme \<Rightarrow> f32 list \<times> f32 list \<Rightarrow> f16 list \<times> f32 list \<Rightarrow> f32 list \<times> f32 list" where
  "neon_dot_f16_chunk F acc kq =
     (let (acc0, acc1) = acc; (k, q) = kq; kf = map f16_to_f32 k in
      (vfmaq_f32 F acc0 (take 4 kf) (take 4 q), vfmaq_f32 F acc1 (drop 4 kf) (drop 4 q)))"

definition neon_dot_f16 :: "'z fpu_scheme \<Rightarrow> f16 list \<Rightarrow> f32 list \<Rightarrow> f32" where
  "neon_dot_f16 F k q =
     (let n = min (length k) (length q); chunks = n div 8;
          (acc0, acc1) = foldl (\<lambda>acc i. neon_dot_f16_chunk F acc (sub k (i * 8) (i * 8 + 8), sub q (i * 8) (i * 8 + 8)))
             (replicate 4 F_ZERO, replicate 4 F_ZERO) [0..<chunks];
          s = vaddvq_f32 F (map2 (fadd F) acc0 acc1)
      in foldl (\<lambda>s i. fadd F s (fmul F (f16_to_f32 (k ! i)) (q ! i))) s [chunks * 8..<n])"

definition neon_axpy_f16 :: "'z fpu_scheme \<Rightarrow> f32 list \<Rightarrow> f32 \<Rightarrow> f16 list \<Rightarrow> f32 list" where
  "neon_axpy_f16 F out a v =
     (let n = min (length out) (length v); chunks = n div 8;
          out = foldl (\<lambda>out i. let vf = map f16_to_f32 (sub v (i * 8) (i * 8 + 8)); o8 = sub out (i * 8) (i * 8 + 8) in
             put_at out (i * 8) (vfmaq_f32 F (take 4 o8) (replicate 4 a) (take 4 vf)
                @ vfmaq_f32 F (drop 4 o8) (replicate 4 a) (drop 4 vf))) out [0..<chunks]
      in foldl (\<lambda>out i. out[i := fadd F (out ! i) (fmul F a (f16_to_f32 (v ! i)))]) out [chunks * 8..<n])"

subsection \<open>Q4_K\<close>

definition q4k_sub :: "bytes \<Rightarrow> nat \<Rightarrow> bytes \<times> bytes" where
  "q4k_sub qs j =
     (let lo = sub qs (j div 2 * 32) (j div 2 * 32 + 16); hi = sub qs (j div 2 * 32 + 16) (j div 2 * 32 + 32) in
      if j mod 2 = 0 then (map (\<lambda>b. b AND 0x0F) lo, map (\<lambda>b. b AND 0x0F) hi)
      else (map (drop_bit 4) lo, map (drop_bit 4) hi))"

definition neon_q4k_sub_dot :: "bool \<Rightarrow> bytes \<times> bytes \<Rightarrow> block_q8k \<Rightarrow> nat \<Rightarrow> int" where
  "neon_q4k_sub_dot sdot w bx j =
     dot_i8x32 sdot (fst w) (snd w) (sub (k8_qs bx) (j * 32) (j * 32 + 16)) (sub (k8_qs bx) (j * 32 + 16) (j * 32 + 32))"

text \<open>One sub-block: the two running sums of the super-block.\<close>

definition neon_q4k_step :: "'z fpu_scheme \<Rightarrow> bool \<Rightarrow> block_q4k \<Rightarrow> nat \<Rightarrow> bytes \<times> bytes \<Rightarrow> block_q8k \<Rightarrow> f32 \<times> int \<Rightarrow> f32 \<times> int" where
  "neon_q4k_step F sdot bw j w bx acc =
     (fadd F (fst acc) (fmul F (f_of_int F (uint (fst (q4k_scale_min (q4_scales bw) j)))) (f_of_int F (neon_q4k_sub_dot sdot w bx j))),
      snd acc + q4_min_term bw bx j)"

definition neon_q4k_block :: "'z fpu_scheme \<Rightarrow> bool \<Rightarrow> f32 \<Rightarrow> block_q4k \<times> block_q8k \<Rightarrow> f32" where
  "neon_q4k_block F sdot sumf wx =
     (let (bw, bx) = wx;
          d_all = fmul F (f16_to_f32 (q4_d bw)) (k8_d bx); dmin_all = fmul F (f16_to_f32 (q4_dmin bw)) (k8_d bx);
          (sum_q, sum_m) = foldl (\<lambda>acc j. neon_q4k_step F sdot bw j (q4k_sub (q4_qs bw) j) bx acc) (F_ZERO, 0) [0..<8]
      in fadd F sumf (fsub F (fmul F d_all sum_q) (fmul F dmin_all (f_of_int F sum_m))))"

definition neon_dot_q4k :: "'z fpu_scheme \<Rightarrow> bool \<Rightarrow> block_q4k list \<Rightarrow> block_q8k list \<Rightarrow> f32" where
  "neon_dot_q4k F sdot w x = foldl (neon_q4k_block F sdot) F_ZERO (zip w x)"

definition neon_q4k_x4_block :: "'z fpu_scheme \<Rightarrow> bool \<Rightarrow> block_q4k \<Rightarrow> block_q8k list \<Rightarrow> f32 list \<Rightarrow> f32 list" where
  "neon_q4k_x4_block F sdot bw bxs sumf =
     (let d_w = f16_to_f32 (q4_d bw); dmin_w = f16_to_f32 (q4_dmin bw);
          sums = foldl (\<lambda>sums j. let w = q4k_sub (q4_qs bw) j in map2 (neon_q4k_step F sdot bw j w) bxs sums)
            (replicate 4 (F_ZERO, 0)) [0..<8]
      in map2 (\<lambda>(bx, sum_q, sum_m) s. fadd F s (fsub F (fmul F (fmul F d_w (k8_d bx)) sum_q)
              (fmul F (fmul F dmin_w (k8_d bx)) (f_of_int F sum_m)))) (zip bxs sums) sumf)"

definition neon_dot_q4k_x4 :: "'z fpu_scheme \<Rightarrow> bool \<Rightarrow> block_q4k list \<Rightarrow> block_q8k list list \<Rightarrow> ('e, f32 list) outcome" where
  "neon_dot_q4k_x4 F sdot w xs = tile_loop (neon_q4k_x4_block F sdot) (replicate 4 F_ZERO) w xs"

subsection \<open>Q6_K\<close>

definition q6k_half_plane :: "nat \<Rightarrow> bool \<Rightarrow> bytes \<Rightarrow> bytes \<Rightarrow> bytes" where
  "q6k_half_plane shift high ql qh =
     map2 (\<lambda>q h. ((if high then drop_bit 4 q else q AND 0x0F) OR push_bit 4 (drop_bit shift h AND 3)) - 32) ql qh"

definition q6k_plane :: "bytes \<Rightarrow> bytes \<Rightarrow> bytes \<Rightarrow> bytes \<Rightarrow> nat \<Rightarrow> bool \<Rightarrow> bytes \<times> bytes" where
  "q6k_plane ql ql2 qh qh2 shift high = (q6k_half_plane shift high ql qh, q6k_half_plane shift high ql2 qh2)"

definition q6k_planes :: "block_q6k \<Rightarrow> nat \<Rightarrow> (bytes \<times> bytes) list" where
  "q6k_planes bw half =
     (let ql = sub (q6_ql bw) (half * 64) (half * 64 + 64); qh = sub (q6_qh bw) (half * 32) (half * 32 + 32);
          ql_a = sub ql 0 16; ql_b = sub ql 16 32; ql_c = sub ql 32 48; ql_d = sub ql 48 64;
          qh_a = sub qh 0 16; qh_b = sub qh 16 32
      in [q6k_plane ql_a ql_b qh_a qh_b 0 False, q6k_plane ql_c ql_d qh_a qh_b 2 False,
          q6k_plane ql_a ql_b qh_a qh_b 4 True, q6k_plane ql_c ql_d qh_a qh_b 6 True])"

definition neon_q6k_groups :: "bool \<Rightarrow> (bytes \<times> bytes) list \<Rightarrow> block_q8k \<Rightarrow> nat \<Rightarrow> int list" where
  "neon_q6k_groups sdot planes bx half =
     (let q8 = sub (k8_qs bx) (half * 128) (half * 128 + 128) in
      concat (map (\<lambda>(n, qa, qb). [dot_i8x16 sdot qa (sub q8 (n * 32) (n * 32 + 16)),
                                  dot_i8x16 sdot qb (sub q8 (n * 32 + 16) (n * 32 + 32))]) (enumerate 0 planes)))"

definition neon_q6k_half :: "'z fpu_scheme \<Rightarrow> bool \<Rightarrow> bytes \<Rightarrow> (bytes \<times> bytes) list \<Rightarrow> nat \<Rightarrow> block_q8k \<Rightarrow> f32 \<Rightarrow> f32" where
  "neon_q6k_half F sdot scales planes half bx s =
     (let groups = neon_q6k_groups sdot planes bx half; sc = sub scales (half * 8) (half * 8 + 8) in
      foldl (\<lambda>s g. fadd F s (fmul F (f_of_int F (i8 (sc ! g))) (f_of_int F (groups ! g)))) s [0..<8])"

definition neon_q6k_block :: "'z fpu_scheme \<Rightarrow> bool \<Rightarrow> f32 \<Rightarrow> block_q6k \<times> block_q8k \<Rightarrow> f32" where
  "neon_q6k_block F sdot sumf wx =
     (let (bw, bx) = wx; d_all = fmul F (f16_to_f32 (q6_d bw)) (k8_d bx);
          s = foldl (\<lambda>s half. neon_q6k_half F sdot (q6_scales bw) (q6k_planes bw half) half bx s) F_ZERO [0..<2]
      in fadd F sumf (fmul F d_all s))"

definition neon_dot_q6k :: "'z fpu_scheme \<Rightarrow> bool \<Rightarrow> block_q6k list \<Rightarrow> block_q8k list \<Rightarrow> f32" where
  "neon_dot_q6k F sdot w x = foldl (neon_q6k_block F sdot) F_ZERO (zip w x)"

definition neon_q6k_x4_block :: "'z fpu_scheme \<Rightarrow> bool \<Rightarrow> block_q6k \<Rightarrow> block_q8k list \<Rightarrow> f32 list \<Rightarrow> f32 list" where
  "neon_q6k_x4_block F sdot bw bxs sumf =
     (let d_w = f16_to_f32 (q6_d bw);
          sums = foldl (\<lambda>sums half. let planes = q6k_planes bw half in
                   map2 (\<lambda>bx s. neon_q6k_half F sdot (q6_scales bw) planes half bx s) bxs sums)
                 (replicate 4 F_ZERO) [0..<2]
      in map2 (\<lambda>(bx, s) t. fadd F t (fmul F (fmul F d_w (k8_d bx)) s)) (zip bxs sums) sumf)"

definition neon_dot_q6k_x4 :: "'z fpu_scheme \<Rightarrow> bool \<Rightarrow> block_q6k list \<Rightarrow> block_q8k list list \<Rightarrow> ('e, f32 list) outcome" where
  "neon_dot_q6k_x4 F sdot w xs = tile_loop (neon_q6k_x4_block F sdot) (replicate 4 F_ZERO) w xs"

subsection \<open>Four lanes are four kernels\<close>

lemma neon_dot_q8_x4_lanes:
  assumes "length xs = 4" and "\<forall>x \<in> set xs. length w \<le> length x"
  shows "neon_dot_q8_x4 F sdot w xs = Ok (map (neon_dot_q8 F sdot w) xs)"
  using tile_lanes [where step = "neon_q8_x4_block F sdot" and xs = xs and w = w and z = F_ZERO
      and f = "\<lambda>bw bx s. fadd F s (fmul F (fmul F (f_of_int F (neon_q8_block_dot sdot bw bx)) (q8_scale bw)) (q8_scale bx))"] assms
  by (simp add: neon_dot_q8_x4_def neon_q8_x4_block_def neon_q8_block_dot_def neon_dot_q8_def [abs_def] Let_def)

lemma neon_q4k_x4_block_lanes:
  assumes "length bxs = 4" and "length st = 4"
  shows "neon_q4k_x4_block F sdot bw bxs st = map2 (\<lambda>bx s. neon_q4k_block F sdot s (bw, bx)) bxs st"
  unfolding neon_q4k_x4_block_def neon_q4k_block_def Let_def
  using assms by (simp add: foldl_lanes [where f = "\<lambda>j. neon_q4k_step F sdot bw j (q4k_sub (q4_qs bw) j)"] map_replicate_lanes)
    (auto intro!: nth_equalityI simp: split_def)

lemma neon_dot_q4k_x4_lanes:
  assumes "length xs = 4" and "\<forall>x \<in> set xs. length w \<le> length x"
  shows "neon_dot_q4k_x4 F sdot w xs = Ok (map (neon_dot_q4k F sdot w) xs)"
  using tile_lanes [where step = "neon_q4k_x4_block F sdot" and xs = xs and w = w and z = F_ZERO
      and f = "\<lambda>bw bx s. neon_q4k_block F sdot s (bw, bx)"] assms
  by (simp add: neon_dot_q4k_x4_def neon_q4k_x4_block_lanes neon_dot_q4k_def [abs_def] split_def)

lemma neon_q6k_x4_block_lanes:
  assumes "length bxs = 4" and "length st = 4"
  shows "neon_q6k_x4_block F sdot bw bxs st = map2 (\<lambda>bx s. neon_q6k_block F sdot s (bw, bx)) bxs st"
  unfolding neon_q6k_x4_block_def neon_q6k_block_def Let_def
  using assms by (simp add: foldl_lanes [where f = "\<lambda>j bx s. neon_q6k_half F sdot (q6_scales bw) (q6k_planes bw j) j bx s"] map_replicate_lanes)
    (auto intro!: nth_equalityI)

lemma neon_dot_q6k_x4_lanes:
  assumes "length xs = 4" and "\<forall>x \<in> set xs. length w \<le> length x"
  shows "neon_dot_q6k_x4 F sdot w xs = Ok (map (neon_dot_q6k F sdot w) xs)"
  using tile_lanes [where step = "neon_q6k_x4_block F sdot" and xs = xs and w = w and z = F_ZERO
      and f = "\<lambda>bw bx s. neon_q6k_block F sdot s (bw, bx)"] assms
  by (simp add: neon_dot_q6k_x4_def neon_q6k_x4_block_lanes neon_dot_q6k_def [abs_def] split_def)

subsection \<open>NEON equals the scalar reference\<close>

lemma neon_q8_exact:
  "length (q8_qs bw) = 32 \<Longrightarrow> length (q8_qs bx) = 32 \<Longrightarrow> neon_q8_block_dot sdot bw bx = q8_block_sum bw bx"
  by (simp add: neon_q8_block_dot_def dot_i8x32_exact sub_append_sub q8_block_sum_def QK8_0_def prods_index [where n = 32] sub_whole)

lemma sub_halves: "b = a + 16 \<Longrightarrow> c = a + 32 \<Longrightarrow> sub xs a b @ sub xs b c = sub xs a c"
  by (simp add: sub_append_sub)

lemma neon_q4k_sub_exact:
  assumes "length (q4_qs bw) = 128" and "length (k8_qs bx) = 256" and "j < 8"
  shows "neon_q4k_sub_dot sdot (q4k_sub (q4_qs bw) j) bx j = q4_sub_sum bw bx j"
proof -
  let ?c = "j div 2 * 32"
  let ?f = "\<lambda>b :: byte. if j mod 2 = 1 then drop_bit 4 b else b AND 0x0F"
  have "j div 2 \<le> 3" using assms(3) by linarith
  then have c: "?c + 32 \<le> 128" "j * 32 + 32 \<le> 256" using assms(3) by simp_all
  have w: "fst (q4k_sub (q4_qs bw) j) = map ?f (sub (q4_qs bw) ?c (?c + 16))" "snd (q4k_sub (q4_qs bw) j) = map ?f (sub (q4_qs bw) (?c + 16) (?c + 32))"
    by (auto simp: q4k_sub_def Let_def)
  have cat: "map ?f (sub (q4_qs bw) ?c (?c + 16)) @ map ?f (sub (q4_qs bw) (?c + 16) (?c + 32)) = map ?f (sub (q4_qs bw) ?c (?c + 32))"
    unfolding map_append [symmetric] by (rule arg_cong [OF sub_append_sub]) simp_all
  have "neon_q4k_sub_dot sdot (q4k_sub (q4_qs bw) j) bx j = prods (map ?f (sub (q4_qs bw) ?c (?c + 32))) (sub (k8_qs bx) (j * 32) (j * 32 + 32))"
    unfolding neon_q4k_sub_dot_def w using assms c by (simp add: dot_i8x32_exact sub_append_sub cat [simplified])
  also have "\<dots> = foldl (\<lambda>s i. s + i8 (map ?f (sub (q4_qs bw) ?c (?c + 32)) ! i) * i8 (sub (k8_qs bx) (j * 32) (j * 32 + 32) ! i)) 0 [0..<32]"
    using assms c by (intro prods_index) simp_all
  also have "\<dots> = q4_sub_sum bw bx j"
    unfolding q4_sub_sum_def
  proof (rule foldl_cong [OF refl refl])
    fix s k
    assume "k \<in> set [0..<32]"
    then have k: "k < 32" by simp
    have q: "uint (?f b) \<le> 15" for b using drop_4_le [of b] uint_and_le [of b "0x0F"] by simp
    have "i8 (?f b) = uint (?f b)" for b using q [of b] by (intro i8_small) linarith
    then have "i8 (map ?f (sub (q4_qs bw) ?c (?c + 32)) ! k) = q4_nibble bw j k"
      using k c assms by (simp add: q4_nibble_def Let_def)
    moreover have "sub (k8_qs bx) (j * 32) (j * 32 + 32) ! k = k8_qs bx ! (j * 32 + k)" using k c assms by simp
    ultimately show "s + i8 (map ?f (sub (q4_qs bw) ?c (?c + 32)) ! k) * i8 (sub (k8_qs bx) (j * 32) (j * 32 + 32) ! k)
        = s + q4_nibble bw j k * i8 (k8_qs bx ! (j * 32 + k))" by simp
  qed
  finally show ?thesis .
qed

lemma neon_q4k_block_exact:
  assumes "wf_q4k bw" and "wf_q8k bx"
  shows "neon_q4k_block F sdot s (bw, bx) = dot_q4k_block F s (bw, bx)"
proof -
  have l: "length (q4_qs bw) = 128" "length (k8_qs bx) = 256" using assms by (simp_all add: wf_q4k_def wf_q8k_def)
  have f: "foldl (\<lambda>acc j. neon_q4k_step F sdot bw j (q4k_sub (q4_qs bw) j) bx acc) (a, m) [0..<n]
      = (foldl (\<lambda>s j. fadd F s (fmul F (f_of_int F (uint (fst (q4k_scale_min (q4_scales bw) j)))) (f_of_int F (q4_sub_sum bw bx j)))) a [0..<n],
         foldl (\<lambda>s j. s + q4_min_term bw bx j) m [0..<n])" if "n \<le> 8" for a m n
    using that by (induction n) (simp_all add: neon_q4k_step_def neon_q4k_sub_exact [OF l])
  show ?thesis by (simp add: neon_q4k_block_def dot_q4k_block_def Let_def f q4_min_sum_def)
qed

lemma q6k_half_plane_nth:
  assumes "i < length ql" and "i < length qh"
  shows "i8 (q6k_half_plane shift high ql qh ! i) = uint ((if high then drop_bit 4 (ql ! i) else ql ! i AND 0x0F) OR push_bit 4 (drop_bit shift (qh ! i) AND 3)) - 32"
  using assms q6_byte_le by (simp add: q6k_half_plane_def i8_minus_32)

lemma length_half_plane [simp]: "length (q6k_half_plane shift high ql qh) = min (length ql) (length qh)"
  by (simp add: q6k_half_plane_def)

lemma foldl_shift: "foldl (\<lambda>s i. s + f i) (0 :: int) [m..<m + n] = foldl (\<lambda>s i. s + f (m + i)) 0 [0..<n]"
  by (induction n) simp_all

lemma foldl_product: "foldl f s (List.product xs ys) = foldl (\<lambda>s x. foldl (\<lambda>s y. f s (x, y)) s ys) s xs"
  by (induction xs arbitrary: s) (simp_all add: foldl_map)

lemma neon_q6k_groups_exact:
  assumes "wf_q6k bw" and "wf_q8k bx" and "half < 2" and "g < 8"
  shows "neon_q6k_groups sdot (q6k_planes bw half) bx half ! g = q6_group_sum bw bx half g"
proof -
  have l: "length (q6_ql bw) = 128" "length (q6_qh bw) = 64" "length (k8_qs bx) = 256"
    using assms by (simp_all add: wf_q6k_def wf_q8k_def)
  have h: "half * 64 + 64 \<le> 128" "half * 32 + 32 \<le> 64" "half * 128 + 128 \<le> 256" using assms(3) by linarith+
  define ql where "ql = sub (q6_ql bw) (half * 64) (half * 64 + 64)"
  define qh where "qh = sub (q6_qh bw) (half * 32) (half * 32 + 32)"
  define q8 where "q8 = sub (k8_qs bx) (half * 128) (half * 128 + 128)"
  have len: "length ql = 64" "length qh = 32" "length q8 = 128" using l h by (simp_all add: ql_def qh_def q8_def)
  note [simp] = dot_i8x16_exact prods_index [where n = 16] q6k_half_plane_nth len
  have G: "q6_group_sum bw bx half g = foldl (\<lambda>s i. s + q6_quant ql qh (g div 2) (g mod 2 * 16 + i) * i8 (q8 ! (g mod 2 * 16 + i + 32 * (g div 2)))) 0 [0..<16]" for g
    unfolding q6_group_sum_def Let_def ql_def [symmetric] qh_def [symmetric] q8_def [symmetric] by (rule foldl_shift)
  have N: "neon_q6k_groups sdot (q6k_planes bw half) bx half = map (q6_group_sum bw bx half) [0..<8]"
    unfolding neon_q6k_groups_def q6k_planes_def Let_def ql_def [symmetric] qh_def [symmetric] q8_def [symmetric]
    by (simp add: q6k_plane_def G q6_quant_def upt_conv_Cons foldl_cong add.commute)
  show ?thesis unfolding N using assms(4) by simp
qed

lemma neon_q6k_block_exact:
  assumes "wf_q6k bw" and "wf_q8k bx"
  shows "neon_q6k_block F sdot s (bw, bx) = dot_q6k_block F s (bw, bx)"
proof -
  have l: "length (q6_scales bw) = 16" using assms by (simp add: wf_q6k_def)
  have h: "neon_q6k_half F sdot (q6_scales bw) (q6k_planes bw half) half bx s
      = foldl (\<lambda>s g. fadd F s (fmul F (f_of_int F (i8 (q6_scales bw ! (half * 8 + g)))) (f_of_int F (q6_group_sum bw bx half g)))) s [0..<8]"
    if "half < 2" for half s
    unfolding neon_q6k_half_def Let_def
    by (rule foldl_cong) (use that l neon_q6k_groups_exact [OF assms that] in simp_all)
  have "foldl (\<lambda>s half. neon_q6k_half F sdot (q6_scales bw) (q6k_planes bw half) half bx s) F_ZERO [0..<2]
      = foldl (\<lambda>s half. foldl (\<lambda>s g. fadd F s (fmul F (f_of_int F (i8 (q6_scales bw ! (half * 8 + g)))) (f_of_int F (q6_group_sum bw bx half g)))) s [0..<8]) F_ZERO [0..<2]"
    by (rule foldl_cong) (simp_all add: h)
  then show ?thesis by (simp only: neon_q6k_block_def dot_q6k_block_def Let_def foldl_product prod.case)
qed

lemma foldl_zip_cong:
  "(\<And>s a b. a \<in> set xs \<Longrightarrow> b \<in> set ys \<Longrightarrow> f s (a, b) = g s (a, b)) \<Longrightarrow> foldl f s (zip xs ys) = foldl g s (zip xs ys)"
  by (rule foldl_cong) (auto dest: set_zip_leftD set_zip_rightD)

text \<open>C19: On aarch64 the vector kernels change nothing: for blocks of the declared layout, the NEON dot
  products of all three weight formats return, bit for bit, the value of the scalar reference
  kernels, with and without the DotProd instructions and however the processor rounds.\<close>

theorem neon_bit_identical:
  "((\<forall>b \<in> set w8 \<union> set x8. length (q8_qs b) = QK8_0) \<longrightarrow> neon_dot_q8 F sdot w8 x8 = dot_q8_scalar F w8 x8)
    \<and> (list_all wf_q4k w4 \<and> list_all wf_q8k x \<longrightarrow> neon_dot_q4k F sdot w4 x = dot_q4k_scalar F w4 x)
    \<and> (list_all wf_q6k w6 \<and> list_all wf_q8k x \<longrightarrow> neon_dot_q6k F sdot w6 x = dot_q6k_scalar F w6 x)"
  unfolding neon_dot_q8_def dot_q8_scalar_def neon_dot_q4k_def dot_q4k_scalar_def neon_dot_q6k_def dot_q6k_scalar_def list_all_iff
  by (intro conjI impI foldl_zip_cong; simp add: neon_q8_exact QK8_0_def neon_q4k_block_exact neon_q6k_block_exact)

theorem neon_bit_identical_witness:
  "neon_dot_q6k demo_fpu True [demo_q6k] [demo_q8k] = dot_q6k_scalar demo_fpu [demo_q6k] [demo_q8k]"
  by (rule neon_bit_identical [THEN conjunct2, THEN conjunct2, THEN mp])
    (simp add: wf_q6k_def wf_q8k_def demo_q6k_def demo_q8k_def)


end
