(* ===== verification/Nr_Kernels.thy ===== *)
theory Nr_Kernels
  imports Nr_Avx2 Nr_Neon
begin

text \<open>
  Matrix-vector and batched products: the dispatch of \<^verbatim>\<open>kernels.rs\<close> and \<^verbatim>\<open>kquant.rs\<close> between the scalar,
  AVX2 and NEON kernels, and the row-parallel entry points \<open>matvec_*\<close> and \<open>matmul_*\<close>. A worker pool runs
  row ranges; the machine's \<open>m_sched\<close> lists the ranges in the order they finish (theory
  \<open>Nr_Parallel\<close> derives its law from the pool). Ranges write disjoint outputs and read only
  inputs, so one order stands for every interleaving. The raw-pointer writes are bounds-checked here, so
  that an out-of-bounds write would show as \<open>Panic\<close>; the lemmas show there is none.
\<close>

subsection \<open>Dispatch\<close>

definition simd_dot_q8 :: "'z machine_scheme \<Rightarrow> block_q8_0 list \<Rightarrow> block_q8_0 list \<Rightarrow> f32" where
  "simd_dot_q8 M w x = (case m_arch M of X86_64 \<Rightarrow> dot_q8_avx2 M w x | Aarch64 \<Rightarrow> neon_dot_q8 M (dotprod M) w x)"

definition simd_dot_q8_x4 :: "'z machine_scheme \<Rightarrow> block_q8_0 list \<Rightarrow> block_q8_0 list list \<Rightarrow> ('e, f32 list) outcome" where
  "simd_dot_q8_x4 M w xs = (case m_arch M of X86_64 \<Rightarrow> dot_q8_avx2_x4 M w xs | Aarch64 \<Rightarrow> neon_dot_q8_x4 M (dotprod M) w xs)"

definition simd_dot_q4k :: "'z machine_scheme \<Rightarrow> block_q4k list \<Rightarrow> block_q8k list \<Rightarrow> f32" where
  "simd_dot_q4k M w x = (case m_arch M of X86_64 \<Rightarrow> dot_q4k_avx2 M w x | Aarch64 \<Rightarrow> neon_dot_q4k M (dotprod M) w x)"

definition simd_dot_q4k_x4 :: "'z machine_scheme \<Rightarrow> block_q4k list \<Rightarrow> block_q8k list list \<Rightarrow> ('e, f32 list) outcome" where
  "simd_dot_q4k_x4 M w xs = (case m_arch M of X86_64 \<Rightarrow> dot_q4k_avx2_x4 M w xs | Aarch64 \<Rightarrow> neon_dot_q4k_x4 M (dotprod M) w xs)"

definition simd_dot_q6k :: "'z machine_scheme \<Rightarrow> block_q6k list \<Rightarrow> block_q8k list \<Rightarrow> f32" where
  "simd_dot_q6k M w x = (case m_arch M of X86_64 \<Rightarrow> dot_q6k_avx2 M w x | Aarch64 \<Rightarrow> neon_dot_q6k M (dotprod M) w x)"

definition simd_dot_q6k_x4 :: "'z machine_scheme \<Rightarrow> block_q6k list \<Rightarrow> block_q8k list list \<Rightarrow> ('e, f32 list) outcome" where
  "simd_dot_q6k_x4 M w xs = (case m_arch M of X86_64 \<Rightarrow> dot_q6k_avx2_x4 M w xs | Aarch64 \<Rightarrow> neon_dot_q6k_x4 M (dotprod M) w xs)"

definition dot_f16 :: "'z machine_scheme \<Rightarrow> f16 list \<Rightarrow> f32 list \<Rightarrow> f32" where
  "dot_f16 M k q =
     (if fast_f16 M then (case m_arch M of X86_64 \<Rightarrow> dot_f16_f16c M k q | Aarch64 \<Rightarrow> neon_dot_f16 M k q)
      else foldl (\<lambda>s (kb, qv). fadd M s (fmul M (f16_to_f32 kb) qv)) F_ZERO (zip k q))"

definition axpy_f16 :: "'z machine_scheme \<Rightarrow> f32 list \<Rightarrow> f32 \<Rightarrow> f16 list \<Rightarrow> f32 list" where
  "axpy_f16 M out a v =
     (if fast_f16 M then (case m_arch M of X86_64 \<Rightarrow> axpy_f16_f16c M out a v | Aarch64 \<Rightarrow> neon_axpy_f16 M out a v)
      else zip_update (\<lambda>oo vb. fadd M oo (fmul M a (f16_to_f32 vb))) out v)"

subsection \<open>Row-parallel products\<close>

text \<open>A job of the pool: the body on every range the workers took.\<close>

definition pool_run :: "'z machine_scheme \<Rightarrow> nat \<Rightarrow> (nat \<Rightarrow> nat \<Rightarrow> 's \<Rightarrow> ('e, 's) outcome) \<Rightarrow> 's \<Rightarrow> ('e, 's) outcome" where
  "pool_run M n body s = ofold (\<lambda>s (a, b). body a b s) s (m_sched M n)"

definition ranges_rows :: "(nat \<times> nat) list \<Rightarrow> nat list" where
  "ranges_rows rs = concat (map (\<lambda>(a, b). [a..<b]) rs)"

text \<open>What the pool promises: the ranges are well-formed, disjoint, and cover every row.\<close>

definition ranges_ok :: "nat \<Rightarrow> (nat \<times> nat) list \<Rightarrow> bool" where
  "ranges_ok n rs \<longleftrightarrow> (\<forall>(a, b) \<in> set rs. a \<le> b \<and> b \<le> n) \<and> distinct (ranges_rows rs) \<and> set (ranges_rows rs) = {..<n}"

definition sched_ok :: "'z machine_scheme \<Rightarrow> bool" where
  "sched_ok M \<longleftrightarrow> (\<forall>n. ranges_ok n (m_sched M n))"

definition matvec_range ::
  "('w list \<Rightarrow> 'x list \<Rightarrow> f32) \<Rightarrow> f32 list \<Rightarrow> 'w list \<Rightarrow> 'x list \<Rightarrow> nat \<Rightarrow> nat \<Rightarrow> nat \<Rightarrow> ('e, f32 list) outcome" where
  "matvec_range dt y w x row0 row1 bpr =
     ofold (\<lambda>y r. obind (slice w (r * bpr) ((r + 1) * bpr)) (\<lambda>row. set_at y (r - row0) (dt row x))) y [row0..<row1]"

text \<open>The body of \<open>matvec_q8\<close> and of the macro \<open>kquant_matvec\<close>.\<close>

definition matvec ::
  "'z machine_scheme \<Rightarrow> ('w list \<Rightarrow> 'x list \<Rightarrow> f32) \<Rightarrow> nat \<Rightarrow> f32 list \<Rightarrow> 'w list \<Rightarrow> 'x list \<Rightarrow> nat \<Rightarrow> nat \<Rightarrow> ('e, f32 list) outcome" where
  "matvec M dt qk y w x rows cols =
     (let bpr = cols div qk in
      obind (assert (length y = rows)) (\<lambda>_. obind (assert (length x = bpr)) (\<lambda>_. obind (assert (length w \<ge> rows * bpr)) (\<lambda>_.
      pool_run M rows (\<lambda>r0 r1 y. obind (slice y r0 r1) (\<lambda>out.
        obind (matvec_range dt out w x r0 r1 bpr) (\<lambda>out. write_at y r0 out))) y))))"

definition kernel_q8 :: "'z machine_scheme \<Rightarrow> block_q8_0 list \<Rightarrow> block_q8_0 list \<Rightarrow> f32" where
  "kernel_q8 M w x = (if fast_path M then simd_dot_q8 M w x else dot_q8_scalar M w x)"

definition kernel_q4k :: "'z machine_scheme \<Rightarrow> block_q4k list \<Rightarrow> block_q8k list \<Rightarrow> f32" where
  "kernel_q4k M w x = (if fast_path M then simd_dot_q4k M w x else dot_q4k_scalar M w x)"

definition kernel_q6k :: "'z machine_scheme \<Rightarrow> block_q6k list \<Rightarrow> block_q8k list \<Rightarrow> f32" where
  "kernel_q6k M w x = (if fast_path M then simd_dot_q6k M w x else dot_q6k_scalar M w x)"

definition matvec_q8 :: "'z machine_scheme \<Rightarrow> f32 list \<Rightarrow> block_q8_0 list \<Rightarrow> block_q8_0 list \<Rightarrow> nat \<Rightarrow> nat \<Rightarrow> ('e, f32 list) outcome" where
  "matvec_q8 M = matvec M (kernel_q8 M) QK8_0"

definition matvec_q4k :: "'z machine_scheme \<Rightarrow> f32 list \<Rightarrow> block_q4k list \<Rightarrow> block_q8k list \<Rightarrow> nat \<Rightarrow> nat \<Rightarrow> ('e, f32 list) outcome" where
  "matvec_q4k M = matvec M (kernel_q4k M) QK_K"

definition matvec_q6k :: "'z machine_scheme \<Rightarrow> f32 list \<Rightarrow> block_q6k list \<Rightarrow> block_q8k list \<Rightarrow> nat \<Rightarrow> nat \<Rightarrow> ('e, f32 list) outcome" where
  "matvec_q6k M = matvec M (kernel_q6k M) QK_K"

subsection \<open>Batched products\<close>

text \<open>The tiles of one row: \<open>while fast && b + 4 <= batch\<close>. The result carries the first column not done.\<close>

function tile_cols ::
  "('w list \<Rightarrow> 'x list list \<Rightarrow> ('e, f32 list) outcome) \<Rightarrow> 'w list \<Rightarrow> 'x list \<Rightarrow> nat \<Rightarrow> nat \<Rightarrow> nat \<Rightarrow> nat \<Rightarrow> nat \<Rightarrow> f32 list \<Rightarrow> ('e, nat \<times> f32 list) outcome" where
  "tile_cols four row xs bpr rows r batch b y =
     (if b + 4 \<le> batch then
        obind (omap (\<lambda>i. slice xs ((b + i) * bpr) ((b + i + 1) * bpr)) [0..<4]) (\<lambda>x4.
        obind (four row x4) (\<lambda>vs.
        obind (ofold (\<lambda>y (i, v). set_at y ((b + i) * rows + r) v) y (enumerate 0 vs)) (\<lambda>y.
        tile_cols four row xs bpr rows r batch (b + 4) y)))
      else Ok (b, y))"
  by pat_completeness auto
termination
  by (relation "measure (\<lambda>(four, row, xs, bpr, rows, r, batch, b, y). batch - b)") auto

declare tile_cols.simps [simp del]

definition matmul_row ::
  "bool \<Rightarrow> ('w list \<Rightarrow> 'x list list \<Rightarrow> ('e, f32 list) outcome) \<Rightarrow> ('w list \<Rightarrow> 'x list \<Rightarrow> f32) \<Rightarrow> 'w list \<Rightarrow> 'x list \<Rightarrow> nat \<Rightarrow> nat \<Rightarrow> nat
     \<Rightarrow> f32 list \<Rightarrow> nat \<Rightarrow> ('e, f32 list) outcome" where
  "matmul_row fast four dt w xs bpr rows batch y r =
     obind (slice w (r * bpr) ((r + 1) * bpr)) (\<lambda>row.
     obind (if fast then tile_cols four row xs bpr rows r batch 0 y else Ok (0, y)) (\<lambda>(b, y).
     ofold (\<lambda>y b. obind (slice xs (b * bpr) ((b + 1) * bpr)) (\<lambda>x. set_at y (b * rows + r) (dt row x))) y [b..<batch]))"

text \<open>The body of \<open>matmul_q8\<close> and of the macro \<open>kquant_matmul\<close>.\<close>

definition matmul ::
  "'z machine_scheme \<Rightarrow> ('w list \<Rightarrow> 'x list list \<Rightarrow> ('e, f32 list) outcome) \<Rightarrow> ('w list \<Rightarrow> 'x list \<Rightarrow> f32) \<Rightarrow> nat
     \<Rightarrow> f32 list \<Rightarrow> 'w list \<Rightarrow> 'x list \<Rightarrow> nat \<Rightarrow> nat \<Rightarrow> nat \<Rightarrow> ('e, f32 list) outcome" where
  "matmul M four dt qk y w xs rows cols batch =
     (let bpr = cols div qk in
      obind (assert (length y = batch * rows)) (\<lambda>_. obind (assert (length xs = batch * bpr)) (\<lambda>_. obind (assert (length w \<ge> rows * bpr)) (\<lambda>_.
      pool_run M rows (\<lambda>r0 r1 y. ofold (matmul_row (fast_path M) four dt w xs bpr rows batch) y [r0..<r1]) y))))"

definition matmul_q8 :: "'z machine_scheme \<Rightarrow> f32 list \<Rightarrow> block_q8_0 list \<Rightarrow> block_q8_0 list \<Rightarrow> nat \<Rightarrow> nat \<Rightarrow> nat \<Rightarrow> ('e, f32 list) outcome" where
  "matmul_q8 M = matmul M (simd_dot_q8_x4 M) (kernel_q8 M) QK8_0"

definition matmul_q4k :: "'z machine_scheme \<Rightarrow> f32 list \<Rightarrow> block_q4k list \<Rightarrow> block_q8k list \<Rightarrow> nat \<Rightarrow> nat \<Rightarrow> nat \<Rightarrow> ('e, f32 list) outcome" where
  "matmul_q4k M = matmul M (simd_dot_q4k_x4 M) (kernel_q4k M) QK_K"

definition matmul_q6k :: "'z machine_scheme \<Rightarrow> f32 list \<Rightarrow> block_q6k list \<Rightarrow> block_q8k list \<Rightarrow> nat \<Rightarrow> nat \<Rightarrow> nat \<Rightarrow> ('e, f32 list) outcome" where
  "matmul_q6k M = matmul M (simd_dot_q6k_x4 M) (kernel_q6k M) QK_K"

subsection \<open>Filling a table\<close>

text \<open>\<open>y\<close> holds the values \<open>D b r\<close> of a \<open>batch\<close> by \<open>rows\<close> table in the cells of \<open>A\<close>, and what \<open>y0\<close> held elsewhere.\<close>

definition cells :: "nat \<Rightarrow> nat \<Rightarrow> (nat \<Rightarrow> nat \<Rightarrow> 'a) \<Rightarrow> 'a list \<Rightarrow> (nat \<times> nat) set \<Rightarrow> 'a list \<Rightarrow> bool" where
  "cells batch rows D y0 A y \<longleftrightarrow> length y = batch * rows
     \<and> (\<forall>b < batch. \<forall>r < rows. y ! (b * rows + r) = (if (b, r) \<in> A then D b r else y0 ! (b * rows + r)))"

lemma cell_index: "b < batch \<Longrightarrow> r < rows \<Longrightarrow> b * rows + r < batch * (rows :: nat)"
proof -
  assume "b < batch" "r < rows"
  then have "b * rows + r < b * rows + rows" "(b + 1) * rows \<le> batch * rows" by (simp, intro mult_right_mono) simp_all
  then show ?thesis by simp
qed

lemma cell_inj: "r < rows \<Longrightarrow> r' < rows \<Longrightarrow> b * rows + r = b' * rows + r' \<longleftrightarrow> b = b' \<and> r = (r' :: nat)"
proof
  assume r: "r < rows" "r' < rows" and e: "b * rows + r = b' * rows + r'"
  have "(b * rows + r) div rows = b" "(b' * rows + r') div rows = b'" using r by simp_all
  then have "b = b'" unfolding e by simp
  with e show "b = b' \<and> r = r'" by simp
qed simp

lemma cells_set:
  assumes "cells batch rows D y0 A y" and "b < batch" and "r < rows"
  shows "set_at y (b * rows + r) (D b r) = Ok (y[b * rows + r := D b r])" "cells batch rows D y0 (insert (b, r) A) (y[b * rows + r := D b r])"
proof -
  have i: "b * rows + r < length y" using assms cell_index by (simp add: cells_def)
  then show "set_at y (b * rows + r) (D b r) = Ok (y[b * rows + r := D b r])" by simp
  show "cells batch rows D y0 (insert (b, r) A) (y[b * rows + r := D b r])"
    unfolding cells_def
  proof (intro conjI allI impI)
    show "length (y[b * rows + r := D b r]) = batch * rows" using assms(1) by (simp add: cells_def)
    fix b' r'
    assume b': "b' < batch" "r' < rows"
    then have "b' * rows + r' < length y" using assms(1) cell_index by (simp add: cells_def)
    moreover have "y ! (b' * rows + r') = (if (b', r') \<in> A then D b' r' else y0 ! (b' * rows + r'))"
      using assms(1) b' by (simp add: cells_def)
    ultimately show "y[b * rows + r := D b r] ! (b' * rows + r') = (if (b', r') \<in> insert (b, r) A then D b' r' else y0 ! (b' * rows + r'))"
      using cell_inj [OF assms(3) b'(2), of b b'] by (auto simp: nth_list_update)
  qed
qed

lemma cells_done: "cells batch rows D y0 ({..<batch} \<times> {..<rows}) y \<Longrightarrow> y = map (\<lambda>k. D (k div rows) (k mod rows)) [0..<batch * rows]"
proof (rule nth_equalityI)
  fix k
  assume c: "cells batch rows D y0 ({..<batch} \<times> {..<rows}) y" and "k < length y"
  then have k: "k < batch * rows" by (simp add: cells_def)
  then have r: "0 < rows" by (cases rows) simp_all
  have "k div rows < batch" "k mod rows < rows" using k r by (simp_all add: less_mult_imp_div_less)
  moreover have "\<forall>b < batch. \<forall>r < rows. y ! (b * rows + r) = D b r" using c by (auto simp: cells_def)
  ultimately have "y ! (k div rows * rows + k mod rows) = D (k div rows) (k mod rows)" by blast
  with k show "y ! k = map (\<lambda>k. D (k div rows) (k mod rows)) [0..<batch * rows] ! k" by simp
qed (simp add: cells_def)

text \<open>A loop in which every round grows the set of cells.\<close>

lemma ofold_grow:
  assumes "\<And>x s A. x \<in> set xs \<Longrightarrow> P A s \<Longrightarrow> \<exists>s'. f s x = Ok s' \<and> P (A \<union> g x) s'" and "P A s"
  shows "\<exists>s'. ofold f s xs = Ok s' \<and> P (A \<union> (\<Union>x \<in> set xs. g x)) s'"
  using assms
proof (induction xs arbitrary: A s)
  case (Cons x xs)
  then obtain s' where "f s x = Ok s'" "P (A \<union> g x) s'" by fastforce
  moreover from this(2) obtain s'' where "ofold f s' xs = Ok s''" "P (A \<union> g x \<union> (\<Union>x \<in> set xs. g x)) s''"
    using Cons.IH [of "A \<union> g x" s'] Cons.prems(1) by (metis list.set_intros(2))
  ultimately show ?case by (auto simp: Un_assoc)
qed simp

lemma row_bounds: "r < rows \<Longrightarrow> r * bpr + bpr \<le> rows * (bpr :: nat)"
  using mult_right_mono [of "r + 1" rows bpr] by simp

lemma pool_run_cells:
  assumes "ranges_ok n (m_sched M n)" and "P {} s"
    and "\<And>a b A s. a \<le> b \<Longrightarrow> b \<le> n \<Longrightarrow> P A s \<Longrightarrow> \<exists>s'. body a b s = Ok s' \<and> P (A \<union> B \<times> {a..<b}) s'"
  shows "\<exists>s'. pool_run M n body s = Ok s' \<and> P (B \<times> {..<n}) s'"
proof -
  have "\<exists>s'. ofold (\<lambda>s (a, b). body a b s) s (m_sched M n) = Ok s' \<and> P ({} \<union> (\<Union>x \<in> set (m_sched M n). B \<times> {fst x..<snd x})) s'"
  proof (rule ofold_grow)
    fix x s A
    assume "x \<in> set (m_sched M n)" and P: "P A s"
    then have "fst x \<le> snd x" "snd x \<le> n" using assms(1) by (auto simp: ranges_ok_def)
    from assms(3) [OF this P] show "\<exists>s'. (case x of (a, b) \<Rightarrow> body a b s) = Ok s' \<and> P (A \<union> B \<times> {fst x..<snd x}) s'"
      by (simp add: split_def)
  qed (rule assms(2))
  moreover have "(\<Union>x \<in> set (m_sched M n). B \<times> {fst x..<snd x}) = B \<times> {..<n}"
  proof -
    have "(\<Union>x \<in> set (m_sched M n). {fst x..<snd x}) = {..<n}"
      using assms(1) by (simp add: ranges_ok_def ranges_rows_def split_def)
    then show ?thesis by blast
  qed
  ultimately show ?thesis by (simp add: pool_run_def)
qed

definition row_of :: "'a list \<Rightarrow> nat \<Rightarrow> nat \<Rightarrow> 'a list" where
  "row_of w n r = sub w (r * n) ((r + 1) * n)"

lemma slice_row: "r < rows \<Longrightarrow> rows * bpr \<le> length w \<Longrightarrow> slice w (r * bpr) ((r + 1) * bpr) = Ok (row_of w bpr r)"
  using row_bounds [of r rows bpr] by (simp add: row_of_def)

lemma matvec_range_Ok:
  fixes dt :: "'w list \<Rightarrow> 'x list \<Rightarrow> f32"
  assumes "row1 \<le> rows" and "rows * bpr \<le> length w" and "row0 \<le> row1" and "length y = row1 - row0"
  shows "matvec_range dt y w x row0 row1 bpr = (Ok (map (\<lambda>r. dt (row_of w bpr r) x) [row0..<row1]) :: ('e, f32 list) outcome)"
proof -
  have "ofold (\<lambda>y r. obind (slice w (r * bpr) ((r + 1) * bpr)) (\<lambda>row. set_at y (r - row0) (dt row x))) y [row0..<row0 + n]
      = (Ok (map (\<lambda>r. dt (row_of w bpr r) x) [row0..<row0 + n] @ drop n y) :: ('e, f32 list) outcome)" if "n \<le> row1 - row0" for n
    using that
  proof (induction n)
    case (Suc n)
    have "drop n y = y ! n # drop (Suc n) y" using Suc.prems assms(4) by (simp add: Cons_nth_drop_Suc)
    moreover have "slice w ((row0 + n) * bpr) ((row0 + n + 1) * bpr) = (Ok (row_of w bpr (row0 + n)) :: ('e, 'w list) outcome)"
      by (rule slice_row) (use Suc.prems assms in auto)
    ultimately show ?case using Suc assms(4) by (simp add: ofold_append list_update_append)
  qed simp
  from this [of "row1 - row0"] show ?thesis using assms by (simp add: matvec_range_def)
qed

lemma matvec_Ok:
  fixes dt :: "'w list \<Rightarrow> 'x list \<Rightarrow> f32"
  assumes "ranges_ok rows (m_sched M rows)" and "length y = rows" and "length x = cols div qk" and "rows * (cols div qk) \<le> length w"
  shows "matvec M dt qk y w x rows cols = (Ok (map (\<lambda>r. dt (row_of w (cols div qk) r) x) [0..<rows]) :: ('e, f32 list) outcome)"
proof -
  let ?D = "\<lambda>b :: nat. \<lambda>r. dt (row_of w (cols div qk) r) x"
  let ?body = "\<lambda>r0 r1 y. obind (slice y r0 r1) (\<lambda>out. obind (matvec_range dt out w x r0 r1 (cols div qk)) (\<lambda>out. write_at y r0 out))"
  have "\<exists>s'. pool_run M rows ?body y = (Ok s' :: ('e, f32 list) outcome) \<and> cells 1 rows ?D y ({..<1} \<times> {..<rows}) s'"
  proof (rule pool_run_cells [OF assms(1)])
    show "cells 1 rows ?D y {} y" using assms(2) by (simp add: cells_def)
    fix a b A s
    assume ab: "a \<le> b" "b \<le> rows" and c: "cells 1 rows ?D y A s"
    then have l: "length s = rows" by (simp add: cells_def)
    have "?body a b s = Ok (put_at s a (map (?D 0) [a..<b]))"
      using ab l assms by (simp add: matvec_range_Ok)
    moreover have "cells 1 rows ?D y (A \<union> {..<1} \<times> {a..<b}) (put_at s a (map (?D 0) [a..<b]))"
      using ab l c by (auto simp: cells_def nth_put_at)
    ultimately show "\<exists>s'. ?body a b s = (Ok s' :: ('e, f32 list) outcome) \<and> cells 1 rows ?D y (A \<union> {..<1} \<times> {a..<b}) s'" by blast
  qed
  then obtain s' where s: "pool_run M rows ?body y = (Ok s' :: ('e, f32 list) outcome)" "s' = map (\<lambda>k. ?D (k div rows) (k mod rows)) [0..<1 * rows]"
    using cells_done by blast
  have "s' = map (\<lambda>r. ?D 0 r) [0..<rows]" unfolding s(2) by simp
  then show ?thesis using s(1) assms by (simp add: matvec_def Let_def)
qed

subsection \<open>Tiles\<close>

text \<open>A kernel that is used on tiles of four: on vectors as long as the row it agrees with the one-wide
  kernel of the same dispatch.\<close>

locale tile_kernel =
  fixes fast :: bool
    and one :: "'w list \<Rightarrow> 'x list \<Rightarrow> f32"
    and four :: "'w list \<Rightarrow> 'x list list \<Rightarrow> ('e, f32 list) outcome"
  assumes four_lanes: "fast \<Longrightarrow> length xs = 4 \<Longrightarrow> \<forall>x \<in> set xs. length w \<le> length x \<Longrightarrow> four w xs = Ok (map (one w) xs)"
begin

lemma tile_cols_Ok:
  assumes "fast" and "length xs = batch * bpr" and "length row = bpr" and "r < rows" and "b \<le> batch" and "cells batch rows D y0 A y"
    and D: "\<And>b. b < batch \<Longrightarrow> D b r = one row (row_of xs bpr b)"
  shows "\<exists>b' y'. tile_cols four row xs bpr rows r batch b y = Ok (b', y') \<and> b \<le> b' \<and> b' \<le> batch
     \<and> cells batch rows D y0 (A \<union> {b..<b'} \<times> {r}) y'"
  using assms(5,6)
proof (induction "batch - b" arbitrary: b y A rule: less_induct)
  case less
  show ?case
  proof (cases "b + 4 \<le> batch")
    case False
    then show ?thesis using less.prems by (subst tile_cols.simps) simp
  next
    case True
    have x4: "omap (\<lambda>i. slice xs ((b + i) * bpr) ((b + i + 1) * bpr)) [0..<4] = (Ok (map (\<lambda>i. row_of xs bpr (b + i)) [0..<4]) :: ('e, 'x list list) outcome)"
    proof (rule omap_Ok)
      fix i
      assume "i \<in> set [0..<4 :: nat]"
      then show "slice xs ((b + i) * bpr) ((b + i + 1) * bpr) = Ok (row_of xs bpr (b + i))"
        by (intro slice_row [of _ batch]) (use True assms(2) in auto)
    qed
    have len: "length (row_of xs bpr (b + i)) = bpr" if "i < 4" for i
      using row_bounds [of "b + i" batch bpr] True that assms(2) by (simp add: row_of_def)
    have vs: "four row (map (\<lambda>i. row_of xs bpr (b + i)) [0..<4]) = Ok (map (\<lambda>i. one row (row_of xs bpr (b + i))) [0..<4])"
      using four_lanes [OF assms(1), of "map (\<lambda>i. row_of xs bpr (b + i)) [0..<4]" row] len assms(3) by (auto simp: comp_def)
    have e: "enumerate 0 (map (\<lambda>i. one row (row_of xs bpr (b + i))) [0..<4]) = map (\<lambda>i. (i, D (b + i) r)) [0..<4]"
      by (rule nth_equalityI) (use True D in \<open>simp_all add: nth_enumerate_eq\<close>)
    have "\<exists>y'. ofold (\<lambda>y (i, v). set_at y ((b + i) * rows + r) v) y (map (\<lambda>i. (i, D (b + i) r)) [0..<4]) = (Ok y' :: ('e, f32 list) outcome)
        \<and> cells batch rows D y0 (A \<union> (\<Union>iv \<in> set (map (\<lambda>i. (i, D (b + i) r)) [0..<4]). {(b + fst iv, r)})) y'"
    proof (rule ofold_grow [where P = "cells batch rows D y0", OF _ less.prems(2)])
      fix x s A
      assume x: "x \<in> set (map (\<lambda>i. (i, D (b + i) r)) [0..<4])" and c: "cells batch rows D y0 A s"
      then have "fst x < 4" "snd x = D (b + fst x) r" by auto
      with cells_set [OF c, of "b + fst x" r] True assms(4)
      show "\<exists>s'. (case x of (i, v) \<Rightarrow> set_at s ((b + i) * rows + r) v) = Ok s' \<and> cells batch rows D y0 (A \<union> {(b + fst x, r)}) s'"
        by (auto simp: split_def)
    qed
    then obtain y' where y': "ofold (\<lambda>y (i, v). set_at y ((b + i) * rows + r) v) y (map (\<lambda>i. (i, D (b + i) r)) [0..<4]) = (Ok y' :: ('e, f32 list) outcome)"
        "cells batch rows D y0 (A \<union> {b..<b + 4} \<times> {r}) y'"
    proof -
      have "(\<Union>iv \<in> set (map (\<lambda>i. (i, D (b + i) r)) [0..<4]). {(b + fst iv, r)}) = {b..<b + 4} \<times> {r}"
        by auto (rule_tac x = "a - b" in bexI; simp)
      then show ?thesis using \<open>\<exists>y'. _ y'\<close> that by auto
    qed
    have step: "tile_cols four row xs bpr rows r batch b y = tile_cols four row xs bpr rows r batch (b + 4) y'"
      using True by (subst tile_cols.simps) (simp only: x4 vs e y'(1) obind.simps if_True)
    obtain b' y'' where "tile_cols four row xs bpr rows r batch (b + 4) y' = Ok (b', y'')" "b + 4 \<le> b'" "b' \<le> batch"
        "cells batch rows D y0 (A \<union> {b..<b + 4} \<times> {r} \<union> {b + 4..<b'} \<times> {r}) y''"
      using less.hyps [of "b + 4", OF _ _ y'(2)] True by force
    moreover have "A \<union> {b..<b + 4} \<times> {r} \<union> {b + 4..<b'} \<times> {r} = A \<union> {b..<b'} \<times> {r}" using \<open>b + 4 \<le> b'\<close> by auto
    ultimately show ?thesis using step by (metis add_leD1)
  qed
qed

lemma matmul_row_Ok:
  assumes "length xs = batch * bpr" and "rows * bpr \<le> length w" and "r < rows" and "cells batch rows D y0 A y"
    and D: "\<And>b. b < batch \<Longrightarrow> D b r = one (row_of w bpr r) (row_of xs bpr b)"
  shows "\<exists>y'. matmul_row fast four one w xs bpr rows batch y r = Ok y' \<and> cells batch rows D y0 (A \<union> {..<batch} \<times> {r}) y'"
proof -
  have row: "slice w (r * bpr) ((r + 1) * bpr) = (Ok (row_of w bpr r) :: ('e, 'w list) outcome)"
    using assms(3,2) by (rule slice_row)
  have len: "length (row_of w bpr r) = bpr" using row_bounds [OF assms(3), of bpr] assms(2) by (simp add: row_of_def)
  obtain b y1 where b: "(if fast then tile_cols four (row_of w bpr r) xs bpr rows r batch 0 y else Ok (0, y)) = Ok (b, y1)" "b \<le> batch"
      "cells batch rows D y0 (A \<union> {0..<b} \<times> {r}) y1"
  proof (cases fast)
    case True
    with tile_cols_Ok [OF True assms(1) len assms(3) _ assms(4) D, of 0] that show ?thesis by auto
  next
    case False
    then show ?thesis using that [of 0 y] assms(4) by simp
  qed
  have "\<exists>y'. ofold (\<lambda>y b. obind (slice xs (b * bpr) ((b + 1) * bpr)) (\<lambda>x. set_at y (b * rows + r) (one (row_of w bpr r) x))) y1 [b..<batch] = (Ok y' :: ('e, f32 list) outcome)
      \<and> cells batch rows D y0 (A \<union> {0..<b} \<times> {r} \<union> (\<Union>b \<in> set [b..<batch]. {(b, r)})) y'"
  proof (rule ofold_grow [where P = "cells batch rows D y0", OF _ b(3)])
    fix x s A
    assume x: "x \<in> set [b..<batch]" and c: "cells batch rows D y0 A s"
    then have "slice xs (x * bpr) ((x + 1) * bpr) = (Ok (row_of xs bpr x) :: ('e, 'x list) outcome)"
      by (intro slice_row [of _ batch]) (use assms(1) in auto)
    moreover have "set_at s (x * rows + r) (D x r) = (Ok (s[x * rows + r := D x r]) :: ('e, f32 list) outcome)"
      by (rule cells_set(1) [OF c]) (use x assms(3) in auto)
    ultimately show "\<exists>s'. obind (slice xs (x * bpr) ((x + 1) * bpr)) (\<lambda>x'. set_at s (x * rows + r) (one (row_of w bpr r) x')) = (Ok s' :: ('e, f32 list) outcome)
        \<and> cells batch rows D y0 (A \<union> {(x, r)}) s'"
      using cells_set(2) [OF c, of x r] x assms(3) D [of x] by auto
  qed
  moreover have "A \<union> {0..<b} \<times> {r} \<union> (\<Union>b \<in> set [b..<batch]. {(b, r)}) = A \<union> {..<batch} \<times> {r}" using b(2) by auto
  ultimately show ?thesis unfolding matmul_row_def row obind.simps b(1) by simp
qed

lemma matmul_Ok:
  assumes "fast = fast_path M" and "ranges_ok rows (m_sched M rows)" and "length y = batch * rows" and "length xs = batch * (cols div qk)"
    and "rows * (cols div qk) \<le> length w"
  shows "matmul M four one qk y w xs rows cols batch
     = Ok (map (\<lambda>k. one (row_of w (cols div qk) (k mod rows)) (row_of xs (cols div qk) (k div rows))) [0..<batch * rows])"
proof -
  let ?D = "\<lambda>b r. one (row_of w (cols div qk) r) (row_of xs (cols div qk) b)"
  let ?body = "\<lambda>r0 r1 y. ofold (matmul_row (fast_path M) four one w xs (cols div qk) rows batch) y [r0..<r1]"
  have "\<exists>s'. pool_run M rows ?body y = Ok s' \<and> cells batch rows ?D y ({..<batch} \<times> {..<rows}) s'"
  proof (rule pool_run_cells [OF assms(2)])
    show "cells batch rows ?D y {} y" using assms(3) by (simp add: cells_def)
    fix a b A s
    assume ab: "a \<le> b" "b \<le> rows" and c: "cells batch rows ?D y A s"
    have "\<exists>s'. ?body a b s = Ok s' \<and> cells batch rows ?D y (A \<union> (\<Union>r \<in> set [a..<b]. {..<batch} \<times> {r})) s'"
    proof (rule ofold_grow [where P = "cells batch rows ?D y", OF _ c])
      fix x s A
      assume "x \<in> set [a..<b]" and c: "cells batch rows ?D y A s"
      then have "x < rows" using ab by simp
      then show "\<exists>s'. matmul_row (fast_path M) four one w xs (cols div qk) rows batch s x = Ok s' \<and> cells batch rows ?D y (A \<union> {..<batch} \<times> {x}) s'"
        using matmul_row_Ok [OF assms(4,5) _ c] by (simp add: assms(1) [symmetric])
    qed
    moreover have "(\<Union>r \<in> set [a..<b]. {..<batch} \<times> {r}) = {..<batch} \<times> {a..<b}" by auto
    ultimately show "\<exists>s'. ?body a b s = Ok s' \<and> cells batch rows ?D y (A \<union> {..<batch} \<times> {a..<b}) s'" by simp
  qed
  then obtain s' where s: "pool_run M rows ?body y = Ok s'" "s' = map (\<lambda>k. ?D (k div rows) (k mod rows)) [0..<batch * rows]"
    using cells_done by blast
  then show ?thesis using assms by (simp add: matmul_def Let_def)
qed

end

text \<open>The three kernels on both architectures obey the law.\<close>

interpretation q8: tile_kernel "fast_path M" "kernel_q8 M" "simd_dot_q8_x4 M" for M
  by unfold_locales (auto simp: kernel_q8_def [abs_def] simd_dot_q8_x4_def simd_dot_q8_def dot_q8_avx2_x4_lanes neon_dot_q8_x4_lanes split: cpu_arch.splits)

interpretation q4k: tile_kernel "fast_path M" "kernel_q4k M" "simd_dot_q4k_x4 M" for M
  by unfold_locales (auto simp: kernel_q4k_def [abs_def] simd_dot_q4k_x4_def simd_dot_q4k_def dot_q4k_avx2_x4_lanes neon_dot_q4k_x4_lanes split: cpu_arch.splits)

interpretation q6k: tile_kernel "fast_path M" "kernel_q6k M" "simd_dot_q6k_x4 M" for M
  by unfold_locales (auto simp: kernel_q6k_def [abs_def] simd_dot_q6k_x4_def simd_dot_q6k_def dot_q6k_avx2_x4_lanes neon_dot_q6k_x4_lanes split: cpu_arch.splits)

subsection \<open>Batched products are per-token products\<close>

lemma row_of_table:
  assumes "b < batch"
  shows "row_of (map (\<lambda>k. D (k div rows) (k mod rows)) [0..<batch * rows]) rows b = map (D b) [0..<rows]"
proof (rule nth_equalityI)
  have l: "b * rows + rows \<le> batch * rows" using assms by (rule row_bounds)
  then show "length (row_of (map (\<lambda>k. D (k div rows) (k mod rows)) [0..<batch * rows]) rows b) = length (map (D b) [0..<rows])"
    by (simp add: row_of_def)
  fix i
  assume "i < length (row_of (map (\<lambda>k. D (k div rows) (k mod rows)) [0..<batch * rows]) rows b)"
  with l have "i < rows" by (simp add: row_of_def)
  with l show "row_of (map (\<lambda>k. D (k div rows) (k mod rows)) [0..<batch * rows]) rows b ! i = map (D b) [0..<rows] ! i"
    by (simp add: row_of_def)
qed

lemmas kernel_defs = kernel_q8_def kernel_q4k_def kernel_q6k_def simd_dot_q8_def simd_dot_q4k_def simd_dot_q6k_def
  fast_path_def avx2_def fma_def f16c_def dotprod_def probe_def probe_x86_def probe_aarch64_def
  dot_q8_scalar_def dot_q4k_scalar_def dot_q6k_scalar_def dot_q8_avx2_def dot_q4k_avx2_def dot_q6k_avx2_def
  neon_dot_q8_def neon_dot_q4k_def neon_dot_q6k_def dot_q4k_block_def [abs_def] dot_q6k_block_def [abs_def]
  avx2_q8_block_def [abs_def] avx2_q4k_block_def [abs_def] avx2_q6k_block_def [abs_def]
  neon_q4k_block_def [abs_def] neon_q6k_block_def [abs_def] neon_q4k_step_def [abs_def] neon_q6k_half_def [abs_def]
  hsum256_def fmadd_ps_def cvtepi32_ps_def

text \<open>Nothing a kernel computes depends on how rows are spread over the workers.\<close>

lemma kernels_unscheduled [simp]:
  "kernel_q8 (M\<lparr>m_sched := s\<rparr>) = kernel_q8 M" "kernel_q4k (M\<lparr>m_sched := s\<rparr>) = kernel_q4k M" "kernel_q6k (M\<lparr>m_sched := s\<rparr>) = kernel_q6k M"
  by (intro ext; simp add: kernel_defs split: cpu_arch.splits)+

text \<open>C21: Batching changes no result. For every weight format, any batch size, architecture and feature set,
  the batched product of a well-formed job succeeds and its row for each token is, bit for bit, the
  per-token product of that token, even when the worker pool hands out the rows differently in the
  two runs; no raw-pointer write leaves its buffer.\<close>

theorem matmul_is_per_token_matvec:
  assumes "sched_ok M" and "sched_ok (M\<lparr>m_sched := s\<rparr>)" and "length y = batch * rows" and "length y1 = rows"
  shows "(length xs = batch * (cols div QK8_0) \<and> length w \<ge> rows * (cols div QK8_0) \<longrightarrow>
      (\<exists>ys. matmul_q8 M y w xs rows cols batch = (Ok ys :: (unit, f32 list) outcome) \<and> (\<forall>b < batch.
         matvec_q8 (M\<lparr>m_sched := s\<rparr>) y1 w (row_of xs (cols div QK8_0) b) rows cols = (Ok (row_of ys rows b) :: (unit, f32 list) outcome))))
   \<and> (length xk = batch * (cols div QK_K) \<and> length w4 \<ge> rows * (cols div QK_K) \<longrightarrow>
      (\<exists>ys. matmul_q4k M y w4 xk rows cols batch = (Ok ys :: (unit, f32 list) outcome) \<and> (\<forall>b < batch.
         matvec_q4k (M\<lparr>m_sched := s\<rparr>) y1 w4 (row_of xk (cols div QK_K) b) rows cols = (Ok (row_of ys rows b) :: (unit, f32 list) outcome))))
   \<and> (length xk = batch * (cols div QK_K) \<and> length w6 \<ge> rows * (cols div QK_K) \<longrightarrow>
      (\<exists>ys. matmul_q6k M y w6 xk rows cols batch = (Ok ys :: (unit, f32 list) outcome) \<and> (\<forall>b < batch.
         matvec_q6k (M\<lparr>m_sched := s\<rparr>) y1 w6 (row_of xk (cols div QK_K) b) rows cols = (Ok (row_of ys rows b) :: (unit, f32 list) outcome))))"
proof -
  have sched: "ranges_ok rows (m_sched M rows)" "ranges_ok rows (m_sched (M\<lparr>m_sched := s\<rparr>) rows)"
    using assms by (simp_all only: sched_ok_def)
  have len: "length (row_of xs n b) = n" if "b < batch" "length xs = batch * n" for xs :: "'b list" and n b
    using row_bounds [OF that(1), of n] that(2) by (simp add: row_of_def)
  show ?thesis
    unfolding matmul_q8_def matmul_q4k_def matmul_q6k_def matvec_q8_def matvec_q4k_def matvec_q6k_def
    by (intro conjI impI; elim conjE;
        simp add: q8.matmul_Ok [OF refl sched(1) assms(3)] q4k.matmul_Ok [OF refl sched(1) assms(3)] q6k.matmul_Ok [OF refl sched(1) assms(3)]
          matvec_Ok [OF sched(2) assms(4)] len row_of_def [symmetric] row_of_table [where D = "\<lambda>b r. f (row_of w n r) (row_of xs n b)" for f w n xs])
qed

lemma ranges_ok_inline: "ranges_ok n [(0, n)]"
  by (auto simp: ranges_ok_def ranges_rows_def)

definition demo_machine :: machine where
  "demo_machine = \<lparr>fadd = (+), fsub = (-), fmul = (*), fdiv = (\<lambda>a b. a div b), ffma = (\<lambda>a b c. a * b + c),
     f_of_int = of_int, f_to_i32 = sint, f_sqrt = (\<lambda>x. x), f_exp = (\<lambda>x. x), f_pow = (\<lambda>x y. x),
     f_sin = (\<lambda>x. x), f_cos = (\<lambda>x. x), m_arch = X86_64, m_leaf1_ecx = - 1, m_leaf7_ebx = - 1, m_xcr0 = 7,
     m_isar0 = 0, m_pfr0 = 0, m_sched = (\<lambda>n. [(0, n)])\<rparr>"

lemma demo_machine_sched [simp]: "sched_ok demo_machine" "sched_ok (demo_machine\<lparr>m_sched := \<lambda>n. [(0, n)]\<rparr>)"
  by (simp_all add: sched_ok_def demo_machine_def ranges_ok_inline)

theorem matmul_is_per_token_matvec_witness:
  "\<exists>ys. matmul_q8 demo_machine (replicate 5 0) [\<lparr>q8_d = 0x3c00, q8_qs = replicate 32 1\<rparr>] (replicate 5 \<lparr>q8_d = 0x3c00, q8_qs = replicate 32 1\<rparr>) 1 32 5
     = (Ok ys :: (unit, f32 list) outcome)"
  using matmul_is_per_token_matvec [of demo_machine "\<lambda>n. [(0, n)]" "replicate 5 0" 5 1 "[0]" "replicate 5 \<lparr>q8_d = 0x3c00, q8_qs = replicate 32 1\<rparr>" 32
      "[\<lparr>q8_d = 0x3c00, q8_qs = replicate 32 1\<rparr>]", OF demo_machine_sched, THEN conjunct1]
  by (auto simp: QK8_0_def)

end
