(* ===== verification/Nr_Parallel.thy ===== *)
theory Nr_Parallel
  imports Nr_Kernels "HOL-Library.Multiset"
begin

text \<open>
  The spin-worker pool of \<^verbatim>\<open>crates/nr-tensor/src/parallel.rs\<close>. Every atomic access of \<open>worker_loop\<close>,
  \<open>drain\<close> and \<open>run\<close> is one step of one thread, and all interleavings are allowed (the code uses
  \<open>SeqCst\<close> throughout). A task's address on the main core's stack is the number of the job, and the
  ranges a job's closure is called on are logged. Counters are natural numbers: the code's would
  have to wrap at \<open>2^64\<close>.
\<close>

subsection \<open>The pool and its threads\<close>

record pool =
  p_seq :: nat
  p_cursor :: nat
  p_total :: nat
  p_chunk :: nat
  p_done :: nat
  p_task :: nat
  p_workers :: nat
  p_ready :: nat

definition pool_new :: pool where
  "pool_new = \<lparr>p_seq = 0, p_cursor = 0, p_total = 0, p_chunk = 1, p_done = 0, p_task = 0, p_workers = 0, p_ready = 0\<rparr>"

text \<open>Where a thread is inside \<open>drain\<close>: loading \<open>total\<close>, loading \<open>chunk\<close>, about to take a range, about to call the closure on one, or out of the loop.\<close>

datatype drain = D_Total | D_Chunk nat | D_Take nat nat | D_Run nat nat nat | D_End

datatype worker = W_Enter | W_Init | W_Poll nat | W_Load nat | W_Drain nat nat drain

datatype main_core = M_Idle | M_Post nat nat nat | M_Drain nat drain | M_Wait nat

record sys =
  s_pool :: pool
  s_main :: main_core
  s_workers :: "worker list"
  s_job :: nat
  s_total :: nat
  s_log :: "(nat \<times> nat \<times> nat) list"

definition drain_step :: "nat \<Rightarrow> pool \<Rightarrow> drain \<Rightarrow> pool \<times> drain \<times> (nat \<times> nat \<times> nat) list" where
  "drain_step task p d = (case d of
       D_Total \<Rightarrow> (p, D_Chunk (p_total p), [])
     | D_Chunk n \<Rightarrow> (p, D_Take n (max (p_chunk p) 1), [])
     | D_Take n chunk \<Rightarrow>
         let start = p_cursor p in
         (p\<lparr>p_cursor := start + chunk\<rparr>, if start \<ge> n then D_End else D_Run n chunk start, [])
     | D_Run n chunk start \<Rightarrow> (p, D_Take n chunk, [(task, start, min (start + chunk) n)])
     | D_End \<Rightarrow> (p, D_End, []))"

definition worker_step :: "pool \<Rightarrow> worker \<Rightarrow> pool \<times> worker \<times> (nat \<times> nat \<times> nat) list" where
  "worker_step p w = (case w of
       W_Enter \<Rightarrow> (p\<lparr>p_ready := p_ready p + 1\<rparr>, W_Init, [])
     | W_Init \<Rightarrow> (p, W_Poll (p_seq p), [])
     | W_Poll prev \<Rightarrow> (p, if p_seq p \<noteq> prev then W_Load (p_seq p) else W_Poll prev, [])
     | W_Load prev \<Rightarrow> (p, W_Drain prev (p_task p) D_Total, [])
     | W_Drain prev task d \<Rightarrow>
         if d = D_End then (p\<lparr>p_done := p_done p + 1\<rparr>, W_Poll prev, [])
         else let (p', d', l) = drain_step task p d in (p', W_Drain prev task d', l))"

definition activate :: "pool \<Rightarrow> nat \<Rightarrow> ('e, pool) outcome" where
  "activate p n = obind (assert (p_ready p \<ge> n)) (\<lambda>_. Ok (p\<lparr>p_workers := n\<rparr>))"

definition job_chunk :: "nat \<Rightarrow> nat \<Rightarrow> nat" where
  "job_chunk tot n = max (tot div ((n + 1) * 4)) 16"

text \<open>The stores of \<open>run\<close>, in their order; then the new sequence number publishes the job.\<close>

definition post_step :: "nat \<Rightarrow> nat \<Rightarrow> nat \<Rightarrow> nat \<Rightarrow> pool \<Rightarrow> pool" where
  "post_step k n tot job p =
     (if k = 0 then p\<lparr>p_total := tot\<rparr>
      else if k = 1 then p\<lparr>p_cursor := 0\<rparr>
      else if k = 2 then p\<lparr>p_chunk := job_chunk tot n\<rparr>
      else if k = 3 then p\<lparr>p_done := 0\<rparr>
      else if k = 4 then p\<lparr>p_task := job\<rparr>
      else p\<lparr>p_seq := p_seq p + 1\<rparr>)"

definition main_step :: "nat \<Rightarrow> pool \<Rightarrow> main_core \<Rightarrow> pool \<times> main_core \<times> (nat \<times> nat \<times> nat) list" where
  "main_step job p m = (case m of
       M_Idle \<Rightarrow> (p, M_Idle, [])
     | M_Post k n tot \<Rightarrow> (post_step k n tot job p, if k < 5 then M_Post (k + 1) n tot else M_Drain n D_Total, [])
     | M_Drain n d \<Rightarrow>
         if d = D_End then (p, M_Wait n, [])
         else let (p', d', l) = drain_step job p d in (p', M_Drain n d', l)
     | M_Wait n \<Rightarrow> (p, if p_done p < n then M_Wait n else M_Idle, []))"

text \<open>\<open>run\<close>: inline without workers or for small jobs, otherwise posted.\<close>

definition call_run :: "sys \<Rightarrow> nat \<Rightarrow> sys" where
  "call_run s tot =
     (let n = p_workers (s_pool s); job = s_job s + 1 in
      if n = 0 \<or> tot < 128 then s\<lparr>s_job := job, s_total := tot, s_log := [(job, 0, tot)]\<rparr>
      else s\<lparr>s_main := M_Post 0 n tot, s_job := job, s_total := tot, s_log := []\<rparr>)"

inductive step :: "sys \<Rightarrow> sys \<Rightarrow> bool" where
  step_call: "s_main s = M_Idle \<Longrightarrow> step s (call_run s tot)"
| step_main: "s_main s \<noteq> M_Idle \<Longrightarrow> main_step (s_job s) (s_pool s) (s_main s) = (p, m, l)
    \<Longrightarrow> step s (s\<lparr>s_pool := p, s_main := m, s_log := s_log s @ l\<rparr>)"
| step_worker: "i < length (s_workers s) \<Longrightarrow> worker_step (s_pool s) (s_workers s ! i) = (p, w, l)
    \<Longrightarrow> step s (s\<lparr>s_pool := p, s_workers := (s_workers s)[i := w], s_log := s_log s @ l\<rparr>)"

inductive_cases step_elim: "step s t"

inductive reachable :: "sys \<Rightarrow> sys \<Rightarrow> bool" for s where
  reachable_refl: "reachable s s"
| reachable_step: "reachable s t \<Longrightarrow> step t u \<Longrightarrow> reachable s u"

text \<open>The pool once all workers spin: \<open>n\<close> threads, all counted, each having read the current sequence number.\<close>

definition spinning :: "nat \<Rightarrow> sys" where
  "spinning n = \<lparr>s_pool = pool_new\<lparr>p_workers := n, p_ready := n\<rparr>, s_main = M_Idle, s_workers = replicate n (W_Poll 0),
     s_job = 0, s_total = 0, s_log = []\<rparr>"

subsection \<open>The invariant\<close>

text \<open>Ranges a thread has taken but not run.\<close>

definition drain_flight :: "drain \<Rightarrow> nat multiset" where
  "drain_flight d = (case d of D_Run n chunk start \<Rightarrow> {#start#} | _ \<Rightarrow> {#})"

definition worker_flight :: "worker \<Rightarrow> nat multiset" where
  "worker_flight w = (case w of W_Drain prev task d \<Rightarrow> drain_flight d | _ \<Rightarrow> {#})"

definition main_flight :: "main_core \<Rightarrow> nat multiset" where
  "main_flight m = (case m of M_Drain n d \<Rightarrow> drain_flight d | _ \<Rightarrow> {#})"

definition drain_ok :: "nat \<Rightarrow> nat \<Rightarrow> nat \<Rightarrow> drain \<Rightarrow> bool" where
  "drain_ok tot chunk cursor d = (case d of
       D_Total \<Rightarrow> True | D_Chunk n \<Rightarrow> n = tot | D_Take n c \<Rightarrow> n = tot \<and> c = chunk
     | D_Run n c start \<Rightarrow> n = tot \<and> c = chunk | D_End \<Rightarrow> tot \<le> cursor)"

text \<open>A worker while job \<open>job\<close> is published under sequence number \<open>seq\<close>: it has not noticed, is on it, or is done.\<close>

definition worker_ok :: "nat \<Rightarrow> nat \<Rightarrow> nat \<Rightarrow> nat \<Rightarrow> nat \<Rightarrow> worker \<Rightarrow> bool" where
  "worker_ok seq job tot chunk cursor w = (case w of
       W_Poll prev \<Rightarrow> prev + 1 = seq \<or> prev = seq \<and> tot \<le> cursor
     | W_Load prev \<Rightarrow> prev = seq
     | W_Drain prev task d \<Rightarrow> prev = seq \<and> task = job \<and> drain_ok tot chunk cursor d
     | _ \<Rightarrow> False)"

definition starts :: "nat \<Rightarrow> nat \<Rightarrow> nat \<Rightarrow> nat list" where
  "starts tot chunk m = filter (\<lambda>s. s < tot) (map (\<lambda>k. k * chunk) [0..<m])"

text \<open>What has been taken so far is in the log or in flight, once each.\<close>

definition taken_ok :: "sys \<Rightarrow> bool" where
  "taken_ok s \<longleftrightarrow> (\<exists>m. p_cursor (s_pool s) = m * p_chunk (s_pool s)
     \<and> mset (map (\<lambda>(j, a, b). a) (s_log s)) + (main_flight (s_main s) + sum_list (map worker_flight (s_workers s)))
        = mset (starts (s_total s) (p_chunk (s_pool s)) m))"

definition log_ok :: "sys \<Rightarrow> bool" where
  "log_ok s \<longleftrightarrow> (\<forall>(j, a, b) \<in> set (s_log s). j = s_job s \<and> b = min (a + p_chunk (s_pool s)) (s_total s))"

definition published :: "sys \<Rightarrow> bool" where
  "published s \<longleftrightarrow> (case s_main s of M_Drain n d \<Rightarrow> True | M_Wait n \<Rightarrow> True | _ \<Rightarrow> False)"

definition finished_workers :: "sys \<Rightarrow> nat" where
  "finished_workers s = length (filter (\<lambda>w. w = W_Poll (p_seq (s_pool s))) (s_workers s))"

definition job_running :: "sys \<Rightarrow> bool" where
  "job_running s \<longleftrightarrow> (let p = s_pool s; n = length (s_workers s) in
     p_total p = s_total s \<and> p_task p = s_job s \<and> 16 \<le> p_chunk p \<and> p_done p = finished_workers s
     \<and> (case s_main s of M_Drain k d \<Rightarrow> k = n \<and> drain_ok (s_total s) (p_chunk p) (p_cursor p) d
          | M_Wait k \<Rightarrow> k = n \<and> s_total s \<le> p_cursor p | _ \<Rightarrow> False)
     \<and> (\<forall>w \<in> set (s_workers s). worker_ok (p_seq p) (s_job s) (s_total s) (p_chunk p) (p_cursor p) w)
     \<and> taken_ok s \<and> log_ok s)"

definition posting_ok :: "sys \<Rightarrow> nat \<Rightarrow> nat \<Rightarrow> nat \<Rightarrow> bool" where
  "posting_ok s k n tot \<longleftrightarrow> k \<le> 5 \<and> n = length (s_workers s) \<and> tot = s_total s \<and> s_log s = []
     \<and> (1 \<le> k \<longrightarrow> p_total (s_pool s) = tot) \<and> (2 \<le> k \<longrightarrow> p_cursor (s_pool s) = 0)
     \<and> (3 \<le> k \<longrightarrow> p_chunk (s_pool s) = job_chunk tot n) \<and> (4 \<le> k \<longrightarrow> p_done (s_pool s) = 0)
     \<and> (5 \<le> k \<longrightarrow> p_task (s_pool s) = s_job s)"

definition returned_ok :: "sys \<Rightarrow> bool" where
  "returned_ok s \<longleftrightarrow> 0 < s_job s \<longrightarrow> (\<forall>(j, a, b) \<in> set (s_log s). j = s_job s) \<and> ranges_ok (s_total s) (map snd (s_log s))"

definition all_idle :: "sys \<Rightarrow> bool" where
  "all_idle s \<longleftrightarrow> (\<forall>w \<in> set (s_workers s). w = W_Poll (p_seq (s_pool s)))"

definition pool_inv :: "sys \<Rightarrow> bool" where
  "pool_inv s \<longleftrightarrow> p_workers (s_pool s) = length (s_workers s)
     \<and> (if published s then job_running s
        else all_idle s \<and> (case s_main s of M_Idle \<Rightarrow> returned_ok s | M_Post k n tot \<Rightarrow> posting_ok s k n tot | _ \<Rightarrow> False))"

subsection \<open>Lemmas\<close>

lemma sum_list_update_ms: "i < length ws \<Longrightarrow> sum_list (map f (ws[i := w])) + f (ws ! i) = sum_list (map f ws) + (f w :: 'a :: comm_monoid_add)"
  by (induction ws arbitrary: i) (auto simp: ac_simps split: nat.split)

lemma filter_update_count:
  "i < length ws \<Longrightarrow> length (filter P (ws[i := w])) + (if P (ws ! i) then 1 else 0) = length (filter P ws) + (if P w then 1 else 0)"
proof -
  have c: "length (filter P ws) = sum_list (map (\<lambda>w. if P w then 1 else 0) ws)" for ws by (induction ws) auto
  show "i < length ws \<Longrightarrow> ?thesis" using sum_list_update_ms [of i ws "\<lambda>w. if P w then 1 else 0 :: nat" w] by (simp add: c)
qed

lemma starts_Suc: "starts tot chunk (Suc m) = starts tot chunk m @ (if m * chunk < tot then [m * chunk] else [])"
  by (simp add: starts_def)

text \<open>What one step of \<open>drain\<close> does to the pool, the thread and the log.\<close>

lemma drain_step_facts:
  assumes "drain_step task p d = (p', d', l)" and "drain_ok tot (p_chunk p) (p_cursor p) d" and "d \<noteq> D_End"
    and "p_total p = tot" and "1 \<le> p_chunk p"
  shows "drain_ok tot (p_chunk p) (p_cursor p') d'" "p_cursor p \<le> p_cursor p'" "p' = p\<lparr>p_cursor := p_cursor p'\<rparr>"
    "(\<forall>(j, a, b) \<in> set l. j = task \<and> b = min (a + p_chunk p) tot)"
    "(p_cursor p' = p_cursor p \<and> mset (map (\<lambda>(j, a, b). a) l) + drain_flight d' = drain_flight d)
     \<or> (p_cursor p' = p_cursor p + p_chunk p \<and> l = [] \<and> drain_flight d = {#} \<and> drain_flight d' = (if p_cursor p < tot then {#p_cursor p#} else {#}))"
  using assms by (auto simp: drain_step_def drain_ok_def drain_flight_def Let_def split: drain.splits if_splits)

lemma drain_ok_mono: "drain_ok tot c cur d \<Longrightarrow> cur \<le> cur' \<Longrightarrow> drain_ok tot c cur' d"
  by (auto simp: drain_ok_def split: drain.splits)

lemma worker_ok_mono: "worker_ok seq job tot c cur w \<Longrightarrow> cur \<le> cur' \<Longrightarrow> worker_ok seq job tot c cur' w"
  by (auto simp: worker_ok_def drain_ok_mono split: worker.splits)

text \<open>One step of \<open>drain\<close> by any thread keeps the account of taken ranges.\<close>

lemma taken_step:
  assumes "taken_ok s" and "p_chunk p' = p_chunk (s_pool s)"
    and flight: "main_flight (s_main s') + sum_list (map worker_flight (s_workers s')) + F = main_flight (s_main s) + sum_list (map worker_flight (s_workers s)) + F'"
    and drain: "(p_cursor p' = p_cursor (s_pool s) \<and> mset (map (\<lambda>(j, a, b). a) l) + F' = F)
     \<or> (p_cursor p' = p_cursor (s_pool s) + p_chunk (s_pool s) \<and> l = [] \<and> F = {#} \<and> F' = (if p_cursor (s_pool s) < s_total s then {#p_cursor (s_pool s)#} else {#}))"
    and "s_pool s' = p'" "s_total s' = s_total s" "s_log s' = s_log s @ l"
  shows "taken_ok s'"
proof -
  let ?fl = "main_flight (s_main s) + sum_list (map worker_flight (s_workers s))"
  let ?fl' = "main_flight (s_main s') + sum_list (map worker_flight (s_workers s'))"
  obtain m where m: "p_cursor (s_pool s) = m * p_chunk (s_pool s)"
      "mset (map (\<lambda>(j, a, b). a) (s_log s)) + ?fl = mset (starts (s_total s) (p_chunk (s_pool s)) m)"
    using assms(1) by (auto simp: taken_ok_def)
  from drain show ?thesis
  proof
    assume d: "p_cursor p' = p_cursor (s_pool s) \<and> mset (map (\<lambda>(j, a, b). a) l) + F' = F"
    then have "?fl' + (mset (map (\<lambda>(j, a, b). a) l) + F') = ?fl + F'" using flight by simp
    then have "mset (map (\<lambda>(j, a, b). a) l) + ?fl' = ?fl" by (simp add: ac_simps)
    then have "mset (map (\<lambda>(j, a, b). a) (s_log s')) + ?fl' = mset (starts (s_total s) (p_chunk (s_pool s)) m)"
      unfolding m(2) [symmetric] by (simp add: assms(7) add.assoc)
    then show ?thesis using m(1) d assms(2,5,6) by (auto simp: taken_ok_def)
  next
    assume d: "p_cursor p' = p_cursor (s_pool s) + p_chunk (s_pool s) \<and> l = [] \<and> F = {#} \<and> F' = (if p_cursor (s_pool s) < s_total s then {#p_cursor (s_pool s)#} else {#})"
    then have "?fl' = ?fl + F'" using flight by simp
    then have "mset (map (\<lambda>(j, a, b). a) (s_log s')) + ?fl' = mset (starts (s_total s) (p_chunk (s_pool s)) (Suc m))"
      using m d by (simp add: assms(7) starts_Suc add.assoc [symmetric])
    moreover have "p_cursor p' = Suc m * p_chunk (s_pool s)" using d m(1) by simp
    ultimately show ?thesis using assms(2,5,6) unfolding taken_ok_def by metis
  qed
qed


lemma filter_full: "length (filter P xs) = length xs \<Longrightarrow> x \<in> set xs \<Longrightarrow> P x"
  using length_filter_less [of x xs P] by (metis less_irrefl)

lemma ranges_rows_starts:
  "1 \<le> c \<Longrightarrow> ranges_rows (map (\<lambda>a. (a, min (a + c) tot)) (starts tot c m)) = [0..<min (m * c) tot]"
proof (induction m)
  case 0
  then show ?case by (simp add: starts_def ranges_rows_def)
next
  case (Suc m)
  show ?case
  proof (cases "m * c < tot")
    case True
    have "ranges_rows (map (\<lambda>a. (a, min (a + c) tot)) (starts tot c (Suc m))) = [0..<m * c] @ [m * c..<min (m * c + c) tot]"
      using Suc True by (simp add: starts_Suc ranges_rows_def)
    also have "\<dots> = [0..<min (m * c + c) tot]" using upt_add_eq_append [of 0 "m * c" "min (m * c + c) tot - m * c"] True by simp
    finally show ?thesis by (simp add: add.commute)
  next
    case False
    then show ?thesis using Suc by (simp add: starts_Suc)
  qed
qed

lemma mset_ranges_rows: "mset rs = mset rs' \<Longrightarrow> mset (ranges_rows rs) = mset (ranges_rows rs')"
proof -
  have "mset (ranges_rows rs) = sum_mset (image_mset (\<lambda>(a, b). mset [a..<b]) (mset rs))" for rs
    by (induction rs) (auto simp: ranges_rows_def)
  then show "mset rs = mset rs' \<Longrightarrow> ?thesis" by simp
qed

lemma ranges_ok_mset: "mset rs = mset rs' \<Longrightarrow> ranges_ok n rs \<Longrightarrow> ranges_ok n rs'"
  unfolding ranges_ok_def by (metis mset_eq_imp_distinct_iff mset_eq_setD mset_ranges_rows)

lemma ranges_ok_starts: "1 \<le> c \<Longrightarrow> tot \<le> m * c \<Longrightarrow> ranges_ok tot (map (\<lambda>a. (a, min (a + c) tot)) (starts tot c m))"
  unfolding ranges_ok_def by (simp add: ranges_rows_starts) (auto simp: starts_def)

lemma log_ranges:
  assumes "\<forall>(j, a, b) \<in> set l. b = min (a + c) tot" and "mset (map (\<lambda>(j, a, b). a) l) = mset (starts tot c m)" and "1 \<le> c" and "tot \<le> m * c"
  shows "ranges_ok tot (map snd l)"
proof -
  have "map snd l = map (\<lambda>a. (a, min (a + c) tot)) (map (\<lambda>(j, a, b). a) l)"
    unfolding map_map
  proof (rule map_cong [OF refl])
    fix x assume "x \<in> set l"
    from bspec [OF assms(1) this] show "snd x = ((\<lambda>a. (a, min (a + c) tot)) \<circ> (\<lambda>(j, a, b). a)) x" by (cases x) simp
  qed
  then have "mset (map snd l) = mset (map (\<lambda>a. (a, min (a + c) tot)) (starts tot c m))"
    by (simp only: mset_map [of "\<lambda>a. (a, min (a + c) tot)"] assms(2))
  then show ?thesis by (rule ranges_ok_mset [OF _ ranges_ok_starts [OF assms(3,4)], OF sym])
qed

subsection \<open>Every step keeps the invariant\<close>

lemma pool_inv_idle: "s_main s = M_Idle \<Longrightarrow> pool_inv s \<longleftrightarrow> p_workers (s_pool s) = length (s_workers s) \<and> all_idle s \<and> returned_ok s"
  by (simp add: pool_inv_def published_def)

lemma pool_inv_post: "s_main s = M_Post k n tot \<Longrightarrow> pool_inv s \<longleftrightarrow> p_workers (s_pool s) = length (s_workers s) \<and> all_idle s \<and> posting_ok s k n tot"
  by (simp add: pool_inv_def published_def)

lemma pool_inv_running: "published s \<Longrightarrow> pool_inv s \<longleftrightarrow> p_workers (s_pool s) = length (s_workers s) \<and> job_running s"
  by (simp add: pool_inv_def)

lemma all_idle_cong: "all_idle s \<Longrightarrow> s_workers t = s_workers s \<Longrightarrow> p_seq (s_pool t) = p_seq (s_pool s) \<Longrightarrow> all_idle t"
  by (simp add: all_idle_def)

lemma all_idle_flight: "all_idle s \<Longrightarrow> sum_list (map worker_flight (s_workers s)) = {#}"
proof -
  have "set ws \<subseteq> {W_Poll q} \<Longrightarrow> sum_list (map worker_flight ws) = {#}" for ws q by (induction ws) (auto simp: worker_flight_def)
  then show "all_idle s \<Longrightarrow> ?thesis" unfolding all_idle_def by blast
qed

lemma inv_call:
  assumes "pool_inv s" and "s_main s = M_Idle"
  shows "pool_inv (call_run s tot)"
proof -
  have w: "all_idle s" and nw: "p_workers (s_pool s) = length (s_workers s)" using assms by (simp_all add: pool_inv_idle)
  show ?thesis
  proof (cases "p_workers (s_pool s) = 0 \<or> tot < 128")
    case True
    then have "call_run s tot = s\<lparr>s_job := s_job s + 1, s_total := tot, s_log := [(s_job s + 1, 0, tot)]\<rparr>"
      by (simp add: call_run_def Let_def)
    then show ?thesis using all_idle_cong [OF w] nw assms(2) by (simp add: pool_inv_idle returned_ok_def ranges_ok_inline)
  next
    case False
    then have "call_run s tot = s\<lparr>s_main := M_Post 0 (p_workers (s_pool s)) tot, s_job := s_job s + 1, s_total := tot, s_log := []\<rparr>"
      by (simp add: call_run_def Let_def)
    then show ?thesis using all_idle_cong [OF w] nw by (simp add: pool_inv_post posting_ok_def)
  qed
qed

lemma job_running_start:
  assumes w: "all_idle s" and c: "posting_ok s 5 n tot" and nw: "p_workers (s_pool s) = length (s_workers s)"
  shows "job_running (s\<lparr>s_pool := (s_pool s)\<lparr>p_seq := p_seq (s_pool s) + 1\<rparr>, s_main := M_Drain n D_Total\<rparr>)" (is "job_running ?s")
proof -
  have none: "finished_workers ?s = 0" using w by (auto simp: finished_workers_def all_idle_def filter_empty_conv)
  have wk: "\<forall>w \<in> set (s_workers s). worker_ok (p_seq (s_pool s) + 1) (s_job s) t ch cu w" for t ch cu
    using w by (auto simp: all_idle_def worker_ok_def)
  have lg: "taken_ok ?s" "log_ok ?s" using c all_idle_flight [OF w]
    by (auto simp: posting_ok_def taken_ok_def log_ok_def starts_def main_flight_def drain_flight_def intro!: exI [of _ 0])
  show ?thesis using c none wk lg unfolding job_running_def Let_def by (simp add: posting_ok_def drain_ok_def job_chunk_def)
qed

lemma inv_main_post:
  assumes "pool_inv s" and "s_main s = M_Post k n tot" and "main_step (s_job s) (s_pool s) (s_main s) = (p, m, l)"
  shows "pool_inv (s\<lparr>s_pool := p, s_main := m, s_log := s_log s @ l\<rparr>)"
proof -
  have w: "all_idle s" and c: "posting_ok s k n tot" and nw: "p_workers (s_pool s) = length (s_workers s)"
    using assms(1,2) by (simp_all add: pool_inv_post)
  have pm: "p = post_step k n tot (s_job s) (s_pool s)" "m = (if k < 5 then M_Post (k + 1) n tot else M_Drain n D_Total)" "l = []"
    using assms(2,3) by (auto simp: main_step_def)
  show ?thesis
  proof (cases "k < 5")
    case True
    then have "k = 0 \<or> k = 1 \<or> k = 2 \<or> k = 3 \<or> k = 4" by linarith
    then show ?thesis using all_idle_cong [OF w] c nw by (elim disjE) (simp_all add: pm pool_inv_post posting_ok_def post_step_def)
  next
    case False
    then have k: "k = 5" using c by (simp add: posting_ok_def)
    show ?thesis using job_running_start [OF w c [unfolded k] nw] nw k
      by (subst pool_inv_running) (simp_all add: pm post_step_def published_def)
  qed
qed


lemma inv_main_running:
  assumes inv: "pool_inv s" and pub: "published s" and st: "main_step (s_job s) (s_pool s) (s_main s) = (p, m, l)"
  shows "pool_inv (s\<lparr>s_pool := p, s_main := m, s_log := s_log s @ l\<rparr>)"
proof -
  let ?s' = "s\<lparr>s_pool := p, s_main := m, s_log := s_log s @ l\<rparr>"
  have jr: "job_running s" and nw: "p_workers (s_pool s) = length (s_workers s)" using inv pub by (auto simp: pool_inv_def)
  from pub consider n d where "s_main s = M_Drain n d" "d \<noteq> D_End" | n where "s_main s = M_Drain n D_End"
    | n where "s_main s = M_Wait n" "p_done (s_pool s) < n" | n where "s_main s = M_Wait n" "\<not> p_done (s_pool s) < n"
    by (auto simp: published_def split: main_core.splits)
  then show ?thesis
  proof cases
    case 1
    then obtain d' where d: "drain_step (s_job s) (s_pool s) d = (p, d', l)" "m = M_Drain n d'"
      using st by (auto simp: main_step_def split: prod.splits)
    note f = drain_step_facts [OF d(1), of "s_total s"]
    have ok: "drain_ok (s_total s) (p_chunk (s_pool s)) (p_cursor (s_pool s)) d" "p_total (s_pool s) = s_total s" "1 \<le> p_chunk (s_pool s)"
      using jr 1 by (auto simp: job_running_def Let_def)
    note f = f [OF ok(1) 1(2) ok(2,3)]
    have "taken_ok ?s'"
      by (rule taken_step [where F = "drain_flight d" and F' = "drain_flight d'" and s = s and p' = p and l = l])
        (use jr f 1 d in \<open>auto simp: job_running_def Let_def main_flight_def ac_simps\<close>)
    moreover have pp: "p_chunk p = p_chunk (s_pool s)" "p_total p = p_total (s_pool s)" "p_seq p = p_seq (s_pool s)"
        "p_task p = p_task (s_pool s)" "p_done p = p_done (s_pool s)" "p_workers p = p_workers (s_pool s)" by (subst f(3), simp)+
    moreover have "log_ok ?s'" using jr f(4) by (auto simp: pp job_running_def Let_def log_ok_def)
    ultimately have "job_running ?s'" using jr f(1) 1 d(2) worker_ok_mono [OF _ f(2)]
      unfolding job_running_def Let_def by (simp add: finished_workers_def)
    then show ?thesis using nw by (subst pool_inv_running) (simp_all add: published_def d(2) pp)
  next
    case 2
    then have "p = s_pool s" "m = M_Wait n" "l = []" using st by (auto simp: main_step_def)
    then show ?thesis using jr nw 2
      by (auto simp: pool_inv_def published_def job_running_def Let_def finished_workers_def drain_ok_def taken_ok_def log_ok_def main_flight_def drain_flight_def)
  next
    case 3
    then have "?s' = s" using st by (simp add: main_step_def)
    then show ?thesis using inv by simp
  next
    case 4
    then have p: "p = s_pool s" "m = M_Idle" "l = []" using st by (auto simp: main_step_def)
    have "p_done (s_pool s) = finished_workers s" "n = length (s_workers s)" using jr 4 by (simp_all add: job_running_def Let_def)
    then have "length (filter (\<lambda>w. w = W_Poll (p_seq (s_pool s))) (s_workers s)) = length (s_workers s)"
      using 4(2) length_filter_le [of "\<lambda>w. w = W_Poll (p_seq (s_pool s))" "s_workers s"] unfolding finished_workers_def by linarith
    then have all: "all_idle s" unfolding all_idle_def by (intro ballI) (erule (1) filter_full)
    note fl = all_idle_flight [OF all]
    have t: "s_total s \<le> p_cursor (s_pool s)" "taken_ok s" "log_ok s" "1 \<le> p_chunk (s_pool s)" using jr 4 by (simp_all add: job_running_def Let_def)
    then obtain k where "p_cursor (s_pool s) = k * p_chunk (s_pool s)" "mset (map (\<lambda>(j, a, b). a) (s_log s)) = mset (starts (s_total s) (p_chunk (s_pool s)) k)"
      using fl 4 by (auto simp: taken_ok_def main_flight_def)
    moreover have lg: "\<forall>(j, a, b) \<in> set (s_log s). b = min (a + p_chunk (s_pool s)) (s_total s)" "\<forall>(j, a, b) \<in> set (s_log s). j = s_job s"
      using t(3) unfolding log_ok_def split_def by blast+
    ultimately have "ranges_ok (s_total s) (map snd (s_log s))" using t(1,4) log_ranges [OF lg(1), of k] by metis
    moreover note lg(2)
    ultimately show ?thesis using all_idle_cong [OF all] nw by (simp add: p pool_inv_idle returned_ok_def)
  qed
qed

lemma inv_main:
  assumes "pool_inv s" and "s_main s \<noteq> M_Idle" and "main_step (s_job s) (s_pool s) (s_main s) = (p, m, l)"
  shows "pool_inv (s\<lparr>s_pool := p, s_main := m, s_log := s_log s @ l\<rparr>)"
proof (cases "s_main s")
  case (M_Post k n tot)
  with assms show ?thesis by (intro inv_main_post) simp_all
qed (use assms inv_main_running in \<open>auto simp: published_def\<close>)

lemma job_running_worker:
  assumes jr: "job_running s" and i: "i < length (s_workers s)"
    and s': "s' = s\<lparr>s_pool := p, s_workers := (s_workers s)[i := w], s_log := s_log s @ l\<rparr>"
    and p: "p = s_pool s\<lparr>p_cursor := p_cursor p, p_done := p_done p\<rparr>" and cur: "p_cursor (s_pool s) \<le> p_cursor p"
    and l: "\<forall>(j, a, b) \<in> set l. j = s_job s \<and> b = min (a + p_chunk (s_pool s)) (s_total s)"
    and drain: "(p_cursor p = p_cursor (s_pool s) \<and> mset (map (\<lambda>(j, a, b). a) l) + worker_flight w = worker_flight (s_workers s ! i))
     \<or> (p_cursor p = p_cursor (s_pool s) + p_chunk (s_pool s) \<and> l = [] \<and> worker_flight (s_workers s ! i) = {#}
        \<and> worker_flight w = (if p_cursor (s_pool s) < s_total s then {#p_cursor (s_pool s)#} else {#}))"
    and wk: "worker_ok (p_seq (s_pool s)) (s_job s) (s_total s) (p_chunk (s_pool s)) (p_cursor p) w"
    and dn: "p_done p + (if s_workers s ! i = W_Poll (p_seq (s_pool s)) then 1 else 0) = p_done (s_pool s) + (if w = W_Poll (p_seq (s_pool s)) then 1 else 0)"
  shows "job_running s'"
proof -
  have pp: "p_chunk p = p_chunk (s_pool s)" "p_total p = p_total (s_pool s)" "p_seq p = p_seq (s_pool s)" "p_task p = p_task (s_pool s)"
    by (subst p, simp)+
  have "taken_ok s'"
    by (rule taken_step [where F = "worker_flight (s_workers s ! i)" and F' = "worker_flight w" and s = s and p' = p and l = l])
      (use jr pp drain sum_list_update_ms [OF i, of worker_flight w] s' in \<open>simp_all add: job_running_def Let_def ac_simps\<close>)
  moreover have "log_ok s'" using jr l by (auto simp: s' pp job_running_def Let_def log_ok_def)
  moreover have "p_done p = finished_workers s'"
    using filter_update_count [OF i, of "\<lambda>w. w = W_Poll (p_seq (s_pool s))" w] dn jr
    by (simp add: s' pp finished_workers_def job_running_def Let_def split: if_splits)
  moreover have "\<forall>v \<in> set ((s_workers s)[i := w]). worker_ok (p_seq (s_pool s)) (s_job s) (s_total s) (p_chunk (s_pool s)) (p_cursor p) v"
    using jr wk worker_ok_mono [OF _ cur] set_update_subset_insert [of "s_workers s" i w] by (auto simp: job_running_def Let_def)
  moreover have "case s_main s of M_Drain k d \<Rightarrow> k = length (s_workers s) \<and> drain_ok (s_total s) (p_chunk (s_pool s)) (p_cursor p) d
      | M_Wait k \<Rightarrow> k = length (s_workers s) \<and> s_total s \<le> p_cursor p | _ \<Rightarrow> False"
    using jr cur by (auto simp: job_running_def Let_def drain_ok_mono split: main_core.splits)
  ultimately show ?thesis using jr unfolding job_running_def Let_def s' by (simp add: pp split: main_core.splits)
qed

lemma worker_running:
  assumes jr: "job_running s" and i: "i < length (s_workers s)" and st: "worker_step (s_pool s) (s_workers s ! i) = (p, w, l)"
    and s': "s' = s\<lparr>s_pool := p, s_workers := (s_workers s)[i := w], s_log := s_log s @ l\<rparr>"
  shows "job_running s' \<and> p_workers p = p_workers (s_pool s)"
proof -
  note jw = job_running_worker [OF jr i s']
  have ok: "worker_ok (p_seq (s_pool s)) (s_job s) (s_total s) (p_chunk (s_pool s)) (p_cursor (s_pool s)) (s_workers s ! i)"
    and jt: "p_total (s_pool s) = s_total s" "p_task (s_pool s) = s_job s" "1 \<le> p_chunk (s_pool s)"
    using jr i by (auto simp: job_running_def Let_def)
  then consider (poll) prev where "s_workers s ! i = W_Poll prev" "prev + 1 = p_seq (s_pool s) \<or> prev = p_seq (s_pool s)"
    | (load) "s_workers s ! i = W_Load (p_seq (s_pool s))"
    | (fin) "s_workers s ! i = W_Drain (p_seq (s_pool s)) (s_job s) D_End" "s_total s \<le> p_cursor (s_pool s)"
    | (drain) d where "s_workers s ! i = W_Drain (p_seq (s_pool s)) (s_job s) d" "d \<noteq> D_End"
        "drain_ok (s_total s) (p_chunk (s_pool s)) (p_cursor (s_pool s)) d"
    by (cases "s_workers s ! i") (auto simp: worker_ok_def drain_ok_def split: drain.splits)
  then show ?thesis
  proof cases
    case poll
    then show ?thesis using st ok by (intro conjI jw) (auto simp: worker_step_def worker_flight_def worker_ok_def)
  next
    case load
    then show ?thesis using st jt by (intro conjI jw) (auto simp: worker_step_def worker_flight_def worker_ok_def drain_ok_def drain_flight_def)
  next
    case fin
    then show ?thesis using st by (intro conjI jw) (auto simp: worker_step_def worker_flight_def worker_ok_def drain_flight_def)
  next
    case drain
    then obtain d' where d: "drain_step (s_job s) (s_pool s) d = (p, d', l)" "w = W_Drain (p_seq (s_pool s)) (s_job s) d'"
      using st by (auto simp: worker_step_def split: prod.splits)
    note f = drain_step_facts [OF d(1) drain(3,2) jt(1,3)]
    obtain c where c: "p = s_pool s\<lparr>p_cursor := c\<rparr>" using f(3) that by blast
    have "p = s_pool s\<lparr>p_cursor := p_cursor p, p_done := p_done p\<rparr>" "p_workers p = p_workers (s_pool s)" "p_done p = p_done (s_pool s)"
      by (simp_all add: c)
    then show ?thesis using f drain d(2) by (intro conjI jw) (simp_all add: worker_flight_def worker_ok_def)
  qed
qed

lemma inv_worker:
  assumes inv: "pool_inv s" and i: "i < length (s_workers s)" and st: "worker_step (s_pool s) (s_workers s ! i) = (p, w, l)"
  shows "pool_inv (s\<lparr>s_pool := p, s_workers := (s_workers s)[i := w], s_log := s_log s @ l\<rparr>)" (is "pool_inv ?s'")
proof (cases "published s")
  case False
  then have "s_workers s ! i = W_Poll (p_seq (s_pool s))" using inv i by (simp add: pool_inv_def all_idle_def)
  then have "p = s_pool s" "w = s_workers s ! i" "l = []" using st by (auto simp: worker_step_def)
  then show ?thesis using inv by simp
next
  case True
  have "published ?s'" using True by (simp add: published_def)
  then show ?thesis using worker_running [OF _ i st refl] inv True by (simp add: pool_inv_running)
qed

lemma inv_reachable: "reachable (spinning n) s \<Longrightarrow> pool_inv s"
proof (induction rule: reachable.induct)
  case reachable_refl
  show ?case by (simp add: pool_inv_idle spinning_def pool_new_def all_idle_def returned_ok_def)
next
  case (reachable_step t u)
  from reachable_step.hyps(2) show ?case
    by (cases rule: step.cases) (use reachable_step.IH inv_call inv_main inv_worker in auto)
qed

subsection \<open>Schedules\<close>

text \<open>One thread scheduled: the main core, or worker \<open>i\<close>.\<close>

definition main_next :: "sys \<Rightarrow> sys" where
  "main_next s = (let (p, m, l) = main_step (s_job s) (s_pool s) (s_main s) in s\<lparr>s_pool := p, s_main := m, s_log := s_log s @ l\<rparr>)"

definition worker_next :: "nat \<Rightarrow> sys \<Rightarrow> sys" where
  "worker_next i s = (let (p, w, l) = worker_step (s_pool s) (s_workers s ! i) in
     s\<lparr>s_pool := p, s_workers := (s_workers s)[i := w], s_log := s_log s @ l\<rparr>)"

text \<open>A schedule: \<open>0\<close> is the main core, \<open>i + 1\<close> worker \<open>i\<close>.\<close>

definition schedule :: "nat list \<Rightarrow> sys \<Rightarrow> sys" where
  "schedule is s = foldl (\<lambda>s i. if i = 0 then main_next s else worker_next (i - 1) s) s is"

lemma schedule_simps [simp]: "schedule [] s = s" "schedule (i # is) s = schedule is (if i = 0 then main_next s else worker_next (i - 1) s)"
  by (simp_all add: schedule_def)

lemma schedule_append: "schedule (is @ js) s = schedule js (schedule is s)"
  by (simp add: schedule_def)

lemma next_workers: "length (s_workers (main_next s)) = length (s_workers s)" "length (s_workers (worker_next i s)) = length (s_workers s)"
  by (simp_all add: main_next_def worker_next_def split: prod.splits)

lemma reachable_schedule:
  "reachable s0 s \<Longrightarrow> \<forall>i \<in> set is. i \<le> length (s_workers s) \<Longrightarrow> reachable s0 (schedule is s)"
proof (induction "is" arbitrary: s)
  case (Cons i "is")
  have "reachable s0 (main_next s)"
  proof (cases "s_main s = M_Idle")
    case True
    then have "main_next s = s" by (simp add: main_next_def main_step_def)
    then show ?thesis using Cons.prems by simp
  next
    case False
    then have "step s (main_next s)" by (auto simp: main_next_def split: prod.splits intro: step_main)
    then show ?thesis using Cons.prems by (auto intro: reachable_step)
  qed
  moreover have "reachable s0 (worker_next (i - 1) s)" if "i \<noteq> 0"
    by (rule reachable_step [OF Cons.prems(1)]) (use that Cons.prems(2) in \<open>auto simp: worker_next_def split: prod.splits intro!: step_worker\<close>)
  ultimately show ?case using Cons by (simp add: next_workers)
qed simp

lemma reachable_call: "reachable s0 s \<Longrightarrow> s_main s = M_Idle \<Longrightarrow> reachable s0 (call_run s tot)"
  by (rule reachable_step) (auto intro: step_call)

text \<open>A run of 128 rows on one worker: posted, half of it taken by the worker, the rest by the main core.\<close>

lemmas next_simps = main_next_def worker_next_def main_step_def worker_step_def drain_step_def post_step_def Let_def

definition demo_posted :: sys where
  "demo_posted = \<lparr>s_pool = \<lparr>p_seq = 1, p_cursor = 0, p_total = 128, p_chunk = 16, p_done = 0, p_task = 1, p_workers = 1, p_ready = 1\<rparr>,
     s_main = M_Drain 1 D_Total, s_workers = [W_Poll 0], s_job = 1, s_total = 128, s_log = []\<rparr>"

lemma demo_posted: "schedule [0, 0, 0, 0, 0, 0] (call_run (spinning 1) 128) = demo_posted"
  by (simp add: demo_posted_def call_run_def spinning_def pool_new_def job_chunk_def next_simps)

definition demo_sys :: sys where
  "demo_sys = schedule [0, 1, 1, 0, 1, 1, 0, 1, 0, 1, 0, 1, 0, 1, 0, 1, 0, 1, 0, 1, 0, 1, 0, 1, 1, 0, 1, 0, 0, 0] demo_posted"

lemma demo_sys_state: "s_main demo_sys = M_Idle" "s_job demo_sys = 1" "s_total demo_sys = 128" "length (s_log demo_sys) = 8"
  by (simp_all add: demo_sys_def demo_posted_def next_simps)

lemma demo_posted_reachable: "reachable (spinning 1) demo_posted"
  unfolding demo_posted [symmetric]
  by (intro reachable_schedule reachable_call reachable_refl) (simp_all add: spinning_def call_run_def pool_new_def)

lemma demo_sys_reachable: "reachable (spinning 1) demo_sys"
  unfolding demo_sys_def by (rule reachable_schedule [OF demo_posted_reachable]) (simp add: demo_posted_def)

subsection \<open>Progress\<close>

definition drain_rank :: "drain \<Rightarrow> nat" where
  "drain_rank d = (case d of D_Total \<Rightarrow> 6 | D_Chunk n \<Rightarrow> 5 | D_Run n c a \<Rightarrow> 4 | D_Take n c \<Rightarrow> 3 | D_End \<Rightarrow> 2)"

definition worker_rank :: "nat \<Rightarrow> worker \<Rightarrow> nat" where
  "worker_rank seq w = (case w of W_Poll prev \<Rightarrow> if prev = seq then 0 else 8 | W_Load prev \<Rightarrow> 7 | W_Drain prev task d \<Rightarrow> drain_rank d | _ \<Rightarrow> 0)"

definition main_rank :: "main_core \<Rightarrow> nat" where
  "main_rank m = (case m of M_Idle \<Rightarrow> 0 | M_Wait n \<Rightarrow> 1 | M_Drain n d \<Rightarrow> drain_rank d | M_Post k n tot \<Rightarrow> 0)"

definition run_rank :: "sys \<Rightarrow> nat \<times> nat \<times> nat" where
  "run_rank s = (case s_main s of M_Post k n tot \<Rightarrow> 6 - k | _ \<Rightarrow> 0, s_total s - p_cursor (s_pool s),
     main_rank (s_main s) + sum_list (map (worker_rank (p_seq (s_pool s))) (s_workers s)))"

abbreviation rank_less :: "((nat \<times> nat \<times> nat) \<times> (nat \<times> nat \<times> nat)) set" where
  "rank_less \<equiv> less_than <*lex*> less_than <*lex*> less_than"

text \<open>One step of \<open>drain\<close> takes a range, or moves on.\<close>

lemma drain_step_rank:
  assumes "drain_step task p d = (p', d', l)" and "drain_ok tot (p_chunk p) (p_cursor p) d" and "d \<noteq> D_End" and "1 \<le> p_chunk p" and "p_total p = tot"
  shows "(tot - p_cursor p', drain_rank d') \<noteq> (tot - p_cursor p, drain_rank d) \<and>
     (tot - p_cursor p' < tot - p_cursor p \<or> tot - p_cursor p' = tot - p_cursor p \<and> drain_rank d' < drain_rank d)"
  using assms by (auto simp: drain_step_def drain_ok_def drain_rank_def Let_def split: drain.splits if_splits)

lemma drain_rank_pos: "0 < drain_rank d"
  by (cases d) (simp_all add: drain_rank_def)

lemma main_step_rank:
  assumes inv: "pool_inv s" and busy: "s_main s \<noteq> M_Idle" and st: "main_step (s_job s) (s_pool s) (s_main s) = (p, m, l)"
    and t: "t = s\<lparr>s_pool := p, s_main := m, s_log := s_log s @ l\<rparr>"
  shows "t = s \<and> (\<exists>n. s_main s = M_Wait n \<and> p_done (s_pool s) < n) \<or> (run_rank t, run_rank s) \<in> rank_less"
proof -
  from busy consider k n tot where "s_main s = M_Post k n tot" | n d where "s_main s = M_Drain n d" "d \<noteq> D_End" | n where "s_main s = M_Drain n D_End"
    | n where "s_main s = M_Wait n" by (cases "s_main s") auto
  then show ?thesis
  proof cases
    case 1
    then have "k \<le> 5" using inv by (simp add: pool_inv_post posting_ok_def)
    then show ?thesis using 1 st by (cases "k < 5") (auto simp: t main_step_def run_rank_def)
  next
    case 2
    then obtain d' where d: "drain_step (s_job s) (s_pool s) d = (p, d', l)" "m = M_Drain n d'"
      using st by (auto simp: main_step_def split: prod.splits)
    have ok: "drain_ok (s_total s) (p_chunk (s_pool s)) (p_cursor (s_pool s)) d" "p_total (s_pool s) = s_total s" "1 \<le> p_chunk (s_pool s)"
      using inv 2 by (auto simp: pool_inv_running published_def job_running_def Let_def)
    obtain c where c: "p = s_pool s\<lparr>p_cursor := c\<rparr>" using drain_step_facts(3) [OF d(1) ok(1) 2(2) ok(2,3)] that by blast
    show ?thesis using drain_step_rank [OF d(1) ok(1) 2(2) ok(3,2)] 2 d(2) by (auto simp: t c run_rank_def main_rank_def)
  next
    case 3
    then show ?thesis using st by (auto simp: t main_step_def run_rank_def main_rank_def drain_rank_def)
  next
    case 4
    show ?thesis
    proof (cases "p_done (s_pool s) < n")
      case True
      then have "t = s" using st 4 by (auto simp: t main_step_def)
      then show ?thesis using 4 True by blast
    next
      case False
      then show ?thesis using st 4 by (auto simp: t main_step_def run_rank_def main_rank_def)
    qed
  qed
qed

lemma worker_step_rank:
  assumes inv: "pool_inv s" and i: "i < length (s_workers s)" and st: "worker_step (s_pool s) (s_workers s ! i) = (p, w, l)"
    and t: "t = s\<lparr>s_pool := p, s_workers := (s_workers s)[i := w], s_log := s_log s @ l\<rparr>"
  shows "t = s \<and> s_workers s ! i = W_Poll (p_seq (s_pool s)) \<or> (run_rank t, run_rank s) \<in> rank_less"
proof (cases "s_workers s ! i = W_Poll (p_seq (s_pool s))")
  case True
  then have "p = s_pool s" "w = s_workers s ! i" "l = []" using st by (auto simp: worker_step_def)
  then have "t = s" by (simp add: t list_update_id)
  then show ?thesis using True by simp
next
  case False
  then have pub: "published s" using inv i by (auto simp: pool_inv_def all_idle_def split: if_splits)
  then have jr: "job_running s" using inv by (simp add: pool_inv_running)
  then have ok: "worker_ok (p_seq (s_pool s)) (s_job s) (s_total s) (p_chunk (s_pool s)) (p_cursor (s_pool s)) (s_workers s ! i)"
    and jt: "p_total (s_pool s) = s_total s" "p_task (s_pool s) = s_job s" "1 \<le> p_chunk (s_pool s)"
    using i by (auto simp: job_running_def Let_def)
  have "p_seq p = p_seq (s_pool s) \<and> (s_total s - p_cursor p < s_total s - p_cursor (s_pool s)
      \<or> s_total s - p_cursor p = s_total s - p_cursor (s_pool s) \<and> worker_rank (p_seq (s_pool s)) w < worker_rank (p_seq (s_pool s)) (s_workers s ! i))"
  proof (cases "\<exists>task d. s_workers s ! i = W_Drain (p_seq (s_pool s)) (s_job s) d \<and> d \<noteq> D_End")
    case True
    then obtain d where w: "s_workers s ! i = W_Drain (p_seq (s_pool s)) (s_job s) d" "d \<noteq> D_End" by blast
    then obtain d' where d: "drain_step (s_job s) (s_pool s) d = (p, d', l)" "w = W_Drain (p_seq (s_pool s)) (s_job s) d'"
      using st by (auto simp: worker_step_def split: prod.splits)
    have "drain_ok (s_total s) (p_chunk (s_pool s)) (p_cursor (s_pool s)) d" using ok w by (simp add: worker_ok_def)
    note f = drain_step_facts(3) [OF d(1) this w(2) jt(1,3)] drain_step_rank [OF d(1) this w(2) jt(3,1)]
    obtain c where c: "p = s_pool s\<lparr>p_cursor := c\<rparr>" using f(1) that by blast
    show ?thesis using f(2) d(2) w by (auto simp: c worker_rank_def)
  next
    case other: False
    then show ?thesis using st ok False
      by (cases "s_workers s ! i") (auto simp: worker_step_def worker_ok_def worker_rank_def drain_rank_def split: if_splits)
  qed
  moreover have "sum_list (map (worker_rank (p_seq (s_pool s))) ((s_workers s)[i := w])) + worker_rank (p_seq (s_pool s)) (s_workers s ! i)
      = sum_list (map (worker_rank (p_seq (s_pool s))) (s_workers s)) + worker_rank (p_seq (s_pool s)) w"
    by (rule sum_list_update_ms [OF i])
  ultimately show ?thesis by (auto simp: t run_rank_def)
qed

text \<open>A busy pool can always move: the main core, or a worker whose turn it still is.\<close>

lemma busy_moves:
  assumes inv: "pool_inv s" and busy: "s_main s \<noteq> M_Idle"
  shows "\<exists>t. step s t \<and> t \<noteq> s"
proof (cases "\<exists>n. s_main s = M_Wait n \<and> p_done (s_pool s) < n")
  case False
  obtain p m l where st: "main_step (s_job s) (s_pool s) (s_main s) = (p, m, l)" by (metis prod_cases3)
  have "(run_rank (s\<lparr>s_pool := p, s_main := m, s_log := s_log s @ l\<rparr>), run_rank s) \<in> rank_less"
    using main_step_rank [OF inv busy st refl] False by blast
  then have "s\<lparr>s_pool := p, s_main := m, s_log := s_log s @ l\<rparr> \<noteq> s" by (metis wf_lex_prod wf_less_than wf_not_refl)
  then show ?thesis using step_main [OF busy st] by blast
next
  case True
  then have d: "published s" "p_done (s_pool s) < p_workers (s_pool s)" "p_done (s_pool s) = finished_workers s" "p_workers (s_pool s) = length (s_workers s)"
    using inv by (auto simp: pool_inv_def published_def job_running_def Let_def)
  have "\<exists>w \<in> set (s_workers s). w \<noteq> W_Poll (p_seq (s_pool s))"
  proof (rule ccontr)
    assume "\<not> ?thesis"
    then have "finished_workers s = length (s_workers s)" by (simp add: finished_workers_def)
    then show False using d(2-4) by simp
  qed
  then obtain i where i: "i < length (s_workers s)" "s_workers s ! i \<noteq> W_Poll (p_seq (s_pool s))" by (auto simp: in_set_conv_nth)
  obtain p w l where st: "worker_step (s_pool s) (s_workers s ! i) = (p, w, l)" by (metis prod_cases3)
  have "(run_rank (s\<lparr>s_pool := p, s_workers := (s_workers s)[i := w], s_log := s_log s @ l\<rparr>), run_rank s) \<in> rank_less"
    using worker_step_rank [OF inv i(1) st refl] i(2) by blast
  then have "s\<lparr>s_pool := p, s_workers := (s_workers s)[i := w], s_log := s_log s @ l\<rparr> \<noteq> s" by (metis wf_lex_prod wf_less_than wf_not_refl)
  then show ?thesis using step_worker [OF i(1) st] by blast
qed

subsection \<open>Properties\<close>

text \<open>C22: On a pool whose start-up is over (there are exactly the \<open>n\<close> activated workers, and each has raised \<open>ready\<close> and read \<open>seq\<close>
  once), however the threads are interleaved from then on, in this and every later job: when \<open>run\<close> returns the closure has been called on row
  ranges of the current job only, and these are well-formed, disjoint and cover every row exactly once.\<close>

theorem run_partitions_rows:
  assumes "reachable (spinning n) s" and "s_main s = M_Idle" and "0 < s_job s"
  shows "(\<forall>(j, a, b) \<in> set (s_log s). j = s_job s) \<and> ranges_ok (s_total s) (map snd (s_log s))"
  using inv_reachable [OF assms(1)] assms(2,3) by (simp add: pool_inv_idle returned_ok_def)

lemma run_partitions_rows_witness: "ranges_ok 128 (map snd (s_log demo_sys)) \<and> length (s_log demo_sys) = 8"
  using run_partitions_rows [OF demo_sys_reachable demo_sys_state(1)] by (simp add: demo_sys_state)

text \<open>C23: On a pool whose start-up is over (there are exactly the \<open>n\<close> activated workers, and each has raised \<open>ready\<close> and read \<open>seq\<close>
  once), the pointer to the task on the main core's stack is never used after \<open>run\<close> has returned: while any worker works
  through a task, the main core is inside \<open>run\<close>, and the task is the one it posted. A worker that starts later, beyond the
  activated ones, is outside this: it bumps \<open>done\<close> without being counted.\<close>

theorem task_outlives_workers:
  assumes "reachable (spinning n) s" and "W_Drain prev task d \<in> set (s_workers s)"
  shows "s_main s \<noteq> M_Idle \<and> task = s_job s \<and> p_done (s_pool s) < n"
proof -
  have inv: "pool_inv s" by (rule inv_reachable [OF assms(1)])
  have n: "length (s_workers s) = n" using assms(1)
  proof (induction rule: reachable.induct)
    case (reachable_step t u)
    from reachable_step.hyps(2) reachable_step.IH show ?case by (cases rule: step.cases) (auto simp: call_run_def Let_def)
  qed (simp add: spinning_def)
  have "\<not> all_idle s" using assms(2) by (auto simp: all_idle_def)
  then have pub: "published s" using inv by (auto simp: pool_inv_def split: if_splits)
  then have jr: "job_running s" using inv by (simp add: pool_inv_running)
  have "finished_workers s < n" unfolding finished_workers_def n [symmetric]
    by (rule length_filter_less [OF assms(2)]) simp
  moreover have "worker_ok (p_seq (s_pool s)) (s_job s) (s_total s) (p_chunk (s_pool s)) (p_cursor (s_pool s)) (W_Drain prev task d)"
    "p_done (s_pool s) = finished_workers s" using jr assms(2) by (simp_all add: job_running_def Let_def)
  moreover have "s_main s \<noteq> M_Idle" using pub by (auto simp: published_def)
  ultimately show ?thesis by (simp add: worker_ok_def)
qed

lemma task_outlives_workers_witness:
  "s_main (schedule [1, 1] demo_posted) \<noteq> M_Idle \<and> p_done (s_pool (schedule [1, 1] demo_posted)) < 1"
proof -
  have "reachable (spinning 1) (schedule [1, 1] demo_posted)"
    by (rule reachable_schedule [OF demo_posted_reachable]) (simp add: demo_posted_def)
  moreover have "W_Drain 1 1 D_Total \<in> set (s_workers (schedule [1, 1] demo_posted))"
    by (simp add: demo_posted_def next_simps)
  ultimately show ?thesis using task_outlives_workers by blast
qed

text \<open>C24: \<open>run\<close> returns: from a pool whose workers spin, no infinite sequence of steps that change anything
  stays inside \<open>run\<close>, and as long as the main core is inside \<open>run\<close> some thread has a step that changes
  something. So the waits of \<open>run\<close> and \<open>worker_loop\<close> end under any fair schedule, and never deadlock.\<close>

theorem run_returns:
  "wf {(t, s). reachable (spinning n) s \<and> s_main s \<noteq> M_Idle \<and> step s t \<and> t \<noteq> s}
   \<and> {s. reachable (spinning n) s \<and> s_main s \<noteq> M_Idle} \<subseteq> {s. \<exists>t. step s t \<and> t \<noteq> s}"
proof
  have "{(t, s). reachable (spinning n) s \<and> s_main s \<noteq> M_Idle \<and> step s t \<and> t \<noteq> s} \<subseteq> inv_image rank_less run_rank"
  proof clarify
    fix t s assume r: "reachable (spinning n) s" and busy: "s_main s \<noteq> M_Idle" and st: "step s t" and ne: "t \<noteq> s"
    note inv = inv_reachable [OF r]
    from st have "(run_rank t, run_rank s) \<in> rank_less"
    proof (cases rule: step.cases)
      case (step_main p m l)
      then show ?thesis using main_step_rank [OF inv busy] ne by metis
    next
      case (step_worker i p w l)
      then show ?thesis using worker_step_rank [OF inv] ne by metis
    qed (use busy in simp)
    then show "(t, s) \<in> inv_image rank_less run_rank" by (simp only: in_inv_image)
  qed
  then show "wf {(t, s). reachable (spinning n) s \<and> s_main s \<noteq> M_Idle \<and> step s t \<and> t \<noteq> s}"
    by (rule wf_subset [rotated]) (intro wf_inv_image wf_lex_prod wf_less_than)
  show "{s. reachable (spinning n) s \<and> s_main s \<noteq> M_Idle} \<subseteq> {s. \<exists>t. step s t \<and> t \<noteq> s}"
    using busy_moves inv_reachable by blast
qed

subsection \<open>The start-up race\<close>

text \<open>A worker that is not done with the job under sequence number \<open>q\<close> and will be: it has not noticed it yet, or is on it.\<close>

definition may_finish :: "nat \<Rightarrow> worker \<Rightarrow> bool" where
  "may_finish q w = (case w of W_Enter \<Rightarrow> False | W_Init \<Rightarrow> False | W_Poll prev \<Rightarrow> prev \<noteq> q | W_Load _ \<Rightarrow> True | W_Drain _ _ _ \<Rightarrow> True)"

definition on_job :: "nat \<Rightarrow> worker \<Rightarrow> bool" where
  "on_job q w = (case w of W_Load prev \<Rightarrow> prev = q | W_Drain prev _ _ \<Rightarrow> prev = q | _ \<Rightarrow> True)"

text \<open>Worker \<open>i\<close> takes the posted job for an old one, so fewer than \<open>n\<close> workers will ever be done with it.\<close>

definition short_of :: "nat \<Rightarrow> nat \<Rightarrow> nat \<Rightarrow> sys \<Rightarrow> bool" where
  "short_of n q i s \<longleftrightarrow> (s_main s = M_Wait n \<or> (\<exists>d. s_main s = M_Drain n d)) \<and> p_seq (s_pool s) = q
     \<and> i < length (s_workers s) \<and> s_workers s ! i = W_Poll q \<and> (\<forall>w \<in> set (s_workers s). on_job q w)
     \<and> p_done (s_pool s) + length (filter (may_finish q) (s_workers s)) < n"

lemma drain_step_counters: "drain_step task p d = (p', d', l) \<Longrightarrow> p_seq p' = p_seq p \<and> p_done p' = p_done p"
  by (auto simp: drain_step_def Let_def split: drain.splits)

lemma worker_step_short:
  assumes st: "worker_step p w = (p', w', l)" and q: "p_seq p = q" and j: "on_job q w"
  shows "p_seq p' = q \<and> on_job q w' \<and> p_done p' + (if may_finish q w' then 1 else 0) = p_done p + (if may_finish q w then 1 else 0)
    \<and> (w = W_Poll q \<longrightarrow> w' = W_Poll q)"
proof (cases w)
  case (W_Drain prev task d)
  then show ?thesis using st q j drain_step_counters [of task p d]
    by (cases "d = D_End") (auto simp: worker_step_def on_job_def may_finish_def split: prod.splits)
qed (use st q j in \<open>auto simp: worker_step_def on_job_def may_finish_def split: if_splits\<close>)

lemma short_of_worker:
  assumes s: "short_of n q i s" and k: "k < length (s_workers s)" and st: "worker_step (s_pool s) (s_workers s ! k) = (p', w', l)"
  shows "short_of n q i (s\<lparr>s_pool := p', s_workers := (s_workers s)[k := w'], s_log := s_log s @ l\<rparr>)"
proof -
  have "on_job q (s_workers s ! k)" "p_seq (s_pool s) = q" using s k by (simp_all add: short_of_def)
  from worker_step_short [OF st this(2,1)] have w: "p_seq p' = q" "on_job q w'" "s_workers s ! k = W_Poll q \<longrightarrow> w' = W_Poll q"
    "p_done p' + (if may_finish q w' then 1 else 0) = p_done (s_pool s) + (if may_finish q (s_workers s ! k) then 1 else 0)" by blast+
  have "p_done p' + length (filter (may_finish q) ((s_workers s)[k := w'])) = p_done (s_pool s) + length (filter (may_finish q) (s_workers s))"
    using filter_update_count [OF k, of "may_finish q" w'] w(4) by (simp split: if_splits)
  moreover have "(s_workers s)[k := w'] ! i = W_Poll q" using s k w(3) by (cases "k = i") (simp_all add: short_of_def)
  moreover have "\<forall>v \<in> set ((s_workers s)[k := w']). on_job q v" using s w(2) set_update_subset_insert [of "s_workers s" k w'] by (auto simp: short_of_def)
  ultimately show ?thesis using s w(1) by (simp add: short_of_def)
qed

lemma short_of_step:
  assumes s: "short_of n q i s" and st: "step s t"
  shows "short_of n q i t"
  using st
proof (cases rule: step.cases)
  case (step_main p m l)
  then show ?thesis using s drain_step_counters [of "s_job s" "s_pool s"]
    by (auto simp: short_of_def main_step_def split: if_splits prod.splits)
next
  case (step_worker k p w l)
  then show ?thesis using short_of_worker [OF s] by simp
qed (use s in \<open>auto simp: short_of_def\<close>)

lemma short_of_stays: "reachable s u \<Longrightarrow> short_of n q i s \<Longrightarrow> short_of n q i u"
  by (induction rule: reachable.induct) (auto intro: short_of_step)

text \<open>The six stores of a posted job.\<close>

lemma post_six:
  "schedule [0, 0, 0, 0, 0, 0] (s\<lparr>s_main := M_Post 0 n tot\<rparr>) = s\<lparr>s_pool := (s_pool s)\<lparr>p_total := tot, p_cursor := 0, p_chunk := job_chunk tot n,
     p_done := 0, p_task := s_job s, p_seq := p_seq (s_pool s) + 1\<rparr>, s_main := M_Drain n D_Total\<rparr>"
  by (simp add: next_simps)

text \<open>C25: The start-up race: \<open>activate(n)\<close> succeeds as soon as \<open>n\<close> workers have raised \<open>ready\<close>, also when one of them has not read
  \<open>seq\<close> yet. For every pool and number of workers in that state and every job of at least 128 rows (shorter ones run on the main core alone), there is an interleaving
  after which \<open>run\<close> can never return, whatever happens next: that worker reads \<open>seq\<close> only after the job is published,
  takes its number for the one it started with, and is waited for forever.\<close>

theorem lost_wakeup:
  assumes act: "activate p n = (Ok p' :: (unit, pool) outcome)" and ws: "length ws = n" "i < n" "ws ! i = W_Init"
    and others: "\<forall>w \<in> set ws. w = W_Init \<or> w = W_Poll (p_seq p)" and tot: "128 \<le> tot"
  shows "\<exists>s. reachable (call_run \<lparr>s_pool = p', s_main = M_Idle, s_workers = ws, s_job = job, s_total = tot0, s_log = log0\<rparr> tot) s
    \<and> (\<forall>u. reachable s u \<longrightarrow> s_main u \<noteq> M_Idle)"
proof -
  let ?s0 = "\<lparr>s_pool = p', s_main = M_Idle, s_workers = ws, s_job = job, s_total = tot0, s_log = log0\<rparr>"
  have p': "p_workers p' = n" "p_seq p' = p_seq p" using act by (auto simp: activate_def outcome_simps assert_def split: if_splits)
  have call: "call_run ?s0 tot = (?s0\<lparr>s_job := job + 1, s_total := tot, s_log := []\<rparr>)\<lparr>s_main := M_Post 0 n tot\<rparr>"
    using ws(2) tot p'(1) by (simp add: call_run_def)
  define s1 where "s1 = schedule [0, 0, 0, 0, 0, 0] (call_run ?s0 tot)"
  note s1 = s1_def [unfolded call post_six]
  have w1: "s_workers s1 = ws" "s_main s1 = M_Drain n D_Total" "p_seq (s_pool s1) = p_seq p + 1" "p_done (s_pool s1) = 0" unfolding s1 by (simp_all add: p'(2))
  define s2 where "s2 = schedule [i + 1] s1"
  have s2: "s2 = s1\<lparr>s_workers := ws[i := W_Poll (p_seq p + 1)]\<rparr>" using ws w1 by (simp add: s2_def worker_next_def worker_step_def)
  have "reachable (call_run ?s0 tot) s1" unfolding s1_def by (intro reachable_schedule reachable_refl) simp
  then have r: "reachable (call_run ?s0 tot) s2" unfolding s2_def using ws w1 by (intro reachable_schedule) simp_all
  let ?q = "p_seq p + 1"
  have "length (filter (may_finish ?q) (ws[i := W_Poll ?q])) < length (ws[i := W_Poll ?q])"
    by (rule length_filter_less [of "W_Poll ?q"]) (use ws in \<open>auto simp: may_finish_def set_update_memI\<close>)
  moreover have "\<forall>w \<in> set (ws[i := W_Poll ?q]). on_job ?q w"
  proof -
    have "\<forall>w \<in> insert (W_Poll ?q) (set ws). on_job ?q w" using others by (auto simp: on_job_def)
    then show ?thesis using set_update_subset_insert [of ws i "W_Poll ?q"] by blast
  qed
  ultimately have "short_of n ?q i s2" using ws w1 unfolding short_of_def s2 by simp
  moreover have "short_of n ?q i u \<Longrightarrow> s_main u \<noteq> M_Idle" for u by (auto simp: short_of_def)
  ultimately have "\<forall>u. reachable s2 u \<longrightarrow> s_main u \<noteq> M_Idle" using short_of_stays by blast
  with r show ?thesis by blast
qed

text \<open>Two workers, the second between its two accesses, and a job of 200 rows.\<close>

lemma lost_wakeup_witness:
  "\<exists>s. reachable (call_run \<lparr>s_pool = pool_new\<lparr>p_workers := 2, p_ready := 2\<rparr>, s_main = M_Idle, s_workers = [W_Poll 0, W_Init], s_job = 0, s_total = 0, s_log = []\<rparr> 200) s
    \<and> s_main s \<noteq> M_Idle"
proof -
  have "activate (pool_new\<lparr>p_ready := 2\<rparr>) 2 = (Ok (pool_new\<lparr>p_workers := 2, p_ready := 2\<rparr>) :: (unit, pool) outcome)"
    by (simp add: activate_def pool_new_def assert_def)
  from lost_wakeup [OF this, of "[W_Poll 0, W_Init]" 1 200 0 0 "[]"] show ?thesis
    using reachable_refl by (simp add: pool_new_def) blast
qed

end
