(* ===== verification/Nr_Infer.thy ===== *)
theory Nr_Infer
  imports Nr_Kernels Nr_Format
begin

text \<open>
  The forward pass of \<^verbatim>\<open>crates/nr-model/src/infer.rs\<close>: dtype-tagged weight matrices, the activation
  scratch \<open>Acts\<close>, decoding one token (\<open>forward\<close>) and batched prefill. The fields of \<open>InferCtx\<close> are grouped:
  what construction fixes (\<open>cfg\<close>), the decode and prefill scratch buffers, and the rest. Every slice is
  bounds-checked and every division by zero panics, as in the code.
\<close>

subsection \<open>Buffers cut into rows\<close>

text \<open>\<open>for i in 0..b { op(i, &mut buf[i*n..(i+1)*n]) }\<close>\<close>

definition each_row :: "nat \<Rightarrow> nat \<Rightarrow> (nat \<Rightarrow> 'a list \<Rightarrow> ('e, 'a list) outcome) \<Rightarrow> 'a list \<Rightarrow> ('e, 'a list) outcome" where
  "each_row n b f buf = ofold (\<lambda>buf i. obind (slice buf (i * n) ((i + 1) * n)) (\<lambda>r.
     obind (f i r) (\<lambda>r. write_at buf (i * n) r))) buf [0..<b]"

subsection \<open>Weight matrices\<close>

datatype qmat = MQ8 "block_q8_0 list" | MQ4K "block_q4k list" | MQ6K "block_q6k list"

definition qmat_from_view :: "tensor_view \<Rightarrow> (parse_error, qmat) outcome" where
  "qmat_from_view v = (case tv_dtype v of
       Q8_0 \<Rightarrow> obind (view_q8 v) (\<lambda>b. Ok (MQ8 b))
     | Q4K \<Rightarrow> obind (view_q4k v) (\<lambda>b. Ok (MQ4K b))
     | Q6K \<Rightarrow> obind (view_q6k v) (\<lambda>b. Ok (MQ6K b))
     | F32 \<Rightarrow> Err BadTable)"

definition dequant_blocks :: "('b \<Rightarrow> f32 list \<Rightarrow> ('e, f32 list) outcome) \<Rightarrow> 'b list \<Rightarrow> f32 list \<Rightarrow> ('e, f32 list) outcome" where
  "dequant_blocks deq bs out =
     ofold (\<lambda>out (i, b). obind (slice out (i * QK_K) ((i + 1) * QK_K)) (\<lambda>o1.
       obind (deq b o1) (\<lambda>o1. write_at out (i * QK_K) o1))) out (enumerate 0 bs)"

definition dequant_row :: "'z machine_scheme \<Rightarrow> qmat \<Rightarrow> nat \<Rightarrow> nat \<Rightarrow> f32 list \<Rightarrow> ('e, f32 list) outcome" where
  "dequant_row M w r cols out = (case w of
       MQ8 bs \<Rightarrow> let bpr = cols div QK8_0 in
         obind (slice bs (r * bpr) ((r + 1) * bpr)) (\<lambda>row. dequantize_q8 M row out)
     | MQ4K bs \<Rightarrow> let bpr = cols div QK_K in
         obind (slice bs (r * bpr) ((r + 1) * bpr)) (\<lambda>row. dequant_blocks (dequant_q4k M) row out)
     | MQ6K bs \<Rightarrow> let bpr = cols div QK_K in
         obind (slice bs (r * bpr) ((r + 1) * bpr)) (\<lambda>row. dequant_blocks (dequant_q6k M) row out))"

record dims =
  dm_dim :: nat
  dm_att :: nat
  dm_layers :: nat
  dm_heads :: nat
  dm_kv_heads :: nat
  dm_head :: nat
  dm_kv :: nat
  dm_ffn :: nat
  dm_vocab :: nat
  dm_ctx :: nat

record layer_weights =
  lw_attn_norm :: "f32 list"
  lw_q_norm :: "f32 list option"
  lw_k_norm :: "f32 list option"
  lw_wq :: qmat
  lw_wk :: qmat
  lw_wv :: qmat
  lw_wo :: qmat
  lw_ffn_norm :: "f32 list"
  lw_gate :: qmat
  lw_up :: qmat
  lw_down :: qmat

record weights =
  ws_embed :: qmat
  ws_layers :: "layer_weights list"
  ws_out_norm :: "f32 list"
  ws_output :: qmat

definition MAX_BATCH :: nat where "MAX_BATCH = 64"

subsection \<open>Activations\<close>

record acts =
  a_q8 :: "block_q8_0 list"
  a_q8k :: "block_q8k list"

definition acts_matvec :: "'z machine_scheme \<Rightarrow> acts \<Rightarrow> f32 list \<Rightarrow> qmat \<Rightarrow> f32 list \<Rightarrow> ('e, acts \<times> f32 list) outcome" where
  "acts_matvec M A y w x =
     (let cols = length x; rows = length y in
      case w of
        MQ8 bs \<Rightarrow>
          obind (slice (a_q8 A) 0 (cols div QK8_0)) (\<lambda>xq. obind (quantize_q8 M x xq) (\<lambda>xq.
          obind (write_at (a_q8 A) 0 xq) (\<lambda>buf. obind (matvec_q8 M y bs xq rows cols) (\<lambda>y. Ok (A\<lparr>a_q8 := buf\<rparr>, y)))))
      | MQ4K bs \<Rightarrow>
          obind (slice (a_q8k A) 0 (cols div QK_K)) (\<lambda>xk. obind (quantize_q8k M x xk) (\<lambda>xk.
          obind (write_at (a_q8k A) 0 xk) (\<lambda>buf. obind (matvec_q4k M y bs xk rows cols) (\<lambda>y. Ok (A\<lparr>a_q8k := buf\<rparr>, y)))))
      | MQ6K bs \<Rightarrow>
          obind (slice (a_q8k A) 0 (cols div QK_K)) (\<lambda>xk. obind (quantize_q8k M x xk) (\<lambda>xk.
          obind (write_at (a_q8k A) 0 xk) (\<lambda>buf. obind (matvec_q6k M y bs xk rows cols) (\<lambda>y. Ok (A\<lparr>a_q8k := buf\<rparr>, y))))))"

text \<open>The rows of \<open>xs\<close>, quantized into the front of an activation buffer.\<close>

definition quantize_rows :: "(f32 list \<Rightarrow> 'b list \<Rightarrow> ('e, 'b list) outcome) \<Rightarrow> f32 list \<Rightarrow> nat \<Rightarrow> nat \<Rightarrow> nat \<Rightarrow> 'b list \<Rightarrow> ('e, 'b list) outcome" where
  "quantize_rows quant xs cols bpr batch buf =
     each_row bpr batch (\<lambda>b out. obind (slice xs (b * cols) ((b + 1) * cols)) (\<lambda>x. quant x out)) buf"

definition acts_matmul :: "'z machine_scheme \<Rightarrow> acts \<Rightarrow> f32 list \<Rightarrow> qmat \<Rightarrow> f32 list \<Rightarrow> nat \<Rightarrow> ('e, acts \<times> f32 list) outcome" where
  "acts_matmul M A y w xs batch =
     (if batch = 0 then Panic else
      let cols = length xs div batch; rows = length y div batch in
      case w of
        MQ8 bs \<Rightarrow> let bpr = cols div QK8_0 in
          obind (slice (a_q8 A) 0 (batch * bpr)) (\<lambda>xq. obind (quantize_rows (quantize_q8 M) xs cols bpr batch xq) (\<lambda>xq.
          obind (write_at (a_q8 A) 0 xq) (\<lambda>buf. obind (matmul_q8 M y bs xq rows cols batch) (\<lambda>y. Ok (A\<lparr>a_q8 := buf\<rparr>, y)))))
      | MQ4K bs \<Rightarrow> let bpr = cols div QK_K in
          obind (slice (a_q8k A) 0 (batch * bpr)) (\<lambda>xk. obind (quantize_rows (quantize_q8k M) xs cols bpr batch xk) (\<lambda>xk.
          obind (write_at (a_q8k A) 0 xk) (\<lambda>buf. obind (matmul_q4k M y bs xk rows cols batch) (\<lambda>y. Ok (A\<lparr>a_q8k := buf\<rparr>, y)))))
      | MQ6K bs \<Rightarrow> let bpr = cols div QK_K in
          obind (slice (a_q8k A) 0 (batch * bpr)) (\<lambda>xk. obind (quantize_rows (quantize_q8k M) xs cols bpr batch xk) (\<lambda>xk.
          obind (write_at (a_q8k A) 0 xk) (\<lambda>buf. obind (matmul_q6k M y bs xk rows cols batch) (\<lambda>y. Ok (A\<lparr>a_q8k := buf\<rparr>, y))))))"

text \<open>One job of a group: each activation format is quantized by the first job that needs it.\<close>

type_synonym group = "acts \<times> bool \<times> bool \<times> f32 list list"

definition matmul_job :: "'z machine_scheme \<Rightarrow> f32 list \<Rightarrow> nat \<Rightarrow> group \<Rightarrow> f32 list \<times> qmat \<Rightarrow> ('e, group) outcome" where
  "matmul_job M xs batch g job =
     (let (A, q8_ready, q8k_ready, ys) = g; (y, w) = job; cols = length xs div batch; rows = length y div batch in
      case w of
        MQ8 bs \<Rightarrow> let bpr = cols div QK8_0 in
          obind (if q8_ready then Ok (a_q8 A) else quantize_rows (quantize_q8 M) xs cols bpr batch (a_q8 A)) (\<lambda>buf.
          obind (slice buf 0 (batch * bpr)) (\<lambda>xq. obind (matmul_q8 M y bs xq rows cols batch) (\<lambda>y.
          Ok (A\<lparr>a_q8 := buf\<rparr>, True, q8k_ready, ys @ [y]))))
      | MQ4K bs \<Rightarrow> let bpr = cols div QK_K in
          obind (if q8k_ready then Ok (a_q8k A) else quantize_rows (quantize_q8k M) xs cols bpr batch (a_q8k A)) (\<lambda>buf.
          obind (slice buf 0 (batch * bpr)) (\<lambda>xk. obind (matmul_q4k M y bs xk rows cols batch) (\<lambda>y.
          Ok (A\<lparr>a_q8k := buf\<rparr>, q8_ready, True, ys @ [y]))))
      | MQ6K bs \<Rightarrow> let bpr = cols div QK_K in
          obind (if q8k_ready then Ok (a_q8k A) else quantize_rows (quantize_q8k M) xs cols bpr batch (a_q8k A)) (\<lambda>buf.
          obind (slice buf 0 (batch * bpr)) (\<lambda>xk. obind (matmul_q6k M y bs xk rows cols batch) (\<lambda>y.
          Ok (A\<lparr>a_q8k := buf\<rparr>, q8_ready, True, ys @ [y])))))"

definition acts_matmul_group :: "'z machine_scheme \<Rightarrow> acts \<Rightarrow> (f32 list \<times> qmat) list \<Rightarrow> f32 list \<Rightarrow> nat \<Rightarrow> ('e, acts \<times> f32 list list) outcome" where
  "acts_matmul_group M A jobs xs batch =
     (if batch = 0 then Panic else
      obind (ofold (matmul_job M xs batch) (A, False, False, []) jobs) (\<lambda>(A, q8_ready, q8k_ready, ys). Ok (A, ys)))"

definition matvec_job :: "'z machine_scheme \<Rightarrow> f32 list \<Rightarrow> group \<Rightarrow> f32 list \<times> qmat \<Rightarrow> ('e, group) outcome" where
  "matvec_job M x g job =
     (let (A, q8_ready, q8k_ready, ys) = g; (y, w) = job; cols = length x in
      case w of
        MQ8 bs \<Rightarrow>
          obind (if q8_ready then Ok (a_q8 A) else
              obind (slice (a_q8 A) 0 (cols div QK8_0)) (\<lambda>xq. obind (quantize_q8 M x xq) (\<lambda>xq. write_at (a_q8 A) 0 xq))) (\<lambda>buf.
          obind (slice buf 0 (cols div QK8_0)) (\<lambda>xq. obind (matvec_q8 M y bs xq (length y) cols) (\<lambda>y.
          Ok (A\<lparr>a_q8 := buf\<rparr>, True, q8k_ready, ys @ [y]))))
      | MQ4K bs \<Rightarrow>
          obind (if q8k_ready then Ok (a_q8k A) else
              obind (slice (a_q8k A) 0 (cols div QK_K)) (\<lambda>xk. obind (quantize_q8k M x xk) (\<lambda>xk. write_at (a_q8k A) 0 xk))) (\<lambda>buf.
          obind (slice buf 0 (cols div QK_K)) (\<lambda>xk. obind (matvec_q4k M y bs xk (length y) cols) (\<lambda>y.
          Ok (A\<lparr>a_q8k := buf\<rparr>, q8_ready, True, ys @ [y]))))
      | MQ6K bs \<Rightarrow>
          obind (if q8k_ready then Ok (a_q8k A) else
              obind (slice (a_q8k A) 0 (cols div QK_K)) (\<lambda>xk. obind (quantize_q8k M x xk) (\<lambda>xk. write_at (a_q8k A) 0 xk))) (\<lambda>buf.
          obind (slice buf 0 (cols div QK_K)) (\<lambda>xk. obind (matvec_q6k M y bs xk (length y) cols) (\<lambda>y.
          Ok (A\<lparr>a_q8k := buf\<rparr>, q8_ready, True, ys @ [y])))))"

definition acts_matvec_group :: "'z machine_scheme \<Rightarrow> acts \<Rightarrow> (f32 list \<times> qmat) list \<Rightarrow> f32 list \<Rightarrow> ('e, acts \<times> f32 list list) outcome" where
  "acts_matvec_group M A jobs x =
     obind (ofold (matvec_job M x) (A, False, False, []) jobs) (\<lambda>(A, q8_ready, q8k_ready, ys). Ok (A, ys))"

subsection \<open>The context\<close>

text \<open>What construction fixes.\<close>

record cfg =
  c_dims :: dims
  c_weights :: weights
  c_norm_eps :: f32
  c_rope_style :: rope_style
  c_embed_scale :: f32
  c_att_score_scale :: f32
  c_residual_scale :: f32
  c_logit_recip :: f32
  c_freqs :: "f32 list"

text \<open>Decode scratch; prefill scratch has \<open>MAX_BATCH\<close> rows.\<close>

record scratch =
  v_x :: "f32 list"
  v_xb :: "f32 list"
  v_xb2 :: "f32 list"
  v_q :: "f32 list"
  v_attn_out :: "f32 list"
  v_k :: "f32 list"
  v_v :: "f32 list"
  v_gate :: "f32 list"
  v_up :: "f32 list"

record batch_scratch =
  b_x :: "f32 list"
  b_xb :: "f32 list"
  b_q :: "f32 list"
  b_attn :: "f32 list"
  b_k :: "f32 list"
  b_v :: "f32 list"
  b_gate :: "f32 list"
  b_up :: "f32 list"

record infer =
  i_cfg :: cfg
  i_one :: scratch
  i_batch :: batch_scratch
  i_att :: "f32 list"
  i_logits :: "f32 list"
  i_acts :: acts
  i_key :: "f16 list"
  i_val :: "f16 list"
  i_pos :: nat

definition infer_reset :: "infer \<Rightarrow> infer" where
  "infer_reset s = s\<lparr>i_pos := 0\<rparr>"

definition infer_remaining :: "infer \<Rightarrow> nat" where
  "infer_remaining s = (dm_ctx (c_dims (i_cfg s)) + usize_limit - i_pos s) mod usize_limit"

subsection \<open>Steps shared by decoding and prefill\<close>

definition embed_token :: "'z machine_scheme \<Rightarrow> cfg \<Rightarrow> u32 \<Rightarrow> f32 list \<Rightarrow> ('e, f32 list) outcome" where
  "embed_token M C token x =
     obind (dequant_row M (ws_embed (c_weights C)) (unat token) (dm_dim (c_dims C)) x) (\<lambda>x.
     Ok (if \<not> f_eq (c_embed_scale C) F_ONE then scale_inplace M x (c_embed_scale C) else x))"

text \<open>Per-head norms (when the layer has both), then RoPE.\<close>

definition rotate_qk :: "'z machine_scheme \<Rightarrow> cfg \<Rightarrow> layer_weights \<Rightarrow> nat \<Rightarrow> f32 list \<Rightarrow> f32 list \<Rightarrow> ('e, f32 list \<times> f32 list) outcome" where
  "rotate_qk M C w pos q k =
     (let d = c_dims C; eps = c_norm_eps C in
      obind (case (lw_q_norm w, lw_k_norm w) of
          (Some qn, Some kn) \<Rightarrow>
            obind (for_chunks_exact (dm_head d) (\<lambda>h. Ok (rmsnorm_inplace M h qn eps)) q) (\<lambda>q.
            obind (for_chunks_exact (dm_head d) (\<lambda>h. Ok (rmsnorm_inplace M h kn eps)) k) (\<lambda>k. Ok (q, k)))
        | _ \<Rightarrow> Ok (q, k)) (\<lambda>(q, k).
      obind (rope_apply M q (dm_head d) (c_freqs C) pos (c_rope_style C)) (\<lambda>q.
      obind (rope_apply M k (dm_head d) (c_freqs C) pos (c_rope_style C)) (\<lambda>k. Ok (q, k)))))"

text \<open>Both caches at one offset; in prefill \<open>v\<close> is indexed from \<open>voff\<close>.\<close>

definition append_kv :: "dims \<Rightarrow> nat \<Rightarrow> nat \<Rightarrow> f32 list \<Rightarrow> f32 list \<Rightarrow> nat \<Rightarrow> f16 list \<times> f16 list \<Rightarrow> ('e, f16 list \<times> f16 list) outcome" where
  "append_kv d l pos k v voff caches =
     (let cache_row = (l * dm_ctx d + pos) * dm_kv d in
      ofold (\<lambda>(kc, vc) j.
        obind (index k j) (\<lambda>kj. obind (set_at kc (cache_row + j) (f32_to_f16 kj)) (\<lambda>kc.
        obind (index v (voff + j)) (\<lambda>vj. obind (set_at vc (cache_row + j) (f32_to_f16 vj)) (\<lambda>vc. Ok (kc, vc)))))) caches [0..<dm_kv d])"

text \<open>One query head against the cache; \<open>off\<close> is where the token's row starts in \<open>q\<close> and \<open>out\<close>.\<close>

definition attend_head :: "'z machine_scheme \<Rightarrow> cfg \<Rightarrow> nat \<Rightarrow> nat \<Rightarrow> f16 list \<Rightarrow> f16 list \<Rightarrow> f32 list \<Rightarrow> nat
    \<Rightarrow> f32 list \<times> f32 list \<Rightarrow> nat \<Rightarrow> ('e, f32 list \<times> f32 list) outcome" where
  "attend_head M C l pos kc vc q off st h =
     (let (att, out) = st; d = c_dims C; hd = dm_head d in
      if dm_kv_heads d = 0 \<or> dm_heads d div dm_kv_heads d = 0 then Panic else
      obind (slice q (off + h * hd) (off + (h + 1) * hd)) (\<lambda>qh.
      let kvh = h div (dm_heads d div dm_kv_heads d) * hd in
      obind (slice att (h * dm_ctx d) (h * dm_ctx d + pos + 1)) (\<lambda>a.
      obind (omap (\<lambda>t. let krow = (l * dm_ctx d + t) * dm_kv d + kvh in
          obind (slice kc krow (krow + hd)) (\<lambda>kr. Ok (fmul M (dot_f16 M kr qh) (c_att_score_scale C)))) [0..<length a]) (\<lambda>a.
      let a = softmax M a in
      obind (write_at att (h * dm_ctx d) a) (\<lambda>att.
      obind (slice out (off + h * hd) (off + (h + 1) * hd)) (\<lambda>oh.
      obind (ofold (\<lambda>oh (t, av). let vrow = (l * dm_ctx d + t) * dm_kv d + kvh in
          obind (slice vc vrow (vrow + hd)) (\<lambda>vr. Ok (axpy_f16 M oh av vr))) (replicate (length oh) F_ZERO) (enumerate 0 a)) (\<lambda>oh.
      obind (write_at out (off + h * hd) oh) (\<lambda>out. Ok (att, out)))))))))"

definition classify :: "'z machine_scheme \<Rightarrow> f32 list \<Rightarrow> infer \<Rightarrow> ('e, infer) outcome" where
  "classify M x s =
     (let C = i_cfg s; W = c_weights C in
      obind (rmsnorm M (v_xb (i_one s)) x (ws_out_norm W) (c_norm_eps C)) (\<lambda>xb.
      obind (acts_matvec M (i_acts s) (i_logits s) (ws_output W) xb) (\<lambda>(A, lg).
      Ok (s\<lparr>i_one := (i_one s)\<lparr>v_xb := xb\<rparr>, i_acts := A,
        i_logits := (if \<not> f_eq (c_logit_recip C) F_ONE then scale_inplace M lg (c_logit_recip C) else lg)\<rparr>))))"

subsection \<open>Decoding one token\<close>

definition forward_attention :: "'z machine_scheme \<Rightarrow> layer_weights \<Rightarrow> nat \<Rightarrow> nat \<Rightarrow> infer \<Rightarrow> ('e, infer) outcome" where
  "forward_attention M w l pos s =
     (let C = i_cfg s; d = c_dims C; S = i_one s in
      obind (rmsnorm M (v_xb S) (v_x S) (lw_attn_norm w) (c_norm_eps C)) (\<lambda>xb.
      obind (acts_matvec_group M (i_acts s) [(v_q S, lw_wq w), (v_k S, lw_wk w), (v_v S, lw_wv w)] xb) (\<lambda>(A, ys).
      obind (rotate_qk M C w pos (ys ! 0) (ys ! 1)) (\<lambda>(q, k).
      obind (append_kv d l pos k (ys ! 2) 0 (i_key s, i_val s)) (\<lambda>(kc, vc).
      if dm_kv_heads d = 0 then Panic else
      obind (ofold (attend_head M C l pos kc vc q 0) (i_att s, v_attn_out S) [0..<dm_heads d]) (\<lambda>(att, ao).
      obind (acts_matvec M A (v_xb2 S) (lw_wo w) ao) (\<lambda>(A, xb2).
      Ok (s\<lparr>i_one := S\<lparr>v_x := saxpy M (v_x S) (c_residual_scale C) xb2, v_xb := xb, v_xb2 := xb2, v_q := q, v_k := k, v_v := ys ! 2,
            v_attn_out := ao\<rparr>, i_acts := A, i_key := kc, i_val := vc, i_att := att\<rparr>))))))))"

definition forward_mlp :: "'z machine_scheme \<Rightarrow> layer_weights \<Rightarrow> infer \<Rightarrow> ('e, infer) outcome" where
  "forward_mlp M w s =
     (let C = i_cfg s; S = i_one s in
      obind (rmsnorm M (v_xb S) (v_x S) (lw_ffn_norm w) (c_norm_eps C)) (\<lambda>xb.
      obind (acts_matvec_group M (i_acts s) [(v_gate S, lw_gate w), (v_up S, lw_up w)] xb) (\<lambda>(A, ys).
      let gate = swiglu M (ys ! 0) (ys ! 1) in
      obind (acts_matvec M A (v_xb2 S) (lw_down w) gate) (\<lambda>(A, xb2).
      Ok (s\<lparr>i_one := S\<lparr>v_x := saxpy M (v_x S) (c_residual_scale C) xb2, v_xb := xb, v_xb2 := xb2, v_gate := gate, v_up := ys ! 1\<rparr>, i_acts := A\<rparr>)))))"

definition forward_layer :: "'z machine_scheme \<Rightarrow> nat \<Rightarrow> infer \<Rightarrow> nat \<Rightarrow> ('e, infer) outcome" where
  "forward_layer M pos s l =
     obind (index (ws_layers (c_weights (i_cfg s))) l) (\<lambda>w.
     obind (forward_attention M w l pos s) (\<lambda>s. forward_mlp M w s))"

definition forward :: "'z machine_scheme \<Rightarrow> infer \<Rightarrow> u32 \<Rightarrow> ('e, infer) outcome" where
  "forward M s token =
     (let C = i_cfg s; d = c_dims C; pos = i_pos s in
      obind (assert (pos < dm_ctx d)) (\<lambda>_.
      obind (embed_token M C token (v_x (i_one s))) (\<lambda>x.
      obind (ofold (forward_layer M pos) (s\<lparr>i_one := (i_one s)\<lparr>v_x := x\<rparr>\<rparr>) [0..<dm_layers d]) (\<lambda>s.
      obind (classify M (v_x (i_one s)) s) (\<lambda>s.
      Ok (s\<lparr>i_pos := i_pos s + 1\<rparr>))))))"

subsection \<open>Batched prefill\<close>

definition prefill_embed :: "'z machine_scheme \<Rightarrow> cfg \<Rightarrow> u32 list \<Rightarrow> f32 list \<Rightarrow> ('e, f32 list) outcome" where
  "prefill_embed M C tokens bx = each_row (dm_dim (c_dims C)) (length tokens) (\<lambda>i row. embed_token M C (tokens ! i) row) bx"

definition norm_rows :: "'z machine_scheme \<Rightarrow> cfg \<Rightarrow> f32 list \<Rightarrow> nat \<Rightarrow> f32 list \<Rightarrow> f32 list \<Rightarrow> ('e, f32 list) outcome" where
  "norm_rows M C weight b bx bxb =
     (let n = dm_dim (c_dims C) in
      each_row n b (\<lambda>i out. obind (slice bx (i * n) ((i + 1) * n)) (\<lambda>x. rmsnorm M out x weight (c_norm_eps C))) bxb)"

definition residual_rows :: "'z machine_scheme \<Rightarrow> cfg \<Rightarrow> nat \<Rightarrow> f32 list \<Rightarrow> f32 list \<Rightarrow> ('e, f32 list) outcome" where
  "residual_rows M C b bxb bx =
     (let n = dm_dim (c_dims C) in
      each_row n b (\<lambda>i x. obind (slice bxb (i * n) ((i + 1) * n)) (\<lambda>y. Ok (saxpy M x (c_residual_scale C) y))) bx)"

text \<open>A batched product into the first rows of a buffer.\<close>

definition matmul_into :: "'z machine_scheme \<Rightarrow> acts \<Rightarrow> f32 list \<Rightarrow> nat \<Rightarrow> qmat \<Rightarrow> f32 list \<Rightarrow> nat \<Rightarrow> ('e, acts \<times> f32 list) outcome" where
  "matmul_into M A buf n w xs b =
     obind (slice buf 0 (b * n)) (\<lambda>y. obind (acts_matmul M A y w xs b) (\<lambda>(A, y). obind (write_at buf 0 y) (\<lambda>buf. Ok (A, buf))))"

definition prefill_qkv :: "'z machine_scheme \<Rightarrow> layer_weights \<Rightarrow> nat \<Rightarrow> infer \<Rightarrow> ('e, infer) outcome" where
  "prefill_qkv M w b s =
     (let C = i_cfg s; d = c_dims C; B = i_batch s in
      obind (norm_rows M C (lw_attn_norm w) b (b_x B) (b_xb B)) (\<lambda>bxb.
      obind (slice (b_q B) 0 (b * dm_att d)) (\<lambda>q. obind (slice (b_k B) 0 (b * dm_kv d)) (\<lambda>k. obind (slice (b_v B) 0 (b * dm_kv d)) (\<lambda>v.
      obind (slice bxb 0 (b * dm_dim d)) (\<lambda>xs.
      obind (acts_matmul_group M (i_acts s) [(q, lw_wq w), (k, lw_wk w), (v, lw_wv w)] xs b) (\<lambda>(A, ys).
      obind (write_at (b_q B) 0 (ys ! 0)) (\<lambda>bq. obind (write_at (b_k B) 0 (ys ! 1)) (\<lambda>bk. obind (write_at (b_v B) 0 (ys ! 2)) (\<lambda>bv.
      Ok (s\<lparr>i_batch := B\<lparr>b_xb := bxb, b_q := bq, b_k := bk, b_v := bv\<rparr>, i_acts := A\<rparr>)))))))))))"

definition prefill_append_token :: "'z machine_scheme \<Rightarrow> layer_weights \<Rightarrow> nat \<Rightarrow> nat \<Rightarrow> infer \<Rightarrow> nat \<Rightarrow> ('e, infer) outcome" where
  "prefill_append_token M w l base s i =
     (let C = i_cfg s; d = c_dims C; B = i_batch s; pos = base + i in
      obind (slice (b_q B) (i * dm_att d) ((i + 1) * dm_att d)) (\<lambda>q. obind (slice (b_k B) (i * dm_kv d) ((i + 1) * dm_kv d)) (\<lambda>k.
      obind (rotate_qk M C w pos q k) (\<lambda>(q, k).
      obind (append_kv d l pos k (b_v B) (i * dm_kv d) (i_key s, i_val s)) (\<lambda>(kc, vc).
      obind (write_at (b_q B) (i * dm_att d) q) (\<lambda>bq. obind (write_at (b_k B) (i * dm_kv d) k) (\<lambda>bk.
      Ok (s\<lparr>i_batch := B\<lparr>b_q := bq, b_k := bk\<rparr>, i_key := kc, i_val := vc\<rparr>))))))))"

definition prefill_attend_token :: "'z machine_scheme \<Rightarrow> nat \<Rightarrow> nat \<Rightarrow> infer \<Rightarrow> nat \<Rightarrow> ('e, infer) outcome" where
  "prefill_attend_token M l base s i =
     (let C = i_cfg s; d = c_dims C; B = i_batch s in
      obind (ofold (attend_head M C l (base + i) (i_key s) (i_val s) (b_q B) (i * dm_att d)) (i_att s, b_attn B) [0..<dm_heads d]) (\<lambda>(att, ao).
      Ok (s\<lparr>i_batch := B\<lparr>b_attn := ao\<rparr>, i_att := att\<rparr>)))"

definition prefill_project :: "'z machine_scheme \<Rightarrow> layer_weights \<Rightarrow> nat \<Rightarrow> infer \<Rightarrow> ('e, infer) outcome" where
  "prefill_project M w b s =
     (let C = i_cfg s; d = c_dims C; B = i_batch s in
      obind (slice (b_attn B) 0 (b * dm_att d)) (\<lambda>xs.
      obind (matmul_into M (i_acts s) (b_xb B) (dm_dim d) (lw_wo w) xs b) (\<lambda>(A, bxb).
      obind (residual_rows M C b bxb (b_x B)) (\<lambda>bx.
      Ok (s\<lparr>i_batch := B\<lparr>b_x := bx, b_xb := bxb\<rparr>, i_acts := A\<rparr>)))))"

definition prefill_mlp :: "'z machine_scheme \<Rightarrow> layer_weights \<Rightarrow> nat \<Rightarrow> infer \<Rightarrow> ('e, infer) outcome" where
  "prefill_mlp M w b s =
     (let C = i_cfg s; d = c_dims C; B = i_batch s; n = dm_ffn d in
      obind (norm_rows M C (lw_ffn_norm w) b (b_x B) (b_xb B)) (\<lambda>bxb.
      obind (slice (b_gate B) 0 (b * n)) (\<lambda>g. obind (slice (b_up B) 0 (b * n)) (\<lambda>u. obind (slice bxb 0 (b * dm_dim d)) (\<lambda>xs.
      obind (acts_matmul_group M (i_acts s) [(g, lw_gate w), (u, lw_up w)] xs b) (\<lambda>(A, ys).
      obind (write_at (b_gate B) 0 (ys ! 0)) (\<lambda>bgate. obind (write_at (b_up B) 0 (ys ! 1)) (\<lambda>bup.
      obind (each_row n b (\<lambda>i g. obind (slice bup (i * n) ((i + 1) * n)) (\<lambda>u. Ok (swiglu M g u))) bgate) (\<lambda>bgate.
      obind (slice bgate 0 (b * n)) (\<lambda>xs.
      obind (matmul_into M A bxb (dm_dim d) (lw_down w) xs b) (\<lambda>(A, bxb).
      obind (residual_rows M C b bxb (b_x B)) (\<lambda>bx.
      Ok (s\<lparr>i_batch := B\<lparr>b_x := bx, b_xb := bxb, b_gate := bgate, b_up := bup\<rparr>, i_acts := A\<rparr>)))))))))))))"

definition prefill_layer :: "'z machine_scheme \<Rightarrow> nat \<Rightarrow> nat \<Rightarrow> infer \<Rightarrow> nat \<Rightarrow> ('e, infer) outcome" where
  "prefill_layer M base b s l =
     obind (index (ws_layers (c_weights (i_cfg s))) l) (\<lambda>w.
     obind (prefill_qkv M w b s) (\<lambda>s.
     obind (ofold (prefill_append_token M w l base) s [0..<b]) (\<lambda>s.
     if dm_kv_heads (c_dims (i_cfg s)) = 0 then Panic else
     obind (ofold (prefill_attend_token M l base) s [0..<b]) (\<lambda>s.
     obind (prefill_project M w b s) (\<lambda>s. prefill_mlp M w b s)))))"

definition prefill_chunk :: "'z machine_scheme \<Rightarrow> infer \<Rightarrow> u32 list \<Rightarrow> ('e, infer) outcome" where
  "prefill_chunk M s tokens =
     (let C = i_cfg s; d = c_dims C; b = length tokens; base = i_pos s in
      obind (assert (1 \<le> b \<and> b \<le> MAX_BATCH)) (\<lambda>_.
      obind (assert (base + b \<le> dm_ctx d)) (\<lambda>_.
      obind (prefill_embed M C tokens (b_x (i_batch s))) (\<lambda>bx.
      obind (ofold (prefill_layer M base b) (s\<lparr>i_batch := (i_batch s)\<lparr>b_x := bx\<rparr>\<rparr>) [0..<dm_layers d]) (\<lambda>s.
      obind (slice (b_x (i_batch s)) ((b - 1) * dm_dim d) (b * dm_dim d)) (\<lambda>x.
      obind (classify M x s) (\<lambda>s.
      Ok (s\<lparr>i_pos := i_pos s + b\<rparr>))))))))"

definition prefill :: "'z machine_scheme \<Rightarrow> infer \<Rightarrow> u32 list \<Rightarrow> ('e, infer) outcome" where
  "prefill M s tokens =
     obind (assert (tokens \<noteq> [])) (\<lambda>_. ofold (prefill_chunk M) s (chunks MAX_BATCH tokens))"

end
