(* ===== verification/Nr_Products.thy ===== *)
theory Nr_Products
  imports Nr_Infer
begin

text \<open>
  Lemmas on the loops of \<^verbatim>\<open>crates/nr-model/src/infer.rs\<close>: buffers cut into rows, and the products of
  \<open>Acts\<close>. Every product, single, batched or in a group, is the function \<open>mat_vec\<close> of its input row.
\<close>

subsection \<open>Rows\<close>

lemma row_put_same: "(i + 1) * n \<le> length buf \<Longrightarrow> length r = n \<Longrightarrow> row_of (put_at buf (i * n) r) n i = r"
  unfolding row_of_def by (rule sub_put_at_same) (simp_all add: algebra_simps)

lemma row_put_other: "(i + 1) * n \<le> length buf \<Longrightarrow> length r = n \<Longrightarrow> j \<noteq> i \<Longrightarrow> row_of (put_at buf (i * n) r) n j = row_of buf n j"
proof -
  assume a: "(i + 1) * n \<le> length buf" "length r = n" "j \<noteq> i"
  then have "(j + 1) * n \<le> i * n \<or> (i + 1) * n \<le> j * n" by (metis Suc_eq_plus1 Suc_leI linorder_neqE_nat mult_le_mono1)
  with a show ?thesis unfolding row_of_def by (intro sub_put_at_other) (auto simp: algebra_simps)
qed

lemma row_put:
  "(i + 1) * n \<le> length buf \<Longrightarrow> length r = n \<Longrightarrow> row_of (put_at buf (i * n) r) n j = (if j = i then r else row_of buf n j)"
  by (cases "j = i") (simp_all only: row_put_same row_put_other if_True if_False simp_thms)

lemma length_row: "i < b \<Longrightarrow> b * n \<le> length buf \<Longrightarrow> length (row_of buf n i) = n"
  using row_bounds [of i b n] by (simp add: row_of_def)

text \<open>The first \<open>b\<close> rows of a buffer.\<close>

definition holds :: "'a list \<Rightarrow> nat \<Rightarrow> nat \<Rightarrow> (nat \<Rightarrow> 'a list) \<Rightarrow> bool" where
  "holds buf n b F \<longleftrightarrow> b * n \<le> length buf \<and> (\<forall>i < b. row_of buf n i = F i)"

lemma holds_length: "holds buf n b F \<Longrightarrow> i < b \<Longrightarrow> length (F i) = n"
  using length_row [of i b n buf] by (simp add: holds_def)

lemma holds_slice: "holds buf n b F \<Longrightarrow> i < b \<Longrightarrow> slice buf (i * n) ((i + 1) * n) = Ok (F i)"
  using slice_row [of i b n buf] by (simp add: holds_def)

lemma holds_take: "holds buf n b F \<Longrightarrow> slice buf 0 (b * n) = (Ok (sub buf 0 (b * n)) :: ('e, _) outcome) \<and> holds (sub buf 0 (b * n)) n b F"
proof -
  assume h: "holds buf n b F"
  have "row_of (sub buf 0 (b * n)) n i = row_of buf n i" if "i < b" for i
    unfolding row_of_def using row_bounds [OF that, of n] by (subst sub_sub) (simp_all add: algebra_simps)
  then show ?thesis using h by (simp add: holds_def)
qed

lemma holds_front: "length y = b * n \<Longrightarrow> holds y n b F \<Longrightarrow> b * n \<le> length buf \<Longrightarrow> holds (put_at buf 0 y) n b F"
proof -
  assume a: "length y = b * n" "holds y n b F" "b * n \<le> length buf"
  have "sub (put_at buf 0 y) (i * n) ((i + 1) * n) = sub y (i * n) ((i + 1) * n)" if "i < b" for i
    by (rule nth_equalityI) (use a row_bounds [OF that, of n] in \<open>auto simp: nth_put_at\<close>)
  then show ?thesis using a by (simp add: holds_def row_of_def)
qed

lemma holds_cong: "holds buf n b F \<Longrightarrow> (\<And>i. i < b \<Longrightarrow> F i = G i) \<Longrightarrow> holds buf n b G"
  by (simp add: holds_def)

lemma holds_self: "b * n \<le> length buf \<Longrightarrow> holds buf n b (row_of buf n)"
  by (simp add: holds_def)

text \<open>A loop over rows.\<close>

lemma each_row_Ok:
  assumes "b * n \<le> length buf" and f: "\<And>i. i < b \<Longrightarrow> f i (row_of buf n i) = Ok (g i)" and g: "\<And>i. i < b \<Longrightarrow> length (g i) = n"
  shows "\<exists>buf'. each_row n b f buf = Ok buf' \<and> length buf' = length buf \<and> holds buf' n b g"
proof -
  have "\<exists>buf'. ofold (\<lambda>buf i. obind (slice buf (i * n) ((i + 1) * n)) (\<lambda>r. obind (f i r) (\<lambda>r. write_at buf (i * n) r))) buf [0..<c] = Ok buf'
      \<and> length buf' = length buf \<and> (\<forall>j. row_of buf' n j = (if j < c then g j else row_of buf n j))" if "c \<le> b" for c
    using that
  proof (induction c)
    case (Suc c)
    then obtain buf' where b': "ofold (\<lambda>buf i. obind (slice buf (i * n) ((i + 1) * n)) (\<lambda>r. obind (f i r) (\<lambda>r. write_at buf (i * n) r))) buf [0..<c] = Ok buf'"
        "length buf' = length buf" "\<forall>j. row_of buf' n j = (if j < c then g j else row_of buf n j)" by auto
    have c: "c < b" using Suc.prems by simp
    then have fits: "(c + 1) * n \<le> length buf'" using row_bounds [of c b n] assms(1) b'(2) by simp
    then have "slice buf' (c * n) ((c + 1) * n) = Ok (row_of buf n c)" using b'(3) slice_row [of c "c + 1" n buf'] by simp
    then show ?case
      using b' c f [OF c] g [OF c] fits row_put [OF fits g [OF c]]
      by (intro exI [of _ "put_at buf' (c * n) (g c)"]) (auto simp: ofold_append algebra_simps)
  qed simp
  from this [of b] show ?thesis using assms(1) by (auto simp: each_row_def holds_def)
qed

text \<open>A row of \<open>H * n\<close> is \<open>H\<close> rows of \<open>n\<close>.\<close>

lemma row_of_rows: "(i + 1) * (H * n) \<le> length buf \<Longrightarrow> row_of buf (H * n) i = concat (map (\<lambda>h. row_of buf n (i * H + h)) [0..<H])"
proof -
  assume a: "(i + 1) * (H * n) \<le> length buf"
  have "concat (map (\<lambda>h. row_of buf n (i * H + h)) [0..<c]) = sub buf (i * H * n) ((i * H + c) * n)" if "c \<le> H" for c
    using that
  proof (induction c)
    case (Suc c)
    then show ?case by (simp add: row_of_def sub_append_sub algebra_simps)
  qed simp
  from this [of H] show ?thesis by (simp add: row_of_def algebra_simps)
qed

lemma rows_determine:
  assumes "length a = b * n" and "length a' = b * n" and "\<And>i. i < b \<Longrightarrow> row_of a n i = row_of a' n i"
  shows "a = a'"
proof -
  have "row_of a (b * n) 0 = row_of a' (b * n) 0" by (subst (1 2) row_of_rows) (use assms in \<open>auto intro!: arg_cong [where f = concat]\<close>)
  then show ?thesis using assms(1,2) sub_zero_length [of a] sub_zero_length [of a'] by (simp add: row_of_def)
qed

subsection \<open>Matrix products\<close>

definition quant_q8 :: "'z machine_scheme \<Rightarrow> f32 list \<Rightarrow> block_q8_0 list" where
  "quant_q8 M x = map (quantize_q8_block M) (chunks_exact QK8_0 x)"

definition quant_q8k :: "'z machine_scheme \<Rightarrow> f32 list \<Rightarrow> block_q8k list" where
  "quant_q8k M x = map (quantize_q8k_block M) (chunks_exact QK_K x)"

definition mat_vec :: "'z machine_scheme \<Rightarrow> qmat \<Rightarrow> nat \<Rightarrow> f32 list \<Rightarrow> f32 list" where
  "mat_vec M w rows x = (case w of
       MQ8 bs \<Rightarrow> map (\<lambda>r. kernel_q8 M (row_of bs (length x div QK8_0) r) (quant_q8 M x)) [0..<rows]
     | MQ4K bs \<Rightarrow> map (\<lambda>r. kernel_q4k M (row_of bs (length x div QK_K) r) (quant_q8k M x)) [0..<rows]
     | MQ6K bs \<Rightarrow> map (\<lambda>r. kernel_q6k M (row_of bs (length x div QK_K) r) (quant_q8k M x)) [0..<rows])"

definition mat_ok :: "qmat \<Rightarrow> nat \<Rightarrow> nat \<Rightarrow> bool" where
  "mat_ok w rows cols \<longleftrightarrow> (case w of
       MQ8 bs \<Rightarrow> cols mod QK8_0 = 0 \<and> length bs = rows * (cols div QK8_0) \<and> (\<forall>b \<in> set bs. length (q8_qs b) = QK8_0)
     | MQ4K bs \<Rightarrow> cols mod QK_K = 0 \<and> length bs = rows * (cols div QK_K) \<and> (\<forall>b \<in> set bs. wf_q4k b)
     | MQ6K bs \<Rightarrow> cols mod QK_K = 0 \<and> length bs = rows * (cols div QK_K) \<and> (\<forall>b \<in> set bs. wf_q6k b))"

text \<open>Room for \<open>MAX_BATCH\<close> rows of \<open>n\<close> values.\<close>

definition acts_room :: "acts \<Rightarrow> nat \<Rightarrow> bool" where
  "acts_room A n \<longleftrightarrow> MAX_BATCH * (n div QK8_0) \<le> length (a_q8 A) \<and> MAX_BATCH * (n div QK_K) \<le> length (a_q8k A)"

lemma acts_room_mono: "acts_room A n \<Longrightarrow> m \<le> n \<Longrightarrow> acts_room A m"
  unfolding acts_room_def by (meson div_le_mono le_trans mult_le_mono2)

definition acts_size :: "acts \<Rightarrow> nat \<times> nat" where
  "acts_size A = (length (a_q8 A), length (a_q8k A))"

lemma acts_room_size: "acts_size A' = acts_size A \<Longrightarrow> acts_room A' n = acts_room A n"
  by (simp add: acts_room_def acts_size_def)

lemma length_mat_vec [simp]: "length (mat_vec M w rows x) = rows"
  by (simp add: mat_vec_def split: qmat.split)

lemma qk_pos [simp]: "0 < QK8_0" "0 < QK_K"
  by (simp_all add: QK8_0_def QK_K_def)

lemma length_quant [simp]: "length (quant_q8 M x) = length x div QK8_0" "length (quant_q8k M x) = length x div QK_K"
  by (simp_all add: quant_q8_def quant_q8k_def length_chunks_exact)

lemma quantize_Ok:
  "length x mod QK8_0 = 0 \<Longrightarrow> length out = length x div QK8_0 \<Longrightarrow> quantize_q8 M x out = Ok (quant_q8 M x)"
  "length x mod QK_K = 0 \<Longrightarrow> length out1 = length x div QK_K \<Longrightarrow> quantize_q8k M x out1 = Ok (quant_q8k M x)"
  by (auto simp: quantize_q8_def quantize_q8k_def quant_q8_def quant_q8k_def mod_0_imp_dvd)

lemma acts_room_one: "acts_room A n \<Longrightarrow> n div QK8_0 \<le> length (a_q8 A)" "acts_room A n \<Longrightarrow> n div QK_K \<le> length (a_q8k A)"
  by (auto simp: acts_room_def MAX_BATCH_def)

lemma acts_matvec_Ok:
  assumes "sched_ok M" and "mat_ok w rows (length x)" and "length y = rows" and "acts_room A (length x)"
  shows "\<exists>A'. acts_matvec M A y w x = (Ok (A', mat_vec M w rows x) :: (unit, _) outcome) \<and> acts_size A' = acts_size A"
proof -
  have r: "ranges_ok rows (m_sched M rows)" using assms(1) by (simp add: sched_ok_def)
  show ?thesis using assms(2-4) acts_room_one [OF assms(4)]
    by (cases w) (auto simp: mat_ok_def acts_matvec_def mat_vec_def Let_def quantize_Ok acts_size_def min_def
        matvec_q8_def matvec_q4k_def matvec_q6k_def matvec_Ok [OF r])
qed

lemma quantize_rows_Ok:
  fixes quant :: "f32 list \<Rightarrow> 'b list \<Rightarrow> ('e, 'b list) outcome"
  assumes "length xs = batch * cols" and "batch * bpr \<le> length buf"
    and q: "\<And>x out. length x = cols \<Longrightarrow> length out = bpr \<Longrightarrow> quant x out = Ok (qf x)" and l: "\<And>x. length x = cols \<Longrightarrow> length (qf x) = bpr"
  shows "\<exists>buf'. quantize_rows quant xs cols bpr batch buf = Ok buf' \<and> length buf' = length buf \<and> holds buf' bpr batch (\<lambda>i. qf (row_of xs cols i))"
  unfolding quantize_rows_def
proof (rule each_row_Ok [OF assms(2)])
  fix i
  assume i: "i < batch"
  have x: "length (row_of xs cols i) = cols" by (rule length_row [OF i]) (simp add: assms(1))
  show "obind (slice xs (i * cols) ((i + 1) * cols)) (\<lambda>x. quant x (row_of buf bpr i)) = Ok (qf (row_of xs cols i))"
  proof -
    have "slice xs (i * cols) ((i + 1) * cols) = (Ok (row_of xs cols i) :: ('e, f32 list) outcome)"
      by (rule slice_row [OF i]) (simp add: assms(1))
    then show ?thesis by (simp only: obind.simps q [OF x length_row [OF i assms(2)]])
  qed
  show "length (qf (row_of xs cols i)) = bpr" by (rule l [OF x])
qed

text \<open>A batched product of quantized rows, for each weight format.\<close>

lemma matmul_rows:
  assumes r: "ranges_ok rows (m_sched M rows)" and "length y = batch * rows" and "length xq = batch * bpr" and "rows * bpr \<le> length w"
    and h: "holds xq bpr batch X" and bpr: "bpr = cols div qk"
    and mm: "\<And>xs. length xs = batch * (cols div qk) \<Longrightarrow> mm y w xs rows cols batch
       = (Ok (map (\<lambda>k. one (row_of w (cols div qk) (k mod rows)) (row_of xs (cols div qk) (k div rows))) [0..<batch * rows]) :: (unit, f32 list) outcome)"
  shows "\<exists>ys. mm y w xq rows cols batch = (Ok ys :: (unit, f32 list) outcome) \<and> length ys = batch * rows
     \<and> holds ys rows batch (\<lambda>i. map (\<lambda>r. one (row_of w bpr r) (X i)) [0..<rows])"
proof -
  let ?ys = "map (\<lambda>k. one (row_of w bpr (k mod rows)) (row_of xq bpr (k div rows))) [0..<batch * rows]"
  have "row_of ?ys rows i = map (\<lambda>r. one (row_of w bpr r) (X i)) [0..<rows]" if "i < batch" for i
    using row_of_table [OF that, of "\<lambda>b r. one (row_of w bpr r) (row_of xq bpr b)" rows] h that by (simp add: holds_def)
  then show ?thesis using mm [of xq] assms(3) bpr by (auto simp: holds_def)
qed

lemma matmul_q8_rows:
  assumes "sched_ok M" and "length y = batch * rows" and "length xq = batch * (cols div QK8_0)" and "mat_ok (MQ8 w) rows cols" and "holds xq (cols div QK8_0) batch X"
  shows "\<exists>ys. matmul_q8 M y w xq rows cols batch = (Ok ys :: (unit, f32 list) outcome) \<and> length ys = batch * rows
        \<and> holds ys rows batch (\<lambda>i. map (\<lambda>r. kernel_q8 M (row_of w (cols div QK8_0) r) (X i)) [0..<rows])"
proof -
  have r: "ranges_ok rows (m_sched M rows)" using assms(1) by (simp add: sched_ok_def)
  show ?thesis
    by (rule matmul_rows [OF r assms(2,3) _ assms(5) refl]) (use assms(4) in \<open>auto simp: mat_ok_def matmul_q8_def q8.matmul_Ok [OF refl r assms(2)]\<close>)
qed

lemma matmul_q4k_rows:
  assumes "sched_ok M" and "length y = batch * rows" and "length xq = batch * (cols div QK_K)" and "mat_ok (MQ4K w) rows cols" and "holds xq (cols div QK_K) batch X"
  shows "\<exists>ys. matmul_q4k M y w xq rows cols batch = (Ok ys :: (unit, f32 list) outcome) \<and> length ys = batch * rows
        \<and> holds ys rows batch (\<lambda>i. map (\<lambda>r. kernel_q4k M (row_of w (cols div QK_K) r) (X i)) [0..<rows])"
proof -
  have r: "ranges_ok rows (m_sched M rows)" using assms(1) by (simp add: sched_ok_def)
  show ?thesis
    by (rule matmul_rows [OF r assms(2,3) _ assms(5) refl]) (use assms(4) in \<open>auto simp: mat_ok_def matmul_q4k_def q4k.matmul_Ok [OF refl r assms(2)]\<close>)
qed

lemma matmul_q6k_rows:
  assumes "sched_ok M" and "length y = batch * rows" and "length xq = batch * (cols div QK_K)" and "mat_ok (MQ6K w) rows cols" and "holds xq (cols div QK_K) batch X"
  shows "\<exists>ys. matmul_q6k M y w xq rows cols batch = (Ok ys :: (unit, f32 list) outcome) \<and> length ys = batch * rows
        \<and> holds ys rows batch (\<lambda>i. map (\<lambda>r. kernel_q6k M (row_of w (cols div QK_K) r) (X i)) [0..<rows])"
proof -
  have r: "ranges_ok rows (m_sched M rows)" using assms(1) by (simp add: sched_ok_def)
  show ?thesis
    by (rule matmul_rows [OF r assms(2,3) _ assms(5) refl]) (use assms(4) in \<open>auto simp: mat_ok_def matmul_q6k_def q6k.matmul_Ok [OF refl r assms(2)]\<close>)
qed

text \<open>What the flags of a group promise.\<close>

definition ready :: "'z machine_scheme \<Rightarrow> f32 list \<Rightarrow> nat \<Rightarrow> nat \<Rightarrow> acts \<Rightarrow> bool \<Rightarrow> bool \<Rightarrow> bool" where
  "ready M xs cols batch A q8_ready q8k_ready \<longleftrightarrow>
     (q8_ready \<longrightarrow> holds (a_q8 A) (cols div QK8_0) batch (\<lambda>i. quant_q8 M (row_of xs cols i)))
     \<and> (q8k_ready \<longrightarrow> holds (a_q8k A) (cols div QK_K) batch (\<lambda>i. quant_q8k M (row_of xs cols i)))"

abbreviation product_rows :: "'z machine_scheme \<Rightarrow> f32 list \<Rightarrow> nat \<Rightarrow> nat \<Rightarrow> qmat \<Rightarrow> nat \<Rightarrow> f32 list \<Rightarrow> bool" where
  "product_rows M xs cols batch w rows y \<equiv> length y = batch * rows \<and> holds y rows batch (\<lambda>i. mat_vec M w rows (row_of xs cols i))"

lemma acts_room_batch: "acts_room A n \<Longrightarrow> b \<le> MAX_BATCH \<Longrightarrow> b * (n div QK8_0) \<le> length (a_q8 A) \<and> b * (n div QK_K) \<le> length (a_q8k A)"
  unfolding acts_room_def using mult_le_mono1 [of b MAX_BATCH "n div QK8_0"] mult_le_mono1 [of b MAX_BATCH "n div QK_K"] by linarith

lemma fill_rows:
  fixes quant :: "f32 list \<Rightarrow> 'b list \<Rightarrow> ('e, 'b list) outcome"
  assumes "length xs = batch * cols" and "batch * bpr \<le> length buf" and "flag \<longrightarrow> holds buf bpr batch (\<lambda>i. qf (row_of xs cols i))"
    and "\<And>x out. length x = cols \<Longrightarrow> length out = bpr \<Longrightarrow> quant x out = Ok (qf x)" and "\<And>x. length x = cols \<Longrightarrow> length (qf x) = bpr"
  shows "\<exists>buf'. (if flag then Ok buf else quantize_rows quant xs cols bpr batch buf) = Ok buf' \<and> length buf' = length buf
     \<and> holds buf' bpr batch (\<lambda>i. qf (row_of xs cols i))"
  using assms(3) quantize_rows_Ok [where quant = quant and qf = qf, OF assms(1,2,4,5)] by auto

lemma matmul_job_Ok:
  assumes "sched_ok M" and "mat_ok w rows cols" and "length y = batch * rows" and "length xs = batch * cols"
    and "0 < batch" and "batch \<le> MAX_BATCH" and "acts_room A cols" and "ready M xs cols batch A q8_ready q8k_ready"
  shows "\<exists>A' q8_ready' q8k_ready' y'. matmul_job M xs batch (A, q8_ready, q8k_ready, ys) (y, w) = (Ok (A', q8_ready', q8k_ready', ys @ [y']) :: (unit, _) outcome)
     \<and> ready M xs cols batch A' q8_ready' q8k_ready' \<and> acts_size A' = acts_size A \<and> product_rows M xs cols batch w rows y'"
proof -
  have cols: "length xs div batch = cols" "length y div batch = rows" using assms(3-5) by simp_all
  have room: "batch * (cols div QK8_0) \<le> length (a_q8 A)" "batch * (cols div QK_K) \<le> length (a_q8k A)"
    using acts_room_batch [OF assms(7,6)] by simp_all
  have rl: "length (row_of xs cols i) = cols" if "i < batch" for i using length_row [OF that, of cols xs] assms(4) by simp
  show ?thesis
  proof (cases w)
    case (MQ8 bs)
    obtain buf where buf: "(if q8_ready then Ok (a_q8 A) else quantize_rows (quantize_q8 M) xs cols (cols div QK8_0) batch (a_q8 A)) = (Ok buf :: (unit, _) outcome)"
        "length buf = length (a_q8 A)" "holds buf (cols div QK8_0) batch (\<lambda>i. quant_q8 M (row_of xs cols i))"
      using fill_rows [OF assms(4) room(1), of q8_ready "quant_q8 M" "quantize_q8 M :: f32 list \<Rightarrow> block_q8_0 list \<Rightarrow> (unit, block_q8_0 list) outcome"] assms(2,8) MQ8 by (auto simp: ready_def mat_ok_def quantize_Ok)
    note t = holds_take [OF buf(3), where 'e = unit]
    obtain y' where y: "matmul_q8 M y bs (sub buf 0 (batch * (cols div QK8_0))) rows cols batch = (Ok y' :: (unit, _) outcome)" "length y' = batch * rows"
        and h: "holds y' rows batch (\<lambda>i. map (\<lambda>r. kernel_q8 M (row_of bs (cols div QK8_0) r) (quant_q8 M (row_of xs cols i))) [0..<rows])"
      using matmul_q8_rows [OF assms(1,3) _ _ conjunct2 [OF t], of bs] assms(2) MQ8 room(1) buf(2) by (auto simp: min_def)
    have "product_rows M xs cols batch w rows y'"
      by (rule conjI [OF y(2) holds_cong [OF h]]) (simp add: MQ8 mat_vec_def rl)
    note y = y(1) this
    show ?thesis
      by (intro exI [of _ "A\<lparr>a_q8 := buf\<rparr>"] exI [of _ True] exI [of _ q8k_ready] exI [of _ y'])
        (use t y buf assms(8) MQ8 cols in \<open>auto simp: matmul_job_def Let_def ready_def acts_size_def\<close>)
  next
    case (MQ4K bs)
    obtain buf where buf: "(if q8k_ready then Ok (a_q8k A) else quantize_rows (quantize_q8k M) xs cols (cols div QK_K) batch (a_q8k A)) = (Ok buf :: (unit, _) outcome)"
        "length buf = length (a_q8k A)" "holds buf (cols div QK_K) batch (\<lambda>i. quant_q8k M (row_of xs cols i))"
      using fill_rows [OF assms(4) room(2), of q8k_ready "quant_q8k M" "quantize_q8k M :: f32 list \<Rightarrow> block_q8k list \<Rightarrow> (unit, block_q8k list) outcome"] assms(2,8) MQ4K by (auto simp: ready_def mat_ok_def quantize_Ok)
    note t = holds_take [OF buf(3), where 'e = unit]
    obtain y' where y: "matmul_q4k M y bs (sub buf 0 (batch * (cols div QK_K))) rows cols batch = (Ok y' :: (unit, _) outcome)" "length y' = batch * rows"
        and h: "holds y' rows batch (\<lambda>i. map (\<lambda>r. kernel_q4k M (row_of bs (cols div QK_K) r) (quant_q8k M (row_of xs cols i))) [0..<rows])"
      using matmul_q4k_rows [OF assms(1,3) _ _ conjunct2 [OF t], of bs] assms(2) MQ4K room(2) buf(2) by (auto simp: min_def)
    have "product_rows M xs cols batch w rows y'"
      by (rule conjI [OF y(2) holds_cong [OF h]]) (simp add: MQ4K mat_vec_def rl)
    note y = y(1) this
    show ?thesis
      by (intro exI [of _ "A\<lparr>a_q8k := buf\<rparr>"] exI [of _ q8_ready] exI [of _ True] exI [of _ y'])
        (use t y buf assms(8) MQ4K cols in \<open>auto simp: matmul_job_def Let_def ready_def acts_size_def\<close>)
  next
    case (MQ6K bs)
    obtain buf where buf: "(if q8k_ready then Ok (a_q8k A) else quantize_rows (quantize_q8k M) xs cols (cols div QK_K) batch (a_q8k A)) = (Ok buf :: (unit, _) outcome)"
        "length buf = length (a_q8k A)" "holds buf (cols div QK_K) batch (\<lambda>i. quant_q8k M (row_of xs cols i))"
      using fill_rows [OF assms(4) room(2), of q8k_ready "quant_q8k M" "quantize_q8k M :: f32 list \<Rightarrow> block_q8k list \<Rightarrow> (unit, block_q8k list) outcome"] assms(2,8) MQ6K by (auto simp: ready_def mat_ok_def quantize_Ok)
    note t = holds_take [OF buf(3), where 'e = unit]
    obtain y' where y: "matmul_q6k M y bs (sub buf 0 (batch * (cols div QK_K))) rows cols batch = (Ok y' :: (unit, _) outcome)" "length y' = batch * rows"
        and h: "holds y' rows batch (\<lambda>i. map (\<lambda>r. kernel_q6k M (row_of bs (cols div QK_K) r) (quant_q8k M (row_of xs cols i))) [0..<rows])"
      using matmul_q6k_rows [OF assms(1,3) _ _ conjunct2 [OF t], of bs] assms(2) MQ6K room(2) buf(2) by (auto simp: min_def)
    have "product_rows M xs cols batch w rows y'"
      by (rule conjI [OF y(2) holds_cong [OF h]]) (simp add: MQ6K mat_vec_def rl)
    note y = y(1) this
    show ?thesis
      by (intro exI [of _ "A\<lparr>a_q8k := buf\<rparr>"] exI [of _ q8_ready] exI [of _ True] exI [of _ y'])
        (use t y buf assms(8) MQ6K cols in \<open>auto simp: matmul_job_def Let_def ready_def acts_size_def\<close>)
  qed
qed

lemma matmul_group_Ok:
  assumes "sched_ok M" and "length xs = batch * cols" and "0 < batch" and "batch \<le> MAX_BATCH" and "acts_room A cols"
    and "\<forall>(y, w) \<in> set jobs. length y mod batch = 0 \<and> mat_ok w (length y div batch) cols"
  shows "\<exists>A' ys. acts_matmul_group M A jobs xs batch = (Ok (A', ys) :: (unit, _) outcome) \<and> acts_size A' = acts_size A
     \<and> list_all2 (\<lambda>(y, w) y'. product_rows M xs cols batch w (length y div batch) y') jobs ys"
proof -
  have "\<exists>A' f8 fk zs. ofold (matmul_job M xs batch) (A, q8_ready, q8k_ready, ys) jobs = (Ok (A', f8, fk, ys @ zs) :: (unit, _) outcome)
      \<and> acts_size A' = acts_size A \<and> list_all2 (\<lambda>(y, w) y'. product_rows M xs cols batch w (length y div batch) y') jobs zs"
    if "ready M xs cols batch A q8_ready q8k_ready" "acts_room A cols" for A q8_ready q8k_ready ys
    using assms(6) that
  proof (induction jobs arbitrary: A q8_ready q8k_ready ys)
    case (Cons job jobs)
    obtain y w where job: "job = (y, w)" by (cases job)
    with Cons.prems have ok: "length y = batch * (length y div batch)" "mat_ok w (length y div batch) cols"
      using mult_div_mod_eq [of batch "length y"] by auto
    obtain A1 f8 fk y1 where 1: "matmul_job M xs batch (A, q8_ready, q8k_ready, ys) (y, w) = (Ok (A1, f8, fk, ys @ [y1]) :: (unit, _) outcome)"
        "ready M xs cols batch A1 f8 fk" "acts_size A1 = acts_size A" "product_rows M xs cols batch w (length y div batch) y1"
      using matmul_job_Ok [OF assms(1) ok(2,1) assms(2-4) Cons.prems(3,2), of ys] by blast
    have "acts_room A1 cols" using Cons.prems(3) acts_room_size [OF 1(3)] by simp
    then obtain A2 g8 gk zs where 2: "ofold (matmul_job M xs batch) (A1, f8, fk, ys @ [y1]) jobs = (Ok (A2, g8, gk, (ys @ [y1]) @ zs) :: (unit, _) outcome)"
        "acts_size A2 = acts_size A1" "list_all2 (\<lambda>(y, w) y'. product_rows M xs cols batch w (length y div batch) y') jobs zs"
      using Cons.IH [of A1 f8 fk "ys @ [y1]"] Cons.prems(1) 1(2) by auto
    have "ofold (matmul_job M xs batch) (A, q8_ready, q8k_ready, ys) (job # jobs) = (Ok (A2, g8, gk, ys @ y1 # zs) :: (unit, _) outcome)"
      using 2(1) by (simp add: job 1(1))
    then show ?case using 1(3,4) 2(2,3) job
      by (intro exI [of _ A2] exI [of _ g8] exI [of _ gk] exI [of _ "y1 # zs"]) simp
  qed simp
  from this [of A False False "[]"] show ?thesis using assms(3,5) by (fastforce simp: acts_matmul_group_def ready_def)
qed

lemma acts_matmul_Ok:
  assumes "sched_ok M" and "mat_ok w rows cols" and "length y = batch * rows" and "length xs = batch * cols"
    and "0 < batch" and "batch \<le> MAX_BATCH" and "acts_room A cols"
  shows "\<exists>A' y'. acts_matmul M A y w xs batch = (Ok (A', y') :: (unit, _) outcome) \<and> acts_size A' = acts_size A
     \<and> product_rows M xs cols batch w rows y'"
proof -
  have cols: "length xs div batch = cols" "length y div batch = rows" using assms(3-5) by simp_all
  have room: "batch * (cols div QK8_0) \<le> length (a_q8 A)" "batch * (cols div QK_K) \<le> length (a_q8k A)"
    using acts_room_batch [OF assms(7,6)] by simp_all
  have rl: "length (row_of xs cols i) = cols" if "i < batch" for i using length_row [OF that, of cols xs] assms(4) by simp
  show ?thesis
  proof (cases w)
    case (MQ8 bs)
    have "\<exists>buf. quantize_rows (quantize_q8 M) xs cols (cols div QK8_0) batch (sub (a_q8 A) 0 (batch * (cols div QK8_0))) = (Ok buf :: (unit, _) outcome)
        \<and> length buf = batch * (cols div QK8_0) \<and> holds buf (cols div QK8_0) batch (\<lambda>i. quant_q8 M (row_of xs cols i))"
      using quantize_rows_Ok [OF assms(4), of "cols div QK8_0" "sub (a_q8 A) 0 (batch * (cols div QK8_0))"
          "quantize_q8 M :: f32 list \<Rightarrow> block_q8_0 list \<Rightarrow> (unit, block_q8_0 list) outcome" "quant_q8 M"] assms(2) MQ8 room(1)
      by (auto simp: mat_ok_def quantize_Ok min_def)
    then obtain buf where buf: "quantize_rows (quantize_q8 M) xs cols (cols div QK8_0) batch (sub (a_q8 A) 0 (batch * (cols div QK8_0))) = (Ok buf :: (unit, _) outcome)"
        "length buf = batch * (cols div QK8_0)" "holds buf (cols div QK8_0) batch (\<lambda>i. quant_q8 M (row_of xs cols i))" by blast
    obtain y' where y: "matmul_q8 M y bs buf rows cols batch = (Ok y' :: (unit, _) outcome)" "length y' = batch * rows"
        and h: "holds y' rows batch (\<lambda>i. map (\<lambda>r. kernel_q8 M (row_of bs (cols div QK8_0) r) (quant_q8 M (row_of xs cols i))) [0..<rows])"
      using matmul_q8_rows [OF assms(1,3) buf(2) _ buf(3)] assms(2) MQ8 by auto
    have "product_rows M xs cols batch w rows y'" by (rule conjI [OF y(2) holds_cong [OF h]]) (simp add: MQ8 mat_vec_def rl)
    then show ?thesis using y(1) buf room assms(5) MQ8 cols by (auto simp: acts_matmul_def Let_def acts_size_def)
  next
    case (MQ4K bs)
    have "\<exists>buf. quantize_rows (quantize_q8k M) xs cols (cols div QK_K) batch (sub (a_q8k A) 0 (batch * (cols div QK_K))) = (Ok buf :: (unit, _) outcome)
        \<and> length buf = batch * (cols div QK_K) \<and> holds buf (cols div QK_K) batch (\<lambda>i. quant_q8k M (row_of xs cols i))"
      using quantize_rows_Ok [OF assms(4), of "cols div QK_K" "sub (a_q8k A) 0 (batch * (cols div QK_K))"
          "quantize_q8k M :: f32 list \<Rightarrow> block_q8k list \<Rightarrow> (unit, block_q8k list) outcome" "quant_q8k M"] assms(2) MQ4K room(2)
      by (auto simp: mat_ok_def quantize_Ok min_def)
    then obtain buf where buf: "quantize_rows (quantize_q8k M) xs cols (cols div QK_K) batch (sub (a_q8k A) 0 (batch * (cols div QK_K))) = (Ok buf :: (unit, _) outcome)"
        "length buf = batch * (cols div QK_K)" "holds buf (cols div QK_K) batch (\<lambda>i. quant_q8k M (row_of xs cols i))" by blast
    obtain y' where y: "matmul_q4k M y bs buf rows cols batch = (Ok y' :: (unit, _) outcome)" "length y' = batch * rows"
        and h: "holds y' rows batch (\<lambda>i. map (\<lambda>r. kernel_q4k M (row_of bs (cols div QK_K) r) (quant_q8k M (row_of xs cols i))) [0..<rows])"
      using matmul_q4k_rows [OF assms(1,3) buf(2) _ buf(3)] assms(2) MQ4K by auto
    have "product_rows M xs cols batch w rows y'" by (rule conjI [OF y(2) holds_cong [OF h]]) (simp add: MQ4K mat_vec_def rl)
    then show ?thesis using y(1) buf room assms(5) MQ4K cols by (auto simp: acts_matmul_def Let_def acts_size_def)
  next
    case (MQ6K bs)
    have "\<exists>buf. quantize_rows (quantize_q8k M) xs cols (cols div QK_K) batch (sub (a_q8k A) 0 (batch * (cols div QK_K))) = (Ok buf :: (unit, _) outcome)
        \<and> length buf = batch * (cols div QK_K) \<and> holds buf (cols div QK_K) batch (\<lambda>i. quant_q8k M (row_of xs cols i))"
      using quantize_rows_Ok [OF assms(4), of "cols div QK_K" "sub (a_q8k A) 0 (batch * (cols div QK_K))"
          "quantize_q8k M :: f32 list \<Rightarrow> block_q8k list \<Rightarrow> (unit, block_q8k list) outcome" "quant_q8k M"] assms(2) MQ6K room(2)
      by (auto simp: mat_ok_def quantize_Ok min_def)
    then obtain buf where buf: "quantize_rows (quantize_q8k M) xs cols (cols div QK_K) batch (sub (a_q8k A) 0 (batch * (cols div QK_K))) = (Ok buf :: (unit, _) outcome)"
        "length buf = batch * (cols div QK_K)" "holds buf (cols div QK_K) batch (\<lambda>i. quant_q8k M (row_of xs cols i))" by blast
    obtain y' where y: "matmul_q6k M y bs buf rows cols batch = (Ok y' :: (unit, _) outcome)" "length y' = batch * rows"
        and h: "holds y' rows batch (\<lambda>i. map (\<lambda>r. kernel_q6k M (row_of bs (cols div QK_K) r) (quant_q8k M (row_of xs cols i))) [0..<rows])"
      using matmul_q6k_rows [OF assms(1,3) buf(2) _ buf(3)] assms(2) MQ6K by auto
    have "product_rows M xs cols batch w rows y'" by (rule conjI [OF y(2) holds_cong [OF h]]) (simp add: MQ6K mat_vec_def rl)
    then show ?thesis using y(1) buf room assms(5) MQ6K cols by (auto simp: acts_matmul_def Let_def acts_size_def)
  qed
qed

text \<open>A group of products of one vector.\<close>

definition ready_one :: "'z machine_scheme \<Rightarrow> f32 list \<Rightarrow> acts \<Rightarrow> bool \<Rightarrow> bool \<Rightarrow> bool" where
  "ready_one M x A q8_ready q8k_ready \<longleftrightarrow>
     (q8_ready \<longrightarrow> sub (a_q8 A) 0 (length x div QK8_0) = quant_q8 M x)
     \<and> (q8k_ready \<longrightarrow> sub (a_q8k A) 0 (length x div QK_K) = quant_q8k M x)"

lemma sub_put_front: "length q = n \<Longrightarrow> n \<le> length buf \<Longrightarrow> sub (put_at buf 0 q) 0 n = q"
  by (rule sub_put_at_same) simp_all

lemma matvec_job_Ok:
  assumes "sched_ok M" and "mat_ok w (length y) (length x)" and "acts_room A (length x)" and "ready_one M x A q8_ready q8k_ready"
  shows "\<exists>A' q8_ready' q8k_ready'. matvec_job M x (A, q8_ready, q8k_ready, ys) (y, w)
       = (Ok (A', q8_ready', q8k_ready', ys @ [mat_vec M w (length y) x]) :: (unit, _) outcome)
     \<and> ready_one M x A' q8_ready' q8k_ready' \<and> acts_size A' = acts_size A"
proof -
  have r: "ranges_ok (length y) (m_sched M (length y))" using assms(1) by (simp add: sched_ok_def)
  show ?thesis using assms(2-4) acts_room_one [OF assms(3)]
    by (cases w) (auto simp: mat_ok_def matvec_job_def mat_vec_def Let_def quantize_Ok acts_size_def min_def ready_one_def sub_put_front
        matvec_q8_def matvec_q4k_def matvec_q6k_def matvec_Ok [OF r])
qed

lemma matvec_group_Ok:
  assumes "sched_ok M" and "acts_room A (length x)" and "\<forall>(y, w) \<in> set jobs. mat_ok w (length y) (length x)"
  shows "\<exists>A'. acts_matvec_group M A jobs x = (Ok (A', map (\<lambda>(y, w). mat_vec M w (length y) x) jobs) :: (unit, _) outcome) \<and> acts_size A' = acts_size A"
proof -
  have "\<exists>A' f8 fk. ofold (matvec_job M x) (A, q8_ready, q8k_ready, ys) jobs
        = (Ok (A', f8, fk, ys @ map (\<lambda>(y, w). mat_vec M w (length y) x) jobs) :: (unit, _) outcome) \<and> acts_size A' = acts_size A"
    if "ready_one M x A q8_ready q8k_ready" "acts_room A (length x)" for A q8_ready q8k_ready ys
    using assms(3) that
  proof (induction jobs arbitrary: A q8_ready q8k_ready ys)
    case (Cons job jobs)
    obtain y w where job: "job = (y, w)" by (cases job)
    obtain A1 f8 fk where 1: "matvec_job M x (A, q8_ready, q8k_ready, ys) (y, w) = (Ok (A1, f8, fk, ys @ [mat_vec M w (length y) x]) :: (unit, _) outcome)"
        "ready_one M x A1 f8 fk" "acts_size A1 = acts_size A"
      using matvec_job_Ok [OF assms(1) _ Cons.prems(3,2), of w y ys] Cons.prems(1) job by auto
    have "acts_room A1 (length x)" using Cons.prems(3) acts_room_size [OF 1(3)] by simp
    then obtain A2 g8 gk where 2: "ofold (matvec_job M x) (A1, f8, fk, ys @ [mat_vec M w (length y) x]) jobs
          = (Ok (A2, g8, gk, (ys @ [mat_vec M w (length y) x]) @ map (\<lambda>(y, w). mat_vec M w (length y) x) jobs) :: (unit, _) outcome)"
        "acts_size A2 = acts_size A1"
      using Cons.IH [of A1 f8 fk "ys @ [mat_vec M w (length y) x]"] Cons.prems(1) 1(2) by auto
    show ?case using 1(1,3) 2 job by (intro exI [of _ A2] exI [of _ g8] exI [of _ gk]) simp
  qed simp
  from this [of A False False "[]"] show ?thesis using assms(2) by (fastforce simp: acts_matvec_group_def ready_one_def)
qed

end
