(* ===== verification/Nr_Layer.thy ===== *)
theory Nr_Layer
  imports Nr_Products
begin

text \<open>
  The value of one transformer layer of \<^verbatim>\<open>crates/nr-model/src/infer.rs\<close> as a pure function of the token's
  activations, its position and the cache rows it can see; the operations of the forward pass on
  well-formed buffers compute its parts and never panic.
\<close>

subsection \<open>Total operations\<close>

primrec ok_val :: "(unit, 'a) outcome \<Rightarrow> 'a" where
  "ok_val (Ok x) = x"

lemma ofold_total:
  assumes "\<And>s x. P s \<Longrightarrow> x \<in> set xs \<Longrightarrow> \<exists>s'. f s x = Ok s' \<and> P s'" and "P s"
  shows "\<exists>s'. ofold f s xs = Ok s' \<and> P s'"
  using assms
proof (induction xs arbitrary: s)
  case (Cons x xs)
  obtain s1 where "f s x = Ok s1" "P s1" using Cons.prems(1) [OF Cons.prems(2), of x] by auto
  then show ?case using Cons by simp
qed simp

lemma ofold_map: "ofold f s (map g xs) = ofold (\<lambda>s x. f s (g x)) s xs"
  by (induction xs arbitrary: s) simp_all

lemma length_zip_update [simp]: "length (zip_update f xs ws) = length xs"
  by (simp add: zip_update_def)

lemma infer_lengths [simp]: "length (saxpy M y a x) = length y" "length (swiglu M g u) = length g" "length (scale_inplace M x c) = length x"
  "length (softmax M x) = length x" "length (rmsnorm_inplace M x w eps) = length x"
  by (simp_all add: saxpy_def swiglu_def scale_inplace_def softmax_def Let_def rmsnorm_inplace_def)

definition norm_vec :: "'z fpu_scheme \<Rightarrow> f32 list \<Rightarrow> f32 list \<Rightarrow> f32 \<Rightarrow> f32 list" where
  "norm_vec F x w eps = map (\<lambda>i. fmul F (fmul F (x ! i) (rms_scale F x eps)) (w ! i)) [0..<length x]"

lemma length_norm_vec [simp]: "length (norm_vec F x w eps) = length x"
  by (simp add: norm_vec_def)

lemma rmsnorm_Ok: "length out = length x \<Longrightarrow> length w = length x \<Longrightarrow> rmsnorm F out x w eps = Ok (norm_vec F x w eps)"
  unfolding rmsnorm_def Let_def norm_vec_def
  by (subst ofold_fill [where v = "\<lambda>i. fmul F (fmul F (x ! i) (rms_scale F x eps)) (w ! i)"]) simp_all

lemma each_chunk_total:
  assumes "\<And>c. length c = n \<Longrightarrow> \<exists>c'. f c = Ok c' \<and> length c' = n" and "\<forall>c \<in> set cs. length c = n"
  shows "\<exists>ys. each_chunk f cs = Ok ys \<and> length ys = length (concat cs)"
  using assms(2)
proof (induction cs)
  case (Cons c cs)
  then obtain c' ys where "f c = Ok c'" "length c' = n" "each_chunk f cs = Ok ys" "length ys = length (concat cs)" using assms(1) [of c] by auto
  then show ?case using Cons.prems by simp
qed simp

lemma for_chunks_total:
  assumes "0 < n" and "\<And>c. length c = n \<Longrightarrow> \<exists>c'. f c = Ok c' \<and> length c' = n"
  shows "\<exists>ys. for_chunks_exact n f xs = Ok ys \<and> length ys = length xs"
proof -
  obtain ys where "each_chunk f (chunks_exact n xs) = Ok ys" "length ys = length (concat (chunks_exact n xs))"
    using each_chunk_total [of n f "chunks_exact n xs", OF assms(2)] chunks_exact_length by auto
  then show ?thesis using assms(1) arg_cong [OF chunks_exact_concat [OF assms(1), of xs], of length] by (simp add: for_chunks_exact_def)
qed

lemma rope_apply_total:
  assumes "0 < n" and "n div 2 \<le> length freqs"
  shows "\<exists>ys. rope_apply M x n freqs pos style = (Ok ys :: ('e, _) outcome) \<and> length ys = length x"
  unfolding rope_apply_def
proof (rule for_chunks_total [OF assms(1)])
  fix c :: "f32 list"
  assume c: "length c = n"
  show "\<exists>c'. rotate_head M n freqs pos style c = (Ok c' :: ('e, _) outcome) \<and> length c' = n"
    unfolding rotate_head_def
  proof (rule ofold_total)
    fix s :: "f32 list" and i
    assume "length s = n" "i \<in> set [0..<n div 2]"
    moreover from this have "2 * i + 1 < n" "i + n div 2 < n" "i < length freqs" using assms(2) by auto
    ultimately show "\<exists>s'. rotate_pair M (n div 2) freqs pos style s i = Ok s' \<and> length s' = n"
      by (cases style) (auto simp: rotate_pair_def Let_def)
  qed (rule c)
qed

lemma rotate_qk_total:
  assumes "0 < dm_head (c_dims C)" and "dm_head (c_dims C) div 2 \<le> length (c_freqs C)"
  shows "\<exists>q' k'. rotate_qk M C w pos q k = (Ok (q', k') :: ('e, _) outcome) \<and> length q' = length q \<and> length k' = length k"
proof -
  have rope_pair: "\<exists>q' k'. obind (rope_apply M q (dm_head (c_dims C)) (c_freqs C) pos (c_rope_style C)) (\<lambda>q.
      obind (rope_apply M k (dm_head (c_dims C)) (c_freqs C) pos (c_rope_style C)) (\<lambda>k. Ok (q, k))) = (Ok (q', k') :: ('e, _) outcome)
      \<and> length q' = length q \<and> length k' = length k" for q k
    using rope_apply_total [OF assms, of M q pos "c_rope_style C", where 'e = 'e] rope_apply_total [OF assms, of M k pos "c_rope_style C", where 'e = 'e]
    by auto
  show ?thesis
proof (cases "lw_q_norm w"; cases "lw_k_norm w")
  fix qn kn
  assume norms: "lw_q_norm w = Some qn" "lw_k_norm w = Some kn"
  obtain q1 where q1: "for_chunks_exact (dm_head (c_dims C)) (\<lambda>h. Ok (rmsnorm_inplace M h qn (c_norm_eps C))) q = (Ok q1 :: ('e, _) outcome)" "length q1 = length q"
    using for_chunks_total [OF assms(1), of "\<lambda>h. Ok (rmsnorm_inplace M h qn (c_norm_eps C)) :: ('e, _) outcome" q] by auto
  obtain k1 where k1: "for_chunks_exact (dm_head (c_dims C)) (\<lambda>h. Ok (rmsnorm_inplace M h kn (c_norm_eps C))) k = (Ok k1 :: ('e, _) outcome)" "length k1 = length k"
    using for_chunks_total [OF assms(1), of "\<lambda>h. Ok (rmsnorm_inplace M h kn (c_norm_eps C)) :: ('e, _) outcome" k] by auto
  show ?thesis using rope_pair [of q1 k1] by (simp add: rotate_qk_def Let_def norms q1 k1)
qed (use rope_pair [of q k] in \<open>simp_all add: rotate_qk_def Let_def\<close>)
qed

subsection \<open>Embedding\<close>

lemma length_dequant:
  "wf_q4k b \<Longrightarrow> length (concat (map (dequant_q4k_chunk F b) [0..<4])) = QK_K"
  "length (concat (map (dequant_q6k_half F b6) [0..<2])) = QK_K"
  by (simp_all add: length_concat comp_def dequant_q4k_chunk_def dequant_q6k_half_def Let_def split_def wf_q4k_def QK_K_def upt_conv_Cons)

lemma length_concat_const: "(\<And>x. x \<in> set xs \<Longrightarrow> length (f x) = n) \<Longrightarrow> length (concat (map f xs)) = length xs * n"
  by (induction xs) auto

lemma dequant_blocks_Ok:
  assumes "length out = length bs * QK_K" and "\<And>b o1. b \<in> set bs \<Longrightarrow> length o1 = QK_K \<Longrightarrow> deq b o1 = Ok (g b)" and "\<And>b. b \<in> set bs \<Longrightarrow> length (g b) = QK_K"
  shows "dequant_blocks deq bs out = Ok (concat (map g bs))"
proof -
  have e: "enumerate 0 bs = map (\<lambda>i. (i, bs ! i)) [0..<length bs]" by (rule nth_equalityI) (simp_all add: nth_enumerate_eq)
  have "dequant_blocks deq bs out = each_row QK_K (length bs) (\<lambda>i. deq (bs ! i)) out"
    by (simp add: dequant_blocks_def each_row_def e ofold_map)
  moreover have "\<exists>buf. each_row QK_K (length bs) (\<lambda>i. deq (bs ! i)) out = Ok buf \<and> length buf = length out \<and> holds buf QK_K (length bs) (\<lambda>i. g (bs ! i))"
    by (rule each_row_Ok) (use assms length_row [of _ "length bs" QK_K out] in auto)
  ultimately obtain buf where b: "dequant_blocks deq bs out = Ok buf" "length buf = length out" "holds buf QK_K (length bs) (\<lambda>i. g (bs ! i))" by auto
  have "row_of buf (length bs * QK_K) 0 = concat (map (\<lambda>h. row_of buf QK_K (0 * length bs + h)) [0..<length bs])"
    by (rule row_of_rows) (simp add: b(2) assms(1))
  also have "\<dots> = concat (map (\<lambda>h. g (bs ! h)) [0..<length bs])" using b(3) by (auto simp: holds_def intro!: arg_cong [where f = concat])
  also have "map (\<lambda>h. g (bs ! h)) [0..<length bs] = map g bs" by (rule nth_equalityI) simp_all
  finally show ?thesis using b(1,2) assms(1) sub_zero_length [of buf] by (simp add: row_of_def)
qed

definition embed :: "'z machine_scheme \<Rightarrow> cfg \<Rightarrow> u32 \<Rightarrow> f32 list" where
  "embed M C t = ok_val (embed_token M C t (replicate (dm_dim (c_dims C)) 0))"

lemma dequant_row_Ok:
  assumes "mat_ok w rows cols" and "r < rows"
  shows "\<exists>x. length x = cols \<and> (\<forall>out. length out = cols \<longrightarrow> dequant_row M w r cols out = (Ok x :: (unit, _) outcome))"
proof (cases w)
  case (MQ8 bs)
  let ?row = "row_of bs (cols div QK8_0) r"
  have l: "length bs = rows * (cols div QK8_0)" "cols = cols div QK8_0 * QK8_0" using assms(1) MQ8 by (auto simp: mat_ok_def)
  have row: "length ?row = cols div QK8_0" "set ?row \<subseteq> set bs" using length_row [OF assms(2), of "cols div QK8_0" bs] l
    by (auto simp: row_of_def sub_def dest: in_set_takeD in_set_dropD)
  have "length (concat (map (dequantize_q8_block M) ?row)) = length ?row * QK8_0"
    by (rule length_concat_const) (use row(2) assms(1) MQ8 in \<open>auto simp: dequantize_q8_block_def mat_ok_def\<close>)
  then have "length (concat (map (dequantize_q8_block M) ?row)) = cols" using l(2) row(1) by simp
  moreover have "slice bs (r * (cols div QK8_0)) ((r + 1) * (cols div QK8_0)) = (Ok ?row :: (unit, _) outcome)" by (rule slice_row [OF assms(2)]) (simp add: l(1))
  ultimately show ?thesis using MQ8 l row(1)
    by (intro exI [of _ "concat (map (dequantize_q8_block M) ?row)"]) (auto simp: dequant_row_def Let_def dequantize_q8_def)
next
  case (MQ4K bs)
  let ?row = "row_of bs (cols div QK_K) r" let ?g = "\<lambda>b. concat (map (dequant_q4k_chunk M b) [0..<4])"
  have l: "length bs = rows * (cols div QK_K)" "cols = cols div QK_K * QK_K" using assms(1) MQ4K by (auto simp: mat_ok_def)
  have row: "length ?row = cols div QK_K" "set ?row \<subseteq> set bs" using length_row [OF assms(2), of "cols div QK_K" bs] l
    by (auto simp: row_of_def sub_def dest: in_set_takeD in_set_dropD)
  have wf: "wf_q4k b" if "b \<in> set ?row" for b using row(2) that assms(1) MQ4K by (auto simp: mat_ok_def)
  have g: "length (?g b) = QK_K" if "b \<in> set ?row" for b by (rule length_dequant(1) [OF wf [OF that]])
  have "length (concat (map ?g ?row)) = cols" using length_concat_const [of ?row ?g, OF g] l(2) row(1) by simp
  moreover have "dequant_blocks (dequant_q4k M) ?row out = (Ok (concat (map ?g ?row)) :: (unit, _) outcome)" if "length out = cols" for out
    by (rule dequant_blocks_Ok) (use that l(2) row(1) g in \<open>simp_all add: dequant_q4k_def\<close>)
  moreover have "slice bs (r * (cols div QK_K)) ((r + 1) * (cols div QK_K)) = (Ok ?row :: (unit, _) outcome)" by (rule slice_row [OF assms(2)]) (simp add: l(1))
  ultimately show ?thesis using MQ4K l row(1)
    by (intro exI [of _ "concat (map ?g ?row)"]) (auto simp: dequant_row_def Let_def)
next
  case (MQ6K bs)
  let ?row = "row_of bs (cols div QK_K) r" let ?g = "\<lambda>b. concat (map (dequant_q6k_half M b) [0..<2])"
  have l: "length bs = rows * (cols div QK_K)" "cols = cols div QK_K * QK_K" using assms(1) MQ6K by (auto simp: mat_ok_def)
  have row: "length ?row = cols div QK_K" using length_row [OF assms(2), of "cols div QK_K" bs] l by simp
  have "length (concat (map ?g ?row)) = cols" using length_concat_const [of ?row ?g, OF length_dequant(2)] l(2) row by simp
  moreover have "dequant_blocks (dequant_q6k M) ?row out = (Ok (concat (map ?g ?row)) :: (unit, _) outcome)" if "length out = cols" for out
    by (rule dequant_blocks_Ok) (use that l(2) row length_dequant(2) in \<open>simp_all add: dequant_q6k_def del: length_concat\<close>)
  moreover have "slice bs (r * (cols div QK_K)) ((r + 1) * (cols div QK_K)) = (Ok ?row :: (unit, _) outcome)" by (rule slice_row [OF assms(2)]) (simp add: l(1))
  ultimately show ?thesis using MQ6K l row
    by (intro exI [of _ "concat (map ?g ?row)"]) (auto simp: dequant_row_def Let_def)
qed

lemma embed_token_Ok:
  assumes "mat_ok (ws_embed (c_weights C)) rows (dm_dim (c_dims C))" and "unat t < rows" and "length x = dm_dim (c_dims C)"
  shows "embed_token M C t x = (Ok (embed M C t) :: (unit, _) outcome) \<and> length (embed M C t) = dm_dim (c_dims C)"
proof -
  obtain y where "length y = dm_dim (c_dims C)"
      "\<forall>out. length out = dm_dim (c_dims C) \<longrightarrow> dequant_row M (ws_embed (c_weights C)) (unat t) (dm_dim (c_dims C)) out = (Ok y :: (unit, _) outcome)"
    using dequant_row_Ok [OF assms(1,2)] by blast
  then show ?thesis using assms(3) by (simp add: embed_def embed_token_def)
qed

subsection \<open>The caches\<close>

lemma put_at_snoc: "off + length ys < length xs \<Longrightarrow> (put_at xs off ys)[off + length ys := y] = put_at xs off (ys @ [y])"
  by (rule nth_equalityI) (auto simp: nth_put_at nth_list_update nth_append)

lemma put_at_Nil [simp]: "put_at xs off [] = xs"
  by (simp add: put_at_def)

lemma append_kv_Ok:
  assumes "(l * dm_ctx d + pos) * dm_kv d + dm_kv d \<le> length kc" and "(l * dm_ctx d + pos) * dm_kv d + dm_kv d \<le> length vc"
    and "length k = dm_kv d" and "voff + dm_kv d \<le> length v"
  shows "append_kv d l pos k v voff (kc, vc) = (Ok (put_at kc ((l * dm_ctx d + pos) * dm_kv d) (map f32_to_f16 k),
     put_at vc ((l * dm_ctx d + pos) * dm_kv d) (map f32_to_f16 (sub v voff (voff + dm_kv d)))) :: (unit, _) outcome)"
proof -
  let ?row = "(l * dm_ctx d + pos) * dm_kv d"
  let ?body = "\<lambda>(kc, vc) j. obind (index k j) (\<lambda>kj. obind (set_at kc (?row + j) (f32_to_f16 kj)) (\<lambda>kc.
        obind (index v (voff + j)) (\<lambda>vj. obind (set_at vc (?row + j) (f32_to_f16 vj)) (\<lambda>vc. Ok (kc, vc) :: (unit, _) outcome))))"
  have "ofold ?body (kc, vc) [0..<c] = Ok (put_at kc ?row (map (\<lambda>j. f32_to_f16 (k ! j)) [0..<c]), put_at vc ?row (map (\<lambda>j. f32_to_f16 (v ! (voff + j))) [0..<c]))"
    if "c \<le> dm_kv d" for c
    using that
  proof (induction c)
    case (Suc c)
    have "(put_at kc ?row (map (\<lambda>j. f32_to_f16 (k ! j)) [0..<c]))[?row + c := f32_to_f16 (k ! c)] = put_at kc ?row (map (\<lambda>j. f32_to_f16 (k ! j)) [0..<Suc c])"
      using put_at_snoc [of ?row "map (\<lambda>j. f32_to_f16 (k ! j)) [0..<c]" kc "f32_to_f16 (k ! c)"] Suc.prems assms(1) by simp
    moreover have "(put_at vc ?row (map (\<lambda>j. f32_to_f16 (v ! (voff + j))) [0..<c]))[?row + c := f32_to_f16 (v ! (voff + c))] = put_at vc ?row (map (\<lambda>j. f32_to_f16 (v ! (voff + j))) [0..<Suc c])"
      using put_at_snoc [of ?row "map (\<lambda>j. f32_to_f16 (v ! (voff + j))) [0..<c]" vc "f32_to_f16 (v ! (voff + c))"] Suc.prems assms(2) by simp
    ultimately show ?case using Suc assms by (simp add: ofold_append)
  qed simp
  moreover have "map (\<lambda>j. f32_to_f16 (k ! j)) [0..<dm_kv d] = map f32_to_f16 k" by (rule nth_equalityI) (simp_all add: assms(3))
  moreover have "map (\<lambda>j. f32_to_f16 (v ! (voff + j))) [0..<dm_kv d] = map f32_to_f16 (sub v voff (voff + dm_kv d))"
    by (rule nth_equalityI) (use assms(4) in \<open>simp_all\<close>)
  ultimately show ?thesis by (simp add: append_kv_def Let_def)
qed

subsection \<open>Attention\<close>

definition attn_head :: "'z machine_scheme \<Rightarrow> cfg \<Rightarrow> nat \<Rightarrow> (nat \<Rightarrow> f16 list) \<Rightarrow> (nat \<Rightarrow> f16 list) \<Rightarrow> f32 list \<Rightarrow> nat \<Rightarrow> f32 list" where
  "attn_head M C pos kr vr q h =
     (let d = c_dims C; hd = dm_head d; kvh = h div (dm_heads d div dm_kv_heads d) * hd;
          a = softmax M (map (\<lambda>t. fmul M (dot_f16 M (sub (kr t) kvh (kvh + hd)) (sub q (h * hd) ((h + 1) * hd))) (c_att_score_scale C)) [0..<pos + 1])
      in foldl (\<lambda>oh (t, av). axpy_f16 M oh av (sub (vr t) kvh (kvh + hd))) (replicate hd F_ZERO) (enumerate 0 a))"

definition attn :: "'z machine_scheme \<Rightarrow> cfg \<Rightarrow> nat \<Rightarrow> (nat \<Rightarrow> f16 list) \<Rightarrow> (nat \<Rightarrow> f16 list) \<Rightarrow> f32 list \<Rightarrow> f32 list" where
  "attn M C pos kr vr q = concat (map (attn_head M C pos kr vr q) [0..<dm_heads (c_dims C)])"

lemma attn_cong:
  assumes "\<And>t. t \<le> pos \<Longrightarrow> kr t = kr' t \<and> vr t = vr' t"
  shows "attn M C pos kr vr q = attn M C pos kr' vr' q"
proof -
  have "attn_head M C pos kr vr q h = attn_head M C pos kr' vr' q h" for h
    unfolding attn_head_def Let_def
    by (intro foldl_cong map_cong arg_cong [where f = "enumerate 0"] arg_cong [where f = "softmax M"] refl)
      (use assms in \<open>auto simp: in_set_enumerate_eq\<close>)
  then show ?thesis unfolding attn_def by (intro arg_cong [where f = concat] map_cong refl)
qed

lemma foldl_inv: "P s \<Longrightarrow> (\<And>s x. x \<in> set xs \<Longrightarrow> P s \<Longrightarrow> P (f s x)) \<Longrightarrow> P (foldl f s xs)"
  by (induction xs arbitrary: s) auto

lemma length_axpy [simp]: "length (axpy_f16 M out a v) = length out"
proof -
  have "length (axpy_f16_f16c M out a v) = length out"
    unfolding axpy_f16_f16c_def Let_def
    by (rule foldl_inv, rule foldl_inv [where P = "\<lambda>xs. length xs = length out"]) (auto simp: fmadd_ps_def)
  moreover have "length (neon_axpy_f16 M out a v) = length out"
    unfolding neon_axpy_f16_def Let_def
    by (rule foldl_inv, rule foldl_inv [where P = "\<lambda>xs. length xs = length out"]) (auto simp: vfmaq_f32_def)
  ultimately show ?thesis by (simp add: axpy_f16_def split: cpu_arch.split)
qed

lemma length_attn_head [simp]: "length (attn_head M C pos kr vr q h) = dm_head (c_dims C)"
  unfolding attn_head_def Let_def by (rule foldl_inv [where P = "\<lambda>xs. length xs = dm_head (c_dims C)"]) auto

lemma length_attn: "length (attn M C pos kr vr q) = dm_heads (c_dims C) * dm_head (c_dims C)"
  using length_concat_const [of "[0..<dm_heads (c_dims C)]" "attn_head M C pos kr vr q" "dm_head (c_dims C)"] by (simp add: attn_def)

definition dims_ok :: "dims \<Rightarrow> bool" where
  "dims_ok d \<longleftrightarrow> 0 < dm_head d \<and> dm_att d = dm_heads d * dm_head d \<and> 0 < dm_kv_heads d \<and> dm_kv_heads d dvd dm_heads d
     \<and> dm_kv d = dm_kv_heads d * dm_head d"

lemma kv_head_bound:
  assumes "dims_ok d" and "h < dm_heads d"
  shows "0 < dm_heads d div dm_kv_heads d" "h div (dm_heads d div dm_kv_heads d) * dm_head d + dm_head d \<le> dm_kv d"
proof -
  obtain g where g: "dm_heads d = dm_kv_heads d * g" using assms(1) by (auto simp: dims_ok_def)
  have kv: "0 < dm_kv_heads d" using assms(1) by (simp add: dims_ok_def)
  then show "0 < dm_heads d div dm_kv_heads d" using g assms(2) by (cases "g = 0") auto
  have "h div g < dm_kv_heads d" using assms(2) g by (simp add: less_mult_imp_div_less)
  then have "(h div g + 1) * dm_head d \<le> dm_kv_heads d * dm_head d" by (intro mult_right_mono) simp_all
  then show "h div (dm_heads d div dm_kv_heads d) * dm_head d + dm_head d \<le> dm_kv d" using assms(1) g kv by (simp add: dims_ok_def)
qed

lemma cache_slice:
  assumes "l < layers" and "t < ctx" and "length kc = layers * ctx * kv" and "a + n \<le> kv"
  shows "slice kc ((l * ctx + t) * kv + a) ((l * ctx + t) * kv + a + n) = (Ok (sub (row_of kc kv (l * ctx + t)) a (a + n)) :: (unit, _) outcome)"
proof -
  have "l * ctx + t < layers * ctx" by (rule cell_index [OF assms(1,2)])
  then have "(l * ctx + t) * kv + kv \<le> length kc" using row_bounds [of "l * ctx + t" "layers * ctx" kv] assms(3) by simp
  then show ?thesis using assms(4) by (simp add: row_of_def sub_sub algebra_simps)
qed

lemma attend_head_Ok:
  assumes d: "d = c_dims C" "dims_ok d" and h: "h < dm_heads d" and l: "l < dm_layers d" "pos < dm_ctx d"
    and kc: "length kc = dm_layers d * dm_ctx d * dm_kv d" and vc: "length vc = dm_layers d * dm_ctx d * dm_kv d"
    and q: "off + dm_att d \<le> length q" and out: "off + dm_att d \<le> length out" and att: "length att = dm_heads d * dm_ctx d"
  shows "\<exists>att'. attend_head M C l pos kc vc q off (att, out) h = (Ok (att', put_at out (off + h * dm_head d)
      (attn_head M C pos (\<lambda>t. row_of kc (dm_kv d) (l * dm_ctx d + t)) (\<lambda>t. row_of vc (dm_kv d) (l * dm_ctx d + t)) (sub q off (off + dm_att d)) h)) :: (unit, _) outcome)
     \<and> length att' = length att"
proof -
  let ?hd = "dm_head d" let ?kvh = "h div (dm_heads d div dm_kv_heads d) * dm_head d"
  let ?kr = "\<lambda>t. row_of kc (dm_kv d) (l * dm_ctx d + t)" let ?vr = "\<lambda>t. row_of vc (dm_kv d) (l * dm_ctx d + t)"
  let ?qh = "sub (sub q off (off + dm_att d)) (h * ?hd) ((h + 1) * ?hd)"
  have g: "dm_kv_heads d \<noteq> 0" "dm_heads d div dm_kv_heads d \<noteq> 0" "?kvh + ?hd \<le> dm_kv d"
    using kv_head_bound [OF d(2) h] d(2) by (auto simp: dims_ok_def)
  have hb: "h * ?hd + ?hd \<le> dm_att d" using row_bounds [OF h, of ?hd] d(2) by (simp add: dims_ok_def)
  have ab: "h * dm_ctx d + dm_ctx d \<le> length att" using row_bounds [OF h, of "dm_ctx d"] att by simp
  have qh: "slice q (off + h * ?hd) (off + (h + 1) * ?hd) = (Ok ?qh :: (unit, _) outcome)" using hb q by (simp add: sub_sub algebra_simps)
  let ?s = "map (\<lambda>t. fmul M (dot_f16 M (sub (?kr t) ?kvh (?kvh + ?hd)) ?qh) (c_att_score_scale C)) [0..<pos + 1]"
  have scores: "omap (\<lambda>t. let krow = (l * dm_ctx d + t) * dm_kv d + ?kvh in
      obind (slice kc krow (krow + ?hd)) (\<lambda>kr. Ok (fmul M (dot_f16 M kr ?qh) (c_att_score_scale C)))) [0..<pos + 1] = (Ok ?s :: (unit, _) outcome)"
  proof (rule omap_Ok)
    fix t
    assume "t \<in> set [0..<pos + 1]"
    then have "t < dm_ctx d" using l by auto
    from cache_slice [OF l(1) this kc g(3)]
    show "(let krow = (l * dm_ctx d + t) * dm_kv d + ?kvh in
      obind (slice kc krow (krow + ?hd)) (\<lambda>kr. Ok (fmul M (dot_f16 M kr ?qh) (c_att_score_scale C))))
      = (Ok (fmul M (dot_f16 M (sub (?kr t) ?kvh (?kvh + ?hd)) ?qh) (c_att_score_scale C)) :: (unit, _) outcome)"
      by (simp only: Let_def obind.simps)
  qed
  have axpy: "ofold (\<lambda>oh (t, av). let vrow = (l * dm_ctx d + t) * dm_kv d + ?kvh in
        obind (slice vc vrow (vrow + ?hd)) (\<lambda>vr. Ok (axpy_f16 M oh av vr))) (replicate ?hd F_ZERO) (enumerate 0 (softmax M ?s))
      = (Ok (attn_head M C pos ?kr ?vr (sub q off (off + dm_att d)) h) :: (unit, _) outcome)"
    unfolding attn_head_def Let_def d(1) [symmetric]
  proof (rule conjunct1 [OF ofold_Ok [where P = "\<lambda>s. True"]])
    fix oh :: "f32 list" and x :: "nat \<times> f32"
    assume "x \<in> set (enumerate 0 (softmax M ?s))"
    then have "fst x < dm_ctx d" using l by (auto simp: in_set_enumerate_eq)
    from cache_slice [OF l(1) this vc g(3)]
    show "(case x of (t, av) \<Rightarrow> obind (slice vc ((l * dm_ctx d + t) * dm_kv d + ?kvh) ((l * dm_ctx d + t) * dm_kv d + ?kvh + ?hd)) (\<lambda>vr. Ok (axpy_f16 M oh av vr)))
        = (Ok (case x of (t, av) \<Rightarrow> axpy_f16 M oh av (sub (?vr t) ?kvh (?kvh + ?hd))) :: (unit, _) outcome) \<and> True"
      by (simp only: split_def obind.simps simp_thms)
  qed simp
  have "length (softmax M ?s) = pos + 1" by simp
  then show ?thesis using g(1,2) qh scores axpy hb ab out l
    by (auto simp: attend_head_def Let_def d(1) [symmetric] min_def)
qed

lemma attend_Ok:
  assumes d: "d = c_dims C" "dims_ok d" and l: "l < dm_layers d" "pos < dm_ctx d"
    and kc: "length kc = dm_layers d * dm_ctx d * dm_kv d" and vc: "length vc = dm_layers d * dm_ctx d * dm_kv d"
    and q: "(i + 1) * dm_att d \<le> length q" and out: "(i + 1) * dm_att d \<le> length out" and att: "length att = dm_heads d * dm_ctx d"
  shows "\<exists>att' out'. ofold (attend_head M C l pos kc vc q (i * dm_att d)) (att, out) [0..<dm_heads d] = (Ok (att', out') :: (unit, _) outcome)
     \<and> length att' = length att \<and> length out' = length out
     \<and> row_of out' (dm_att d) i = attn M C pos (\<lambda>t. row_of kc (dm_kv d) (l * dm_ctx d + t)) (\<lambda>t. row_of vc (dm_kv d) (l * dm_ctx d + t)) (row_of q (dm_att d) i)
     \<and> (\<forall>j. j \<noteq> i \<longrightarrow> (j + 1) * dm_att d \<le> length out \<longrightarrow> row_of out' (dm_att d) j = row_of out (dm_att d) j)"
proof -
  let ?H = "dm_heads d" let ?n = "dm_head d"
  let ?head = "attn_head M C pos (\<lambda>t. row_of kc (dm_kv d) (l * dm_ctx d + t)) (\<lambda>t. row_of vc (dm_kv d) (l * dm_ctx d + t)) (row_of q (dm_att d) i)"
  have A: "dm_att d = ?H * ?n" using d(2) by (simp add: dims_ok_def)
  have qi: "sub q (i * dm_att d) (i * dm_att d + dm_att d) = row_of q (dm_att d) i" by (simp add: row_of_def algebra_simps)
  have off: "i * dm_att d + h * ?n = (i * ?H + h) * ?n" for h by (simp add: A algebra_simps)
  have "\<exists>att' out'. ofold (attend_head M C l pos kc vc q (i * dm_att d)) (att, out) [0..<c] = (Ok (att', out') :: (unit, _) outcome)
     \<and> length att' = length att \<and> length out' = length out
     \<and> (\<forall>j. row_of out' ?n j = (if i * ?H \<le> j \<and> j < i * ?H + c then ?head (j - i * ?H) else row_of out ?n j))" if "c \<le> ?H" for c
    using that
  proof (induction c)
    case (Suc c)
    then obtain att' out' where 1: "ofold (attend_head M C l pos kc vc q (i * dm_att d)) (att, out) [0..<c] = (Ok (att', out') :: (unit, _) outcome)"
       "length att' = length att" "length out' = length out"
       "\<forall>j. row_of out' ?n j = (if i * ?H \<le> j \<and> j < i * ?H + c then ?head (j - i * ?H) else row_of out ?n j)" by auto
    have c: "c < ?H" using Suc.prems by simp
    have le: "i * dm_att d + dm_att d \<le> length q" "i * dm_att d + dm_att d \<le> length out'" using q out 1(3) by (simp_all add: algebra_simps)
    have fits: "(i * ?H + c + 1) * ?n \<le> length out'"
      using row_bounds [OF c, of ?n] le(2) by (simp add: A algebra_simps)
    obtain att'' where 2: "attend_head M C l pos kc vc q (i * dm_att d) (att', out') c = (Ok (att'', put_at out' ((i * ?H + c) * ?n) (?head c)) :: (unit, _) outcome)"
        "length att'' = length att'"
      using attend_head_Ok [OF d c l kc vc le(1,2), of att' M] att 1(2) by (auto simp: qi off)
    have len: "length (?head c) = ?n" by (simp add: d(1))
    have "row_of (put_at out' ((i * ?H + c) * ?n) (?head c)) ?n j = (if i * ?H \<le> j \<and> j < i * ?H + Suc c then ?head (j - i * ?H) else row_of out ?n j)" for j
      using row_put [OF fits len, of j] 1(4) by auto
    then show ?case using 1 2 fits len by (auto simp: ofold_append algebra_simps)
  qed auto
  from this [of ?H] obtain att' out' where 1: "ofold (attend_head M C l pos kc vc q (i * dm_att d)) (att, out) [0..<?H] = (Ok (att', out') :: (unit, _) outcome)"
     "length att' = length att" "length out' = length out"
     "\<forall>j. row_of out' ?n j = (if i * ?H \<le> j \<and> j < i * ?H + ?H then ?head (j - i * ?H) else row_of out ?n j)" by auto
  have "row_of out' (?H * ?n) i = concat (map (\<lambda>h. row_of out' ?n (i * ?H + h)) [0..<?H])" by (rule row_of_rows) (use out 1(3) A in simp)
  also have "\<dots> = concat (map ?head [0..<?H])" using 1(4) by (intro arg_cong [where f = concat] map_cong) auto
  finally have "row_of out' (dm_att d) i = attn M C pos (\<lambda>t. row_of kc (dm_kv d) (l * dm_ctx d + t)) (\<lambda>t. row_of vc (dm_kv d) (l * dm_ctx d + t)) (row_of q (dm_att d) i)"
    unfolding attn_def d(1) [symmetric] A [symmetric] by this
  moreover have "row_of out' (dm_att d) j = row_of out (dm_att d) j" if "j \<noteq> i" "(j + 1) * dm_att d \<le> length out" for j
  proof -
    have "row_of out' ?n (j * ?H + h) = row_of out ?n (j * ?H + h)" if h: "h < ?H" for h
    proof -
      have "\<not> (i * ?H \<le> j * ?H + h \<and> j * ?H + h < i * ?H + ?H)"
      proof
        assume a: "i * ?H \<le> j * ?H + h \<and> j * ?H + h < i * ?H + ?H"
        have "j < i \<or> i < j" using \<open>j \<noteq> i\<close> by auto
        then have "(j + 1) * ?H \<le> i * ?H \<or> (i + 1) * ?H \<le> j * ?H" by (metis Suc_eq_plus1 Suc_leI mult_le_mono1)
        then show False using a h by auto
      qed
      then show ?thesis using 1(4) by (simp only: if_False)
    qed
    then have "concat (map (\<lambda>h. row_of out' ?n (j * ?H + h)) [0..<?H]) = concat (map (\<lambda>h. row_of out ?n (j * ?H + h)) [0..<?H])"
      by (intro arg_cong [where f = concat] map_cong) auto
    then show ?thesis using row_of_rows [of j ?H ?n out'] row_of_rows [of j ?H ?n out] that 1(3) A by simp
  qed
  ultimately show ?thesis using 1(1-3) by blast
qed

subsection \<open>Well-formed contexts\<close>

definition layer_ok :: "dims \<Rightarrow> layer_weights \<Rightarrow> bool" where
  "layer_ok d w \<longleftrightarrow> length (lw_attn_norm w) = dm_dim d \<and> length (lw_ffn_norm w) = dm_dim d
     \<and> mat_ok (lw_wq w) (dm_att d) (dm_dim d) \<and> mat_ok (lw_wk w) (dm_kv d) (dm_dim d) \<and> mat_ok (lw_wv w) (dm_kv d) (dm_dim d)
     \<and> mat_ok (lw_wo w) (dm_dim d) (dm_att d) \<and> mat_ok (lw_gate w) (dm_ffn d) (dm_dim d) \<and> mat_ok (lw_up w) (dm_ffn d) (dm_dim d)
     \<and> mat_ok (lw_down w) (dm_dim d) (dm_ffn d)"

definition cfg_ok :: "cfg \<Rightarrow> bool" where
  "cfg_ok C \<longleftrightarrow> (let d = c_dims C; W = c_weights C in
     dims_ok d \<and> dm_head d div 2 \<le> length (c_freqs C) \<and> mat_ok (ws_embed W) (dm_vocab d) (dm_dim d)
     \<and> mat_ok (ws_output W) (dm_vocab d) (dm_dim d) \<and> length (ws_out_norm W) = dm_dim d
     \<and> length (ws_layers W) = dm_layers d \<and> (\<forall>w \<in> set (ws_layers W). layer_ok d w))"

definition scratch_ok :: "dims \<Rightarrow> scratch \<Rightarrow> bool" where
  "scratch_ok d S \<longleftrightarrow> length (v_x S) = dm_dim d \<and> length (v_xb S) = dm_dim d \<and> length (v_xb2 S) = dm_dim d
     \<and> length (v_q S) = dm_att d \<and> length (v_attn_out S) = dm_att d \<and> length (v_k S) = dm_kv d \<and> length (v_v S) = dm_kv d
     \<and> length (v_gate S) = dm_ffn d \<and> length (v_up S) = dm_ffn d"

definition batch_ok :: "dims \<Rightarrow> batch_scratch \<Rightarrow> bool" where
  "batch_ok d B \<longleftrightarrow> MAX_BATCH * dm_dim d \<le> length (b_x B) \<and> MAX_BATCH * dm_dim d \<le> length (b_xb B) \<and> MAX_BATCH * dm_att d \<le> length (b_q B)
     \<and> MAX_BATCH * dm_att d \<le> length (b_attn B) \<and> MAX_BATCH * dm_kv d \<le> length (b_k B) \<and> MAX_BATCH * dm_kv d \<le> length (b_v B)
     \<and> MAX_BATCH * dm_ffn d \<le> length (b_gate B) \<and> MAX_BATCH * dm_ffn d \<le> length (b_up B)"

definition infer_ok :: "infer \<Rightarrow> bool" where
  "infer_ok s \<longleftrightarrow> (let d = c_dims (i_cfg s) in cfg_ok (i_cfg s) \<and> scratch_ok d (i_one s) \<and> batch_ok d (i_batch s)
     \<and> length (i_att s) = dm_heads d * dm_ctx d \<and> length (i_logits s) = dm_vocab d
     \<and> acts_room (i_acts s) (max (dm_dim d) (max (dm_att d) (dm_ffn d)))
     \<and> length (i_key s) = dm_layers d * dm_ctx d * dm_kv d \<and> length (i_val s) = dm_layers d * dm_ctx d * dm_kv d \<and> i_pos s \<le> dm_ctx d)"

text \<open>A step of the layer loops: what never changes.\<close>

definition same_run :: "infer \<Rightarrow> infer \<Rightarrow> bool" where
  "same_run s s' \<longleftrightarrow> infer_ok s' \<and> i_cfg s' = i_cfg s \<and> i_pos s' = i_pos s"

subsection \<open>The value of a layer\<close>

definition tok_qkv :: "'z machine_scheme \<Rightarrow> cfg \<Rightarrow> layer_weights \<Rightarrow> nat \<Rightarrow> f32 list \<Rightarrow> f32 list \<times> f32 list \<times> f32 list" where
  "tok_qkv M C w pos x = (let d = c_dims C; xb = norm_vec M x (lw_attn_norm w) (c_norm_eps C);
     (q, k) = ok_val (rotate_qk M C w pos (mat_vec M (lw_wq w) (dm_att d) xb) (mat_vec M (lw_wk w) (dm_kv d) xb))
     in (q, k, mat_vec M (lw_wv w) (dm_kv d) xb))"

definition key_row :: "'z machine_scheme \<Rightarrow> cfg \<Rightarrow> layer_weights \<Rightarrow> nat \<Rightarrow> f32 list \<Rightarrow> f16 list" where
  "key_row M C w pos x = map f32_to_f16 (fst (snd (tok_qkv M C w pos x)))"

definition val_row :: "'z machine_scheme \<Rightarrow> cfg \<Rightarrow> layer_weights \<Rightarrow> nat \<Rightarrow> f32 list \<Rightarrow> f16 list" where
  "val_row M C w pos x = map f32_to_f16 (snd (snd (tok_qkv M C w pos x)))"

definition tok_mid :: "'z machine_scheme \<Rightarrow> cfg \<Rightarrow> layer_weights \<Rightarrow> nat \<Rightarrow> f32 list \<Rightarrow> (nat \<Rightarrow> f16 list) \<Rightarrow> (nat \<Rightarrow> f16 list) \<Rightarrow> f32 list" where
  "tok_mid M C w pos x kr vr =
     saxpy M x (c_residual_scale C) (mat_vec M (lw_wo w) (dm_dim (c_dims C)) (attn M C pos kr vr (fst (tok_qkv M C w pos x))))"

definition tok_mlp :: "'z machine_scheme \<Rightarrow> cfg \<Rightarrow> layer_weights \<Rightarrow> f32 list \<Rightarrow> f32 list" where
  "tok_mlp M C w x = (let d = c_dims C; xb = norm_vec M x (lw_ffn_norm w) (c_norm_eps C) in
     saxpy M x (c_residual_scale C) (mat_vec M (lw_down w) (dm_dim d)
       (swiglu M (mat_vec M (lw_gate w) (dm_ffn d) xb) (mat_vec M (lw_up w) (dm_ffn d) xb))))"

lemma cfg_ok_simps: "cfg_ok C \<Longrightarrow> dims_ok (c_dims C)" "cfg_ok C \<Longrightarrow> 0 < dm_head (c_dims C)" "cfg_ok C \<Longrightarrow> dm_head (c_dims C) div 2 \<le> length (c_freqs C)"
    "cfg_ok C \<Longrightarrow> l < dm_layers (c_dims C) \<Longrightarrow> layer_ok (c_dims C) (ws_layers (c_weights C) ! l)"
    "cfg_ok C \<Longrightarrow> length (ws_layers (c_weights C)) = dm_layers (c_dims C)"
  by (auto simp: cfg_ok_def Let_def dims_ok_def)

lemma length_tok [simp]: "length (tok_mid M C w pos x kr vr) = length x" "length (tok_mlp M C w x) = length x"
  by (simp_all add: tok_mid_def tok_mlp_def Let_def)

lemma tok_qkv_rotate:
  assumes "cfg_ok C" and "q0 = mat_vec M (lw_wq w) (dm_att (c_dims C)) (norm_vec M x (lw_attn_norm w) (c_norm_eps C))"
    and "k0 = mat_vec M (lw_wk w) (dm_kv (c_dims C)) (norm_vec M x (lw_attn_norm w) (c_norm_eps C))"
  shows "rotate_qk M C w pos q0 k0 = (Ok (fst (tok_qkv M C w pos x), fst (snd (tok_qkv M C w pos x))) :: (unit, _) outcome)
     \<and> length (fst (tok_qkv M C w pos x)) = dm_att (c_dims C) \<and> length (fst (snd (tok_qkv M C w pos x))) = dm_kv (c_dims C)"
proof -
  obtain q' k' where "rotate_qk M C w pos q0 k0 = (Ok (q', k') :: (unit, _) outcome)" "length q' = length q0" "length k' = length k0"
    using rotate_qk_total [OF cfg_ok_simps(2) [OF assms(1)] cfg_ok_simps(3) [OF assms(1)], of M w pos q0 k0, where 'e = unit] by blast
  then show ?thesis using assms(2,3) by (simp add: tok_qkv_def Let_def)
qed

lemma length_rows [simp]: "cfg_ok C \<Longrightarrow> length (key_row M C w pos x) = dm_kv (c_dims C)" "length (val_row M C w pos x) = dm_kv (c_dims C)"
  using tok_qkv_rotate [OF _ refl refl, where C = C and M = M and w = w and x = x and pos = pos] by (simp_all add: key_row_def val_row_def tok_qkv_def Let_def split_def)

end
