(* ===== verification/Nr_Prefill.thy ===== *)
theory Nr_Prefill
  imports Nr_Layer
begin

text \<open>
  Batched prefill against token-at-a-time decoding (\<^verbatim>\<open>crates/nr-model/src/infer.rs\<close>): on a well-formed
  context both succeed and leave the same caches, logits and position, bit for bit.
\<close>

subsection \<open>Decoding\<close>

abbreviation cache_at :: "dims \<Rightarrow> nat \<Rightarrow> f16 list \<Rightarrow> nat \<Rightarrow> f16 list" where
  "cache_at d l kc t \<equiv> row_of kc (dm_kv d) (l * dm_ctx d + t)"

lemma infer_ok_simps:
  assumes "infer_ok s"
  shows "cfg_ok (i_cfg s)" "scratch_ok (c_dims (i_cfg s)) (i_one s)" "batch_ok (c_dims (i_cfg s)) (i_batch s)"
    "length (i_att s) = dm_heads (c_dims (i_cfg s)) * dm_ctx (c_dims (i_cfg s))" "length (i_logits s) = dm_vocab (c_dims (i_cfg s))"
    "length (i_key s) = dm_layers (c_dims (i_cfg s)) * dm_ctx (c_dims (i_cfg s)) * dm_kv (c_dims (i_cfg s))"
    "length (i_val s) = dm_layers (c_dims (i_cfg s)) * dm_ctx (c_dims (i_cfg s)) * dm_kv (c_dims (i_cfg s))"
    "i_pos s \<le> dm_ctx (c_dims (i_cfg s))" "acts_room (i_acts s) (dm_dim (c_dims (i_cfg s)))" "acts_room (i_acts s) (dm_att (c_dims (i_cfg s)))"
    "acts_room (i_acts s) (dm_ffn (c_dims (i_cfg s)))"
  using assms by (auto simp: infer_ok_def Let_def elim: acts_room_mono)

lemma cache_fits: "l < dm_layers d \<Longrightarrow> pos < dm_ctx d \<Longrightarrow> length kc = dm_layers d * dm_ctx d * dm_kv d \<Longrightarrow> (l * dm_ctx d + pos + 1) * dm_kv d \<le> length kc"
  using row_bounds [OF cell_index, of l "dm_layers d" pos "dm_ctx d" "dm_kv d"] by simp

lemma forward_attention_Ok:
  assumes M: "sched_ok M" and ok: "infer_ok s" and d: "d = c_dims (i_cfg s)" and l: "l < dm_layers d" "pos < dm_ctx d"
    and w: "w = ws_layers (c_weights (i_cfg s)) ! l" and x: "x = v_x (i_one s)"
  shows "\<exists>s'. forward_attention M w l pos s = (Ok s' :: (unit, _) outcome) \<and> same_run s s'
     \<and> i_key s' = put_at (i_key s) ((l * dm_ctx d + pos) * dm_kv d) (key_row M (i_cfg s) w pos x)
     \<and> i_val s' = put_at (i_val s) ((l * dm_ctx d + pos) * dm_kv d) (val_row M (i_cfg s) w pos x)
     \<and> v_x (i_one s') = tok_mid M (i_cfg s) w pos x (cache_at d l (i_key s')) (cache_at d l (i_val s'))"
proof -
  let ?C = "i_cfg s" let ?S = "i_one s"
  note ok' = infer_ok_simps [OF ok, folded d]
  have lo: "layer_ok d w" using cfg_ok_simps(4) [OF ok'(1)] l(1) by (simp add: d w)
  have S: "length (v_x ?S) = dm_dim d" "length (v_xb ?S) = dm_dim d" "length (v_xb2 ?S) = dm_dim d" "length (v_q ?S) = dm_att d"
     "length (v_k ?S) = dm_kv d" "length (v_v ?S) = dm_kv d" "length (v_attn_out ?S) = dm_att d"
    using ok'(2) by (auto simp: scratch_ok_def)
  let ?xb = "norm_vec M x (lw_attn_norm w) (c_norm_eps ?C)"
  have 1: "rmsnorm M (v_xb ?S) (v_x ?S) (lw_attn_norm w) (c_norm_eps ?C) = (Ok ?xb :: (unit, _) outcome)"
    unfolding x by (rule rmsnorm_Ok) (use S lo in \<open>simp_all add: layer_ok_def\<close>)
  have xl: "length ?xb = dm_dim d" by (simp add: x S)
  let ?q0 = "mat_vec M (lw_wq w) (dm_att d) ?xb" let ?k0 = "mat_vec M (lw_wk w) (dm_kv d) ?xb" let ?v0 = "mat_vec M (lw_wv w) (dm_kv d) ?xb"
  obtain A where 2: "acts_matvec_group M (i_acts s) [(v_q ?S, lw_wq w), (v_k ?S, lw_wk w), (v_v ?S, lw_wv w)] ?xb = (Ok (A, [?q0, ?k0, ?v0]) :: (unit, _) outcome)"
      "acts_size A = acts_size (i_acts s)"
    using matvec_group_Ok [OF M, of "i_acts s" ?xb "[(v_q ?S, lw_wq w), (v_k ?S, lw_wk w), (v_v ?S, lw_wv w)]"] xl ok'(9) lo S
    by (auto simp: layer_ok_def)
  let ?t = "tok_qkv M ?C w pos x"
  have 3: "rotate_qk M ?C w pos ?q0 ?k0 = (Ok (fst ?t, fst (snd ?t)) :: (unit, _) outcome)" "length (fst ?t) = dm_att d" "length (fst (snd ?t)) = dm_kv d"
    using tok_qkv_rotate [OF ok'(1) refl refl, where M = M and w = w and x = x and pos = pos] by (simp_all add: d)
  have vt: "?v0 = snd (snd ?t)" by (simp add: tok_qkv_def Let_def split_def d)
  let ?kc = "put_at (i_key s) ((l * dm_ctx d + pos) * dm_kv d) (key_row M ?C w pos x)"
  let ?vc = "put_at (i_val s) ((l * dm_ctx d + pos) * dm_kv d) (val_row M ?C w pos x)"
  have fits: "(l * dm_ctx d + pos) * dm_kv d + dm_kv d \<le> length (i_key s)" "(l * dm_ctx d + pos) * dm_kv d + dm_kv d \<le> length (i_val s)"
    using cache_fits [OF l ok'(6)] cache_fits [OF l ok'(7)] by (simp_all add: algebra_simps)
  have v0: "sub (snd (snd ?t)) 0 (dm_kv d) = snd (snd ?t)" "length (snd (snd ?t)) = dm_kv d"
    using sub_zero_length [of ?v0] by (simp_all add: vt [symmetric])
  have 4: "append_kv d l pos (fst (snd ?t)) ?v0 0 (i_key s, i_val s) = (Ok (?kc, ?vc) :: (unit, _) outcome)"
    using append_kv_Ok [OF fits 3(3), of 0 ?v0] by (simp add: v0 vt key_row_def val_row_def)
  have len: "length ?kc = dm_layers d * dm_ctx d * dm_kv d" "length ?vc = dm_layers d * dm_ctx d * dm_kv d"
    using fits ok'(1,6,7) by (simp_all add: d)
  have dk: "dims_ok d" "dm_kv_heads d \<noteq> 0" using cfg_ok_simps(1) [OF ok'(1)] by (simp_all add: d dims_ok_def)
  obtain att ao where 5: "ofold (attend_head M ?C l pos ?kc ?vc (fst ?t) (0 * dm_att d)) (i_att s, v_attn_out ?S) [0..<dm_heads d] = (Ok (att, ao) :: (unit, _) outcome)"
      "length att = length (i_att s)" "length ao = dm_att d"
      "row_of ao (dm_att d) 0 = attn M ?C pos (cache_at d l ?kc) (cache_at d l ?vc) (row_of (fst ?t) (dm_att d) 0)"
    using attend_Ok [OF d dk(1) l len, of 0 "fst ?t" "v_attn_out ?S" "i_att s" M] 3(2) S(7) ok'(4) by auto
  have row0: "row_of ys n 0 = ys" if "length ys = n" for ys :: "f32 list" and n using that sub_zero_length [of ys] by (simp add: row_of_def)
  have ao: "ao = attn M ?C pos (cache_at d l ?kc) (cache_at d l ?vc) (fst ?t)" using 5(4) by (simp add: row0 5(3) 3(2))
  have room: "acts_room A (dm_att d)" using acts_room_size [OF 2(2)] ok'(10) by simp
  obtain A' where 6: "acts_matvec M A (v_xb2 ?S) (lw_wo w) ao = (Ok (A', mat_vec M (lw_wo w) (dm_dim d) ao) :: (unit, _) outcome)" "acts_size A' = acts_size A"
    using acts_matvec_Ok [OF M, of "lw_wo w" "dm_dim d" ao "v_xb2 ?S" A] lo S 5(3) room by (auto simp: layer_ok_def)
  let ?s = "s\<lparr>i_one := ?S\<lparr>v_x := saxpy M (v_x ?S) (c_residual_scale ?C) (mat_vec M (lw_wo w) (dm_dim d) ao), v_xb := ?xb,
      v_xb2 := mat_vec M (lw_wo w) (dm_dim d) ao, v_q := fst ?t, v_k := fst (snd ?t), v_v := ?v0, v_attn_out := ao\<rparr>, i_acts := A', i_key := ?kc, i_val := ?vc, i_att := att\<rparr>"
  have "forward_attention M w l pos s = (Ok ?s :: (unit, _) outcome)"
    using 1 2(1) 3(1) 4 5(1) 6(1) dk(2) by (simp add: forward_attention_def Let_def d [symmetric])
  moreover have "infer_ok ?s"
    using ok len 5(2,3) 3 S xl acts_room_size [OF 6(2)] acts_room_size [OF 2(2)]
    by (simp add: infer_ok_def Let_def d [symmetric] scratch_ok_def)
  ultimately show ?thesis
    by (intro exI [of _ ?s]) (simp add: same_run_def tok_mid_def ao x d)
qed

lemma forward_mlp_Ok:
  assumes M: "sched_ok M" and ok: "infer_ok s" and d: "d = c_dims (i_cfg s)" and w: "layer_ok d w" and x: "x = v_x (i_one s)"
  shows "\<exists>s'. forward_mlp M w s = (Ok s' :: (unit, _) outcome) \<and> same_run s s' \<and> i_key s' = i_key s \<and> i_val s' = i_val s
     \<and> v_x (i_one s') = tok_mlp M (i_cfg s) w x"
proof -
  let ?C = "i_cfg s" let ?S = "i_one s"
  note ok' = infer_ok_simps [OF ok, folded d]
  have S: "length (v_x ?S) = dm_dim d" "length (v_xb ?S) = dm_dim d" "length (v_xb2 ?S) = dm_dim d" "length (v_gate ?S) = dm_ffn d" "length (v_up ?S) = dm_ffn d"
    using ok'(2) by (auto simp: scratch_ok_def)
  let ?xb = "norm_vec M x (lw_ffn_norm w) (c_norm_eps ?C)"
  have 1: "rmsnorm M (v_xb ?S) (v_x ?S) (lw_ffn_norm w) (c_norm_eps ?C) = (Ok ?xb :: (unit, _) outcome)"
    unfolding x by (rule rmsnorm_Ok) (use S w in \<open>simp_all add: layer_ok_def\<close>)
  have xl: "length ?xb = dm_dim d" by (simp add: x S)
  let ?g = "mat_vec M (lw_gate w) (dm_ffn d) ?xb" let ?u = "mat_vec M (lw_up w) (dm_ffn d) ?xb"
  obtain A where 2: "acts_matvec_group M (i_acts s) [(v_gate ?S, lw_gate w), (v_up ?S, lw_up w)] ?xb = (Ok (A, [?g, ?u]) :: (unit, _) outcome)"
      "acts_size A = acts_size (i_acts s)"
    using matvec_group_Ok [OF M, of "i_acts s" ?xb "[(v_gate ?S, lw_gate w), (v_up ?S, lw_up w)]"] xl ok'(9) w S by (auto simp: layer_ok_def)
  let ?h = "swiglu M ?g ?u"
  have room: "acts_room A (dm_ffn d)" using acts_room_size [OF 2(2)] ok'(11) by simp
  obtain A' where 3: "acts_matvec M A (v_xb2 ?S) (lw_down w) ?h = (Ok (A', mat_vec M (lw_down w) (dm_dim d) ?h) :: (unit, _) outcome)" "acts_size A' = acts_size A"
    using acts_matvec_Ok [OF M, of "lw_down w" "dm_dim d" ?h "v_xb2 ?S" A] w S room by (auto simp: layer_ok_def)
  let ?s = "s\<lparr>i_one := ?S\<lparr>v_x := saxpy M (v_x ?S) (c_residual_scale ?C) (mat_vec M (lw_down w) (dm_dim d) ?h), v_xb := ?xb,
      v_xb2 := mat_vec M (lw_down w) (dm_dim d) ?h, v_gate := ?h, v_up := ?u\<rparr>, i_acts := A'\<rparr>"
  have "forward_mlp M w s = (Ok ?s :: (unit, _) outcome)" using 1 2(1) 3(1) by (simp add: forward_mlp_def Let_def)
  moreover have "infer_ok ?s"
    using ok S xl acts_room_size [OF 3(2)] acts_room_size [OF 2(2)] by (simp add: infer_ok_def Let_def d [symmetric] scratch_ok_def)
  ultimately show ?thesis by (intro exI [of _ ?s]) (simp add: same_run_def tok_mlp_def Let_def x d)
qed

definition logits_of :: "'z machine_scheme \<Rightarrow> cfg \<Rightarrow> f32 list \<Rightarrow> f32 list" where
  "logits_of M C x = (let lg = mat_vec M (ws_output (c_weights C)) (dm_vocab (c_dims C)) (norm_vec M x (ws_out_norm (c_weights C)) (c_norm_eps C)) in
     if \<not> f_eq (c_logit_recip C) F_ONE then scale_inplace M lg (c_logit_recip C) else lg)"

lemma classify_Ok:
  assumes M: "sched_ok M" and ok: "infer_ok s" and x: "length x = dm_dim (c_dims (i_cfg s))"
  shows "\<exists>s'. classify M x s = (Ok s' :: (unit, _) outcome) \<and> same_run s s' \<and> i_key s' = i_key s \<and> i_val s' = i_val s
     \<and> i_logits s' = logits_of M (i_cfg s) x"
proof -
  let ?C = "i_cfg s" let ?S = "i_one s" let ?W = "c_weights (i_cfg s)" let ?d = "c_dims (i_cfg s)"
  note ok' = infer_ok_simps [OF ok]
  have C: "length (ws_out_norm ?W) = dm_dim ?d" "mat_ok (ws_output ?W) (dm_vocab ?d) (dm_dim ?d)" using ok'(1) by (simp_all add: cfg_ok_def Let_def)
  let ?xb = "norm_vec M x (ws_out_norm ?W) (c_norm_eps ?C)"
  have 1: "rmsnorm M (v_xb ?S) x (ws_out_norm ?W) (c_norm_eps ?C) = (Ok ?xb :: (unit, _) outcome)"
    by (rule rmsnorm_Ok) (use ok'(2) C x in \<open>simp_all add: scratch_ok_def\<close>)
  obtain A where 2: "acts_matvec M (i_acts s) (i_logits s) (ws_output ?W) ?xb = (Ok (A, mat_vec M (ws_output ?W) (dm_vocab ?d) ?xb) :: (unit, _) outcome)"
      "acts_size A = acts_size (i_acts s)"
    using acts_matvec_Ok [OF M, of "ws_output ?W" "dm_vocab ?d" ?xb "i_logits s" "i_acts s"] C x ok'(5,9) by auto
  let ?s = "s\<lparr>i_one := ?S\<lparr>v_xb := ?xb\<rparr>, i_acts := A, i_logits := logits_of M ?C x\<rparr>"
  have "classify M x s = (Ok ?s :: (unit, _) outcome)" using 1 2(1) by (simp add: classify_def Let_def logits_of_def)
  moreover have "infer_ok ?s" using ok x acts_room_size [OF 2(2)] by (simp add: infer_ok_def Let_def scratch_ok_def logits_of_def)
  ultimately show ?thesis by (intro exI [of _ ?s]) (simp add: same_run_def)
qed

subsection \<open>The table of activations\<close>

text \<open>\<open>layer_x l i\<close>: token \<open>i\<close> of the run before layer \<open>l\<close>, when the run starts at \<open>base\<close> on the caches \<open>kc\<close>, \<open>vc\<close>.\<close>

primrec layer_x :: "'z machine_scheme \<Rightarrow> cfg \<Rightarrow> nat \<Rightarrow> u32 list \<Rightarrow> f16 list \<Rightarrow> f16 list \<Rightarrow> nat \<Rightarrow> nat \<Rightarrow> f32 list" where
  "layer_x M C base toks kc vc 0 = (\<lambda>i. embed M C (toks ! i))"
| "layer_x M C base toks kc vc (Suc l) =
     (let w = ws_layers (c_weights C) ! l; X = layer_x M C base toks kc vc l; d = c_dims C;
          kr = (\<lambda>t. if t < base then cache_at d l kc t else key_row M C w t (X (t - base)));
          vr = (\<lambda>t. if t < base then cache_at d l vc t else val_row M C w t (X (t - base)))
      in (\<lambda>i. tok_mlp M C w (tok_mid M C w (base + i) (X i) kr vr)))"

definition key_tab :: "'z machine_scheme \<Rightarrow> cfg \<Rightarrow> nat \<Rightarrow> u32 list \<Rightarrow> f16 list \<Rightarrow> f16 list \<Rightarrow> nat \<Rightarrow> nat \<Rightarrow> f16 list" where
  "key_tab M C base toks kc vc l t = key_row M C (ws_layers (c_weights C) ! l) t (layer_x M C base toks kc vc l (t - base))"

definition val_tab :: "'z machine_scheme \<Rightarrow> cfg \<Rightarrow> nat \<Rightarrow> u32 list \<Rightarrow> f16 list \<Rightarrow> f16 list \<Rightarrow> nat \<Rightarrow> nat \<Rightarrow> f16 list" where
  "val_tab M C base toks kc vc l t = val_row M C (ws_layers (c_weights C) ! l) t (layer_x M C base toks kc vc l (t - base))"

text \<open>The cache holds the rows of table \<open>K\<close> at \<open>A\<close>, and its first contents elsewhere.\<close>

definition filled :: "dims \<Rightarrow> (nat \<times> nat) set \<Rightarrow> (nat \<Rightarrow> nat \<Rightarrow> f16 list) \<Rightarrow> f16 list \<Rightarrow> f16 list \<Rightarrow> bool" where
  "filled d A K kc0 kc \<longleftrightarrow> length kc = length kc0
     \<and> (\<forall>l < dm_layers d. \<forall>t < dm_ctx d. cache_at d l kc t = (if (l, t) \<in> A then K l t else cache_at d l kc0 t))"

lemma filled_empty: "filled d {} K kc kc"
  by (simp add: filled_def)

lemma filled_put:
  assumes f: "filled d A K kc0 kc" and l: "l < dm_layers d" "t < dm_ctx d" and len: "length kc0 = dm_layers d * dm_ctx d * dm_kv d"
    and r: "r = K l t" "length r = dm_kv d"
  shows "filled d (insert (l, t) A) K kc0 (put_at kc ((l * dm_ctx d + t) * dm_kv d) r)"
proof -
  have fits: "(l * dm_ctx d + t + 1) * dm_kv d \<le> length kc" using f cache_fits [OF l len] by (simp add: filled_def)
  have "cache_at d l' (put_at kc ((l * dm_ctx d + t) * dm_kv d) r) t' = (if (l', t') \<in> insert (l, t) A then K l' t' else cache_at d l' kc0 t')"
    if "l' < dm_layers d" "t' < dm_ctx d" for l' t'
    using row_put [OF fits r(2), of "l' * dm_ctx d + t'"] cell_inj [OF that(2) l(2), of l' l] f that r(1) by (auto simp: filled_def)
  moreover have "(l * dm_ctx d + t) * dm_kv d + length r \<le> length kc" using fits r(2) by (simp add: algebra_simps)
  ultimately show ?thesis using f by (simp add: filled_def)
qed

lemma filled_unique:
  assumes "filled d A K kc0 a" and "filled d A K kc0 b" and "length kc0 = dm_layers d * dm_ctx d * dm_kv d"
  shows "a = b"
proof (rule rows_determine [where b = "dm_layers d * dm_ctx d" and n = "dm_kv d"])
  fix i
  assume i: "i < dm_layers d * dm_ctx d"
  then have "0 < dm_ctx d" by (cases "dm_ctx d") auto
  with i have "i div dm_ctx d < dm_layers d" "i mod dm_ctx d < dm_ctx d" "i = i div dm_ctx d * dm_ctx d + i mod dm_ctx d"
    by (simp_all add: less_mult_imp_div_less)
  then show "row_of a (dm_kv d) i = row_of b (dm_kv d) i" using assms(1,2) unfolding filled_def by metis
qed (use assms in \<open>simp_all add: filled_def\<close>)

lemma tok_mid_cong:
  "(\<And>t. t \<le> pos \<Longrightarrow> kr t = kr' t \<and> vr t = vr' t) \<Longrightarrow> tok_mid M C w pos x kr vr = tok_mid M C w pos x kr' vr'"
  unfolding tok_mid_def by (subst attn_cong [of pos kr kr' vr vr']) simp_all

text \<open>A layer step on caches that hold the table up to the token.\<close>

lemma layer_x_step:
  assumes d: "d = c_dims C" and "l < dm_layers d" and "base + i < dm_ctx d"
    and "filled d A (key_tab M C base toks kc0 vc0) kc0 kc" and "filled d A (val_tab M C base toks kc0 vc0) vc0 vc"
    and A: "\<And>t. t \<le> base + i \<Longrightarrow> (l, t) \<in> A \<longleftrightarrow> base \<le> t"
  shows "tok_mlp M C (ws_layers (c_weights C) ! l)
       (tok_mid M C (ws_layers (c_weights C) ! l) (base + i) (layer_x M C base toks kc0 vc0 l i) (cache_at d l kc) (cache_at d l vc))
     = layer_x M C base toks kc0 vc0 (Suc l) i"
proof -
  have "cache_at d l kc t = (if t < base then cache_at d l kc0 t else key_tab M C base toks kc0 vc0 l t)
      \<and> cache_at d l vc t = (if t < base then cache_at d l vc0 t else val_tab M C base toks kc0 vc0 l t)" if "t \<le> base + i" for t
    using assms(2-5) A [OF that] that by (auto simp: filled_def)
  then show ?thesis unfolding layer_x.simps Let_def d
    by (intro arg_cong [where f = "tok_mlp M C (ws_layers (c_weights C) ! l)"] tok_mid_cong) (auto simp: key_tab_def val_tab_def d)
qed

subsection \<open>One token\<close>

lemma layer_x_length:
  assumes "cfg_ok C" and "unat (toks ! i) < dm_vocab (c_dims C)"
  shows "length (layer_x M C base toks kc vc l i) = dm_dim (c_dims C)"
proof (induction l)
  case 0
  have "mat_ok (ws_embed (c_weights C)) (dm_vocab (c_dims C)) (dm_dim (c_dims C))" using assms(1) by (simp add: cfg_ok_def Let_def)
  then show ?case using embed_token_Ok [OF _ assms(2), where C = C and M = M and x = "replicate (dm_dim (c_dims C)) 0"] by simp
qed (simp add: Let_def)

lemma forward_layer_Ok:
  assumes M: "sched_ok M" and ok: "infer_ok s" and d: "d = c_dims (i_cfg s)" and l: "l < dm_layers d" "pos < dm_ctx d"
    and w: "w = ws_layers (c_weights (i_cfg s)) ! l" and x: "x = v_x (i_one s)"
  shows "\<exists>s'. forward_layer M pos s l = (Ok s' :: (unit, _) outcome) \<and> same_run s s'
     \<and> i_key s' = put_at (i_key s) ((l * dm_ctx d + pos) * dm_kv d) (key_row M (i_cfg s) w pos x)
     \<and> i_val s' = put_at (i_val s) ((l * dm_ctx d + pos) * dm_kv d) (val_row M (i_cfg s) w pos x)
     \<and> v_x (i_one s') = tok_mlp M (i_cfg s) w (tok_mid M (i_cfg s) w pos x (cache_at d l (i_key s')) (cache_at d l (i_val s')))"
proof -
  note C = infer_ok_simps(1) [OF ok]
  obtain s1 where 1: "forward_attention M w l pos s = (Ok s1 :: (unit, _) outcome)" "same_run s s1"
     "i_key s1 = put_at (i_key s) ((l * dm_ctx d + pos) * dm_kv d) (key_row M (i_cfg s) w pos x)"
     "i_val s1 = put_at (i_val s) ((l * dm_ctx d + pos) * dm_kv d) (val_row M (i_cfg s) w pos x)"
     "v_x (i_one s1) = tok_mid M (i_cfg s) w pos x (cache_at d l (i_key s1)) (cache_at d l (i_val s1))"
    using forward_attention_Ok [OF M ok d l w x] by blast
  have s1: "infer_ok s1" "i_cfg s1 = i_cfg s" "i_pos s1 = i_pos s" using 1(2) by (simp_all add: same_run_def)
  have lo: "layer_ok d w" using cfg_ok_simps(4) [OF C] l(1) by (simp add: d w)
  obtain s2 where 2: "forward_mlp M w s1 = (Ok s2 :: (unit, _) outcome)" "same_run s1 s2" "i_key s2 = i_key s1" "i_val s2 = i_val s1"
     "v_x (i_one s2) = tok_mlp M (i_cfg s) w (v_x (i_one s1))"
    using forward_mlp_Ok [OF M s1(1) _ lo refl] s1(2) d by auto
  have "index (ws_layers (c_weights (i_cfg s))) l = (Ok w :: (unit, _) outcome)" using cfg_ok_simps(5) [OF C] l(1) by (simp add: d w)
  then have "forward_layer M pos s l = (Ok s2 :: (unit, _) outcome)" by (simp add: forward_layer_def 1(1) 2(1))
  then show ?thesis using 1 2 s1 by (intro exI [of _ s2]) (simp add: same_run_def)
qed

lemma forward_Ok:
  assumes M: "sched_ok M" and ok: "infer_ok s" and C: "C = i_cfg s" and d: "d = c_dims C" and pos: "i_pos s = base + i" "base + i < dm_ctx d"
    and tok: "unat (toks ! i) < dm_vocab d"
    and len: "length kc0 = dm_layers d * dm_ctx d * dm_kv d" "length vc0 = dm_layers d * dm_ctx d * dm_kv d"
    and kf: "filled d ({..<dm_layers d} \<times> {base..<base + i}) (key_tab M C base toks kc0 vc0) kc0 (i_key s)"
    and vf: "filled d ({..<dm_layers d} \<times> {base..<base + i}) (val_tab M C base toks kc0 vc0) vc0 (i_val s)"
  shows "\<exists>s'. forward M s (toks ! i) = (Ok s' :: (unit, _) outcome) \<and> infer_ok s' \<and> i_cfg s' = C \<and> i_pos s' = base + Suc i
     \<and> filled d ({..<dm_layers d} \<times> {base..<base + Suc i}) (key_tab M C base toks kc0 vc0) kc0 (i_key s')
     \<and> filled d ({..<dm_layers d} \<times> {base..<base + Suc i}) (val_tab M C base toks kc0 vc0) vc0 (i_val s')
     \<and> i_logits s' = logits_of M C (layer_x M C base toks kc0 vc0 (dm_layers d) i)"
proof -
  let ?X = "layer_x M C base toks kc0 vc0" let ?K = "key_tab M C base toks kc0 vc0" let ?V = "val_tab M C base toks kc0 vc0"
  have co: "cfg_ok C" using infer_ok_simps(1) [OF ok] by (simp add: C)
  have emb: "mat_ok (ws_embed (c_weights C)) (dm_vocab (c_dims C)) (dm_dim (c_dims C))" using co by (simp add: cfg_ok_def Let_def)
  have S: "length (v_x (i_one s)) = dm_dim (c_dims C)" using infer_ok_simps(2) [OF ok] by (simp add: scratch_ok_def C)
  have 1: "embed_token M C (toks ! i) (v_x (i_one s)) = (Ok (embed M C (toks ! i)) :: (unit, _) outcome)" "length (embed M C (toks ! i)) = dm_dim d"
    using embed_token_Ok [OF emb _ S, of "toks ! i" M] tok d by auto
  let ?s1 = "s\<lparr>i_one := (i_one s)\<lparr>v_x := embed M C (toks ! i)\<rparr>\<rparr>"
  have ok1: "infer_ok ?s1" using ok 1(2) by (simp add: infer_ok_def Let_def scratch_ok_def C d)
  let ?A = "\<lambda>c. {..<dm_layers d} \<times> {base..<base + i} \<union> {..<c} \<times> {base + i}"
  have "\<exists>s'. ofold (forward_layer M (base + i)) ?s1 [0..<c] = (Ok s' :: (unit, _) outcome) \<and> same_run ?s1 s'
      \<and> filled d (?A c) ?K kc0 (i_key s') \<and> filled d (?A c) ?V vc0 (i_val s') \<and> v_x (i_one s') = ?X c i" if "c \<le> dm_layers d" for c
    using that
  proof (induction c)
    case 0
    show ?case using ok1 kf vf by (simp add: same_run_def)
  next
    case (Suc c)
    then obtain s' where 2: "ofold (forward_layer M (base + i)) ?s1 [0..<c] = (Ok s' :: (unit, _) outcome)" "same_run ?s1 s'"
        "filled d (?A c) ?K kc0 (i_key s')" "filled d (?A c) ?V vc0 (i_val s')" "v_x (i_one s') = ?X c i" by auto
    have c: "c < dm_layers d" using Suc.prems by simp
    have s': "infer_ok s'" "i_cfg s' = C" using 2(2) by (simp_all add: same_run_def C)
    let ?w = "ws_layers (c_weights C) ! c"
    obtain s2 where 3: "forward_layer M (base + i) s' c = (Ok s2 :: (unit, _) outcome)" "same_run s' s2"
       "i_key s2 = put_at (i_key s') ((c * dm_ctx d + (base + i)) * dm_kv d) (key_row M C ?w (base + i) (?X c i))"
       "i_val s2 = put_at (i_val s') ((c * dm_ctx d + (base + i)) * dm_kv d) (val_row M C ?w (base + i) (?X c i))"
       "v_x (i_one s2) = tok_mlp M C ?w (tok_mid M C ?w (base + i) (?X c i) (cache_at d c (i_key s2)) (cache_at d c (i_val s2)))"
      using forward_layer_Ok [OF M s'(1), of d c "base + i", OF _ c pos(2) refl refl] s'(2) 2(5) d by auto
    have A: "?A (Suc c) = insert (c, base + i) (?A c)" by auto
    have f: "filled d (?A (Suc c)) ?K kc0 (i_key s2)" "filled d (?A (Suc c)) ?V vc0 (i_val s2)"
      unfolding A 3(3,4) using 2(3,4) c pos(2) len co d
      by (auto intro!: filled_put simp: key_tab_def val_tab_def)
    have "v_x (i_one s2) = ?X (Suc c) i"
      unfolding 3(5) by (rule layer_x_step [OF d c pos(2) f]) (use c in auto)
    then show ?case using 2(1,2) 3(1,2) f by (simp add: ofold_append same_run_def)
  qed
  from this [of "dm_layers d"] obtain s' where 2: "ofold (forward_layer M (base + i)) ?s1 [0..<dm_layers d] = (Ok s' :: (unit, _) outcome)" "same_run ?s1 s'"
        "filled d (?A (dm_layers d)) ?K kc0 (i_key s')" "filled d (?A (dm_layers d)) ?V vc0 (i_val s')" "v_x (i_one s') = ?X (dm_layers d) i" by auto
  have A: "?A (dm_layers d) = {..<dm_layers d} \<times> {base..<base + Suc i}" by auto
  have s': "infer_ok s'" "i_cfg s' = C" "i_pos s' = base + i" using 2(2) pos(1) by (simp_all add: same_run_def C)
  obtain s2 where 3: "classify M (v_x (i_one s')) s' = (Ok s2 :: (unit, _) outcome)" "same_run s' s2" "i_key s2 = i_key s'" "i_val s2 = i_val s'"
      "i_logits s2 = logits_of M C (v_x (i_one s'))"
    using classify_Ok [OF M s'(1), of "v_x (i_one s')"] layer_x_length [OF co, of toks i M base kc0 vc0 "dm_layers d"] tok d s'(2) 2(5) by auto
  have s2: "infer_ok s2" "i_cfg s2 = C" "i_pos s2 = base + i" using 3(2) s' by (simp_all add: same_run_def)
  have "forward M s (toks ! i) = (Ok (s2\<lparr>i_pos := i_pos s2 + 1\<rparr>) :: (unit, _) outcome)"
    using pos 1(1) 2(1) 3(1) by (simp add: forward_def Let_def C [symmetric] d [symmetric])
  moreover have "infer_ok (s2\<lparr>i_pos := i_pos s2 + 1\<rparr>)" using s2 pos(2) d by (simp add: infer_ok_def Let_def)
  ultimately show ?thesis using 2(3-5) 3(3-5) s2 unfolding A
    by (intro exI [of _ "s2\<lparr>i_pos := i_pos s2 + 1\<rparr>"]) simp
qed

text \<open>What a run of tokens leaves: the caches hold the table, the logits are those of its last token.\<close>

definition ran :: "'z machine_scheme \<Rightarrow> infer \<Rightarrow> u32 list \<Rightarrow> infer \<Rightarrow> bool" where
  "ran M s toks s' \<longleftrightarrow> (let C = i_cfg s; d = c_dims C; base = i_pos s; b = length toks; A = {..<dm_layers d} \<times> {base..<base + b} in
     infer_ok s' \<and> i_cfg s' = C \<and> i_pos s' = base + b
     \<and> filled d A (key_tab M C base toks (i_key s) (i_val s)) (i_key s) (i_key s')
     \<and> filled d A (val_tab M C base toks (i_key s) (i_val s)) (i_val s) (i_val s')
     \<and> (toks \<noteq> [] \<longrightarrow> i_logits s' = logits_of M C (layer_x M C base toks (i_key s) (i_val s) (dm_layers d) (b - 1))))"

definition tokens_ok :: "infer \<Rightarrow> u32 list \<Rightarrow> bool" where
  "tokens_ok s toks \<longleftrightarrow> (let d = c_dims (i_cfg s) in (\<forall>t \<in> set toks. unat t < dm_vocab d) \<and> i_pos s + length toks \<le> dm_ctx d)"

lemma decode_Ok:
  assumes M: "sched_ok M" and ok: "infer_ok s" and toks: "tokens_ok s toks"
  shows "\<exists>s'. ofold (forward M) s toks = (Ok s' :: (unit, _) outcome) \<and> ran M s toks s'"
proof -
  let ?C = "i_cfg s" let ?d = "c_dims ?C" let ?base = "i_pos s"
  let ?K = "key_tab M ?C ?base toks (i_key s) (i_val s)" let ?V = "val_tab M ?C ?base toks (i_key s) (i_val s)"
  let ?X = "layer_x M ?C ?base toks (i_key s) (i_val s)"
  have "\<exists>s'. ofold (forward M) s (take c toks) = (Ok s' :: (unit, _) outcome) \<and> infer_ok s' \<and> i_cfg s' = ?C \<and> i_pos s' = ?base + c
     \<and> filled ?d ({..<dm_layers ?d} \<times> {?base..<?base + c}) ?K (i_key s) (i_key s')
     \<and> filled ?d ({..<dm_layers ?d} \<times> {?base..<?base + c}) ?V (i_val s) (i_val s')
     \<and> (0 < c \<longrightarrow> i_logits s' = logits_of M ?C (?X (dm_layers ?d) (c - 1)))" if "c \<le> length toks" for c
    using that
  proof (induction c)
    case 0
    show ?case using ok by (simp add: filled_empty)
  next
    case (Suc c)
    then obtain s' where 1: "ofold (forward M) s (take c toks) = (Ok s' :: (unit, _) outcome)" "infer_ok s'" "i_cfg s' = ?C" "i_pos s' = ?base + c"
       "filled ?d ({..<dm_layers ?d} \<times> {?base..<?base + c}) ?K (i_key s) (i_key s')"
       "filled ?d ({..<dm_layers ?d} \<times> {?base..<?base + c}) ?V (i_val s) (i_val s')" by auto
    have c: "c < length toks" "unat (toks ! c) < dm_vocab ?d" "?base + c < dm_ctx ?d" using Suc.prems toks by (auto simp: tokens_ok_def Let_def)
    show ?case
      using forward_Ok [OF M 1(2) 1(3) [symmetric] refl 1(4) c(3,2) infer_ok_simps(6,7) [OF ok] 1(5,6)] 1(1) c(1)
      by (auto simp: take_Suc_conv_app_nth ofold_append)
  qed
  from this [of "length toks"] show ?thesis by (auto simp: ran_def Let_def)
qed

text \<open>Two runs of the same tokens from contexts that agree cannot be told apart.\<close>

definition same_view :: "infer \<Rightarrow> infer \<Rightarrow> bool" where
  "same_view s s' \<longleftrightarrow> i_cfg s = i_cfg s' \<and> i_key s = i_key s' \<and> i_val s = i_val s' \<and> i_pos s = i_pos s'"

lemma ran_unique:
  assumes "ran M s toks a" and "ran M s' toks b" and "same_view s s'" and "infer_ok s"
  shows "same_view a b \<and> (toks \<noteq> [] \<longrightarrow> i_logits a = i_logits b)"
proof -
  note len = infer_ok_simps(6,7) [OF assms(4)]
  show ?thesis using assms(1-3) filled_unique [OF _ _ len(1)] filled_unique [OF _ _ len(2)]
    unfolding ran_def Let_def same_view_def by metis
qed

subsection \<open>A batch\<close>

lemma slice_hold: "holds buf n b F \<Longrightarrow> i < b \<Longrightarrow> slice buf (i * n) ((i + 1) * n) = (Ok (F i) :: (unit, _) outcome)"
  by (rule holds_slice)

lemma batch_room: "b \<le> MAX_BATCH \<Longrightarrow> MAX_BATCH * n \<le> length buf \<Longrightarrow> b * n \<le> length buf"
  by (meson le_trans mult_le_mono1)

lemma batch_ok_simps:
  assumes "batch_ok d B" and "b \<le> MAX_BATCH"
  shows "b * dm_dim d \<le> length (b_x B)" "b * dm_dim d \<le> length (b_xb B)" "b * dm_att d \<le> length (b_q B)" "b * dm_att d \<le> length (b_attn B)"
    "b * dm_kv d \<le> length (b_k B)" "b * dm_kv d \<le> length (b_v B)" "b * dm_ffn d \<le> length (b_gate B)" "b * dm_ffn d \<le> length (b_up B)"
  using assms by (auto simp: batch_ok_def intro: batch_room)

lemma norm_rows_Ok:
  assumes d: "d = c_dims C" and X: "holds bx (dm_dim d) b X" and "b * dm_dim d \<le> length bxb" and w: "length weight = dm_dim d"
  shows "\<exists>bxb'. norm_rows M C weight b bx bxb = (Ok bxb' :: (unit, _) outcome) \<and> length bxb' = length bxb
     \<and> holds bxb' (dm_dim d) b (\<lambda>i. norm_vec M (X i) weight (c_norm_eps C))"
  unfolding norm_rows_def Let_def d [symmetric]
proof (rule each_row_Ok [OF assms(3)])
  fix i
  assume i: "i < b"
  have "length (X i) = dm_dim d" by (rule holds_length [OF X i])
  then have "rmsnorm M (row_of bxb (dm_dim d) i) (X i) weight (c_norm_eps C) = (Ok (norm_vec M (X i) weight (c_norm_eps C)) :: (unit, _) outcome)"
    by (intro rmsnorm_Ok) (simp_all add: length_row [OF i assms(3)] w)
  then show "obind (slice bx (i * dm_dim d) ((i + 1) * dm_dim d)) (\<lambda>x. rmsnorm M (row_of bxb (dm_dim d) i) x weight (c_norm_eps C))
      = (Ok (norm_vec M (X i) weight (c_norm_eps C)) :: (unit, _) outcome)"
    by (simp only: slice_hold [OF X i] obind.simps)
  show "length (norm_vec M (X i) weight (c_norm_eps C)) = dm_dim d" by (simp add: holds_length [OF X i])
qed

lemma residual_rows_Ok:
  assumes d: "d = c_dims C" and X: "holds bx (dm_dim d) b X" and Y: "holds bxb (dm_dim d) b Y"
  shows "\<exists>bx'. residual_rows M C b bxb bx = (Ok bx' :: (unit, _) outcome) \<and> length bx' = length bx
     \<and> holds bx' (dm_dim d) b (\<lambda>i. saxpy M (X i) (c_residual_scale C) (Y i))"
  unfolding residual_rows_def Let_def d [symmetric]
proof (rule each_row_Ok)
  show "b * dm_dim d \<le> length bx" using X by (simp add: holds_def)
  fix i
  assume i: "i < b"
  have "row_of bx (dm_dim d) i = X i" using X i by (simp add: holds_def)
  then show "obind (slice bxb (i * dm_dim d) ((i + 1) * dm_dim d)) (\<lambda>y. Ok (saxpy M (row_of bx (dm_dim d) i) (c_residual_scale C) y))
      = (Ok (saxpy M (X i) (c_residual_scale C) (Y i)) :: (unit, _) outcome)"
    by (simp only: slice_hold [OF Y i] obind.simps)
  show "length (saxpy M (X i) (c_residual_scale C) (Y i)) = dm_dim d" by (simp add: holds_length [OF X i])
qed

lemma matmul_into_Ok:
  assumes M: "sched_ok M" and w: "mat_ok w n cols" and b: "0 < b" "b \<le> MAX_BATCH" and room: "acts_room A cols"
    and buf: "b * n \<le> length buf" and xs: "length xs = b * cols" "holds xs cols b X"
  shows "\<exists>A' buf'. matmul_into M A buf n w xs b = (Ok (A', buf') :: (unit, _) outcome) \<and> acts_size A' = acts_size A \<and> length buf' = length buf
     \<and> holds buf' n b (\<lambda>i. mat_vec M w n (X i))"
proof -
  have l: "length (sub buf 0 (b * n)) = b * n" using buf by simp
  obtain A' y where 1: "acts_matmul M A (sub buf 0 (b * n)) w xs b = (Ok (A', y) :: (unit, _) outcome)" "acts_size A' = acts_size A"
      "product_rows M xs cols b w n y"
    using acts_matmul_Ok [OF M w l xs(1) b room] by blast
  have "holds y n b (\<lambda>i. mat_vec M w n (X i))" by (rule holds_cong [OF conjunct2 [OF 1(3)]]) (use xs(2) in \<open>simp add: holds_def\<close>)
  then have "holds (put_at buf 0 y) n b (\<lambda>i. mat_vec M w n (X i))" using holds_front [of y b n _ buf] 1(3) buf by blast
  then show ?thesis using 1 buf by (auto simp: matmul_into_def)
qed

lemma front_rows: "holds buf n b F \<Longrightarrow> slice buf 0 (b * n) = (Ok (sub buf 0 (b * n)) :: (unit, _) outcome) \<and> length (sub buf 0 (b * n)) = b * n \<and> holds (sub buf 0 (b * n)) n b F"
  using holds_take [of buf n b F, where 'e = unit] by (auto simp: holds_def)

lemma front_slice: "b * n \<le> length buf \<Longrightarrow> slice buf 0 (b * n) = (Ok (sub buf 0 (b * n)) :: (unit, _) outcome) \<and> length (sub buf 0 (b * n)) = b * n"
  by simp

lemma front_write:
  assumes "length y = b * n" and "holds y n b F" and "b * n \<le> length buf"
  shows "write_at buf 0 y = (Ok (put_at buf 0 y) :: (unit, _) outcome) \<and> length (put_at buf 0 y) = length buf \<and> holds (put_at buf 0 y) n b F"
  using assms holds_front by auto

lemma product_rows_cong:
  "product_rows M xs cols b w n y \<Longrightarrow> holds xs cols b X \<Longrightarrow> length y = b * n \<and> holds y n b (\<lambda>i. mat_vec M w n (X i))"
  by (auto simp: holds_def)

lemma prefill_qkv_Ok:
  assumes M: "sched_ok M" and ok: "infer_ok s" and d: "d = c_dims (i_cfg s)" and w: "layer_ok d w" and b: "0 < b" "b \<le> MAX_BATCH"
    and X: "holds (b_x (i_batch s)) (dm_dim d) b X"
  shows "\<exists>s'. prefill_qkv M w b s = (Ok s' :: (unit, _) outcome) \<and> same_run s s' \<and> i_key s' = i_key s \<and> i_val s' = i_val s
     \<and> b_x (i_batch s') = b_x (i_batch s)
     \<and> holds (b_q (i_batch s')) (dm_att d) b (\<lambda>i. mat_vec M (lw_wq w) (dm_att d) (norm_vec M (X i) (lw_attn_norm w) (c_norm_eps (i_cfg s))))
     \<and> holds (b_k (i_batch s')) (dm_kv d) b (\<lambda>i. mat_vec M (lw_wk w) (dm_kv d) (norm_vec M (X i) (lw_attn_norm w) (c_norm_eps (i_cfg s))))
     \<and> holds (b_v (i_batch s')) (dm_kv d) b (\<lambda>i. mat_vec M (lw_wv w) (dm_kv d) (norm_vec M (X i) (lw_attn_norm w) (c_norm_eps (i_cfg s))))"
proof -
  let ?C = "i_cfg s" let ?B = "i_batch s"
  let ?N = "\<lambda>i. norm_vec M (X i) (lw_attn_norm w) (c_norm_eps ?C)"
  note ok' = infer_ok_simps [OF ok, folded d]
  note room = batch_ok_simps [OF ok'(3) b(2)]
  obtain bxb where 1: "norm_rows M ?C (lw_attn_norm w) b (b_x ?B) (b_xb ?B) = (Ok bxb :: (unit, _) outcome)" "length bxb = length (b_xb ?B)"
      "holds bxb (dm_dim d) b ?N"
    using norm_rows_Ok [OF d X room(2), of "lw_attn_norm w" M] w by (auto simp: layer_ok_def)
  let ?q = "sub (b_q ?B) 0 (b * dm_att d)" let ?k = "sub (b_k ?B) 0 (b * dm_kv d)" let ?v = "sub (b_v ?B) 0 (b * dm_kv d)"
  let ?xs = "sub bxb 0 (b * dm_dim d)"
  note fq = front_slice [OF room(3)] and fk = front_slice [OF room(5)] and fv = front_slice [OF room(6)]
  note fx = front_rows [OF 1(3)]
  have div: "length ?q div b = dm_att d" "length ?k div b = dm_kv d" "length ?v div b = dm_kv d" using fq fk fv b(1) by simp_all
  obtain A ys where 2: "acts_matmul_group M (i_acts s) [(?q, lw_wq w), (?k, lw_wk w), (?v, lw_wv w)] ?xs b = (Ok (A, ys) :: (unit, _) outcome)"
      "acts_size A = acts_size (i_acts s)"
      "list_all2 (\<lambda>(y, w) y'. product_rows M ?xs (dm_dim d) b w (length y div b) y') [(?q, lw_wq w), (?k, lw_wk w), (?v, lw_wv w)] ys"
  proof -
    have "\<forall>(y, w) \<in> set [(?q, lw_wq w), (?k, lw_wk w), (?v, lw_wv w)]. length y mod b = 0 \<and> mat_ok w (length y div b) (dm_dim d)"
      using w div fq fk fv by (simp add: layer_ok_def)
    then show ?thesis using matmul_group_Ok [OF M _ b ok'(9), of ?xs "[(?q, lw_wq w), (?k, lw_wk w), (?v, lw_wv w)]"] fx that by blast
  qed
  then obtain y0 y1 y2 where ys: "ys = [y0, y1, y2]" by (auto simp: list_all2_Cons1)
  have p: "product_rows M ?xs (dm_dim d) b (lw_wq w) (dm_att d) y0" "product_rows M ?xs (dm_dim d) b (lw_wk w) (dm_kv d) y1"
      "product_rows M ?xs (dm_dim d) b (lw_wv w) (dm_kv d) y2" using 2(3) div by (simp_all add: ys)
  note h = conjunct2 [OF conjunct2 [OF fx]]
  note p = product_rows_cong [OF p(1) h] product_rows_cong [OF p(2) h] product_rows_cong [OF p(3) h]
  note g = front_write [OF conjunct1 [OF p(1)] conjunct2 [OF p(1)] room(3)] front_write [OF conjunct1 [OF p(2)] conjunct2 [OF p(2)] room(5)]
    front_write [OF conjunct1 [OF p(3)] conjunct2 [OF p(3)] room(6)]
  let ?s = "s\<lparr>i_batch := ?B\<lparr>b_xb := bxb, b_q := put_at (b_q ?B) 0 y0, b_k := put_at (b_k ?B) 0 y1, b_v := put_at (b_v ?B) 0 y2\<rparr>, i_acts := A\<rparr>"
  have "prefill_qkv M w b s = (Ok ?s :: (unit, _) outcome)"
    unfolding prefill_qkv_def Let_def d [symmetric] using 1(1) fq fk fv fx 2(1) g by (simp only: obind.simps ys split_conv nth_Cons_0 One_nat_def nth_Cons_Suc numeral_2_eq_2)
  moreover have "infer_ok ?s" using ok 1(2) g acts_room_size [OF 2(2)] by (simp add: infer_ok_def Let_def d [symmetric] batch_ok_def)
  ultimately show ?thesis using g by (intro exI [of _ ?s]) (simp add: same_run_def)
qed

lemma write_row:
  assumes "i < b" and "b * n \<le> length buf" and "length r = n"
  shows "write_at buf (i * n) r = (Ok (put_at buf (i * n) r) :: (unit, _) outcome)" "length (put_at buf (i * n) r) = length buf"
    "row_of (put_at buf (i * n) r) n j = (if j = i then r else row_of buf n j)"
proof -
  have f: "(i + 1) * n \<le> length buf" using row_bounds [OF assms(1), of n] assms(2) by simp
  then show "write_at buf (i * n) r = (Ok (put_at buf (i * n) r) :: (unit, _) outcome)" "length (put_at buf (i * n) r) = length buf"
    using assms(3) by (simp_all add: algebra_simps)
  show "row_of (put_at buf (i * n) r) n j = (if j = i then r else row_of buf n j)" by (rule row_put [OF f assms(3)])
qed

lemma prefill_append_Ok:
  assumes ok: "infer_ok s" and C: "C = i_cfg s" and d: "d = c_dims C" and l: "l < dm_layers d" "base + b \<le> dm_ctx d" and b: "b \<le> MAX_BATCH"
    and Q: "holds (b_q (i_batch s)) (dm_att d) b (\<lambda>i. mat_vec M (lw_wq w) (dm_att d) (norm_vec M (X i) (lw_attn_norm w) (c_norm_eps C)))"
    and Kr: "holds (b_k (i_batch s)) (dm_kv d) b (\<lambda>i. mat_vec M (lw_wk w) (dm_kv d) (norm_vec M (X i) (lw_attn_norm w) (c_norm_eps C)))"
    and Vr: "holds (b_v (i_batch s)) (dm_kv d) b (\<lambda>i. mat_vec M (lw_wv w) (dm_kv d) (norm_vec M (X i) (lw_attn_norm w) (c_norm_eps C)))"
    and K: "\<And>i. i < b \<Longrightarrow> K l (base + i) = key_row M C w (base + i) (X i)" and V: "\<And>i. i < b \<Longrightarrow> V l (base + i) = val_row M C w (base + i) (X i)"
    and len: "length kc0 = dm_layers d * dm_ctx d * dm_kv d" "length vc0 = dm_layers d * dm_ctx d * dm_kv d"
    and f: "filled d A K kc0 (i_key s)" "filled d A V vc0 (i_val s)"
  shows "\<exists>s'. ofold (prefill_append_token M w l base) s [0..<b] = (Ok s' :: (unit, _) outcome) \<and> same_run s s'
     \<and> b_x (i_batch s') = b_x (i_batch s) \<and> holds (b_q (i_batch s')) (dm_att d) b (\<lambda>i. fst (tok_qkv M C w (base + i) (X i)))
     \<and> filled d (A \<union> {l} \<times> {base..<base + b}) K kc0 (i_key s') \<and> filled d (A \<union> {l} \<times> {base..<base + b}) V vc0 (i_val s')"
proof -
  let ?q = "\<lambda>i. mat_vec M (lw_wq w) (dm_att d) (norm_vec M (X i) (lw_attn_norm w) (c_norm_eps C))"
  let ?k = "\<lambda>i. mat_vec M (lw_wk w) (dm_kv d) (norm_vec M (X i) (lw_attn_norm w) (c_norm_eps C))"
  let ?t = "\<lambda>i. tok_qkv M C w (base + i) (X i)"
  have co: "cfg_ok C" using infer_ok_simps(1) [OF ok] by (simp add: C)
  note room = batch_ok_simps [OF infer_ok_simps(3) [OF ok] b, folded C, folded d]
  have "\<exists>s'. ofold (prefill_append_token M w l base) s [0..<c] = (Ok s' :: (unit, _) outcome) \<and> same_run s s'
     \<and> b_x (i_batch s') = b_x (i_batch s) \<and> b_v (i_batch s') = b_v (i_batch s) \<and> length (b_q (i_batch s')) = length (b_q (i_batch s))
     \<and> length (b_k (i_batch s')) = length (b_k (i_batch s))
     \<and> (\<forall>i < b. row_of (b_q (i_batch s')) (dm_att d) i = (if i < c then fst (?t i) else ?q i))
     \<and> (\<forall>i < b. c \<le> i \<longrightarrow> row_of (b_k (i_batch s')) (dm_kv d) i = ?k i)
     \<and> filled d (A \<union> {l} \<times> {base..<base + c}) K kc0 (i_key s') \<and> filled d (A \<union> {l} \<times> {base..<base + c}) V vc0 (i_val s')" if "c \<le> b" for c
    using that
  proof (induction c)
    case 0
    show ?case using ok Q Kr f by (simp add: same_run_def holds_def)
  next
    case (Suc c)
    then obtain s' where 1: "ofold (prefill_append_token M w l base) s [0..<c] = (Ok s' :: (unit, _) outcome)" "same_run s s'"
       "b_x (i_batch s') = b_x (i_batch s)" "b_v (i_batch s') = b_v (i_batch s)" "length (b_q (i_batch s')) = length (b_q (i_batch s))"
       "length (b_k (i_batch s')) = length (b_k (i_batch s))"
       "\<forall>i < b. row_of (b_q (i_batch s')) (dm_att d) i = (if i < c then fst (?t i) else ?q i)"
       "\<forall>i < b. c \<le> i \<longrightarrow> row_of (b_k (i_batch s')) (dm_kv d) i = ?k i"
       "filled d (A \<union> {l} \<times> {base..<base + c}) K kc0 (i_key s')" "filled d (A \<union> {l} \<times> {base..<base + c}) V vc0 (i_val s')" by auto
    have c: "c < b" "base + c < dm_ctx d" using Suc.prems l by simp_all
    have s': "infer_ok s'" "i_cfg s' = C" "i_pos s' = i_pos s" using 1(2) by (simp_all add: same_run_def C)
    let ?B = "i_batch s'"
    have bq: "b * dm_att d \<le> length (b_q ?B)" "b * dm_kv d \<le> length (b_k ?B)" using room 1(5,6) by simp_all
    have sl: "slice (b_q ?B) (c * dm_att d) ((c + 1) * dm_att d) = (Ok (?q c) :: (unit, _) outcome)"
        "slice (b_k ?B) (c * dm_kv d) ((c + 1) * dm_kv d) = (Ok (?k c) :: (unit, _) outcome)"
      using slice_row [OF c(1) bq(1), where 'b = unit] slice_row [OF c(1) bq(2), where 'b = unit] 1(7,8) c(1) by simp_all
    have rot: "rotate_qk M C w (base + c) (?q c) (?k c) = (Ok (fst (?t c), fst (snd (?t c))) :: (unit, _) outcome)"
        "length (fst (?t c)) = dm_att d" "length (fst (snd (?t c))) = dm_kv d"
      using tok_qkv_rotate [OF co refl refl, where M = M and w = w and x = "X c" and pos = "base + c"] by (simp_all add: d)
    have kl: "length (i_key s') = dm_layers d * dm_ctx d * dm_kv d" "length (i_val s') = dm_layers d * dm_ctx d * dm_kv d"
      using infer_ok_simps(6,7) [OF s'(1)] s'(2) d by simp_all
    have fits: "(l * dm_ctx d + (base + c)) * dm_kv d + dm_kv d \<le> length (i_key s')" "(l * dm_ctx d + (base + c)) * dm_kv d + dm_kv d \<le> length (i_val s')"
      using cache_fits [OF l(1) c(2) kl(1)] cache_fits [OF l(1) c(2) kl(2)] by (simp_all add: algebra_simps)
    have "row_of (b_v (i_batch s)) (dm_kv d) c = snd (snd (?t c))" using Vr c(1) by (simp add: holds_def tok_qkv_def Let_def split_def d)
    moreover have "c * dm_kv d + dm_kv d \<le> length (b_v ?B)" using row_bounds [OF c(1), of "dm_kv d"] room 1(4) by simp
    ultimately have v: "sub (b_v ?B) (c * dm_kv d) (c * dm_kv d + dm_kv d) = snd (snd (?t c))" "c * dm_kv d + dm_kv d \<le> length (b_v ?B)"
      using 1(4) by (simp_all add: row_of_def algebra_simps)
    let ?kc = "put_at (i_key s') ((l * dm_ctx d + (base + c)) * dm_kv d) (key_row M C w (base + c) (X c))"
    let ?vc = "put_at (i_val s') ((l * dm_ctx d + (base + c)) * dm_kv d) (val_row M C w (base + c) (X c))"
    have app: "append_kv d l (base + c) (fst (snd (?t c))) (b_v ?B) (c * dm_kv d) (i_key s', i_val s') = (Ok (?kc, ?vc) :: (unit, _) outcome)"
      using append_kv_Ok [OF fits rot(3) v(2)] by (simp add: v key_row_def val_row_def)
    note wq = write_row [OF c(1) bq(1) rot(2)] and wk = write_row [OF c(1) bq(2) rot(3)]
    let ?s = "s'\<lparr>i_batch := ?B\<lparr>b_q := put_at (b_q ?B) (c * dm_att d) (fst (?t c)), b_k := put_at (b_k ?B) (c * dm_kv d) (fst (snd (?t c)))\<rparr>, i_key := ?kc, i_val := ?vc\<rparr>"
    have "prefill_append_token M w l base s' c = (Ok ?s :: (unit, _) outcome)"
      unfolding prefill_append_token_def Let_def s'(2) d [symmetric] by (simp only: sl rot app wq(1) wk(1) obind.simps split_conv)
    moreover have A: "A \<union> {l} \<times> {base..<base + Suc c} = insert (l, base + c) (A \<union> {l} \<times> {base..<base + c})" by auto
    have fs: "filled d (A \<union> {l} \<times> {base..<base + Suc c}) K kc0 ?kc" "filled d (A \<union> {l} \<times> {base..<base + Suc c}) V vc0 ?vc"
      unfolding A using filled_put [OF 1(9) l(1) c(2) len(1) K [OF c(1), symmetric]] filled_put [OF 1(10) l(1) c(2) len(2) V [OF c(1), symmetric]] co d
      by simp_all
    moreover have "infer_ok ?s" using s'(1) fs len kl wq(2) wk(2) s'(2) d
      by (simp add: infer_ok_def Let_def batch_ok_def filled_def)
    ultimately show ?case
      using 1(1-8) wq(2,3) wk(2,3) s' C
      by (intro exI [of _ ?s]) (auto simp: ofold_append same_run_def less_Suc_eq)
  qed
  from this [of b] show ?thesis using room(3) unfolding holds_def by (metis less_or_eq_imp_le order_refl)
qed

lemma prefill_attend_Ok:
  assumes ok: "infer_ok s" and C: "C = i_cfg s" and d: "d = c_dims C" and l: "l < dm_layers d" "base + b \<le> dm_ctx d" and b: "b \<le> MAX_BATCH"
    and Q: "holds (b_q (i_batch s)) (dm_att d) b Q"
  shows "\<exists>s'. ofold (prefill_attend_token M l base) s [0..<b] = (Ok s' :: (unit, _) outcome) \<and> same_run s s'
     \<and> b_x (i_batch s') = b_x (i_batch s) \<and> i_key s' = i_key s \<and> i_val s' = i_val s
     \<and> holds (b_attn (i_batch s')) (dm_att d) b (\<lambda>i. attn M C (base + i) (cache_at d l (i_key s)) (cache_at d l (i_val s)) (Q i))"
proof -
  let ?a = "\<lambda>i. attn M C (base + i) (cache_at d l (i_key s)) (cache_at d l (i_val s)) (Q i)"
  have co: "dims_ok d" using cfg_ok_simps(1) [OF infer_ok_simps(1) [OF ok]] by (simp add: C d)
  note room = batch_ok_simps [OF infer_ok_simps(3) [OF ok] b, folded C, folded d]
  have "\<exists>s'. ofold (prefill_attend_token M l base) s [0..<c] = (Ok s' :: (unit, _) outcome) \<and> same_run s s'
     \<and> i_key s' = i_key s \<and> i_val s' = i_val s \<and> b_x (i_batch s') = b_x (i_batch s) \<and> b_q (i_batch s') = b_q (i_batch s)
     \<and> length (b_attn (i_batch s')) = length (b_attn (i_batch s)) \<and> (\<forall>i < c. row_of (b_attn (i_batch s')) (dm_att d) i = ?a i)" if "c \<le> b" for c
    using that
  proof (induction c)
    case 0
    show ?case using ok by (simp add: same_run_def)
  next
    case (Suc c)
    then obtain s' where 1: "ofold (prefill_attend_token M l base) s [0..<c] = (Ok s' :: (unit, _) outcome)" "same_run s s'"
       "i_key s' = i_key s" "i_val s' = i_val s" "b_x (i_batch s') = b_x (i_batch s)" "b_q (i_batch s') = b_q (i_batch s)"
       "length (b_attn (i_batch s')) = length (b_attn (i_batch s))" "\<forall>i < c. row_of (b_attn (i_batch s')) (dm_att d) i = ?a i" by auto
    have c: "c < b" "base + c < dm_ctx d" using Suc.prems l by simp_all
    have s': "infer_ok s'" "i_cfg s' = C" "i_pos s' = i_pos s" using 1(2) by (simp_all add: same_run_def C)
    have le: "(c + 1) * dm_att d \<le> length (b_q (i_batch s))" "(c + 1) * dm_att d \<le> length (b_attn (i_batch s'))"
      using row_bounds [OF c(1), of "dm_att d"] room(3,4) 1(7) by simp_all
    note kl = infer_ok_simps(6,7) [OF s'(1), unfolded s'(2), folded d]
    note al = infer_ok_simps(4) [OF s'(1), unfolded s'(2), folded d]
    obtain att ao where 2: "ofold (attend_head M C l (base + c) (i_key s') (i_val s') (b_q (i_batch s)) (c * dm_att d)) (i_att s', b_attn (i_batch s')) [0..<dm_heads d]
         = (Ok (att, ao) :: (unit, _) outcome)" "length att = length (i_att s')" "length ao = length (b_attn (i_batch s'))"
        "row_of ao (dm_att d) c = ?a c"
        "\<forall>j. j \<noteq> c \<longrightarrow> (j + 1) * dm_att d \<le> length (b_attn (i_batch s')) \<longrightarrow> row_of ao (dm_att d) j = row_of (b_attn (i_batch s')) (dm_att d) j"
      using attend_Ok [OF d co l(1) c(2) kl le al, of M] Q c(1) 1(3,4) by (auto simp: holds_def)
    let ?s = "s'\<lparr>i_batch := (i_batch s')\<lparr>b_attn := ao\<rparr>, i_att := att\<rparr>"
    have "prefill_attend_token M l base s' c = (Ok ?s :: (unit, _) outcome)"
      unfolding prefill_attend_token_def Let_def s'(2) d [symmetric] by (simp only: 1(6) 2(1) obind.simps split_conv)
    moreover have "infer_ok ?s" using s'(1) 2(2,3) by (simp add: infer_ok_def Let_def batch_ok_def)
    moreover have "row_of ao (dm_att d) i = ?a i" if "i < Suc c" for i
    proof (cases "i = c")
      case False
      then have "i < c" using that by simp
      moreover have "(i + 1) * dm_att d \<le> length (b_attn (i_batch s'))"
        using row_bounds [of i b "dm_att d"] \<open>i < c\<close> c(1) room(4) 1(7) by simp
      ultimately show ?thesis using 2(5) 1(8) by simp
    qed (simp add: 2(4))
    ultimately show ?case using 1(1-7) 2(3) s' C by (intro exI [of _ ?s]) (simp add: ofold_append same_run_def)
  qed
  from this [of b] show ?thesis using room(4) unfolding holds_def by (metis order_refl)
qed

lemma prefill_project_Ok:
  assumes M: "sched_ok M" and ok: "infer_ok s" and d: "d = c_dims (i_cfg s)" and w: "layer_ok d w" and b: "0 < b" "b \<le> MAX_BATCH"
    and X: "holds (b_x (i_batch s)) (dm_dim d) b X" and AO: "holds (b_attn (i_batch s)) (dm_att d) b AO"
  shows "\<exists>s'. prefill_project M w b s = (Ok s' :: (unit, _) outcome) \<and> same_run s s' \<and> i_key s' = i_key s \<and> i_val s' = i_val s
     \<and> holds (b_x (i_batch s')) (dm_dim d) b (\<lambda>i. saxpy M (X i) (c_residual_scale (i_cfg s)) (mat_vec M (lw_wo w) (dm_dim d) (AO i)))"
proof -
  let ?C = "i_cfg s" let ?B = "i_batch s"
  note ok' = infer_ok_simps [OF ok, folded d]
  note room = batch_ok_simps [OF ok'(3) b(2)]
  note fx = front_rows [OF AO]
  have wo: "mat_ok (lw_wo w) (dm_dim d) (dm_att d)" using w by (simp add: layer_ok_def)
  obtain A bxb where 1: "matmul_into M (i_acts s) (b_xb ?B) (dm_dim d) (lw_wo w) (sub (b_attn ?B) 0 (b * dm_att d)) b = (Ok (A, bxb) :: (unit, _) outcome)"
      "acts_size A = acts_size (i_acts s)" "length bxb = length (b_xb ?B)" "holds bxb (dm_dim d) b (\<lambda>i. mat_vec M (lw_wo w) (dm_dim d) (AO i))"
    using matmul_into_Ok [OF M wo b ok'(10) room(2) conjunct1 [OF conjunct2 [OF fx]] conjunct2 [OF conjunct2 [OF fx]]] by blast
  obtain bx where 2: "residual_rows M ?C b bxb (b_x ?B) = (Ok bx :: (unit, _) outcome)" "length bx = length (b_x ?B)"
      "holds bx (dm_dim d) b (\<lambda>i. saxpy M (X i) (c_residual_scale ?C) (mat_vec M (lw_wo w) (dm_dim d) (AO i)))"
    using residual_rows_Ok [OF d X 1(4), of M] by blast
  let ?s = "s\<lparr>i_batch := ?B\<lparr>b_x := bx, b_xb := bxb\<rparr>, i_acts := A\<rparr>"
  have "prefill_project M w b s = (Ok ?s :: (unit, _) outcome)"
    unfolding prefill_project_def Let_def d [symmetric] using fx 1(1) 2(1) by (simp only: obind.simps split_conv)
  moreover have "infer_ok ?s" using ok 1(3) 2(2) acts_room_size [OF 1(2)] by (simp add: infer_ok_def Let_def d [symmetric] batch_ok_def)
  ultimately show ?thesis using 2(3) by (intro exI [of _ ?s]) (simp add: same_run_def)
qed

lemma prefill_mlp_Ok:
  assumes M: "sched_ok M" and ok: "infer_ok s" and d: "d = c_dims (i_cfg s)" and w: "layer_ok d w" and b: "0 < b" "b \<le> MAX_BATCH"
    and X: "holds (b_x (i_batch s)) (dm_dim d) b X"
  shows "\<exists>s'. prefill_mlp M w b s = (Ok s' :: (unit, _) outcome) \<and> same_run s s' \<and> i_key s' = i_key s \<and> i_val s' = i_val s
     \<and> holds (b_x (i_batch s')) (dm_dim d) b (\<lambda>i. tok_mlp M (i_cfg s) w (X i))"
proof -
  let ?C = "i_cfg s" let ?B = "i_batch s" let ?n = "dm_ffn d"
  let ?N = "\<lambda>i. norm_vec M (X i) (lw_ffn_norm w) (c_norm_eps ?C)"
  note ok' = infer_ok_simps [OF ok, folded d]
  note room = batch_ok_simps [OF ok'(3) b(2)]
  have wok: "mat_ok (lw_gate w) ?n (dm_dim d)" "mat_ok (lw_up w) ?n (dm_dim d)" "mat_ok (lw_down w) (dm_dim d) ?n" "length (lw_ffn_norm w) = dm_dim d"
    using w by (simp_all add: layer_ok_def)
  obtain bxb where 1: "norm_rows M ?C (lw_ffn_norm w) b (b_x ?B) (b_xb ?B) = (Ok bxb :: (unit, _) outcome)" "length bxb = length (b_xb ?B)"
      "holds bxb (dm_dim d) b ?N"
    using norm_rows_Ok [OF d X room(2) wok(4), of M] by blast
  let ?g = "sub (b_gate ?B) 0 (b * ?n)" let ?u = "sub (b_up ?B) 0 (b * ?n)" let ?xs = "sub bxb 0 (b * dm_dim d)"
  note fg = front_slice [OF room(7)] and fu = front_slice [OF room(8)] and fx = front_rows [OF 1(3)]
  have div: "length ?g div b = ?n" "length ?u div b = ?n" using fg fu b(1) by simp_all
  have jobs: "\<forall>(y, w) \<in> set [(?g, lw_gate w), (?u, lw_up w)]. length y mod b = 0 \<and> mat_ok w (length y div b) (dm_dim d)"
    using wok div fg fu by simp
  obtain A ys where 2: "acts_matmul_group M (i_acts s) [(?g, lw_gate w), (?u, lw_up w)] ?xs b = (Ok (A, ys) :: (unit, _) outcome)"
      "acts_size A = acts_size (i_acts s)"
      "list_all2 (\<lambda>(y, w) y'. product_rows M ?xs (dm_dim d) b w (length y div b) y') [(?g, lw_gate w), (?u, lw_up w)] ys"
    using matmul_group_Ok [OF M _ b ok'(9) jobs, of ?xs] fx by blast
  then obtain y0 y1 where ys: "ys = [y0, y1]" by (auto simp: list_all2_Cons1)
  have p: "product_rows M ?xs (dm_dim d) b (lw_gate w) ?n y0" "product_rows M ?xs (dm_dim d) b (lw_up w) ?n y1" using 2(3) div by (simp_all add: ys)
  note h = conjunct2 [OF conjunct2 [OF fx]]
  note p = product_rows_cong [OF p(1) h] product_rows_cong [OF p(2) h]
  note g = front_write [OF conjunct1 [OF p(1)] conjunct2 [OF p(1)] room(7)] front_write [OF conjunct1 [OF p(2)] conjunct2 [OF p(2)] room(8)]
  let ?bg = "put_at (b_gate ?B) 0 y0" let ?bu = "put_at (b_up ?B) 0 y1"
  let ?G = "\<lambda>i. mat_vec M (lw_gate w) ?n (?N i)" let ?U = "\<lambda>i. mat_vec M (lw_up w) ?n (?N i)"
  have hg: "holds ?bg ?n b ?G" and hu: "holds ?bu ?n b ?U" using g by simp_all
  have "\<exists>bg. each_row ?n b (\<lambda>i g. obind (slice ?bu (i * ?n) ((i + 1) * ?n)) (\<lambda>u. Ok (swiglu M g u))) ?bg = (Ok bg :: (unit, _) outcome)
      \<and> length bg = length ?bg \<and> holds bg ?n b (\<lambda>i. swiglu M (?G i) (?U i))"
  proof (rule each_row_Ok)
    show "b * ?n \<le> length ?bg" using g room by simp
    fix i
    assume i: "i < b"
    have "row_of ?bg ?n i = ?G i" using hg i by (simp add: holds_def)
    then show "obind (slice ?bu (i * ?n) ((i + 1) * ?n)) (\<lambda>u. Ok (swiglu M (row_of ?bg ?n i) u)) = (Ok (swiglu M (?G i) (?U i)) :: (unit, _) outcome)"
      by (simp only: slice_hold [OF hu i] obind.simps)
  qed simp
  then obtain bg where 3: "each_row ?n b (\<lambda>i g. obind (slice ?bu (i * ?n) ((i + 1) * ?n)) (\<lambda>u. Ok (swiglu M g u))) ?bg = (Ok bg :: (unit, _) outcome)"
      "length bg = length (b_gate ?B)" "holds bg ?n b (\<lambda>i. swiglu M (?G i) (?U i))" using g by auto
  note fb = front_rows [OF 3(3)]
  have "acts_room A ?n" "b * dm_dim d \<le> length bxb" using ok'(11) acts_room_size [OF 2(2)] 1(2) room by simp_all
  then obtain A' bxb' where 4: "matmul_into M A bxb (dm_dim d) (lw_down w) (sub bg 0 (b * ?n)) b = (Ok (A', bxb') :: (unit, _) outcome)"
      "acts_size A' = acts_size A" "length bxb' = length bxb" "holds bxb' (dm_dim d) b (\<lambda>i. mat_vec M (lw_down w) (dm_dim d) (swiglu M (?G i) (?U i)))"
    using matmul_into_Ok [OF M wok(3) b _ _ conjunct1 [OF conjunct2 [OF fb]] conjunct2 [OF conjunct2 [OF fb]]] by blast
  obtain bx where 5: "residual_rows M ?C b bxb' (b_x ?B) = (Ok bx :: (unit, _) outcome)" "length bx = length (b_x ?B)"
      "holds bx (dm_dim d) b (\<lambda>i. saxpy M (X i) (c_residual_scale ?C) (mat_vec M (lw_down w) (dm_dim d) (swiglu M (?G i) (?U i))))"
    using residual_rows_Ok [OF d X 4(4), of M] by blast
  let ?s = "s\<lparr>i_batch := ?B\<lparr>b_x := bx, b_xb := bxb', b_gate := bg, b_up := ?bu\<rparr>, i_acts := A'\<rparr>"
  have "prefill_mlp M w b s = (Ok ?s :: (unit, _) outcome)"
    unfolding prefill_mlp_def Let_def d [symmetric] using 1(1) fg fu fx 2(1) g 3(1) fb 4(1) 5(1)
    by (simp only: obind.simps ys split_conv nth_Cons_0 One_nat_def nth_Cons_Suc)
  moreover have "infer_ok ?s" using ok 1(2) 3(2) 4(3) 5(2) g acts_room_size [OF 2(2)] acts_room_size [OF 4(2)]
    by (simp add: infer_ok_def Let_def d [symmetric] batch_ok_def)
  moreover have "holds bx (dm_dim d) b (\<lambda>i. tok_mlp M ?C w (X i))"
    by (rule holds_cong [OF 5(3)]) (simp add: tok_mlp_def Let_def d)
  ultimately show ?thesis by (intro exI [of _ ?s]) (simp add: same_run_def)
qed

lemma prefill_layer_Ok:
  assumes M: "sched_ok M" and ok: "infer_ok s" and C: "C = i_cfg s" and d: "d = c_dims C" and l: "l < dm_layers d" "base + b \<le> dm_ctx d"
    and b: "0 < b" "b \<le> MAX_BATCH" and len: "length kc0 = dm_layers d * dm_ctx d * dm_kv d" "length vc0 = dm_layers d * dm_ctx d * dm_kv d"
    and X: "holds (b_x (i_batch s)) (dm_dim d) b (layer_x M C base toks kc0 vc0 l)"
    and f: "filled d ({..<l} \<times> {base..<base + b}) (key_tab M C base toks kc0 vc0) kc0 (i_key s)"
      "filled d ({..<l} \<times> {base..<base + b}) (val_tab M C base toks kc0 vc0) vc0 (i_val s)"
  shows "\<exists>s'. prefill_layer M base b s l = (Ok s' :: (unit, _) outcome) \<and> same_run s s'
     \<and> holds (b_x (i_batch s')) (dm_dim d) b (layer_x M C base toks kc0 vc0 (Suc l))
     \<and> filled d ({..<Suc l} \<times> {base..<base + b}) (key_tab M C base toks kc0 vc0) kc0 (i_key s')
     \<and> filled d ({..<Suc l} \<times> {base..<base + b}) (val_tab M C base toks kc0 vc0) vc0 (i_val s')"
proof -
  let ?X = "layer_x M C base toks kc0 vc0" let ?K = "key_tab M C base toks kc0 vc0" let ?V = "val_tab M C base toks kc0 vc0"
  let ?w = "ws_layers (c_weights C) ! l"
  have co: "cfg_ok C" using infer_ok_simps(1) [OF ok] by (simp add: C)
  have lo: "layer_ok d ?w" using cfg_ok_simps(4) [OF co] l(1) by (simp add: d)
  have d0: "d = c_dims (i_cfg s)" by (simp add: d C)
  obtain s1 where 1: "prefill_qkv M ?w b s = (Ok s1 :: (unit, _) outcome)" "same_run s s1" "i_key s1 = i_key s" "i_val s1 = i_val s"
     "b_x (i_batch s1) = b_x (i_batch s)"
     "holds (b_q (i_batch s1)) (dm_att d) b (\<lambda>i. mat_vec M (lw_wq ?w) (dm_att d) (norm_vec M (?X l i) (lw_attn_norm ?w) (c_norm_eps C)))"
     "holds (b_k (i_batch s1)) (dm_kv d) b (\<lambda>i. mat_vec M (lw_wk ?w) (dm_kv d) (norm_vec M (?X l i) (lw_attn_norm ?w) (c_norm_eps C)))"
     "holds (b_v (i_batch s1)) (dm_kv d) b (\<lambda>i. mat_vec M (lw_wv ?w) (dm_kv d) (norm_vec M (?X l i) (lw_attn_norm ?w) (c_norm_eps C)))"
    using prefill_qkv_Ok [OF M ok d0 lo b X] C by auto
  have s1: "infer_ok s1" "i_cfg s1 = C" "i_pos s1 = i_pos s" using 1(2) by (simp_all add: same_run_def C)
  have tabs: "?K l (base + i) = key_row M C ?w (base + i) (?X l i)" "?V l (base + i) = val_row M C ?w (base + i) (?X l i)" for i
    by (simp_all add: key_tab_def val_tab_def)
  have A: "{..<Suc l} \<times> {base..<base + b} = {..<l} \<times> {base..<base + b} \<union> {l} \<times> {base..<base + b}" by auto
  obtain s2 where 2: "ofold (prefill_append_token M ?w l base) s1 [0..<b] = (Ok s2 :: (unit, _) outcome)" "same_run s1 s2"
     "b_x (i_batch s2) = b_x (i_batch s1)" "holds (b_q (i_batch s2)) (dm_att d) b (\<lambda>i. fst (tok_qkv M C ?w (base + i) (?X l i)))"
     "filled d ({..<Suc l} \<times> {base..<base + b}) ?K kc0 (i_key s2)" "filled d ({..<Suc l} \<times> {base..<base + b}) ?V vc0 (i_val s2)"
    using prefill_append_Ok [where X = "?X l" and K = ?K and V = ?V and w = ?w and A = "{..<l} \<times> {base..<base + b}", OF s1(1) s1(2) [symmetric] d l b(2) 1(6-8) tabs len] f 1(3,4) unfolding A by auto
  have s2: "infer_ok s2" "i_cfg s2 = C" "i_pos s2 = i_pos s" using 2(2) s1 by (simp_all add: same_run_def)
  obtain s3 where 3: "ofold (prefill_attend_token M l base) s2 [0..<b] = (Ok s3 :: (unit, _) outcome)" "same_run s2 s3"
     "b_x (i_batch s3) = b_x (i_batch s2)" "i_key s3 = i_key s2" "i_val s3 = i_val s2"
     "holds (b_attn (i_batch s3)) (dm_att d) b (\<lambda>i. attn M C (base + i) (cache_at d l (i_key s2)) (cache_at d l (i_val s2)) (fst (tok_qkv M C ?w (base + i) (?X l i))))"
    using prefill_attend_Ok [OF s2(1) s2(2) [symmetric] d l b(2) 2(4), of M] by blast
  have s3: "infer_ok s3" "i_cfg s3 = C" "i_pos s3 = i_pos s" using 3(2) s2 by (simp_all add: same_run_def)
  have d3: "d = c_dims (i_cfg s3)" by (simp add: s3 d)
  have X3: "holds (b_x (i_batch s3)) (dm_dim d) b (?X l)" using X 1(5) 2(3) 3(3) by simp
  obtain s4 where 4: "prefill_project M ?w b s3 = (Ok s4 :: (unit, _) outcome)" "same_run s3 s4" "i_key s4 = i_key s3" "i_val s4 = i_val s3"
     "holds (b_x (i_batch s4)) (dm_dim d) b (\<lambda>i. tok_mid M C ?w (base + i) (?X l i) (cache_at d l (i_key s2)) (cache_at d l (i_val s2)))"
    using prefill_project_Ok [OF M s3(1) d3 lo b X3 3(6)] by (auto simp: tok_mid_def s3 d)
  have s4: "infer_ok s4" "i_cfg s4 = C" "i_pos s4 = i_pos s" using 4(2) s3 by (simp_all add: same_run_def)
  have d4: "d = c_dims (i_cfg s4)" by (simp add: s4 d)
  obtain s5 where 5: "prefill_mlp M ?w b s4 = (Ok s5 :: (unit, _) outcome)" "same_run s4 s5" "i_key s5 = i_key s4" "i_val s5 = i_val s4"
     "holds (b_x (i_batch s5)) (dm_dim d) b (\<lambda>i. tok_mlp M C ?w (tok_mid M C ?w (base + i) (?X l i) (cache_at d l (i_key s2)) (cache_at d l (i_val s2))))"
    using prefill_mlp_Ok [OF M s4(1) d4 lo b 4(5)] s4(2) by auto
  have "holds (b_x (i_batch s5)) (dm_dim d) b (?X (Suc l))"
    by (rule holds_cong [OF 5(5)], rule layer_x_step [OF d l(1) _ 2(5,6)]) (use l in auto)
  moreover have "index (ws_layers (c_weights C)) l = (Ok ?w :: (unit, _) outcome)" using cfg_ok_simps(5) [OF co] l(1) by (simp add: d)
  moreover have "dm_kv_heads (c_dims C) \<noteq> 0" using cfg_ok_simps(1) [OF co] by (simp add: dims_ok_def)
  ultimately show ?thesis
    using 1(1) 2(1,5,6) 3(1,4,5) 4(1,3,4) 5(1-4) s2(2) s4 by (intro exI [of _ s5]) (simp add: prefill_layer_def C [symmetric] same_run_def)
qed

subsection \<open>Prefill\<close>

lemma prefill_chunk_Ok:
  assumes M: "sched_ok M" and ok: "infer_ok s" and toks: "tokens_ok s toks" and b: "0 < length toks" "length toks \<le> MAX_BATCH"
  shows "\<exists>s'. prefill_chunk M s toks = (Ok s' :: (unit, _) outcome) \<and> ran M s toks s'"
proof -
  let ?C = "i_cfg s" let ?d = "c_dims ?C" let ?base = "i_pos s" let ?b = "length toks"
  let ?K = "key_tab M ?C ?base toks (i_key s) (i_val s)" let ?V = "val_tab M ?C ?base toks (i_key s) (i_val s)"
  let ?X = "layer_x M ?C ?base toks (i_key s) (i_val s)"
  have co: "cfg_ok ?C" by (rule infer_ok_simps(1) [OF ok])
  note len = infer_ok_simps(6,7) [OF ok]
  note room = batch_ok_simps [OF infer_ok_simps(3) [OF ok] b(2)]
  have emb: "mat_ok (ws_embed (c_weights ?C)) (dm_vocab ?d) (dm_dim ?d)" using co by (simp add: cfg_ok_def Let_def)
  have tk: "unat (toks ! i) < dm_vocab ?d" if "i < ?b" for i using toks that by (simp add: tokens_ok_def Let_def)
  have fits: "?base + ?b \<le> dm_ctx ?d" using toks by (simp add: tokens_ok_def Let_def)
  obtain bx where 1: "prefill_embed M ?C toks (b_x (i_batch s)) = (Ok bx :: (unit, _) outcome)" "length bx = length (b_x (i_batch s))"
      "holds bx (dm_dim ?d) ?b (?X 0)"
  proof -
    have "\<exists>bx. prefill_embed M ?C toks (b_x (i_batch s)) = (Ok bx :: (unit, _) outcome) \<and> length bx = length (b_x (i_batch s)) \<and> holds bx (dm_dim ?d) ?b (?X 0)"
      unfolding prefill_embed_def layer_x.simps
      by (rule each_row_Ok [OF room(1)]) (use embed_token_Ok [OF emb tk length_row [OF _ room(1)]] in auto)
    then show ?thesis using that by blast
  qed
  let ?s1 = "s\<lparr>i_batch := (i_batch s)\<lparr>b_x := bx\<rparr>\<rparr>"
  have ok1: "infer_ok ?s1" using ok 1(2) by (simp add: infer_ok_def Let_def batch_ok_def)
  have "\<exists>s'. ofold (prefill_layer M ?base ?b) ?s1 [0..<c] = (Ok s' :: (unit, _) outcome) \<and> same_run ?s1 s' \<and> holds (b_x (i_batch s')) (dm_dim ?d) ?b (?X c)
     \<and> filled ?d ({..<c} \<times> {?base..<?base + ?b}) ?K (i_key s) (i_key s') \<and> filled ?d ({..<c} \<times> {?base..<?base + ?b}) ?V (i_val s) (i_val s')"
    if "c \<le> dm_layers ?d" for c
    using that
  proof (induction c)
    case 0
    show ?case using ok1 1(3) by (simp add: same_run_def filled_empty)
  next
    case (Suc c)
    then obtain s' where 2: "ofold (prefill_layer M ?base ?b) ?s1 [0..<c] = (Ok s' :: (unit, _) outcome)" "same_run ?s1 s'" "holds (b_x (i_batch s')) (dm_dim ?d) ?b (?X c)"
       "filled ?d ({..<c} \<times> {?base..<?base + ?b}) ?K (i_key s) (i_key s')" "filled ?d ({..<c} \<times> {?base..<?base + ?b}) ?V (i_val s) (i_val s')" by auto
    have s': "infer_ok s'" "?C = i_cfg s'" "c < dm_layers ?d" using 2(2) Suc.prems by (simp_all add: same_run_def)
    obtain s2 where "prefill_layer M ?base ?b s' c = (Ok s2 :: (unit, _) outcome)" "same_run s' s2" "holds (b_x (i_batch s2)) (dm_dim ?d) ?b (?X (Suc c))"
       "filled ?d ({..<Suc c} \<times> {?base..<?base + ?b}) ?K (i_key s) (i_key s2)" "filled ?d ({..<Suc c} \<times> {?base..<?base + ?b}) ?V (i_val s) (i_val s2)"
      using prefill_layer_Ok [OF M s'(1,2) refl s'(3) fits b len 2(3-5)] by blast
    then show ?case using 2(1,2) by (intro exI [of _ s2]) (simp add: ofold_append same_run_def)
  qed
  from this [of "dm_layers ?d"] obtain s' where 2: "ofold (prefill_layer M ?base ?b) ?s1 [0..<dm_layers ?d] = (Ok s' :: (unit, _) outcome)" "same_run ?s1 s'"
     "holds (b_x (i_batch s')) (dm_dim ?d) ?b (?X (dm_layers ?d))"
     "filled ?d ({..<dm_layers ?d} \<times> {?base..<?base + ?b}) ?K (i_key s) (i_key s')" "filled ?d ({..<dm_layers ?d} \<times> {?base..<?base + ?b}) ?V (i_val s) (i_val s')" by auto
  have s': "infer_ok s'" "i_cfg s' = ?C" "i_pos s' = ?base" using 2(2) by (simp_all add: same_run_def)
  have last: "slice (b_x (i_batch s')) ((?b - 1) * dm_dim ?d) (?b * dm_dim ?d) = (Ok (?X (dm_layers ?d) (?b - 1)) :: (unit, _) outcome)"
  proof -
    have "?b - 1 + 1 = ?b" "?b - 1 < ?b" using b(1) by simp_all
    then show ?thesis using slice_hold [OF 2(3), of "?b - 1"] by (simp only:)
  qed
  have "length (?X (dm_layers ?d) (?b - 1)) = dm_dim ?d" by (rule layer_x_length [OF co tk]) (use b in simp)
  then obtain s2 where 3: "classify M (?X (dm_layers ?d) (?b - 1)) s' = (Ok s2 :: (unit, _) outcome)" "same_run s' s2" "i_key s2 = i_key s'" "i_val s2 = i_val s'"
      "i_logits s2 = logits_of M ?C (?X (dm_layers ?d) (?b - 1))"
    using classify_Ok [OF M s'(1)] s'(2) by metis
  have s2: "infer_ok s2" "i_cfg s2 = ?C" "i_pos s2 = ?base" using 3(2) s' by (simp_all add: same_run_def)
  have "1 \<le> ?b \<and> ?b \<le> MAX_BATCH" using b by (simp add: Suc_le_eq)
  then have "prefill_chunk M s toks = (Ok (s2\<lparr>i_pos := i_pos s2 + ?b\<rparr>) :: (unit, _) outcome)"
    unfolding prefill_chunk_def Let_def using fits 1(1) 2(1) last 3(1) by (simp only: assert_simps obind.simps simp_thms)
  moreover have "infer_ok (s2\<lparr>i_pos := i_pos s2 + ?b\<rparr>)" using s2 fits by (simp add: infer_ok_def Let_def)
  ultimately show ?thesis using 2(4,5) 3(3-5) s2 by (intro exI [of _ "s2\<lparr>i_pos := i_pos s2 + ?b\<rparr>"]) (simp add: ran_def Let_def)
qed

lemma MAX_BATCH_pos [simp]: "0 < MAX_BATCH"
  by (simp add: MAX_BATCH_def)

lemma ran_ok: "ran M s toks a \<Longrightarrow> infer_ok a \<and> i_cfg a = i_cfg s \<and> i_pos a = i_pos s + length toks"
  by (simp add: ran_def Let_def)

lemma same_view_tokens: "same_view s s' \<Longrightarrow> tokens_ok s' toks = tokens_ok s toks"
  by (simp add: same_view_def tokens_ok_def)

lemma chunks_run:
  assumes M: "sched_ok M" and "\<forall>c \<in> set cs. 0 < length c \<and> length c \<le> MAX_BATCH" and "infer_ok s" and "infer_ok s'" and "same_view s s'"
    and "tokens_ok s (concat cs)"
  shows "\<exists>a b. ofold (prefill_chunk M) s cs = (Ok a :: (unit, _) outcome) \<and> ofold (forward M) s' (concat cs) = (Ok b :: (unit, _) outcome)
     \<and> same_view a b \<and> infer_ok a \<and> infer_ok b \<and> i_pos a = i_pos s + length (concat cs) \<and> (cs \<noteq> [] \<longrightarrow> i_logits a = i_logits b)"
  using assms(2-6)
proof (induction cs arbitrary: s s')
  case (Cons c cs)
  have c: "0 < length c" "length c \<le> MAX_BATCH" "tokens_ok s c" using Cons.prems by (auto simp: tokens_ok_def Let_def)
  obtain a where a: "prefill_chunk M s c = (Ok a :: (unit, _) outcome)" "ran M s c a" using prefill_chunk_Ok [OF M Cons.prems(2) c(3,1,2)] by blast
  obtain b where b: "ofold (forward M) s' c = (Ok b :: (unit, _) outcome)" "ran M s' c b"
    using decode_Ok [OF M Cons.prems(3)] c(3) same_view_tokens [OF Cons.prems(4)] by blast
  note u = ran_unique [OF a(2) b(2) Cons.prems(4,2)]
  note ra = ran_ok [OF a(2)] and rb = ran_ok [OF b(2)]
  have "tokens_ok a (concat cs)" using Cons.prems(5) ra by (auto simp: tokens_ok_def Let_def)
  then obtain a' b' where 2: "ofold (prefill_chunk M) a cs = (Ok a' :: (unit, _) outcome)" "ofold (forward M) b (concat cs) = (Ok b' :: (unit, _) outcome)"
     "same_view a' b'" "infer_ok a'" "infer_ok b'" "i_pos a' = i_pos a + length (concat cs)" "cs \<noteq> [] \<longrightarrow> i_logits a' = i_logits b'"
    using Cons.IH [of a b] Cons.prems(1) ra rb u by auto
  have "i_logits a' = i_logits b'"
  proof (cases "cs = []")
    case True
    then have "a' = a" "b' = b" using 2(1,2) by simp_all
    then show ?thesis using u c(1) by auto
  qed (use 2(7) in simp)
  then show ?case using a(1) b(1) 2 ra by (intro exI [of _ a'] exI [of _ b']) (simp add: ofold_append)
qed simp

subsection \<open>Properties\<close>

text \<open>C26: Prefill is decoding. On a well-formed context, for any non-empty prompt of vocabulary tokens that fits the
  remaining window, \<open>prefill\<close> (in batches of \<open>MAX_BATCH\<close>, with the batched kernels) and calling \<open>forward\<close>
  token by token both succeed, and leave bit-identical logits, key and value caches and position; both
  contexts are well-formed again. This holds for every floating-point unit, feature set and schedule of the worker pool.\<close>

theorem prefill_is_decoding:
  assumes "sched_ok M" and "infer_ok s" and "tokens_ok s toks" and "toks \<noteq> []"
  shows "\<exists>a b. prefill M s toks = (Ok a :: (unit, _) outcome) \<and> ofold (forward M) s toks = (Ok b :: (unit, _) outcome)
     \<and> i_logits a = i_logits b \<and> i_key a = i_key b \<and> i_val a = i_val b \<and> i_pos a = i_pos b \<and> i_pos a = i_pos s + length toks
     \<and> infer_ok a \<and> infer_ok b"
proof -
  have c: "concat (chunks MAX_BATCH toks) = toks" by (rule concat_chunks) simp
  then have "chunks MAX_BATCH toks \<noteq> []" using assms(4) by auto
  then show ?thesis
    using chunks_run [OF assms(1) _ assms(2,2), of "chunks MAX_BATCH toks"] chunks_bounds [of _ MAX_BATCH toks] assms(3,4)
    by (auto simp: c prefill_def same_view_def)
qed

lemma layer_x_fresh: "layer_x M C 0 toks kc vc l = layer_x M C 0 toks kc' vc' l"
  by (induction l) (simp_all add: Let_def)

text \<open>A reset context has forgotten everything: after \<open>reset\<close> the logits of any prompt depend only on the model
  and the prompt, not on what the caches and buffers held before, so no earlier conversation shows through.\<close>

theorem reset_forgets:
  assumes "sched_ok M" and "infer_ok s" and "infer_ok s'" and "i_cfg s = i_cfg s'" and "tokens_ok (infer_reset s) toks" and "toks \<noteq> []"
  shows "\<exists>a b. prefill M (infer_reset s) toks = (Ok a :: (unit, _) outcome) \<and> prefill M (infer_reset s') toks = (Ok b :: (unit, _) outcome)
     \<and> i_logits a = i_logits b"
proof -
  have ok: "infer_ok (infer_reset s)" "infer_ok (infer_reset s')" using assms(2,3) by (simp_all add: infer_ok_def Let_def infer_reset_def)
  have tk: "tokens_ok (infer_reset s') toks" using assms(4,5) by (simp add: tokens_ok_def infer_reset_def)
  have logits: "\<exists>a. prefill M t toks = (Ok a :: (unit, _) outcome)
      \<and> i_logits a = logits_of M (i_cfg t) (layer_x M (i_cfg t) (i_pos t) toks (i_key t) (i_val t) (dm_layers (c_dims (i_cfg t))) (length toks - 1))"
    if t: "infer_ok t" "tokens_ok t toks" for t
  proof -
    obtain b where b: "ofold (forward M) t toks = (Ok b :: (unit, _) outcome)" "ran M t toks b" using decode_Ok [OF assms(1) t] by blast
    have c: "concat (chunks MAX_BATCH toks) = toks" by (rule concat_chunks) simp
    then have ne: "chunks MAX_BATCH toks \<noteq> []" using assms(6) by auto
    then obtain a where "ofold (prefill_chunk M) t (chunks MAX_BATCH toks) = (Ok a :: (unit, _) outcome)" "i_logits a = i_logits b"
      using chunks_run [OF assms(1) _ t(1) t(1), of "chunks MAX_BATCH toks"] chunks_bounds [of _ MAX_BATCH toks] t(2) b(1)
      by (auto simp: c same_view_def)
    then show ?thesis using b(2) assms(6) by (simp add: prefill_def ran_def Let_def)
  qed
  show ?thesis using logits [OF ok(1) assms(5)] logits [OF ok(2) tk] assms(4) layer_x_fresh [of M "i_cfg s'" toks]
    by (auto simp: infer_reset_def) (metis layer_x_fresh)
qed

subsection \<open>A small context\<close>

definition demo_block :: block_q8_0 where
  "demo_block = \<lparr>q8_d = 0x3c00, q8_qs = replicate 32 1\<rparr>"

definition demo_dims :: dims where
  "demo_dims = \<lparr>dm_dim = 32, dm_att = 32, dm_layers = 1, dm_heads = 2, dm_kv_heads = 1, dm_head = 16, dm_kv = 16, dm_ffn = 32, dm_vocab = 2, dm_ctx = 4\<rparr>"

definition demo_layer :: layer_weights where
  "demo_layer = \<lparr>lw_attn_norm = replicate 32 F_ONE, lw_q_norm = None, lw_k_norm = None, lw_wq = MQ8 (replicate 32 demo_block),
     lw_wk = MQ8 (replicate 16 demo_block), lw_wv = MQ8 (replicate 16 demo_block), lw_wo = MQ8 (replicate 32 demo_block),
     lw_ffn_norm = replicate 32 F_ONE, lw_gate = MQ8 (replicate 32 demo_block), lw_up = MQ8 (replicate 32 demo_block), lw_down = MQ8 (replicate 32 demo_block)\<rparr>"

definition demo_cfg :: cfg where
  "demo_cfg = \<lparr>c_dims = demo_dims, c_weights = \<lparr>ws_embed = MQ8 (replicate 2 demo_block), ws_layers = [demo_layer], ws_out_norm = replicate 32 F_ONE,
       ws_output = MQ8 (replicate 2 demo_block)\<rparr>, c_norm_eps = 0, c_rope_style = Neox, c_embed_scale = F_TWO, c_att_score_scale = F_HALF,
     c_residual_scale = F_ONE, c_logit_recip = F_ONE, c_freqs = replicate 8 F_ONE\<rparr>"

definition demo_infer :: "f16 \<Rightarrow> infer" where
  "demo_infer junk = \<lparr>i_cfg = demo_cfg,
     i_one = \<lparr>v_x = replicate 32 0, v_xb = replicate 32 0, v_xb2 = replicate 32 0, v_q = replicate 32 0, v_attn_out = replicate 32 0,
       v_k = replicate 16 0, v_v = replicate 16 0, v_gate = replicate 32 0, v_up = replicate 32 0\<rparr>,
     i_batch = \<lparr>b_x = replicate 2048 0, b_xb = replicate 2048 0, b_q = replicate 2048 0, b_attn = replicate 2048 0,
       b_k = replicate 1024 0, b_v = replicate 1024 0, b_gate = replicate 2048 0, b_up = replicate 2048 0\<rparr>,
     i_att = replicate 8 0, i_logits = replicate 2 0, i_acts = \<lparr>a_q8 = replicate 64 demo_block, a_q8k = []\<rparr>,
     i_key = replicate 64 junk, i_val = replicate 64 junk, i_pos = 0\<rparr>"

lemma demo_infer_ok: "infer_ok (demo_infer junk)" "tokens_ok (demo_infer junk) [1, 0]"
  by (simp_all add: infer_ok_def demo_infer_def demo_cfg_def cfg_ok_def demo_dims_def dims_ok_def mat_ok_def layer_ok_def demo_layer_def
      scratch_ok_def batch_ok_def acts_room_def MAX_BATCH_def QK8_0_def QK_K_def demo_block_def tokens_ok_def)

lemma prefill_is_decoding_witness:
  "\<exists>a b. prefill demo_machine (demo_infer 0) [1, 0] = (Ok a :: (unit, _) outcome)
     \<and> ofold (forward demo_machine) (demo_infer 0) [1, 0] = (Ok b :: (unit, _) outcome) \<and> i_logits a = i_logits b"
  using prefill_is_decoding [OF demo_machine_sched(1) demo_infer_ok, of 0] by auto

lemma reset_forgets_witness:
  "\<exists>a b. prefill demo_machine (infer_reset (demo_infer 0)) [1, 0] = (Ok a :: (unit, _) outcome)
     \<and> prefill demo_machine (infer_reset (demo_infer 0x3c00)) [1, 0] = (Ok b :: (unit, _) outcome) \<and> i_logits a = i_logits b"
proof (rule reset_forgets [OF demo_machine_sched(1) demo_infer_ok(1) demo_infer_ok(1)])
  show "tokens_ok (infer_reset (demo_infer 0)) [1, 0]" using demo_infer_ok(2) [of 0] by (simp add: tokens_ok_def infer_reset_def demo_infer_def)
qed (simp_all add: demo_infer_def)

end
