(* ===== verification/Nr_Context.thy ===== *)
theory Nr_Context
  imports Nr_Prefill
begin

text \<open>
  Construction of the inference context: \<open>dims_of\<close>, \<open>required_bytes\<close> and \<open>InferCtx::new\<close> of
  \<^verbatim>\<open>crates/nr-model/src/infer.rs\<close>, over the bump arena of \<^verbatim>\<open>crates/nr-runtime/src/arena.rs\<close>. The allocation
  callback is a parameter; that the boot code's arena is large enough is proved for its own one.
  The tick clock of \<^verbatim>\<open>crates/nr-runtime/src/clock.rs\<close> is here too; the processor's counter is a parameter.
\<close>

subsection \<open>The arena\<close>

record arena =
  ar_base :: nat
  ar_size :: nat
  ar_offset :: nat

definition arena_new :: "nat \<Rightarrow> nat \<Rightarrow> arena" where
  "arena_new base sz = \<lparr>ar_base = base, ar_size = sz, ar_offset = 0\<rparr>"

definition arena_capacity :: "arena \<Rightarrow> nat" where "arena_capacity a = ar_size a"
definition arena_used :: "arena \<Rightarrow> nat" where "arena_used a = ar_offset a"

text \<open>The address of the slice, with the arena after it.\<close>

definition alloc_bytes :: "arena \<Rightarrow> nat \<Rightarrow> nat \<Rightarrow> arena \<times> nat option" where
  "alloc_bytes a len align =
     (case checked_add (ar_offset a) (align - 1) of None \<Rightarrow> (a, None)
      | Some v \<Rightarrow>
          let start = unat ((of_nat v :: u64) AND NOT (of_nat align - 1)) in
          (case checked_add start len of None \<Rightarrow> (a, None)
           | Some fin \<Rightarrow> if fin > ar_size a then (a, None) else (a\<lparr>ar_offset := fin\<rparr>, Some (ar_base a + start))))"

definition alloc_zeroed :: "'b \<Rightarrow> nat \<Rightarrow> nat \<Rightarrow> arena \<Rightarrow> nat \<Rightarrow> arena \<times> 'b list option" where
  "alloc_zeroed zero elem align a n =
     (case alloc_bytes a (n * elem mod usize_limit) (max align 64) of (a, None) \<Rightarrow> (a, None)
      | (a, Some p) \<Rightarrow> (a, Some (replicate n zero)))"

subsection \<open>Sizes\<close>

definition dims_of :: "model \<Rightarrow> nat \<Rightarrow> dims" where
  "dims_of model ctx = (let m = md_meta model in
     \<lparr>dm_dim = unat (mt_dim m), dm_att = unat (mt_n_heads m * mt_head_dim m), dm_layers = unat (mt_n_layers m),
      dm_heads = unat (mt_n_heads m), dm_kv_heads = unat (mt_n_kv_heads m), dm_head = unat (mt_head_dim m),
      dm_kv = unat (mt_n_kv_heads m * mt_head_dim m), dm_ffn = unat (mt_ffn_dim m), dm_vocab = unat (mt_vocab m), dm_ctx = ctx\<rparr>)"

definition Q8_0_SIZE :: nat where "Q8_0_SIZE = 34"
definition Q8K_SIZE :: nat where "Q8K_SIZE = 292"

text \<open>The sum, before it wraps to a \<open>usize\<close>.\<close>

definition context_bytes :: "dims \<Rightarrow> nat" where
  "context_bytes d =
     (let maxd = max (max (dm_dim d) (dm_att d)) (dm_ffn d);
          f32s = dm_dim d * 3 + dm_att d * 2 + dm_kv d * 2 + dm_heads d * dm_ctx d + dm_ffn d * 2 + dm_vocab d + dm_head d div 2;
          batch_f32s = MAX_BATCH * (dm_dim d * 2 + dm_att d * 2 + dm_kv d * 2 + dm_ffn d * 2);
          acts = MAX_BATCH * (maxd div QK8_0 * Q8_0_SIZE + maxd div QK_K * Q8K_SIZE);
          kv = 2 * dm_layers d * dm_ctx d * dm_kv d * 2
      in (f32s + batch_f32s) * 4 + acts + kv + 64 * 40)"

definition required_bytes :: "model \<Rightarrow> nat \<Rightarrow> nat" where
  "required_bytes model ctx = context_bytes (dims_of model ctx) mod usize_limit"

text \<open>The arena that the boot code makes for a model: 8 MiB more, in whole pages.\<close>

definition boot_arena :: "nat \<Rightarrow> model \<Rightarrow> nat \<Rightarrow> arena" where
  "boot_arena base model ctx =
     (let need = (required_bytes model ctx + 8 * 1024 * 1024) mod usize_limit;
          arena_bytes = (need div 4096 + (if need mod 4096 > 0 then 1 else 0)) * 4096 mod usize_limit
      in arena_new base arena_bytes)"

subsection \<open>Taking buffers\<close>

text \<open>An allocation callback returns the pointer, or null as \<open>None\<close>; its memory is zeroed.\<close>

type_synonym 'a alloc_fn = "'a \<Rightarrow> nat \<Rightarrow> nat \<Rightarrow> 'a \<times> nat option"

definition take_buf :: "'a alloc_fn \<Rightarrow> 'b \<Rightarrow> nat \<Rightarrow> nat \<Rightarrow> 'a \<Rightarrow> nat \<Rightarrow> ('e, 'b list \<times> 'a) outcome" where
  "take_buf alloc zero elem align st n =
     (let bytes = max (n * elem mod usize_limit) 1 in
      case alloc st bytes (max align 64) of (st, None) \<Rightarrow> Panic | (st, Some p) \<Rightarrow> Ok (replicate n zero, st))"

abbreviation take_f32 :: "'a alloc_fn \<Rightarrow> 'a \<Rightarrow> nat \<Rightarrow> ('e, f32 list \<times> 'a) outcome" where
  "take_f32 alloc \<equiv> take_buf alloc F_ZERO 4 4"

subsection \<open>Weights\<close>

definition f32_tensor :: "model \<Rightarrow> tensor_kind \<Rightarrow> nat \<Rightarrow> nat \<Rightarrow> (parse_error, f32 list) outcome" where
  "f32_tensor model kind layer len =
     obind (model_tensor model kind layer) (\<lambda>v. obind (view_f32 v) (\<lambda>s.
     if length s \<noteq> len then Err (MissingTensor ''bad f32 tensor shape'') else Ok s))"

definition mat_tensor :: "model \<Rightarrow> tensor_kind \<Rightarrow> nat \<Rightarrow> nat \<Rightarrow> nat \<Rightarrow> (parse_error, qmat) outcome" where
  "mat_tensor model kind layer rows cols =
     obind (model_tensor model kind layer) (\<lambda>v.
     if tv_rows v \<noteq> rows \<or> tv_cols v \<noteq> cols then Err (MissingTensor ''bad matrix shape'') else qmat_from_view v)"

definition layer_of :: "model \<Rightarrow> dims \<Rightarrow> bool \<Rightarrow> nat \<Rightarrow> (parse_error, layer_weights) outcome" where
  "layer_of model d is_qwen l =
     obind (f32_tensor model AttnNorm l (dm_dim d)) (\<lambda>attn_norm.
     obind (if is_qwen then obind (f32_tensor model AttnQNorm l (dm_head d)) (\<lambda>n. Ok (Some n)) else Ok None) (\<lambda>q_norm.
     obind (if is_qwen then obind (f32_tensor model AttnKNorm l (dm_head d)) (\<lambda>n. Ok (Some n)) else Ok None) (\<lambda>k_norm.
     obind (mat_tensor model AttnQ l (dm_att d) (dm_dim d)) (\<lambda>wq.
     obind (mat_tensor model AttnK l (dm_kv d) (dm_dim d)) (\<lambda>wk.
     obind (mat_tensor model AttnV l (dm_kv d) (dm_dim d)) (\<lambda>wv.
     obind (mat_tensor model AttnO l (dm_dim d) (dm_att d)) (\<lambda>wo.
     obind (f32_tensor model FfnNorm l (dm_dim d)) (\<lambda>ffn_norm.
     obind (mat_tensor model FfnGate l (dm_ffn d) (dm_dim d)) (\<lambda>gate.
     obind (mat_tensor model FfnUp l (dm_ffn d) (dm_dim d)) (\<lambda>up.
     obind (mat_tensor model FfnDown l (dm_dim d) (dm_ffn d)) (\<lambda>down.
     Ok \<lparr>lw_attn_norm = attn_norm, lw_q_norm = q_norm, lw_k_norm = k_norm, lw_wq = wq, lw_wk = wk, lw_wv = wv, lw_wo = wo,
         lw_ffn_norm = ffn_norm, lw_gate = gate, lw_up = up, lw_down = down\<rparr>)))))))))))"

definition weights_of :: "model \<Rightarrow> dims \<Rightarrow> (parse_error, weights) outcome" where
  "weights_of model d =
     obind (mat_tensor model TokEmbed 0 (dm_vocab d) (dm_dim d)) (\<lambda>emb.
     let is_qwen = (mt_arch (md_meta model) = Qwen3) in
     if \<not> is_qwen \<and> has_tensor model AttnQNorm then Err (MissingTensor ''unexpected attn_q_norm for this arch'') else
     obind (omap (layer_of model d is_qwen) [0..<dm_layers d]) (\<lambda>layers.
     obind (f32_tensor model OutputNorm 0 (dm_dim d)) (\<lambda>out_norm.
     obind (if mt_flags (md_meta model) AND FLAG_TIED_EMBEDDINGS \<noteq> 0 then Ok emb else mat_tensor model Output 0 (dm_vocab d) (dm_dim d)) (\<lambda>out.
     Ok \<lparr>ws_embed = emb, ws_layers = layers, ws_out_norm = out_norm, ws_output = out\<rparr>))))"

definition freqs_of :: "'z fpu_scheme \<Rightarrow> model \<Rightarrow> dims \<Rightarrow> f32 list \<Rightarrow> (parse_error, f32 list) outcome" where
  "freqs_of F model d freqs =
     (let m = md_meta model;
          scaling = (if f_lt F_ZERO (mt_rope_factor m) then
              Some \<lparr>ls_factor = mt_rope_factor m, ls_low = mt_rope_low m, ls_high = mt_rope_high m, ls_orig = mt_rope_orig_ctx m\<rparr> else None) in
      if has_tensor model RopeFreqs then
        obind (rope_freqs F freqs (dm_head d) (mt_rope_theta m) None) (\<lambda>freqs.
        obind (model_tensor model RopeFreqs 0) (\<lambda>v. obind (view_f32 v) (\<lambda>factors.
        Ok (zip_update (fdiv F) freqs factors))))
      else rope_freqs F freqs (dm_head d) (mt_rope_theta m) scaling)"

subsection \<open>The context\<close>

definition style_of :: "arch \<Rightarrow> rope_style" where
  "style_of a = (case a of Llama3 \<Rightarrow> Adjacent | Granite \<Rightarrow> Adjacent | Qwen3 \<Rightarrow> Neox)"

definition zero_q8 :: block_q8_0 where "zero_q8 = \<lparr>q8_d = 0, q8_qs = replicate 32 0\<rparr>"
definition zero_q8k :: block_q8k where "zero_q8k = \<lparr>k8_d = 0, k8_qs = replicate 256 0, k8_bsums = replicate 16 0\<rparr>"

text \<open>The decode buffers, the activations, the prefill buffers and the caches, in the order the code takes them.\<close>

definition take_scratch :: "'a alloc_fn \<Rightarrow> dims \<Rightarrow> 'a \<Rightarrow> ('e, (scratch \<times> f32 list \<times> f32 list) \<times> 'a) outcome" where
  "take_scratch alloc d st =
     obind (take_f32 alloc st (dm_dim d)) (\<lambda>(x, st). obind (take_f32 alloc st (dm_dim d)) (\<lambda>(xb, st).
     obind (take_f32 alloc st (dm_dim d)) (\<lambda>(xb2, st). obind (take_f32 alloc st (dm_att d)) (\<lambda>(q, st).
     obind (take_f32 alloc st (dm_att d)) (\<lambda>(ao, st). obind (take_f32 alloc st (dm_kv d)) (\<lambda>(k, st).
     obind (take_f32 alloc st (dm_kv d)) (\<lambda>(v, st). obind (take_f32 alloc st (dm_heads d * dm_ctx d)) (\<lambda>(att, st).
     obind (take_f32 alloc st (dm_ffn d)) (\<lambda>(gate, st). obind (take_f32 alloc st (dm_ffn d)) (\<lambda>(up, st).
     obind (take_f32 alloc st (dm_vocab d)) (\<lambda>(logits, st).
     Ok ((\<lparr>v_x = x, v_xb = xb, v_xb2 = xb2, v_q = q, v_attn_out = ao, v_k = k, v_v = v, v_gate = gate, v_up = up\<rparr>, att, logits), st))))))))))))"

definition take_acts :: "'a alloc_fn \<Rightarrow> dims \<Rightarrow> 'a \<Rightarrow> ('e, acts \<times> 'a) outcome" where
  "take_acts alloc d st =
     (let maxd = max (max (dm_dim d) (dm_att d)) (dm_ffn d) in
      obind (take_buf alloc zero_q8 Q8_0_SIZE 2 st (MAX_BATCH * (maxd div QK8_0))) (\<lambda>(q8, st).
      obind (take_buf alloc zero_q8k Q8K_SIZE 4 st (MAX_BATCH * (maxd div QK_K))) (\<lambda>(q8k, st).
      Ok (\<lparr>a_q8 = q8, a_q8k = q8k\<rparr>, st))))"

definition take_batch :: "'a alloc_fn \<Rightarrow> dims \<Rightarrow> 'a \<Rightarrow> ('e, batch_scratch \<times> 'a) outcome" where
  "take_batch alloc d st =
     obind (take_f32 alloc st (MAX_BATCH * dm_dim d)) (\<lambda>(bx, st). obind (take_f32 alloc st (MAX_BATCH * max (dm_dim d) (dm_att d))) (\<lambda>(bxb, st).
     obind (take_f32 alloc st (MAX_BATCH * dm_att d)) (\<lambda>(bq, st). obind (take_f32 alloc st (MAX_BATCH * dm_att d)) (\<lambda>(ba, st).
     obind (take_f32 alloc st (MAX_BATCH * dm_kv d)) (\<lambda>(bk, st). obind (take_f32 alloc st (MAX_BATCH * dm_kv d)) (\<lambda>(bv, st).
     obind (take_f32 alloc st (MAX_BATCH * dm_ffn d)) (\<lambda>(bg, st). obind (take_f32 alloc st (MAX_BATCH * dm_ffn d)) (\<lambda>(bu, st).
     Ok (\<lparr>b_x = bx, b_xb = bxb, b_q = bq, b_attn = ba, b_k = bk, b_v = bv, b_gate = bg, b_up = bu\<rparr>, st)))))))))"

definition infer_new :: "'z fpu_scheme \<Rightarrow> 'a alloc_fn \<Rightarrow> model \<Rightarrow> nat \<Rightarrow> 'a \<Rightarrow> (parse_error, infer \<times> 'a) outcome" where
  "infer_new F alloc model ctx st =
     (let m = md_meta model; d = dims_of model ctx in
      obind (weights_of model d) (\<lambda>W.
      obind (take_f32 alloc st (dm_head d div 2)) (\<lambda>(freqs, st).
      obind (freqs_of F model d freqs) (\<lambda>freqs.
      obind (take_scratch alloc d st) (\<lambda>((S, att, logits), st).
      obind (take_acts alloc d st) (\<lambda>(A, st).
      obind (take_batch alloc d st) (\<lambda>(B, st).
      obind (take_buf alloc (0 :: f16) 2 2 st (dm_layers d * ctx * dm_kv d)) (\<lambda>(kc, st).
      obind (take_buf alloc (0 :: f16) 2 2 st (dm_layers d * ctx * dm_kv d)) (\<lambda>(vc, st).
      Ok (\<lparr>i_cfg = \<lparr>c_dims = d, c_weights = W, c_norm_eps = mt_norm_eps m, c_rope_style = style_of (mt_arch m), c_embed_scale = mt_embed_scale m,
              c_att_score_scale = (if \<not> f_eq (mt_attn_scale m) F_ZERO then mt_attn_scale m
                else fdiv F F_ONE (f_sqrt F (f_of_int F (uint (mt_head_dim m))))),
              c_residual_scale = mt_residual_scale m, c_logit_recip = fdiv F F_ONE (mt_logit_scale m), c_freqs = freqs\<rparr>,
            i_one = S, i_batch = B, i_att = att, i_logits = logits, i_acts = A, i_key = kc, i_val = vc, i_pos = 0\<rparr>, st))))))))))"

subsection \<open>The clock\<close>

text \<open>\<open>rdtsc\<close> is the processor's counter; calibration reads it on both sides of a 20 ms stall.\<close>

definition calibrate :: "u64 \<Rightarrow> u64 \<Rightarrow> u64" where
  "calibrate t0 t1 = max ((t1 - t0) div 20) 1"

definition ticks_to_ms :: "u64 \<Rightarrow> u64 \<Rightarrow> ('e, u64) outcome" where
  "ticks_to_ms ticks_per_ms dt = (if ticks_per_ms = 0 then Panic else Ok (dt div ticks_per_ms))"

definition rate_milli :: "u64 \<Rightarrow> u64 \<Rightarrow> u64 \<Rightarrow> ('e, u32) outcome" where
  "rate_milli ticks_per_ms count dt =
     obind (ticks_to_ms ticks_per_ms dt) (\<lambda>t. let ms = max t 1 in Ok (ucast (count * 1000000 div ms)))"

subsection \<open>The weights fit\<close>

definition entries_ok :: "model \<Rightarrow> bool" where
  "entries_ok m \<longleftrightarrow> length (md_data m) < usize_limit \<and> (\<forall>e \<in> set (md_entries m). entry_ok (length (md_data m)) e)"

text \<open>No tensor row ends inside a block. The file format does not promise this.\<close>

definition whole_rows :: "model \<Rightarrow> bool" where
  "whole_rows m \<longleftrightarrow> (\<forall>e \<in> set (md_entries m). (te_dtype e = Q8_0 \<longrightarrow> unat (te_cols e) mod QK8_0 = 0)
     \<and> (te_dtype e = Q4K \<or> te_dtype e = Q6K \<longrightarrow> unat (te_cols e) mod QK_K = 0))"

lemma model_tensor_entry:
  assumes "entries_ok m" and "model_tensor m kind layer = Ok v"
  obtains e where "e \<in> set (md_entries m)" "tv_dtype v = te_dtype e" "tv_rows v = unat (te_rows e)" "tv_cols v = unat (te_cols e)"
    "byte_size (tv_dtype v) (tv_rows v * tv_cols v) = Some (length (tv_bytes v))"
proof -
  from assms(2) obtain e where f: "find (\<lambda>e. te_kind e = kind_u16 kind \<and> unat (te_layer e) = layer) (md_entries m) = Some e"
    by (auto simp: model_tensor_def split: option.splits)
  then have e: "e \<in> set (md_entries m)" by (metis find_Some_iff nth_mem)
  have eo: "entry_ok (length (md_data m)) e" "length (md_data m) < usize_limit" using assms(1) e by (auto simp: entries_ok_def)
  have "unat (te_offset e + te_size e) = unat (te_offset e) + unat (te_size e)"
    using eo by (intro unat_plus_simple [THEN iffD1] no_olen_add_nat [THEN iffD2]) (simp add: entry_ok_def usize_limit_def)
  then show ?thesis using assms(2) f eo e that [of e]
    by (auto simp: model_tensor_def outcome_simps entry_ok_def)
qed

lemma blocks_of_rows: "c mod n = 0 \<Longrightarrow> 0 < n \<Longrightarrow> r * c div n = r * (c div (n :: nat))"
  by (metis div_mult_swap dvd_eq_mod_eq_0)

lemma mat_tensor_ok:
  assumes m: "entries_ok m" "whole_rows m" and t: "mat_tensor m kind layer rows cols = Ok q"
  shows "mat_ok q rows cols"
proof -
  from t obtain v where v: "model_tensor m kind layer = Ok v" "tv_rows v = rows" "tv_cols v = cols" "qmat_from_view v = Ok q"
    by (auto simp: mat_tensor_def outcome_simps split: if_splits)
  obtain e where e: "e \<in> set (md_entries m)" "tv_dtype v = te_dtype e" "tv_cols v = unat (te_cols e)"
      "byte_size (tv_dtype v) (rows * cols) = Some (length (tv_bytes v))"
    using model_tensor_entry [OF m(1) v(1)] v(2,3) by metis
  have w: "te_dtype e = Q8_0 \<longrightarrow> cols mod QK8_0 = 0" "te_dtype e = Q4K \<or> te_dtype e = Q6K \<longrightarrow> cols mod QK_K = 0"
    using m(2) e(1,3) v(3) unfolding whole_rows_def by metis+
  show ?thesis
  proof (cases "tv_dtype v")
    case F32
    then show ?thesis using v(4) by (simp add: qmat_from_view_def)
  next
    case Q8_0
    then have q: "q = MQ8 (map read_q8_0 (chunks_exact 34 (tv_bytes v)))" and b: "length (tv_bytes v) = rows * cols div 32 * 34"
      using v(4) e(4) by (auto simp: qmat_from_view_def view_q8_def cast_blocks_def split: if_splits)
    then show ?thesis using w(1) Q8_0 e(2) chunks_exact_length [of _ 34 "tv_bytes v"]
      by (auto simp: mat_ok_def length_chunks_exact QK8_0_def blocks_of_rows read_q8_0_def)
  next
    case Q4K
    then have q: "q = MQ4K (map read_q4k (chunks_exact 144 (tv_bytes v)))" and b: "length (tv_bytes v) = rows * cols div 256 * 144"
      using v(4) e(4) by (auto simp: qmat_from_view_def view_q4k_def cast_q4k_def split: if_splits)
    then show ?thesis using w(2) Q4K e(2) chunks_exact_length [of _ 144 "tv_bytes v"]
      by (auto simp: mat_ok_def length_chunks_exact QK_K_def blocks_of_rows read_q4k_def wf_q4k_def)
  next
    case Q6K
    then have q: "q = MQ6K (map read_q6k (chunks_exact 210 (tv_bytes v)))" and b: "length (tv_bytes v) = rows * cols div 256 * 210"
      using v(4) e(4) by (auto simp: qmat_from_view_def view_q6k_def cast_q6k_def split: if_splits)
    then show ?thesis using w(2) Q6K e(2) chunks_exact_length [of _ 210 "tv_bytes v"]
      by (auto simp: mat_ok_def length_chunks_exact QK_K_def blocks_of_rows read_q6k_def wf_q6k_def)
  qed
qed

lemma f32_tensor_ok: "f32_tensor m kind layer n = Ok s \<Longrightarrow> length s = n"
  by (auto simp: f32_tensor_def outcome_simps split: if_splits)

lemma layer_of_ok:
  assumes "entries_ok m" and "whole_rows m" and "layer_of m d is_qwen l = Ok w"
  shows "layer_ok d w"
  using assms(3) mat_tensor_ok [OF assms(1,2)] f32_tensor_ok [of m]
  by (auto simp: layer_of_def outcome_simps layer_ok_def)

lemma omap_Ok_iff: "omap f xs = Ok ys \<longleftrightarrow> list_all2 (\<lambda>x y. f x = Ok y) xs ys"
  by (induction xs arbitrary: ys) (auto simp: outcome_simps list_all2_Cons1)

lemma weights_of_ok:
  assumes "entries_ok m" and "whole_rows m" and "weights_of m d = Ok W"
  shows "mat_ok (ws_embed W) (dm_vocab d) (dm_dim d) \<and> mat_ok (ws_output W) (dm_vocab d) (dm_dim d) \<and> length (ws_out_norm W) = dm_dim d
     \<and> length (ws_layers W) = dm_layers d \<and> (\<forall>w \<in> set (ws_layers W). layer_ok d w)"
proof -
  from assms(3) obtain emb layers out_norm out where
      1: "mat_tensor m TokEmbed 0 (dm_vocab d) (dm_dim d) = Ok emb" "omap (layer_of m d (mt_arch (md_meta m) = Qwen3)) [0..<dm_layers d] = Ok layers"
      "f32_tensor m OutputNorm 0 (dm_dim d) = Ok out_norm"
      "(if mt_flags (md_meta m) AND FLAG_TIED_EMBEDDINGS \<noteq> 0 then Ok emb else mat_tensor m Output 0 (dm_vocab d) (dm_dim d)) = Ok out"
      "W = \<lparr>ws_embed = emb, ws_layers = layers, ws_out_norm = out_norm, ws_output = out\<rparr>"
    by (auto simp: weights_of_def Let_def outcome_simps split: if_splits)
  have out: "mat_ok out (dm_vocab d) (dm_dim d)" using 1(1,4) mat_tensor_ok [OF assms(1,2)] by (auto split: if_splits)
  have la: "list_all2 (\<lambda>x y. layer_of m d (mt_arch (md_meta m) = Qwen3) x = Ok y) [0..<dm_layers d] layers" using 1(2) by (simp add: omap_Ok_iff)
  have "\<forall>w \<in> set layers. layer_ok d w"
  proof
    fix w
    assume "w \<in> set layers"
    then obtain i where "i < length layers" "w = layers ! i" by (auto simp: in_set_conv_nth)
    then have "layer_of m d (mt_arch (md_meta m) = Qwen3) ([0..<dm_layers d] ! i) = Ok w" using la by (simp add: list_all2_conv_all_nth)
    then show "layer_ok d w" by (rule layer_of_ok [OF assms(1,2)])
  qed
  then show ?thesis using 1(5) out la mat_tensor_ok [OF assms(1,2) 1(1)] f32_tensor_ok [OF 1(3)] list_all2_lengthD [OF la] by simp
qed

subsection \<open>A constructed context is well-formed\<close>

lemma take_buf_Ok: "take_buf alloc z elem align st n = Ok (b, st') \<Longrightarrow> length b = n"
  by (auto simp: take_buf_def Let_def split: prod.splits option.splits)

lemma take_scratch_Ok:
  assumes "take_scratch alloc d st = Ok ((S, att, lg), st')"
  shows "scratch_ok d S \<and> length att = dm_heads d * dm_ctx d \<and> length lg = dm_vocab d"
  using assms by (auto simp: take_scratch_def outcome_simps scratch_ok_def dest!: take_buf_Ok)

lemma take_acts_Ok: "take_acts alloc d st = Ok (A, st') \<Longrightarrow> acts_room A (max (dm_dim d) (max (dm_att d) (dm_ffn d)))"
  by (auto simp: take_acts_def Let_def outcome_simps acts_room_def max.assoc dest!: take_buf_Ok)

lemma take_batch_Ok: "take_batch alloc d st = Ok (B, st') \<Longrightarrow> batch_ok d B"
  by (auto simp: take_batch_def outcome_simps batch_ok_def dest!: take_buf_Ok)

lemma freqs_of_Ok: "freqs_of F m d freqs = Ok fs \<Longrightarrow> length fs = dm_head d div 2"
  by (auto simp: freqs_of_def Let_def rope_freqs_def outcome_simps assert_def zip_update_def split: if_splits)

lemma infer_new_Ok:
  assumes "infer_new F alloc m ctx st = Ok (s, st')"
  shows "\<exists>W freqs0 st0 freqs S att lg A B kc vc st1 st2 st3 st4. weights_of m (dims_of m ctx) = Ok W \<and> freqs_of F m (dims_of m ctx) freqs0 = Ok freqs
    \<and> take_scratch alloc (dims_of m ctx) st0 = (Ok ((S, att, lg), st1) :: (parse_error, _) outcome)
    \<and> take_acts alloc (dims_of m ctx) st1 = (Ok (A, st2) :: (parse_error, _) outcome) \<and> take_batch alloc (dims_of m ctx) st2 = (Ok (B, st3) :: (parse_error, _) outcome)
    \<and> take_buf alloc (0 :: f16) 2 2 st3 (dm_layers (dims_of m ctx) * ctx * dm_kv (dims_of m ctx)) = (Ok (kc, st4) :: (parse_error, _) outcome)
    \<and> take_buf alloc (0 :: f16) 2 2 st4 (dm_layers (dims_of m ctx) * ctx * dm_kv (dims_of m ctx)) = (Ok (vc, st') :: (parse_error, _) outcome)
    \<and> c_dims (i_cfg s) = dims_of m ctx \<and> c_weights (i_cfg s) = W \<and> c_freqs (i_cfg s) = freqs \<and> i_one s = S \<and> i_batch s = B \<and> i_att s = att
    \<and> i_logits s = lg \<and> i_acts s = A \<and> i_key s = kc \<and> i_val s = vc \<and> i_pos s = 0"
  using assms by (clarsimp simp: infer_new_def Let_def outcome_simps) (intro exI conjI; (assumption | (simp; fail)))

text \<open>Construction: if \<open>new\<close> succeeds on a model whose table is sound and whose matrix rows are whole blocks, with
  head counts that divide and no 32-bit overflow in the widths, the context is well-formed, whatever the allocator
  handed out, so every guarantee about decoding and prefill applies; it starts at position 0 with zeroed caches.\<close>

theorem new_builds_context:
  assumes "infer_new F alloc m ctx st = Ok (s, st')" and "entries_ok m" and "whole_rows m"
    and "0 < mt_n_heads (md_meta m)" and "0 < mt_head_dim (md_meta m)" and "0 < mt_n_kv_heads (md_meta m)" and "unat (mt_n_kv_heads (md_meta m)) dvd unat (mt_n_heads (md_meta m))"
    and "unat (mt_n_heads (md_meta m)) * unat (mt_head_dim (md_meta m)) < 2 ^ 32"
  shows "infer_ok s \<and> c_dims (i_cfg s) = dims_of m ctx \<and> i_pos s = 0 \<and> set (i_key s) \<subseteq> {0} \<and> set (i_val s) \<subseteq> {0}"
proof -
  let ?d = "dims_of m ctx"
  from infer_new_Ok [OF assms(1)] obtain W freqs0 st0 freqs S att lg A B kc vc st1 st2 st3 st4 where
    1: "weights_of m ?d = Ok W" "freqs_of F m ?d freqs0 = Ok freqs" "take_scratch alloc ?d st0 = (Ok ((S, att, lg), st1) :: (parse_error, _) outcome)"
      "take_acts alloc ?d st1 = (Ok (A, st2) :: (parse_error, _) outcome)" "take_batch alloc ?d st2 = (Ok (B, st3) :: (parse_error, _) outcome)"
      "take_buf alloc (0 :: f16) 2 2 st3 (dm_layers ?d * ctx * dm_kv ?d) = (Ok (kc, st4) :: (parse_error, _) outcome)"
      "take_buf alloc (0 :: f16) 2 2 st4 (dm_layers ?d * ctx * dm_kv ?d) = (Ok (vc, st') :: (parse_error, _) outcome)"
    and s: "c_dims (i_cfg s) = ?d" "c_weights (i_cfg s) = W" "c_freqs (i_cfg s) = freqs" "i_one s = S" "i_batch s = B" "i_att s = att" "i_logits s = lg"
      "i_acts s = A" "i_key s = kc" "i_val s = vc" "i_pos s = 0"
    by (elim exE conjE) (rule that)
  have mul: "unat (a * b) = unat a * unat b" if "unat a * unat b < 2 ^ 32" for a b :: u32
    using that by (simp add: unat_word_ariths)
  have kv: "unat (mt_n_kv_heads (md_meta m)) * unat (mt_head_dim (md_meta m)) < 2 ^ 32"
  proof -
    have "unat (mt_n_kv_heads (md_meta m)) \<le> unat (mt_n_heads (md_meta m))"
      using assms(4,7) by (intro dvd_imp_le) (simp_all add: unat_gt_0)
    then show ?thesis using assms(8) by (meson le_less_trans mult_le_mono1)
  qed
  have d: "dims_ok ?d"
    using assms(4-8) mul [OF assms(8)] mul [OF kv] by (simp add: dims_ok_def dims_of_def Let_def word_gt_0 unat_gt_0)
  have z: "set kc \<subseteq> {0}" "set vc \<subseteq> {0}" using 1(6,7)
    by (auto simp: take_buf_def Let_def split: prod.splits option.splits)
  show ?thesis
    using weights_of_ok [OF assms(2,3) 1(1)] freqs_of_Ok [OF 1(2)] take_scratch_Ok [OF 1(3)] take_acts_Ok [OF 1(4)] take_batch_Ok [OF 1(5)]
      take_buf_Ok [OF 1(6)] take_buf_Ok [OF 1(7)] d z
    by (simp add: infer_ok_def Let_def s cfg_ok_def) (simp add: dims_of_def Let_def)
qed

subsection \<open>The arena is large enough\<close>

definition buf_cost :: "nat \<Rightarrow> nat \<Rightarrow> nat" where
  "buf_cost n elem = n * elem + 64"

definition scratch_cost :: "dims \<Rightarrow> nat" where
  "scratch_cost d = 4 * (3 * dm_dim d + 2 * dm_att d + 2 * dm_kv d + dm_heads d * dm_ctx d + 2 * dm_ffn d + dm_vocab d) + 11 * 64"

definition acts_cost :: "dims \<Rightarrow> nat" where
  "acts_cost d = (let maxd = max (max (dm_dim d) (dm_att d)) (dm_ffn d) in
     MAX_BATCH * (maxd div QK8_0) * Q8_0_SIZE + MAX_BATCH * (maxd div QK_K) * Q8K_SIZE + 2 * 64)"

definition batch_cost :: "dims \<Rightarrow> nat" where
  "batch_cost d = 4 * MAX_BATCH * (dm_dim d + max (dm_dim d) (dm_att d) + 2 * dm_att d + 2 * dm_kv d + 2 * dm_ffn d) + 8 * 64"

definition new_cost :: "dims \<Rightarrow> nat" where
  "new_cost d = buf_cost (dm_head d div 2) 4 + (scratch_cost d + (acts_cost d + (batch_cost d
     + (buf_cost (dm_layers d * dm_ctx d * dm_kv d) 2 + buf_cost (dm_layers d * dm_ctx d * dm_kv d) 2))))"

text \<open>An allocator with so many bytes of room serves every request that fits with its padding.\<close>

locale allocator =
  fixes alloc :: "'a \<Rightarrow> nat \<Rightarrow> nat \<Rightarrow> 'a \<times> nat option" and room :: "'a \<Rightarrow> nat"
  assumes alloc_room: "len + 63 \<le> room st \<Longrightarrow> \<exists>st' p. alloc st len 64 = (st', Some p) \<and> room st \<le> room st' + (len + 63)"
    and room_limit: "room st < usize_limit"
begin

lemma take_buf_room:
  assumes "align \<le> 64" and "buf_cost n elem \<le> room st"
  shows "\<exists>st'. take_buf alloc z elem align st n = (Ok (replicate n z, st') :: ('e, _) outcome) \<and> room st \<le> room st' + buf_cost n elem"
proof -
  have "n * elem < usize_limit" using assms(2) room_limit [of st] by (simp add: buf_cost_def)
  then have m: "n * elem mod usize_limit = n * elem" by simp
  have r: "max (n * elem) 1 + 63 \<le> room st" and c: "max (n * elem) 1 + 63 \<le> buf_cost n elem"
    using assms(2) by (auto simp: buf_cost_def max_def)
  obtain st' p where p: "alloc st (max (n * elem) 1) 64 = (st', Some p)" "room st \<le> room st' + (max (n * elem) 1 + 63)"
    using alloc_room [OF r] by blast
  have "take_buf alloc z elem align st n = (Ok (replicate n z, st') :: ('e, _) outcome)"
    using p(1) assms(1) by (simp only: take_buf_def Let_def m max_absorb2) simp
  moreover have "room st \<le> room st' + buf_cost n elem" using p(2) c by linarith
  ultimately show ?thesis by blast
qed

text \<open>The next buffer, then the rest.\<close>

lemma take_then:
  fixes k :: "'b list \<times> 'a \<Rightarrow> ('e, 'c) outcome"
  assumes "align \<le> 64" and "buf_cost n elem + rest \<le> room st" and "\<And>st'. rest \<le> room st' \<Longrightarrow> P (k (replicate n z, st'))"
  shows "P (obind (take_buf alloc z elem align st n) k)"
proof -
  have "buf_cost n elem \<le> room st" using assms(2) by simp
  from take_buf_room [OF assms(1) this, of z, where 'e = 'e] obtain st'
    where st': "take_buf alloc z elem align st n = (Ok (replicate n z, st') :: ('e, _) outcome)" "room st \<le> room st' + buf_cost n elem"
    by (elim exE conjE)
  then have "rest \<le> room st'" using assms(2) by linarith
  then have "P (k (replicate n z, st'))" by (rule assms(3))
  then show ?thesis by (simp only: st'(1) obind.simps)
qed

lemma take_scratch_room:
  assumes "scratch_cost d + rest \<le> room st"
  shows "\<exists>r st'. take_scratch alloc d st = (Ok (r, st') :: ('e, _) outcome) \<and> rest \<le> room st'"
proof -
  have "buf_cost (dm_dim d) 4 + (buf_cost (dm_dim d) 4 + (buf_cost (dm_dim d) 4 + (buf_cost (dm_att d) 4 + (buf_cost (dm_att d) 4
    + (buf_cost (dm_kv d) 4 + (buf_cost (dm_kv d) 4 + (buf_cost (dm_heads d * dm_ctx d) 4 + (buf_cost (dm_ffn d) 4 + (buf_cost (dm_ffn d) 4
    + (buf_cost (dm_vocab d) 4 + rest)))))))))) \<le> room st"
    using assms by (simp add: scratch_cost_def buf_cost_def)
  then show ?thesis unfolding take_scratch_def
    by - ((rule take_then, simp, assumption, simp only: prod.case)+, blast)
qed

lemma take_acts_room:
  assumes "acts_cost d + rest \<le> room st"
  shows "\<exists>r st'. take_acts alloc d st = (Ok (r, st') :: ('e, _) outcome) \<and> rest \<le> room st'"
proof -
  have "buf_cost (MAX_BATCH * (max (max (dm_dim d) (dm_att d)) (dm_ffn d) div QK8_0)) Q8_0_SIZE
    + (buf_cost (MAX_BATCH * (max (max (dm_dim d) (dm_att d)) (dm_ffn d) div QK_K)) Q8K_SIZE + rest) \<le> room st"
    using assms by (simp add: acts_cost_def buf_cost_def Let_def)
  then show ?thesis unfolding take_acts_def Let_def
    by - ((rule take_then, simp, assumption, simp only: prod.case)+, blast)
qed

lemma take_batch_room:
  assumes "batch_cost d + rest \<le> room st"
  shows "\<exists>r st'. take_batch alloc d st = (Ok (r, st') :: ('e, _) outcome) \<and> rest \<le> room st'"
proof -
  have "buf_cost (MAX_BATCH * dm_dim d) 4 + (buf_cost (MAX_BATCH * max (dm_dim d) (dm_att d)) 4 + (buf_cost (MAX_BATCH * dm_att d) 4
    + (buf_cost (MAX_BATCH * dm_att d) 4 + (buf_cost (MAX_BATCH * dm_kv d) 4 + (buf_cost (MAX_BATCH * dm_kv d) 4
    + (buf_cost (MAX_BATCH * dm_ffn d) 4 + (buf_cost (MAX_BATCH * dm_ffn d) 4 + rest))))))) \<le> room st"
    using assms by (simp add: batch_cost_def buf_cost_def algebra_simps)
  then show ?thesis unfolding take_batch_def
    by - ((rule take_then, simp, assumption, simp only: prod.case)+, blast)
qed

text \<open>With so much room, construction fails only for the model's own reasons.\<close>

lemma infer_new_room:
  assumes W: "weights_of m (dims_of m ctx) = Ok W" and fs: "freqs_of F m (dims_of m ctx) (replicate (dm_head (dims_of m ctx) div 2) F_ZERO) = Ok fs"
    and room: "new_cost (dims_of m ctx) \<le> room st"
  shows "\<exists>s st'. infer_new F alloc m ctx st = Ok (s, st')"
proof -
  let ?d = "dims_of m ctx"
  let ?kv = "buf_cost (dm_layers ?d * ctx * dm_kv ?d) 2 + buf_cost (dm_layers ?d * ctx * dm_kv ?d) 2"
  have ctx: "dm_ctx ?d = ctx" by (simp add: dims_of_def Let_def)
  have "buf_cost (dm_head ?d div 2) 4 \<le> room st" using room by (simp add: new_cost_def)
  from take_buf_room [OF _ this, of 4 F_ZERO, where 'e = parse_error] obtain s1 where
    1: "take_f32 alloc st (dm_head ?d div 2) = (Ok (replicate (dm_head ?d div 2) F_ZERO, s1) :: (parse_error, _) outcome)"
      "room st \<le> room s1 + buf_cost (dm_head ?d div 2) 4" by auto
  have "scratch_cost ?d + (acts_cost ?d + (batch_cost ?d + ?kv)) \<le> room s1" using 1(2) room by (simp add: new_cost_def ctx)
  from take_scratch_room [OF this, where 'e = parse_error] obtain S att lg s2 where
    2: "take_scratch alloc ?d s1 = (Ok ((S, att, lg), s2) :: (parse_error, _) outcome)" "acts_cost ?d + (batch_cost ?d + ?kv) \<le> room s2" by auto
  from take_acts_room [OF this(2), where 'e = parse_error] obtain A s3 where
    3: "take_acts alloc ?d s2 = (Ok (A, s3) :: (parse_error, _) outcome)" "batch_cost ?d + ?kv \<le> room s3" by blast
  from take_batch_room [OF this(2), where 'e = parse_error] obtain B s4 where
    4: "take_batch alloc ?d s3 = (Ok (B, s4) :: (parse_error, _) outcome)" "?kv \<le> room s4" by blast
  have "buf_cost (dm_layers ?d * ctx * dm_kv ?d) 2 + (buf_cost (dm_layers ?d * ctx * dm_kv ?d) 2 + 0) \<le> room s4" using 4(2) by simp
  then show ?thesis
    unfolding infer_new_def Let_def W 1(1) fs 2(1) 3(1) 4(1) obind.simps prod.case
    by - ((rule take_then, simp, assumption, simp only: prod.case)+, blast)
qed

end

lemma and_not_mask: "x AND NOT (mask k) = push_bit k (drop_bit k (x :: 'a::len word))"
  by (rule bit_word_eqI) (auto simp: bit_simps)

lemma aligned_start: "v < usize_limit \<Longrightarrow> unat ((of_nat v :: u64) AND NOT (of_nat 64 - 1)) = v div 64 * 64"
proof -
  assume v: "v < usize_limit"
  have "(of_nat 64 - 1 :: u64) = mask 6" by (simp add: mask_eq_exp_minus_1)
  then have "(of_nat v :: u64) AND NOT (of_nat 64 - 1) = push_bit 6 (drop_bit 6 (of_nat v))"
    by (simp only: and_not_mask)
  also have "unat \<dots> = v div 64 * 64"
  proof -
    have u: "unat (of_nat v :: u64) = v" using v by (intro unat_of_nat_less) (simp add: usize_limit_def)
    have "unat (drop_bit 6 (of_nat v :: u64)) = v div 64" using u by (simp add: drop_bit_eq_div unat_div)
    moreover have "v div 64 * 64 < 2 ^ 64" using v by (simp add: usize_limit_def)
    ultimately show ?thesis by (simp add: push_bit_eq_mult unat_word_ariths)
  qed
  finally show ?thesis .
qed

text \<open>Memory is handed out in bounds, aligned, and beyond everything handed out before.\<close>

lemma alloc_bytes_64:
  "alloc_bytes a len 64 = (if ar_offset a + 63 < usize_limit then
     let start = (ar_offset a + 63) div 64 * 64 in
     if start + len < usize_limit \<and> start + len \<le> ar_size a then (a\<lparr>ar_offset := start + len\<rparr>, Some (ar_base a + start)) else (a, None) else (a, None))"
  using aligned_start [of "ar_offset a + 63"] by (simp add: alloc_bytes_def checked_add_def Let_def)

lemma alloc_bytes_Some:
  assumes "alloc_bytes a len 64 = (a', Some p)"
  shows "\<exists>start. p = ar_base a + start \<and> ar_offset a \<le> start \<and> start mod 64 = 0 \<and> ar_offset a' = start + len \<and> start + len \<le> ar_size a
    \<and> ar_base a' = ar_base a \<and> ar_size a' = ar_size a"
proof -
  have "ar_offset a \<le> (ar_offset a + 63) div 64 * 64"
    using div_mult_mod_eq [of "ar_offset a + 63" 64] mod_less_divisor [of 64 "ar_offset a + 63"] by linarith
  then show ?thesis using assms
    by (intro exI [of _ "(ar_offset a + 63) div 64 * 64"]) (auto simp: alloc_bytes_64 Let_def split: if_splits)
qed

definition arena_room :: "arena \<Rightarrow> nat" where
  "arena_room a = (if ar_size a < usize_limit then ar_size a - ar_offset a else 0)"

interpretation arena_alloc: allocator alloc_bytes arena_room
proof
  fix len st
  assume r: "len + 63 \<le> arena_room st"
  then have sz: "ar_size st < usize_limit" "ar_offset st + 63 + len \<le> ar_size st" by (auto simp: arena_room_def split: if_splits)
  then have v: "ar_offset st + 63 < usize_limit" by simp
  have start: "(ar_offset st + 63) div 64 * 64 \<le> ar_offset st + 63" by (rule div_times_less_eq_dividend)
  let ?e = "(ar_offset st + 63) div 64 * 64 + len"
  have e: "?e < usize_limit" "?e \<le> ar_size st" using sz start by linarith+
  then have "alloc_bytes st len 64 = (st\<lparr>ar_offset := ?e\<rparr>, Some (ar_base st + (?e - len)))"
    using v by (simp add: alloc_bytes_64 Let_def)
  moreover have "arena_room st \<le> arena_room (st\<lparr>ar_offset := ?e\<rparr>) + (len + 63)"
    using sz start by (simp add: arena_room_def)
  ultimately show "\<exists>st' p. alloc_bytes st len 64 = (st', Some p) \<and> arena_room st \<le> arena_room st' + (len + 63)" by blast
qed (auto simp: arena_room_def usize_limit_def)

lemma mul_max: "k * max a b = max (k * a) (k * (b :: nat))"
  by (simp add: max_def)

lemma new_cost_fits:
  assumes "dm_att d \<le> dm_dim d + 32768"
  shows "new_cost d \<le> context_bytes d + 8 * 1024 * 1024"
proof -
  have m: "max (dm_dim d) (dm_att d) \<le> dm_dim d + 32768" using assms by simp
  define mx where "mx = max (dm_dim d) (dm_att d)"
  define kvc where "kvc = dm_layers d * dm_ctx d * dm_kv d"
  have kvc2: "2 * dm_layers d * dm_ctx d * dm_kv d * 2 = 4 * kvc" by (simp add: kvc_def)
  have "mx \<le> dm_dim d + 32768" using m by (simp add: mx_def)
  then show ?thesis
    unfolding new_cost_def context_bytes_def scratch_cost_def acts_cost_def batch_cost_def buf_cost_def Let_def kvc2
      kvc_def [symmetric] mx_def [symmetric] MAX_BATCH_def
    by (simp add: algebra_simps)
qed

lemma boot_arena_room:
  assumes "context_bytes (dims_of m ctx) + 8 * 1024 * 1024 + 4096 < usize_limit"
  shows "context_bytes (dims_of m ctx) + 8 * 1024 * 1024 \<le> arena_room (boot_arena base m ctx)"
proof -
  define c where "c = context_bytes (dims_of m ctx) + 8 * 1024 * 1024"
  have c: "c + 4096 < usize_limit" using assms by (simp add: c_def)
  have "(required_bytes m ctx + 8 * 1024 * 1024) mod usize_limit = c"
    using c unfolding required_bytes_def c_def by (metis add_lessD1 mod_add_left_eq mod_less)
  moreover define n where "n = (c div 4096 + (if c mod 4096 > 0 then 1 else 0)) * 4096"
  have q: "c = c div 4096 * 4096 + c mod 4096" "c mod 4096 < 4096" by simp_all
  have n: "c \<le> n" "n < c + 4096" unfolding n_def by (cases "c mod 4096 > 0"; use q in \<open>simp; linarith\<close>)+
  ultimately have "arena_room (boot_arena base m ctx) = n mod usize_limit" using c
    by (simp add: boot_arena_def arena_room_def arena_new_def Let_def n_def usize_limit_def)
  also have "\<dots> = n" using n c by simp
  finally show ?thesis using n(1) by (simp add: c_def)
qed

lemma infer_new_boot_arena:
  assumes "weights_of m (dims_of m ctx) = Ok W"
    and "freqs_of F m (dims_of m ctx) (replicate (dm_head (dims_of m ctx) div 2) F_ZERO) = Ok fs"
    and "context_bytes (dims_of m ctx) + 8 * 1024 * 1024 + 4096 < usize_limit"
    and "dm_att (dims_of m ctx) \<le> dm_dim (dims_of m ctx) + 32768"
  shows "\<exists>s a. infer_new F alloc_bytes m ctx (boot_arena base m ctx) = Ok (s, a)"
proof -
  have "new_cost (dims_of m ctx) \<le> arena_room (boot_arena base m ctx)"
    using new_cost_fits [OF assms(4)] boot_arena_room [OF assms(3)] by (rule order_trans)
  then show ?thesis by (rule arena_alloc.infer_new_room [OF assms(1,2)])
qed

text \<open>C27: The arena suffices: for any model whose tensors are accepted, if the sizes do not wrap and the attention width
  exceeds the hidden width by at most 32768, the arena that the boot code sizes from \<open>required_bytes\<close> serves all
  24 buffers, so construction succeeds and the exhaustion assertion never fires.\<close>

theorem boot_arena_suffices:
  assumes "weights_of m (dims_of m ctx) = Ok W"
    and "freqs_of F m (dims_of m ctx) (replicate (dm_head (dims_of m ctx) div 2) F_ZERO) = Ok fs"
    and "context_bytes (dims_of m ctx) + 8 * 1024 * 1024 + 4096 < usize_limit"
    and "dm_att (dims_of m ctx) \<le> dm_dim (dims_of m ctx) + 32768"
  shows "\<exists>s a. infer_new F alloc_bytes m ctx (boot_arena base m ctx) = Ok (s, a)"
  using assms by (rule infer_new_boot_arena)

subsection \<open>A small model\<close>

definition tiny_model :: model where
  "tiny_model = \<lparr>md_meta = \<lparr>mt_arch = Llama3, mt_dim = 32, mt_n_layers = 0, mt_n_heads = 2, mt_n_kv_heads = 1, mt_head_dim = 16, mt_ffn_dim = 32,
       mt_vocab = 1, mt_ctx_train = 4, mt_rope_theta = F_ONE, mt_norm_eps = 0, mt_rope_factor = 0, mt_rope_low = 0, mt_rope_high = 0, mt_rope_orig_ctx = 0,
       mt_flags = FLAG_TIED_EMBEDDINGS, mt_embed_scale = F_ONE, mt_attn_scale = 0, mt_residual_scale = F_ONE, mt_logit_scale = F_ONE, mt_name = []\<rparr>,
     md_entries = [\<lparr>te_kind = 1, te_layer = 0, te_dtype = Q8_0, te_offset = 0, te_size = 34, te_rows = 1, te_cols = 32\<rparr>,
       \<lparr>te_kind = 2, te_layer = 0, te_dtype = F32, te_offset = 64, te_size = 128, te_rows = 1, te_cols = 32\<rparr>],
     md_tokenizer_blob = [], md_data = replicate 192 0, md_data_addr = 4096, md_data_crc = 0, md_blob = []\<rparr>"

definition tiny_dims :: dims where
  "tiny_dims = \<lparr>dm_dim = 32, dm_att = 32, dm_layers = 0, dm_heads = 2, dm_kv_heads = 1, dm_head = 16, dm_kv = 16, dm_ffn = 32, dm_vocab = 1, dm_ctx = 4\<rparr>"

lemma tiny_dims: "dims_of tiny_model 4 = tiny_dims"
  by (simp add: dims_of_def tiny_model_def tiny_dims_def Let_def)

lemma tiny_sound: "entries_ok tiny_model" "whole_rows tiny_model"
  by (simp_all add: entries_ok_def entry_ok_def byte_size_def whole_rows_def tiny_model_def usize_limit_def QK8_0_def QK_K_def)

lemma tiny_embed: "\<exists>q. mat_tensor tiny_model TokEmbed 0 1 32 = Ok q"
  by (simp add: mat_tensor_def model_tensor_def tiny_model_def slice_def qmat_from_view_def view_q8_def cast_blocks_def outcome_simps)

lemma tiny_norm: "\<exists>q. f32_tensor tiny_model OutputNorm 0 32 = Ok q"
  by (simp add: f32_tensor_def model_tensor_def tiny_model_def slice_def view_f32_def length_chunks_exact outcome_simps)

lemma tiny_weights: "\<exists>W. weights_of tiny_model tiny_dims = Ok W"
proof -
  obtain e n where "mat_tensor tiny_model TokEmbed 0 1 32 = Ok e" "f32_tensor tiny_model OutputNorm 0 32 = Ok n"
    using tiny_embed tiny_norm by blast
  moreover have "mt_flags (md_meta tiny_model) AND FLAG_TIED_EMBEDDINGS \<noteq> 0" "\<not> has_tensor tiny_model AttnQNorm"
    by (simp_all add: tiny_model_def FLAG_TIED_EMBEDDINGS_def has_tensor_def)
  ultimately show ?thesis by (simp add: weights_of_def tiny_dims_def Let_def)
qed

lemma tiny_freqs: "\<exists>fs. freqs_of F tiny_model tiny_dims (replicate 8 F_ZERO) = Ok fs"
  by (simp add: freqs_of_def tiny_model_def has_tensor_def tiny_dims_def rope_freqs_def assert_def Let_def)

lemma tiny_bytes: "context_bytes tiny_dims + 8 * 1024 * 1024 + 4096 < usize_limit"
  by (simp add: context_bytes_def tiny_dims_def MAX_BATCH_def QK8_0_def QK_K_def Q8_0_SIZE_def Q8K_SIZE_def usize_limit_def Let_def)

lemma tiny_accepted:
  obtains W fs where "weights_of tiny_model (dims_of tiny_model 4) = Ok W"
    "freqs_of demo_machine tiny_model (dims_of tiny_model 4) (replicate (dm_head (dims_of tiny_model 4) div 2) F_ZERO) = Ok fs"
proof -
  have "dm_head tiny_dims div 2 = 8" by (simp add: tiny_dims_def)
  then show ?thesis using tiny_weights tiny_freqs [of demo_machine] that unfolding tiny_dims by metis
qed

lemma boot_arena_suffices_witness:
  "\<exists>s a. infer_new demo_machine alloc_bytes tiny_model 4 (boot_arena 4096 tiny_model 4) = Ok (s, a)"
proof -
  obtain W fs where "weights_of tiny_model (dims_of tiny_model 4) = Ok W"
      "freqs_of demo_machine tiny_model (dims_of tiny_model 4) (replicate (dm_head (dims_of tiny_model 4) div 2) F_ZERO) = Ok fs"
    by (rule tiny_accepted)
  then show ?thesis by (rule boot_arena_suffices) (simp_all only: tiny_dims tiny_bytes, simp add: tiny_dims_def)
qed

lemma new_builds_context_witness:
  "\<exists>s a. infer_new demo_machine alloc_bytes tiny_model 4 (arena_new 4096 0x1000000) = Ok (s, a)
     \<and> infer_ok s \<and> i_pos s = 0 \<and> set (i_key s) \<subseteq> {0}"
proof -
  obtain W fs where 1: "weights_of tiny_model (dims_of tiny_model 4) = Ok W"
      "freqs_of demo_machine tiny_model (dims_of tiny_model 4) (replicate (dm_head (dims_of tiny_model 4) div 2) F_ZERO) = Ok fs"
    by (rule tiny_accepted)
  have "new_cost (dims_of tiny_model 4) \<le> arena_room (arena_new 4096 0x1000000)"
    by (simp add: tiny_dims tiny_dims_def new_cost_def scratch_cost_def acts_cost_def batch_cost_def buf_cost_def MAX_BATCH_def QK8_0_def
        QK_K_def Q8_0_SIZE_def Q8K_SIZE_def arena_room_def arena_new_def usize_limit_def Let_def)
  from arena_alloc.infer_new_room [OF 1 this] obtain s a where
    s: "infer_new demo_machine alloc_bytes tiny_model 4 (arena_new 4096 0x1000000) = Ok (s, a)" by blast
  have "infer_ok s \<and> c_dims (i_cfg s) = dims_of tiny_model 4 \<and> i_pos s = 0 \<and> set (i_key s) \<subseteq> {0} \<and> set (i_val s) \<subseteq> {0}"
    by (rule new_builds_context [OF s tiny_sound]) (simp_all add: tiny_model_def)
  then show ?thesis using s by blast
qed

end
