(* ===== verification/Nr_Sample.thy ===== *)
theory Nr_Sample
  imports Nr_Kquant "HOL-Library.Multiset"
begin

text \<open>
  The token sampler of \<^verbatim>\<open>crates/nr-model/src/sample.rs\<close>: greedy, or temperature with a top-k prefilter (a fixed-size
  binary min-heap) and nucleus truncation. The standard library's unstable sort is the parameter \<open>srt\<close>; what its
  documentation promises is the hypothesis \<open>sorts\<close>, needed only where the order matters. Whatever the floating-point
  operations return, the sampler gives one of the top 64 tokens.
\<close>

subsection \<open>State and random numbers\<close>

record sampler =
  sm_temperature :: f32
  sm_top_p :: f32
  sm_rng :: u64

definition TOP_K :: nat where "TOP_K = 64"

definition sampler_new :: "f32 \<Rightarrow> f32 \<Rightarrow> u64 \<Rightarrow> sampler" where
  "sampler_new temperature top_p seed = \<lparr>sm_temperature = temperature, sm_top_p = top_p, sm_rng = seed OR 1\<rparr>"

definition xorshift :: "u64 \<Rightarrow> u64" where
  "xorshift x = (let x = x XOR push_bit 13 x; x = x XOR drop_bit 7 x in x XOR push_bit 17 x)"

definition next_f32 :: "'z fpu_scheme \<Rightarrow> sampler \<Rightarrow> f32 \<times> sampler" where
  "next_f32 F s = (let x = xorshift (sm_rng s) in
     (fdiv F (f_of_int F (uint (drop_bit 40 x))) (f_of_int F (2 ^ 24)), s\<lparr>sm_rng := x\<rparr>))"

subsection \<open>The top-k heap\<close>

text \<open>A candidate is a logit with its token.\<close>

type_synonym cand = "f32 \<times> u32"

definition sift_child :: "cand list \<Rightarrow> nat \<Rightarrow> nat \<Rightarrow> ('e, nat) outcome" where
  "sift_child heap l small =
     (if l < TOP_K then obind (index heap l) (\<lambda>a. obind (index heap small) (\<lambda>b. Ok (if f_lt (fst a) (fst b) then l else small)))
      else Ok small)"

definition swap_at :: "'a list \<Rightarrow> nat \<Rightarrow> nat \<Rightarrow> ('e, 'a list) outcome" where
  "swap_at xs i j = (if i < length xs \<and> j < length xs then Ok (xs[i := xs ! j, j := xs ! i]) else Panic)"

lemma sift_child_cases: "sift_child heap l small = Ok s \<Longrightarrow> s = small \<or> s = l \<and> l < TOP_K"
  by (auto simp: sift_child_def outcome_simps split: if_splits)

lemma obind_sift [fundef_cong]: "x = x' \<Longrightarrow> (\<And>a. x' = Ok a \<Longrightarrow> k a = k' a) \<Longrightarrow> obind x k = obind x' k'"
  by (cases x') auto

function sift_down :: "cand list \<Rightarrow> nat \<Rightarrow> ('e, cand list) outcome" where
  "sift_down heap n =
     obind (sift_child heap (2 * n + 1) n) (\<lambda>small. obind (sift_child heap (2 * n + 2) small) (\<lambda>small.
     if small = n then Ok heap else obind (swap_at heap n small) (\<lambda>heap. sift_down heap small)))"
  by auto
termination
proof (relation "measure (\<lambda>(heap, n). TOP_K - n)")
  fix heap n a b and heap' :: "cand list"
  assume "sift_child heap (2 * n + 1) n = (Ok a :: ('e, nat) outcome)" "sift_child heap (2 * n + 2) a = (Ok b :: ('e, nat) outcome)" "b \<noteq> n"
  then have "n < b \<and> b < TOP_K" by (auto dest!: sift_child_cases)
  then show "((heap', b), (heap, n)) \<in> measure (\<lambda>(heap, n). TOP_K - n)" by auto
qed simp

declare sift_down.simps [simp del]

definition offer :: "cand list \<Rightarrow> nat \<times> f32 \<Rightarrow> ('e, cand list) outcome" where
  "offer heap = (\<lambda>(i, v). obind (index heap 0) (\<lambda>root.
     if f_lt (fst root) v then obind (set_at heap 0 (v, of_nat i)) (\<lambda>heap. sift_down heap 0) else Ok heap))"

definition top_k :: "f32 list \<Rightarrow> ('e, cand list) outcome" where
  "top_k logits = ofold offer (replicate TOP_K (F_NEG_INFINITY, 0)) (enumerate 0 logits)"

subsection \<open>Drawing a token\<close>

text \<open>The comparator unwraps a comparison that fails on NaN.\<close>

definition sort_desc :: "(cand list \<Rightarrow> cand list) \<Rightarrow> cand list \<Rightarrow> ('e, cand list) outcome" where
  "sort_desc srt heap = (if list_ex (\<lambda>c. f_nan (fst c)) heap then Panic else Ok (srt heap))"

definition cand_probs :: "'z fpu_scheme \<Rightarrow> f32 \<Rightarrow> f32 \<Rightarrow> cand list \<Rightarrow> f32 list" where
  "cand_probs F temperature mx cand = map (\<lambda>c. f_exp F (fdiv F (fsub F (fst c) mx) temperature)) cand"

fun nucleus :: "'z fpu_scheme \<Rightarrow> f32 \<Rightarrow> f32 \<Rightarrow> nat \<Rightarrow> f32 list \<Rightarrow> f32 \<times> nat" where
  "nucleus F limit cum i [] = (cum, TOP_K)"
| "nucleus F limit cum i (p # ps) = (let cum = fadd F cum p in if f_le limit cum then (cum, i + 1) else nucleus F limit cum (i + 1) ps)"

fun draw :: "'z fpu_scheme \<Rightarrow> f32 list \<Rightarrow> cand list \<Rightarrow> nat \<Rightarrow> f32 \<Rightarrow> f32 \<Rightarrow> nat list \<Rightarrow> ('e, u32) outcome" where
  "draw F probs cand n r acc [] = (if n = 0 then Panic else obind (index cand (n - 1)) (\<lambda>c. Ok (snd c)))"
| "draw F probs cand n r acc (i # is) = obind (index probs i) (\<lambda>p. let acc = fadd F acc p in
     if f_le r acc then obind (index cand i) (\<lambda>c. Ok (snd c)) else draw F probs cand n r acc is)"

definition sampler_sample :: "'z fpu_scheme \<Rightarrow> (cand list \<Rightarrow> cand list) \<Rightarrow> sampler \<Rightarrow> f32 list \<Rightarrow> ('e, u32 \<times> sampler) outcome" where
  "sampler_sample F srt s logits =
     (if f_le (sm_temperature s) F_ZERO then Ok (of_nat (argmax logits), s)
      else obind (top_k logits) (\<lambda>heap. obind (sort_desc srt heap) (\<lambda>cand. obind (index cand 0) (\<lambda>first.
        let probs = cand_probs F (sm_temperature s) (fst first) cand;
            total = foldl (fadd F) F_ZERO probs;
            limit = fmul F (sm_top_p s) total;
            (cum, n) = nucleus F limit F_ZERO 0 probs;
            (u, s) = next_f32 F s;
            r = fmul F u cum
        in obind (draw F probs cand n r F_ZERO [0..<n]) (\<lambda>t. Ok (t, s))))))"

subsection \<open>The heap invariant\<close>

abbreviation ckey :: "cand list \<Rightarrow> nat \<Rightarrow> int" where
  "ckey h i \<equiv> f_key (fst (h ! i))"

text \<open>Ordered everywhere but between \<open>n\<close> and its children, which are still above the parent of \<open>n\<close>.\<close>

definition heap_except :: "nat \<Rightarrow> cand list \<Rightarrow> bool" where
  "heap_except n h \<longleftrightarrow> (\<forall>i. 0 < i \<and> i < TOP_K \<longrightarrow> ((i - 1) div 2 \<noteq> n \<longrightarrow> ckey h ((i - 1) div 2) \<le> ckey h i)
     \<and> ((i - 1) div 2 = n \<and> 0 < n \<longrightarrow> ckey h ((n - 1) div 2) \<le> ckey h i))"

definition min_heap :: "cand list \<Rightarrow> bool" where
  "min_heap h \<longleftrightarrow> (\<forall>i. 0 < i \<and> i < TOP_K \<longrightarrow> ckey h ((i - 1) div 2) \<le> ckey h i)"

definition no_nan :: "cand list \<Rightarrow> bool" where
  "no_nan h \<longleftrightarrow> (\<forall>c \<in> set h. \<not> f_nan (fst c))"

lemma f_lt_key: "no_nan h \<Longrightarrow> i < length h \<Longrightarrow> j < length h \<Longrightarrow> f_lt (fst (h ! i)) (fst (h ! j)) \<longleftrightarrow> ckey h i < ckey h j"
  by (simp add: f_lt_def no_nan_def)

lemma sift_child_Ok:
  assumes "no_nan h" and "length h = TOP_K" and "small < TOP_K"
  shows "sift_child h l small = Ok (if l < TOP_K \<and> ckey h l < ckey h small then l else small)"
  using assms by (auto simp: sift_child_def index_def f_lt_key)

lemma swap_no_nan: "no_nan h \<Longrightarrow> i < length h \<Longrightarrow> j < length h \<Longrightarrow> no_nan (h[i := h ! j, j := h ! i])"
  by (simp add: no_nan_def set_swap)

text \<open>Exchanging \<open>n\<close> with its smallest child moves the exception there.\<close>

lemma heap_except_swap:
  assumes h: "heap_except n h" "length h = TOP_K" and c: "c = 2 * n + 1 \<or> c = 2 * n + 2" "c < TOP_K" "ckey h c \<le> ckey h n"
    and l: "2 * n + 1 < TOP_K \<longrightarrow> ckey h c \<le> ckey h (2 * n + 1)" "2 * n + 2 < TOP_K \<longrightarrow> ckey h c \<le> ckey h (2 * n + 2)"
  shows "heap_except c (h[n := h ! c, c := h ! n])"
  unfolding heap_except_def
proof (intro allI impI)
  fix i
  assume i: "0 < i \<and> i < TOP_K"
  let ?p = "(i - 1) div 2"
  let ?g = "h[n := h ! c, c := h ! n]"
  have nc: "n < c" "(c - 1) div 2 = n" using c(1) by auto
  have key: "ckey ?g j = (if j = c then ckey h n else if j = n then ckey h c else ckey h j)" if "j < TOP_K" for j
    using that h(2) nc c(2) by (auto simp: nth_list_update)
  have p: "?p < TOP_K" "?p < i" using i by auto
  have child: "?p = n \<Longrightarrow> i = 2 * n + 1 \<or> i = 2 * n + 2" using i by auto
  have H1: "(i - 1) div 2 \<noteq> n \<Longrightarrow> ckey h ((i - 1) div 2) \<le> ckey h i" using h(1) i unfolding heap_except_def by blast
  have up: "0 < n \<Longrightarrow> ckey h ((n - 1) div 2) \<le> ckey h c" 
  proof -
    assume "0 < n"
    moreover have "0 < c" using nc(1) by simp
    ultimately show "ckey h ((n - 1) div 2) \<le> ckey h c" using h(1) c(2) nc(2) unfolding heap_except_def by blast
  qed
  show "(?p \<noteq> c \<longrightarrow> ckey ?g ?p \<le> ckey ?g i) \<and> (?p = c \<and> 0 < c \<longrightarrow> ckey ?g ((c - 1) div 2) \<le> ckey ?g i)"
  proof (intro conjI impI)
    assume pc: "?p \<noteq> c"
    show "ckey ?g ?p \<le> ckey ?g i"
    proof (cases "?p = n")
      case True
      have gp: "ckey ?g ?p = ckey h c" using key [OF p(1)] True nc(1) by simp
      have gi: "ckey ?g i = (if i = c then ckey h n else ckey h i)" using key [of i] i p(2) True by simp
      have "ckey h c \<le> ckey h i" using child [OF True] l i by blast
      then show ?thesis using c(3) unfolding gp gi by simp
    next
      case False
      then show ?thesis using H1 [OF False] up key [OF p(1)] key [of i] i pc p(2) nc by (cases "i = n") auto
    qed
  next
    assume pc: "?p = c \<and> 0 < c"
    then have "i \<noteq> n" "i \<noteq> c" "?p \<noteq> n" using p(2) nc by auto
    then show "ckey ?g ((c - 1) div 2) \<le> ckey ?g i" using H1 pc key [of n] key [of i] i nc c(2) by auto
  qed
qed

lemma sift_down_Ok:
  assumes "heap_except n h" and "length h = TOP_K" and "no_nan h" and "n < TOP_K"
  shows "\<exists>g. sift_down h n = (Ok g :: ('e, _) outcome) \<and> mset g = mset h \<and> min_heap g \<and> length g = TOP_K"
  using assms
proof (induction "TOP_K - n" arbitrary: n h rule: less_induct)
  case less
  define a where "a = (if 2 * n + 1 < TOP_K \<and> ckey h (2 * n + 1) < ckey h n then 2 * n + 1 else n)"
  define b where "b = (if 2 * n + 2 < TOP_K \<and> ckey h (2 * n + 2) < ckey h a then 2 * n + 2 else a)"
  have a: "a < TOP_K" and b: "b < TOP_K" using less.prems(4) by (auto simp: a_def b_def)
  have sc: "sift_child h (2 * n + 1) n = (Ok a :: ('e, nat) outcome)" "sift_child h (2 * n + 2) a = (Ok b :: ('e, nat) outcome)"
    by (simp_all only: sift_child_Ok [OF less.prems(3,2) less.prems(4)] sift_child_Ok [OF less.prems(3,2) a] a_def [symmetric] b_def [symmetric])
  have small: "2 * n + 1 < TOP_K \<longrightarrow> ckey h b \<le> ckey h (2 * n + 1)" "2 * n + 2 < TOP_K \<longrightarrow> ckey h b \<le> ckey h (2 * n + 2)" "ckey h b \<le> ckey h n"
    by (auto simp: a_def b_def)
  show ?case
  proof (cases "b = n")
    case True
    have "min_heap h"
      unfolding min_heap_def
    proof (intro allI impI)
      fix i
      assume i: "0 < i \<and> i < TOP_K"
      show "ckey h ((i - 1) div 2) \<le> ckey h i"
      proof (cases "(i - 1) div 2 = n")
        case p: True
        then have "i = 2 * n + 1 \<or> i = 2 * n + 2" using i by auto
        then show ?thesis using small True i p by auto
      next
        case False
        then show ?thesis using less.prems(1) i unfolding heap_except_def by blast
      qed
    qed
    then show ?thesis using sc True less.prems(2) by (subst sift_down.simps) simp
  next
    case False
    then have b2: "b = 2 * n + 1 \<or> b = 2 * n + 2" by (auto simp: a_def b_def split: if_splits)
    let ?g = "h[n := h ! b, b := h ! n]"
    have g: "heap_except b ?g" by (rule heap_except_swap [OF less.prems(1,2) b2 b small(3,1,2)])
    have len: "n < length h" "b < length h" using less.prems(2,4) b by auto
    have "TOP_K - b < TOP_K - n" using b2 b by auto
    from less.hyps [OF this g _ swap_no_nan [OF less.prems(3) len] b] less.prems(2) obtain f where
      "sift_down ?g b = (Ok f :: ('e, _) outcome)" "mset f = mset ?g" "min_heap f" "length f = TOP_K" by auto
    moreover have "mset ?g = mset h" by (rule mset_swap [OF len(2) len(1)])
    ultimately show ?thesis using sc False len
      by (subst sift_down.simps) (simp add: swap_at_def)
  qed
qed

lemma min_heap_root: "min_heap h \<Longrightarrow> i < TOP_K \<Longrightarrow> ckey h 0 \<le> ckey h i"
proof (induction i rule: less_induct)
  case (less i)
  show ?case
  proof (cases "i = 0")
    case False
    then have "ckey h ((i - 1) div 2) \<le> ckey h i" using less.prems by (simp add: min_heap_def)
    moreover have "ckey h 0 \<le> ckey h ((i - 1) div 2)" using False less.prems by (intro less.IH) auto
    ultimately show ?thesis by linarith
  qed simp
qed

lemma sift_root:
  assumes "min_heap h" and "length h = TOP_K" and "no_nan h" and "\<not> f_nan (fst c)"
  shows "\<exists>g. sift_down (h[0 := c]) 0 = (Ok g :: ('e, _) outcome) \<and> set g = set (h[0 := c]) \<and> min_heap g \<and> no_nan g \<and> length g = TOP_K"
proof -
  have "heap_except 0 (h[0 := c])" using assms(1) by (simp add: heap_except_def min_heap_def)
  moreover have nn: "no_nan (h[0 := c])" using assms(3,4) set_update_subset_insert [of h 0 c] by (auto simp: no_nan_def)
  moreover have "0 < TOP_K" by (simp add: TOP_K_def)
  ultimately obtain g where "sift_down (h[0 := c]) 0 = (Ok g :: ('e, _) outcome)" "mset g = mset (h[0 := c])" "min_heap g" "length g = TOP_K"
    using sift_down_Ok [of 0 "h[0 := c]"] assms(2) by auto
  moreover have "set g = set (h[0 := c])" using calculation(2) by (rule mset_eq_setD)
  ultimately show ?thesis using nn by (auto simp: no_nan_def)
qed

lemma f_lt_trans: "f_lt a b \<Longrightarrow> f_lt b c \<Longrightarrow> f_lt a c"
  by (simp add: f_lt_def)

lemma f_lt_asym: "f_lt a b \<Longrightarrow> \<not> f_lt b a"
  by (simp add: f_lt_def)

lemma neg_infinity_least: "f_lt a b \<Longrightarrow> f_lt F_NEG_INFINITY b"
proof -
  assume ab: "f_lt a b"
  have "uint (f_abs a) \<le> 0x7f800000" using ab by (simp add: f_lt_def f_nan_def f_abs_def not_less word_le_def)
  then have "f_key F_NEG_INFINITY \<le> f_key a"
    by (auto simp: f_key_def F_NEG_INFINITY_def f_abs_def intro: order_trans [OF _ uint_ge_0])
  then show "f_lt F_NEG_INFINITY b" using ab by (simp add: f_lt_def F_NEG_INFINITY_def f_nan_def)
qed

lemma root_least:
  assumes "min_heap h" "no_nan h" "length h = TOP_K" "c \<in> set h"
  shows "\<not> f_lt (fst c) (fst (h ! 0))" and "f_lt (fst c) v \<Longrightarrow> f_lt (fst (h ! 0)) v"
proof -
  obtain i where i: "i < length h" "c = h ! i" using assms(4) by (auto simp: in_set_conv_nth)
  have k: "f_key (fst (h ! 0)) \<le> f_key (fst c)" using min_heap_root [OF assms(1)] i assms(3) by simp
  have "h ! 0 \<in> set h" using i(1) by (metis gr_implies_not0 length_greater_0_conv list.size(3) nth_mem)
  then have "\<not> f_nan (fst (h ! 0))" using assms(2) by (simp add: no_nan_def)
  with k show "\<not> f_lt (fst c) (fst (h ! 0))" "f_lt (fst c) v \<Longrightarrow> f_lt (fst (h ! 0)) v" by (auto simp: f_lt_def)
qed

subsection \<open>The heap keeps the largest logits\<close>

definition held :: "f32 list \<Rightarrow> nat \<Rightarrow> cand" where
  "held logits j = (logits ! j, of_nat j)"

text \<open>Every candidate is the filler or an offered token, and an offered token that is not held is not above anything held.\<close>

definition tracks :: "f32 list \<Rightarrow> nat \<Rightarrow> cand set \<Rightarrow> bool" where
  "tracks logits k H \<longleftrightarrow> (\<forall>c \<in> H. c = (F_NEG_INFINITY, 0) \<or> (\<exists>j < k. c = held logits j))
     \<and> (\<forall>j < k. held logits j \<in> H \<or> (\<forall>c \<in> H. \<not> f_lt (fst c) (logits ! j)))"

lemma tracks_keep:
  assumes "tracks logits k H" and "\<And>c. c \<in> H \<Longrightarrow> \<not> f_lt (fst c) (logits ! k)"
  shows "tracks logits (Suc k) H"
  using assms unfolding tracks_def less_Suc_eq by blast

lemma tracks_replace:
  assumes t: "tracks logits k H" and H': "H' \<subseteq> insert (held logits k) H" "held logits k \<in> H'" "H \<subseteq> insert root H'" and root: "root \<in> H"
    and least: "\<And>c. c \<in> H \<Longrightarrow> \<not> f_lt (fst c) (fst root)" and v: "f_lt (fst root) (logits ! k)"
  shows "tracks logits (Suc k) H'"
  unfolding tracks_def
proof (intro conjI ballI allI impI)
  fix c
  assume "c \<in> H'"
  then show "c = (F_NEG_INFINITY, 0) \<or> (\<exists>j < Suc k. c = held logits j)" using t H'(1) unfolding tracks_def less_Suc_eq by blast
next
  fix j
  assume j: "j < Suc k"
  have low: "\<not> f_lt (fst c) (fst root)" if "c \<in> H'" for c
    
  proof -
    have "c = held logits k \<or> c \<in> H" using that H'(1) by blast
    then show ?thesis using least [of c] f_lt_asym [OF v] by (elim disjE) (simp_all only: held_def fst_conv not_False_eq_True)
  qed
  show "held logits j \<in> H' \<or> (\<forall>c \<in> H'. \<not> f_lt (fst c) (logits ! j))"
  proof (cases "held logits j \<in> H' \<or> j = k")
    case True
    then show ?thesis using H'(2) by blast
  next
    case False
    show ?thesis
    proof (cases "held logits j \<in> H")
      case True
      then have "held logits j = root" using False H'(3) by blast
      then have "fst root = logits ! j" by (auto simp: held_def)
      then show ?thesis using low by simp
    next
      case out: False
      have "j < k" using j False by simp
      then have n: "\<forall>c \<in> H. \<not> f_lt (fst c) (logits ! j)" using t out unfolding tracks_def by blast
      have "\<not> f_lt (logits ! k) (logits ! j)" using n root v f_lt_trans by blast
      then have "\<forall>c \<in> H'. \<not> f_lt (fst c) (logits ! j)" using n H'(1) by (auto simp: held_def)
      then show ?thesis ..
    qed
  qed
qed

definition heap_ok :: "cand list \<Rightarrow> bool" where
  "heap_ok h \<longleftrightarrow> min_heap h \<and> no_nan h \<and> length h = TOP_K"

lemma offer_tracks:
  assumes h: "heap_ok h" and t: "tracks logits k (set h)"
  shows "\<exists>g. offer h (k, logits ! k) = (Ok g :: ('e, _) outcome) \<and> heap_ok g \<and> tracks logits (Suc k) (set g)"
proof -
  have len: "0 < length h" "length h = TOP_K" using h by (auto simp: heap_ok_def TOP_K_def)
  have hp: "min_heap h" "no_nan h" using h by (simp_all add: heap_ok_def)
  have root: "h ! 0 \<in> set h" using len(1) by simp
  show ?thesis
  proof (cases "f_lt (fst (h ! 0)) (logits ! k)")
    case True
    then have "\<not> f_nan (fst (held logits k))" by (simp add: f_lt_def held_def)
    from sift_root [OF hp(1) len(2) hp(2) this, where 'e = 'e] obtain g where
      g: "sift_down (h[0 := held logits k]) 0 = (Ok g :: ('e, _) outcome)" "set g = set (h[0 := held logits k])" "heap_ok g"
      by (auto simp: heap_ok_def)
    have "tracks logits (Suc k) (set g)"
    proof (rule tracks_replace [OF t _ _ _ root root_least(1) [OF hp len(2)] True])
      show "set g \<subseteq> insert (held logits k) (set h)" unfolding g(2) by (rule set_update_subset_insert)
      show "held logits k \<in> set g" unfolding g(2) by (rule set_update_memI [OF len(1)])
      show "set h \<subseteq> insert (h ! 0) (set g)" unfolding g(2) using len(1) by (cases h) auto
    qed
    then show ?thesis using g True len(1) by (auto simp: offer_def index_def held_def)
  next
    case False
    then have "tracks logits (Suc k) (set h)" using tracks_keep [OF t] root_least(2) [OF hp len(2)] by blast
    then show ?thesis using False h len(1) by (simp add: offer_def index_def)
  qed
qed

lemma top_k_prefix:
  assumes "k \<le> length logits"
  shows "\<exists>g. ofold offer (replicate TOP_K (F_NEG_INFINITY, 0)) (enumerate 0 (take k logits)) = (Ok g :: ('e, _) outcome) \<and> heap_ok g \<and> tracks logits k (set g)"
  using assms
proof (induction k)
  case 0
  have "heap_ok (replicate TOP_K (F_NEG_INFINITY, 0))"
    by (auto simp: heap_ok_def min_heap_def no_nan_def F_NEG_INFINITY_def f_nan_def f_abs_def)
  then show ?case by (simp add: tracks_def)
next
  case (Suc k)
  then obtain g where g: "ofold offer (replicate TOP_K (F_NEG_INFINITY, 0)) (enumerate 0 (take k logits)) = (Ok g :: ('e, _) outcome)"
    "heap_ok g" "tracks logits k (set g)" by auto
  have "enumerate 0 (take (Suc k) logits) = enumerate 0 (take k logits) @ [(k, logits ! k)]"
    using Suc.prems by (simp add: take_Suc_conv_app_nth enumerate_append_eq)
  then show ?case using g offer_tracks [OF g(2,3), where 'e = 'e] by (auto simp: ofold_append)
qed

lemma top_k_Ok: "\<exists>g. top_k logits = (Ok g :: ('e, _) outcome) \<and> heap_ok g \<and> tracks logits (length logits) (set g)"
  using top_k_prefix [of "length logits" logits, where 'e = 'e] by (simp add: top_k_def)

text \<open>A held token has fewer than 64 tokens above it.\<close>

lemma above_held:
  assumes len: "length h = TOP_K" and t: "tracks logits (length logits) (set h)" and n: "length logits \<le> 2 ^ 32" and c: "c \<in> set h" and logits: "logits \<noteq> []"
  shows "unat (snd c) < length logits \<and> card {j. j < length logits \<and> f_lt (logits ! unat (snd c)) (logits ! j)} < TOP_K"
proof -
  have inj: "unat (of_nat j :: u32) = j" if "j < length logits" for j
    using that n by (intro unat_of_nat_less) simp
  from c t have cc: "c = (F_NEG_INFINITY, 0) \<or> (\<exists>j < length logits. c = held logits j)" by (auto simp: tracks_def)
  then have r: "unat (snd c) < length logits" using logits inj by (auto simp: held_def)
  let ?A = "{j. j < length logits \<and> f_lt (logits ! unat (snd c)) (logits ! j)}"
  have above: "held logits j \<in> set h - {c}" if j: "j < length logits" and lt: "f_lt (logits ! unat (snd c)) (logits ! j)" for j
  proof -
    have lt': "f_lt (fst c) (logits ! j)"
      using cc lt inj neg_infinity_least [OF lt] by (elim disjE) (auto simp: held_def)
    then have "held logits j \<in> set h" using t j c unfolding tracks_def by blast
    moreover have "held logits j \<noteq> c" using lt' by (auto simp: held_def f_lt_def)
    ultimately show ?thesis by simp
  qed
  have "inj_on (held logits) ?A"
    using inj by (intro inj_onI) (metis (mono_tags, lifting) held_def mem_Collect_eq prod.inject)
  then have "card ?A \<le> card (set h - {c})" 
  proof (rule card_inj_on_le)
    show "held logits ` ?A \<subseteq> set h - {c}" using above by blast
  qed simp
  also have "\<dots> < card (set h)" using c by (intro psubset_card_mono) auto
  also have "\<dots> \<le> TOP_K" using card_length [of h] len by simp
  finally show ?thesis using r by simp
qed

lemma nucleus_bound: "i + length ps = TOP_K \<Longrightarrow> nucleus F lim cum i ps = (cum', n) \<Longrightarrow> 0 < n \<and> n \<le> TOP_K"
  by (induction F lim cum i ps rule: nucleus.induct) (auto simp: Let_def TOP_K_def split: if_splits)

lemma draw_Ok:
  "set is \<subseteq> {..<n} \<Longrightarrow> 0 < n \<Longrightarrow> n \<le> length cand \<Longrightarrow> length probs = length cand
     \<Longrightarrow> \<exists>c \<in> set cand. draw F probs cand n r acc is = (Ok (snd c) :: ('e, u32) outcome)"
proof (induction "is" arbitrary: acc)
  case (Cons i "is")
  then have "i < length cand" by auto
  then show ?case using Cons by (auto simp: index_def Let_def)
qed (auto simp: index_def)

text \<open>What the documentation of the standard library promises of sorting: the same elements, largest first.\<close>

definition sorts :: "(cand list \<Rightarrow> cand list) \<Rightarrow> bool" where
  "sorts srt \<longleftrightarrow> (\<forall>xs. no_nan xs \<longrightarrow> mset (srt xs) = mset xs \<and> sorted_wrt (\<lambda>a b. f_key (fst b) \<le> f_key (fst a)) (srt xs))"

lemma argmax_top: 
  assumes "logits \<noteq> []"
  shows "argmax logits < length logits \<and> (\<forall>j < length logits. \<not> f_lt (logits ! argmax logits) (logits ! j))"
proof -
  define step where "step = (\<lambda>(best, bv) (i, v). if f_lt bv v then (i :: nat, v) else (best, bv :: f32))"
  define st where "st = (\<lambda>k. foldl step (0, F_NEG_INFINITY) (enumerate 0 (take k logits)))"
  have "k \<le> length logits \<Longrightarrow> fst (st k) < length logits \<and> (st k = (0, F_NEG_INFINITY) \<or> snd (st k) = logits ! fst (st k))
    \<and> (\<forall>j < k. \<not> f_lt (snd (st k)) (logits ! j))" for k
  proof (induction k)
    case 0
    then show ?case using assms by (simp add: st_def)
  next
    case (Suc k)
    have s: "st (Suc k) = step (st k) (k, logits ! k)"
      using Suc.prems by (simp add: st_def take_Suc_conv_app_nth enumerate_append_eq)
    show ?case
    proof (cases "f_lt (snd (st k)) (logits ! k)")
      case True
      then have "st (Suc k) = (k, logits ! k)" by (cases "st k") (simp add: s step_def)
      moreover have "\<not> f_lt (logits ! k) (logits ! j)" if "j < Suc k" for j
      proof (cases "j = k")
        case False
        then have "\<not> f_lt (snd (st k)) (logits ! j)" using Suc that by simp
        then show ?thesis using f_lt_trans [OF True] by blast
      qed (simp add: f_lt_def)
      ultimately show ?thesis using Suc.prems by simp
    next
      case False
      then have "st (Suc k) = st k" by (cases "st k") (simp add: s step_def)
      then show ?thesis using Suc False by (auto simp: less_Suc_eq)
    qed
  qed
  from this [of "length logits"] have t: "fst (st (length logits)) < length logits"
      "st (length logits) = (0, F_NEG_INFINITY) \<or> snd (st (length logits)) = logits ! fst (st (length logits))"
      "\<forall>j < length logits. \<not> f_lt (snd (st (length logits))) (logits ! j)" by auto
  have a: "argmax logits = fst (st (length logits))" by (simp add: argmax_def st_def step_def)
  show ?thesis using t neg_infinity_least unfolding a by (metis snd_conv)
qed

lemma sample_hot:
  assumes "logits \<noteq> []" and "length logits \<le> 2 ^ 32" and "sorts srt" and False: "\<not> f_le (sm_temperature s) F_ZERO"
  shows "\<exists>t s'. sampler_sample F srt s logits = (Ok (t, s') :: (unit, _) outcome) \<and> unat t < length logits
    \<and> card {j. j < length logits \<and> f_lt (logits ! unat t) (logits ! j)} < TOP_K"
proof -
  obtain h where h: "top_k logits = (Ok h :: (unit, _) outcome)" "heap_ok h" "tracks logits (length logits) (set h)"
    using top_k_Ok by blast
  have nn: "no_nan h" and len: "length h = TOP_K" using h(2) by (simp_all add: heap_ok_def)
  have m: "mset (srt h) = mset h" using assms(3) nn by (simp add: sorts_def)
  then have lc: "length (srt h) = TOP_K" and sc: "set (srt h) = set h" using len by (metis size_mset, metis mset_eq_setD)
  have sd: "sort_desc srt h = (Ok (srt h) :: (unit, _) outcome)" using nn by (simp add: sort_desc_def no_nan_def list_ex_iff)
  have K: "0 < TOP_K" by (simp add: TOP_K_def)
  then have fi: "index (srt h) 0 = (Ok (srt h ! 0) :: (unit, _) outcome)" using lc by (simp add: index_def)
  define probs where "probs = cand_probs F (sm_temperature s) (fst (srt h ! 0)) (srt h)"
  obtain cum n where nu: "nucleus F (fmul F (sm_top_p s) (foldl (fadd F) F_ZERO probs)) F_ZERO 0 probs = (cum, n)" by fastforce
  obtain u s' where r: "next_f32 F s = (u, s')" by fastforce
  have lp: "length probs = TOP_K" by (simp add: probs_def cand_probs_def lc)
  then have n: "0 < n" "n \<le> TOP_K" using nucleus_bound [OF _ nu] by simp_all
  obtain c where c: "c \<in> set h" "draw F probs (srt h) n (fmul F u cum) F_ZERO [0..<n] = (Ok (snd c) :: (unit, _) outcome)"
    using draw_Ok [of "[0..<n]" n "srt h" probs F "fmul F u cum" F_ZERO] n lp lc sc by (auto simp: lessThan_atLeast0)
  have "sampler_sample F srt s logits = (Ok (snd c, s') :: (unit, _) outcome)"
    using False h(1) sd fi nu r c(2) by (simp add: sampler_sample_def Let_def probs_def [symmetric])
  then show ?thesis using above_held [OF len h(3) assms(2) c(1) assms(1)] False by auto
qed

text \<open>C28: The sampler is total and keeps to the top 64: for any logits, NaN included, any floating-point behaviour and any
  sort with the promised contract, it returns a token of the vocabulary, never panics, and fewer than 64 tokens have a
  larger logit than the one returned; none has when the temperature is not positive.\<close>

theorem sample_in_top_k:
  assumes "logits \<noteq> []" and "length logits \<le> 2 ^ 32" and "sorts srt"
  shows "\<exists>t s'. sampler_sample F srt s logits = (Ok (t, s') :: (unit, _) outcome) \<and> unat t < length logits
    \<and> card {j. j < length logits \<and> f_lt (logits ! unat t) (logits ! j)} < (if f_le (sm_temperature s) F_ZERO then 1 else TOP_K)"
proof (cases "f_le (sm_temperature s) F_ZERO")
  case True
  have a: "argmax logits < length logits" "\<forall>j < length logits. \<not> f_lt (logits ! argmax logits) (logits ! j)"
    using argmax_top [OF assms(1)] by auto
  have u: "unat (of_nat (argmax logits) :: u32) = argmax logits" using a(1) assms(2) by (intro unat_of_nat_less) simp
  have "{j. j < length logits \<and> f_lt (logits ! argmax logits) (logits ! j)} = {}" using a(2) by blast
  then show ?thesis using True a(1) u by (simp add: sampler_sample_def)
next
  case False
  then show ?thesis using sample_hot [OF assms False, of F] by simp
qed

definition demo_sort :: "cand list \<Rightarrow> cand list" where
  "demo_sort = sort_key (\<lambda>c. - f_key (fst c))"

lemma demo_sort_sorts: "sorts demo_sort"
proof -
  have "sorted_wrt (\<lambda>a b. f_key (fst b) \<le> f_key (fst a)) (demo_sort xs)" for xs
    using sorted_sort_key [of "\<lambda>c. - f_key (fst c)" xs] by (simp add: demo_sort_def sorted_wrt_map)
  then show ?thesis by (simp add: sorts_def demo_sort_def)
qed

lemma sample_in_top_k_witness:
  "\<exists>t s'. sampler_sample demo_fpu demo_sort (sampler_new F_ONE F_ONE 7) [F_ONE, F_TWO, F_HALF] = (Ok (t, s') :: (unit, _) outcome)
    \<and> unat t < 3"
  using sample_in_top_k [OF _ _ demo_sort_sorts, of "[F_ONE, F_TWO, F_HALF]" demo_fpu "sampler_new F_ONE F_ONE 7"] by auto

subsection \<open>The random state\<close>

lemma xor_zero: "a XOR b = 0 \<Longrightarrow> a = (b :: 'a::len word)"
proof (rule bit_word_eqI)
  fix n
  assume "a XOR b = 0"
  then have "bit (a XOR b) n = bit (0 :: 'a word) n" by simp
  then show "bit a n = bit b n" by (simp add: bit_simps)
qed

lemma push_fixpoint: "0 < k \<Longrightarrow> x XOR push_bit k x = 0 \<Longrightarrow> x = (0 :: 'a::len word)"
proof -
  assume k: "0 < k" and z: "x XOR push_bit k x = 0"
  from z have x: "x = push_bit k x" by (rule xor_zero)
  have "\<not> bit x n" for n
  proof (induction n rule: less_induct)
    case (less n)
    have "bit x n \<longleftrightarrow> k \<le> n \<and> n < LENGTH('a) \<and> bit x (n - k)" by (subst x) (auto simp: bit_simps)
    then show ?case using less [of "n - k"] k by auto
  qed
  then show "x = 0" by (intro bit_word_eqI) simp
qed

lemma drop_fixpoint: "0 < k \<Longrightarrow> x XOR drop_bit k x = 0 \<Longrightarrow> x = (0 :: 'a::len word)"
proof -
  assume k: "0 < k" and z: "x XOR drop_bit k x = 0"
  from z have x: "x = drop_bit k x" by (rule xor_zero)
  have "\<not> bit x (LENGTH('a) - Suc n)" for n
  proof (induction n rule: less_induct)
    case (less n)
    show ?case
    proof (cases "n < LENGTH('a)")
      case True
      have "bit x (LENGTH('a) - Suc n) \<longleftrightarrow> bit x (LENGTH('a) - Suc n + k)" by (subst x) (auto simp: bit_simps ac_simps)
      moreover have "\<not> bit x (LENGTH('a) - Suc n + k)"
      proof (cases "k \<le> n")
        case le: True
        then have "LENGTH('a) - Suc n + k = LENGTH('a) - Suc (n - k)" using True by simp
        then show ?thesis using less [of "n - k"] le k by simp
      next
        case False
        then show ?thesis using bit_imp_le_length [of x "LENGTH('a) - Suc n + k"] True by auto
      qed
      ultimately show ?thesis by simp
    next
      case False
      then show ?thesis using less [of "LENGTH('a) - 1"] by (cases "n = LENGTH('a) - 1") auto
    qed
  qed
  from this [of "LENGTH('a) - Suc _"] have "\<not> bit x n" if "n < LENGTH('a)" for n
    using that by (metis Suc_diff_Suc diff_diff_cancel diff_less_Suc less_or_eq_imp_le)
  then show "x = 0" by (intro bit_word_eqI) simp
qed

lemma xorshift_nonzero: "x \<noteq> 0 \<Longrightarrow> xorshift x \<noteq> 0"
proof -
  assume x: "x \<noteq> 0"
  define y where "y = x XOR push_bit 13 x"
  define z where "z = y XOR drop_bit 7 y"
  have "y \<noteq> 0" using x push_fixpoint [of 13 x] by (auto simp: y_def)
  then have "z \<noteq> 0" using drop_fixpoint [of 7 y] by (auto simp: z_def)
  then have "z XOR push_bit 17 z \<noteq> 0" using push_fixpoint [of 17 z] by auto
  then show ?thesis by (simp only: xorshift_def Let_def y_def z_def not_False_eq_True)
qed

lemma next_f32_rng: "sm_rng (snd (next_f32 F s)) = xorshift (sm_rng s)"
  by (simp add: next_f32_def Let_def)

lemma sample_rng: "sampler_sample F srt s logits = (Ok (t, s') :: ('e, _) outcome) \<Longrightarrow> sm_rng s' = sm_rng s \<or> sm_rng s' = xorshift (sm_rng s)"
  using next_f32_rng [of F s] by (cases "next_f32 F s") (auto simp: sampler_sample_def outcome_simps Let_def case_prod_beta split: if_splits)

text \<open>The generator never gets stuck: after any number of samples from a sampler of \<open>new\<close>, whatever the seed and
  the logits, the random state is not zero, the one state from which xorshift never leaves.\<close>

theorem rng_never_stuck:
  assumes "ofold (\<lambda>s logits. obind (sampler_sample F srt s logits) (\<lambda>(t, s). Ok s)) (sampler_new temperature top_p seed) ls = (Ok s :: (unit, _) outcome)"
  shows "sm_rng s \<noteq> 0"
proof -
  have step: "sm_rng s \<noteq> 0 \<Longrightarrow> sampler_sample F srt s logits = (Ok (t, s') :: (unit, _) outcome) \<Longrightarrow> sm_rng s' \<noteq> 0" for s s' t logits
    using sample_rng xorshift_nonzero by metis
  have A: "sm_rng s0 \<noteq> 0 \<Longrightarrow> ofold (\<lambda>s logits. obind (sampler_sample F srt s logits) (\<lambda>(t, s). Ok s)) s0 ls = (Ok s :: (unit, _) outcome) \<Longrightarrow> sm_rng s \<noteq> 0" for s0
    by (induction ls arbitrary: s0) (auto simp: outcome_simps dest: step)
  have "bit (seed OR 1) 0" by (simp add: bit_simps)
  then have "sm_rng (sampler_new temperature top_p seed) \<noteq> 0" by (auto simp: sampler_new_def)
  from A [OF this assms] show ?thesis .
qed

lemma rng_never_stuck_witness:
  "\<exists>s. ofold (\<lambda>s logits. obind (sampler_sample demo_fpu demo_sort s logits) (\<lambda>(t, s). Ok s)) (sampler_new F_ONE F_ONE 0) [[F_TWO, F_ONE]]
       = (Ok s :: (unit, _) outcome) \<and> sm_rng s \<noteq> 0"
proof -
  have hot: "\<not> f_le (sm_temperature (sampler_new F_ONE F_ONE 0)) F_ZERO"
    by (simp add: sampler_new_def f_le_def F_ONE_def F_ZERO_def f_key_def)
  obtain t s where "sampler_sample demo_fpu demo_sort (sampler_new F_ONE F_ONE 0) [F_TWO, F_ONE] = (Ok (t, s) :: (unit, _) outcome)"
    using sample_hot [OF _ _ demo_sort_sorts hot, of "[F_TWO, F_ONE]" demo_fpu] by auto
  then have "ofold (\<lambda>s logits. obind (sampler_sample demo_fpu demo_sort s logits) (\<lambda>(t, s). Ok s)) (sampler_new F_ONE F_ONE 0) [[F_TWO, F_ONE]]
       = (Ok s :: (unit, _) outcome)" by simp
  from rng_never_stuck [OF this] this show ?thesis by blast
qed

end
