(* ===== verification/Nr_Converter.thy ===== *)
theory Nr_Converter
  imports Nr_Convert Nr_Tokbuild
begin

text \<open>
  The converter's front end, \<^verbatim>\<open>tools/nrconvert/src/main.rs\<close>: the verdict on the architecture, the metadata, the choice and
  order of the tensors, and the self-check of the written file, over the GGUF reader (\<open>Nr_Gguf\<close>), the tokenizer
  builder (\<open>Nr_Tokbuild\<close>) and the writer (\<open>Nr_Convert\<close>). Printed lines are left out; what \<open>--inspect\<close> computes
  is modelled. A panic and the exits of the command line are branches of the result.
\<close>

subsection \<open>Metadata lookups\<close>

definition kv_u32 :: "gguf \<Rightarrow> rstr \<Rightarrow> ('e, u32) outcome" where
  "kv_u32 g key = expect (Option.bind (gg_kv g key) as_u32)"

definition kv_f32 :: "(u64 \<Rightarrow> u32) \<Rightarrow> gguf \<Rightarrow> rstr \<Rightarrow> ('e, u32) outcome" where
  "kv_f32 narrow g key = expect (Option.bind (gg_kv g key) (as_f32 narrow))"

definition quant_label :: "gguf \<Rightarrow> rstr" where
  "quant_label g = (case Option.bind (gg_kv g (str ''general.file_type'')) as_u32 of None \<Rightarrow> str ''quantized''
     | Some t \<Rightarrow> if t = 7 then str ''Q8_0'' else if t = 14 then str ''Q4_K_S'' else if t = 15 then str ''Q4_K_M''
         else if t = 17 then str ''Q5_K_M'' else if t = 18 then str ''Q6_K'' else str ''quantized'')"

text \<open>Decimal digits, as \<open>format!\<close> prints an integer.\<close>

function dec :: "nat \<Rightarrow> rstr" where
  "dec n = (if n < 10 then [48 + n] else dec (n div 10) @ [48 + n mod 10])"
  by auto
termination by (relation "measure id") auto

declare dec.simps [simp del]

definition ggml_dtype_name :: "u32 \<Rightarrow> rstr" where
  "ggml_dtype_name t = (if t = 0 then str ''F32'' else if t = 1 then str ''F16'' else if t = 8 then str ''Q8_0'' else if t = 12 then str ''Q4_K''
     else if t = 13 then str ''Q5_K'' else if t = 14 then str ''Q6_K'' else str ''ggml_type_'' @ dec (unat t))"

subsection \<open>The verdict on the architecture\<close>

datatype convert_error = HybridGranite | UnsupportedArch rstr | UnsupportedFeature rstr gvalue | UnsupportedTensor rstr

fun str_contains :: "rstr \<Rightarrow> rstr \<Rightarrow> bool" where
  "str_contains pat [] = (pat = [])"
| "str_contains pat (c # cs) = (take (length pat) (c # cs) = pat \<or> str_contains pat cs)"

definition akey :: "rstr \<Rightarrow> char list \<Rightarrow> rstr" where
  "akey arch suffix = arch @ str ''.'' @ str suffix"

primrec check_features :: "gguf \<Rightarrow> rstr \<Rightarrow> char list list \<Rightarrow> (convert_error, unit) outcome" where
  "check_features g arch [] = Ok ()"
| "check_features g arch (key # ks) =
     (case gg_kv g (akey arch key) of None \<Rightarrow> check_features g arch ks
      | Some v \<Rightarrow> if (case as_u32 v of Some n \<Rightarrow> n | None \<Rightarrow> 0) \<noteq> 0 then Err (UnsupportedFeature (akey arch key) v) else check_features g arch ks)"

definition arch_verdict :: "gguf \<Rightarrow> rstr \<Rightarrow> (convert_error, unit) outcome" where
  "arch_verdict g arch =
     (if arch = str ''granitehybrid'' \<or> arch = str ''granitemoehybrid'' then Err HybridGranite
      else if arch \<noteq> str ''llama'' \<and> arch \<noteq> str ''qwen3'' \<and> arch \<noteq> str ''granite'' then Err (UnsupportedArch arch)
      else obind (check_features g arch [''ssm_conv_kernel'', ''ssm_state_size'', ''expert_count'', ''expert_used_count'']) (\<lambda>_.
        case find (\<lambda>t. str_contains (str ''.ssm_'') (ti_name t) \<or> str_contains (str ''ffn_gate_exps'') (ti_name t)) (gg_tensors g) of
          Some t \<Rightarrow> Err (UnsupportedTensor (ti_name t))
        | None \<Rightarrow> Ok ()))"

text \<open>The role of a tensor in the table of \<open>inspect\<close>: its name without the block prefix, and the mix of types.\<close>

definition tensor_role :: "rstr \<Rightarrow> rstr" where
  "tensor_role name =
     (if take 4 name = str ''blk.''
      then (let rest = drop 4 name; r = dropWhile (\<lambda>c. c \<noteq> 46) rest in if r = [] then rest else drop 1 r)
      else name)"

definition dtype_mix :: "tensor_info list \<Rightarrow> rstr \<times> rstr \<Rightarrow> (u32 \<times> u64) option" where
  "dtype_mix ts = foldl (\<lambda>m t. let k = (tensor_role (ti_name t), ggml_dtype_name (ti_dtype t));
       (n, sz) = (case m k of Some e \<Rightarrow> e | None \<Rightarrow> (0, 0)) in m(k \<mapsto> (n + 1, sz + ti_byte_size t))) Map.empty ts"

subsection \<open>Metadata\<close>

definition family_of :: "rstr \<Rightarrow> ('e, arch \<times> family) outcome" where
  "family_of arch = (if arch = str ''llama'' then Ok (arch.Llama3, FamLlama3) else if arch = str ''qwen3'' then Ok (arch.Qwen3, FamQwen3)
     else if arch = str ''granite'' then Ok (arch.Granite, FamGranite) else Panic)"

definition head_dim_of :: "gguf \<Rightarrow> rstr \<Rightarrow> u32 \<Rightarrow> u32 \<Rightarrow> ('e, u32) outcome" where
  "head_dim_of g arch dim n_heads =
     (if n_heads = 0 then Panic
      else Ok (case Option.bind (gg_kv g (akey arch ''attention.key_length'')) as_u32 of Some n \<Rightarrow> n | None \<Rightarrow> dim div n_heads))"

definition scalars_of :: "(u64 \<Rightarrow> u32) \<Rightarrow> gguf \<Rightarrow> rstr \<Rightarrow> arch \<Rightarrow> ('e, u32 \<times> u32 \<times> u32 \<times> u32) outcome" where
  "scalars_of narrow g arch aid =
     (if aid = arch.Granite then
        obind (kv_f32 narrow g (akey arch ''embedding_scale'')) (\<lambda>e. obind (kv_f32 narrow g (akey arch ''attention.scale'')) (\<lambda>a.
        obind (kv_f32 narrow g (akey arch ''residual_scale'')) (\<lambda>r. obind (kv_f32 narrow g (akey arch ''logit_scale'')) (\<lambda>l.
        Ok (e, a, r, l)))))
      else Ok (0x3f800000, 0, 0x3f800000, 0x3f800000))"

definition model_name :: "gguf \<Rightarrow> rstr" where
  "model_name g = (case Option.bind (gg_kv g (str ''general.name'')) as_str of Some s \<Rightarrow> s | None \<Rightarrow> str ''Unknown Model'')
     @ str '' '' @ quant_label g"

definition find_tensor :: "gguf \<Rightarrow> rstr \<Rightarrow> tensor_info option" where
  "find_tensor g name = find (\<lambda>t. ti_name t = name) (gg_tensors g)"

text \<open>The header fields; \<open>narrow\<close> rounds a 64-bit float.\<close>

definition meta_of :: "(u64 \<Rightarrow> u32) \<Rightarrow> gguf \<Rightarrow> rstr \<Rightarrow> arch \<Rightarrow> ('e, model_meta) outcome" where
  "meta_of narrow g arch aid =
     obind (kv_u32 g (akey arch ''embedding_length'')) (\<lambda>dim. obind (kv_u32 g (akey arch ''block_count'')) (\<lambda>n_layers.
     obind (kv_u32 g (akey arch ''attention.head_count'')) (\<lambda>n_heads. obind (kv_u32 g (akey arch ''attention.head_count_kv'')) (\<lambda>n_kv_heads.
     obind (kv_u32 g (akey arch ''feed_forward_length'')) (\<lambda>ffn_dim. obind (kv_u32 g (akey arch ''context_length'')) (\<lambda>ctx_train.
     obind (kv_f32 narrow g (akey arch ''rope.freq_base'')) (\<lambda>rope_theta. obind (kv_f32 narrow g (akey arch ''attention.layer_norm_rms_epsilon'')) (\<lambda>norm_eps.
     obind (head_dim_of g arch dim n_heads) (\<lambda>head_dim.
     obind (obind (kv_index g ''tokenizer.ggml.tokens'') (\<lambda>v. expect (as_arr v))) (\<lambda>tokens.
     obind (scalars_of narrow g arch aid) (\<lambda>(embed_scale, attn_scale, residual_scale, logit_scale).
     Ok \<lparr>mt_arch = aid, mt_dim = dim, mt_n_layers = n_layers, mt_n_heads = n_heads, mt_n_kv_heads = n_kv_heads, mt_head_dim = head_dim,
         mt_ffn_dim = ffn_dim, mt_vocab = of_nat (length tokens), mt_ctx_train = ctx_train, mt_rope_theta = rope_theta, mt_norm_eps = norm_eps,
         mt_rope_factor = (case Option.bind (gg_kv g (str ''llama.rope.scaling.factor'')) (as_f32 narrow) of Some f \<Rightarrow> f | None \<Rightarrow> 0),
         mt_rope_low = 0, mt_rope_high = 0, mt_rope_orig_ctx = 0,
         mt_flags = (if find_tensor g (str ''output.weight'') = None then FLAG_TIED_EMBEDDINGS else 0),
         mt_embed_scale = embed_scale, mt_attn_scale = attn_scale, mt_residual_scale = residual_scale, mt_logit_scale = logit_scale,
         mt_name = name_bytes (utf8 (model_name g))\<rparr>)))))))))))"

subsection \<open>Tensors\<close>

definition dtype_of_ggml :: "u32 \<Rightarrow> dtype option" where
  "dtype_of_ggml t = (if t = GGML_F32 then Some F32 else if t = GGML_Q8_0 then Some Q8_0 else if t = GGML_Q4_K then Some Q4K
     else if t = GGML_Q6_K then Some Q6K else None)"

definition push_tensor :: "gguf \<Rightarrow> tensor_info \<Rightarrow> tensor_kind \<Rightarrow> u16 \<Rightarrow> ('e, out_tensor) outcome" where
  "push_tensor g t kind layer =
     obind (expect (dtype_of_ggml (ti_dtype t))) (\<lambda>dtype. obind (index (ti_dims t) 0) (\<lambda>cols.
     obind (slice (gg_data g) (unat (ti_file_offset t)) (unat (ti_file_offset t + ti_byte_size t))) (\<lambda>bytes.
     Ok \<lparr>ot_kind = kind, ot_layer = layer, ot_dtype = dtype, ot_rows = ucast (if 1 < length (ti_dims t) then ti_dims t ! 1 else 1),
         ot_cols = ucast cols, ot_bytes = bytes, ot_offset = 0\<rparr>)))"

text \<open>The tensors to write, in order: name in the GGUF file, kind, layer.\<close>

type_synonym wanted = "rstr \<times> tensor_kind \<times> u16"

definition blk_name :: "nat \<Rightarrow> char list \<Rightarrow> rstr" where
  "blk_name l suffix = str ''blk.'' @ dec l @ str ''.'' @ str suffix @ str ''.weight''"

definition layer_plan :: "arch \<Rightarrow> nat \<Rightarrow> wanted list" where
  "layer_plan aid l = map (\<lambda>(suffix, kind). (blk_name l suffix, kind, of_nat l))
     ([(''attn_norm'', AttnNorm)] @ (if aid = arch.Qwen3 then [(''attn_q_norm'', AttnQNorm), (''attn_k_norm'', AttnKNorm)] else [])
      @ [(''attn_q'', AttnQ), (''attn_k'', AttnK), (''attn_v'', AttnV), (''attn_output'', AttnO), (''ffn_norm'', FfnNorm),
         (''ffn_gate'', FfnGate), (''ffn_up'', FfnUp), (''ffn_down'', FfnDown)])"

definition tensor_plan :: "gguf \<Rightarrow> arch \<Rightarrow> u32 \<Rightarrow> wanted list" where
  "tensor_plan g aid n_layers =
     [(str ''token_embd.weight'', TokEmbed, 0)]
     @ (if find_tensor g (str ''rope_freqs.weight'') \<noteq> None then [(str ''rope_freqs.weight'', RopeFreqs, 0)] else [])
     @ concat (map (layer_plan aid) [0..<unat (ucast n_layers :: u16)])
     @ [(str ''output_norm.weight'', OutputNorm, 0)]
     @ (if find_tensor g (str ''output.weight'') \<noteq> None then [(str ''output.weight'', Output, 0)] else [])"

definition out_tensors :: "gguf \<Rightarrow> wanted list \<Rightarrow> ('e, out_tensor list) outcome" where
  "out_tensors g plan = map_outcome (\<lambda>(name, kind, layer). obind (expect (find_tensor g name)) (\<lambda>t. push_tensor g t kind layer)) plan"

subsection \<open>Conversion\<close>

definition expect_ok :: "('d, 'a) outcome \<Rightarrow> ('e, 'a) outcome" where
  "expect_ok r = (case r of Ok x \<Rightarrow> Ok x | _ \<Rightarrow> Panic)"

text \<open>What is written: header, tokenizer and tensors.\<close>

definition convert_parts :: "(u64 \<Rightarrow> u32) \<Rightarrow> gguf \<Rightarrow> (convert_error, model_meta \<times> built_tokenizer \<times> out_tensor list) outcome" where
  "convert_parts narrow g =
     obind (obind (kv_index g ''general.architecture'') (\<lambda>v. expect (as_str v))) (\<lambda>arch.
     obind (arch_verdict g arch) (\<lambda>_. obind (family_of arch) (\<lambda>(aid, fam).
     obind (meta_of narrow g arch aid) (\<lambda>m. obind (build g fam) (\<lambda>tok.
     obind (out_tensors g (tensor_plan g aid (mt_n_layers m))) (\<lambda>outs. Ok (m, tok, outs)))))))"

text \<open>The self-check on the file, in memory at \<open>addr\<close>.\<close>

definition self_check :: "char_classes \<Rightarrow> nat \<Rightarrow> bytes \<Rightarrow> ('e, u32 list) outcome" where
  "self_check cls addr file =
     obind (expect_ok (model_parse addr file)) (\<lambda>model. if \<not> fst (verify_data model) then Panic else
     obind (expect_ok (tokenizer_parse (md_tokenizer_blob model))) (\<lambda>tk.
     expect_ok (encode_text cls tk (str ''Hello, world!'') [])))"

definition convert :: "(u64 \<Rightarrow> u32) \<Rightarrow> char_classes \<Rightarrow> nat \<Rightarrow> gguf \<Rightarrow> (convert_error, bytes) outcome" where
  "convert narrow cls addr g =
     obind (convert_parts narrow g) (\<lambda>(m, tok, outs). let file = write_nrm m (bt_blob tok) outs in
     obind (self_check cls addr file) (\<lambda>_. Ok file))"

subsection \<open>The plan\<close>

lemma layer_plan_layer: "w \<in> set (layer_plan aid l) \<Longrightarrow> snd (snd w) = of_nat l \<and> fst (snd w) \<notin> {TokEmbed, OutputNorm, Output, RopeFreqs}"
  by (auto simp: layer_plan_def split: if_splits)

lemma layer_plan_distinct: "distinct (map snd (layer_plan aid l))"
  by (cases aid) (simp_all add: layer_plan_def)

lemma u16_small: "unat (w :: u16) < 65536"
  using unsigned_less [of w] by simp

lemma layers_distinct: "n \<le> 2 ^ 16 \<Longrightarrow> distinct (map snd (concat (map (layer_plan aid) [0..<n])))"
proof (induction n)
  case (Suc n)
  have "snd w \<noteq> snd w'" if w: "w \<in> set (layer_plan aid n)" "w' \<in> set (layer_plan aid i)" "i < n" for w w' i
  proof -
    have "(of_nat n :: u16) \<noteq> of_nat i" using that Suc.prems by (simp add: word_unat_eq_iff unat_of_nat_less)
    then show ?thesis using layer_plan_layer w by metis
  qed
  then have "set (map snd (concat (map (layer_plan aid) [0..<n]))) \<inter> set (map snd (layer_plan aid n)) = {}" by fastforce
  then show ?case using Suc layer_plan_distinct [of aid n] by (simp add: Int_commute)
qed simp

lemma plan_distinct: "distinct (map snd (tensor_plan g aid n))"
proof -
  let ?L = "concat (map (layer_plan aid) [0..<unat (ucast n :: u16)])"
  have l: "distinct (map snd ?L)"
    using u16_small [of "ucast n"] by (intro layers_distinct) simp
  have k: "fst (snd w) \<notin> {TokEmbed, OutputNorm, Output, RopeFreqs}" if "w \<in> set ?L" for w
    using that layer_plan_layer by (fastforce simp del: upt_Suc)
  have "(k, i) \<notin> snd ` set ?L" if "k \<in> {TokEmbed, OutputNorm, Output, RopeFreqs}" for k i
    using k that by fastforce
  then show ?thesis using l by (simp add: tensor_plan_def)
qed

lemma length_plan: "length (tensor_plan g aid n) < 2 ^ 32"
proof -
  have "length (layer_plan aid l) \<le> 11" for l by (simp add: layer_plan_def)
  note one = this
  have "length (concat (map (layer_plan aid) [0..<k])) \<le> 11 * k" for k
  proof (induction k)
    case (Suc k)
    then show ?case using one [of k] by simp
  qed simp
  from this [of "unat (ucast n :: u16)"] show ?thesis
    using u16_small [of "ucast n"] by (auto simp: tensor_plan_def)
qed

subsection \<open>The written tensors are the file's\<close>

text \<open>A shape of one or two dimensions that accounts for the tensor's bytes.\<close>

definition shape_ok :: "tensor_info \<Rightarrow> bool" where
  "shape_ok t \<longleftrightarrow> (\<forall>dt. dtype_of_ggml (ti_dtype t) = Some dt \<longrightarrow> ti_dims t \<noteq> [] \<longrightarrow>
     byte_size dt (unat (ucast (if 1 < length (ti_dims t) then ti_dims t ! 1 else 1) :: u32) * unat (ucast (ti_dims t ! 0) :: u32)) = Some (unat (ti_byte_size t)))"

definition tensor_content :: "gguf \<Rightarrow> tensor_info \<Rightarrow> bytes" where
  "tensor_content g t = take (unat (ti_byte_size t)) (drop (unat (ti_file_offset t)) (gg_data g))"

lemma push_tensor_Ok:
  assumes "push_tensor g t kind layer = Ok w"
  shows "ot_kind w = kind \<and> ot_layer w = layer \<and> dtype_of_ggml (ti_dtype t) = Some (ot_dtype w) \<and> ot_bytes w = tensor_content g t
    \<and> length (ot_bytes w) = unat (ti_byte_size t) \<and> ti_dims t \<noteq> [] \<and> ot_cols w = ucast (ti_dims t ! 0)
    \<and> ot_rows w = ucast (if 1 < length (ti_dims t) then ti_dims t ! 1 else 1)"
proof -
  let ?o = "ti_file_offset t" and ?n = "ti_byte_size t"
  from assms have le: "unat ?o \<le> unat (?o + ?n)" "unat (?o + ?n) \<le> length (gg_data g)"
    and w: "ot_kind w = kind" "ot_layer w = layer" "dtype_of_ggml (ti_dtype t) = Some (ot_dtype w)" "ti_dims t \<noteq> []"
      "ot_cols w = ucast (ti_dims t ! 0)" "ot_rows w = ucast (if 1 < length (ti_dims t) then ti_dims t ! 1 else 1)"
      "ot_bytes w = sub (gg_data g) (unat ?o) (unat (?o + ?n))"
    by (auto simp: push_tensor_def outcome_simps expect_def split: option.splits)
  have "unat (?o + ?n) = unat ?o + unat ?n"
    using le(1) by (metis word_le_nat_alt unat_plus_simple)
  then show ?thesis using w le by (simp add: sub_def tensor_content_def)
qed

lemma find_tensor_Some: "find_tensor g name = Some t \<Longrightarrow> t \<in> set (gg_tensors g)"
  by (auto simp: find_tensor_def find_Some_iff)

definition reads_from :: "gguf \<Rightarrow> wanted \<Rightarrow> out_tensor \<Rightarrow> bool" where
  "reads_from g x w \<longleftrightarrow> (\<exists>t. find_tensor g (fst x) = Some t \<and> push_tensor g t (fst (snd x)) (snd (snd x)) = (Ok w :: (convert_error, _) outcome))"

lemma out_tensors_Ok:
  assumes "out_tensors g plan = (Ok outs :: (convert_error, _) outcome)"
  shows "list_all2 (reads_from g) plan outs"
proof -
  note m = map_outcome_Ok [OF assms [unfolded out_tensors_def]]
  have "reads_from g (plan ! i) (outs ! i)" if "i < length plan" for i
  proof -
    have "(case plan ! i of (name, kind, layer) \<Rightarrow> obind (expect (find_tensor g name)) (\<lambda>t. push_tensor g t kind layer))
        = (Ok (outs ! i) :: (convert_error, _) outcome)" using m that by blast
    then show ?thesis by (cases "plan ! i") (auto simp: reads_from_def outcome_simps expect_def split: option.splits)
  qed
  then show ?thesis using m by (simp add: list_all2_conv_all_nth)
qed

lemma list_all2_left: "list_all2 P xs ys \<Longrightarrow> x \<in> set xs \<Longrightarrow> \<exists>y \<in> set ys. P x y"
  and list_all2_right: "list_all2 P xs ys \<Longrightarrow> y \<in> set ys \<Longrightarrow> \<exists>x \<in> set xs. P x y"
  by (induction rule: list_all2_induct) auto

lemma meta_of_Ok:
  assumes "meta_of narrow g arch aid = Ok m"
  shows "length (mt_name m) = 48 \<and> mt_rope_low m = 0 \<and> mt_rope_high m = 0 \<and> mt_rope_orig_ctx m = 0 \<and> mt_arch m = aid
    \<and> (aid \<noteq> arch.Granite \<longrightarrow> \<not> scalars_bad m)"
  using assms by (auto simp: meta_of_def outcome_simps scalars_of_def scalars_bad_def f32_is_finite_def f32_lt_zero_def f32_le_zero_def f32_is_nan_def
      split: if_splits)

text \<open>C29: Conversion is faithful: when the GGUF file has what the converter asks for, with shapes that account for their bytes,
  special token ids inside the vocabulary and (Granite) sane scalars, the self-check cannot fail, the written file
  parses to the same metadata and tokenizer, and every planned tensor reads back as the GGUF tensor of its name: the same
  element type, its first dimension as columns and its second as rows (one row if there is none; in the table's 32 bits), and
  exactly its bytes.\<close>

theorem conversion_is_faithful:
  assumes parts: "convert_parts narrow g = Ok (m, tok, outs)" and shapes: "\<forall>t \<in> set (gg_tensors g). shape_ok t"
    and scal: "mt_arch m = arch.Granite \<Longrightarrow> \<not> scalars_bad m" and ids: "bos_eos_in_vocab g (bt_vocab tok)" and cls: "class_ok cls"
    and small: "length (bt_blob tok) < 2 ^ 32" "length (write_nrm m (bt_blob tok) outs) < usize_limit"
  shows "convert narrow cls addr g = Ok (write_nrm m (bt_blob tok) outs) \<and>
    (\<exists>M. model_parse addr (write_nrm m (bt_blob tok) outs) = Ok M \<and> md_meta M = m \<and> md_tokenizer_blob M = bt_blob tok
      \<and> (\<forall>(name, kind, layer) \<in> set (tensor_plan g (mt_arch m) (mt_n_layers m)). \<exists>t v. find_tensor g name = Some t
           \<and> model_tensor M kind (unat layer) = Ok v \<and> tv_bytes v = tensor_content g t \<and> Some (tv_dtype v) = dtype_of_ggml (ti_dtype t)
           \<and> tv_cols v = unat (ti_dims t ! 0) mod 2 ^ 32 \<and> tv_rows v = (if 1 < length (ti_dims t) then unat (ti_dims t ! 1) mod 2 ^ 32 else 1)))"
proof -
  obtain arch aid fam where p: "family_of arch = (Ok (aid, fam) :: (convert_error, _) outcome)" "meta_of narrow g arch aid = (Ok m :: (convert_error, _) outcome)"
    "build g fam = (Ok tok :: (convert_error, _) outcome)" "out_tensors g (tensor_plan g aid (mt_n_layers m)) = (Ok outs :: (convert_error, _) outcome)"
    using parts by (auto simp: convert_parts_def outcome_simps)
  note mo = meta_of_Ok [OF p(2)]
  note la = out_tensors_Ok [OF p(4)]
  have out: "byte_size (ot_dtype w) (unat (ot_rows w) * unat (ot_cols w)) = Some (length (ot_bytes w))" if "w \<in> set outs" for w
  proof -
    from list_all2_right [OF la that] obtain x where "reads_from g x w" by blast
    then obtain t kind layer name where t: "find_tensor g name = Some t" "push_tensor g t kind layer = (Ok w :: (convert_error, _) outcome)"
      unfolding reads_from_def by blast
    have "shape_ok t" using shapes find_tensor_Some [OF t(1)] by blast
    then show ?thesis using push_tensor_Ok [OF t(2)] unfolding shape_ok_def by metis
  qed
  have keys: "map (\<lambda>w. (ot_kind w, ot_layer w)) outs = map snd (tensor_plan g aid (mt_n_layers m))"
    using la by (induction rule: list_all2_induct) (auto simp: reads_from_def dest!: push_tensor_Ok)
  have "length outs < 2 ^ 32" using list_all2_lengthD [OF la] length_plan [of g aid "mt_n_layers m"] by simp
  then have conv: "convertible m (bt_blob tok) outs" using mo scal out small(2) unfolding convertible_def by blast
  have uniq: "distinct (map (\<lambda>w. (ot_kind w, ot_layer w)) outs)" unfolding keys by (rule plan_distinct)
  let ?f = "write_nrm m (bt_blob tok) outs" and ?M = "written_model addr m (bt_blob tok) outs"
  have M: "model_parse addr ?f = Ok ?M" by (rule parse_written [OF conv])
  have meta: "md_meta ?M = m" "md_tokenizer_blob ?M = bt_blob tok" by (simp_all add: written_model_def)
  have vd: "fst (verify_data ?M)" by (simp add: verify_data_def Let_def verify_loop_crc written_model_def crc_checksum_def)
  obtain tk where tk: "tokenizer_parse (bt_blob tok) = Ok tk" "tok_ok tk" using built_tokenizer_ok [OF p(3) small(1) ids] by blast
  have "\<forall>c \<in> set (str ''Hello, world!''). scalar c" by (simp add: str_def scalar_def)
  from encode_text_ok [OF tk(2) cls this] obtain es where es: "encode_text cls tk (str ''Hello, world!'') [] = Ok es" by auto
  have "convert narrow cls addr g = Ok ?f"
    using parts M vd meta(2) tk(1) es by (simp add: convert_def self_check_def expect_ok_def Let_def)
  moreover have "\<exists>t v. find_tensor g name = Some t \<and> model_tensor ?M kind (unat layer) = Ok v \<and> tv_bytes v = tensor_content g t
      \<and> Some (tv_dtype v) = dtype_of_ggml (ti_dtype t) \<and> tv_cols v = unat (ti_dims t ! 0) mod 2 ^ 32
      \<and> tv_rows v = (if 1 < length (ti_dims t) then unat (ti_dims t ! 1) mod 2 ^ 32 else 1)"
    if wanted: "(name, kind, layer) \<in> set (tensor_plan g (mt_arch m) (mt_n_layers m))" for name kind layer
  proof -
    have "(name, kind, layer) \<in> set (tensor_plan g aid (mt_n_layers m))" using wanted mo by simp
    from list_all2_left [OF la this] obtain w where "w \<in> set outs" "reads_from g (name, kind, layer) w" by blast
    then obtain t where w: "w \<in> set outs" "find_tensor g name = Some t" "push_tensor g t kind layer = (Ok w :: (convert_error, _) outcome)"
      by (auto simp: reads_from_def)
    have "unat (ucast x :: u32) = unat x mod 2 ^ 32" for x :: u64 by (simp add: unsigned_ucast_eq take_bit_eq_mod)
    then show ?thesis using w written_tensor [OF conv uniq w(1), of addr] push_tensor_Ok [OF w(3)] by auto
  qed
  ultimately show ?thesis using M meta by blast
qed

subsection \<open>A small file\<close>

definition qkey :: "char list \<Rightarrow> rstr" where "qkey k = akey (str ''qwen3'') k"

definition demo_meta :: "(rstr \<times> gvalue) list" where
  "demo_meta = [(str ''general.architecture'', VStr (str ''qwen3'')), (qkey ''embedding_length'', VU32 2), (qkey ''block_count'', VU32 0),
     (qkey ''attention.head_count'', VU32 1), (qkey ''attention.head_count_kv'', VU32 1), (qkey ''feed_forward_length'', VU32 2),
     (qkey ''context_length'', VU32 16), (qkey ''rope.freq_base'', VF32 0x3f800000), (qkey ''attention.layer_norm_rms_epsilon'', VF32 0)]"

definition demo_source :: gguf where
  "demo_source = \<lparr>gg_kv = (\<lambda>k. case gg_kv demo_gguf k of Some v \<Rightarrow> Some v | None \<Rightarrow> map_of demo_meta k),
     gg_tensors = [\<lparr>ti_name = str ''token_embd.weight'', ti_dims = [2, 3], ti_dtype = GGML_F32, ti_file_offset = 0, ti_byte_size = 24\<rparr>,
       \<lparr>ti_name = str ''output_norm.weight'', ti_dims = [2], ti_dtype = GGML_F32, ti_file_offset = 32, ti_byte_size = 8\<rparr>],
     gg_data = map of_nat [0..<40]\<rparr>"

lemma str_eq [simp]: "str a = str b \<longleftrightarrow> a = b"
  by (auto simp: str_def inj_map_eq_map inj_def)

lemma qkey_eq [simp]: "qkey a = qkey b \<longleftrightarrow> a = b" "qkey a \<noteq> str (CHR ''g'' # k)" "str (CHR ''g'' # k) \<noteq> qkey a"
  by (auto simp: qkey_def akey_def) (auto simp: str_def)

lemma demo_source_tokenizer: "gg_kv demo_source (str (CHR ''t'' # k)) = gg_kv demo_gguf (str (CHR ''t'' # k))"
proof -
  have "map_of demo_meta (str (CHR ''t'' # k)) = None"
    by (simp add: demo_meta_def qkey_def akey_def) (simp add: str_def)
  then show ?thesis by (simp add: demo_source_def split: option.split)
qed

lemma demo_source_build: "build demo_source f = build demo_gguf f"
  by (simp only: build_def kv_index_def demo_source_tokenizer)

lemma demo_source_key: "gg_kv demo_source (qkey k) = map_of demo_meta (qkey k)"
proof -
  have "gg_kv demo_gguf (qkey k) = None" by (simp add: demo_gguf_def qkey_def akey_def) (simp add: str_def)
  then show ?thesis by (simp add: demo_source_def)
qed

lemma demo_source_meta:
  "\<exists>m. meta_of narrow demo_source (str ''qwen3'') arch.Qwen3 = Ok m \<and> mt_n_layers m = 0 \<and> mt_arch m = arch.Qwen3"
proof -
  have tok: "kv_index demo_source ''tokenizer.ggml.tokens'' = Ok (VArr (map VStr demo_vocab))"
    by (simp only: kv_index_def demo_source_tokenizer) (simp add: demo_gguf_def expect_def)
  show ?thesis
    by (simp add: meta_of_def tok kv_u32_def kv_f32_def head_dim_of_def scalars_of_def as_arr_def flip: qkey_def)
      (simp add: demo_source_key demo_meta_def as_u32_def as_f32_def expect_def)
qed

lemma demo_source_arch: "kv_index demo_source ''general.architecture'' = Ok (VStr (str ''qwen3''))"
proof -
  have "gg_kv demo_gguf (str ''general.architecture'') = None" by (simp add: demo_gguf_def)
  then show ?thesis by (simp add: kv_index_def demo_source_def demo_meta_def expect_def)
qed

lemma demo_source_verdict: "arch_verdict demo_source (str ''qwen3'') = Ok ()"
proof -
  have "check_features demo_source (str ''qwen3'') [''ssm_conv_kernel'', ''ssm_state_size'', ''expert_count'', ''expert_used_count''] = Ok ()"
    by (simp add: demo_source_key demo_meta_def flip: qkey_def)
  moreover have "find (\<lambda>t. str_contains (str ''.ssm_'') (ti_name t) \<or> str_contains (str ''ffn_gate_exps'') (ti_name t)) (gg_tensors demo_source) = None"
    by (simp add: demo_source_def) (simp add: str_def)
  ultimately show ?thesis by (simp add: arch_verdict_def)
qed

lemma demo_source_tensors:
  assumes "length (mt_name m) = 48"
  shows "\<exists>outs. out_tensors demo_source (tensor_plan demo_source arch.Qwen3 0) = (Ok outs :: (convert_error, _) outcome)
     \<and> length (write_nrm m tok outs) \<le> 1000 + length tok"
proof -
  let ?outs = "[\<lparr>ot_kind = TokEmbed, ot_layer = 0, ot_dtype = F32, ot_rows = 3, ot_cols = 2, ot_bytes = map of_nat [0..<24], ot_offset = 0\<rparr>,
     \<lparr>ot_kind = OutputNorm, ot_layer = 0, ot_dtype = F32, ot_rows = 1, ot_cols = 2, ot_bytes = map of_nat [32..<40], ot_offset = 0\<rparr>]"
  have "tensor_plan demo_source arch.Qwen3 0 = [(str ''token_embd.weight'', TokEmbed, 0), (str ''output_norm.weight'', OutputNorm, 0)]"
    by (simp add: tensor_plan_def find_tensor_def demo_source_def)
  then have "out_tensors demo_source (tensor_plan demo_source arch.Qwen3 0) = (Ok ?outs :: (convert_error, _) outcome)"
    by (simp add: out_tensors_def find_tensor_def demo_source_def push_tensor_def dtype_of_ggml_def expect_def index_def slice_def sub_def
        take_map drop_map)
  moreover have "length (write_nrm m tok ?outs) \<le> 1000 + length tok"
  proof -
    have "align_data n \<le> n + 63" for n by (simp add: align_data_def div_ceil_def DATA_ALIGN_def) presburger
    from this [of "192 + length tok + length ?outs * 32"] have "align_data (192 + length tok + length ?outs * 32) \<le> length tok + 400" by simp
    moreover have "length (image 0 (written_tensors ?outs)) \<le> 100"
      using written_tensors_props(3) [of ?outs] by (simp add: align_data_def div_ceil_def DATA_ALIGN_def)
    ultimately show ?thesis by (simp only: length_write_nrm [OF assms])
  qed
  ultimately show ?thesis by blast
qed

lemma demo_source_shapes: "\<forall>t \<in> set (gg_tensors demo_source). shape_ok t"
  by (simp add: demo_source_def shape_ok_def dtype_of_ggml_def GGML_F32_def checked_mul_def usize_limit_def)

lemma conversion_is_faithful_witness:
  "\<exists>file M. convert (\<lambda>_. 0) ascii_classes 4096 demo_source = Ok file \<and> model_parse 4096 file = Ok M
     \<and> mt_arch (md_meta M) = arch.Qwen3 \<and> (\<exists>v. model_tensor M TokEmbed 0 = Ok v \<and> tv_bytes v = map of_nat [0..<24] \<and> tv_rows v = 3 \<and> tv_cols v = 2 \<and> tv_dtype v = F32)"
proof -
  obtain m where m: "meta_of (\<lambda>_. 0) demo_source (str ''qwen3'') arch.Qwen3 = (Ok m :: (convert_error, _) outcome)" "mt_n_layers m = 0" "mt_arch m = arch.Qwen3"
    using demo_source_meta by blast
  obtain bt where bt: "build demo_gguf FamQwen3 = (Ok bt :: (convert_error, _) outcome)" "length (bt_blob bt) < 2 ^ 32" "bos_eos_in_vocab demo_gguf (bt_vocab bt)"
    using demo_build by blast
  obtain outs where o: "out_tensors demo_source (tensor_plan demo_source arch.Qwen3 0) = (Ok outs :: (convert_error, _) outcome)"
      "length (write_nrm m (bt_blob bt) outs) \<le> 1000 + length (bt_blob bt)"
    using demo_source_tensors meta_of_Ok [OF m(1)] by blast
  have parts: "convert_parts (\<lambda>_. 0) demo_source = Ok (m, bt, outs)"
    using m bt(1) o(1) by (simp add: convert_parts_def demo_source_arch demo_source_verdict demo_source_build family_of_def as_str_def expect_def)
  have ids: "bos_eos_in_vocab demo_source (bt_vocab bt)" using bt(3) by (simp add: bos_eos_in_vocab_def demo_source_tokenizer)
  have small: "length (write_nrm m (bt_blob bt) outs) < usize_limit" using o(2) bt(2) by (simp add: usize_limit_def)
  note faithful = conversion_is_faithful [OF parts demo_source_shapes _ ids ascii_class_ok bt(2) small, of 4096, unfolded m(2,3)]
  then obtain M where M: "convert (\<lambda>_. 0) ascii_classes 4096 demo_source = Ok (write_nrm m (bt_blob bt) outs)"
    "model_parse 4096 (write_nrm m (bt_blob bt) outs) = Ok M" "md_meta M = m"
    "\<forall>(name, kind, layer) \<in> set (tensor_plan demo_source arch.Qwen3 0). \<exists>t v. find_tensor demo_source name = Some t
       \<and> model_tensor M kind (unat layer) = Ok v \<and> tv_bytes v = tensor_content demo_source t \<and> Some (tv_dtype v) = dtype_of_ggml (ti_dtype t)
       \<and> tv_cols v = unat (ti_dims t ! 0) mod 2 ^ 32 \<and> tv_rows v = (if 1 < length (ti_dims t) then unat (ti_dims t ! 1) mod 2 ^ 32 else 1)"
    by blast
  have "(str ''token_embd.weight'', TokEmbed, 0) \<in> set (tensor_plan demo_source arch.Qwen3 0)" by (simp add: tensor_plan_def)
  from bspec [OF M(4) this] obtain t v where v: "find_tensor demo_source (str ''token_embd.weight'') = Some t"
    "model_tensor M TokEmbed 0 = Ok v" "tv_bytes v = tensor_content demo_source t" "Some (tv_dtype v) = dtype_of_ggml (ti_dtype t)"
    "tv_cols v = unat (ti_dims t ! 0) mod 2 ^ 32" "tv_rows v = (if 1 < length (ti_dims t) then unat (ti_dims t ! 1) mod 2 ^ 32 else 1)" by auto
  have c: "tensor_content demo_source t = map of_nat [0..<24]" "ti_dims t = [2, 3]" "ti_dtype t = GGML_F32"
    using v(1) by (auto simp: find_tensor_def demo_source_def tensor_content_def take_map)
  from c(2,3) have "tv_rows v = 3 \<and> tv_cols v = 2 \<and> tv_dtype v = F32" using v(4-6) by (simp add: dtype_of_ggml_def)
  then show ?thesis using M v(2,3) c(1) m(3) by auto
qed

end
