(* ===== verification/Nr_Gfx.thy ===== *)
theory Nr_Gfx
  imports Nr_Prelude "HOL-Library.Signed_Division"
begin

text \<open>
  The framebuffer graphics of \<^verbatim>\<open>crates/nr-gfx/src\<close>: colours (\<open>color.rs\<close>), the back buffer and its presentation
  (\<open>surface.rs\<close>), bitmap fonts (\<open>font.rs\<close>), the drawing primitives (\<open>draw.rs\<close>) and the heap-free panic screen
  (\<open>direct.rs\<close>). Pixels are 32-bit words, coordinates \<open>i32\<close> values as integers that wrap where the code computes.
  Physical framebuffer memory is the list of writes to it. An operation on a surface is a function to an outcome, a
  picture a list of them.
\<close>

subsection \<open>Signed 32-bit arithmetic\<close>

definition to_i32 :: "int \<Rightarrow> int" where
  "to_i32 z = (z + 2 ^ 31) mod 2 ^ 32 - 2 ^ 31"

definition idiv :: "int \<Rightarrow> int \<Rightarrow> ('e, int) outcome" where
  "idiv a b = (if b = 0 then Panic else Ok (to_i32 (a sdiv b)))"

subsection \<open>Colours\<close>

type_synonym color = u32

definition rgb :: "u32 \<Rightarrow> u32 \<Rightarrow> u32 \<Rightarrow> color" where
  "rgb r g b = push_bit 16 r OR push_bit 8 g OR b"

definition channels :: "color \<Rightarrow> u32 \<times> u32 \<times> u32" where
  "channels c = (drop_bit 16 c AND 0xff, drop_bit 8 c AND 0xff, c AND 0xff)"

definition mix_channel :: "u32 \<Rightarrow> u32 \<Rightarrow> u32 \<Rightarrow> u32" where
  "mix_channel t x y = drop_bit 8 (x * (256 - t) + y * t) AND 0xff"

definition lerp :: "color \<Rightarrow> color \<Rightarrow> u32 \<Rightarrow> color" where
  "lerp a b t = (let t = min t 256; (ar, ag, ab) = channels a; (br, bg, bb) = channels b in
     rgb (mix_channel t ar br) (mix_channel t ag bg) (mix_channel t ab bb))"

fun gradient_from :: "(u32 \<times> color) list \<Rightarrow> u32 \<Rightarrow> color" where
  "gradient_from [] t = 0"
| "gradient_from [(p, c)] t = c"
| "gradient_from ((p0, c0) # (p1, c1) # stops) t =
     (if t \<le> p1 then lerp c0 c1 ((t - p0) * 256 div max (p1 - p0) 1) else gradient_from ((p1, c1) # stops) t)"

definition gradient :: "(u32 \<times> color) list \<Rightarrow> u32 \<Rightarrow> color" where
  "gradient stops t = (case stops of [] \<Rightarrow> 0 | [(p, c)] \<Rightarrow> c
     | (p, c) # _ \<Rightarrow> if t \<le> p then c else gradient_from stops t)"

definition color_scale :: "color \<Rightarrow> u32 \<Rightarrow> color" where
  "color_scale c f = (let (r, g, b) = channels c; ch = (\<lambda>x. min (drop_bit 8 (x * f)) 255) in rgb (ch r) (ch g) (ch b))"

subsection \<open>The palette\<close>

definition BG_DEEP :: color where "BG_DEEP = 0x07020f"
definition BG_PANEL :: color where "BG_PANEL = 0x120829"
definition BORDER :: color where "BORDER = 0x3d1d6e"
definition NEON_MAGENTA :: color where "NEON_MAGENTA = 0xff2d95"
definition NEON_PINK :: color where "NEON_PINK = 0xff71ce"
definition NEON_ORANGE :: color where "NEON_ORANGE = 0xff9e3d"
definition NEON_YELLOW :: color where "NEON_YELLOW = 0xffd319"
definition NEON_CYAN :: color where "NEON_CYAN = 0x00e5ff"
definition NEON_PURPLE :: color where "NEON_PURPLE = 0x9d4edd"
definition TEXT_PRIMARY :: color where "TEXT_PRIMARY = 0xede7ff"
definition TEXT_DIM :: color where "TEXT_DIM = 0x8f86b8"

definition SKY_STOPS :: "(u32 \<times> color) list" where
  "SKY_STOPS = [(0, 0x050110), (380, 0x160a33), (620, 0x3b1155), (820, 0x71175f), (1000, 0xa62057)]"
definition SUN_STOPS :: "(u32 \<times> color) list" where
  "SUN_STOPS = [(0, 0xffe95e), (450, 0xffb02e), (750, 0xff5e62), (1000, 0xff2d95)]"
definition LOGO_STOPS :: "(u32 \<times> color) list" where
  "LOGO_STOPS = [(0, 0xfdfbff), (220, 0xffe95e), (520, 0xff9e3d), (780, 0xff2d95), (1000, 0xc21bb4)]"
definition GROUND_STOPS :: "(u32 \<times> color) list" where
  "GROUND_STOPS = [(0, 0x2c0b45), (350, 0x1b0630), (1000, 0x090114)]"

subsection \<open>The back buffer\<close>

datatype pixel_layout = Bgrx | Rgbx

record surface =
  sf_width :: nat
  sf_height :: nat
  sf_buf :: "color list"

definition surface_new :: "nat \<Rightarrow> nat \<Rightarrow> surface" where
  "surface_new width height = \<lparr>sf_width = width, sf_height = height, sf_buf = replicate (width * height) 0\<rparr>"

definition surface_clear :: "color \<Rightarrow> surface \<Rightarrow> ('e, surface) outcome" where
  "surface_clear c s = Ok (s\<lparr>sf_buf := replicate (length (sf_buf s)) c\<rparr>)"

definition on_surface :: "surface \<Rightarrow> int \<Rightarrow> int \<Rightarrow> bool" where
  "on_surface s x y \<longleftrightarrow> 0 \<le> x \<and> 0 \<le> y \<and> nat x < sf_width s \<and> nat y < sf_height s"

definition surface_put :: "int \<Rightarrow> int \<Rightarrow> color \<Rightarrow> surface \<Rightarrow> ('e, surface) outcome" where
  "surface_put x y c s =
     (if on_surface s x y then obind (set_at (sf_buf s) (nat y * sf_width s + nat x) c) (\<lambda>b. Ok (s\<lparr>sf_buf := b\<rparr>)) else Ok s)"

definition surface_get :: "surface \<Rightarrow> int \<Rightarrow> int \<Rightarrow> ('e, color) outcome" where
  "surface_get s x y = (if on_surface s x y then index (sf_buf s) (nat y * sf_width s + nat x) else Ok 0)"

definition blend_color :: "color \<Rightarrow> color \<Rightarrow> u32 \<Rightarrow> color" where
  "blend_color dst color alpha =
     (let a = min alpha 255; na = 255 - a; ch = (\<lambda>s d. (s * a + d * na) div 255);
          r = ch (drop_bit 16 color AND 0xff) (drop_bit 16 dst AND 0xff);
          g = ch (drop_bit 8 color AND 0xff) (drop_bit 8 dst AND 0xff);
          b = ch (color AND 0xff) (dst AND 0xff)
      in push_bit 16 r OR push_bit 8 g OR b)"

definition surface_blend :: "int \<Rightarrow> int \<Rightarrow> color \<Rightarrow> u32 \<Rightarrow> surface \<Rightarrow> ('e, surface) outcome" where
  "surface_blend x y color alpha s =
     (if \<not> on_surface s x y then Ok s
      else let idx = nat y * sf_width s + nat x in
        obind (index (sf_buf s) idx) (\<lambda>dst. obind (set_at (sf_buf s) idx (blend_color dst color alpha)) (\<lambda>b.
        Ok (s\<lparr>sf_buf := b\<rparr>))))"

text \<open>Filling the range \<open>a..b\<close> of the buffer; a reversed range panics.\<close>

definition fill_range :: "nat \<Rightarrow> nat \<Rightarrow> color \<Rightarrow> color list \<Rightarrow> ('e, color list) outcome" where
  "fill_range a b c buf = (if a \<le> b \<and> b \<le> length buf then Ok (take a buf @ replicate (b - a) c @ drop b buf) else Panic)"

definition fill_rect :: "int \<Rightarrow> int \<Rightarrow> int \<Rightarrow> int \<Rightarrow> color \<Rightarrow> surface \<Rightarrow> ('e, surface) outcome" where
  "fill_rect x y w h color s =
     (let x0 = nat (max x 0); y0 = nat (max y 0);
          x1 = min (nat (max (to_i32 (x + w)) 0)) (sf_width s); y1 = min (nat (max (to_i32 (y + h)) 0)) (sf_height s)
      in ofold (\<lambda>s row. obind (fill_range (row * sf_width s + x0) (row * sf_width s + x1) color (sf_buf s)) (\<lambda>b. Ok (s\<lparr>sf_buf := b\<rparr>)))
           s [y0..<y1])"

definition blend_rect :: "int \<Rightarrow> int \<Rightarrow> int \<Rightarrow> int \<Rightarrow> color \<Rightarrow> u32 \<Rightarrow> surface \<Rightarrow> ('e, surface) outcome" where
  "blend_rect x y w h color alpha s =
     ofold (\<lambda>s yy. ofold (\<lambda>s xx. surface_blend xx yy color alpha s) s [x..to_i32 (x + w) - 1]) s [y..to_i32 (y + h) - 1]"

text \<open>Presentation: the writes to the framebuffer, offset and value.\<close>

definition swap_rb :: "color \<Rightarrow> color" where
  "swap_rb px = (px AND 0x0000ff00) OR drop_bit 16 (px AND 0x00ff0000) OR push_bit 16 (px AND 0x000000ff)"

definition encode_px :: "pixel_layout \<Rightarrow> color \<Rightarrow> color" where
  "encode_px l c = (case l of Bgrx \<Rightarrow> c | Rgbx \<Rightarrow> swap_rb c)"

definition surface_present :: "surface \<Rightarrow> nat \<Rightarrow> pixel_layout \<Rightarrow> ('e, (nat \<times> color) list) outcome" where
  "surface_present s stride l =
     ofold (\<lambda>ws y. obind (slice (sf_buf s) (y * sf_width s) ((y + 1) * sf_width s)) (\<lambda>src.
       Ok (ws @ map (\<lambda>(x, px). (y * stride + x, encode_px l px)) (enumerate 0 src)))) [] [0..<sf_height s]"

subsection \<open>Fonts\<close>

record psf_font =
  pf_width :: nat
  pf_height :: nat
  pf_row :: nat
  pf_glyph :: nat
  pf_count :: nat
  pf_bits :: bytes
  pf_map :: "(u32 \<times> u16) list"

definition PSF1_MAGIC :: bytes where "PSF1_MAGIC = [0x36, 0x04]"
definition PSF2_MAGIC :: bytes where "PSF2_MAGIC = [0x72, 0xb5, 0x4a, 0x86]"
definition PSF2_HAS_UNICODE_TABLE :: u32 where "PSF2_HAS_UNICODE_TABLE = 1"

definition decode_utf8 :: "bytes \<Rightarrow> u32 option" where
  "decode_utf8 bs = (case bs of
       [a] \<Rightarrow> Some (ucast a)
     | [a, b] \<Rightarrow> Some (push_bit 6 (ucast a AND 0x1f) OR (ucast b AND 0x3f))
     | [a, b, c] \<Rightarrow> Some (push_bit 12 (ucast a AND 0x0f) OR push_bit 6 (ucast b AND 0x3f) OR (ucast c AND 0x3f))
     | [a, b, c, d] \<Rightarrow> Some (push_bit 18 (ucast a AND 0x07) OR push_bit 12 (ucast b AND 0x3f) OR push_bit 6 (ucast c AND 0x3f) OR (ucast d AND 0x3f))
     | _ \<Rightarrow> None)"

definition identity_map :: "nat \<Rightarrow> (u32 \<times> u16) list" where
  "identity_map n = map (\<lambda>g. (of_nat g, of_nat g)) [0x20..<min 0x80 n]"

fun dedup_keys :: "('k \<times> 'v) list \<Rightarrow> ('k \<times> 'v) list" where
  "dedup_keys (a # b # xs) = (if fst a = fst b then dedup_keys (a # xs) else a # dedup_keys (b # xs))"
| "dedup_keys xs = xs"

definition map_key :: "u32 \<times> u16 \<Rightarrow> nat" where
  "map_key e = unat (fst e) * 65536 + unat (snd e)"

definition finish_map :: "(u32 \<times> u16) list \<Rightarrow> (u32 \<times> u16) list" where
  "finish_map m = dedup_keys (sort_key map_key m)"

text \<open>The two Unicode tables; \<open>m\<close> is the map so far.\<close>

fun psf1_table :: "nat \<Rightarrow> nat \<Rightarrow> bool \<Rightarrow> (u32 \<times> u16) list \<Rightarrow> u16 list \<Rightarrow> (u32 \<times> u16) list" where
  "psf1_table n glyph in_seq m [] = m"
| "psf1_table n glyph in_seq m (v # vs) =
     (if n \<le> glyph then m
      else if v = 0xffff then psf1_table n (glyph + 1) False m vs
      else if v = 0xfffe then psf1_table n glyph True m vs
      else psf1_table n glyph in_seq (if in_seq then m else m @ [(ucast v, of_nat glyph)]) vs)"

definition utf8_step :: "byte \<Rightarrow> nat" where
  "utf8_step b = (if b \<le> 0x7f then 1 else if 0xc0 \<le> b \<and> b \<le> 0xdf then 2 else if 0xe0 \<le> b \<and> b \<le> 0xef then 3 else 4)"

function psf2_table :: "nat \<Rightarrow> nat \<Rightarrow> bool \<Rightarrow> (u32 \<times> u16) list \<Rightarrow> bytes \<Rightarrow> (u32 \<times> u16) list" where
  "psf2_table n glyph in_seq m [] = m"
| "psf2_table n glyph in_seq m (b # bs) =
     (if n \<le> glyph then m
      else if b = 0xff then psf2_table n (glyph + 1) False m bs
      else if b = 0xfe then psf2_table n glyph True m bs
      else psf2_table n glyph in_seq
        (if in_seq then m else case decode_utf8 (take (utf8_step b) (b # bs)) of Some cp \<Rightarrow> m @ [(cp, of_nat glyph)] | None \<Rightarrow> m)
        (drop (utf8_step b) (b # bs)))"
  by pat_completeness auto
termination by (relation "measure (\<lambda>(n, g, i, m, bs). length bs)") (auto simp: utf8_step_def)

text \<open>\<open>data.get(a..b)\<close>.\<close>

definition get_range :: "bytes \<Rightarrow> nat \<Rightarrow> nat \<Rightarrow> bytes option" where
  "get_range d a b = (if a \<le> b \<and> b \<le> length d then Some (sub d a b) else None)"

definition parse_psf1 :: "bytes \<Rightarrow> ('e, psf_font option) outcome" where
  "parse_psf1 d =
     (let mode = d ! 2; charsize = unat (d ! 3); n = (if mode AND 1 \<noteq> 0 then 512 else 256); fin = 4 + n * charsize in
      Ok (case get_range d 4 fin of None \<Rightarrow> None
          | Some glyphs \<Rightarrow> Some \<lparr>pf_width = 8, pf_height = charsize, pf_row = 1, pf_glyph = charsize, pf_count = n, pf_bits = glyphs,
              pf_map = (if mode AND 6 \<noteq> 0 then finish_map (psf1_table n 0 False [] (map le_word (chunks_exact 2 (drop fin d)))) else identity_map n)\<rparr>))"

definition font_parse :: "bytes \<Rightarrow> ('e, psf_font option) outcome" where
  "font_parse d =
     (if 4 \<le> length d \<and> take 2 d = PSF1_MAGIC then parse_psf1 d
      else if length d < 32 \<or> take 4 d \<noteq> PSF2_MAGIC then Ok None
      else let u = (\<lambda>off. le_word (sub d off (off + 4)) :: u32); header_size = unat (u 8); flags = u 12; n = unat (u 16); glyph = unat (u 20);
               height = unat (u 24); width = unat (u 28); fin = (header_size + n * glyph mod usize_limit) mod usize_limit in
        (case get_range d header_size fin of None \<Rightarrow> Ok None
         | Some glyphs \<Rightarrow>
             if height = 0 then Panic
             else Ok (Some \<lparr>pf_width = width, pf_height = height, pf_row = glyph div height, pf_glyph = glyph, pf_count = n, pf_bits = glyphs,
               pf_map = (if flags AND PSF2_HAS_UNICODE_TABLE \<noteq> 0 then finish_map (psf2_table n 0 False [] (drop fin d)) else identity_map n)\<rparr>)))"

text \<open>The binary search finds the one entry of a sorted map without duplicates.\<close>

definition font_glyph :: "psf_font \<Rightarrow> nat \<Rightarrow> ('e, bytes option) outcome" where
  "font_glyph f ch = (case map_of (pf_map f) (of_nat ch) of None \<Rightarrow> Ok None
     | Some i \<Rightarrow> let idx = unat i in if pf_count f \<le> idx then Ok None
         else obind (slice (pf_bits f) (idx * pf_glyph f) ((idx + 1) * pf_glyph f)) (\<lambda>g. Ok (Some g)))"

definition font_pixel :: "psf_font \<Rightarrow> bytes \<Rightarrow> nat \<Rightarrow> nat \<Rightarrow> ('e, bool) outcome" where
  "font_pixel f glyph x y = obind (index glyph (y * pf_row f + x div 8)) (\<lambda>b. Ok (b AND drop_bit (x mod 8) 0x80 \<noteq> 0))"

subsection \<open>Drawing\<close>

type_synonym 'e pic = "surface \<Rightarrow> ('e, surface) outcome"

definition draw_seq :: "'e pic list \<Rightarrow> 'e pic" where
  "draw_seq fs s = ofold (\<lambda>s f. f s) s fs"

definition draw_each :: "('a \<Rightarrow> 'e pic) \<Rightarrow> 'a list \<Rightarrow> 'e pic" where
  "draw_each f xs s = ofold (\<lambda>s x. f x s) s xs"

definition nothing :: "'e pic" where "nothing s = Ok s"

definition vertical_gradient :: "int \<Rightarrow> int \<Rightarrow> int \<Rightarrow> int \<Rightarrow> (u32 \<times> color) list \<Rightarrow> 'e pic" where
  "vertical_gradient x y w h stops =
     (if h \<le> 0 then nothing
      else draw_each (\<lambda>row. fill_rect x (to_i32 (y + row)) w 1 (gradient stops (of_int row * 1000 div of_int h))) [0..h - 1])"

definition draw_line :: "int \<Rightarrow> int \<Rightarrow> int \<Rightarrow> int \<Rightarrow> color \<Rightarrow> u32 \<Rightarrow> 'e pic" where
  "draw_line x0 y0 x1 y1 colr alpha =
     (let dx = to_i32 \<bar>to_i32 (x1 - x0)\<bar>; dy = to_i32 \<bar>to_i32 (y1 - y0)\<bar>; steps = max (max dx dy) 1;
          at_step = (\<lambda>a b i. to_i32 (a + to_i32 (to_i32 (b - a) * i) sdiv steps))
      in draw_each (\<lambda>i. surface_blend (at_step x0 x1 i) (at_step y0 y1 i) colr alpha) [0..steps])"

definition text_width :: "psf_font \<Rightarrow> nat list \<Rightarrow> nat \<Rightarrow> int \<Rightarrow> int" where
  "text_width font s scale tracking =
     (let n = to_i32 (int (length s)) in
      if n = 0 then 0 else to_i32 (n * to_i32 (int (pf_width font * scale)) + (n - 1) * tracking))"

definition substitute :: "nat \<Rightarrow> nat option" where
  "substitute ch = (if ch = 0x2014 \<or> ch = 0x2015 \<or> ch = 0x2212 then Some 0x2d
     else if ch = 0xa0 \<or> ch = 0x2009 \<or> ch = 0x202f then Some 0x20 else None)"

definition glyph_or_substitute :: "psf_font \<Rightarrow> nat \<Rightarrow> ('e, bytes option) outcome" where
  "glyph_or_substitute font ch =
     obind (font_glyph font ch) (\<lambda>g. case g of Some b \<Rightarrow> Ok (Some b)
       | None \<Rightarrow> (case substitute ch of None \<Rightarrow> Ok None | Some c \<Rightarrow> font_glyph font c))"

definition glyph_pixel :: "psf_font \<Rightarrow> bytes \<Rightarrow> nat \<Rightarrow> int \<Rightarrow> int \<Rightarrow> color \<Rightarrow> u32 \<Rightarrow> nat \<Rightarrow> nat \<Rightarrow> nat \<Rightarrow> 'e pic" where
  "glyph_pixel font glyph scale px py c alpha src_y gx gy s =
     (if scale = 0 then Panic
      else obind (font_pixel font glyph (gx div scale) src_y) (\<lambda>p.
        if p then (if alpha \<ge> 255 then surface_put px py c s else surface_blend px py c alpha s) else Ok s))"

definition glyph_row :: "psf_font \<Rightarrow> bytes \<Rightarrow> nat \<Rightarrow> int \<Rightarrow> int \<Rightarrow> int \<Rightarrow> (nat \<Rightarrow> nat \<Rightarrow> color) \<Rightarrow> u32 \<Rightarrow> nat \<Rightarrow> 'e pic" where
  "glyph_row font glyph scale pen_x y shear row_color alpha gy =
     (let gh = pf_height font * scale; gw = pf_width font * scale;
          shift = to_i32 (to_i32 (shear * to_i32 (int (gh - 1 - gy))) sdiv to_i32 (int (max gh 1)));
          c = row_color gy gh
      in draw_each (\<lambda>gx. glyph_pixel font glyph scale (to_i32 (pen_x + int gx + shift)) (to_i32 (y + int gy)) c alpha (gy div scale) gx gy) [0..<gw])"

text \<open>Per-row colours, shear and alpha; the pen advances also over characters without a glyph.\<close>

primrec text_fx :: "psf_font \<Rightarrow> int \<Rightarrow> int \<Rightarrow> nat list \<Rightarrow> nat \<Rightarrow> int \<Rightarrow> int \<Rightarrow> (nat \<Rightarrow> nat \<Rightarrow> color) \<Rightarrow> u32 \<Rightarrow> 'e pic" where
  "text_fx font x y [] scale tracking shear row_color alpha = nothing"
| "text_fx font x y (ch # s) scale tracking shear row_color alpha = (\<lambda>surf.
     obind (glyph_or_substitute font ch) (\<lambda>g.
     obind ((case g of None \<Rightarrow> nothing
       | Some glyph \<Rightarrow> draw_each (glyph_row font glyph scale x y shear row_color alpha) [0..<pf_height font * scale]) surf) (\<lambda>surf.
     text_fx font (to_i32 (x + to_i32 (int (pf_width font * scale)) + tracking)) y s scale tracking shear row_color alpha surf)))"

definition draw_text :: "psf_font \<Rightarrow> int \<Rightarrow> int \<Rightarrow> nat list \<Rightarrow> color \<Rightarrow> nat \<Rightarrow> int \<Rightarrow> 'e pic" where
  "draw_text font x y s colr scale tracking = text_fx font x y s scale tracking 0 (\<lambda>_ _. colr) 255"

definition text_glow :: "psf_font \<Rightarrow> int \<Rightarrow> int \<Rightarrow> nat list \<Rightarrow> nat \<Rightarrow> int \<Rightarrow> int \<Rightarrow> color \<Rightarrow> int \<Rightarrow> 'e pic" where
  "text_glow font x y s scale tracking shear colr radius =
     draw_each (\<lambda>r. let a = max (46 div of_int r) 10 in
       draw_each (\<lambda>(dx, dy). text_fx font (to_i32 (x + dx)) (to_i32 (y + dy)) s scale tracking shear (\<lambda>_ _. colr) a)
         [(r, 0), (-r, 0), (0, r), (0, -r), (r, r), (-r, r), (r, -r), (-r, -r)]) [1..radius]"

definition scanlines :: "u32 \<Rightarrow> 'e pic" where
  "scanlines alpha s =
     (let w = to_i32 (int (sf_width s)); h = to_i32 (int (sf_height s)) in
      draw_each (\<lambda>k. blend_rect 0 (3 * k) w 1 0 alpha) [0..(h + 2) div 3 - 1] s)"

subsection \<open>The panic screen\<close>

record direct_fb =
  fb_width :: nat
  fb_height :: nat
  fb_stride :: nat
  fb_layout :: pixel_layout

definition fb_fill_rect :: "direct_fb \<Rightarrow> nat \<Rightarrow> nat \<Rightarrow> nat \<Rightarrow> nat \<Rightarrow> color \<Rightarrow> (nat \<times> color) list" where
  "fb_fill_rect fb x y w h color = (let c = encode_px (fb_layout fb) color in
     concat (map (\<lambda>row. map (\<lambda>col. (row * fb_stride fb + col, c)) [x..<min ((x + w) mod usize_limit) (fb_width fb)]) [y..<min ((y + h) mod usize_limit) (fb_height fb)]))"

definition fb_glyph :: "direct_fb \<Rightarrow> psf_font \<Rightarrow> bytes \<Rightarrow> nat \<Rightarrow> nat \<Rightarrow> color \<Rightarrow> ('e, (nat \<times> color) list) outcome" where
  "fb_glyph fb font glyph pen y c =
     ofold (\<lambda>ws gy. ofold (\<lambda>ws gx. obind (font_pixel font glyph gx gy) (\<lambda>p.
       Ok (if p \<and> pen + gx < fb_width fb \<and> y + gy < fb_height fb then ws @ [((y + gy) * fb_stride fb + (pen + gx), c)] else ws)))
       ws [0..<pf_width font]) [] [0..<pf_height font]"

primrec fb_text :: "direct_fb \<Rightarrow> psf_font \<Rightarrow> nat \<Rightarrow> nat \<Rightarrow> nat list \<Rightarrow> color \<Rightarrow> ('e, (nat \<times> color) list) outcome" where
  "fb_text fb font pen y [] color = Ok []"
| "fb_text fb font pen y (ch # s) color =
     obind (obind (font_glyph font ch) (\<lambda>g. case g of Some b \<Rightarrow> Ok (Some b) | None \<Rightarrow> font_glyph font 0x3f)) (\<lambda>g.
     obind (case g of None \<Rightarrow> Ok [] | Some glyph \<Rightarrow> fb_glyph fb font glyph pen y (encode_px (fb_layout fb) color)) (\<lambda>ws.
     obind (fb_text fb font (pen + pf_width font) y s color) (\<lambda>ws'. Ok (ws @ ws'))))"

subsection \<open>Drawing stays inside\<close>

definition sized :: "nat \<Rightarrow> nat \<Rightarrow> surface \<Rightarrow> bool" where
  "sized W H s \<longleftrightarrow> sf_width s = W \<and> sf_height s = H \<and> length (sf_buf s) = W * H"

text \<open>On every surface of that size the picture is drawn without a panic and keeps the size.\<close>

definition safe :: "nat \<Rightarrow> nat \<Rightarrow> 'e pic \<Rightarrow> bool" where
  "safe W H f \<longleftrightarrow> (\<forall>s. sized W H s \<longrightarrow> (\<exists>s'. f s = Ok s' \<and> sized W H s'))"

named_theorems safe_pics \<open>pictures that are safe\<close>

lemma sized_new: "sized W H (surface_new W H)"
  by (simp add: sized_def surface_new_def)

lemma safe_nothing [safe_pics]: "safe W H nothing"
  by (simp add: safe_def nothing_def)

lemma ofold_inv:
  assumes "\<And>s x. P s \<Longrightarrow> x \<in> set xs \<Longrightarrow> \<exists>s'. f s x = Ok s' \<and> P s'" and "P s"
  shows "\<exists>s'. ofold f s xs = Ok s' \<and> P s'"
  using assms
proof (induction xs arbitrary: s)
  case (Cons x xs)
  then obtain s' where "f s x = Ok s'" "P s'" by (meson list.set_intros(1))
  then show ?case using Cons.IH [of s'] Cons.prems(1) by simp
qed simp

lemma safe_each [safe_pics]: "(\<And>x. x \<in> set xs \<Longrightarrow> safe W H (f x)) \<Longrightarrow> safe W H (draw_each f xs)"
  unfolding safe_def draw_each_def by (intro allI impI ofold_inv) blast+

lemma safe_seq [safe_pics]: "list_all (safe W H) fs \<Longrightarrow> safe W H (draw_seq fs)"
  using safe_each [of fs W H "\<lambda>f. f"] by (simp add: draw_seq_def draw_each_def safe_def list_all_iff)

lemma safe_if [safe_pics]: "(b \<Longrightarrow> safe W H f) \<Longrightarrow> (\<not> b \<Longrightarrow> safe W H g) \<Longrightarrow> safe W H (if b then f else g)"
  by simp

lemma on_surface_index: "sized W H s \<Longrightarrow> on_surface s x y \<Longrightarrow> nat y * sf_width s + nat x < length (sf_buf s)"
proof -
  assume s: "sized W H s" and o: "on_surface s x y"
  then have "nat x < W" "nat y < H" by (auto simp: sized_def on_surface_def)
  then have "nat y * W + nat x < nat y * W + W" by simp
  also have "\<dots> \<le> H * W" using \<open>nat y < H\<close> by (metis Suc_leI add.commute mult_Suc mult_le_mono1)
  finally show ?thesis using s by (simp add: sized_def mult.commute)
qed

lemma safe_put [safe_pics]: "safe W H (surface_put x y c)"
  using on_surface_index by (auto simp: safe_def surface_put_def sized_def)

lemma safe_blend [safe_pics]: "safe W H (surface_blend x y c a)"
  using on_surface_index by (auto simp: safe_def surface_blend_def sized_def index_def Let_def)

lemma safe_clear [safe_pics]: "safe W H (surface_clear c)"
  by (simp add: safe_def surface_clear_def sized_def)

lemma safe_blend_rect [safe_pics]: "safe W H (blend_rect x y w h c a :: 'e pic)"
proof -
  have eq: "(blend_rect x y w h c a :: 'e pic) = draw_each (\<lambda>yy. draw_each (\<lambda>xx. surface_blend xx yy c a) [x..to_i32 (x + w) - 1]) [y..to_i32 (y + h) - 1]"
    by (simp add: fun_eq_iff blend_rect_def draw_each_def)
  show ?thesis unfolding eq by (intro safe_pics)
qed

lemma to_i32_id: "- (2 ^ 31) \<le> z \<Longrightarrow> z < 2 ^ 31 \<Longrightarrow> to_i32 z = z"
  by (simp add: to_i32_def)

lemma fill_row_ok:
  assumes "sized W H s" and "row < H" and "a \<le> b" and "b \<le> W"
  shows "\<exists>s'. obind (fill_range (row * sf_width s + a) (row * sf_width s + b) c (sf_buf s)) (\<lambda>b. Ok (s\<lparr>sf_buf := b\<rparr>)) = (Ok s' :: ('e, _) outcome)
    \<and> sized W H s'"
proof -
  have "row * W + b \<le> row * W + W" using assms(4) by simp
  also have "\<dots> \<le> W * H" using assms(2) by (metis Suc_leI add.commute mult.commute mult_Suc mult_le_mono1)
  finally have le: "row * W + b \<le> W * H" .
  then have "min (W * H) (row * W + a) = row * W + a" using assms(3) by simp
  then show ?thesis using assms(1,3) le by (simp add: fill_range_def sized_def)
qed

lemma safe_fill_rect:
  assumes "nat (max x 0) \<le> min (nat (max (to_i32 (x + w)) 0)) W"
  shows "safe W H (fill_rect x y w h c :: 'e pic)"
  unfolding safe_def
proof (intro allI impI)
  fix s
  assume s: "sized W H s"
  let ?x0 = "nat (max x 0)" and ?x1 = "nat (max (to_i32 (x + w)) 0)" and ?rows = "[nat (max y 0)..<min (nat (max (to_i32 (y + h)) 0)) H]"
  have rows: "\<exists>s'. ofold (\<lambda>s row. obind (fill_range (row * sf_width s + ?x0) (row * sf_width s + min ?x1 W) c (sf_buf s)) (\<lambda>b. Ok (s\<lparr>sf_buf := b\<rparr>))) s rows
      = (Ok s' :: ('e, _) outcome) \<and> sized W H s'" if "sized W H s" and "set rows \<subseteq> {..<H}" for s rows
    using that
  proof (induction rows arbitrary: s)
    case (Cons r rs)
    from fill_row_ok [OF Cons.prems(1) _ assms, of r c, where 'e = 'e] obtain s' where
      "obind (fill_range (r * sf_width s + ?x0) (r * sf_width s + min ?x1 W) c (sf_buf s)) (\<lambda>b. Ok (s\<lparr>sf_buf := b\<rparr>)) = (Ok s' :: ('e, _) outcome)" "sized W H s'"
      using Cons.prems(2) by auto
    then show ?case using Cons.IH [of s'] Cons.prems(2) by simp
  qed simp
  have "set ?rows \<subseteq> {..<H}" by auto
  note rows [OF s this]
  moreover have "(fill_rect x y w h c s :: ('e, _) outcome) = ofold (\<lambda>s row. obind (fill_range (row * sf_width s + ?x0) (row * sf_width s + min ?x1 W) c (sf_buf s)) (\<lambda>b. Ok (s\<lparr>sf_buf := b\<rparr>))) s ?rows"
    using s by (simp add: fill_rect_def sized_def Let_def)
  ultimately show "\<exists>s'. fill_rect x y w h c s = (Ok s' :: ('e, _) outcome) \<and> sized W H s'" by simp
qed

text \<open>A rectangle that starts left of the right edge, of non-negative width.\<close>

lemma safe_rect [safe_pics]:
  assumes "x \<le> int W" and "0 \<le> w" and "- (2 ^ 30) \<le> x" and "x < 2 ^ 30" and "w < 2 ^ 30"
  shows "safe W H (fill_rect x y w h c)"
  using assms by (intro safe_fill_rect) (simp add: to_i32_id min_def max_def nat_le_iff split: if_splits)

definition font_ok :: "psf_font \<Rightarrow> bool" where
  "font_ok f \<longleftrightarrow> length (pf_bits f) = pf_count f * pf_glyph f \<and> pf_height f * pf_row f \<le> pf_glyph f \<and> pf_width f \<le> 8 * pf_row f"

lemma font_glyph_ok: "font_ok f \<Longrightarrow> \<exists>g. font_glyph f ch = Ok g \<and> (\<forall>b. g = Some b \<longrightarrow> length b = pf_glyph f)"
proof -
  assume f: "font_ok f"
  have b: "(i + 1) * pf_glyph f \<le> length (pf_bits f)" if "i < pf_count f" for i
    using f that unfolding font_ok_def by (metis Suc_eq_plus1 Suc_leI mult_le_mono1)
  show ?thesis
  proof (cases "map_of (pf_map f) (of_nat ch)")
    case (Some i)
    then show ?thesis using b [of "unat i"] by (cases "unat i < pf_count f") (simp_all add: font_glyph_def sub_def)
  qed (simp add: font_glyph_def)
qed

lemma glyph_or_substitute_ok:
  assumes "font_ok f"
  shows "\<exists>g. glyph_or_substitute f ch = (Ok g :: ('e, _) outcome) \<and> (\<forall>b. g = Some b \<longrightarrow> length b = pf_glyph f)"
proof -
  obtain g where g: "font_glyph f ch = (Ok g :: ('e, _) outcome)" "\<forall>b. g = Some b \<longrightarrow> length b = pf_glyph f" using font_glyph_ok [OF assms] by blast
  show ?thesis
  proof (cases "g = None \<and> substitute ch \<noteq> None")
    case True
    then obtain c where "substitute ch = Some c" by blast
    then show ?thesis using g(1) True font_glyph_ok [OF assms, of c, where 'a = 'e] by (auto simp: glyph_or_substitute_def)
  next
    case False
    then show ?thesis using g by (auto simp: glyph_or_substitute_def split: option.splits)
  qed
qed

lemma font_pixel_ok:
  assumes "font_ok f" and "length g = pf_glyph f" and "x < pf_width f" and "y < pf_height f"
  shows "\<exists>p. font_pixel f g x y = Ok p"
proof -
  have "x div 8 < pf_row f" using assms(1,3) by (simp add: font_ok_def div_less_iff_less_mult)
  then have "y * pf_row f + x div 8 < y * pf_row f + pf_row f" by simp
  also have "\<dots> \<le> pf_height f * pf_row f" using assms(4) by (metis Suc_leI add.commute mult_Suc mult_le_mono1)
  also have "\<dots> \<le> length g" using assms(1,2) by (simp add: font_ok_def)
  finally show ?thesis by (simp add: font_pixel_def index_def)
qed

lemma safe_glyph_pixel:
  assumes "font_ok f" and "length g = pf_glyph f" and "gx div scale < pf_width f" and "src_y < pf_height f" and "0 < scale"
  shows "safe W H (glyph_pixel f g scale px py c a src_y gx gy :: 'e pic)"
proof -
  obtain p where "font_pixel f g (gx div scale) src_y = (Ok p :: ('e, _) outcome)" using font_pixel_ok [OF assms(1-4)] by blast
  then show ?thesis using assms(5) safe_put [of W H px py c, where 'a = 'e] safe_blend [of W H px py c a, where 'a = 'e]
    by (auto simp: safe_def glyph_pixel_def)
qed

lemma safe_glyph_row:
  assumes f: "font_ok f" "length g = pf_glyph f" and gy: "gy < pf_height f * scale" and sc: "0 < scale"
  shows "safe W H (glyph_row f g scale x y sh col a gy)"
  unfolding glyph_row_def Let_def
proof (rule safe_each, rule safe_glyph_pixel [OF f _ _ sc])
  show "gx div scale < pf_width f" if "gx \<in> set [0..<pf_width f * scale]" for gx
    using that sc by (simp add: div_less_iff_less_mult)
  show "gy div scale < pf_height f" using gy sc by (simp add: div_less_iff_less_mult)
qed

lemma safe_text_fx [safe_pics]:
  assumes "font_ok f" and "0 < scale"
  shows "safe W H (text_fx f x y s scale tr sh col a :: 'e pic)"
proof (induction s arbitrary: x)
  case (Cons ch s)
  obtain g where g: "glyph_or_substitute f ch = (Ok g :: ('e, _) outcome)" "\<forall>b. g = Some b \<longrightarrow> length b = pf_glyph f"
    using glyph_or_substitute_ok [OF assms(1)] by blast
  have one: "safe W H (case g of None \<Rightarrow> nothing | Some b \<Rightarrow> (draw_each (glyph_row f b scale x y sh col a) [0..<pf_height f * scale] :: 'e pic))"
    using g(2) assms by (cases g) (auto intro!: safe_pics safe_glyph_row)
  show ?case
    unfolding safe_def
  proof (intro allI impI)
    fix s0
    assume "sized W H s0"
    then obtain s1 where "(case g of None \<Rightarrow> nothing | Some b \<Rightarrow> (draw_each (glyph_row f b scale x y sh col a) [0..<pf_height f * scale] :: 'e pic)) s0 = Ok s1"
        "sized W H s1" using one unfolding safe_def by blast
    then show "\<exists>s'. text_fx f x y (ch # s) scale tr sh col a s0 = (Ok s' :: ('e, _) outcome) \<and> sized W H s'"
      using Cons.IH g(1) by (simp add: safe_def)
  qed
qed (simp add: safe_nothing)

lemma safe_draw_text [safe_pics]: "font_ok f \<Longrightarrow> 0 < scale \<Longrightarrow> safe W H (draw_text f x y s c scale tr)"
  by (simp add: draw_text_def safe_text_fx)

lemma safe_text_glow [safe_pics]: "font_ok f \<Longrightarrow> 0 < scale \<Longrightarrow> safe W H (text_glow f x y s scale tr sh c r)"
  unfolding text_glow_def Let_def by (intro safe_pics) (auto split: prod.split intro!: safe_pics)

lemma safe_line [safe_pics]: "safe W H (draw_line x0 y0 x1 y1 c a)"
  by (simp add: draw_line_def Let_def safe_each safe_blend)

lemma safe_scanlines [safe_pics]: "safe W H (scanlines a :: 'e pic)"
proof -
  have "safe W H (draw_each (\<lambda>k. blend_rect 0 (3 * k) (to_i32 (int W)) 1 0 a :: 'e pic) ks)" for ks by (intro safe_pics)
  then show ?thesis by (simp add: safe_def scanlines_def Let_def sized_def)
qed

lemma safe_gradient [safe_pics]:
  assumes "x \<le> int W" and "0 \<le> w" and "- (2 ^ 30) \<le> x" and "x < 2 ^ 30" and "w < 2 ^ 30"
  shows "safe W H (vertical_gradient x y w h st)"
  using assms by (simp add: vertical_gradient_def safe_nothing safe_each safe_rect)

subsection \<open>Fonts and framebuffer writes\<close>

lemma parsed_font_ok:
  assumes "font_parse d = (Ok (Some f) :: ('e, _) outcome)" and "pf_width f \<le> 8 * pf_row f"
  shows "font_ok f"
proof (cases "4 \<le> length d \<and> take 2 d = PSF1_MAGIC")
  case True
  then show ?thesis using assms by (auto simp: font_parse_def parse_psf1_def Let_def font_ok_def get_range_def sub_def split: option.splits if_splits)
next
  case False
  define u where "u = (\<lambda>off. le_word (sub d off (off + 4)) :: u32)"
  have lim: "unat (u 8) + unat (u 16) * unat (u 20) < usize_limit"
  proof -
    have "unat (u i) \<le> 2 ^ 32 - 1" for i using unsigned_less [of "u i", where 'a = nat] by simp
    then have "unat (u 8) + unat (u 16) * unat (u 20) \<le> (2 ^ 32 - 1) + (2 ^ 32 - 1) * (2 ^ 32 - 1)" by (intro add_mono mult_mono) auto
    then show ?thesis by (simp add: usize_limit_def)
  qed
  then have fin: "(unat (u 8) + unat (u 16) * unat (u 20) mod usize_limit) mod usize_limit = unat (u 8) + unat (u 16) * unat (u 20)"
    by (metis add_lessD1 add.commute mod_less)
  have "font_parse d = (if length d < 32 \<or> take 4 d \<noteq> PSF2_MAGIC then Ok None
      else case get_range d (unat (u 8)) (unat (u 8) + unat (u 16) * unat (u 20)) of None \<Rightarrow> Ok None
         | Some glyphs \<Rightarrow>
             if unat (u 24) = 0 then (Panic :: ('e, _) outcome)
             else Ok (Some \<lparr>pf_width = unat (u 28), pf_height = unat (u 24), pf_row = unat (u 20) div unat (u 24), pf_glyph = unat (u 20), pf_count = unat (u 16), pf_bits = glyphs,
               pf_map = (if u 12 AND PSF2_HAS_UNICODE_TABLE \<noteq> 0 then finish_map (psf2_table (unat (u 16)) 0 False [] (drop (unat (u 8) + unat (u 16) * unat (u 20)) d)) else identity_map (unat (u 16)))\<rparr>))"
    using False by (simp only: font_parse_def Let_def u_def [symmetric] fin if_False)
  then show ?thesis using assms by (auto simp: font_ok_def get_range_def sub_def split: if_splits)
qed

text \<open>A parsed font is usable: if a PSF1 or PSF2 file parses and its width fits its rows, every character lookup
  succeeds and every pixel of every glyph is inside the bitmap, whatever the rest of the file holds.\<close>

theorem parsed_font_is_usable:
  assumes "font_parse d = (Ok (Some f) :: (unit, _) outcome)" and "pf_width f \<le> 8 * pf_row f"
  shows "\<exists>g. font_glyph f ch = (Ok g :: (unit, _) outcome) \<and> (\<forall>b x y. g = Some b \<and> x < pf_width f \<and> y < pf_height f \<longrightarrow>
     (\<exists>p. font_pixel f b x y = (Ok p :: (unit, _) outcome)))"
proof -
  have f: "font_ok f" using parsed_font_ok [OF assms] .
  show ?thesis using font_glyph_ok [OF f, of ch] font_pixel_ok [OF f] by blast
qed

definition on_screen :: "direct_fb \<Rightarrow> (nat \<times> color) list \<Rightarrow> bool" where
  "on_screen fb ws \<longleftrightarrow> (\<forall>w \<in> set ws. \<exists>x y. x < fb_width fb \<and> y < fb_height fb \<and> fst w = y * fb_stride fb + x)"

lemma fb_fill_on_screen: "on_screen fb (fb_fill_rect fb x y w h c)"
  by (auto simp: on_screen_def fb_fill_rect_def Let_def) blast

lemma fb_glyph_on_screen:
  assumes f: "font_ok font" "length g = pf_glyph font"
  shows "\<exists>ws. fb_glyph fb font g pen y c = (Ok ws :: ('e, _) outcome) \<and> on_screen fb ws"
  unfolding fb_glyph_def
proof (rule ofold_inv, rule ofold_inv)
    fix ws ws' gy gx
    assume ws: "on_screen fb ws'" and i: "gy \<in> set [0..<pf_height font]" "gx \<in> set [0..<pf_width font]"
    obtain p where "font_pixel font g gx gy = (Ok p :: ('e, _) outcome)" using font_pixel_ok [OF f, of gx gy] i by auto
    then show "\<exists>s'. obind (font_pixel font g gx gy) (\<lambda>p. Ok (if p \<and> pen + gx < fb_width fb \<and> y + gy < fb_height fb
        then ws' @ [((y + gy) * fb_stride fb + (pen + gx), c)] else ws')) = (Ok s' :: ('e, _) outcome) \<and> on_screen fb s'"
      using ws by (auto simp: on_screen_def)
qed (auto simp: on_screen_def)

lemma fb_text_on_screen: "font_ok font \<Longrightarrow> \<exists>ws. fb_text fb font pen y s c = (Ok ws :: ('e, _) outcome) \<and> on_screen fb ws"
proof (induction s arbitrary: pen)
  case (Cons ch s)
  obtain g where g: "obind (font_glyph font ch) (\<lambda>g. case g of Some b \<Rightarrow> Ok (Some b) | None \<Rightarrow> font_glyph font 0x3f) = (Ok g :: ('e, _) outcome)"
      "\<forall>b. g = Some b \<longrightarrow> length b = pf_glyph font"
  proof -
    obtain a b where "font_glyph font ch = (Ok a :: ('e, _) outcome)" "\<forall>b. a = Some b \<longrightarrow> length b = pf_glyph font"
        "font_glyph font 0x3f = (Ok b :: ('e, _) outcome)" "\<forall>c. b = Some c \<longrightarrow> length c = pf_glyph font"
      using font_glyph_ok [OF Cons.prems] by meson
    then show ?thesis using that by (cases a) auto
  qed
  have "\<exists>ws. (case g of None \<Rightarrow> Ok [] | Some b \<Rightarrow> fb_glyph fb font b pen y (encode_px (fb_layout fb) c)) = (Ok ws :: ('e, _) outcome) \<and> on_screen fb ws"
    using g(2) fb_glyph_on_screen [OF Cons.prems] by (cases g) (auto simp: on_screen_def)
  then obtain ws where ws: "(case g of None \<Rightarrow> Ok [] | Some b \<Rightarrow> fb_glyph fb font b pen y (encode_px (fb_layout fb) c)) = (Ok ws :: ('e, _) outcome)"
      "on_screen fb ws" by blast
  obtain ws' where "fb_text fb font (pen + pf_width font) y s c = (Ok ws' :: ('e, _) outcome)" "on_screen fb ws'"
    using Cons by blast
  then show ?case using g(1) ws by (auto simp: on_screen_def)
qed (simp add: on_screen_def)

definition row_writes :: "surface \<Rightarrow> nat \<Rightarrow> pixel_layout \<Rightarrow> nat \<Rightarrow> (nat \<times> color) list" where
  "row_writes s stride l y = map (\<lambda>x. (y * stride + x, encode_px l (sf_buf s ! (y * sf_width s + x)))) [0..<sf_width s]"

lemma present_rows:
  assumes "sized W H s" and "n \<le> H"
  shows "ofold (\<lambda>ws y. obind (slice (sf_buf s) (y * sf_width s) ((y + 1) * sf_width s)) (\<lambda>src.
       Ok (ws @ map (\<lambda>(x, px). (y * stride + x, encode_px l px)) (enumerate 0 src)))) [] [0..<n]
     = (Ok (concat (map (row_writes s stride l) [0..<n])) :: ('e, _) outcome)"
  using assms(2)
proof (induction n)
  case (Suc n)
  have le: "(n + 1) * W \<le> W * H" using Suc.prems by (metis Suc_eq_plus1 mult.commute mult_le_mono1)
  have "map (\<lambda>(x, px). (n * stride + x, encode_px l px)) (enumerate 0 (sub (sf_buf s) (n * W) ((n + 1) * W))) = row_writes s stride l n"
    using assms(1) le add_leD2 [of W "n * W" "W * H"] by (intro nth_equalityI) (auto simp: row_writes_def sized_def sub_def nth_enumerate_eq)
  then show ?case using Suc le assms(1) by (simp add: ofold_append sized_def)
qed simp

lemma distinct_rows: "sf_width s \<le> stride \<Longrightarrow> distinct (map fst (concat (map (row_writes s stride l) [0..<n])))
    \<and> (\<forall>o' \<in> set (map fst (concat (map (row_writes s stride l) [0..<n]))). o' < n * stride)"
proof (induction n)
  case (Suc n)
  have r: "map fst (row_writes s stride l n) = map (\<lambda>x. n * stride + x) [0..<sf_width s]" by (simp add: row_writes_def)
  have "distinct (map fst (row_writes s stride l n))" unfolding r by (simp add: distinct_map inj_on_def)
  moreover have "\<forall>o' \<in> set (map fst (row_writes s stride l n)). n * stride \<le> o' \<and> o' < Suc n * stride" unfolding r using Suc.prems by auto
  ultimately show ?case using Suc by (fastforce simp: map_concat)
qed simp

text \<open>C30: Framebuffer writes stay on the screen: presenting a frame writes exactly its pixels, each once, at its place in the
  framebuffer; the panic screen, which has no back buffer, writes only inside the visible area.\<close>

theorem framebuffer_writes_on_screen:
  assumes "sized W H s" and "W \<le> stride" and "font_ok font"
  shows "(\<exists>ws. surface_present s stride l = (Ok ws :: (unit, _) outcome) \<and> distinct (map fst ws)
      \<and> set ws = {(y * stride + x, encode_px l (sf_buf s ! (y * W + x))) | x y. x < W \<and> y < H})
    \<and> on_screen fb (fb_fill_rect fb px py w h c) \<and> (\<exists>ws. fb_text fb font px py str c = (Ok ws :: (unit, _) outcome) \<and> on_screen fb ws)"
proof (intro conjI fb_fill_on_screen fb_text_on_screen [OF assms(3)])
  let ?ws = "concat (map (row_writes s stride l) [0..<H])"
  have "surface_present s stride l = (Ok ?ws :: (unit, _) outcome)"
    using present_rows [OF assms(1) order_refl] assms(1) by (simp add: surface_present_def sized_def)
  moreover have "distinct (map fst ?ws)" using distinct_rows assms(1,2) by (simp add: sized_def)
  moreover have "set ?ws = {(y * stride + x, encode_px l (sf_buf s ! (y * W + x))) | x y. x < W \<and> y < H}"
    using assms(1) by (auto simp: row_writes_def sized_def) blast
  ultimately show "\<exists>ws. surface_present s stride l = (Ok ws :: (unit, _) outcome) \<and> distinct (map fst ws)
      \<and> set ws = {(y * stride + x, encode_px l (sf_buf s ! (y * W + x))) | x y. x < W \<and> y < H}" by blast
qed

definition demo_psf :: bytes where
  "demo_psf = [0x36, 0x04, 0x00, 0x01] @ replicate 256 0x80"

lemma demo_psf_parse: "\<exists>f. font_parse demo_psf = (Ok (Some f) :: ('e, _) outcome) \<and> pf_width f = 8 \<and> pf_row f = 1 \<and> pf_height f = 1 \<and> font_ok f"
  by (simp add: font_parse_def parse_psf1_def demo_psf_def PSF1_MAGIC_def Let_def get_range_def font_ok_def sub_def)

lemma parsed_font_is_usable_witness:
  "\<exists>f g. font_parse demo_psf = (Ok (Some f) :: (unit, _) outcome) \<and> font_glyph f 65 = (Ok g :: (unit, _) outcome)"
proof -
  obtain f where f: "font_parse demo_psf = (Ok (Some f) :: (unit, _) outcome)" "pf_width f \<le> 8 * pf_row f" using demo_psf_parse by force
  from parsed_font_is_usable [OF this, of 65] f(1) show ?thesis by blast
qed

lemma framebuffer_writes_on_screen_witness:
  "\<exists>ws. surface_present (surface_new 2 2) 3 Rgbx = (Ok ws :: (unit, _) outcome) \<and> distinct (map fst ws)"
proof -
  obtain f where "font_parse demo_psf = (Ok (Some f) :: (unit, _) outcome)" and f: "font_ok f" using demo_psf_parse by blast
  have "(2 :: nat) \<le> 3" by simp
  from framebuffer_writes_on_screen [OF sized_new this f, of 2 Rgbx] show ?thesis by blast
qed

end
