(* ===== verification/Nr_Chat.thy ===== *)
theory Nr_Chat
  imports Nr_Gfx
begin

text \<open>
  The chat screen, \<^verbatim>\<open>crates/nr-ui/src/chat.rs\<close>: status bar, word-wrapped scrollback, input line with its caret window.
  Text is a list of code points; the one byte count the code takes, of the assistant's name, is its length because
  the names compiled in are ASCII. Drawing a screen is safe on every display wide enough for the label column, whatever
  the transcript, the input, the caret and the scroll state; the wrapping keeps within the columns and loses no
  character but white space.
\<close>

subsection \<open>Data\<close>

type_synonym chars = "nat list"

definition lit :: "char list \<Rightarrow> chars" where "lit s = map of_char s"

datatype role = User | Llama | System

record turn =
  tn_role :: role
  tn_text :: chars

record stats =
  sx_model :: chars
  sx_assistant :: chars
  sx_mem_used :: u32
  sx_mem_total :: u32
  sx_tok_s_milli :: u32
  sx_pp_milli :: u32
  sx_ftl_ms :: u32
  sx_ctx_used :: u32
  sx_ctx_max :: u32
  sx_cores :: u32
  sx_generating :: bool

record fonts =
  fo_small :: psf_font
  fo_body :: psf_font
  fo_head :: psf_font
  fo_big :: psf_font

text \<open>\<open>load\<close> parses four embedded files, here arguments.\<close>

definition fonts_load :: "bytes \<Rightarrow> bytes \<Rightarrow> bytes \<Rightarrow> bytes \<Rightarrow> ('e, fonts) outcome" where
  "fonts_load small body head big =
     obind (obind (font_parse small) expect) (\<lambda>s. obind (obind (font_parse body) expect) (\<lambda>b.
     obind (obind (font_parse head) expect) (\<lambda>h. obind (obind (font_parse big) expect) (\<lambda>g.
     Ok \<lparr>fo_small = s, fo_body = b, fo_head = h, fo_big = g\<rparr>))))"

definition prefix_len :: "role \<Rightarrow> chars \<Rightarrow> nat" where
  "prefix_len r assistant = (case r of User \<Rightarrow> 6 | Llama \<Rightarrow> length assistant + 2 | System \<Rightarrow> 0)"

definition role_color :: "role \<Rightarrow> color" where
  "role_color r = (case r of User \<Rightarrow> NEON_CYAN | Llama \<Rightarrow> NEON_PINK | System \<Rightarrow> TEXT_DIM)"

definition MARGIN :: int where "MARGIN = 24"
definition STATUS_H :: int where "STATUS_H = 40"
definition INPUT_H :: int where "INPUT_H = 46"

abbreviation fw :: "psf_font \<Rightarrow> int" where "fw f \<equiv> to_i32 (int (pf_width f))"
abbreviation fh :: "psf_font \<Rightarrow> int" where "fh f \<equiv> to_i32 (int (pf_height f))"
abbreviation sw :: "surface \<Rightarrow> int" where "sw s \<equiv> to_i32 (int (sf_width s))"
abbreviation sh :: "surface \<Rightarrow> int" where "sh s \<equiv> to_i32 (int (sf_height s))"

subsection \<open>Numbers\<close>

text \<open>The digits are written from the end of a ten-byte buffer.\<close>

primrec fmt_loop :: "nat \<Rightarrow> nat \<Rightarrow> ('e, chars) outcome" where
  "fmt_loop 0 v = Panic"
| "fmt_loop (Suc i) v = (let d = 48 + v mod 10 in
     if v div 10 = 0 then Ok [d] else obind (fmt_loop i (v div 10)) (\<lambda>ds. Ok (ds @ [d])))"

definition fmt_u32 :: "u32 \<Rightarrow> ('e, chars) outcome" where
  "fmt_u32 v = fmt_loop 10 (unat v)"

definition fmt_milli :: "u32 \<Rightarrow> ('e, chars) outcome" where
  "fmt_milli m = obind (fmt_u32 (m div 1000)) (\<lambda>a. obind (fmt_u32 (m mod 1000 div 100)) (\<lambda>b. Ok (a @ lit ''.'' @ b)))"

definition fmt_mem :: "u32 \<Rightarrow> u32 \<Rightarrow> ('e, chars) outcome" where
  "fmt_mem used mem = obind (fmt_u32 used) (\<lambda>a. obind (fmt_u32 mem) (\<lambda>b. Ok (a @ lit ''/'' @ b @ lit '' MB'')))"

subsection \<open>Word wrap\<close>

fun split_at :: "nat \<Rightarrow> chars \<Rightarrow> chars list" where
  "split_at c [] = [[]]"
| "split_at c (x # xs) = (if x = c then [] # split_at c xs
     else (case split_at c xs of [] \<Rightarrow> [[x]] | w # ws \<Rightarrow> (x # w) # ws))"

text \<open>Full chunks of a long word, then its rest; \<open>wrap\<close> never comes here with no columns.\<close>

function word_chunks :: "nat \<Rightarrow> chars \<Rightarrow> chars list \<times> chars" where
  "word_chunks cols rest =
     (if cols < length rest \<and> 0 < cols then (let r = word_chunks cols (drop cols rest) in (take cols rest # fst r, snd r)) else ([], rest))"
  by auto
termination by (relation "measure (\<lambda>(cols, rest). length rest)") auto

declare word_chunks.simps [simp del]

definition push_word :: "chars list \<times> chars \<Rightarrow> chars \<Rightarrow> nat \<Rightarrow> chars list \<times> chars" where
  "push_word st word cols = (let r = word_chunks cols word in (fst st @ fst r, snd st @ snd r))"

definition wrap_word :: "nat \<Rightarrow> chars list \<times> chars \<Rightarrow> chars \<Rightarrow> chars list \<times> chars" where
  "wrap_word cols st word =
     (let wlen = length word; llen = length (snd st) in
      if llen = 0 then push_word st word cols
      else if llen + 1 + wlen \<le> cols then (fst st, snd st @ [32] @ word)
      else push_word (fst st @ [snd st], []) word cols)"

definition wrap_para :: "nat \<Rightarrow> chars list \<Rightarrow> chars \<Rightarrow> chars list" where
  "wrap_para cols out para = (let r = foldl (wrap_word cols) (out, []) (split_at 32 para) in fst r @ [snd r])"

definition wrap :: "chars \<Rightarrow> nat \<Rightarrow> chars list" where
  "wrap t cols = (if cols = 0 then [] else foldl (wrap_para cols) [] (split_at 10 t))"

subsection \<open>Bars\<close>

definition right_status :: "stats \<Rightarrow> ('e, chars) outcome" where
  "right_status st =
     obind (fmt_u32 (sx_cores st)) (\<lambda>cores. obind (fmt_mem (sx_mem_used st) (sx_mem_total st)) (\<lambda>mem.
     obind (fmt_u32 (sx_ctx_used st)) (\<lambda>used. obind (fmt_u32 (sx_ctx_max st)) (\<lambda>most.
     obind (if sx_pp_milli st > 0 then obind (fmt_milli (sx_pp_milli st)) (\<lambda>t. Ok (lit ''pp '' @ t @ lit ''  '')) else Ok []) (\<lambda>pp.
     obind (if sx_ftl_ms st > 0 then obind (fmt_u32 (sx_ftl_ms st div 1000)) (\<lambda>a. obind (fmt_u32 (sx_ftl_ms st mod 1000 div 100)) (\<lambda>b.
         Ok (lit ''ftl '' @ a @ lit ''.'' @ b @ lit ''s  ''))) else Ok []) (\<lambda>ftl.
     obind (if sx_tok_s_milli st > 0 then obind (fmt_milli (sx_tok_s_milli st)) (\<lambda>t. Ok (t @ lit '' tok/s''))
       else Ok (if sx_generating st then lit ''... tok/s'' else lit ''idle'')) (\<lambda>rate.
     Ok (cores @ lit ''c  '' @ mem @ lit ''  ctx '' @ used @ lit ''/'' @ most @ lit ''  '' @ pp @ ftl @ rate))))))))"

definition status_bar :: "fonts \<Rightarrow> stats \<Rightarrow> 'e pic" where
  "status_bar fs st s =
     (let w = sw s; f = fo_small fs; ty = to_i32 ((STATUS_H - fh f) sdiv 2 - 1);
          model_x = to_i32 (MARGIN + text_width f (lit ''NIGHTRUN'') 1 2 + 28) in
      obind (right_status st) (\<lambda>right.
      let rx = to_i32 (sw s - MARGIN - text_width f right 1 0) in
      draw_seq [
        fill_rect 0 0 w STATUS_H BG_PANEL,
        draw_each (\<lambda>x. fill_rect x (STATUS_H - 2) 1 2 (gradient [(0, NEON_CYAN), (500, NEON_MAGENTA), (1000, NEON_ORANGE)]
          (of_int x * 1000 div of_int (max w 1)))) [0..w - 1],
        text_glow f MARGIN ty (lit ''NIGHTRUN'') 1 2 0 NEON_MAGENTA 2,
        draw_text f MARGIN ty (lit ''NIGHTRUN'') TEXT_PRIMARY 1 2,
        draw_text f model_x ty (lit ''// '' @ sx_model st) TEXT_DIM 1 0,
        draw_text f rx ty right (if sx_generating st then NEON_YELLOW else TEXT_DIM) 1 0] s))"

text \<open>The window of the input that is shown, so that the caret is in it.\<close>

definition input_window :: "nat \<Rightarrow> nat \<Rightarrow> nat \<Rightarrow> nat \<times> nat" where
  "input_window caret max_cols len =
     (let start = (if max_cols \<le> caret then caret + 1 - max_cols else 0) in (start, min (start + max_cols) len))"

definition input_bar :: "fonts \<Rightarrow> chars \<Rightarrow> nat \<Rightarrow> bool \<Rightarrow> bool \<Rightarrow> 'e pic" where
  "input_bar fs inp caret cursor_on generating s =
     (let w = sw s; h = sh s; y0 = to_i32 (h - INPUT_H); f = fo_body fs; ty = to_i32 (y0 + (INPUT_H - fh f) sdiv 2) in
      obind (draw_seq [fill_rect 0 y0 w INPUT_H BG_PANEL, fill_rect 0 y0 w 1 BORDER] s) (\<lambda>s.
      if generating then draw_text f MARGIN ty (lit ''>> generating - press ESC to stop'') TEXT_DIM 1 0 s
      else
      obind (draw_text f MARGIN ty (lit ''USER:'') NEON_CYAN 1 0 s) (\<lambda>s.
      let tx = to_i32 (MARGIN + 6 * fw f); caret = min caret (length inp) in
      obind (idiv (to_i32 (w - tx - MARGIN - fw f)) (fw f)) (\<lambda>q.
      let max_cols = nat (max q 1); (start, fin) = input_window caret max_cols (length inp) in
      obind (slice inp start fin) (\<lambda>shown. obind (draw_text f tx ty shown TEXT_PRIMARY 1 0 s) (\<lambda>s.
      if \<not> cursor_on then Ok s
      else let cx = to_i32 (tx + to_i32 (int (caret - start)) * fw f) in
        obind (fill_rect cx (to_i32 (ty + 2)) (to_i32 (fw f - 2)) (to_i32 (fh f - 4)) NEON_CYAN s) (\<lambda>s.
        if caret < length inp then obind (slice inp caret (caret + 1)) (\<lambda>under. draw_text f cx ty under BG_DEEP 1 0 s) else Ok s)))))))"

subsection \<open>Scrollback\<close>

record line =
  ln_label_color :: color
  ln_body_color :: color
  ln_label :: chars
  ln_body :: chars
  ln_at_margin :: bool

definition ascii_upper :: "nat \<Rightarrow> nat" where
  "ascii_upper c = (if 97 \<le> c \<and> c \<le> 122 then c - 32 else c)"

definition turn_label :: "chars \<Rightarrow> role \<Rightarrow> chars" where
  "turn_label assistant r = (case r of User \<Rightarrow> lit ''USER:'' | Llama \<Rightarrow> map ascii_upper assistant @ lit '':'' | System \<Rightarrow> [])"

definition turn_lines :: "chars \<Rightarrow> nat \<Rightarrow> nat \<Rightarrow> turn \<Rightarrow> line list" where
  "turn_lines assistant cols body_cols t =
     (let r = tn_role t; label = turn_label assistant r;
          body_color = (if r = System then role_color r else TEXT_PRIMARY); at_margin = (r = System); width = (if r = System then cols else body_cols);
          mk = (\<lambda>l b. \<lparr>ln_label_color = role_color r, ln_body_color = body_color, ln_label = l, ln_body = b, ln_at_margin = at_margin\<rparr>)
      in case wrap (tn_text t) width of [] \<Rightarrow> [mk label []] | b # bs \<Rightarrow> mk label b # map (mk []) bs)"

definition separator :: line where
  "separator = \<lparr>ln_label_color = 0, ln_body_color = 0, ln_label = [], ln_body = [], ln_at_margin = False\<rparr>"

definition all_lines :: "chars \<Rightarrow> nat \<Rightarrow> nat \<Rightarrow> turn list \<Rightarrow> line list" where
  "all_lines assistant cols body_cols ts =
     concat (map (\<lambda>(i, t). (if 0 < i then [separator] else []) @ turn_lines assistant cols body_cols t) (enumerate 0 ts))"

text \<open>Clamped scroll, first and past-the-last line of the window.\<close>

definition scroll_window :: "nat \<Rightarrow> nat \<Rightarrow> nat \<Rightarrow> nat \<times> nat \<times> nat" where
  "scroll_window n max_lines scroll = (let max_scroll = n - max_lines; scroll = min scroll max_scroll; fin = n - scroll in (scroll, fin - max_lines, fin))"

definition draw_turn_line :: "psf_font \<Rightarrow> int \<Rightarrow> int \<Rightarrow> line \<Rightarrow> 'e pic" where
  "draw_turn_line f body_x y l = draw_seq
     [if ln_label l \<noteq> [] then draw_text f MARGIN y (ln_label l) (ln_label_color l) 1 0 else nothing,
      if ln_body l \<noteq> [] then draw_text f (if ln_at_margin l then MARGIN else body_x) y (ln_body l) (ln_body_color l) 1 0 else nothing]"

definition history_note :: "fonts \<Rightarrow> int \<Rightarrow> nat \<Rightarrow> 'e pic" where
  "history_note fs y_top scroll s =
     (let f = fo_small fs in
      obind (fmt_u32 (of_nat scroll)) (\<lambda>n.
      let label = lit ''^ history  '' @ n @ lit '' lines below - DOWN for newest''; tw = text_width f label 1 0; x = to_i32 (sw s - MARGIN - tw - 12) in
      draw_seq [fill_rect (to_i32 (x - 8)) y_top (to_i32 (tw + 16)) (to_i32 (fh f + 8)) BG_PANEL,
        fill_rect (to_i32 (x - 8)) y_top (to_i32 (tw + 16)) 1 BORDER,
        fill_rect (to_i32 (x - 8)) (to_i32 (y_top + fh f + 7)) (to_i32 (tw + 16)) 1 BORDER,
        draw_text f x (y_top + 4) label NEON_CYAN 1 0] s))"

definition scrollback :: "fonts \<Rightarrow> turn list \<Rightarrow> bool \<Rightarrow> bool \<Rightarrow> nat \<Rightarrow> chars \<Rightarrow> nat \<Rightarrow> surface \<Rightarrow> ('e, surface \<times> nat) outcome" where
  "scrollback fs ts generating cursor_on scroll assistant content_col s =
     (let f = fo_body fs; w = sw s; h = sh s; y_top = STATUS_H + 10; y_end = to_i32 (h - INPUT_H - 10); line_h = to_i32 (fh f + 2) in
      obind (idiv (to_i32 (w - 2 * MARGIN)) (fw f)) (\<lambda>q.
      let cols = nat (max q 10); body_cols = max (cols - content_col) 8; ls = all_lines assistant cols body_cols ts in
      obind (idiv (to_i32 (y_end - y_top)) line_h) (\<lambda>q.
      let max_lines = nat (max q 1); (scroll, start, fin) = scroll_window (length ls) max_lines scroll;
          body_x = to_i32 (MARGIN + to_i32 (to_i32 (int content_col) * fw f)) in
      obind (slice ls start fin) (\<lambda>shown.
      obind (draw_each (\<lambda>(i, l). draw_turn_line f body_x (to_i32 (y_top + int i * line_h)) l) (enumerate 0 shown) s) (\<lambda>s.
      let cy = to_i32 (y_top + int (length shown) * line_h - line_h);
          thinking = (generating \<and> ts \<noteq> [] \<and> tn_role (last ts) = Llama \<and> tn_text (last ts) = []) in
      obind ((if thinking \<and> cursor_on \<and> scroll = 0 \<and> start < fin \<and> to_i32 (cy + line_h) \<le> y_end
          then fill_rect body_x (to_i32 (cy + 2)) (to_i32 (fw f - 2)) (to_i32 (fh f - 4)) NEON_PINK else nothing) s) (\<lambda>s.
      obind ((if 0 < scroll then history_note fs y_top scroll else nothing) s) (\<lambda>s.
      Ok (s, scroll))))))))"

definition content_column :: "chars \<Rightarrow> nat" where
  "content_column assistant = max 5 (length assistant + 1) + 1"

definition chat_draw :: "fonts \<Rightarrow> turn list \<Rightarrow> chars \<Rightarrow> nat \<Rightarrow> bool \<Rightarrow> stats \<Rightarrow> nat \<Rightarrow> surface \<Rightarrow> ('e, surface \<times> nat) outcome" where
  "chat_draw fs ts inp caret cursor_on st scroll s =
     obind (surface_clear BG_DEEP s) (\<lambda>s. obind (status_bar fs st s) (\<lambda>s. obind (input_bar fs inp caret cursor_on (sx_generating st) s) (\<lambda>s.
     obind (scrollback fs ts (sx_generating st) cursor_on scroll (sx_assistant st) (content_column (sx_assistant st)) s) (\<lambda>(s, scroll).
     obind (scanlines 26 s) (\<lambda>s. Ok (s, scroll))))))"

definition page_lines :: "fonts \<Rightarrow> surface \<Rightarrow> ('e, nat) outcome" where
  "page_lines fs s =
     obind (idiv (to_i32 (to_i32 (sh s - INPUT_H - 10) - (STATUS_H + 10))) (to_i32 (fh (fo_body fs) + 2))) (\<lambda>q. Ok (nat (max q 1)))"

subsection \<open>Numbers are printed in full\<close>

definition dec_value :: "chars \<Rightarrow> nat" where
  "dec_value = foldl (\<lambda>n c. n * 10 + (c - 48)) 0"

lemma fmt_loop_Ok: "v < 10 ^ Suc i \<Longrightarrow> \<exists>ds. fmt_loop (Suc i) v = (Ok ds :: ('e, _) outcome) \<and> length ds \<le> Suc i \<and> dec_value ds = v"
proof (induction i arbitrary: v)
  case 0
  then show ?case by (simp add: dec_value_def)
next
  case (Suc i)
  show ?case
  proof (cases "v div 10 = 0")
    case True
    then show ?thesis by (simp add: dec_value_def div_eq_0_iff)
  next
    case False
    have "v div 10 < 10 ^ Suc i" using Suc.prems by (simp add: div_less_iff_less_mult mult.commute)
    from Suc.IH [OF this] obtain ds where ds: "fmt_loop (Suc i) (v div 10) = (Ok ds :: ('e, _) outcome)" "length ds \<le> Suc i" "dec_value ds = v div 10" by blast
    have "fmt_loop (Suc (Suc i)) v = (Ok (ds @ [48 + v mod 10]) :: ('e, _) outcome)"
      by (subst fmt_loop.simps(2)) (simp only: Let_def False if_False ds(1) obind.simps)
    moreover have "dec_value (ds @ [48 + v mod 10]) = v" using ds(3) by (simp add: dec_value_def)
    ultimately show ?thesis using ds(2) by simp
  qed
qed

lemma fmt_u32_Ok: "\<exists>ds. fmt_u32 v = (Ok ds :: ('e, _) outcome) \<and> length ds \<le> 10 \<and> dec_value ds = unat v"
proof -
  have "unat v < 10 ^ Suc 9" using unsigned_less [of v, where 'a = nat] by simp
  moreover have "(10 :: nat) = Suc 9" by simp
  ultimately show ?thesis unfolding fmt_u32_def by (metis fmt_loop_Ok)
qed

subsection \<open>Wrapping\<close>

definition visible :: "nat \<Rightarrow> bool" where
  "visible c \<longleftrightarrow> c \<noteq> 32 \<and> c \<noteq> 10"

lemma split_at_visible: "\<not> visible c \<Longrightarrow> filter visible (concat (split_at c t)) = filter visible t \<and> split_at c t \<noteq> []"
  by (induction t) (auto split: list.splits)

lemma word_chunks_props:
  "0 < cols \<Longrightarrow> concat (fst (word_chunks cols w)) @ snd (word_chunks cols w) = w \<and> length (snd (word_chunks cols w)) \<le> cols
     \<and> (\<forall>l \<in> set (fst (word_chunks cols w)). length l \<le> cols)"
proof (induction cols w rule: word_chunks.induct)
  case (1 cols rest)
  show ?case
  proof (cases "cols < length rest")
    case True
    then have "word_chunks cols rest = (take cols rest # fst (word_chunks cols (drop cols rest)), snd (word_chunks cols (drop cols rest)))"
      using 1(2) by (subst word_chunks.simps) (simp add: Let_def)
    then show ?thesis using 1(1) [OF _ 1(2)] True 1(2) by auto
  qed (subst word_chunks.simps, simp)+
qed

definition fits :: "nat \<Rightarrow> chars list \<times> chars \<Rightarrow> bool" where
  "fits cols st \<longleftrightarrow> (\<forall>l \<in> set (fst st). length l \<le> cols) \<and> length (snd st) \<le> cols"

definition content :: "chars list \<times> chars \<Rightarrow> chars" where
  "content st = filter visible (concat (fst st) @ snd st)"

lemma wrap_word_props:
  assumes "0 < cols" and "fits cols st"
  shows "fits cols (wrap_word cols st w) \<and> content (wrap_word cols st w) = content st @ filter visible w"
proof -
  note c = word_chunks_props [OF assms(1), of w]
  from c have f: "filter visible w = filter visible (concat (fst (word_chunks cols w))) @ filter visible (snd (word_chunks cols w))"
    by (metis filter_append)
  show ?thesis using assms(2) c f
    by (auto simp: wrap_word_def push_word_def Let_def fits_def content_def visible_def)
qed

lemma wrap_words:
  assumes "0 < cols" and "fits cols st"
  shows "fits cols (foldl (wrap_word cols) st ws) \<and> content (foldl (wrap_word cols) st ws) = content st @ filter visible (concat ws)"
  using assms(2) by (induction ws arbitrary: st) (simp_all add: wrap_word_props [OF assms(1)])

lemma wrap_para_props:
  assumes "0 < cols" and "\<forall>l \<in> set out. length l \<le> cols"
  shows "(\<forall>l \<in> set (wrap_para cols out p). length l \<le> cols) \<and> filter visible (concat (wrap_para cols out p)) = filter visible (concat out) @ filter visible p"
proof -
  have "fits cols (out, [])" using assms(2) by (simp add: fits_def)
  note w = wrap_words [OF assms(1) this, of "split_at 32 p"]
  define r where "r = foldl (wrap_word cols) (out, []) (split_at 32 p)"
  have "filter visible (concat (split_at 32 p)) = filter visible p" using split_at_visible by (simp add: visible_def)
  then have c: "content r = filter visible (concat out) @ filter visible p" using w by (simp add: r_def content_def)
  have "wrap_para cols out p = fst r @ [snd r]" by (simp add: wrap_para_def Let_def r_def)
  moreover have "fits cols r" using w by (simp add: r_def)
  ultimately show ?thesis using c by (simp add: fits_def content_def)
qed

text \<open>C31: Wrapping is lossless and within bounds: for every text and every positive number of columns no line is longer than
  the columns, words longer than a line included, and no character but spaces and line breaks is lost, added or moved.\<close>

theorem wrap_fits_and_keeps:
  assumes "0 < cols"
  shows "(\<forall>l \<in> set (wrap t cols). length l \<le> cols) \<and> filter visible (concat (wrap t cols)) = filter visible t"
proof -
  have "(\<forall>l \<in> set (foldl (wrap_para cols) out ps). length l \<le> cols)
      \<and> filter visible (concat (foldl (wrap_para cols) out ps)) = filter visible (concat out) @ filter visible (concat ps)"
    if "\<forall>l \<in> set out. length l \<le> cols" for out ps
    using that
  proof (induction ps arbitrary: out)
    case (Cons p ps)
    note one = wrap_para_props [OF assms Cons.prems, of p]
    from Cons.IH [OF conjunct1 [OF one]] one show ?case by simp
  qed simp
  from this [of "[]" "split_at 10 t"] show ?thesis
    using assms split_at_visible [of 10 t] by (simp add: wrap_def visible_def)
qed

lemma wrap_fits_and_keeps_witness:
  "list_all (\<lambda>l. length l \<le> 6) (wrap (lit ''NightRun runs offline'') 6)"
proof -
  have "(0 :: nat) < 6" by simp
  from wrap_fits_and_keeps [OF this, of "lit ''NightRun runs offline''"] show ?thesis unfolding list_all_iff by (rule conjunct1)
qed

subsection \<open>Drawing the screen is safe\<close>

definition display_ok :: "fonts \<Rightarrow> chars \<Rightarrow> nat \<Rightarrow> nat \<Rightarrow> bool" where
  "display_ok fs assistant W H \<longleftrightarrow> W < 2 ^ 20 \<and> H < 2 ^ 20 \<and> font_ok (fo_small fs) \<and> font_ok (fo_body fs)
     \<and> pf_width (fo_small fs) \<le> 64 \<and> pf_height (fo_small fs) \<le> 64 \<and> 2 \<le> pf_width (fo_body fs) \<and> pf_width (fo_body fs) \<le> 64
     \<and> pf_height (fo_body fs) \<le> 64 \<and> length assistant < 1024 \<and> 24 + content_column assistant * pf_width (fo_body fs) \<le> W"

lemma safe_do: "safe W H f \<Longrightarrow> sized W H s \<Longrightarrow> \<exists>s'. f s = (Ok s' :: ('e, _) outcome) \<and> sized W H s'"
  by (simp add: safe_def)

lemma right_status_Ok: "\<exists>r. right_status st = (Ok r :: ('e, _) outcome)"
proof -
  have u: "\<exists>ds. fmt_u32 v = (Ok ds :: ('e, _) outcome)" for v using fmt_u32_Ok by blast
  have m: "\<exists>ds. fmt_milli v = (Ok ds :: ('e, _) outcome)" for v using u [of "v div 1000"] u [of "v mod 1000 div 100"] by (auto simp: fmt_milli_def)
  show ?thesis
    using u [of "sx_cores st"] u [of "sx_mem_used st"] u [of "sx_mem_total st"] u [of "sx_ctx_used st"] u [of "sx_ctx_max st"]
      u [of "sx_ftl_ms st div 1000"] u [of "sx_ftl_ms st mod 1000 div 100"] m [of "sx_pp_milli st"] m [of "sx_tok_s_milli st"]
    by (auto simp: right_status_def fmt_mem_def)
qed

lemma width_i32: "W < 2 ^ 20 \<Longrightarrow> to_i32 (int W) = int W"
  by (rule to_i32_id) auto

lemma safe_status_bar: "display_ok fs a W H \<Longrightarrow> safe W H (status_bar fs st :: 'e pic)"
  unfolding safe_def
proof (intro allI impI)
  fix s
  assume d: "display_ok fs a W H" and s: "sized W H s"
  obtain right where r: "right_status st = (Ok right :: ('e, _) outcome)" using right_status_Ok by blast
  have w: "sw s = int W" "W < 2 ^ 20" using s d by (simp_all add: sized_def display_ok_def width_i32)
  have f: "font_ok (fo_small fs)" using d by (simp add: display_ok_def)
  have strip: "safe W H (draw_each (\<lambda>x. fill_rect x (STATUS_H - 2) 1 2 (col x)) [0..int W - 1] :: 'e pic)" for col
    using w(2) by (intro safe_each safe_rect) auto
  have "safe W H (draw_seq [
        fill_rect 0 0 (int W) STATUS_H BG_PANEL,
        draw_each (\<lambda>x. fill_rect x (STATUS_H - 2) 1 2 (gradient [(0, NEON_CYAN), (500, NEON_MAGENTA), (1000, NEON_ORANGE)]
          (of_int x * 1000 div of_int (max (int W) 1)))) [0..int W - 1],
        text_glow (fo_small fs) MARGIN ty (lit ''NIGHTRUN'') 1 2 0 NEON_MAGENTA 2,
        draw_text (fo_small fs) MARGIN ty (lit ''NIGHTRUN'') TEXT_PRIMARY 1 2,
        draw_text (fo_small fs) mx ty (lit ''// '' @ sx_model st) TEXT_DIM 1 0,
        draw_text (fo_small fs) rx ty right (if sx_generating st then NEON_YELLOW else TEXT_DIM) 1 0] :: 'e pic)" for ty mx rx
    using w(2) f by (intro safe_seq) (simp add: safe_rect safe_text_glow safe_draw_text strip)
  from safe_do [OF this s] show "\<exists>s'. status_bar fs st s = (Ok s' :: ('e, _) outcome) \<and> sized W H s'"
    by (simp only: status_bar_def Let_def r w(1) obind.simps)
qed

text \<open>The caret is inside the window, and the window inside the text.\<close>

lemma input_window_ok:
  assumes "input_window caret m len = (start, fin)" and "caret \<le> len" and "1 \<le> m"
  shows "start \<le> caret" "caret - start \<le> m - 1" "start \<le> fin" "fin \<le> len"
  using assms by (auto simp: input_window_def Let_def split: if_splits)

lemma sdiv_pos: "0 \<le> a \<Longrightarrow> 0 < b \<Longrightarrow> a sdiv b = a div (b :: int)"
  by (cases "a = 0") (simp_all add: signed_divide_int_def)

lemma sdiv_neg: "a < 0 \<Longrightarrow> 0 < b \<Longrightarrow> a sdiv b \<le> (0 :: int)"
  by (simp add: signed_divide_int_def pos_imp_zdiv_nonneg_iff)

lemma sdiv_abs_le: "0 < b \<Longrightarrow> \<bar>a sdiv b\<bar> \<le> \<bar>a :: int\<bar>"
proof -
  assume b: "0 < b"
  have "\<bar>a\<bar> div b \<le> \<bar>a\<bar> div 1" using b by (intro zdiv_mono2) auto
  moreover have "0 \<le> \<bar>a\<bar> div b" using b by (simp add: pos_imp_zdiv_nonneg_iff)
  ultimately show ?thesis using b by (cases "a = 0") (simp_all add: signed_divide_int_def abs_mult)
qed

lemma caret_on_screen:
  assumes "0 < f" and "f \<le> 64" and "w < 2 ^ 20" and "24 + 6 * f \<le> (w :: int)" and "k \<le> nat (max ((w - (24 + 6 * f) - 24 - f) sdiv f) 1) - 1"
  shows "24 + 6 * f + int k * f \<le> w"
proof -
  let ?q = "(w - (24 + 6 * f) - 24 - f) sdiv f"
  show ?thesis
  proof (cases "1 < ?q")
    case True
    have nn: "0 \<le> w - (24 + 6 * f) - 24 - f" using True sdiv_neg [of "w - (24 + 6 * f) - 24 - f" f] assms(1) by linarith
    then have q: "?q = (w - (24 + 6 * f) - 24 - f) div f" using assms(1) by (rule sdiv_pos)
    have "int k \<le> ?q" using assms(5) True by simp
    then have "int k * f \<le> ?q * f" using assms(1) by (simp add: mult_right_mono)
    also have "\<dots> \<le> w - (24 + 6 * f) - 24 - f" unfolding q
      using div_mult_mod_eq [of "w - (24 + 6 * f) - 24 - f" f] pos_mod_sign [OF assms(1)] by (metis le_add_same_cancel1)
    finally show ?thesis using assms(1) by simp
  next
    case False
    then have "k = 0" using assms(5) by simp
    then show ?thesis using assms(4) by simp
  qed
qed

lemma safe_bind:
  assumes "safe W H f" and "sized W H s" and "\<And>s'. sized W H s' \<Longrightarrow> \<exists>r. k s' = (Ok r :: ('e, 'a) outcome) \<and> P r"
  shows "\<exists>r. obind (f s) k = (Ok r :: ('e, 'a) outcome) \<and> P r"
  using assms by (force simp: safe_def)

lemma content_column_ge: "6 \<le> content_column a"
  by (simp add: content_column_def)

text \<open>The facts about a display that the drawing uses.\<close>

lemma display_facts:
  assumes "display_ok fs a W H"
  shows "to_i32 (int W) = int W" "to_i32 (int H) = int H" "fw (fo_body fs) = int (pf_width (fo_body fs))" "fh (fo_body fs) = int (pf_height (fo_body fs))"
    "fw (fo_small fs) = int (pf_width (fo_small fs))" "fh (fo_small fs) = int (pf_height (fo_small fs))"
    "font_ok (fo_body fs)" "font_ok (fo_small fs)" "W < 2 ^ 20" "2 \<le> pf_width (fo_body fs)" "pf_width (fo_body fs) \<le> 64" "24 + 6 * pf_width (fo_body fs) \<le> W"
proof -
  have "6 * pf_width (fo_body fs) \<le> content_column a * pf_width (fo_body fs)" using content_column_ge by (intro mult_le_mono1)
  moreover have "24 + content_column a * pf_width (fo_body fs) \<le> W" using assms by (simp add: display_ok_def)
  ultimately show "24 + 6 * pf_width (fo_body fs) \<le> W" by linarith
qed (use assms in \<open>auto simp: display_ok_def intro!: to_i32_id\<close>)

lemma input_bar_unfold:
  assumes d: "display_ok fs a W H" and s: "sized W H s"
  shows "input_bar fs inp caret cursor_on generating s =
    (let y0 = to_i32 (int H - INPUT_H); f = fo_body fs; ty = to_i32 (y0 + (INPUT_H - fh f) sdiv 2); b = int (pf_width f); caret = min caret (length inp);
         (start, fin) = input_window caret (nat (max ((int W - (24 + 6 * b) - 24 - b) sdiv b) 1)) (length inp) in
     obind (draw_seq [fill_rect 0 y0 (int W) INPUT_H BG_PANEL, fill_rect 0 y0 (int W) 1 BORDER] s) (\<lambda>s.
      if generating then draw_text f MARGIN ty (lit ''>> generating - press ESC to stop'') TEXT_DIM 1 0 s
      else
      obind (draw_text f MARGIN ty (lit ''USER:'') NEON_CYAN 1 0 s) (\<lambda>s.
      obind (slice inp start fin) (\<lambda>shown. obind (draw_text f (24 + 6 * b) ty shown TEXT_PRIMARY 1 0 s) (\<lambda>s.
      if \<not> cursor_on then Ok s
      else let cx = to_i32 (24 + 6 * b + to_i32 (int (caret - start)) * b) in
        obind (fill_rect cx (to_i32 (ty + 2)) (b - 2) (to_i32 (fh f - 4)) NEON_CYAN s) (\<lambda>s.
        if caret < length inp then obind (slice inp caret (caret + 1)) (\<lambda>under. draw_text f cx ty under BG_DEEP 1 0 s) else Ok s))))) :: ('e, _) outcome)"
proof -
  let ?b = "int (pf_width (fo_body fs))"
  note F = display_facts [OF d]
  have wh: "sw s = int W" "sh s = int H" using s F(1,2) by (simp_all add: sized_def)
  have b: "2 \<le> ?b" "?b \<le> 64" using F(10,11) by simp_all
  have tx: "to_i32 (MARGIN + 6 * ?b) = 24 + 6 * ?b" using b by (simp add: MARGIN_def to_i32_id)
  have a1: "to_i32 (int W - (24 + 6 * ?b) - MARGIN - ?b) = int W - (24 + 6 * ?b) - 24 - ?b" using b F(9) by (simp add: MARGIN_def to_i32_id)
  have "\<bar>(int W - (24 + 6 * ?b) - 24 - ?b) sdiv ?b\<bar> \<le> \<bar>int W - (24 + 6 * ?b) - 24 - ?b\<bar>" using b by (intro sdiv_abs_le) simp
  also have "\<dots> < 2 ^ 31" using b F(9) by simp
  finally have "to_i32 ((int W - (24 + 6 * ?b) - 24 - ?b) sdiv ?b) = (int W - (24 + 6 * ?b) - 24 - ?b) sdiv ?b" by (intro to_i32_id) simp_all
  then have q: "idiv (int W - (24 + 6 * ?b) - 24 - ?b) ?b = (Ok ((int W - (24 + 6 * ?b) - 24 - ?b) sdiv ?b) :: ('e, _) outcome)"
    using b by (simp add: idiv_def)
  have b2: "to_i32 (?b - 2) = ?b - 2" using b by (simp add: to_i32_id)
  show ?thesis
    unfolding input_bar_def Let_def wh F(3) tx a1 q b2 obind.simps by (simp only: case_prod_beta cong: if_cong)
qed

lemma safe_input_bar:
  assumes d: "display_ok fs a W H"
  shows "safe W H (input_bar fs inp caret cursor_on generating :: 'e pic)"
  unfolding safe_def
proof (intro allI impI)
  fix s
  assume s: "sized W H s"
  note F = display_facts [OF d]
  define b where "b = int (pf_width (fo_body fs))"
  define c where "c = min caret (length inp)"
  define m where "m = nat (max ((int W - (24 + 6 * b) - 24 - b) sdiv b) 1)"
  obtain start fin where iw: "input_window c m (length inp) = (start, fin)" by fastforce
  note w = input_window_ok [OF iw]
  have m: "1 \<le> m" "c \<le> length inp" by (simp_all add: m_def c_def)
  have b: "2 \<le> b" "b \<le> 64" "24 + 6 * b \<le> int W" "int W < 2 ^ 20" using F(9-12) by (simp_all add: b_def)
  have k: "24 + 6 * b + int (c - start) * b \<le> int W"
    using w(2) [OF m(2,1)] b unfolding m_def by (intro caret_on_screen) simp_all
  have kb: "0 \<le> int (c - start) * b" using b by simp
  have "int (c - start) \<le> int (c - start) * b" using b by (simp add: mult_le_cancel_left1)
  then have "int (c - start) \<le> int W" using k b by linarith
  then have "to_i32 (int (c - start)) = int (c - start)" using b(4) by (intro to_i32_id) simp_all
  then have cx: "to_i32 (24 + 6 * b + to_i32 (int (c - start)) * b) = 24 + 6 * b + int (c - start) * b"
    using k kb b by (simp add: to_i32_id)
  have f: "font_ok (fo_body fs)" by (rule F(7))
  have bars: "safe W H (draw_seq [fill_rect 0 y0 (int W) INPUT_H BG_PANEL, fill_rect 0 y0 (int W) 1 BORDER] :: 'e pic)" for y0
    using b by (intro safe_seq) (simp add: safe_rect)
  have dt: "safe W H (draw_text (fo_body fs) x y t col 1 0 :: 'e pic)" for x y t col using f by (simp add: safe_draw_text)
  have cursor: "safe W H (fill_rect (24 + 6 * b + int (c - start) * b) y (b - 2) h col :: 'e pic)" for y h col
    using k kb b by (intro safe_rect) simp_all
  have shown: "slice inp start fin = (Ok (sub inp start fin) :: ('e, _) outcome)" using w(3,4) m by simp
  have under: "c < length inp \<Longrightarrow> slice inp c (c + 1) = (Ok (sub inp c (c + 1)) :: ('e, _) outcome)" by simp
  have last: "\<exists>s'. (if c < length inp then obind (slice inp c (c + 1)) (\<lambda>u. draw_text (fo_body fs) x y u BG_DEEP 1 0 s) else Ok s)
      = (Ok s' :: ('e, _) outcome) \<and> sized W H s'" if "sized W H s" for s x y
    using that safe_do [OF dt that] under by (cases "c < length inp") simp_all
  show "\<exists>s'. input_bar fs inp caret cursor_on generating s = (Ok s' :: ('e, _) outcome) \<and> sized W H s'"
    unfolding input_bar_unfold [OF d s] Let_def b_def [symmetric] c_def [symmetric] m_def [symmetric] iw prod.case shown cx obind.simps
  proof (rule safe_bind [OF bars s])
    fix s
    assume s: "sized W H s"
    show "\<exists>r. (if generating then draw_text (fo_body fs) MARGIN (to_i32 (to_i32 (int H - INPUT_H) + (INPUT_H - fh (fo_body fs)) sdiv 2)) (lit ''>> generating - press ESC to stop'') TEXT_DIM 1 0 s
      else obind (draw_text (fo_body fs) MARGIN (to_i32 (to_i32 (int H - INPUT_H) + (INPUT_H - fh (fo_body fs)) sdiv 2)) (lit ''USER:'') NEON_CYAN 1 0 s) (\<lambda>s.
        obind (draw_text (fo_body fs) (24 + 6 * b) (to_i32 (to_i32 (int H - INPUT_H) + (INPUT_H - fh (fo_body fs)) sdiv 2)) (sub inp start fin) TEXT_PRIMARY 1 0 s) (\<lambda>s.
        if \<not> cursor_on then Ok s
        else obind (fill_rect (24 + 6 * b + int (c - start) * b) (to_i32 (to_i32 (to_i32 (int H - INPUT_H) + (INPUT_H - fh (fo_body fs)) sdiv 2) + 2)) (b - 2) (to_i32 (fh (fo_body fs) - 4)) NEON_CYAN s) (\<lambda>s.
          if c < length inp then obind (slice inp c (c + 1)) (\<lambda>under. draw_text (fo_body fs) (24 + 6 * b + int (c - start) * b)
            (to_i32 (to_i32 (int H - INPUT_H) + (INPUT_H - fh (fo_body fs)) sdiv 2)) under BG_DEEP 1 0 s) else Ok s)))) = (Ok r :: ('e, _) outcome) \<and> sized W H r"
    proof (cases generating)
      case True
      then show ?thesis using safe_do [OF dt s] by simp
    next
      case False
      show ?thesis
        unfolding if_not_P [OF False]
        by (rule safe_bind [OF dt s], erule safe_bind [OF dt], cases cursor_on) (simp_all, erule safe_bind [OF cursor], rule last, assumption)
    qed
  qed
qed

lemma idiv_Ok: "b \<noteq> 0 \<Longrightarrow> idiv a b = Ok (to_i32 (a sdiv b))"
  by (simp add: idiv_def)

lemma scroll_window_ok:
  "scroll_window n m scroll = (k, start, fin) \<Longrightarrow> k \<le> scroll \<and> k \<le> n - m \<and> start \<le> fin \<and> fin \<le> n \<and> fin - start \<le> m \<and> fin = n - k"
  by (auto simp: scroll_window_def Let_def min_def split: if_splits)

lemma safe_history_note:
  assumes d: "display_ok fs a W H"
  shows "safe W H (history_note fs y_top k :: 'e pic)"
  unfolding safe_def
proof (intro allI impI)
  fix s
  assume s: "sized W H s"
  note F = display_facts [OF d]
  obtain n where n: "fmt_u32 (of_nat k) = (Ok n :: ('e, _) outcome)" "length n \<le> 10" using fmt_u32_Ok by blast
  define label where "label = lit ''^ history  '' @ n @ lit '' lines below - DOWN for newest''"
  define tw where "tw = text_width (fo_small fs) label 1 0"
  have len: "0 < length label" "length label \<le> 64" using n(2) by (simp_all add: label_def lit_def)
  have sw: "pf_width (fo_small fs) \<le> 64" using d by (simp add: display_ok_def)
  have "length label * pf_width (fo_small fs) \<le> 64 * 64" using len(2) sw by (intro mult_le_mono)
  then have prod: "int (length label) * int (pf_width (fo_small fs)) \<le> 4096" by (metis of_nat_le_iff of_nat_mult mult_numeral_1 numeral_times_numeral of_nat_numeral semiring_norm(12,13))
  have tw: "0 \<le> tw" "tw \<le> 4096"
  proof -
    define p where "p = int (length label) * int (pf_width (fo_small fs))"
    have p: "0 \<le> p" "p \<le> 4096" using prod by (simp_all add: p_def)
    have "tw = to_i32 p" using len sw by (simp add: tw_def text_width_def Let_def to_i32_id p_def)
    then show "0 \<le> tw" "tw \<le> 4096" using p by (simp_all add: to_i32_id)
  qed
  have W: "int W < 2 ^ 20" "sw s = int W" using F(1,9) s by (simp_all add: sized_def)
  have x: "to_i32 (int W - MARGIN - tw - 12) = int W - 36 - tw" "to_i32 (int W - 36 - tw - 8) = int W - 44 - tw" "to_i32 (tw + 16) = tw + 16"
    using tw W by (simp_all add: MARGIN_def to_i32_id)
  have rect: "safe W H (fill_rect (int W - 44 - tw) y (tw + 16) h c :: 'e pic)" for y h c using tw W by (intro safe_rect) simp_all
  have "safe W H (draw_seq [fill_rect (int W - 44 - tw) y_top (tw + 16) (to_i32 (fh (fo_small fs) + 8)) BG_PANEL,
        fill_rect (int W - 44 - tw) y_top (tw + 16) 1 BORDER,
        fill_rect (int W - 44 - tw) (to_i32 (y_top + fh (fo_small fs) + 7)) (tw + 16) 1 BORDER,
        draw_text (fo_small fs) (int W - 36 - tw) (y_top + 4) label NEON_CYAN 1 0] :: 'e pic)"
    using rect F(8) by (intro safe_seq) (simp add: safe_draw_text)
  from safe_do [OF this s] show "\<exists>s'. history_note fs y_top k s = (Ok s' :: ('e, _) outcome) \<and> sized W H s'"
    unfolding history_note_def Let_def n(1) obind.simps label_def [symmetric] tw_def [symmetric] W(2) x .
qed

lemma le_width_nonzero: "2 \<le> n \<Longrightarrow> int n \<noteq> 0"
  by simp

lemma scrollback_Ok:
  assumes d: "display_ok fs a W H" and s: "sized W H s"
  shows "\<exists>r. scrollback fs ts generating cursor_on scroll a (content_column a) s = (Ok r :: ('e, _) outcome) \<and> sized W H (fst r) \<and> snd r \<le> scroll"
proof -
  note F = display_facts [OF d]
  let ?f = "fo_body fs"
  have b: "2 \<le> int (pf_width ?f)" "int (pf_width ?f) \<le> 64" using F(10,11) by simp_all
  have fit: "24 + int (content_column a) * int (pf_width ?f) \<le> int W"
  proof -
    have "24 + content_column a * pf_width ?f \<le> W" using d by (simp add: display_ok_def)
    then show ?thesis by (metis of_nat_add of_nat_le_iff of_nat_mult of_nat_numeral)
  qed
  have cc: "int (content_column a) < 2 ^ 20"
    using d by (simp add: display_ok_def content_column_def)
  have nn: "0 \<le> int (content_column a) * int (pf_width ?f)" by simp
  have bx: "to_i32 (MARGIN + to_i32 (to_i32 (int (content_column a)) * int (pf_width ?f))) = 24 + int (content_column a) * int (pf_width ?f)"
  proof -
    define p where "p = int (content_column a) * int (pf_width ?f)"
    have p: "0 \<le> p" "24 + p \<le> int W" using fit nn by (simp_all add: p_def)
    have "to_i32 (int (content_column a)) = int (content_column a)" using cc by (intro to_i32_id) simp_all
    moreover have "to_i32 p = p" "to_i32 (24 + p) = 24 + p" using p F(9) by (simp_all add: to_i32_id)
    ultimately show ?thesis by (simp add: MARGIN_def p_def)
  qed
  have wh: "sw s = int W" using s F(1) by (simp add: sized_def)
  have lh: "to_i32 (int (pf_height ?f) + 2) \<noteq> 0" using d by (simp add: display_ok_def to_i32_id)
  define cols where "cols = nat (max (to_i32 (to_i32 (int W - 2 * MARGIN) sdiv int (pf_width ?f))) 10)"
  define ls where "ls = all_lines a cols (max (cols - content_column a) 8) ts"
  obtain k start fin where sc: "scroll_window (length ls)
      (nat (max (to_i32 (to_i32 (to_i32 (sh s - INPUT_H - 10) - (STATUS_H + 10)) sdiv to_i32 (int (pf_height ?f) + 2))) 1)) scroll = (k, start, fin)"
    by (metis prod_cases3)
  note w = scroll_window_ok [OF sc]
  have shown: "slice ls start fin = (Ok (sub ls start fin) :: ('e, _) outcome)" using w by simp
  have line: "safe W H (draw_turn_line ?f x y l :: 'e pic)" for x y l
    unfolding draw_turn_line_def using F(7) by (intro safe_seq) (simp add: safe_draw_text safe_nothing)
  have lines: "safe W H (draw_each (\<lambda>(i, l). draw_turn_line ?f x (g i) l) is :: 'e pic)" for x g "is"
    by (rule safe_each) (auto simp: line split: prod.split)
  have b2: "to_i32 (int (pf_width ?f) - 2) = int (pf_width ?f) - 2" using b by (simp add: to_i32_id)
  have cursor: "safe W H (if c then fill_rect (24 + int (content_column a) * int (pf_width ?f)) y (int (pf_width ?f) - 2) h NEON_PINK else nothing :: 'e pic)" for c y h
    using fit nn b F(9) by (cases c) (simp_all add: safe_nothing, intro safe_rect, simp_all)
  have note': "safe W H (if 0 < k then history_note fs (STATUS_H + 10) k else nothing :: 'e pic)" by (simp add: safe_nothing safe_history_note [OF d])
  show ?thesis
    unfolding scrollback_def Let_def wh F(3,4) idiv_Ok [OF lh] bx b2
    unfolding idiv_Ok [of "int (pf_width ?f)", OF F(10) [THEN le_width_nonzero]] obind.simps cols_def [symmetric] ls_def [symmetric] sc prod.case shown
    by (rule safe_bind [OF lines s], rule safe_bind [OF cursor], assumption, rule safe_bind [OF note'], assumption) (simp add: w)
qed

lemma chat_draw_Ok:
  assumes "display_ok fs (sx_assistant st) W H" and "sized W H s"
  shows "\<exists>s' k. chat_draw fs ts inp caret cursor_on st scroll s = (Ok (s', k) :: (unit, _) outcome) \<and> sized W H s' \<and> k \<le> scroll"
proof -
  have "\<exists>r. chat_draw fs ts inp caret cursor_on st scroll s = (Ok r :: (unit, _) outcome) \<and> sized W H (fst r) \<and> snd r \<le> scroll"
    unfolding chat_draw_def
  proof (rule safe_bind [OF safe_clear assms(2)], rule safe_bind [OF safe_status_bar [OF assms(1)]], assumption,
      rule safe_bind [OF safe_input_bar [OF assms(1)]], assumption)
    fix s
    assume "sized W H s"
    then have "\<exists>r. scrollback fs ts (sx_generating st) cursor_on scroll (sx_assistant st) (content_column (sx_assistant st)) s = (Ok r :: (unit, _) outcome)
        \<and> sized W H (fst r) \<and> snd r \<le> scroll" by (rule scrollback_Ok [OF assms(1)])
    then obtain s1 k where
      1: "scrollback fs ts (sx_generating st) cursor_on scroll (sx_assistant st) (content_column (sx_assistant st)) s = (Ok (s1, k) :: (unit, _) outcome)"
        "sized W H s1" "k \<le> scroll" by (metis prod.collapse)
    show "\<exists>r. obind (scrollback fs ts (sx_generating st) cursor_on scroll (sx_assistant st) (content_column (sx_assistant st)) s)
        (\<lambda>(s, scroll). obind (scanlines 26 s) (\<lambda>s. Ok (s, scroll))) = (Ok r :: (unit, _) outcome) \<and> sized W H (fst r) \<and> snd r \<le> scroll"
      unfolding 1(1) obind.simps prod.case by (rule safe_bind [OF safe_scanlines 1(2)]) (simp add: 1(3))
  qed
  then show ?thesis by (metis prod.collapse)
qed

text \<open>C32: Drawing the chat screen is total: on every display with room for the label column, for every transcript, input line,
  caret (beyond the end too), statistics and scroll state, it never panics, keeps the surface's size, and returns a
  scroll state no larger than the one given, so repeated redraws cannot run away.\<close>

theorem chat_draw_total:
  assumes "display_ok fs (sx_assistant st) W H" and "sized W H s"
  shows "\<exists>s' k. chat_draw fs ts inp caret cursor_on st scroll s = (Ok (s', k) :: (unit, _) outcome) \<and> sized W H s' \<and> k \<le> scroll"
  by (rule chat_draw_Ok [OF assms])

definition demo_stats :: stats where
  "demo_stats = \<lparr>sx_model = lit ''demo'', sx_assistant = lit ''llama'', sx_mem_used = 1, sx_mem_total = 2, sx_tok_s_milli = 12345, sx_pp_milli = 0,
     sx_ftl_ms = 900, sx_ctx_used = 3, sx_ctx_max = 4096, sx_cores = 4, sx_generating = False\<rparr>"

lemma demo_display: "\<exists>fs. display_ok fs (lit ''llama'') 640 480"
proof -
  obtain f where "pf_width f = 8" "pf_height f = 1" "font_ok f" using demo_psf_parse by blast
  then have "display_ok \<lparr>fo_small = f, fo_body = f, fo_head = f, fo_big = f\<rparr> (lit ''llama'') 640 480"
    by (simp add: display_ok_def content_column_def lit_def)
  then show ?thesis by blast
qed

lemma chat_draw_total_witness:
  "\<exists>fs s' k. chat_draw fs [\<lparr>tn_role = User, tn_text = lit ''hi''\<rparr>] (lit ''abc'') 99 True demo_stats 7 (surface_new 640 480) = (Ok (s', k) :: (unit, _) outcome)
    \<and> sized 640 480 s' \<and> k \<le> 7"
proof -
  obtain fs where "display_ok fs (sx_assistant demo_stats) 640 480" using demo_display by (auto simp: demo_stats_def)
  from chat_draw_total [OF this sized_new] show ?thesis by blast
qed

end
