(* ===== verification/Nr_Screens.thy ===== *)
theory Nr_Screens
  imports Nr_Chat
begin

text \<open>
  The boot screens of \<^verbatim>\<open>crates/nr-ui/src\<close>: the sunset backdrop (\<open>backdrop.rs\<close>), the splash (\<open>splash.rs\<close>) and the loading
  screen (\<open>loading.rs\<close>). The code computes coordinates in \<open>i32\<close>; on displays of less than \<open>2 ^ 17\<close> pixels a side, the
  bound in the property, and with the fonts' cells of at most 64 pixels no intermediate value wraps, and the arithmetic here is that of the integers with truncating
  division. The primitives wrap as the code does.
\<close>

subsection \<open>Backdrop\<close>

definition xorshift32 :: "u32 \<Rightarrow> u32" where
  "xorshift32 x = (let x = x XOR push_bit 13 x; x = x XOR drop_bit 17 x in x XOR push_bit 5 x)"

text \<open>One star: the generator's next state, and the picture.\<close>

definition star_at :: "int \<Rightarrow> int \<Rightarrow> u32 \<Rightarrow> bool \<Rightarrow> 'e pic" where
  "star_at x y b big = draw_seq ([surface_blend x y 0xdcd6ff b] @
     (if big then [surface_blend (x + 1) y 0xdcd6ff (b div 3), surface_blend (x - 1) y 0xdcd6ff (b div 3),
        surface_blend x (y + 1) 0xdcd6ff (b div 3), surface_blend x (y - 1) 0xdcd6ff (b div 3)] else []))"

definition star :: "u32 \<Rightarrow> u32 \<Rightarrow> u32 \<times> surface \<Rightarrow> ('e, u32 \<times> surface) outcome" where
  "star w sky = (\<lambda>(r, s).
     let r1 = xorshift32 r; r2 = xorshift32 r1; r3 = xorshift32 r2; r4 = xorshift32 r3 in
     if w = 0 \<or> sky = 0 then Panic
     else obind (star_at (uint (r1 mod w)) (uint (r2 mod sky)) (90 + r3 mod 130) (r4 mod 7 = 0) s) (\<lambda>s. Ok (r4, s)))"

definition stars :: "int \<Rightarrow> 'e pic" where
  "stars horizon s = obind (ofold (\<lambda>rs _. star (of_nat (sf_width s)) (of_int horizon * 3 div 4) rs) (0x9e3779b9, s) [0..<sf_width s div 6])
     (\<lambda>rs. Ok (snd rs))"

text \<open>Integer square root by Newton's iteration, on \<open>u32\<close> values.\<close>

function isqrt_loop :: "nat \<Rightarrow> nat \<Rightarrow> nat \<Rightarrow> ('e, nat) outcome" where
  "isqrt_loop v x y = (if y < x then (if y = 0 then Panic else isqrt_loop v y ((y + v div y) mod 2 ^ 32 div 2)) else Ok x)"
  by auto
termination by (relation "measure (\<lambda>(v, x, y). x)") auto

declare isqrt_loop.simps [simp del]

definition isqrt :: "nat \<Rightarrow> ('e, nat) outcome" where
  "isqrt v = obind (isqrt_loop v v ((v + 1) div 2)) (\<lambda>x. Ok (if v = 0 then 0 else x))"

definition SEGS :: "(int \<times> bool) list" where
  "SEGS = [(25, True), (40, False), (45, True), (55, False), (52, True), (75, False), (62, True)]"

text \<open>Whether row \<open>d\<close> above the horizon is in a gap.\<close>

fun in_gap :: "int \<Rightarrow> int \<Rightarrow> int \<Rightarrow> (int \<times> bool) list \<Rightarrow> bool" where
  "in_gap r d acc [] = False"
| "in_gap r d acc ((perm, gap) # segs) = (let acc = acc + max (perm * r sdiv 1000) 2 in if d \<le> acc then gap else in_gap r d acc segs)"

definition sun_row :: "int \<Rightarrow> int \<Rightarrow> int \<Rightarrow> int \<Rightarrow> 'e pic" where
  "sun_row cx horizon r y s =
     (let cy = horizon - r * 15 sdiv 100; y_top = cy - r; dy = y - cy; span2 = r * r - dy * dy in
      if span2 \<le> 0 then Ok s
      else obind (isqrt (nat span2)) (\<lambda>h. let half = int h in
        if in_gap r (horizon - y) 0 SEGS then Ok s
        else let c = gradient SUN_STOPS (of_int ((y - y_top) * 1000 sdiv max (2 * r) 1)) in
          draw_seq [fill_rect (cx - half) y (2 * half) 1 c,
            draw_each (\<lambda>g. let a = of_int (max (36 - g * 3) 4) in
              draw_seq [surface_blend (cx - half - g) y c a, surface_blend (cx + half + g - 1) y c a]) [1..12]] s))"

definition sun :: "int \<Rightarrow> int \<Rightarrow> int \<Rightarrow> 'e pic" where
  "sun cx horizon r = draw_each (sun_row cx horizon r) [horizon - r * 15 sdiv 100 - r..horizon - 1]"

definition grid :: "int \<Rightarrow> 'e pic" where
  "grid horizon s =
     (let w = int (sf_width s); h = int (sf_height s); depth = h - horizon; vp_x = w sdiv 2 in
      draw_seq [
        draw_each (\<lambda>i. let y = horizon + depth * (i * i) sdiv (11 * 11); a = 60 + of_int i * 12 in
          draw_seq [draw_line 0 y w y NEON_MAGENTA (min a 180), blend_rect 0 (y + 1) w 1 NEON_MAGENTA (min a 180 div 4)]) [1..11],
        draw_each (\<lambda>i. draw_line vp_x horizon (- w + (3 * w) * i sdiv 17) h NEON_MAGENTA 120) [0..17]] s)"

definition backdrop :: "u32 \<Rightarrow> 'e pic" where
  "backdrop pm s =
     (let w = int (sf_width s); h = int (sf_height s); horizon = uint (of_int h * pm div 1000) in
      draw_seq [vertical_gradient 0 0 w horizon SKY_STOPS, vertical_gradient 0 horizon w (h - horizon) GROUND_STOPS,
        stars horizon, sun (w sdiv 2) horizon (h * 18 sdiv 100), grid horizon,
        draw_each (\<lambda>dy. blend_rect 0 (horizon + dy) w 1 NEON_MAGENTA (if dy = 0 then 200 else 60 div of_int \<bar>dy\<bar>)) [- 2..2]] s)"

subsection \<open>Splash\<close>

definition LOGO :: chars where "LOGO = lit ''NIGHTRUN''"
definition TAGLINE :: chars where "TAGLINE = lit ''BARE-METAL LLM RUNTIME''"

definition logo_color :: "nat \<Rightarrow> nat \<Rightarrow> color" where
  "logo_color row rows = (let t = of_nat row * 1000 div of_nat rows; c = gradient LOGO_STOPS t in
     if 520 \<le> t \<and> t < 580 then color_scale c 120 else c)"

definition logo :: "fonts \<Rightarrow> 'e pic" where
  "logo fs s =
     (let w = int (sf_width s); h = int (sf_height s); scale = (if w \<ge> 1600 then 3 else 2); tracking = 6 * int scale; shear = 10 * int scale;
          font = fo_big fs; head = fo_head fs; tw = text_width font LOGO scale tracking; x = (w - tw) sdiv 2; y = h * 17 sdiv 100; drop = 3 * int scale;
          tag_tracking = int (pf_width head); tt = text_width head TAGLINE 1 tag_tracking; tx = (w - tt) sdiv 2;
          ty = y + int (pf_height font * scale) + h * 4 sdiv 100; rule_y = ty + int (pf_height head div 2); gap = 24 in
      draw_seq [
        text_glow font x y LOGO scale tracking shear NEON_MAGENTA (4 * int scale),
        text_fx font (x + drop) (y + drop) LOGO scale tracking shear (\<lambda>_ _. 0x14042a) 230,
        text_fx font x y LOGO scale tracking shear logo_color 255,
        text_glow head tx ty TAGLINE 1 tag_tracking 0 NEON_CYAN 2,
        draw_text head tx ty TAGLINE 0xccf9ff 1 tag_tracking,
        draw_line x rule_y (tx - gap) rule_y NEON_CYAN 110,
        draw_line (tx + tt + gap) rule_y (x + tw) rule_y NEON_CYAN 110] s)"

definition footer :: "fonts \<Rightarrow> chars \<Rightarrow> 'e pic" where
  "footer fs status s =
     (let w = int (sf_width s); h = int (sf_height s); tw = text_width (fo_small fs) status 1 1 in
      draw_text (fo_small fs) ((w - tw) sdiv 2) (h - 28) status TEXT_DIM 1 1 s)"

definition splash_draw :: "fonts \<Rightarrow> chars \<Rightarrow> 'e pic" where
  "splash_draw fs status = draw_seq [backdrop 660, logo fs, footer fs status, scanlines 36]"

subsection \<open>Loading\<close>

definition BAR_STOPS :: "(u32 \<times> color) list" where
  "BAR_STOPS = [(0, NEON_CYAN), (500, NEON_MAGENTA), (1000, NEON_ORANGE)]"

record load_state =
  lo_stages :: "chars list"
  lo_current :: nat
  lo_progress :: u32
  lo_detail :: chars
  lo_frame :: u32

definition panel :: "int \<Rightarrow> int \<Rightarrow> int \<Rightarrow> int \<Rightarrow> 'e pic" where
  "panel x y w h = draw_seq [
     blend_rect x y w h 0x0b0420 216,
     fill_rect x y w 1 BORDER, fill_rect x (y + h - 1) w 1 BORDER, fill_rect x y 1 h BORDER, fill_rect (x + w - 1) y 1 h BORDER,
     draw_each (\<lambda>(cx, cy, dx, dy). draw_seq [
         fill_rect (if dx > 0 then cx else cx - 26 + 1) cy 26 (2 * max dy 0 + 1) NEON_CYAN,
         fill_rect cx (if dy > 0 then cy else cy - 26 + 1) (2 * max dx 0 + 1) 26 NEON_CYAN])
       [(x, y, 1, 1), (x + w - 1, y, - 1, 1), (x, y + h - 1, 1, - 1), (x + w - 1, y + h - 1, - 1, - 1)]]"

definition bar :: "int \<Rightarrow> int \<Rightarrow> int \<Rightarrow> int \<Rightarrow> u32 \<Rightarrow> u32 \<Rightarrow> 'e pic" where
  "bar x y w h pm frame =
     (let fill = uint (of_int w * pm div 1000) in draw_seq [
     fill_rect x y w h 0x1a0b33, fill_rect x y w 1 BORDER, fill_rect x (y + h - 1) w 1 BORDER,
     draw_each (\<lambda>col. let c = gradient BAR_STOPS (of_int col * 1000 div of_int (max w 1)); hl = (of_int col + frame * 6) mod 160 in
       fill_rect (x + col) (y + 2) 1 (h - 4) (if hl < 22 then lerp c 0xffffff 90 else c)) [0..fill - 1],
     if fill > 2 then draw_each (\<lambda>g. blend_rect (x + fill) (y + 2) g (h - 4) NEON_ORANGE (40 div of_int g)) [1..4] else nothing])"

definition format_pct :: "u32 \<Rightarrow> chars" where
  "format_pct pm = (let pct = unat (pm div 10) in
     (if 100 \<le> pct then [49, 48 + pct div 10 mod 10] else if 10 \<le> pct then [48 + pct div 10] else []) @ [48 + pct mod 10] @ lit ''%'')"

definition overall_pm :: "load_state \<Rightarrow> u32" where
  "overall_pm st = (let n = length (lo_stages st) in
     of_nat (min (min (min (min (lo_current st) n * 1000) (2 ^ 32 - 1) + unat (min (lo_progress st) 1000)) (2 ^ 32 - 1) div max n 1) 1000))"

definition stage_marker :: "nat \<Rightarrow> load_state \<Rightarrow> chars \<times> color \<times> color" where
  "stage_marker i st =
     (if i < lo_current st then (lit ''[ OK ]'', NEON_CYAN, TEXT_PRIMARY)
      else if i = lo_current st then
        (let dots = lo_frame st div 4 mod 4 in
         (if dots = 0 then lit ''[    ]'' else if dots = 1 then lit ''[ .  ]'' else if dots = 2 then lit ''[ .. ]'' else lit ''[ ...]'', NEON_MAGENTA, NEON_PINK))
      else (lit ''[    ]'', BORDER, TEXT_DIM))"

definition loading_draw :: "fonts \<Rightarrow> load_state \<Rightarrow> 'e pic" where
  "loading_draw fs st s =
     (let w = int (sf_width s); h = int (sf_height s); pw = w * 56 sdiv 100; ph = h * 52 sdiv 100; px = (w - pw) sdiv 2; py = h * 22 sdiv 100;
          title = lit ''NIGHTRUN // SYSTEM BOOT''; tw = text_width (fo_head fs) title 1 2; tx = px + (pw - tw) sdiv 2; body = fo_body fs;
          label_x = px + 36 + text_width body (lit ''[ OK ] '') 1 0; bx = px + 36; bw = pw - 72; by' = py + ph - 64; bh = 20;
          overall = overall_pm st; pct = format_pct overall in
      draw_seq [
        backdrop 660, panel px py pw ph,
        text_glow (fo_head fs) tx (py + 22) title 1 2 0 NEON_MAGENTA 2,
        draw_text (fo_head fs) tx (py + 22) title TEXT_PRIMARY 1 2,
        draw_line (px + 24) (py + 66) (px + pw - 24) (py + 66) BORDER 255,
        draw_each (\<lambda>(i, stage). let (marker, mcol, tcol) = stage_marker i st; y = py + 88 + int i * (int (pf_height body) + 10) in
          draw_seq [draw_text body (px + 36) y marker mcol 1 0, draw_text body label_x y stage tcol 1 0]) (enumerate 0 (lo_stages st)),
        bar bx by' bw bh overall (lo_frame st),
        draw_text body (bx + bw + 8 - text_width body pct 1 0) (by' - int (pf_height body) - 6) pct NEON_CYAN 1 0,
        draw_text (fo_small fs) bx (by' + bh + 12) (lo_detail st) TEXT_DIM 1 0,
        scanlines 36] s)"

subsection \<open>The integer square root\<close>

lemma newton_above:
  fixes s x v :: nat
  assumes "s * s \<le> v" and "0 < x"
  shows "s \<le> (x + v div x) div 2"
proof -
  have "(2 * s - x) * x \<le> s * s"
  proof (cases "x \<le> 2 * s")
    case True
    then have "int ((2 * s - x) * x) = (2 * int s - int x) * int x" by (simp add: of_nat_diff)
    also have "\<dots> \<le> int s * int s" using zero_le_square [of "int s - int x"] by (simp add: algebra_simps)
    finally show ?thesis by (metis of_nat_le_iff of_nat_mult)
  qed simp
  then have "2 * s - x \<le> v div x" using assms by (metis div_le_mono div_mult_self_is_m dual_order.trans)
  then show ?thesis by linarith
qed

lemma isqrt_loop_root:
  assumes "0 < x" and "x \<le> v" and "v < 2 ^ 31" and "y = (x + v div x) div 2" and "\<And>s. s * s \<le> v \<Longrightarrow> s \<le> x"
  shows "\<exists>r. isqrt_loop v x y = (Ok r :: ('e, _) outcome) \<and> r * r \<le> v \<and> v < (r + 1) * (r + 1)"
  using assms
proof (induction v x y rule: isqrt_loop.induct)
  case (1 v x y)
  have above: "s \<le> y" if "s * s \<le> v" for s using newton_above [OF that] 1 by simp
  show ?case
  proof (cases "y < x")
    case True
    have y: "0 < y" using above [of 1] 1 by simp
    have "v < 2147483648" using 1(4) by simp
    then have "y + v div y < 4294967296" using True 1(3) div_le_dividend [of v y] by linarith
    then have same: "(y + v div y) mod 2 ^ 32 div 2 = (y + v div y) div 2" by simp
    have "\<exists>r. isqrt_loop v y ((y + v div y) mod 2 ^ 32 div 2) = (Ok r :: ('e, _) outcome) \<and> r * r \<le> v \<and> v < (r + 1) * (r + 1)"
    proof (rule 1(1))
      show "y \<le> v" using True 1(3) by simp
    qed (use 1(4) True y above same in simp_all)
    then show ?thesis using True y by (subst isqrt_loop.simps) (simp only: if_True less_imp_neq [THEN not_sym] if_False simp_thms)
  next
    case False
    then have "x \<le> v div x" using 1 by linarith
    then have "x * x \<le> v" using 1 by (metis less_eq_div_iff_mult_less_eq)
    moreover have "\<not> (x + 1) * (x + 1) \<le> v" by (rule notI, drule 1(6)) simp
    ultimately show ?thesis using False by (subst isqrt_loop.simps) simp
  qed
qed

lemma isqrt_root:
  assumes "v < 2 ^ 31"
  shows "\<exists>r. isqrt v = (Ok r :: ('e, _) outcome) \<and> r * r \<le> v \<and> v < (r + 1) * (r + 1)"
proof (cases "v = 0")
  case True
  then show ?thesis by (simp add: isqrt_def isqrt_loop.simps)
next
  case False
  have "s \<le> v" if "s * s \<le> v" for s using that by (cases s) simp_all
  from isqrt_loop_root [OF _ order.refl assms(1) _ this, of "(v + 1) div 2", where 'e = 'e] False show ?thesis
    by (auto simp: isqrt_def add.commute)
qed

subsection \<open>The screens are safe\<close>

definition screen_ok :: "fonts \<Rightarrow> nat \<Rightarrow> nat \<Rightarrow> bool" where
  "screen_ok fs W H \<longleftrightarrow> 320 \<le> W \<and> W < 2 ^ 17 \<and> 200 \<le> H \<and> H < 2 ^ 17
     \<and> (\<forall>f \<in> {fo_small fs, fo_body fs, fo_head fs, fo_big fs}. font_ok f \<and> pf_width f \<le> 64 \<and> pf_height f \<le> 64)"

text \<open>A picture that looks at the size of the surface.\<close>

lemma safe_sized: "safe W H g \<Longrightarrow> (\<And>s. sized W H s \<Longrightarrow> f s = g s) \<Longrightarrow> safe W H f"
  by (simp add: safe_def)

lemma safe_star:
  assumes "w \<noteq> 0" and "sky \<noteq> 0" and "sized W H (snd rs)"
  shows "\<exists>rs'. star w sky rs = (Ok rs' :: ('e, _) outcome) \<and> sized W H (snd rs')"
proof -
  obtain r s where rs: "rs = (r, s)" by (cases rs)
  have "safe W H (star_at x y b big :: 'e pic)" for x y b big
    unfolding star_at_def by (cases big) (simp_all add: safe_seq safe_blend)
  from safe_do [OF this, of s] assms(3) have "\<exists>s'. star_at x y b big s = (Ok s' :: ('e, _) outcome) \<and> sized W H s'" for x y b big by (simp add: rs)
  from this [of "uint (xorshift32 r mod w)" "uint (xorshift32 (xorshift32 r) mod sky)" "90 + xorshift32 (xorshift32 (xorshift32 r)) mod 130"
      "xorshift32 (xorshift32 (xorshift32 (xorshift32 r))) mod 7 = 0"]
  show ?thesis using assms(1,2) by (auto simp: star_def Let_def rs)
qed

lemma u32_nonzero:
  assumes "0 < n" and "n < 2 ^ 32"
  shows "(of_nat n :: u32) \<noteq> 0"
proof
  assume "(of_nat n :: u32) = 0"
  then have "unat (of_nat n :: u32) = 0" by simp
  then show False using assms by (simp add: unat_of_nat)
qed

definition horizon_of :: "nat \<Rightarrow> int" where "horizon_of H = uint (of_nat H * (660 :: u32) div 1000)"

lemma horizon_bounds:
  assumes "200 \<le> H" and "H < 2 ^ 17"
  shows "horizon_of H = int H * 660 div 1000" "132 \<le> horizon_of H" "horizon_of H < int H"
proof -
  have "unat (of_nat H * (660 :: u32)) = H * 660" using assms by (simp add: unat_word_ariths unat_of_nat)
  then have "unat (of_nat H * (660 :: u32) div 1000) = H * 660 div 1000" by (simp add: unat_div_distrib)
  then have "horizon_of H = int (H * 660 div 1000)" by (simp only: horizon_of_def uint_nat)
  then show *: "horizon_of H = int H * 660 div 1000" by (simp add: of_nat_div)
  define z where "z = int H"
  have "200 \<le> z" using assms(1) by (simp add: z_def)
  moreover define q m where "q = z * 660 div 1000" and "m = z * 660 mod 1000"
  have "q * 1000 + m = z * 660" "0 \<le> m" "m < 1000" unfolding q_def m_def by (rule div_mult_mod_eq, simp_all)
  ultimately have "132 \<le> q \<and> q < z" by linarith
  then show "132 \<le> horizon_of H" "horizon_of H < int H" by (simp_all only: * z_def q_def)
qed

lemma safe_stars:
  assumes "320 \<le> W" "W < 2 ^ 17" and "200 \<le> H" and "H < 2 ^ 17"
  shows "safe W H (stars (horizon_of H) :: 'e pic)"
  unfolding safe_def
proof (intro allI impI)
  fix s
  assume s: "sized W H s"
  have w: "(of_nat W :: u32) \<noteq> 0" using assms by (intro u32_nonzero) auto
  note h = horizon_bounds [OF assms(3,4)]
  define k where "k = nat (horizon_of H)"
  have k: "horizon_of H = int k" "132 \<le> k" "k < 2 ^ 17" using h assms(4) by (simp_all add: k_def)
  then have "unat (of_nat k * 3 :: u32) = k * 3" by (simp add: unat_word_ariths unat_of_nat)
  then have "unat (of_int (horizon_of H) * 3 div 4 :: u32) = k * 3 div 4" by (simp add: k(1) unat_div_distrib)
  moreover have "k * 3 div 4 \<noteq> 0" using k(2) by simp
  ultimately have sky: "(of_int (horizon_of H) * 3 div 4 :: u32) \<noteq> 0" by (metis unsigned_0)
  have "\<exists>rs. ofold (\<lambda>rs _. star (of_nat W) (of_int (horizon_of H) * 3 div 4) rs) (0x9e3779b9, s) [0..<W div 6] = (Ok rs :: ('e, _) outcome) \<and> sized W H (snd rs)"
    by (rule ofold_inv) (use safe_star [OF w sky] s in auto)
  then show "\<exists>s'. stars (horizon_of H) s = (Ok s' :: ('e, _) outcome) \<and> sized W H s'"
    using s by (auto simp: stars_def sized_def)
qed

lemma safe_sun_row:
  assumes "0 \<le> r" and "r < 2 ^ 15" and "0 \<le> cx" and "cx \<le> int W" and "W < 2 ^ 17"
  shows "safe W H (sun_row cx horizon r y :: 'e pic)"
proof -
  define dy where "dy = y - (horizon - r * 15 sdiv 100)"
  define span2 where "span2 = r * r - dy * dy"
  have rr: "r * r < 2 ^ 30" using mult_strict_mono [of r "2 ^ 15" r "2 ^ 15"] assms(1,2) by simp
  have le: "span2 \<le> r * r" by (simp add: span2_def)
  show ?thesis
  proof (cases "span2 \<le> 0")
    case True
    then show ?thesis by (simp add: safe_def sun_row_def Let_def span2_def dy_def)
  next
    case False
    have "nat span2 < 2 ^ 31" using rr le by simp
    from isqrt_root [OF this] obtain k where k: "isqrt (nat span2) = (Ok k :: ('e, _) outcome)" "k * k \<le> nat span2" by blast
    have "int k * int k \<le> span2" using k(2) False by (metis linorder_not_le nat_0_iff of_nat_mult of_nat_le_iff int_nat_eq le_cases nat_le_iff)
    then have "int k \<le> r" using le assms(1) by (meson dual_order.trans linorder_not_le mult_strict_mono' of_nat_0_le_iff)
    then have kb: "int k < 2 ^ 15" using assms(2) by linarith
    have rect: "safe W H (fill_rect (cx - int k) y (2 * int k) 1 c :: 'e pic)" for c
      using kb assms(3-5) by (intro safe_rect) simp_all
    have glow: "safe W H (draw_each (\<lambda>g. let a = of_int (max (36 - g * 3) 4) in
        draw_seq [surface_blend (cx - int k - g) y c a, surface_blend (cx + int k + g - 1) y c a]) [1..12] :: 'e pic)" for c
      unfolding Let_def by (intro safe_each safe_seq) (simp add: safe_blend)
    have both: "safe W H (draw_seq [fill_rect (cx - int k) y (2 * int k) 1 c, draw_each (\<lambda>g. let a = of_int (max (36 - g * 3) 4) in
        draw_seq [surface_blend (cx - int k - g) y c a, surface_blend (cx + int k + g - 1) y c a]) [1..12]] :: 'e pic)" for c
      using rect glow by (intro safe_seq) simp
    show ?thesis
    proof (cases "in_gap r (horizon - y) 0 SEGS")
      case True
      then show ?thesis using k(1) False by (simp add: safe_def sun_row_def Let_def span2_def dy_def)
    next
      case F: False
      show ?thesis
        by (rule safe_sized [OF both]) (use k(1) False F in \<open>simp add: sun_row_def Let_def span2_def dy_def\<close>)
    qed
  qed
qed

lemma safe_grid: "safe W H (grid horizon :: 'e pic)"
proof -
  have "safe W H (draw_seq [
        draw_each (\<lambda>i. let y = horizon + depth * (i * i) sdiv (11 * 11); a = 60 + of_int i * 12 in
          draw_seq [draw_line 0 y w y NEON_MAGENTA (min a 180), blend_rect 0 (y + 1) w 1 NEON_MAGENTA (min a 180 div 4)]) [1..11],
        draw_each (\<lambda>i. draw_line vp_x horizon (- w + (3 * w) * i sdiv 17) h NEON_MAGENTA 120) [0..17]] :: 'e pic)" for depth w vp_x h
    unfolding Let_def by (intro safe_seq) (simp add: safe_each safe_seq safe_line safe_blend_rect)
  from this [of "int H - horizon" "int W" "int W sdiv 2" "int H"] show ?thesis
    by (rule safe_sized) (simp add: grid_def Let_def sized_def)
qed

lemma safe_backdrop:
  assumes "320 \<le> W" "W < 2 ^ 17" and "200 \<le> H" and "H < 2 ^ 17"
  shows "safe W H (backdrop 660 :: 'e pic)"
proof -
  note b = horizon_bounds [OF assms(3,4)]
  have W: "int W < 2 ^ 17" "int H < 2 ^ 17" using assms by simp_all
  have r: "0 \<le> int H * 18 sdiv 100" "int H * 18 sdiv 100 < 2 ^ 15" using W(2) by (simp_all add: sdiv_pos div_less_iff_less_mult)
  have cx: "0 \<le> int W sdiv 2" "int W sdiv 2 \<le> int W" by (simp_all add: sdiv_pos)
  have g: "safe W H (vertical_gradient 0 y (int W) n st :: 'e pic)" for y n st using W(1) by (intro safe_gradient) simp_all
  have su: "safe W H (sun (int W sdiv 2) (horizon_of H) (int H * 18 sdiv 100) :: 'e pic)"
    unfolding sun_def by (rule safe_each, rule safe_sun_row [OF r cx assms(2)])
  have gl: "safe W H (draw_each (\<lambda>dy. blend_rect 0 (horizon_of H + dy) (int W) 1 NEON_MAGENTA (if dy = 0 then 200 else 60 div of_int \<bar>dy\<bar>)) [- 2..2] :: 'e pic)"
    by (intro safe_each safe_blend_rect)
  have "safe W H (draw_seq [vertical_gradient 0 0 (int W) (horizon_of H) SKY_STOPS, vertical_gradient 0 (horizon_of H) (int W) (int H - horizon_of H) GROUND_STOPS,
        stars (horizon_of H), sun (int W sdiv 2) (horizon_of H) (int H * 18 sdiv 100), grid (horizon_of H),
        draw_each (\<lambda>dy. blend_rect 0 (horizon_of H + dy) (int W) 1 NEON_MAGENTA (if dy = 0 then 200 else 60 div of_int \<bar>dy\<bar>)) [- 2..2]] :: 'e pic)"
    by (rule safe_seq, simp only: list.pred_inject g su gl safe_stars [OF assms] safe_grid simp_thms)
  then show ?thesis by (rule safe_sized) (simp add: backdrop_def Let_def sized_def horizon_of_def)
qed

lemma screen_facts:
  assumes "screen_ok fs W H"
  shows "320 \<le> W" "W < 2 ^ 17" "200 \<le> H" "H < 2 ^ 17" "font_ok (fo_small fs)" "font_ok (fo_body fs)" "font_ok (fo_head fs)" "font_ok (fo_big fs)"
  using assms by (simp_all add: screen_ok_def)

lemma safe_logo:
  assumes "screen_ok fs W H"
  shows "safe W H (logo fs :: 'e pic)"
proof -
  note F = screen_facts [OF assms]
  have "safe W H (draw_seq [
        text_glow (fo_big fs) x y LOGO scale tracking shear NEON_MAGENTA g,
        text_fx (fo_big fs) x1 y1 LOGO scale tracking shear (\<lambda>_ _. 0x14042a) 230,
        text_fx (fo_big fs) x y LOGO scale tracking shear logo_color 255,
        text_glow (fo_head fs) tx ty TAGLINE 1 tag 0 NEON_CYAN 2,
        draw_text (fo_head fs) tx ty TAGLINE 0xccf9ff 1 tag,
        draw_line a b c d NEON_CYAN 110, draw_line a1 b1 c1 d1 NEON_CYAN 110] :: 'e pic)"
    if "0 < scale" for scale x y tracking shear g x1 y1 tx ty tag a b c d a1 b1 c1 d1
    using that F by (intro safe_seq) (simp add: safe_text_glow safe_text_fx safe_draw_text safe_line)
  note all = safe_sized [OF this]
  show ?thesis by (rule all) (auto simp: logo_def Let_def sized_def)
qed

lemma safe_footer:
  assumes "screen_ok fs W H"
  shows "safe W H (footer fs st :: 'e pic)"
proof -
  have "safe W H (draw_text (fo_small fs) x y st TEXT_DIM 1 1 :: 'e pic)" for x y
    using screen_facts(5) [OF assms] by (simp add: safe_draw_text)
  note all = safe_sized [OF this]
  show ?thesis by (rule all) (auto simp: footer_def Let_def sized_def)
qed

lemma overall_le: "overall_pm st \<le> 1000"
proof -
  have "unat (of_nat (min n 1000) :: u32) \<le> 1000" for n by (simp add: unat_of_nat min_def)
  then show ?thesis by (simp add: overall_pm_def Let_def word_le_nat_alt)
qed

lemma safe_panel:
  assumes "0 \<le> x" and "0 \<le> w" and "x + w \<le> int W" and "W < 2 ^ 17"
  shows "safe W H (panel x y w h :: 'e pic)"
proof -
  have W: "int W < 2 ^ 17" using assms(4) by simp
  have r: "safe W H (fill_rect x' y' w' h' c :: 'e pic)" if "- 100 \<le> x'" "x' \<le> int W" "0 \<le> w'" "w' \<le> int W + 100" for x' y' w' h' c
    using that W by (intro safe_rect) simp_all
  have two: "safe W H (draw_seq [fill_rect x1 y1 w1 h1 c, fill_rect x2 y2 w2 h2 c] :: 'e pic)"
    if "- 100 \<le> x1" "x1 \<le> int W" "0 \<le> w1" "w1 \<le> int W + 100" "- 100 \<le> x2" "x2 \<le> int W" "0 \<le> w2" "w2 \<le> int W + 100"
    for x1 y1 w1 h1 x2 y2 w2 h2 c
    using r that by (intro safe_seq) simp
  have corners: "safe W H (draw_each (\<lambda>(cx, cy, dx, dy). draw_seq [
         fill_rect (if dx > 0 then cx else cx - 26 + 1) cy 26 (2 * max dy 0 + 1) NEON_CYAN,
         fill_rect cx (if dy > 0 then cy else cy - 26 + 1) (2 * max dx 0 + 1) 26 NEON_CYAN])
       [(x, y, 1, 1), (x + w - 1, y, - 1, 1), (x, y + h - 1, 1, - 1), (x + w - 1, y + h - 1, - 1, - 1)] :: 'e pic)"
    by (rule safe_each) (use assms(1-3) in \<open>auto intro!: two\<close>)
  show ?thesis unfolding panel_def
    by (intro safe_seq) (use assms(1-3) in \<open>simp add: r safe_blend_rect corners\<close>)
qed

lemma bar_fill:
  assumes "0 \<le> w" and "w < 2 ^ 17" and "pm \<le> 1000"
  shows "uint (of_int w * pm div 1000 :: u32) \<le> w"
proof -
  define k where "k = nat w"
  have k: "w = int k" "k < 2 ^ 17" using assms by (simp_all add: k_def)
  have p: "unat pm \<le> 1000" using assms(3) by (simp add: word_le_nat_alt)
  have "k * unat pm \<le> k * 1000" using p by simp
  moreover have "k * 1000 < 2 ^ 32" using k(2) by simp
  ultimately have "k * unat pm < 2 ^ 32" by (rule le_less_trans)
  then have "unat (of_nat k * pm :: u32) = k * unat pm" using k(2) by (simp add: unat_word_ariths unat_of_nat)
  then have "unat (of_nat k * pm div 1000 :: u32) = k * unat pm div 1000" by (simp add: unat_div_distrib)
  moreover have "k * unat pm div 1000 \<le> k" using div_le_mono [OF \<open>k * unat pm \<le> k * 1000\<close>, of 1000] by simp
  ultimately show ?thesis by (simp add: k(1) uint_nat)
qed

lemma safe_bar:
  assumes "0 \<le> x" and "0 \<le> w" and "x + w \<le> int W" and "W < 2 ^ 17" and "pm \<le> 1000"
  shows "safe W H (bar x y w h pm fr :: 'e pic)"
proof -
  have W: "int W < 2 ^ 17" using assms(4) by simp
  have fill: "uint (of_int w * pm div 1000 :: u32) \<le> w" using assms W by (intro bar_fill) simp_all
  have r: "safe W H (fill_rect x' y' w' h' c :: 'e pic)" if "0 \<le> x'" "x' \<le> int W" "0 \<le> w'" "w' \<le> int W" for x' y' w' h' c
    using that W by (intro safe_rect) simp_all
  have col: "safe W H (draw_each (\<lambda>col. let c = gradient BAR_STOPS (of_int col * 1000 div of_int (max w 1)); hl = (of_int col + fr * 6) mod 160 in
       fill_rect (x + col) (y + 2) 1 (h - 4) (if hl < 22 then lerp c 0xffffff 90 else c)) [0..uint (of_int w * pm div 1000 :: u32) - 1] :: 'e pic)"
    unfolding Let_def by (rule safe_each, rule r) (use assms(1-3) fill in auto)
  have glow: "safe W H (if uint (of_int w * pm div 1000 :: u32) > 2 then draw_each (\<lambda>g. blend_rect (x + uint (of_int w * pm div 1000 :: u32)) (y + 2) g (h - 4) NEON_ORANGE (40 div of_int g)) [1..4] else nothing :: 'e pic)"
    by (intro safe_if safe_each safe_blend_rect safe_nothing)
  have a: "safe W H (fill_rect x y' w h' c :: 'e pic)" for y' h' c using assms(1-3) by (intro r) simp_all
  show ?thesis unfolding bar_def Let_def
    by (rule safe_seq, simp only: list.pred_inject a simp_thms, intro conjI, rule col [unfolded Let_def], rule glow)
qed

lemma safe_loading:
  assumes "screen_ok fs W H"
  shows "safe W H (loading_draw fs st :: 'e pic)"
proof -
  note F = screen_facts [OF assms]
  define pw where "pw = int W * 56 sdiv 100"
  define px where "px = (int W - pw) sdiv 2"
  have "int W \<le> int W * 56" by simp
  have pw: "100 \<le> pw" "pw \<le> int W" using F(1) by (simp_all add: pw_def sdiv_pos)
  have px: "0 \<le> px" "px + pw \<le> int W" using pw by (simp_all add: px_def sdiv_pos)
  have panel: "safe W H (panel px y pw h :: 'e pic)" for y h
    using px pw F(2) by (intro safe_panel) simp_all
  have bar: "safe W H (bar (px + 36) y (pw - 72) h (overall_pm st) fr :: 'e pic)" for y h fr
    using px pw F(2) overall_le by (intro safe_bar) simp_all
  have stages: "safe W H (draw_each (\<lambda>(i, stage). let (marker, mcol, tcol) = stage_marker i st; y = py + 88 + int i * (int (pf_height (fo_body fs)) + 10) in
          draw_seq [draw_text (fo_body fs) (px + 36) y marker mcol 1 0, draw_text (fo_body fs) lx y stage tcol 1 0]) xs :: 'e pic)" for py lx xs
    by (rule safe_each) (auto simp: Let_def safe_draw_text F(6) intro!: safe_seq split: prod.split)
  have "safe W H (draw_seq [backdrop 660, panel px py pw ph,
        text_glow (fo_head fs) tx y1 title 1 2 0 NEON_MAGENTA 2, draw_text (fo_head fs) tx y1 title TEXT_PRIMARY 1 2,
        draw_line x2 y2 x3 y3 BORDER 255,
        draw_each (\<lambda>(i, stage). let (marker, mcol, tcol) = stage_marker i st; y = py + 88 + int i * (int (pf_height (fo_body fs)) + 10) in
          draw_seq [draw_text (fo_body fs) (px + 36) y marker mcol 1 0, draw_text (fo_body fs) lx y stage tcol 1 0]) (enumerate 0 (lo_stages st)),
        bar (px + 36) y4 (pw - 72) 20 (overall_pm st) (lo_frame st),
        draw_text (fo_body fs) x5 y5 pct NEON_CYAN 1 0, draw_text (fo_small fs) (px + 36) y6 (lo_detail st) TEXT_DIM 1 0, scanlines 36] :: 'e pic)"
    for py ph tx y1 title x2 y2 x3 y3 lx y4 x5 y5 pct y6
    by (rule safe_seq, simp only: list.pred_inject simp_thms,
      intro conjI safe_backdrop [OF F(1-4)] panel bar stages safe_text_glow safe_draw_text safe_line safe_scanlines F zero_less_one)
  note all = safe_sized [OF this]
  have size: "int (sf_width s) = int W" "int (sf_height s) = int H" if "sized W H s" for s using that by (simp_all add: sized_def)
  show ?thesis by (rule all) (simp only: loading_draw_def Let_def size pw_def px_def)
qed

text \<open>C33: The boot screens cannot panic: on every display of at least 320 by 200 pixels, with the embedded fonts' sizes, the splash
  with any status line and the loading screen in any state (stage index beyond the list, progress beyond a thousand and
  an empty stage list included) are drawn to the end and keep the surface's size.\<close>

theorem boot_screens_total:
  assumes "screen_ok fs W H" and "sized W H s"
  shows "(\<exists>s'. splash_draw fs status s = (Ok s' :: (unit, _) outcome) \<and> sized W H s') \<and> (\<exists>s'. loading_draw fs st s = (Ok s' :: (unit, _) outcome) \<and> sized W H s')"
proof -
  have "safe W H (splash_draw fs status :: unit pic)" unfolding splash_draw_def
    by (rule safe_seq) (simp add: safe_backdrop [OF screen_facts(1-4) [OF assms(1)]] safe_logo [OF assms(1)] safe_footer [OF assms(1)] safe_scanlines)
  from safe_do [OF this assms(2)] safe_do [OF safe_loading [OF assms(1)] assms(2)] show ?thesis by (rule conjI)
qed

lemma demo_screen: "\<exists>fs. screen_ok fs 640 480"
proof -
  obtain f where "pf_width f = 8" "pf_height f = 1" "font_ok f" using demo_psf_parse by blast
  then have "screen_ok \<lparr>fo_small = f, fo_body = f, fo_head = f, fo_big = f\<rparr> 640 480" by (simp add: screen_ok_def)
  then show ?thesis by blast
qed

definition demo_load :: load_state where
  "demo_load = \<lparr>lo_stages = [lit ''Memory'', lit ''Model''], lo_current = 5, lo_progress = 2000, lo_detail = [], lo_frame = 7\<rparr>"

lemma boot_screens_total_witness:
  "\<exists>fs s'. loading_draw fs demo_load (surface_new 640 480) = (Ok s' :: (unit, _) outcome) \<and> sized 640 480 s'"
proof -
  obtain fs where "screen_ok fs 640 480" using demo_screen by blast
  from boot_screens_total [OF this sized_new] show ?thesis by blast
qed

end
