(* ===== verification/Nr_Reply.thy ===== *)
theory Nr_Reply
  imports Nr_Prefill Nr_Context Nr_Sample Nr_Token Nr_Chat
begin

text \<open>
  One turn of the conversation: \<open>generate\<close> of \<^verbatim>\<open>crates/nr-boot/src/app.rs\<close> with the chat redraw around it, and the
  keyboard poll of \<^verbatim>\<open>crates/nr-boot/src/input.rs\<close>. The firmware's keyboard and the tick counter are the record \<open>host\<close>:
  the result of the \<open>n\<close>-th key read and the \<open>n\<close>-th tick read. A session carries the platform, the back buffer, the
  writes of the last presentation, the transcript and the two read counters. The line written to the serial port is
  left out, the reads of the clock it needs are not. The theorem at the end is the end-to-end statement about the
  program: whatever the screen does meanwhile, the answer is the autoregressive sampling of the model on the chat
  template.
\<close>

subsection \<open>Keyboard and clock\<close>

datatype scan_code = ScanEscape | ScanUp | ScanDown | ScanLeft | ScanRight | ScanDelete | ScanPageUp | ScanPageDown | ScanOther
datatype key = Printable nat | Special scan_code

datatype input_event = EvChar nat | EvEnter | EvBackspace | EvEscape | EvUp | EvDown | EvLeft | EvRight | EvDelete | EvPageUp | EvPageDown

definition is_control_char :: "nat \<Rightarrow> bool" where
  "is_control_char c \<longleftrightarrow> c < 32 \<or> 127 \<le> c \<and> c < 160"

definition key_event :: "key \<Rightarrow> input_event option" where
  "key_event k = (case k of
       Printable c \<Rightarrow> if c = 13 then Some EvEnter else if c = 8 then Some EvBackspace else if \<not> is_control_char c then Some (EvChar c) else None
     | Special sc \<Rightarrow> (case sc of
           ScanEscape \<Rightarrow> Some EvEscape | ScanUp \<Rightarrow> Some EvUp | ScanDown \<Rightarrow> Some EvDown | ScanLeft \<Rightarrow> Some EvLeft | ScanRight \<Rightarrow> Some EvRight
         | ScanDelete \<Rightarrow> Some EvDelete | ScanPageUp \<Rightarrow> Some EvPageUp | ScanPageDown \<Rightarrow> Some EvPageDown | ScanOther \<Rightarrow> None))"

record host =
  ho_key :: "nat \<Rightarrow> key option"
  ho_tick :: "nat \<Rightarrow> u64"

subsection \<open>The session\<close>

definition CTX_LEN :: nat where "CTX_LEN = 4096"
definition MAX_GEN_TOKENS :: nat where "MAX_GEN_TOKENS = 768"
definition MAX_PROMPT_CHARS :: nat where "MAX_PROMPT_CHARS = 8192"

record platform =
  pl_stride :: nat
  pl_layout :: pixel_layout
  pl_fonts :: fonts
  pl_ticks_per_ms :: u64
  pl_arena :: arena
  pl_ram_mb :: u32
  pl_model :: model
  pl_tok :: tokenizer
  pl_name :: chars
  pl_infer :: infer
  pl_sampler :: sampler
  pl_cores :: u32
  pl_pp_milli :: u32
  pl_ftl_ms :: u32
  pl_assistant :: chars

record session =
  se_pl :: platform
  se_surf :: surface
  se_shown :: "(nat \<times> color) list"
  se_turns :: "turn list"
  se_started :: bool
  se_keys :: nat
  se_ticks :: nat

definition poll :: "host \<Rightarrow> session \<Rightarrow> input_event option \<times> session" where
  "poll H s = (Option.bind (ho_key H (se_keys s)) key_event, s\<lparr>se_keys := se_keys s + 1\<rparr>)"

definition clock_now :: "host \<Rightarrow> session \<Rightarrow> u64 \<times> session" where
  "clock_now H s = (ho_tick H (se_ticks s), s\<lparr>se_ticks := se_ticks s + 1\<rparr>)"

definition say :: "role \<Rightarrow> chars \<Rightarrow> session \<Rightarrow> session" where
  "say r t s = s\<lparr>se_turns := se_turns s @ [\<lparr>tn_role = r, tn_text = t\<rparr>]\<rparr>"

definition set_infer :: "infer \<Rightarrow> session \<Rightarrow> session" where
  "set_infer i s = s\<lparr>se_pl := (se_pl s)\<lparr>pl_infer := i\<rparr>\<rparr>"

definition set_sampler :: "sampler \<Rightarrow> session \<Rightarrow> session" where
  "set_sampler m s = s\<lparr>se_pl := (se_pl s)\<lparr>pl_sampler := m\<rparr>\<rparr>"

definition draw_chat :: "chars \<Rightarrow> nat \<Rightarrow> u32 \<Rightarrow> u32 \<Rightarrow> bool \<Rightarrow> nat \<Rightarrow> session \<Rightarrow> (unit, session \<times> nat) outcome" where
  "draw_chat inp caret fr rate generating scroll s =
     (let p = se_pl s;
          st = \<lparr>sx_model = pl_name p, sx_assistant = pl_assistant p,
            sx_mem_used = of_nat ((total_size (pl_model p) + arena_used (pl_arena p)) div (1024 * 1024)), sx_mem_total = pl_ram_mb p,
            sx_tok_s_milli = rate, sx_pp_milli = pl_pp_milli p, sx_ftl_ms = pl_ftl_ms p, sx_ctx_used = of_nat (i_pos (pl_infer p)),
            sx_ctx_max = of_nat (dm_ctx (c_dims (i_cfg (pl_infer p)))), sx_cores = pl_cores p, sx_generating = generating\<rparr>;
          cursor_on = (if generating then fr mod 2 = 0 else fr div 16 mod 2 = 0) in
      obind (chat_draw (pl_fonts p) (se_turns s) inp caret cursor_on st scroll (se_surf s)) (\<lambda>(surf, scroll).
      obind (surface_present surf (pl_stride p) (pl_layout p)) (\<lambda>ws.
      Ok (s\<lparr>se_surf := surf, se_shown := ws\<rparr>, scroll))))"

subsection \<open>Text from bytes\<close>

text \<open>The code points of the bytes of a string, by the length of each character.\<close>

definition code_point :: "nat list \<Rightarrow> nat" where
  "code_point bs = (case bs of
       [a] \<Rightarrow> a
     | [a, b] \<Rightarrow> a mod 32 * 64 + b mod 64
     | [a, b, c] \<Rightarrow> a mod 16 * 4096 + b mod 64 * 64 + c mod 64
     | [a, b, c, d] \<Rightarrow> a mod 8 * 262144 + b mod 64 * 4096 + c mod 64 * 64 + d mod 64
     | _ \<Rightarrow> 0)"

function chars_of :: "bytes \<Rightarrow> chars" where
  "chars_of [] = []"
| "chars_of (a # bs) = (case utf8_next a bs of
       StepChar k \<Rightarrow> code_point (map unat (a # take (k - 1) bs)) # chars_of (drop (k - 1) bs)
     | _ \<Rightarrow> [])"
  by pat_completeness auto
termination by (relation "measure length") auto

lemma mod_tags: "(0x80 + x mod 64) mod 64 = x mod (64 :: nat)" "q < 32 \<Longrightarrow> (0xC0 + q) mod 32 = (q :: nat)"
    "q < 16 \<Longrightarrow> (0xE0 + q) mod 16 = (q :: nat)" "q < 8 \<Longrightarrow> (0xF0 + q) mod 8 = (q :: nat)"
  using mod_mult_self4 [of 64 2 "x mod 64"] mod_mult_self4 [of 32 6 q] mod_mult_self4 [of 16 14 q] mod_mult_self4 [of 8 30 q] by simp_all

lemma code_point_utf8:
  assumes "scalar c"
  shows "code_point (map unat (utf8_char c)) = c"
proof -
  consider "c < 0x80" | "0x80 \<le> c" "c < 0x800" | "0x800 \<le> c" "c < 0x10000" | "0x10000 \<le> c" "c < 0x110000"
    using assms unfolding scalar_def by linarith
  then show ?thesis
  proof cases
    case 1
    then show ?thesis by (simp add: utf8_char_def code_point_def unat_byte_of_nat)
  next
    case 2
    then have q: "c div 64 < 32" by linarith
    then have u: "unat (of_nat (0xC0 + c div 64) :: byte) = 0xC0 + c div 64" by (intro unat_byte_of_nat) linarith
    have "c div 64 * 64 + c mod 64 = c" by simp
    then show ?thesis using 2 by (simp add: utf8_char_def code_point_def u mod_tags(1) mod_tags(2) [OF q] del: of_nat_add)
  next
    case 3
    then have q: "c div 4096 < 16" by linarith
    then have u: "unat (of_nat (0xE0 + c div 4096) :: byte) = 0xE0 + c div 4096" by (intro unat_byte_of_nat) linarith
    define d where "d = c div 64"
    have d: "c div 4096 = d div 64" by (simp add: d_def div_mult2_eq [symmetric])
    have "d div 64 * 64 + d mod 64 = d" "d * 64 + c mod 64 = c" by (simp_all add: d_def)
    then have "c div 4096 * 4096 + c div 64 mod 64 * 64 + c mod 64 = c" unfolding d d_def [symmetric] by linarith
    then show ?thesis using 3 by (simp add: utf8_char_def code_point_def u mod_tags(1) mod_tags(3) [OF q] del: of_nat_add)
  next
    case 4
    then have q: "c div 262144 < 8" by linarith
    then have u: "unat (of_nat (0xF0 + c div 262144) :: byte) = 0xF0 + c div 262144" by (intro unat_byte_of_nat) linarith
    define d where "d = c div 64"
    have d: "c div 262144 = d div 64 div 64" "c div 4096 = d div 64" by (simp_all add: d_def div_mult2_eq [symmetric])
    have "d div 64 div 64 * 64 + d div 64 mod 64 = d div 64" "d div 64 * 64 + d mod 64 = d" "d * 64 + c mod 64 = c" by (simp_all add: d_def)
    then have "c div 262144 * 262144 + c div 4096 mod 64 * 4096 + c div 64 mod 64 * 64 + c mod 64 = c" unfolding d d_def [symmetric] by linarith
    then show ?thesis using 4 by (simp add: utf8_char_def code_point_def u mod_tags(1) mod_tags(4) [OF q] del: of_nat_add)
  qed
qed

lemma chars_of_utf8: "\<forall>c \<in> set s. scalar c \<Longrightarrow> chars_of (utf8 s) = s"
proof (induction s)
  case (Cons c s)
  obtain x xs where x: "utf8_char c = x # xs" "length xs = len_utf8 c - 1" by (rule utf8_char_cons)
  then show ?case using utf8_next_char(1) [of c "utf8 s"] Cons code_point_utf8 [of c] by simp
qed simp

subsection \<open>A turn\<close>

definition system_prompt :: "chars \<Rightarrow> chars \<Rightarrow> chars" where
  "system_prompt arch_name model_name =
     lit ''You are NightRun, a helpful assistant running '' @ model_name @ lit '' fully offline on bare-metal '' @ arch_name
       @ lit '' hardware - no operating system underneath. Be concise and friendly.''"

text \<open>The tokens of the turn: the conversation start the first time, the user's message, the assistant's header.\<close>

definition turn_ids :: "char_classes \<Rightarrow> tokenizer \<Rightarrow> chars \<Rightarrow> bool \<Rightarrow> chars \<Rightarrow> (unit, u32 list) outcome" where
  "turn_ids cls tk sys started prompt =
     obind (if \<not> started then encode_conversation_start cls tk (Some sys) [] else Ok []) (\<lambda>ids.
     obind (encode_message cls tk ROLE_USER prompt ids) (\<lambda>ids. encode_header cls tk ROLE_ASSISTANT ids))"

text \<open>Prefill in chunks of 16, a redraw and a look at the keyboard after each.\<close>

primrec gen_prefill :: "host \<Rightarrow> 'z machine_scheme \<Rightarrow> u32 list list \<Rightarrow> session \<Rightarrow> u32 \<Rightarrow> (unit, session \<times> u32) outcome" where
  "gen_prefill H M [] s fr = Ok (s, fr)"
| "gen_prefill H M (c # cs) s fr =
     obind (prefill_chunk M (pl_infer (se_pl s)) c) (\<lambda>i. let s = set_infer i s in
     obind (draw_chat [] 0 fr 0 True 0 s) (\<lambda>(s, _).
     let fr = fr + 1; (ev, s) = poll H s in
     if ev = Some EvEscape then Ok (s, fr) else gen_prefill H M cs s fr))"

record gen =
  gn_s :: session
  gn_next :: u32
  gn_pending :: bytes
  gn_out :: bytes
  gn_frame :: u32
  gn_rate :: u32
  gn_produced :: u64

text \<open>\<open>turns.last_mut().unwrap().text\<close>, the string whose bytes are \<open>out\<close>.\<close>

definition set_last_text :: "bytes \<Rightarrow> session \<Rightarrow> (unit, session) outcome" where
  "set_last_text out s = (if se_turns s = [] then Panic
     else Ok (s\<lparr>se_turns := butlast (se_turns s) @ [(last (se_turns s))\<lparr>tn_text := chars_of out\<rparr>]\<rparr>))"

text \<open>The first half of a decoding step: the token's bytes reach the screen, and the keyboard is read.\<close>

definition gen_show :: "host \<Rightarrow> u64 \<Rightarrow> gen \<Rightarrow> (unit, input_event option \<times> gen) outcome" where
  "gen_show H t0 g =
     (let p = se_pl (gn_s g) in
      obind (token_bytes (pl_tok p) (gn_next g)) (\<lambda>tb.
      obind (flush_utf8 (gn_pending g @ tb) (gn_out g)) (\<lambda>(pending, out).
      obind (set_last_text out (gn_s g)) (\<lambda>s.
      let produced = gn_produced g + 1; (t, s) = clock_now H s in
      obind (rate_milli (pl_ticks_per_ms p) produced (t - t0)) (\<lambda>rate.
      obind (draw_chat [] 0 (gn_frame g) rate True 0 s) (\<lambda>(s, _).
      let (ev, s) = poll H s in
      Ok (ev, g\<lparr>gn_s := s, gn_pending := pending, gn_out := out, gn_frame := gn_frame g + 1, gn_rate := rate, gn_produced := produced\<rparr>)))))))"

text \<open>The decoding loop; the first number is what is left of the token budget.\<close>

primrec gen_loop :: "host \<Rightarrow> 'z machine_scheme \<Rightarrow> (cand list \<Rightarrow> cand list) \<Rightarrow> u64 \<Rightarrow> nat \<Rightarrow> gen \<Rightarrow> (unit, gen) outcome" where
  "gen_loop H M srt t0 0 g = Ok g"
| "gen_loop H M srt t0 (Suc left) g =
     (if is_stop (pl_tok (se_pl (gn_s g))) (gn_next g) \<or> infer_remaining (pl_infer (se_pl (gn_s g))) = 0 then Ok g
      else obind (gen_show H t0 g) (\<lambda>(ev, g). if ev = Some EvEscape then Ok g
        else obind (forward M (pl_infer (se_pl (gn_s g))) (gn_next g)) (\<lambda>i.
          obind (sampler_sample M srt (pl_sampler (se_pl (gn_s g))) (i_logits i)) (\<lambda>(u, m).
          gen_loop H M srt t0 left (g\<lparr>gn_s := set_sampler m (set_infer i (gn_s g)), gn_next := u\<rparr>)))))"

definition make_room :: "session \<Rightarrow> session" where
  "make_room s = (if infer_remaining (pl_infer (se_pl s)) < MAX_GEN_TOKENS + 256
     then say System (lit ''context window full - conversation reset'') ((set_infer (infer_reset (pl_infer (se_pl s))) s)\<lparr>se_started := False\<rparr>)
     else s)"

text \<open>Close the turn with the end-of-turn token, and never leave it empty.\<close>

definition close_turn :: "host \<Rightarrow> 'z machine_scheme \<Rightarrow> u64 \<Rightarrow> gen \<Rightarrow> (unit, session \<times> u32) outcome" where
  "close_turn H M t0 g =
     (let s = gn_s g; p = se_pl s in
      obind (if is_stop (pl_tok p) (gn_next g) \<and> infer_remaining (pl_infer p) > 0
         then obind (forward M (pl_infer p) (sp_eot (tk_specials (pl_tok p)))) (\<lambda>i. Ok (set_infer i s)) else Ok s) (\<lambda>s.
      let (t, s) = clock_now H s in
      obind (ticks_to_ms (pl_ticks_per_ms p) (t - t0)) (\<lambda>_.
      Ok (if se_turns s \<noteq> [] \<and> tn_text (last (se_turns s)) = []
        then s\<lparr>se_turns := butlast (se_turns s) @ [(last (se_turns s))\<lparr>tn_text := lit ''(no output)''\<rparr>]\<rparr> else s, gn_rate g))))"

definition generate :: "host \<Rightarrow> 'z machine_scheme \<Rightarrow> char_classes \<Rightarrow> (cand list \<Rightarrow> cand list) \<Rightarrow> chars \<Rightarrow> chars \<Rightarrow> u32 \<Rightarrow> session
    \<Rightarrow> (unit, session \<times> u32) outcome" where
  "generate H M cls srt arch_name prompt fr s =
     (let s = make_room s; p = se_pl s in
      obind (turn_ids cls (pl_tok p) (system_prompt arch_name (pl_name p)) (se_started s) prompt) (\<lambda>ids.
      let s = say Llama [] (s\<lparr>se_started := True\<rparr>); (t0, s) = clock_now H s in
      obind (gen_prefill H M (chunks 16 ids) s fr) (\<lambda>(s, fr).
      let (t1, s) = clock_now H s in
      obind (ticks_to_ms (pl_ticks_per_ms p) (t1 - t0)) (\<lambda>ms.
      let s = s\<lparr>se_pl := (se_pl s)\<lparr>pl_pp_milli := ucast (of_nat (length ids) * 1000000 div max ms 1), pl_ftl_ms := ucast ms\<rparr>\<rparr>;
          (t0, s) = clock_now H s in
      obind (sampler_sample M srt (pl_sampler (se_pl s)) (i_logits (pl_infer (se_pl s)))) (\<lambda>(next_token, m).
      obind (gen_loop H M srt t0 MAX_GEN_TOKENS
        \<lparr>gn_s = set_sampler m s, gn_next = next_token, gn_pending = [], gn_out = [], gn_frame = fr, gn_rate = 0, gn_produced = 0\<rparr>) (\<lambda>g.
      close_turn H M t0 g))))))"

subsection \<open>The tokens of a turn\<close>

text \<open>A tokenizer whose tokens are all below \<open>n\<close>, the vocabulary of the model.\<close>

definition vocab_in :: "tokenizer \<Rightarrow> nat \<Rightarrow> bool" where
  "vocab_in tk n \<longleftrightarrow> (\<forall>b. unat (byte_id tk b) < n) \<and> (\<forall>a b res rank. merge_of tk a b = Some (res, rank) \<longrightarrow> unat res < n)
     \<and> (\<forall>t \<in> set (special_ids (tk_specials tk)). unat t < n)"

definition below :: "nat \<Rightarrow> u32 list \<Rightarrow> bool" where
  "below n ts \<longleftrightarrow> (\<forall>t \<in> set ts. unat t < n)"

lemma below_simps [simp]: "below n []" "below n (t # ts) \<longleftrightarrow> unat t < n \<and> below n ts" "below n (ts @ us) \<longleftrightarrow> below n ts \<and> below n us"
  by (auto simp: below_def)

lemma below_steps:
  "(bpe_step tk)\<^sup>*\<^sup>* ids ids' \<Longrightarrow> vocab_in tk n \<Longrightarrow> below n ids \<Longrightarrow> below n ids' \<and> length ids' \<le> length ids"
proof (induction rule: rtranclp_induct)
  case (step ids1 ids2)
  from step.hyps(2) obtain i res rank where eq: "ids2 = take i ids1 @ res # drop (i + 2) ids1" and i: "i + 1 < length ids1"
    and p: "pair_at tk ids1 i = Some (res, rank)"
    by cases
  have "unat res < n" using step.prems(1) p unfolding vocab_in_def pair_at_def by blast
  moreover have "set ids2 \<subseteq> insert res (set ids1)"
    using set_take_subset [of i ids1] set_drop_subset [of "i + 2" ids1] by (auto simp: eq)
  ultimately show ?case using step.IH step.prems i by (auto simp: below_def eq)
qed simp

lemma encode_chunks_below:
  assumes "tok_ok tk" and "vocab_in tk n"
  shows "\<exists>ids. (\<forall>out. (encode_chunks tk cs out :: ('e, u32 list) outcome) = Ok (out @ ids)) \<and> below n ids \<and> length ids \<le> str_len (concat cs)"
proof (induction cs)
  case (Cons c cs)
  obtain ids where ids: "\<forall>out. (encode_chunk tk (utf8 c) out :: ('e, u32 list) outcome) = Ok (out @ ids)"
      "(bpe_step tk)\<^sup>*\<^sup>* (map (byte_id tk) (utf8 c)) ids"
    using encode_chunk_bpe [OF assms(1)] by blast
  from Cons obtain ids' where ids': "\<forall>out. (encode_chunks tk cs out :: ('e, u32 list) outcome) = Ok (out @ ids')"
      "below n ids'" "length ids' \<le> str_len (concat cs)"
    by blast
  have "below n (map (byte_id tk) (utf8 c))" using assms(2) by (auto simp: below_def vocab_in_def)
  from below_steps [OF ids(2) assms(2) this] have "below n ids" "length ids \<le> str_len c" by simp_all
  then show ?case using ids(1) ids' by (intro exI [of _ "ids @ ids'"]) auto
qed simp

lemma encode_text_below:
  assumes "tok_ok tk" and "vocab_in tk n" and "class_ok cls" and "\<forall>c \<in> set text. scalar c"
  shows "\<exists>ids. (\<forall>out. encode_text cls tk text out = Ok (out @ ids)) \<and> below n ids \<and> length ids \<le> str_len text"
proof -
  obtain cs where cs: "(pretok cls (template_style (tk_template tk)) text :: (unit, rstr list) outcome) = Ok cs" "concat cs = text"
    using pretok_ok [OF assms(3,4)] by blast
  with encode_chunks_below [OF assms(1,2), of cs] show ?thesis by (auto simp: encode_text_def)
qed

lemma specials_below: "vocab_in tk n \<Longrightarrow> below n [sp_bos (tk_specials tk), sp_eos (tk_specials tk), sp_eot (tk_specials tk),
    sp_start_header (tk_specials tk), sp_end_header (tk_specials tk), sp_end_of_text (tk_specials tk)]"
  by (simp add: vocab_in_def special_ids_def)

lemma encode_header_below:
  assumes T: "tok_ok tk" "vocab_in tk n" "class_ok cls" and r: "\<forall>c \<in> set role. scalar c"
  shows "\<exists>ids. (\<forall>out. encode_header cls tk role out = Ok (out @ ids)) \<and> below n ids \<and> 1 \<le> length ids \<and> length ids \<le> str_len role + 4"
proof -
  have nl: "\<forall>c \<in> set [10 :: nat]. scalar c" "\<forall>c \<in> set [10, 10 :: nat]. scalar c" "str_len [10] = 1" "str_len [10, 10] = 2" by (simp_all add: scalar_def)
  obtain a where a: "\<And>out. encode_text cls tk role out = Ok (out @ a)" "below n a" "length a \<le> str_len role" using encode_text_below [OF T r] by blast
  obtain b where b: "\<And>out. encode_text cls tk [10] out = Ok (out @ b)" "below n b" "length b \<le> 1" using encode_text_below [OF T nl(1)] unfolding nl(3) by blast
  obtain c where c: "\<And>out. encode_text cls tk [10, 10] out = Ok (out @ c)" "below n c" "length c \<le> 2" using encode_text_below [OF T nl(2)] unfolding nl(4) by blast
  let ?s = "tk_specials tk"
  show ?thesis
    by (intro exI [of _ "sp_start_header ?s # a @ (case tk_template tk of TplLlama3 \<Rightarrow> sp_end_header ?s # c | ChatMl \<Rightarrow> b | Granite \<Rightarrow> [sp_end_header ?s])"])
      (use a b c specials_below [OF T(2)] in \<open>auto simp: encode_header_def Let_def split: template.split\<close>)
qed

lemma encode_message_below:
  assumes T: "tok_ok tk" "vocab_in tk n" "class_ok cls" and r: "\<forall>c \<in> set role. scalar c" and t: "\<forall>c \<in> set text. scalar c"
  shows "\<exists>ids. (\<forall>out. encode_message cls tk role text out = Ok (out @ ids)) \<and> below n ids \<and> 2 \<le> length ids \<and> length ids \<le> str_len role + str_len text + 6"
proof -
  have nl: "\<forall>c \<in> set [10 :: nat]. scalar c" "str_len [10] = 1" by (simp_all add: scalar_def)
  obtain h where h: "\<And>out. encode_header cls tk role out = Ok (out @ h)" "below n h" "1 \<le> length h" "length h \<le> str_len role + 4" using encode_header_below [OF T r] by blast
  obtain a where a: "\<And>out. encode_text cls tk text out = Ok (out @ a)" "below n a" "length a \<le> str_len text" using encode_text_below [OF T t] by blast
  obtain b where b: "\<And>out. encode_text cls tk [10] out = Ok (out @ b)" "below n b" "length b \<le> 1" using encode_text_below [OF T nl(1)] unfolding nl(2) by blast
  show ?thesis
    by (intro exI [of _ "h @ a @ sp_eot (tk_specials tk) # (if tk_template tk = ChatMl \<or> tk_template tk = Granite then b else [])"])
      (use h a b specials_below [OF T(2)] in \<open>auto simp: encode_message_def Let_def\<close>)
qed

lemma turn_ids_Ok:
  assumes T: "tok_ok tk" "vocab_in tk n" "class_ok cls" and sys: "\<forall>c \<in> set sys. scalar c" and p: "\<forall>c \<in> set prompt. scalar c"
  shows "\<exists>ids. turn_ids cls tk sys started prompt = Ok ids \<and> below n ids \<and> (if started then 3 else 5) \<le> length ids \<and> length ids \<le> str_len sys + str_len prompt + 64"
proof -
  have roles: "\<forall>c \<in> set ROLE_SYSTEM. scalar c" "\<forall>c \<in> set ROLE_USER. scalar c" "\<forall>c \<in> set ROLE_ASSISTANT. scalar c"
      "str_len ROLE_SYSTEM = 6" "str_len ROLE_USER = 4" "str_len ROLE_ASSISTANT = 9"
    by (simp_all add: ROLE_SYSTEM_def ROLE_USER_def ROLE_ASSISTANT_def scalar_def)
  obtain a where a: "\<And>out. encode_message cls tk ROLE_SYSTEM sys out = Ok (out @ a)" "below n a" "2 \<le> length a" "length a \<le> 6 + str_len sys + 6"
    using encode_message_below [OF T roles(1) sys] unfolding roles(4) by blast
  obtain b where b: "\<And>out. encode_message cls tk ROLE_USER prompt out = Ok (out @ b)" "below n b" "2 \<le> length b" "length b \<le> 4 + str_len prompt + 6"
    using encode_message_below [OF T roles(2) p] unfolding roles(5) by blast
  obtain c where c: "\<And>out. encode_header cls tk ROLE_ASSISTANT out = Ok (out @ c)" "below n c" "1 \<le> length c" "length c \<le> 9 + 4"
    using encode_header_below [OF T roles(3)] unfolding roles(6) by blast
  show ?thesis
    by (intro exI [of _ "(if started then [] else (if tk_template tk = TplLlama3 then [sp_bos (tk_specials tk)] else []) @ a) @ b @ c"])
      (use a b c specials_below [OF T(2)] in \<open>auto simp: turn_ids_def encode_conversation_start_def Let_def\<close>)
qed

subsection \<open>A well-formed session\<close>

text \<open>Everything the shell relies on: the context, the tokenizer within the model's vocabulary, a calibrated clock, a display
  with room for the chat screen.\<close>

definition session_ok :: "session \<Rightarrow> bool" where
  "session_ok s \<longleftrightarrow> (let p = se_pl s; d = c_dims (i_cfg (pl_infer p)); W = sf_width (se_surf s); H = sf_height (se_surf s) in
     infer_ok (pl_infer p) \<and> dm_ctx d < usize_limit \<and> 0 < dm_vocab d \<and> dm_vocab d \<le> 2 ^ 32 \<and> tok_ok (pl_tok p) \<and> vocab_in (pl_tok p) (dm_vocab d)
     \<and> pl_ticks_per_ms p \<noteq> 0 \<and> sized W H (se_surf s) \<and> display_ok (pl_fonts p) (pl_assistant p) W H \<and> (\<forall>c \<in> set (pl_name p). scalar c))"

text \<open>What a turn may change of a session, the transcript and the context apart.\<close>

definition same_setup :: "session \<Rightarrow> session \<Rightarrow> bool" where
  "same_setup s s' \<longleftrightarrow> pl_tok (se_pl s') = pl_tok (se_pl s) \<and> pl_ticks_per_ms (se_pl s') = pl_ticks_per_ms (se_pl s) \<and> pl_name (se_pl s') = pl_name (se_pl s)
     \<and> pl_fonts (se_pl s') = pl_fonts (se_pl s) \<and> pl_assistant (se_pl s') = pl_assistant (se_pl s)
     \<and> i_cfg (pl_infer (se_pl s')) = i_cfg (pl_infer (se_pl s)) \<and> sf_width (se_surf s') = sf_width (se_surf s) \<and> sf_height (se_surf s') = sf_height (se_surf s)"

lemma same_setup_refl [simp]: "same_setup s s"
  by (simp add: same_setup_def)

lemma same_setup_trans: "same_setup s t \<Longrightarrow> same_setup t u \<Longrightarrow> same_setup s u"
  by (simp add: same_setup_def)

lemma session_ok_keep:
  assumes "session_ok s" and "same_setup s s'" and "infer_ok (pl_infer (se_pl s'))" and "sized (sf_width (se_surf s')) (sf_height (se_surf s')) (se_surf s')"
  shows "session_ok s'"
  using assms by (simp add: session_ok_def same_setup_def Let_def)

lemma session_infer: "session_ok s \<Longrightarrow> infer_ok (pl_infer (se_pl s))" and session_sized: "session_ok s \<Longrightarrow> sized (sf_width (se_surf s)) (sf_height (se_surf s)) (se_surf s)"
  by (simp_all add: session_ok_def Let_def)

lemma remaining_eq:
  assumes "infer_ok i" and "dm_ctx (c_dims (i_cfg i)) < usize_limit"
  shows "infer_remaining i = dm_ctx (c_dims (i_cfg i)) - i_pos i"
proof -
  have "i_pos i \<le> dm_ctx (c_dims (i_cfg i))" using assms(1) by (simp add: infer_ok_def Let_def)
  then have "dm_ctx (c_dims (i_cfg i)) + usize_limit - i_pos i = (dm_ctx (c_dims (i_cfg i)) - i_pos i) + usize_limit" by simp
  then show ?thesis unfolding infer_remaining_def by (simp only: mod_add_self2) (rule mod_less, rule less_imp_diff_less, rule assms(2))
qed

lemma surface_present_Ok: "sized W H s \<Longrightarrow> \<exists>ws. surface_present s stride l = (Ok ws :: ('e, _) outcome)"
  using present_rows [of W H s H stride l, where 'e = 'e] by (simp add: surface_present_def sized_def)

text \<open>A redraw changes the surface and what is shown, nothing else.\<close>

definition redrawn :: "session \<Rightarrow> session \<Rightarrow> bool" where
  "redrawn s s' \<longleftrightarrow> session_ok s' \<and> same_setup s s' \<and> (\<exists>surf ws. s' = s\<lparr>se_surf := surf, se_shown := ws\<rparr>)"

lemma draw_chat_Ok:
  assumes "session_ok s"
  shows "\<exists>s' k. draw_chat inp caret fr rate gen scroll s = Ok (s', k) \<and> redrawn s s' \<and> k \<le> scroll"
proof -
  let ?p = "se_pl s"
  define st where "st = \<lparr>sx_model = pl_name ?p, sx_assistant = pl_assistant ?p,
            sx_mem_used = of_nat ((total_size (pl_model ?p) + arena_used (pl_arena ?p)) div (1024 * 1024)), sx_mem_total = pl_ram_mb ?p,
            sx_tok_s_milli = rate, sx_pp_milli = pl_pp_milli ?p, sx_ftl_ms = pl_ftl_ms ?p, sx_ctx_used = of_nat (i_pos (pl_infer ?p)),
            sx_ctx_max = of_nat (dm_ctx (c_dims (i_cfg (pl_infer ?p)))), sx_cores = pl_cores ?p, sx_generating = gen\<rparr>"
  let ?W = "sf_width (se_surf s)" and ?H = "sf_height (se_surf s)"
  have d: "display_ok (pl_fonts ?p) (sx_assistant st) ?W ?H" using assms by (simp add: session_ok_def Let_def st_def)
  obtain surf k where c: "chat_draw (pl_fonts ?p) (se_turns s) inp caret (if gen then fr mod 2 = 0 else fr div 16 mod 2 = 0) st scroll (se_surf s) = (Ok (surf, k) :: (unit, _) outcome)"
      "sized ?W ?H surf" "k \<le> scroll" using chat_draw_Ok [OF d session_sized [OF assms]] by blast
  obtain ws where w: "surface_present surf (pl_stride ?p) (pl_layout ?p) = (Ok ws :: (unit, _) outcome)" using surface_present_Ok [OF c(2)] by blast
  have "draw_chat inp caret fr rate gen scroll s = Ok (s\<lparr>se_surf := surf, se_shown := ws\<rparr>, k)"
    using c(1) w by (simp add: draw_chat_def Let_def st_def)
  moreover have "same_setup s (s\<lparr>se_surf := surf, se_shown := ws\<rparr>)" using c(2) by (simp add: same_setup_def sized_def)
  moreover have "session_ok (s\<lparr>se_surf := surf, se_shown := ws\<rparr>)"
    using session_ok_keep [OF assms calculation(2)] session_infer [OF assms] c(2) by (simp add: sized_def)
  ultimately show ?thesis using c(3) unfolding redrawn_def by blast
qed

subsection \<open>The answer, without the screen\<close>

text \<open>The reference: feed a token, sample the next, until a stop token, the budget or the end of the window.\<close>

primrec reply :: "'z machine_scheme \<Rightarrow> (cand list \<Rightarrow> cand list) \<Rightarrow> tokenizer \<Rightarrow> nat \<Rightarrow> infer \<Rightarrow> sampler \<Rightarrow> u32 \<Rightarrow> (unit, u32 list) outcome" where
  "reply M srt tk 0 i m t = Ok []"
| "reply M srt tk (Suc left) i m t =
     (if is_stop tk t \<or> infer_remaining i = 0 then Ok []
      else obind (forward M i t) (\<lambda>i. obind (sampler_sample M srt m (i_logits i)) (\<lambda>(u, m).
        obind (reply M srt tk left i m u) (\<lambda>ts. Ok (t # ts)))))"

definition answer :: "'z machine_scheme \<Rightarrow> (cand list \<Rightarrow> cand list) \<Rightarrow> tokenizer \<Rightarrow> infer \<Rightarrow> sampler \<Rightarrow> u32 list \<Rightarrow> (unit, u32 list) outcome" where
  "answer M srt tk i m ids = obind (ofold (forward M) i ids) (\<lambda>i. obind (sampler_sample M srt m (i_logits i)) (\<lambda>(t, m).
     reply M srt tk MAX_GEN_TOKENS i m t))"

definition answer_text :: "tokenizer \<Rightarrow> u32 list \<Rightarrow> chars" where
  "answer_text tk ts = (case (flush_all (map (tbytes tk) ts) ([], []) :: (unit, _) outcome) of
       Ok (rest, out) \<Rightarrow> if chars_of out = [] then lit ''(no output)'' else chars_of out | _ \<Rightarrow> [])"

lemma forward_one:
  assumes "sched_ok M" and "infer_ok i" and "unat t < dm_vocab (c_dims (i_cfg i))" and "i_pos i < dm_ctx (c_dims (i_cfg i))"
  shows "\<exists>a. forward M i t = (Ok a :: (unit, _) outcome) \<and> ran M i [t] a"
proof -
  have "tokens_ok i [t]" using assms(3,4) by (simp add: tokens_ok_def Let_def)
  from decode_Ok [OF assms(1,2) this] show ?thesis by (auto simp: outcome_simps obind_Ok_iff)
qed

lemma sample_total:
  assumes "logits \<noteq> []" and "length logits \<le> 2 ^ 32" and "sorts srt"
  shows "\<exists>t m'. sampler_sample F srt m logits = (Ok (t, m') :: (unit, _) outcome) \<and> unat t < length logits"
proof (cases "f_le (sm_temperature m) F_ZERO")
  case True
  have a: "argmax logits < length logits" using argmax_top [OF assms(1)] by blast
  then have "unat (of_nat (argmax logits) :: u32) = argmax logits" using assms(2) by (intro unat_of_nat_less) simp
  then show ?thesis using True a by (simp add: sampler_sample_def)
qed (use sample_hot [OF assms, of m F] in blast)

lemma session_sample:
  assumes "session_ok s" and "sorts srt" and "infer_ok i" and "i_cfg i = i_cfg (pl_infer (se_pl s))"
  shows "\<exists>t m'. sampler_sample F srt m (i_logits i) = (Ok (t, m') :: (unit, _) outcome) \<and> unat t < dm_vocab (c_dims (i_cfg i))"
proof -
  have l: "length (i_logits i) = dm_vocab (c_dims (i_cfg i))" using assms(3) by (simp add: infer_ok_def Let_def)
  have d: "0 < dm_vocab (c_dims (i_cfg i))" "dm_vocab (c_dims (i_cfg i)) \<le> 2 ^ 32" using assms(1,4) by (simp_all add: session_ok_def Let_def)
  have "i_logits i \<noteq> []" using l d(1) by auto
  from sample_total [OF this _ assms(2), of F m] show ?thesis unfolding l using d(2) by blast
qed

definition no_escape :: "host \<Rightarrow> bool" where
  "no_escape H \<longleftrightarrow> (\<forall>n. Option.bind (ho_key H n) key_event \<noteq> Some EvEscape)"

lemma session_ok_parts:
  assumes "session_ok s"
  shows "tok_ok (pl_tok (se_pl s))" "pl_ticks_per_ms (se_pl s) \<noteq> 0" "vocab_in (pl_tok (se_pl s)) (dm_vocab (c_dims (i_cfg (pl_infer (se_pl s)))))"
    "dm_ctx (c_dims (i_cfg (pl_infer (se_pl s)))) < usize_limit" "\<forall>c \<in> set (pl_name (se_pl s)). scalar c"
  using assms by (simp_all add: session_ok_def Let_def)

lemma ticks_Ok: "pl_ticks_per_ms p \<noteq> 0 \<Longrightarrow> \<exists>ms. ticks_to_ms (pl_ticks_per_ms p) dt = (Ok ms :: (unit, _) outcome)"
  and rate_Ok: "pl_ticks_per_ms p \<noteq> 0 \<Longrightarrow> \<exists>r. rate_milli (pl_ticks_per_ms p) n dt = (Ok r :: (unit, _) outcome)"
  by (simp_all add: ticks_to_ms_def rate_milli_def Let_def)

text \<open>Changes to a session that keep it well-formed.\<close>

lemma session_ok_turns: "session_ok s \<Longrightarrow> session_ok (s\<lparr>se_turns := ts\<rparr>)"
  and session_ok_keys: "session_ok s \<Longrightarrow> session_ok (s\<lparr>se_keys := n\<rparr>)"
  and session_ok_ticks: "session_ok s \<Longrightarrow> session_ok (s\<lparr>se_ticks := n\<rparr>)"
  and session_ok_started: "session_ok s \<Longrightarrow> session_ok (s\<lparr>se_started := b\<rparr>)"
  and session_ok_sampler: "session_ok s \<Longrightarrow> session_ok (set_sampler m s)"
  and session_ok_rates: "session_ok s \<Longrightarrow> session_ok (s\<lparr>se_pl := (se_pl s)\<lparr>pl_pp_milli := a, pl_ftl_ms := b'\<rparr>\<rparr>)"
  and session_ok_infer: "session_ok s \<Longrightarrow> infer_ok i \<Longrightarrow> i_cfg i = i_cfg (pl_infer (se_pl s)) \<Longrightarrow> session_ok (set_infer i s)"
  by (simp_all add: session_ok_def Let_def set_sampler_def set_infer_def)

lemmas session_keeps = session_ok_turns session_ok_keys session_ok_ticks session_ok_started session_ok_sampler session_ok_rates session_ok_infer

subsection \<open>The decoding loop\<close>

text \<open>The loop's invariant: the last turn shows the bytes decoded so far, which are valid UTF-8, and the next token is in the
  vocabulary.\<close>

definition gen_ok :: "gen \<Rightarrow> bool" where
  "gen_ok g \<longleftrightarrow> session_ok (gn_s g) \<and> se_turns (gn_s g) \<noteq> [] \<and> tn_text (last (se_turns (gn_s g))) = chars_of (gn_out g)
     \<and> from_utf8 (gn_out g) = Utf8Ok \<and> unat (gn_next g) < dm_vocab (c_dims (i_cfg (pl_infer (se_pl (gn_s g)))))"

text \<open>What the loop keeps, and what it may change of the transcript.\<close>

definition gen_rel :: "gen \<Rightarrow> gen \<Rightarrow> bool" where
  "gen_rel g g' \<longleftrightarrow> gen_ok g' \<and> same_setup (gn_s g) (gn_s g') \<and> butlast (se_turns (gn_s g')) = butlast (se_turns (gn_s g))
     \<and> tn_role (last (se_turns (gn_s g'))) = tn_role (last (se_turns (gn_s g))) \<and> se_started (gn_s g') = se_started (gn_s g)"

lemma gen_rel_refl: "gen_ok g \<Longrightarrow> gen_rel g g"
  by (simp add: gen_rel_def)

lemma gen_rel_trans: "gen_rel g h \<Longrightarrow> gen_rel h k \<Longrightarrow> gen_rel g k"
  by (auto simp: gen_rel_def intro: same_setup_trans)

lemma gen_show_Ok:
  assumes ok: "gen_ok g"
  shows "\<exists>ev g'. gen_show H t0 g = Ok (ev, g') \<and> gen_rel g g' \<and> gn_next g' = gn_next g \<and> (no_escape H \<longrightarrow> ev \<noteq> Some EvEscape)
     \<and> pl_infer (se_pl (gn_s g')) = pl_infer (se_pl (gn_s g)) \<and> pl_sampler (se_pl (gn_s g')) = pl_sampler (se_pl (gn_s g))
     \<and> (flush_utf8 (gn_pending g @ tbytes (pl_tok (se_pl (gn_s g))) (gn_next g)) (gn_out g) :: (unit, _) outcome) = Ok (gn_pending g', gn_out g')"
proof -
  let ?s = "gn_s g" let ?p = "se_pl ?s"
  have s: "session_ok ?s" "se_turns ?s \<noteq> []" "from_utf8 (gn_out g) = Utf8Ok" using ok by (simp_all add: gen_ok_def)
  note P = session_ok_parts [OF s(1)]
  obtain pending out where f: "flush_utf8 (gn_pending g @ tbytes (pl_tok ?p) (gn_next g)) (gn_out g) = (Ok (pending, out) :: (unit, _) outcome)" "from_utf8 out = Utf8Ok"
    using flush_sound [OF s(3)] by blast
  define s1 where "s1 = ?s\<lparr>se_turns := butlast (se_turns ?s) @ [(last (se_turns ?s))\<lparr>tn_text := chars_of out\<rparr>]\<rparr>"
  define s2 where "s2 = s1\<lparr>se_ticks := Suc (se_ticks ?s)\<rparr>"
  have s2: "session_ok s2" using s(1) by (simp add: s2_def s1_def session_keeps)
  obtain rate where r: "rate_milli (pl_ticks_per_ms ?p) (gn_produced g + 1) (ho_tick H (se_ticks ?s) - t0) = (Ok rate :: (unit, _) outcome)"
    using rate_Ok [OF P(2)] by blast
  obtain s3 k where d: "draw_chat [] 0 (gn_frame g) rate True 0 s2 = Ok (s3, k)" "redrawn s2 s3" using draw_chat_Ok [OF s2] by blast
  then obtain surf ws where s3: "s3 = s2\<lparr>se_surf := surf, se_shown := ws\<rparr>" "session_ok s3" "same_setup s2 s3" by (auto simp: redrawn_def)
  define g' where "g' = g\<lparr>gn_s := s3\<lparr>se_keys := se_keys s3 + 1\<rparr>, gn_pending := pending, gn_out := out, gn_frame := gn_frame g + 1, gn_rate := rate, gn_produced := gn_produced g + 1\<rparr>"
  have eq: "gen_show H t0 g = Ok (Option.bind (ho_key H (se_keys s3)) key_event, g')"
    using s(2) f(1) r d(1) token_bytes_ok [OF P(1), of "gn_next g", where 'a = unit]
    by (simp add: gen_show_def Let_def set_last_text_def s1_def [symmetric] clock_now_def s2_def [symmetric] poll_def g'_def)
  have same: "same_setup ?s (gn_s g')" using s3(3) by (simp add: g'_def same_setup_def s2_def s1_def)
  have "gen_ok g'" using s3 f(2) ok by (simp add: gen_ok_def g'_def session_ok_keys s2_def s1_def)
  then have "gen_rel g g'" using same s3(1) by (simp add: gen_rel_def g'_def s2_def s1_def)
  moreover have "pl_infer (se_pl (gn_s g')) = pl_infer ?p \<and> pl_sampler (se_pl (gn_s g')) = pl_sampler ?p" by (simp add: g'_def s3(1) s2_def s1_def)
  ultimately show ?thesis using eq f(1) by (intro exI [of _ "Option.bind (ho_key H (se_keys s3)) key_event"] exI [of _ g']) (simp add: g'_def no_escape_def)
qed

lemma gen_loop_Ok:
  assumes M: "sched_ok M" and srt: "sorts srt" and ok: "gen_ok g"
  shows "\<exists>g'. gen_loop H M srt t0 left g = Ok g' \<and> gen_rel g g'
    \<and> (no_escape H \<longrightarrow> (\<forall>i. same_view i (pl_infer (se_pl (gn_s g))) \<and> infer_ok i \<longrightarrow>
        (\<exists>ts. reply M srt (pl_tok (se_pl (gn_s g))) left i (pl_sampler (se_pl (gn_s g))) (gn_next g) = Ok ts \<and> length ts \<le> left
          \<and> (flush_all (map (tbytes (pl_tok (se_pl (gn_s g)))) ts) (gn_pending g, gn_out g) :: (unit, _) outcome) = Ok (gn_pending g', gn_out g'))))"
  using ok
proof (induction left arbitrary: g)
  case 0
  then show ?case by (auto simp: gen_rel_refl)
next
  case (Suc left)
  let ?p = "se_pl (gn_s g)"
  show ?case
  proof (cases "is_stop (pl_tok ?p) (gn_next g) \<or> infer_remaining (pl_infer ?p) = 0")
    case True
    then have "gen_loop H M srt t0 (Suc left) g = Ok g" by simp
    moreover have "infer_remaining i = infer_remaining (pl_infer ?p)" if "same_view i (pl_infer ?p)" for i
      using that by (simp add: same_view_def infer_remaining_def)
    ultimately show ?thesis using True gen_rel_refl [OF Suc.prems] by auto
  next
    case False
    have s: "session_ok (gn_s g)" using Suc.prems by (simp add: gen_ok_def)
    obtain ev h where h: "gen_show H t0 g = Ok (ev, h)" "gen_rel g h" "gn_next h = gn_next g" "no_escape H \<longrightarrow> ev \<noteq> Some EvEscape"
        "pl_infer (se_pl (gn_s h)) = pl_infer ?p" "pl_sampler (se_pl (gn_s h)) = pl_sampler ?p"
        "(flush_utf8 (gn_pending g @ tbytes (pl_tok ?p) (gn_next g)) (gn_out g) :: (unit, _) outcome) = Ok (gn_pending h, gn_out h)"
      using gen_show_Ok [OF Suc.prems] by blast
    have "gen_ok h" "same_setup (gn_s g) (gn_s h)" using h(2) by (simp_all add: gen_rel_def)
    then have hs: "session_ok (gn_s h)" "gen_ok h" "pl_tok (se_pl (gn_s h)) = pl_tok ?p" by (simp_all add: gen_ok_def same_setup_def)
    show ?thesis
    proof (cases "ev = Some EvEscape")
      case True
      then have "gen_loop H M srt t0 (Suc left) g = Ok h" using False h(1) by simp
      then show ?thesis using h(2,4) True by blast
    next
      case noesc: False
      have io: "infer_ok (pl_infer ?p)" by (rule session_infer [OF s])
      have pos: "i_pos (pl_infer ?p) < dm_ctx (c_dims (i_cfg (pl_infer ?p)))"
        using False remaining_eq [OF io session_ok_parts(4) [OF s]] by simp
      have nx: "unat (gn_next g) < dm_vocab (c_dims (i_cfg (pl_infer ?p)))" using Suc.prems by (simp add: gen_ok_def)
      obtain a where a: "forward M (pl_infer ?p) (gn_next g) = (Ok a :: (unit, _) outcome)" "ran M (pl_infer ?p) [gn_next g] a"
        using forward_one [OF M io nx pos] by blast
      note ra = ran_ok [OF a(2)]
      obtain u m where u: "sampler_sample M srt (pl_sampler ?p) (i_logits a) = (Ok (u, m) :: (unit, _) outcome)" "unat u < dm_vocab (c_dims (i_cfg a))"
        using session_sample [OF s srt] ra by blast
      define k where "k = h\<lparr>gn_s := set_sampler m (set_infer a (gn_s h)), gn_next := u\<rparr>"
      have "session_ok (set_sampler m (set_infer a (gn_s h)))" using hs(1) ra h(5) by (intro session_ok_sampler session_ok_infer) simp_all
      moreover have "same_setup (gn_s h) (set_sampler m (set_infer a (gn_s h)))" using ra h(5) by (simp add: same_setup_def set_sampler_def set_infer_def)
      moreover have "se_turns (set_sampler m (set_infer a (gn_s h))) = se_turns (gn_s h)" "se_started (set_sampler m (set_infer a (gn_s h))) = se_started (gn_s h)"
        "pl_infer (se_pl (set_sampler m (set_infer a (gn_s h)))) = a" by (simp_all add: set_sampler_def set_infer_def)
      ultimately have k: "gen_ok k" "gen_rel h k" using hs(2) u(2) by (simp_all add: gen_ok_def gen_rel_def k_def)
      have kp: "pl_tok (se_pl (gn_s k)) = pl_tok ?p" "pl_infer (se_pl (gn_s k)) = a" "pl_sampler (se_pl (gn_s k)) = m" "gn_next k = u"
          "gn_pending k = gn_pending h" "gn_out k = gn_out h"
        using hs(3) by (simp_all add: k_def set_sampler_def set_infer_def)
      from Suc.IH [OF k(1)] obtain g' where g': "gen_loop H M srt t0 left k = Ok g'" "gen_rel k g'"
        "no_escape H \<longrightarrow> (\<forall>i. same_view i a \<and> infer_ok i \<longrightarrow> (\<exists>ts. reply M srt (pl_tok ?p) left i m u = Ok ts \<and> length ts \<le> left
          \<and> (flush_all (map (tbytes (pl_tok ?p)) ts) (gn_pending h, gn_out h) :: (unit, _) outcome) = Ok (gn_pending g', gn_out g')))"
        unfolding kp by blast
      have eq: "gen_loop H M srt t0 (Suc left) g = Ok g'"
        using False h(1,3,5,6) noesc a(1) u(1) g'(1) by (simp add: k_def)
      have "\<exists>ts. reply M srt (pl_tok ?p) (Suc left) i (pl_sampler ?p) (gn_next g) = Ok ts \<and> length ts \<le> Suc left
          \<and> (flush_all (map (tbytes (pl_tok ?p)) ts) (gn_pending g, gn_out g) :: (unit, _) outcome) = Ok (gn_pending g', gn_out g')"
        if ne: "no_escape H" and i: "same_view i (pl_infer ?p)" "infer_ok i" for i
      proof -
        have ii: "i_cfg i = i_cfg (pl_infer ?p)" "i_pos i = i_pos (pl_infer ?p)" "infer_remaining i = infer_remaining (pl_infer ?p)"
          using i(1) by (simp_all add: same_view_def infer_remaining_def)
        obtain b where b: "forward M i (gn_next g) = (Ok b :: (unit, _) outcome)" "ran M i [gn_next g] b"
          using forward_one [OF M i(2)] nx pos ii by auto
        have v: "same_view b a" "i_logits b = i_logits a" using ran_unique [OF b(2) a(2) i(1,2)] by simp_all
        from g'(3) ne v(1) ran_ok [OF b(2)] obtain ts where ts: "reply M srt (pl_tok ?p) left b m u = Ok ts" "length ts \<le> left"
          "(flush_all (map (tbytes (pl_tok ?p)) ts) (gn_pending h, gn_out h) :: (unit, _) outcome) = Ok (gn_pending g', gn_out g')" by blast
        show ?thesis using False ii(3) b(1) v(2) u(1) ts h(7) by (intro exI [of _ "gn_next g # ts"]) simp
      qed
      then show ?thesis using eq gen_rel_trans [OF h(2) gen_rel_trans [OF k(2) g'(2)]] by blast
    qed
  qed
qed

subsection \<open>A whole turn\<close>

lemma gen_prefill_Ok:
  assumes M: "sched_ok M" and "session_ok s" and "\<forall>c \<in> set cs. 0 < length c \<and> length c \<le> MAX_BATCH" and "tokens_ok (pl_infer (se_pl s)) (concat cs)"
  shows "\<exists>s' fr'. gen_prefill H M cs s fr = Ok (s', fr') \<and> session_ok s' \<and> same_setup s s' \<and> se_turns s' = se_turns s \<and> se_started s' = se_started s
    \<and> pl_sampler (se_pl s') = pl_sampler (se_pl s)
    \<and> (no_escape H \<longrightarrow> ofold (prefill_chunk M) (pl_infer (se_pl s)) cs = (Ok (pl_infer (se_pl s')) :: (unit, _) outcome))"
  using assms(2-4)
proof (induction cs arbitrary: s fr)
  case (Cons c cs)
  have c: "0 < length c" "length c \<le> MAX_BATCH" "tokens_ok (pl_infer (se_pl s)) c" using Cons.prems by (auto simp: tokens_ok_def Let_def)
  obtain a where a: "prefill_chunk M (pl_infer (se_pl s)) c = (Ok a :: (unit, _) outcome)" "ran M (pl_infer (se_pl s)) c a"
    using prefill_chunk_Ok [OF M session_infer [OF Cons.prems(1)] c(3,1,2)] by blast
  note ra = ran_ok [OF a(2)]
  have s1: "session_ok (set_infer a s)" using ra by (intro session_ok_infer Cons.prems(1)) simp_all
  obtain s2 k where d: "draw_chat [] 0 fr 0 True 0 (set_infer a s) = Ok (s2, k)" "redrawn (set_infer a s) s2" using draw_chat_Ok [OF s1] by blast
  then obtain surf ws where s2: "s2 = (set_infer a s)\<lparr>se_surf := surf, se_shown := ws\<rparr>" "session_ok s2" "same_setup (set_infer a s) s2" by (auto simp: redrawn_def)
  define s3 where "s3 = s2\<lparr>se_keys := Suc (se_keys s2)\<rparr>"
  define ev where "ev = Option.bind (ho_key H (se_keys s2)) key_event"
  have s3: "session_ok s3" "se_turns s3 = se_turns s" "se_started s3 = se_started s" "pl_sampler (se_pl s3) = pl_sampler (se_pl s)" "pl_infer (se_pl s3) = a"
    using s2(2) by (simp_all add: s3_def session_ok_keys s2(1) set_infer_def)
  have setup3: "same_setup s s3" using s2(3) ra by (simp add: same_setup_def s3_def s2(1) set_infer_def)
  have step: "gen_prefill H M (c # cs) s fr = (if ev = Some EvEscape then Ok (s3, fr + 1) else gen_prefill H M cs s3 (fr + 1))"
    using a(1) d(1) by (simp add: Let_def poll_def s3_def ev_def)
  have ne: "no_escape H \<Longrightarrow> ev \<noteq> Some EvEscape" by (simp add: no_escape_def ev_def)
  show ?case
  proof (cases "ev = Some EvEscape")
    case True
    then show ?thesis using step s3 setup3 ne by auto
  next
    case False
    have "tokens_ok (pl_infer (se_pl s3)) (concat cs)" using Cons.prems(3) ra by (auto simp: tokens_ok_def Let_def s3(5))
    then obtain s' fr' where 1: "gen_prefill H M cs s3 (fr + 1) = Ok (s', fr')" "session_ok s'" "same_setup s3 s'" "se_turns s' = se_turns s3" "se_started s' = se_started s3"
      "pl_sampler (se_pl s') = pl_sampler (se_pl s3)" "no_escape H \<longrightarrow> ofold (prefill_chunk M) a cs = (Ok (pl_infer (se_pl s')) :: (unit, _) outcome)"
      using Cons.IH [OF s3(1), of "fr + 1"] Cons.prems(2) unfolding s3(5) by auto
    then show ?thesis using step False s3 same_setup_trans [OF setup3 1(3)] a(1) by (intro exI [of _ s'] exI [of _ fr']) simp
  qed
qed simp

lemma make_room_Ok:
  assumes "session_ok s"
  shows "session_ok (make_room s)" "same_setup s (make_room s)" "pl_sampler (se_pl (make_room s)) = pl_sampler (se_pl s)"
proof -
  have i: "infer_ok (infer_reset (pl_infer (se_pl s)))" "i_cfg (infer_reset (pl_infer (se_pl s))) = i_cfg (pl_infer (se_pl s))"
    using session_infer [OF assms] by (simp_all add: infer_ok_def Let_def infer_reset_def)
  show "session_ok (make_room s)" using assms session_ok_infer [OF assms i] by (simp add: make_room_def say_def session_keeps)
  show "same_setup s (make_room s)" "pl_sampler (se_pl (make_room s)) = pl_sampler (se_pl s)" using i(2) by (simp_all add: make_room_def say_def same_setup_def set_infer_def)
qed

lemma close_turn_Ok:
  assumes M: "sched_ok M" and ok: "gen_ok g"
  shows "\<exists>s' r. close_turn H M t0 g = Ok (s', r) \<and> session_ok s' \<and> same_setup (gn_s g) s' \<and> se_started s' = se_started (gn_s g)
    \<and> se_turns s' = butlast (se_turns (gn_s g)) @ [(last (se_turns (gn_s g)))\<lparr>tn_text := (if chars_of (gn_out g) = [] then lit ''(no output)'' else chars_of (gn_out g))\<rparr>]"
proof -
  let ?s = "gn_s g" let ?p = "se_pl ?s"
  have s: "session_ok ?s" "se_turns ?s \<noteq> []" "tn_text (last (se_turns ?s)) = chars_of (gn_out g)" using ok by (simp_all add: gen_ok_def)
  note P = session_ok_parts [OF s(1)] and io = session_infer [OF s(1)]
  have eot: "unat (sp_eot (tk_specials (pl_tok ?p))) < dm_vocab (c_dims (i_cfg (pl_infer ?p)))" using specials_below [OF P(3)] by simp
  have "\<exists>s1. (if is_stop (pl_tok ?p) (gn_next g) \<and> infer_remaining (pl_infer ?p) > 0
         then obind (forward M (pl_infer ?p) (sp_eot (tk_specials (pl_tok ?p)))) (\<lambda>i. Ok (set_infer i ?s)) else Ok ?s) = (Ok s1 :: (unit, _) outcome)
      \<and> session_ok s1 \<and> same_setup ?s s1 \<and> se_started s1 = se_started ?s \<and> se_turns s1 = se_turns ?s"
  proof (cases "is_stop (pl_tok ?p) (gn_next g) \<and> infer_remaining (pl_infer ?p) > 0")
    case True
    then have "i_pos (pl_infer ?p) < dm_ctx (c_dims (i_cfg (pl_infer ?p)))" using remaining_eq [OF io P(4)] by simp
    from forward_one [OF M io eot this] obtain a where a: "forward M (pl_infer ?p) (sp_eot (tk_specials (pl_tok ?p))) = (Ok a :: (unit, _) outcome)"
      "ran M (pl_infer ?p) [sp_eot (tk_specials (pl_tok ?p))] a" by blast
    have "session_ok (set_infer a ?s)" using ran_ok [OF a(2)] by (intro session_ok_infer s(1)) simp_all
    then show ?thesis using True a(1) ran_ok [OF a(2)] by (simp add: same_setup_def set_infer_def)
  qed (use s(1) in auto)
  then obtain s1 where s1: "(if is_stop (pl_tok ?p) (gn_next g) \<and> infer_remaining (pl_infer ?p) > 0
         then obind (forward M (pl_infer ?p) (sp_eot (tk_specials (pl_tok ?p)))) (\<lambda>i. Ok (set_infer i ?s)) else Ok ?s) = (Ok s1 :: (unit, _) outcome)"
      "session_ok s1" "same_setup ?s s1" "se_started s1 = se_started ?s" "se_turns s1 = se_turns ?s" by blast
  obtain ms where ms: "ticks_to_ms (pl_ticks_per_ms ?p) (ho_tick H (se_ticks s1) - t0) = (Ok ms :: (unit, _) outcome)" using ticks_Ok [OF P(2)] by blast
  define s2 where "s2 = s1\<lparr>se_ticks := Suc (se_ticks s1)\<rparr>"
  define s3 where "s3 = (if se_turns s2 \<noteq> [] \<and> tn_text (last (se_turns s2)) = []
        then s2\<lparr>se_turns := butlast (se_turns s2) @ [(last (se_turns s2))\<lparr>tn_text := lit ''(no output)''\<rparr>]\<rparr> else s2)"
  have "close_turn H M t0 g = Ok (s3, gn_rate g)"
    unfolding close_turn_def Let_def s1(1) obind.simps by (simp add: clock_now_def ms s2_def [symmetric] s3_def)
  moreover have "session_ok s3" using s1(2) by (simp add: s3_def s2_def session_keeps)
  moreover have "same_setup ?s s3" using s1(3) by (simp add: s3_def s2_def same_setup_def)
  moreover have "se_turns s3 = butlast (se_turns ?s) @ [(last (se_turns ?s))\<lparr>tn_text := (if chars_of (gn_out g) = [] then lit ''(no output)'' else chars_of (gn_out g))\<rparr>]"
    using s(2,3) append_butlast_last_id [OF s(2)] by (cases "last (se_turns ?s)") (simp add: s3_def s2_def s1(5))
  moreover have "se_started s3 = se_started ?s" by (simp add: s3_def s2_def s1(4))
  ultimately show ?thesis by blast
qed

lemma generate_Ok:
  assumes M: "sched_ok M" and srt: "sorts srt" and cls: "class_ok cls" and ok: "session_ok s"
    and scal: "\<forall>c \<in> set prompt. scalar c" "\<forall>c \<in> set arch_name. scalar c"
    and ids: "turn_ids cls (pl_tok (se_pl s)) (system_prompt arch_name (pl_name (se_pl s))) (se_started (make_room s)) prompt = Ok ids"
    and room: "length ids \<le> infer_remaining (pl_infer (se_pl (make_room s)))"
  shows "\<exists>s' r shown. generate H M cls srt arch_name prompt fr s = Ok (s', r) \<and> session_ok s' \<and> same_setup s s'
    \<and> se_turns s' = se_turns (make_room s) @ [\<lparr>tn_role = Llama, tn_text = shown\<rparr>] \<and> shown \<noteq> []
    \<and> (no_escape H \<longrightarrow> (\<exists>ts. answer M srt (pl_tok (se_pl s)) (pl_infer (se_pl (make_room s))) (pl_sampler (se_pl s)) ids = Ok ts
        \<and> length ts \<le> MAX_GEN_TOKENS \<and> shown = answer_text (pl_tok (se_pl s)) ts))"
proof -
  define s0 where "s0 = make_room s"
  have s0: "session_ok s0" "same_setup s s0" "pl_sampler (se_pl s0) = pl_sampler (se_pl s)" using make_room_Ok [OF ok] by (simp_all add: s0_def)
  have setup0: "pl_tok (se_pl s0) = pl_tok (se_pl s)" "pl_name (se_pl s0) = pl_name (se_pl s)" using s0(2) by (simp_all add: same_setup_def)
  note P = session_ok_parts [OF s0(1)] and io = session_infer [OF s0(1)]
  let ?i = "pl_infer (se_pl s0)"
  have sys: "\<forall>c \<in> set (system_prompt arch_name (pl_name (se_pl s))). scalar c"
    using scal(2) session_ok_parts(5) [OF ok] by (auto simp: system_prompt_def lit_def scalar_def)
  have b: "below (dm_vocab (c_dims (i_cfg ?i))) ids" "ids \<noteq> []"
    using turn_ids_Ok [OF P(1,3) cls sys scal(1), of "se_started s0"] ids by (auto simp: s0_def [symmetric] setup0 split: if_splits)
  have toks: "tokens_ok ?i ids" using b(1) room remaining_eq [OF io P(4)] io
    by (auto simp: tokens_ok_def Let_def below_def s0_def [symmetric] infer_ok_def)
  have cc: "concat (chunks 16 ids) = ids" by (rule concat_chunks) simp
  have cb: "\<forall>c \<in> set (chunks 16 ids). 0 < length c \<and> length c \<le> MAX_BATCH"
    using chunks_bounds [of _ 16 ids] by (force simp: MAX_BATCH_def)
  define s1 where "s1 = (say Llama [] (s0\<lparr>se_started := True\<rparr>))\<lparr>se_ticks := Suc (se_ticks s0)\<rparr>"
  have s1: "session_ok s1" "same_setup s0 s1" "se_turns s1 = se_turns s0 @ [\<lparr>tn_role = Llama, tn_text = []\<rparr>]" "pl_infer (se_pl s1) = ?i" "pl_sampler (se_pl s1) = pl_sampler (se_pl s0)"
    using s0(1) by (simp_all add: s1_def say_def session_keeps same_setup_def)
  obtain s2 fr2 where s2: "gen_prefill H M (chunks 16 ids) s1 fr = Ok (s2, fr2)" "session_ok s2" "same_setup s1 s2" "se_turns s2 = se_turns s1"
      "pl_sampler (se_pl s2) = pl_sampler (se_pl s1)"
      "no_escape H \<longrightarrow> ofold (prefill_chunk M) ?i (chunks 16 ids) = (Ok (pl_infer (se_pl s2)) :: (unit, _) outcome)"
    using gen_prefill_Ok [OF M s1(1) cb, of H fr] toks unfolding s1(4) cc by blast
  obtain ms where ms: "ticks_to_ms (pl_ticks_per_ms (se_pl s0)) (ho_tick H (se_ticks s2) - ho_tick H (se_ticks s0)) = (Ok ms :: (unit, _) outcome)" using ticks_Ok [OF P(2)] by blast
  define s3 where "s3 = (s2\<lparr>se_ticks := Suc (Suc (se_ticks s2)), se_pl := (se_pl s2)\<lparr>pl_pp_milli := ucast (of_nat (length ids) * 1000000 div max ms 1), pl_ftl_ms := ucast ms\<rparr>\<rparr>)"
  have s3: "session_ok s3" "same_setup s2 s3" "se_turns s3 = se_turns s2" "pl_infer (se_pl s3) = pl_infer (se_pl s2)" "pl_sampler (se_pl s3) = pl_sampler (se_pl s2)"
    using s2(2) by (simp_all add: s3_def same_setup_def session_ok_def Let_def)
  obtain u m where u: "sampler_sample M srt (pl_sampler (se_pl s3)) (i_logits (pl_infer (se_pl s3))) = (Ok (u, m) :: (unit, _) outcome)"
      "unat u < dm_vocab (c_dims (i_cfg (pl_infer (se_pl s3))))"
    using session_sample [OF s3(1) srt session_infer [OF s3(1)] refl] by blast
  define g where "g = \<lparr>gn_s = set_sampler m s3, gn_next = u, gn_pending = [], gn_out = [], gn_frame = fr2, gn_rate = 0, gn_produced = 0\<rparr>"
  have gs: "se_turns (gn_s g) = se_turns s0 @ [\<lparr>tn_role = Llama, tn_text = []\<rparr>]" "pl_infer (se_pl (gn_s g)) = pl_infer (se_pl s2)" "pl_sampler (se_pl (gn_s g)) = m"
      "same_setup s3 (gn_s g)" "gn_next g = u" "gn_pending g = []" "gn_out g = []"
    by (simp_all add: g_def set_sampler_def s3 s2(4) s1(3) same_setup_def)
  have setup_g: "same_setup s (gn_s g)" by (rule same_setup_trans [OF s0(2) same_setup_trans [OF s1(2) same_setup_trans [OF s2(3) same_setup_trans [OF s3(2) gs(4)]]]])
  then have tok: "pl_tok (se_pl (gn_s g)) = pl_tok (se_pl s)" by (simp add: same_setup_def)
  have gok: "gen_ok g" using u(2) by (simp add: gen_ok_def gs s3(4)) (simp add: g_def session_ok_sampler s3(1))
  obtain g' where g': "gen_loop H M srt (ho_tick H (Suc (se_ticks s2))) MAX_GEN_TOKENS g = Ok g'" "gen_rel g g'"
      "no_escape H \<longrightarrow> (\<forall>i. same_view i (pl_infer (se_pl s2)) \<and> infer_ok i \<longrightarrow>
        (\<exists>ts. reply M srt (pl_tok (se_pl s)) MAX_GEN_TOKENS i m u = Ok ts \<and> length ts \<le> MAX_GEN_TOKENS
          \<and> (flush_all (map (tbytes (pl_tok (se_pl s))) ts) ([], []) :: (unit, _) outcome) = Ok (gn_pending g', gn_out g')))"
    using gen_loop_Ok [OF M srt gok, of H "ho_tick H (Suc (se_ticks s2))" MAX_GEN_TOKENS] unfolding gs tok by blast
  define shown where "shown = (if chars_of (gn_out g') = [] then lit ''(no output)'' else chars_of (gn_out g'))"
  obtain s' r where s': "close_turn H M (ho_tick H (Suc (se_ticks s2))) g' = Ok (s', r)" "session_ok s'" "same_setup (gn_s g') s'"
      "se_turns s' = butlast (se_turns (gn_s g')) @ [(last (se_turns (gn_s g')))\<lparr>tn_text := shown\<rparr>]"
    using close_turn_Ok [OF M, of g'] g'(2) unfolding shown_def gen_rel_def by blast
  have run: "generate H M cls srt arch_name prompt fr s = Ok (s', r)"
  proof -
    have n1: "s0\<lparr>se_started := True, se_turns := se_turns s0 @ [\<lparr>tn_role = Llama, tn_text = []\<rparr>], se_ticks := Suc (se_ticks s0)\<rparr> = s1"
      by (simp add: s1_def say_def)
    have n3: "s2\<lparr>se_pl := (se_pl s2)\<lparr>pl_pp_milli := ucast (word_of_nat (length ids) * 1000000 div max ms 1), pl_ftl_ms := ucast ms\<rparr>, se_ticks := Suc (Suc (se_ticks s2))\<rparr> = s3"
      by (simp add: s3_def)
    show ?thesis using ids s2(1) ms u(1) [unfolded s3(4,5)] g'(1) s'(1)
      by (simp add: generate_def Let_def s0_def [symmetric] setup0 clock_now_def say_def n1 n3 g_def [symmetric])
  qed
  have turns: "se_turns s' = se_turns s0 @ [\<lparr>tn_role = Llama, tn_text = shown\<rparr>]"
    using s'(4) g'(2) by (cases "last (se_turns (gn_s g'))") (simp add: gen_rel_def gs(1))
  have setup': "same_setup s s'" using setup_g g'(2) s'(3) by (auto simp: gen_rel_def intro: same_setup_trans)
  have spec: "\<exists>ts. answer M srt (pl_tok (se_pl s)) ?i (pl_sampler (se_pl s)) ids = Ok ts \<and> length ts \<le> MAX_GEN_TOKENS \<and> shown = answer_text (pl_tok (se_pl s)) ts"
    if ne: "no_escape H"
  proof -
    have p: "ofold (prefill_chunk M) ?i (chunks 16 ids) = (Ok (pl_infer (se_pl s2)) :: (unit, _) outcome)" using s2(6) ne by simp
    have "chunks 16 ids \<noteq> []" using cc b(2) by auto
    then obtain i where i: "ofold (forward M) ?i ids = (Ok i :: (unit, _) outcome)" "same_view (pl_infer (se_pl s2)) i" "infer_ok i" "i_logits (pl_infer (se_pl s2)) = i_logits i"
      using chunks_run [OF M cb io io, of ] toks p unfolding cc by (auto simp: same_view_def)
    have "same_view i (pl_infer (se_pl s2))" using i(2) by (simp add: same_view_def)
    with g'(3) ne i(3) obtain ts where ts: "reply M srt (pl_tok (se_pl s)) MAX_GEN_TOKENS i m u = Ok ts" "length ts \<le> MAX_GEN_TOKENS"
        "(flush_all (map (tbytes (pl_tok (se_pl s))) ts) ([], []) :: (unit, _) outcome) = Ok (gn_pending g', gn_out g')" by blast
    have "answer M srt (pl_tok (se_pl s)) ?i (pl_sampler (se_pl s)) ids = Ok ts"
      using i(1,4) u(1) ts(1) by (simp add: answer_def s3 s2(5) s1(5) s0(3))
    moreover have "shown = answer_text (pl_tok (se_pl s)) ts" using ts(3) by (simp add: shown_def answer_text_def)
    ultimately show ?thesis using ts(2) by blast
  qed
  have "shown \<noteq> []" by (simp add: shown_def lit_def)
  then show ?thesis using run s'(2) setup' turns spec unfolding s0_def by blast
qed

lemma gen_prefill_Panic:
  assumes M: "sched_ok M" and ne: "no_escape H" and "session_ok s" and "\<forall>c \<in> set cs. 0 < length c \<and> length c \<le> MAX_BATCH"
    and "below (dm_vocab (c_dims (i_cfg (pl_infer (se_pl s))))) (concat cs)" and "dm_ctx (c_dims (i_cfg (pl_infer (se_pl s)))) < i_pos (pl_infer (se_pl s)) + length (concat cs)"
  shows "gen_prefill H M cs s fr = Panic"
  using assms(3-6)
proof (induction cs arbitrary: s fr)
  case Nil
  then show ?case using session_infer [OF Nil(1)] by (simp add: infer_ok_def Let_def)
next
  case (Cons c cs)
  let ?i = "pl_infer (se_pl s)"
  show ?case
  proof (cases "i_pos ?i + length c \<le> dm_ctx (c_dims (i_cfg ?i))")
    case False
    then have "prefill_chunk M ?i c = (Panic :: (unit, _) outcome)" by (cases "1 \<le> length c \<and> length c \<le> MAX_BATCH") (simp_all add: prefill_chunk_def Let_def assert_def)
    then show ?thesis by simp
  next
    case True
    have c: "0 < length c" "length c \<le> MAX_BATCH" "tokens_ok ?i c" using Cons.prems True by (auto simp: tokens_ok_def Let_def below_def)
    obtain a where a: "prefill_chunk M ?i c = (Ok a :: (unit, _) outcome)" "ran M ?i c a"
      using prefill_chunk_Ok [OF M session_infer [OF Cons.prems(1)] c(3,1,2)] by blast
    note ra = ran_ok [OF a(2)]
    have s1: "session_ok (set_infer a s)" using ra by (intro session_ok_infer Cons.prems(1)) simp_all
    obtain s2 k where d: "draw_chat [] 0 fr 0 True 0 (set_infer a s) = Ok (s2, k)" "redrawn (set_infer a s) s2" using draw_chat_Ok [OF s1] by blast
    then obtain surf ws where s2: "s2 = (set_infer a s)\<lparr>se_surf := surf, se_shown := ws\<rparr>" "session_ok s2" by (auto simp: redrawn_def)
    define s3 where "s3 = s2\<lparr>se_keys := Suc (se_keys s2)\<rparr>"
    have "pl_infer (se_pl s3) = a" "session_ok s3" using s2 by (simp_all add: s3_def session_ok_keys set_infer_def)
    then have "gen_prefill H M cs s3 (fr + 1) = Panic" using Cons.prems ra by (intro Cons.IH) auto
    then show ?thesis using a(1) d(1) ne by (simp add: Let_def poll_def s3_def no_escape_def)
  qed
qed

text \<open>C34: The answer on the screen is the model's. For every well-formed session and every prompt whose tokens fit the window,
  \<open>generate\<close> returns without a panic whatever keys are pressed, leaves a well-formed session, and adds exactly one turn,
  never empty, for the assistant. If escape is not pressed, its text is the decoding of the tokens obtained by feeding the
  chat template to \<open>forward\<close> one token at a time and sampling the next until a stop token, 768 tokens or the end of the
  window: batching, redraws, the split of characters over tokens and the clock do not show.\<close>

theorem generate_is_sampling:
  assumes "sched_ok M" and "sorts srt" and "class_ok cls" and "session_ok s" and "\<forall>c \<in> set prompt. scalar c" and "\<forall>c \<in> set arch_name. scalar c"
    and "turn_ids cls (pl_tok (se_pl s)) (system_prompt arch_name (pl_name (se_pl s))) (se_started (make_room s)) prompt = Ok ids"
    and "length ids \<le> infer_remaining (pl_infer (se_pl (make_room s)))"
  shows "\<exists>s' r shown. generate H M cls srt arch_name prompt fr s = Ok (s', r) \<and> session_ok s'
    \<and> se_turns s' = se_turns (make_room s) @ [\<lparr>tn_role = Llama, tn_text = shown\<rparr>] \<and> shown \<noteq> []
    \<and> (no_escape H \<longrightarrow> (\<exists>ts. answer M srt (pl_tok (se_pl s)) (pl_infer (se_pl (make_room s))) (pl_sampler (se_pl s)) ids = Ok ts
        \<and> length ts \<le> MAX_GEN_TOKENS \<and> shown = answer_text (pl_tok (se_pl s)) ts))"
  using generate_Ok [OF assms] by blast

text \<open>C35: The room check before a turn does not cover the prompt: it only asks for 1024 free positions, while a prompt may have
  8192 characters. A turn with more tokens than the window has left stops the machine in an assertion of \<open>prefill_chunk\<close>
  (unless escape is pressed in time).\<close>

theorem long_prompt_panics:
  assumes "sched_ok M" and "class_ok cls" and "session_ok s" and "\<forall>c \<in> set prompt. scalar c" and "\<forall>c \<in> set arch_name. scalar c" and "no_escape H"
    and "turn_ids cls (pl_tok (se_pl s)) (system_prompt arch_name (pl_name (se_pl s))) (se_started (make_room s)) prompt = Ok ids"
    and "infer_remaining (pl_infer (se_pl (make_room s))) < length ids"
  shows "generate H M cls srt arch_name prompt fr s = Panic"
proof -
  define s0 where "s0 = make_room s"
  have s0: "session_ok s0" "same_setup s s0" using make_room_Ok [OF assms(3)] by (simp_all add: s0_def)
  have eq: "pl_tok (se_pl s0) = pl_tok (se_pl s)" "pl_name (se_pl s0) = pl_name (se_pl s)" using s0(2) by (simp_all add: same_setup_def)
  note P = session_ok_parts [OF s0(1)]
  have sys: "\<forall>c \<in> set (system_prompt arch_name (pl_name (se_pl s))). scalar c"
    using assms(5) session_ok_parts(5) [OF assms(3)] by (auto simp: system_prompt_def lit_def scalar_def)
  have b: "below (dm_vocab (c_dims (i_cfg (pl_infer (se_pl s0))))) ids"
    using turn_ids_Ok [OF P(1,3) assms(2) sys assms(4), of "se_started s0"] assms(7) by (auto simp: s0_def [symmetric] eq)
  have cc: "concat (chunks 16 ids) = ids" by (rule concat_chunks) simp
  have cb: "\<forall>c \<in> set (chunks 16 ids). 0 < length c \<and> length c \<le> MAX_BATCH" using chunks_bounds [of _ 16 ids] by (force simp: MAX_BATCH_def)
  define s1 where "s1 = (say Llama [] (s0\<lparr>se_started := True\<rparr>))\<lparr>se_ticks := Suc (se_ticks s0)\<rparr>"
  have s1: "session_ok s1" "pl_infer (se_pl s1) = pl_infer (se_pl s0)" using s0(1) by (simp_all add: s1_def say_def session_keeps)
  have "gen_prefill H M (chunks 16 ids) s1 fr = Panic"
    using assms(8) remaining_eq [OF session_infer [OF s0(1)] P(4)] b
    by (intro gen_prefill_Panic assms(1,6) s1(1) cb) (simp_all add: cc s1(2) s0_def)
  then show ?thesis using assms(7) by (simp add: generate_def Let_def s0_def [symmetric] eq clock_now_def s1_def say_def)
qed

subsection \<open>A small session\<close>

text \<open>A vocabulary of two tokens: every byte is token 0, every special is token 1.\<close>

definition demo_tok :: tokenizer where
  "demo_tok = \<lparr>tk_specials = \<lparr>sp_bos = 1, sp_eos = 1, sp_eot = 1, sp_start_header = 1, sp_end_header = 1, sp_end_of_text = 1\<rparr>, tk_template = Granite,
     tk_vocab_count = 2, tk_byte_ids = replicate 1024 0, tk_table = replicate 16 0, tk_merges = [], tk_merge_count = 0, tk_pool = []\<rparr>"

definition window_dims :: "nat \<Rightarrow> dims" where
  "window_dims n = demo_dims\<lparr>dm_ctx := n\<rparr>"

definition window_infer :: "nat \<Rightarrow> infer" where
  "window_infer n = (demo_infer 0)\<lparr>i_cfg := demo_cfg\<lparr>c_dims := window_dims n\<rparr>, i_att := replicate (2 * n) 0,
     i_key := replicate (n * 16) 0, i_val := replicate (n * 16) 0\<rparr>"

lemma window_infer_ok: "infer_ok (window_infer n)"
  by (simp add: infer_ok_def window_infer_def window_dims_def demo_infer_def demo_cfg_def cfg_ok_def demo_dims_def dims_ok_def mat_ok_def layer_ok_def demo_layer_def
      scratch_ok_def batch_ok_def acts_room_def MAX_BATCH_def QK8_0_def QK_K_def demo_block_def)

lemma window_facts: "dm_ctx (c_dims (i_cfg (window_infer n))) = n" "dm_vocab (c_dims (i_cfg (window_infer n))) = 2" "i_pos (window_infer n) = 0"
  by (simp_all add: window_infer_def window_dims_def demo_dims_def demo_infer_def)

lemma window_remaining:
  assumes "n < usize_limit"
  shows "infer_remaining (window_infer n) = n" "infer_remaining (infer_reset (window_infer n)) = n"
  using assms by (simp_all add: infer_remaining_def infer_reset_def window_facts)

definition demo_session :: "fonts \<Rightarrow> nat \<Rightarrow> session" where
  "demo_session fs n = \<lparr>se_pl = \<lparr>pl_stride = 640, pl_layout = Bgrx, pl_fonts = fs, pl_ticks_per_ms = 1000, pl_arena = arena_new 0 0, pl_ram_mb = 1,
       pl_model = tiny_model, pl_tok = demo_tok, pl_name = lit ''demo'', pl_infer = window_infer n, pl_sampler = sampler_new F_ONE F_ONE 7, pl_cores = 1,
       pl_pp_milli = 0, pl_ftl_ms = 0, pl_assistant = lit ''llama''\<rparr>,
     se_surf = surface_new 640 480, se_shown = [], se_turns = [], se_started = False, se_keys = 0, se_ticks = 0\<rparr>"

definition quiet_host :: host where
  "quiet_host = \<lparr>ho_key = (\<lambda>_. None), ho_tick = of_nat\<rparr>"

lemma quiet_no_escape: "no_escape quiet_host"
  by (simp add: no_escape_def quiet_host_def)

lemma le_word_zeros: "le_word (replicate n 0) = 0"
  by (induction n) simp_all

lemma read_zeros: "le_word (sub (replicate n 0) a b) = 0"
  by (simp add: sub_def le_word_zeros)

lemma demo_tok_ok: "tok_ok demo_tok"
  by (simp add: tok_ok_def demo_tok_def special_ids_def entry_ok_def read_zeros)

lemma demo_tok_vocab: "vocab_in demo_tok 2"
proof -
  have "byte_id demo_tok b = 0" for b
  proof -
    have "unat b * 4 + 4 \<le> length (tk_byte_ids demo_tok)" using unsigned_less [of b, where 'a = nat] by (simp add: demo_tok_def)
    then have "byte_token demo_tok b = (Ok 0 :: (unit, _) outcome)" by (simp only: byte_token_def u32le_ok) (simp add: demo_tok_def read_zeros)
    then show ?thesis using byte_token_ok [OF demo_tok_ok, of b, where 'a = unit] by simp
  qed
  moreover have "merge_of demo_tok a b = None" for a b by (simp add: merge_of_def merge_def demo_tok_def merge_search.simps)
  ultimately show ?thesis by (simp add: vocab_in_def) (simp add: demo_tok_def special_ids_def)
qed

lemma demo_session_ok:
  assumes "n < usize_limit"
  shows "\<exists>fs. session_ok (demo_session fs n)"
proof -
  obtain fs where fs: "display_ok fs (lit ''llama'') 640 480" using demo_display by blast
  have "\<forall>c \<in> set (lit ''demo''). scalar c" by (simp add: lit_def scalar_def)
  then have "session_ok (demo_session fs n)"
    using fs assms window_infer_ok [of n] demo_tok_ok demo_tok_vocab sized_new [of 640 480] by (simp add: session_ok_def Let_def demo_session_def window_facts) (simp add: surface_new_def)
  then show ?thesis by blast
qed

lemma demo_turn:
  "\<exists>ids. turn_ids ascii_classes demo_tok (system_prompt (lit ''x86_64'') (lit ''demo'')) False (lit ''hi'') = Ok ids
     \<and> 5 \<le> length ids \<and> length ids \<le> 1024"
proof -
  have sys: "\<forall>c \<in> set (system_prompt (lit ''x86_64'') (lit ''demo'')). scalar c" by (simp add: system_prompt_def lit_def scalar_def)
  have p: "\<forall>c \<in> set (lit ''hi''). scalar c" by (simp add: lit_def scalar_def)
  have "str_len (system_prompt (lit ''x86_64'') (lit ''demo'')) \<le> 4 * 200" "str_len (lit ''hi'') \<le> 8"
    by (simp_all add: system_prompt_def lit_def len_utf8_def)
  with turn_ids_Ok [OF demo_tok_ok demo_tok_vocab ascii_class_ok sys p, of False] show ?thesis by fastforce
qed

lemma generate_is_sampling_witness:
  "\<exists>fs s' r shown. generate quiet_host demo_machine ascii_classes demo_sort (lit ''x86_64'') (lit ''hi'') 0 (demo_session fs 1024) = Ok (s', r)
    \<and> session_ok s' \<and> se_turns s' = [\<lparr>tn_role = Llama, tn_text = shown\<rparr>] \<and> shown \<noteq> []"
proof -
  obtain fs where s: "session_ok (demo_session fs 1024)" using demo_session_ok [of 1024] by (auto simp: usize_limit_def)
  obtain ids where ids: "turn_ids ascii_classes demo_tok (system_prompt (lit ''x86_64'') (lit ''demo'')) False (lit ''hi'') = Ok ids" "length ids \<le> 1024"
    using demo_turn by blast
  have rem: "infer_remaining (window_infer 1024) = 1024"
    by (rule window_remaining) (simp add: usize_limit_def)
  have room: "make_room (demo_session fs 1024) = demo_session fs 1024"
    using rem by (simp add: make_room_def demo_session_def MAX_GEN_TOKENS_def)
  have scal: "\<forall>c \<in> set (lit ''hi''). scalar c" "\<forall>c \<in> set (lit ''x86_64''). scalar c" by (simp_all add: lit_def scalar_def)
  have parts: "pl_tok (se_pl (demo_session fs 1024)) = demo_tok" "pl_name (se_pl (demo_session fs 1024)) = lit ''demo''" "se_started (demo_session fs 1024) = False"
      "pl_infer (se_pl (demo_session fs 1024)) = window_infer 1024" "se_turns (demo_session fs 1024) = []"
    by (simp_all add: demo_session_def)
  from generate_is_sampling [OF demo_machine_sched(1) demo_sort_sorts ascii_class_ok s scal, unfolded room parts, OF ids(1), of quiet_host 0] ids(2) rem
  show ?thesis by (simp only: append_Nil) blast
qed

lemma long_prompt_panics_witness:
  "\<exists>fs. generate quiet_host demo_machine ascii_classes demo_sort (lit ''x86_64'') (lit ''hi'') 0 (demo_session fs 4) = Panic"
proof -
  obtain fs where s: "session_ok (demo_session fs 4)" using demo_session_ok [of 4] by (auto simp: usize_limit_def)
  obtain ids where ids: "turn_ids ascii_classes demo_tok (system_prompt (lit ''x86_64'') (lit ''demo'')) False (lit ''hi'') = Ok ids" "5 \<le> length ids"
    using demo_turn by blast
  have parts: "pl_tok (se_pl (demo_session fs 4)) = demo_tok" "pl_name (se_pl (demo_session fs 4)) = lit ''demo''" by (simp_all add: demo_session_def)
  have started: "se_started (make_room (demo_session fs 4)) = False" by (simp add: make_room_def say_def demo_session_def set_infer_def)
  have "infer_remaining (window_infer 4) = 4" "infer_remaining (infer_reset (window_infer 4)) = 4"
    by (rule window_remaining, simp add: usize_limit_def)+
  then have rem: "infer_remaining (pl_infer (se_pl (make_room (demo_session fs 4)))) < length ids"
    using ids(2) by (simp add: make_room_def say_def demo_session_def set_infer_def)
  have scal: "\<forall>c \<in> set (lit ''hi''). scalar c" "\<forall>c \<in> set (lit ''x86_64''). scalar c" by (simp_all add: lit_def scalar_def)
  from long_prompt_panics [OF demo_machine_sched(1) ascii_class_ok s scal quiet_no_escape, unfolded started parts, OF ids(1) rem] show ?thesis by blast
qed

end
