(* ===== verification/Nr_App.thy ===== *)
theory Nr_App
  imports Nr_Reply Nr_Network
begin

text \<open>
  The application shell of \<^verbatim>\<open>crates/nr-boot/src/app.rs\<close>, built with the feature \<open>mcp\<close>: the chat loop with its line editor
  and commands, and the JSON-RPC service on the network. A JSON value is the data model that \<^verbatim>\<open>serde_json::Value\<close>
  documents (an object is a list of members); reading, writing and pretty-printing it are the record \<open>json_lib\<close>. The
  waits between frames and the serial log are left out. Powering the machine off is a flag.
\<close>

subsection \<open>JSON\<close>

datatype json = JNull | JBool bool | JNum int | JStr chars | JArr "json list" | JObj "(chars \<times> json) list"

record json_lib =
  js_parse :: "bytes \<Rightarrow> json option"
  js_parse_str :: "chars \<Rightarrow> json option"
  js_bytes :: "json \<Rightarrow> bytes"
  js_pretty :: "json \<Rightarrow> chars"

definition js_get :: "chars \<Rightarrow> json \<Rightarrow> json option" where
  "js_get k v = (case v of JObj ms \<Rightarrow> map_of ms k | _ \<Rightarrow> None)"

definition js_as_str :: "json \<Rightarrow> chars option" where
  "js_as_str v = (case v of JStr s \<Rightarrow> Some s | _ \<Rightarrow> None)"

text \<open>What the library documents of its strings: they are Unicode text.\<close>

fun json_text :: "json \<Rightarrow> bool" where
  "json_text (JStr s) = (\<forall>c \<in> set s. scalar c)"
| "json_text (JArr vs) = (\<forall>v \<in> set vs. json_text v)"
| "json_text (JObj ms) = (\<forall>m \<in> set ms. json_text (snd m))"
| "json_text _ = True"

text \<open>\<open>String::from_utf8_lossy\<close>: a malformed or cut sequence is one replacement character.\<close>

function from_utf8_lossy :: "bytes \<Rightarrow> chars" where
  "from_utf8_lossy [] = []"
| "from_utf8_lossy (a # bs) = (case utf8_next a bs of
       StepChar k \<Rightarrow> code_point (map unat (a # take (k - 1) bs)) # from_utf8_lossy (drop (k - 1) bs)
     | StepInvalid k \<Rightarrow> 0xfffd # from_utf8_lossy (drop (k - 1) bs)
     | StepIncomplete \<Rightarrow> [0xfffd])"
  by pat_completeness auto
termination by (relation "measure length") auto

fun show_nat :: "nat \<Rightarrow> chars" where
  "show_nat n = (if n < 10 then [48 + n] else show_nat (n div 10) @ [48 + n mod 10])"

declare show_nat.simps [simp del]

subsection \<open>The shell\<close>

record 'n shell =
  sh_s :: session
  sh_net :: "'n network option"
  sh_line :: chars
  sh_caret :: nat
  sh_frame :: u32
  sh_rate :: u32
  sh_scroll :: nat
  sh_off :: bool

text \<open>What surrounds it: firmware, processor, libraries, build constants.\<close>

record ('n, 'z) env =
  en_host :: host
  en_machine :: "'z machine_scheme"
  en_classes :: char_classes
  en_sort :: "cand list \<Rightarrow> cand list"
  en_arch :: chars
  en_version :: chars
  en_json :: json_lib
  en_nic :: "'n nic_ops"

definition dot :: chars where "dot = [32, 183, 32]"

definition intro_turn :: "chars \<Rightarrow> turn" where
  "intro_turn model_name = \<lparr>tn_role = System, tn_text =
     model_name @ dot @ lit ''resident in RAM'' @ dot @ lit ''fully local, no OS underneath. Type a prompt;'' @ [10]
       @ lit ''ESC stops generation'' @ dot @ lit ''UP/DOWN scroll history'' @ dot @ lit ''/clear new conversation'' @ dot @ lit ''/bye shut down''
       @ dot @ lit ''/mcp-list and /mcp-call use the trusted gateway''\<rparr>"

definition on_session :: "(session \<Rightarrow> session) \<Rightarrow> 'n shell \<Rightarrow> 'n shell" where
  "on_session f a = a\<lparr>sh_s := f (sh_s a)\<rparr>"

definition run_generate :: "('n, 'z) env \<Rightarrow> chars \<Rightarrow> u32 \<Rightarrow> session \<Rightarrow> (unit, session \<times> u32) outcome" where
  "run_generate E prompt fr s = generate (en_host E) (en_machine E) (en_classes E) (en_sort E) (en_arch E) prompt fr s"

subsection \<open>The line editor\<close>

definition byte_at :: "chars \<Rightarrow> nat \<Rightarrow> nat" where
  "byte_at s k = (if k < length s then str_len (take k s) else str_len s)"

text \<open>\<open>String::insert\<close> and \<open>String::remove\<close> take byte offsets and panic off a character boundary.\<close>

definition str_insert :: "chars \<Rightarrow> nat \<Rightarrow> nat \<Rightarrow> (unit, chars) outcome" where
  "str_insert s b c = obind (Nr_Pretok.split_at b s) (\<lambda>(l, r). Ok (l @ c # r))"

definition str_remove :: "chars \<Rightarrow> nat \<Rightarrow> (unit, chars) outcome" where
  "str_remove s b = obind (Nr_Pretok.split_at b s) (\<lambda>(l, r). case r of [] \<Rightarrow> Panic | _ # r \<Rightarrow> Ok (l @ r))"

definition edit_line :: "input_event \<Rightarrow> chars \<times> nat \<Rightarrow> (unit, chars \<times> nat) outcome" where
  "edit_line ev = (\<lambda>(line, caret). case ev of
       EvChar c \<Rightarrow> if length line < MAX_PROMPT_CHARS then obind (str_insert line (byte_at line caret) c) (\<lambda>line. Ok (line, caret + 1)) else Ok (line, caret)
     | EvBackspace \<Rightarrow> if 0 < caret then obind (str_remove line (byte_at line (caret - 1))) (\<lambda>line. Ok (line, caret - 1)) else Ok (line, caret)
     | EvDelete \<Rightarrow> if caret < length line then obind (str_remove line (byte_at line caret)) (\<lambda>line. Ok (line, caret)) else Ok (line, caret)
     | EvLeft \<Rightarrow> Ok (line, caret - 1)
     | EvRight \<Rightarrow> Ok (line, min (caret + 1) (length line))
     | _ \<Rightarrow> Ok (line, caret))"

subsection \<open>Requests to the gateway\<close>

definition queue_mcp_request :: "('n, 'z) env \<Rightarrow> json \<Rightarrow> 'n shell \<Rightarrow> 'n shell" where
  "queue_mcp_request E request a = (case sh_net a of
       Some net \<Rightarrow> on_session (say System (lit ''MCP request queued through the trusted gateway.''))
         (a\<lparr>sh_net := Some (fst (queue_upstream_request (js_bytes (en_json E) request) net))\<rparr>)
     | None \<Rightarrow> on_session (say System (lit ''MCP unavailable: no firmware network adapter.'')) a)"

definition rpc_request :: "u32 \<Rightarrow> chars \<Rightarrow> json \<Rightarrow> json" where
  "rpc_request i method params = JObj [(lit ''jsonrpc'', JStr (lit ''2.0'')), (lit ''id'', JNum (uint i)), (lit ''method'', JStr method), (lit ''params'', params)]"

text \<open>\<open>splitn\<close> at spaces.\<close>

fun splitn :: "nat \<Rightarrow> chars \<Rightarrow> chars list" where
  "splitn 0 s = []"
| "splitn (Suc 0) s = [s]"
| "splitn (Suc (Suc n)) s = (if 32 \<in> set s then takeWhile (\<lambda>c. c \<noteq> 32) s # splitn (Suc n) (drop 1 (dropWhile (\<lambda>c. c \<noteq> 32) s)) else [s])"

definition queue_mcp_call :: "('n, 'z) env \<Rightarrow> chars \<Rightarrow> u32 \<Rightarrow> 'n shell \<Rightarrow> 'n shell" where
  "queue_mcp_call E command i a =
     (let parts = splitn 3 command;
          call = (\<lambda>arguments. queue_mcp_request E (rpc_request i (lit ''tools/call'') (JObj [(lit ''name'', JStr (parts ! 1)), (lit ''arguments'', arguments)])) a) in
      if length parts < 2 \<or> parts ! 1 = [] then on_session (say System (lit ''usage: /mcp-call TOOL {JSON arguments}'')) a
      else if length parts = 2 then call (JObj [])
      else case js_parse_str (en_json E) (parts ! 2) of
          Some (JObj ms) \<Rightarrow> call (JObj ms)
        | _ \<Rightarrow> on_session (say System (lit ''MCP arguments must be one JSON object.'')) a)"

subsection \<open>Entering a line\<close>

definition trim :: "char_classes \<Rightarrow> chars \<Rightarrow> chars" where
  "trim cls s = rev (dropWhile (is_whitespace cls) (rev (dropWhile (is_whitespace cls) s)))"

definition starts_with :: "chars \<Rightarrow> chars \<Rightarrow> bool" where
  "starts_with p s \<longleftrightarrow> take (length p) s = p"

definition clear_conversation :: "session \<Rightarrow> session" where
  "clear_conversation s = say System (lit ''New conversation started.'')
     (s\<lparr>se_turns := [intro_turn (pl_name (se_pl s))], se_started := False,
        se_pl := (se_pl s)\<lparr>pl_infer := infer_reset (pl_infer (se_pl s)), pl_pp_milli := 0, pl_ftl_ms := 0\<rparr>\<rparr>)"

definition enter_line :: "('n, 'z) env \<Rightarrow> 'n shell \<Rightarrow> (unit, 'n shell) outcome" where
  "enter_line E a =
     (let trimmed = trim (en_classes E) (sh_line a); a = a\<lparr>sh_line := [], sh_caret := 0, sh_scroll := 0\<rparr> in
      if trimmed = [] then Ok a
      else if trimmed = lit ''/clear'' then Ok ((on_session clear_conversation a)\<lparr>sh_rate := 0\<rparr>)
      else if trimmed = lit ''/bye'' then
        obind (draw_chat [] 0 (sh_frame a) 0 False 0 (say System (lit ''Shutting down. Goodbye!'') (sh_s a))) (\<lambda>(s, _). Ok (a\<lparr>sh_s := s, sh_off := True\<rparr>))
      else if trimmed = lit ''/mcp-list'' then Ok (queue_mcp_request E (rpc_request (sh_frame a) (lit ''tools/list'') (JObj [])) a)
      else if starts_with (lit ''/mcp-call '') trimmed then Ok (queue_mcp_call E trimmed (sh_frame a) a)
      else if starts_with (lit ''/'') trimmed then
        Ok (on_session (say System (lit ''unknown command '' @ trimmed @ dot @ lit ''/clear starts a new conversation'' @ dot @ lit ''/bye shuts down'')) a)
      else obind (run_generate E trimmed (sh_frame a) (say User trimmed (sh_s a))) (\<lambda>(s, rate). Ok (a\<lparr>sh_s := s, sh_rate := rate\<rparr>)))"

definition handle_key :: "('n, 'z) env \<Rightarrow> nat \<Rightarrow> input_event \<Rightarrow> 'n shell \<Rightarrow> (unit, 'n shell) outcome" where
  "handle_key E page ev a = (case ev of
       EvEnter \<Rightarrow> enter_line E a
     | EvUp \<Rightarrow> Ok (a\<lparr>sh_scroll := min (sh_scroll a + 3) (usize_limit - 1)\<rparr>)
     | EvDown \<Rightarrow> Ok (a\<lparr>sh_scroll := sh_scroll a - 3\<rparr>)
     | EvPageUp \<Rightarrow> Ok (a\<lparr>sh_scroll := min (sh_scroll a + page) (usize_limit - 1)\<rparr>)
     | EvPageDown \<Rightarrow> Ok (a\<lparr>sh_scroll := sh_scroll a - page\<rparr>)
     | _ \<Rightarrow> obind (edit_line ev (sh_line a, sh_caret a)) (\<lambda>(line, caret). Ok (a\<lparr>sh_line := line, sh_caret := caret\<rparr>)))"

subsection \<open>Serving the network\<close>

definition js_obj :: "(char list \<times> json) list \<Rightarrow> json" where
  "js_obj ms = JObj (map (\<lambda>(k, v). (lit k, v)) ms)"

abbreviation js_str :: "char list \<Rightarrow> json" where "js_str t \<equiv> JStr (lit t)"

definition rpc_result :: "json \<Rightarrow> json \<Rightarrow> json" where
  "rpc_result i r = js_obj [(''jsonrpc'', js_str ''2.0''), (''id'', i), (''result'', r)]"

definition rpc_error :: "json \<Rightarrow> int \<Rightarrow> char list \<Rightarrow> json" where
  "rpc_error i code message = js_obj [(''jsonrpc'', js_str ''2.0''), (''id'', i), (''error'', js_obj [(''code'', JNum code), (''message'', js_str message)])]"

definition text_content :: "chars \<Rightarrow> json" where
  "text_content t = js_obj [(''content'', JArr [js_obj [(''type'', js_str ''text''), (''text'', JStr t)]]), (''isError'', JBool False)]"

definition initialize_result :: "chars \<Rightarrow> json" where
  "initialize_result version = js_obj [
     (''protocolVersion'', js_str ''2025-06-18''),
     (''capabilities'', js_obj [(''tools'', js_obj [])]),
     (''serverInfo'', js_obj [(''name'', js_str ''nightrun''), (''title'', js_str ''NightRun bare-metal LLM''), (''version'', JStr version)]),
     (''instructions'', js_str ''Tools run on the local NightRun model. nightrun_prompt changes the visible conversation.'')]"

definition tools_result :: json where
  "tools_result = js_obj [(''tools'', JArr [
     js_obj [(''name'', js_str ''nightrun_status''), (''title'', js_str ''NightRun Status''),
       (''description'', js_str ''Report the resident model, memory, CPU cores, and context usage.''),
       (''inputSchema'', js_obj [(''type'', js_str ''object''), (''properties'', js_obj []), (''additionalProperties'', JBool False)])],
     js_obj [(''name'', js_str ''nightrun_prompt''), (''title'', js_str ''Prompt NightRun''),
       (''description'', js_str ''Send a prompt to the local bare-metal language model. This changes the visible conversation.''),
       (''inputSchema'', js_obj [(''type'', js_str ''object''),
          (''properties'', js_obj [(''prompt'', js_obj [(''type'', js_str ''string''), (''minLength'', JNum 1), (''maxLength'', JNum (int MAX_PROMPT_CHARS))])]),
          (''required'', JArr [js_str ''prompt'']), (''additionalProperties'', JBool False)])]])]"

definition status_text :: "session \<Rightarrow> chars" where
  "status_text s = (let p = se_pl s in
     lit ''model='' @ pl_name p @ lit '' cores='' @ show_nat (unat (pl_cores p)) @ lit '' ram='' @ show_nat (unat (pl_ram_mb p)) @ lit ''MB context=''
       @ show_nat (i_pos (pl_infer p)) @ lit ''/'' @ show_nat (dm_ctx (c_dims (i_cfg (pl_infer p)))))"

text \<open>A tool call: the prompt to run, or the reply.\<close>

datatype tool_call = RunPrompt chars | Reply json | Refuse int "char list"

definition tool_call_of :: "json \<Rightarrow> session \<Rightarrow> tool_call" where
  "tool_call_of params s = (case Option.bind (js_get (lit ''name'') params) js_as_str of
       None \<Rightarrow> Refuse (-32602) ''tools/call requires a tool name''
     | Some name \<Rightarrow>
         if name = lit ''nightrun_status'' then Reply (text_content (status_text s))
         else if name = lit ''nightrun_prompt'' then
           (case Option.bind (Option.bind (js_get (lit ''arguments'') params) (js_get (lit ''prompt''))) js_as_str of
              Some prompt \<Rightarrow> if prompt \<noteq> [] \<and> length prompt \<le> MAX_PROMPT_CHARS then RunPrompt prompt
                else Refuse (-32602) ''nightrun_prompt requires a non-empty prompt''
            | None \<Rightarrow> Refuse (-32602) ''nightrun_prompt requires a non-empty prompt'')
         else Refuse (-32602) ''Unknown tool'')"

definition method_call :: "('n, 'z) env \<Rightarrow> json \<Rightarrow> session \<Rightarrow> tool_call" where
  "method_call E request s =
     (let method = (case Option.bind (js_get (lit ''method'') request) js_as_str of Some m \<Rightarrow> m | None \<Rightarrow> []) in
      if method = lit ''initialize'' then Reply (initialize_result (en_version E))
      else if method = lit ''ping'' then Reply (js_obj [])
      else if method = lit ''tools/list'' then Reply tools_result
      else if method = lit ''tools/call'' then tool_call_of (case js_get (lit ''params'') request of Some ps \<Rightarrow> ps | None \<Rightarrow> JNull) s
      else Refuse (-32601) ''Method not found'')"

definition handle_inbound_mcp :: "('n, 'z) env \<Rightarrow> u32 \<Rightarrow> bytes \<Rightarrow> session \<Rightarrow> (unit, session \<times> bytes option \<times> u32 option) outcome" where
  "handle_inbound_mcp E fr bytes s =
     (let out = js_bytes (en_json E) in
      case js_parse (en_json E) bytes of
        None \<Rightarrow> Ok (s, Some (out (rpc_error JNull (-32700) ''Parse error'')), None)
      | Some request \<Rightarrow> (case js_get (lit ''id'') request of
          None \<Rightarrow> Ok (s, None, None)
        | Some i \<Rightarrow> (case method_call E request s of
            Reply r \<Rightarrow> Ok (s, Some (out (rpc_result i r)), None)
          | Refuse code message \<Rightarrow> Ok (s, Some (out (rpc_error i code message)), None)
          | RunPrompt prompt \<Rightarrow> obind (run_generate E prompt fr (say User prompt s)) (\<lambda>(s, rate).
              Ok (s, Some (out (rpc_result i (text_content (if se_turns s = [] then [] else tn_text (last (se_turns s)))))), Some rate)))))"

definition serve_message :: "('n, 'z) env \<Rightarrow> mcp_message \<Rightarrow> 'n shell \<Rightarrow> (unit, 'n shell) outcome" where
  "serve_message E m a = (case mm_kind m of
       HostRequest \<Rightarrow> obind (handle_inbound_mcp E (sh_frame a) (mm_json m) (sh_s a)) (\<lambda>(s, response, rate).
         Ok (a\<lparr>sh_s := s, sh_rate := (case rate of Some r \<Rightarrow> r | None \<Rightarrow> sh_rate a),
           sh_net := (case response of Some r \<Rightarrow> map_option (queue_response (mm_message_id m) r) (sh_net a) | None \<Rightarrow> sh_net a)\<rparr>))
     | HostResponse \<Rightarrow> let t = (case js_parse (en_json E) (mm_json m) of Some v \<Rightarrow> js_pretty (en_json E) v | None \<Rightarrow> from_utf8_lossy (mm_json m)) in
         Ok (on_session (say System (lit ''MCP response:'' @ [10] @ t)) a)
     | _ \<Rightarrow> Ok a)"

text \<open>One poll of the network; the fuel bounds the receive loop.\<close>

definition service_mcp :: "nat \<Rightarrow> ('n, 'z) env \<Rightarrow> 'n shell \<Rightarrow> (unit, 'n shell) outcome option" where
  "service_mcp fuel E a = (case sh_net a of
       None \<Rightarrow> Some (Ok a)
     | Some net \<Rightarrow> map_option (\<lambda>r. obind r (\<lambda>(net, m). let a = a\<lparr>sh_net := Some net\<rparr> in
         case m of None \<Rightarrow> Ok a | Some m \<Rightarrow> serve_message E m a)) (poll_mcp fuel (en_nic E) net))"

subsection \<open>The chat loop\<close>

text \<open>The keys that are waiting; \<open>None\<close> when they do not end within the fuel.\<close>

primrec drain_keys :: "nat \<Rightarrow> ('n, 'z) env \<Rightarrow> nat \<Rightarrow> bool \<Rightarrow> 'n shell \<Rightarrow> (unit, bool \<times> 'n shell) outcome option" where
  "drain_keys 0 E page dirty a = None"
| "drain_keys (Suc fuel) E page dirty a =
     (let (ev, s) = poll (en_host E) (sh_s a); a = a\<lparr>sh_s := s\<rparr> in
      case ev of None \<Rightarrow> Some (Ok (dirty, a))
      | Some ev \<Rightarrow> (case handle_key E page ev a of
          Ok a \<Rightarrow> if sh_off a then Some (Ok (True, a)) else drain_keys fuel E page True a
        | Err e \<Rightarrow> Some (Err e) | Panic \<Rightarrow> Some Panic))"

definition redraw :: "bool \<Rightarrow> 'n shell \<Rightarrow> (unit, 'n shell) outcome" where
  "redraw dirty a =
     (if sh_off a then Ok a
      else obind (if dirty \<or> sh_frame a mod 8 = 0
        then obind (draw_chat (sh_line a) (sh_caret a) (sh_frame a) (sh_rate a) False (sh_scroll a) (sh_s a)) (\<lambda>(s, k). Ok (a\<lparr>sh_s := s, sh_scroll := k\<rparr>))
        else Ok a) (\<lambda>a. Ok (a\<lparr>sh_frame := sh_frame a + 1\<rparr>)))"

text \<open>One round of \<open>chat_loop\<close>.\<close>

definition chat_round :: "nat \<Rightarrow> ('n, 'z) env \<Rightarrow> nat \<Rightarrow> 'n shell \<Rightarrow> (unit, 'n shell) outcome option" where
  "chat_round fuel E page a =
     (case service_mcp fuel E a of
        Some (Ok a) \<Rightarrow> (case drain_keys fuel E page False a of
            Some (Ok (dirty, a)) \<Rightarrow> Some (redraw dirty a)
          | Some (Err e) \<Rightarrow> Some (Err e) | Some Panic \<Rightarrow> Some Panic | None \<Rightarrow> None)
      | Some (Err e) \<Rightarrow> Some (Err e) | Some Panic \<Rightarrow> Some Panic | None \<Rightarrow> None)"

text \<open>The state the loop starts in.\<close>

definition chat_start :: "session \<Rightarrow> 'n network option \<Rightarrow> 'n shell" where
  "chat_start s net = \<lparr>sh_s = s\<lparr>se_turns := [intro_turn (pl_name (se_pl s))], se_started := False\<rparr>, sh_net = net, sh_line = [], sh_caret = 0,
     sh_frame = 0, sh_rate = 0, sh_scroll = 0, sh_off = False\<rparr>"

subsection \<open>The line editor edits a line\<close>

text \<open>The abstract line: what is before the caret, what is after.\<close>

definition zip_edit :: "input_event \<Rightarrow> chars \<times> chars \<Rightarrow> chars \<times> chars" where
  "zip_edit ev = (\<lambda>(l, r). case ev of
       EvChar c \<Rightarrow> if length l + length r < MAX_PROMPT_CHARS then (l @ [c], r) else (l, r)
     | EvBackspace \<Rightarrow> (butlast l, r)
     | EvDelete \<Rightarrow> (l, drop 1 r)
     | EvLeft \<Rightarrow> if l = [] then (l, r) else (butlast l, last l # r)
     | EvRight \<Rightarrow> (case r of [] \<Rightarrow> (l, r) | c # r \<Rightarrow> (l @ [c], r))
     | _ \<Rightarrow> (l, r))"

lemma byte_at_eq: "k \<le> length s \<Longrightarrow> byte_at s k = str_len (take k s)"
  by (auto simp: byte_at_def)

lemma str_insert_Ok: "k \<le> length s \<Longrightarrow> str_insert s (byte_at s k) c = Ok (take k s @ c # drop k s)"
  by (simp add: str_insert_def byte_at_eq split_at_take)

lemma str_remove_Ok: "k < length s \<Longrightarrow> str_remove s (byte_at s k) = Ok (take k s @ drop (Suc k) s)"
  by (simp add: str_remove_def byte_at_eq split_at_take Cons_nth_drop_Suc [symmetric])

text \<open>The state of the editor after an event.\<close>

definition edited :: "input_event \<Rightarrow> chars \<Rightarrow> nat \<Rightarrow> chars \<times> nat" where
  "edited ev line caret = (case ev of
       EvChar c \<Rightarrow> if length line < MAX_PROMPT_CHARS then (take caret line @ c # drop caret line, caret + 1) else (line, caret)
     | EvBackspace \<Rightarrow> if 0 < caret then (take (caret - 1) line @ drop caret line, caret - 1) else (line, caret)
     | EvDelete \<Rightarrow> if caret < length line then (take caret line @ drop (Suc caret) line, caret) else (line, caret)
     | EvLeft \<Rightarrow> (line, caret - 1)
     | EvRight \<Rightarrow> (line, min (caret + 1) (length line))
     | _ \<Rightarrow> (line, caret))"

lemma edit_line_Ok: "caret \<le> length line \<Longrightarrow> edit_line ev (line, caret) = Ok (edited ev line caret)"
  by (auto simp: edit_line_def edited_def str_insert_Ok str_remove_Ok split: input_event.split)

lemma edited_bounds:
  assumes "caret \<le> length line"
  shows "snd (edited ev line caret) \<le> length (fst (edited ev line caret))"
    and "length line \<le> MAX_PROMPT_CHARS \<Longrightarrow> length (fst (edited ev line caret)) \<le> MAX_PROMPT_CHARS"
    and "length (fst (edited ev line caret)) \<le> Suc (length line)"
    and "set (fst (edited ev line caret)) \<subseteq> set line \<union> (case ev of EvChar c \<Rightarrow> {c} | _ \<Rightarrow> {})"
  using assms set_take_subset [of _ line] set_drop_subset [of _ line]
  by (auto simp: edited_def split: input_event.split dest!: in_set_takeD in_set_dropD)

lemma edited_zip:
  assumes "caret \<le> length line"
  shows "(take (snd (edited ev line caret)) (fst (edited ev line caret)), drop (snd (edited ev line caret)) (fst (edited ev line caret)))
    = zip_edit ev (take caret line, drop caret line)"
proof (cases ev)
  case EvBackspace
  then show ?thesis using assms by (cases caret) (auto simp: edited_def zip_edit_def butlast_take)
next
  case EvLeft
  show ?thesis
  proof (cases caret)
    case (Suc n)
    then have "take caret line = take n line @ [line ! n]" "drop n line = line ! n # drop caret line"
      using assms by (simp_all add: take_Suc_conv_app_nth Cons_nth_drop_Suc)
    then show ?thesis using EvLeft Suc by (simp add: edited_def zip_edit_def)
  qed (simp add: EvLeft edited_def zip_edit_def)
next
  case EvRight
  show ?thesis
  proof (cases "caret < length line")
    case True
    then have "drop caret line = line ! caret # drop (Suc caret) line" by (simp add: Cons_nth_drop_Suc)
    then show ?thesis using True EvRight by (simp add: edited_def zip_edit_def take_Suc_conv_app_nth min_def)
  qed (use assms EvRight in \<open>simp add: edited_def zip_edit_def min_def\<close>)
qed (use assms in \<open>auto simp: edited_def zip_edit_def\<close>)

text \<open>C37: The line editor edits the line it shows. Although it works with byte offsets into UTF-8, every key acts on the text
  before and after the caret as a plain editor does: no key panics, the caret stays within the line, and the line never
  grows beyond the prompt limit.\<close>

theorem editor_is_zipper:
  assumes "caret \<le> length line"
  shows "\<exists>line' caret'. edit_line ev (line, caret) = Ok (line', caret') \<and> caret' \<le> length line' \<and> length line' \<le> max (length line) MAX_PROMPT_CHARS
    \<and> (take caret' line', drop caret' line') = zip_edit ev (take caret line, drop caret line)"
proof -
  have "length (fst (edited ev line caret)) \<le> max (length line) MAX_PROMPT_CHARS"
    using assms by (auto simp: edited_def split: input_event.split)
  then show ?thesis using edit_line_Ok [OF assms] edited_bounds(1) [OF assms] edited_zip [OF assms]
    by (intro exI [of _ "fst (edited ev line caret)"] exI [of _ "snd (edited ev line caret)"]) simp
qed

lemma editor_is_zipper_witness:
  "\<exists>line' caret'. edit_line EvBackspace ([0xe9, 0x20ac], 1) = Ok (line', caret') \<and> (take caret' line', drop caret' line') = ([], [0x20ac])"
proof -
  have "(1 :: nat) \<le> length [0xe9, 0x20ac :: nat]" by simp
  from editor_is_zipper [OF this, of EvBackspace] show ?thesis by (auto simp: zip_edit_def)
qed

subsection \<open>A well-formed shell\<close>

definition env_ok :: "('n, 'z) env \<Rightarrow> bool" where
  "env_ok E \<longleftrightarrow> sched_ok (en_machine E) \<and> sorts (en_sort E) \<and> class_ok (en_classes E) \<and> (\<forall>c \<in> set (en_arch E). scalar c) \<and> nic_sane (en_nic E)
     \<and> (\<forall>n c. ho_key (en_host E) n = Some (Printable c) \<longrightarrow> scalar c) \<and> (\<forall>bytes v. js_parse (en_json E) bytes = Some v \<longrightarrow> json_text v)"

text \<open>A prompt that fits the 1024 positions \<open>make_room\<close> guarantees, by its length in bytes.\<close>

definition short_prompt :: "('n, 'z) env \<Rightarrow> session \<Rightarrow> nat \<Rightarrow> bool" where
  "short_prompt E s n \<longleftrightarrow> str_len (system_prompt (en_arch E) (pl_name (se_pl s))) + n + 64 \<le> MAX_GEN_TOKENS + 256"

definition wide_window :: "session \<Rightarrow> bool" where
  "wide_window s \<longleftrightarrow> MAX_GEN_TOKENS + 256 \<le> dm_ctx (c_dims (i_cfg (pl_infer (se_pl s))))"

definition shell_ok :: "'n shell \<Rightarrow> bool" where
  "shell_ok a \<longleftrightarrow> session_ok (sh_s a) \<and> wide_window (sh_s a) \<and> sh_caret a \<le> length (sh_line a) \<and> length (sh_line a) \<le> MAX_PROMPT_CHARS
     \<and> (\<forall>c \<in> set (sh_line a). scalar c) \<and> (\<forall>net. sh_net a = Some net \<longrightarrow> network_ok net)"

lemma make_room_room:
  assumes "session_ok s" and "wide_window s"
  shows "MAX_GEN_TOKENS + 256 \<le> infer_remaining (pl_infer (se_pl (make_room s)))"
proof (cases "infer_remaining (pl_infer (se_pl s)) < MAX_GEN_TOKENS + 256")
  case True
  have i: "infer_ok (infer_reset (pl_infer (se_pl s)))" using session_infer [OF assms(1)] by (simp add: infer_ok_def Let_def infer_reset_def)
  from remaining_eq [OF this] show ?thesis
    using True assms(2) session_ok_parts(4) [OF assms(1)] by (simp add: make_room_def say_def set_infer_def infer_reset_def wide_window_def)
qed (simp add: make_room_def)

lemma run_generate_Ok:
  assumes E: "env_ok E" and s: "session_ok s" "wide_window s" and p: "\<forall>c \<in> set prompt. scalar c" "short_prompt E s (str_len prompt)"
  shows "\<exists>s' r shown. run_generate E prompt fr s = Ok (s', r) \<and> session_ok s' \<and> same_setup s s'
    \<and> se_turns s' = se_turns (make_room s) @ [\<lparr>tn_role = Llama, tn_text = shown\<rparr>] \<and> shown \<noteq> []"
proof -
  have e: "sched_ok (en_machine E)" "sorts (en_sort E)" "class_ok (en_classes E)" "\<forall>c \<in> set (en_arch E). scalar c" using E by (simp_all add: env_ok_def)
  note P = session_ok_parts [OF s(1)]
  have sys: "\<forall>c \<in> set (system_prompt (en_arch E) (pl_name (se_pl s))). scalar c"
    using e(4) P(5) by (auto simp: system_prompt_def lit_def scalar_def)
  obtain ids where ids: "turn_ids (en_classes E) (pl_tok (se_pl s)) (system_prompt (en_arch E) (pl_name (se_pl s))) (se_started (make_room s)) prompt = Ok ids"
      "length ids \<le> str_len (system_prompt (en_arch E) (pl_name (se_pl s))) + str_len prompt + 64"
    using turn_ids_Ok [OF P(1,3) e(3) sys p(1)] by blast
  have "length ids \<le> infer_remaining (pl_infer (se_pl (make_room s)))" using ids(2) p(2) make_room_room [OF s] by (simp add: short_prompt_def)
  from generate_Ok [OF e(1-3) s(1) p(1) e(4) ids(1) this, of "en_host E" fr] show ?thesis unfolding run_generate_def by blast
qed

lemma wide_same: "same_setup s s' \<Longrightarrow> wide_window s' = wide_window s"
  by (simp add: same_setup_def wide_window_def)

lemma session_say: "session_ok s \<Longrightarrow> session_ok (say r t s)" "wide_window (say r t s) = wide_window s" "short_prompt E (say r t s) n = short_prompt E s n"
    "pl_name (se_pl (say r t s)) = pl_name (se_pl s)" "se_keys (say r t s) = se_keys s"
  by (simp_all add: say_def session_ok_turns wide_window_def short_prompt_def)

lemma shell_say: "shell_ok a \<Longrightarrow> shell_ok (on_session (say r t) a)"
  by (simp add: shell_ok_def on_session_def session_say)

lemma session_clear: "session_ok s \<Longrightarrow> session_ok (clear_conversation s)" "wide_window (clear_conversation s) = wide_window s"
  by (simp_all add: clear_conversation_def say_def session_ok_def Let_def infer_reset_def infer_ok_def wide_window_def)

lemma shell_request: "shell_ok a \<Longrightarrow> shell_ok (queue_mcp_request E r a)"
proof (cases "sh_net a")
  case (Some net)
  assume a: "shell_ok a"
  then have "network_ok (fst (queue_upstream_request (js_bytes (en_json E) r) net))"
    using Some network_ok_upstream [of net "js_bytes (en_json E) r"] by (simp add: shell_ok_def)
  then have "shell_ok (a\<lparr>sh_net := Some (fst (queue_upstream_request (js_bytes (en_json E) r) net))\<rparr>)" using a by (simp add: shell_ok_def)
  from shell_say [OF this] show ?thesis by (simp add: queue_mcp_request_def Some)
qed (simp add: queue_mcp_request_def shell_say)

lemma shell_call: "shell_ok a \<Longrightarrow> shell_ok (queue_mcp_call E c i a)"
  by (auto simp: queue_mcp_call_def Let_def shell_say shell_request split: option.split json.split)

lemma trim_sub: "set (trim cls s) \<subseteq> set s" "str_len (trim cls s) \<le> str_len s"
proof -
  have sub: "str_len (dropWhile P x) \<le> str_len x" for P x by (induction x) auto
  have rv: "str_len (rev x) = str_len x" for x by (induction x) auto
  show "set (trim cls s) \<subseteq> set s" by (auto simp: trim_def dest!: set_dropWhileD)
  show "str_len (trim cls s) \<le> str_len s"
    using sub [of "is_whitespace cls" "rev (dropWhile (is_whitespace cls) s)"] sub [of "is_whitespace cls" s] by (simp add: trim_def rv)
qed

lemma enter_line_Ok:
  assumes E: "env_ok E" and a: "shell_ok a" and p: "short_prompt E (sh_s a) (str_len (sh_line a))"
  shows "\<exists>a'. enter_line E a = Ok a' \<and> shell_ok a' \<and> sh_line a' = [] \<and> pl_name (se_pl (sh_s a')) = pl_name (se_pl (sh_s a))"
proof -
  define t where "t = trim (en_classes E) (sh_line a)"
  define b where "b = a\<lparr>sh_line := [], sh_caret := 0, sh_scroll := 0\<rparr>"
  have b: "shell_ok b" "sh_s b = sh_s a" "sh_line b = []" "sh_frame b = sh_frame a" using a by (simp_all add: b_def shell_ok_def)
  have s: "session_ok (sh_s a)" "wide_window (sh_s a)" using a by (simp_all add: shell_ok_def)
  have eq: "enter_line E a = (if t = [] then Ok b
      else if t = lit ''/clear'' then Ok ((on_session clear_conversation b)\<lparr>sh_rate := 0\<rparr>)
      else if t = lit ''/bye'' then
        obind (draw_chat [] 0 (sh_frame b) 0 False 0 (say System (lit ''Shutting down. Goodbye!'') (sh_s b))) (\<lambda>(s, _). Ok (b\<lparr>sh_s := s, sh_off := True\<rparr>))
      else if t = lit ''/mcp-list'' then Ok (queue_mcp_request E (rpc_request (sh_frame b) (lit ''tools/list'') (JObj [])) b)
      else if starts_with (lit ''/mcp-call '') t then Ok (queue_mcp_call E t (sh_frame b) b)
      else if starts_with (lit ''/'') t then
        Ok (on_session (say System (lit ''unknown command '' @ t @ dot @ lit ''/clear starts a new conversation'' @ dot @ lit ''/bye shuts down'')) b)
      else obind (run_generate E t (sh_frame b) (say User t (sh_s b))) (\<lambda>(s, rate). Ok (b\<lparr>sh_s := s, sh_rate := rate\<rparr>)))"
    by (simp only: enter_line_def Let_def t_def b_def)
  have kept: "sh_line (on_session f x) = sh_line x" "sh_s (on_session f x) = f (sh_s x)" for f and x :: "'a shell" by (simp_all add: on_session_def)
  have req: "sh_line (queue_mcp_request E r b) = []" "pl_name (se_pl (sh_s (queue_mcp_request E r b))) = pl_name (se_pl (sh_s a))" for r
    using b by (simp_all add: queue_mcp_request_def kept session_say split: option.split)
  have call: "sh_line (queue_mcp_call E c i b) = []" "pl_name (se_pl (sh_s (queue_mcp_call E c i b))) = pl_name (se_pl (sh_s a))" for c i
    using b by (simp_all add: queue_mcp_call_def Let_def kept session_say req split: option.split json.split)
  consider "t = []" | "t = lit ''/clear''" "t \<noteq> []" | "t = lit ''/bye''" "t \<noteq> []" "t \<noteq> lit ''/clear''"
    | "t \<noteq> []" "t \<noteq> lit ''/clear''" "t \<noteq> lit ''/bye''" "t = lit ''/mcp-list'' \<or> starts_with (lit ''/'') t \<or> starts_with (lit ''/mcp-call '') t"
    | "t \<noteq> []" "t \<noteq> lit ''/clear''" "t \<noteq> lit ''/bye''" "t \<noteq> lit ''/mcp-list''" "\<not> starts_with (lit ''/'') t" "\<not> starts_with (lit ''/mcp-call '') t" by blast
  then show ?thesis
  proof cases
    case 1
    then show ?thesis using b eq by simp
  next
    case 2
    have "shell_ok ((on_session clear_conversation b)\<lparr>sh_rate := 0\<rparr>)" using b(1,2) by (simp add: shell_ok_def on_session_def session_clear)
    moreover have "enter_line E a = Ok ((on_session clear_conversation b)\<lparr>sh_rate := 0\<rparr>)" using 2 by (simp only: eq simp_thms if_False if_True)
    ultimately show ?thesis using b by (intro exI [of _ "(on_session clear_conversation b)\<lparr>sh_rate := 0\<rparr>"]) (simp add: on_session_def clear_conversation_def say_def)
  next
    case 3
    obtain s' k where d: "draw_chat [] 0 (sh_frame b) 0 False 0 (say System (lit ''Shutting down. Goodbye!'') (sh_s b)) = Ok (s', k)"
        "redrawn (say System (lit ''Shutting down. Goodbye!'') (sh_s b)) s'"
      using draw_chat_Ok [OF session_say(1)] s(1) unfolding b(2) by blast
    then have s': "session_ok s'" "same_setup (say System (lit ''Shutting down. Goodbye!'') (sh_s b)) s'" by (simp_all add: redrawn_def)
    have "enter_line E a = Ok (b\<lparr>sh_s := s', sh_off := True\<rparr>)" using 3 d(1) by (simp only: eq simp_thms if_False if_True obind.simps prod.case)
    moreover have "shell_ok (b\<lparr>sh_s := s', sh_off := True\<rparr>)" using b s' wide_same [OF s'(2)] s(2) by (simp add: shell_ok_def session_say)
    ultimately show ?thesis using b s'(2) by (intro exI [of _ "b\<lparr>sh_s := s', sh_off := True\<rparr>"]) (simp add: same_setup_def session_say)
  next
    case 4
    consider "t = lit ''/mcp-list''" | "t \<noteq> lit ''/mcp-list''" "starts_with (lit ''/mcp-call '') t"
      | "t \<noteq> lit ''/mcp-list''" "\<not> starts_with (lit ''/mcp-call '') t" "starts_with (lit ''/'') t" using 4(4) by blast
    then show ?thesis
    proof cases
      case 1
      then have "enter_line E a = Ok (queue_mcp_request E (rpc_request (sh_frame b) (lit ''tools/list'') (JObj [])) b)" using 4 by (simp only: eq simp_thms if_False if_True)
      then show ?thesis using shell_request [OF b(1)] req by blast
    next
      case 2
      then have "enter_line E a = Ok (queue_mcp_call E t (sh_frame b) b)" using 4 by (simp only: eq simp_thms if_False if_True)
      then show ?thesis using shell_call [OF b(1)] call by blast
    next
      case 3
      then have "enter_line E a = Ok (on_session (say System (lit ''unknown command '' @ t @ dot @ lit ''/clear starts a new conversation'' @ dot @ lit ''/bye shuts down'')) b)"
        using 4 by (simp only: eq simp_thms if_False if_True)
      then show ?thesis using shell_say [OF b(1)] b kept session_say(4) by metis
    qed
  next
    case 5
    have sc: "\<forall>c \<in> set t. scalar c" using a trim_sub(1) [of "en_classes E" "sh_line a"] by (auto simp: shell_ok_def t_def)
    have sp: "short_prompt E (say User t (sh_s a)) (str_len t)" using p trim_sub(2) [of "en_classes E" "sh_line a"] by (simp add: short_prompt_def t_def say_def)
    obtain s' r where g: "run_generate E t (sh_frame b) (say User t (sh_s b)) = Ok (s', r)" "session_ok s'" "same_setup (say User t (sh_s a)) s'"
      using run_generate_Ok [OF E session_say(1) [OF s(1)] _ sc sp, of "sh_frame b"] s(2) unfolding b(2) session_say(2) by blast
    have "enter_line E a = Ok (b\<lparr>sh_s := s', sh_rate := r\<rparr>)" using 5 g(1) by (simp only: eq simp_thms if_False obind.simps prod.case)
    moreover have "shell_ok (b\<lparr>sh_s := s', sh_rate := r\<rparr>)" using b g(2) wide_same [OF g(3)] s(2) by (simp add: shell_ok_def session_say)
    ultimately show ?thesis using b g(3) by (intro exI [of _ "b\<lparr>sh_s := s', sh_rate := r\<rparr>"]) (simp add: same_setup_def session_say)
  qed
qed

subsection \<open>Keys are only read forward\<close>

lemma draw_chat_keys: "draw_chat inp caret fr rate gen scroll s = Ok (s', k) \<Longrightarrow> se_keys s' = se_keys s"
  by (auto simp: draw_chat_def Let_def obind_Ok_iff)

lemma setter_keys [simp]: "se_keys (set_infer i s) = se_keys s" "se_keys (set_sampler m s) = se_keys s" "se_keys (say r t s) = se_keys s"
    "se_keys (make_room s) = se_keys s" "se_keys (clear_conversation s) = se_keys s"
  by (simp_all add: set_infer_def set_sampler_def say_def make_room_def clear_conversation_def)

lemma gen_prefill_keys: "gen_prefill H M cs s fr = Ok (s', fr') \<Longrightarrow> se_keys s \<le> se_keys s'"
proof (induction cs arbitrary: s fr)
  case (Cons c cs)
  then obtain i s1 k where 1: "draw_chat [] 0 fr 0 True 0 (set_infer i s) = Ok (s1, k)"
      "(if fst (poll H s1) = Some EvEscape then Ok (snd (poll H s1), fr + 1) else gen_prefill H M cs (snd (poll H s1)) (fr + 1)) = Ok (s', fr')"
    by (auto simp: obind_Ok_iff Let_def case_prod_beta) (metis fst_conv)
  have "se_keys (snd (poll H s1)) = Suc (se_keys s)" using draw_chat_keys [OF 1(1)] by (simp add: poll_def)
  then show ?case using 1(2) Cons.IH [of "snd (poll H s1)" "fr + 1"] by (auto split: if_splits)
qed simp

lemma gen_show_keys: "gen_show H t0 g = Ok (ev, g') \<Longrightarrow> se_keys (gn_s g) \<le> se_keys (gn_s g')"
  by (auto simp: gen_show_def Let_def obind_Ok_iff set_last_text_def clock_now_def poll_def dest!: draw_chat_keys split: if_splits)

lemma gen_loop_keys: "gen_loop H M srt t0 left g = Ok g' \<Longrightarrow> se_keys (gn_s g) \<le> se_keys (gn_s g')"
proof (induction left arbitrary: g)
  case (Suc left)
  show ?case
  proof (cases "is_stop (pl_tok (se_pl (gn_s g))) (gn_next g) \<or> infer_remaining (pl_infer (se_pl (gn_s g))) = 0")
    case False
    then obtain ev h where h: "gen_show H t0 g = Ok (ev, h)"
      "ev = Some EvEscape \<and> g' = h \<or> (\<exists>i u m. gen_loop H M srt t0 left (h\<lparr>gn_s := set_sampler m (set_infer i (gn_s h)), gn_next := u\<rparr>) = Ok g')"
      using Suc.prems by (auto simp: obind_Ok_iff split: if_splits) blast
    from h(2) show ?thesis using gen_show_keys [OF h(1)] Suc.IH by (auto dest!: Suc.IH)
  qed (use Suc.prems in simp)
qed simp

lemma generate_keys: "generate H M cls srt arch_name prompt fr s = Ok (s', r) \<Longrightarrow> se_keys s \<le> se_keys s'"
proof -
  assume "generate H M cls srt arch_name prompt fr s = Ok (s', r)"
  then obtain ids s1 s2 fr2 t0 g where 1: "gen_prefill H M (chunks 16 ids) s1 fr = Ok (s2, fr2)" "se_keys s1 = se_keys s"
      "\<exists>g0. gen_loop H M srt t0 MAX_GEN_TOKENS g0 = Ok g \<and> se_keys (gn_s g0) = se_keys s2" "\<exists>t0. close_turn H M t0 g = Ok (s', r)"
    unfolding generate_def Let_def clock_now_def
    by (auto simp: obind_Ok_iff) (force simp: say_def)
  have "se_keys s' = se_keys (gn_s g)" using 1(4) by (auto simp: close_turn_def Let_def obind_Ok_iff clock_now_def split: if_splits)
  then show ?thesis using gen_prefill_keys [OF 1(1)] 1(2,3) gen_loop_keys by (metis order.trans)
qed

lemma enter_line_keys: "enter_line E a = Ok a' \<Longrightarrow> se_keys (sh_s a) \<le> se_keys (sh_s a')"
  by (auto simp: enter_line_def Let_def obind_Ok_iff on_session_def queue_mcp_request_def queue_mcp_call_def run_generate_def
      dest!: draw_chat_keys generate_keys split: if_splits option.splits json.splits)

subsection \<open>A round of the loop\<close>

lemma str_len_bound: "str_len s \<le> 4 * length s"
proof (induction s)
  case (Cons c s)
  then show ?case using add_mono [OF len_utf8_bounds(3) [of c] Cons] by simp
qed simp

lemma short_mono: "short_prompt E s n \<Longrightarrow> m \<le> n \<Longrightarrow> short_prompt E s m"
  by (simp add: short_prompt_def)

lemma short_name: "pl_name (se_pl s') = pl_name (se_pl s) \<Longrightarrow> short_prompt E s' n = short_prompt E s n"
  by (simp add: short_prompt_def)

lemma handle_key_Ok:
  assumes E: "env_ok E" and a: "shell_ok a" and p: "short_prompt E (sh_s a) (4 * length (sh_line a))" and c: "\<And>c. ev = EvChar c \<Longrightarrow> scalar c"
  shows "\<exists>a'. handle_key E page ev a = Ok a' \<and> shell_ok a' \<and> length (sh_line a') \<le> Suc (length (sh_line a))
    \<and> pl_name (se_pl (sh_s a')) = pl_name (se_pl (sh_s a)) \<and> se_keys (sh_s a) \<le> se_keys (sh_s a')"
proof (cases "ev = EvEnter")
  case True
  have "short_prompt E (sh_s a) (str_len (sh_line a))" using p str_len_bound short_mono by blast
  from enter_line_Ok [OF E a this] show ?thesis using True enter_line_keys by (fastforce simp: handle_key_def)
next
  case False
  have caret: "sh_caret a \<le> length (sh_line a)" using a by (simp add: shell_ok_def)
  define r where "r = edited ev (sh_line a) (sh_caret a)"
  have r: "snd r \<le> length (fst r)" "length (fst r) \<le> MAX_PROMPT_CHARS" "length (fst r) \<le> Suc (length (sh_line a))" "\<forall>c \<in> set (fst r). scalar c"
    using edited_bounds [OF caret, of ev] a c by (auto simp: r_def shell_ok_def split: input_event.splits)
  have "shell_ok (a\<lparr>sh_line := fst r, sh_caret := snd r\<rparr>)" using a r by (simp add: shell_ok_def)
  moreover have "shell_ok (a\<lparr>sh_scroll := k\<rparr>)" for k using a by (simp add: shell_ok_def)
  moreover have "edit_line ev (sh_line a, sh_caret a) = Ok r" using edit_line_Ok [OF caret] by (simp add: r_def)
  ultimately show ?thesis using False r(3) by (cases ev) (simp_all add: handle_key_def case_prod_beta)
qed

lemma drain_keys_Ok:
  assumes E: "env_ok E" and silent: "\<And>n. N \<le> n \<Longrightarrow> ho_key (en_host E) n = None"
    and "shell_ok a" and "short_prompt E (sh_s a) (4 * (length (sh_line a) + (N - se_keys (sh_s a))))" and "N - se_keys (sh_s a) < fuel"
  shows "\<exists>d a'. drain_keys fuel E page dirty a = Some (Ok (d, a')) \<and> shell_ok a'"
  using assms(3-5)
proof (induction fuel arbitrary: a dirty)
  case (Suc fuel)
  define s where "s = (sh_s a)\<lparr>se_keys := Suc (se_keys (sh_s a))\<rparr>"
  define b where "b = a\<lparr>sh_s := s\<rparr>"
  have b: "shell_ok b" "sh_line b = sh_line a" "se_keys (sh_s b) = Suc (se_keys (sh_s a))" "pl_name (se_pl (sh_s b)) = pl_name (se_pl (sh_s a))"
    using Suc.prems(1) by (simp_all add: b_def s_def shell_ok_def session_ok_keys wide_window_def)
  show ?case
  proof (cases "Option.bind (ho_key (en_host E) (se_keys (sh_s a))) key_event")
    case None
    then have "drain_keys (Suc fuel) E page dirty a = Some (Ok (dirty, b))" by (simp add: poll_def b_def s_def)
    then show ?thesis using b(1) by blast
  next
    case (Some ev)
    then obtain k where k: "ho_key (en_host E) (se_keys (sh_s a)) = Some k" "key_event k = Some ev" by (auto simp: bind_eq_Some_conv)
    then have lt: "se_keys (sh_s a) < N" using silent [of "se_keys (sh_s a)"] by (cases "se_keys (sh_s a) < N") auto
    have sc: "scalar c" if "ev = EvChar c" for c
    proof -
      have "k = Printable c" using k(2) that by (auto simp: key_event_def split: key.splits if_splits scan_code.splits)
      then show ?thesis using E k(1) by (auto simp: env_ok_def)
    qed
    have "short_prompt E (sh_s b) (4 * length (sh_line b))" unfolding b(2) short_name [OF b(4)] by (rule short_mono [OF Suc.prems(2)]) simp
    from handle_key_Ok [OF E b(1) this sc, where page = page] obtain a1 where a1: "handle_key E page ev b = Ok a1" "shell_ok a1" "length (sh_line a1) \<le> Suc (length (sh_line a))"
      "pl_name (se_pl (sh_s a1)) = pl_name (se_pl (sh_s a))" "Suc (se_keys (sh_s a)) \<le> se_keys (sh_s a1)" using b by auto
    have eq: "drain_keys (Suc fuel) E page dirty a = (if sh_off a1 then Some (Ok (True, a1)) else drain_keys fuel E page True a1)"
      using Some a1(1) by (simp add: poll_def b_def s_def)
    show ?thesis
    proof (cases "sh_off a1")
      case False
      have "short_prompt E (sh_s a1) (4 * (length (sh_line a1) + (N - se_keys (sh_s a1))))"
        unfolding short_name [OF a1(4)] using a1(3,5) lt by (intro short_mono [OF Suc.prems(2)]) simp
      moreover have "N - se_keys (sh_s a1) < fuel" using a1(5) lt Suc.prems(3) by simp
      ultimately show ?thesis unfolding eq using Suc.IH [OF a1(2)] False by simp
    next
      case True
      show ?thesis unfolding eq using True a1(2) by auto
    qed
  qed
qed simp

lemma redraw_Ok: "shell_ok a \<Longrightarrow> \<exists>a'. redraw dirty a = Ok a' \<and> shell_ok a'"
proof -
  assume a: "shell_ok a"
  then have s: "session_ok (sh_s a)" by (simp add: shell_ok_def)
  obtain s' k where d: "draw_chat (sh_line a) (sh_caret a) (sh_frame a) (sh_rate a) False (sh_scroll a) (sh_s a) = Ok (s', k)" "redrawn (sh_s a) s'"
    using draw_chat_Ok [OF s] by blast
  then have "shell_ok (a\<lparr>sh_s := s', sh_scroll := k, sh_frame := f\<rparr>)" "shell_ok (a\<lparr>sh_frame := f\<rparr>)" for f
    using a wide_same [of "sh_s a" s'] by (simp_all add: shell_ok_def redrawn_def)
  then show ?thesis using d(1) a by (simp add: redraw_def)
qed

text \<open>The prompt of a request, when it is a prompt call, fits the window. Every other message is unconstrained.\<close>

definition prompt_fits :: "('n, 'z) env \<Rightarrow> session \<Rightarrow> bytes \<Rightarrow> bool" where
  "prompt_fits E s bytes \<longleftrightarrow> (case js_parse (en_json E) bytes of Some v \<Rightarrow>
     (case method_call E v s of RunPrompt q \<Rightarrow> short_prompt E s (str_len q) | _ \<Rightarrow> True) | None \<Rightarrow> True)"

text \<open>The message, if any, that the network poll of a round delivers.\<close>

definition round_message :: "nat \<Rightarrow> ('n, 'z) env \<Rightarrow> 'n shell \<Rightarrow> mcp_message option" where
  "round_message fuel E a = (case sh_net a of None \<Rightarrow> None
     | Some net \<Rightarrow> (case (poll_mcp fuel (en_nic E) net :: (unit, 'n network \<times> mcp_message option) outcome option) of Some (Ok (_, m)) \<Rightarrow> m | _ \<Rightarrow> None))"

definition message_fits :: "('n, 'z) env \<Rightarrow> session \<Rightarrow> mcp_message option \<Rightarrow> bool" where
  "message_fits E s mo = (case mo of Some m \<Rightarrow> mm_kind m = HostRequest \<longrightarrow> prompt_fits E s (mm_json m) | None \<Rightarrow> True)"

lemma json_text_get: "js_get k v = Some x \<Longrightarrow> json_text v \<Longrightarrow> json_text x"
  by (cases v) (auto simp: js_get_def dest!: map_of_SomeD)

lemma json_text_str: "js_as_str v = Some t \<Longrightarrow> json_text v \<Longrightarrow> \<forall>c \<in> set t. scalar c"
  by (cases v) (auto simp: js_as_str_def)

lemma method_prompt_text: "method_call E v s = RunPrompt q \<Longrightarrow> json_text v \<Longrightarrow> \<forall>c \<in> set q. scalar c"
  by (auto simp: method_call_def tool_call_of_def Let_def bind_eq_Some_conv split: if_splits option.splits dest!: json_text_get json_text_str)

lemma handle_inbound_Ok:
  assumes E: "env_ok E" and s: "session_ok s" "wide_window s" and p: "prompt_fits E s bytes"
  shows "\<exists>s' resp r. handle_inbound_mcp E fr bytes s = Ok (s', resp, r) \<and> session_ok s' \<and> same_setup s s' \<and> se_keys s \<le> se_keys s'
    \<and> (case js_parse (en_json E) bytes of
         None \<Rightarrow> s' = s \<and> resp = Some (js_bytes (en_json E) (rpc_error JNull (-32700) ''Parse error''))
       | Some v \<Rightarrow> (case js_get (lit ''id'') v of None \<Rightarrow> s' = s \<and> resp = None
         | Some i \<Rightarrow> (case method_call E v s of
             Reply x \<Rightarrow> s' = s \<and> resp = Some (js_bytes (en_json E) (rpc_result i x))
           | Refuse code m \<Rightarrow> s' = s \<and> resp = Some (js_bytes (en_json E) (rpc_error i code m))
           | RunPrompt q \<Rightarrow> (\<exists>shown. se_turns s' = se_turns (make_room (say User q s)) @ [\<lparr>tn_role = Llama, tn_text = shown\<rparr>] \<and> shown \<noteq> []
               \<and> resp = Some (js_bytes (en_json E) (rpc_result i (text_content shown)))))))"
proof -
  let ?J = "en_json E"
  show ?thesis
  proof (cases "js_parse ?J bytes")
    case None
    then show ?thesis using s(1) by (simp add: handle_inbound_mcp_def Let_def)
  next
    case v: (Some v)
    show ?thesis
    proof (cases "js_get (lit ''id'') v")
      case None
      then show ?thesis using s(1) v by (simp add: handle_inbound_mcp_def Let_def)
    next
      case i: (Some i)
      show ?thesis
      proof (cases "method_call E v s")
        case (RunPrompt q)
        have "json_text v" using E v by (auto simp: env_ok_def)
        then have q: "\<forall>c \<in> set q. scalar c" "short_prompt E (say User q s) (str_len q)"
          using p v RunPrompt method_prompt_text [OF RunPrompt] by (simp_all add: session_say(3) prompt_fits_def)
        obtain s' r shown where g: "run_generate E q fr (say User q s) = Ok (s', r)" "session_ok s'" "same_setup (say User q s) s'"
            "se_turns s' = se_turns (make_room (say User q s)) @ [\<lparr>tn_role = Llama, tn_text = shown\<rparr>]" "shown \<noteq> []"
          using run_generate_Ok [OF E session_say(1) [OF s(1)] _ q, of fr] s(2) unfolding session_say(2) by blast
        have "same_setup s s'" using g(3) by (simp add: same_setup_def say_def)
        moreover have "se_keys s \<le> se_keys s'" using generate_keys [OF g(1) [unfolded run_generate_def]] by simp
        ultimately show ?thesis using v i RunPrompt g by (simp add: handle_inbound_mcp_def Let_def)
      qed (use s(1) v i in \<open>simp_all add: handle_inbound_mcp_def Let_def\<close>)
    qed
  qed
qed

lemma serve_message_Ok:
  assumes E: "env_ok E" and a: "shell_ok a" and p: "message_fits E (sh_s a) (Some m)"
  shows "\<exists>a'. serve_message E m a = Ok a' \<and> shell_ok a' \<and> sh_line a' = sh_line a \<and> pl_name (se_pl (sh_s a')) = pl_name (se_pl (sh_s a)) \<and> se_keys (sh_s a) \<le> se_keys (sh_s a')"
proof (cases "mm_kind m = HostRequest")
  case True
  have s: "session_ok (sh_s a)" "wide_window (sh_s a)" using a by (simp_all add: shell_ok_def)
  have "prompt_fits E (sh_s a) (mm_json m)" using p True by (simp add: message_fits_def)
  from handle_inbound_Ok [OF E s this, of "sh_frame a"]
  obtain s' resp r where h: "handle_inbound_mcp E (sh_frame a) (mm_json m) (sh_s a) = Ok (s', resp, r)" "session_ok s'" "same_setup (sh_s a) s'" "se_keys (sh_s a) \<le> se_keys s'"
    by blast
  have net: "network_ok (queue_response i x net)" if "network_ok net" for i x and net :: "'a network"
    using that by (simp add: queue_response_def network_ok_queue)
  define a1 where "a1 = a\<lparr>sh_s := s', sh_rate := (case r of Some r \<Rightarrow> r | None \<Rightarrow> sh_rate a),
     sh_net := (case resp of Some x \<Rightarrow> map_option (queue_response (mm_message_id m) x) (sh_net a) | None \<Rightarrow> sh_net a)\<rparr>"
  have "shell_ok a1" using a h(2) wide_same [OF h(3)] by (auto simp: a1_def shell_ok_def net split: option.split)
  moreover have "sh_line a1 = sh_line a" "pl_name (se_pl (sh_s a1)) = pl_name (se_pl (sh_s a))" "se_keys (sh_s a) \<le> se_keys (sh_s a1)" using h by (simp_all add: a1_def same_setup_def)
  moreover have "serve_message E m a = Ok a1" using h(1) True by (simp add: serve_message_def a1_def)
  ultimately show ?thesis by blast
qed (use a shell_say [OF a] in \<open>cases "mm_kind m"; auto simp: serve_message_def Let_def on_session_def session_say\<close>)

lemma service_mcp_Ok:
  assumes E: "env_ok E" and a: "shell_ok a" and p: "message_fits E (sh_s a) (round_message fuel E a)" and d: "nic_drains (en_nic E) \<mu>"
    and f: "\<And>net. sh_net a = Some net \<Longrightarrow> \<mu> (nw_nic net) < fuel"
  shows "\<exists>a'. service_mcp fuel E a = Some (Ok a') \<and> shell_ok a' \<and> sh_line a' = sh_line a \<and> pl_name (se_pl (sh_s a')) = pl_name (se_pl (sh_s a)) \<and> se_keys (sh_s a) \<le> se_keys (sh_s a')"
proof (cases "sh_net a")
  case None
  then show ?thesis using a by (simp add: service_mcp_def)
next
  case (Some net)
  have sane: "nic_sane (en_nic E)" "network_ok net" using E a Some by (simp_all add: env_ok_def shell_ok_def)
  obtain w' m where w: "poll_mcp fuel (en_nic E) net = (Some (Ok (w', m)) :: (unit, _) outcome option)" "network_ok w'"
    using poll_mcp_Ok [OF sane(1) d sane(2) f [OF Some]] by blast
  have a1: "shell_ok (a\<lparr>sh_net := Some w'\<rparr>)" "sh_s (a\<lparr>sh_net := Some w'\<rparr>) = sh_s a" "sh_line (a\<lparr>sh_net := Some w'\<rparr>) = sh_line a"
    using a w(2) by (simp_all add: shell_ok_def)
  show ?thesis
  proof (cases m)
    case None
    then show ?thesis using w(1) a1 Some by (simp add: service_mcp_def)
  next
    case msg: (Some x)
    have "message_fits E (sh_s (a\<lparr>sh_net := Some w'\<rparr>)) (Some x)" using p w(1) Some msg by (simp add: round_message_def)
    from serve_message_Ok [OF E a1(1) this] show ?thesis using w(1) Some msg a1 by (auto simp: service_mcp_def)
  qed
qed

text \<open>C36: A round of the chat loop comes back, on prompts that fit. Whatever keys are waiting (finitely many) and whatever message
  the network poll delivers, if the line that can have been typed by the end of the round fits the guaranteed window, and so does
  the prompt of the delivered message if that is a prompt call, then one round (the network poll with the request it delivers,
  every waiting key, the redraw) returns without a panic and keeps the shell well-formed: session, caret within the line, line
  within the prompt limit, network service. Longer prompts are outside this: they can stop the machine.\<close>

theorem chat_round_keeps:
  assumes "env_ok E" and "shell_ok a" and "message_fits E (sh_s a) (round_message fuel E a)" and "nic_drains (en_nic E) \<mu>"
    and "\<And>net. sh_net a = Some net \<Longrightarrow> \<mu> (nw_nic net) < fuel"
    and "\<And>n. N \<le> n \<Longrightarrow> ho_key (en_host E) n = None" and "N - se_keys (sh_s a) < fuel"
    and "short_prompt E (sh_s a) (4 * (length (sh_line a) + (N - se_keys (sh_s a))))"
  shows "\<exists>a'. chat_round fuel E page a = Some (Ok a') \<and> shell_ok a'"
proof -
  obtain b where b: "service_mcp fuel E a = Some (Ok b)" "shell_ok b" "sh_line b = sh_line a" "pl_name (se_pl (sh_s b)) = pl_name (se_pl (sh_s a))"
      "se_keys (sh_s a) \<le> se_keys (sh_s b)" using service_mcp_Ok [OF assms(1-5)] by blast
  have "short_prompt E (sh_s b) (4 * (length (sh_line b) + (N - se_keys (sh_s b))))"
    unfolding short_name [OF b(4)] b(3) using b(5) by (intro short_mono [OF assms(8)]) simp
  moreover have "N - se_keys (sh_s b) < fuel" using b(5) assms(7) by simp
  ultimately obtain d c where c: "drain_keys fuel E page False b = Some (Ok (d, c))" "shell_ok c"
    using drain_keys_Ok [OF assms(1,6) b(2)] by blast
  from redraw_Ok [OF c(2), of d] show ?thesis using b(1) c(1) by (simp add: chat_round_def)
qed


subsection \<open>A small shell\<close>

definition prompt_call :: "chars \<Rightarrow> json" where
  "prompt_call q = js_obj [(''jsonrpc'', js_str ''2.0''), (''id'', JNum 7), (''method'', js_str ''tools/call''),
     (''params'', js_obj [(''name'', js_str ''nightrun_prompt''), (''arguments'', js_obj [(''prompt'', JStr q)])])]"

text \<open>A library that reads three messages: a prompt that fits, one that does not, and a ping; and a keyboard with one key waiting.\<close>

definition demo_json :: json_lib where
  "demo_json = \<lparr>js_parse = (\<lambda>bs. if bs = [1] then Some (prompt_call (lit ''hi'')) else if bs = [2] then Some (prompt_call (replicate 8000 97))
       else if bs = [3] then Some (js_obj [(''id'', JNum 8), (''method'', js_str ''ping'')]) else None),
     js_parse_str = (\<lambda>_. None), js_bytes = (\<lambda>_. [9]), js_pretty = (\<lambda>_. [])\<rparr>"

definition demo_env :: "(bytes list \<times> bytes list, unit) env" where
  "demo_env = \<lparr>en_host = \<lparr>ho_key = (\<lambda>n. if n = 0 then Some (Printable 120) else None), ho_tick = of_nat\<rparr>, en_machine = demo_machine,
     en_classes = ascii_classes, en_sort = demo_sort, en_arch = lit ''x86_64'', en_version = lit ''1'', en_json = demo_json, en_nic = cable\<rparr>"

lemma demo_env_ok: "env_ok demo_env"
  using demo_machine_sched(1) demo_sort_sorts ascii_class_ok cable_sane(1)
  by (auto simp: env_ok_def demo_env_def demo_json_def prompt_call_def js_obj_def lit_def scalar_def)

lemma demo_prompt: "method_call demo_env (prompt_call (lit ''hi'')) s = RunPrompt (lit ''hi'')"
  by (simp add: method_call_def tool_call_of_def prompt_call_def js_obj_def js_get_def js_as_str_def lit_def MAX_PROMPT_CHARS_def)

lemma demo_system_short: "str_len (system_prompt (lit ''x86_64'') (lit ''demo'')) \<le> 4 * 200"
  by (simp add: system_prompt_def lit_def len_utf8_def)

lemma demo_fits:
  assumes "pl_name (se_pl s) = lit ''demo''"
  shows "prompt_fits demo_env s [1]"
proof -
  have p: "js_parse (en_json demo_env) [1] = Some (prompt_call (lit ''hi''))" by (simp add: demo_env_def demo_json_def)
  have "str_len (lit ''hi'') = 2" by (simp add: lit_def len_utf8_def)
  then have "short_prompt demo_env s (str_len (lit ''hi''))"
    using demo_system_short assms by (simp add: short_prompt_def demo_env_def MAX_GEN_TOKENS_def)
  then show ?thesis unfolding prompt_fits_def p option.case demo_prompt by simp
qed

text \<open>A network with a prompt call in its inbox and nothing to send.\<close>

definition prompted :: "(bytes list \<times> bytes list) network" where
  "prompted = (demo_network [])\<lparr>nw_pending := [], nw_inbox := Some \<lparr>mm_kind = HostRequest, mm_message_id = 5, mm_json = [1]\<rparr>\<rparr>"

lemma prompted_ok: "network_ok prompted"
  using demo_network_ok [of "[]"] by (simp add: prompted_def network_ok_def)

lemma prompted_message: "sh_net a = Some prompted \<Longrightarrow> round_message 9 demo_env a = Some \<lparr>mm_kind = HostRequest, mm_message_id = 5, mm_json = [1]\<rparr>"
  by (simp add: round_message_def poll_mcp_def poll_stack_def reclaim_transmit_def send_pending_def prompted_def poll_step_def demo_env_def cable_def
      eval_nat_numeral split: prod.split)

lemma chat_round_keeps_witness:
  "\<exists>fs a'. chat_round 9 demo_env 5 (chat_start (demo_session fs 1024) (Some prompted)) = Some (Ok a') \<and> shell_ok a'"
proof -
  obtain fs where s: "session_ok (demo_session fs 1024)" using demo_session_ok [of 1024] by (auto simp: usize_limit_def)
  define a where "a = chat_start (demo_session fs 1024) (Some prompted)"
  have "wide_window (demo_session fs 1024)" by (simp add: wide_window_def demo_session_def window_facts MAX_GEN_TOKENS_def)
  then have ok: "shell_ok a" using s prompted_ok
    by (simp add: shell_ok_def a_def chat_start_def session_ok_def wide_window_def Let_def)
  have n: "pl_name (se_pl (sh_s a)) = lit ''demo''" "se_keys (sh_s a) = 0" "sh_line a = []" "sh_net a = Some prompted"
    by (simp_all add: a_def chat_start_def demo_session_def)
  have m: "message_fits demo_env (sh_s a) (round_message 9 demo_env a)"
    using demo_fits [OF n(1)] by (simp add: prompted_message [OF n(4)] message_fits_def)
  have sp: "short_prompt demo_env (sh_s a) (4 * (length (sh_line a) + (1 - se_keys (sh_s a))))"
    using demo_system_short n(1-3) by (simp add: short_prompt_def demo_env_def MAX_GEN_TOKENS_def)
  have nic: "nic_drains (en_nic demo_env) (\<lambda>n. length (fst n))" "ho_key (en_host demo_env) k = None" if "1 \<le> k" for k
    using cable_sane(2) that by (simp_all add: demo_env_def)
  have "nw_nic prompted = ([], [])" by (simp add: prompted_def demo_network_simps)
  then have "length (fst (nw_nic net)) < 9" if "sh_net a = Some net" for net using that n(4) by auto
  from chat_round_keeps [OF demo_env_ok ok m nic(1) this nic(2) _ sp, of 5] n(2)
  obtain a' where "chat_round 9 demo_env 5 a = Some (Ok a')" "shell_ok a'" by auto
  then show ?thesis unfolding a_def by blast
qed


end
