(* ===== verification/Nr_Platform.thy ===== *)
theory Nr_Platform
  imports Nr_App Nr_Parallel
begin

text \<open>
  Platform bring-up in \<^verbatim>\<open>crates/nr-boot/src\<close>: the processors that join the worker pool (\<^verbatim>\<open>smp.rs\<close>), the display mode
  (\<^verbatim>\<open>video.rs\<close>), the fan of the Raspberry Pi 5 (\<^verbatim>\<open>fan.rs\<close>) and the screen a panic leaves behind (\<^verbatim>\<open>main.rs\<close>). What the
  firmware answers are record fields; register writes are a list. Log lines, stalls and inline assembly are left out.
\<close>

subsection \<open>The worker processors\<close>

datatype mp_result = MpStarted | MpTimedOut | MpFailed

text \<open>\<open>mp_pool\<close>: the pool as the starting processor finds it at its n-th access, while the others enter their loops.\<close>

record mp_services =
  mp_handle :: bool
  mp_open :: bool
  mp_enabled :: "nat option"
  mp_event :: bool
  mp_startup :: mp_result
  mp_pool :: "nat \<Rightarrow> pool"

definition ready_workers :: "pool \<Rightarrow> nat" where
  "ready_workers p = p_ready p"

text \<open>Accesses made by the wait loop, which gives up after the given number of rounds.\<close>

fun wait_ready :: "(nat \<Rightarrow> pool) \<Rightarrow> nat \<Rightarrow> nat \<Rightarrow> nat \<Rightarrow> nat" where
  "wait_ready R aps k 0 = Suc k"
| "wait_ready R aps k (Suc n) = (if ready_workers (R k) < aps then wait_ready R aps (Suc k) n else Suc k)"

definition aps_started :: "bool \<Rightarrow> mp_services \<Rightarrow> bool" where
  "aps_started x86 M \<longleftrightarrow> mp_startup M = MpStarted \<or> \<not> x86 \<and> mp_startup M = MpTimedOut"

definition activate_ready :: "mp_services \<Rightarrow> nat \<Rightarrow> ('e, (nat \<times> chars) \<times> pool option) outcome" where
  "activate_ready M aps =
     (let k = wait_ready (mp_pool M) aps 0 500; ready = min (ready_workers (mp_pool M k)) aps in
      if ready = 0 then Ok ((0, lit ''workers did not come up''), None)
      else obind (activate (mp_pool M (Suc k)) ready) (\<lambda>p. Ok ((ready, lit ''ok''), Some p)))"

definition start_workers :: "bool \<Rightarrow> mp_services \<Rightarrow> ('e, (nat \<times> chars) \<times> pool option) outcome" where
  "start_workers x86 M =
     (if \<not> mp_handle M then Ok ((0, lit ''no MP services protocol''), None)
      else if \<not> mp_open M then Ok ((0, lit ''MP services busy''), None)
      else case mp_enabled M of None \<Rightarrow> Ok ((0, lit ''MP processor count failed''), None)
      | Some enabled \<Rightarrow> (let aps = enabled - 1 in
          if aps = 0 then Ok ((0, lit ''single core''), None)
          else if x86 \<and> \<not> mp_event M then Ok ((0, lit ''event create failed''), None)
          else if \<not> aps_started x86 M then Ok ((0, lit ''AP startup failed''), None)
          else activate_ready M aps))"

text \<open>Workers only join: the count of ready workers never falls.\<close>

definition mp_grows :: "mp_services \<Rightarrow> bool" where
  "mp_grows M \<longleftrightarrow> (\<forall>n. ready_workers (mp_pool M n) \<le> ready_workers (mp_pool M (Suc n)))"

text \<open>The assertion of \<open>activate\<close> never fails; a pool is activated exactly when workers are reported, with their number, which
  leaves one enabled processor for the caller.\<close>

lemma start_workers_result:
  assumes "mp_grows M"
  obtains n why po where "start_workers x86 M = (Ok ((n, why), po) :: ('e, _) outcome)"
    "case po of None \<Rightarrow> n = 0
       | Some p \<Rightarrow> 0 < n \<and> p_workers p = n \<and> n \<le> ready_workers p \<and> (\<exists>enabled. mp_enabled M = Some enabled \<and> n < enabled)"
proof -
  have "\<exists>n why po. activate_ready M aps = (Ok ((n, why), po) :: ('e, _) outcome)
      \<and> (case po of None \<Rightarrow> n = 0 | Some p \<Rightarrow> 0 < n \<and> p_workers p = n \<and> n \<le> ready_workers p \<and> n \<le> aps)" for aps
  proof -
    define k where "k = wait_ready (mp_pool M) aps 0 500"
    have "ready_workers (mp_pool M k) \<le> ready_workers (mp_pool M (Suc k))" using assms by (simp add: mp_grows_def)
    then show ?thesis
      by (auto simp: activate_ready_def k_def [symmetric] Let_def activate_def assert_def ready_workers_def min_def)
  qed
  note A = this
  have "\<exists>n why po. start_workers x86 M = (Ok ((n, why), po) :: ('e, _) outcome)
      \<and> (case po of None \<Rightarrow> n = 0 | Some p \<Rightarrow> 0 < n \<and> p_workers p = n \<and> n \<le> ready_workers p \<and> (\<exists>enabled. mp_enabled M = Some enabled \<and> n < enabled))"
  proof (cases "mp_enabled M")
    case (Some enabled)
    obtain n why po where a: "activate_ready M (enabled - 1) = (Ok ((n, why), po) :: ('e, _) outcome)"
        "case po of None \<Rightarrow> n = 0 | Some p \<Rightarrow> 0 < n \<and> p_workers p = n \<and> n \<le> ready_workers p \<and> n \<le> enabled - 1"
      using A [of "enabled - 1"] by blast
    then have "case po of None \<Rightarrow> n = 0 | Some p \<Rightarrow> 0 < n \<and> p_workers p = n \<and> n \<le> ready_workers p \<and> n < enabled"
      by (auto split: option.splits)
    with a(1) Some show ?thesis by (auto simp: start_workers_def Let_def split: option.splits)
  qed (simp add: start_workers_def)
  then show ?thesis using that by blast
qed

subsection \<open>The display mode\<close>

datatype pixel_format = FmtRgb | FmtBgr | FmtBitmask | FmtBltOnly

record gop_mode =
  gm_size :: "nat \<times> nat"
  gm_stride :: nat
  gm_format :: pixel_format

text \<open>\<open>go_buffer\<close>: whether the library hands out the framebuffer of a mode. A mode that was set is the current one.\<close>

record gop =
  go_handle :: bool
  go_exclusive :: bool
  go_shared :: bool
  go_modes :: "gop_mode list"
  go_current :: gop_mode
  go_set :: "gop_mode \<Rightarrow> bool"
  go_buffer :: "gop_mode \<Rightarrow> bool"

record display =
  dp_width :: nat
  dp_height :: nat
  dp_stride :: nat
  dp_layout :: pixel_layout

definition PREFERRED :: "(nat \<times> nat) list" where
  "PREFERRED = [(1280, 720), (1920, 1080), (1024, 768), (800, 600)]"

definition suits :: "nat \<times> nat \<Rightarrow> gop_mode \<Rightarrow> bool" where
  "suits p m \<longleftrightarrow> gm_size m = p \<and> gm_format m \<in> {FmtBgr, FmtRgb}"

fun find_mode :: "(nat \<times> nat) list \<Rightarrow> gop_mode list \<Rightarrow> gop_mode option" where
  "find_mode [] modes = None"
| "find_mode (p # ps) modes = (case find (suits p) modes of Some m \<Rightarrow> Some m | None \<Rightarrow> find_mode ps modes)"

definition display_of :: "gop_mode \<Rightarrow> display" where
  "display_of m = \<lparr>dp_width = fst (gm_size m), dp_height = snd (gm_size m), dp_stride = gm_stride m,
     dp_layout = (case gm_format m of FmtRgb \<Rightarrow> Rgbx | _ \<Rightarrow> Bgrx)\<rparr>"

definition video_init :: "bool \<Rightarrow> gop \<Rightarrow> ('e, display) outcome" where
  "video_init x86 G =
     obind (assert (go_handle G)) (\<lambda>_.
     obind (assert (go_exclusive G \<or> go_shared G)) (\<lambda>_.
     obind (case (if x86 then find_mode PREFERRED (go_modes G) else None) of
         None \<Rightarrow> Ok (go_current G) | Some m \<Rightarrow> obind (assert (go_set G m)) (\<lambda>_. Ok m)) (\<lambda>m.
     obind (assert (go_buffer G m)) (\<lambda>_. Ok (display_of m)))))"

definition display_direct :: "display \<Rightarrow> direct_fb" where
  "display_direct d = \<lparr>fb_width = dp_width d, fb_height = dp_height d, fb_stride = dp_stride d, fb_layout = dp_layout d\<rparr>"

text \<open>The mode found is the first that suits, in the order of preference.\<close>

lemma find_mode_Some: "find_mode ps modes = Some m \<Longrightarrow>
    m \<in> set modes \<and> (\<exists>i < length ps. suits (ps ! i) m \<and> (\<forall>j < i. \<forall>m' \<in> set modes. \<not> suits (ps ! j) m'))"
proof (induction ps)
  case (Cons p ps)
  show ?case
  proof (cases "find (suits p) modes")
    case None
    with Cons obtain i where "m \<in> set modes" "i < length ps" "suits (ps ! i) m" "\<forall>j < i. \<forall>m' \<in> set modes. \<not> suits (ps ! j) m'" by auto
    moreover have "\<forall>j < Suc i. \<forall>m' \<in> set modes. \<not> suits ((p # ps) ! j) m'"
      using None calculation(4) by (auto simp: find_None_iff nth_Cons split: nat.split)
    ultimately show ?thesis by (intro conjI exI [of _ "Suc i"]) simp_all
  next
    case (Some m')
    with Cons.prems have "m' = m" by simp
    with Some have "m \<in> set modes" "suits p m" by (auto simp: find_Some_iff)
    then show ?thesis by (intro conjI exI [of _ 0]) simp_all
  qed
qed simp

lemma find_mode_None: "find_mode ps modes = None \<longleftrightarrow> (\<forall>p \<in> set ps. \<forall>m \<in> set modes. \<not> suits p m)"
proof (induction ps)
  case (Cons p ps)
  have "m \<in> set modes \<and> suits p m" if "find (suits p) modes = Some m" for m using that by (auto simp: find_Some_iff)
  moreover have "\<forall>m \<in> set modes. \<not> suits p m" if "find (suits p) modes = None" using that by (simp add: find_None_iff)
  ultimately show ?case using Cons by (cases "find (suits p) modes") force+
qed simp

text \<open>On x86 with a suitable mode the display is one of the preferred sizes, with the pixel layout of its mode.\<close>

lemma preferred_display:
  assumes "video_init True G = (Ok d :: ('e, _) outcome)" and "m \<in> set (go_modes G)" and "suits p m" and "p \<in> set PREFERRED"
  shows "(dp_width d, dp_height d) \<in> set PREFERRED \<and> (\<exists>m \<in> set (go_modes G). d = display_of m \<and> (dp_layout d = Rgbx) = (gm_format m = FmtRgb))"
proof -
  obtain m' where m': "find_mode PREFERRED (go_modes G) = Some m'" using assms(2-4) find_mode_None [of PREFERRED "go_modes G"] by fastforce
  from find_mode_Some [OF this] obtain i where i: "m' \<in> set (go_modes G)" "i < length PREFERRED" "suits (PREFERRED ! i) m'" by blast
  have "d = display_of m'" using assms(1) m' by (auto simp: video_init_def assert_def split: if_splits)
  moreover have "gm_size m' \<in> set PREFERRED" using i(2,3) by (auto simp: suits_def)
  moreover have "(dp_width (display_of m'), dp_height (display_of m')) = gm_size m'" "(dp_layout (display_of m') = Rgbx) = (gm_format m' = FmtRgb)"
    by (simp_all add: display_of_def split: pixel_format.split)
  ultimately show ?thesis using i(1) by metis
qed

subsection \<open>The fan of the Raspberry Pi 5\<close>

definition RP1_ID :: u32 where "RP1_ID = push_bit 16 0x0001 OR 0x1de4"

definition IO_BANK2 :: u64 where "IO_BANK2 = 0x0d8000"
definition SYS_RIO2 :: u64 where "SYS_RIO2 = 0x0e8000"
definition PADS_BANK2 :: u64 where "PADS_BANK2 = 0x0f8000"
definition ATOM_SET :: u64 where "ATOM_SET = 0x2000"
definition ATOM_CLR :: u64 where "ATOM_CLR = 0x3000"
definition PIN :: nat where "PIN = 45 - 34"
definition FUNCSEL_SYS_RIO :: u32 where "FUNCSEL_SYS_RIO = 5"
definition PAD_OUTPUT_8MA :: u32 where "PAD_OUTPUT_8MA = 0x10"

definition cfg :: "nat \<Rightarrow> nat \<Rightarrow> nat \<Rightarrow> u64" where
  "cfg bus dev reg = push_bit 24 (of_nat bus) OR push_bit 16 (of_nat dev) OR of_nat reg"

text \<open>The peripheral window behind a configuration slot, if an RP1 answers there.\<close>

definition rp1_base :: "(u64 \<Rightarrow> u32 option) \<Rightarrow> nat \<times> nat \<Rightarrow> u64 option" where
  "rp1_base pci = (\<lambda>(bus, dev). if pci (cfg bus dev 0x00) \<noteq> Some RP1_ID then None
     else case pci (cfg bus dev 0x14) of None \<Rightarrow> None
     | Some lo \<Rightarrow> (let base = ucast (lo AND 0xfffffff0);
           base = (if lo AND 0x6 = 0x4 then (case pci (cfg bus dev 0x18) of Some hi \<Rightarrow> base OR push_bit 32 (ucast hi) | None \<Rightarrow> base) else base) in
         if base = 0 then None else Some base))"

definition pci_slots :: "(nat \<times> nat) list" where
  "pci_slots = List.product [0..<8] [0..<32]"

definition fan_writes :: "u64 \<Rightarrow> (u64 \<times> u32) list" where
  "fan_writes base = [(base + (PADS_BANK2 + 0x04 + of_nat PIN * 4), PAD_OUTPUT_8MA), (base + (SYS_RIO2 + ATOM_CLR), push_bit PIN 1),
     (base + (SYS_RIO2 + ATOM_SET + 0x04), push_bit PIN 1), (base + (IO_BANK2 + of_nat PIN * 8 + 4), FUNCSEL_SYS_RIO)]"

text \<open>The root bridges, each with its configuration space if it can be opened; the result and the writes, each with its bridge.\<close>

fun spin_bridges :: "nat \<Rightarrow> (u64 \<Rightarrow> u32 option) option list \<Rightarrow> bool \<times> (nat \<times> u64 \<times> u32) list" where
  "spin_bridges n [] = (False, [])"
| "spin_bridges n (None # bs) = spin_bridges (Suc n) bs"
| "spin_bridges n (Some pci # bs) = (case List.map_filter (rp1_base pci) pci_slots of
       base # _ \<Rightarrow> (True, map (\<lambda>w. (n, w)) (fan_writes base)) | [] \<Rightarrow> spin_bridges (Suc n) bs)"

definition spin_up :: "(u64 \<Rightarrow> u32 option) option list option \<Rightarrow> bool \<times> (nat \<times> u64 \<times> u32) list" where
  "spin_up bridges = (case bridges of None \<Rightarrow> (False, []) | Some bs \<Rightarrow> spin_bridges 0 bs)"

text \<open>An RP1 with this window answers behind the i-th bridge.\<close>

definition rp1_at :: "(u64 \<Rightarrow> u32 option) option list \<Rightarrow> nat \<Rightarrow> u64 \<Rightarrow> bool" where
  "rp1_at bs i base \<longleftrightarrow> i < length bs \<and> (\<exists>pci bus dev. bs ! i = Some pci \<and> bus < 8 \<and> dev < 32
     \<and> pci (cfg bus dev 0) = Some RP1_ID \<and> rp1_base pci (bus, dev) = Some base)"

lemma rp1_at_Suc: "rp1_at bs i base \<Longrightarrow> rp1_at (b # bs) (Suc i) base"
  by (auto simp: rp1_at_def)

lemma spin_bridges_writes:
  "(\<exists>i base. rp1_at bs i base \<and> spin_bridges n bs = (True, map (\<lambda>w. (n + i, w)) (fan_writes base))) \<or> spin_bridges n bs = (False, [])"
proof (induction n bs rule: spin_bridges.induct)
  case (2 n bs)
  then show ?case using rp1_at_Suc [of bs _ _ None] by (metis add_Suc_right add_Suc spin_bridges.simps(2))
next
  case (3 n pci bs)
  show ?case
  proof (cases "List.map_filter (rp1_base pci) pci_slots")
    case Nil
    then have "spin_bridges n (Some pci # bs) = spin_bridges (Suc n) bs" by simp
    then show ?thesis using 3 [OF Nil] rp1_at_Suc [of bs _ _ "Some pci"] by (metis add_Suc_right add_Suc)
  next
    case (Cons base bases)
    then have "base \<in> set (List.map_filter (rp1_base pci) pci_slots)" by simp
    then obtain bus dev where s: "(bus, dev) \<in> set pci_slots" "rp1_base pci (bus, dev) = Some base"
      by (auto simp: map_filter_def)
    then have "pci (cfg bus dev 0) = Some RP1_ID" by (auto simp: rp1_base_def split: if_splits)
    with s have "rp1_at (Some pci # bs) 0 base" by (auto simp: rp1_at_def pci_slots_def)
    moreover have "spin_bridges n (Some pci # bs) = (True, map (\<lambda>w. (n + 0, w)) (fan_writes base))" using Cons by simp
    ultimately show ?thesis by blast
  qed
qed simp

text \<open>Only the RP1 is touched: every register write goes to one of the four registers of its fan pin, and without an RP1 there is none.\<close>

lemma spin_up_writes:
  assumes "spin_up (Some bs) = (found, ws)"
  shows "found = (ws \<noteq> [])" and "w \<in> set ws \<Longrightarrow> \<exists>i base. rp1_at bs i base \<and> fst w = i \<and> snd w \<in> set (fan_writes base)"
proof -
  from spin_bridges_writes [of bs 0] assms
  consider i base where "rp1_at bs i base" "found" "ws = map (\<lambda>w. (i, w)) (fan_writes base)" | "\<not> found" "ws = []"
    by (auto simp: spin_up_def)
  then show "found = (ws \<noteq> [])" and "w \<in> set ws \<Longrightarrow> \<exists>i base. rp1_at bs i base \<and> fst w = i \<and> snd w \<in> set (fan_writes base)"
    by (cases; auto simp: fan_writes_def)+
qed

subsection \<open>The panic screen\<close>

text \<open>The message buffer takes what fits and drops the rest. \<open>write!\<close> hands the message over in pieces.\<close>

record panic_buf =
  pb_buf :: bytes
  pb_len :: nat

definition panic_buf_new :: panic_buf where
  "panic_buf_new = \<lparr>pb_buf = replicate 512 0, pb_len = 0\<rparr>"

definition panic_write :: "panic_buf \<Rightarrow> bytes \<Rightarrow> panic_buf" where
  "panic_write b s = (let n = min (length s) (length (pb_buf b) - pb_len b) in
     \<lparr>pb_buf = take (pb_len b) (pb_buf b) @ take n s @ drop (pb_len b + n) (pb_buf b), pb_len = pb_len b + n\<rparr>)"

definition panic_message :: "bytes list \<Rightarrow> chars" where
  "panic_message parts = (let b = foldl panic_write panic_buf_new parts; shown = take (pb_len b) (pb_buf b) in
     if from_utf8 shown = Utf8Ok then from_utf8_lossy shown else lit ''panic'')"

lemma panic_writes:
  assumes "pb_len b \<le> length (pb_buf b)"
  shows "let b' = foldl panic_write b ss in pb_len b' \<le> length (pb_buf b') \<and> length (pb_buf b') = length (pb_buf b)
    \<and> take (pb_len b') (pb_buf b') = take (length (pb_buf b)) (take (pb_len b) (pb_buf b) @ concat ss)"
  using assms
proof (induction ss arbitrary: b)
  case (Cons s ss)
  define b' where "b' = panic_write b s"
  have w: "pb_len b' \<le> length (pb_buf b')" "length (pb_buf b') = length (pb_buf b)"
      "take (pb_len b') (pb_buf b') = take (length (pb_buf b)) (take (pb_len b) (pb_buf b) @ s)"
    using Cons.prems by (auto simp: b'_def panic_write_def Let_def min_def)
  have "take (length (pb_buf b)) (take (length (pb_buf b)) (take (pb_len b) (pb_buf b) @ s) @ concat ss)
      = take (length (pb_buf b)) (take (pb_len b) (pb_buf b) @ s @ concat ss)"
    using Cons.prems by (cases "length (pb_buf b) \<le> pb_len b + length s") (simp_all add: min_def)
  with Cons.IH [OF w(1)] w show ?case by (simp add: b'_def [symmetric] Let_def)
qed (simp add: Let_def)

text \<open>Whatever the pieces, the first 512 bytes of the message are kept.\<close>

lemma panic_message_eq:
  "panic_message parts = (let shown = take 512 (concat parts) in if from_utf8 shown = Utf8Ok then from_utf8_lossy shown else lit ''panic'')"
  using panic_writes [of panic_buf_new parts] by (simp add: panic_message_def panic_buf_new_def Let_def)

definition wrap_minus :: "nat \<Rightarrow> nat \<Rightarrow> nat" where
  "wrap_minus a b = (a + usize_limit - b) mod usize_limit"

function panic_lines :: "direct_fb \<Rightarrow> psf_font \<Rightarrow> nat \<Rightarrow> bytes \<Rightarrow> nat \<Rightarrow> nat \<Rightarrow> ('e, (nat \<times> color) list) outcome" where
  "panic_lines fb font cols msg i y = (if i < length msg \<and> y < wrap_minus (fb_height fb) 32 then
       (let e = min ((i + cols) mod usize_limit) (length msg) in
        obind (assert (i \<le> e)) (\<lambda>_.
        obind (if from_utf8 (sub msg i e) = Utf8Ok then fb_text fb font 48 y (from_utf8_lossy (sub msg i e)) TEXT_PRIMARY else Ok []) (\<lambda>ws.
        obind (panic_lines fb font cols msg e (y + (pf_height font + 4))) (\<lambda>ws'. Ok (ws @ ws')))))
     else Ok [])"
  by pat_completeness auto
termination
  by (relation "measure (\<lambda>(fb, font, cols, msg, i, y). wrap_minus (fb_height fb) 32 - y)") auto

declare panic_lines.simps [simp del]

definition draw_panic_screen :: "bytes \<Rightarrow> direct_fb \<Rightarrow> bytes \<Rightarrow> ('e, (nat \<times> color) list) outcome" where
  "draw_panic_screen small fb msg = obind (font_parse small) (\<lambda>f. case f of None \<Rightarrow> Ok [] | Some font \<Rightarrow>
     (let band_y = fb_height fb div 4 in
      obind (fb_text fb font 48 (band_y + 28) (lit ''NIGHTRUN // SYSTEM FAULT'') NEON_MAGENTA) (\<lambda>t1.
      obind (fb_text fb font 48 (band_y + 56) (lit ''the runtime hit an unrecoverable error - power cycle to restart'') TEXT_DIM) (\<lambda>t2.
      obind (assert (pf_width font \<noteq> 0)) (\<lambda>_.
      obind (panic_lines fb font (wrap_minus (fb_width fb) 96 div pf_width font) msg 0 (band_y + 130)) (\<lambda>t3.
      Ok (fb_fill_rect fb 0 0 (fb_width fb) (fb_height fb) 0x12021c @ fb_fill_rect fb 0 band_y (fb_width fb) 4 NEON_MAGENTA
        @ fb_fill_rect fb 0 (band_y + 90) (fb_width fb) 4 NEON_MAGENTA @ t1 @ t2 @ t3)))))))"

lemma on_screen_append [simp]: "on_screen fb (ws @ ws') \<longleftrightarrow> on_screen fb ws \<and> on_screen fb ws'"
  by (auto simp: on_screen_def)

lemma on_screen_nothing [simp]: "on_screen fb []"
  by (simp add: on_screen_def)

lemma panic_lines_on_screen:
  assumes "font_ok font" and "cols + length msg < usize_limit"
  shows "i \<le> length msg \<Longrightarrow> \<exists>ws. panic_lines fb font cols msg i y = (Ok ws :: ('e, _) outcome) \<and> on_screen fb ws"
proof (induction "wrap_minus (fb_height fb) 32 - y" arbitrary: i y rule: less_induct)
  case less
  show ?case
  proof (cases "i < length msg \<and> y < wrap_minus (fb_height fb) 32")
    case True
    define e where "e = min ((i + cols) mod usize_limit) (length msg)"
    have e: "i \<le> e" "e \<le> length msg" using assms(2) less.prems by (auto simp: e_def)
    obtain ws where ws: "(if from_utf8 (sub msg i e) = Utf8Ok then fb_text fb font 48 y (from_utf8_lossy (sub msg i e)) TEXT_PRIMARY else Ok []) = (Ok ws :: ('e, _) outcome)"
        "on_screen fb ws"
      using fb_text_on_screen [OF assms(1), of fb 48 y "from_utf8_lossy (sub msg i e)" TEXT_PRIMARY]
      by (cases "from_utf8 (sub msg i e) = Utf8Ok") auto
    obtain ws' where ws': "panic_lines fb font cols msg e (y + (pf_height font + 4)) = (Ok ws' :: ('e, _) outcome)" "on_screen fb ws'"
    proof -
      have "wrap_minus (fb_height fb) 32 - (y + (pf_height font + 4)) < wrap_minus (fb_height fb) 32 - y" using True by linarith
      from less.hyps [OF this e(2)] show ?thesis using that by blast
    qed
    have "panic_lines fb font cols msg i y = (Ok (ws @ ws') :: ('e, _) outcome)"
      by (subst panic_lines.simps) (simp add: True e_def [symmetric] Let_def assert_def e(1) ws(1) ws'(1))
    with ws(2) ws'(2) show ?thesis by simp
  qed (subst panic_lines.simps, auto)
qed

text \<open>The panic handler itself does not panic, and draws inside the visible area only, on every display at least 96 pixels wide.\<close>

lemma panic_screen_on_screen:
  assumes "font_parse small = (Ok (Some font) :: ('e, _) outcome)" and "font_ok font" and "pf_width font \<noteq> 0"
    and "96 \<le> fb_width fb" and "fb_width fb + length msg < usize_limit"
  shows "\<exists>ws. draw_panic_screen small fb msg = (Ok ws :: ('e, _) outcome) \<and> on_screen fb ws"
proof -
  let ?cols = "wrap_minus (fb_width fb) 96 div pf_width font"
  have "wrap_minus (fb_width fb) 96 = fb_width fb - 96" using assms(4,5) by (simp add: wrap_minus_def usize_limit_def mod_if)
  moreover have "(fb_width fb - 96) div pf_width font \<le> fb_width fb" by (meson diff_le_self div_le_dividend le_trans)
  ultimately have "?cols + length msg < usize_limit" using assms(5) by simp
  then obtain t3 where 3: "panic_lines fb font ?cols msg 0 (fb_height fb div 4 + 130) = (Ok t3 :: ('e, _) outcome)" "on_screen fb t3"
    using panic_lines_on_screen [OF assms(2), of ?cols msg 0] by blast
  obtain t1 t2 where "fb_text fb font 48 (fb_height fb div 4 + 28) (lit ''NIGHTRUN // SYSTEM FAULT'') NEON_MAGENTA = (Ok t1 :: ('e, _) outcome)" "on_screen fb t1"
    "fb_text fb font 48 (fb_height fb div 4 + 56) (lit ''the runtime hit an unrecoverable error - power cycle to restart'') TEXT_DIM = (Ok t2 :: ('e, _) outcome)" "on_screen fb t2"
    using fb_text_on_screen [OF assms(2)] by meson
  with 3 show ?thesis using assms(1,3) fb_fill_on_screen by (simp add: draw_panic_screen_def assert_def Let_def)
qed

end
