(* ===== verification/Nr_Boot.thy ===== *)
theory Nr_Boot
  imports Nr_Platform Nr_Convert Nr_Screens
begin

text \<open>
  The boot sequence of \<^verbatim>\<open>crates/nr-boot/src/app.rs\<close> (\<open>run\<close>, \<open>boot_sequence\<close>, \<open>BootUi\<close>): splash, progress screens, the streamed
  and checksummed load of the model file, the tokenizer, the arena, the inference context, and the platform the chat
  starts on. Everything the firmware answers is the record \<open>firmware\<close>; stalls and log lines are left out, and so is the storage
  seal, since the load runs once, before it is set. The network service that \<open>boot_sequence\<close> sets up last is an argument of \<open>run_app\<close>. A failure that
  stops the machine on its message is the error value.
\<close>

subsection \<open>Firmware and boot screen\<close>

text \<open>\<open>fw_memory\<close>: the memory map, with whether a region is conventional memory and its pages. \<open>fw_fan\<close> is there on
  AArch64, with the PCI root bridges.
  The four printers are what \<open>derive(Debug)\<close> makes of an error.\<close>

record ('s, 'z) firmware =
  fw_stride :: nat
  fw_layout :: pixel_layout
  fw_fonts :: fonts
  fw_version :: chars
  fw_simd :: chars
  fw_x86 :: bool
  fw_mp :: mp_services
  fw_fan :: "(u64 \<Rightarrow> u32 option) option list option option"
  fw_memory :: "(bool \<times> u64) list option"
  fw_opened :: "('s load_error, nat) outcome"
  fw_pages :: bool
  fw_eof :: 's
  fw_read :: "nat \<Rightarrow> nat \<Rightarrow> ('s, bytes) outcome"
  fw_addr :: nat
  fw_arena :: "nat option"
  fw_machine :: "'z machine_scheme"
  fw_seed :: u64
  fw_show_load :: "'s load_error \<Rightarrow> chars"
  fw_show_verify :: "verify_error \<Rightarrow> chars"
  fw_show_parse :: "parse_error \<Rightarrow> chars"
  fw_show_tok :: "tok_error \<Rightarrow> chars"

record boot =
  bo_surf :: surface
  bo_shown :: "(nat \<times> color) list"
  bo_frame :: u32
  bo_keys :: nat
  bo_ticks :: nat

text \<open>A result, or the message the machine halted on and what is on the screen.\<close>

type_synonym 'a booting = "(chars \<times> boot, 'a) outcome"

definition STAGES :: "chars list" where
  "STAGES = map lit [''initializing runtime'', ''scanning memory'', ''loading + verifying model'', ''preparing inference engine'', ''starting chat interface'']"

definition boot_draw :: "('s, 'z) firmware \<Rightarrow> nat \<Rightarrow> u32 \<Rightarrow> chars \<Rightarrow> boot \<Rightarrow> boot booting" where
  "boot_draw FW current pm detail b =
     obind (loading_draw (fw_fonts FW) \<lparr>lo_stages = STAGES, lo_current = current, lo_progress = pm, lo_detail = detail, lo_frame = bo_frame b\<rparr> (bo_surf b)) (\<lambda>s.
     obind (surface_present s (fw_stride FW) (fw_layout FW)) (\<lambda>ws.
     Ok (b\<lparr>bo_surf := s, bo_shown := ws\<rparr>)))"

definition boot_show :: "('s, 'z) firmware \<Rightarrow> nat \<Rightarrow> u32 \<Rightarrow> chars \<Rightarrow> boot \<Rightarrow> boot booting" where
  "boot_show FW current pm detail b = obind (boot_draw FW current pm detail b) (\<lambda>b. Ok (b\<lparr>bo_frame := bo_frame b + 1\<rparr>))"

definition boot_fail :: "('s, 'z) firmware \<Rightarrow> chars \<Rightarrow> boot \<Rightarrow> 'a booting" where
  "boot_fail FW message b = obind (boot_draw FW (usize_limit - 1) 0 message b) (\<lambda>b. Err (message, b))"

definition boot_now :: "host \<Rightarrow> boot \<Rightarrow> u64 \<times> boot" where
  "boot_now H b = (ho_tick H (bo_ticks b), b\<lparr>bo_ticks := bo_ticks b + 1\<rparr>)"

definition show_u64 :: "u64 \<Rightarrow> chars" where "show_u64 x = show_nat (unat x)"

subsection \<open>Stages 0 and 1: runtime and memory\<close>

definition workers_text :: "nat \<Rightarrow> chars \<Rightarrow> chars" where
  "workers_text workers smp_note = (if workers = 0 then lit ''single core ('' @ smp_note @ lit '')''
     else show_nat (workers + 1) @ lit '' cores online ('' @ show_nat workers @ lit '' inference workers)'')"

definition stage_runtime :: "('s, 'z) firmware \<Rightarrow> boot \<Rightarrow> (nat \<times> boot) booting" where
  "stage_runtime FW b =
     obind (boot_show FW 0 300 (lit ''TSC clock calibrated'') b) (\<lambda>b.
     obind (boot_show FW 0 600 (fw_simd FW) b) (\<lambda>b.
     obind (start_workers (fw_x86 FW) (fw_mp FW)) (\<lambda>((workers, smp_note), _).
     obind (boot_show FW 0 1000 (workers_text workers smp_note) b) (\<lambda>b.
     obind (case fw_fan FW of None \<Rightarrow> Ok b
       | Some bridges \<Rightarrow> boot_show FW 0 1000 (if fst (spin_up bridges) then lit ''cooling fan: 100%'' else lit ''no fan control (RP1 not found)'') b) (\<lambda>b.
     Ok (workers, b))))))"

definition conventional_ram_mb :: "(bool \<times> u64) list option \<Rightarrow> u32" where
  "conventional_ram_mb m = (case m of Some entries \<Rightarrow> ucast (sum_list (map snd (filter fst entries)) * 4096 div (1024 * 1024)) | None \<Rightarrow> 0)"

subsection \<open>Stage 2: the model file\<close>

text \<open>What \<open>load\<close> reports while it reads: the bytes done after each chunk, as long as nothing fails.\<close>

function load_reports :: "(nat \<Rightarrow> nat \<Rightarrow> ('s, bytes) outcome) \<Rightarrow> nat \<Rightarrow> bytes \<Rightarrow> verifier option \<Rightarrow> nat list" where
  "load_reports rd fsize buf ver =
     (if length buf < fsize then (case rd (length buf) (min (length buf + LOAD_CHUNK) fsize - length buf) of
          Ok new \<Rightarrow> if new = [] then [] else (case (load_verify ver buf new :: ('s load_error, _) outcome) of
              Ok ver' \<Rightarrow> length (buf @ new) # load_reports rd fsize (buf @ new) ver' | _ \<Rightarrow> [])
        | _ \<Rightarrow> [])
      else [])"
  by pat_completeness auto
termination
  by (relation "measure (\<lambda>(rd, fsize, buf, ver). fsize - length buf)") (auto intro!: diff_less_mono2)

declare load_reports.simps [simp del]

definition all_reports :: "('s, 'z) firmware \<Rightarrow> (nat \<times> nat) list" where
  "all_reports FW = (case fw_opened FW of
       Ok fsize \<Rightarrow> map (\<lambda>d. (d, fsize)) (0 # (if fw_pages FW then load_reports (fw_read FW) fsize [] None else []))
     | _ \<Rightarrow> [])"

definition load_progress :: "('s, 'z) firmware \<Rightarrow> host \<Rightarrow> u64 \<Rightarrow> u64 \<Rightarrow> boot \<Rightarrow> nat \<times> nat \<Rightarrow> boot booting" where
  "load_progress FW H tpm t0 b = (\<lambda>(fin, total).
     let pm = ucast ((of_nat fin * 1000 :: u64) div of_nat (max total 1)); (t, b) = boot_now H b in
     obind (ticks_to_ms tpm (t - t0)) (\<lambda>t. let mbs = (of_nat fin * 1000 :: u64) div max t 1 div (1024 * 1024) in
     boot_show FW 2 pm (show_nat (fin div (1024 * 1024)) @ lit '' / '' @ show_nat (total div (1024 * 1024)) @ lit '' MB  (''
       @ show_u64 mbs @ lit '' MB/s, CRC32 inline)'') b))"

definition stage_load :: "('s, 'z) firmware \<Rightarrow> host \<Rightarrow> u64 \<Rightarrow> boot \<Rightarrow> (bytes \<times> boot) booting" where
  "stage_load FW H tpm b =
     (let (t0, b) = boot_now H b in
      obind (ofold (load_progress FW H tpm t0) b (all_reports FW)) (\<lambda>b.
      case load False (fw_opened FW) (fw_pages FW) (fw_eof FW) (fw_read FW) of
        Ok blob \<Rightarrow> let (t, b) = boot_now H b in obind (ticks_to_ms tpm (t - t0)) (\<lambda>_. Ok (blob, b))
      | Err (Corrupt which) \<Rightarrow> boot_fail FW (lit ''model.nrm is corrupt ('' @ fw_show_verify FW which
          @ lit '' checksum mismatch) - re-flash the image or rebuild with: cargo xtask image'') b
      | Err e \<Rightarrow> boot_fail FW (lit ''model.nrm load failed ('' @ fw_show_load FW e @ lit '') - build the image with: cargo xtask image'') b
      | Panic \<Rightarrow> Panic))"

subsection \<open>Stages 3 and 4: engine and chat\<close>

text \<open>The arena is cleared 16 MiB at a time, with a picture after each.\<close>

definition clear_arena :: "('s, 'z) firmware \<Rightarrow> nat \<Rightarrow> boot \<Rightarrow> boot booting" where
  "clear_arena FW arena_bytes b =
     ofold (\<lambda>b i. let off = i * (16 * 1024 * 1024); len = min (16 * 1024 * 1024) (arena_bytes - off) in
       boot_show FW 3 (of_nat ((off + len) * 500 mod usize_limit div arena_bytes)) (show_nat (arena_bytes div (1024 * 1024)) @ lit '' MB resident arena'') b)
       b [0..<div_ceil arena_bytes (16 * 1024 * 1024)]"

definition stage_engine :: "('s, 'z) firmware \<Rightarrow> model \<Rightarrow> boot \<Rightarrow> (infer \<times> arena \<times> boot) booting" where
  "stage_engine FW model b = (case fw_arena FW of
       None \<Rightarrow> boot_fail FW (lit ''arena allocation failed - machine needs more RAM'') b
     | Some base \<Rightarrow> (let arena = boot_arena base model CTX_LEN; need = (required_bytes model CTX_LEN + 8 * 1024 * 1024) mod usize_limit in
         obind (clear_arena FW (arena_capacity arena) b) (\<lambda>b.
         obind (boot_show FW 3 750 (lit ''KV cache + scratch ('' @ show_nat (need div (1024 * 1024)) @ lit '' MB, ctx '' @ show_nat CTX_LEN @ lit '')'') b) (\<lambda>b.
         case infer_new (fw_machine FW) alloc_bytes model CTX_LEN arena of
           Ok (infer, arena) \<Rightarrow> obind (boot_show FW 3 1000 (lit ''inference engine ready'') b) (\<lambda>b. Ok (infer, arena, b))
         | Err e \<Rightarrow> boot_fail FW (lit ''inference init failed: '' @ fw_show_parse FW e) b
         | Panic \<Rightarrow> Panic))))"

definition model_name :: "model \<Rightarrow> chars" where
  "model_name model = (let name = takeWhile (\<lambda>b. b \<noteq> 0) (mt_name (md_meta model)) in
     if from_utf8 name = Utf8Ok then from_utf8_lossy name else lit ''model'')"

definition F_0_7 :: f32 where "F_0_7 = 0x3f333333"
definition F_0_9 :: f32 where "F_0_9 = 0x3f666666"

definition stage_chat :: "('s, 'z) firmware \<Rightarrow> host \<Rightarrow> u64 \<Rightarrow> u64 \<Rightarrow> boot \<Rightarrow> boot booting" where
  "stage_chat FW H tpm t_boot b = (let (t, b) = boot_now H b in
     obind (ticks_to_ms tpm (t - t_boot)) (\<lambda>ms.
     boot_show FW 4 1000 (lit ''boot sequence '' @ show_u64 (ms div 1000) @ lit ''.'' @ show_u64 (ms mod 1000 div 100) @ lit ''s'') b))"

definition boot_sequence :: "('s, 'z) firmware \<Rightarrow> host \<Rightarrow> u64 \<Rightarrow> boot \<Rightarrow> (platform \<times> boot) booting" where
  "boot_sequence FW H tpm b =
     (let (t_boot, b) = boot_now H b; ram_mb = conventional_ram_mb (fw_memory FW) in
      obind (stage_runtime FW b) (\<lambda>(workers, b).
      obind (boot_show FW 1 1000 (show_nat (unat ram_mb) @ lit '' MB conventional RAM'') b) (\<lambda>b.
      obind (stage_load FW H tpm b) (\<lambda>(blob, b).
      case model_parse (fw_addr FW) blob of
        Err e \<Rightarrow> boot_fail FW (lit ''model.nrm invalid: '' @ fw_show_parse FW e) b | Panic \<Rightarrow> Panic
      | Ok model \<Rightarrow> (case tokenizer_parse (md_tokenizer_blob model) of
          Err e \<Rightarrow> boot_fail FW (lit ''tokenizer blob invalid: '' @ fw_show_tok FW e) b | Panic \<Rightarrow> Panic
        | Ok tokenizer \<Rightarrow>
            obind (stage_engine FW model b) (\<lambda>(infer, arena, b).
            obind (stage_chat FW H tpm t_boot b) (\<lambda>b.
            Ok (\<lparr>pl_stride = fw_stride FW, pl_layout = fw_layout FW, pl_fonts = fw_fonts FW, pl_ticks_per_ms = tpm, pl_arena = arena,
                 pl_ram_mb = ram_mb, pl_model = model, pl_tok = tokenizer, pl_name = model_name model, pl_infer = infer,
                 pl_sampler = sampler_new F_0_7 F_0_9 (fw_seed FW), pl_cores = of_nat workers + 1, pl_pp_milli = 0, pl_ftl_ms = 0,
                 pl_assistant = lit (assistant_label (mt_arch (md_meta model)))\<rparr>, b))))))))"

subsection \<open>From power-on to the chat\<close>

text \<open>Up to 350 polls, until a key is there.\<close>

fun wait_key :: "nat \<Rightarrow> host \<Rightarrow> boot \<Rightarrow> boot" where
  "wait_key 0 H b = b"
| "wait_key (Suc n) H b = (let b' = b\<lparr>bo_keys := bo_keys b + 1\<rparr> in
     if Option.bind (ho_key H (bo_keys b)) key_event = None then wait_key n H b' else b')"

definition show_splash :: "('s, 'z) firmware \<Rightarrow> boot \<Rightarrow> boot booting" where
  "show_splash FW b =
     obind (splash_draw (fw_fonts FW) (lit ''v'' @ fw_version FW @ lit ''  //  press any key'') (bo_surf b)) (\<lambda>s.
     obind (surface_present s (fw_stride FW) (fw_layout FW)) (\<lambda>ws. Ok (b\<lparr>bo_surf := s, bo_shown := ws\<rparr>)))"

definition boot_session :: "platform \<Rightarrow> boot \<Rightarrow> session" where
  "boot_session p b = \<lparr>se_pl = p, se_surf = bo_surf b, se_shown = bo_shown b, se_turns = [], se_started = False, se_keys = bo_keys b, se_ticks = bo_ticks b\<rparr>"

definition run_app :: "('s, 'z) firmware \<Rightarrow> host \<Rightarrow> 'n network option \<Rightarrow> nat \<Rightarrow> nat \<Rightarrow> 'n shell booting" where
  "run_app FW H net width height =
     obind (show_splash FW \<lparr>bo_surf = surface_new width height, bo_shown = [], bo_frame = 0, bo_keys = 0, bo_ticks = 0\<rparr>) (\<lambda>b.
     let (t0, b) = boot_now H (wait_key 350 H b); (t1, b) = boot_now H b in
     obind (boot_sequence FW H (calibrate t0 t1) b) (\<lambda>(p, b). Ok (chat_start (boot_session p b) net)))"

subsection \<open>The screens never stop the boot\<close>

definition screen_fits :: "('s, 'z) firmware \<Rightarrow> nat \<Rightarrow> nat \<Rightarrow> boot \<Rightarrow> bool" where
  "screen_fits FW W H b \<longleftrightarrow> screen_ok (fw_fonts FW) W H \<and> sized W H (bo_surf b)"

lemma screen_fits_keys [simp]: "screen_fits FW W H (b\<lparr>bo_keys := k\<rparr>) = screen_fits FW W H b" "screen_fits FW W H (b\<lparr>bo_ticks := k\<rparr>) = screen_fits FW W H b"
  by (simp_all add: screen_fits_def)

lemma screen_fits_now: "boot_now Ho b = (t, b') \<Longrightarrow> screen_fits FW W H b \<Longrightarrow> screen_fits FW W H b'"
  by (auto simp: boot_now_def screen_fits_def)

lemma boot_draw_Ok:
  assumes "screen_fits FW W H b"
  shows "\<exists>b'. boot_draw FW cur pm detail b = Ok b' \<and> screen_fits FW W H b'"
proof -
  obtain s where s: "loading_draw (fw_fonts FW) \<lparr>lo_stages = STAGES, lo_current = cur, lo_progress = pm, lo_detail = detail, lo_frame = bo_frame b\<rparr> (bo_surf b)
      = (Ok s :: (chars \<times> boot, _) outcome)" "sized W H s"
    using safe_do [OF safe_loading, of "fw_fonts FW" W H "bo_surf b"] assms unfolding screen_fits_def by blast
  obtain ws where "surface_present s (fw_stride FW) (fw_layout FW) = (Ok ws :: (chars \<times> boot, _) outcome)"
    using surface_present_Ok [OF s(2)] by blast
  with s show ?thesis using assms by (simp add: boot_draw_def screen_fits_def)
qed

lemma boot_show_Ok:
  assumes "screen_fits FW W H b"
  shows "\<exists>b'. boot_show FW cur pm detail b = Ok b' \<and> screen_fits FW W H b'"
  using boot_draw_Ok [OF assms, of cur pm detail] by (auto simp: boot_show_def screen_fits_def)

lemma boot_fail_Err:
  assumes "screen_fits FW W H b"
  shows "\<exists>b'. boot_fail FW message b = Err (message, b') \<and> screen_fits FW W H b'"
  using boot_draw_Ok [OF assms, of "usize_limit - 1" 0 message] unfolding boot_fail_def by force

lemma boot_show_then:
  assumes "screen_fits FW W H b" and "\<And>b. screen_fits FW W H b \<Longrightarrow> P (k b)"
  shows "P (obind (boot_show FW cur pm detail b) k)"
  using boot_show_Ok [OF assms(1), of cur pm detail] assms(2) by auto

lemma stage_runtime_Ok:
  assumes "screen_fits FW W H b" and "mp_grows (fw_mp FW)"
  shows "\<exists>n b'. stage_runtime FW b = Ok (n, b') \<and> screen_fits FW W H b'"
proof -
  obtain n why po where s: "start_workers (fw_x86 FW) (fw_mp FW) = (Ok ((n, why), po) :: _ booting)" by (rule start_workers_result [OF assms(2)])
  have f: "\<exists>b'. (case fw_fan FW of None \<Rightarrow> Ok b | Some bridges \<Rightarrow> boot_show FW 0 1000 (if fst (spin_up bridges) then lit ''cooling fan: 100%''
      else lit ''no fan control (RP1 not found)'') b) = Ok b' \<and> screen_fits FW W H b'" if "screen_fits FW W H b" for b
    using that by (cases "fw_fan FW") (auto intro: boot_show_Ok)
  show ?thesis unfolding stage_runtime_def s obind.simps prod.case
    by (rule boot_show_then [OF assms(1)], rule boot_show_then, assumption, rule boot_show_then, assumption) (use f in fastforce)
qed

lemma load_progress_Ok:
  assumes "screen_fits FW W H b" and "tpm \<noteq> 0"
  shows "\<exists>b'. load_progress FW Ho tpm t0 b r = Ok b' \<and> screen_fits FW W H b'"
proof -
  obtain t b1 where n: "boot_now Ho b = (t, b1)" by (cases "boot_now Ho b")
  obtain d n' where r: "r = (d, n')" by (cases r)
  show ?thesis using boot_show_Ok [OF screen_fits_now [OF n assms(1)]] assms(2)
    by (simp add: load_progress_def r n ticks_to_ms_def Let_def)
qed

lemma ofold_keeps:
  assumes "\<And>b x. P b \<Longrightarrow> \<exists>b'. f b x = Ok b' \<and> P b'" and "P b"
  shows "\<exists>b'. ofold f b xs = Ok b' \<and> P b'"
  using assms(2)
proof (induction xs arbitrary: b)
  case (Cons x xs)
  obtain b' where "f b x = Ok b'" "P b'" using assms(1) Cons.prems by blast
  then show ?case using Cons.IH by simp
qed simp

lemma stage_load_cases:
  assumes b: "screen_fits FW W H b" and t: "tpm \<noteq> 0"
  shows "case load False (fw_opened FW) (fw_pages FW) (fw_eof FW) (fw_read FW) of
      Ok blob \<Rightarrow> \<exists>b'. stage_load FW Ho tpm b = Ok (blob, b') \<and> screen_fits FW W H b'
    | Err e \<Rightarrow> \<exists>message b'. stage_load FW Ho tpm b = Err (message, b') \<and> screen_fits FW W H b'
    | Panic \<Rightarrow> stage_load FW Ho tpm b = Panic"
proof -
  obtain t0 b1 where n: "boot_now Ho b = (t0, b1)" by (cases "boot_now Ho b")
  obtain b2 where 2: "ofold (load_progress FW Ho tpm t0) b1 (all_reports FW) = (Ok b2 :: _ booting)" "screen_fits FW W H b2"
    using ofold_keeps [where P = "screen_fits FW W H" and f = "load_progress FW Ho tpm t0" and b = b1] load_progress_Ok [OF _ t] screen_fits_now [OF n b] by blast
  obtain t1 b3 where 3: "boot_now Ho b2 = (t1, b3)" by (cases "boot_now Ho b2")
  note S = stage_load_def [of FW Ho tpm b, unfolded n Let_def prod.case 2(1) obind.simps 3]
  show ?thesis
  proof (cases "load False (fw_opened FW) (fw_pages FW) (fw_eof FW) (fw_read FW)")
    case (Ok blob)
    then show ?thesis using S screen_fits_now [OF 3 2(2)] t by (simp add: ticks_to_ms_def)
  next
    case (Err e)
    have "\<exists>message. stage_load FW Ho tpm b = boot_fail FW message b2" unfolding S Err by (cases e) auto
    then obtain message where m: "stage_load FW Ho tpm b = boot_fail FW message b2" by blast
    then show ?thesis using boot_fail_Err [OF 2(2), of message] Err unfolding m by (simp only: outcome.case) blast
  next
    case Panic
    then show ?thesis using S by simp
  qed
qed

lemma clear_arena_Ok: "screen_fits FW W H b \<Longrightarrow> \<exists>b'. clear_arena FW n b = Ok b' \<and> screen_fits FW W H b'"
  unfolding clear_arena_def by (rule ofold_keeps [where P = "screen_fits FW W H"]) (auto simp: Let_def intro: boot_show_Ok)

lemma stage_engine_Ok:
  assumes b: "screen_fits FW W H b" and a: "fw_arena FW = Some base"
    and i: "infer_new (fw_machine FW) alloc_bytes model CTX_LEN (boot_arena base model CTX_LEN) = Ok (infer, arena)"
  shows "\<exists>b'. stage_engine FW model b = Ok (infer, arena, b') \<and> screen_fits FW W H b'"
proof -
  obtain b1 where 1: "clear_arena FW (arena_capacity (boot_arena base model CTX_LEN)) b = Ok b1" "screen_fits FW W H b1"
    using clear_arena_Ok [OF b] by blast
  show ?thesis unfolding stage_engine_def a Let_def option.case 1(1) obind.simps
    by (rule boot_show_then [OF 1(2)], unfold i outcome.case prod.case, erule boot_show_then) simp
qed

lemma stage_chat_Ok:
  assumes "screen_fits FW W H b" and "tpm \<noteq> 0"
  shows "\<exists>b'. stage_chat FW Ho tpm t0 b = Ok b' \<and> screen_fits FW W H b'"
proof -
  obtain t b1 where n: "boot_now Ho b = (t, b1)" by (cases "boot_now Ho b")
  show ?thesis using boot_show_Ok [OF screen_fits_now [OF n assms(1)]] assms(2) by (simp add: stage_chat_def n ticks_to_ms_def)
qed

subsection \<open>The name on the status bar\<close>

lemma code_point_scalar:
  assumes "utf8_next a bs = StepChar k"
  shows "scalar (code_point (map unat (a # take (k - 1) bs)))"
proof -
  consider "unat a < 0x80" "k = 1"
    | b cs where "bs = b # cs" "k = 2" "0xC2 \<le> unat a" "unat a \<le> 0xDF" "second_ok a b"
    | b c cs where "bs = b # c # cs" "k = 3" "0xE0 \<le> unat a" "unat a \<le> 0xEF" "second_ok a b" "is_cont c"
    | b c d cs where "bs = b # c # d # cs" "k = 4" "0xF0 \<le> unat a" "unat a \<le> 0xF4" "second_ok a b" "is_cont c" "is_cont d"
    using assms by (auto simp: utf8_next.simps [of a bs] utf8_width_def split: if_splits list.splits)
  then show ?thesis
  proof cases
    case 1
    then show ?thesis by (simp add: code_point_def scalar_def)
  next
    case 2
    have "unat a mod 32 < 32" "unat b mod 64 < 64" by simp_all
    then show ?thesis using 2 by (simp add: code_point_def scalar_def) linarith
  next
    case 3
    then obtain x y where x: "unat a = 0xE0 + x" "x < 16" "unat b = 0x80 + y" "y < 64" "x = 13 \<Longrightarrow> y \<le> 31"
      by (auto simp: second_ok_def is_cont_def intro!: that [of "unat a - 0xE0" "unat b - 0x80"])
    have "(0xE0 + x) mod 16 = x" "(0x80 + y) mod 64 = y" using x(2,4) mod_mult_self4 [of 16 14 x] mod_mult_self4 [of 64 2 y] by simp_all
    moreover define z where "z = unat c mod 64"
    ultimately have "code_point (map unat (a # take (k - 1) bs)) = x * 4096 + y * 64 + z" using 3 x by (simp add: code_point_def)
    moreover have "z < 64" by (simp add: z_def)
    moreover consider "x \<le> 12" | "x = 13" "y \<le> 31" | "14 \<le> x" using x(5) by linarith
    then have "scalar (x * 4096 + y * 64 + z)" by cases (use x \<open>z < 64\<close> in \<open>unfold scalar_def; linarith\<close>)+
    ultimately show ?thesis by simp
  next
    case 4
    then obtain x y where x: "unat a = 0xF0 + x" "x \<le> 4" "unat b = 0x80 + y" "y < 64" "x = 4 \<Longrightarrow> y \<le> 15"
      by (auto simp: second_ok_def is_cont_def intro!: that [of "unat a - 0xF0" "unat b - 0x80"])
    have "(0xF0 + x) mod 8 = x" "(0x80 + y) mod 64 = y" using x(2,4) mod_mult_self4 [of 8 30 x] mod_mult_self4 [of 64 2 y] by simp_all
    moreover define z w where "z = unat c mod 64" and "w = unat d mod 64"
    ultimately have "code_point (map unat (a # take (k - 1) bs)) = x * 262144 + y * 4096 + z * 64 + w" using 4 x by (simp add: code_point_def)
    moreover have "z < 64" "w < 64" by (simp_all add: z_def w_def)
    moreover have "x = 0 \<Longrightarrow> 16 \<le> y" using 4 x by (auto simp: second_ok_def)
    then consider "x = 0" "16 \<le> y" | "1 \<le> x" "x \<le> 3" | "x = 4" "y \<le> 15" using x(2,5) by linarith
    then have "scalar (x * 262144 + y * 4096 + z * 64 + w)" by cases (use x \<open>z < 64\<close> \<open>w < 64\<close> in \<open>unfold scalar_def; linarith\<close>)+
    ultimately show ?thesis by simp
  qed
qed

lemma from_utf8_lossy_scalar: "c \<in> set (from_utf8_lossy bs) \<Longrightarrow> scalar c"
proof (induction bs rule: from_utf8_lossy.induct)
  case (2 a bs)
  have "scalar 0xfffd" by (simp add: scalar_def)
  with 2 show ?case using code_point_scalar [of a bs] by (auto split: utf8_step.splits)
qed simp

lemma model_name_scalar: "\<forall>c \<in> set (model_name m). scalar c"
  using from_utf8_lossy_scalar by (auto simp: model_name_def Let_def lit_def scalar_def)

subsection \<open>A whole boot\<close>

definition verified :: "bytes \<Rightarrow> bool" where
  "verified F \<longleftrightarrow> obind (verifier_new F) (\<lambda>v. stream_verdict v [F]) = Ok ()"

text \<open>The firmware finds the file, has memory for it, and reads give its bytes.\<close>

definition delivers :: "('s, 'z) firmware \<Rightarrow> bytes \<Rightarrow> bool" where
  "delivers FW F \<longleftrightarrow> fw_opened FW = Ok (length F) \<and> fw_pages FW \<and> reads_file F (fw_read FW) \<and> 192 \<le> length F"

text \<open>A model the engine can run at the context length, with a tokenizer that stays in its vocabulary.\<close>

definition runnable :: "'z fpu_scheme \<Rightarrow> model \<Rightarrow> tokenizer \<Rightarrow> bool" where
  "runnable Mc m tk \<longleftrightarrow> (let h = md_meta m; d = dims_of m CTX_LEN in
     (\<exists>Ws. weights_of m d = Ok Ws) \<and> (\<exists>fs. freqs_of Mc m d (replicate (dm_head d div 2) F_ZERO) = Ok fs) \<and> whole_rows m
     \<and> 0 < mt_n_heads h \<and> 0 < mt_head_dim h \<and> 0 < mt_n_kv_heads h \<and> unat (mt_n_kv_heads h) dvd unat (mt_n_heads h)
     \<and> unat (mt_n_heads h) * unat (mt_head_dim h) < 2 ^ 32
     \<and> context_bytes d + 8 * 1024 * 1024 + 4096 < usize_limit \<and> dm_att d \<le> dm_dim d + 32768 \<and> vocab_in tk (dm_vocab d))"

lemma load_delivered:
  assumes "delivers FW F"
  shows "if verified F then load False (fw_opened FW) (fw_pages FW) (fw_eof FW) (fw_read FW) = Ok F
    else \<exists>e. load False (fw_opened FW) (fw_pages FW) (fw_eof FW) (fw_read FW) = Err (Corrupt e)"
proof -
  have eq: "load False (fw_opened FW) (fw_pages FW) (fw_eof FW) (fw_read FW) = obind (map_err Corrupt (obind (verifier_new F) (\<lambda>v. stream_verdict v [F]))) (\<lambda>_. Ok F)"
    using load_eq [of F "fw_read FW" "fw_eof FW"] assms by (simp add: delivers_def)
  have "obind (verifier_new F) (\<lambda>v. stream_verdict v [F]) \<noteq> Panic"
  proof (cases "verifier_new F")
    case (Ok v)
    have "feed_all v 0 [F] = (Ok (seen F v (length F)) :: (verify_error, verifier) outcome)"
      using feed_all_seen [of F 0 "[F]" v, where ?'e = verify_error] seen_nothing [OF Ok, of F] assms by (simp add: delivers_def)
    then show ?thesis by (simp add: Ok stream_verdict_def verifier_finish_def)
  qed (use verifier_new_not_Panic [of F] in auto)
  then show ?thesis unfolding eq verified_def by (cases "obind (verifier_new F) (\<lambda>v. stream_verdict v [F])") (auto simp: map_err_def)
qed

lemma runnable_engine:
  assumes "runnable Mc m tk" and "model_parse addr F = Ok m" and "length F < usize_limit"
  obtains infer arena where "infer_new Mc alloc_bytes m CTX_LEN (boot_arena base m CTX_LEN) = Ok (infer, arena)"
    "infer_ok infer" "c_dims (i_cfg infer) = dims_of m CTX_LEN" "i_pos infer = 0"
proof -
  note R = assms(1) [unfolded runnable_def Let_def]
  obtain infer arena where n: "infer_new Mc alloc_bytes m CTX_LEN (boot_arena base m CTX_LEN) = Ok (infer, arena)"
    using R infer_new_boot_arena [of m CTX_LEN _ Mc _ base] by blast
  note A = model_parse_accepts [OF assms(2,3)]
  have "length (md_data m) = sc_data_size (header_sections F)" using A(1,8) by (simp add: sections_fit_def) linarith
  then have "entries_ok m" using A(1,7) assms(3) by (simp add: entries_ok_def sections_fit_def)
  from new_builds_context [OF n this] R n that show ?thesis by blast
qed

lemma boot_sequence_Ok:
  assumes scr: "screen_fits FW W H b" and mp: "mp_grows (fw_mp FW)" and t: "tpm \<noteq> 0" and d: "delivers FW F" "verified F" "length F < usize_limit"
    and m: "model_parse (fw_addr FW) F = Ok m" "tokenizer_parse (md_tokenizer_blob m) = Ok tk" "runnable (fw_machine FW) m tk" and a: "fw_arena FW = Some base"
  shows "\<exists>p b'. boot_sequence FW Ho tpm b = Ok (p, b') \<and> screen_fits FW W H b' \<and> pl_model p = m \<and> pl_tok p = tk \<and> pl_name p = model_name m
    \<and> pl_assistant p = lit (assistant_label (mt_arch (md_meta m))) \<and> pl_fonts p = fw_fonts FW \<and> pl_ticks_per_ms p = tpm
    \<and> infer_ok (pl_infer p) \<and> c_dims (i_cfg (pl_infer p)) = dims_of m CTX_LEN \<and> i_pos (pl_infer p) = 0"
proof -
  obtain infer arena where i: "infer_new (fw_machine FW) alloc_bytes m CTX_LEN (boot_arena base m CTX_LEN) = Ok (infer, arena)"
    "infer_ok infer" "c_dims (i_cfg infer) = dims_of m CTX_LEN" "i_pos infer = 0" by (rule runnable_engine [OF m(3,1) d(3)])
  obtain t0 b0 where 0: "boot_now Ho b = (t0, b0)" by (cases "boot_now Ho b")
  obtain n b1 where 1: "stage_runtime FW b0 = Ok (n, b1)" "screen_fits FW W H b1" using stage_runtime_Ok [OF screen_fits_now [OF 0 scr] mp] by blast
  obtain b2 where 2: "boot_show FW 1 1000 (show_nat (unat (conventional_ram_mb (fw_memory FW))) @ lit '' MB conventional RAM'') b1 = Ok b2" "screen_fits FW W H b2"
    using boot_show_Ok [OF 1(2)] by blast
  obtain b3 where 3: "stage_load FW Ho tpm b2 = Ok (F, b3)" "screen_fits FW W H b3"
    using stage_load_cases [OF 2(2) t, of Ho] load_delivered [OF d(1)] d(2) by auto
  obtain b4 where 4: "stage_engine FW m b3 = Ok (infer, arena, b4)" "screen_fits FW W H b4" using stage_engine_Ok [OF 3(2) a i(1)] by blast
  obtain b5 where 5: "stage_chat FW Ho tpm t0 b4 = Ok b5" "screen_fits FW W H b5" using stage_chat_Ok [OF 4(2) t] by blast
  show ?thesis
    unfolding boot_sequence_def 0 Let_def prod.case 1(1) obind.simps 2(1) 3(1) m(1,2) outcome.case 4(1) 5(1)
    by (intro exI conjI, rule refl) (use i 5(2) in simp_all)
qed

lemma safe_splash: "screen_ok fs W H \<Longrightarrow> safe W H (splash_draw fs status :: 'e pic)"
  unfolding splash_draw_def
  by (rule safe_seq) (simp add: safe_backdrop [OF screen_facts(1-4)] safe_logo safe_footer safe_scanlines)

lemma show_splash_Ok:
  assumes "screen_fits FW W H b"
  shows "\<exists>b'. show_splash FW b = Ok b' \<and> screen_fits FW W H b'"
proof -
  obtain s where s: "splash_draw (fw_fonts FW) (lit ''v'' @ fw_version FW @ lit ''  //  press any key'') (bo_surf b) = (Ok s :: (chars \<times> boot, _) outcome)" "sized W H s"
    using safe_do [OF safe_splash] assms unfolding screen_fits_def by blast
  obtain ws where "surface_present s (fw_stride FW) (fw_layout FW) = (Ok ws :: (chars \<times> boot, _) outcome)" using surface_present_Ok [OF s(2)] by blast
  with s show ?thesis using assms by (simp add: show_splash_def screen_fits_def)
qed

lemma wait_key_fits: "screen_fits FW W H b \<Longrightarrow> screen_fits FW W H (wait_key n Ho b)"
  by (induction n Ho b rule: wait_key.induct) (auto simp: Let_def)

text \<open>What \<open>run\<close> does before the boot sequence.\<close>

lemma run_app_start:
  assumes "screen_ok (fw_fonts FW) W H"
  obtains tpm b where "tpm \<noteq> 0" "screen_fits FW W H b"
    "run_app FW Ho net W H = obind (boot_sequence FW Ho tpm b) (\<lambda>(p, b). Ok (chat_start (boot_session p b) net))"
proof -
  have "screen_fits FW W H \<lparr>bo_surf = surface_new W H, bo_shown = [], bo_frame = 0, bo_keys = 0, bo_ticks = 0\<rparr>"
    using assms sized_new by (simp add: screen_fits_def)
  from show_splash_Ok [OF this] obtain b1 where 1: "show_splash FW \<lparr>bo_surf = surface_new W H, bo_shown = [], bo_frame = 0, bo_keys = 0, bo_ticks = 0\<rparr> = Ok b1" "screen_fits FW W H b1" by blast
  obtain t0 b2 where 2: "boot_now Ho (wait_key 350 Ho b1) = (t0, b2)" by (cases "boot_now Ho (wait_key 350 Ho b1)")
  obtain t1 b3 where 3: "boot_now Ho b2 = (t1, b3)" by (cases "boot_now Ho b2")
  have "screen_fits FW W H b3" by (rule screen_fits_now [OF 3 screen_fits_now [OF 2 wait_key_fits [OF 1(2)]]])
  moreover have "calibrate t0 t1 \<noteq> 0" by (auto simp: calibrate_def max_def)
  ultimately show ?thesis using that unfolding run_app_def 1(1) obind.simps Let_def 2 3 prod.case by blast
qed

text \<open>Power-on reaches the chat: with firmware that hands over a file passing its checksums, which parses to a model the engine
  can run and a tokenizer within its vocabulary, and has memory for the arena, the machine shows the splash, boots through all
  five stages without stopping, and starts the chat shell on that model and tokenizer, with an empty context and every
  precondition of the chat loop met.\<close>

theorem boot_reaches_chat:
  assumes "screen_ok (fw_fonts FW) W H" and "display_ok (fw_fonts FW) (lit (assistant_label (mt_arch (md_meta m)))) W H"
    and "delivers FW F" and "verified F" and "length F < usize_limit"
    and "model_parse (fw_addr FW) F = Ok m" and "tokenizer_parse (md_tokenizer_blob m) = Ok tk" and "runnable (fw_machine FW) m tk"
    and "fw_arena FW = Some base" and "\<forall>w. net = Some w \<longrightarrow> network_ok w" and "mp_grows (fw_mp FW)"
  shows "\<exists>a. run_app FW Ho net W H = Ok a \<and> shell_ok a \<and> pl_model (se_pl (sh_s a)) = m \<and> pl_tok (se_pl (sh_s a)) = tk
    \<and> i_pos (pl_infer (se_pl (sh_s a))) = 0 \<and> sh_net a = net"
proof -
  obtain tpm b where r: "tpm \<noteq> 0" "screen_fits FW W H b"
    "run_app FW Ho net W H = obind (boot_sequence FW Ho tpm b) (\<lambda>(p, b). Ok (chat_start (boot_session p b) net))"
    by (rule run_app_start [OF assms(1)])
  from boot_sequence_Ok [OF r(2) assms(11) r(1) assms(3-9), of Ho] obtain p b' where p: "boot_sequence FW Ho tpm b = Ok (p, b')" "screen_fits FW W H b'"
    "pl_model p = m" "pl_tok p = tk" "pl_name p = model_name m" "pl_assistant p = lit (assistant_label (mt_arch (md_meta m)))" "pl_fonts p = fw_fonts FW"
    "pl_ticks_per_ms p = tpm" "infer_ok (pl_infer p)" "c_dims (i_cfg (pl_infer p)) = dims_of m CTX_LEN" "i_pos (pl_infer p) = 0" by blast
  have d: "dm_ctx (dims_of m CTX_LEN) = 4096" "dm_vocab (dims_of m CTX_LEN) = unat (mt_vocab (md_meta m))" by (simp_all add: dims_of_def CTX_LEN_def Let_def)
  have v: "vocab_in tk (unat (mt_vocab (md_meta m)))" using assms(8) d(2) by (simp add: runnable_def Let_def)
  then have v0: "0 < unat (mt_vocab (md_meta m))" by (force simp: vocab_in_def)
  have vb: "unat (mt_vocab (md_meta m)) \<le> 2 ^ 32" using unsigned_less [of "mt_vocab (md_meta m)", where 'a = nat] by simp
  have "sf_width (bo_surf b') = W" "sf_height (bo_surf b') = H" "sized W H (bo_surf b')" using p(2) by (auto simp: screen_fits_def sized_def)
  then have "session_ok (boot_session p b')"
    using p d v v0 vb assms(2) r(1) tokenizer_parse_ok [OF assms(7)] model_name_scalar by (simp add: session_ok_def boot_session_def Let_def usize_limit_def)
  then have "shell_ok (chat_start (boot_session p b') net)"
    using p(10) d(1) assms(10) by (simp add: shell_ok_def chat_start_def session_ok_def wide_window_def boot_session_def MAX_GEN_TOKENS_def Let_def)
  then show ?thesis using p by (simp add: r(3) chat_start_def boot_session_def)
qed

text \<open>Only a verified image is run: on every file the firmware delivers, a boot that reaches the chat has checked both of its
  checksums, and the chat's model and tokenizer are the parsers' results on exactly that file; a file that fails its
  checksums stops the machine on a message, with a complete picture on the screen.\<close>

theorem boot_runs_verified_only:
  assumes "screen_ok (fw_fonts FW) W H" and "delivers FW F" and "mp_grows (fw_mp FW)"
  shows "(\<forall>a. run_app FW Ho net W H = Ok a \<longrightarrow> verified F \<and> model_parse (fw_addr FW) F = Ok (pl_model (se_pl (sh_s a)))
      \<and> tokenizer_parse (md_tokenizer_blob (pl_model (se_pl (sh_s a)))) = Ok (pl_tok (se_pl (sh_s a))))
    \<and> (\<not> verified F \<longrightarrow> (\<exists>message b. run_app FW Ho net W H = Err (message, b) \<and> sized W H (bo_surf b)))"
proof -
  obtain tpm b where r: "tpm \<noteq> 0" "screen_fits FW W H b"
    "run_app FW Ho net W H = obind (boot_sequence FW Ho tpm b) (\<lambda>(p, b). Ok (chat_start (boot_session p b) net))"
    by (rule run_app_start [OF assms(1)])
  obtain t0 b0 where 0: "boot_now Ho b = (t0, b0)" by (cases "boot_now Ho b")
  obtain n b1 where 1: "stage_runtime FW b0 = Ok (n, b1)" "screen_fits FW W H b1" using stage_runtime_Ok [OF screen_fits_now [OF 0 r(2)] assms(3)] by blast
  obtain b2 where 2: "boot_show FW 1 1000 (show_nat (unat (conventional_ram_mb (fw_memory FW))) @ lit '' MB conventional RAM'') b1 = Ok b2" "screen_fits FW W H b2"
    using boot_show_Ok [OF 1(2)] by blast
  note B = boot_sequence_def [of FW Ho tpm b, unfolded 0 Let_def prod.case 1(1) obind.simps 2(1)]
  note L = stage_load_cases [OF 2(2) r(1), of Ho]
  show ?thesis
  proof (cases "verified F")
    case True
    then obtain b3 where 3: "stage_load FW Ho tpm b2 = Ok (F, b3)" using load_delivered [OF assms(2)] L by auto
    have "model_parse (fw_addr FW) F = Ok (pl_model p) \<and> tokenizer_parse (md_tokenizer_blob (pl_model p)) = Ok (pl_tok p)"
      if "boot_sequence FW Ho tpm b = Ok (p, b')" for p b'
      using that unfolding B 3 obind.simps prod.case
      by (auto simp: boot_fail_def outcome_simps split: outcome.splits)
    then show ?thesis using True unfolding r(3) by (auto simp: outcome_simps chat_start_def boot_session_def)
  next
    case False
    then obtain message b3 where 3: "stage_load FW Ho tpm b2 = Err (message, b3)" "screen_fits FW W H b3"
      using load_delivered [OF assms(2)] L by auto
    then show ?thesis using False unfolding r(3) B 3(1) obind.simps by (simp add: screen_fits_def)
  qed
qed

subsection \<open>A small machine\<close>

text \<open>A tokenizer of one token, and a model of no layers that ties its embedding.\<close>

definition one_token :: bytes where
  "one_token = NRTK_MAGIC @ [2, 0, 0, 0, 1, 0, 0, 0, 1, 0, 0, 0] @ replicate (8 + 24 + 1024 + 8) 0"

definition small_meta :: model_meta where
  "small_meta = (md_meta tiny_model)\<lparr>mt_name := name_bytes [0x6f, 0x6b]\<rparr>"

definition small_tensors :: "out_tensor list" where
  "small_tensors = [\<lparr>ot_kind = TokEmbed, ot_layer = 0, ot_dtype = Q8_0, ot_rows = 1, ot_cols = 32, ot_bytes = replicate 34 0, ot_offset = 0\<rparr>,
     \<lparr>ot_kind = OutputNorm, ot_layer = 0, ot_dtype = F32, ot_rows = 1, ot_cols = 32, ot_bytes = replicate 128 0, ot_offset = 0\<rparr>]"

definition small_file :: bytes where "small_file = write_nrm small_meta one_token small_tensors"
definition small_model :: model where "small_model = written_model 4096 small_meta one_token small_tensors"

lemma small_written: "written_tensors small_tensors = [(small_tensors ! 0)\<lparr>ot_offset := 0\<rparr>, (small_tensors ! 1)\<lparr>ot_offset := 64\<rparr>]"
  by (simp add: written_tensors_def small_tensors_def align_data_def div_ceil_def Let_def)

lemma length_one_token: "length one_token = 1080"
  by (simp add: one_token_def NRTK_MAGIC_def)

lemma small_convertible: "convertible small_meta one_token small_tensors"
proof -
  have n: "length (mt_name small_meta) = 48" by (simp add: small_meta_def)
  have "length (write_nrm small_meta one_token small_tensors) < usize_limit"
    unfolding length_write_nrm [OF n] small_written by (simp add: small_tensors_def length_one_token align_data_def div_ceil_def usize_limit_def)
  then show ?thesis
    by (simp add: convertible_def n) (simp add: small_meta_def tiny_model_def small_tensors_def scalars_bad_def f32_is_finite_def
        f32_lt_zero_def f32_le_zero_def f32_is_nan_def F_ONE_def byte_size_def usize_limit_def)
qed

lemma small_parses: "model_parse 4096 small_file = Ok small_model"
  unfolding small_file_def small_model_def by (rule parse_written [OF small_convertible])

lemma small_verified: "verified small_file"
proof -
  obtain v where v: "verifier_new small_file = Ok v" using verifier_new_written [OF small_convertible] by (auto simp: small_file_def)
  have "stream_verdict v [small_file] = Ok ()" using stream_written [OF small_convertible v [unfolded small_file_def], of "[small_file]"] by (simp add: small_file_def)
  with v show ?thesis by (simp add: verified_def)
qed

lemma small_fields: "md_meta small_model = small_meta" "md_tokenizer_blob small_model = one_token"
    "md_data small_model = replicate 192 0" "md_data_addr small_model mod 64 = 0"
    "md_entries small_model = [\<lparr>te_kind = 1, te_layer = 0, te_dtype = Q8_0, te_offset = 0, te_size = 34, te_rows = 1, te_cols = 32\<rparr>,
       \<lparr>te_kind = 2, te_layer = 0, te_dtype = F32, te_offset = 64, te_size = 128, te_rows = 1, te_cols = 32\<rparr>]"
proof -
  have "replicate 34 0 @ replicate 30 (0 :: byte) @ replicate 128 0 = replicate 192 0" by (simp only: replicate_add [symmetric]) simp
  then show "md_data small_model = replicate 192 0"
    unfolding small_model_def written_model_def small_written by (simp add: small_tensors_def)
  show "md_entries small_model = [\<lparr>te_kind = 1, te_layer = 0, te_dtype = Q8_0, te_offset = 0, te_size = 34, te_rows = 1, te_cols = 32\<rparr>,
       \<lparr>te_kind = 2, te_layer = 0, te_dtype = F32, te_offset = 64, te_size = 128, te_rows = 1, te_cols = 32\<rparr>]"
    unfolding small_model_def written_model_def small_written by (simp add: small_tensors_def entry_of_def)
  show "md_data_addr small_model mod 64 = 0" using align_data_mod [of "192 + length one_token + length small_tensors * 32"]
    by (simp add: small_model_def written_model_def mod_add_eq [of 4096, symmetric])
qed (simp_all add: small_model_def written_model_def)

lemma one_token_parts: "one_token = (NRTK_MAGIC @ [2, 0, 0, 0, 1, 0, 0, 0, 1, 0, 0, 0]) @ replicate 1064 0"
  by (simp add: one_token_def)

lemma length_header: "length (NRTK_MAGIC @ [2, 0, 0, 0, 1, 0, 0, 0, 1, 0, 0, 0]) = 16"
  by (simp add: NRTK_MAGIC_def)

lemma one_token_header: "b \<le> 16 \<Longrightarrow> sub one_token a b = sub (NRTK_MAGIC @ [2, 0, 0, 0, 1, 0, 0, 0, 1, 0, 0, 0]) a b"
  unfolding one_token_parts by (rule sub_append_left) (simp only: length_header)

lemma one_token_zeros: "16 \<le> a \<Longrightarrow> sub one_token a b = sub (replicate 1064 0) (a - 16) (b - 16)"
  unfolding one_token_parts by (subst sub_append_right) (simp_all only: length_header)

lemma one_token_reads: "u32le one_token 4 = (Ok 2 :: ('e, u32) outcome)" "u32le one_token 8 = (Ok 1 :: ('e, u32) outcome)"
    "u32le one_token 12 = (Ok 1 :: ('e, u32) outcome)" "slice one_token 0 4 = (Ok NRTK_MAGIC :: ('e, bytes) outcome)"
    "16 \<le> i \<Longrightarrow> i + 4 \<le> 1080 \<Longrightarrow> u32le one_token i = (Ok 0 :: ('e, u32) outcome)"
    "16 \<le> i \<Longrightarrow> i \<le> j \<Longrightarrow> j \<le> 1080 \<Longrightarrow> slice one_token i j = (Ok (replicate (j - i) 0) :: ('e, bytes) outcome)"
proof -
  show "u32le one_token 4 = (Ok 2 :: ('e, u32) outcome)" "u32le one_token 8 = (Ok 1 :: ('e, u32) outcome)"
    "u32le one_token 12 = (Ok 1 :: ('e, u32) outcome)" "slice one_token 0 4 = (Ok NRTK_MAGIC :: ('e, bytes) outcome)"
    by (simp_all add: length_one_token one_token_header) (simp_all add: NRTK_MAGIC_def sub_def)
  show "16 \<le> i \<Longrightarrow> i + 4 \<le> 1080 \<Longrightarrow> u32le one_token i = (Ok 0 :: ('e, u32) outcome)"
    by (simp add: length_one_token one_token_zeros read_zeros)
  show "16 \<le> i \<Longrightarrow> i \<le> j \<Longrightarrow> j \<le> 1080 \<Longrightarrow> slice one_token i j = (Ok (replicate (j - i) 0) :: ('e, bytes) outcome)"
    by (simp add: slice_def length_one_token one_token_zeros) (simp add: sub_def min_def)
qed

definition one_tok :: tokenizer where
  "one_tok = \<lparr>tk_specials = \<lparr>sp_bos = 0, sp_eos = 0, sp_eot = 0, sp_start_header = 0, sp_end_header = 0, sp_end_of_text = 0\<rparr>, tk_template = TplLlama3,
     tk_vocab_count = 1, tk_byte_ids = replicate 1024 0, tk_table = replicate 8 0, tk_merges = [], tk_merge_count = 0, tk_pool = []\<rparr>"

lemma small_tok: "tokenizer_parse one_token = Ok one_tok"
proof -
  have s: "parse_specials one_token = (Ok (tk_specials one_tok) :: (tok_error, _) outcome)"
    by (simp add: parse_specials_def one_token_reads one_tok_def del: u32le_ok)
  have c: "check_table (replicate 8 0) 0 [0] = Ok ()"
    by (subst check_table_eq) (auto simp: entry_ok_def read_zeros)
  have o: "ok_or (checked_mul (Suc 0) 8) e = Ok 8" "ok_or (checked_add 1072 8) e = Ok 1080" "ok_or (checked_mul 0 16) e = Ok 0"
    "ok_or (checked_add 1080 0) e = Ok 1080" for e :: 'e
    by (simp_all add: ok_or_Ok_iff usize_limit_def)
  show ?thesis
    unfolding tokenizer_parse_def
    by (simp add: one_token_reads length_one_token parse_template_def NRTK_VERSION_def o c s Let_def special_ids_def del: u32le_ok slice_ok check_table.simps)
      (simp_all add: one_tok_def)
qed

lemma small_vocab: "vocab_in one_tok 1"
proof -
  have "byte_id one_tok b = 0" for b
  proof -
    have "unat b * 4 + 4 \<le> length (tk_byte_ids one_tok)" using unsigned_less [of b, where 'a = nat] by (simp add: one_tok_def)
    then have "byte_token one_tok b = (Ok 0 :: (unit, _) outcome)" by (simp only: byte_token_def u32le_ok) (simp add: one_tok_def read_zeros)
    then show ?thesis using byte_token_ok [OF tokenizer_parse_ok [OF small_tok], of b, where 'a = unit] by simp
  qed
  moreover have "merge_of one_tok a b = None" for a b by (simp add: merge_of_def merge_def one_tok_def merge_search.simps)
  ultimately show ?thesis by (simp add: vocab_in_def) (simp add: one_tok_def special_ids_def)
qed

definition small_dims :: dims where
  "small_dims = \<lparr>dm_dim = 32, dm_att = 32, dm_layers = 0, dm_heads = 2, dm_kv_heads = 1, dm_head = 16, dm_kv = 16, dm_ffn = 32, dm_vocab = 1, dm_ctx = 4096\<rparr>"

lemma small_dims: "dims_of small_model CTX_LEN = small_dims"
  by (simp add: dims_of_def small_fields small_meta_def tiny_model_def small_dims_def CTX_LEN_def Let_def)

lemma small_weights: "\<exists>W. weights_of small_model small_dims = Ok W"
proof -
  have "\<exists>q. mat_tensor small_model TokEmbed 0 1 32 = Ok q"
    by (simp add: mat_tensor_def model_tensor_def small_fields slice_def qmat_from_view_def view_q8_def cast_blocks_def outcome_simps)
  moreover have a: "(md_data_addr small_model + 64) mod 4 = 0" using small_fields(4) by presburger
  have "\<exists>q. f32_tensor small_model OutputNorm 0 32 = Ok q"
    using a by (simp add: f32_tensor_def model_tensor_def small_fields slice_def view_f32_def length_chunks_exact outcome_simps)
  moreover have "mt_flags (md_meta small_model) AND FLAG_TIED_EMBEDDINGS \<noteq> 0" "\<not> has_tensor small_model AttnQNorm"
    by (simp_all add: small_fields small_meta_def tiny_model_def FLAG_TIED_EMBEDDINGS_def has_tensor_def)
  ultimately show ?thesis by (auto simp: weights_of_def small_dims_def Let_def)
qed

lemma small_runnable: "runnable demo_machine small_model one_tok"
proof -
  have "\<exists>fs. freqs_of demo_machine small_model small_dims (replicate (dm_head small_dims div 2) F_ZERO) = Ok fs"
    by (simp add: freqs_of_def small_fields small_meta_def tiny_model_def has_tensor_def small_dims_def rope_freqs_def assert_def Let_def)
  moreover have "whole_rows small_model" by (simp add: whole_rows_def small_fields QK8_0_def QK_K_def)
  moreover have "context_bytes small_dims + 8 * 1024 * 1024 + 4096 < usize_limit"
    by (simp add: context_bytes_def small_dims_def MAX_BATCH_def QK8_0_def QK_K_def Q8_0_SIZE_def Q8K_SIZE_def usize_limit_def Let_def)
  ultimately show ?thesis using small_weights small_vocab
    by (simp add: runnable_def small_dims Let_def) (simp add: small_dims_def small_fields small_meta_def tiny_model_def)
qed

definition small_firmware :: "fonts \<Rightarrow> (unit, unit) firmware" where
  "small_firmware fs = \<lparr>fw_stride = 640, fw_layout = Bgrx, fw_fonts = fs, fw_version = lit ''1'', fw_simd = lit ''scalar'', fw_x86 = True,
     fw_mp = \<lparr>mp_handle = False, mp_open = False, mp_enabled = None, mp_event = False, mp_startup = MpFailed, mp_pool = (\<lambda>_. pool_new)\<rparr>,
     fw_fan = None, fw_memory = Some [(True, 65536)], fw_opened = Ok (length small_file), fw_pages = True, fw_eof = (),
     fw_read = (\<lambda>p n. Ok (sub small_file p (p + n))), fw_addr = 4096, fw_arena = Some 8192, fw_machine = demo_machine, fw_seed = 7,
     fw_show_load = (\<lambda>_. []), fw_show_verify = (\<lambda>_. []), fw_show_parse = (\<lambda>_. []), fw_show_tok = (\<lambda>_. [])\<rparr>"

lemma boot_reaches_chat_witness:
  "\<exists>fs a. run_app (small_firmware fs) quiet_host (None :: unit network option) 640 480 = Ok a \<and> shell_ok a \<and> pl_tok (se_pl (sh_s a)) = one_tok"
proof -
  obtain f where f: "pf_width f = 8" "pf_height f = 1" "font_ok f" using demo_psf_parse by blast
  define fs where "fs = \<lparr>fo_small = f, fo_body = f, fo_head = f, fo_big = f\<rparr>"
  have s: "screen_ok fs 640 480" "display_ok fs (lit (assistant_label (mt_arch (md_meta small_model)))) 640 480"
    using f by (simp_all add: screen_ok_def display_ok_def fs_def content_column_def lit_def small_fields small_meta_def tiny_model_def assistant_label_def)
  have n: "length (mt_name small_meta) = 48" by (simp add: small_meta_def)
  have l: "length small_file < usize_limit" "192 \<le> length small_file"
    unfolding small_file_def length_write_nrm [OF n] small_written by (simp_all add: small_tensors_def length_one_token align_data_def div_ceil_def usize_limit_def)
  have d: "delivers (small_firmware fs) small_file" using l(2) tiny_reads [of small_file] by (simp add: delivers_def small_firmware_def)
  have "screen_ok (fw_fonts (small_firmware fs)) 640 480"
    "display_ok (fw_fonts (small_firmware fs)) (lit (assistant_label (mt_arch (md_meta small_model)))) 640 480"
    "model_parse (fw_addr (small_firmware fs)) small_file = Ok small_model" "tokenizer_parse (md_tokenizer_blob small_model) = Ok one_tok"
    "runnable (fw_machine (small_firmware fs)) small_model one_tok" "fw_arena (small_firmware fs) = Some 8192" "mp_grows (fw_mp (small_firmware fs))"
    using s small_parses small_tok small_runnable by (simp_all add: small_firmware_def small_fields mp_grows_def)
  from boot_reaches_chat [OF this(1,2) d small_verified l(1) this(3-6) _ this(7), of "None :: unit network option" quiet_host]
  show ?thesis by auto
qed

end
