(* ===== verification/Nr_Gateway.thy ===== *)
theory Nr_Gateway
  imports Nr_App
begin

text \<open>
  The host gateway of \<^verbatim>\<open>tools/nrmcp-gateway/src/main.rs\<close> between MCP over HTTP and the device's UDP framing. Its two
  threads share the device's address, the table of waiting requests and the socket; every access to one of these is a
  step, so the step relation \<open>gw_step\<close> has all interleavings. The datagrams of one message go out in one step. Socket,
  HTTP client and JSON library are the record \<open>gw_world\<close>; printed lines are left out.
\<close>

subsection \<open>HTTP requests and the world\<close>

text \<open>A request as the server hands it over; the body is the bytes its reader yields and whether reading then fails.\<close>

record http_request =
  rq_url :: chars
  rq_method :: chars
  rq_headers :: "(chars \<times> chars) list"
  rq_body :: "bytes \<times> bool"

datatype http_response = RespondText nat chars | RespondJson nat bytes | RespondEmpty nat

record http_reply =
  re_header :: "chars \<Rightarrow> chars option"
  re_body :: "chars + bytes"

record ('p, 'k) gw_world =
  gw_json :: json_lib
  gw_classes :: char_classes
  gw_send_to :: "'p \<Rightarrow> bytes \<Rightarrow> 'k \<Rightarrow> 'k \<times> chars option"
  gw_post :: "chars \<Rightarrow> (chars \<times> chars) list \<Rightarrow> bytes \<Rightarrow> 'k \<Rightarrow> 'k \<times> (chars + http_reply)"
  gw_version :: chars
  gw_error_text :: "mcp_error \<Rightarrow> chars"
  gw_parse_error :: "bytes \<Rightarrow> chars"

definition MAX_MESSAGE :: nat where "MAX_MESSAGE = 64 * 1024"

definition PROTOCOL_VERSION :: chars where "PROTOCOL_VERSION = lit ''2025-06-18''"

definition ascii_lower :: "nat \<Rightarrow> nat" where
  "ascii_lower c = (if 65 \<le> c \<and> c \<le> 90 then c + 32 else c)"

definition eq_ignore_ascii_case :: "chars \<Rightarrow> chars \<Rightarrow> bool" where
  "eq_ignore_ascii_case a b \<longleftrightarrow> map ascii_lower a = map ascii_lower b"

definition header_value :: "http_request \<Rightarrow> chars \<Rightarrow> chars option" where
  "header_value rq name = map_option snd (find (\<lambda>(f, v). eq_ignore_ascii_case f name) (rq_headers rq))"

definition origin_allowed :: "http_request \<Rightarrow> bool" where
  "origin_allowed rq = (case header_value rq (lit ''Origin'') of None \<Rightarrow> True
     | Some origin \<Rightarrow> starts_with (lit ''http://127.0.0.1:'') origin \<or> starts_with (lit ''http://localhost:'') origin
         \<or> origin = lit ''http://127.0.0.1'' \<or> origin = lit ''http://localhost'')"

definition valid_json_rpc :: "json_lib \<Rightarrow> bytes \<Rightarrow> bool" where
  "valid_json_rpc J body \<longleftrightarrow> Option.bind (Option.bind (js_parse J body) (js_get (lit ''jsonrpc''))) js_as_str = Some (lit ''2.0'')"

definition json_rpc_id :: "json_lib \<Rightarrow> bytes \<Rightarrow> json option" where
  "json_rpc_id J body = Option.bind (js_parse J body) (js_get (lit ''id''))"

definition json_rpc_has_id :: "json_lib \<Rightarrow> bytes \<Rightarrow> bool" where
  "json_rpc_has_id J body \<longleftrightarrow> json_rpc_id J body \<noteq> None"

definition json_rpc_error :: "json_lib \<Rightarrow> bytes \<Rightarrow> int \<Rightarrow> chars \<Rightarrow> bytes" where
  "json_rpc_error J request code message = js_bytes J (js_obj [(''jsonrpc'', js_str ''2.0''),
     (''id'', case json_rpc_id J request of Some i \<Rightarrow> i | None \<Rightarrow> JNull),
     (''error'', js_obj [(''code'', JNum code), (''message'', JStr message)])])"

text \<open>\<open>take(limit)\<close> and \<open>read_to_end\<close>: a reader that has the limit's bytes never gets to fail.\<close>

definition read_limited :: "nat \<Rightarrow> bytes \<times> bool \<Rightarrow> bytes option" where
  "read_limited n = (\<lambda>(bs, fails). if n \<le> length bs then Some (take n bs) else if fails then None else Some bs)"

subsection \<open>Admitting a request\<close>

datatype 'p admission = Rejected http_response | Admitted 'p bytes

definition admit :: "json_lib \<Rightarrow> chars \<Rightarrow> 'p option \<Rightarrow> http_request \<Rightarrow> 'p admission" where
  "admit J token peer rq =
     (if rq_url rq \<noteq> lit ''/mcp'' \<or> rq_method rq \<noteq> lit ''POST'' then Rejected (RespondText 405 (lit ''MCP endpoint accepts POST /mcp''))
      else if \<not> origin_allowed rq then Rejected (RespondText 403 (lit ''Origin is not allowed''))
      else if header_value rq (lit ''Authorization'') \<noteq> Some (lit ''Bearer '' @ token) then Rejected (RespondText 401 (lit ''Missing or invalid bearer token''))
      else case peer of None \<Rightarrow> Rejected (RespondText 503 (lit ''NightRun has not connected to the gateway''))
      | Some p \<Rightarrow> (case read_limited (MAX_MESSAGE + 1) (rq_body rq) of
          None \<Rightarrow> Rejected (RespondText 413 (lit ''MCP message exceeds 64 KiB''))
        | Some body \<Rightarrow> if MAX_MESSAGE < length body then Rejected (RespondText 413 (lit ''MCP message exceeds 64 KiB''))
            else if \<not> valid_json_rpc J body then
              Rejected (RespondJson 400 (utf8 (lit ''{\"jsonrpc\":\"2.0\",\"id\":null,\"error\":{\"code\":-32600,\"message\":\"Invalid JSON-RPC request\"}}'')))
            else Admitted p body))"

subsection \<open>Sending a message\<close>

fun send_fragments :: "('p, 'k) gw_world \<Rightarrow> 'p \<Rightarrow> kind \<Rightarrow> u32 \<Rightarrow> bytes \<Rightarrow> nat list \<Rightarrow> 'k \<Rightarrow> 'k \<times> (chars, unit) outcome" where
  "send_fragments W peer knd i message [] k = (k, Ok ())"
| "send_fragments W peer knd i message (x # xs) k =
     (case encode_fragment knd i message (of_nat x) (replicate MAX_DATAGRAM 0) of
        Ok (n, out) \<Rightarrow> (case gw_send_to W peer (take n out) k of
            (k, None) \<Rightarrow> send_fragments W peer knd i message xs k
          | (k, Some e) \<Rightarrow> (k, Err e))
      | Err e \<Rightarrow> (k, Err (gw_error_text W e))
      | Panic \<Rightarrow> (k, Panic))"

definition send_message :: "('p, 'k) gw_world \<Rightarrow> 'p \<Rightarrow> kind \<Rightarrow> u32 \<Rightarrow> bytes \<Rightarrow> 'k \<Rightarrow> 'k \<times> (chars, unit) outcome" where
  "send_message W peer knd i message k = (case fragment_count (length message) of
       Ok cnt \<Rightarrow> send_fragments W peer knd i message [0..<unat cnt] k
     | Err e \<Rightarrow> (k, Err (gw_error_text W e))
     | Panic \<Rightarrow> (k, Panic))"

subsection \<open>The upstream server\<close>

record upstream =
  up_url :: chars
  up_token :: "chars option"
  up_session :: "chars option"
  up_initialized :: bool

definition upstream_new :: "chars \<Rightarrow> chars option \<Rightarrow> upstream" where
  "upstream_new url token = \<lparr>up_url = url, up_token = token, up_session = None, up_initialized = False\<rparr>"

text \<open>\<open>str::split\<close> at an empty line, \<open>str::lines\<close>, and the event stream.\<close>

fun split_blank :: "chars \<Rightarrow> chars list" where
  "split_blank (a # b # s) = (if a = 10 \<and> b = 10 then [] # split_blank s
     else case split_blank (b # s) of e # es \<Rightarrow> (a # e) # es | [] \<Rightarrow> [[a]])"
| "split_blank s = [s]"

definition strip_cr :: "chars \<Rightarrow> chars" where
  "strip_cr l = (if l \<noteq> [] \<and> last l = 13 then butlast l else l)"

function str_lines :: "chars \<Rightarrow> chars list" where
  "str_lines s = (if s = [] then [] else if 10 \<in> set s
     then strip_cr (takeWhile (\<lambda>c. c \<noteq> 10) s) # str_lines (drop 1 (dropWhile (\<lambda>c. c \<noteq> 10) s)) else [s])"
  by pat_completeness auto
termination
proof (relation "measure length", goal_cases)
  case (2 s)
  then show ?case using length_dropWhile_le [of "\<lambda>c. c \<noteq> 10" s] by (cases "dropWhile (\<lambda>c. c \<noteq> 10) s") auto
qed simp

declare str_lines.simps [simp del]

definition event_data :: "char_classes \<Rightarrow> chars \<Rightarrow> chars" where
  "event_data cls event = foldl (\<lambda>data line. if starts_with (lit ''data:'') line
       then (if data = [] then [] else data @ [10]) @ dropWhile (is_whitespace cls) (drop 5 line) else data) [] (str_lines event)"

fun find_event :: "('p, 'k) gw_world \<Rightarrow> json option \<Rightarrow> chars list \<Rightarrow> chars + bytes" where
  "find_event W want [] = Inl (lit ''upstream SSE contained no JSON-RPC message'')"
| "find_event W want (event # es) = (let data = event_data (gw_classes W) event in
     if data = [] then find_event W want es
     else case js_parse_str (gw_json W) data of None \<Rightarrow> find_event W want es
       | Some v \<Rightarrow> if want = None \<or> js_get (lit ''id'') v = want then Inr (utf8 data) else find_event W want es)"

definition extract_sse_json :: "('p, 'k) gw_world \<Rightarrow> bytes \<Rightarrow> json option \<Rightarrow> chars + bytes" where
  "extract_sse_json W body want = (if from_utf8 body = Utf8Ok then find_event W want (split_blank (from_utf8_lossy body))
     else Inl (lit ''upstream SSE is not UTF-8''))"

definition post_headers :: "upstream \<Rightarrow> (chars \<times> chars) list" where
  "post_headers u = [(lit ''Content-Type'', lit ''application/json''), (lit ''Accept'', lit ''application/json, text/event-stream''),
       (lit ''MCP-Protocol-Version'', PROTOCOL_VERSION)]
     @ (case up_token u of Some token \<Rightarrow> [(lit ''Authorization'', lit ''Bearer '' @ token)] | None \<Rightarrow> [])
     @ (case up_session u of Some session \<Rightarrow> [(lit ''Mcp-Session-Id'', session)] | None \<Rightarrow> [])"

definition upstream_post :: "('p, 'k) gw_world \<Rightarrow> bytes \<Rightarrow> upstream \<times> 'k \<Rightarrow> (upstream \<times> 'k) \<times> (chars + bytes)" where
  "upstream_post W body = (\<lambda>(u, k). case gw_post W (up_url u) (post_headers u) body k of
       (k, Inl error) \<Rightarrow> ((u, k), Inl (lit ''upstream request failed: '' @ error))
     | (k, Inr ans) \<Rightarrow>
         (let u = (if up_session u = None then u\<lparr>up_session := re_header ans (lit ''mcp-session-id'')\<rparr> else u);
              is_sse = (case re_header ans (lit ''content-type'') of Some v \<Rightarrow> starts_with (lit ''text/event-stream'') v | None \<Rightarrow> False) in
          ((u, k), case re_body ans of Inl error \<Rightarrow> Inl (lit ''upstream response failed: '' @ error)
            | Inr response \<Rightarrow> if MAX_MESSAGE < length response then Inl (lit ''upstream response exceeds 64 KiB'')
                else if is_sse then extract_sse_json W response (json_rpc_id (gw_json W) body) else Inr response)))"

definition initialize_request :: "chars \<Rightarrow> json" where
  "initialize_request version = js_obj [(''jsonrpc'', js_str ''2.0''), (''id'', js_str ''nrmcp-gateway-init''), (''method'', js_str ''initialize''),
     (''params'', js_obj [(''protocolVersion'', JStr PROTOCOL_VERSION), (''capabilities'', js_obj []),
        (''clientInfo'', js_obj [(''name'', js_str ''nrmcp-gateway''), (''title'', js_str ''NightRun MCP Gateway''), (''version'', JStr version)])])]"

definition ensure_initialized :: "('p, 'k) gw_world \<Rightarrow> upstream \<times> 'k \<Rightarrow> (upstream \<times> 'k) \<times> (chars + unit)" where
  "ensure_initialized W = (\<lambda>(u, k). if up_initialized u then ((u, k), Inr ()) else
     (case upstream_post W (js_bytes (gw_json W) (initialize_request (gw_version W))) (u, k) of
        (uk, Inl e) \<Rightarrow> (uk, Inl e)
      | (uk, Inr response) \<Rightarrow> (case js_parse (gw_json W) response of
          None \<Rightarrow> (uk, Inl (lit ''invalid initialize response: '' @ gw_parse_error W response))
        | Some v \<Rightarrow> if js_get (lit ''result'') v = None then (uk, Inl (lit ''upstream rejected MCP initialization''))
            else (case upstream_post W (utf8 (lit ''{\"jsonrpc\":\"2.0\",\"method\":\"notifications/initialized\"}'')) uk of
                (uk, Inl e) \<Rightarrow> (uk, Inl e)
              | ((u, k), Inr _) \<Rightarrow> ((u\<lparr>up_initialized := True\<rparr>, k), Inr ())))))"

definition upstream_call :: "('p, 'k) gw_world \<Rightarrow> bytes \<Rightarrow> upstream \<times> 'k \<Rightarrow> (upstream \<times> 'k) \<times> (chars + bytes)" where
  "upstream_call W body uk = (case ensure_initialized W uk of (uk, Inl e) \<Rightarrow> (uk, Inl e) | (uk, Inr _) \<Rightarrow> upstream_post W body uk)"

subsection \<open>The two threads\<close>

text \<open>Where the receiving thread (\<open>main\<close>) and the HTTP thread (\<open>handle_http\<close>) stand.\<close>

datatype 'p main_pc = Receiving | Delivering u32 bytes | Asking 'p u32 bytes | Replying 'p u32 bytes | Stopped chars

datatype 'p http_pc = Idle | Inserting http_request 'p u32 bytes | Sending http_request 'p u32 bytes "nat option"
  | Waiting http_request u32 nat | GivingUp http_request u32 http_response | Dead

text \<open>\<open>gs_pending\<close> holds the sender of a channel under the message id; channels are numbered in the order they are made.\<close>

record ('p, 'k) gateway =
  gs_peer :: "'p option"
  gs_pending :: "u32 \<Rightarrow> nat option"
  gs_channel :: "nat \<Rightarrow> bytes list"
  gs_opened :: nat
  gs_ids :: u32
  gs_reassembler :: reassembler
  gs_upstream :: "upstream option"
  gs_sock :: 'k
  gs_main :: "'p main_pc"
  gs_http :: "'p http_pc"

definition gateway_start :: "upstream option \<Rightarrow> 'k \<Rightarrow> ('p, 'k) gateway" where
  "gateway_start up k = \<lparr>gs_peer = None, gs_pending = Map.empty, gs_channel = (\<lambda>_. []), gs_opened = 0, gs_ids = 1,
     gs_reassembler = reassembler_default MAX_MESSAGE, gs_upstream = up, gs_sock = k, gs_main = Receiving, gs_http = Idle\<rparr>"

datatype 'p gw_event = Received 'p complete_message | Delivered u32 bytes
  | Forwarded http_request u32 'p bytes | Answered http_request http_response

subsubsection \<open>The receiving thread\<close>

definition dispatch :: "'p \<Rightarrow> complete_message \<Rightarrow> ('p, 'k) gateway \<Rightarrow> ('p, 'k) gateway" where
  "dispatch src m s = (case cm_kind m of
       Hello \<Rightarrow> s\<lparr>gs_peer := Some src\<rparr>
     | DeviceResponse \<Rightarrow> s\<lparr>gs_peer := Some src, gs_main := Delivering (cm_message_id m) (cm_payload m)\<rparr>
     | DeviceRequest \<Rightarrow> s\<lparr>gs_peer := Some src, gs_main := Asking src (cm_message_id m) (cm_payload m)\<rparr>
     | HostRequest \<Rightarrow> s | HostResponse \<Rightarrow> s)"

definition recv_datagram :: "'p \<Rightarrow> bytes \<Rightarrow> ('p, 'k) gateway \<Rightarrow> ('p gw_event list \<times> ('p, 'k) gateway) option" where
  "recv_datagram src dg s = (case gs_main s of Receiving \<Rightarrow> (case reassembler_push (gs_reassembler s) dg of
          (r, Ok (Some m)) \<Rightarrow> Some ([Received src m], dispatch src m (s\<lparr>gs_reassembler := r\<rparr>))
        | (r, Panic) \<Rightarrow> Some ([], s\<lparr>gs_main := Stopped []\<rparr>)
        | (r, _) \<Rightarrow> Some ([], s\<lparr>gs_reassembler := r\<rparr>))
     | _ \<Rightarrow> None)"

definition deliver :: "('p, 'k) gateway \<Rightarrow> ('p gw_event list \<times> ('p, 'k) gateway) option" where
  "deliver s = (case gs_main s of Delivering i payload \<Rightarrow> Some (case gs_pending s i of
          Some n \<Rightarrow> ([Delivered i payload], s\<lparr>gs_pending := (gs_pending s)(i := None),
             gs_channel := (gs_channel s)(n := gs_channel s n @ [payload]), gs_main := Receiving\<rparr>)
        | None \<Rightarrow> ([], s\<lparr>gs_main := Receiving\<rparr>))
     | _ \<Rightarrow> None)"

definition ask :: "('p, 'k) gw_world \<Rightarrow> ('p, 'k) gateway \<Rightarrow> ('p gw_event list \<times> ('p, 'k) gateway) option" where
  "ask W s = (case gs_main s of Asking src i payload \<Rightarrow> Some ([], case gs_upstream s of
          Some u \<Rightarrow> (case upstream_call W payload (u, gs_sock s) of
             ((u, k), res) \<Rightarrow> s\<lparr>gs_upstream := Some u, gs_sock := k, gs_main := Replying src i
               (case res of Inr response \<Rightarrow> response | Inl error \<Rightarrow> json_rpc_error (gw_json W) payload (-32000) error)\<rparr>)
        | None \<Rightarrow> s\<lparr>gs_main := Replying src i
             (json_rpc_error (gw_json W) payload (-32001) (lit ''gateway has no --upstream MCP endpoint''))\<rparr>)
     | _ \<Rightarrow> None)"

definition send_reply :: "('p, 'k) gw_world \<Rightarrow> ('p, 'k) gateway \<Rightarrow> ('p gw_event list \<times> ('p, 'k) gateway) option" where
  "send_reply W s = (case gs_main s of Replying src i response \<Rightarrow> Some ([], case send_message W src HostResponse i response (gs_sock s) of
          (k, res) \<Rightarrow> s\<lparr>gs_sock := k, gs_main := (case res of Ok _ \<Rightarrow> Receiving | Err e \<Rightarrow> Stopped e | Panic \<Rightarrow> Stopped [])\<rparr>)
     | _ \<Rightarrow> None)"

subsubsection \<open>The HTTP thread\<close>

definition http_accept :: "('p, 'k) gw_world \<Rightarrow> chars \<Rightarrow> http_request \<Rightarrow> ('p, 'k) gateway \<Rightarrow> ('p gw_event list \<times> ('p, 'k) gateway) option" where
  "http_accept W token rq s = (case gs_http s of Idle \<Rightarrow> Some (case admit (gw_json W) token (gs_peer s) rq of
          Rejected resp \<Rightarrow> ([Answered rq resp], s)
        | Admitted peer body \<Rightarrow> ([Forwarded rq (gs_ids s) peer body], s\<lparr>gs_ids := gs_ids s + 1,
             gs_http := (if json_rpc_has_id (gw_json W) body then Inserting rq peer (gs_ids s) body else Sending rq peer (gs_ids s) body None)\<rparr>))
     | _ \<Rightarrow> None)"

definition http_insert :: "('p, 'k) gateway \<Rightarrow> ('p gw_event list \<times> ('p, 'k) gateway) option" where
  "http_insert s = (case gs_http s of Inserting rq peer i body \<Rightarrow> Some ([], s\<lparr>gs_pending := (gs_pending s)(i \<mapsto> gs_opened s),
        gs_opened := Suc (gs_opened s), gs_http := Sending rq peer i body (Some (gs_opened s))\<rparr>)
     | _ \<Rightarrow> None)"

definition bridge_failed :: "chars \<Rightarrow> http_response" where
  "bridge_failed e = RespondText 502 (lit ''UDP bridge failed: '' @ e)"

definition http_send :: "('p, 'k) gw_world \<Rightarrow> ('p, 'k) gateway \<Rightarrow> ('p gw_event list \<times> ('p, 'k) gateway) option" where
  "http_send W s = (case gs_http s of Sending rq peer i body waiter \<Rightarrow> Some (case send_message W peer HostRequest i body (gs_sock s) of (k, res) \<Rightarrow>
       (let s = s\<lparr>gs_sock := k\<rparr> in case (res, waiter) of
          (Ok _, None) \<Rightarrow> ([Answered rq (RespondEmpty 202)], s\<lparr>gs_http := Idle\<rparr>)
        | (Ok _, Some n) \<Rightarrow> ([], s\<lparr>gs_http := Waiting rq i n\<rparr>)
        | (Err e, None) \<Rightarrow> ([Answered rq (bridge_failed e)], s\<lparr>gs_http := Idle\<rparr>)
        | (Err e, Some n) \<Rightarrow> ([], s\<lparr>gs_http := GivingUp rq i (bridge_failed e)\<rparr>)
        | (Panic, _) \<Rightarrow> ([], s\<lparr>gs_http := Dead\<rparr>)))
     | _ \<Rightarrow> None)"

definition http_take :: "('p, 'k) gateway \<Rightarrow> ('p gw_event list \<times> ('p, 'k) gateway) option" where
  "http_take s = (case gs_http s of Waiting rq i n \<Rightarrow> (case gs_channel s n of
          response # rest \<Rightarrow> Some ([Answered rq (RespondJson 200 response)], s\<lparr>gs_channel := (gs_channel s)(n := rest), gs_http := Idle\<rparr>)
        | [] \<Rightarrow> None)
     | _ \<Rightarrow> None)"

definition http_timeout :: "('p, 'k) gateway \<Rightarrow> ('p gw_event list \<times> ('p, 'k) gateway) option" where
  "http_timeout s = (case gs_http s of Waiting rq i n \<Rightarrow> (if gs_channel s n = []
        then Some ([], s\<lparr>gs_http := GivingUp rq i (RespondText 504 (lit ''NightRun MCP request timed out''))\<rparr>) else None)
     | _ \<Rightarrow> None)"

definition http_give_up :: "('p, 'k) gateway \<Rightarrow> ('p gw_event list \<times> ('p, 'k) gateway) option" where
  "http_give_up s = (case gs_http s of GivingUp rq i resp \<Rightarrow>
        Some ([Answered rq resp], s\<lparr>gs_pending := (gs_pending s)(i := None), gs_http := Idle\<rparr>)
     | _ \<Rightarrow> None)"

subsubsection \<open>Interleavings\<close>

text \<open>What happens next: something from outside (a datagram, a socket error, an HTTP request, the time-out) or a thread's next
  access to the shared state. When the receiving thread returns, the process ends.\<close>

datatype 'p gw_action = Datagram 'p bytes | RecvFails chars | Deliver | Ask | SendReply
  | Request http_request | Insert | Send | Take | Timeout | GiveUp

fun gw_do :: "('p, 'k) gw_world \<Rightarrow> chars \<Rightarrow> 'p gw_action \<Rightarrow> ('p, 'k) gateway \<Rightarrow> ('p gw_event list \<times> ('p, 'k) gateway) option" where
  "gw_do W token (Datagram src dg) s = recv_datagram src dg s"
| "gw_do W token (RecvFails e) s = (if gs_main s = Receiving then Some ([], s\<lparr>gs_main := Stopped e\<rparr>) else None)"
| "gw_do W token Deliver s = deliver s"
| "gw_do W token Ask s = ask W s"
| "gw_do W token SendReply s = send_reply W s"
| "gw_do W token (Request rq) s = http_accept W token rq s"
| "gw_do W token Insert s = http_insert s"
| "gw_do W token Send s = http_send W s"
| "gw_do W token Take s = http_take s"
| "gw_do W token Timeout s = http_timeout s"
| "gw_do W token GiveUp s = http_give_up s"

definition stopped :: "('p, 'k) gateway \<Rightarrow> bool" where
  "stopped s = (case gs_main s of Stopped _ \<Rightarrow> True | _ \<Rightarrow> False)"

inductive gw_run :: "('p, 'k) gw_world \<Rightarrow> chars \<Rightarrow> ('p, 'k) gateway \<Rightarrow> 'p gw_event list \<Rightarrow> ('p, 'k) gateway \<Rightarrow> bool"
  for W token s0 where
  gw_nil: "gw_run W token s0 [] s0"
| gw_act: "gw_run W token s0 es s \<Longrightarrow> \<not> stopped s \<Longrightarrow> gw_do W token a s = Some (es', s') \<Longrightarrow> gw_run W token s0 (es @ es') s'"

subsection \<open>The command line\<close>

record gw_options =
  op_udp_bind :: chars
  op_http_bind :: chars
  op_token :: chars
  op_upstream :: "chars option"
  op_upstream_token :: "chars option"

record gw_flags =
  fl_udp_bind :: chars
  fl_http_bind :: chars
  fl_upstream :: "chars option"
  fl_token_env :: chars
  fl_upstream_token_env :: "chars option"

datatype 'a started = Run 'a | Usage | Fail chars

definition default_flags :: gw_flags where
  "default_flags = \<lparr>fl_udp_bind = lit ''127.0.0.1:9000'', fl_http_bind = lit ''127.0.0.1:9001'', fl_upstream = None,
     fl_token_env = lit ''NRMCP_TOKEN'', fl_upstream_token_env = None\<rparr>"

definition set_flag :: "chars \<Rightarrow> chars \<Rightarrow> gw_flags \<Rightarrow> gw_flags option" where
  "set_flag argument value f =
     (if argument = lit ''--udp-bind'' then Some (f\<lparr>fl_udp_bind := value\<rparr>)
      else if argument = lit ''--http-bind'' then Some (f\<lparr>fl_http_bind := value\<rparr>)
      else if argument = lit ''--upstream'' then Some (f\<lparr>fl_upstream := Some value\<rparr>)
      else if argument = lit ''--token-env'' then Some (f\<lparr>fl_token_env := value\<rparr>)
      else if argument = lit ''--upstream-token-env'' then Some (f\<lparr>fl_upstream_token_env := Some value\<rparr>)
      else None)"

fun parse_flags :: "chars list \<Rightarrow> gw_flags \<Rightarrow> gw_flags started" where
  "parse_flags [] f = Run f"
| "parse_flags (argument # args) f =
     (if argument = lit ''--help'' \<or> argument = lit ''-h'' then Usage
      else case args of
        [] \<Rightarrow> (case set_flag argument [] f of Some _ \<Rightarrow> Fail (lit ''missing value after '' @ argument) | None \<Rightarrow> Fail (lit ''unknown argument: '' @ argument))
      | value # args \<Rightarrow> (case set_flag argument value f of Some f \<Rightarrow> parse_flags args f | None \<Rightarrow> Fail (lit ''unknown argument: '' @ argument)))"

definition parse_options :: "(chars \<Rightarrow> chars option) \<Rightarrow> chars list \<Rightarrow> gw_options started" where
  "parse_options var args = (case parse_flags args default_flags of
       Usage \<Rightarrow> Usage
     | Fail e \<Rightarrow> Fail e
     | Run f \<Rightarrow> (case var (fl_token_env f) of
         None \<Rightarrow> Fail (fl_token_env f @ lit '' must contain the inbound bearer token'')
       | Some token \<Rightarrow>
           if str_len token < 24 then Fail (fl_token_env f @ lit '' must be at least 24 characters'')
           else (let options = (\<lambda>t. Run \<lparr>op_udp_bind = fl_udp_bind f, op_http_bind = fl_http_bind f, op_token = token,
                   op_upstream = fl_upstream f, op_upstream_token = t\<rparr>) in
             case fl_upstream_token_env f of None \<Rightarrow> options None
             | Some name \<Rightarrow> (case var name of None \<Rightarrow> Fail (name @ lit '' is not set'') | Some t \<Rightarrow> options (Some t)))))"

lemma parsed_token_is_long: "parse_options var args = Run opts \<Longrightarrow> 24 \<le> str_len (op_token opts)"
  by (auto simp: parse_options_def Let_def not_less split: started.splits option.splits if_splits)

definition gateway_boot :: "gw_options \<Rightarrow> 'k \<Rightarrow> ('p, 'k) gateway" where
  "gateway_boot opts k = gateway_start (map_option (\<lambda>url. upstream_new url (op_upstream_token opts)) (op_upstream opts)) k"

subsection \<open>Admission\<close>

definition admissible :: "json_lib \<Rightarrow> chars \<Rightarrow> http_request \<Rightarrow> bytes \<Rightarrow> bool" where
  "admissible J token rq body \<longleftrightarrow> rq_url rq = lit ''/mcp'' \<and> rq_method rq = lit ''POST'' \<and> origin_allowed rq
     \<and> header_value rq (lit ''Authorization'') = Some (lit ''Bearer '' @ token)
     \<and> body = fst (rq_body rq) \<and> length body \<le> MAX_MESSAGE \<and> valid_json_rpc J body"

lemma read_limited_short: "read_limited (Suc n) rb = Some body \<Longrightarrow> length body \<le> n \<Longrightarrow> body = fst rb"
  by (auto simp: read_limited_def split: if_splits prod.splits)

lemma admit_admissible: "admit J token peer rq = Admitted p body \<Longrightarrow> peer = Some p \<and> admissible J token rq body"
  using read_limited_short [of MAX_MESSAGE "rq_body rq" body]
  by (auto simp: admit_def admissible_def split: if_splits option.splits)

lemma admit_no_success: "admit J token peer rq = Rejected resp \<Longrightarrow> resp \<noteq> RespondJson 200 b"
  by (auto simp: admit_def split: if_splits option.splits)

subsection \<open>The invariant of a run\<close>

definition forwards :: "'p gw_event list \<Rightarrow> bool" where
  "forwards es = list_ex (\<lambda>e. case e of Forwarded _ _ _ _ \<Rightarrow> True | _ \<Rightarrow> False) es"

definition came_in :: "'p gw_event list \<Rightarrow> u32 \<Rightarrow> bytes \<Rightarrow> bool" where
  "came_in es i b \<longleftrightarrow> (\<exists>src. Received src \<lparr>cm_kind = DeviceResponse, cm_message_id = i, cm_payload = b\<rparr> \<in> set es)"

text \<open>The address the last message of a device came from: where requests are forwarded to.\<close>

definition hear :: "'p option \<Rightarrow> 'p gw_event \<Rightarrow> 'p option" where
  "hear p e = (case e of Received src m \<Rightarrow> if cm_kind m \<in> {Hello, DeviceResponse, DeviceRequest} then Some src else p | _ \<Rightarrow> p)"

definition last_device :: "'p gw_event list \<Rightarrow> 'p option" where
  "last_device es = foldl hear None es"

lemma last_device_append [simp]: "last_device (es @ es') = foldl hear (last_device es) es'"
  by (simp add: last_device_def)

lemma hear_simps [simp]: "hear p (Delivered i b) = p" "hear p (Forwarded rq i q body) = p" "hear p (Answered rq resp) = p"
  by (simp_all add: hear_def)

lemma last_device_heard: "last_device es = Some p \<Longrightarrow> \<exists>m. Received p m \<in> set es"
proof (induction es rule: rev_induct)
  case (snoc e es)
  then show ?case by (cases e) (auto simp: hear_def split: if_splits)
qed (simp add: last_device_def)

text \<open>The last request forwarded is \<open>rq\<close>, under the id \<open>i\<close>; the events since then are \<open>m\<close>.\<close>

definition serving :: "('p, 'k) gw_world \<Rightarrow> chars \<Rightarrow> 'p gw_event list \<Rightarrow> http_request \<Rightarrow> u32 \<Rightarrow> 'p gw_event list \<Rightarrow> bool" where
  "serving W token es rq i m \<longleftrightarrow> (\<exists>a peer body. es = a @ Forwarded rq i peer body # m \<and> \<not> forwards m
     \<and> last_device a = Some peer \<and> admissible (gw_json W) token rq body \<and> json_rpc_has_id (gw_json W) body)"

definition open_call :: "('p, 'k) gw_world \<Rightarrow> chars \<Rightarrow> 'p gw_event list \<Rightarrow> ('p, 'k) gateway \<Rightarrow> http_request \<Rightarrow> u32 \<Rightarrow> nat \<Rightarrow> bool" where
  "open_call W token es s rq i n \<longleftrightarrow> n < gs_opened s \<and> (\<exists>m. serving W token es rq i m
     \<and> (gs_pending s = [i \<mapsto> n] \<and> gs_channel s n = []
        \<or> gs_pending s = Map.empty \<and> (\<exists>b. gs_channel s n = [b] \<and> Delivered i b \<in> set m \<and> came_in es i b)))"

definition http_inv :: "('p, 'k) gw_world \<Rightarrow> chars \<Rightarrow> 'p gw_event list \<Rightarrow> ('p, 'k) gateway \<Rightarrow> bool" where
  "http_inv W token es s = (case gs_http s of
       Idle \<Rightarrow> gs_pending s = Map.empty
     | Inserting rq peer i body \<Rightarrow> gs_pending s = Map.empty \<and> (\<exists>m. serving W token es rq i m)
     | Sending rq peer i body None \<Rightarrow> gs_pending s = Map.empty
     | Sending rq peer i body (Some n) \<Rightarrow> open_call W token es s rq i n
     | Waiting rq i n \<Rightarrow> open_call W token es s rq i n
     | GivingUp rq i resp \<Rightarrow> dom (gs_pending s) \<subseteq> {i} \<and> (\<forall>b. resp \<noteq> RespondJson 200 b)
     | Dead \<Rightarrow> False)"

definition gw_inv :: "('p, 'k) gw_world \<Rightarrow> chars \<Rightarrow> 'p gw_event list \<Rightarrow> ('p, 'k) gateway \<Rightarrow> bool" where
  "gw_inv W token es s \<longleftrightarrow> (\<forall>n \<ge> gs_opened s. gs_channel s n = []) \<and> (\<forall>i n. gs_pending s i = Some n \<longrightarrow> n < gs_opened s)
     \<and> (\<forall>i b. gs_main s = Delivering i b \<longrightarrow> came_in es i b)
     \<and> gs_peer s = last_device es \<and> http_inv W token es s"

lemma forwards_simps [simp]: "\<not> forwards []" "forwards (es @ es') \<longleftrightarrow> forwards es \<or> forwards es'"
    "forwards (Received src m # es) = forwards es" "forwards (Delivered i b # es) = forwards es" "forwards (Answered rq resp # es) = forwards es"
  by (simp_all add: forwards_def)

lemma serving_more: "serving W token es rq i m \<Longrightarrow> \<not> forwards es' \<Longrightarrow> serving W token (es @ es') rq i (m @ es')"
  unfolding serving_def by force

lemma came_in_more: "came_in es i b \<Longrightarrow> came_in (es @ es') i b"
  by (auto simp: came_in_def)

lemma open_call_more: "open_call W token es s rq i n \<Longrightarrow> \<not> forwards es' \<Longrightarrow> open_call W token (es @ es') s rq i n"
  unfolding open_call_def using serving_more [of W token es rq i _ es'] came_in_more [of es i _ es'] by fastforce

lemma open_call_same: "gs_opened s' = gs_opened s \<Longrightarrow> gs_pending s' = gs_pending s \<Longrightarrow> gs_channel s' = gs_channel s
    \<Longrightarrow> open_call W token es s' rq i n = open_call W token es s rq i n"
  by (simp add: open_call_def)

lemma http_inv_more: "http_inv W token es s \<Longrightarrow> \<not> forwards es' \<Longrightarrow> gs_http s' = gs_http s \<Longrightarrow> gs_opened s' = gs_opened s
    \<Longrightarrow> gs_pending s' = gs_pending s \<Longrightarrow> gs_channel s' = gs_channel s \<Longrightarrow> http_inv W token (es @ es') s'"
  using open_call_more [of W token es s _ _ _ es'] serving_more [of W token es _ _ _ es'] open_call_same [of s' s W token "es @ es'"]
  by (auto simp: http_inv_def split: http_pc.splits option.splits) blast+

text \<open>A step of the receiving thread that neither delivers nor touches the table keeps the invariant.\<close>

lemma gw_inv_main:
  assumes "gw_inv W token es s" and "\<not> forwards es'" and "gs_http s' = gs_http s" "gs_opened s' = gs_opened s"
    "gs_pending s' = gs_pending s" "gs_channel s' = gs_channel s" and "\<And>i b. gs_main s' = Delivering i b \<Longrightarrow> came_in (es @ es') i b"
    and "gs_peer s' = foldl hear (gs_peer s) es'"
  shows "gw_inv W token (es @ es') s'"
  using assms http_inv_more [of W token es s es' s'] by (simp add: gw_inv_def)

lemma gw_inv_recv:
  assumes I: "gw_inv W token es s" and r: "recv_datagram src dg s = Some (es', s')"
  shows "gw_inv W token (es @ es') s'"
proof (rule gw_inv_main [OF I])
  show "came_in (es @ es') i b" if "gs_main s' = Delivering i b" for i b
    using r that by (auto simp: recv_datagram_def dispatch_def came_in_def
        split: main_pc.splits prod.splits outcome.splits option.splits kind.splits intro!: exI [of _ src])
qed (use r in \<open>auto simp: recv_datagram_def dispatch_def hear_def split: main_pc.splits prod.splits outcome.splits option.splits kind.splits\<close>)

lemma gw_inv_deliver:
  assumes I: "gw_inv W token es s" and r: "deliver s = Some (es', s')"
  shows "gw_inv W token (es @ es') s'"
proof -
  obtain i b where m: "gs_main s = Delivering i b" using r by (auto simp: deliver_def split: main_pc.splits)
  have c: "came_in es i b" using I m by (simp add: gw_inv_def)
  show ?thesis
  proof (cases "gs_pending s i")
    case None
    then have "es' = []" "s' = s\<lparr>gs_main := Receiving\<rparr>" using r m by (auto simp: deliver_def)
    then show ?thesis by (intro gw_inv_main [OF I]) auto
  next
    case (Some n)
    then have e: "es' = [Delivered i b]" and s': "s' = s\<lparr>gs_pending := (gs_pending s)(i := None),
        gs_channel := (gs_channel s)(n := gs_channel s n @ [b]), gs_main := Receiving\<rparr>"
      using r m by (auto simp: deliver_def)
    note s'_simps = s' e
    have oc: "n = n' \<and> open_call W token (es @ es') s' rq i' n'" if o: "open_call W token es s rq i' n'" for rq i' n'
    proof -
      obtain mm where mm: "n' < gs_opened s" "serving W token es rq i' mm" "gs_pending s = [i' \<mapsto> n']" "gs_channel s n' = []"
        using o Some by (auto simp: open_call_def)
      then have i: "i' = i" "n' = n" using Some by (auto split: if_splits)
      have "serving W token (es @ es') rq i' (mm @ es')" by (rule serving_more [OF mm(2)]) (simp add: e)
      moreover have "gs_pending s' = Map.empty" "gs_channel s' n' = [b]" "n' < gs_opened s'" using mm i by (simp_all add: s')
      moreover have "came_in (es @ es') i' b" using came_in_more [OF c] i by simp
      moreover have "Delivered i' b \<in> set (mm @ es')" using i by (simp add: e)
      ultimately show ?thesis using i unfolding open_call_def by blast
    qed
    have h: "http_inv W token es s" and ch: "\<forall>n \<ge> gs_opened s. gs_channel s n = []" and pe: "\<forall>i n. gs_pending s i = Some n \<longrightarrow> n < gs_opened s"
      using I by (simp_all add: gw_inv_def)
    have "http_inv W token (es @ es') s'"
    proof (cases "gs_http s")
      case (Sending rq peer j body w)
      then show ?thesis using h Some oc by (cases w) (auto simp: http_inv_def s')
    next
      case (Waiting rq j k)
      then show ?thesis using h oc by (auto simp: http_inv_def s')
    next
      case (GivingUp rq j resp)
      then show ?thesis using h by (auto simp: http_inv_def s')
    qed (use h Some in \<open>auto simp: http_inv_def s'\<close>)
    moreover have "\<forall>n \<ge> gs_opened s'. gs_channel s' n = []" "\<forall>i n. gs_pending s' i = Some n \<longrightarrow> n < gs_opened s'"
      using ch pe Some by (auto simp: s' not_less [symmetric])
    moreover have "gs_peer s' = last_device (es @ es')" using I by (simp add: gw_inv_def s' e)
    ultimately show ?thesis by (simp add: gw_inv_def s')
  qed
qed

lemma send_fragments_not_Panic: "snd (send_fragments W peer knd i message xs k) \<noteq> Panic"
  by (induction xs arbitrary: k) (auto simp: encode_fragment_not_Panic split: outcome.splits option.splits prod.splits)

lemma send_message_not_Panic: "snd (send_message W peer knd i message k) \<noteq> Panic"
  using send_fragments_not_Panic [of W peer knd i message _ k] by (auto simp: send_message_def fragment_count_def Let_def split: outcome.splits if_splits)

lemma gw_inv_http_send:
  assumes I: "gw_inv W token es s" and r: "http_send W s = Some (es', s')"
  shows "gw_inv W token (es @ es') s'"
proof -
  obtain rq peer i body w where m: "gs_http s = Sending rq peer i body w" using r by (auto simp: http_send_def split: http_pc.splits)
  obtain k res where sm: "send_message W peer HostRequest i body (gs_sock s) = (k, res)" by (cases "send_message W peer HostRequest i body (gs_sock s)")
  then have np: "res \<noteq> Panic" using send_message_not_Panic [of W peer HostRequest i body "gs_sock s"] by simp
  have main: "\<And>i b. gs_main s = Delivering i b \<Longrightarrow> came_in (es @ es') i b" using I came_in_more by (auto simp: gw_inv_def)
  have s': "gs_opened s' = gs_opened s" "gs_pending s' = gs_pending s" "gs_channel s' = gs_channel s" "gs_main s' = gs_main s" "\<not> forwards es'"
    "gs_peer s' = gs_peer s" "\<And>p. foldl hear p es' = p"
    using r m sm np by (cases res; cases w; auto simp: http_send_def)+
  have "http_inv W token (es @ es') s'"
  proof (cases w)
    case None
    then show ?thesis using r m sm np I by (cases res) (auto simp: http_send_def http_inv_def gw_inv_def)
  next
    case (Some n)
    then have o: "open_call W token es s rq i n" using I m by (auto simp: gw_inv_def http_inv_def)
    have "open_call W token (es @ es') s' rq i n" using open_call_more [OF o s'(5)] open_call_same [OF s'(1-3)] by simp
    moreover have "dom (gs_pending s) \<subseteq> {i}" using o by (auto simp: open_call_def split: if_splits)
    moreover have "gs_http s' = Waiting rq i n \<or> (\<exists>e. gs_http s' = GivingUp rq i (bridge_failed e))"
      using r m sm np Some by (cases res) (auto simp: http_send_def)
    ultimately show ?thesis using s'(2) by (auto simp: http_inv_def bridge_failed_def)
  qed
  with I main s' show ?thesis by (simp add: gw_inv_def)
qed

lemma gw_inv_http:
  assumes I: "gw_inv W token es s" and r: "http_accept W token rq s = Some (es', s') \<or> http_insert s = Some (es', s')
      \<or> http_take s = Some (es', s') \<or> http_timeout s = Some (es', s') \<or> http_give_up s = Some (es', s')"
  shows "gw_inv W token (es @ es') s'"
  using r
proof (elim disjE)
  have h: "http_inv W token es s" and ch: "\<forall>n \<ge> gs_opened s. gs_channel s n = []" and pe: "\<forall>i n. gs_pending s i = Some n \<longrightarrow> n < gs_opened s"
    and pr: "gs_peer s = last_device es" and mn: "\<And>i b. gs_main s = Delivering i b \<Longrightarrow> came_in es i b"
    using I by (simp_all add: gw_inv_def)
  have mn': "\<And>i b. gs_main s = Delivering i b \<Longrightarrow> came_in (es @ es') i b" using came_in_more [OF mn] .
  {
    assume a: "http_accept W token rq s = Some (es', s')"
    then have m: "gs_http s = Idle" by (auto simp: http_accept_def split: http_pc.splits)
    with h have p: "gs_pending s = Map.empty" by (simp add: http_inv_def)
    have "serving W token (es @ [Forwarded rq (gs_ids s) peer body]) rq (gs_ids s) []"
      if "admit (gw_json W) token (gs_peer s) rq = Admitted peer body" "json_rpc_has_id (gw_json W) body" for peer body
      using admit_admissible [OF that(1)] that(2) pr by (auto simp: serving_def)
    then show ?thesis using a m p ch pr mn' by (auto simp: http_accept_def gw_inv_def http_inv_def split: admission.splits if_splits)
  next
    assume a: "http_insert s = Some (es', s')"
    then obtain rq peer i body where m: "gs_http s = Inserting rq peer i body" by (auto simp: http_insert_def split: http_pc.splits)
    with h obtain mm where mm: "serving W token es rq i mm" "gs_pending s = Map.empty" by (auto simp: http_inv_def)
    then show ?thesis using a m ch pr mn' by (auto simp: http_insert_def gw_inv_def http_inv_def open_call_def split: if_splits)
  next
    assume a: "http_take s = Some (es', s')"
    then obtain rq i n where m: "gs_http s = Waiting rq i n" by (auto simp: http_take_def split: http_pc.splits)
    with h have "open_call W token es s rq i n" by (simp add: http_inv_def)
    then show ?thesis using a m ch pr mn' by (auto simp: http_take_def open_call_def gw_inv_def http_inv_def)
  next
    assume a: "http_timeout s = Some (es', s')"
    then obtain rq i n where m: "gs_http s = Waiting rq i n" by (auto simp: http_timeout_def split: http_pc.splits)
    with h have "open_call W token es s rq i n" by (simp add: http_inv_def)
    then have "dom (gs_pending s) \<subseteq> {i}" by (auto simp: open_call_def split: if_splits)
    then show ?thesis using a m ch pe pr mn' by (auto simp: http_timeout_def gw_inv_def http_inv_def split: if_splits)
  next
    assume a: "http_give_up s = Some (es', s')"
    then obtain rq i resp where m: "gs_http s = GivingUp rq i resp" by (auto simp: http_give_up_def split: http_pc.splits)
    with h have "dom (gs_pending s) \<subseteq> {i}" by (simp add: http_inv_def)
    then have "(gs_pending s)(i := None) = Map.empty" by (auto simp: fun_eq_iff dom_def)
    then show ?thesis using a m ch pr mn' by (auto simp: http_give_up_def gw_inv_def http_inv_def)
  }
qed

lemma gw_inv_start: "gw_inv W token [] (gateway_start up k)"
  by (simp add: gw_inv_def http_inv_def gateway_start_def last_device_def)

lemma gw_do_inv:
  assumes I: "gw_inv W token es s" and d: "gw_do W token a s = Some (es', s')"
  shows "gw_inv W token (es @ es') s'"
proof (cases a)
  case (RecvFails e)
  with d show ?thesis by (intro gw_inv_main [OF I]) (auto split: if_splits)
next
  case Ask
  with d show ?thesis by (intro gw_inv_main [OF I]) (auto simp: ask_def split: main_pc.splits option.splits prod.splits)
next
  case SendReply
  with d show ?thesis by (intro gw_inv_main [OF I]) (auto simp: send_reply_def split: main_pc.splits outcome.splits prod.splits)
qed (use d gw_inv_recv [OF I] gw_inv_deliver [OF I] gw_inv_http_send [OF I] gw_inv_http [OF I] in \<open>(simp; blast)+\<close>)

lemma gw_run_inv: "gw_run W token (gateway_start up k) es s \<Longrightarrow> gw_inv W token es s"
  by (induction rule: gw_run.induct) (auto intro: gw_inv_start gw_do_inv)

lemma gw_do_answer:
  assumes I: "gw_inv W token es s" and d: "gw_do W token a s = Some (es', s')" and e: "Answered rq (RespondJson 200 b) \<in> set es'"
  shows "es' = [Answered rq (RespondJson 200 b)] \<and> (\<exists>i m. serving W token es rq i m \<and> Delivered i b \<in> set m \<and> came_in es i b)"
proof -
  have h: "http_inv W token es s" using I by (simp add: gw_inv_def)
  show ?thesis
  proof (cases a)
    case (Request r)
    then show ?thesis using d e admit_no_success [of "gw_json W" token "gs_peer s" r _ b]
      by (auto simp: http_accept_def split: http_pc.splits admission.splits)
  next
    case Send
    then show ?thesis using d e by (auto simp: http_send_def bridge_failed_def Let_def split: http_pc.splits prod.splits outcome.splits option.splits)
  next
    case Take
    then obtain r i n where m: "gs_http s = Waiting r i n" using d by (auto simp: http_take_def split: http_pc.splits)
    then have o: "open_call W token es s r i n" using h by (simp add: http_inv_def)
    have t: "es' = [Answered rq (RespondJson 200 b)]" "rq = r" "b \<in> set (gs_channel s n)"
      using Take d e m by (auto simp: http_take_def split: list.splits)
    with o obtain mm where "serving W token es r i mm" "Delivered i b \<in> set mm" "came_in es i b" by (auto simp: open_call_def)
    with t show ?thesis by blast
  next
    case GiveUp
    then show ?thesis using d e h by (auto simp: http_give_up_def http_inv_def split: http_pc.splits)
  qed (use d e in \<open>auto simp: recv_datagram_def deliver_def ask_def send_reply_def http_insert_def http_timeout_def
         split: main_pc.splits http_pc.splits prod.splits outcome.splits option.splits if_splits\<close>)
qed

lemma gw_run_answer:
  "gw_run W token (gateway_start up k) es s \<Longrightarrow> es = pre @ Answered rq (RespondJson 200 b) # post
     \<Longrightarrow> \<exists>i m. serving W token pre rq i m \<and> Delivered i b \<in> set m \<and> came_in pre i b"
proof (induction arbitrary: post rule: gw_run.induct)
  case (gw_act es s a es' s')
  show ?case
  proof (cases "\<exists>us. es = pre @ Answered rq (RespondJson 200 b) # us")
    case True
    then show ?thesis using gw_act.IH by blast
  next
    case False
    then obtain us where us: "es' = us @ Answered rq (RespondJson 200 b) # post" "pre = es @ us"
      using gw_act.prems by (auto simp: append_eq_append_conv2 append_eq_Cons_conv)
    then have A: "es' = [Answered rq (RespondJson 200 b)]" "\<exists>i m. serving W token es rq i m \<and> Delivered i b \<in> set m \<and> came_in es i b"
      using gw_do_answer [OF gw_run_inv [OF gw_act.hyps(1)] gw_act.hyps(3), of rq b] by auto
    then have "us = []" using us(1) by (cases us) auto
    with A(2) us(2) show ?thesis by simp
  qed
qed simp

text \<open>How many accesses the HTTP thread is still from its answer.\<close>

fun http_rank :: "'p http_pc \<Rightarrow> nat" where
  "http_rank Idle = 0"
| "http_rank (GivingUp _ _ _) = 1"
| "http_rank (Waiting _ _ _) = 2"
| "http_rank (Sending _ _ _ _ _) = 3"
| "http_rank (Inserting _ _ _ _) = 4"
| "http_rank Dead = 5"

lemma http_moves:
  assumes I: "gw_inv W token es s" and busy: "gs_http s \<noteq> Idle"
  shows "\<exists>a es' s'. gw_do W token a s = Some (es', s') \<and> http_rank (gs_http s') < http_rank (gs_http s)
     \<and> (gs_http s' = Idle \<longrightarrow> (\<exists>rq resp. es' = [Answered rq resp]))"
proof (cases "gs_http s")
  case (Inserting rq peer i body)
  then show ?thesis by (intro exI [of _ Insert]) (auto simp: http_insert_def)
next
  case (Sending rq peer i body w)
  obtain k res where sm: "send_message W peer HostRequest i body (gs_sock s) = (k, res)" by (cases "send_message W peer HostRequest i body (gs_sock s)")
  then have "res \<noteq> Panic" using send_message_not_Panic [of W peer HostRequest i body "gs_sock s"] by simp
  with sm Sending show ?thesis by (intro exI [of _ Send]) (cases res; cases w; auto simp: http_send_def)
next
  case (Waiting rq i n)
  show ?thesis
  proof (cases "gs_channel s n")
    case Nil
    with Waiting show ?thesis by (intro exI [of _ Timeout]) (auto simp: http_timeout_def)
  next
    case (Cons b bs)
    with Waiting show ?thesis by (intro exI [of _ Take]) (auto simp: http_take_def)
  qed
next
  case (GivingUp rq i resp)
  then show ?thesis by (intro exI [of _ GiveUp]) (auto simp: http_give_up_def)
qed (use I busy in \<open>auto simp: gw_inv_def http_inv_def\<close>)

text \<open>C39: An HTTP answer was delivered for its request: in every interleaving of the gateway's two threads, when a request is
  answered with status 200 and some bytes, then that request was a POST to the endpoint with an allowed origin, the bearer token and
  a JSON-RPC 2.0 body with an id and at most 64 KiB; it was the last one forwarded, and it was forwarded to the address of the last
  device message received until then; and after it was forwarded, a received device response of exactly these bytes under its
  message id was delivered. The gateway does not check who sent that response, since the datagram link is not authenticated; but
  when all messages received have one and the same sender, then the request was forwarded to that sender, and the answer is its
  own. Between requests the table of waiting requests is empty, and while one is being served the thread always has a next step
  that brings it closer to its answer.\<close>

theorem gateway_answers_its_request:
  assumes "gw_run W token (gateway_start up k) es s"
  shows "(\<forall>pre rq b post. es = pre @ Answered rq (RespondJson 200 b) # post \<longrightarrow>
      (\<exists>a i peer body m. pre = a @ Forwarded rq i peer body # m \<and> \<not> forwards m \<and> last_device a = Some peer
         \<and> admissible (gw_json W) token rq body \<and> json_rpc_has_id (gw_json W) body \<and> Delivered i b \<in> set m
         \<and> (\<exists>src. Received src \<lparr>cm_kind = DeviceResponse, cm_message_id = i, cm_payload = b\<rparr> \<in> set pre
              \<and> (\<forall>dev. (\<forall>src' m'. Received src' m' \<in> set pre \<longrightarrow> src' = dev) \<longrightarrow> peer = dev \<and> src = dev))))
    \<and> (gs_http s = Idle \<longrightarrow> gs_pending s = Map.empty)
    \<and> (gs_http s \<noteq> Idle \<longrightarrow> (\<exists>a es' s'. gw_do W token a s = Some (es', s') \<and> http_rank (gs_http s') < http_rank (gs_http s)
         \<and> (gs_http s' = Idle \<longrightarrow> (\<exists>rq resp. es' = [Answered rq resp]))))"
proof (intro conjI allI impI)
  fix pre rq b post
  assume "es = pre @ Answered rq (RespondJson 200 b) # post"
  from gw_run_answer [OF assms this] obtain i m where "serving W token pre rq i m" and d: "Delivered i b \<in> set m" and c: "came_in pre i b" by blast
  then obtain a peer body where s: "pre = a @ Forwarded rq i peer body # m" "\<not> forwards m" "last_device a = Some peer"
      "admissible (gw_json W) token rq body" "json_rpc_has_id (gw_json W) body"
    by (auto simp: serving_def)
  obtain src where src: "Received src \<lparr>cm_kind = DeviceResponse, cm_message_id = i, cm_payload = b\<rparr> \<in> set pre" using c by (auto simp: came_in_def)
  obtain m' where "Received peer m' \<in> set pre" using last_device_heard [OF s(3)] s(1) by auto
  then have "peer = dev \<and> src = dev" if "\<forall>src' m'. Received src' m' \<in> set pre \<longrightarrow> src' = dev" for dev using that src by blast
  then show "\<exists>a i peer body m. pre = a @ Forwarded rq i peer body # m \<and> \<not> forwards m \<and> last_device a = Some peer
       \<and> admissible (gw_json W) token rq body \<and> json_rpc_has_id (gw_json W) body \<and> Delivered i b \<in> set m
       \<and> (\<exists>src. Received src \<lparr>cm_kind = DeviceResponse, cm_message_id = i, cm_payload = b\<rparr> \<in> set pre
            \<and> (\<forall>dev. (\<forall>src' m'. Received src' m' \<in> set pre \<longrightarrow> src' = dev) \<longrightarrow> peer = dev \<and> src = dev))"
    using s d src by blast
next
  show "gs_http s = Idle \<Longrightarrow> gs_pending s = Map.empty"
    using gw_run_inv [OF assms] by (simp add: gw_inv_def http_inv_def)
qed (rule http_moves [OF gw_run_inv [OF assms]])

subsection \<open>Event streams\<close>

lemma find_event_match: "find_event W want es = Inr x \<Longrightarrow> \<exists>event \<in> set es. \<exists>v. js_parse_str (gw_json W) (event_data (gw_classes W) event) = Some v
    \<and> (want = None \<or> js_get (lit ''id'') v = want) \<and> x = utf8 (event_data (gw_classes W) event)"
  by (induction W want es rule: find_event.induct) (auto simp: Let_def split: if_splits option.splits)

lemma split_blank_event: "\<not> 10 \<in> set x \<Longrightarrow> split_blank (x @ [10, 10]) = [x, []]"
proof (induction x)
  case (Cons a x)
  then show ?case by (cases x) auto
qed simp

text \<open>One message event, as servers send it, comes out as the bytes of its data.\<close>

lemma sse_single_event:
  assumes d: "data \<noteq> []" "\<not> 10 \<in> set data" "\<not> is_whitespace (gw_classes W) (hd data)" and w: "is_whitespace (gw_classes W) 32"
    and v: "js_parse_str (gw_json W) data = Some v" "want = None \<or> js_get (lit ''id'') v = want"
    and b: "from_utf8 body = Utf8Ok" "from_utf8_lossy body = lit ''data: '' @ data @ [10, 10]"
  shows "extract_sse_json W body want = Inr (utf8 data)"
proof -
  let ?l = "lit ''data: '' @ data"
  have n: "\<not> 10 \<in> set ?l" using d(2) by (auto simp: lit_def)
  then have "str_lines ?l = [?l]" by (subst str_lines.simps) (simp add: lit_def)
  moreover have "dropWhile (is_whitespace (gw_classes W)) (drop 5 ?l) = data"
    using d(1,3) w by (cases data) (simp_all add: lit_def)
  moreover have "starts_with (lit ''data:'') ?l" by (simp add: starts_with_def lit_def)
  ultimately have "event_data (gw_classes W) ?l = data" by (simp add: event_data_def)
  moreover have "split_blank (from_utf8_lossy body) = [?l, []]" using split_blank_event [OF n] b(2) by simp
  ultimately show ?thesis using d(1) v b(1) by (auto simp: extract_sse_json_def)
qed

subsection \<open>An empty reply\<close>

text \<open>C40: An upstream reply without a body ends the gateway: when the upstream server answers a device's request with an empty
  body, the framing refuses to send it, and the error leaves the receiving loop, so nothing more is served.\<close>

theorem empty_reply_ends_gateway:
  assumes "gs_main s = Asking src i payload" and "gs_upstream s = Some u"
    and "snd (upstream_call W payload (u, gs_sock s)) = Inr []"
  shows "\<exists>s1 s2. gw_do W token Ask s = Some ([], s1) \<and> gw_do W token SendReply s1 = Some ([], s2)
    \<and> stopped s2 \<and> (\<forall>es' s'. gw_run W token s2 es' s' \<longrightarrow> es' = [] \<and> s' = s2)"
proof -
  obtain uk where c: "upstream_call W payload (u, gs_sock s) = (uk, Inr [])"
    using assms(3) by (cases "upstream_call W payload (u, gs_sock s)") auto
  obtain u' k where uk: "uk = (u', k)" by (cases uk)
  define s1 where "s1 = s\<lparr>gs_upstream := Some u', gs_sock := k, gs_main := Replying src i []\<rparr>"
  define s2 where "s2 = s1\<lparr>gs_main := Stopped (gw_error_text W InvalidFragment)\<rparr>"
  have "gw_do W token Ask s = Some ([], s1)" using assms(1,2) c uk by (simp add: ask_def s1_def)
  moreover have "gw_do W token SendReply s1 = Some ([], s2)" by (simp add: send_reply_def send_message_def fragment_count_def s2_def s1_def)
  moreover have st: "stopped s2" by (simp add: stopped_def s2_def)
  moreover have "es' = [] \<and> s' = s2" if "gw_run W token s2 es' s'" for es' s'
    using that by (induction rule: gw_run.induct) (use st in auto)
  ultimately show ?thesis by blast
qed

subsection \<open>A small gateway\<close>

text \<open>Device addresses are numbers, the socket keeps what it sent, the server answers with an empty body, and every byte
  string reads as the same JSON-RPC message.\<close>

definition demo_world :: "(nat, (nat \<times> bytes) list) gw_world" where
  "demo_world = \<lparr>gw_json = \<lparr>js_parse = (\<lambda>_. Some (js_obj [(''jsonrpc'', js_str ''2.0''), (''id'', JNum 7), (''result'', JNull)])), js_parse_str = (\<lambda>_. None), js_bytes = (\<lambda>_. [1]), js_pretty = (\<lambda>_. [])\<rparr>,
     gw_classes = ascii_classes, gw_send_to = (\<lambda>p dg k. (k @ [(p, dg)], None)),
     gw_post = (\<lambda>_ _ body k. (k, Inr \<lparr>re_header = (\<lambda>_. None), re_body = Inr []\<rparr>)), gw_version = lit ''1'',
     gw_error_text = (\<lambda>_. lit ''error''), gw_parse_error = (\<lambda>_. [])\<rparr>"

definition demo_token :: chars where "demo_token = lit ''0123456789abcdefghijklmn''"

definition demo_request :: http_request where
  "demo_request = \<lparr>rq_url = lit ''/mcp'', rq_method = lit ''POST'', rq_headers = [(lit ''authorization'', lit ''Bearer '' @ demo_token)], rq_body = ([7], False)\<rparr>"

lemma demo_admit: "admit (gw_json demo_world) demo_token (Some p) demo_request = Admitted p [7]"
  by (simp add: admit_def demo_request_def demo_token_def demo_world_def lit_def header_value_def eq_ignore_ascii_case_def ascii_lower_def
      origin_allowed_def read_limited_def MAX_MESSAGE_def valid_json_rpc_def js_obj_def js_get_def js_as_str_def)

lemma demo_has_id: "json_rpc_has_id (gw_json demo_world) body"
  by (simp add: json_rpc_has_id_def json_rpc_id_def demo_world_def js_obj_def js_get_def lit_def)

text \<open>A message of one datagram is complete at once.\<close>

lemma one_datagram:
  assumes "sendable m" "length m \<le> 1176" "length m \<le> length (rs_buffer r)" "\<not> rs_active r"
  shows "snd (reassembler_push r (datagram k i m 0)) = Ok (Some \<lparr>cm_kind = k, cm_message_id = i, cm_payload = m\<rparr>)
     \<and> \<not> rs_active (fst (reassembler_push r (datagram k i m 0))) \<and> length (rs_buffer (fst (reassembler_push r (datagram k i m 0)))) = length (rs_buffer r)"
proof -
  have "0 < length m" using assms(1) by (simp add: sendable_def)
  then have f: "fragments (length m) = 1" using assms(2) less_fragments_iff [of 0 "length m"] less_fragments_iff [of 1 "length m"] by (simp add: not_less)
  have "collecting k i m {} r" using assms by (simp add: collecting_def same_message_def)
  from wire.push_dg [OF assms(1) _ this, of 0] show ?thesis using f by (simp add: length_push lessThan_Suc)
qed

lemma send_message_Ok:
  assumes "sendable m" and "\<And>p d k. snd (gw_send_to W p d k) = None"
  shows "snd (send_message W peer knd i m k) = Ok ()"
proof -
  have e: "\<exists>n out. encode_fragment knd i m (of_nat x) (replicate MAX_DATAGRAM 0) = Ok (n, out)" if "x < fragments (length m)" for x
    using encode_fragment_eq [OF assms(1) that, of "replicate MAX_DATAGRAM 0"] by (simp add: length_fragment_payload MAX_DATAGRAM_def)
  have "list_all (\<lambda>x. x < fragments (length m)) xs \<Longrightarrow> snd (send_fragments W peer knd i m xs k) = Ok ()" for xs k
  proof (induction xs arbitrary: k)
    case (Cons x xs)
    then have "x < fragments (length m)" by simp
    from e [OF this] obtain n out where "encode_fragment knd i m (of_nat x) (replicate MAX_DATAGRAM 0) = Ok (n, out)" by blast
    moreover obtain k' where "gw_send_to W peer (take n out) k = (k', None)" using assms(2) [of peer "take n out" k] by (cases "gw_send_to W peer (take n out) k") auto
    ultimately show ?case using Cons by simp
  qed simp
  moreover have "fragments (length m) \<le> 64" "m \<noteq> []" using assms(1) by (auto simp: sendable_def fragments_bound [symmetric])
  ultimately show ?thesis using assms(1) fragment_count_eq [of "length m"]
    by (simp add: send_message_def sendable_def unat_of_nat_less fragments_bound list_all_iff)
qed

lemma demo_recv:
  assumes "gs_main s = Receiving" "\<not> rs_active (gs_reassembler s)" "length (rs_buffer (gs_reassembler s)) = MAX_MESSAGE" "m \<noteq> []" "length m \<le> 1176"
  shows "\<exists>r. gw_do W token (Datagram src (datagram knd i m 0)) s = Some ([Received src \<lparr>cm_kind = knd, cm_message_id = i, cm_payload = m\<rparr>],
            dispatch src \<lparr>cm_kind = knd, cm_message_id = i, cm_payload = m\<rparr> (s\<lparr>gs_reassembler := r\<rparr>))
     \<and> \<not> rs_active r \<and> length (rs_buffer r) = MAX_MESSAGE"
proof -
  have "sendable m" "length m \<le> length (rs_buffer (gs_reassembler s))" using assms(3-5) by (auto simp: sendable_def MAX_MESSAGE_def)
  from one_datagram [OF this(1) assms(5) this(2) assms(2), of knd i]
  show ?thesis using assms(1,3) by (cases "reassembler_push (gs_reassembler s) (datagram knd i m 0)") (auto simp: recv_datagram_def)
qed

lemma demo_start: "gs_main (gateway_start up k) = Receiving" "\<not> rs_active (gs_reassembler (gateway_start up k))"
    "length (rs_buffer (gs_reassembler (gateway_start up k))) = MAX_MESSAGE"
  by (simp_all add: gateway_start_def reassembler_default_def)

lemma gw_once: "\<not> stopped s0 \<Longrightarrow> gw_do W token a s0 = Some (es, s') \<Longrightarrow> gw_run W token s0 es s'"
  using gw_act [OF gw_nil] by fastforce

text \<open>The device said hello and a request has been forwarded to it.\<close>

lemma demo_forwarded:
  "\<exists>s. gw_run demo_world demo_token (gateway_start None []) [Received 5 \<lparr>cm_kind = Hello, cm_message_id = 0, cm_payload = [9]\<rparr>, Forwarded demo_request 1 5 [7]] s
     \<and> gs_main s = Receiving \<and> \<not> rs_active (gs_reassembler s) \<and> length (rs_buffer (gs_reassembler s)) = MAX_MESSAGE
     \<and> gs_http s = Waiting demo_request 1 0 \<and> gs_pending s = [1 \<mapsto> 0] \<and> gs_channel s = (\<lambda>_. [])"
proof -
  let ?h = "\<lparr>cm_kind = Hello, cm_message_id = 0, cm_payload = [9]\<rparr>" 
  define s0 where "s0 = (gateway_start None [] :: (nat, (nat \<times> bytes) list) gateway)"
  have start: "gs_main s0 = Receiving" "\<not> rs_active (gs_reassembler s0)" "length (rs_buffer (gs_reassembler s0)) = MAX_MESSAGE"
    by (simp_all add: s0_def demo_start)
  obtain r where r: "gw_do demo_world demo_token (Datagram 5 (datagram Hello 0 [9] 0)) s0 = Some ([Received 5 ?h], dispatch 5 ?h (s0\<lparr>gs_reassembler := r\<rparr>))"
      "\<not> rs_active r" "length (rs_buffer r) = MAX_MESSAGE"
    using demo_recv [OF start, of "[9]" demo_world demo_token 5 Hello 0] by auto
  define s1 where "s1 = s0\<lparr>gs_reassembler := r, gs_peer := Some 5\<rparr>"
  have "dispatch 5 ?h (s0\<lparr>gs_reassembler := r\<rparr>) = s1" by (simp add: dispatch_def s1_def)
  then have run1: "gw_run demo_world demo_token s0 [Received 5 ?h] s1" using gw_once [OF _ r(1)] start(1) by (simp add: stopped_def)
  define s2 where "s2 = s1\<lparr>gs_ids := 2, gs_http := Inserting demo_request 5 1 [7]\<rparr>"
  have "gw_do demo_world demo_token (Request demo_request) s1 = Some ([Forwarded demo_request 1 5 [7]], s2)"
    by (simp add: http_accept_def s1_def s2_def s0_def gateway_start_def demo_admit demo_has_id)
  moreover have ns: "\<not> stopped s1" "\<not> stopped s2" by (simp_all add: stopped_def s2_def s1_def start)
  ultimately have run2: "gw_run demo_world demo_token s0 ([Received 5 ?h] @ [Forwarded demo_request 1 5 [7]]) s2" using gw_act [OF run1] by blast
  define s3 where "s3 = s2\<lparr>gs_pending := [1 \<mapsto> 0], gs_opened := 1, gs_http := Sending demo_request 5 1 [7] (Some 0)\<rparr>"
  have "gw_do demo_world demo_token Insert s2 = Some ([], s3)" by (simp add: http_insert_def s3_def s2_def s1_def s0_def gateway_start_def)
  from gw_act [OF run2 ns(2) this] have run3: "gw_run demo_world demo_token s0 ([Received 5 ?h] @ [Forwarded demo_request 1 5 [7]]) s3" by simp
  have "snd (send_message demo_world 5 HostRequest 1 [7] []) = Ok ()"
    by (rule send_message_Ok) (simp_all add: sendable_def demo_world_def)
  then obtain k where k: "send_message demo_world 5 HostRequest 1 [7] [] = (k, Ok ())" by (cases "send_message demo_world 5 HostRequest 1 [7] []") auto
  define s4 where "s4 = s3\<lparr>gs_sock := k, gs_http := Waiting demo_request 1 0\<rparr>"
  have "gw_do demo_world demo_token Send s3 = Some ([], s4)" using k by (simp add: http_send_def s4_def s3_def s2_def s1_def s0_def gateway_start_def)
  moreover have ns3: "\<not> stopped s3" "\<not> stopped s4" by (simp_all add: stopped_def s4_def s3_def s2_def s1_def start)
  ultimately have run4: "gw_run demo_world demo_token s0 ([Received 5 ?h] @ [Forwarded demo_request 1 5 [7]]) s4" using gw_act [OF run3, of Send "[]" s4] by simp
  moreover have "gs_main s4 = Receiving" "gs_reassembler s4 = r" "gs_http s4 = Waiting demo_request 1 0" "gs_pending s4 = [1 \<mapsto> 0]" "gs_channel s4 = (\<lambda>_. [])"
    by (simp_all add: s4_def s3_def s2_def s1_def start) (simp add: s0_def gateway_start_def)
  ultimately show ?thesis using r(2,3) unfolding s0_def by fastforce
qed

lemma gateway_answers_its_request_witness:
  "\<exists>es s i body. gw_run demo_world demo_token (gateway_start None []) es s \<and> Answered demo_request (RespondJson 200 [42]) \<in> set es
     \<and> admissible (gw_json demo_world) demo_token demo_request body \<and> Delivered i [42] \<in> set es \<and> gs_pending s = Map.empty"
proof -
  let ?h = "\<lparr>cm_kind = Hello, cm_message_id = 0, cm_payload = [9]\<rparr>" and ?d = "\<lparr>cm_kind = DeviceResponse, cm_message_id = 1, cm_payload = [42]\<rparr>"
  obtain s4 where s4: "gw_run demo_world demo_token (gateway_start None []) [Received 5 ?h, Forwarded demo_request 1 5 [7]] s4"
      "gs_main s4 = Receiving" "\<not> rs_active (gs_reassembler s4)" "length (rs_buffer (gs_reassembler s4)) = MAX_MESSAGE"
      "gs_http s4 = Waiting demo_request 1 0" "gs_pending s4 = [1 \<mapsto> 0]" "gs_channel s4 = (\<lambda>_. [])"
    using demo_forwarded by blast
  have ns4: "\<not> stopped s4" using s4(2) by (simp add: stopped_def)
  obtain r' where r': "gw_do demo_world demo_token (Datagram 5 (datagram DeviceResponse 1 [42] 0)) s4 = Some ([Received 5 ?d], dispatch 5 ?d (s4\<lparr>gs_reassembler := r'\<rparr>))"
    using demo_recv [OF s4(2-4), of "[42]" demo_world demo_token 5 DeviceResponse 1] by auto
  define s5 where "s5 = s4\<lparr>gs_reassembler := r', gs_peer := Some 5, gs_main := Delivering 1 [42]\<rparr>"
  have "dispatch 5 ?d (s4\<lparr>gs_reassembler := r'\<rparr>) = s5" by (simp add: dispatch_def s5_def)
  with gw_act [OF s4(1) ns4 r'] have run5: "gw_run demo_world demo_token (gateway_start None []) ([Received 5 ?h, Forwarded demo_request 1 5 [7], Received 5 ?d]) s5" by simp
  define s6 where "s6 = s5\<lparr>gs_pending := Map.empty, gs_channel := (\<lambda>_. [])(0 := [[42]]), gs_main := Receiving\<rparr>"
  have "gw_do demo_world demo_token Deliver s5 = Some ([Delivered 1 [42]], s6)"
    by (simp add: deliver_def s6_def s5_def s4 fun_eq_iff)
  moreover have ns5: "\<not> stopped s5" "\<not> stopped s6" by (simp_all add: stopped_def s5_def s6_def)
  ultimately have run6: "gw_run demo_world demo_token (gateway_start None []) [Received 5 ?h, Forwarded demo_request 1 5 [7], Received 5 ?d, Delivered 1 [42]] s6"
    using gw_act [OF run5, of Deliver "[Delivered 1 [42]]" s6] by simp
  obtain s7 where "gw_do demo_world demo_token Take s6 = Some ([Answered demo_request (RespondJson 200 [42])], s7)" "gs_http s7 = Idle"
    by (simp add: http_take_def s6_def s5_def s4)
  then have t: "gw_do demo_world demo_token Take s6 = Some ([Answered demo_request (RespondJson 200 [42])], s7)" and idle: "gs_http s7 = Idle" by simp_all
  from gw_act [OF run6 ns5(2) t] have run7: "gw_run demo_world demo_token (gateway_start None []) ([Received 5 ?h, Forwarded demo_request 1 5 [7], Received 5 ?d, Delivered 1 [42]]
      @ Answered demo_request (RespondJson 200 [42]) # []) s7" by simp
  note T = gateway_answers_its_request [OF run7]
  from T [THEN conjunct1, rule_format, OF refl] T [THEN conjunct2, THEN conjunct1] run7 idle show ?thesis
    by fastforce
qed

lemma demo_call: "snd (upstream_call demo_world body (u, k)) = Inr []"
  by (simp add: upstream_call_def ensure_initialized_def upstream_post_def demo_world_def js_obj_def js_get_def lit_def Let_def split_beta split: prod.splits)

lemma empty_reply_ends_gateway_witness:
  "\<exists>es s s1 s2. gw_run demo_world demo_token (gateway_start (Some (upstream_new [] None)) []) es s
     \<and> gw_do demo_world demo_token Ask s = Some ([], s1) \<and> gw_do demo_world demo_token SendReply s1 = Some ([], s2) \<and> stopped s2"
proof -
  let ?q = "\<lparr>cm_kind = DeviceRequest, cm_message_id = 3, cm_payload = [8]\<rparr>"
  define s0 where "s0 = (gateway_start (Some (upstream_new [] None)) [] :: (nat, (nat \<times> bytes) list) gateway)"
  have start: "gs_main s0 = Receiving" "\<not> rs_active (gs_reassembler s0)" "length (rs_buffer (gs_reassembler s0)) = MAX_MESSAGE"
    by (simp_all add: s0_def demo_start)
  obtain r where r: "gw_do demo_world demo_token (Datagram 5 (datagram DeviceRequest 3 [8] 0)) s0 = Some ([Received 5 ?q], dispatch 5 ?q (s0\<lparr>gs_reassembler := r\<rparr>))"
    using demo_recv [OF start, of "[8]" demo_world demo_token 5 DeviceRequest 3] by auto
  define s1 where "s1 = dispatch 5 ?q (s0\<lparr>gs_reassembler := r\<rparr>)"
  have "gw_run demo_world demo_token s0 [Received 5 ?q] s1" using gw_once [OF _ r] start(1) by (simp add: stopped_def s1_def)
  moreover have "gs_main s1 = Asking 5 3 [8]" "gs_upstream s1 = Some (upstream_new [] None)" by (simp_all add: s1_def dispatch_def s0_def gateway_start_def)
  note empty_reply_ends_gateway [OF this, of demo_world demo_token, OF demo_call]
  ultimately show ?thesis unfolding s0_def by blast
qed

end
