(* ===== verification/Spec2Isabelle.thy ===== *)
theory Spec2Isabelle
  imports Nr_Mcp Nr_Convert Nr_Network Nr_Tokbuild Nr_Parallel Nr_Context Nr_Sample Nr_Converter Nr_Screens Nr_Boot Nr_Gateway
begin

text \<open>
  NightRun boots a machine straight into a chat with a local language model. A UEFI program (\<^verbatim>\<open>crates/nr-boot\<close>) brings up
  the display and the other processors, streams and checks one model file, builds an inference context and then runs a chat
  loop; there is no operating system below it. Around it are the model converter (\<^verbatim>\<open>tools/nrconvert\<close>), which makes the model
  file from a GGUF file, and a gateway on another host (\<^verbatim>\<open>tools/nrmcp-gateway\<close>), which carries JSON-RPC between HTTP and the
  device's datagrams. This library models these programs theory by theory, next to the sources, and proves what makes each
  part correct.

  \<^bold>\<open>How the sources are modelled.\<close> Every function that can fail returns an \<open>outcome\<close>: \<open>Ok\<close>, \<open>Err\<close> with the source's error,
  or \<open>Panic\<close> (\<open>Nr_Prelude\<close>). Slices, indexing, \<open>expect\<close>, assertions and divisions are the operations that panic; a theorem with \<open>Ok\<close> in its
  conclusion therefore also says that nothing panics. Values on the wire and in files are words of their width; \<open>usize\<close> is a
  natural number with \<open>usize_limit\<close> written out where the code checks or wraps; arithmetic wraps as in a release build. Screen
  coordinates are integers, reduced to 32 bits where the code's result could leave that range on a display of the sizes
  assumed. Text is a list of code points, with its UTF-8 bytes where the code counts bytes (\<open>Nr_Utf8\<close>). An \<open>f32\<close> is its bit
  pattern: conversions, comparisons and sign operations are computed on bits, while rounded arithmetic and the mathematical
  library are the parameter record of a floating-point unit, about which nothing is assumed; equalities of numeric results
  are thus equalities of the computations, operation by operation. Firmware, network card, keyboard, clock, sockets, the
  HTTP and JSON libraries, the Unicode tables and the library's sort are parameters, and what the code relies on about them is a named
  hypothesis (such as \<open>nic_sane\<close>, \<open>nic_drains\<close>, \<open>reads_file\<close>, \<open>mp_grows\<close>).

  \<^bold>\<open>Model file.\<close> \<open>Nr_Crc32\<close>: the table-driven and the bitwise CRC-32 agree and detect short bursts. \<open>Nr_Format\<close>
  (\<^verbatim>\<open>nr-model/src/format.rs\<close>): the parser of the container; accepted tensors lie in the data, aligned, with their exact size.
  \<open>Nr_Verify\<close> (\<^verbatim>\<open>verify.rs\<close>, \<^verbatim>\<open>nr-boot/src/modelload.rs\<close>): the streaming verifier and the read loop; the verdict does not depend on how the
  file is cut into reads. \<open>Nr_Convert\<close> and \<open>Nr_Converter\<close> (\<^verbatim>\<open>nrconvert/src/main.rs\<close>): the writer, whose files are accepted by
  verifier and parser, and the front end with its self-check; \<open>Nr_Gguf\<close> (\<^verbatim>\<open>gguf.rs\<close>): the GGUF reader against a separate
  writer of the format; \<open>Nr_Tokbuild\<close> (\<^verbatim>\<open>tokenizer.rs\<close>): the tokenizer builder.

  \<^bold>\<open>Tokens and text.\<close> \<open>Nr_Utf8\<close>: the standard library's UTF-8 validation and the stream decoder that never splits a
  character. \<open>Nr_Pretok\<close>: the scanner equals its regular expression, under a backtracking matcher. \<open>Nr_Token\<close>: blob parser,
  merges and chat templates; the encoder computes the normal form of the merge relation \<open>bpe_step\<close>.

  \<^bold>\<open>Inference.\<close> \<open>Nr_Float\<close>, \<open>Nr_Blocks\<close>, \<open>Nr_Kquant\<close>: number formats and block layouts. \<open>Nr_Simd\<close>, \<open>Nr_Neon\<close>, \<open>Nr_Avx2\<close>: the
  vector kernels lane by lane, against the scalar ones. \<open>Nr_Kernels\<close>: dispatch, and the batched products against the products
  token by token, proved once in the locale \<open>tile_kernel\<close> and interpreted for the three weight formats. \<open>Nr_Infer\<close>,
  \<open>Nr_Products\<close>, \<open>Nr_Layer\<close>, \<open>Nr_Prefill\<close> (\<^verbatim>\<open>infer.rs\<close>): the transformer; a batched prefill gives the same logits and caches as
  feeding the tokens one by one. \<open>Nr_Context\<close>: construction of the context over the bump arena, by the locale \<open>allocator\<close>. \<open>Nr_Sample\<close>: the sampler.

  \<^bold>\<open>Workers.\<close> \<open>Nr_Parallel\<close> (\<^verbatim>\<open>nr-tensor/src/parallel.rs\<close>): each atomic access of the main core and of each worker is a step, and the relation
  \<open>step\<close> has all interleavings, with sequentially consistent memory as in the code. The results about a run are about a pool
  whose start-up is over: exactly the activated workers exist, and each has read the sequence number. For the start-up
  itself, \<open>lost_wakeup\<close> shows the run that never returns.

  \<^bold>\<open>Network.\<close> \<open>Nr_Mcp\<close>: the datagram framing; the locale \<open>framing\<close> has the argument about reassembly. \<open>Nr_Inet\<close>, \<open>Nr_Net\<close>:
  checksums and the stack from Ethernet to UDP with its neighbour cache (locale \<open>neighbor_cache\<close>). \<open>Nr_Network\<close>
  (\<^verbatim>\<open>nr-boot/src/network.rs\<close>): the device's service over the firmware's card. \<open>Nr_Gateway\<close>: the two threads of the gateway as
  steps on their shared state; a run is a list of events.

  \<^bold>\<open>Screen and shell.\<close> \<open>Nr_Gfx\<close>, \<open>Nr_Chat\<close>, \<open>Nr_Screens\<close> (\<^verbatim>\<open>nr-gfx\<close>, \<^verbatim>\<open>nr-ui\<close>): a picture is a function on the back buffer,
  \<open>safe W H\<close> when it draws without a panic on every buffer of that size; the rules for \<open>safe\<close> compose, so each screen is a
  few lines. \<open>Nr_Reply\<close> and \<open>Nr_App\<close> (\<^verbatim>\<open>nr-boot/src/app.rs\<close>): one answer, the line editor, the commands, the JSON-RPC service
  and a round of the chat loop; \<open>session_ok\<close> and \<open>shell_ok\<close> are the invariants. \<open>Nr_Platform\<close>
  (\<^verbatim>\<open>smp.rs\<close>, \<^verbatim>\<open>video.rs\<close>, \<^verbatim>\<open>fan.rs\<close>, \<^verbatim>\<open>main.rs\<close>): worker start-up, display mode, fan registers, panic screen. \<open>Nr_Boot\<close>:
  the boot sequence; it establishes \<open>shell_ok\<close>, so the theorems on the chat loop apply to a machine that has booted, and it
  runs no image whose checksums do not hold.

  \<^bold>\<open>Loops and fuel.\<close> Loops are structural recursion, or \<open>function\<close> with a measure. Fuel is used for the poll of the network
  card and the draining of the keyboard, whose length the outside decides: \<open>poll_returns\<close> and \<open>chat_round_keeps\<close> show that a fuel above the measure
  under which the card drains, and above the number of keys waiting, gives a result. The main loops
  without end (the chat loop, the gateway's threads) are their rounds and steps.

  \<^bold>\<open>Bounds.\<close> The screens are shown safe on displays of at least 320 by 200, below 131072 a side, with fonts of at most 64 by
  64. Prompts are followed through generation as long as they fit the window left after \<open>make_room\<close>; \<open>long_prompt_panics\<close>
  shows what happens beyond. Counters of the worker pool are unbounded numbers.

  \<^bold>\<open>Not modelled.\<close> Log lines, stalls, the serial port, inline assembly that enables the vector units, error texts printed by
  \<open>Display\<close> implementations, the memory the arena hands out (only its addresses), the disk-image and build tool
  (\<^verbatim>\<open>tools/xtask\<close>), the host command line (\<^verbatim>\<open>tools/nrhost\<close>), shell scripts and web pages. JSON numbers are integers, and
  lossy text conversions follow the standard library's rule of one replacement character per malformed sequence.
\<close>

end
